(* ===== verification/Falcon_Exceptions.thy ===== *)
theory Falcon_Exceptions
  imports Main
begin

text \<open>
  The class \<open>falcon::Exception\<close> of \<open>src/src/exceptions.h\<close>, as compiled without
  \<open>DEBUG\<close>: the function, file and line members are only read by the debug variant of
  \<open>getErrorMessage\<close> and are left out. The C library's \<open>strerror\<close> is an argument of the
  functions that call it.
\<close>

record exn =
  e_upper :: "string option"
  e_code :: int
  e_message :: string

definition Exception :: "int \<Rightarrow> string \<Rightarrow> exn" where
  "Exception code message = \<lparr>e_upper = None, e_code = code, e_message = message\<rparr>"

definition Exception_code :: "(int \<Rightarrow> string) \<Rightarrow> int \<Rightarrow> exn" where
  "Exception_code strerror code = \<lparr>e_upper = None, e_code = code, e_message = strerror code\<rparr>"

definition Exception_forward :: "string \<Rightarrow> int \<Rightarrow> string \<Rightarrow> exn" where
  "Exception_forward upper code message =
     \<lparr>e_upper = Some upper, e_code = code, e_message = message\<rparr>"

definition getErrorMessage :: "(int \<Rightarrow> string) \<Rightarrow> exn \<Rightarrow> string" where
  "getErrorMessage strerror e =
     (case e_upper e of None \<Rightarrow> '''' | Some upper \<Rightarrow> upper @ [CHR 0x0A] @ ''[FORWARD] '') @
     ''['' @ strerror (e_code e) @ ''] '' @ e_message e"

text \<open>\<open>THROW_FORWARD_ERROR\<close> without \<open>DEBUG\<close> rebuilds the exception from its code and message.\<close>

definition forward_error :: "exn \<Rightarrow> exn" where
  "forward_error e = Exception (e_code e) (e_message e)"

lemma forward_error_code [simp]: "e_code (forward_error e) = e_code e"
  by (simp add: forward_error_def Exception_def)

lemma Exception_sel [simp]:
  "e_code (Exception c m) = c" "e_message (Exception c m) = m" "e_upper (Exception c m) = None"
  "e_code (Exception_forward u c m) = c" "e_message (Exception_forward u c m) = m"
  "e_upper (Exception_forward u c m) = Some u"
  by (simp_all add: Exception_def Exception_forward_def)

end
