(* ===== verification/Falcon_Prelude.thy ===== *)
theory Falcon_Prelude
  imports Falcon_Exceptions "HOL-Library.AList"
begin

text \<open>
  Prelude of the development: the result type in which the model expresses what the C++ code
  does when it throws, asserts or dereferences a null pointer; the monadic loop \<open>foldM\<close> that
  renders the \<open>for\<close> loops of the source; and the generic lemmas on loops, lists and finite
  sets that the component theories share.
\<close>

section \<open>Results\<close>

text \<open>
  What can end a C++ function other than its normal return.
  \<^item> \<open>Thrown e\<close>: the \<open>falcon::Exception\<close> \<open>e\<close> is thrown;
  \<^item> \<open>AssertFailed a\<close>: an \<open>assert\<close> does not hold and the process aborts;
  \<^item> \<open>NullDeref\<close>: a null pointer is dereferenced;
  \<^item> \<open>UseAfterFree\<close>: a pointer to a deleted object is dereferenced;
  \<^item> \<open>OutOfBounds\<close>: a read outside an array or a string;
  \<^item> \<open>InvalidIterator\<close>: an iterator is used with a container that it does not point into;
  \<^item> \<open>Blocks\<close>: a system call never returns;
  \<^item> \<open>NoFuel\<close>: the recursion bound of the model is used up (never reached when the bound is
    large enough, which the termination theorems state).
\<close>

datatype error =
    Thrown exn
  | AssertFailed string
  | NullDeref
  | UseAfterFree
  | OutOfBounds
  | InvalidIterator
  | Blocks
  | NoFuel

type_synonym 'a result = "error + 'a"

text \<open>\<open>THROW_ERROR\<close>, and the error codes of \<open>errno.h\<close> that the modelled code names (\<open>EWOULDBLOCK\<close> is \<open>EAGAIN\<close>).\<close>

definition EINVAL :: int where
  "EINVAL = 22"

definition EINTR :: int where
  "EINTR = 4"

definition EAGAIN :: int where
  "EAGAIN = 11"

definition throw_error :: "int \<Rightarrow> string \<Rightarrow> 'a result" where
  "throw_error code message = Inl (Thrown (Exception code message))"

definition assert_that :: "string \<Rightarrow> bool \<Rightarrow> 'a result \<Rightarrow> 'a result" where
  "assert_that what b k = (if b then k else Inl (AssertFailed what))"

definition rbind :: "'a result \<Rightarrow> ('a \<Rightarrow> 'b result) \<Rightarrow> 'b result" where
  "rbind m f = (case m of Inl e \<Rightarrow> Inl e | Inr x \<Rightarrow> f x)"

fun foldM :: "('a \<Rightarrow> 's \<Rightarrow> 's result) \<Rightarrow> 'a list \<Rightarrow> 's \<Rightarrow> 's result" where
  "foldM f [] s = Inr s"
| "foldM f (x # xs) s = rbind (f x s) (foldM f xs)"

named_theorems result_simps \<open>evaluation of results and monadic loops\<close>
named_theorems heap_simps \<open>reads and writes of the node and rule heaps\<close>

lemma rbind_Inr [simp, result_simps]: "rbind (Inr x) f = f x"
  by (simp add: rbind_def)

lemma rbind_Inl [simp, result_simps]: "rbind (Inl e) f = Inl e"
  by (simp add: rbind_def)

lemma rbind_eq_Inr: "rbind m f = Inr y \<longleftrightarrow> (\<exists>x. m = Inr x \<and> f x = Inr y)"
  by (cases m) auto

lemma rbind_eq_Inl: "rbind m f = Inl e \<longleftrightarrow> m = Inl e \<or> (\<exists>x. m = Inr x \<and> f x = Inl e)"
  by (cases m) auto

lemma rbind_cong [fundef_cong]:
  "m = m' \<Longrightarrow> (\<And>x. m' = Inr x \<Longrightarrow> f x = f' x) \<Longrightarrow> rbind m f = rbind m' f'"
  by (cases m') auto

lemma assert_that_True [simp, result_simps]: "b \<Longrightarrow> assert_that w b k = k"
  by (simp add: assert_that_def)

lemma assert_that_False [simp, result_simps]: "\<not> b \<Longrightarrow> assert_that w b k = Inl (AssertFailed w)"
  by (simp add: assert_that_def)

lemma assert_that_eq_Inr [simp]: "assert_that w b k = Inr y \<longleftrightarrow> b \<and> k = Inr y"
  by (simp add: assert_that_def)

lemma assert_that_cong [fundef_cong]:
  "w = w' \<Longrightarrow> b = b' \<Longrightarrow> (b' \<Longrightarrow> k = k') \<Longrightarrow> assert_that w b k = assert_that w' b' k'"
  by (simp add: assert_that_def)

lemma foldM_cong [fundef_cong]:
  "xs = ys \<Longrightarrow> s = t \<Longrightarrow> (\<And>x s. x \<in> set ys \<Longrightarrow> f x s = g x s) \<Longrightarrow> foldM f xs s = foldM g ys t"
proof (induction xs arbitrary: ys s t)
  case (Cons x xs)
  have "rbind (f x s) (foldM f xs) = rbind (g x s) (foldM g xs)"
    by (rule rbind_cong) (use Cons in auto)
  then show ?case using Cons.prems by auto
qed simp

lemma foldM_append: "foldM f (xs @ ys) s = rbind (foldM f xs s) (foldM f ys)"
proof (induction xs arbitrary: s)
  case (Cons x xs)
  then show ?case by (cases "f x s") auto
qed simp

section \<open>Output streams\<close>

text \<open>What \<open>operator<<\<close> writes for an unsigned number and for \<open>std::endl\<close>.\<close>

fun show_nat :: "nat \<Rightarrow> string" where
  "show_nat n = (if n < 10 then [char_of (48 + n)] else show_nat (n div 10) @ [char_of (48 + n mod 10)])"

declare show_nat.simps [simp del]

definition endl :: string where
  "endl = [CHR 0x0A]"

section \<open>Loops\<close>

text \<open>
  Total correctness of a \<open>for\<close> loop: \<open>P done s\<close> is the loop invariant after the elements
  \<open>done\<close> have been visited.
\<close>

lemma foldM_total:
  assumes "P [] s"
    and step: "\<And>done x rest s. xs = done @ x # rest \<Longrightarrow> P done s \<Longrightarrow>
                 \<exists>s'. f x s = Inr s' \<and> P (done @ [x]) s'"
  shows "\<exists>s'. foldM f xs s = Inr s' \<and> P xs s'"
proof -
  have "\<exists>s'. foldM f post s = Inr s' \<and> P xs s'" if "xs = pre @ post" and "P pre s" for pre post s
    using that
  proof (induction post arbitrary: pre s)
    case Nil
    then show ?case by simp
  next
    case (Cons y post)
    from step [OF Cons.prems] obtain s1 where s1: "f y s = Inr s1" "P (pre @ [y]) s1" by blast
    from Cons.prems have "xs = (pre @ [y]) @ post" by simp
    from Cons.IH [OF this s1(2)] s1(1) show ?case by simp
  qed
  from this [of "[]" xs s] assms(1) show ?thesis by simp
qed

text \<open>Partial correctness: an invariant of every successful iteration.\<close>

lemma foldM_inv:
  assumes "foldM f xs s = Inr s'" and "P s"
    and "\<And>x s s'. x \<in> set xs \<Longrightarrow> P s \<Longrightarrow> f x s = Inr s' \<Longrightarrow> P s'"
  shows "P s'"
  using assms
proof (induction xs arbitrary: s)
  case (Cons x xs)
  from Cons.prems(1) obtain t where t: "f x s = Inr t" "foldM f xs t = Inr s'"
    by (auto simp: rbind_eq_Inr)
  have "P t" using Cons.prems(2,3) t(1) by (metis list.set_intros(1))
  then show ?case using Cons.IH [OF t(2)] Cons.prems(3) by (metis list.set_intros(2))
qed simp

text \<open>A loop whose body never fails is an ordinary fold.\<close>

lemma foldM_Inr: "(\<And>x s. x \<in> set xs \<Longrightarrow> f x s = Inr (g x s)) \<Longrightarrow> foldM f xs s = Inr (fold g xs s)"
  by (induction xs arbitrary: s) auto

section \<open>Lists, maps and finite sets\<close>

lemma remove1_set_distinct: "distinct xs \<Longrightarrow> set (remove1 x xs) = set xs - {x}"
  by (rule set_remove1_eq)

lemma card_set_filter_distinct:
  "distinct xs \<Longrightarrow> card {x \<in> set xs. P x} = length (filter P xs)"
  by (metis distinct_card distinct_filter set_filter)

lemma map_leD: "m \<subseteq>\<^sub>m m' \<Longrightarrow> m x \<noteq> None \<Longrightarrow> m' x = m x"
  unfolding map_le_def by (metis domIff)

lemma card_pairs_disjoint:
  assumes "finite {i. (i, r) \<in> E}" and "finite {i. (i, r) \<in> F}" and "E \<inter> F = {}"
  shows "card {i. (i, r) \<in> E \<union> F} = card {i. (i, r) \<in> E} + card {i. (i, r) \<in> F}"
proof -
  have "{i. (i, r) \<in> E \<union> F} = {i. (i, r) \<in> E} \<union> {i. (i, r) \<in> F}" by auto
  then show ?thesis using assms by (simp add: card_Un_disjoint disjoint_iff)
qed

end
