(* ===== verification/Graph_Model.thy ===== *)
theory Graph_Model
  imports Falcon_Prelude
begin

text \<open>
  The graph of nodes and rules of \<open>src/src/graph.h\<close> and \<open>src/src/graph.cpp\<close>.

  Nodes and rules are heap objects that point to each other, so a pointer is an address
  (\<open>nid\<close> for \<open>Node*\<close>, \<open>rid\<close> for \<open>Rule*\<close>) and the two heaps are total functions
  from addresses to records inside the record \<open>graph\<close>, next to the members of the class
  \<open>Graph\<close>. \<open>std::set<Node*>\<close> is a set of addresses, iterated in increasing order;
  \<open>std::unordered_map\<close> is an association list whose order stands for the map's unspecified
  iteration order. Every \<open>assert\<close> is a branch of the model.

  The theory states the structural invariant of a graph (\<open>wf_graph\<close>), the invariant on its
  states and counters (\<open>state_ok\<close>, \<open>counters_ok\<close>), gives a closed form of the recursive
  dirty marking and shows that it keeps these invariants.
\<close>

section \<open>Data\<close>

type_synonym nid = nat
type_synonym rid = nat
type_synonym timestamp = int

datatype state = UP_TO_DATE | OUT_OF_DATE

record node =
  n_path :: string
  n_hash :: string
  n_hashDepfile :: string
  n_child :: "rid option"
  n_parents :: "rid list"
  n_explicit :: bool
  n_lazy :: bool
  n_state :: state
  n_timestamp :: timestamp

record rule =
  r_inputs :: "nid list"
  r_outputs :: "nid list"
  r_numImplicit :: nat
  r_command :: string
  r_depfile :: string
  r_state :: state
  r_hash :: string
  r_hashDepfile :: string
  r_timestamp :: timestamp
  r_numReady :: nat

record graph =
  g_node :: "nid \<Rightarrow> node"
  g_rule :: "rid \<Rightarrow> rule"
  g_roots :: "nid set"
  g_sources :: "nid set"
  g_nodes :: "(string \<times> nid) list"
  g_rules :: "rid list"
  g_newNodes :: nat
  g_newRules :: nat

text \<open>
  The memory allocator: the address returned by the \<open>k\<close>-th \<open>new Node\<close> and by the
  \<open>k\<close>-th \<open>new Rule\<close>, and the indeterminate content of the member \<open>isLazyFetched_\<close>,
  which the constructor of \<open>Node\<close> does not initialise. \<open>g_newNodes\<close> and \<open>g_newRules\<close>
  count the allocations.
\<close>

record allocator =
  a_node :: "nat \<Rightarrow> nid"
  a_rule :: "nat \<Rightarrow> rid"
  a_junk :: "nat \<Rightarrow> bool"

definition upd_node :: "nid \<Rightarrow> (node \<Rightarrow> node) \<Rightarrow> graph \<Rightarrow> graph" where
  "upd_node n f g = g\<lparr>g_node := (g_node g)(n := f (g_node g n))\<rparr>"

definition upd_rule :: "rid \<Rightarrow> (rule \<Rightarrow> rule) \<Rightarrow> graph \<Rightarrow> graph" where
  "upd_rule r f g = g\<lparr>g_rule := (g_rule g)(r := f (g_rule g r))\<rparr>"

section \<open>Class Node\<close>

definition Node_init :: "string \<Rightarrow> bool \<Rightarrow> bool \<Rightarrow> node" where
  "Node_init path isExplicitDependency junk =
     \<lparr>n_path = path, n_hash = '''', n_hashDepfile = '''', n_child = None, n_parents = [],
      n_explicit = isExplicitDependency, n_lazy = junk, n_state = UP_TO_DATE,
      n_timestamp = 0\<rparr>"

definition Node_new :: "allocator \<Rightarrow> string \<Rightarrow> bool \<Rightarrow> graph \<Rightarrow> nid \<times> graph" where
  "Node_new al path isExplicitDependency g =
     (let k = g_newNodes g; n = a_node al k
      in (n, g\<lparr>g_node := (g_node g)(n := Node_init path isExplicitDependency (a_junk al k)),
              g_newNodes := Suc k\<rparr>))"

definition Node_isSource :: "graph \<Rightarrow> nid \<Rightarrow> bool" where
  "Node_isSource g n \<longleftrightarrow> n_child (g_node g n) = None"

definition Node_isDirty :: "graph \<Rightarrow> nid \<Rightarrow> bool" where
  "Node_isDirty g n \<longleftrightarrow> n_state (g_node g n) = OUT_OF_DATE"

definition Node_setChild :: "nid \<Rightarrow> rid \<Rightarrow> graph \<Rightarrow> graph result" where
  "Node_setChild n r g =
     (if n_child (g_node g n) \<noteq> None
      then throw_error EINVAL (''Invalid Graph -> Node '' @ [CHR 0x27] @ n_path (g_node g n)
                                 @ [CHR 0x27] @ '' already has a child'')
      else Inr (upd_node n (\<lambda>nd. nd\<lparr>n_child := Some r\<rparr>) g))"

definition Node_addParentRule :: "nid \<Rightarrow> rid \<Rightarrow> graph \<Rightarrow> graph" where
  "Node_addParentRule n r = upd_node n (\<lambda>nd. nd\<lparr>n_parents := n_parents nd @ [r]\<rparr>)"

definition Node_removeParentRule :: "nid \<Rightarrow> rid \<Rightarrow> graph \<Rightarrow> graph result" where
  "Node_removeParentRule n r g =
     assert_that ''it != parentRules_.end()'' (r \<in> set (n_parents (g_node g n)))
       (Inr (upd_node n (\<lambda>nd. nd\<lparr>n_parents := remove1 r (n_parents nd)\<rparr>) g))"

definition Node_hasParent :: "graph \<Rightarrow> nid \<Rightarrow> rid \<Rightarrow> bool" where
  "Node_hasParent g n r \<longleftrightarrow> r \<in> set (n_parents (g_node g n))"

definition Node_setState :: "nid \<Rightarrow> state \<Rightarrow> graph \<Rightarrow> graph" where
  "Node_setState n s = upd_node n (\<lambda>nd. nd\<lparr>n_state := s, n_lazy := False\<rparr>)"

definition Node_setTimestamp :: "nid \<Rightarrow> timestamp \<Rightarrow> graph \<Rightarrow> graph" where
  "Node_setTimestamp n t = upd_node n (\<lambda>nd. nd\<lparr>n_timestamp := t\<rparr>)"

definition Node_setHash :: "nid \<Rightarrow> string \<Rightarrow> graph \<Rightarrow> graph" where
  "Node_setHash n h = upd_node n (\<lambda>nd. nd\<lparr>n_hash := h\<rparr>)"

definition Node_setHashDepfile :: "nid \<Rightarrow> string \<Rightarrow> graph \<Rightarrow> graph" where
  "Node_setHashDepfile n h = upd_node n (\<lambda>nd. nd\<lparr>n_hashDepfile := h\<rparr>)"

definition Node_setLazyFetched :: "nid \<Rightarrow> bool \<Rightarrow> graph \<Rightarrow> graph" where
  "Node_setLazyFetched n b = upd_node n (\<lambda>nd. nd\<lparr>n_lazy := b\<rparr>)"

section \<open>Class Rule\<close>

definition Rule_init :: "nid list \<Rightarrow> nid list \<Rightarrow> rule" where
  "Rule_init inputs outputs =
     \<lparr>r_inputs = inputs, r_outputs = outputs, r_numImplicit = 0, r_command = '''',
      r_depfile = '''', r_state = UP_TO_DATE, r_hash = '''', r_hashDepfile = '''',
      r_timestamp = 0, r_numReady = 0\<rparr>"

definition Rule_new :: "allocator \<Rightarrow> nid list \<Rightarrow> nid list \<Rightarrow> graph \<Rightarrow> rid \<times> graph" where
  "Rule_new al inputs outputs g =
     (let k = g_newRules g; r = a_rule al k
      in (r, g\<lparr>g_rule := (g_rule g)(r := Rule_init inputs outputs), g_newRules := Suc k\<rparr>))"

definition Rule_addInput :: "rid \<Rightarrow> nid \<Rightarrow> graph \<Rightarrow> graph result" where
  "Rule_addInput r n g =
     assert_that ''numImplicitDeps_ == 0'' (r_numImplicit (g_rule g r) = 0)
       (Inr (upd_rule r (\<lambda>rl. rl\<lparr>r_inputs := r_inputs rl @ [n]\<rparr>) g))"

definition Rule_addImplicitInput :: "rid \<Rightarrow> nid \<Rightarrow> graph \<Rightarrow> graph" where
  "Rule_addImplicitInput r n =
     upd_rule r (\<lambda>rl. rl\<lparr>r_numImplicit := Suc (r_numImplicit rl), r_inputs := r_inputs rl @ [n]\<rparr>)"

definition Rule_isInput :: "graph \<Rightarrow> rid \<Rightarrow> nid \<Rightarrow> bool" where
  "Rule_isInput g r n \<longleftrightarrow> n \<in> set (r_inputs (g_rule g r))"

definition Rule_isPhony :: "graph \<Rightarrow> rid \<Rightarrow> bool" where
  "Rule_isPhony g r \<longleftrightarrow> r_command (g_rule g r) = ''''"

definition Rule_hasDepfile :: "graph \<Rightarrow> rid \<Rightarrow> bool" where
  "Rule_hasDepfile g r \<longleftrightarrow> r_depfile (g_rule g r) \<noteq> ''''"

definition Rule_isDirty :: "graph \<Rightarrow> rid \<Rightarrow> bool" where
  "Rule_isDirty g r \<longleftrightarrow> r_state (g_rule g r) = OUT_OF_DATE"

definition Rule_setState :: "rid \<Rightarrow> state \<Rightarrow> graph \<Rightarrow> graph" where
  "Rule_setState r s = upd_rule r (\<lambda>rl. rl\<lparr>r_state := s\<rparr>)"

definition Rule_setCommand :: "rid \<Rightarrow> string \<Rightarrow> graph \<Rightarrow> graph" where
  "Rule_setCommand r c = upd_rule r (\<lambda>rl. rl\<lparr>r_command := c\<rparr>)"

definition Rule_setDepfile :: "rid \<Rightarrow> string \<Rightarrow> graph \<Rightarrow> graph" where
  "Rule_setDepfile r d = upd_rule r (\<lambda>rl. rl\<lparr>r_depfile := d\<rparr>)"

definition Rule_setHash :: "rid \<Rightarrow> string \<Rightarrow> graph \<Rightarrow> graph" where
  "Rule_setHash r h = upd_rule r (\<lambda>rl. rl\<lparr>r_hash := h\<rparr>)"

definition Rule_setHashDepfile :: "rid \<Rightarrow> string \<Rightarrow> graph \<Rightarrow> graph" where
  "Rule_setHashDepfile r h = upd_rule r (\<lambda>rl. rl\<lparr>r_hashDepfile := h\<rparr>)"

definition Rule_setTimestamp :: "rid \<Rightarrow> timestamp \<Rightarrow> graph \<Rightarrow> graph" where
  "Rule_setTimestamp r t = upd_rule r (\<lambda>rl. rl\<lparr>r_timestamp := t\<rparr>)"

definition Rule_ready :: "graph \<Rightarrow> rid \<Rightarrow> bool" where
  "Rule_ready g r \<longleftrightarrow> r_numReady (g_rule g r) = length (r_inputs (g_rule g r))"

definition Rule_markInputReady :: "rid \<Rightarrow> graph \<Rightarrow> graph result" where
  "Rule_markInputReady r g =
     (let g' = upd_rule r (\<lambda>rl. rl\<lparr>r_numReady := Suc (r_numReady rl)\<rparr>) g
      in assert_that ''numInputsReady_ <= inputs_.size()''
           (r_numReady (g_rule g' r) \<le> length (r_inputs (g_rule g' r))) (Inr g'))"

definition Rule_markInputDirty :: "rid \<Rightarrow> graph \<Rightarrow> graph result" where
  "Rule_markInputDirty r g =
     assert_that ''numInputsReady_ > 0'' (0 < r_numReady (g_rule g r))
       (Inr (upd_rule r (\<lambda>rl. rl\<lparr>r_numReady := r_numReady rl - 1\<rparr>) g))"

text \<open>
  \<open>Node::markDirty\<close> and \<open>Rule::markDirty\<close> call each other along the edges of the graph;
  the first argument bounds the depth of the recursion.
\<close>

fun Node_markDirty :: "nat \<Rightarrow> nid \<Rightarrow> graph \<Rightarrow> graph result"
  and Rule_markDirty :: "nat \<Rightarrow> rid \<Rightarrow> graph \<Rightarrow> graph result" where
  "Node_markDirty 0 n g = Inl NoFuel"
| "Node_markDirty (Suc k) n g =
     rbind
       (foldM (\<lambda>r g. rbind (Rule_markDirty k r g)
                  (\<lambda>g. if \<not> Node_isSource g n \<and> \<not> Node_isDirty g n
                       then Rule_markInputDirty r g else Inr g))
          (n_parents (g_node g n)) g)
       (\<lambda>g. Inr (Node_setState n OUT_OF_DATE g))"
| "Rule_markDirty 0 r g = Inl NoFuel"
| "Rule_markDirty (Suc k) r g =
     rbind (foldM (Node_markDirty k) (r_outputs (g_rule g r)) g)
       (\<lambda>g. Inr (Rule_setState r OUT_OF_DATE g))"

section \<open>Class Graph\<close>

definition Graph_empty :: graph where
  "Graph_empty =
     \<lparr>g_node = (\<lambda>_. Node_init '''' False False), g_rule = (\<lambda>_. Rule_init [] []),
      g_roots = {}, g_sources = {}, g_nodes = [], g_rules = [], g_newNodes = 0, g_newRules = 0\<rparr>"

definition Graph_find :: "graph \<Rightarrow> string \<Rightarrow> nid option" where
  "Graph_find g p = map_of (g_nodes g) p"

definition Graph_addNode :: "nid \<Rightarrow> graph \<Rightarrow> graph result" where
  "Graph_addNode n g =
     (let g1 = (if n_parents (g_node g n) = [] then g\<lparr>g_roots := insert n (g_roots g)\<rparr> else g);
          g2 = (if Node_isSource g1 n then g1\<lparr>g_sources := insert n (g_sources g1)\<rparr> else g1)
      in if Graph_find g2 (n_path (g_node g2 n)) \<noteq> None
         then throw_error EINVAL (''Invalid Graph -> Node '' @ [CHR 0x27] @ n_path (g_node g2 n)
                                    @ [CHR 0x27] @ '' is already present'')
         else Inr (g2\<lparr>g_nodes := AList.update (n_path (g_node g2 n)) n (g_nodes g2)\<rparr>))"

section \<open>Reads after writes\<close>

lemma upd_node_sel [simp, heap_simps]:
  "g_node (upd_node n f g) = (g_node g)(n := f (g_node g n))"
  "g_rule (upd_node n f g) = g_rule g"
  "g_roots (upd_node n f g) = g_roots g"
  "g_sources (upd_node n f g) = g_sources g"
  "g_nodes (upd_node n f g) = g_nodes g"
  "g_rules (upd_node n f g) = g_rules g"
  "g_newNodes (upd_node n f g) = g_newNodes g"
  "g_newRules (upd_node n f g) = g_newRules g"
  by (simp_all add: upd_node_def)

lemma upd_rule_sel [simp, heap_simps]:
  "g_rule (upd_rule r f g) = (g_rule g)(r := f (g_rule g r))"
  "g_node (upd_rule r f g) = g_node g"
  "g_roots (upd_rule r f g) = g_roots g"
  "g_sources (upd_rule r f g) = g_sources g"
  "g_nodes (upd_rule r f g) = g_nodes g"
  "g_rules (upd_rule r f g) = g_rules g"
  "g_newNodes (upd_rule r f g) = g_newNodes g"
  "g_newRules (upd_rule r f g) = g_newRules g"
  by (simp_all add: upd_rule_def)

lemmas node_defs =
  Node_setState_def Node_setTimestamp_def Node_setHash_def Node_setHashDepfile_def
  Node_setLazyFetched_def Node_addParentRule_def

lemmas rule_defs =
  Rule_setState_def Rule_setCommand_def Rule_setDepfile_def Rule_setHash_def
  Rule_setHashDepfile_def Rule_setTimestamp_def Rule_addImplicitInput_def

section \<open>Dirty marking: closed form\<close>

text \<open>
  An edge leads from a node to the outputs of the rules that consume it; \<open>upward g n\<close> is
  everything that is built, directly or not, from \<open>n\<close>, with \<open>n\<close> itself.
\<close>

definition edges :: "graph \<Rightarrow> (nid \<times> nid) set" where
  "edges g = {(n, m). \<exists>r \<in> set (n_parents (g_node g n)). m \<in> set (r_outputs (g_rule g r))}"

definition upward :: "graph \<Rightarrow> nid \<Rightarrow> nid set" where
  "upward g n = (edges g)\<^sup>* `` {n}"

definition consumers :: "graph \<Rightarrow> nid set \<Rightarrow> rid set" where
  "consumers g S = (\<Union>m \<in> S. set (n_parents (g_node g m)))"

text \<open>The pairs of a generated, up-to-date node and a rule that consumes it.\<close>

definition hot :: "graph \<Rightarrow> (nid \<times> rid) set" where
  "hot g = {(m, r). r \<in> set (n_parents (g_node g m)) \<and> \<not> Node_isSource g m \<and> \<not> Node_isDirty g m}"

definition mark :: "nid set \<Rightarrow> rid set \<Rightarrow> (nid \<times> rid) set \<Rightarrow> graph \<Rightarrow> graph" where
  "mark S R E g =
     g\<lparr>g_node := (\<lambda>n. if n \<in> S then (g_node g n)\<lparr>n_state := OUT_OF_DATE, n_lazy := False\<rparr>
                     else g_node g n),
       g_rule := (\<lambda>r. (g_rule g r)
         \<lparr>r_state := (if r \<in> R then OUT_OF_DATE else r_state (g_rule g r)),
          r_numReady := r_numReady (g_rule g r) - card {m. (m, r) \<in> E}\<rparr>)\<rparr>"

text \<open>
  The reference definition of dirty marking: all the nodes of \<open>S\<close> and all their consumers
  become out of date, and every consumer loses one ready input per generated input that was
  up to date.
\<close>

definition mark_nodes :: "nid set \<Rightarrow> graph \<Rightarrow> graph" where
  "mark_nodes S g = mark S (consumers g S) (hot g \<inter> S \<times> UNIV) g"

lemma mark_sel [simp]:
  "g_roots (mark S R E g) = g_roots g"
  "g_sources (mark S R E g) = g_sources g"
  "g_nodes (mark S R E g) = g_nodes g"
  "g_rules (mark S R E g) = g_rules g"
  "n_path (g_node (mark S R E g) n) = n_path (g_node g n)"
  "n_hash (g_node (mark S R E g) n) = n_hash (g_node g n)"
  "n_hashDepfile (g_node (mark S R E g) n) = n_hashDepfile (g_node g n)"
  "n_child (g_node (mark S R E g) n) = n_child (g_node g n)"
  "n_parents (g_node (mark S R E g) n) = n_parents (g_node g n)"
  "n_state (g_node (mark S R E g) n) = (if n \<in> S then OUT_OF_DATE else n_state (g_node g n))"
  "n_lazy (g_node (mark S R E g) n) = (n_lazy (g_node g n) \<and> n \<notin> S)"
  "r_inputs (g_rule (mark S R E g) r) = r_inputs (g_rule g r)"
  "r_outputs (g_rule (mark S R E g) r) = r_outputs (g_rule g r)"
  "r_command (g_rule (mark S R E g) r) = r_command (g_rule g r)"
  "r_numImplicit (g_rule (mark S R E g) r) = r_numImplicit (g_rule g r)"
  "r_hash (g_rule (mark S R E g) r) = r_hash (g_rule g r)"
  "r_hashDepfile (g_rule (mark S R E g) r) = r_hashDepfile (g_rule g r)"
  "r_state (g_rule (mark S R E g) r) = (if r \<in> R then OUT_OF_DATE else r_state (g_rule g r))"
  "r_numReady (g_rule (mark S R E g) r) = r_numReady (g_rule g r) - card {m. (m, r) \<in> E}"
  by (auto simp: mark_def)

lemma mark_isSource [simp]: "Node_isSource (mark S R E g) n = Node_isSource g n"
  by (simp add: Node_isSource_def)

lemma mark_isDirty [simp]: "Node_isDirty (mark S R E g) n \<longleftrightarrow> n \<in> S \<or> Node_isDirty g n"
  by (simp add: Node_isDirty_def)

lemma mark_edges [simp]: "edges (mark S R E g) = edges g"
  by (simp add: edges_def)

lemma mark_upward [simp]: "upward (mark S R E g) n = upward g n"
  by (simp add: upward_def)

lemma mark_consumers [simp]: "consumers (mark S R E g) T = consumers g T"
  by (simp add: consumers_def)

lemma mark_hot [simp]: "hot (mark S R E g) = hot g - S \<times> UNIV"
  by (auto simp: hot_def)

lemma mark_empty [simp]: "mark {} {} {} g = g"
  by (simp add: mark_def)

lemma mark_mark:
  assumes "\<And>r. finite {m. (m, r) \<in> E}" and "\<And>r. finite {m. (m, r) \<in> F}" and "E \<inter> F = {}"
  shows "mark S' R' F (mark S R E g) = mark (S \<union> S') (R \<union> R') (E \<union> F) g"
proof -
  have "card {m. (m, r) \<in> E \<union> F} = card {m. (m, r) \<in> E} + card {m. (m, r) \<in> F}" for r
    by (rule card_pairs_disjoint) (use assms in auto)
  then show ?thesis by (auto simp: mark_def fun_eq_iff)
qed

lemma setState_mark: "Node_setState n OUT_OF_DATE (mark S R E g) = mark (insert n S) R E g"
  by (auto simp: mark_def Node_setState_def upd_node_def fun_eq_iff)

lemma rule_setState_mark: "Rule_setState r OUT_OF_DATE (mark S R E g) = mark S (insert r R) E g"
  by (auto simp: mark_def Rule_setState_def upd_rule_def fun_eq_iff)

lemma markInputDirty_mark:
  assumes "finite {m. (m, r) \<in> E}" and "(n, r) \<notin> E" and "card {m. (m, r) \<in> E} < r_numReady (g_rule g r)"
  shows "Rule_markInputDirty r (mark S R E g) = Inr (mark S R (insert (n, r) E) g)"
proof -
  have same: "{m. (m, r') \<in> insert (n, r) E} = {m. (m, r') \<in> E}" if "r' \<noteq> r" for r'
    using that by auto
  have eq: "{m. (m, r) \<in> insert (n, r) E} = insert n {m. (m, r) \<in> E}" by auto
  have "card {m. (m, r) \<in> insert (n, r) E} = Suc (card {m. (m, r) \<in> E})"
    unfolding eq using assms by simp
  with same assms show ?thesis
    by (auto simp: Rule_markInputDirty_def mark_def upd_rule_def fun_eq_iff assert_that_def)
qed

lemma upward_self [simp, intro]: "n \<in> upward g n"
  by (simp add: upward_def)

lemma upward_unfold:
  "upward g n = insert n (\<Union>r \<in> set (n_parents (g_node g n)). \<Union>t \<in> set (r_outputs (g_rule g r)). upward g t)"
  (is "_ = ?rhs")
proof -
  have "m \<in> ?rhs" if "(n, m) \<in> (edges g)\<^sup>*" for m
    using that by (cases rule: converse_rtranclE) (auto simp: edges_def upward_def)
  moreover have "(n, m) \<in> (edges g)\<^sup>*"
    if "r \<in> set (n_parents (g_node g n))" "o' \<in> set (r_outputs (g_rule g r))" "(o', m) \<in> (edges g)\<^sup>*"
    for r o' m
    using that by (auto simp: edges_def intro: converse_rtrancl_into_rtrancl)
  ultimately show ?thesis by (fastforce simp: upward_def)
qed

text \<open>
  \<open>layered N rank g\<close>: the nodes of \<open>N\<close> are closed under edges, have no duplicate parent,
  and \<open>rank\<close> decreases along every edge, so the graph has no cycle. \<open>cap N X g\<close>: every
  rule counts at least its generated, up-to-date inputs among \<open>N - X\<close> as ready, where
  \<open>X\<close> holds the nodes whose marking is in progress.
\<close>

definition layered :: "nid set \<Rightarrow> (nid \<Rightarrow> nat) \<Rightarrow> graph \<Rightarrow> bool" where
  "layered N rank g \<longleftrightarrow>
     (\<forall>n \<in> N. distinct (n_parents (g_node g n)) \<and>
        (\<forall>r \<in> set (n_parents (g_node g n)). \<forall>t \<in> set (r_outputs (g_rule g r)).
           t \<in> N \<and> rank t < rank n))"

definition cap :: "nid set \<Rightarrow> nid set \<Rightarrow> graph \<Rightarrow> bool" where
  "cap N X g \<longleftrightarrow>
     finite N \<and> (\<forall>r. card {m \<in> N - X. (m, r) \<in> hot g} \<le> r_numReady (g_rule g r))"

lemma mark_layered [simp]: "layered N rank (mark S R E g) = layered N rank g"
  by (simp add: layered_def)

lemma layered_upward:
  assumes "layered N rank g" and "n \<in> N" and "m \<in> upward g n"
  shows "m \<in> N \<and> (m = n \<or> rank m < rank n)"
proof -
  from assms(3) have "(n, m) \<in> (edges g)\<^sup>*" by (simp add: upward_def)
  then show ?thesis
  proof (induction rule: rtrancl_induct)
    case base
    then show ?case using assms(2) by simp
  next
    case (step a b)
    then have "b \<in> N" "rank b < rank a" using assms(1) by (auto simp: layered_def edges_def)
    then show ?case using step.IH by auto
  qed
qed

lemma cap_finite: "cap N X g \<Longrightarrow> E \<subseteq> N \<times> UNIV \<Longrightarrow> finite {m. (m, r) \<in> E}"
  by (rule finite_subset [of _ N]) (auto simp: cap_def)

lemma cap_room:
  assumes "cap N X g" and "E \<subseteq> hot g \<inter> (N - X) \<times> UNIV"
    and "(n, r) \<in> hot g" and "n \<in> N - X" and "(n, r) \<notin> E"
  shows "card {m. (m, r) \<in> E} < r_numReady (g_rule g r)"
proof -
  have fin: "finite {m. (m, r) \<in> E}" by (rule cap_finite [OF assms(1)]) (use assms(2) in auto)
  have "card (insert n {m. (m, r) \<in> E}) \<le> card {m \<in> N - X. (m, r) \<in> hot g}"
    by (rule card_mono) (use assms in \<open>auto simp: cap_def\<close>)
  also have "\<dots> \<le> r_numReady (g_rule g r)" using assms(1) by (simp add: cap_def)
  finally show ?thesis using fin assms(5) by simp
qed

lemma cap_mark:
  assumes "cap N X g" and E: "E \<subseteq> hot g \<inter> (N - X) \<times> UNIV"
    and "X \<subseteq> Y" and "fst ` E \<subseteq> S \<union> Y"
  shows "cap N Y (mark S R E g)"
proof -
  have "card {m \<in> N - Y. (m, r) \<in> hot g - S \<times> UNIV} \<le> r_numReady (g_rule g r) - card {m. (m, r) \<in> E}" for r
  proof -
    let ?A = "{m \<in> N - Y. (m, r) \<in> hot g - S \<times> UNIV}" and ?B = "{m. (m, r) \<in> E}"
    have fin: "finite ?A" "finite ?B"
      using assms(1) cap_finite [OF assms(1), of E] E by (auto simp: cap_def)
    have "card ?A + card ?B = card (?A \<union> ?B)"
      by (rule card_Un_disjoint [symmetric]) (use fin assms(4) in force)+
    also have "\<dots> \<le> card {m \<in> N - X. (m, r) \<in> hot g}"
      by (rule card_mono) (use assms in \<open>auto simp: cap_def\<close>)
    also have "\<dots> \<le> r_numReady (g_rule g r)" using assms(1) by (simp add: cap_def)
    finally show ?thesis by simp
  qed
  then show ?thesis using assms(1) by (simp add: cap_def)
qed

lemma cap_mark_nodes:
  assumes "cap N X g" and "S \<subseteq> N - X"
  shows "cap N X (mark_nodes S g)"
  unfolding mark_nodes_def by (rule cap_mark [OF assms(1)]) (use assms(2) in auto)

lemma mark_nodes_Un:
  assumes "cap N X g" and "S \<subseteq> N" and "T \<subseteq> N"
  shows "mark_nodes T (mark_nodes S g) = mark_nodes (S \<union> T) g"
proof -
  have fin: "finite {m. (m, r) \<in> hot g \<inter> S \<times> UNIV}"
    "finite {m. (m, r) \<in> (hot g - S \<times> UNIV) \<inter> T \<times> UNIV}" for r
    by (rule cap_finite [OF assms(1)]; use assms in auto)+
  have "mark_nodes T (mark_nodes S g) = mark (S \<union> T) (consumers g S \<union> consumers g T)
      (hot g \<inter> S \<times> UNIV \<union> (hot g - S \<times> UNIV) \<inter> T \<times> UNIV) g"
    unfolding mark_nodes_def mark_consumers mark_hot by (rule mark_mark [OF fin]) auto
  also have "hot g \<inter> S \<times> UNIV \<union> (hot g - S \<times> UNIV) \<inter> T \<times> UNIV = hot g \<inter> (S \<union> T) \<times> UNIV"
    by auto
  also have "consumers g S \<union> consumers g T = consumers g (S \<union> T)"
    by (auto simp: consumers_def)
  finally show ?thesis by (simp only: mark_nodes_def)
qed

lemma outputs_loop_closed:
  assumes IH: "\<And>g t. layered N rank g \<Longrightarrow> cap N X g \<Longrightarrow> t \<in> N \<Longrightarrow> upward g t \<inter> X = {} \<Longrightarrow>
                 Suc (2 * rank t) < k \<Longrightarrow> Node_markDirty k t g = Inr (mark_nodes (upward g t) g)"
    and g: "layered N rank g" "cap N X g"
    and ts: "\<And>t. t \<in> set ts \<Longrightarrow> t \<in> N \<and> upward g t \<inter> X = {} \<and> Suc (2 * rank t) < k"
  shows "foldM (Node_markDirty k) ts g = Inr (mark_nodes (\<Union>t \<in> set ts. upward g t) g)"
proof -
  let ?S = "\<lambda>ts. \<Union>t \<in> set ts. upward g t"
  have sub: "?S us \<subseteq> N - X" if "set us \<subseteq> set ts" for us
    using ts that layered_upward [OF g(1)] by blast
  have "\<exists>s'. foldM (Node_markDirty k) ts g = Inr s' \<and> s' = mark_nodes (?S ts) g"
  proof (rule foldM_total)
    show "g = mark_nodes (?S []) g" by (simp add: mark_nodes_def consumers_def)
  next
    fix us t rest s
    assume split: "ts = us @ t # rest" and s: "s = mark_nodes (?S us) g"
    have us: "?S us \<subseteq> N - X" and t: "t \<in> N" "upward g t \<inter> X = {}" "Suc (2 * rank t) < k"
      using sub [of us] ts [of t] split by auto
    have cap: "cap N X s" unfolding s by (rule cap_mark_nodes [OF g(2) us])
    have "Node_markDirty k t s = Inr (mark_nodes (upward g t) s)"
      using IH [of s t] cap t g(1) by (simp add: s mark_nodes_def)
    also have "mark_nodes (upward g t) s = mark_nodes (?S us \<union> upward g t) g"
      unfolding s by (rule mark_nodes_Un [OF g(2)]) (use us t(1) layered_upward [OF g(1)] in auto)
    finally show "\<exists>s'. Node_markDirty k t s = Inr s' \<and> s' = mark_nodes (?S (us @ [t])) g"
      by (auto simp: Un_commute)
  qed
  then show ?thesis by simp
qed

text \<open>One iteration of the loop of \<open>Node::markDirty\<close>, over the parent rule \<open>r\<close>.\<close>

lemma parents_step_closed:
  assumes "cap N X g" and n: "n \<in> N - X" "n \<notin> S" "n \<notin> T"
    and S: "S \<subseteq> N - X" and T: "T \<subseteq> N - X" and r: "r \<in> set (n_parents (g_node g n))" "r \<notin> D"
    and s: "s = mark S (consumers g S \<union> D) (hot g \<inter> (S \<times> UNIV \<union> {n} \<times> D)) g"
    and rule: "Rule_markDirty k r s = Inr (mark T (insert r (consumers g T)) (hot s \<inter> T \<times> UNIV) s)"
  shows "rbind (Rule_markDirty k r s)
           (\<lambda>g. if \<not> Node_isSource g n \<and> \<not> Node_isDirty g n then Rule_markInputDirty r g else Inr g)
         = Inr (mark (S \<union> T) (consumers g (S \<union> T) \<union> insert r D)
                  (hot g \<inter> ((S \<union> T) \<times> UNIV \<union> {n} \<times> insert r D)) g)"
proof -
  let ?E = "hot g \<inter> ((S \<union> T) \<times> UNIV \<union> {n} \<times> D)"
  have fin: "finite {m. (m, r) \<in> hot g \<inter> (S \<times> UNIV \<union> {n} \<times> D)}"
    "finite {m. (m, r) \<in> hot s \<inter> T \<times> UNIV}" "finite {m. (m, r) \<in> ?E}" for r
    by (rule cap_finite [OF assms(1)]; use n S T in auto)+
  have "hot g \<inter> (S \<times> UNIV \<union> {n} \<times> D) \<union> hot s \<inter> T \<times> UNIV = ?E"
    and "hot g \<inter> (S \<times> UNIV \<union> {n} \<times> D) \<inter> (hot s \<inter> T \<times> UNIV) = {}"
    using n by (auto simp: s)
  then have "mark T (insert r (consumers g T)) (hot s \<inter> T \<times> UNIV) s
      = mark (S \<union> T) (consumers g S \<union> D \<union> insert r (consumers g T)) ?E g"
    using mark_mark [OF fin(1,2)] s by metis
  also have "consumers g S \<union> D \<union> insert r (consumers g T) = consumers g (S \<union> T) \<union> insert r D"
    by (auto simp: consumers_def)
  finally have 1: "Rule_markDirty k r s = Inr (mark (S \<union> T) (consumers g (S \<union> T) \<union> insert r D) ?E g)"
    using rule by simp
  show ?thesis
  proof (cases "(n, r) \<in> hot g")
    case True
    have "card {m. (m, r) \<in> ?E} < r_numReady (g_rule g r)"
      by (rule cap_room [OF assms(1) _ True n(1)]) (use n S T r in auto)
    moreover have "insert (n, r) ?E = hot g \<inter> ((S \<union> T) \<times> UNIV \<union> {n} \<times> insert r D)"
      using True by auto
    moreover have "(n, r) \<notin> ?E" using n r by auto
    ultimately have "Rule_markInputDirty r (mark (S \<union> T) (consumers g (S \<union> T) \<union> insert r D) ?E g)
        = Inr (mark (S \<union> T) (consumers g (S \<union> T) \<union> insert r D)
                 (hot g \<inter> ((S \<union> T) \<times> UNIV \<union> {n} \<times> insert r D)) g)"
      using markInputDirty_mark [OF fin(3), of n r] by metis
    moreover have "\<not> Node_isSource g n" "\<not> Node_isDirty g n" using True by (auto simp: hot_def)
    ultimately show ?thesis using n unfolding 1 rbind_Inr by simp
  next
    case False
    then have "hot g \<inter> ((S \<union> T) \<times> UNIV \<union> {n} \<times> insert r D) = ?E" by auto
    moreover have "Node_isSource g n \<or> Node_isDirty g n" using False r by (auto simp: hot_def)
    ultimately show ?thesis unfolding 1 rbind_Inr by auto
  qed
qed

text \<open>The nodes built from \<open>n\<close> through its consumer \<open>r\<close>.\<close>

definition through :: "graph \<Rightarrow> rid \<Rightarrow> nid set" where
  "through g r = (\<Union>t \<in> set (r_outputs (g_rule g r)). upward g t)"

lemma through_mark [simp]: "through (mark S R E g) r = through g r"
  by (simp add: through_def)

lemma upward_through: "upward g n = insert n (\<Union>r \<in> set (n_parents (g_node g n)). through g r)"
  unfolding through_def by (rule upward_unfold)

lemma through_sub:
  assumes "layered N rank g" and "n \<in> N" and "upward g n \<inter> X = {}"
    and "r \<in> set (n_parents (g_node g n))"
  shows "through g r \<subseteq> N - insert n X"
proof
  fix x assume x: "x \<in> through g r"
  then obtain t where t: "t \<in> set (r_outputs (g_rule g r))" "x \<in> upward g t"
    by (auto simp: through_def)
  have "t \<in> N" "rank t < rank n" using assms(1,2,4) t(1) by (auto simp: layered_def)
  moreover from this(1) t(2) have "x \<in> N" "x = t \<or> rank x < rank t"
    using layered_upward [OF assms(1)] by blast+
  moreover have "x \<in> upward g n" using x assms(4) by (subst upward_through) auto
  ultimately show "x \<in> N - insert n X" using assms(3) by auto
qed

lemma parents_loop_closed:
  assumes IH: "\<And>r s. layered N rank s \<Longrightarrow> cap N (insert n X) s \<Longrightarrow>
           (\<And>t. t \<in> set (r_outputs (g_rule s r)) \<Longrightarrow>
              t \<in> N \<and> upward s t \<inter> insert n X = {} \<and> Suc (Suc (2 * rank t)) < k) \<Longrightarrow> 0 < k \<Longrightarrow>
           Rule_markDirty k r s
             = Inr (mark (through s r) (insert r (consumers s (through s r))) (hot s \<inter> through s r \<times> UNIV) s)"
    and g: "layered N rank g" "cap N X g" and n: "n \<in> N" "upward g n \<inter> X = {}" "Suc (2 * rank n) < Suc k"
    and ps: "ps = n_parents (g_node g n)"
  shows "foldM (\<lambda>r g. rbind (Rule_markDirty k r g)
             (\<lambda>g. if \<not> Node_isSource g n \<and> \<not> Node_isDirty g n then Rule_markInputDirty r g else Inr g)) ps g
         = Inr (mark (\<Union>r \<in> set ps. through g r) (consumers g (\<Union>r \<in> set ps. through g r) \<union> set ps)
             (hot g \<inter> ((\<Union>r \<in> set ps. through g r) \<times> UNIV \<union> {n} \<times> set ps)) g)" (is "foldM ?f ps g = _")
proof -
  let ?S = "\<lambda>ps. \<Union>r \<in> set ps. through g r"
  let ?mk = "\<lambda>ps. mark (?S ps) (consumers g (?S ps) \<union> set ps) (hot g \<inter> (?S ps \<times> UNIV \<union> {n} \<times> set ps)) g"
  note sub = through_sub [OF g(1) n(1,2)]
  have nX: "n \<in> N - X" using n by auto
  have "\<exists>s'. foldM ?f ps g = Inr s' \<and> s' = ?mk ps"
  proof (rule foldM_total)
    show "g = ?mk []" by (simp add: consumers_def)
  next
    fix ds r rest s
    assume split: "ps = ds @ r # rest" and s: "s = ?mk ds"
    have r: "r \<in> set (n_parents (g_node g n))" "r \<notin> set ds"
      using split g(1) n(1) by (auto simp: layered_def simp flip: ps)
    have S: "?S ds \<subseteq> N - insert n X" using sub split by (auto simp: ps)
    have T: "through g r \<subseteq> N - insert n X" by (rule sub [OF r(1)])
    have "cap N (insert n X) s" unfolding s by (rule cap_mark [OF g(2)]) (use S nX in force)+
    moreover have "t \<in> N \<and> upward s t \<inter> insert n X = {} \<and> Suc (Suc (2 * rank t)) < k"
      if t: "t \<in> set (r_outputs (g_rule s r))" for t
    proof -
      have "t \<in> N" "rank t < rank n" using g(1) n(1) r(1) t by (auto simp: layered_def s)
      moreover have "upward s t \<subseteq> through g r" using t by (auto simp: s through_def)
      ultimately show ?thesis using T n(3) by auto
    qed
    ultimately have "Rule_markDirty k r s = Inr (mark (through g r) (insert r (consumers g (through g r)))
        (hot s \<inter> through g r \<times> UNIV) s)"
      using IH [of s r] g(1) n(3) by (simp add: s)
    note rule = this
    have "n \<notin> ?S ds" "n \<notin> through g r" "?S ds \<subseteq> N - X" "through g r \<subseteq> N - X"
      using S T by auto
    from parents_step_closed [OF g(2) nX this r s rule]
    have "?f r s = Inr (mark (?S ds \<union> through g r) (consumers g (?S ds \<union> through g r) \<union> insert r (set ds))
        (hot g \<inter> ((?S ds \<union> through g r) \<times> UNIV \<union> {n} \<times> insert r (set ds))) g)" .
    moreover have "?S (ds @ [r]) = ?S ds \<union> through g r" "set (ds @ [r]) = insert r (set ds)" by auto
    ultimately show "\<exists>s'. ?f r s = Inr s' \<and> s' = ?mk (ds @ [r])" by metis
  qed
  then show ?thesis by simp
qed

text \<open>The closed form: with a recursion bound above twice the rank, marking never fails.\<close>

lemma markDirty_closed:
  shows "layered N rank g \<Longrightarrow> cap N X g \<Longrightarrow> n \<in> N \<Longrightarrow> upward g n \<inter> X = {} \<Longrightarrow> Suc (2 * rank n) < k \<Longrightarrow>
           Node_markDirty k n g = Inr (mark_nodes (upward g n) g)"
    and "layered N rank g \<Longrightarrow> cap N X g \<Longrightarrow>
           (\<And>t. t \<in> set (r_outputs (g_rule g r)) \<Longrightarrow> t \<in> N \<and> upward g t \<inter> X = {} \<and> Suc (Suc (2 * rank t)) < k) \<Longrightarrow> 0 < k \<Longrightarrow>
           Rule_markDirty k r g
             = Inr (mark (through g r) (insert r (consumers g (through g r))) (hot g \<inter> through g r \<times> UNIV) g)"
proof (induction k arbitrary: n r g X)
  case (Suc k)
  {
    case 1
    let ?ps = "n_parents (g_node g n)"
    let ?S = "\<Union>r \<in> set ?ps. through g r"
    have "Node_markDirty (Suc k) n g = Inr (mark (insert n ?S) (consumers g ?S \<union> set ?ps)
        (hot g \<inter> (?S \<times> UNIV \<union> {n} \<times> set ?ps)) g)"
      unfolding Node_markDirty.simps
      by (subst parents_loop_closed [OF _ 1 refl], rule Suc.IH(2), assumption, assumption, blast, assumption)
        (simp only: rbind_Inr setState_mark)
    moreover have "hot g \<inter> (?S \<times> UNIV \<union> {n} \<times> set ?ps) = hot g \<inter> insert n ?S \<times> UNIV"
      by (auto simp: hot_def)
    moreover have "consumers g ?S \<union> set ?ps = consumers g (insert n ?S)" by (auto simp: consumers_def)
    ultimately show ?case by (simp only: mark_nodes_def upward_through [of g n, symmetric])
  next
    case 2
    have "foldM (Node_markDirty k) (r_outputs (g_rule g n)) g = Inr (mark_nodes (through g n) g)"
      unfolding through_def
      by (rule outputs_loop_closed [OF Suc.IH(1) 2(1,2)]) (use 2(3) in auto)
    then show ?case unfolding Rule_markDirty.simps by (simp only: rbind_Inr mark_nodes_def rule_setState_mark)
  }
qed simp_all

section \<open>Invariants of the graph\<close>

definition live :: "graph \<Rightarrow> nid set" where
  "live g = snd ` set (g_nodes g)"

text \<open>Structure: the two heaps and the members of \<open>Graph\<close> agree.\<close>

definition wf_node :: "graph \<Rightarrow> nid \<Rightarrow> bool" where
  "wf_node g n \<longleftrightarrow>
     distinct (n_parents (g_node g n)) \<and>
     (\<forall>r \<in> set (n_parents (g_node g n)). r \<in> set (g_rules g) \<and> n \<in> set (r_inputs (g_rule g r))) \<and>
     (case n_child (g_node g n) of None \<Rightarrow> True
      | Some r \<Rightarrow> r \<in> set (g_rules g) \<and> n \<in> set (r_outputs (g_rule g r)))"

definition wf_rule :: "graph \<Rightarrow> rid \<Rightarrow> bool" where
  "wf_rule g r \<longleftrightarrow>
     distinct (r_inputs (g_rule g r)) \<and> distinct (r_outputs (g_rule g r)) \<and>
     r_outputs (g_rule g r) \<noteq> [] \<and> r_numImplicit (g_rule g r) \<le> length (r_inputs (g_rule g r)) \<and>
     (\<forall>n \<in> set (r_inputs (g_rule g r)). n \<in> live g \<and> r \<in> set (n_parents (g_node g n))) \<and>
     (\<forall>n \<in> set (r_outputs (g_rule g r)). n \<in> live g \<and> n_child (g_node g n) = Some r)"

definition wf_graph :: "graph \<Rightarrow> bool" where
  "wf_graph g \<longleftrightarrow>
     distinct (map fst (g_nodes g)) \<and> (\<forall>(p, n) \<in> set (g_nodes g). n_path (g_node g n) = p) \<and>
     distinct (g_rules g) \<and> (\<forall>n \<in> live g. wf_node g n) \<and> (\<forall>r \<in> set (g_rules g). wf_rule g r) \<and>
     g_roots g = {n \<in> live g. n_parents (g_node g n) = []} \<and>
     g_sources g = {n \<in> live g. n_child (g_node g n) = None}"

text \<open>Counters: \<open>numInputsReady_\<close> counts the inputs that are sources or up to date.\<close>

definition input_ready :: "graph \<Rightarrow> nid \<Rightarrow> bool" where
  "input_ready g n \<longleftrightarrow> Node_isSource g n \<or> \<not> Node_isDirty g n"

definition counter_ok :: "graph \<Rightarrow> rid \<Rightarrow> bool" where
  "counter_ok g r \<longleftrightarrow> r_numReady (g_rule g r) = length (filter (input_ready g) (r_inputs (g_rule g r)))"

definition counters_ok :: "graph \<Rightarrow> bool" where
  "counters_ok g \<longleftrightarrow> (\<forall>r \<in> set (g_rules g). counter_ok g r)"

text \<open>States: dirtiness is consistent along the edges.\<close>

definition state_ok :: "graph \<Rightarrow> bool" where
  "state_ok g \<longleftrightarrow>
     (\<forall>n \<in> live g. \<forall>r. n_child (g_node g n) = Some r \<and> Node_isDirty g n \<longrightarrow> Rule_isDirty g r) \<and>
     (\<forall>r \<in> set (g_rules g). Rule_isDirty g r \<longrightarrow>
        (\<forall>n \<in> set (r_outputs (g_rule g r)). n_lazy (g_node g n) \<or> Node_isDirty g n)) \<and>
     (\<forall>r \<in> set (g_rules g). \<forall>n \<in> set (r_inputs (g_rule g r)). Node_isDirty g n \<longrightarrow> Rule_isDirty g r)"

definition dep_edges :: "graph \<Rightarrow> (nid \<times> nid) set" where
  "dep_edges g = {(n, t). \<exists>r \<in> set (g_rules g). n \<in> set (r_inputs (g_rule g r)) \<and> t \<in> set (r_outputs (g_rule g r))}"

definition acyclic_graph :: "graph \<Rightarrow> bool" where
  "acyclic_graph g \<longleftrightarrow> acyclic (dep_edges g)"

lemma finite_live [simp, intro]: "finite (live g)"
  by (simp add: live_def)

lemma card_live_le: "card (live g) \<le> length (g_nodes g)"
  unfolding live_def by (metis card_image_le card_length List.finite_set order_trans)

lemma wf_parent:
  "wf_graph g \<Longrightarrow> n \<in> live g \<Longrightarrow> r \<in> set (n_parents (g_node g n)) \<Longrightarrow>
     r \<in> set (g_rules g) \<and> n \<in> set (r_inputs (g_rule g r))"
  unfolding wf_graph_def wf_node_def by blast

lemma wf_child:
  "wf_graph g \<Longrightarrow> n \<in> live g \<Longrightarrow> n_child (g_node g n) = Some r \<Longrightarrow>
     r \<in> set (g_rules g) \<and> n \<in> set (r_outputs (g_rule g r))"
  unfolding wf_graph_def wf_node_def by fastforce

lemma wf_input:
  "wf_graph g \<Longrightarrow> r \<in> set (g_rules g) \<Longrightarrow> n \<in> set (r_inputs (g_rule g r)) \<Longrightarrow>
     n \<in> live g \<and> r \<in> set (n_parents (g_node g n))"
  unfolding wf_graph_def wf_rule_def by blast

lemma wf_output:
  "wf_graph g \<Longrightarrow> r \<in> set (g_rules g) \<Longrightarrow> n \<in> set (r_outputs (g_rule g r)) \<Longrightarrow>
     n \<in> live g \<and> n_child (g_node g n) = Some r"
  unfolding wf_graph_def wf_rule_def by blast

lemma wf_distinct:
  "wf_graph g \<Longrightarrow> n \<in> live g \<Longrightarrow> distinct (n_parents (g_node g n))"
  "wf_graph g \<Longrightarrow> r \<in> set (g_rules g) \<Longrightarrow> distinct (r_inputs (g_rule g r))"
  "wf_graph g \<Longrightarrow> r \<in> set (g_rules g) \<Longrightarrow> distinct (r_outputs (g_rule g r))"
  unfolding wf_graph_def wf_node_def wf_rule_def by blast+

lemma dep_edges_live: "wf_graph g \<Longrightarrow> dep_edges g \<subseteq> live g \<times> live g"
  by (auto simp: dep_edges_def dest: wf_input wf_output)

lemma edges_dep: "wf_graph g \<Longrightarrow> n \<in> live g \<Longrightarrow> (n, t) \<in> edges g \<longleftrightarrow> (n, t) \<in> dep_edges g"
  unfolding edges_def dep_edges_def mem_Collect_eq case_prod_conv
  by (blast dest: wf_parent wf_input)

definition height :: "graph \<Rightarrow> nid \<Rightarrow> nat" where
  "height g n = card {t. (n, t) \<in> (dep_edges g)\<^sup>+}"

lemma reach_live: "wf_graph g \<Longrightarrow> {t. (n, t) \<in> (dep_edges g)\<^sup>+} \<subseteq> live g"
  using trancl_subset_Sigma [OF dep_edges_live] by blast

lemma height_less:
  assumes "wf_graph g" and "acyclic_graph g" and "(n, t) \<in> dep_edges g"
  shows "height g t < height g n"
  unfolding height_def
proof (rule psubset_card_mono)
  show "finite {t. (n, t) \<in> (dep_edges g)\<^sup>+}" by (rule finite_subset [OF reach_live [OF assms(1)]]) simp
  have "(t, t) \<notin> (dep_edges g)\<^sup>+" using assms(2) by (simp add: acyclic_graph_def acyclic_def)
  then show "{s. (t, s) \<in> (dep_edges g)\<^sup>+} \<subset> {s. (n, s) \<in> (dep_edges g)\<^sup>+}"
    using assms(3) by (auto intro: trancl_into_trancl2)
qed

lemma height_bound:
  assumes "wf_graph g" and "acyclic_graph g" and "n \<in> live g"
  shows "height g n < card (live g)"
  unfolding height_def
proof (rule psubset_card_mono)
  have "n \<notin> {t. (n, t) \<in> (dep_edges g)\<^sup>+}" using assms(2) by (simp add: acyclic_graph_def acyclic_def)
  then show "{t. (n, t) \<in> (dep_edges g)\<^sup>+} \<subset> live g" using reach_live [OF assms(1)] assms(3) by blast
qed simp

lemma layered_height: "wf_graph g \<Longrightarrow> acyclic_graph g \<Longrightarrow> layered (live g) (height g) g"
  unfolding layered_def
proof (intro ballI conjI)
  fix n r t
  assume g: "wf_graph g" "acyclic_graph g" "n \<in> live g"
    and r: "r \<in> set (n_parents (g_node g n))" "t \<in> set (r_outputs (g_rule g r))"
  then have "(n, t) \<in> dep_edges g" unfolding dep_edges_def using wf_parent by blast
  then show "height g t < height g n" by (rule height_less [OF g(1,2)])
  show "t \<in> live g" using wf_parent [OF g(1,3) r(1)] wf_output [OF g(1) _ r(2)] by blast
qed (rule wf_distinct)

lemma hot_inputs:
  assumes "wf_graph g" and "r \<in> set (g_rules g)"
  shows "{m \<in> live g. (m, r) \<in> hot g}
           = {m \<in> set (r_inputs (g_rule g r)). \<not> Node_isSource g m \<and> \<not> Node_isDirty g m}"
  using wf_parent [OF assms(1)] wf_input [OF assms] by (auto simp: hot_def)

lemma cap_counters:
  assumes "wf_graph g" and "counters_ok g"
  shows "cap (live g) {} g"
proof -
  have "card {m \<in> live g - {}. (m, r) \<in> hot g} \<le> r_numReady (g_rule g r)" for r
  proof (cases "r \<in> set (g_rules g)")
    case True
    have "card {m \<in> live g. (m, r) \<in> hot g} \<le> card {m \<in> set (r_inputs (g_rule g r)). input_ready g m}"
      unfolding hot_inputs [OF assms(1) True] by (rule card_mono) (auto simp: input_ready_def)
    also have "\<dots> = r_numReady (g_rule g r)"
      using assms(2) True wf_distinct(2) [OF assms(1) True]
      by (simp add: card_set_filter_distinct counters_ok_def counter_ok_def)
    finally show ?thesis by simp
  next
    case False
    then have "{m \<in> live g - {}. (m, r) \<in> hot g} = {}"
      using wf_parent [OF assms(1)] by (auto simp: hot_def)
    then show ?thesis by (simp only: card.empty)
  qed
  then show ?thesis by (simp add: cap_def)
qed

lemma markDirty_eq:
  assumes "wf_graph g" and "acyclic_graph g" and "counters_ok g" and "n \<in> live g"
    and "2 * length (g_nodes g) \<le> k"
  shows "Node_markDirty k n g = Inr (mark_nodes (upward g n) g)"
proof (rule markDirty_closed(1) [OF layered_height cap_counters])
  show "Suc (2 * height g n) < k"
    using height_bound [OF assms(1,2,4)] card_live_le [of g] assms(5) by linarith
qed (use assms in auto)

section \<open>Dirty marking keeps the invariants\<close>

lemma mark_live [simp]: "live (mark S R E g) = live g"
  by (simp add: live_def)

lemma mark_wf_graph [simp]: "wf_graph (mark S R E g) = wf_graph g"
  by (simp add: wf_graph_def wf_node_def wf_rule_def cong: option.case_cong)

lemma mark_acyclic [simp]: "acyclic_graph (mark S R E g) = acyclic_graph g"
  by (simp add: acyclic_graph_def dep_edges_def)

lemma upward_live: "wf_graph g \<Longrightarrow> acyclic_graph g \<Longrightarrow> n \<in> live g \<Longrightarrow> upward g n \<subseteq> live g"
  using layered_upward [OF layered_height] by blast

lemma mark_nodes_counters:
  assumes "wf_graph g" and "counters_ok g" and "S \<subseteq> live g"
  shows "counters_ok (mark_nodes S g)"
  unfolding counters_ok_def counter_ok_def
proof
  fix r assume "r \<in> set (g_rules (mark_nodes S g))"
  then have r: "r \<in> set (g_rules g)" by (simp add: mark_nodes_def)
  let ?I = "r_inputs (g_rule g r)" and ?g = "mark_nodes S g"
  have dist: "distinct ?I" by (rule wf_distinct(2) [OF assms(1) r])
  have hot: "{m. (m, r) \<in> hot g \<inter> S \<times> UNIV}
      = {m \<in> set ?I. m \<in> S \<and> \<not> Node_isSource g m \<and> \<not> Node_isDirty g m}"
    using hot_inputs [OF assms(1) r] assms(3) by blast
  have "{m \<in> set ?I. input_ready ?g m} = {m \<in> set ?I. input_ready g m} - {m. (m, r) \<in> hot g \<inter> S \<times> UNIV}"
    unfolding hot by (auto simp: input_ready_def mark_nodes_def)
  moreover have "{m. (m, r) \<in> hot g \<inter> S \<times> UNIV} \<subseteq> {m \<in> set ?I. input_ready g m}"
    unfolding hot by (auto simp: input_ready_def)
  ultimately have "card {m \<in> set ?I. input_ready ?g m}
      = card {m \<in> set ?I. input_ready g m} - card {m. (m, r) \<in> hot g \<inter> S \<times> UNIV}"
    by (simp add: card_Diff_subset finite_subset)
  then show "r_numReady (g_rule ?g r) = length (filter (input_ready ?g) (r_inputs (g_rule ?g r)))"
    using assms(2) r dist
    by (simp add: mark_nodes_def card_set_filter_distinct counters_ok_def counter_ok_def)
qed

lemma upward_output:
  assumes "wf_graph g" and "acyclic_graph g" and "n \<in> live g" and "m \<in> upward g n" and "m \<noteq> n"
  shows "\<exists>r \<in> consumers g (upward g n). n_child (g_node g m) = Some r"
proof -
  from assms(4) have "(n, m) \<in> (edges g)\<^sup>*" by (simp add: upward_def)
  with assms(5) obtain a where a: "(n, a) \<in> (edges g)\<^sup>*" "(a, m) \<in> edges g" by (metis rtranclE)
  then obtain r where r: "r \<in> set (n_parents (g_node g a))" "m \<in> set (r_outputs (g_rule g r))"
    by (auto simp: edges_def)
  have "a \<in> upward g n" using a(1) by (simp add: upward_def)
  moreover have "a \<in> live g" using calculation upward_live [OF assms(1-3)] by blast
  moreover have "n_child (g_node g m) = Some r"
    using wf_parent [OF assms(1) calculation(2) r(1)] wf_output [OF assms(1) _ r(2)] by blast
  ultimately show ?thesis using r(1) by (auto simp: consumers_def)
qed

lemma upward_outputs:
  assumes "r \<in> consumers g (upward g n)" and "t \<in> set (r_outputs (g_rule g r))"
  shows "t \<in> upward g n"
proof -
  from assms obtain m where "(n, m) \<in> (edges g)\<^sup>*" "(m, t) \<in> edges g"
    by (auto simp: consumers_def upward_def edges_def)
  then show ?thesis by (auto simp: upward_def intro: rtrancl_into_rtrancl)
qed

lemma markDirty_state_ok:
  assumes g: "wf_graph g" "acyclic_graph g" "n \<in> live g" and "Node_isSource g n" and st: "state_ok g"
  shows "state_ok (mark_nodes (upward g n) g)"
proof -
  let ?S = "upward g n"
  have 1: "Rule_isDirty g r \<or> r \<in> consumers g ?S"
    if "m \<in> live g" "n_child (g_node g m) = Some r" "m \<in> ?S \<or> Node_isDirty g m" for m r
  proof (cases "m \<in> ?S")
    case True
    moreover have "m \<noteq> n" using that(2) assms(4) by (auto simp: Node_isSource_def)
    ultimately show ?thesis using upward_output [OF g] that(2) by fastforce
  qed (use that st in \<open>auto simp: state_ok_def\<close>)
  have 2: "(n_lazy (g_node g m) \<and> m \<notin> ?S) \<or> m \<in> ?S \<or> Node_isDirty g m"
    if "r \<in> set (g_rules g)" "m \<in> set (r_outputs (g_rule g r))" "Rule_isDirty g r \<or> r \<in> consumers g ?S" for r m
    using that st upward_outputs by (fastforce simp: state_ok_def)
  have 3: "Rule_isDirty g r \<or> r \<in> consumers g ?S"
    if "r \<in> set (g_rules g)" "m \<in> set (r_inputs (g_rule g r))" "m \<in> ?S \<or> Node_isDirty g m" for r m
    using that st wf_input [OF g(1)] by (fastforce simp: state_ok_def consumers_def)
  have rd: "Rule_isDirty (mark_nodes ?S g) r \<longleftrightarrow> Rule_isDirty g r \<or> r \<in> consumers g ?S" for r
    by (simp add: mark_nodes_def Rule_isDirty_def)
  show ?thesis using 1 2 3 unfolding state_ok_def rd by (simp add: mark_nodes_def)
qed

text \<open>A graph whose edges decrease some rank has no cycle: the form in which examples are checked.\<close>

lemma acyclic_graph_by_rank:
  assumes "\<forall>r \<in> set (g_rules g). \<forall>n \<in> set (r_inputs (g_rule g r)). \<forall>t \<in> set (r_outputs (g_rule g r)).
             (rank :: nid \<Rightarrow> nat) t < rank n"
  shows "acyclic_graph g"
proof -
  have "dep_edges g \<subseteq> (measure rank)\<inverse>" using assms by (auto simp: dep_edges_def)
  then show ?thesis unfolding acyclic_graph_def
    by (meson acyclic_converse acyclic_subset wf_acyclic wf_measure)
qed

section \<open>Properties\<close>

text \<open>The example graph of the witnesses: the chain of a source 1, a rule that builds 2 from it
  and a rule that builds 3 from 2, all up to date.\<close>

definition chain_node :: "string \<Rightarrow> rid option \<Rightarrow> rid list \<Rightarrow> node" where
  "chain_node p c ps = (Node_init p True False)\<lparr>n_child := c, n_parents := ps\<rparr>"

definition chain_rule :: "nid list \<Rightarrow> nid list \<Rightarrow> rule" where
  "chain_rule is os = (Rule_init is os)\<lparr>r_command := ''cc'', r_numReady := length is\<rparr>"

definition chain_graph :: graph where
  "chain_graph = Graph_empty\<lparr>
     g_node := (g_node Graph_empty)(1 := chain_node ''a'' None [1],
                2 := chain_node ''b'' (Some 1) [2], 3 := chain_node ''c'' (Some 2) []),
     g_rule := (g_rule Graph_empty)(1 := chain_rule [1] [2], 2 := chain_rule [2] [3]),
     g_roots := {3}, g_sources := {1}, g_nodes := [(''a'', 1), (''b'', 2), (''c'', 3)],
     g_rules := [1, 2]\<rparr>"

lemmas chain_defs = chain_graph_def chain_node_def chain_rule_def Node_init_def Rule_init_def Graph_empty_def

lemma chain_wf: "wf_graph chain_graph"
  by (auto simp: wf_graph_def wf_node_def wf_rule_def live_def chain_defs)

lemma chain_acyclic: "acyclic_graph chain_graph"
  by (rule acyclic_graph_by_rank [where rank = "\<lambda>n. 3 - n"]) (auto simp: chain_defs)

lemma chain_ok: "counters_ok chain_graph" "state_ok chain_graph" "live chain_graph = {1, 2, 3}"
    "length (g_nodes chain_graph) = 3" "Node_isSource chain_graph 1"
  by (auto simp: counters_ok_def counter_ok_def input_ready_def state_ok_def live_def Node_isDirty_def
      Node_isSource_def Rule_isDirty_def chain_defs)

text \<open>C9. \<open>Node::markDirty\<close> on a consistent graph without cycles returns, passes every assertion
  on the ready counters and computes exactly the reference marking: the nodes built from the
  node, directly or not, and the rules that consume one of them become out of date, and every
  such rule loses one ready input per generated input that was up to date before. Twice the
  number of nodes bounds the recursion.\<close>

theorem markDirty_reference:
  assumes "wf_graph g" and "acyclic_graph g" and "counters_ok g" and "n \<in> live g"
    and "2 * length (g_nodes g) \<le> k"
  shows "Node_markDirty k n g = Inr (mark_nodes (upward g n) g)"
  by (rule markDirty_eq [OF assms])

theorem markDirty_reference_witness:
  "Node_markDirty 6 1 chain_graph = Inr (mark_nodes (upward chain_graph 1) chain_graph)"
  by (rule markDirty_reference [OF chain_wf chain_acyclic chain_ok(1)]) (simp_all add: chain_ok)

text \<open>Dirty marking keeps what the consistency checker of the repository checks: the
  structure of the graph, the counters of ready inputs of every rule and, when a source file is
  marked (the case of a change reported by watchman), the agreement of the states of nodes and
  rules; a node is dirty afterwards exactly when it was dirty or is built from the marked one.\<close>

lemma markDirty_keeps_invariants:
  assumes "wf_graph g" and "acyclic_graph g" and "counters_ok g" and "n \<in> live g"
    and "2 * length (g_nodes g) \<le> k"
  shows "\<exists>g'. Node_markDirty k n g = Inr g' \<and> wf_graph g' \<and> acyclic_graph g' \<and> counters_ok g' \<and>
           (\<forall>m. Node_isDirty g' m \<longleftrightarrow> Node_isDirty g m \<or> m \<in> upward g n) \<and>
           (Node_isSource g n \<and> state_ok g \<longrightarrow> state_ok g')"
proof -
  have "counters_ok (mark_nodes (upward g n) g)"
    by (rule mark_nodes_counters [OF assms(1,3) upward_live [OF assms(1,2,4)]])
  moreover have "Node_isDirty (mark_nodes (upward g n) g) m \<longleftrightarrow> Node_isDirty g m \<or> m \<in> upward g n" for m
    by (auto simp: mark_nodes_def)
  ultimately show ?thesis
    using markDirty_eq [OF assms] markDirty_state_ok [OF assms(1,2,4)] assms(1,2)
    by (simp add: mark_nodes_def)
qed

lemma markDirty_keeps_invariants_example:
  "\<exists>g'. Node_markDirty 6 1 chain_graph = Inr g' \<and> state_ok g' \<and> counters_ok g'"
  using markDirty_keeps_invariants [OF chain_wf chain_acyclic chain_ok(1), of 1 6]
  using chain_ok by auto

end
