(* ===== verification/File_System.thy ===== *)
theory File_System
  imports Falcon_Prelude
begin

text \<open>
  The file operations of \<open>src/src/fs.cpp\<close> and what the program uses of the operating system.

  The disk is a map from path names to objects. Two names of one object are not identified:
  there are no links and no \<open>.\<close> or \<open>..\<close>. Creating, writing or removing an object can be
  refused by the system for reasons the program cannot see (\<open>w_denied\<close>: permissions, quotas).
  Times are those of the world's clock.

  \<open>fs::dirname\<close> is characterised, and \<open>fs::createPath\<close> is shown to terminate, to answer
  truthfully, to create nothing but missing parent directories and to keep the disk a tree.
\<close>

section \<open>The disk\<close>

datatype fobj = Dir | File (f_content: string) (f_mtime: int)

record world =
  w_files :: "string \<Rightarrow> fobj option"
  w_denied :: "string set"
  w_time :: int

definition isDir :: "world \<Rightarrow> string \<Rightarrow> bool" where
  "isDir w path \<longleftrightarrow> w_files w path = Some Dir"

definition upd_files :: "((string \<Rightarrow> fobj option) \<Rightarrow> (string \<Rightarrow> fobj option)) \<Rightarrow> world \<Rightarrow> world" where
  "upd_files f w = w\<lparr>w_files := f (w_files w)\<rparr>"

lemma upd_files_sel [simp]:
  "w_files (upd_files f w) = f (w_files w)"
  "w_denied (upd_files f w) = w_denied w"
  "w_time (upd_files f w) = w_time w"
  by (simp_all add: upd_files_def)

section \<open>Path names\<close>

text \<open>\<open>std::string::find_last_of("/")\<close>: the index of the last slash.\<close>

fun find_last_slash :: "string \<Rightarrow> nat option" where
  "find_last_slash [] = None"
| "find_last_slash (c # cs) =
     (case find_last_slash cs of
        Some i \<Rightarrow> Some (Suc i)
      | None \<Rightarrow> if c = CHR ''/'' then Some 0 else None)"

text \<open>The \<open>while\<close> loop of \<open>fs::dirname\<close>.\<close>

fun strip_slashes :: "string \<Rightarrow> nat \<Rightarrow> nat" where
  "strip_slashes path 0 = 0"
| "strip_slashes path (Suc i) = (if path ! i = CHR ''/'' then strip_slashes path i else Suc i)"

definition dirname :: "string \<Rightarrow> string" where
  "dirname path =
     (case find_last_slash path of
        None \<Rightarrow> []
      | Some slash_pos \<Rightarrow> take (strip_slashes path slash_pos) path)"

lemma find_last_slash_Some:
  "find_last_slash p = Some i \<Longrightarrow> i < length p \<and> p ! i = CHR ''/'' \<and> CHR ''/'' \<notin> set (drop (Suc i) p)"
proof (induction p arbitrary: i)
  case (Cons c p)
  have none: "find_last_slash q = None \<Longrightarrow> CHR ''/'' \<notin> set q" for q
    by (induction q) (auto split: option.splits if_splits)
  show ?case using Cons none by (auto split: option.splits if_splits)
qed simp

lemma find_last_slash_None: "find_last_slash p = None \<longleftrightarrow> CHR ''/'' \<notin> set p"
  by (induction p) (auto split: option.splits if_splits)

lemma strip_slashes_le: "strip_slashes p i \<le> i"
  by (induction i) auto

lemma strip_slashes_slash: "j < i \<Longrightarrow> strip_slashes p i \<le> j \<Longrightarrow> p ! j = CHR ''/''"
  by (induction i) (auto split: if_splits simp: less_Suc_eq)

lemma strip_slashes_last: "0 < strip_slashes p i \<Longrightarrow> p ! (strip_slashes p i - 1) \<noteq> CHR ''/''"
  by (induction i) (auto split: if_splits)

lemma length_dirname: "dirname p \<noteq> [] \<Longrightarrow> length (dirname p) < length p"
proof -
  assume "dirname p \<noteq> []"
  then obtain i where i: "find_last_slash p = Some i" by (auto simp: dirname_def split: option.splits)
  with find_last_slash_Some [OF i] strip_slashes_le [of p i] show ?thesis by (auto simp: dirname_def)
qed

text \<open>\<open>dirname\<close> splits a path with a slash into directory, separating slashes and file name.\<close>

lemma dirname_split:
  assumes "CHR ''/'' \<in> set p"
  obtains k base where "p = dirname p @ replicate (Suc k) (CHR ''/'') @ base" and "CHR ''/'' \<notin> set base"
    and "dirname p = [] \<or> last (dirname p) \<noteq> CHR ''/''"
proof -
  from assms obtain i where i: "find_last_slash p = Some i" by (metis find_last_slash_None not_None_eq)
  note spec = find_last_slash_Some [OF i]
  let ?s = "strip_slashes p i"
  have d: "dirname p = take ?s p" using i by (simp add: dirname_def)
  have le: "?s \<le> i" by (rule strip_slashes_le)
  have "take (Suc i - ?s) (drop ?s p) = replicate (Suc (i - ?s)) (CHR ''/'')"
  proof (rule nth_equalityI)
    show "length (take (Suc i - ?s) (drop ?s p)) = length (replicate (Suc (i - ?s)) (CHR ''/''))"
      using spec le by (auto simp: min_def)
    fix j assume j: "j < length (take (Suc i - ?s) (drop ?s p))"
    then have "?s + j < i \<or> ?s + j = i" using le by auto
    then have "p ! (?s + j) = CHR ''/''" using strip_slashes_slash [of "?s + j" i p] spec by auto
    then show "take (Suc i - ?s) (drop ?s p) ! j = replicate (Suc (i - ?s)) (CHR ''/'') ! j"
      using j le spec by (simp del: replicate_Suc add: nth_replicate Suc_diff_le)
  qed
  moreover have "p = take ?s p @ take (Suc i - ?s) (drop ?s p) @ drop (Suc i) p"
    using le by (metis append_take_drop_id drop_drop le_SucI le_add_diff_inverse2)
  moreover have "take ?s p = [] \<or> last (take ?s p) \<noteq> CHR ''/''"
  proof (cases ?s)
    case (Suc m)
    then have "last (take ?s p) = p ! m" using spec le by (simp add: take_Suc_conv_app_nth)
    then show ?thesis using strip_slashes_last [of p i] Suc by simp
  qed simp
  ultimately show thesis using that [of "i - ?s" "drop (Suc i) p"] spec d by simp
qed

lemma dirname_join:
  assumes "d = [] \<or> last d \<noteq> CHR ''/''" and "CHR ''/'' \<notin> set base"
  shows "dirname (d @ replicate (Suc k) (CHR ''/'') @ base) = d"
proof -
  let ?p = "d @ replicate (Suc k) (CHR ''/'') @ base"
  have "CHR ''/'' \<in> set ?p" by simp
  then obtain j b where j: "?p = dirname ?p @ replicate (Suc j) (CHR ''/'') @ b" "CHR ''/'' \<notin> set b"
    "dirname ?p = [] \<or> last (dirname ?p) \<noteq> CHR ''/''" by (rule dirname_split)
  have strip: "dropWhile ((=) (CHR ''/'')) (dropWhile ((\<noteq>) (CHR ''/'')) (rev (e @ replicate (Suc m) (CHR ''/'') @ c))) = rev e"
    if "e = [] \<or> last e \<noteq> CHR ''/''" "CHR ''/'' \<notin> set c" for e m c
  proof -
    have "dropWhile ((\<noteq>) (CHR ''/'')) (rev c @ replicate (Suc m) (CHR ''/'') @ rev e) = replicate (Suc m) (CHR ''/'') @ rev e"
      using that(2) by (subst dropWhile_append2) auto
    moreover have "dropWhile ((=) (CHR ''/'')) (replicate (Suc m) (CHR ''/'') @ rev e) = rev e"
      using that(1) by (subst dropWhile_append2) (cases e rule: rev_cases, auto)+
    ultimately show ?thesis by (simp del: replicate_Suc)
  qed
  have "rev (dirname ?p) = rev d" using strip [OF j(3,2), of j] strip [OF assms, of k] unfolding j(1) [symmetric] by (rule trans [OF sym])
  then show ?thesis by simp
qed

section \<open>System calls\<close>

text \<open>The object can be created: the system allows it and the parent directory exists.\<close>

definition creatable :: "world \<Rightarrow> string \<Rightarrow> bool" where
  "creatable w path \<longleftrightarrow> path \<noteq> [] \<and> path \<notin> w_denied w \<and> (dirname path = [] \<or> isDir w (dirname path))"

definition sys_mkdir :: "string \<Rightarrow> world \<Rightarrow> bool \<times> world" where
  "sys_mkdir path w =
     (if w_files w path = None \<and> creatable w path then (True, upd_files (\<lambda>f. f(path \<mapsto> Dir)) w)
      else (False, w))"

definition sys_unlink :: "string \<Rightarrow> world \<Rightarrow> bool \<times> world" where
  "sys_unlink path w =
     (case w_files w path of
        Some (File _ _) \<Rightarrow> if path \<in> w_denied w then (False, w)
                           else (True, upd_files (\<lambda>f. f(path := None)) w)
      | _ \<Rightarrow> (False, w))"

text \<open>
  File streams. Reading from a stream that could not be opened yields nothing, and opening or
  writing a stream never throws, since the program leaves the exception mask of its streams
  empty. Opening a file for writing truncates it.
\<close>

definition ifstream_read :: "world \<Rightarrow> string \<Rightarrow> string" where
  "ifstream_read w path = (case w_files w path of Some (File c _) \<Rightarrow> c | _ \<Rightarrow> [])"

definition ofstream_write :: "string \<Rightarrow> string \<Rightarrow> world \<Rightarrow> world" where
  "ofstream_write path c w =
     (if w_files w path \<noteq> Some Dir \<and> creatable w path
      then upd_files (\<lambda>f. f(path \<mapsto> File c (w_time w))) w else w)"

text \<open>The copy \<open>std::ifstream ifs(src); std::ofstream ofs(dst); ofs << ifs.rdbuf();\<close>.\<close>

definition stream_copy :: "string \<Rightarrow> string \<Rightarrow> world \<Rightarrow> world" where
  "stream_copy src dst w =
     (let w = ofstream_write dst [] w in ofstream_write dst (ifstream_read w src) w)"

section \<open>The functions of fs.cpp\<close>

definition fs_mkdir :: "string \<Rightarrow> world \<Rightarrow> bool \<times> world" where
  "fs_mkdir path w =
     (case w_files w path of
        None \<Rightarrow> sys_mkdir path w
      | Some Dir \<Rightarrow> (True, w)
      | Some (File _ _) \<Rightarrow> (False, w))"

function createPath :: "string \<Rightarrow> world \<Rightarrow> bool \<times> world" where
  "createPath path w =
     (if dirname path = [] then (True, w)
      else if isDir w (dirname path) then (True, w)
      else case createPath (dirname path) w of
             (False, w) \<Rightarrow> (False, w)
           | (True, w) \<Rightarrow> fs_mkdir (dirname path) w)"
  by pat_completeness auto
termination by (relation "measure (\<lambda>(path, w). length path)") (auto intro: length_dirname)

declare createPath.simps [simp del]

section \<open>Correctness\<close>

text \<open>The disk is a tree: the parent of every object is a directory.\<close>

definition tree_ok :: "world \<Rightarrow> bool" where
  "tree_ok w \<longleftrightarrow> (\<forall>p. w_files w p \<noteq> None \<longrightarrow> dirname p = [] \<or> isDir w (dirname p))"

text \<open>The directories above a path.\<close>

inductive_set ancestors :: "string \<Rightarrow> string set" for p where
  parent: "dirname p \<noteq> [] \<Longrightarrow> dirname p \<in> ancestors p"
| above: "d \<in> ancestors p \<Longrightarrow> dirname d \<noteq> [] \<Longrightarrow> dirname d \<in> ancestors p"

lemma ancestors_dirname:
  assumes "dirname p \<noteq> []"
  shows "ancestors p = insert (dirname p) (ancestors (dirname p))"
proof (intro equalityI subsetI)
  fix d assume "d \<in> ancestors p"
  then show "d \<in> insert (dirname p) (ancestors (dirname p))"
    by induction (auto intro: ancestors.intros)
next
  fix d assume "d \<in> insert (dirname p) (ancestors (dirname p))"
  moreover have "d \<in> ancestors p" if "d \<in> ancestors (dirname p)"
    using that assms by induction (auto intro: ancestors.intros)
  ultimately show "d \<in> ancestors p" using assms by (auto intro: ancestors.intros)
qed

text \<open>\<open>only_dirs P w w'\<close>: from \<open>w\<close> to \<open>w'\<close> nothing changed but directories of \<open>P\<close> that were created.\<close>

definition only_dirs :: "string set \<Rightarrow> world \<Rightarrow> world \<Rightarrow> bool" where
  "only_dirs P w w' \<longleftrightarrow> w_denied w' = w_denied w \<and> w_time w' = w_time w \<and>
     (\<forall>q. w_files w' q = w_files w q \<or> q \<in> P \<and> w_files w q = None \<and> isDir w' q)"

lemma only_dirs_refl [simp, intro]: "only_dirs P w w"
  by (simp add: only_dirs_def)

lemma only_dirs_trans:
  "only_dirs P w w' \<Longrightarrow> only_dirs Q w' w'' \<Longrightarrow> P \<subseteq> R \<Longrightarrow> Q \<subseteq> R \<Longrightarrow> only_dirs R w w''"
  unfolding only_dirs_def isDir_def by (metis subsetD)

lemma only_dirs_isDir: "only_dirs P w w' \<Longrightarrow> isDir w p \<Longrightarrow> isDir w' p"
  unfolding only_dirs_def isDir_def by (metis option.distinct(1))

lemma fs_mkdir_spec:
  assumes "fs_mkdir p w = (b, w')"
  shows "only_dirs {p} w w'" and "b \<longleftrightarrow> isDir w' p" and "tree_ok w \<Longrightarrow> tree_ok w'"
proof -
  show "only_dirs {p} w w'" using assms
    by (auto simp: fs_mkdir_def sys_mkdir_def only_dirs_def isDir_def split: option.splits fobj.splits if_splits)
  show "b \<longleftrightarrow> isDir w' p" using assms
    by (auto simp: fs_mkdir_def sys_mkdir_def isDir_def split: option.splits fobj.splits if_splits)
  have "w' = w \<or> (creatable w p \<and> w' = upd_files (\<lambda>f. f(p \<mapsto> Dir)) w)" using assms
    by (auto simp: fs_mkdir_def sys_mkdir_def split: option.splits fobj.splits if_splits)
  then show "tree_ok w'" if "tree_ok w"
    using that by (elim disjE) (auto simp: isDir_def tree_ok_def creatable_def)
qed

lemma createPath_stop: "dirname p = [] \<or> isDir w (dirname p) \<Longrightarrow> createPath p w = (True, w)"
  by (subst createPath.simps) auto

lemma createPath_step:
  "dirname p \<noteq> [] \<Longrightarrow> \<not> isDir w (dirname p) \<Longrightarrow> createPath (dirname p) w = (c, w') \<Longrightarrow>
     createPath p w = (if c then fs_mkdir (dirname p) w' else (False, w'))"
  by (subst createPath.simps) (simp split: bool.split)

lemma createPath_spec:
  "createPath p w = (b, w') \<Longrightarrow>
     only_dirs (ancestors p) w w' \<and> (b \<longleftrightarrow> dirname p = [] \<or> isDir w' (dirname p)) \<and> (tree_ok w \<longrightarrow> tree_ok w')"
proof (induction p w arbitrary: b w' rule: createPath.induct)
  case (1 p w)
  show ?case
  proof (cases "dirname p = [] \<or> isDir w (dirname p)")
    case True
    then show ?thesis using "1.prems" createPath_stop [OF True] by auto
  next
    case False
    obtain c w1 where c: "createPath (dirname p) w = (c, w1)" by fastforce
    have IH: "only_dirs (ancestors (dirname p)) w w1"
      "c \<longleftrightarrow> dirname (dirname p) = [] \<or> isDir w1 (dirname (dirname p))" "tree_ok w \<longrightarrow> tree_ok w1"
      using "1.IH" [OF _ _ c] False by auto
    have up: "ancestors (dirname p) \<subseteq> ancestors p" "{dirname p} \<subseteq> ancestors p"
      using ancestors_dirname False by auto
    show ?thesis
    proof (cases c)
      case True
      then have mk: "fs_mkdir (dirname p) w1 = (b, w')"
        using "1.prems" createPath_step [OF _ _ c] False by auto
      then show ?thesis using fs_mkdir_spec [OF mk] IH only_dirs_trans [OF IH(1) _ up] False by auto
    next
      case failed: False
      then have eq: "b = False" "w' = w1" using "1.prems" createPath_step [OF _ _ c] False by auto
      have "\<not> isDir w1 (dirname p)"
      proof
        assume *: "isDir w1 (dirname p)"
        then have "isDir w (dirname p) \<or> dirname p \<in> ancestors (dirname p)"
          using IH(1) unfolding only_dirs_def isDir_def by metis
        moreover have "length d < length q" if "d \<in> ancestors q" for d q
          using that by induction (auto dest: length_dirname)
        ultimately show False using False by blast
      qed
      then show ?thesis using IH eq up only_dirs_trans [OF IH(1) only_dirs_refl [of "ancestors p"] up(1)] False by auto
    qed
  qed
qed

section \<open>Properties\<close>

text \<open>\<open>fs::dirname\<close> inverts appending a file name: the directory is recovered however many
  slashes separate it from the name.\<close>

theorem dirname_append:
  assumes "d = [] \<or> last d \<noteq> CHR ''/''" and "CHR ''/'' \<notin> set base"
  shows "dirname (d @ replicate (Suc k) (CHR ''/'') @ base) = d"
  by (rule dirname_join [OF assms])

theorem dirname_append_witness: "dirname ''/usr//lib'' = ''/usr''"
  using dirname_append [of "''/usr''" "''lib''" 1] by simp



end
