(* ===== verification/Graph_Hash.thy ===== *)
theory Graph_Hash
  imports Graph_Model File_System
begin

text \<open>
  The hashes of nodes and rules, first part of \<open>src/src/graph_hash.cpp\<close>. A \<open>Hasher\<close> feeds
  the strings it is given to SHA-256 one after the other, so its state is their concatenation and
  \<open>get\<close> applies the digest function, which comes from OpenSSL and is the parameter \<open>sha\<close>.

  \<open>node_hash_ok\<close> and \<open>rule_hash_ok\<close> are the equations that the hashes of a graph satisfy when
  they are up to date with the files, the commands and each other.
\<close>

section \<open>Class Hasher\<close>

definition Hasher :: string where
  "Hasher = []"

definition Hasher_add :: "string \<Rightarrow> string \<Rightarrow> string" where
  "Hasher_add h data = h @ data"

definition Hasher_get :: "(string \<Rightarrow> string) \<Rightarrow> string \<Rightarrow> string" where
  "Hasher_get sha h = sha h"

section \<open>Updating one node or rule\<close>

definition updateNodeHash ::
    "(string \<Rightarrow> string) \<Rightarrow> world \<Rightarrow> nid \<Rightarrow> bool \<Rightarrow> bool \<Rightarrow> graph \<Rightarrow> (bool \<times> graph) result" where
  "updateNodeHash sha w n recomputeHash recomputeHashDeps g =
     assert_that ''recomputeHash || recomputeHashDeps'' (recomputeHash \<or> recomputeHashDeps)
       (let path = n_path (g_node g n) in
        case n_child (g_node g n) of
          None \<Rightarrow>
            (let data = ifstream_read w path;
                 hash = Hasher_get sha (Hasher_add (Hasher_add Hasher path) data);
                 (changed, g) =
                   (if recomputeHash then (n_hash (g_node g n) \<noteq> hash, Node_setHash n hash g) else (False, g));
                 (changed, g) =
                   (if recomputeHashDeps
                    then (changed \<or> n_hash (g_node g n) \<noteq> hash, Node_setHashDepfile n hash g) else (changed, g))
             in Inr (changed, g))
        | Some child \<Rightarrow>
            rbind (if recomputeHash
                   then assert_that ''!child->getHash().empty()'' (r_hash (g_rule g child) \<noteq> [])
                          (let hash = Hasher_get sha (Hasher_add (Hasher_add Hasher path) (r_hash (g_rule g child)))
                           in Inr (n_hash (g_node g n) \<noteq> hash, Node_setHash n hash g))
                   else Inr (False, g))
              (\<lambda>(changed, g).
                if recomputeHashDeps
                then assert_that ''!child->getHashDepfile().empty()'' (r_hashDepfile (g_rule g child) \<noteq> [])
                       (let hash = Hasher_get sha (Hasher_add (Hasher_add Hasher path) (r_hashDepfile (g_rule g child)))
                        in Inr (changed \<or> n_hashDepfile (g_node g n) \<noteq> hash, Node_setHashDepfile n hash g))
                else Inr (changed, g)))"

text \<open>The explicit inputs: the indexes below \<open>inputs.size() - getNumImplicitInputs()\<close>.\<close>

definition explicit_inputs :: "rule \<Rightarrow> nid list" where
  "explicit_inputs r = take (length (r_inputs r) - r_numImplicit r) (r_inputs r)"

definition updateRuleHash :: "(string \<Rightarrow> string) \<Rightarrow> rid \<Rightarrow> bool \<Rightarrow> bool \<Rightarrow> graph \<Rightarrow> graph result" where
  "updateRuleHash sha r recomputeHash recomputeHashDeps g =
     rbind (if recomputeHash
            then rbind (foldM (\<lambda>n hasher. assert_that ''!inputs[i]->getHash().empty()'' (n_hash (g_node g n) \<noteq> [])
                                 (Inr (Hasher_add hasher (n_hash (g_node g n)))))
                          (r_inputs (g_rule g r)) Hasher)
                   (\<lambda>hasher. Inr (Rule_setHash r (Hasher_get sha (Hasher_add hasher (r_command (g_rule g r)))) g))
            else Inr g)
       (\<lambda>g. if recomputeHashDeps
            then rbind (foldM (\<lambda>n hasher. assert_that ''!inputs[i]->getHashDepfile().empty()'' (n_hashDepfile (g_node g n) \<noteq> [])
                                 (Inr (Hasher_add hasher (n_hashDepfile (g_node g n)))))
                          (explicit_inputs (g_rule g r)) Hasher)
                   (\<lambda>hasher. Inr (Rule_setHashDepfile r (Hasher_get sha (Hasher_add hasher (r_command (g_rule g r)))) g))
            else Inr g)"

section \<open>The equations between hashes\<close>

definition node_hash :: "(string \<Rightarrow> string) \<Rightarrow> world \<Rightarrow> graph \<Rightarrow> nid \<Rightarrow> string" where
  "node_hash sha w g n = sha (n_path (g_node g n) @
     (case n_child (g_node g n) of None \<Rightarrow> ifstream_read w (n_path (g_node g n)) | Some r \<Rightarrow> r_hash (g_rule g r)))"

definition node_hashDepfile :: "(string \<Rightarrow> string) \<Rightarrow> world \<Rightarrow> graph \<Rightarrow> nid \<Rightarrow> string" where
  "node_hashDepfile sha w g n = sha (n_path (g_node g n) @
     (case n_child (g_node g n) of None \<Rightarrow> ifstream_read w (n_path (g_node g n)) | Some r \<Rightarrow> r_hashDepfile (g_rule g r)))"

definition rule_hash :: "(string \<Rightarrow> string) \<Rightarrow> graph \<Rightarrow> rid \<Rightarrow> string" where
  "rule_hash sha g r = sha (concat (map (\<lambda>n. n_hash (g_node g n)) (r_inputs (g_rule g r))) @ r_command (g_rule g r))"

definition rule_hashDepfile :: "(string \<Rightarrow> string) \<Rightarrow> graph \<Rightarrow> rid \<Rightarrow> string" where
  "rule_hashDepfile sha g r =
     sha (concat (map (\<lambda>n. n_hashDepfile (g_node g n)) (explicit_inputs (g_rule g r))) @ r_command (g_rule g r))"

definition node_hash_ok :: "(string \<Rightarrow> string) \<Rightarrow> world \<Rightarrow> graph \<Rightarrow> nid \<Rightarrow> bool" where
  "node_hash_ok sha w g n \<longleftrightarrow> n_hash (g_node g n) = node_hash sha w g n \<and> n_hashDepfile (g_node g n) = node_hashDepfile sha w g n"

definition rule_hash_ok :: "(string \<Rightarrow> string) \<Rightarrow> graph \<Rightarrow> rid \<Rightarrow> bool" where
  "rule_hash_ok sha g r \<longleftrightarrow> r_hash (g_rule g r) = rule_hash sha g r \<and> r_hashDepfile (g_rule g r) = rule_hashDepfile sha g r"

definition hashes_ok :: "(string \<Rightarrow> string) \<Rightarrow> world \<Rightarrow> graph \<Rightarrow> bool" where
  "hashes_ok sha w g \<longleftrightarrow> (\<forall>n \<in> live g. node_hash_ok sha w g n) \<and> (\<forall>r \<in> set (g_rules g). rule_hash_ok sha g r)"

text \<open>All hashes have been computed once.\<close>

definition hashed :: "graph \<Rightarrow> bool" where
  "hashed g \<longleftrightarrow> (\<forall>n \<in> live g. n_hash (g_node g n) \<noteq> [] \<and> n_hashDepfile (g_node g n) \<noteq> []) \<and>
     (\<forall>r \<in> set (g_rules g). r_hash (g_rule g r) \<noteq> [] \<and> r_hashDepfile (g_rule g r) \<noteq> [])"

lemma foldM_hasher:
  "foldM (\<lambda>n hasher. assert_that a (f n \<noteq> []) (Inr (hasher @ f n))) ns h =
     (if \<forall>n \<in> set ns. f n \<noteq> [] then Inr (h @ concat (map f ns)) else Inl (AssertFailed a))"
  by (induction ns arbitrary: h) (auto simp: assert_that_def)

text \<open>The two updates on a graph whose hashes are all there: the equation of the node or of the rule
  holds afterwards, nothing else changes, and the flag tells whether the node changed.\<close>

definition set_node_hashes :: "nid \<Rightarrow> string \<Rightarrow> string \<Rightarrow> graph \<Rightarrow> graph" where
  "set_node_hashes n h d = upd_node n (\<lambda>nd. nd\<lparr>n_hash := h, n_hashDepfile := d\<rparr>)"

definition set_rule_hashes :: "rid \<Rightarrow> string \<Rightarrow> string \<Rightarrow> graph \<Rightarrow> graph" where
  "set_rule_hashes r h d = upd_rule r (\<lambda>rl. rl\<lparr>r_hash := h, r_hashDepfile := d\<rparr>)"

lemma updateRuleHash_eq:
  assumes "\<forall>n \<in> set (r_inputs (g_rule g r)). n_hash (g_node g n) \<noteq> [] \<and> n_hashDepfile (g_node g n) \<noteq> []"
  shows "updateRuleHash sha r True True g = Inr (set_rule_hashes r (rule_hash sha g r) (rule_hashDepfile sha g r) g)"
proof -
  have "\<forall>n \<in> set (explicit_inputs (g_rule g r)). n_hashDepfile (g_node g n) \<noteq> []"
    using assms by (auto simp: explicit_inputs_def dest: in_set_takeD)
  then show ?thesis using assms
    by (simp add: updateRuleHash_def foldM_hasher Hasher_def Hasher_get_def Hasher_add_def rule_defs explicit_inputs_def
        rule_hash_def rule_hashDepfile_def set_rule_hashes_def upd_rule_def)
qed

lemma updateNodeHash_eq:
  assumes "\<And>r. n_child (g_node g n) = Some r \<Longrightarrow> r_hash (g_rule g r) \<noteq> [] \<and> r_hashDepfile (g_rule g r) \<noteq> []"
    and "n_child (g_node g n) = None \<Longrightarrow> n_hash (g_node g n) = n_hashDepfile (g_node g n)"
  shows "updateNodeHash sha w n True True g =
    Inr (n_hash (g_node g n) \<noteq> node_hash sha w g n \<or> n_hashDepfile (g_node g n) \<noteq> node_hashDepfile sha w g n,
         set_node_hashes n (node_hash sha w g n) (node_hashDepfile sha w g n) g)"
proof (cases "n_child (g_node g n)")
  case None
  then show ?thesis using assms(2)
    by (auto simp: updateNodeHash_def Let_def Hasher_def Hasher_get_def Hasher_add_def node_defs upd_node_def
        node_hash_def node_hashDepfile_def set_node_hashes_def)
next
  case (Some r)
  then show ?thesis using assms(1) [OF Some]
    by (simp add: updateNodeHash_def Let_def Hasher_def Hasher_get_def Hasher_add_def node_defs upd_node_def
        node_hash_def node_hashDepfile_def set_node_hashes_def)
qed

lemma set_hashes_sel [simp]:
  "g_rule (set_node_hashes n h d g) = g_rule g" "g_nodes (set_node_hashes n h d g) = g_nodes g"
  "g_rules (set_node_hashes n h d g) = g_rules g" "live (set_node_hashes n h d g) = live g"
  "n_path (g_node (set_node_hashes n h d g) m) = n_path (g_node g m)"
  "n_child (g_node (set_node_hashes n h d g) m) = n_child (g_node g m)"
  "n_parents (g_node (set_node_hashes n h d g) m) = n_parents (g_node g m)"
  "n_hash (g_node (set_node_hashes n h d g) m) = (if m = n then h else n_hash (g_node g m))"
  "n_hashDepfile (g_node (set_node_hashes n h d g) m) = (if m = n then d else n_hashDepfile (g_node g m))"
  "g_node (set_rule_hashes r h d g) = g_node g" "g_nodes (set_rule_hashes r h d g) = g_nodes g"
  "g_rules (set_rule_hashes r h d g) = g_rules g" "live (set_rule_hashes r h d g) = live g"
  "r_inputs (g_rule (set_rule_hashes r h d g) q) = r_inputs (g_rule g q)"
  "r_outputs (g_rule (set_rule_hashes r h d g) q) = r_outputs (g_rule g q)"
  "r_command (g_rule (set_rule_hashes r h d g) q) = r_command (g_rule g q)"
  "r_depfile (g_rule (set_rule_hashes r h d g) q) = r_depfile (g_rule g q)"
  "r_numImplicit (g_rule (set_rule_hashes r h d g) q) = r_numImplicit (g_rule g q)"
  "r_hash (g_rule (set_rule_hashes r h d g) q) = (if q = r then h else r_hash (g_rule g q))"
  "r_hashDepfile (g_rule (set_rule_hashes r h d g) q) = (if q = r then d else r_hashDepfile (g_rule g q))"
  "explicit_inputs (g_rule (set_rule_hashes r h d g) q) = explicit_inputs (g_rule g q)"
  by (auto simp: set_node_hashes_def set_rule_hashes_def live_def explicit_inputs_def)

end
