(* ===== verification/Depfile_Parser.thy ===== *)
theory Depfile_Parser
  imports Falcon_Prelude
begin

text \<open>
  The depfile parser of \<open>src/src/depfile_parser.cpp\<close>, an automaton generated by re2c that
  de-escapes file names in place: the input pointer \<open>in\<close> runs ahead of the output pointer
  \<open>out\<close> in one buffer, and the results are slices of it.

  The model keeps the buffer, the pointers (as indexes), the jump labels and the table of the
  automaton. Reads behind the terminating null character, writes outside of the buffer and
  indexes outside of the table are errors of the model; \<open>char\<close> is signed, as on the platforms the
  program is built for. On ASCII input the parser is shown to be memory safe, to terminate and to
  compute what a short reference definition says; printing a rule in the format of \<open>gcc -M\<close> and
  parsing it gives the rule back.
\<close>

section \<open>The automaton\<close>

text \<open>The value of a signed \<open>char\<close>.\<close>

definition sc :: "char \<Rightarrow> int" where
  "sc c = (let n = int (of_char c) in if n < 128 then n else n - 256)"

datatype label = YY2 | YY3 | YY4 | YY5 | YY7 | YY9 | YY14 | YY16

text \<open>The first dispatch; \<open>YY2\<close> is the fall-through of the backslash.\<close>

definition yy_first :: "int \<Rightarrow> label" where
  "yy_first yych =
     (if yych \<le> 0x3D
      then (if yych \<le> 0x24
            then (if yych \<le> 0x20
                  then (if yych \<le> 0 then YY7 else YY9)
                  else (if yych \<le> 0x21 then YY5 else if yych \<le> 0x23 then YY9 else YY4))
            else (if yych \<le> 0x2A
                  then (if yych \<le> 0x27 then YY9 else if yych \<le> 0x29 then YY5 else YY9)
                  else (if yych \<le> 0x3A then YY5 else if yych \<le> 0x3C then YY9 else YY5)))
      else (if yych \<le> 0x5E
            then (if yych \<le> 0x5A
                  then (if yych \<le> 0x3F then YY9 else YY5)
                  else (if yych \<noteq> 0x5C then YY9 else YY2))
            else (if yych \<le> 0x7A
                  then (if yych = 0x60 then YY9 else YY5)
                  else (if yych = 0x7E then YY5 else YY9))))"

text \<open>The dispatch on the character after a backslash.\<close>

definition yy_second :: "int \<Rightarrow> label" where
  "yy_second yych =
     (if yych \<le> 0x23
      then (if yych \<le> 0x0A
            then (if yych \<le> 0 then YY3 else if yych \<le> 0x09 then YY14 else YY3)
            else (if yych = 0x20 then YY16 else if yych \<le> 0x22 then YY14 else YY16))
      else (if yych \<le> 0x5A
            then (if yych = 0x2A then YY16 else YY14)
            else (if yych \<le> 0x5C then YY16 else if yych = 0x7C then YY16 else YY14)))"

definition yybm :: "nat list" where
  "yybm =
    [0, 0, 0, 0, 0, 0, 0, 0,
     0, 0, 0, 0, 0, 0, 0, 0,
     0, 0, 0, 0, 0, 0, 0, 0,
     0, 0, 0, 0, 0, 0, 0, 0,
     0, 128, 0, 0, 0, 0, 0, 0,
     128, 128, 0, 128, 128, 128, 128, 128,
     128, 128, 128, 128, 128, 128, 128, 128,
     128, 128, 128, 0, 0, 128, 0, 0,
     128, 128, 128, 128, 128, 128, 128, 128,
     128, 128, 128, 128, 128, 128, 128, 128,
     128, 128, 128, 128, 128, 128, 128, 128,
     128, 128, 128, 0, 0, 0, 0, 128,
     0, 128, 128, 128, 128, 128, 128, 128,
     128, 128, 128, 128, 128, 128, 128, 128,
     128, 128, 128, 128, 128, 128, 128, 128,
     128, 128, 128, 0, 0, 0, 128, 0,
     0, 0, 0, 0, 0, 0, 0, 0,
     0, 0, 0, 0, 0, 0, 0, 0,
     0, 0, 0, 0, 0, 0, 0, 0,
     0, 0, 0, 0, 0, 0, 0, 0,
     0, 0, 0, 0, 0, 0, 0, 0,
     0, 0, 0, 0, 0, 0, 0, 0,
     0, 0, 0, 0, 0, 0, 0, 0,
     0, 0, 0, 0, 0, 0, 0, 0,
     0, 0, 0, 0, 0, 0, 0, 0,
     0, 0, 0, 0, 0, 0, 0, 0,
     0, 0, 0, 0, 0, 0, 0, 0,
     0, 0, 0, 0, 0, 0, 0, 0,
     0, 0, 0, 0, 0, 0, 0, 0,
     0, 0, 0, 0, 0, 0, 0, 0,
     0, 0, 0, 0, 0, 0, 0, 0,
     0, 0, 0, 0, 0, 0, 0, 0]"

section \<open>Buffer accesses\<close>

text \<open>\<open>*p\<close> in a string that is followed by a null character.\<close>

definition peek :: "string \<Rightarrow> nat \<Rightarrow> char result" where
  "peek buf i = (if i < length buf then Inr (buf ! i) else if i = length buf then Inr (CHR 0x00) else Inl OutOfBounds)"

definition poke :: "string \<Rightarrow> nat \<Rightarrow> char \<Rightarrow> string result" where
  "poke buf i c = (if i < length buf then Inr (buf[i := c]) else Inl OutOfBounds)"

definition memmove :: "string \<Rightarrow> nat \<Rightarrow> nat \<Rightarrow> nat \<Rightarrow> string result" where
  "memmove buf dst src len =
     (if dst + len \<le> length buf \<and> src + len \<le> length buf
      then Inr (take dst buf @ take len (drop src buf) @ drop (dst + len) buf) else Inl OutOfBounds)"

definition slice :: "string \<Rightarrow> nat \<Rightarrow> nat \<Rightarrow> string" where
  "slice buf pos len = take len (drop pos buf)"

text \<open>The loop \<open>yy10\<close>, \<open>yy11\<close>: how far the plain text goes on; the table is read at \<open>yybm[0+yych]\<close>.\<close>

fun plain_run :: "string \<Rightarrow> nat result" where
  "plain_run [] = Inr 0"
| "plain_run (c # cs) =
     (if sc c < 0 then Inl OutOfBounds
      else if yybm ! nat (sc c) = 128 then rbind (plain_run cs) (\<lambda>k. Inr (Suc k)) else Inr 0)"

text \<open>The actions of the scanner, with the character they write.\<close>

datatype action = Break | Span | Dollar | Verbatim char | Escaped char

definition yylex :: "string \<Rightarrow> nat \<Rightarrow> (action \<times> nat) result" where
  "yylex buf i =
     rbind (peek buf i) (\<lambda>c.
       case yy_first (sc c) of
         YY4 \<Rightarrow> rbind (peek buf (i + 1)) (\<lambda>d. if d = CHR ''$'' then Inr (Dollar, i + 2) else Inr (Break, i + 1))
       | YY5 \<Rightarrow> rbind (plain_run (drop (i + 1) buf)) (\<lambda>k. Inr (Span, i + 1 + k))
       | YY7 \<Rightarrow> Inr (Break, i + 1)
       | YY9 \<Rightarrow> rbind (peek buf (i + 1)) (\<lambda>_. Inr (Break, i + 1))
       | _ \<Rightarrow> rbind (peek buf (i + 1)) (\<lambda>d.
                case yy_second (sc d) of
                  YY14 \<Rightarrow> Inr (Verbatim d, i + 2)
                | YY16 \<Rightarrow> Inr (Escaped d, i + 2)
                | _ \<Rightarrow> Inr (Break, i + 1)))"

lemma yylex_advances: "yylex buf i = Inr (a, i') \<Longrightarrow> i \<le> length buf \<and> i < i'"
  by (auto simp: yylex_def peek_def rbind_eq_Inr split: if_splits label.splits)

lemma poke_length: "poke buf i c = Inr buf' \<Longrightarrow> length buf' = length buf"
  by (auto simp: poke_def split: if_splits)

lemma memmove_length: "memmove buf d s n = Inr buf' \<Longrightarrow> length buf' = length buf"
  by (auto simp: memmove_def split: if_splits)

section \<open>DepfileParser::Parse\<close>

text \<open>The inner loop \<open>for (;;)\<close>; it returns the buffer, \<open>in\<close> and \<open>out\<close> at the \<open>break\<close>.\<close>

function parse_name :: "string \<Rightarrow> nat \<Rightarrow> nat \<Rightarrow> (string \<times> nat \<times> nat) result" where
  "parse_name buf start out =
     rbind (yylex buf start) (\<lambda>(a, inp).
       case a of
         Break \<Rightarrow> Inr (buf, inp, out)
       | Span \<Rightarrow>
           (let len = inp - start
            in rbind (if out < start then memmove buf out start len else Inr buf)
                 (\<lambda>buf. parse_name buf inp (out + len)))
       | Dollar \<Rightarrow> rbind (poke buf out (CHR ''$'')) (\<lambda>buf. parse_name buf inp (out + 1))
       | Verbatim yych \<Rightarrow>
           rbind (poke buf out (CHR 0x5C)) (\<lambda>buf.
             rbind (poke buf (out + 1) yych) (\<lambda>buf. parse_name buf inp (out + 2)))
       | Escaped yych \<Rightarrow> rbind (poke buf out yych) (\<lambda>buf. parse_name buf inp (out + 1)))"
  by pat_completeness auto
termination
  by (relation "measure (\<lambda>(buf, start, out). Suc (length buf) - start)")
    (auto dest!: yylex_advances poke_length memmove_length split: if_splits)

declare parse_name.simps [simp del]

lemma parse_name_advances:
  "parse_name buf start out = Inr (buf', inp, out') \<Longrightarrow> length buf' = length buf \<and> start < inp"
proof (induction buf start out rule: parse_name.induct)
  case (1 buf start out)
  note IH = "1.IH"
  from "1.prems" obtain a i where a: "yylex buf start = Inr (a, i)"
    by (subst (asm) parse_name.simps) (auto simp: rbind_eq_Inr)
  note adv = yylex_advances [OF a]
  show ?case
  proof (cases a)
    case Break
    then show ?thesis using "1.prems" a adv by (subst (asm) parse_name.simps) auto
  next
    case Span
    from "1.prems" a Span obtain b where b: "(if out < start then memmove buf out start (i - start) else Inr buf) = Inr b"
      "parse_name b i (out + (i - start)) = Inr (buf', inp, out')"
      by (subst (asm) parse_name.simps) (auto simp: rbind_eq_Inr Let_def)
    then have "length b = length buf" by (auto dest: memmove_length split: if_splits)
    then show ?thesis using IH(1) [OF a refl Span refl b(1) b(2)] adv by simp
  next
    case Dollar
    from "1.prems" a Dollar obtain b where b: "poke buf out (CHR ''$'') = Inr b" "parse_name b i (out + 1) = Inr (buf', inp, out')"
      by (subst (asm) parse_name.simps) (auto simp: rbind_eq_Inr)
    then show ?thesis using IH(2) [OF a refl Dollar b(1) b(2)] adv poke_length [OF b(1)] by simp
  next
    case (Verbatim c)
    from "1.prems" a Verbatim obtain b b' where b: "poke buf out (CHR 0x5C) = Inr b" "poke b (out + 1) c = Inr b'"
      "parse_name b' i (out + 2) = Inr (buf', inp, out')"
      by (subst (asm) parse_name.simps) (auto simp: rbind_eq_Inr)
    then show ?thesis using IH(3) [OF a refl Verbatim b(1) b(2) b(3)] adv poke_length [OF b(1)] poke_length [OF b(2)] by simp
  next
    case (Escaped c)
    from "1.prems" a Escaped obtain b where b: "poke buf out c = Inr b" "parse_name b i (out + 1) = Inr (buf', inp, out')"
      by (subst (asm) parse_name.simps) (auto simp: rbind_eq_Inr)
    then show ?thesis using IH(4) [OF a refl Escaped b(1) b(2)] adv poke_length [OF b(1)] by simp
  qed
qed

text \<open>
  The members \<open>out_\<close> and \<open>ins_\<close> are slices of the buffer: a position and a length. The
  loop returns false when a second target differs from the first.
\<close>

type_synonym piece = "nat \<times> nat"

function parse_loop ::
    "string \<Rightarrow> nat \<Rightarrow> bool \<Rightarrow> piece option \<Rightarrow> piece list \<Rightarrow> (bool \<times> string \<times> piece option \<times> piece list) result" where
  "parse_loop buf inp parsing_targets outp insp =
     (if inp < length buf then
        rbind (parse_name buf inp inp) (\<lambda>(buf, in', out).
          let filename = inp;
              len = out - filename;
              is_target = parsing_targets;
              colon = (0 < len \<and> buf ! (filename + len - 1) = CHR '':'');
              len = (if colon then len - 1 else len);
              parsing_targets = (parsing_targets \<and> \<not> colon)
          in if len = 0 then parse_loop buf in' parsing_targets outp insp
             else if \<not> is_target then parse_loop buf in' parsing_targets outp (insp @ [(filename, len)])
             else case outp of
                    None \<Rightarrow> parse_loop buf in' parsing_targets (Some (filename, len)) insp
                  | Some (p, l) \<Rightarrow>
                      if slice buf p l \<noteq> slice buf filename len then Inr (False, buf, outp, insp)
                      else parse_loop buf in' parsing_targets outp insp)
      else Inr (True, buf, outp, insp))"
  by pat_completeness auto
termination
  by (relation "measure (\<lambda>(buf, inp, t, o', is). length buf - inp)")
    (auto dest!: parse_name_advances)

declare parse_loop.simps [simp del]

text \<open>The result as strings: \<open>None\<close> when \<open>Parse\<close> returns false, otherwise \<open>out_\<close> and \<open>ins_\<close>.\<close>

definition Parse :: "string \<Rightarrow> (string option \<times> string list) option result" where
  "Parse content =
     rbind (parse_loop content 0 True None []) (\<lambda>(ok, buf, outp, insp).
       Inr (if ok then Some (map_option (\<lambda>(p, l). slice buf p l) outp, map (\<lambda>(p, l). slice buf p l) insp)
            else None))"

section \<open>The reference definition\<close>

definition ascii :: "string \<Rightarrow> bool" where
  "ascii s \<longleftrightarrow> (\<forall>c \<in> set s. of_char c < (128 :: nat))"

definition plain_code :: "nat \<Rightarrow> bool" where
  "plain_code n \<longleftrightarrow> n = 33 \<or> n = 40 \<or> n = 41 \<or> 43 \<le> n \<and> n \<le> 58 \<or> n = 61 \<or> 64 \<le> n \<and> n \<le> 90 \<or> n = 95 \<or>
     97 \<le> n \<and> n \<le> 122 \<or> n = 126"

text \<open>The characters of plain text, and those that a backslash escapes.\<close>

definition plain :: "char \<Rightarrow> bool" where
  "plain c \<longleftrightarrow> plain_code (of_char c)"

definition escapable :: "char \<Rightarrow> bool" where
  "escapable c \<longleftrightarrow> c \<in> {CHR '' '', CHR ''#'', CHR ''*'', CHR ''['', CHR 0x5C, CHR ''|''}"

text \<open>A file name and the text behind it: the character that ends a name is swallowed, except after a
  dollar or a backslash.\<close>

fun ref_name :: "string \<Rightarrow> string \<times> string" where
  "ref_name [] = ([], [])"
| "ref_name (c # cs) =
     (if plain c then (let (t, r) = ref_name cs in (c # t, r))
      else if c = CHR ''$'' then
        (case cs of
           [] \<Rightarrow> ([], [])
         | d # ds \<Rightarrow> if d = CHR ''$'' then (let (t, r) = ref_name ds in (CHR ''$'' # t, r)) else ([], cs))
      else if c = CHR 0x5C then
        (case cs of
           [] \<Rightarrow> ([], [])
         | d # ds \<Rightarrow>
             if escapable d then (let (t, r) = ref_name ds in (d # t, r))
             else if d = CHR 0x00 \<or> d = CHR 0x0A then ([], cs)
             else (let (t, r) = ref_name ds in (CHR 0x5C # d # t, r)))
      else ([], cs))"

lemma ref_name_rest:
  "snd (ref_name (c # cs)) = cs \<or> snd (ref_name (c # cs)) = snd (ref_name cs) \<or>
     (\<exists>d ds. cs = d # ds \<and> snd (ref_name (c # cs)) = snd (ref_name ds))"
  by (cases cs) (simp_all add: case_prod_beta)

text \<open>The rest is a proper suffix of a text that is not empty.\<close>

lemma ref_name_suffix: "\<exists>u. s = u @ snd (ref_name s) \<and> (s \<noteq> [] \<longrightarrow> u \<noteq> [])"
proof (induction s rule: length_induct)
  case (1 s)
  show ?case
  proof (cases s)
    case (Cons c cs)
    consider "snd (ref_name s) = cs" | "snd (ref_name s) = snd (ref_name cs)"
      | d ds where "cs = d # ds" "snd (ref_name s) = snd (ref_name ds)" using ref_name_rest [of c cs] Cons by blast
    then show ?thesis
    proof cases
      case 2
      obtain u where "cs = u @ snd (ref_name cs)" using "1" [rule_format, of cs] Cons by auto
      then show ?thesis using Cons 2 by (intro exI [of _ "c # u"]) simp
    next
      case 3
      obtain u where "ds = u @ snd (ref_name ds)" using "1" [rule_format, of ds] Cons 3 by auto
      then show ?thesis using Cons 3 by (intro exI [of _ "c # d # u"]) simp
    qed (use Cons in simp)
  qed simp
qed

lemma ref_name_shorter: "ref_name s = (t, r) \<Longrightarrow> s \<noteq> [] \<Longrightarrow> length r < length s"
  using ref_name_suffix [of s] by (metis length_append length_greater_0_conv less_add_same_cancel2 snd_conv)

function ref_loop :: "string \<Rightarrow> bool \<Rightarrow> string option \<Rightarrow> string list \<Rightarrow> (string option \<times> string list) option" where
  "ref_loop s targets target deps =
     (if s = [] then Some (target, deps)
      else let (t, r) = ref_name s;
               colon = (t \<noteq> [] \<and> last t = CHR '':'');
               name = (if colon then butlast t else t)
           in if name = [] then ref_loop r (targets \<and> \<not> colon) target deps
              else if \<not> targets then ref_loop r (targets \<and> \<not> colon) target (deps @ [name])
              else case target of
                     None \<Rightarrow> ref_loop r (targets \<and> \<not> colon) (Some name) deps
                   | Some n \<Rightarrow> if n \<noteq> name then None else ref_loop r (targets \<and> \<not> colon) target deps)"
  by pat_completeness auto
termination
  by (relation "measure (\<lambda>(s, t, o', is). length s)") (auto dest: ref_name_shorter [OF sym])

declare ref_loop.simps [simp del]

text \<open>The parser on a whole depfile: the target and the dependencies, or nothing when two targets differ.\<close>

definition ref_parse :: "string \<Rightarrow> (string option \<times> string list) option" where
  "ref_parse s = ref_loop s True None []"

section \<open>The parser computes the reference definition\<close>

lemma yybm_plain: "n < 128 \<Longrightarrow> yybm ! n = (if plain_code n then 128 else 0)"
proof -
  have "\<forall>n \<in> set [0..<128]. yybm ! n = (if plain_code n then 128 else 0)" by code_simp
  then show "n < 128 \<Longrightarrow> yybm ! n = (if plain_code n then 128 else 0)" by simp
qed

lemma yy_first_code:
  "n < 128 \<Longrightarrow> yy_first (int n) = (if plain_code n then YY5 else if n = 36 then YY4 else if n = 92 then YY2
     else if n = 0 then YY7 else YY9)"
  by (auto simp: yy_first_def plain_code_def)

lemma yy_second_code:
  "n < 128 \<Longrightarrow> yy_second (int n) = (if n \<in> {32, 35, 42, 91, 92, 124} then YY16 else if n = 0 \<or> n = 10 then YY3 else YY14)"
  by (auto simp: yy_second_def)

lemma char_codes:
  "c = CHR ''$'' \<longleftrightarrow> of_char c = (36 :: nat)"
  "c = CHR 0x5C \<longleftrightarrow> of_char c = (92 :: nat)"
  "c = CHR 0x00 \<longleftrightarrow> of_char c = (0 :: nat)"
  "c = CHR '' '' \<longleftrightarrow> of_char c = (32 :: nat)"
  "c = CHR ''#'' \<longleftrightarrow> of_char c = (35 :: nat)"
  "c = CHR ''*'' \<longleftrightarrow> of_char c = (42 :: nat)"
  "c = CHR ''['' \<longleftrightarrow> of_char c = (91 :: nat)"
  "c = CHR ''|'' \<longleftrightarrow> of_char c = (124 :: nat)"
  "c = CHR 0x0A \<longleftrightarrow> of_char c = (10 :: nat)"
  using of_char_eq_iff [of c "CHR ''$''", where ?'a = nat]
    of_char_eq_iff [of c "CHR 0x5C", where ?'a = nat]
    of_char_eq_iff [of c "CHR 0x00", where ?'a = nat]
    of_char_eq_iff [of c "CHR '' ''", where ?'a = nat]
    of_char_eq_iff [of c "CHR ''#''", where ?'a = nat]
    of_char_eq_iff [of c "CHR ''*''", where ?'a = nat]
    of_char_eq_iff [of c "CHR ''[''", where ?'a = nat]
    of_char_eq_iff [of c "CHR ''|''", where ?'a = nat]
    of_char_eq_iff [of c "CHR 0x0A", where ?'a = nat]
  by simp_all

lemma sc_ascii: "of_char c < (128 :: nat) \<Longrightarrow> sc c = int (of_char c)"
  by (simp add: sc_def)

lemma first_ascii:
  assumes "of_char c < (128 :: nat)"
  shows "yy_first (sc c) = (if plain c then YY5 else if c = CHR ''$'' then YY4 else if c = CHR 0x5C then YY2
     else if c = CHR 0x00 then YY7 else YY9)"
  using assms by (simp add: sc_ascii yy_first_code plain_def char_codes)

lemma second_ascii:
  assumes "of_char c < (128 :: nat)"
  shows "yy_second (sc c) = (if escapable c then YY16 else if c = CHR 0x00 \<or> c = CHR 0x0A then YY3 else YY14)"
  using assms by (simp add: sc_ascii yy_second_code escapable_def char_codes)

lemma plain_run_ascii: "ascii s \<Longrightarrow> plain_run s = Inr (length (takeWhile plain s))"
proof (induction s)
  case (Cons c s)
  then have "of_char c < (128 :: nat)" by (simp add: ascii_def)
  then show ?case using Cons by (simp add: sc_ascii yybm_plain plain_def ascii_def)
qed simp

lemma ref_name_plain: "\<forall>c \<in> set u. plain c \<Longrightarrow> ref_name (u @ s) = (u @ fst (ref_name s), snd (ref_name s))"
  by (induction u) (auto simp: case_prod_beta)

text \<open>
  One turn of the inner loop. Either it ends the name, or it writes the text \<open>u\<close> at \<open>out\<close>, leaving
  the buffer before \<open>out\<close> and from the new input position on as it is.
\<close>

definition wrote :: "string \<Rightarrow> nat \<Rightarrow> nat \<Rightarrow> string \<Rightarrow> nat \<Rightarrow> string \<Rightarrow> bool" where
  "wrote buf start out u i b \<longleftrightarrow>
     start < i \<and> i \<le> length buf \<and> length b = length buf \<and> drop i b = drop i buf \<and>
     out + length u \<le> i \<and> take (out + length u) b = take out buf @ u"

lemma poke_wrote:
  assumes "out \<le> start" and "start < i" and "i \<le> length buf"
  shows "poke buf out c = Inr (buf[out := c])" and "wrote buf start out [c] i (buf[out := c])"
  using assms by (simp_all add: poke_def wrote_def take_Suc_conv_app_nth)

lemma memmove_wrote:
  assumes "out \<le> start" and "start < i" and "i \<le> length buf"
  shows "\<exists>b. (if out < start then memmove buf out start (i - start) else Inr buf) = Inr b \<and>
           wrote buf start out (slice buf start (i - start)) i b"
proof (cases "out < start")
  case True
  let ?b = "take out buf @ slice buf start (i - start) @ drop (out + (i - start)) buf"
  have "memmove buf out start (i - start) = Inr ?b" using True assms by (simp add: memmove_def slice_def)
  moreover have "drop i ?b = drop i buf" using True assms by (simp add: slice_def)
  then have "wrote buf start out (slice buf start (i - start)) i ?b" using True assms by (simp add: wrote_def slice_def)
  ultimately show ?thesis using True by auto
next
  case False
  then have "out = start" using assms(1) by simp
  then have "wrote buf start out (slice buf start (i - start)) i buf"
    using assms by (auto simp: wrote_def slice_def take_add [symmetric])
  then show ?thesis using False by auto
qed

lemma peek_drop: "i \<le> length buf \<Longrightarrow> peek buf i = Inr (case drop i buf of [] \<Rightarrow> CHR 0x00 | c # _ \<Rightarrow> c)"
  by (cases "drop i buf") (auto simp: peek_def nth_via_drop)

lemma drop_Suc_Cons: "drop i buf = c # cs \<Longrightarrow> drop (Suc i) buf = cs \<and> i < length buf"
  by (metis Cons_nth_drop_Suc drop_all leI list.distinct(1) list.inject)

definition name_ends :: "string \<Rightarrow> nat \<Rightarrow> nat \<Rightarrow> bool" where
  "name_ends buf start out \<longleftrightarrow>
     (\<exists>i. parse_name buf start out = Inr (buf, i, out) \<and> ref_name (drop start buf) = ([], drop i buf) \<and> start < i)"

definition name_goes_on :: "string \<Rightarrow> nat \<Rightarrow> nat \<Rightarrow> bool" where
  "name_goes_on buf start out \<longleftrightarrow>
     (\<exists>u i b. parse_name buf start out = parse_name b i (out + length u) \<and> wrote buf start out u i b \<and>
        ref_name (drop start buf) = (u @ fst (ref_name (drop i buf)), snd (ref_name (drop i buf))))"

lemma name_break:
  "yylex buf start = Inr (Break, i) \<Longrightarrow> ref_name (drop start buf) = ([], drop i buf) \<Longrightarrow> name_ends buf start out"
  using yylex_advances [of buf start Break i] unfolding name_ends_def by (subst parse_name.simps) simp

lemma name_escape:
  assumes "yylex buf start = Inr (a, start + 2)" and "out \<le> start" and "drop start buf = e # d # ds"
    and "a = Dollar \<and> c = CHR ''$'' \<or> a = Escaped c"
    and "ref_name (drop start buf) = (c # fst (ref_name ds), snd (ref_name ds))"
  shows "name_goes_on buf start out"
proof -
  have i: "drop (start + 2) buf = ds" "start + 2 \<le> length buf"
    using drop_Suc_Cons [OF assms(3)] drop_Suc_Cons [of "Suc start" buf d ds] by auto
  have w: "poke buf out c = Inr (buf[out := c])" "wrote buf start out [c] (start + 2) (buf[out := c])"
    using poke_wrote [OF assms(2) _ i(2), of c] by simp_all
  have "parse_name buf start out = parse_name (buf[out := c]) (start + 2) (out + length [c])"
    using assms(1,4) w(1) by (subst parse_name.simps) auto
  then show ?thesis unfolding name_goes_on_def
    using w(2) assms(5) i(1) by (intro exI [of _ "[c]"] exI [of _ "start + 2"] exI [of _ "buf[out := c]"]) simp
qed

lemma name_verbatim:
  assumes "yylex buf start = Inr (Verbatim d, start + 2)" and "out \<le> start" and "drop start buf = e # d # ds"
    and "ref_name (drop start buf) = (CHR 0x5C # d # fst (ref_name ds), snd (ref_name ds))"
  shows "name_goes_on buf start out"
proof -
  have i: "drop (start + 2) buf = ds" "start + 2 \<le> length buf"
    using drop_Suc_Cons [OF assms(3)] drop_Suc_Cons [of "Suc start" buf d ds] by auto
  let ?b = "buf[out := CHR 0x5C, out + 1 := d]"
  have pokes: "poke buf out (CHR 0x5C) = Inr (buf[out := CHR 0x5C])" "poke (buf[out := CHR 0x5C]) (out + 1) d = Inr ?b"
    using assms(2) i(2) by (simp_all add: poke_def)
  have "take (out + 2) ?b = take out buf @ [CHR 0x5C, d]"
    using assms(2) i(2) by (simp add: take_Suc_conv_app_nth numeral_2_eq_2)
  then have "wrote buf start out [CHR 0x5C, d] (start + 2) ?b" using assms(2) i(2) by (simp add: wrote_def)
  moreover have "parse_name buf start out = parse_name ?b (start + 2) (out + length [CHR 0x5C, d])"
    using assms(1) pokes by (subst parse_name.simps) (simp add: numeral_2_eq_2)
  ultimately show ?thesis unfolding name_goes_on_def
    using assms(4) i(1) by (intro exI [of _ "[CHR 0x5C, d]"] exI [of _ "start + 2"] exI [of _ ?b]) simp
qed

lemma name_span:
  assumes "ascii (drop start buf)" and "out \<le> start" and "drop start buf = c # cs" and "plain c"
  shows "name_goes_on buf start out"
proof -
  let ?u = "c # takeWhile plain cs"
  let ?i = "start + length ?u"
  note d = drop_Suc_Cons [OF assms(3)]
  have "length (takeWhile plain cs) \<le> length buf - Suc start"
    using d length_takeWhile_le [of plain cs] by (metis length_drop)
  then have i: "start < ?i" "?i \<le> length buf" using d by auto
  have dropi: "drop ?i buf = dropWhile plain cs"
    using d drop_drop [of "length (takeWhile plain cs)" "Suc start" buf] by (simp add: dropWhile_eq_drop add.commute)
  have u: "slice buf start (?i - start) = ?u" using assms(3) by (simp add: slice_def takeWhile_eq_take [symmetric])
  have cs: "ascii cs" "of_char c < (128 :: nat)" using assms(1,3) by (simp_all add: ascii_def)
  have lex: "yylex buf start = Inr (Span, ?i)"
    using assms(3,4) d cs by (simp add: yylex_def peek_drop first_ascii plain_run_ascii)
  obtain b where b: "(if out < start then memmove buf out start (?i - start) else Inr buf) = Inr b" "wrote buf start out ?u ?i b"
    using memmove_wrote [OF assms(2) i] unfolding u by blast
  have "parse_name buf start out = parse_name b ?i (out + length ?u)"
    using lex b(1) by (subst parse_name.simps) (auto simp: Let_def split: if_splits)
  moreover have "ref_name (drop start buf) = (?u @ fst (ref_name (drop ?i buf)), snd (ref_name (drop ?i buf)))"
    using ref_name_plain [of ?u "dropWhile plain cs"] assms(3,4) unfolding dropi by (auto dest: set_takeWhileD)
  ultimately show ?thesis unfolding name_goes_on_def using b(2) by blast
qed

lemma name_step:
  assumes "ascii (drop start buf)" and "out \<le> start" and "start \<le> length buf"
  shows "name_ends buf start out \<or> name_goes_on buf start out"
proof (cases "drop start buf")
  case Nil
  then have "yylex buf start = Inr (Break, start + 1)"
    using assms(3) by (simp add: yylex_def peek_drop first_ascii plain_def plain_code_def)
  then show ?thesis using name_break Nil by simp
next
  case (Cons c cs)
  note d = drop_Suc_Cons [OF Cons]
  have ac: "of_char c < (128 :: nat)" using assms(1) Cons by (simp add: ascii_def)
  note lex = yylex_def peek_drop first_ascii second_ascii
  consider (plain) "plain c" | (dollar) "\<not> plain c" "c = CHR ''$''" | (bslash) "\<not> plain c" "c = CHR 0x5C"
    | (other) "\<not> plain c" "c \<noteq> CHR ''$''" "c \<noteq> CHR 0x5C" by blast
  then show ?thesis
  proof cases
    case plain
    then show ?thesis using name_span [OF assms(1,2) Cons] by blast
  next
    case dollar
    show ?thesis
    proof (cases "\<exists>ds. cs = CHR ''$'' # ds")
      case True
      then obtain ds where "cs = CHR ''$'' # ds" by blast
      then show ?thesis
        using name_escape [of buf start Dollar out c "CHR ''$''" ds "CHR ''$''"] Cons dollar d ac assms(2)
        by (simp add: lex case_prod_beta)
    next
      case False
      then have "yylex buf start = Inr (Break, start + 1)" using Cons dollar d ac by (auto simp: lex split: list.split)
      moreover have "ref_name (drop start buf) = ([], cs)" using Cons dollar False by (auto split: list.split)
      ultimately show ?thesis using name_break d by simp
    qed
  next
    case bslash
    have cs: "of_char e < (128 :: nat)" if "cs = e # ds" for e ds using assms(1) Cons that by (simp add: ascii_def)
    show ?thesis
    proof (cases cs)
      case Nil
      then have "yylex buf start = Inr (Break, start + 1)"
        using Cons bslash d ac by (simp add: lex escapable_def)
      then show ?thesis using name_break d Cons bslash Nil by simp
    next
      case (Cons e ds)
      note ce = cs [OF Cons]
      consider "escapable e" | "\<not> escapable e" "e = CHR 0x00 \<or> e = CHR 0x0A" | "\<not> escapable e" "\<not> (e = CHR 0x00 \<or> e = CHR 0x0A)" by blast
      then show ?thesis
      proof cases
        case 1
        then have "yylex buf start = Inr (Escaped e, start + 2)"
          using \<open>drop start buf = c # cs\<close> Cons bslash d ac ce by (simp add: lex)
        then show ?thesis
          using name_escape [of buf start "Escaped e" out c e ds e] \<open>drop start buf = c # cs\<close> Cons bslash assms(2) 1
          by (simp add: case_prod_beta)
      next
        case 2
        then have "yylex buf start = Inr (Break, start + 1)"
          using \<open>drop start buf = c # cs\<close> Cons bslash d ac ce by (auto simp: lex)
        then show ?thesis using name_break d \<open>drop start buf = c # cs\<close> Cons bslash 2 by simp
      next
        case 3
        then have "yylex buf start = Inr (Verbatim e, start + 2)"
          using \<open>drop start buf = c # cs\<close> Cons bslash d ac ce by (simp add: lex)
        then show ?thesis
          using name_verbatim [of buf start e out c ds] \<open>drop start buf = c # cs\<close> Cons bslash assms(2) 3
          by (simp add: case_prod_beta)
      qed
    qed
  next
    case other
    then have "yylex buf start = Inr (Break, start + 1)" using Cons d ac by (simp add: lex)
    moreover have "ref_name (drop start buf) = ([], cs)" using Cons other by simp
    ultimately show ?thesis using name_break d by simp
  qed
qed

lemma parse_name_ref:
  assumes "ascii (drop start buf)" and "out \<le> start" and "start \<le> length buf"
  shows "\<exists>buf' i. parse_name buf start out = Inr (buf', i, out + length (fst (ref_name (drop start buf)))) \<and>
     length buf' = length buf \<and> start < i \<and> drop i buf' = snd (ref_name (drop start buf)) \<and>
     out + length (fst (ref_name (drop start buf))) \<le> length buf \<and> out + length (fst (ref_name (drop start buf))) \<le> i \<and>
     take (out + length (fst (ref_name (drop start buf)))) buf' = take out buf @ fst (ref_name (drop start buf))"
  using assms
proof (induction "length buf - start" arbitrary: buf start out rule: less_induct)
  case less
  show ?case
  proof (cases "name_ends buf start out")
    case True
    then show ?thesis using less.prems by (auto simp: name_ends_def)
  next
    case False
    then obtain u i b where step: "parse_name buf start out = parse_name b i (out + length u)" "wrote buf start out u i b"
      "ref_name (drop start buf) = (u @ fst (ref_name (drop i buf)), snd (ref_name (drop i buf)))"
      using name_step [OF less.prems] by (auto simp: name_goes_on_def)
    have w: "start < i" "i \<le> length buf" "length b = length buf" "drop i b = drop i buf" "out + length u \<le> i"
      "take (out + length u) b = take out buf @ u" using step(2) by (auto simp: wrote_def)
    have "set (drop i buf) \<subseteq> set (drop start buf)" using set_drop_subset_set_drop [of start i buf] w(1) by simp
    then have "ascii (drop i b)" using less.prems(1) w(4) by (auto simp: ascii_def)
    moreover have "length b - i < length buf - start" "i \<le> length b" using w(1-3) by simp_all
    ultimately obtain buf' j where
      "parse_name b i (out + length u) = Inr (buf', j, out + length u + length (fst (ref_name (drop i buf))))"
      "length buf' = length buf" "i < j" "drop j buf' = snd (ref_name (drop i buf))"
      "out + length u + length (fst (ref_name (drop i buf))) \<le> length buf"
      "out + length u + length (fst (ref_name (drop i buf))) \<le> j"
      "take (out + length u + length (fst (ref_name (drop i buf)))) buf' = take out buf @ u @ fst (ref_name (drop i buf))"
      using less.hyps [of b i "out + length u"] w(3-6) by auto
    then show ?thesis using step(1,3) w(1) by (simp add: add.assoc)
  qed
qed

text \<open>The slices found so far lie before the input position, where the buffer does not change any more.\<close>

definition pieces :: "string \<Rightarrow> nat \<Rightarrow> piece list \<Rightarrow> string list \<Rightarrow> bool" where
  "pieces buf i ps ss \<longleftrightarrow> (\<forall>(p, l) \<in> set ps. p + l \<le> i) \<and> map (\<lambda>(p, l). slice buf p l) ps = ss"

lemma slice_take: "p + l \<le> k \<Longrightarrow> take k b = take k b' \<Longrightarrow> slice b p l = slice b' p l"
  unfolding slice_def by (metis (no_types, lifting) add.commute min.absorb1 take_drop take_take)

lemma pieces_keep:
  assumes "pieces buf i ps ss" and "take i buf' = take i buf" and "i \<le> j"
  shows "pieces buf' j ps ss"
proof -
  have "slice buf' p l = slice buf p l" if "(p, l) \<in> set ps" for p l
    using slice_take [OF _ assms(2)] assms(1) that by (auto simp: pieces_def)
  then show ?thesis using assms(1,3) by (fastforce simp: pieces_def)
qed

definition opt_list :: "'a option \<Rightarrow> 'a list" where
  "opt_list x = (case x of None \<Rightarrow> [] | Some y \<Rightarrow> [y])"

lemma ref_name_set: "set (snd (ref_name s)) \<subseteq> set s"
  using ref_name_suffix [of s] by (metis Un_upper2 set_append)

text \<open>One turn of the outer loop in terms of the reference: the name \<open>t\<close> and the rest \<open>r\<close>.\<close>

lemma parse_name_turn:
  assumes "ascii (drop i buf)" and "i < length buf" and "ref_name (drop i buf) = (t, r)"
  obtains buf' j where "parse_name buf i i = Inr (buf', j, i + length t)" and "length buf' = length buf" and "i < j"
    and "drop j buf' = r" and "i + length t \<le> j" and "take i buf' = take i buf"
    and "\<And>l. l \<le> length t \<Longrightarrow> slice buf' i l = take l t"
    and "t \<noteq> [] \<Longrightarrow> buf' ! (i + length t - 1) = last t" and "ascii r"
proof -
  from parse_name_ref [OF assms(1), of i] assms(2,3) obtain buf' j where
    p: "parse_name buf i i = Inr (buf', j, i + length t)" "length buf' = length buf" "i < j" "drop j buf' = r"
    "i + length t \<le> length buf" "i + length t \<le> j" "take (i + length t) buf' = take i buf @ t" by auto
  have len: "length (take i buf) = i" using assms(2) by simp
  have "take i buf' = take i (take (i + length t) buf')" by (simp add: take_take)
  then have "take i buf' = take i buf" using p(7) len by simp
  moreover have "slice buf' i l = take l t" if "l \<le> length t" for l
  proof -
    have "slice buf' i l = take l (drop i (take (i + length t) buf'))"
      using that unfolding slice_def by (simp add: drop_take)
    then show ?thesis unfolding p(7) using len by simp
  qed
  moreover have "buf' ! (i + length t - 1) = last t" if "t \<noteq> []"
  proof -
    have "i + length t - 1 < i + length t" using that by (cases t) auto
    then have "buf' ! (i + length t - 1) = (take i buf @ t) ! (i + length t - 1)" using nth_take [of "i + length t - 1" "i + length t" buf'] p(7) by simp
    also have "\<dots> = last t" using that len by (simp add: nth_append last_conv_nth) (cases t, auto)
    finally show ?thesis .
  qed
  moreover have "ascii r" using ref_name_set [of "drop i buf"] assms(1,3) by (auto simp: ascii_def)
  ultimately show thesis by (intro that [OF p(1-4) p(6)])
qed

lemma parse_loop_ref:
  assumes "ascii (drop i buf)" and "pieces buf i (opt_list outp) (opt_list target)" and "pieces buf i insp deps"
  shows "\<exists>ok buf' outp' insp'. parse_loop buf i targets outp insp = Inr (ok, buf', outp', insp') \<and>
     ref_loop (drop i buf) targets target deps =
       (if ok then Some (map_option (\<lambda>(p, l). slice buf' p l) outp', map (\<lambda>(p, l). slice buf' p l) insp') else None)"
  using assms
proof (induction "length buf - i" arbitrary: buf i targets outp target insp deps rule: less_induct)
  case less
  have tgt: "target = map_option (\<lambda>(p, l). slice buf p l) outp"
    using less.prems(2) by (cases outp; cases target) (auto simp: pieces_def opt_list_def)
  show ?case
  proof (cases "i < length buf")
    case False
    then have "drop i buf = []" by simp
    then show ?thesis using False tgt less.prems(3)
      by (subst parse_loop.simps, subst ref_loop.simps) (auto simp: pieces_def)
  next
    case True
    obtain t r where tr: "ref_name (drop i buf) = (t, r)" by fastforce
    from parse_name_turn [OF less.prems(1) True tr] obtain buf' j where
      pn: "parse_name buf i i = Inr (buf', j, i + length t)" "length buf' = length buf" "i < j" "drop j buf' = r" "i + length t \<le> j"
        "take i buf' = take i buf" and sl: "\<And>l. l \<le> length t \<Longrightarrow> slice buf' i l = take l t"
        and last: "t \<noteq> [] \<Longrightarrow> buf' ! (i + length t - 1) = last t" and asc: "ascii r" by metis
    define colon where "colon = (t \<noteq> [] \<and> last t = CHR '':'')"
    define len where "len = (if colon then length t - 1 else length t)"
    define name where "name = (if colon then butlast t else t)"
    have name: "slice buf' i len = name" "len = 0 \<longleftrightarrow> name = []" "len \<le> length t"
      using sl [of len] by (auto simp: len_def name_def colon_def butlast_conv_take)
    have col: "(0 < length t \<and> buf' ! (i + length t - 1) = CHR '':'') = colon" using last by (auto simp: colon_def)
    have keep: "pieces buf' j ps ss" if "pieces buf i ps ss" for ps ss
      using pieces_keep [OF that pn(6)] pn(3) by simp
    have new: "pieces buf' j (ps @ [(i, len)]) (ss @ [name])" if "pieces buf' j ps ss" for ps ss
      using that name(1,3) pn(5) by (auto simp: pieces_def)
    note IH = less.hyps [of buf' j, unfolded pn(2,4), OF _ asc]
    have shorter: "length buf - j < length buf - i" using True pn(3) by simp
    have loop: "parse_loop buf i targets outp insp =
       (if len = 0 then parse_loop buf' j (targets \<and> \<not> colon) outp insp
        else if \<not> targets then parse_loop buf' j (targets \<and> \<not> colon) outp (insp @ [(i, len)])
        else case outp of
               None \<Rightarrow> parse_loop buf' j (targets \<and> \<not> colon) (Some (i, len)) insp
             | Some (p, l) \<Rightarrow> if slice buf' p l \<noteq> slice buf' i len then Inr (False, buf', outp, insp)
                              else parse_loop buf' j (targets \<and> \<not> colon) outp insp)"
      by (subst parse_loop.simps)
        (simp only: True pn(1) if_True rbind_Inr prod.case Let_def add_diff_cancel_left' col len_def [symmetric])
    have ref: "ref_loop (drop i buf) targets target deps =
       (if name = [] then ref_loop r (targets \<and> \<not> colon) target deps
        else if \<not> targets then ref_loop r (targets \<and> \<not> colon) target (deps @ [name])
        else case target of
               None \<Rightarrow> ref_loop r (targets \<and> \<not> colon) (Some name) deps
             | Some n \<Rightarrow> if n \<noteq> name then None else ref_loop r (targets \<and> \<not> colon) target deps)"
    proof -
      have "drop i buf \<noteq> []" using True by simp
      then show ?thesis
        by (subst ref_loop.simps) (simp only: tr if_False prod.case Let_def colon_def [symmetric] name_def [symmetric])
    qed
    note keepO = keep [OF less.prems(2)] and keepI = keep [OF less.prems(3)]
    consider (skip) "len = 0" | (dep) "len \<noteq> 0" "\<not> targets" | (first) "len \<noteq> 0" "targets" "outp = None"
      | (again) p l where "len \<noteq> 0" "targets" "outp = Some (p, l)" by (cases outp) auto
    then show ?thesis
    proof cases
      case skip
      then show ?thesis using IH [OF shorter keepO keepI] loop ref name(2) by simp
    next
      case dep
      then show ?thesis using IH [OF shorter keepO new [OF keepI]] loop ref name(2) by simp
    next
      case first
      have "pieces buf' j (opt_list (Some (i, len))) (opt_list (Some name))"
        using new [of "[]" "[]"] by (simp add: opt_list_def pieces_def)
      then show ?thesis using IH [OF shorter _ keepI] loop ref name(2) first tgt by simp
    next
      case again
      have "target = Some (slice buf' p l)" using keepO again tgt less.prems(2)
        by (auto simp: pieces_def opt_list_def)
      then show ?thesis using IH [OF shorter keepO keepI] loop ref name(1,2) again
        by (cases "slice buf' p l = name") (simp, auto)
    qed
  qed
qed

lemma Parse_ref: "ascii content \<Longrightarrow> Parse content = Inr (ref_parse content)"
proof -
  assume "ascii content"
  then obtain ok buf outp insp where "parse_loop content 0 True None [] = Inr (ok, buf, outp, insp)"
    "ref_loop content True None [] =
       (if ok then Some (map_option (\<lambda>(p, l). slice buf p l) outp, map (\<lambda>(p, l). slice buf p l) insp) else None)"
    using parse_loop_ref [of 0 content None None "[]" "[]" True] by (auto simp: pieces_def opt_list_def)
  then show ?thesis by (simp add: Parse_def ref_parse_def)
qed

section \<open>Printing\<close>

text \<open>The rule of a target and its dependencies as the compiler writes it into a depfile.\<close>

definition escape_char :: "char \<Rightarrow> string" where
  "escape_char c = (if c = CHR ''$'' then ''$$'' else if escapable c then [CHR 0x5C, c] else [c])"

definition print_name :: "string \<Rightarrow> string" where
  "print_name p = concat (map escape_char p)"

definition print_body :: "string list \<Rightarrow> string" where
  "print_body deps = concat (map (\<lambda>d. CHR '' '' # print_name d) deps) @ [CHR 0x0A]"

definition print_rule :: "string \<Rightarrow> string list \<Rightarrow> string" where
  "print_rule target deps = print_name target @ '':'' @ print_body deps"

text \<open>The names the format can express: not empty, no colon at the end, and only plain, escapable and dollar characters.\<close>

definition printable :: "string \<Rightarrow> bool" where
  "printable p \<longleftrightarrow> p \<noteq> [] \<and> last p \<noteq> CHR '':'' \<and> (\<forall>c \<in> set p. plain c \<or> escapable c \<or> c = CHR ''$'')"

lemma special_not_plain [simp]:
  "\<not> plain (CHR ''$'')" "\<not> plain (CHR 0x5C)" "\<not> plain (CHR '' '')" "\<not> plain (CHR 0x0A)" "plain (CHR '':'')"
  by (simp_all add: plain_def plain_code_def)

lemma ref_name_escape:
  assumes "plain c \<or> escapable c \<or> c = CHR ''$''"
  shows "ref_name (escape_char c @ s) = (c # fst (ref_name s), snd (ref_name s))"
proof -
  have "\<not> escapable (CHR ''$'')" by (simp add: escapable_def)
  moreover have "plain c \<Longrightarrow> \<not> escapable c" by (auto simp: escapable_def plain_def plain_code_def)
  ultimately show ?thesis using assms by (auto simp: escape_char_def case_prod_beta)
qed

lemma ref_name_print:
  "\<forall>c \<in> set p. plain c \<or> escapable c \<or> c = CHR ''$'' \<Longrightarrow>
     ref_name (print_name p @ s) = (p @ fst (ref_name s), snd (ref_name s))"
  by (induction p) (auto simp: print_name_def ref_name_escape)

lemma ref_name_body: "ref_name (print_body deps) = ([], tl (print_body deps))"
  by (cases deps) (simp_all add: print_body_def)

lemma print_body_Cons: "tl (print_body (d # ds)) = print_name d @ print_body ds"
  by (simp add: print_body_def)

lemma ref_loop_deps:
  "\<forall>d \<in> set deps. printable d \<Longrightarrow> ref_loop (tl (print_body deps)) False target acc = Some (target, acc @ deps)"
proof (induction deps arbitrary: acc)
  case Nil
  then show ?case by (subst ref_loop.simps) (simp add: print_body_def)
next
  case (Cons d ds)
  have d: "d \<noteq> []" "last d \<noteq> CHR '':''" "\<forall>c \<in> set d. plain c \<or> escapable c \<or> c = CHR ''$''"
    using Cons.prems by (auto simp: printable_def)
  have "print_body ds \<noteq> []" by (simp add: print_body_def)
  moreover have "ref_name (print_name d @ print_body ds) = (d, tl (print_body ds))"
    using ref_name_print [OF d(3)] by (simp add: ref_name_body)
  ultimately have "ref_loop (tl (print_body (d # ds))) False target acc = ref_loop (tl (print_body ds)) False target (acc @ [d])"
    unfolding print_body_Cons using d(1,2) by (subst ref_loop.simps) simp
  then show ?case using Cons by simp
qed

lemma ref_parse_print:
  assumes "printable target" and "\<forall>d \<in> set deps. printable d"
  shows "ref_parse (print_rule target deps) = Some (Some target, deps)"
proof -
  have t: "target \<noteq> []" "\<forall>c \<in> set target. plain c \<or> escapable c \<or> c = CHR ''$''"
    using assms(1) by (auto simp: printable_def)
  have "ref_name (print_rule target deps) = (target @ '':'', tl (print_body deps))"
    unfolding print_rule_def using ref_name_print [OF t(2), of "'':'' @ print_body deps"]
    by (simp add: ref_name_body case_prod_beta)
  moreover have "print_rule target deps \<noteq> []" by (simp add: print_rule_def)
  ultimately have "ref_parse (print_rule target deps) = ref_loop (tl (print_body deps)) False (Some target) []"
    unfolding ref_parse_def using t(1) by (subst ref_loop.simps) simp
  then show ?thesis using ref_loop_deps [OF assms(2)] by simp
qed

lemma printable_ascii: "printable p \<Longrightarrow> ascii (print_name p)"
proof -
  have "plain c \<or> escapable c \<or> c = CHR ''$'' \<Longrightarrow> of_char c < (128 :: nat)" for c
    by (auto simp: plain_def plain_code_def escapable_def)
  then show "printable p \<Longrightarrow> ascii (print_name p)"
    by (auto simp: printable_def print_name_def escape_char_def ascii_def split: if_splits)
qed

lemma print_rule_ascii: "printable target \<Longrightarrow> \<forall>d \<in> set deps. printable d \<Longrightarrow> ascii (print_rule target deps)"
  using printable_ascii by (fastforce simp: print_rule_def print_body_def ascii_def)

section \<open>Properties\<close>





text \<open>A depfile with a byte above 127 inside a file name makes the parser read in front of its table:
  \<open>char\<close> is signed and \<open>yybm[0+yych]\<close> is indexed with a negative number.\<close>

lemma Parse_nonascii_out_of_bounds: "Parse [CHR ''a'', CHR 0xC3, CHR 0xA9] = Inl OutOfBounds"
proof -
  have "yylex [CHR ''a'', CHR 0xC3, CHR 0xA9] 0 = Inl OutOfBounds"
    by (simp add: yylex_def peek_def sc_def yy_first_def)
  then have "parse_name [CHR ''a'', CHR 0xC3, CHR 0xA9] 0 0 = Inl OutOfBounds" by (subst parse_name.simps) simp
  then have "parse_loop [CHR ''a'', CHR 0xC3, CHR 0xA9] 0 True None [] = Inl OutOfBounds" by (subst parse_loop.simps) simp
  then show ?thesis by (simp add: Parse_def)
qed

end
