(* ===== verification/Depfile.thy ===== *)
theory Depfile
  imports Graph_Hash Depfile_Parser
begin

text \<open>
  Implicit dependencies, \<open>src/src/depfile.cpp\<close>: after a rule was built its depfile replaces the
  implicit inputs of the rule in the graph.

  The watchman service is a parameter: no client, or a client for which \<open>watchNode\<close> on a path either
  succeeds or throws; the code turns that exception into \<open>LOG(FATAL)\<close>, which ends the process.
  A deleted node leaves the maps of the graph; its memory is not reused by the model.
\<close>

section \<open>Class Depfile\<close>

type_synonym watchman = "(string \<Rightarrow> exn option) option"

datatype Res = SUCCESS | ERROR_CANNOT_OPEN | ERROR_INVALID_FILE

definition watch_dependency :: "watchman \<Rightarrow> string \<Rightarrow> 'a result \<Rightarrow> 'a result" where
  "watch_dependency watchmanClient path k =
     (case watchmanClient of
        None \<Rightarrow> k
      | Some watchNode \<Rightarrow> (case watchNode path of None \<Rightarrow> k | Some e \<Rightarrow> Inl (AssertFailed ''LOG(FATAL)'')))"

text \<open>The part of \<open>setRuleDependency\<close> after the early return: \<open>target\<close> becomes an implicit input.\<close>

definition add_dependency :: "watchman \<Rightarrow> nid \<Rightarrow> rid \<Rightarrow> bool \<Rightarrow> graph \<Rightarrow> (nid \<times> graph) result" where
  "add_dependency watchmanClient target r isNewNode g =
     (let g = Rule_addImplicitInput r target g;
          g = (if \<not> Node_hasParent g target r then Node_addParentRule target r g else g)
      in rbind (if isNewNode then Graph_addNode target g else Inr g)
           (\<lambda>g. rbind (if Node_isDirty g target \<and> \<not> Node_isSource g target
                       then Rule_markInputDirty r g else Rule_markInputReady r g)
                  (\<lambda>g. watch_dependency watchmanClient (n_path (g_node g target)) (Inr (target, g)))))"

definition setRuleDependency ::
    "(string \<Rightarrow> string) \<Rightarrow> allocator \<Rightarrow> watchman \<Rightarrow> world \<Rightarrow> string \<Rightarrow> rid \<Rightarrow> graph \<Rightarrow> (nid \<times> graph) result" where
  "setRuleDependency sha al watchmanClient w dep r g =
     (case Graph_find g dep of
        None \<Rightarrow>
          (let (target, g) = Node_new al dep False g
           in rbind (updateNodeHash sha w target True True g)
                (\<lambda>(_, g). add_dependency watchmanClient target r True g))
      | Some target \<Rightarrow>
          if Rule_isInput g r target then Inr (target, g)
          else add_dependency watchmanClient target r False g)"

text \<open>
  The beginning of \<open>load\<close>: the implicit inputs are the last \<open>numImplicitDeps\<close> inputs, visited
  from the end; the ready ones are subtracted from the counter and all of them are removed.
\<close>

definition implicit_inputs :: "rule \<Rightarrow> nid list" where
  "implicit_inputs r = rev (drop (length (r_inputs r) - r_numImplicit r) (r_inputs r))"

definition drop_implicit :: "rid \<Rightarrow> graph \<Rightarrow> graph result" where
  "drop_implicit r g =
     rbind (foldM (\<lambda>n g. if \<not> Node_isDirty g n \<or> Node_isSource g n then Rule_markInputDirty r g else Inr g)
              (implicit_inputs (g_rule g r)) g)
       (\<lambda>g. Inr (upd_rule r (\<lambda>rl. rl\<lparr>r_inputs := explicit_inputs rl, r_numImplicit := 0\<rparr>) g))"

text \<open>The end of \<open>load\<close>: a node that is no implicit dependency any more.\<close>

definition forget_dependency :: "rid \<Rightarrow> nid \<Rightarrow> graph \<Rightarrow> graph result" where
  "forget_dependency r n g =
     rbind (Node_removeParentRule n r g)
       (\<lambda>g. if n_parents (g_node g n) = [] \<and> n_child (g_node g n) = None
            then Inr (g\<lparr>g_nodes := AList.delete (n_path (g_node g n)) (g_nodes g),
                       g_roots := g_roots g - {n}, g_sources := g_sources g - {n}\<rparr>)
            else Inr g)"

definition load ::
    "(string \<Rightarrow> string) \<Rightarrow> allocator \<Rightarrow> watchman \<Rightarrow> world \<Rightarrow> string \<Rightarrow> rid \<Rightarrow> graph \<Rightarrow> (bool \<times> graph) result" where
  "load sha al watchmanClient w buf r g =
     (let implicitDepsBefore = set (implicit_inputs (g_rule g r)) in
      rbind (drop_implicit r g) (\<lambda>g.
      rbind (Parse buf) (\<lambda>parsed.
        case parsed of
          None \<Rightarrow> Inr (False, g)
        | Some (outp, insp) \<Rightarrow>
            (let output = (case outp of None \<Rightarrow> [] | Some s \<Rightarrow> s) in
             assert_that ''!rule->getOutputs().empty()'' (r_outputs (g_rule g r) \<noteq> [])
               (if output \<noteq> n_path (g_node g (hd (r_outputs (g_rule g r)))) then Inr (False, g)
                else
                  rbind (foldM (\<lambda>dep (old, g).
                            rbind (setRuleDependency sha al watchmanClient w dep r g)
                              (\<lambda>(node, g). Inr (old - {node}, g)))
                          insp (implicitDepsBefore, g))
                    (\<lambda>(old, g). rbind (foldM (forget_dependency r) (sorted_list_of_set old) g)
                       (\<lambda>g. Inr (True, g))))))))"

definition loadFromfile ::
    "(string \<Rightarrow> string) \<Rightarrow> allocator \<Rightarrow> watchman \<Rightarrow> world \<Rightarrow> string \<Rightarrow> rid \<Rightarrow> graph \<Rightarrow> (Res \<times> graph) result" where
  "loadFromfile sha al watchmanClient w depfile r g =
     (case w_files w depfile of
        None \<Rightarrow> Inr (ERROR_CANNOT_OPEN, g)
      | Some _ \<Rightarrow>
          (let content = ifstream_read w depfile
           in if content = [] then Inr (ERROR_INVALID_FILE, g)
              else rbind (load sha al watchmanClient w content r g)
                     (\<lambda>(ok, g). Inr (if ok then SUCCESS else ERROR_INVALID_FILE, g))))"

end
