(* ===== verification/Cache_FS.thy ===== *)
theory Cache_FS
  imports File_System
begin

text \<open>
  The content cache of \<open>src/src/cache_fs.cpp\<close>: one file per hash in a cache directory. The
  locale \<open>content_store\<close> is the interface the cache manager relies on, a map from hashes to
  contents with files outside of it; it is interpreted on the operations of \<open>CacheFS\<close>.
\<close>

section \<open>Class CacheFS\<close>

text \<open>The object is its directory \<open>dir_\<close>.\<close>

definition entry_path :: "string \<Rightarrow> string \<Rightarrow> string" where
  "entry_path dir hash = dir @ ''/'' @ hash"

definition writeEntry :: "string \<Rightarrow> string \<Rightarrow> string \<Rightarrow> world \<Rightarrow> (bool \<times> world) result" where
  "writeEntry dir hash path w =
     assert_that ''!hash.empty()'' (hash \<noteq> [])
       (let w = snd (fs_mkdir dir w); output = entry_path dir hash
        in if w_files w output \<noteq> None then Inr (True, w)
           else Inr (True, stream_copy path output w))"

definition hasEntry :: "string \<Rightarrow> string \<Rightarrow> world \<Rightarrow> bool result" where
  "hasEntry dir hash w =
     assert_that ''!hash.empty()'' (hash \<noteq> []) (Inr (w_files w (entry_path dir hash) \<noteq> None))"

definition readEntry :: "string \<Rightarrow> string \<Rightarrow> string \<Rightarrow> world \<Rightarrow> (bool \<times> world) result" where
  "readEntry dir hash path w =
     assert_that ''!hash.empty()'' (hash \<noteq> [])
       (let output = entry_path dir hash
        in if w_files w output = None then Inr (False, w)
           else Inr (True, stream_copy output path w))"

definition delEntry :: "string \<Rightarrow> string \<Rightarrow> world \<Rightarrow> (bool \<times> world) result" where
  "delEntry dir hash w =
     assert_that ''!hash.empty()'' (hash \<noteq> [])
       (let entry = entry_path dir hash
        in if w_files w entry = None then Inr (True, w)
           else Inr (sys_unlink entry w))"

section \<open>The interface: a content store\<close>

text \<open>
  \<open>entry w h\<close> is the cached content for the hash \<open>h\<close>, \<open>dat w p\<close> the content of a file.
  Hashes are restricted to \<open>valid\<close> ones and files to \<open>free\<close> ones, which are not part of
  the store; \<open>writable\<close> says that the system lets the program write the file.
\<close>

locale content_store =
  fixes valid :: "string \<Rightarrow> bool"
    and free :: "string \<Rightarrow> bool"
    and ok :: "'w \<Rightarrow> bool"
    and writable :: "'w \<Rightarrow> string \<Rightarrow> bool"
    and entry :: "'w \<Rightarrow> string \<Rightarrow> string option"
    and dat :: "'w \<Rightarrow> string \<Rightarrow> string option"
    and has :: "string \<Rightarrow> 'w \<Rightarrow> bool result"
    and put :: "string \<Rightarrow> string \<Rightarrow> 'w \<Rightarrow> (bool \<times> 'w) result"
    and get :: "string \<Rightarrow> string \<Rightarrow> 'w \<Rightarrow> (bool \<times> 'w) result"
    and del :: "string \<Rightarrow> 'w \<Rightarrow> (bool \<times> 'w) result"
  assumes has: "ok w \<Longrightarrow> valid h \<Longrightarrow> has h w = Inr (entry w h \<noteq> None)"
    and put: "ok w \<Longrightarrow> valid h \<Longrightarrow> free p \<Longrightarrow> dat w p = Some c \<Longrightarrow>
      \<exists>w'. put h p w = Inr (True, w') \<and> ok w' \<and> dat w' = dat w \<and> (\<forall>q. writable w q \<longrightarrow> writable w' q) \<and>
        entry w' = (if entry w h = None then (entry w)(h \<mapsto> c) else entry w)"
    and get: "ok w \<Longrightarrow> valid h \<Longrightarrow> free p \<Longrightarrow> writable w p \<Longrightarrow> entry w h = Some c \<Longrightarrow>
      \<exists>w'. get h p w = Inr (True, w') \<and> ok w' \<and> dat w' = (dat w)(p \<mapsto> c) \<and> entry w' = entry w \<and>
        (\<forall>q. writable w q \<longrightarrow> writable w' q)"
    and get_missing: "ok w \<Longrightarrow> valid h \<Longrightarrow> entry w h = None \<Longrightarrow> get h p w = Inr (False, w)"
    and del: "ok w \<Longrightarrow> valid h \<Longrightarrow>
      \<exists>w'. del h w = Inr (True, w') \<and> ok w' \<and> dat w' = dat w \<and> entry w' = (entry w)(h := None) \<and>
        (\<forall>q. writable w q \<longrightarrow> writable w' q)"
begin

text \<open>What was stored under a fresh hash comes back, into any dat.\<close>

lemma put_get:
  assumes "ok w" and "valid h" and "free p" and "free q" and "writable w q"
    and "dat w p = Some c" and "entry w h = None"
  shows "\<exists>w1 w2. put h p w = Inr (True, w1) \<and> get h q w1 = Inr (True, w2) \<and> dat w2 q = Some c"
proof -
  from put [OF assms(1,2,3,6)] assms(7) obtain w1
    where w1: "put h p w = Inr (True, w1)" "ok w1" "writable w1 q" "entry w1 h = Some c"
    using assms(5) by auto
  from get [OF w1(2) assms(2,4) w1(3,4)] w1(1) show ?thesis by auto
qed

text \<open>Restoring a list of files whose hashes are all in the store.\<close>

definition restore :: "(string \<times> string) \<Rightarrow> bool \<times> 'w \<Rightarrow> (bool \<times> 'w) result" where
  "restore = (\<lambda>(h, p) (b, w). if b then get h p w else Inr (False, w))"

lemma restore_all:
  assumes "ok w" and "distinct (map snd hps)"
    and "\<And>h p. (h, p) \<in> set hps \<Longrightarrow> valid h \<and> free p \<and> writable w p \<and> entry w h \<noteq> None"
  shows "\<exists>w'. foldM restore hps (True, w) = Inr (True, w') \<and> ok w' \<and> entry w' = entry w \<and> (\<forall>q. writable w q \<longrightarrow> writable w' q) \<and>
           (\<forall>(h, p) \<in> set hps. dat w' p = entry w h) \<and> (\<forall>q. q \<notin> snd ` set hps \<longrightarrow> dat w' q = dat w q)"
proof -
  let ?P = "\<lambda>xs (b, w'). b \<and> ok w' \<and> entry w' = entry w \<and> (\<forall>q. writable w q \<longrightarrow> writable w' q) \<and>
      (\<forall>(h, p) \<in> set xs. dat w' p = entry w h) \<and> (\<forall>q. q \<notin> snd ` set xs \<longrightarrow> dat w' q = dat w q)"
  have "\<exists>s'. foldM restore hps (True, w) = Inr s' \<and> ?P hps s'"
  proof (rule foldM_total)
    show "?P [] (True, w)" using assms(1) by simp
    fix xs x rest s
    assume xs: "hps = xs @ x # rest" and s: "?P xs s"
    obtain h p where x: "x = (h, p)" by fastforce
    obtain w1 where w1: "s = (True, w1)" "ok w1" "entry w1 = entry w" "\<forall>q. writable w q \<longrightarrow> writable w1 q"
      "\<forall>(h, p) \<in> set xs. dat w1 p = entry w h" "\<forall>q. q \<notin> snd ` set xs \<longrightarrow> dat w1 q = dat w q" using s by (cases s) auto
    obtain c where c: "entry w h = Some c" "valid h" "free p" "writable w1 p"
      using assms(3) [of h p] xs x w1(4) by auto
    obtain w2 where w2: "get h p w1 = Inr (True, w2)" "ok w2" "dat w2 = (dat w1)(p \<mapsto> c)" "entry w2 = entry w1"
      "\<forall>q. writable w1 q \<longrightarrow> writable w2 q"
      using get [OF w1(2) c(2,3,4)] c(1) w1(3) by metis
    have "p \<notin> snd ` set xs" using assms(2) xs x by auto
    then have "\<forall>(h, q) \<in> set xs. dat w2 q = entry w h" using w1(5) w2(3) by force
    then show "\<exists>s'. restore x s = Inr s' \<and> ?P (xs @ [x]) s'"
      using w1 w2 x c(1) by (auto simp: restore_def)
  qed
  then show ?thesis by auto
qed

end

section \<open>CacheFS is a content store\<close>

definition valid_hash :: "string \<Rightarrow> bool" where
  "valid_hash h \<longleftrightarrow> h \<noteq> [] \<and> CHR ''/'' \<notin> set h"

definition free_path :: "string \<Rightarrow> string \<Rightarrow> bool" where
  "free_path dir p \<longleftrightarrow> dirname p \<noteq> dir \<and> p \<noteq> dir"

definition file_writable :: "world \<Rightarrow> string \<Rightarrow> bool" where
  "file_writable w p \<longleftrightarrow> \<not> isDir w p \<and> creatable w p"

definition content :: "world \<Rightarrow> string \<Rightarrow> string option" where
  "content w p = (case w_files w p of Some (File c _) \<Rightarrow> Some c | _ \<Rightarrow> None)"

definition store_entry :: "string \<Rightarrow> world \<Rightarrow> string \<Rightarrow> string option" where
  "store_entry dir w h = (if valid_hash h then content w (entry_path dir h) else None)"

text \<open>The files outside of the store.\<close>

definition free_content :: "string \<Rightarrow> world \<Rightarrow> string \<Rightarrow> string option" where
  "free_content dir w p = (if free_path dir p then content w p else None)"

text \<open>The cache directory exists or can be created, and its entries can be written and removed.\<close>

definition store_ok :: "string \<Rightarrow> world \<Rightarrow> bool" where
  "store_ok dir w \<longleftrightarrow>
     dir \<noteq> [] \<and> last dir \<noteq> CHR ''/'' \<and> (isDir w dir \<or> w_files w dir = None \<and> creatable w dir) \<and>
     (\<forall>h. valid_hash h \<longrightarrow> entry_path dir h \<notin> w_denied w \<and> \<not> isDir w (entry_path dir h) \<and>
        (\<not> isDir w dir \<longrightarrow> w_files w (entry_path dir h) = None))"

lemma dirname_entry: "store_ok dir w \<Longrightarrow> valid_hash h \<Longrightarrow> dirname (entry_path dir h) = dir"
  using dirname_join [of dir h 0] by (simp add: entry_path_def store_ok_def valid_hash_def)

lemma entry_path_inj [simp]: "entry_path dir h = entry_path dir h' \<longleftrightarrow> h = h'"
  by (simp add: entry_path_def)

lemma entry_not_free: "store_ok dir w \<Longrightarrow> valid_hash h \<Longrightarrow> \<not> free_path dir (entry_path dir h)"
  by (simp add: free_path_def dirname_entry)

lemma entry_not_dir: "entry_path dir h \<noteq> dir"
  by (simp add: entry_path_def)

lemma content_File: "w_files w p = Some (File c t) \<Longrightarrow> content w p = Some c"
  by (simp add: content_def)

lemma stream_copy_eq:
  assumes "content w src = Some c" and "src \<noteq> dst" and "file_writable w dst"
  shows "stream_copy src dst w = upd_files (\<lambda>f. f(dst \<mapsto> File c (w_time w))) w"
  using assms
  by (auto simp: stream_copy_def ofstream_write_def ifstream_read_def file_writable_def isDir_def creatable_def
      content_def Let_def upd_files_def split: option.splits fobj.splits)

lemma write_file:
  assumes "store_ok dir w" and "file_writable w p" and "w' = upd_files (\<lambda>f. f(p \<mapsto> File c t)) w"
  shows "\<forall>q. file_writable w q \<longrightarrow> file_writable w' q"
    and "content w' = (content w)(p \<mapsto> c)"
    and "isDir w dir \<Longrightarrow> store_ok dir w'"
proof -
  have dirs: "isDir w' q \<longleftrightarrow> isDir w q" for q
    using assms(2,3) by (auto simp: isDir_def file_writable_def)
  show "\<forall>q. file_writable w q \<longrightarrow> file_writable w' q"
    using dirs assms(3) by (auto simp: file_writable_def creatable_def)
  show "content w' = (content w)(p \<mapsto> c)" using assms(3) by (auto simp: content_def)
  show "store_ok dir w'" if "isDir w dir"
    using assms(1,3) dirs that by (auto simp: store_ok_def)
qed

lemma fs_mkdir_store:
  assumes "store_ok dir w"
  shows "store_ok dir (snd (fs_mkdir dir w)) \<and> isDir (snd (fs_mkdir dir w)) dir \<and>
    content (snd (fs_mkdir dir w)) = content w \<and> w_time (snd (fs_mkdir dir w)) = w_time w \<and>
    (\<forall>q. w_files (snd (fs_mkdir dir w)) (entry_path dir q) = w_files w (entry_path dir q)) \<and>
    (\<forall>q. file_writable w q \<longrightarrow> q \<noteq> dir \<longrightarrow> file_writable (snd (fs_mkdir dir w)) q)"
proof (cases "isDir w dir")
  case True
  then have "fs_mkdir dir w = (True, w)" by (simp add: fs_mkdir_def isDir_def)
  then show ?thesis using assms True by simp
next
  case False
  let ?w = "upd_files (\<lambda>f. f(dir \<mapsto> Dir)) w"
  have none: "w_files w dir = None" "creatable w dir" using assms False by (auto simp: store_ok_def)
  then have eq: "snd (fs_mkdir dir w) = ?w" by (simp add: fs_mkdir_def sys_mkdir_def)
  have dirs: "isDir ?w q \<longleftrightarrow> q = dir \<or> isDir w q" for q by (auto simp: isDir_def)
  have "store_ok dir ?w"
    using assms entry_not_dir by (auto simp: store_ok_def dirs)
  moreover have "content ?w = content w" using none by (auto simp: content_def fun_eq_iff)
  moreover have "file_writable ?w q" if "file_writable w q" "q \<noteq> dir" for q
    using that by (auto simp: file_writable_def creatable_def dirs)
  ultimately show ?thesis using entry_not_dir dirs by (auto simp: eq)
qed

lemma has_entry_iff:
  "store_ok dir w \<Longrightarrow> valid_hash h \<Longrightarrow> w_files w (entry_path dir h) \<noteq> None \<longleftrightarrow> store_entry dir w h \<noteq> None"
  by (auto simp: store_ok_def store_entry_def content_def isDir_def split: option.splits fobj.splits)

lemma writeEntry_store:
  assumes ok: "store_ok dir w" and h: "valid_hash h" and p: "free_path dir p" and c: "free_content dir w p = Some c"
  shows "\<exists>w'. writeEntry dir h p w = Inr (True, w') \<and> store_ok dir w' \<and> free_content dir w' = free_content dir w \<and>
      (\<forall>q. file_writable w q \<and> free_path dir q \<longrightarrow> file_writable w' q \<and> free_path dir q) \<and>
      store_entry dir w' = (if store_entry dir w h = None then (store_entry dir w)(h \<mapsto> c) else store_entry dir w)"
proof -
  let ?w = "snd (fs_mkdir dir w)" and ?e = "entry_path dir h"
  note mk = fs_mkdir_store [OF ok]
  have same: "store_entry dir ?w = store_entry dir w" "free_content dir ?w = free_content dir w"
    using mk by (auto simp: store_entry_def free_content_def fun_eq_iff)
  have ne: "h \<noteq> []" using h by (simp add: valid_hash_def)
  show ?thesis
  proof (cases "store_entry dir w h = None")
    case False
    then have "w_files ?w ?e \<noteq> None" using has_entry_iff [OF ok h] mk by simp
    then have "writeEntry dir h p w = Inr (True, ?w)" using ne by (simp add: writeEntry_def Let_def)
    then show ?thesis using mk same False by (auto simp: free_path_def)
  next
    case True
    then have none: "w_files ?w ?e = None" using has_entry_iff [OF ok h] mk by simp
    have wr: "file_writable ?w ?e"
      using mk dirname_entry [OF ok h] h none
      by (auto simp: file_writable_def creatable_def isDir_def store_ok_def entry_path_def)
    have "content ?w p = Some c" using c p mk by (simp add: free_content_def)
    moreover have "p \<noteq> ?e" using p entry_not_free [OF ok h] by blast
    ultimately have cp: "stream_copy p ?e ?w = upd_files (\<lambda>f. f(?e \<mapsto> File c (w_time ?w))) ?w"
      by (rule stream_copy_eq [OF _ _ wr])
    let ?w' = "upd_files (\<lambda>f. f(?e \<mapsto> File c (w_time ?w))) ?w"
    have "writeEntry dir h p w = Inr (True, ?w')" using ne none cp by (simp add: writeEntry_def Let_def)
    moreover note wf = write_file [OF _ wr refl, of dir c "w_time ?w"]
    have "store_entry dir ?w' = (store_entry dir w)(h \<mapsto> c)"
      using wf(2) mk h by (auto simp: store_entry_def fun_eq_iff)
    moreover have "free_content dir ?w' = free_content dir w"
      using wf(2) mk entry_not_free [OF ok h] by (auto simp: free_content_def fun_eq_iff)
    ultimately show ?thesis using wf mk True by (auto simp: free_path_def)
  qed
qed

lemma readEntry_store:
  assumes ok: "store_ok dir w" and h: "valid_hash h" and p: "free_path dir p" "file_writable w p"
    and c: "store_entry dir w h = Some c"
  shows "\<exists>w'. readEntry dir h p w = Inr (True, w') \<and> store_ok dir w' \<and> free_content dir w' = (free_content dir w)(p \<mapsto> c) \<and>
      store_entry dir w' = store_entry dir w \<and> (\<forall>q. file_writable w q \<and> free_path dir q \<longrightarrow> file_writable w' q \<and> free_path dir q)"
proof -
  let ?e = "entry_path dir h" and ?w = "upd_files (\<lambda>f. f(p \<mapsto> File c (w_time w))) w"
  have e: "content w ?e = Some c" using c h by (simp add: store_entry_def)
  have pe: "p \<noteq> entry_path dir h'" if "valid_hash h'" for h' using p entry_not_free [OF ok that] by blast
  have "stream_copy ?e p w = ?w" by (rule stream_copy_eq [OF e _ p(2)]) (use pe [OF h] in auto)
  moreover have "w_files w ?e \<noteq> None" using has_entry_iff [OF ok h] c by simp
  moreover have "h \<noteq> []" using h by (simp add: valid_hash_def)
  ultimately have "readEntry dir h p w = Inr (True, ?w)" by (simp add: readEntry_def Let_def)
  moreover have "isDir w dir"
    using ok h \<open>w_files w ?e \<noteq> None\<close> by (auto simp: store_ok_def)
  moreover note wf = write_file [OF ok p(2) refl, of c "w_time w"]
  have "store_entry dir ?w = store_entry dir w"
    using wf(2) pe by (auto simp: store_entry_def fun_eq_iff)
  moreover have "free_content dir ?w = (free_content dir w)(p \<mapsto> c)"
    using wf(2) p(1) by (auto simp: free_content_def fun_eq_iff)
  ultimately show ?thesis using wf by blast
qed

lemma delEntry_store:
  assumes ok: "store_ok dir w" and h: "valid_hash h"
  shows "\<exists>w'. delEntry dir h w = Inr (True, w') \<and> store_ok dir w' \<and> free_content dir w' = free_content dir w \<and>
      store_entry dir w' = (store_entry dir w)(h := None) \<and>
      (\<forall>q. file_writable w q \<and> free_path dir q \<longrightarrow> file_writable w' q \<and> free_path dir q)"
proof (cases "w_files w (entry_path dir h)")
  case None
  then have "delEntry dir h w = Inr (True, w)" using h by (simp add: delEntry_def valid_hash_def)
  moreover have "store_entry dir w h = None" using has_entry_iff [OF ok h] None by simp
  ultimately show ?thesis using ok by (auto simp: fun_eq_iff)
next
  case (Some ob)
  let ?e = "entry_path dir h" and ?w = "upd_files (\<lambda>f. f(entry_path dir h := None)) w"
  obtain c t where ob: "ob = File c t" using ok h Some by (cases ob) (auto simp: store_ok_def isDir_def)
  have "delEntry dir h w = Inr (True, ?w)"
    using h Some ob ok by (auto simp: delEntry_def valid_hash_def sys_unlink_def store_ok_def)
  moreover have dirs: "isDir ?w q \<longleftrightarrow> isDir w q" for q using Some ob by (auto simp: isDir_def)
  have "store_ok dir ?w"
    using ok h entry_not_dir unfolding store_ok_def dirs by (auto simp: creatable_def dirs)
  moreover have "free_content dir ?w = free_content dir w"
    using entry_not_free [OF ok h] by (auto simp: free_content_def content_def fun_eq_iff)
  moreover have "store_entry dir ?w = (store_entry dir w)(h := None)"
    using h by (auto simp: store_entry_def content_def fun_eq_iff)
  ultimately show ?thesis by (auto simp: file_writable_def creatable_def dirs)
qed

interpretation fs_store: content_store valid_hash "free_path dir" "store_ok dir"
    "\<lambda>w q. file_writable w q \<and> free_path dir q" "store_entry dir" "free_content dir" "hasEntry dir"
    "writeEntry dir" "readEntry dir" "delEntry dir"
  for dir
proof
  show "hasEntry dir h w = Inr (store_entry dir w h \<noteq> None)" if "store_ok dir w" "valid_hash h" for w h
    using has_entry_iff [OF that] that(2) by (simp add: hasEntry_def valid_hash_def)
  show "readEntry dir h p w = Inr (False, w)"
    if "store_ok dir w" "valid_hash h" "store_entry dir w h = None" for w h p
    using has_entry_iff [OF that(1,2)] that(2,3) by (simp add: readEntry_def valid_hash_def Let_def)
qed (use writeEntry_store readEntry_store delEntry_store in blast)+

end
