(* ===== verification/Cache_Git.thy ===== *)
theory Cache_Git
  imports Cache_FS Graph_Model
begin

text \<open>
  The directory of cache entries of a git repository, \<open>src/src/cache_git_directory.cpp\<close>. Every
  node and every rule has a map from git references to cache entries; an entry counts the links
  to it and is deleted, with its file in the cache, when the last link goes.

  Entries are heap objects: a pointer is an address and \<open>d_entries\<close> maps the addresses that are
  allocated, so that the use of a deleted entry is an error of the model. The counter
  \<open>numGitRefs\<close> is a natural number, which it is for fewer than \<open>2\<^sup>3\<^sup>2\<close> links. libgit2
  is a parameter \<open>git\<close> that says what its functions answer for a repository.

  The concrete directory refines a plain map from owners and references to hashes
  (\<open>linked_hash\<close>); an entry of the cache is removed exactly when its last link is replaced.
\<close>

section \<open>Class CacheGitDirectory\<close>

type_synonym eid = nat
type_synonym refMap = "string \<Rightarrow> eid option"

record git_repo =
  git_opens :: bool
  git_detached :: bool
  git_head :: "string option"

record git_entry =
  ge_hash :: string
  ge_numGitRefs :: nat

record git_directory =
  d_gitRepository :: string
  d_currentGitRef :: string
  d_nodeMap :: "nid \<Rightarrow> refMap option"
  d_ruleMap :: "rid \<Rightarrow> refMap option"
  d_hashMap :: "string \<Rightarrow> eid option"
  d_cacheDir :: string
  d_entries :: "eid \<Rightarrow> git_entry option"
  d_newEntries :: nat

definition CacheGitDirectory :: "string \<Rightarrow> string \<Rightarrow> git_directory" where
  "CacheGitDirectory gitRepository cacheDir =
     \<lparr>d_gitRepository = gitRepository, d_currentGitRef = [], d_nodeMap = (\<lambda>_. None), d_ruleMap = (\<lambda>_. None),
      d_hashMap = (\<lambda>_. None), d_cacheDir = cacheDir, d_entries = (\<lambda>_. None), d_newEntries = 0\<rparr>"

definition checkIsGitRepository :: "(string \<Rightarrow> git_repo) \<Rightarrow> git_directory \<Rightarrow> bool" where
  "checkIsGitRepository git d = git_opens (git (d_gitRepository d))"

definition updateRef :: "(string \<Rightarrow> git_repo) \<Rightarrow> git_directory \<Rightarrow> git_directory" where
  "updateRef git d =
     (let d = d\<lparr>d_currentGitRef := []\<rparr>; repo = git (d_gitRepository d)
      in if \<not> git_opens repo then d
         else if git_detached repo then d
         else case git_head repo of
                None \<Rightarrow> d
              | Some name \<Rightarrow> d\<lparr>d_currentGitRef := name\<rparr>)"

definition isInRef :: "git_directory \<Rightarrow> bool" where
  "isInRef d \<longleftrightarrow> d_currentGitRef d \<noteq> []"

text \<open>The three parts of \<open>registerEntryInRefMap\<close>: find or create the entry of the hash, drop the
  previous entry of the reference, link the entry.\<close>

definition find_or_create :: "string \<Rightarrow> git_directory \<Rightarrow> eid \<times> git_directory" where
  "find_or_create hash d =
     (case d_hashMap d hash of
        None \<Rightarrow> (let e = d_newEntries d
                 in (e, d\<lparr>d_entries := (d_entries d)(e \<mapsto> \<lparr>ge_hash = hash, ge_numGitRefs = 0\<rparr>),
                         d_hashMap := (d_hashMap d)(hash \<mapsto> e), d_newEntries := Suc e\<rparr>))
      | Some e \<Rightarrow> (e, d))"

definition drop_previous :: "refMap \<Rightarrow> eid \<Rightarrow> git_directory \<Rightarrow> world \<Rightarrow> (git_directory \<times> world) result" where
  "drop_previous refMap e d w =
     (case refMap (d_currentGitRef d) of
        None \<Rightarrow> Inr (d, w)
      | Some prev \<Rightarrow>
          (case d_entries d prev of
             None \<Rightarrow> Inl UseAfterFree
           | Some pe \<Rightarrow>
               assert_that ''prevEntry->numGitRefs > 0'' (0 < ge_numGitRefs pe)
                 (let pe = pe\<lparr>ge_numGitRefs := ge_numGitRefs pe - 1\<rparr>;
                      d = d\<lparr>d_entries := (d_entries d)(prev \<mapsto> pe)\<rparr>
                  in if ge_numGitRefs pe = 0 \<and> prev \<noteq> e
                     then rbind (delEntry (d_cacheDir d) (ge_hash pe) w)
                            (\<lambda>(_, w). Inr (d\<lparr>d_hashMap := (d_hashMap d)(ge_hash pe := None),
                                             d_entries := (d_entries d)(prev := None)\<rparr>, w))
                     else Inr (d, w))))"

definition registerEntryInRefMap ::
    "string \<Rightarrow> refMap \<Rightarrow> git_directory \<Rightarrow> world \<Rightarrow> (refMap \<times> git_directory \<times> world) result" where
  "registerEntryInRefMap hash refMap d w =
     assert_that ''isInRef()'' (isInRef d)
       (let (e, d) = find_or_create hash d
        in rbind (drop_previous refMap e d w)
             (\<lambda>(d, w). case d_entries d e of
                  None \<Rightarrow> Inl UseAfterFree
                | Some ge \<Rightarrow>
                    Inr (refMap(d_currentGitRef d \<mapsto> e),
                         d\<lparr>d_entries := (d_entries d)(e \<mapsto> ge\<lparr>ge_numGitRefs := Suc (ge_numGitRefs ge)\<rparr>)\<rparr>, w)))"

definition refMap_of :: "('a \<Rightarrow> refMap option) \<Rightarrow> 'a \<Rightarrow> refMap" where
  "refMap_of m a = (case m a of None \<Rightarrow> (\<lambda>_. None) | Some refMap \<Rightarrow> refMap)"

definition registerNode :: "string \<Rightarrow> nid \<Rightarrow> git_directory \<Rightarrow> world \<Rightarrow> (git_directory \<times> world) result" where
  "registerNode hash n d w =
     rbind (registerEntryInRefMap hash (refMap_of (d_nodeMap d) n) d w)
       (\<lambda>(refMap, d, w). Inr (d\<lparr>d_nodeMap := (d_nodeMap d)(n \<mapsto> refMap)\<rparr>, w))"

definition registerRule :: "string \<Rightarrow> rid \<Rightarrow> git_directory \<Rightarrow> world \<Rightarrow> (git_directory \<times> world) result" where
  "registerRule hash r d w =
     rbind (registerEntryInRefMap hash (refMap_of (d_ruleMap d) r) d w)
       (\<lambda>(refMap, d, w). Inr (d\<lparr>d_ruleMap := (d_ruleMap d)(r \<mapsto> refMap)\<rparr>, w))"

section \<open>The invariant\<close>

text \<open>The links of the directory: the owner (a node or a rule) and the reference lead to an entry.\<close>

type_synonym link = "(nid + rid) \<times> string"

definition links :: "git_directory \<Rightarrow> link \<Rightarrow> eid option" where
  "links d = (\<lambda>(who, ref). case who of
     Inl n \<Rightarrow> refMap_of (d_nodeMap d) n ref
   | Inr r \<Rightarrow> refMap_of (d_ruleMap d) r ref)"

definition linked_hash :: "('k \<Rightarrow> eid option) \<Rightarrow> git_directory \<Rightarrow> 'k \<Rightarrow> string option" where
  "linked_hash L d k = (case L k of None \<Rightarrow> None | Some e \<Rightarrow> map_option ge_hash (d_entries d e))"

text \<open>The number of links to an entry.\<close>

definition refs :: "('k \<Rightarrow> eid option) \<Rightarrow> eid \<Rightarrow> nat" where
  "refs L e = card {k. L k = Some e}"

text \<open>
  \<open>heap_ok X L d\<close>: the global map and the heap agree on the entries and their hashes, no link
  dangles, and every entry counts the links to it, of which there is one unless the entry is
  in \<open>X\<close>.
\<close>

definition heap_ok :: "eid set \<Rightarrow> ('k \<Rightarrow> eid option) \<Rightarrow> git_directory \<Rightarrow> bool" where
  "heap_ok X L d \<longleftrightarrow>
     finite (dom L) \<and>
     (\<forall>h e. d_hashMap d h = Some e \<longleftrightarrow> (\<exists>ge. d_entries d e = Some ge \<and> ge_hash ge = h)) \<and>
     (\<forall>e ge. d_entries d e = Some ge \<longrightarrow> valid_hash (ge_hash ge) \<and> e < d_newEntries d \<and>
        ge_numGitRefs ge = refs L e \<and> (e \<in> X \<or> 0 < ge_numGitRefs ge)) \<and>
     (\<forall>k e. L k = Some e \<longrightarrow> d_entries d e \<noteq> None)"

definition git_inv :: "git_directory \<Rightarrow> bool" where
  "git_inv d \<longleftrightarrow> heap_ok {} (links d) d"

lemma heap_ok_finite: "heap_ok X L d \<Longrightarrow> finite {k. L k = Some e}"
  by (rule finite_subset [of _ "dom L"]) (auto simp: heap_ok_def)

lemma refs_pos: "finite {k. L k = Some e} \<Longrightarrow> L k = Some e \<Longrightarrow> 0 < refs L e"
  by (auto simp: refs_def card_gt_0_iff)

lemma refs_posD: "0 < refs L e \<Longrightarrow> \<exists>k. L k = Some e"
  unfolding refs_def by (metis (mono_tags, lifting) card.empty empty_Collect_eq less_irrefl)

lemma heap_ok_hash:
  "heap_ok X L d \<Longrightarrow> d_hashMap d h = Some e \<longleftrightarrow> (\<exists>ge. d_entries d e = Some ge \<and> ge_hash ge = h)"
  unfolding heap_ok_def by simp

lemma heap_ok_entry:
  "heap_ok X L d \<Longrightarrow> d_entries d e = Some ge \<Longrightarrow>
     valid_hash (ge_hash ge) \<and> e < d_newEntries d \<and> ge_numGitRefs ge = refs L e \<and> (e \<in> X \<or> 0 < ge_numGitRefs ge)"
  unfolding heap_ok_def by metis

lemma heap_ok_link: "heap_ok X L d \<Longrightarrow> L k = Some e \<Longrightarrow> \<exists>ge. d_entries d e = Some ge"
  unfolding heap_ok_def by simp

lemma heap_okI:
  assumes "finite (dom L)"
    and "\<And>h e. d_hashMap d h = Some e \<longleftrightarrow> (\<exists>ge. d_entries d e = Some ge \<and> ge_hash ge = h)"
    and "\<And>e ge. d_entries d e = Some ge \<Longrightarrow> valid_hash (ge_hash ge) \<and> e < d_newEntries d \<and>
      ge_numGitRefs ge = refs L e \<and> (e \<in> X \<or> 0 < refs L e)"
    and "\<And>k e. L k = Some e \<Longrightarrow> d_entries d e \<noteq> None"
  shows "heap_ok X L d"
proof -
  have entry: "valid_hash (ge_hash ge) \<and> e < d_newEntries d \<and> ge_numGitRefs ge = refs L e \<and> (e \<in> X \<or> 0 < ge_numGitRefs ge)"
    if "d_entries d e = Some ge" for e ge using assms(3) [OF that] by simp
  show ?thesis unfolding heap_ok_def
    by (intro conjI, rule assms(1), intro allI, rule assms(2), intro allI impI, erule entry, intro allI impI, erule assms(4))
qed

lemma heap_ok_mono: "heap_ok X L d \<Longrightarrow> X \<subseteq> Y \<Longrightarrow> heap_ok Y L d"
proof (rule heap_okI)
  show "valid_hash (ge_hash ge) \<and> e < d_newEntries d \<and> ge_numGitRefs ge = refs L e \<and> (e \<in> Y \<or> 0 < refs L e)"
    if "heap_ok X L d" "X \<subseteq> Y" "d_entries d e = Some ge" for e ge
    using heap_ok_entry [OF that(1,3)] that(2) by auto
qed (use heap_ok_hash heap_ok_link in \<open>auto simp: heap_ok_def\<close>)

lemma heap_ok_unique:
  assumes "heap_ok X L d" and "d_entries d e = Some a" and "d_entries d e' = Some b" and "ge_hash a = ge_hash b"
  shows "e = e'"
  using heap_ok_hash [OF assms(1)] assms(2-4) by (metis option.inject)

lemma refs_upd:
  assumes "finite {k. L k = Some x}"
  shows "refs (L(k0 \<mapsto> e)) x =
    (if x = e then (if L k0 = Some e then refs L x else Suc (refs L x))
     else if L k0 = Some x then refs L x - 1 else refs L x)"
proof (cases "x = e")
  case True
  then have "{k. (L(k0 \<mapsto> e)) k = Some x} = insert k0 {k. L k = Some x}" by auto
  then show ?thesis using True assms by (simp add: refs_def card_insert_if)
next
  case False
  then have "{k. (L(k0 \<mapsto> e)) k = Some x} = {k. L k = Some x} - {k0}" by auto
  then show ?thesis using False assms by (simp add: refs_def card_Diff_singleton_if)
qed

lemma find_or_create_ok:
  assumes "heap_ok {} L d" and "valid_hash h" and "find_or_create h d = (e, d')"
  shows "heap_ok {e} L d' \<and> (\<exists>ge. d_entries d' e = Some ge \<and> ge_hash ge = h) \<and> linked_hash L d' = linked_hash L d \<and>
      d_currentGitRef d' = d_currentGitRef d \<and> d_nodeMap d' = d_nodeMap d \<and> d_ruleMap d' = d_ruleMap d \<and> d_cacheDir d' = d_cacheDir d"
proof (cases "d_hashMap d h")
  case (Some e')
  then have "d' = d" "e' = e" using assms(3) by (auto simp: find_or_create_def)
  then show ?thesis
    using heap_ok_mono [OF assms(1), of "{e}"] heap_ok_hash [OF assms(1), of h e] Some by simp
next
  case None
  then have e: "e = d_newEntries d" and d': "d' = d\<lparr>d_entries := (d_entries d)(e \<mapsto> \<lparr>ge_hash = h, ge_numGitRefs = 0\<rparr>),
      d_hashMap := (d_hashMap d)(h \<mapsto> e), d_newEntries := Suc e\<rparr>"
    using assms(3) by (auto simp: find_or_create_def Let_def)
  have fresh: "d_entries d e = None" using assms(1) e unfolding heap_ok_def by (metis less_irrefl not_None_eq)
  have nolink: "L k \<noteq> Some e" for k using assms(1) fresh unfolding heap_ok_def by blast
  have noh: "ge_hash ge \<noteq> h" if "d_entries d e' = Some ge" for e' ge
    using that None assms(1) unfolding heap_ok_def by (metis option.distinct(1))
  have "refs L e = 0" using nolink by (simp add: refs_def)
  have "heap_ok {e} L d'"
  proof (rule heap_okI)
    show "d_hashMap d' h' = Some x \<longleftrightarrow> (\<exists>ge. d_entries d' x = Some ge \<and> ge_hash ge = h')" for h' x
      using heap_ok_hash [OF assms(1), of h' x] noh [of x] fresh by (auto simp: d')
    show "valid_hash (ge_hash ge) \<and> x < d_newEntries d' \<and> ge_numGitRefs ge = refs L x \<and> (x \<in> {e} \<or> 0 < refs L x)"
      if "d_entries d' x = Some ge" for x ge
      using that heap_ok_entry [OF assms(1), of x ge] \<open>refs L e = 0\<close> assms(2) by (auto simp: d' e split: if_splits)
    show "d_entries d' x \<noteq> None" if "L k = Some x" for k x using heap_ok_link [OF assms(1) that] by (auto simp: d')
  qed (use assms(1) in \<open>simp add: heap_ok_def\<close>)
  moreover have "linked_hash L d' = linked_hash L d"
    using nolink by (auto simp: linked_hash_def d' fun_eq_iff split: option.split)
  ultimately show ?thesis
    by (simp add: d')
qed

text \<open>
  What registering does to the heap: the key \<open>k0\<close> now leads to \<open>e\<close>, the counters follow, and
  the entry that \<open>k0\<close> led to before is deleted when this was its only link.
\<close>

definition unlinked :: "('k \<Rightarrow> eid option) \<Rightarrow> 'k \<Rightarrow> eid \<Rightarrow> eid \<Rightarrow> bool" where
  "unlinked L k0 e x \<longleftrightarrow> x \<noteq> e \<and> L k0 = Some x \<and> refs L x = 1"

definition relinked :: "('k \<Rightarrow> eid option) \<Rightarrow> 'k \<Rightarrow> eid \<Rightarrow> git_directory \<Rightarrow> git_directory" where
  "relinked L k0 e d = d\<lparr>
     d_entries := (\<lambda>x. if unlinked L k0 e x then None
        else map_option (\<lambda>ge. ge\<lparr>ge_numGitRefs := refs (L(k0 \<mapsto> e)) x\<rparr>) (d_entries d x)),
     d_hashMap := (\<lambda>h. case d_hashMap d h of None \<Rightarrow> None | Some x \<Rightarrow> if unlinked L k0 e x then None else Some x)\<rparr>"

lemma unlinked_only: "unlinked L k0 e x \<Longrightarrow> L k = Some x \<longleftrightarrow> k = k0"
  unfolding unlinked_def refs_def by (metis (mono_tags, lifting) card_1_singletonE mem_Collect_eq singletonD)

lemma relinked_ok:
  assumes ok: "heap_ok {e} L d" and e: "d_entries d e = Some ge"
  shows "heap_ok {} (L(k0 \<mapsto> e)) (relinked L k0 e d)"
proof -
  let ?L = "L(k0 \<mapsto> e)" and ?d = "relinked L k0 e d"
  have ent: "d_entries ?d x = Some b \<longleftrightarrow> \<not> unlinked L k0 e x \<and>
      (\<exists>a. d_entries d x = Some a \<and> b = a\<lparr>ge_numGitRefs := refs ?L x\<rparr>)" for x b
    by (auto simp: relinked_def)
  have "finite (dom ?L)" using ok by (simp add: heap_ok_def)
  moreover have "d_hashMap ?d h = Some x \<longleftrightarrow> (\<exists>b. d_entries ?d x = Some b \<and> ge_hash b = h)" for h x
    unfolding ent using heap_ok_hash [OF ok, of h x] by (auto simp: relinked_def split: option.split)
  moreover have "valid_hash (ge_hash b) \<and> x < d_newEntries ?d \<and> ge_numGitRefs b = refs ?L x \<and>
      (x \<in> {} \<or> 0 < refs ?L x)" if b: "d_entries ?d x = Some b" for x b
  proof -
    from b obtain a where a: "d_entries d x = Some a" "\<not> unlinked L k0 e x"
      "b = a\<lparr>ge_numGitRefs := refs ?L x\<rparr>" unfolding ent by blast
    have fin: "finite {k. L k = Some x}" by (rule heap_ok_finite [OF ok])
    have pos: "0 < refs L x" if "x \<noteq> e" using heap_ok_entry [OF ok a(1)] that by auto
    have "L k0 = Some e \<Longrightarrow> 0 < refs L e" by (rule refs_pos [OF heap_ok_finite [OF ok]])
    then have "0 < refs ?L x"
      using pos a(2) unfolding refs_upd [OF fin] unlinked_def by auto
    then show ?thesis using a heap_ok_entry [OF ok a(1)] by (simp add: relinked_def)
  qed
  moreover have "d_entries ?d x \<noteq> None" if k: "?L k = Some x" for k x
  proof -
    have "\<not> unlinked L k0 e x"
      using k unlinked_only [of L k0 e x k] by (auto simp: unlinked_def split: if_splits)
    moreover have "d_entries d x \<noteq> None" using k e heap_ok_link [OF ok, of k x] by (auto split: if_splits)
    ultimately show ?thesis by (auto simp: relinked_def)
  qed
  ultimately show ?thesis by (rule heap_okI)
qed

lemma relinked_hash:
  assumes ok: "heap_ok {e} L d" and e: "d_entries d e = Some ge"
  shows "linked_hash (L(k0 \<mapsto> e)) (relinked L k0 e d) = (linked_hash L d)(k0 \<mapsto> ge_hash ge)"
proof
  fix k
  show "linked_hash (L(k0 \<mapsto> e)) (relinked L k0 e d) k = ((linked_hash L d)(k0 \<mapsto> ge_hash ge)) k"
  proof (cases "k = k0")
    case True
    have "\<not> unlinked L k0 e e" by (simp add: unlinked_def)
    then show ?thesis using True e by (simp add: linked_hash_def relinked_def)
  next
    case False
    then have "L k = Some x \<Longrightarrow> \<not> unlinked L k0 e x" for x using unlinked_only [of L k0 e x k] by auto
    then show ?thesis using False
      by (auto simp: linked_hash_def relinked_def option.map_comp comp_def split: option.split)
  qed
qed

lemma ran_linked_hash:
  assumes "heap_ok {} L d"
  shows "h \<in> ran (linked_hash L d) \<longleftrightarrow> d_hashMap d h \<noteq> None"
proof
  assume "h \<in> ran (linked_hash L d)"
  then obtain k e ge where "L k = Some e" "d_entries d e = Some ge" "ge_hash ge = h"
    by (auto simp: ran_def linked_hash_def split: option.splits)
  then show "d_hashMap d h \<noteq> None" using heap_ok_hash [OF assms] by blast
next
  assume "d_hashMap d h \<noteq> None"
  then obtain e ge where e: "d_entries d e = Some ge" "ge_hash ge = h" using heap_ok_hash [OF assms] by fastforce
  then obtain k where "L k = Some e" using heap_ok_entry [OF assms e(1)] refs_posD [of L e] by auto
  then have "linked_hash L d k = Some h" using e by (simp add: linked_hash_def)
  then show "h \<in> ran (linked_hash L d)" by (rule ranI)
qed

text \<open>The previous entry is dropped from the cache exactly when it is unlinked.\<close>

lemma drop_previous_relinked:
  assumes ok: "heap_ok {e} L d" and e: "d_entries d e = Some ge" and k0: "L k0 = refMap (d_currentGitRef d)"
    and store: "store_ok (d_cacheDir d) w"
  shows "\<exists>d2 w2 g2. drop_previous refMap e d w = Inr (d2, w2) \<and> d_entries d2 e = Some g2 \<and>
      d2\<lparr>d_entries := (d_entries d2)(e \<mapsto> g2\<lparr>ge_numGitRefs := Suc (ge_numGitRefs g2)\<rparr>)\<rparr> = relinked L k0 e d \<and>
      store_ok (d_cacheDir d) w2 \<and> free_content (d_cacheDir d) w2 = free_content (d_cacheDir d) w \<and>
      (\<forall>q. file_writable w q \<and> free_path (d_cacheDir d) q \<longrightarrow> file_writable w2 q) \<and>
      store_entry (d_cacheDir d) w2 = (\<lambda>h. if \<exists>x a. unlinked L k0 e x \<and> d_entries d x = Some a \<and> ge_hash a = h
         then None else store_entry (d_cacheDir d) w h)"
  (is "\<exists>d2 w2 g2. ?goal d2 w2 g2")
proof (cases "L k0")
  case None
  have rel: "d\<lparr>d_entries := (d_entries d)(e \<mapsto> ge\<lparr>ge_numGitRefs := Suc (ge_numGitRefs ge)\<rparr>)\<rparr> = relinked L k0 e d"
  proof -
    have "map_option (\<lambda>a. a\<lparr>ge_numGitRefs := refs (L(k0 \<mapsto> e)) x\<rparr>) (d_entries d x)
        = ((d_entries d)(e \<mapsto> ge\<lparr>ge_numGitRefs := Suc (ge_numGitRefs ge)\<rparr>)) x" for x
      using heap_ok_entry [OF ok] None e refs_upd [OF heap_ok_finite [OF ok, of x], of k0 e]
      by (cases "d_entries d x") auto
    moreover have "\<not> unlinked L k0 e x" for x using None by (simp add: unlinked_def)
    ultimately show ?thesis by (simp add: relinked_def fun_eq_iff option.case_eq_if)
  qed
  have "?goal d w ge" using None k0 store e rel by (simp add: drop_previous_def unlinked_def)
  then show ?thesis by blast
next
  case (Some p)
  obtain pe where pe: "d_entries d p = Some pe" using heap_ok_link [OF ok Some] by blast
  have num: "ge_numGitRefs pe = refs L p" "valid_hash (ge_hash pe)" using heap_ok_entry [OF ok pe] by auto
  have pos: "0 < ge_numGitRefs pe" unfolding num(1) by (rule refs_pos [OF heap_ok_finite [OF ok] Some])
  let ?d = "d\<lparr>d_entries := (d_entries d)(p \<mapsto> pe\<lparr>ge_numGitRefs := ge_numGitRefs pe - 1\<rparr>)\<rparr>"
  show ?thesis
  proof (cases "unlinked L k0 e p")
    case True
    then have one: "ge_numGitRefs pe = 1" "p \<noteq> e" by (auto simp: unlinked_def num)
    obtain w2 where w2: "delEntry (d_cacheDir d) (ge_hash pe) w = Inr (True, w2)" "store_ok (d_cacheDir d) w2"
        "free_content (d_cacheDir d) w2 = free_content (d_cacheDir d) w"
        "store_entry (d_cacheDir d) w2 = (store_entry (d_cacheDir d) w)(ge_hash pe := None)"
        "\<forall>q. file_writable w q \<and> free_path (d_cacheDir d) q \<longrightarrow> file_writable w2 q"
      using fs_store.del [OF store num(2)] by blast
    let ?d2 = "?d\<lparr>d_hashMap := (d_hashMap d)(ge_hash pe := None), d_entries := (d_entries d)(p := None)\<rparr>"
    have drop: "drop_previous refMap e d w = Inr (?d2, w2)"
      using Some k0 pe pos one w2(1) by (simp add: drop_previous_def Let_def)
    have only: "unlinked L k0 e x \<longleftrightarrow> x = p" for x using True Some by (auto simp: unlinked_def)
    have "?d2\<lparr>d_entries := (d_entries ?d2)(e \<mapsto> ge\<lparr>ge_numGitRefs := Suc (ge_numGitRefs ge)\<rparr>)\<rparr> = relinked L k0 e d"
    proof -
      have "(if x = p then None else map_option (\<lambda>a. a\<lparr>ge_numGitRefs := refs (L(k0 \<mapsto> e)) x\<rparr>) (d_entries d x))
          = ((d_entries d)(p := None, e \<mapsto> ge\<lparr>ge_numGitRefs := Suc (ge_numGitRefs ge)\<rparr>)) x" for x
        using heap_ok_entry [OF ok] Some e one(2) refs_upd [OF heap_ok_finite [OF ok, of x], of k0 e]
        by (cases "d_entries d x") auto
      moreover have "(case d_hashMap d h of None \<Rightarrow> None | Some x \<Rightarrow> if x = p then None else Some x)
          = ((d_hashMap d)(ge_hash pe := None)) h" for h
        using heap_ok_hash [OF ok, of h p] heap_ok_hash [OF ok, of "ge_hash pe" p] pe by (auto split: option.split)
      ultimately show ?thesis unfolding relinked_def only by (simp add: fun_eq_iff)
    qed
    moreover have "d_entries ?d2 e = Some ge" using e one(2) by simp
    moreover have "store_entry (d_cacheDir d) w2 = (\<lambda>h. if \<exists>x a. unlinked L k0 e x \<and> d_entries d x = Some a \<and> ge_hash a = h
         then None else store_entry (d_cacheDir d) w h)" using w2(4) pe by (auto simp: only fun_eq_iff)
    ultimately have "?goal ?d2 w2 ge" using drop w2 by blast
    then show ?thesis by blast
  next
    case False
    then have keep: "\<not> (ge_numGitRefs pe - 1 = 0 \<and> p \<noteq> e)" using pos by (auto simp: unlinked_def num Some)
    have drop: "drop_previous refMap e d w = Inr (?d, w)"
      using Some k0 pe pos keep by (auto simp: drop_previous_def Let_def)
    have none: "\<not> unlinked L k0 e x" for x using False Some by (auto simp: unlinked_def)
    let ?g = "if p = e then pe\<lparr>ge_numGitRefs := ge_numGitRefs pe - 1\<rparr> else ge"
    have g: "d_entries ?d e = Some ?g" using e by simp
    have "?d\<lparr>d_entries := (d_entries ?d)(e \<mapsto> ?g\<lparr>ge_numGitRefs := Suc (ge_numGitRefs ?g)\<rparr>)\<rparr> = relinked L k0 e d"
    proof -
      have "map_option (\<lambda>a. a\<lparr>ge_numGitRefs := refs (L(k0 \<mapsto> e)) x\<rparr>) (d_entries d x)
          = ((d_entries ?d)(e \<mapsto> ?g\<lparr>ge_numGitRefs := Suc (ge_numGitRefs ?g)\<rparr>)) x" for x
        using heap_ok_entry [OF ok] Some e pe pos refs_upd [OF heap_ok_finite [OF ok, of x], of k0 e]
        by (cases "d_entries d x") auto
      then show ?thesis using none by (simp add: relinked_def fun_eq_iff option.case_eq_if)
    qed
    then have "?goal ?d w ?g" using drop g store none by simp
    then show ?thesis by blast
  qed
qed

section \<open>Registering an entry\<close>

lemma registerEntryInRefMap_correct:
  assumes ok: "heap_ok {} L d" and ref: "isInRef d" and h: "valid_hash h" and k0: "L k0 = refMap (d_currentGitRef d)"
    and store: "store_ok (d_cacheDir d) w"
  shows "\<exists>e d' w'. registerEntryInRefMap h refMap d w = Inr (refMap(d_currentGitRef d \<mapsto> e), d', w') \<and>
      heap_ok {} (L(k0 \<mapsto> e)) d' \<and> linked_hash (L(k0 \<mapsto> e)) d' = (linked_hash L d)(k0 \<mapsto> h) \<and>
      d_nodeMap d' = d_nodeMap d \<and> d_ruleMap d' = d_ruleMap d \<and> d_cacheDir d' = d_cacheDir d \<and>
      d_currentGitRef d' = d_currentGitRef d \<and>
      store_ok (d_cacheDir d) w' \<and> free_content (d_cacheDir d) w' = free_content (d_cacheDir d) w \<and>
      (\<forall>q. file_writable w q \<and> free_path (d_cacheDir d) q \<longrightarrow> file_writable w' q) \<and>
      store_entry (d_cacheDir d) w' = (\<lambda>x. if x \<in> ran (linked_hash L d) - ran ((linked_hash L d)(k0 \<mapsto> h))
         then None else store_entry (d_cacheDir d) w x)"
proof -
  obtain e d1 where fc: "find_or_create h d = (e, d1)" by fastforce
  note new = find_or_create_ok [OF ok h fc]
  obtain ge where ge: "d_entries d1 e = Some ge" "ge_hash ge = h" using new by blast
  let ?dir = "d_cacheDir d" and ?d = "relinked L k0 e d1"
  have cachedir: "d_cacheDir d1 = ?dir" using new by blast
  have pre: "L k0 = refMap (d_currentGitRef d1)" "store_ok (d_cacheDir d1) w" using new k0 store by simp_all
  obtain d2 w2 g2 where d2: "drop_previous refMap e d1 w = Inr (d2, w2)" "d_entries d2 e = Some g2"
      "d2\<lparr>d_entries := (d_entries d2)(e \<mapsto> g2\<lparr>ge_numGitRefs := Suc (ge_numGitRefs g2)\<rparr>)\<rparr> = ?d"
    and w2: "store_ok ?dir w2" "free_content ?dir w2 = free_content ?dir w"
      "\<forall>q. file_writable w q \<and> free_path ?dir q \<longrightarrow> file_writable w2 q"
      "store_entry ?dir w2 = (\<lambda>x. if \<exists>y a. unlinked L k0 e y \<and> d_entries d1 y = Some a \<and> ge_hash a = x
         then None else store_entry ?dir w x)"
    using drop_previous_relinked [where L = L and ?k0.0 = k0 and refMap = refMap and w = w, OF conjunct1 [OF new] ge(1) pre]
    unfolding cachedir by blast
  have cur: "d_currentGitRef d2 = d_currentGitRef d1"
    using arg_cong [OF d2(3), of d_currentGitRef] by (simp add: relinked_def)
  have reg: "registerEntryInRefMap h refMap d w = Inr (refMap(d_currentGitRef d \<mapsto> e), ?d, w2)"
    using ref fc d2 cur new by (simp add: registerEntryInRefMap_def)
  have okd: "heap_ok {} (L(k0 \<mapsto> e)) ?d" by (rule relinked_ok [OF conjunct1 [OF new] ge(1)])
  have lh: "linked_hash (L(k0 \<mapsto> e)) ?d = (linked_hash L d)(k0 \<mapsto> h)"
    using relinked_hash [OF conjunct1 [OF new] ge(1)] ge(2) new by simp
  have gone: "(\<exists>y a. unlinked L k0 e y \<and> d_entries d1 y = Some a \<and> ge_hash a = x) \<longleftrightarrow>
      x \<in> ran (linked_hash L d) - ran ((linked_hash L d)(k0 \<mapsto> h))" for x
  proof -
    have ran: "x \<in> ran ((linked_hash L d)(k0 \<mapsto> h)) \<longleftrightarrow> d_hashMap ?d x \<noteq> None"
      unfolding lh [symmetric] by (rule ran_linked_hash [OF okd])
    have hm: "d_hashMap d1 x = Some y \<longleftrightarrow> (\<exists>a. d_entries d1 y = Some a \<and> ge_hash a = x)" for y
      by (rule heap_ok_hash [OF conjunct1 [OF new]])
    have live: "d_hashMap ?d x = None \<longleftrightarrow> d_hashMap d1 x = None \<or> (\<exists>y. unlinked L k0 e y \<and> d_hashMap d1 x = Some y)"
      by (cases "d_hashMap d1 x") (auto simp: relinked_def)
    have old: "x \<in> ran (linked_hash L d)" if y: "unlinked L k0 e y" "d_hashMap d1 x = Some y" for y
    proof -
      have "linked_hash L d1 k0 = Some x" using y hm by (auto simp: linked_hash_def unlinked_def)
      then show ?thesis using new by (metis ranI)
    qed
    have "d_hashMap d1 x \<noteq> None" if "x \<in> ran (linked_hash L d)"
      using that fc ran_linked_hash [OF ok, of x] by (auto simp: find_or_create_def Let_def split: option.splits)
    then have "x \<in> ran (linked_hash L d) - ran ((linked_hash L d)(k0 \<mapsto> h)) \<longleftrightarrow>
        (\<exists>y. unlinked L k0 e y \<and> d_hashMap d1 x = Some y)"
      using old unfolding Diff_iff ran live by blast
    then show ?thesis unfolding hm by blast
  qed
  show ?thesis
    by (intro exI conjI, rule reg) (use okd lh new w2 gone in \<open>simp_all add: relinked_def\<close>)
qed

text \<open>The directory as a map from nodes, rules and references to hashes.\<close>

definition git_abs :: "git_directory \<Rightarrow> link \<Rightarrow> string option" where
  "git_abs d = linked_hash (links d) d"

text \<open>
  What a registration of the hash \<open>h\<close> under the key \<open>k\<close> does: the map is updated, the entries of
  the cache that no key leads to any more are gone, and nothing else changes.
\<close>

definition registered :: "link \<Rightarrow> string \<Rightarrow> git_directory \<times> world \<Rightarrow> git_directory \<times> world \<Rightarrow> bool" where
  "registered k h = (\<lambda>(d, w) (d', w').
     git_inv d' \<and> git_abs d' = (git_abs d)(k \<mapsto> h) \<and>
     d_cacheDir d' = d_cacheDir d \<and> d_currentGitRef d' = d_currentGitRef d \<and>
     store_ok (d_cacheDir d) w' \<and> free_content (d_cacheDir d) w' = free_content (d_cacheDir d) w \<and>
     (\<forall>q. file_writable w q \<and> free_path (d_cacheDir d) q \<longrightarrow> file_writable w' q) \<and>
     store_entry (d_cacheDir d) w' = (\<lambda>x. if x \<in> ran (git_abs d) - ran ((git_abs d)(k \<mapsto> h)) then None
                                         else store_entry (d_cacheDir d) w x))"

lemma linked_hash_cong: "d_entries d' = d_entries d \<Longrightarrow> linked_hash L d' = linked_hash L d"
  by (rule ext) (simp add: linked_hash_def split: option.split)

lemma heap_ok_cong:
  "d_entries d' = d_entries d \<Longrightarrow> d_hashMap d' = d_hashMap d \<Longrightarrow> d_newEntries d' = d_newEntries d \<Longrightarrow>
     heap_ok X L d' = heap_ok X L d"
  by (simp add: heap_ok_def)

text \<open>Nodes and rules are registered in the same way: \<open>store_back\<close> writes the map of the owner.\<close>

lemma register_back:
  assumes d: "git_inv d" "isInRef d" "valid_hash h" "store_ok (d_cacheDir d) w"
    and k0: "links d k0 = refMap (d_currentGitRef d)"
    and links: "\<And>e d1. d_nodeMap d1 = d_nodeMap d \<Longrightarrow> d_ruleMap d1 = d_ruleMap d \<Longrightarrow>
        links (store_back (refMap(d_currentGitRef d \<mapsto> e)) d1) = (links d)(k0 \<mapsto> e)"
    and store_back: "\<And>m d1. d_entries (store_back m d1) = d_entries d1 \<and> d_hashMap (store_back m d1) = d_hashMap d1 \<and>
        d_newEntries (store_back m d1) = d_newEntries d1 \<and> d_cacheDir (store_back m d1) = d_cacheDir d1 \<and>
        d_currentGitRef (store_back m d1) = d_currentGitRef d1"
  shows "\<exists>s'. rbind (registerEntryInRefMap h refMap d w) (\<lambda>(m, d, w). Inr (store_back m d, w)) = Inr s' \<and>
           registered k0 h (d, w) s'"
proof -
  have "heap_ok {} (links d) d" using d(1) by (simp add: git_inv_def)
  from registerEntryInRefMap_correct [where L = "links d" and ?k0.0 = k0 and refMap = refMap, OF this d(2,3) k0 d(4)]
  obtain e d1 w1 where
    r: "registerEntryInRefMap h refMap d w = Inr (refMap(d_currentGitRef d \<mapsto> e), d1, w1)"
    and d1: "heap_ok {} ((links d)(k0 \<mapsto> e)) d1"
      "linked_hash ((links d)(k0 \<mapsto> e)) d1 = (linked_hash (links d) d)(k0 \<mapsto> h)"
    and same: "d_nodeMap d1 = d_nodeMap d" "d_ruleMap d1 = d_ruleMap d" "d_cacheDir d1 = d_cacheDir d"
      "d_currentGitRef d1 = d_currentGitRef d"
    and w1: "store_ok (d_cacheDir d) w1" "free_content (d_cacheDir d) w1 = free_content (d_cacheDir d) w"
      "\<forall>q. file_writable w q \<and> free_path (d_cacheDir d) q \<longrightarrow> file_writable w1 q"
      "store_entry (d_cacheDir d) w1 = (\<lambda>x. if x \<in> ran (git_abs d) - ran ((git_abs d)(k0 \<mapsto> h))
         then None else store_entry (d_cacheDir d) w x)"
    unfolding git_abs_def by blast
  let ?d = "store_back (refMap(d_currentGitRef d \<mapsto> e)) d1"
  have "links ?d = (links d)(k0 \<mapsto> e)" by (rule links [OF same(1,2)])
  then have "registered k0 h (d, w) (?d, w1)"
    using d1 same w1 store_back [of "refMap(d_currentGitRef d \<mapsto> e)" d1] linked_hash_cong [of ?d d1 "(links d)(k0 \<mapsto> e)"]
      heap_ok_cong [of ?d d1 "{}" "(links d)(k0 \<mapsto> e)"]
    by (simp add: registered_def git_inv_def git_abs_def)
  then show ?thesis using r by simp
qed

lemma registerNode_correct:
  assumes "git_inv d" and "isInRef d" and "valid_hash h" and "store_ok (d_cacheDir d) w"
  shows "\<exists>s'. registerNode h n d w = Inr s' \<and> registered (Inl n, d_currentGitRef d) h (d, w) s'"
  unfolding registerNode_def
  by (rule register_back [OF assms, where store_back = "\<lambda>m d. d\<lparr>d_nodeMap := (d_nodeMap d)(n \<mapsto> m)\<rparr>"])
    (auto simp: links_def refMap_of_def fun_eq_iff split: sum.split)

lemma registerRule_correct:
  assumes "git_inv d" and "isInRef d" and "valid_hash h" and "store_ok (d_cacheDir d) w"
  shows "\<exists>s'. registerRule h r d w = Inr s' \<and> registered (Inr r, d_currentGitRef d) h (d, w) s'"
  unfolding registerRule_def
  by (rule register_back [OF assms, where store_back = "\<lambda>m d. d\<lparr>d_ruleMap := (d_ruleMap d)(r \<mapsto> m)\<rparr>"])
    (auto simp: links_def refMap_of_def fun_eq_iff split: sum.split)

lemma links_new: "links (CacheGitDirectory repo dir) = (\<lambda>_. None)"
  by (auto simp: links_def refMap_of_def CacheGitDirectory_def fun_eq_iff split: sum.split)

lemma git_inv_new: "git_inv (CacheGitDirectory repo dir)"
  unfolding git_inv_def links_new by (simp add: heap_ok_def CacheGitDirectory_def)

lemma git_inv_updateRef: "git_inv (updateRef git d) = git_inv d" "git_abs (updateRef git d) = git_abs d"
proof -
  have "d_entries (updateRef git d) = d_entries d" "d_hashMap (updateRef git d) = d_hashMap d"
    "d_newEntries (updateRef git d) = d_newEntries d" "links (updateRef git d) = links d"
    by (auto simp: updateRef_def Let_def links_def fun_eq_iff split: option.split sum.split)
  then show "git_inv (updateRef git d) = git_inv d" "git_abs (updateRef git d) = git_abs d"
    using heap_ok_cong linked_hash_cong unfolding git_inv_def git_abs_def by metis+
qed

lemma updateRef_sel [simp]: "d_cacheDir (updateRef git d) = d_cacheDir d"
  by (simp add: updateRef_def Let_def split: option.split)

lemma new_sel [simp]: "d_cacheDir (CacheGitDirectory repo dir) = dir"
  by (simp add: CacheGitDirectory_def)

section \<open>Histories of the directory\<close>

text \<open>
  Everything that can happen to a directory: the reference is looked up again, nodes and rules are
  registered, and the rest of the program changes the disk but leaves the cache usable.
\<close>

inductive git_history :: "string \<Rightarrow> string \<Rightarrow> git_directory \<Rightarrow> world \<Rightarrow> bool" for repo dir where
  create: "store_ok dir w \<Longrightarrow> git_history repo dir (CacheGitDirectory repo dir) w"
| update: "git_history repo dir d w \<Longrightarrow> git_history repo dir (updateRef git d) w"
| node: "git_history repo dir d w \<Longrightarrow> valid_hash h \<Longrightarrow> registerNode h n d w = Inr (d', w') \<Longrightarrow> git_history repo dir d' w'"
| rule: "git_history repo dir d w \<Longrightarrow> valid_hash h \<Longrightarrow> registerRule h r d w = Inr (d', w') \<Longrightarrow> git_history repo dir d' w'"
| disk: "git_history repo dir d w \<Longrightarrow> store_ok dir w' \<Longrightarrow> git_history repo dir d w'"

lemma register_inRef:
  "registerNode h n d w = Inr s \<Longrightarrow> isInRef d" "registerRule h r d w = Inr s \<Longrightarrow> isInRef d"
  by (auto simp: registerNode_def registerRule_def registerEntryInRefMap_def rbind_eq_Inr)

lemma registeredD:
  "registered k h (d, w) (d', w') \<Longrightarrow> git_inv d' \<and> d_cacheDir d' = d_cacheDir d \<and> store_ok (d_cacheDir d) w' \<and>
     d_currentGitRef d' = d_currentGitRef d"
  by (simp add: registered_def)

lemma git_history_inv:
  "git_history repo dir d w \<Longrightarrow> git_inv d \<and> d_cacheDir d = dir \<and> store_ok dir w"
proof (induction rule: git_history.induct)
  case (node d w h n d' w')
  then show ?case
    using registerNode_correct [OF _ register_inRef(1) [OF node.hyps(3)] node.hyps(2), of w n] by (auto dest: registeredD)
next
  case (rule d w h r d' w')
  then show ?case
    using registerRule_correct [OF _ register_inRef(2) [OF rule.hyps(3)] rule.hyps(2), of w r] by (auto dest: registeredD)
qed (simp_all add: git_inv_new git_inv_updateRef)

section \<open>Properties\<close>


definition example_world :: world where
  "example_world = \<lparr>w_files = [''cache'' \<mapsto> Dir, ''cache/h1'' \<mapsto> File ''data'' 0, ''out'' \<mapsto> Dir],
     w_denied = {}, w_time = 5\<rparr>"

lemma example_store: "store_ok ''cache'' example_world"
  by (auto simp: store_ok_def example_world_def isDir_def entry_path_def valid_hash_def)

definition example_git :: "string \<Rightarrow> git_repo" where
  "example_git repo = \<lparr>git_opens = True, git_detached = False, git_head = Some ''refs/heads/master''\<rparr>"

lemma example_history:
  "git_history ''r'' ''cache'' (updateRef example_git (CacheGitDirectory ''r'' ''cache'')) example_world"
  "isInRef (updateRef example_git (CacheGitDirectory ''r'' ''cache''))"
  by (intro git_history.intros example_store)
    (simp add: isInRef_def updateRef_def example_git_def CacheGitDirectory_def)


end
