(* ===== verification/Cache_Manager.thy ===== *)
theory Cache_Manager
  imports Cache_Git
begin

text \<open>
  The cache manager of \<open>src/src/cache_manager.cpp\<close>: it saves the outputs and the depfile of a
  rule that was built and restores them, under a policy, on top of the content store and the git
  directory. Its functions change the manager and the disk, so they take and return both.

  Restoring is shown to be all or nothing: the outputs are written only when all of them are in
  the cache, and the registrations in the git directory cannot remove them meanwhile.
\<close>

section \<open>Class CacheManager\<close>

datatype Policy = CACHE_NOTHING | CACHE_EVERYTHING | CACHE_GIT_REFS

record cache_manager =
  cm_policy :: Policy
  cm_workingDirectory :: string
  cm_cacheFs :: string
  cm_gitDirectory :: git_directory

type_synonym cstate = "cache_manager \<times> world"

definition CacheManager :: "(string \<Rightarrow> git_repo) \<Rightarrow> string \<Rightarrow> string \<Rightarrow> cache_manager" where
  "CacheManager git workingDirectory falconDir =
     (let cacheFs = falconDir @ ''/cache''; gitDirectory = CacheGitDirectory workingDirectory cacheFs
      in \<lparr>cm_policy = (if checkIsGitRepository git gitDirectory then CACHE_GIT_REFS else CACHE_EVERYTHING),
          cm_workingDirectory = workingDirectory, cm_cacheFs = cacheFs, cm_gitDirectory = gitDirectory\<rparr>)"

definition setPolicy :: "Policy \<Rightarrow> cache_manager \<Rightarrow> cache_manager" where
  "setPolicy policy cm = cm\<lparr>cm_policy := policy\<rparr>"

definition gitUpdateRef :: "(string \<Rightarrow> git_repo) \<Rightarrow> cache_manager \<Rightarrow> cache_manager" where
  "gitUpdateRef git cm = cm\<lparr>cm_gitDirectory := updateRef git (cm_gitDirectory cm)\<rparr>"

text \<open>Calls of the git directory that replace it inside the manager.\<close>

definition git_registerNode :: "string \<Rightarrow> nid \<Rightarrow> cstate \<Rightarrow> cstate result" where
  "git_registerNode hash n = (\<lambda>(cm, w).
     rbind (registerNode hash n (cm_gitDirectory cm) w) (\<lambda>(d, w). Inr (cm\<lparr>cm_gitDirectory := d\<rparr>, w)))"

definition git_registerRule :: "string \<Rightarrow> rid \<Rightarrow> cstate \<Rightarrow> cstate result" where
  "git_registerRule hash r = (\<lambda>(cm, w).
     rbind (registerRule hash r (cm_gitDirectory cm) w) (\<lambda>(d, w). Inr (cm\<lparr>cm_gitDirectory := d\<rparr>, w)))"

definition saveNode :: "graph \<Rightarrow> nid \<Rightarrow> cstate \<Rightarrow> (bool \<times> cstate) result" where
  "saveNode g n = (\<lambda>(cm, w).
     rbind (writeEntry (cm_cacheFs cm) (n_hash (g_node g n)) (n_path (g_node g n)) w)
       (\<lambda>(b, w). if \<not> b then Inr (False, cm, w)
                 else if cm_policy cm = CACHE_GIT_REFS
                 then rbind (git_registerNode (n_hash (g_node g n)) n (cm, w)) (\<lambda>s. Inr (True, s))
                 else Inr (True, cm, w)))"

definition saveRule :: "graph \<Rightarrow> rid \<Rightarrow> cstate \<Rightarrow> cstate result" where
  "saveRule g r = (\<lambda>(cm, w).
     if Rule_isPhony g r then Inr (cm, w)
     else if cm_policy cm = CACHE_GIT_REFS \<and> \<not> isInRef (cm_gitDirectory cm) then Inr (cm, w)
     else
       rbind (foldM (\<lambda>n s. rbind (saveNode g n s) (\<lambda>(_, s). Inr s)) (r_outputs (g_rule g r)) (cm, w))
         (\<lambda>(cm, w).
           rbind (if Rule_hasDepfile g r
                  then rbind (writeEntry (cm_cacheFs cm) (r_hashDepfile (g_rule g r)) (r_depfile (g_rule g r)) w)
                         (\<lambda>(_, w). Inr (cm, w))
                  else Inr (cm, w))
             (\<lambda>(cm, w). if cm_policy cm = CACHE_GIT_REFS
                        then git_registerRule (r_hashDepfile (g_rule g r)) r (cm, w)
                        else Inr (cm, w))))"

definition restoreNode :: "graph \<Rightarrow> nid \<Rightarrow> cstate \<Rightarrow> (bool \<times> cstate) result" where
  "restoreNode g n = (\<lambda>(cm, w).
     rbind (hasEntry (cm_cacheFs cm) (n_hash (g_node g n)) w)
       (\<lambda>has. if \<not> has then Inr (False, cm, w)
              else rbind (if cm_policy cm = CACHE_GIT_REFS
                          then git_registerNode (n_hash (g_node g n)) n (cm, w) else Inr (cm, w))
                     (\<lambda>(cm, w). rbind (readEntry (cm_cacheFs cm) (n_hash (g_node g n)) (n_path (g_node g n)) w)
                                  (\<lambda>(b, w). Inr (b, cm, w)))))"

text \<open>The two loops of \<open>restoreRule\<close>; the flag is false once the function has returned false.\<close>

definition check_output :: "graph \<Rightarrow> nid \<Rightarrow> bool \<times> cstate \<Rightarrow> (bool \<times> cstate) result" where
  "check_output g n = (\<lambda>(b, cm, w).
     if \<not> b then Inr (False, cm, w)
     else rbind (hasEntry (cm_cacheFs cm) (n_hash (g_node g n)) w)
       (\<lambda>has. if \<not> has then Inr (False, cm, w)
              else if cm_policy cm = CACHE_GIT_REFS
              then rbind (git_registerNode (n_hash (g_node g n)) n (cm, w)) (\<lambda>s. Inr (True, s))
              else Inr (True, cm, w)))"

definition read_output :: "graph \<Rightarrow> nid \<Rightarrow> bool \<times> cstate \<Rightarrow> (bool \<times> cstate) result" where
  "read_output g n = (\<lambda>(b, cm, w).
     if \<not> b then Inr (False, cm, w)
     else rbind (readEntry (cm_cacheFs cm) (n_hash (g_node g n)) (n_path (g_node g n)) w)
       (\<lambda>(b, w). Inr (b, cm, w)))"

definition restoreRule :: "graph \<Rightarrow> rid \<Rightarrow> cstate \<Rightarrow> (bool \<times> cstate) result" where
  "restoreRule g r = (\<lambda>(cm, w).
     if Rule_isPhony g r then Inr (False, cm, w)
     else
       rbind (foldM (check_output g) (r_outputs (g_rule g r)) (True, cm, w))
         (\<lambda>(b, cm, w).
           if \<not> b then Inr (False, cm, w)
           else rbind (if cm_policy cm = CACHE_GIT_REFS
                       then git_registerRule (r_hashDepfile (g_rule g r)) r (cm, w) else Inr (cm, w))
                  (\<lambda>(cm, w). foldM (read_output g) (r_outputs (g_rule g r)) (True, cm, w))))"

definition restoreDepfile :: "graph \<Rightarrow> rid \<Rightarrow> cstate \<Rightarrow> (bool \<times> cstate) result" where
  "restoreDepfile g r = (\<lambda>(cm, w).
     rbind (readEntry (cm_cacheFs cm) (r_hashDepfile (g_rule g r)) (r_depfile (g_rule g r)) w)
       (\<lambda>(b, w). Inr (b, cm, w)))"

section \<open>Invariant of the manager\<close>

definition cm_inv :: "cstate \<Rightarrow> bool" where
  "cm_inv = (\<lambda>(cm, w). store_ok (cm_cacheFs cm) w \<and> git_inv (cm_gitDirectory cm) \<and>
     d_cacheDir (cm_gitDirectory cm) = cm_cacheFs cm)"

definition cm_usable :: "cache_manager \<Rightarrow> bool" where
  "cm_usable cm \<longleftrightarrow> (cm_policy cm = CACHE_GIT_REFS \<longrightarrow> isInRef (cm_gitDirectory cm))"

text \<open>The hashes and paths of the outputs of a rule are fit for the cache.\<close>

definition outputs_ok :: "graph \<Rightarrow> rid \<Rightarrow> string \<Rightarrow> world \<Rightarrow> bool" where
  "outputs_ok g r dir w \<longleftrightarrow>
     distinct (r_outputs (g_rule g r)) \<and> distinct (map (\<lambda>n. n_path (g_node g n)) (r_outputs (g_rule g r))) \<and>
     valid_hash (r_hashDepfile (g_rule g r)) \<and>
     (\<forall>n \<in> set (r_outputs (g_rule g r)). valid_hash (n_hash (g_node g n)) \<and> free_path dir (n_path (g_node g n)) \<and>
        file_writable w (n_path (g_node g n)))"

text \<open>What an operation of the manager may change besides its own effect.\<close>

definition cm_step :: "cstate \<Rightarrow> cstate \<Rightarrow> bool" where
  "cm_step = (\<lambda>(cm, w) (cm', w').
     cm_inv (cm', w') \<and> cm_policy cm' = cm_policy cm \<and> cm_cacheFs cm' = cm_cacheFs cm \<and>
     cm_workingDirectory cm' = cm_workingDirectory cm \<and>
     d_currentGitRef (cm_gitDirectory cm') = d_currentGitRef (cm_gitDirectory cm) \<and>
     (\<forall>q. file_writable w q \<and> free_path (cm_cacheFs cm) q \<longrightarrow> file_writable w' q))"

lemma cm_step_refl: "cm_inv (cm, w) \<Longrightarrow> cm_step (cm, w) (cm, w)"
  by (simp add: cm_step_def)

lemma cm_step_trans: "cm_step s t \<Longrightarrow> cm_step t u \<Longrightarrow> cm_step s u"
  by (auto simp: cm_step_def)

lemma cm_step_usable: "cm_step (cm, w) (cm', w') \<Longrightarrow> cm_usable cm' = cm_usable cm"
  by (simp add: cm_step_def cm_usable_def isInRef_def)

text \<open>The keys of the current reference, and the hashes they lead to.\<close>

abbreviation cm_key :: "cache_manager \<Rightarrow> nid + rid \<Rightarrow> string option" where
  "cm_key cm k \<equiv> git_abs (cm_gitDirectory cm) (k, d_currentGitRef (cm_gitDirectory cm))"

lemma registered_keeps:
  assumes "registered k h (d, w) (d', w')" and "git_abs d k' = Some x" and "k' \<noteq> k"
  shows "git_abs d' k' = Some x" and "store_entry (d_cacheDir d) w' x = store_entry (d_cacheDir d) w x"
proof -
  have "x \<in> ran ((git_abs d)(k \<mapsto> h))" by (rule ranI [of _ k']) (use assms(2,3) in simp)
  then show "store_entry (d_cacheDir d) w' x = store_entry (d_cacheDir d) w x"
    using assms(1) by (simp add: registered_def)
  show "git_abs d' k' = Some x" using assms by (simp add: registered_def)
qed

lemma registered_self:
  assumes "registered k h (d, w) (d', w')"
  shows "git_abs d' k = Some h" and "store_entry (d_cacheDir d) w' h = store_entry (d_cacheDir d) w h"
proof -
  have "h \<in> ran ((git_abs d)(k \<mapsto> h))" by (rule ranI [of _ k]) simp
  then show "store_entry (d_cacheDir d) w' h = store_entry (d_cacheDir d) w h" "git_abs d' k = Some h"
    using assms by (simp_all add: registered_def)
qed

lemma registered_step:
  "cm_inv (cm, w) \<Longrightarrow> registered k h (cm_gitDirectory cm, w) (d, w') \<Longrightarrow> cm_step (cm, w) (cm\<lparr>cm_gitDirectory := d\<rparr>, w')"
  by (simp add: cm_step_def cm_inv_def registered_def)

lemma registered_shrinks:
  "registered k h (d, w) (d', w') \<Longrightarrow> store_entry (d_cacheDir d) w' \<subseteq>\<^sub>m store_entry (d_cacheDir d) w"
  by (auto simp: registered_def map_le_def dom_def)

text \<open>The check of the outputs: the invariant after the outputs \<open>ns\<close>.\<close>

definition checked :: "graph \<Rightarrow> cstate \<Rightarrow> nid list \<Rightarrow> bool \<times> cstate \<Rightarrow> bool" where
  "checked g = (\<lambda>(cm, w) ns (b, cm', w').
     cm_step (cm, w) (cm', w') \<and> free_content (cm_cacheFs cm) w' = free_content (cm_cacheFs cm) w \<and>
     store_entry (cm_cacheFs cm) w' \<subseteq>\<^sub>m store_entry (cm_cacheFs cm) w \<and>
     (b \<longrightarrow> (\<forall>n \<in> set ns. store_entry (cm_cacheFs cm) w' (n_hash (g_node g n)) \<noteq> None \<and>
               (cm_policy cm = CACHE_GIT_REFS \<longrightarrow> cm_key cm' (Inl n) = Some (n_hash (g_node g n))))) \<and>
     (cm_policy cm \<noteq> CACHE_GIT_REFS \<longrightarrow> cm' = cm \<and> w' = w \<and>
        (b \<longleftrightarrow> (\<forall>n \<in> set ns. store_entry (cm_cacheFs cm) w (n_hash (g_node g n)) \<noteq> None))))"

lemma check_output_step:
  assumes chk: "checked g (cm, w) ns (b, cm1, w1)" and use: "cm_usable cm"
    and n: "n \<notin> set ns" "valid_hash (n_hash (g_node g n))"
  shows "\<exists>s'. check_output g n (b, cm1, w1) = Inr s' \<and> checked g (cm, w) (ns @ [n]) s'"
proof (cases b)
  case False
  have "checked g (cm, w) (ns @ [n]) (False, cm1, w1)"
    using chk False unfolding checked_def prod.case by simp
  then show ?thesis using False by (simp add: check_output_def)
next
  case True
  let ?h = "n_hash (g_node g n)" and ?dir = "cm_cacheFs cm"
  have st: "cm_step (cm, w) (cm1, w1)" using chk by (simp add: checked_def)
  then have inv: "store_ok ?dir w1" "git_inv (cm_gitDirectory cm1)" "d_cacheDir (cm_gitDirectory cm1) = ?dir"
      "cm_cacheFs cm1 = ?dir" "cm_policy cm1 = cm_policy cm" and use1: "cm_usable cm1"
    using use cm_step_usable [OF st] by (auto simp: cm_step_def cm_inv_def)
  have has: "hasEntry ?dir ?h w1 = Inr (store_entry ?dir w1 ?h \<noteq> None)" by (rule fs_store.has [OF inv(1) n(2)])
  consider (none) "store_entry ?dir w1 ?h = None" | (plain) "store_entry ?dir w1 ?h \<noteq> None" "cm_policy cm \<noteq> CACHE_GIT_REFS"
    | (git) "store_entry ?dir w1 ?h \<noteq> None" "cm_policy cm = CACHE_GIT_REFS" by blast
  then show ?thesis
  proof cases
    case none
    then have "check_output g n (b, cm1, w1) = Inr (False, cm1, w1)" using True has inv(4) by (simp add: check_output_def)
    then show ?thesis using chk none True by (auto simp: checked_def)
  next
    case plain
    then have "check_output g n (b, cm1, w1) = Inr (True, cm1, w1)" using True has inv(4,5) by (simp add: check_output_def)
    then show ?thesis using chk plain True by (auto simp: checked_def)
  next
    case git
    have ref: "isInRef (cm_gitDirectory cm1)" using use1 git(2) inv(5) by (simp add: cm_usable_def)
    obtain d2 w2 where r: "registerNode ?h n (cm_gitDirectory cm1) w1 = Inr (d2, w2)"
      "registered (Inl n, d_currentGitRef (cm_gitDirectory cm1)) ?h (cm_gitDirectory cm1, w1) (d2, w2)"
      using registerNode_correct [OF inv(2) ref n(2), of w1 n] inv(1,3) by auto
    have eq: "check_output g n (b, cm1, w1) = Inr (True, cm1\<lparr>cm_gitDirectory := d2\<rparr>, w2)"
      using True has inv(4,5) git r(1) by (simp add: check_output_def git_registerNode_def)
    have cur: "d_currentGitRef d2 = d_currentGitRef (cm_gitDirectory cm1)" using registeredD [OF r(2)] by simp
    have keep: "store_entry ?dir w2 (n_hash (g_node g m)) \<noteq> None \<and>
        git_abs d2 (Inl m, d_currentGitRef d2) = Some (n_hash (g_node g m))" if "m \<in> set ns" for m
    proof -
      have "git_abs (cm_gitDirectory cm1) (Inl m, d_currentGitRef (cm_gitDirectory cm1)) = Some (n_hash (g_node g m))"
        "store_entry ?dir w1 (n_hash (g_node g m)) \<noteq> None" using chk True git(2) that by (auto simp: checked_def)
      moreover have "m \<noteq> n" using that n(1) by auto
      ultimately show ?thesis using registered_keeps [OF r(2)] inv(3) cur by auto
    qed
    have self: "store_entry ?dir w2 ?h \<noteq> None" "git_abs d2 (Inl n, d_currentGitRef d2) = Some ?h"
      using registered_self [OF r(2)] git(1) inv(3) cur by auto
    have "cm_step (cm, w) (cm1\<lparr>cm_gitDirectory := d2\<rparr>, w2)"
      by (rule cm_step_trans [OF st registered_step [OF _ r(2)]]) (use st in \<open>simp add: cm_step_def\<close>)
    moreover have "free_content ?dir w2 = free_content ?dir w"
      using r(2) chk inv(3) by (simp add: registered_def checked_def)
    moreover have "store_entry ?dir w2 \<subseteq>\<^sub>m store_entry ?dir w"
      using registered_shrinks [OF r(2)] inv(3) chk map_le_trans by (fastforce simp: checked_def)
    ultimately have "checked g (cm, w) (ns @ [n]) (True, cm1\<lparr>cm_gitDirectory := d2\<rparr>, w2)"
      using keep self git(2) by (auto simp: checked_def)
    then show ?thesis using eq by blast
  qed
qed

lemma check_outputs:
  assumes "cm_inv (cm, w)" and "cm_usable cm" and "distinct ns" and "\<forall>n \<in> set ns. valid_hash (n_hash (g_node g n))"
  shows "\<exists>s. foldM (check_output g) ns (True, cm, w) = Inr s \<and> checked g (cm, w) ns s"
proof (rule foldM_total)
  show "checked g (cm, w) [] (True, cm, w)" using assms(1) by (simp add: checked_def cm_step_refl)
  fix xs x rest s assume "ns = xs @ x # rest" and "checked g (cm, w) xs s"
  then show "\<exists>s'. check_output g x s = Inr s' \<and> checked g (cm, w) (xs @ [x]) s'"
    using check_output_step [of g cm w xs "fst s" "fst (snd s)" "snd (snd s)" x] assms(2-4) by auto
qed

text \<open>The second loop reads entries that are all there: it is the loop of the content store.\<close>

lemma read_outputs:
  assumes ok: "store_ok (cm_cacheFs cm) w"
    and out: "distinct (map (\<lambda>n. n_path (g_node g n)) ns)"
      "\<forall>n \<in> set ns. valid_hash (n_hash (g_node g n)) \<and> free_path (cm_cacheFs cm) (n_path (g_node g n)) \<and>
         file_writable w (n_path (g_node g n)) \<and> store_entry (cm_cacheFs cm) w (n_hash (g_node g n)) \<noteq> None"
  shows "\<exists>w'. foldM (read_output g) ns (True, cm, w) = Inr (True, cm, w') \<and> store_ok (cm_cacheFs cm) w' \<and>
           store_entry (cm_cacheFs cm) w' = store_entry (cm_cacheFs cm) w \<and>
           (\<forall>q. file_writable w q \<and> free_path (cm_cacheFs cm) q \<longrightarrow> file_writable w' q) \<and>
           (\<forall>n \<in> set ns. free_content (cm_cacheFs cm) w' (n_path (g_node g n)) = store_entry (cm_cacheFs cm) w (n_hash (g_node g n))) \<and>
           (\<forall>p. p \<notin> (\<lambda>n. n_path (g_node g n)) ` set ns \<longrightarrow> free_content (cm_cacheFs cm) w' p = free_content (cm_cacheFs cm) w p)"
proof -
  let ?dir = "cm_cacheFs cm" and ?hp = "\<lambda>n. (n_hash (g_node g n), n_path (g_node g n))"
  have loop: "foldM (read_output g) ms (b, cm, v)
      = rbind (foldM (fs_store.restore ?dir) (map ?hp ms) (b, v)) (\<lambda>(b, v). Inr (b, cm, v))" for ms b v
  proof (induction ms arbitrary: b v)
    case (Cons m ms)
    show ?case
    proof (cases b)
      case False
      then show ?thesis using Cons [of False v] by (simp add: read_output_def fs_store.restore_def)
    next
      case True
      then show ?thesis
        using Cons by (cases "readEntry ?dir (n_hash (g_node g m)) (n_path (g_node g m)) v")
          (auto simp: read_output_def fs_store.restore_def)
    qed
  qed simp
  have "\<exists>w'. foldM (fs_store.restore ?dir) (map ?hp ns) (True, w) = Inr (True, w') \<and> store_ok ?dir w' \<and>
      store_entry ?dir w' = store_entry ?dir w \<and> (\<forall>q. file_writable w q \<and> free_path ?dir q \<longrightarrow> file_writable w' q \<and> free_path ?dir q) \<and>
      (\<forall>(h, p) \<in> set (map ?hp ns). free_content ?dir w' p = store_entry ?dir w h) \<and>
      (\<forall>q. q \<notin> snd ` set (map ?hp ns) \<longrightarrow> free_content ?dir w' q = free_content ?dir w q)"
    by (rule fs_store.restore_all [OF ok]) (use out in \<open>auto simp: comp_def\<close>)
  then show ?thesis unfolding loop by (auto simp: image_image)
qed

text \<open>Between the two loops: the registration of the rule cannot remove an output that was checked.\<close>

lemma restore_register:
  assumes chk: "checked g (cm, w) ns (True, cm1, w1)" and use: "cm_usable cm" and h: "valid_hash h"
  shows "\<exists>cm2 w2. (if cm_policy cm1 = CACHE_GIT_REFS then git_registerRule h r (cm1, w1) else Inr (cm1, w1)) = Inr (cm2, w2) \<and>
      cm_step (cm, w) (cm2, w2) \<and> free_content (cm_cacheFs cm) w2 = free_content (cm_cacheFs cm) w \<and>
      store_entry (cm_cacheFs cm) w2 \<subseteq>\<^sub>m store_entry (cm_cacheFs cm) w \<and>
      (\<forall>n \<in> set ns. store_entry (cm_cacheFs cm) w2 (n_hash (g_node g n)) = store_entry (cm_cacheFs cm) w (n_hash (g_node g n)) \<and>
         store_entry (cm_cacheFs cm) w (n_hash (g_node g n)) \<noteq> None)"
proof -
  let ?dir = "cm_cacheFs cm"
  have st: "cm_step (cm, w) (cm1, w1)" using chk by (simp add: checked_def)
  have keep: "store_entry ?dir w2 x = store_entry ?dir w x \<and> store_entry ?dir w x \<noteq> None"
    if "store_entry ?dir w2 \<subseteq>\<^sub>m store_entry ?dir w1" "store_entry ?dir w2 x \<noteq> None" for w2 x
  proof -
    have "store_entry ?dir w2 \<subseteq>\<^sub>m store_entry ?dir w" using that(1) chk map_le_trans by (fastforce simp: checked_def)
    then show ?thesis using that(2) unfolding map_le_def by (metis domIff)
  qed
  show ?thesis
  proof (cases "cm_policy cm1 = CACHE_GIT_REFS")
    case git: True
    have c1: "store_ok ?dir w1" "git_inv (cm_gitDirectory cm1)" "d_cacheDir (cm_gitDirectory cm1) = ?dir"
      "cm_policy cm = CACHE_GIT_REFS" "cm_inv (cm1, w1)"
      using st git by (auto simp: cm_step_def cm_inv_def)
    have ref: "isInRef (cm_gitDirectory cm1)" using use cm_step_usable [OF st] git by (simp add: cm_usable_def)
    obtain d2 w2 where r2: "registerRule h r (cm_gitDirectory cm1) w1 = Inr (d2, w2)"
      "registered (Inr r, d_currentGitRef (cm_gitDirectory cm1)) h (cm_gitDirectory cm1, w1) (d2, w2)"
      using registerRule_correct [OF c1(2) ref h, of w1 r] c1(1,3) by auto
    have "store_entry ?dir w2 (n_hash (g_node g n)) \<noteq> None" if "n \<in> set ns" for n
    proof -
      have k: "cm_key cm1 (Inl n) = Some (n_hash (g_node g n))" "store_entry ?dir w1 (n_hash (g_node g n)) \<noteq> None"
        using chk c1(4) that by (auto simp: checked_def)
      from registered_keeps(2) [OF r2(2) k(1)] k(2) show ?thesis by (simp add: c1(3))
    qed
    moreover have "store_entry ?dir w2 \<subseteq>\<^sub>m store_entry ?dir w1" using registered_shrinks [OF r2(2)] by (simp add: c1(3))
    moreover have "free_content ?dir w2 = free_content ?dir w" using r2(2) chk c1(3) by (simp add: registered_def checked_def)
    moreover have "store_entry ?dir w2 \<subseteq>\<^sub>m store_entry ?dir w"
      using calculation(2) chk map_le_trans by (fastforce simp: checked_def)
    ultimately show ?thesis
      using git r2(1) keep cm_step_trans [OF st registered_step [OF c1(5) r2(2)]] by (auto simp: git_registerRule_def)
  next
    case False
    have "store_entry ?dir w1 (n_hash (g_node g n)) \<noteq> None" if "n \<in> set ns" for n
      using chk that by (auto simp: checked_def)
    moreover have "free_content ?dir w1 = free_content ?dir w" "store_entry ?dir w1 \<subseteq>\<^sub>m store_entry ?dir w" using chk by (simp_all add: checked_def)
    ultimately show ?thesis using False st keep [of w1] by auto
  qed
qed

lemma restoreRule_correct:
  assumes inv: "cm_inv (cm, w)" and use: "cm_usable cm" and out: "outputs_ok g r (cm_cacheFs cm) w"
    and phony: "\<not> Rule_isPhony g r"
  shows "\<exists>b cm' w'. restoreRule g r (cm, w) = Inr (b, cm', w') \<and> cm_step (cm, w) (cm', w') \<and>
      store_entry (cm_cacheFs cm) w' \<subseteq>\<^sub>m store_entry (cm_cacheFs cm) w \<and>
      (b \<longrightarrow> (\<forall>n \<in> set (r_outputs (g_rule g r)). store_entry (cm_cacheFs cm) w (n_hash (g_node g n)) \<noteq> None \<and>
               free_content (cm_cacheFs cm) w' (n_path (g_node g n)) = store_entry (cm_cacheFs cm) w (n_hash (g_node g n)))) \<and>
      (\<forall>p. \<not> b \<or> p \<notin> (\<lambda>n. n_path (g_node g n)) ` set (r_outputs (g_rule g r)) \<longrightarrow> free_content (cm_cacheFs cm) w' p = free_content (cm_cacheFs cm) w p) \<and>
      (cm_policy cm \<noteq> CACHE_GIT_REFS \<longrightarrow>
         (b \<longleftrightarrow> (\<forall>n \<in> set (r_outputs (g_rule g r)). store_entry (cm_cacheFs cm) w (n_hash (g_node g n)) \<noteq> None)))"
proof -
  let ?ns = "r_outputs (g_rule g r)" and ?dir = "cm_cacheFs cm"
  have o: "distinct ?ns" "\<forall>n \<in> set ?ns. valid_hash (n_hash (g_node g n))" "valid_hash (r_hashDepfile (g_rule g r))"
    "distinct (map (\<lambda>n. n_path (g_node g n)) ?ns)"
    "\<forall>n \<in> set ?ns. free_path ?dir (n_path (g_node g n)) \<and> file_writable w (n_path (g_node g n))"
    using out by (auto simp: outputs_ok_def)
  obtain b cm1 w1 where chk: "foldM (check_output g) ?ns (True, cm, w) = Inr (b, cm1, w1)" "checked g (cm, w) ?ns (b, cm1, w1)"
    using check_outputs [OF inv use o(1,2)] by auto
  show ?thesis
  proof (cases b)
    case False
    then have "restoreRule g r (cm, w) = Inr (False, cm1, w1)" using chk(1) phony by (simp add: restoreRule_def)
    moreover have "cm_step (cm, w) (cm1, w1)" "store_entry ?dir w1 \<subseteq>\<^sub>m store_entry ?dir w" "free_content ?dir w1 = free_content ?dir w"
      "cm_policy cm \<noteq> CACHE_GIT_REFS \<longrightarrow> (b \<longleftrightarrow> (\<forall>n \<in> set ?ns. store_entry ?dir w (n_hash (g_node g n)) \<noteq> None))"
      using chk(2) by (simp_all add: checked_def)
    ultimately show ?thesis using False by (intro exI [of _ False] exI [of _ cm1] exI [of _ w1]) simp
  next
    case True
    obtain cm2 w2 where s2: "(if cm_policy cm1 = CACHE_GIT_REFS
        then git_registerRule (r_hashDepfile (g_rule g r)) r (cm1, w1) else Inr (cm1, w1)) = Inr (cm2, w2)"
      "cm_step (cm, w) (cm2, w2)"
      "\<forall>n \<in> set ?ns. store_entry ?dir w2 (n_hash (g_node g n)) = store_entry ?dir w (n_hash (g_node g n)) \<and>
         store_entry ?dir w (n_hash (g_node g n)) \<noteq> None"
      "free_content ?dir w2 = free_content ?dir w" "store_entry ?dir w2 \<subseteq>\<^sub>m store_entry ?dir w"
      using restore_register [OF _ use o(3), of g w ?ns cm1 w1 r] chk(2) True by auto
    then have c2: "cm_cacheFs cm2 = ?dir" "store_ok (cm_cacheFs cm2) w2" "git_inv (cm_gitDirectory cm2)"
      "d_cacheDir (cm_gitDirectory cm2) = ?dir" "\<forall>q. file_writable w q \<and> free_path ?dir q \<longrightarrow> file_writable w2 q"
      by (auto simp: cm_step_def cm_inv_def)
    obtain w3 where w3: "foldM (read_output g) ?ns (True, cm2, w2) = Inr (True, cm2, w3)" "store_ok ?dir w3"
      "store_entry ?dir w3 = store_entry ?dir w2" "\<forall>q. file_writable w2 q \<and> free_path ?dir q \<longrightarrow> file_writable w3 q"
      "\<forall>n \<in> set ?ns. free_content ?dir w3 (n_path (g_node g n)) = store_entry ?dir w2 (n_hash (g_node g n))"
      "\<forall>p. p \<notin> (\<lambda>n. n_path (g_node g n)) ` set ?ns \<longrightarrow> free_content ?dir w3 p = free_content ?dir w2 p"
      using read_outputs [OF c2(2) o(4)] o(2,5) c2(5) s2(3) unfolding c2(1) by metis
    have "restoreRule g r (cm, w) = Inr (True, cm2, w3)"
      using chk(1) phony True s2(1) w3(1) by (simp add: restoreRule_def)
    moreover have "cm_step (cm, w) (cm2, w3)" using s2(2) c2 w3(2,4) by (auto simp: cm_step_def cm_inv_def)
    ultimately show ?thesis using s2(3-5) w3(3,5,6) by (intro exI [of _ True] exI [of _ cm2] exI [of _ w3]) auto
  qed
qed

text \<open>Without the git policy the manager itself does not change.\<close>

lemma restoreRule_plain:
  assumes "restoreRule g r (cm, w) = Inr (b, cm', w')" and "cm_policy cm \<noteq> CACHE_GIT_REFS"
  shows "cm' = cm"
proof -
  let ?P = "\<lambda>s :: bool \<times> cstate. fst (snd s) = cm"
  have chk: "?P s'" if "foldM (check_output g) ns s = Inr s'" "?P s" for ns s s'
    using that by (rule foldM_inv) (auto simp: check_output_def rbind_eq_Inr assms(2) split: if_splits)
  have rd: "?P s'" if "foldM (read_output g) ns s = Inr s'" "?P s" for ns s s'
    using that by (rule foldM_inv) (auto simp: read_output_def rbind_eq_Inr split: if_splits)
  show ?thesis
    using assms by (auto simp: restoreRule_def rbind_eq_Inr split: if_splits dest!: chk rd)
qed

section \<open>Saving\<close>

text \<open>A file can be saved under a hash: it exists outside of the cache and the hash is usable.\<close>

definition savable :: "string \<Rightarrow> world \<Rightarrow> string \<Rightarrow> string \<Rightarrow> bool" where
  "savable dir w h p \<longleftrightarrow> valid_hash h \<and> free_path dir p \<and> free_content dir w p \<noteq> None"

text \<open>The content of the store after the files of the nodes \<open>ns\<close> were added: the first write of a hash counts.\<close>

definition add_nodes :: "graph \<Rightarrow> (string \<Rightarrow> string option) \<Rightarrow> nid list \<Rightarrow> (string \<Rightarrow> string option) \<Rightarrow> (string \<Rightarrow> string option)" where
  "add_nodes g file_of = fold (\<lambda>n E. if E (n_hash (g_node g n)) = None
     then E(n_hash (g_node g n) := file_of (n_path (g_node g n))) else E)"

text \<open>Where the entries of the store come from.\<close>

definition stores :: "graph \<Rightarrow> string \<Rightarrow> world \<Rightarrow> nid list \<Rightarrow> world \<Rightarrow> bool" where
  "stores g dir w ns w' \<longleftrightarrow> (\<forall>h c. store_entry dir w' h = Some c \<longrightarrow> store_entry dir w h = Some c \<or>
     (\<exists>n \<in> set ns. h = n_hash (g_node g n) \<and> free_content dir w (n_path (g_node g n)) = Some c))"

lemma stores_le: "stores g dir w ns w1 \<Longrightarrow> store_entry dir w2 \<subseteq>\<^sub>m store_entry dir w1 \<Longrightarrow> stores g dir w ns w2"
  unfolding stores_def map_le_def dom_def by (metis (mono_tags, lifting) mem_Collect_eq option.distinct(1))

definition saved :: "graph \<Rightarrow> cstate \<Rightarrow> nid list \<Rightarrow> cstate \<Rightarrow> bool" where
  "saved g = (\<lambda>(cm, w) ns (cm', w').
     cm_step (cm, w) (cm', w') \<and> free_content (cm_cacheFs cm) w' = free_content (cm_cacheFs cm) w \<and>
     stores g (cm_cacheFs cm) w ns w' \<and>
     (cm_policy cm \<noteq> CACHE_GIT_REFS \<longrightarrow> cm' = cm \<and>
        store_entry (cm_cacheFs cm) w' = add_nodes g (free_content (cm_cacheFs cm) w) ns (store_entry (cm_cacheFs cm) w)))"

lemma saveNode_step:
  assumes sv: "saved g (cm, w) ns (cm1, w1)" and use: "cm_usable cm"
    and n: "savable (cm_cacheFs cm) w (n_hash (g_node g n)) (n_path (g_node g n))"
  shows "\<exists>s'. saveNode g n (cm1, w1) = Inr (True, s') \<and> saved g (cm, w) (ns @ [n]) s'"
proof -
  let ?h = "n_hash (g_node g n)" and ?p = "n_path (g_node g n)" and ?dir = "cm_cacheFs cm"
  have st: "cm_step (cm, w) (cm1, w1)" using sv by (simp add: saved_def)
  then have inv: "store_ok ?dir w1" "git_inv (cm_gitDirectory cm1)" "d_cacheDir (cm_gitDirectory cm1) = ?dir"
      "cm_cacheFs cm1 = ?dir" "cm_policy cm1 = cm_policy cm" and use1: "cm_usable cm1"
    using use cm_step_usable [OF st] by (auto simp: cm_step_def cm_inv_def)
  have h: "valid_hash ?h" "free_path ?dir ?p" using n by (auto simp: savable_def)
  obtain c where c: "free_content ?dir w1 ?p = Some c" using n sv by (auto simp: savable_def saved_def)
  obtain w2 where w2: "writeEntry ?dir ?h ?p w1 = Inr (True, w2)" "store_ok ?dir w2" "free_content ?dir w2 = free_content ?dir w1"
      "\<forall>q. file_writable w1 q \<and> free_path ?dir q \<longrightarrow> file_writable w2 q"
      "store_entry ?dir w2 = (if store_entry ?dir w1 ?h = None then (store_entry ?dir w1)(?h \<mapsto> c) else store_entry ?dir w1)"
    using fs_store.put [OF inv(1) h c] by blast
  have st2: "cm_step (cm, w) (cm1, w2)" using st w2(2,4) inv by (auto simp: cm_step_def cm_inv_def)
  have free: "free_content ?dir w2 = free_content ?dir w" using w2(3) sv by (simp add: saved_def)
  have c0: "free_content ?dir w ?p = Some c" "stores g ?dir w ns w1" using c sv by (simp_all add: saved_def)
  have origin: "stores g ?dir w (ns @ [n]) w2" unfolding stores_def
  proof (intro allI impI)
    fix h' c' assume h': "store_entry ?dir w2 h' = Some c'"
    then have "store_entry ?dir w1 h' = Some c' \<or> h' = ?h \<and> c' = c" using w2(5) by (auto split: if_splits)
    then show "store_entry ?dir w h' = Some c' \<or> (\<exists>m \<in> set (ns @ [n]). h' = n_hash (g_node g m) \<and> free_content ?dir w (n_path (g_node g m)) = Some c')"
      using c0 unfolding stores_def by (metis UnI1 UnI2 list.set_intros(1) set_append)
  qed
  show ?thesis
  proof (cases "cm_policy cm = CACHE_GIT_REFS")
    case True
    have ref: "isInRef (cm_gitDirectory cm1)" using use1 True inv(5) by (simp add: cm_usable_def)
    obtain d3 w3 where r: "registerNode ?h n (cm_gitDirectory cm1) w2 = Inr (d3, w3)"
      "registered (Inl n, d_currentGitRef (cm_gitDirectory cm1)) ?h (cm_gitDirectory cm1, w2) (d3, w3)"
      using registerNode_correct [OF inv(2) ref h(1), of w2 n] w2(2) inv(3) by auto
    have "cm_step (cm, w) (cm1\<lparr>cm_gitDirectory := d3\<rparr>, w3)"
      by (rule cm_step_trans [OF st2 registered_step [OF _ r(2)]]) (use st2 in \<open>simp add: cm_step_def\<close>)
    moreover have "free_content ?dir w3 = free_content ?dir w" using r(2) free inv(3) by (simp add: registered_def)
    moreover have "stores g ?dir w (ns @ [n]) w3" using stores_le [OF origin] registered_shrinks [OF r(2)] inv(3) by simp
    ultimately show ?thesis
      using w2(1) r(1) True inv(4,5) by (auto simp: saveNode_def git_registerNode_def saved_def)
  next
    case False
    then have "cm1 = cm" using sv by (simp add: saved_def)
    moreover have "store_entry ?dir w2 = add_nodes g (free_content ?dir w) (ns @ [n]) (store_entry ?dir w)"
      using w2(5) sv False c by (auto simp: saved_def add_nodes_def)
    moreover have "saveNode g n (cm1, w1) = Inr (True, cm1, w2)"
      using w2(1) False inv(4,5) by (simp add: saveNode_def)
    ultimately show ?thesis using st2 free False origin by (simp add: saved_def)
  qed
qed

lemma save_nodes:
  assumes "cm_inv (cm, w)" and "cm_usable cm"
    and "\<forall>n \<in> set ns. savable (cm_cacheFs cm) w (n_hash (g_node g n)) (n_path (g_node g n))"
  shows "\<exists>s. foldM (\<lambda>n s. rbind (saveNode g n s) (\<lambda>(_, s). Inr s)) ns (cm, w) = Inr s \<and> saved g (cm, w) ns s"
proof (rule foldM_total)
  show "saved g (cm, w) [] (cm, w)" using assms(1) by (simp add: saved_def cm_step_refl add_nodes_def stores_def)
  fix xs x rest s assume "ns = xs @ x # rest" and "saved g (cm, w) xs s"
  then obtain s' where "saveNode g x s = Inr (True, s')" "saved g (cm, w) (xs @ [x]) s'"
    using saveNode_step [of g cm w xs "fst s" "snd s" x] assms(2,3) by auto
  then show "\<exists>s'. rbind (saveNode g x s) (\<lambda>(_, s). Inr s) = Inr s' \<and> saved g (cm, w) (xs @ [x]) s'" by auto
qed

lemma add_nodes_other: "h \<notin> (\<lambda>n. n_hash (g_node g n)) ` set ns \<Longrightarrow> add_nodes g F ns E h = E h"
  by (induction ns arbitrary: E) (auto simp: add_nodes_def)

lemma add_nodes_fresh:
  assumes "distinct (map (\<lambda>n. n_hash (g_node g n)) ns)" and "n \<in> set ns" and "E (n_hash (g_node g n)) = None"
  shows "add_nodes g F ns E (n_hash (g_node g n)) = F (n_path (g_node g n))"
  using assms
proof (induction ns arbitrary: E)
  case (Cons m ns)
  have step: "add_nodes g F (m # ns) E = add_nodes g F ns (if E (n_hash (g_node g m)) = None
      then E(n_hash (g_node g m) := F (n_path (g_node g m))) else E)" by (simp add: add_nodes_def)
  show ?case
  proof (cases "n = m")
    case True
    have "n_hash (g_node g m) \<notin> (\<lambda>n. n_hash (g_node g n)) ` set ns" using Cons.prems(1) by auto
    then show ?thesis using True Cons.prems(3) by (simp add: step add_nodes_other)
  next
    case False
    then have n: "n \<in> set ns" using Cons.prems(2) by simp
    then have "n_hash (g_node g n) \<noteq> n_hash (g_node g m)" using Cons.prems(1) by (auto simp: image_iff)
    then show ?thesis using Cons.IH Cons.prems n by (simp add: step)
  qed
qed simp

text \<open>The rule can be saved: its outputs exist, and its depfile if it has one.\<close>

definition rule_savable :: "graph \<Rightarrow> rid \<Rightarrow> string \<Rightarrow> world \<Rightarrow> bool" where
  "rule_savable g r dir w \<longleftrightarrow>
     (\<forall>n \<in> set (r_outputs (g_rule g r)). savable dir w (n_hash (g_node g n)) (n_path (g_node g n))) \<and>
     valid_hash (r_hashDepfile (g_rule g r)) \<and>
     (Rule_hasDepfile g r \<longrightarrow> savable dir w (r_hashDepfile (g_rule g r)) (r_depfile (g_rule g r)))"

lemma save_depfile:
  assumes st: "cm_step (cm, w) (cm1, w1)" and free: "free_content (cm_cacheFs cm) w1 = free_content (cm_cacheFs cm) w"
    and r: "rule_savable g r (cm_cacheFs cm) w"
  shows "\<exists>w2. (if Rule_hasDepfile g r
        then rbind (writeEntry (cm_cacheFs cm1) (r_hashDepfile (g_rule g r)) (r_depfile (g_rule g r)) w1) (\<lambda>(_, w). Inr (cm1, w))
        else Inr (cm1, w1)) = Inr (cm1, w2) \<and> cm_step (cm, w) (cm1, w2) \<and>
      free_content (cm_cacheFs cm) w2 = free_content (cm_cacheFs cm) w \<and>
      store_entry (cm_cacheFs cm) w1 \<subseteq>\<^sub>m store_entry (cm_cacheFs cm) w2 \<and> (\<not> Rule_hasDepfile g r \<longrightarrow> w2 = w1)"
proof (cases "Rule_hasDepfile g r")
  case True
  let ?dir = "cm_cacheFs cm" and ?h = "r_hashDepfile (g_rule g r)" and ?p = "r_depfile (g_rule g r)"
  have i1: "store_ok ?dir w1" "cm_cacheFs cm1 = ?dir" using st by (auto simp: cm_step_def cm_inv_def)
  from True r free obtain c where c: "valid_hash ?h" "free_path ?dir ?p" "free_content ?dir w1 ?p = Some c"
    by (auto simp: rule_savable_def savable_def)
  obtain w2 where w2: "writeEntry ?dir ?h ?p w1 = Inr (True, w2)" "store_ok ?dir w2"
      "free_content ?dir w2 = free_content ?dir w1" "\<forall>q. file_writable w1 q \<and> free_path ?dir q \<longrightarrow> file_writable w2 q"
      "store_entry ?dir w2 = (if store_entry ?dir w1 ?h = None then (store_entry ?dir w1)(?h \<mapsto> c) else store_entry ?dir w1)"
    using fs_store.put [OF i1(1) c] by blast
  have "store_entry ?dir w1 \<subseteq>\<^sub>m store_entry ?dir w2" unfolding w2(5) by (auto simp: map_le_def)
  moreover have "cm_step (cm, w) (cm1, w2)" using st w2(2,4) i1 by (auto simp: cm_step_def cm_inv_def)
  ultimately show ?thesis using True w2(1,3) i1(2) free by simp
qed (use assms in simp)

lemma save_register:
  assumes st: "cm_step (cm, w) (cm1, w1)" and use: "cm_usable cm" and h: "valid_hash h" and git: "cm_policy cm = CACHE_GIT_REFS"
  shows "\<exists>s'. git_registerRule h r (cm1, w1) = Inr s' \<and> cm_step (cm, w) s' \<and>
      free_content (cm_cacheFs cm) (snd s') = free_content (cm_cacheFs cm) w1 \<and>
      store_entry (cm_cacheFs cm) (snd s') \<subseteq>\<^sub>m store_entry (cm_cacheFs cm) w1"
proof -
  have i: "git_inv (cm_gitDirectory cm1)" "d_cacheDir (cm_gitDirectory cm1) = cm_cacheFs cm" "store_ok (cm_cacheFs cm) w1"
    "cm_inv (cm1, w1)" "cm_policy cm1 = cm_policy cm" using st by (auto simp: cm_step_def cm_inv_def)
  have ref: "isInRef (cm_gitDirectory cm1)" using use cm_step_usable [OF st] git i(5) by (simp add: cm_usable_def)
  obtain d3 w3 where r3: "registerRule h r (cm_gitDirectory cm1) w1 = Inr (d3, w3)"
    "registered (Inr r, d_currentGitRef (cm_gitDirectory cm1)) h (cm_gitDirectory cm1, w1) (d3, w3)"
    using registerRule_correct [OF i(1) ref h, of w1 r] i(2,3) by auto
  have "free_content (cm_cacheFs cm) w3 = free_content (cm_cacheFs cm) w1" using r3(2) i(2) by (simp add: registered_def)
  moreover have "store_entry (cm_cacheFs cm) w3 \<subseteq>\<^sub>m store_entry (cm_cacheFs cm) w1" using registered_shrinks [OF r3(2)] i(2) by simp
  ultimately show ?thesis
    using r3(1) cm_step_trans [OF st registered_step [OF i(4) r3(2)]] by (auto simp: git_registerRule_def)
qed

lemma saveRule_correct:
  assumes inv: "cm_inv (cm, w)" and r: "rule_savable g r (cm_cacheFs cm) w" and phony: "\<not> Rule_isPhony g r"
  shows "\<exists>cm' w'. saveRule g r (cm, w) = Inr (cm', w') \<and> cm_step (cm, w) (cm', w') \<and>
      free_content (cm_cacheFs cm) w' = free_content (cm_cacheFs cm) w \<and>
      (\<not> Rule_hasDepfile g r \<longrightarrow> stores g (cm_cacheFs cm) w (r_outputs (g_rule g r)) w') \<and>
      (cm_policy cm \<noteq> CACHE_GIT_REFS \<longrightarrow> cm' = cm \<and>
         add_nodes g (free_content (cm_cacheFs cm) w) (r_outputs (g_rule g r)) (store_entry (cm_cacheFs cm) w)
           \<subseteq>\<^sub>m store_entry (cm_cacheFs cm) w')"
proof (cases "cm_usable cm")
  case False
  then have "saveRule g r (cm, w) = Inr (cm, w)" using phony by (simp add: saveRule_def cm_usable_def)
  then show ?thesis using False cm_step_refl [OF inv] by (simp add: cm_usable_def stores_def)
next
  case use: True
  let ?dir = "cm_cacheFs cm" and ?h = "r_hashDepfile (g_rule g r)" and ?ns = "r_outputs (g_rule g r)"
  have ns: "\<forall>n \<in> set ?ns. savable ?dir w (n_hash (g_node g n)) (n_path (g_node g n))" and h: "valid_hash ?h"
    using r by (simp_all add: rule_savable_def)
  obtain s1 where "foldM (\<lambda>n s. rbind (saveNode g n s) (\<lambda>(_, s). Inr s)) ?ns (cm, w) = Inr s1" "saved g (cm, w) ?ns s1"
    using save_nodes [OF inv use ns] by blast
  then obtain cm1 w1 where s1: "foldM (\<lambda>n s. rbind (saveNode g n s) (\<lambda>(_, s). Inr s)) ?ns (cm, w) = Inr (cm1, w1)"
      "saved g (cm, w) ?ns (cm1, w1)" by (cases s1) simp
  have st1: "cm_step (cm, w) (cm1, w1)" "free_content ?dir w1 = free_content ?dir w" "cm_policy cm1 = cm_policy cm"
    using s1(2) by (auto simp: saved_def cm_step_def)
  obtain w2 where w2: "(if Rule_hasDepfile g r
        then rbind (writeEntry (cm_cacheFs cm1) ?h (r_depfile (g_rule g r)) w1) (\<lambda>(_, w). Inr (cm1, w))
        else Inr (cm1, w1)) = Inr (cm1, w2)" "cm_step (cm, w) (cm1, w2)" "free_content ?dir w2 = free_content ?dir w"
      "store_entry ?dir w1 \<subseteq>\<^sub>m store_entry ?dir w2" "\<not> Rule_hasDepfile g r \<longrightarrow> w2 = w1"
    using save_depfile [OF st1(1,2) r] by blast
  have origin: "\<not> Rule_hasDepfile g r \<longrightarrow> stores g ?dir w ?ns w2" using s1(2) w2(5) by (auto simp: saved_def)
  have eq: "saveRule g r (cm, w) = (if cm_policy cm = CACHE_GIT_REFS then git_registerRule ?h r (cm1, w2) else Inr (cm1, w2))"
    using phony use s1(1) w2(1) st1(3) by (simp add: saveRule_def cm_usable_def)
  show ?thesis
  proof (cases "cm_policy cm = CACHE_GIT_REFS")
    case True
    then obtain cm3 w3 where "git_registerRule ?h r (cm1, w2) = Inr (cm3, w3)" "cm_step (cm, w) (cm3, w3)"
        "free_content ?dir w3 = free_content ?dir w2" "store_entry ?dir w3 \<subseteq>\<^sub>m store_entry ?dir w2"
      using save_register [OF w2(2) use h True, of r] by auto
    then show ?thesis using eq w2(3) True origin stores_le [of g ?dir w ?ns w2 w3] by simp
  next
    case False
    then have "cm1 = cm" "store_entry ?dir w1 = add_nodes g (free_content ?dir w) ?ns (store_entry ?dir w)"
      using s1(2) by (simp_all add: saved_def)
    then show ?thesis using eq False w2(2-4) origin by simp
  qed
qed

section \<open>Properties\<close>

text \<open>An example: a rule that builds one file, whose hash is in the cache.\<close>

definition cached_graph :: graph where
  "cached_graph = chain_graph\<lparr>
     g_node := (g_node chain_graph)(2 := (chain_node ''out/o'' (Some 1) [2])\<lparr>n_hash := ''h1''\<rparr>),
     g_rule := (g_rule chain_graph)(1 := (chain_rule [1] [2])\<lparr>r_hashDepfile := ''h2''\<rparr>)\<rparr>"

definition example_cm :: cache_manager where
  "example_cm = \<lparr>cm_policy = CACHE_GIT_REFS, cm_workingDirectory = ''r'', cm_cacheFs = ''cache'',
     cm_gitDirectory = updateRef example_git (CacheGitDirectory ''r'' ''cache'')\<rparr>"

lemma example_cm_ok: "cm_inv (example_cm, example_world)" "cm_usable example_cm"
  using git_history_inv [OF example_history(1)] example_history(2)
  by (auto simp: cm_inv_def cm_usable_def example_cm_def)

lemma example_dirname: "dirname ''out/o'' = ''out''"
  using dirname_join [of "''out''" "''o''" 0] by simp

lemma example_outputs: "outputs_ok cached_graph 1 (cm_cacheFs example_cm) example_world" "\<not> Rule_isPhony cached_graph 1"
  by (auto simp: outputs_ok_def cached_graph_def chain_defs example_cm_def example_world_def valid_hash_def free_path_def
      example_dirname file_writable_def creatable_def isDir_def Rule_isPhony_def)

text \<open>C21. \<open>CacheManager::restoreRule\<close> is all or nothing. On a manager in a consistent state (and on a
  git reference when the policy needs one) it returns; when it answers true, every output of the
  rule holds the content that the cache had for its hash; no other file outside of the cache changes, and
  when it answers false, none does. Without the git policy it answers true exactly when all outputs are in the
  cache.\<close>

theorem restoreRule_all_or_nothing:
  assumes "cm_inv (cm, w)" and "cm_usable cm" and "outputs_ok g r (cm_cacheFs cm) w" and "\<not> Rule_isPhony g r"
  shows "\<exists>b cm' w'. restoreRule g r (cm, w) = Inr (b, cm', w') \<and> cm_inv (cm', w') \<and>
      (b \<longrightarrow> (\<forall>n \<in> set (r_outputs (g_rule g r)). store_entry (cm_cacheFs cm) w (n_hash (g_node g n)) \<noteq> None \<and>
               content w' (n_path (g_node g n)) = store_entry (cm_cacheFs cm) w (n_hash (g_node g n)))) \<and>
      (\<forall>p. \<not> b \<or> p \<notin> (\<lambda>n. n_path (g_node g n)) ` set (r_outputs (g_rule g r)) \<longrightarrow>
         free_content (cm_cacheFs cm) w' p = free_content (cm_cacheFs cm) w p) \<and>
      (cm_policy cm \<noteq> CACHE_GIT_REFS \<longrightarrow>
         (b \<longleftrightarrow> (\<forall>n \<in> set (r_outputs (g_rule g r)). store_entry (cm_cacheFs cm) w (n_hash (g_node g n)) \<noteq> None)))"
proof -
  have "content w' (n_path (g_node g n)) = free_content (cm_cacheFs cm) w' (n_path (g_node g n))" if "n \<in> set (r_outputs (g_rule g r))" for n w'
    using assms(3) that by (simp add: outputs_ok_def free_content_def)
  then show ?thesis using restoreRule_correct [OF assms] by (auto simp: cm_step_def)
qed

theorem restoreRule_all_or_nothing_witness:
  "\<exists>b cm' w'. restoreRule cached_graph 1 (example_cm, example_world) = Inr (b, cm', w') \<and> cm_inv (cm', w')"
  using restoreRule_all_or_nothing [OF example_cm_ok example_outputs] by blast

text \<open>C22. \<open>CacheManager::saveRule\<close> never fails on a rule whose outputs (and depfile) exist, on a
  reference or in detached state, and changes no file outside of the cache. Without the git policy,
  what was saved under hashes the cache did not have comes back: \<open>restoreRule\<close> answers true in any
  later state of the disk with the same cache and writes the contents the files had when they were
  saved.\<close>

theorem save_restore_roundtrip:
  assumes "cm_inv (cm, w)" and "rule_savable g r (cm_cacheFs cm) w" and "\<not> Rule_isPhony g r"
  shows "\<exists>cm1 w1. saveRule g r (cm, w) = Inr (cm1, w1) \<and> cm_inv (cm1, w1) \<and>
      free_content (cm_cacheFs cm) w1 = free_content (cm_cacheFs cm) w \<and>
      (\<forall>w2. cm_policy cm \<noteq> CACHE_GIT_REFS \<and> distinct (map (\<lambda>n. n_hash (g_node g n)) (r_outputs (g_rule g r))) \<and>
         (\<forall>n \<in> set (r_outputs (g_rule g r)). store_entry (cm_cacheFs cm) w (n_hash (g_node g n)) = None) \<and>
         store_ok (cm_cacheFs cm) w2 \<and> store_entry (cm_cacheFs cm) w2 = store_entry (cm_cacheFs cm) w1 \<and>
         outputs_ok g r (cm_cacheFs cm) w2 \<longrightarrow>
         (\<exists>w3. restoreRule g r (cm1, w2) = Inr (True, cm1, w3) \<and>
            (\<forall>n \<in> set (r_outputs (g_rule g r)). content w3 (n_path (g_node g n)) = content w (n_path (g_node g n)))))"
proof -
  let ?dir = "cm_cacheFs cm" and ?ns = "r_outputs (g_rule g r)"
  obtain cm1 w1 where s1: "saveRule g r (cm, w) = Inr (cm1, w1)" "cm_step (cm, w) (cm1, w1)"
      "free_content ?dir w1 = free_content ?dir w"
      "cm_policy cm \<noteq> CACHE_GIT_REFS \<longrightarrow> cm1 = cm \<and> add_nodes g (free_content ?dir w) ?ns (store_entry ?dir w) \<subseteq>\<^sub>m store_entry ?dir w1"
    using saveRule_correct [OF assms] by blast
  have "\<exists>w3. restoreRule g r (cm1, w2) = Inr (True, cm1, w3) \<and>
      (\<forall>n \<in> set ?ns. content w3 (n_path (g_node g n)) = content w (n_path (g_node g n)))"
    if pol: "cm_policy cm \<noteq> CACHE_GIT_REFS" and dist: "distinct (map (\<lambda>n. n_hash (g_node g n)) ?ns)"
      and fresh: "\<forall>n \<in> set ?ns. store_entry ?dir w (n_hash (g_node g n)) = None"
      and w2: "store_ok ?dir w2" "store_entry ?dir w2 = store_entry ?dir w1" "outputs_ok g r ?dir w2" for w2
  proof -
    have cm1: "cm1 = cm" using s1(4) pol by blast
    have inv: "cm_inv (cm, w2)" using assms(1) w2(1) by (simp add: cm_inv_def)
    have use: "cm_usable cm" using pol by (simp add: cm_usable_def)
    have ent: "store_entry ?dir w2 (n_hash (g_node g n)) = content w (n_path (g_node g n)) \<and>
        content w (n_path (g_node g n)) \<noteq> None" if n: "n \<in> set ?ns" for n
    proof -
      have "free_path ?dir (n_path (g_node g n))" "free_content ?dir w (n_path (g_node g n)) \<noteq> None"
        using assms(2) n by (auto simp: rule_savable_def savable_def)
      moreover have "add_nodes g (free_content ?dir w) ?ns (store_entry ?dir w) (n_hash (g_node g n)) = free_content ?dir w (n_path (g_node g n))"
        using add_nodes_fresh [OF dist n] fresh n by blast
      moreover have "store_entry ?dir w2 x = add_nodes g (free_content ?dir w) ?ns (store_entry ?dir w) x"
        if "add_nodes g (free_content ?dir w) ?ns (store_entry ?dir w) x \<noteq> None" for x
        using map_leD [of "add_nodes g (free_content ?dir w) ?ns (store_entry ?dir w)" "store_entry ?dir w1" x] that s1(4) pol w2(2)
        by simp
      ultimately show ?thesis by (simp add: free_content_def)
    qed
    from restoreRule_correct [OF inv use w2(3) assms(3)] obtain b cm3 w3 where
      r3: "restoreRule g r (cm, w2) = Inr (b, cm3, w3)"
      "b \<longrightarrow> (\<forall>n \<in> set ?ns. free_content ?dir w3 (n_path (g_node g n)) = store_entry ?dir w2 (n_hash (g_node g n)))"
      "b \<longleftrightarrow> (\<forall>n \<in> set ?ns. store_entry ?dir w2 (n_hash (g_node g n)) \<noteq> None)" using pol by blast
    have free: "content w3 (n_path (g_node g n)) = free_content ?dir w3 (n_path (g_node g n))" if "n \<in> set ?ns" for n
      using w2(3) that by (simp add: outputs_ok_def free_content_def)
    have b: "b" using r3(3) ent by auto
    have "cm3 = cm" by (rule restoreRule_plain [OF r3(1) pol])
    then show ?thesis using r3 b ent cm1 free by auto
  qed
  then show ?thesis using s1 by (auto simp: cm_step_def)
qed

definition example_plain :: cache_manager where
  "example_plain = example_cm\<lparr>cm_policy := CACHE_EVERYTHING\<rparr>"

definition built_world :: world where
  "built_world = example_world\<lparr>w_files := [''cache'' \<mapsto> Dir, ''out'' \<mapsto> Dir, ''out/o'' \<mapsto> File ''obj'' 4]\<rparr>"

lemma example_plain_ok: "cm_inv (example_plain, built_world)"
    "rule_savable cached_graph 1 (cm_cacheFs example_plain) built_world"
proof -
  have "store_ok ''cache'' built_world"
    by (auto simp: store_ok_def built_world_def example_world_def isDir_def entry_path_def valid_hash_def)
  then show "cm_inv (example_plain, built_world)"
    using git_history_inv [OF example_history(1)] by (simp add: cm_inv_def example_plain_def example_cm_def)
  show "rule_savable cached_graph 1 (cm_cacheFs example_plain) built_world"
    by (auto simp: rule_savable_def savable_def example_plain_def example_cm_def cached_graph_def chain_defs valid_hash_def
        free_path_def free_content_def content_def built_world_def example_dirname Rule_hasDepfile_def)
qed

theorem save_restore_roundtrip_witness:
  "\<exists>cm1 w1. saveRule cached_graph 1 (example_plain, built_world) = Inr (cm1, w1) \<and> cm_inv (cm1, w1)"
  using save_restore_roundtrip [OF example_plain_ok example_outputs(2)] by blast

text \<open>In a detached HEAD state the manager saves nothing, but it still tries to restore: when the
  outputs of a rule are in the cache from an earlier build on a branch, \<open>restoreRule\<close> stops the
  process at the assertion \<open>isInRef()\<close>.\<close>

theorem restoreRule_detached_aborts:
  "\<exists>g r cm w. cm_inv (cm, w) \<and> outputs_ok g r (cm_cacheFs cm) w \<and> \<not> isInRef (cm_gitDirectory cm) \<and>
     saveRule g r (cm, w) = Inr (cm, w) \<and> restoreRule g r (cm, w) = Inl (AssertFailed ''isInRef()'')"
proof (intro exI conjI)
  let ?cm = "example_cm\<lparr>cm_gitDirectory := CacheGitDirectory ''r'' ''cache''\<rparr>"
  show "cm_inv (?cm, example_world)" by (simp add: cm_inv_def example_cm_def example_store git_inv_new)
  show "outputs_ok cached_graph 1 (cm_cacheFs ?cm) example_world" using example_outputs(1) by simp
  show ref: "\<not> isInRef (cm_gitDirectory ?cm)" by (simp add: isInRef_def CacheGitDirectory_def)
  show "saveRule cached_graph 1 (?cm, example_world) = Inr (?cm, example_world)"
    using ref by (simp add: saveRule_def example_cm_def)
  show "restoreRule cached_graph 1 (?cm, example_world) = Inl (AssertFailed ''isInRef()'')"
    using ref example_outputs(2)
    by (simp add: restoreRule_def check_output_def hasEntry_def git_registerNode_def registerNode_def registerEntryInRefMap_def
        cached_graph_def chain_defs example_cm_def example_world_def entry_path_def)
qed

end
