(* ===== verification/Hash_Recompute.thy ===== *)
theory Hash_Recompute
  imports Depfile Cache_Manager
begin

text \<open>
  Propagation of hashes, second part of \<open>src/src/graph_hash.cpp\<close>: when the hash of a node changes,
  the rules that consume it are hashed again, then their outputs, and so on; when the explicit part of
  a rule's hash changes, its depfile is looked up in the cache and loaded. The functions change the
  graph, the cache manager (or the null pointer \<open>None\<close>) and the disk.

  For graphs without depfiles the propagation is shown to re-establish all the equations between
  hashes after the hash of one node became stale.
\<close>

section \<open>recomputeRuleHash and recomputeNodeHash\<close>

type_synonym hstate = "graph \<times> cache_manager option \<times> world"

fun recomputeRuleHash ::
    "(string \<Rightarrow> string) \<Rightarrow> allocator \<Rightarrow> watchman \<Rightarrow> nat \<Rightarrow> rid \<Rightarrow> bool \<Rightarrow> bool \<Rightarrow> hstate \<Rightarrow> hstate result"
  and recomputeNodeHash ::
    "(string \<Rightarrow> string) \<Rightarrow> allocator \<Rightarrow> watchman \<Rightarrow> nat \<Rightarrow> nid \<Rightarrow> bool \<Rightarrow> bool \<Rightarrow> hstate \<Rightarrow> (bool \<times> hstate) result" where
  "recomputeRuleHash sha al wm 0 r recomputeHash recomputeHashDeps s = Inl NoFuel"
| "recomputeRuleHash sha al wm (Suc k) r recomputeHash recomputeHashDeps (g, cache, w) =
     (let tmp = r_hashDepfile (g_rule g r) in
      rbind (updateRuleHash sha r True True g) (\<lambda>g.
      rbind
        (if Rule_hasDepfile g r \<and> tmp \<noteq> r_hashDepfile (g_rule g r)
         then (case cache of
                 None \<Rightarrow> Inl NullDeref
               | Some cm \<Rightarrow>
                   rbind (restoreDepfile g r (cm, w)) (\<lambda>(restored, cm, w).
                     if restored
                     then rbind (loadFromfile sha al wm w (r_depfile (g_rule g r)) r g) (\<lambda>(_, g).
                            rbind (updateRuleHash sha r True False g) (\<lambda>g. Inr (g, Some cm, w)))
                     else Inr (g, Some cm, w)))
         else Inr (g, cache, w))
        (\<lambda>s. foldM (\<lambda>n s. rbind (recomputeNodeHash sha al wm k n recomputeHash recomputeHashDeps s) (\<lambda>(_, s). Inr s))
                (r_outputs (g_rule (fst s) r)) s)))"
| "recomputeNodeHash sha al wm 0 n recomputeHash recomputeHashDeps s = Inl NoFuel"
| "recomputeNodeHash sha al wm (Suc k) n recomputeHash recomputeHashDeps (g, cache, w) =
     rbind (updateNodeHash sha w n recomputeHash recomputeHashDeps g) (\<lambda>(changed, g).
       if \<not> changed then Inr (False, g, cache, w)
       else rbind (foldM (\<lambda>r s. recomputeRuleHash sha al wm k r recomputeHash recomputeHashDeps s)
                     (n_parents (g_node g n)) (g, cache, w))
              (\<lambda>s. Inr (True, s)))"

section \<open>What stays the same\<close>

text \<open>A graph without its hashes.\<close>

definition shape :: "graph \<Rightarrow> graph" where
  "shape g = g\<lparr>g_node := (\<lambda>n. (g_node g n)\<lparr>n_hash := [], n_hashDepfile := []\<rparr>),
               g_rule := (\<lambda>r. (g_rule g r)\<lparr>r_hash := [], r_hashDepfile := []\<rparr>)\<rparr>"

lemma shape_set [simp]: "shape (set_node_hashes n h d g) = shape g" "shape (set_rule_hashes r h d g) = shape g"
  by (auto simp: shape_def set_node_hashes_def set_rule_hashes_def fun_eq_iff intro!: graph.equality)

lemma shape_node: "shape g' = shape g \<Longrightarrow> (g_node g' n)\<lparr>n_hash := [], n_hashDepfile := []\<rparr> = (g_node g n)\<lparr>n_hash := [], n_hashDepfile := []\<rparr>"
  by (drule arg_cong [of _ _ "\<lambda>g. g_node g n"]) (simp add: shape_def)

lemma shape_rule: "shape g' = shape g \<Longrightarrow> (g_rule g' r)\<lparr>r_hash := [], r_hashDepfile := []\<rparr> = (g_rule g r)\<lparr>r_hash := [], r_hashDepfile := []\<rparr>"
  by (drule arg_cong [of _ _ "\<lambda>g. g_rule g r"]) (simp add: shape_def)

lemma shape_nodeD:
  assumes "shape g' = shape g"
  shows "n_path (g_node g' n) = n_path (g_node g n)" "n_child (g_node g' n) = n_child (g_node g n)"
    "n_parents (g_node g' n) = n_parents (g_node g n)"
  using arg_cong [OF shape_node [OF assms, of n], of n_path] arg_cong [OF shape_node [OF assms, of n], of n_child]
    arg_cong [OF shape_node [OF assms, of n], of n_parents] by simp_all

lemma shape_ruleD:
  assumes "shape g' = shape g"
  shows "r_inputs (g_rule g' r) = r_inputs (g_rule g r)" "r_outputs (g_rule g' r) = r_outputs (g_rule g r)"
    "r_depfile (g_rule g' r) = r_depfile (g_rule g r)" "r_numImplicit (g_rule g' r) = r_numImplicit (g_rule g r)"
  using arg_cong [OF shape_rule [OF assms, of r], of r_inputs] arg_cong [OF shape_rule [OF assms, of r], of r_outputs]
    arg_cong [OF shape_rule [OF assms, of r], of r_depfile] arg_cong [OF shape_rule [OF assms, of r], of r_numImplicit] by simp_all

lemma shape_graphD:
  assumes "shape g' = shape g"
  shows "g_nodes g' = g_nodes g" "g_rules g' = g_rules g" "g_roots g' = g_roots g" "g_sources g' = g_sources g"
  using arg_cong [OF assms, of g_nodes] arg_cong [OF assms, of g_rules] arg_cong [OF assms, of g_roots]
    arg_cong [OF assms, of g_sources] by (simp_all add: shape_def)

lemmas shapeD = shape_nodeD shape_ruleD shape_graphD

lemma shape_wf:
  assumes "shape g' = shape g"
  shows "wf_graph g' = wf_graph g"
  by (simp add: wf_graph_def wf_node_def wf_rule_def live_def shapeD [OF assms] cong: option.case_cong)

lemma shape_live: "shape g' = shape g \<Longrightarrow> live g' = live g"
  by (simp add: live_def shapeD(8) [of g' g])

lemma shape_dep:
  assumes "shape g' = shape g"
  shows "dep_edges g' = dep_edges g"
  by (simp add: dep_edges_def shapeD [OF assms])

lemma shape_height: "shape g' = shape g \<Longrightarrow> height g' n = height g n"
  by (simp add: height_def shape_dep [of g' g])

lemma shape_acyclic: "shape g' = shape g \<Longrightarrow> acyclic_graph g' = acyclic_graph g"
  by (simp add: acyclic_graph_def shape_dep [of g' g])

section \<open>Propagation repairs the hashes\<close>

text \<open>\<open>ok_except BN BR g\<close>: all hashes are right except perhaps those of the nodes \<open>BN\<close> and the rules \<open>BR\<close>.\<close>

definition ok_except :: "(string \<Rightarrow> string) \<Rightarrow> world \<Rightarrow> nid set \<Rightarrow> rid set \<Rightarrow> graph \<Rightarrow> bool" where
  "ok_except sha w BN BR g \<longleftrightarrow>
     (\<forall>n \<in> live g - BN. node_hash_ok sha w g n) \<and> (\<forall>r \<in> set (g_rules g) - BR. rule_hash_ok sha g r) \<and>
     hashed g \<and> (\<forall>n \<in> live g. n_child (g_node g n) = None \<longrightarrow> n_hash (g_node g n) = n_hashDepfile (g_node g n))"

lemma ok_except_mono: "ok_except sha w BN BR g \<Longrightarrow> BN \<subseteq> BN' \<Longrightarrow> BR \<subseteq> BR' \<Longrightarrow> ok_except sha w BN' BR' g"
  unfolding ok_except_def by blast

lemma ok_except_rule:
  assumes ok: "ok_except sha w BN (insert r BR) g" and g: "wf_graph g" and r: "r \<in> set (g_rules g)"
    and sha: "\<And>x. sha x \<noteq> []"
  shows "ok_except sha w (BN \<union> set (r_outputs (g_rule g r))) BR (set_rule_hashes r (rule_hash sha g r) (rule_hashDepfile sha g r) g)"
proof -
  let ?g = "set_rule_hashes r (rule_hash sha g r) (rule_hashDepfile sha g r) g"
  have "rule_hash sha ?g q = rule_hash sha g q" "rule_hashDepfile sha ?g q = rule_hashDepfile sha g q" for q
    by (simp_all add: rule_hash_def rule_hashDepfile_def)
  then have "rule_hash_ok sha ?g q" if "q \<in> set (g_rules g)" "q \<notin> BR" for q
    using ok that by (auto simp: rule_hash_ok_def ok_except_def)
  moreover have "node_hash_ok sha w ?g n" if n: "n \<in> live g" "n \<notin> BN" "n \<notin> set (r_outputs (g_rule g r))" for n
  proof -
    have "n_child (g_node g n) \<noteq> Some r" using wf_child [OF g n(1)] n(3) by blast
    then have "node_hash_ok sha w ?g n = node_hash_ok sha w g n"
      by (auto simp: node_hash_ok_def node_hash_def node_hashDepfile_def split: option.split)
    then show ?thesis using ok n by (simp add: ok_except_def)
  qed
  moreover have "hashed ?g" using ok sha by (auto simp: ok_except_def hashed_def rule_hash_def rule_hashDepfile_def)
  ultimately show ?thesis using ok by (auto simp: ok_except_def)
qed

lemma ok_except_node:
  assumes ok: "ok_except sha w (insert n BN) BR g" and g: "wf_graph g" and n: "n \<in> live g" and sha: "\<And>x. sha x \<noteq> []"
  shows "ok_except sha w BN (BR \<union> set (n_parents (g_node g n))) (set_node_hashes n (node_hash sha w g n) (node_hashDepfile sha w g n) g)"
proof -
  let ?g = "set_node_hashes n (node_hash sha w g n) (node_hashDepfile sha w g n) g"
  have "node_hash sha w ?g m = node_hash sha w g m" "node_hashDepfile sha w ?g m = node_hashDepfile sha w g m" for m
    by (auto simp: node_hash_def node_hashDepfile_def split: option.split)
  then have "node_hash_ok sha w ?g m" if "m \<in> live g" "m \<notin> BN" for m
    using ok that by (auto simp: node_hash_ok_def ok_except_def)
  moreover have "rule_hash_ok sha ?g q" if q: "q \<in> set (g_rules g)" "q \<notin> BR" "q \<notin> set (n_parents (g_node g n))" for q
  proof -
    have "n \<notin> set (r_inputs (g_rule g q))" using wf_input [OF g q(1)] q(3) by blast
    moreover have "set (explicit_inputs (g_rule g q)) \<subseteq> set (r_inputs (g_rule g q))"
      by (auto simp: explicit_inputs_def dest: in_set_takeD)
    ultimately have eqs: "map (\<lambda>m. n_hash (g_node ?g m)) (r_inputs (g_rule g q)) = map (\<lambda>m. n_hash (g_node g m)) (r_inputs (g_rule g q))"
      "map (\<lambda>m. n_hashDepfile (g_node ?g m)) (explicit_inputs (g_rule g q)) = map (\<lambda>m. n_hashDepfile (g_node g m)) (explicit_inputs (g_rule g q))"
      by (auto intro!: map_cong)
    have "rule_hash_ok sha ?g q = rule_hash_ok sha g q"
      unfolding rule_hash_ok_def rule_hash_def rule_hashDepfile_def set_hashes_sel(1) eqs ..
    then show ?thesis using ok q by (simp add: ok_except_def)
  qed
  moreover have "hashed ?g" using ok sha by (auto simp: ok_except_def hashed_def node_hash_def node_hashDepfile_def)
  moreover have "\<forall>m \<in> live g. n_child (g_node g m) = None \<longrightarrow> n_hash (g_node ?g m) = n_hashDepfile (g_node ?g m)"
    using ok by (auto simp: ok_except_def node_hash_def node_hashDepfile_def)
  ultimately show ?thesis by (auto simp: ok_except_def)
qed

text \<open>\<open>repairs\<close>: the outcome of a call that repairs the hashes up to \<open>BN\<close> and \<open>BR\<close> and changes nothing else.\<close>

definition repaired :: "(string \<Rightarrow> string) \<Rightarrow> world \<Rightarrow> nid set \<Rightarrow> rid set \<Rightarrow> graph \<Rightarrow> cache_manager option \<Rightarrow> hstate \<Rightarrow> bool" where
  "repaired sha w BN BR g c = (\<lambda>(g', c', w'). shape g' = shape g \<and> ok_except sha w BN BR g' \<and> c' = c \<and> w' = w)"

lemma repaired_shape: "shape g1 = shape g \<Longrightarrow> repaired sha w BN BR g1 c s = repaired sha w BN BR g c s"
  by (cases s) (simp add: repaired_def)

text \<open>The two loops: each iteration repairs one output, or one consumer.\<close>

lemma outputs_repaired:
  assumes node: "\<And>n BN g1. shape g1 = shape g \<Longrightarrow> ok_except sha w (insert n BN) BR g1 \<Longrightarrow> n \<in> set ts \<Longrightarrow>
      \<exists>b s'. recomputeNodeHash sha al wm k n True True (g1, c, w) = Inr (b, s') \<and> repaired sha w BN BR g c s'"
    and start: "shape g0 = shape g" "ok_except sha w (BN \<union> set ts) BR g0"
  shows "\<exists>s'. foldM (\<lambda>n s. rbind (recomputeNodeHash sha al wm k n True True s) (\<lambda>(_, s). Inr s)) ts (g0, c, w) = Inr s' \<and>
      repaired sha w BN BR g c s'"
proof -
  let ?P = "\<lambda>xs. repaired sha w (BN \<union> (set ts - set xs)) BR g c"
  have "\<exists>s'. foldM (\<lambda>n s. rbind (recomputeNodeHash sha al wm k n True True s) (\<lambda>(_, s). Inr s)) ts (g0, c, w) = Inr s' \<and> ?P ts s'"
  proof (rule foldM_total [where P = ?P])
    show "?P [] (g0, c, w)" using start by (simp add: repaired_def)
    fix xs x rest s assume xs: "ts = xs @ x # rest" and s: "?P xs s"
    obtain g1 where g1: "s = (g1, c, w)" "shape g1 = shape g" "ok_except sha w (BN \<union> (set ts - set xs)) BR g1"
      using s by (cases s) (auto simp: repaired_def)
    have "ok_except sha w (insert x (BN \<union> (set ts - set (xs @ [x])))) BR g1" by (rule ok_except_mono [OF g1(3)]) auto
    from node [OF g1(2) this] xs g1(1)
    show "\<exists>s'. rbind (recomputeNodeHash sha al wm k x True True s) (\<lambda>(_, s). Inr s) = Inr s' \<and> ?P (xs @ [x]) s'" by auto
  qed
  then show ?thesis by simp
qed

lemma parents_repaired:
  assumes rule: "\<And>r BR g1. shape g1 = shape g \<Longrightarrow> ok_except sha w BN (insert r BR) g1 \<Longrightarrow> r \<in> set ps \<Longrightarrow>
      \<exists>s'. recomputeRuleHash sha al wm k r True True (g1, c, w) = Inr s' \<and> repaired sha w BN BR g c s'"
    and start: "shape g0 = shape g" "ok_except sha w BN (BR \<union> set ps) g0"
  shows "\<exists>s'. foldM (\<lambda>r s. recomputeRuleHash sha al wm k r True True s) ps (g0, c, w) = Inr s' \<and> repaired sha w BN BR g c s'"
proof -
  let ?P = "\<lambda>xs. repaired sha w BN (BR \<union> (set ps - set xs)) g c"
  have "\<exists>s'. foldM (\<lambda>r s. recomputeRuleHash sha al wm k r True True s) ps (g0, c, w) = Inr s' \<and> ?P ps s'"
  proof (rule foldM_total [where P = ?P])
    show "?P [] (g0, c, w)" using start by (simp add: repaired_def)
    fix xs x rest s assume xs: "ps = xs @ x # rest" and s: "?P xs s"
    obtain g1 where g1: "s = (g1, c, w)" "shape g1 = shape g" "ok_except sha w BN (BR \<union> (set ps - set xs)) g1"
      using s by (cases s) (auto simp: repaired_def)
    have "ok_except sha w BN (insert x (BR \<union> (set ps - set (xs @ [x])))) g1" by (rule ok_except_mono [OF g1(3)]) auto
    from rule [OF g1(2) this] xs g1(1)
    show "\<exists>s'. recomputeRuleHash sha al wm k x True True s = Inr s' \<and> ?P (xs @ [x]) s'" by auto
  qed
  then show ?thesis by simp
qed

lemma set_node_hashes_same: "set_node_hashes n (n_hash (g_node g n)) (n_hashDepfile (g_node g n)) g = g"
  by (auto simp: set_node_hashes_def fun_eq_iff intro!: graph.equality)

definition plain_graph :: "graph \<Rightarrow> bool" where
  "plain_graph g \<longleftrightarrow> wf_graph g \<and> acyclic_graph g \<and> (\<forall>q. r_depfile (g_rule g q) = [])"

lemma shape_plain:
  assumes "shape g' = shape g"
  shows "plain_graph g' = plain_graph g"
  by (simp add: plain_graph_def shape_wf [OF assms] shape_acyclic [OF assms] shapeD [OF assms])

lemma recompute_correct:
  assumes sha: "\<And>x. sha x \<noteq> []"
  shows "plain_graph g \<Longrightarrow> ok_except sha w BN (insert r BR) g \<Longrightarrow> r \<in> set (g_rules g) \<Longrightarrow>
      (\<And>t. t \<in> set (r_outputs (g_rule g r)) \<Longrightarrow> 2 * height g t + 2 < k) \<Longrightarrow> 0 < k \<Longrightarrow>
      \<exists>s'. recomputeRuleHash sha al wm k r True True (g, c, w) = Inr s' \<and> repaired sha w BN BR g c s'"
    and "plain_graph g \<Longrightarrow> ok_except sha w (insert n BN) BR g \<Longrightarrow> n \<in> live g \<Longrightarrow> 2 * height g n + 1 < k \<Longrightarrow>
      \<exists>b s'. recomputeNodeHash sha al wm k n True True (g, c, w) = Inr (b, s') \<and> repaired sha w BN BR g c s'"
proof (induction k arbitrary: r n g BN BR)
  case (Suc k)
  {
    case 1
    let ?g = "set_rule_hashes r (rule_hash sha g r) (rule_hashDepfile sha g r) g" and ?ts = "r_outputs (g_rule g r)"
    have g: "wf_graph g" "Rule_hasDepfile g r = False" using 1(1) by (simp_all add: plain_graph_def Rule_hasDepfile_def)
    have in_ok: "\<forall>n \<in> set (r_inputs (g_rule g r)). n_hash (g_node g n) \<noteq> [] \<and> n_hashDepfile (g_node g n) \<noteq> []"
      using 1(2) wf_input [OF g(1) 1(3)] by (auto simp: ok_except_def hashed_def)
    have eq: "recomputeRuleHash sha al wm (Suc k) r True True (g, c, w) =
        foldM (\<lambda>n s. rbind (recomputeNodeHash sha al wm k n True True s) (\<lambda>(_, s). Inr s)) ?ts (?g, c, w)"
      using updateRuleHash_eq [OF in_ok, of sha] g(2) by (simp add: Rule_hasDepfile_def)
    show ?case unfolding eq
    proof (rule outputs_repaired)
      show "ok_except sha w (BN \<union> set ?ts) BR ?g" by (rule ok_except_rule [OF 1(2) g(1) 1(3) sha])
      fix m BM g1
      assume g1: "shape g1 = shape g" and m: "ok_except sha w (insert m BM) BR g1" "m \<in> set ?ts"
      have "m \<in> live g1" using wf_output [OF g(1) 1(3) m(2)] by (simp add: shape_live [OF g1])
      moreover have "2 * height g1 m + 1 < k" using 1(4) [OF m(2)] by (simp add: shape_height [OF g1])
      ultimately show "\<exists>b s'. recomputeNodeHash sha al wm k m True True (g1, c, w) = Inr (b, s') \<and> repaired sha w BM BR g c s'"
        using Suc.IH(2) [of g1 m BM BR] m(1) 1(1) by (simp add: shape_plain [OF g1] repaired_shape [OF g1])
    qed simp
  next
    case 2
    let ?h = "node_hash sha w g r" and ?d = "node_hashDepfile sha w g r" and ?ps = "n_parents (g_node g r)"
    let ?g = "set_node_hashes r ?h ?d g"
    have g: "wf_graph g" "acyclic_graph g" using 2(1) by (simp_all add: plain_graph_def)
    have child: "r_hash (g_rule g q) \<noteq> [] \<and> r_hashDepfile (g_rule g q) \<noteq> []" if "n_child (g_node g r) = Some q" for q
      using 2(2) wf_child [OF g(1) 2(3) that] by (auto simp: ok_except_def hashed_def)
    have src: "n_child (g_node g r) = None \<Longrightarrow> n_hash (g_node g r) = n_hashDepfile (g_node g r)"
      using 2(2,3) by (auto simp: ok_except_def)
    note upd = updateNodeHash_eq [OF child src, of sha w]
    show ?case
    proof (cases "n_hash (g_node g r) \<noteq> ?h \<or> n_hashDepfile (g_node g r) \<noteq> ?d")
      case False
      then have "?g = g" using set_node_hashes_same [of r g] by simp
      moreover have "ok_except sha w BN BR g" using 2(2) False by (auto simp: ok_except_def node_hash_ok_def)
      ultimately show ?thesis using upd False by (auto simp: repaired_def)
    next
      case True
      have "\<exists>s'. foldM (\<lambda>r s. recomputeRuleHash sha al wm k r True True s) ?ps (?g, c, w) = Inr s' \<and> repaired sha w BN BR g c s'"
      proof (rule parents_repaired)
        show "ok_except sha w BN (BR \<union> set ?ps) ?g" by (rule ok_except_node [OF 2(2) g(1) 2(3) sha])
        fix q BQ g1
        assume g1: "shape g1 = shape g" and q: "ok_except sha w BN (insert q BQ) g1" "q \<in> set ?ps"
        note par = wf_parent [OF g(1) 2(3) q(2)]
        have "2 * height g1 t + 2 < k" if "t \<in> set (r_outputs (g_rule g1 q))" for t
        proof -
          have "(r, t) \<in> dep_edges g" using par that shapeD(5) [OF g1, of q] by (auto simp: dep_edges_def)
          then have "height g t < height g r" by (rule height_less [OF g])
          then show ?thesis using 2(4) by (simp add: shape_height [OF g1])
        qed
        then show "\<exists>s'. recomputeRuleHash sha al wm k q True True (g1, c, w) = Inr s' \<and> repaired sha w BN BQ g c s'"
          using Suc.IH(1) [of g1 BN q BQ] q(1) 2(1,4) par
          by (simp add: shape_plain [OF g1] repaired_shape [OF g1] shapeD [OF g1])
      qed simp
      then show ?thesis using upd True by auto
    qed
  }
qed simp_all

section \<open>Properties\<close>

lemma hashes_ok_changed:
  assumes "hashes_ok sha w g" and "\<And>x. sha x \<noteq> []"
    and "\<forall>m \<in> live g. n_child (g_node g m) = None \<and> m \<noteq> n \<longrightarrow> ifstream_read w' (n_path (g_node g m)) = ifstream_read w (n_path (g_node g m))"
  shows "ok_except sha w' {n} {} g"
proof -
  have "node_hash_ok sha w' g m" if "m \<in> live g" "m \<noteq> n" for m
  proof -
    have "node_hash_ok sha w' g m = node_hash_ok sha w g m"
      using assms(3) that by (auto simp: node_hash_ok_def node_hash_def node_hashDepfile_def split: option.split)
    then show ?thesis using assms(1) that(1) by (simp add: hashes_ok_def)
  qed
  moreover have "hashed g"
    using assms(1,2) by (auto simp: hashes_ok_def hashed_def node_hash_ok_def rule_hash_ok_def node_hash_def node_hashDepfile_def
        rule_hash_def rule_hashDepfile_def)
  moreover have "n_hash (g_node g m) = n_hashDepfile (g_node g m)" if "m \<in> live g" "n_child (g_node g m) = None" for m
    using assms(1) that by (auto simp: hashes_ok_def node_hash_ok_def node_hash_def node_hashDepfile_def)
  ultimately show ?thesis using assms(1) by (simp add: ok_except_def hashes_ok_def)
qed

lemma recompute_repairs:
  assumes "wf_graph g" and "acyclic_graph g" and "\<forall>q. r_depfile (g_rule g q) = []" and "\<forall>x. sha x \<noteq> []"
    and "hashes_ok sha w g" and "n \<in> live g"
    and "\<forall>m \<in> live g. n_child (g_node g m) = None \<and> m \<noteq> n \<longrightarrow> ifstream_read w' (n_path (g_node g m)) = ifstream_read w (n_path (g_node g m))"
    and "2 * length (g_nodes g) \<le> k"
  shows "\<exists>b g'. recomputeNodeHash sha al wm k n True True (g, c, w') = Inr (b, g', c, w') \<and> shape g' = shape g \<and> hashes_ok sha w' g'"
proof -
  have "2 * height g n + 1 < k"
    using height_bound [OF assms(1,2,6)] card_live_le [of g] assms(8) by linarith
  then obtain b s' where "recomputeNodeHash sha al wm k n True True (g, c, w') = Inr (b, s')" "repaired sha w' {} {} g c s'"
    using recompute_correct(2) [of sha g w' n "{}" "{}" k al wm c] hashes_ok_changed [OF assms(5) _ assms(7)] assms(1-4,6)
    by (auto simp: plain_graph_def)
  then show ?thesis by (cases s') (auto simp: repaired_def ok_except_def hashes_ok_def)
qed

text \<open>C24. When the content of one source file of a graph without depfiles has changed and all hashes
  were right before, \<open>recomputeNodeHash\<close> on its node returns (twice the number of nodes bounds the
  recursion), makes all hashes of nodes and rules right again, although it stops where a hash does not
  change, and changes nothing but hashes.\<close>

theorem recomputeNodeHash_repairs:
  assumes "wf_graph g" and "acyclic_graph g" and "\<forall>q. r_depfile (g_rule g q) = []" and "\<forall>x. sha x \<noteq> []"
    and "hashes_ok sha w g" and "n \<in> live g"
    and "\<forall>m \<in> live g. n_child (g_node g m) = None \<and> m \<noteq> n \<longrightarrow> ifstream_read w' (n_path (g_node g m)) = ifstream_read w (n_path (g_node g m))"
    and "2 * length (g_nodes g) \<le> k"
  shows "\<exists>b g'. recomputeNodeHash sha al wm k n True True (g, c, w') = Inr (b, g', c, w') \<and> shape g' = shape g \<and> hashes_ok sha w' g'"
  by (rule recompute_repairs [OF assms])

text \<open>An example: the chain with a hash function that only marks its argument.\<close>

definition tag :: "string \<Rightarrow> string" where
  "tag x = CHR ''#'' # x"

definition file_world :: "string \<Rightarrow> world" where
  "file_world c = \<lparr>w_files = [''a'' \<mapsto> File c 0], w_denied = {}, w_time = 0\<rparr>"

definition hashed_chain :: graph where
  "hashed_chain = set_node_hashes 1 ''#ax'' ''#ax'' (set_node_hashes 2 ''#b##axcc'' ''#b##axcc''
     (set_node_hashes 3 ''#c##b##axcccc'' ''#c##b##axcccc''
       (set_rule_hashes 1 ''##axcc'' ''##axcc'' (set_rule_hashes 2 ''##b##axcccc'' ''##b##axcccc'' chain_graph))))"

lemma hashed_chain_shape: "shape hashed_chain = shape chain_graph"
  by (simp add: hashed_chain_def)

lemma hashed_chain_ok: "hashes_ok tag (file_world ''x'') hashed_chain"
  by (simp add: hashes_ok_def node_hash_ok_def rule_hash_ok_def node_hash_def node_hashDepfile_def rule_hash_def rule_hashDepfile_def
      hashed_chain_def live_def chain_defs tag_def file_world_def ifstream_read_def explicit_inputs_def)

theorem recomputeNodeHash_repairs_witness:
  "\<exists>b g'. recomputeNodeHash tag \<lparr>a_node = id, a_rule = id, a_junk = (\<lambda>_. False)\<rparr> None 6 1 True True (hashed_chain, None, file_world ''y'') = Inr (b, g', None, file_world ''y'') \<and>
     shape g' = shape hashed_chain \<and> hashes_ok tag (file_world ''y'') g'"
proof (rule recomputeNodeHash_repairs [OF _ _ _ _ hashed_chain_ok])
  show "wf_graph hashed_chain" "acyclic_graph hashed_chain"
    using chain_wf chain_acyclic by (simp_all add: shape_wf [OF hashed_chain_shape] shape_acyclic [OF hashed_chain_shape])
  show "\<forall>q. r_depfile (g_rule hashed_chain q) = []"
    by (simp add: shapeD [OF hashed_chain_shape] chain_defs)
qed (auto simp: tag_def live_def shapeD [OF hashed_chain_shape] chain_defs)

end
