(* ===== verification/Dependency_Scan.thy ===== *)
theory Dependency_Scan
  imports Hash_Recompute
begin

text \<open>
  The scan of the whole graph on startup, \<open>src/src/graph_dependency_scan.cpp\<close>: it reads the time stamps of
  all files, compares the inputs of every rule with its outputs in a depth-first traversal from the roots,
  marks what has to be rebuilt and computes the hashes. The function \<open>stat\<close> stands for the system call: the
  modification time of a path, or none when the call fails.

  For graphs without depfiles the scan is shown to compute the declarative definition \<open>stale\<close>, the hash
  equations and the ready counters.
\<close>

section \<open>Class GraphDependencyScan\<close>

definition statNode :: "(string \<Rightarrow> timestamp option) \<Rightarrow> nid \<Rightarrow> graph \<Rightarrow> graph" where
  "statNode stat n g =
     Node_setTimestamp n (case stat (n_path (g_node g n)) of None \<Rightarrow> 0 | Some t \<Rightarrow> t) g"

definition stat_all :: "(string \<Rightarrow> timestamp option) \<Rightarrow> graph \<Rightarrow> graph" where
  "stat_all stat g =
     fold (\<lambda>n g. case n_child (g_node g n) of
                   None \<Rightarrow> statNode stat n g
                 | Some r \<Rightarrow> if Rule_isPhony g r then g else statNode stat n g)
       (map snd (g_nodes g)) g"

text \<open>\<open>std::min_element\<close>: the first of the oldest outputs.\<close>

fun min_element :: "(nid \<Rightarrow> timestamp) \<Rightarrow> nid \<Rightarrow> nid list \<Rightarrow> nid" where
  "min_element f best [] = best"
| "min_element f best (n # ns) = min_element f (if f n < f best then n else best) ns"

definition getOldestOutput :: "graph \<Rightarrow> rid \<Rightarrow> nid result" where
  "getOldestOutput g r =
     (case r_outputs (g_rule g r) of
        [] \<Rightarrow> Inl (AssertFailed ''!r->getOutputs().empty()'')
      | n # ns \<Rightarrow> Inr (min_element (\<lambda>n. n_timestamp (g_node g n)) n ns))"

definition compareInputsWithOutputs :: "rid \<Rightarrow> graph \<Rightarrow> (bool \<times> graph) result" where
  "compareInputsWithOutputs r g =
     rbind (getOldestOutput g r) (\<lambda>oldestOutput.
       Inr (fold (\<lambda>input (atLeastOneDirty, g).
               if n_timestamp (g_node g input) > n_timestamp (g_node g oldestOutput)
               then (True, if Node_isSource g input then Node_setState input OUT_OF_DATE g else g)
               else (atLeastOneDirty, g))
             (r_inputs (g_rule g r)) (False, g)))"

definition ruleLoadDepfile :: "(string \<Rightarrow> string) \<Rightarrow> allocator \<Rightarrow> rid \<Rightarrow> hstate \<Rightarrow> (bool \<times> hstate) result" where
  "ruleLoadDepfile sha al r = (\<lambda>(g, cache, w).
     rbind (loadFromfile sha al None w (r_depfile (g_rule g r)) r g) (\<lambda>(res, g).
       if res = SUCCESS then Inr (True, g, cache, w)
       else case cache of
              None \<Rightarrow> Inl NullDeref
            | Some cm \<Rightarrow>
                rbind (restoreDepfile g r (cm, w)) (\<lambda>(restored, cm, w).
                  if \<not> restored then Inr (False, g, Some cm, w)
                  else rbind (loadFromfile sha al None w (r_depfile (g_rule g r)) r g) (\<lambda>(res, g).
                         Inr (res = SUCCESS, g, Some cm, w)))))"

text \<open>The last part of \<open>updateRule\<close>, after the inputs were traversed.\<close>

definition finish_rule :: "(string \<Rightarrow> string) \<Rightarrow> allocator \<Rightarrow> rid \<Rightarrow> bool \<Rightarrow> hstate \<Rightarrow> (bool \<times> hstate) result" where
  "finish_rule sha al r isDirty = (\<lambda>(g, cache, w).
     rbind (updateRuleHash sha r True True g) (\<lambda>g.
     rbind (if Rule_hasDepfile g r
            then rbind (ruleLoadDepfile sha al r (g, cache, w)) (\<lambda>(loaded, g, cache, w).
                   if \<not> loaded then Inr (True, g, cache, w)
                   else rbind (updateRuleHash sha r True False g) (\<lambda>g. Inr (isDirty, g, cache, w)))
            else Inr (isDirty, g, cache, w)) (\<lambda>(isDirty, g, cache, w).
     rbind (if \<not> Rule_isPhony g r
            then rbind (compareInputsWithOutputs r g) (\<lambda>(newer, g). Inr (isDirty \<or> newer, g))
            else Inr (isDirty, g)) (\<lambda>(isDirty, g).
     if isDirty then Inr (True, Rule_setState r OUT_OF_DATE g, cache, w) else Inr (False, g, cache, w)))))"

type_synonym scan_state = "rid set \<times> hstate"

fun updateNode :: "(string \<Rightarrow> string) \<Rightarrow> allocator \<Rightarrow> nat \<Rightarrow> nid \<Rightarrow> scan_state \<Rightarrow> (bool \<times> scan_state) result"
  and updateRule :: "(string \<Rightarrow> string) \<Rightarrow> allocator \<Rightarrow> nat \<Rightarrow> rid \<Rightarrow> scan_state \<Rightarrow> (bool \<times> scan_state) result" where
  "updateNode sha al 0 n s = Inl NoFuel"
| "updateNode sha al (Suc k) n (seen, g, cache, w) =
     rbind
       (case n_child (g_node g n) of
          None \<Rightarrow> Inr (False, seen, g, cache, w)
        | Some r \<Rightarrow>
            rbind (updateRule sha al k r (seen, g, cache, w)) (\<lambda>(dirty, seen, g, cache, w).
              Inr (dirty, seen, if dirty then Node_setState n OUT_OF_DATE g else g, cache, w)))
       (\<lambda>(dirty, seen, g, cache, w).
          if n_hash (g_node g n) = []
          then rbind (updateNodeHash sha w n True True g) (\<lambda>(_, g). Inr (dirty, seen, g, cache, w))
          else Inr (dirty, seen, g, cache, w))"
| "updateRule sha al 0 r s = Inl NoFuel"
| "updateRule sha al (Suc k) r (seen, g, cache, w) =
     (if r \<in> seen then Inr (Rule_isDirty g r, seen, g, cache, w)
      else
        rbind (foldM (\<lambda>n (isDirty, s).
                  rbind (updateNode sha al k n s) (\<lambda>(dirty, seen, g, cache, w).
                    if dirty
                    then (if \<not> Node_isSource g n
                          then rbind (Rule_markInputDirty r g) (\<lambda>g. Inr (True, seen, g, cache, w))
                          else Inr (True, seen, g, cache, w))
                    else Inr (isDirty, seen, g, cache, w)))
                (r_inputs (g_rule g r)) (False, insert r seen, g, cache, w))
          (\<lambda>(isDirty, seen, s). rbind (finish_rule sha al r isDirty s) (\<lambda>(dirty, s). Inr (dirty, seen, s))))"

declare updateNode.simps [simp del] updateRule.simps [simp del]

definition scan :: "(string \<Rightarrow> string) \<Rightarrow> allocator \<Rightarrow> nat \<Rightarrow> (string \<Rightarrow> timestamp option) \<Rightarrow> hstate \<Rightarrow> hstate result" where
  "scan sha al k stat = (\<lambda>(g, cache, w).
     let g = stat_all stat g in
     rbind (foldM (\<lambda>n s. rbind (updateNode sha al k n s) (\<lambda>(_, s). Inr s)) (sorted_list_of_set (g_roots g)) ({}, g, cache, w))
       (\<lambda>(_, s). Inr s))"

section \<open>What has to be rebuilt\<close>

text \<open>\<open>late g r\<close>: an input is newer than the oldest output. \<open>stale\<close> adds the rules that consume the output
  of a stale rule: the reference definition of what a build has to do.\<close>

definition oldest :: "graph \<Rightarrow> rid \<Rightarrow> timestamp" where
  "oldest g r = Min ((\<lambda>n. n_timestamp (g_node g n)) ` set (r_outputs (g_rule g r)))"

definition newer :: "graph \<Rightarrow> rid \<Rightarrow> nid \<Rightarrow> bool" where
  "newer g r n \<longleftrightarrow> \<not> Rule_isPhony g r \<and> n \<in> set (r_inputs (g_rule g r)) \<and> oldest g r < n_timestamp (g_node g n)"

inductive stale :: "graph \<Rightarrow> rid \<Rightarrow> bool" for g where
  late: "newer g r n \<Longrightarrow> stale g r"
| consumes: "n \<in> set (r_inputs (g_rule g r)) \<Longrightarrow> n_child (g_node g n) = Some q \<Longrightarrow> stale g q \<Longrightarrow> stale g r"

definition stale_node :: "graph \<Rightarrow> nid \<Rightarrow> bool" where
  "stale_node g n \<longleftrightarrow> (\<exists>r. n_child (g_node g n) = Some r \<and> stale g r)"

lemma stale_iff: "stale g r \<longleftrightarrow> (\<exists>n. newer g r n) \<or> (\<exists>n \<in> set (r_inputs (g_rule g r)). stale_node g n)"
  by (subst stale.simps) (auto simp: stale_node_def)

lemma min_element_eq: "f (min_element f best ns) = Min (f ` set (best # ns))"
proof (induction ns arbitrary: best)
  case (Cons n ns)
  have "Min (insert (f best) (insert (f n) (f ` set ns))) = Min (insert (min (f best) (f n)) (f ` set ns))"
    by (cases "ns = []") (auto simp: min.assoc)
  then show ?case using Cons [of n] Cons [of best] by (auto simp: min_def)
qed simp

section \<open>The traversal\<close>

text \<open>A graph without what the traversal changes: states, counters and hashes.\<close>

definition skel :: "graph \<Rightarrow> graph" where
  "skel g = g\<lparr>g_node := (\<lambda>n. (g_node g n)\<lparr>n_hash := [], n_hashDepfile := [], n_state := UP_TO_DATE, n_lazy := False\<rparr>),
              g_rule := (\<lambda>r. (g_rule g r)\<lparr>r_hash := [], r_hashDepfile := [], r_state := UP_TO_DATE, r_numReady := 0\<rparr>)\<rparr>"

lemma skel_upd [simp]:
  "skel (set_node_hashes n h d g) = skel g" "skel (set_rule_hashes r h d g) = skel g"
  "skel (Node_setState n st g) = skel g" "skel (Rule_setState r st g) = skel g"
  "skel (upd_rule r (\<lambda>rl. rl\<lparr>r_numReady := f rl\<rparr>) g) = skel g"
  by (auto simp: skel_def set_node_hashes_def set_rule_hashes_def Node_setState_def Rule_setState_def fun_eq_iff intro!: graph.equality)

lemma skel_nodeD:
  assumes "skel g' = skel g"
  shows "n_path (g_node g' n) = n_path (g_node g n)" "n_child (g_node g' n) = n_child (g_node g n)"
    "n_parents (g_node g' n) = n_parents (g_node g n)" "n_timestamp (g_node g' n) = n_timestamp (g_node g n)"
proof -
  have "g_node (skel g') n = g_node (skel g) n" using assms by simp
  then show "n_path (g_node g' n) = n_path (g_node g n)" "n_child (g_node g' n) = n_child (g_node g n)"
    "n_parents (g_node g' n) = n_parents (g_node g n)" "n_timestamp (g_node g' n) = n_timestamp (g_node g n)"
    unfolding skel_def by (auto dest: arg_cong [of _ _ n_path] arg_cong [of _ _ n_child] arg_cong [of _ _ n_parents] arg_cong [of _ _ n_timestamp])
qed

lemma skel_ruleD:
  assumes "skel g' = skel g"
  shows "r_inputs (g_rule g' r) = r_inputs (g_rule g r)" "r_outputs (g_rule g' r) = r_outputs (g_rule g r)"
    "r_depfile (g_rule g' r) = r_depfile (g_rule g r)" "r_numImplicit (g_rule g' r) = r_numImplicit (g_rule g r)"
    "r_command (g_rule g' r) = r_command (g_rule g r)"
proof -
  have "g_rule (skel g') r = g_rule (skel g) r" using assms by simp
  then show "r_inputs (g_rule g' r) = r_inputs (g_rule g r)" "r_outputs (g_rule g' r) = r_outputs (g_rule g r)"
    "r_depfile (g_rule g' r) = r_depfile (g_rule g r)" "r_numImplicit (g_rule g' r) = r_numImplicit (g_rule g r)"
    "r_command (g_rule g' r) = r_command (g_rule g r)"
    unfolding skel_def by (auto dest: arg_cong [of _ _ r_inputs] arg_cong [of _ _ r_outputs] arg_cong [of _ _ r_depfile]
        arg_cong [of _ _ r_numImplicit] arg_cong [of _ _ r_command])
qed

lemma skel_graphD:
  assumes "skel g' = skel g"
  shows "g_nodes g' = g_nodes g" "g_rules g' = g_rules g" "g_roots g' = g_roots g" "g_sources g' = g_sources g"
  using arg_cong [OF assms, of g_nodes] arg_cong [OF assms, of g_rules] arg_cong [OF assms, of g_roots]
    arg_cong [OF assms, of g_sources] by (simp_all add: skel_def)

lemmas skelD = skel_nodeD skel_ruleD skel_graphD

lemma skel_newer:
  assumes "skel g' = skel g"
  shows "newer g' r n = newer g r n"
  by (simp add: newer_def oldest_def Rule_isPhony_def skelD [OF assms])

text \<open>
  \<open>scanned g0 A V S g\<close>: the state of the traversal. The nodes \<open>V\<close> and the rules \<open>S\<close> are done, the rules \<open>A\<close>
  are being traversed, the others are as in the graph \<open>g0\<close> at the start.
\<close>

definition scanned :: "(string \<Rightarrow> string) \<Rightarrow> world \<Rightarrow> graph \<Rightarrow> rid set \<Rightarrow> nid set \<Rightarrow> rid set \<Rightarrow> graph \<Rightarrow> bool" where
  "scanned sha w g0 A V S g \<longleftrightarrow> skel g = skel g0 \<and> A \<inter> S = {} \<and> S \<subseteq> set (g_rules g0) \<and>
     (\<forall>n. Node_isDirty g n \<longleftrightarrow> n \<in> V \<and> stale_node g0 n \<or> Node_isSource g0 n \<and> (\<exists>r \<in> S. newer g0 r n)) \<and>
     (\<forall>r \<in> S. Rule_isDirty g r \<longleftrightarrow> stale g0 r) \<and>
     (\<forall>r \<in> S. r_numReady (g_rule g r) = card {n \<in> set (r_inputs (g_rule g0 r)). \<not> stale_node g0 n}) \<and>
     (\<forall>r. r \<notin> A \<union> S \<longrightarrow> g_rule g r = g_rule g0 r) \<and>
     (\<forall>n \<in> V. node_hash_ok sha w g n) \<and> (\<forall>r \<in> S. rule_hash_ok sha g r) \<and>
     (\<forall>n. n \<notin> V \<longrightarrow> n_hash (g_node g n) = [] \<and> n_hashDepfile (g_node g n) = []) \<and>
     (\<forall>n \<in> V. \<forall>r. n_child (g_node g0 n) = Some r \<longrightarrow> r \<in> S) \<and> (\<forall>r \<in> S. set (r_inputs (g_rule g0 r)) \<subseteq> V)"

text \<open>The graph at the start of the traversal: nothing is marked, no hash is computed.\<close>

definition unscanned :: "graph \<Rightarrow> bool" where
  "unscanned g \<longleftrightarrow> plain_graph g \<and> (\<forall>n. \<not> Node_isDirty g n \<and> n_hash (g_node g n) = [] \<and> n_hashDepfile (g_node g n) = []) \<and>
     (\<forall>r \<in> set (g_rules g). \<not> Rule_isDirty g r \<and> r_numReady (g_rule g r) = length (r_inputs (g_rule g r)))"

lemma scanned_hash:
  assumes "scanned sha w g0 A V S g" and "\<And>x. sha x \<noteq> []"
  shows "n_hash (g_node g n) \<noteq> [] \<longleftrightarrow> n \<in> V" and "n \<in> V \<Longrightarrow> n_hashDepfile (g_node g n) \<noteq> []"
    and "r \<in> S \<Longrightarrow> r_hash (g_rule g r) \<noteq> [] \<and> r_hashDepfile (g_rule g r) \<noteq> []"
proof -
  have nodes: "n \<in> V \<Longrightarrow> node_hash_ok sha w g n" "n \<notin> V \<Longrightarrow> n_hash (g_node g n) = []" for n
    using assms(1) by (auto simp: scanned_def)
  have rules: "r \<in> S \<Longrightarrow> rule_hash_ok sha g r" using assms(1) by (auto simp: scanned_def)
  show "n_hash (g_node g n) \<noteq> [] \<longleftrightarrow> n \<in> V" "n \<in> V \<Longrightarrow> n_hashDepfile (g_node g n) \<noteq> []"
    using nodes [of n] assms(2) by (metis node_hash_ok_def node_hash_def, metis node_hash_ok_def node_hashDepfile_def)
  show "r \<in> S \<Longrightarrow> r_hash (g_rule g r) \<noteq> [] \<and> r_hashDepfile (g_rule g r) \<noteq> []"
    using rules assms(2) by (auto simp: rule_hash_ok_def rule_hash_def rule_hashDepfile_def)
qed

text \<open>Hash equations only depend on the hashes they mention.\<close>

lemma node_hash_ok_cong:
  assumes "skel g' = skel g" "n_hash (g_node g' n) = n_hash (g_node g n)" "n_hashDepfile (g_node g' n) = n_hashDepfile (g_node g n)"
    and "\<And>r. n_child (g_node g n) = Some r \<Longrightarrow> r_hash (g_rule g' r) = r_hash (g_rule g r) \<and> r_hashDepfile (g_rule g' r) = r_hashDepfile (g_rule g r)"
  shows "node_hash_ok sha w g' n = node_hash_ok sha w g n"
  using assms(2-4) by (auto simp: node_hash_ok_def node_hash_def node_hashDepfile_def skelD [OF assms(1)] split: option.splits)

lemma rule_hash_ok_cong:
  assumes "skel g' = skel g" "r_hash (g_rule g' r) = r_hash (g_rule g r)" "r_hashDepfile (g_rule g' r) = r_hashDepfile (g_rule g r)"
    and "\<And>n. n \<in> set (r_inputs (g_rule g r)) \<Longrightarrow> n_hash (g_node g' n) = n_hash (g_node g n) \<and> n_hashDepfile (g_node g' n) = n_hashDepfile (g_node g n)"
  shows "rule_hash_ok sha g' r = rule_hash_ok sha g r"
proof -
  have ex: "explicit_inputs (g_rule g' r) = explicit_inputs (g_rule g r)" by (simp add: explicit_inputs_def skelD [OF assms(1)])
  have "set (explicit_inputs (g_rule g r)) \<subseteq> set (r_inputs (g_rule g r))" by (auto simp: explicit_inputs_def dest: in_set_takeD)
  then have maps: "map (\<lambda>n. n_hashDepfile (g_node g' n)) (explicit_inputs (g_rule g r)) = map (\<lambda>n. n_hashDepfile (g_node g n)) (explicit_inputs (g_rule g r))"
    "map (\<lambda>n. n_hash (g_node g' n)) (r_inputs (g_rule g r)) = map (\<lambda>n. n_hash (g_node g n)) (r_inputs (g_rule g r))"
    using assms(4) by (auto intro!: map_cong)
  show ?thesis
    unfolding rule_hash_ok_def rule_hash_def rule_hashDepfile_def ex skelD [OF assms(1)] assms(2,3) maps ..
qed

text \<open>The end of \<open>updateNode\<close>: the node is marked if its rule is stale, and hashed if it is new.\<close>

lemma setState_hash [simp]:
  "n_hash (g_node (Node_setState n st g) m) = n_hash (g_node g m)" "n_hashDepfile (g_node (Node_setState n st g) m) = n_hashDepfile (g_node g m)"
  "g_rule (Node_setState n st g) = g_rule g" "n_path (g_node (Node_setState n st g) m) = n_path (g_node g m)"
  "n_child (g_node (Node_setState n st g) m) = n_child (g_node g m)" "n_timestamp (g_node (Node_setState n st g) m) = n_timestamp (g_node g m)"
  "Node_isDirty (Node_setState n st g) m \<longleftrightarrow> (if m = n then st = OUT_OF_DATE else Node_isDirty g m)"
  by (auto simp: Node_setState_def Node_isDirty_def)

lemma set_node_hashes_isDirty [simp]: "Node_isDirty (set_node_hashes n h d g) m = Node_isDirty g m"
  by (simp add: Node_isDirty_def set_node_hashes_def)

lemma scanned_node:
  assumes sc: "scanned sha w g0 A V S g" and sha: "\<And>x. sha x \<noteq> []"
    and child: "\<And>r. n_child (g_node g0 n) = Some r \<Longrightarrow> r \<in> S"
    and g1: "g1 = (if stale_node g0 n then Node_setState n OUT_OF_DATE g else g)"
    and g2: "g2 = (if n \<in> V then g1 else set_node_hashes n (node_hash sha w g1 n) (node_hashDepfile sha w g1 n) g1)"
  shows "scanned sha w g0 A (insert n V) S g2"
proof -
  have sk: "skel g1 = skel g0" "skel g2 = skel g0" using sc g1 g2 by (auto simp: scanned_def)
  have rules: "g_rule g2 = g_rule g" using g1 g2 by simp
  have hash: "n_hash (g_node g2 m) = n_hash (g_node g m)" "n_hashDepfile (g_node g2 m) = n_hashDepfile (g_node g m)"
    if "m \<noteq> n \<or> n \<in> V" for m using that g1 g2 by auto
  have old: "\<And>m. Node_isDirty g m \<longleftrightarrow> m \<in> V \<and> stale_node g0 m \<or> Node_isSource g0 m \<and> (\<exists>r \<in> S. newer g0 r m)"
    and nodes: "\<And>m. m \<in> V \<Longrightarrow> node_hash_ok sha w g m" and rhash: "\<And>r. r \<in> S \<Longrightarrow> rule_hash_ok sha g r"
    and inputs: "\<And>r. r \<in> S \<Longrightarrow> set (r_inputs (g_rule g0 r)) \<subseteq> V"
    using sc by (auto simp: scanned_def)
  have skg: "skel g2 = skel g" using sk sc by (simp add: scanned_def)
  have dirty: "Node_isDirty g2 m \<longleftrightarrow> m \<in> insert n V \<and> stale_node g0 m \<or> Node_isSource g0 m \<and> (\<exists>r \<in> S. newer g0 r m)" for m
    using old [of m] g1 g2 by auto
  have nok: "node_hash_ok sha w g2 m" if "m \<in> insert n V" for m
  proof (cases "m = n \<and> n \<notin> V")
    case True
    then show ?thesis using g2 by (auto simp: node_hash_ok_def node_hash_def node_hashDepfile_def split: option.split)
  next
    case False
    then have "m \<in> V" "m \<noteq> n \<or> n \<in> V" using that by auto
    then show ?thesis using node_hash_ok_cong [OF skg hash] nodes rules by simp
  qed
  have rok: "rule_hash_ok sha g2 r" if "r \<in> S" for r
  proof -
    have "rule_hash_ok sha g2 r = rule_hash_ok sha g r"
    proof (rule rule_hash_ok_cong [OF skg])
      fix m assume "m \<in> set (r_inputs (g_rule g r))"
      then have "m \<in> V" using inputs [OF that] sc by (auto simp: scanned_def skelD [of g g0])
      then show "n_hash (g_node g2 m) = n_hash (g_node g m) \<and> n_hashDepfile (g_node g2 m) = n_hashDepfile (g_node g m)"
        using hash [of m] by auto
    qed (simp_all add: rules)
    then show ?thesis using rhash [OF that] by simp
  qed
  have "\<forall>m. m \<notin> insert n V \<longrightarrow> n_hash (g_node g2 m) = [] \<and> n_hashDepfile (g_node g2 m) = []"
    using sc hash by (auto simp: scanned_def)
  moreover have "Rule_isDirty g2 r = Rule_isDirty g r" for r by (simp add: Rule_isDirty_def rules)
  ultimately show ?thesis using sc sk(2) dirty nok rok child rules unfolding scanned_def by (auto simp: subset_iff)
qed

lemma compare_loop:
  "\<exists>g'. fold (\<lambda>input (atLeastOneDirty, g).
          if n_timestamp (g_node g input) > t (g :: graph)
          then (True, if Node_isSource g input then Node_setState input OUT_OF_DATE g else g)
          else (atLeastOneDirty, g)) ns (d, g) = (d \<or> (\<exists>n \<in> set ns. t g < n_timestamp (g_node g n)), g') \<and>
      skel g' = skel g \<and> g_rule g' = g_rule g \<and>
      (\<forall>m. n_hash (g_node g' m) = n_hash (g_node g m) \<and> n_hashDepfile (g_node g' m) = n_hashDepfile (g_node g m)) \<and>
      (\<forall>m. Node_isDirty g' m \<longleftrightarrow> Node_isDirty g m \<or> m \<in> set ns \<and> Node_isSource g m \<and> t g < n_timestamp (g_node g m))"
  if t: "\<And>g n. t (Node_setState n OUT_OF_DATE g) = t g" for t
proof (induction ns arbitrary: d g)
  case (Cons n ns)
  let ?g = "if t g < n_timestamp (g_node g n) \<and> Node_isSource g n then Node_setState n OUT_OF_DATE g else g"
  have same: "t ?g = t g" "n_timestamp (g_node ?g m) = n_timestamp (g_node g m)" "Node_isSource ?g m = Node_isSource g m" for m
    by (simp_all add: t Node_isSource_def)
  show ?case using Cons [of "d \<or> t g < n_timestamp (g_node g n)" ?g] unfolding same
    by (auto simp: Node_isSource_def split: if_splits)
qed simp

lemma compareInputsWithOutputs_eq:
  assumes "r_outputs (g_rule g r) \<noteq> []" and "\<not> Rule_isPhony g r"
  shows "\<exists>g'. compareInputsWithOutputs r g = Inr (\<exists>n. newer g r n, g') \<and> skel g' = skel g \<and> g_rule g' = g_rule g \<and>
      (\<forall>m. n_hash (g_node g' m) = n_hash (g_node g m) \<and> n_hashDepfile (g_node g' m) = n_hashDepfile (g_node g m)) \<and>
      (\<forall>m. Node_isDirty g' m \<longleftrightarrow> Node_isDirty g m \<or> Node_isSource g m \<and> newer g r m)"
proof -
  obtain o1 os where os: "r_outputs (g_rule g r) = o1 # os" using assms(1) by (cases "r_outputs (g_rule g r)") auto
  define old where "old = min_element (\<lambda>n. n_timestamp (g_node g n)) o1 os"
  have old: "getOldestOutput g r = Inr old" "n_timestamp (g_node g old) = oldest g r"
    using min_element_eq [of "\<lambda>n. n_timestamp (g_node g n)" o1 os] os by (simp_all add: getOldestOutput_def old_def oldest_def)
  have "\<And>g n. n_timestamp (g_node (Node_setState n OUT_OF_DATE g) old) = n_timestamp (g_node g old)" by simp
  from compare_loop [of "\<lambda>g. n_timestamp (g_node g old)", OF this, of "r_inputs (g_rule g r)" False g]
  show ?thesis using old assms(2) by (fastforce simp: compareInputsWithOutputs_def newer_def)
qed

lemma set_rule_hashes_more [simp]:
  "r_state (g_rule (set_rule_hashes r h d g) q) = r_state (g_rule g q)" "r_numReady (g_rule (set_rule_hashes r h d g) q) = r_numReady (g_rule g q)"
  "Node_isDirty (set_rule_hashes r h d g) m = Node_isDirty g m" "q \<noteq> r \<Longrightarrow> g_rule (set_rule_hashes r h d g) q = g_rule g q"
  by (simp_all add: set_rule_hashes_def Node_isDirty_def)

text \<open>The end of \<open>updateRule\<close>.\<close>

lemma scanned_rule:
  assumes sc: "scanned sha w g0 (insert r A) V S g" and r: "r \<notin> A" "r \<in> set (g_rules g0)" and g0: "plain_graph g0"
    and sha: "\<And>x. sha x \<noteq> []" and inputs: "set (r_inputs (g_rule g0 r)) \<subseteq> V" and clean: "\<not> Rule_isDirty g r"
    and ready: "r_numReady (g_rule g r) = card {n \<in> set (r_inputs (g_rule g0 r)). \<not> stale_node g0 n}"
  shows "\<exists>g'. finish_rule sha al r (\<exists>n \<in> set (r_inputs (g_rule g0 r)). stale_node g0 n) (g, c, w) = Inr (stale g0 r, g', c, w) \<and>
     scanned sha w g0 A V (insert r S) g' \<and> (\<forall>q \<in> A. g_rule g' q = g_rule g q)"
proof -
  have sk: "skel g = skel g0" and rS: "r \<notin> S" "A \<inter> S = {}" using sc by (auto simp: scanned_def)
  note D = skelD [OF sk]
  define g1 where "g1 = set_rule_hashes r (rule_hash sha g r) (rule_hashDepfile sha g r) g"
  have upd: "updateRuleHash sha r True True g = Inr g1" unfolding g1_def
    by (rule updateRuleHash_eq) (use scanned_hash [OF sc sha] inputs in \<open>auto simp: D\<close>)
  have sk1: "skel g1 = skel g0" "skel g1 = skel g" using sk by (simp_all add: g1_def)
  note D1 = skelD [OF sk1(1)]
  have out: "r_outputs (g_rule g1 r) \<noteq> []" using g0 r(2) unfolding plain_graph_def wf_graph_def wf_rule_def by (simp add: D1)
  have src: "Node_isSource g1 m = Node_isSource g0 m" for m by (simp add: Node_isSource_def D1)
  have cmp: "\<exists>g2. (if \<not> Rule_isPhony g1 r then rbind (compareInputsWithOutputs r g1) (\<lambda>(newer, g). Inr (d \<or> newer, g)) else Inr (d, g1))
      = Inr (d \<or> (\<exists>n. newer g0 r n), g2) \<and> skel g2 = skel g1 \<and> g_rule g2 = g_rule g1 \<and>
      (\<forall>m. n_hash (g_node g2 m) = n_hash (g_node g1 m) \<and> n_hashDepfile (g_node g2 m) = n_hashDepfile (g_node g1 m)) \<and>
      (\<forall>m. Node_isDirty g2 m \<longleftrightarrow> Node_isDirty g1 m \<or> Node_isSource g0 m \<and> newer g0 r m)" for d
  proof (cases "Rule_isPhony g1 r")
    case True
    then have "\<not> newer g0 r m" for m by (simp add: newer_def Rule_isPhony_def D1)
    then show ?thesis using True by simp
  qed (use compareInputsWithOutputs_eq [OF out] in \<open>fastforce simp: skel_newer [OF sk1(1)] src\<close>)
  define d where "d = (\<exists>n \<in> set (r_inputs (g_rule g0 r)). stale_node g0 n)"
  have st: "(d \<or> (\<exists>n. newer g0 r n)) = stale g0 r" unfolding stale_iff [of g0 r] d_def by blast
  obtain g2 where g2: "(if \<not> Rule_isPhony g1 r then rbind (compareInputsWithOutputs r g1) (\<lambda>(newer, g). Inr (d \<or> newer, g)) else Inr (d, g1))
      = Inr (stale g0 r, g2)" and sk2: "skel g2 = skel g1" "g_rule g2 = g_rule g1"
    "\<And>m. n_hash (g_node g2 m) = n_hash (g_node g1 m)" "\<And>m. n_hashDepfile (g_node g2 m) = n_hashDepfile (g_node g1 m)"
    "\<And>m. Node_isDirty g2 m \<longleftrightarrow> Node_isDirty g1 m \<or> Node_isSource g0 m \<and> newer g0 r m"
    using cmp [of d] unfolding st by blast
  define g3 where "g3 = (if stale g0 r then Rule_setState r OUT_OF_DATE g2 else g2)"
  have "\<not> Rule_hasDepfile g1 r" using g0 by (simp add: plain_graph_def Rule_hasDepfile_def D1)
  then have eq: "finish_rule sha al r (\<exists>n \<in> set (r_inputs (g_rule g0 r)). stale_node g0 n) (g, c, w) = Inr (stale g0 r, g3, c, w)"
    unfolding d_def [symmetric] using upd g2 by (simp add: finish_rule_def g3_def)
  have node3: "g_node g3 = g_node g2" by (simp add: g3_def Rule_setState_def)
  have hash3: "n_hash (g_node g3 m) = n_hash (g_node g m)" "n_hashDepfile (g_node g3 m) = n_hashDepfile (g_node g m)" for m
    by (simp_all add: node3 sk2 g1_def)
  have rule3: "g_rule g3 q = g_rule g q" if "q \<noteq> r" for q using that by (simp add: g3_def Rule_setState_def sk2(2) g1_def)
  have self: "r_hash (g_rule g3 r) = rule_hash sha g r" "r_hashDepfile (g_rule g3 r) = rule_hashDepfile sha g r"
    "r_numReady (g_rule g3 r) = r_numReady (g_rule g r)" "Rule_isDirty g3 r \<longleftrightarrow> stale g0 r"
    using clean by (auto simp: g3_def Rule_setState_def sk2(2) g1_def Rule_isDirty_def)
  have sk3: "skel g3 = skel g" using sk1 sk2(1) by (simp add: g3_def)
  have dirty3: "Node_isDirty g3 m \<longleftrightarrow> Node_isDirty g m \<or> Node_isSource g0 m \<and> newer g0 r m" for m
    using sk2(5) [of m] by (simp add: Node_isDirty_def node3 g1_def)
  have rok: "rule_hash_ok sha g3 r"
    using self(1,2) hash3 by (simp add: rule_hash_ok_def rule_hash_def rule_hashDepfile_def explicit_inputs_def skelD [OF sk3])
  have rok': "rule_hash_ok sha g3 q" if "q \<in> S" for q
  proof -
    have "g_rule g3 q = g_rule g q" using rule3 [of q] that rS(1) by auto
    then have "rule_hash_ok sha g3 q = rule_hash_ok sha g q" using rule_hash_ok_cong [OF sk3, of q sha] hash3 by simp
    then show ?thesis using that sc by (simp add: scanned_def)
  qed
  have nok: "node_hash_ok sha w g3 m" if "m \<in> V" for m
  proof -
    have child: "q \<in> S" if "n_child (g_node g m) = Some q" for q using that \<open>m \<in> V\<close> sc by (auto simp: scanned_def D)
    have "node_hash_ok sha w g3 m = node_hash_ok sha w g m"
      by (rule node_hash_ok_cong [OF sk3 hash3]) (use child rule3 rS in fastforce)
    then show ?thesis using that sc by (simp add: scanned_def)
  qed
  have "scanned sha w g0 A V (insert r S) g3"
    unfolding scanned_def
  proof (intro conjI ballI allI impI)
    show "skel g3 = skel g0" using sk3 sk by simp
    show "A \<inter> insert r S = {}" using r(1) rS by auto
    show "insert r S \<subseteq> set (g_rules g0)" using r(2) sc by (auto simp: scanned_def)
    show "Node_isDirty g3 n \<longleftrightarrow> n \<in> V \<and> stale_node g0 n \<or> Node_isSource g0 n \<and> (\<exists>r \<in> insert r S. newer g0 r n)" for n
      using dirty3 [of n] sc by (auto simp: scanned_def)
    show "Rule_isDirty g3 q \<longleftrightarrow> stale g0 q" if "q \<in> insert r S" for q
      using that self(4) rule3 [of q] sc rS by (cases "q = r") (auto simp: scanned_def Rule_isDirty_def)
    show "r_numReady (g_rule g3 q) = card {n \<in> set (r_inputs (g_rule g0 q)). \<not> stale_node g0 n}" if "q \<in> insert r S" for q
      using that self(3) ready rule3 [of q] sc rS by (cases "q = r") (auto simp: scanned_def)
    show "g_rule g3 q = g_rule g0 q" if "q \<notin> A \<union> insert r S" for q using that rule3 [of q] sc by (auto simp: scanned_def)
    show "rule_hash_ok sha g3 q" if "q \<in> insert r S" for q using that rok rok' by auto
    show "n_hash (g_node g3 n) = []" "n_hashDepfile (g_node g3 n) = []" if "n \<notin> V" for n using that hash3 sc by (auto simp: scanned_def)
    show "q \<in> insert r S" if "n \<in> V" "n_child (g_node g0 n) = Some q" for n q using that sc by (auto simp: scanned_def)
    show "set (r_inputs (g_rule g0 q)) \<subseteq> V" if "q \<in> insert r S" for q using that inputs sc by (auto simp: scanned_def)
  qed (rule nok)
  moreover have "\<forall>q \<in> A. g_rule g3 q = g_rule g q" using rule3 r(1) by metis
  ultimately show ?thesis using eq by blast
qed

text \<open>Counting down the ready inputs of the rule that is being traversed.\<close>

lemma scanned_counter:
  assumes "scanned sha w g0 A V S g" and "r \<in> A"
  shows "scanned sha w g0 A V S (upd_rule r (\<lambda>rl. rl\<lparr>r_numReady := f rl\<rparr>) g)"
proof -
  let ?g = "upd_rule r (\<lambda>rl. rl\<lparr>r_numReady := f rl\<rparr>) g"
  have sk: "skel ?g = skel g" by simp
  have hash: "r_hash (g_rule ?g q) = r_hash (g_rule g q)" "r_hashDepfile (g_rule ?g q) = r_hashDepfile (g_rule g q)" for q by simp_all
  have "node_hash_ok sha w ?g n = node_hash_ok sha w g n" for n by (rule node_hash_ok_cong [OF sk]) simp_all
  moreover have "rule_hash_ok sha ?g q = rule_hash_ok sha g q" for q by (rule rule_hash_ok_cong [OF sk]) simp_all
  moreover have "Node_isDirty ?g n = Node_isDirty g n" "Rule_isDirty ?g q = Rule_isDirty g q" for n q
    by (simp_all add: Node_isDirty_def Rule_isDirty_def)
  moreover have "g_rule ?g q = g_rule g q" if "q \<noteq> r" for q using that by simp
  ultimately show ?thesis using assms unfolding scanned_def by (auto simp: disjoint_iff)
qed

text \<open>The rules being traversed lie above the node or rule that is visited next.\<close>

definition above :: "graph \<Rightarrow> rid set \<Rightarrow> nat \<Rightarrow> bool" where
  "above g A h \<longleftrightarrow> (\<forall>a \<in> A. \<forall>t \<in> set (r_outputs (g_rule g a)). height g t < h)"

definition node_visited ::
    "(string \<Rightarrow> string) \<Rightarrow> allocator \<Rightarrow> cache_manager option \<Rightarrow> world \<Rightarrow> graph \<Rightarrow> nat \<Rightarrow> nid \<Rightarrow> rid set \<Rightarrow> nid set \<Rightarrow> rid set \<Rightarrow> graph \<Rightarrow> bool" where
  "node_visited sha al c w g0 k n A V S g \<longleftrightarrow>
     (\<exists>g' V' S'. updateNode sha al k n (A \<union> S, g, c, w) = Inr (stale_node g0 n, A \<union> S', g', c, w) \<and>
        scanned sha w g0 A V' S' g' \<and> n \<in> V' \<and> V \<subseteq> V' \<and> (\<forall>q \<in> A. g_rule g' q = g_rule g q))"

definition rule_visited ::
    "(string \<Rightarrow> string) \<Rightarrow> allocator \<Rightarrow> cache_manager option \<Rightarrow> world \<Rightarrow> graph \<Rightarrow> nat \<Rightarrow> rid \<Rightarrow> rid set \<Rightarrow> nid set \<Rightarrow> rid set \<Rightarrow> graph \<Rightarrow> bool" where
  "rule_visited sha al c w g0 k r A V S g \<longleftrightarrow>
     (\<exists>g' V' S'. updateRule sha al k r (A \<union> S, g, c, w) = Inr (stale g0 r, A \<union> S', g', c, w) \<and>
        scanned sha w g0 A V' S' g' \<and> r \<in> S' \<and> V \<subseteq> V' \<and> (\<forall>q \<in> A. g_rule g' q = g_rule g q))"

text \<open>The loop of \<open>updateRule\<close> over the inputs.\<close>

definition inputs_scanned ::
    "(string \<Rightarrow> string) \<Rightarrow> graph \<Rightarrow> rid \<Rightarrow> rid set \<Rightarrow> nid set \<Rightarrow> graph \<Rightarrow> cache_manager option \<Rightarrow> world \<Rightarrow> nid list \<Rightarrow> bool \<times> scan_state \<Rightarrow> bool" where
  "inputs_scanned sha g0 r A V g c w ns = (\<lambda>(d, seen, g', c', w'). c' = c \<and> w' = w \<and> d = (\<exists>i \<in> set ns. stale_node g0 i) \<and>
     (\<exists>V' S'. seen = insert r A \<union> S' \<and> scanned sha w g0 (insert r A) V' S' g' \<and> set ns \<subseteq> V' \<and> V \<subseteq> V') \<and>
     (\<forall>q \<in> A. g_rule g' q = g_rule g q) \<and>
     g_rule g' r = (g_rule g0 r)\<lparr>r_numReady := length (r_inputs (g_rule g0 r)) - card {i \<in> set ns. stale_node g0 i}\<rparr>)"

lemma inputs_scanned_step:
  assumes IH: "\<And>V S g. scanned sha w g0 (insert r A) V S g \<Longrightarrow> node_visited sha al c w g0 k n (insert r A) V S g"
    and split: "r_inputs (g_rule g0 r) = ns @ n # rest" and dist: "distinct (r_inputs (g_rule g0 r))" and r: "r \<notin> A"
    and s: "inputs_scanned sha g0 r A V g c w ns (isDirty, s)"
  shows "\<exists>s'. rbind (updateNode sha al k n s) (\<lambda>(dirty, seen, g, cache, w).
             if dirty
             then (if \<not> Node_isSource g n
                   then rbind (Rule_markInputDirty r g) (\<lambda>g. Inr (True, seen, g, cache, w))
                   else Inr (True, seen, g, cache, w))
             else Inr (isDirty, seen, g, cache, w)) = Inr s' \<and> inputs_scanned sha g0 r A V g c w (ns @ [n]) s'"
proof -
  obtain g1 V1 S1 where s1: "s = (insert r A \<union> S1, g1, c, w)" "scanned sha w g0 (insert r A) V1 S1 g1" "set ns \<subseteq> V1" "V \<subseteq> V1"
    and fr: "\<forall>q \<in> A. g_rule g1 q = g_rule g q" and d: "isDirty = (\<exists>i \<in> set ns. stale_node g0 i)"
    and rl: "g_rule g1 r = (g_rule g0 r)\<lparr>r_numReady := length (r_inputs (g_rule g0 r)) - card {i \<in> set ns. stale_node g0 i}\<rparr>"
    using s by (cases s) (auto simp: inputs_scanned_def)
  obtain g2 V2 S2 where n: "updateNode sha al k n s = Inr (stale_node g0 n, insert r A \<union> S2, g2, c, w)"
    and sc: "scanned sha w g0 (insert r A) V2 S2 g2" "n \<in> V2" "V1 \<subseteq> V2" "\<forall>q \<in> insert r A. g_rule g2 q = g_rule g1 q"
    using IH [OF s1(2)] s1(1) by (auto simp: node_visited_def)
  have rl2: "g_rule g2 r = g_rule g1 r" "\<forall>q \<in> A. g_rule g2 q = g_rule g q" using sc(4) fr by auto
  have new: "n \<notin> set ns" using dist split by auto
  show ?thesis
  proof (cases "stale_node g0 n")
    case False
    then have "{i \<in> set (ns @ [n]). stale_node g0 i} = {i \<in> set ns. stale_node g0 i}" by auto
    then have "inputs_scanned sha g0 r A V g c w (ns @ [n]) (isDirty, insert r A \<union> S2, g2, c, w)"
      unfolding inputs_scanned_def prod.case
      by (intro conjI exI [of _ V2] exI [of _ S2]) (use sc False d rl rl2 s1(3,4) in auto)
    then show ?thesis using n False by simp
  next
    case True
    have src: "\<not> Node_isSource g2 n"
      using True sc(1) by (auto simp: stale_node_def Node_isSource_def scanned_def skelD [of g2 g0])
    let ?I = "r_inputs (g_rule g0 r)"
    have "{i \<in> set (ns @ [n]). stale_node g0 i} = insert n {i \<in> set ns. stale_node g0 i}" using True by auto
    then have card: "card {i \<in> set (ns @ [n]). stale_node g0 i} = Suc (card {i \<in> set ns. stale_node g0 i})" using new by simp
    have "card {i \<in> set (ns @ [n]). stale_node g0 i} \<le> card (set ?I)" by (rule card_mono) (use split in auto)
    also have "\<dots> = length ?I" by (rule distinct_card [OF dist])
    finally have pos: "card {i \<in> set ns. stale_node g0 i} < length ?I" using card by simp
    let ?g = "upd_rule r (\<lambda>rl. rl\<lparr>r_numReady := r_numReady rl - 1\<rparr>) g2"
    have mark: "Rule_markInputDirty r g2 = Inr ?g" using pos rl rl2(1) by (simp add: Rule_markInputDirty_def)
    have "scanned sha w g0 (insert r A) V2 S2 ?g" by (rule scanned_counter [OF sc(1)]) simp
    moreover have "g_rule ?g r = (g_rule g0 r)\<lparr>r_numReady := length ?I - card {i \<in> set (ns @ [n]). stale_node g0 i}\<rparr>"
      using rl rl2(1) card by simp
    moreover have "\<forall>q \<in> A. g_rule ?g q = g_rule g q" using rl2(2) r by auto
    ultimately have "inputs_scanned sha g0 r A V g c w (ns @ [n]) (True, insert r A \<union> S2, ?g, c, w)"
      unfolding inputs_scanned_def prod.case
      by (intro conjI exI [of _ V2] exI [of _ S2]) (use sc True s1(3,4) in auto)
    then show ?thesis using n True src mark by simp
  qed
qed

lemma rule_visited_step:
  assumes IH: "\<And>n V S g. n \<in> set (r_inputs (g_rule g0 r)) \<Longrightarrow> scanned sha w g0 (insert r A) V S g \<Longrightarrow>
      node_visited sha al c w g0 k n (insert r A) V S g"
    and g0: "unscanned g0" and sha: "\<And>x. sha x \<noteq> []" and r: "r \<in> set (g_rules g0)" "r \<notin> A"
    and sc: "scanned sha w g0 A V S g"
  shows "rule_visited sha al c w g0 (Suc k) r A V S g"
proof (cases "r \<in> S")
  case True
  then have "updateRule sha al (Suc k) r (A \<union> S, g, c, w) = Inr (stale g0 r, A \<union> S, g, c, w)"
    using sc by (simp add: updateRule.simps scanned_def)
  then show ?thesis unfolding rule_visited_def using True sc by blast
next
  case False
  let ?I = "r_inputs (g_rule g0 r)"
  have plain: "plain_graph g0" and dist: "distinct ?I" and fresh: "\<not> Rule_isDirty g0 r" "r_numReady (g_rule g0 r) = length ?I"
    using g0 r(1) wf_distinct(2) by (auto simp: unscanned_def plain_graph_def)
  have rule: "g_rule g r = g_rule g0 r" using sc r(2) False by (simp add: scanned_def)
  have sc0: "scanned sha w g0 (insert r A) V S g" using sc False by (auto simp: scanned_def)
  have start: "inputs_scanned sha g0 r A V g c w [] (False, insert r (A \<union> S), g, c, w)"
    unfolding inputs_scanned_def prod.case
    by (intro conjI exI [of _ V] exI [of _ S]) (use sc0 rule fresh(2) in auto)
  let ?f = "\<lambda>n (isDirty, s). rbind (updateNode sha al k n s) (\<lambda>(dirty, seen, g, cache, w).
      if dirty then (if \<not> Node_isSource g n then rbind (Rule_markInputDirty r g) (\<lambda>g. Inr (True, seen, g, cache, w))
                     else Inr (True, seen, g, cache, w))
      else Inr (isDirty, seen, g, cache, w))"
  have "\<exists>s'. foldM ?f ?I (False, insert r (A \<union> S), g, c, w) = Inr s' \<and> inputs_scanned sha g0 r A V g c w ?I s'"
  proof (rule foldM_total [where P = "inputs_scanned sha g0 r A V g c w"])
    fix ns n rest s assume split: "?I = ns @ n # rest" and s: "inputs_scanned sha g0 r A V g c w ns s"
    have n: "n \<in> set ?I" using split by simp
    obtain d s1 where "s = (d, s1)" by (cases s)
    then show "\<exists>s'. ?f n s = Inr s' \<and> inputs_scanned sha g0 r A V g c w (ns @ [n]) s'"
      using inputs_scanned_step [OF IH [OF n] split dist r(2), of V g d s1] s by simp
  qed (rule start)
  then obtain d g1 V1 S1 where loop: "foldM ?f ?I (False, insert r (A \<union> S), g, c, w) = Inr (d, insert r A \<union> S1, g1, c, w)"
    and d: "d = (\<exists>i \<in> set ?I. stale_node g0 i)" and sc1: "scanned sha w g0 (insert r A) V1 S1 g1" "set ?I \<subseteq> V1" "V \<subseteq> V1"
    and fr: "\<forall>q \<in> A. g_rule g1 q = g_rule g q"
    and rl: "g_rule g1 r = (g_rule g0 r)\<lparr>r_numReady := length ?I - card {i \<in> set ?I. stale_node g0 i}\<rparr>"
    by (auto simp: inputs_scanned_def)
  have "card {i \<in> set ?I. stale_node g0 i} + card {i \<in> set ?I. \<not> stale_node g0 i} = length ?I"
    using sum_length_filter_compl [of "stale_node g0" ?I] by (simp add: card_set_filter_distinct [OF dist])
  then have ready: "r_numReady (g_rule g1 r) = card {i \<in> set ?I. \<not> stale_node g0 i}" using rl by simp
  have clean: "\<not> Rule_isDirty g1 r" using rl fresh(1) by (simp add: Rule_isDirty_def)
  obtain g2 where g2: "finish_rule sha al r d (g1, c, w) = Inr (stale g0 r, g2, c, w)"
    "scanned sha w g0 A V1 (insert r S1) g2" "\<forall>q \<in> A. g_rule g2 q = g_rule g1 q"
    using scanned_rule [OF sc1(1) r(2,1) plain sha sc1(2) clean ready] d by blast
  have nin: "r \<notin> A \<union> S" using r(2) False by simp
  have "updateRule sha al (Suc k) r (A \<union> S, g, c, w) = Inr (stale g0 r, A \<union> insert r S1, g2, c, w)"
    using nin loop g2(1) rule by (simp add: updateRule.simps)
  moreover have "\<forall>q \<in> A. g_rule g2 q = g_rule g q" using g2(3) fr by simp
  ultimately show ?thesis unfolding rule_visited_def using g2(2) sc1(3) by blast
qed

lemma node_visited_step:
  assumes IH: "\<And>r. n_child (g_node g0 n) = Some r \<Longrightarrow> rule_visited sha al c w g0 k r A V S g"
    and sha: "\<And>x. sha x \<noteq> []" and sc: "scanned sha w g0 A V S g"
  shows "node_visited sha al c w g0 (Suc k) n A V S g"
proof -
  have child0: "n_child (g_node g n) = n_child (g_node g0 n)" using sc by (auto simp: scanned_def skelD [of g g0])
  have "\<exists>g1 V1 S1. (case n_child (g_node g n) of None \<Rightarrow> Inr (False, A \<union> S, g, c, w)
        | Some r \<Rightarrow> rbind (updateRule sha al k r (A \<union> S, g, c, w)) (\<lambda>(dirty, seen, g, cache, w).
              Inr (dirty, seen, if dirty then Node_setState n OUT_OF_DATE g else g, cache, w)))
      = Inr (stale_node g0 n, A \<union> S1, if stale_node g0 n then Node_setState n OUT_OF_DATE g1 else g1, c, w) \<and>
      scanned sha w g0 A V1 S1 g1 \<and> (\<forall>r. n_child (g_node g0 n) = Some r \<longrightarrow> r \<in> S1) \<and> V \<subseteq> V1 \<and> (\<forall>q \<in> A. g_rule g1 q = g_rule g q)"
  proof (cases "n_child (g_node g0 n)")
    case None
    then have "\<not> stale_node g0 n" by (simp add: stale_node_def)
    then show ?thesis using None child0 sc by auto
  next
    case (Some r)
    then have st: "stale_node g0 n = stale g0 r" by (simp add: stale_node_def)
    obtain g1 V1 S1 where "updateRule sha al k r (A \<union> S, g, c, w) = Inr (stale g0 r, A \<union> S1, g1, c, w)"
      "scanned sha w g0 A V1 S1 g1" "r \<in> S1" "V \<subseteq> V1" "\<forall>q \<in> A. g_rule g1 q = g_rule g q"
      using IH [OF Some] by (auto simp: rule_visited_def)
    then show ?thesis using Some child0 st by (intro exI [of _ g1] exI [of _ V1] exI [of _ S1]) simp
  qed
  then obtain g1 V1 S1 where run: "(case n_child (g_node g n) of None \<Rightarrow> Inr (False, A \<union> S, g, c, w)
        | Some r \<Rightarrow> rbind (updateRule sha al k r (A \<union> S, g, c, w)) (\<lambda>(dirty, seen, g, cache, w).
              Inr (dirty, seen, if dirty then Node_setState n OUT_OF_DATE g else g, cache, w)))
      = Inr (stale_node g0 n, A \<union> S1, if stale_node g0 n then Node_setState n OUT_OF_DATE g1 else g1, c, w)"
    and sc1: "scanned sha w g0 A V1 S1 g1" and child: "\<And>r. n_child (g_node g0 n) = Some r \<Longrightarrow> r \<in> S1"
    and V1: "V \<subseteq> V1" and fr: "\<forall>q \<in> A. g_rule g1 q = g_rule g q" by blast
  define g2 where "g2 = (if stale_node g0 n then Node_setState n OUT_OF_DATE g1 else g1)"
  define g3 where "g3 = (if n \<in> V1 then g2 else set_node_hashes n (node_hash sha w g2 n) (node_hashDepfile sha w g2 n) g2)"
  have sc3: "scanned sha w g0 A (insert n V1) S1 g3" by (rule scanned_node [OF sc1 sha child g2_def g3_def])
  have hash2: "n_hash (g_node g2 n) = n_hash (g_node g1 n)" "n_hashDepfile (g_node g2 n) = n_hashDepfile (g_node g1 n)" "g_rule g2 = g_rule g1"
    "n_child (g_node g2 n) = n_child (g_node g0 n)"
    using sc1 by (auto simp: g2_def scanned_def skelD [of g1 g0])
  have upd: "\<exists>b. updateNodeHash sha w n True True g2 = Inr (b, g3)" if "n \<notin> V1"
  proof -
    have "n_hash (g_node g1 n) = []" "n_hashDepfile (g_node g1 n) = []" using sc1 that by (auto simp: scanned_def)
    then show ?thesis using updateNodeHash_eq [of g2 n sha w] hash2 child scanned_hash(3) [OF sc1 sha] that by (simp add: g3_def)
  qed
  have "updateNode sha al (Suc k) n (A \<union> S, g, c, w) = Inr (stale_node g0 n, A \<union> S1, g3, c, w)"
    using run [folded g2_def] upd scanned_hash(1) [OF sc1 sha, of n] hash2(1) by (auto simp: updateNode.simps g3_def)
  moreover have "\<forall>q \<in> A. g_rule g3 q = g_rule g q" using fr hash2(3) by (simp add: g3_def)
  ultimately show ?thesis unfolding node_visited_def using sc3 V1 by blast
qed

lemma traversal:
  assumes g0: "unscanned g0" and sha: "\<And>x. sha x \<noteq> []"
  shows "scanned sha w g0 A V S g \<Longrightarrow> n \<in> live g0 \<Longrightarrow> above g0 A (height g0 n) \<Longrightarrow> 2 * (card (live g0) - height g0 n) \<le> k \<Longrightarrow>
      node_visited sha al c w g0 k n A V S g"
    and "scanned sha w g0 A V S g \<Longrightarrow> r \<in> set (g_rules g0) \<Longrightarrow> r \<notin> A \<Longrightarrow> (\<forall>i \<in> set (r_inputs (g_rule g0 r)). above g0 A (height g0 i)) \<Longrightarrow>
      (\<forall>i \<in> set (r_inputs (g_rule g0 r)). 2 * (card (live g0) - height g0 i) + 1 \<le> k) \<Longrightarrow> 0 < k \<Longrightarrow>
      rule_visited sha al c w g0 k r A V S g"
proof (induction k arbitrary: n r A V S g)
  case 0
  {
    case 1
    then show ?case using height_bound [of g0 n] g0 by (auto simp: unscanned_def plain_graph_def)
  next
    case 2
    then show ?case by simp
  }
next
  case (Suc k)
  have g: "wf_graph g0" "acyclic_graph g0" using g0 by (auto simp: unscanned_def plain_graph_def)
  have lower: "height g0 t < height g0 i" if "q \<in> set (g_rules g0)" "i \<in> set (r_inputs (g_rule g0 q))" "t \<in> set (r_outputs (g_rule g0 q))" for q i t
    by (rule height_less [OF g]) (use that in \<open>auto simp: dep_edges_def\<close>)
  {
    case 1
    show ?case
    proof (rule node_visited_step [OF _ sha 1(1)])
      fix r assume r: "n_child (g_node g0 n) = Some r"
      note rr = wf_child [OF g(1) 1(2) r]
      have up: "height g0 n < height g0 i" if "i \<in> set (r_inputs (g_rule g0 r))" for i using lower that rr by blast
      have bound: "2 * (card (live g0) - height g0 i) + 1 \<le> k" if "i \<in> set (r_inputs (g_rule g0 r))" for i
        using up [OF that] 1(4) height_bound [OF g 1(2)] by linarith
      have "r \<notin> A" using 1(3) rr by (auto simp: above_def)
      moreover have "above g0 A (height g0 i)" if "i \<in> set (r_inputs (g_rule g0 r))" for i
        using up [OF that] 1(3) by (force simp: above_def)
      moreover have "0 < k" using 1(4) height_bound [OF g 1(2)] by linarith
      ultimately show "rule_visited sha al c w g0 k r A V S g" using Suc.IH(2) [OF 1(1)] rr bound by blast
    qed
  next
    case 2
    show ?case
    proof (rule rule_visited_step [OF _ g0 sha 2(2,3,1)])
      fix i V S g assume i: "i \<in> set (r_inputs (g_rule g0 n))" and sc: "scanned sha w g0 (insert n A) V S g"
      have "above g0 (insert n A) (height g0 i)" using 2(4) i lower [OF 2(2) i] by (auto simp: above_def)
      moreover have "2 * (card (live g0) - height g0 i) \<le> k" using 2(5) i by fastforce
      ultimately show "node_visited sha al c w g0 k i (insert n A) V S g"
        using Suc.IH(1) [OF sc] wf_input [OF g(1) 2(2) i] by blast
    qed
  }
qed

section \<open>The whole scan\<close>

text \<open>Reading the time stamps: a graph whose nodes differ only in their time stamps.\<close>

definition set_times :: "(nid \<Rightarrow> timestamp) \<Rightarrow> graph \<Rightarrow> graph" where
  "set_times f g = g\<lparr>g_node := (\<lambda>n. (g_node g n)\<lparr>n_timestamp := f n\<rparr>)\<rparr>"

definition stat_time :: "(string \<Rightarrow> timestamp option) \<Rightarrow> graph \<Rightarrow> nid \<Rightarrow> timestamp" where
  "stat_time stat g n =
     (if \<exists>r. n_child (g_node g n) = Some r \<and> Rule_isPhony g r then n_timestamp (g_node g n)
      else case stat (n_path (g_node g n)) of None \<Rightarrow> 0 | Some t \<Rightarrow> t)"

lemma set_times_sel [simp]:
  "g_rule (set_times f g) = g_rule g" "g_nodes (set_times f g) = g_nodes g" "g_rules (set_times f g) = g_rules g"
  "g_roots (set_times f g) = g_roots g" "g_sources (set_times f g) = g_sources g" "live (set_times f g) = live g"
  "n_child (g_node (set_times f g) n) = n_child (g_node g n)" "n_parents (g_node (set_times f g) n) = n_parents (g_node g n)"
  "n_path (g_node (set_times f g) n) = n_path (g_node g n)" "n_state (g_node (set_times f g) n) = n_state (g_node g n)"
  "n_hash (g_node (set_times f g) n) = n_hash (g_node g n)" "n_hashDepfile (g_node (set_times f g) n) = n_hashDepfile (g_node g n)"
  "n_timestamp (g_node (set_times f g) n) = f n"
  by (simp_all add: set_times_def live_def)

lemma stat_all_eq:
  "stat_all stat g = set_times (\<lambda>n. if n \<in> live g then stat_time stat g n else n_timestamp (g_node g n)) g"
proof -
  have "fold (\<lambda>n g. case n_child (g_node g n) of None \<Rightarrow> statNode stat n g
        | Some r \<Rightarrow> if Rule_isPhony g r then g else statNode stat n g) ns (set_times (\<lambda>n. if n \<in> N then stat_time stat g n else n_timestamp (g_node g n)) g)
      = set_times (\<lambda>n. if n \<in> N \<union> set ns then stat_time stat g n else n_timestamp (g_node g n)) g" for ns N
  proof (induction ns arbitrary: N)
    case (Cons n ns)
    let ?g = "set_times (\<lambda>n. if n \<in> N then stat_time stat g n else n_timestamp (g_node g n)) g"
    have "(case n_child (g_node ?g n) of None \<Rightarrow> statNode stat n ?g
        | Some r \<Rightarrow> if Rule_isPhony ?g r then ?g else statNode stat n ?g)
        = set_times (\<lambda>m. if m \<in> insert n N then stat_time stat g m else n_timestamp (g_node g m)) g"
      by (auto simp: statNode_def Node_setTimestamp_def upd_node_def set_times_def stat_time_def Rule_isPhony_def fun_eq_iff
          intro!: graph.equality split: option.split)
    then show ?case using Cons [of "insert n N"] by simp
  qed simp
  from this [of "map snd (g_nodes g)" "{}"] show ?thesis by (simp add: stat_all_def live_def set_times_def)
qed

lemma unscanned_times: "unscanned (set_times f g) = unscanned g"
proof -
  have "plain_graph (set_times f g) = plain_graph g"
    by (simp add: plain_graph_def wf_graph_def wf_node_def wf_rule_def acyclic_graph_def dep_edges_def cong: option.case_cong)
  then show ?thesis by (simp add: unscanned_def Node_isDirty_def Rule_isDirty_def)
qed

text \<open>Every node lies below a root, so the traversal from the roots visits all nodes and rules.\<close>

lemma closed_from_roots:
  assumes g: "wf_graph g" "acyclic_graph g" and roots: "g_roots g \<subseteq> V"
    and child: "\<forall>n \<in> V. \<forall>r. n_child (g_node g n) = Some r \<longrightarrow> r \<in> S" and inputs: "\<forall>r \<in> S. set (r_inputs (g_rule g r)) \<subseteq> V"
  shows "live g \<subseteq> V" and "set (g_rules g) \<subseteq> S"
proof -
  have "n \<in> live g \<Longrightarrow> n \<in> V" for n
  proof (induction "height g n" arbitrary: n rule: less_induct)
    case less
    show ?case
    proof (cases "n_parents (g_node g n)")
      case Nil
      then have "n \<in> g_roots g" using g(1) less.prems by (simp add: wf_graph_def)
      then show ?thesis using roots by blast
    next
      case (Cons q qs)
      then have q: "q \<in> set (g_rules g)" "n \<in> set (r_inputs (g_rule g q))" using wf_parent [OF g(1) less.prems, of q] by auto
      obtain t where t: "t \<in> set (r_outputs (g_rule g q))"
        using g(1) q(1) unfolding wf_graph_def wf_rule_def by (metis hd_in_set)
      have "height g t < height g n" by (rule height_less [OF g]) (use q t in \<open>auto simp: dep_edges_def\<close>)
      then have "t \<in> V" using less.hyps wf_output [OF g(1) q(1) t] by blast
      then show ?thesis using child inputs wf_output [OF g(1) q(1) t] q(2) by blast
    qed
  qed
  then show live: "live g \<subseteq> V" by blast
  show "set (g_rules g) \<subseteq> S"
  proof
    fix r assume r: "r \<in> set (g_rules g)"
    then obtain t where "t \<in> set (r_outputs (g_rule g r))"
      using g(1) unfolding wf_graph_def wf_rule_def by (metis hd_in_set)
    then show "r \<in> S" using wf_output [OF g(1) r] live child by blast
  qed
qed

lemma scanned_counters:
  assumes sc: "scanned sha w g0 {} V S g" and g0: "wf_graph g0" and all: "live g0 \<subseteq> V" "set (g_rules g0) \<subseteq> S"
  shows "counters_ok g"
  unfolding counters_ok_def counter_ok_def
proof
  fix r assume "r \<in> set (g_rules g)"
  then have r: "r \<in> set (g_rules g0)" "r \<in> S" using sc all(2) by (auto simp: scanned_def skelD [of g g0])
  have I: "r_inputs (g_rule g r) = r_inputs (g_rule g0 r)" using sc by (auto simp: scanned_def skelD [of g g0])
  have "input_ready g n \<longleftrightarrow> \<not> stale_node g0 n" if "n \<in> set (r_inputs (g_rule g0 r))" for n
  proof -
    have "n \<in> V" using wf_input [OF g0 r(1) that] all(1) by blast
    moreover have "Node_isSource g n = Node_isSource g0 n" using sc by (auto simp: scanned_def Node_isSource_def skelD [of g g0])
    ultimately show ?thesis using sc by (auto simp: scanned_def input_ready_def stale_node_def Node_isSource_def)
  qed
  then have "{n \<in> set (r_inputs (g_rule g0 r)). \<not> stale_node g0 n} = {n \<in> set (r_inputs (g_rule g0 r)). input_ready g n}" by auto
  then show "r_numReady (g_rule g r) = length (filter (input_ready g) (r_inputs (g_rule g r)))"
    using sc r(2) wf_distinct(2) [OF g0 r(1)] by (simp add: scanned_def I card_set_filter_distinct)
qed

lemma scan_correct:
  assumes g: "unscanned g" and sha: "\<And>x. sha x \<noteq> []" and k: "2 * card (live g) \<le> k"
  shows "\<exists>g' V S. scan sha al k stat (g, c, w) = Inr (g', c, w) \<and> scanned sha w (stat_all stat g) {} V S g' \<and>
     live g \<subseteq> V \<and> set (g_rules g) \<subseteq> S"
proof -
  let ?g0 = "stat_all stat g"
  have g0: "unscanned ?g0" and same: "live ?g0 = live g" "g_roots ?g0 = g_roots g" "g_rules ?g0 = g_rules g"
    using g by (simp_all add: stat_all_eq unscanned_times)
  then have wf: "wf_graph ?g0" "acyclic_graph ?g0" by (auto simp: unscanned_def plain_graph_def)
  have fin: "finite (g_roots ?g0)" and roots: "g_roots ?g0 \<subseteq> live ?g0" using wf(1) by (auto simp: wf_graph_def)
  let ?ns = "sorted_list_of_set (g_roots ?g0)"
  let ?P = "\<lambda>ns (seen, g', c', w'). \<exists>V. c' = c \<and> w' = w \<and> scanned sha w ?g0 {} V seen g' \<and> set ns \<subseteq> V"
  have "\<exists>s. foldM (\<lambda>n s. rbind (updateNode sha al k n s) (\<lambda>(_, s). Inr s)) ?ns ({}, ?g0, c, w) = Inr s \<and> ?P ?ns s"
  proof (rule foldM_total [where P = ?P])
    have "scanned sha w ?g0 {} {} {} ?g0" using g0 by (auto simp: scanned_def unscanned_def)
    then show "?P [] ({}, ?g0, c, w)" by auto
  next
    fix ns n rest s assume split: "?ns = ns @ n # rest" and s: "?P ns s"
    obtain S g1 V where s1: "s = (S, g1, c, w)" "scanned sha w ?g0 {} V S g1" "set ns \<subseteq> V" using s by (cases s) auto
    have "n \<in> set ?ns" using split by simp
    then have n: "n \<in> live ?g0" using fin roots by auto
    have "node_visited sha al c w ?g0 k n {} V S g1"
      by (rule traversal(1) [OF g0 sha s1(2) n]) (use k same in \<open>auto simp: above_def\<close>)
    then obtain g2 V2 S2 where "updateNode sha al k n s = Inr (stale_node ?g0 n, S2, g2, c, w)" "scanned sha w ?g0 {} V2 S2 g2" "n \<in> V2" "V \<subseteq> V2"
      using s1(1) by (auto simp: node_visited_def)
    then show "\<exists>s'. rbind (updateNode sha al k n s) (\<lambda>(_, s). Inr s) = Inr s' \<and> ?P (ns @ [n]) s'"
      using s1(3) by (auto intro!: exI [of _ V2])
  qed
  then obtain S g' V where run: "foldM (\<lambda>n s. rbind (updateNode sha al k n s) (\<lambda>(_, s). Inr s)) ?ns ({}, ?g0, c, w) = Inr (S, g', c, w)"
    and sc: "scanned sha w ?g0 {} V S g'" and V: "g_roots ?g0 \<subseteq> V" using fin by auto
  have "live ?g0 \<subseteq> V" "set (g_rules ?g0) \<subseteq> S"
    using closed_from_roots [OF wf V] sc by (auto simp: scanned_def)
  then show ?thesis using run sc same by (auto simp: scan_def Let_def)
qed

section \<open>Properties\<close>

lemma skel_wf:
  assumes "skel g' = skel g"
  shows "wf_graph g' = wf_graph g"
proof -
  have "live g' = live g" by (simp add: live_def skelD [OF assms])
  then show ?thesis by (simp add: wf_graph_def wf_node_def wf_rule_def skelD [OF assms] cong: option.case_cong)
qed

lemma scan_marks:
  assumes "unscanned g" and "\<forall>x. sha x \<noteq> []" and "2 * length (g_nodes g) \<le> k"
  shows "\<exists>g'. scan sha al k stat (g, c, w) = Inr (g', c, w) \<and> skel g' = skel (stat_all stat g) \<and> wf_graph g' \<and> counters_ok g' \<and> hashes_ok sha w g' \<and>
     (\<forall>r \<in> set (g_rules g). Rule_isDirty g' r \<longleftrightarrow> stale (stat_all stat g) r) \<and>
     (\<forall>n \<in> live g. Node_isDirty g' n \<longleftrightarrow>
        (if Node_isSource g n then \<exists>r \<in> set (g_rules g). newer (stat_all stat g) r n else stale_node (stat_all stat g) n))"
proof -
  let ?g0 = "stat_all stat g"
  have "2 * card (live g) \<le> k" using card_live_le [of g] assms(3) by simp
  then obtain g' V S where run: "scan sha al k stat (g, c, w) = Inr (g', c, w)" and sc: "scanned sha w ?g0 {} V S g'"
    and all: "live g \<subseteq> V" "set (g_rules g) \<subseteq> S"
    using scan_correct [of g sha k al stat c w] assms(1,2) by blast
  have g0: "unscanned ?g0" and same: "live ?g0 = live g" "g_rules ?g0 = g_rules g" "\<And>n. Node_isSource ?g0 n = Node_isSource g n"
    using assms(1) by (simp_all add: stat_all_eq unscanned_times Node_isSource_def)
  then have wf: "wf_graph ?g0" by (simp add: unscanned_def plain_graph_def)
  have sk: "skel g' = skel ?g0" and S: "S = set (g_rules g)" using sc all(2) same(2) by (auto simp: scanned_def)
  have live': "live g' = live g" "g_rules g' = g_rules g" using same by (simp_all add: live_def skelD [OF sk])
  have "counters_ok g'" using scanned_counters [OF sc wf] all same by simp
  moreover have "hashes_ok sha w g'" using sc all live' by (auto simp: hashes_ok_def scanned_def)
  moreover have "Node_isDirty g' n \<longleftrightarrow> (if Node_isSource g n then \<exists>r \<in> set (g_rules g). newer ?g0 r n else stale_node ?g0 n)"
    if "n \<in> live g" for n
    using that sc all(1) S same(3) [of n] by (auto simp: scanned_def stale_node_def Node_isSource_def)
  moreover have "Rule_isDirty g' r \<longleftrightarrow> stale ?g0 r" if "r \<in> set (g_rules g)" for r using that sc S by (simp add: scanned_def)
  ultimately show ?thesis using run sk skel_wf [OF sk] wf by blast
qed

text \<open>C8. On a freshly parsed graph without depfiles the startup scan returns (twice the number of nodes bounds
  the recursion) and its marks are the declarative ones, relative to the time stamps that \<open>stat\<close> returned: a rule
  is dirty exactly if it is stale, that is, one of its inputs is newer than its oldest output or is generated by
  a stale rule; a generated node is dirty exactly if its rule is stale, a source file exactly if it is newer than
  the oldest output of a rule that consumes it. The ready counters fit these states, and all hashes are right.\<close>

theorem scan_marks_stale:
  assumes "unscanned g" and "\<forall>x. sha x \<noteq> []" and "2 * length (g_nodes g) \<le> k"
  shows "\<exists>g'. scan sha al k stat (g, c, w) = Inr (g', c, w) \<and> wf_graph g' \<and> counters_ok g' \<and> hashes_ok sha w g' \<and>
     (\<forall>r \<in> set (g_rules g). Rule_isDirty g' r \<longleftrightarrow> stale (stat_all stat g) r) \<and>
     (\<forall>n \<in> live g. Node_isDirty g' n \<longleftrightarrow>
        (if Node_isSource g n then \<exists>r \<in> set (g_rules g). newer (stat_all stat g) r n else stale_node (stat_all stat g) n))"
  using scan_marks [OF assms] by blast

text \<open>An example: one source file, newer than the output of the first of the two rules that consume it and older
  than the output of the second.\<close>

definition fork_graph :: graph where
  "fork_graph = Graph_empty\<lparr>
     g_node := (g_node Graph_empty)(1 := chain_node ''a'' None [1, 2], 2 := chain_node ''b'' (Some 1) [], 3 := chain_node ''c'' (Some 2) []),
     g_rule := (g_rule Graph_empty)(1 := chain_rule [1] [2], 2 := chain_rule [1] [3]),
     g_roots := {2, 3}, g_sources := {1}, g_nodes := [(''a'', 1), (''b'', 2), (''c'', 3)], g_rules := [1, 2]\<rparr>"

definition fork_stat :: "string \<Rightarrow> timestamp option" where
  "fork_stat = [''a'' \<mapsto> 5, ''b'' \<mapsto> 4, ''c'' \<mapsto> 6]"

definition some_allocator :: allocator where
  "some_allocator = \<lparr>a_node = id, a_rule = id, a_junk = (\<lambda>_. False)\<rparr>"

lemma fork_unscanned: "unscanned fork_graph"
proof -
  have "wf_graph fork_graph" by (auto simp: wf_graph_def wf_node_def wf_rule_def live_def fork_graph_def chain_node_def chain_rule_def
        Node_init_def Rule_init_def Graph_empty_def)
  moreover have "acyclic_graph fork_graph"
    by (rule acyclic_graph_by_rank [where rank = "\<lambda>n. 3 - n"]) (auto simp: fork_graph_def chain_rule_def Rule_init_def)
  ultimately show ?thesis by (auto simp: unscanned_def plain_graph_def Node_isDirty_def Rule_isDirty_def fork_graph_def chain_node_def
        chain_rule_def Node_init_def Rule_init_def Graph_empty_def)
qed

theorem scan_marks_stale_witness:
  "\<exists>g'. scan tag some_allocator 6 fork_stat (fork_graph, None, file_world ''x'') = Inr (g', None, file_world ''x'') \<and>
     counters_ok g' \<and> hashes_ok tag (file_world ''x'') g'"
proof -
  have "\<forall>x. tag x \<noteq> []" "2 * length (g_nodes fork_graph) \<le> 6" by (simp_all add: tag_def fork_graph_def)
  from scan_marks_stale [OF fork_unscanned this, of some_allocator fork_stat None "file_world ''x''"] show ?thesis by blast
qed

text \<open>The scan can leave a source file dirty while a rule that consumes it is up to date.\<close>

lemma scan_inconsistent_states:
  "\<exists>g'. scan tag some_allocator 6 fork_stat (fork_graph, None, file_world ''x'') = Inr (g', None, file_world ''x'') \<and>
     skel g' = skel (stat_all fork_stat fork_graph) \<and> counters_ok g' \<and> hashes_ok tag (file_world ''x'') g' \<and>
     Node_isDirty g' 1 \<and> 1 \<in> set (r_inputs (g_rule fork_graph 2)) \<and> \<not> Rule_isDirty g' 2"
proof -
  have "\<forall>x. tag x \<noteq> []" "2 * length (g_nodes fork_graph) \<le> 6" by (simp_all add: tag_def fork_graph_def)
  from scan_marks [OF fork_unscanned this] obtain g' where
    g': "scan tag some_allocator 6 fork_stat (fork_graph, None, file_world ''x'') = Inr (g', None, file_world ''x'')"
      "skel g' = skel (stat_all fork_stat fork_graph)" "counters_ok g'" "hashes_ok tag (file_world ''x'') g'"
    and rule: "\<And>r. r \<in> set (g_rules fork_graph) \<Longrightarrow> Rule_isDirty g' r \<longleftrightarrow> stale (stat_all fork_stat fork_graph) r"
    and src: "\<And>n. n \<in> live fork_graph \<Longrightarrow> Node_isSource fork_graph n \<Longrightarrow>
      Node_isDirty g' n \<longleftrightarrow> (\<exists>r \<in> set (g_rules fork_graph). newer (stat_all fork_stat fork_graph) r n)"
    by metis
  let ?g = "stat_all fork_stat fork_graph"
  have g: "g_rule ?g = g_rule fork_graph" "n_timestamp (g_node ?g 1) = 5" "n_timestamp (g_node ?g 2) = 4" "n_timestamp (g_node ?g 3) = 6"
    "n_child (g_node ?g 1) = None"
    by (simp_all add: stat_all_eq stat_time_def live_def fork_graph_def fork_stat_def chain_node_def chain_rule_def
        Node_init_def Rule_init_def Rule_isPhony_def)
  have rules: "r_inputs (g_rule fork_graph 1) = [1]" "r_outputs (g_rule fork_graph 1) = [2]" "r_inputs (g_rule fork_graph 2) = [1]"
    "r_outputs (g_rule fork_graph 2) = [3]" "g_rules fork_graph = [1, 2]" "\<not> Rule_isPhony ?g 1" "1 \<in> live fork_graph"
    "Node_isSource fork_graph 1"
    by (auto simp: Rule_isPhony_def stat_all_eq live_def Node_isSource_def fork_graph_def chain_node_def chain_rule_def Rule_init_def Node_init_def)
  have "newer ?g 1 1" using rules(6) by (simp add: newer_def oldest_def g(1) rules(1,2) g(2-4) del: One_nat_def)
  then have "Node_isDirty g' 1" using src [OF rules(7,8)] rules(5) by auto
  moreover have "\<not> stale ?g 2"
    by (subst stale_iff) (simp add: newer_def oldest_def stale_node_def g(1) rules(3,4) g(2-5) del: One_nat_def)
  then have "\<not> Rule_isDirty g' 2" using rule rules(5) by simp
  ultimately show ?thesis using g' rules(3) by simp
qed

text \<open>A rule without inputs is never stale, even if its output does not exist.\<close>

lemma no_inputs_never_stale: "r_inputs (g_rule g r) = [] \<Longrightarrow> \<not> stale g r"
  by (subst stale_iff) (simp add: newer_def)

end
