(* ===== verification/Graph_Cycle.thy ===== *)
theory Graph_Cycle
  imports Graph_Model
begin

text \<open>
  The cycle check of \<open>src/src/graph_cycle.cpp\<close>: a depth-first search from every root that
  keeps the paths of the nodes on the current branch in a set and throws when it meets one of
  them again. The set is passed by reference in the source, so the model returns it. The search
  is shown to return, to restore the set, and to throw exactly when a cycle can be reached from
  the node; cycles that no root leads to are missed.
\<close>

fun isCycle :: "(int \<Rightarrow> string) \<Rightarrow> nat \<Rightarrow> graph \<Rightarrow> nid \<Rightarrow> string set \<Rightarrow> string set result" where
  "isCycle strerror 0 g n stack = Inl NoFuel"
| "isCycle strerror (Suc k) g n stack =
     (if n_path (g_node g n) \<in> stack
      then (let e = Exception EINVAL ''LOOP DETECTED IN GRAPH''
            in Inl (Thrown (Exception_forward (getErrorMessage strerror e) (e_code e)
                              ('' +-> '' @ n_path (g_node g n)))))
      else (case n_child (g_node g n) of
              None \<Rightarrow> Inr stack
            | Some child \<Rightarrow>
                rbind
                  (foldM (\<lambda>i stack. case isCycle strerror k g i stack of
                              Inl (Thrown e) \<Rightarrow>
                                Inl (Thrown (Exception_forward (getErrorMessage strerror e) (e_code e)
                                               ('' |   '' @ n_path (g_node g n))))
                            | res \<Rightarrow> res)
                     (r_inputs (g_rule g child)) (insert (n_path (g_node g n)) stack))
                  (\<lambda>stack. Inr (stack - {n_path (g_node g n)}))))"

definition checkGraphLoop :: "(int \<Rightarrow> string) \<Rightarrow> nat \<Rightarrow> graph \<Rightarrow> unit result" where
  "checkGraphLoop strerror k g =
     foldM (\<lambda>n _. rbind (isCycle strerror k g n {}) (\<lambda>_. Inr ())) (sorted_list_of_set (g_roots g)) ()"

section \<open>Correctness of the search\<close>

text \<open>\<open>needs g n i\<close>: the rule that builds \<open>n\<close> has the input \<open>i\<close>.\<close>

definition needs :: "graph \<Rightarrow> (nid \<times> nid) set" where
  "needs g = {(n, i). n \<in> live g \<and> (\<exists>r. n_child (g_node g n) = Some r \<and> i \<in> set (r_inputs (g_rule g r)))}"

text \<open>From \<open>n\<close> the search meets a node of the branch \<open>X\<close>, or a cycle.\<close>

definition bad :: "graph \<Rightarrow> nid set \<Rightarrow> nid \<Rightarrow> bool" where
  "bad g X n \<longleftrightarrow> (\<exists>m. (n, m) \<in> (needs g)\<^sup>* \<and> (m \<in> X \<or> (m, m) \<in> (needs g)\<^sup>+))"

lemma needs_dep: "wf_graph g \<Longrightarrow> needs g = (dep_edges g)\<inverse>"
  unfolding needs_def dep_edges_def by (blast dest: wf_child wf_output)

lemma needs_live: "wf_graph g \<Longrightarrow> (n, i) \<in> needs g \<Longrightarrow> i \<in> live g"
  using dep_edges_live by (auto simp: needs_dep)

lemma bad_unfold:
  assumes "n \<notin> X"
  shows "bad g X n \<longleftrightarrow> (\<exists>i. (n, i) \<in> needs g \<and> bad g (insert n X) i)"
proof
  assume "bad g X n"
  then obtain m where m: "(n, m) \<in> (needs g)\<^sup>*" "m \<in> X \<or> (m, m) \<in> (needs g)\<^sup>+" by (auto simp: bad_def)
  show "\<exists>i. (n, i) \<in> needs g \<and> bad g (insert n X) i"
  proof (cases "n = m")
    case True
    with m assms have "(n, n) \<in> (needs g)\<^sup>+" by auto
    then obtain i where "(n, i) \<in> needs g" "(i, n) \<in> (needs g)\<^sup>*" by (meson tranclD)
    then show ?thesis by (auto simp: bad_def)
  next
    case False
    with m obtain i where "(n, i) \<in> needs g" "(i, m) \<in> (needs g)\<^sup>*" by (metis converse_rtranclE)
    then show ?thesis using m(2) by (auto simp: bad_def)
  qed
next
  assume "\<exists>i. (n, i) \<in> needs g \<and> bad g (insert n X) i"
  then obtain i m where i: "(n, i) \<in> needs g" "(i, m) \<in> (needs g)\<^sup>*" "m \<in> insert n X \<or> (m, m) \<in> (needs g)\<^sup>+"
    by (auto simp: bad_def)
  then have "(n, m) \<in> (needs g)\<^sup>+" by (meson rtrancl_into_trancl2)
  then show "bad g X n" using i(3) by (auto simp: bad_def dest: trancl_into_rtrancl)
qed

text \<open>A loop that leaves its state alone until one of the elements throws.\<close>

definition throws :: "'a result \<Rightarrow> bool" where
  "throws res \<longleftrightarrow> (\<exists>e. res = Inl (Thrown e) \<and> e_code e = EINVAL)"

lemma throws_Thrown [simp]: "throws (Inl (Thrown e)) \<longleftrightarrow> e_code e = EINVAL"
  by (auto simp: throws_def)

lemma throws_rbind: "throws m \<Longrightarrow> throws (rbind m f)"
  by (auto simp: throws_def)

lemma foldM_first_throw:
  assumes "\<And>x. x \<in> set xs \<Longrightarrow> if B x then throws (f x s) else f x s = Inr s"
  shows "if \<exists>x \<in> set xs. B x then throws (foldM f xs s) else foldM f xs s = Inr s"
  using assms
proof (induction xs)
  case (Cons x xs)
  have x: "if B x then throws (f x s) else f x s = Inr s" using Cons.prems by simp
  show ?case
  proof (cases "B x")
    case True
    then show ?thesis using x by (auto intro: throws_rbind)
  next
    case False
    have "if \<exists>x \<in> set xs. B x then throws (foldM f xs s) else foldM f xs s = Inr s"
      using Cons.IH Cons.prems by simp
    then show ?thesis using x False by auto
  qed
qed simp

lemma path_inj: "wf_graph g \<Longrightarrow> inj_on (\<lambda>n. n_path (g_node g n)) (live g)"
proof (rule inj_onI)
  fix m n assume wf: "wf_graph g" and "m \<in> live g" "n \<in> live g"
    and eq: "n_path (g_node g m) = n_path (g_node g n)"
  then obtain p q where pq: "(p, m) \<in> set (g_nodes g)" "(q, n) \<in> set (g_nodes g)" by (auto simp: live_def)
  then have "n_path (g_node g m) = p" "n_path (g_node g n) = q" using wf unfolding wf_graph_def by blast+
  then have "p = q" using eq by simp
  moreover have "distinct (map fst (g_nodes g))" using wf unfolding wf_graph_def by blast
  ultimately show "m = n" using pq by (metis eq_key_imp_eq_value)
qed

lemma isCycle_correct:
  assumes "wf_graph g"
  shows "n \<in> live g \<Longrightarrow> X \<subseteq> live g \<Longrightarrow> card (live g - X) < k \<Longrightarrow> stack = (\<lambda>n. n_path (g_node g n)) ` X \<Longrightarrow>
           if bad g X n then throws (isCycle strerror k g n stack)
           else isCycle strerror k g n stack = Inr stack"
proof (induction k arbitrary: n X stack)
  case (Suc k)
  let ?p = "n_path (g_node g n)" and ?stack = "insert (n_path (g_node g n)) stack"
  have mem: "?p \<in> stack \<longleftrightarrow> n \<in> X"
    using inj_on_image_mem_iff [OF path_inj [OF assms] Suc.prems(1,2)] Suc.prems(4) by simp
  show ?case
  proof (cases "n \<in> X")
    case True
    then have "bad g X n" by (auto simp: bad_def)
    then show ?thesis using True mem by (simp add: Let_def)
  next
    case nX: False
    show ?thesis
    proof (cases "n_child (g_node g n)")
      case None
      then have "\<not> bad g X n" using bad_unfold [OF nX] by (auto simp: needs_def)
      then show ?thesis using None nX mem by simp
    next
      case (Some r)
      have needs: "(n, i) \<in> needs g \<longleftrightarrow> i \<in> set (r_inputs (g_rule g r))" for i
        using Some Suc.prems(1) by (auto simp: needs_def)
      have "card (live g - insert n X) < k"
      proof -
        have "card (live g - insert n X) < card (live g - X)"
          by (rule psubset_card_mono) (use nX Suc.prems(1) in auto)
        then show ?thesis using Suc.prems(3) by simp
      qed
      then have IH: "if bad g (insert n X) i then throws (isCycle strerror k g i ?stack)
          else isCycle strerror k g i ?stack = Inr ?stack" if "i \<in> set (r_inputs (g_rule g r))" for i
      proof -
        have "i \<in> live g" by (rule needs_live [OF assms]) (use that needs in blast)
        with \<open>card (live g - insert n X) < k\<close> show ?thesis
          using Suc.IH [of i "insert n X" ?stack] Suc.prems(1,2,4) by simp
      qed
      let ?f = "\<lambda>i stack. case isCycle strerror k g i stack of
              Inl (Thrown e) \<Rightarrow> Inl (Thrown (Exception_forward (getErrorMessage strerror e) (e_code e) ('' |   '' @ ?p)))
            | res \<Rightarrow> res"
      have loop: "if \<exists>i \<in> set (r_inputs (g_rule g r)). bad g (insert n X) i
            then throws (foldM ?f (r_inputs (g_rule g r)) ?stack)
            else foldM ?f (r_inputs (g_rule g r)) ?stack = Inr ?stack"
      proof (rule foldM_first_throw)
        fix i assume "i \<in> set (r_inputs (g_rule g r))"
        from IH [OF this] show "if bad g (insert n X) i then throws (?f i ?stack) else ?f i ?stack = Inr ?stack"
          by (auto simp: throws_def split: if_splits)
      qed
      have "isCycle strerror (Suc k) g n stack
          = rbind (foldM ?f (r_inputs (g_rule g r)) ?stack) (\<lambda>stack. Inr (stack - {?p}))"
        using Some nX mem by simp
      moreover have "bad g X n \<longleftrightarrow> (\<exists>i \<in> set (r_inputs (g_rule g r)). bad g (insert n X) i)"
        using bad_unfold [OF nX] needs by blast
      moreover have "insert ?p stack - {?p} = stack" using mem nX by simp
      ultimately show ?thesis using loop by (metis (no_types, lifting) rbind_Inr throws_rbind)
    qed
  qed
qed simp

lemma checkGraphLoop_correct:
  assumes "wf_graph g" and "length (g_nodes g) < k"
  shows "if \<exists>n \<in> g_roots g. bad g {} n then throws (checkGraphLoop strerror k g)
         else checkGraphLoop strerror k g = Inr ()"
proof -
  have roots: "set (sorted_list_of_set (g_roots g)) = g_roots g" "g_roots g \<subseteq> live g"
    using assms(1) unfolding wf_graph_def by auto
  have "if bad g {} n then throws (isCycle strerror k g n {}) else isCycle strerror k g n {} = Inr {}"
    if "n \<in> g_roots g" for n
    by (rule isCycle_correct [OF assms(1)]) (use that roots(2) card_live_le [of g] assms(2) in auto)
  then have "if bad g {} n then throws (rbind (isCycle strerror k g n {}) (\<lambda>_. Inr ()))
      else rbind (isCycle strerror k g n {}) (\<lambda>_. Inr ()) = Inr ()" if "n \<in> g_roots g" for n
    using that by (metis rbind_Inr throws_rbind)
  then show ?thesis
    unfolding checkGraphLoop_def
    using foldM_first_throw [of "sorted_list_of_set (g_roots g)" "bad g {}"
        "\<lambda>n _. rbind (isCycle strerror k g n {}) (\<lambda>_. Inr ())" "()"]
    unfolding roots(1) by metis
qed

lemma acyclic_not_bad: "wf_graph g \<Longrightarrow> acyclic_graph g \<Longrightarrow> \<not> bad g {} n"
  by (auto simp: bad_def needs_dep acyclic_graph_def acyclic_def trancl_converse)

section \<open>Properties\<close>

text \<open>C16. \<open>checkGraphLoop\<close> returns for every consistent graph, with the number of nodes as
  recursion bound, and throws an exception with code \<open>EINVAL\<close> exactly when some root depends,
  directly or not, on a node that depends on itself; otherwise it succeeds.\<close>

theorem checkGraphLoop_decides:
  assumes "wf_graph g" and "length (g_nodes g) < k"
  shows "(if \<exists>n \<in> g_roots g. \<exists>m. (n, m) \<in> (needs g)\<^sup>* \<and> (m, m) \<in> (needs g)\<^sup>+
          then \<exists>e. checkGraphLoop strerror k g = Inl (Thrown e) \<and> e_code e = EINVAL
          else checkGraphLoop strerror k g = Inr ())"
  using checkGraphLoop_correct [OF assms, of strerror] unfolding bad_def throws_def by simp

theorem checkGraphLoop_decides_witness:
  "if \<exists>n \<in> g_roots chain_graph. \<exists>m. (n, m) \<in> (needs chain_graph)\<^sup>* \<and> (m, m) \<in> (needs chain_graph)\<^sup>+
   then \<exists>e. checkGraphLoop (\<lambda>_. ''Invalid argument'') 4 chain_graph = Inl (Thrown e) \<and> e_code e = EINVAL
   else checkGraphLoop (\<lambda>_. ''Invalid argument'') 4 chain_graph = Inr ()"
  by (rule checkGraphLoop_decides [OF chain_wf]) (simp add: chain_ok)

text \<open>Every graph without cycles passes the check.\<close>

lemma checkGraphLoop_accepts_acyclic:
  assumes "wf_graph g" and "acyclic_graph g" and "length (g_nodes g) < k"
  shows "checkGraphLoop strerror k g = Inr ()"
  using checkGraphLoop_correct [OF assms(1,3), of strerror] acyclic_not_bad [OF assms(1,2)] by simp

text \<open>Two targets that are built from each other: no node is a root.\<close>

definition loop_graph :: graph where
  "loop_graph = Graph_empty\<lparr>
     g_node := (g_node Graph_empty)(1 := chain_node ''a'' (Some 2) [1], 2 := chain_node ''b'' (Some 1) [2]),
     g_rule := (g_rule Graph_empty)(1 := chain_rule [1] [2], 2 := chain_rule [2] [1]),
     g_nodes := [(''a'', 1), (''b'', 2)], g_rules := [1, 2]\<rparr>"

lemma loop_wf: "wf_graph loop_graph"
  by (auto simp: wf_graph_def wf_node_def wf_rule_def live_def loop_graph_def chain_defs)

lemma loop_cyclic: "\<not> acyclic_graph loop_graph"
proof -
  have "(1, 2) \<in> dep_edges loop_graph" "(2, 1) \<in> dep_edges loop_graph"
    by (auto simp: dep_edges_def loop_graph_def chain_defs)
  then have "(1, 1) \<in> (dep_edges loop_graph)\<^sup>+" by (meson trancl.intros)
  then show ?thesis by (auto simp: acyclic_graph_def acyclic_def)
qed

text \<open>The check misses a cycle that no root leads to: there is a consistent graph with a
  cycle (two targets built from each other) that \<open>checkGraphLoop\<close> accepts, whatever the
  recursion bound.\<close>

lemma checkGraphLoop_misses_rootless_cycle:
  "\<exists>g. wf_graph g \<and> \<not> acyclic_graph g \<and> (\<forall>strerror k. checkGraphLoop strerror k g = Inr ())"
proof (intro exI conjI allI)
  show "checkGraphLoop strerror k loop_graph = Inr ()" for strerror k
    by (simp add: checkGraphLoop_def loop_graph_def Graph_empty_def)
qed (rule loop_wf loop_cyclic)+

end
