(* ===== verification/Json_Library.thy ===== *)
theory Json_Library
  imports Falcon_Prelude
begin

text \<open>
  The bundled JSON library, \<open>src/src/json/json.c\<close>: the push parser driven by tables, the printer, and the callback that
  builds a document tree.

  An error code of the library is an integer, \<open>0\<close> for success, and is returned together with the new state, since the
  caller may continue with a parser after an error. A write or a read outside a buffer and a use of freed memory are
  errors of the result type. The contents of a buffer or of a stack are a list whose length is the offset; the sizes
  of the memory blocks are explicit, and \<open>mem\<close> tells whether an allocation of a number of bytes succeeds. Sizes are
  computed modulo \<open>2 ^ 32\<close>.
\<close>

section \<open>Tables\<close>

datatype classes =
  C_SPACE | C_NL | C_WHITE | C_LCURB | C_RCURB | C_LSQRB | C_RSQRB | C_COLON | C_COMMA | C_QUOTE | C_BACKS | C_SLASH | C_PLUS |
  C_MINUS | C_DOT | C_ZERO | C_DIGIT | C_a | C_b | C_c | C_d | C_e | C_f | C_l | C_n | C_r | C_s | C_t | C_u | C_ABCDF | C_E |
  C_OTHER | C_STAR | C_HASH | C_ERROR

definition character_class :: "classes list" where
  "character_class = [
     C_ERROR, C_ERROR, C_ERROR, C_ERROR, C_ERROR, C_ERROR, C_ERROR, C_ERROR, C_ERROR, C_WHITE, C_NL, C_ERROR, C_ERROR, C_WHITE,
     C_ERROR, C_ERROR, C_ERROR, C_ERROR, C_ERROR, C_ERROR, C_ERROR, C_ERROR, C_ERROR, C_ERROR, C_ERROR, C_ERROR, C_ERROR,
     C_ERROR, C_ERROR, C_ERROR, C_ERROR, C_ERROR, C_SPACE, C_OTHER, C_QUOTE, C_HASH, C_OTHER, C_OTHER, C_OTHER, C_OTHER,
     C_OTHER, C_OTHER, C_STAR, C_PLUS, C_COMMA, C_MINUS, C_DOT, C_SLASH, C_ZERO, C_DIGIT, C_DIGIT, C_DIGIT, C_DIGIT, C_DIGIT,
     C_DIGIT, C_DIGIT, C_DIGIT, C_DIGIT, C_COLON, C_OTHER, C_OTHER, C_OTHER, C_OTHER, C_OTHER, C_OTHER, C_ABCDF, C_ABCDF,
     C_ABCDF, C_ABCDF, C_E, C_ABCDF, C_OTHER, C_OTHER, C_OTHER, C_OTHER, C_OTHER, C_OTHER, C_OTHER, C_OTHER, C_OTHER, C_OTHER,
     C_OTHER, C_OTHER, C_OTHER, C_OTHER, C_OTHER, C_OTHER, C_OTHER, C_OTHER, C_OTHER, C_OTHER, C_LSQRB, C_BACKS, C_RSQRB,
     C_OTHER, C_OTHER, C_OTHER, C_a, C_b, C_c, C_d, C_e, C_f, C_OTHER, C_OTHER, C_OTHER, C_OTHER, C_OTHER, C_l, C_OTHER, C_n,
     C_OTHER, C_OTHER, C_OTHER, C_r, C_s, C_t, C_u, C_OTHER, C_OTHER, C_OTHER, C_OTHER, C_OTHER, C_LCURB, C_OTHER, C_RCURB,
     C_OTHER, C_OTHER]"

datatype states =
  STATE_GO | STATE_OK | STATE__O | STATE__K | STATE_CO | STATE__V | STATE__A | STATE__S | STATE_E0 | STATE_U1 | STATE_U2 |
  STATE_U3 | STATE_U4 | STATE_M0 | STATE_Z0 | STATE_I0 | STATE_R1 | STATE_R2 | STATE_X1 | STATE_X2 | STATE_X3 | STATE_T1 |
  STATE_T2 | STATE_T3 | STATE_F1 | STATE_F2 | STATE_F3 | STATE_F4 | STATE_N1 | STATE_N2 | STATE_N3 | STATE_C1 | STATE_C2 |
  STATE_C3 | STATE_Y1 | STATE_D1 | STATE_D2 | STATE_KS | STATE_SP | STATE_AB | STATE_AE | STATE_OB | STATE_OE | STATE_CB |
  STATE_YB | STATE_CE | STATE_FA | STATE_TR | STATE_NU | STATE_DE | STATE_DF | STATE_SE | STATE_MX | STATE_ZX | STATE_IX |
  STATE_UC | STATE_ERR

definition actions :: "states list" where
  "actions = [
     STATE_KS, STATE_SP, STATE_AB, STATE_AE, STATE_OB, STATE_OE, STATE_CB, STATE_YB, STATE_CE, STATE_FA, STATE_TR, STATE_NU,
     STATE_DE, STATE_DF, STATE_SE, STATE_MX, STATE_ZX, STATE_IX, STATE_UC]"

fun state_transition_table :: "states \<Rightarrow> states list" where
  "state_transition_table STATE_GO = [
     STATE_GO, STATE_GO, STATE_GO, STATE_OB, STATE_ERR, STATE_AB, STATE_ERR, STATE_ERR, STATE_ERR, STATE_ERR, STATE_ERR,
     STATE_CB, STATE_ERR, STATE_ERR, STATE_ERR, STATE_ERR, STATE_ERR, STATE_ERR, STATE_ERR, STATE_ERR, STATE_ERR, STATE_ERR,
     STATE_ERR, STATE_ERR, STATE_ERR, STATE_ERR, STATE_ERR, STATE_ERR, STATE_ERR, STATE_ERR, STATE_ERR, STATE_ERR, STATE_ERR,
     STATE_YB]"
| "state_transition_table STATE_OK = [
     STATE_OK, STATE_OK, STATE_OK, STATE_ERR, STATE_OE, STATE_ERR, STATE_AE, STATE_ERR, STATE_SP, STATE_ERR, STATE_ERR,
     STATE_CB, STATE_ERR, STATE_ERR, STATE_ERR, STATE_ERR, STATE_ERR, STATE_ERR, STATE_ERR, STATE_ERR, STATE_ERR, STATE_ERR,
     STATE_ERR, STATE_ERR, STATE_ERR, STATE_ERR, STATE_ERR, STATE_ERR, STATE_ERR, STATE_ERR, STATE_ERR, STATE_ERR, STATE_ERR,
     STATE_YB]"
| "state_transition_table STATE__O = [
     STATE__O, STATE__O, STATE__O, STATE_ERR, STATE_OE, STATE_ERR, STATE_ERR, STATE_ERR, STATE_ERR, STATE__S, STATE_ERR,
     STATE_CB, STATE_ERR, STATE_ERR, STATE_ERR, STATE_ERR, STATE_ERR, STATE_ERR, STATE_ERR, STATE_ERR, STATE_ERR, STATE_ERR,
     STATE_ERR, STATE_ERR, STATE_ERR, STATE_ERR, STATE_ERR, STATE_ERR, STATE_ERR, STATE_ERR, STATE_ERR, STATE_ERR, STATE_ERR,
     STATE_YB]"
| "state_transition_table STATE__K = [
     STATE__K, STATE__K, STATE__K, STATE_ERR, STATE_ERR, STATE_ERR, STATE_ERR, STATE_ERR, STATE_ERR, STATE__S, STATE_ERR,
     STATE_CB, STATE_ERR, STATE_ERR, STATE_ERR, STATE_ERR, STATE_ERR, STATE_ERR, STATE_ERR, STATE_ERR, STATE_ERR, STATE_ERR,
     STATE_ERR, STATE_ERR, STATE_ERR, STATE_ERR, STATE_ERR, STATE_ERR, STATE_ERR, STATE_ERR, STATE_ERR, STATE_ERR, STATE_ERR,
     STATE_YB]"
| "state_transition_table STATE_CO = [
     STATE_CO, STATE_CO, STATE_CO, STATE_ERR, STATE_ERR, STATE_ERR, STATE_ERR, STATE_KS, STATE_ERR, STATE_ERR, STATE_ERR,
     STATE_CB, STATE_ERR, STATE_ERR, STATE_ERR, STATE_ERR, STATE_ERR, STATE_ERR, STATE_ERR, STATE_ERR, STATE_ERR, STATE_ERR,
     STATE_ERR, STATE_ERR, STATE_ERR, STATE_ERR, STATE_ERR, STATE_ERR, STATE_ERR, STATE_ERR, STATE_ERR, STATE_ERR, STATE_ERR,
     STATE_YB]"
| "state_transition_table STATE__V = [
     STATE__V, STATE__V, STATE__V, STATE_OB, STATE_ERR, STATE_AB, STATE_ERR, STATE_ERR, STATE_ERR, STATE__S, STATE_ERR,
     STATE_CB, STATE_ERR, STATE_MX, STATE_ERR, STATE_ZX, STATE_IX, STATE_ERR, STATE_ERR, STATE_ERR, STATE_ERR, STATE_ERR,
     STATE_F1, STATE_ERR, STATE_N1, STATE_ERR, STATE_ERR, STATE_T1, STATE_ERR, STATE_ERR, STATE_ERR, STATE_ERR, STATE_ERR,
     STATE_YB]"
| "state_transition_table STATE__A = [
     STATE__A, STATE__A, STATE__A, STATE_OB, STATE_ERR, STATE_AB, STATE_AE, STATE_ERR, STATE_ERR, STATE__S, STATE_ERR,
     STATE_CB, STATE_ERR, STATE_MX, STATE_ERR, STATE_ZX, STATE_IX, STATE_ERR, STATE_ERR, STATE_ERR, STATE_ERR, STATE_ERR,
     STATE_F1, STATE_ERR, STATE_N1, STATE_ERR, STATE_ERR, STATE_T1, STATE_ERR, STATE_ERR, STATE_ERR, STATE_ERR, STATE_ERR,
     STATE_YB]"
| "state_transition_table STATE__S = [
     STATE__S, STATE_ERR, STATE_ERR, STATE__S, STATE__S, STATE__S, STATE__S, STATE__S, STATE__S, STATE_SE, STATE_E0, STATE__S,
     STATE__S, STATE__S, STATE__S, STATE__S, STATE__S, STATE__S, STATE__S, STATE__S, STATE__S, STATE__S, STATE__S, STATE__S,
     STATE__S, STATE__S, STATE__S, STATE__S, STATE__S, STATE__S, STATE__S, STATE__S, STATE__S, STATE__S]"
| "state_transition_table STATE_E0 = [
     STATE_ERR, STATE_ERR, STATE_ERR, STATE_ERR, STATE_ERR, STATE_ERR, STATE_ERR, STATE_ERR, STATE_ERR, STATE__S, STATE__S,
     STATE__S, STATE_ERR, STATE_ERR, STATE_ERR, STATE_ERR, STATE_ERR, STATE_ERR, STATE__S, STATE_ERR, STATE_ERR, STATE_ERR,
     STATE__S, STATE_ERR, STATE__S, STATE__S, STATE_ERR, STATE__S, STATE_U1, STATE_ERR, STATE_ERR, STATE_ERR, STATE_ERR,
     STATE_ERR]"
| "state_transition_table STATE_U1 = [
     STATE_ERR, STATE_ERR, STATE_ERR, STATE_ERR, STATE_ERR, STATE_ERR, STATE_ERR, STATE_ERR, STATE_ERR, STATE_ERR, STATE_ERR,
     STATE_ERR, STATE_ERR, STATE_ERR, STATE_ERR, STATE_U2, STATE_U2, STATE_U2, STATE_U2, STATE_U2, STATE_U2, STATE_U2,
     STATE_U2, STATE_ERR, STATE_ERR, STATE_ERR, STATE_ERR, STATE_ERR, STATE_ERR, STATE_U2, STATE_U2, STATE_ERR, STATE_ERR,
     STATE_ERR]"
| "state_transition_table STATE_U2 = [
     STATE_ERR, STATE_ERR, STATE_ERR, STATE_ERR, STATE_ERR, STATE_ERR, STATE_ERR, STATE_ERR, STATE_ERR, STATE_ERR, STATE_ERR,
     STATE_ERR, STATE_ERR, STATE_ERR, STATE_ERR, STATE_U3, STATE_U3, STATE_U3, STATE_U3, STATE_U3, STATE_U3, STATE_U3,
     STATE_U3, STATE_ERR, STATE_ERR, STATE_ERR, STATE_ERR, STATE_ERR, STATE_ERR, STATE_U3, STATE_U3, STATE_ERR, STATE_ERR,
     STATE_ERR]"
| "state_transition_table STATE_U3 = [
     STATE_ERR, STATE_ERR, STATE_ERR, STATE_ERR, STATE_ERR, STATE_ERR, STATE_ERR, STATE_ERR, STATE_ERR, STATE_ERR, STATE_ERR,
     STATE_ERR, STATE_ERR, STATE_ERR, STATE_ERR, STATE_U4, STATE_U4, STATE_U4, STATE_U4, STATE_U4, STATE_U4, STATE_U4,
     STATE_U4, STATE_ERR, STATE_ERR, STATE_ERR, STATE_ERR, STATE_ERR, STATE_ERR, STATE_U4, STATE_U4, STATE_ERR, STATE_ERR,
     STATE_ERR]"
| "state_transition_table STATE_U4 = [
     STATE_ERR, STATE_ERR, STATE_ERR, STATE_ERR, STATE_ERR, STATE_ERR, STATE_ERR, STATE_ERR, STATE_ERR, STATE_ERR, STATE_ERR,
     STATE_ERR, STATE_ERR, STATE_ERR, STATE_ERR, STATE_UC, STATE_UC, STATE_UC, STATE_UC, STATE_UC, STATE_UC, STATE_UC,
     STATE_UC, STATE_ERR, STATE_ERR, STATE_ERR, STATE_ERR, STATE_ERR, STATE_ERR, STATE_UC, STATE_UC, STATE_ERR, STATE_ERR,
     STATE_ERR]"
| "state_transition_table STATE_M0 = [
     STATE_ERR, STATE_ERR, STATE_ERR, STATE_ERR, STATE_ERR, STATE_ERR, STATE_ERR, STATE_ERR, STATE_ERR, STATE_ERR, STATE_ERR,
     STATE_ERR, STATE_ERR, STATE_ERR, STATE_ERR, STATE_Z0, STATE_I0, STATE_ERR, STATE_ERR, STATE_ERR, STATE_ERR, STATE_ERR,
     STATE_ERR, STATE_ERR, STATE_ERR, STATE_ERR, STATE_ERR, STATE_ERR, STATE_ERR, STATE_ERR, STATE_ERR, STATE_ERR, STATE_ERR,
     STATE_ERR]"
| "state_transition_table STATE_Z0 = [
     STATE_OK, STATE_OK, STATE_OK, STATE_ERR, STATE_OE, STATE_ERR, STATE_AE, STATE_ERR, STATE_SP, STATE_ERR, STATE_ERR,
     STATE_CB, STATE_ERR, STATE_ERR, STATE_DF, STATE_ERR, STATE_ERR, STATE_ERR, STATE_ERR, STATE_ERR, STATE_ERR, STATE_ERR,
     STATE_ERR, STATE_ERR, STATE_ERR, STATE_ERR, STATE_ERR, STATE_ERR, STATE_ERR, STATE_ERR, STATE_ERR, STATE_ERR, STATE_ERR,
     STATE_YB]"
| "state_transition_table STATE_I0 = [
     STATE_OK, STATE_OK, STATE_OK, STATE_ERR, STATE_OE, STATE_ERR, STATE_AE, STATE_ERR, STATE_SP, STATE_ERR, STATE_ERR,
     STATE_CB, STATE_ERR, STATE_ERR, STATE_DF, STATE_I0, STATE_I0, STATE_ERR, STATE_ERR, STATE_ERR, STATE_ERR, STATE_DE,
     STATE_ERR, STATE_ERR, STATE_ERR, STATE_ERR, STATE_ERR, STATE_ERR, STATE_ERR, STATE_ERR, STATE_DE, STATE_ERR, STATE_ERR,
     STATE_YB]"
| "state_transition_table STATE_R1 = [
     STATE_ERR, STATE_ERR, STATE_ERR, STATE_ERR, STATE_ERR, STATE_ERR, STATE_ERR, STATE_ERR, STATE_ERR, STATE_ERR, STATE_ERR,
     STATE_ERR, STATE_ERR, STATE_ERR, STATE_ERR, STATE_R2, STATE_R2, STATE_ERR, STATE_ERR, STATE_ERR, STATE_ERR, STATE_ERR,
     STATE_ERR, STATE_ERR, STATE_ERR, STATE_ERR, STATE_ERR, STATE_ERR, STATE_ERR, STATE_ERR, STATE_ERR, STATE_ERR, STATE_ERR,
     STATE_ERR]"
| "state_transition_table STATE_R2 = [
     STATE_OK, STATE_OK, STATE_OK, STATE_ERR, STATE_OE, STATE_ERR, STATE_AE, STATE_ERR, STATE_SP, STATE_ERR, STATE_ERR,
     STATE_CB, STATE_ERR, STATE_ERR, STATE_ERR, STATE_R2, STATE_R2, STATE_ERR, STATE_ERR, STATE_ERR, STATE_ERR, STATE_X1,
     STATE_ERR, STATE_ERR, STATE_ERR, STATE_ERR, STATE_ERR, STATE_ERR, STATE_ERR, STATE_ERR, STATE_X1, STATE_ERR, STATE_ERR,
     STATE_YB]"
| "state_transition_table STATE_X1 = [
     STATE_ERR, STATE_ERR, STATE_ERR, STATE_ERR, STATE_ERR, STATE_ERR, STATE_ERR, STATE_ERR, STATE_ERR, STATE_ERR, STATE_ERR,
     STATE_ERR, STATE_X2, STATE_X2, STATE_ERR, STATE_X3, STATE_X3, STATE_ERR, STATE_ERR, STATE_ERR, STATE_ERR, STATE_ERR,
     STATE_ERR, STATE_ERR, STATE_ERR, STATE_ERR, STATE_ERR, STATE_ERR, STATE_ERR, STATE_ERR, STATE_ERR, STATE_ERR, STATE_ERR,
     STATE_ERR]"
| "state_transition_table STATE_X2 = [
     STATE_ERR, STATE_ERR, STATE_ERR, STATE_ERR, STATE_ERR, STATE_ERR, STATE_ERR, STATE_ERR, STATE_ERR, STATE_ERR, STATE_ERR,
     STATE_ERR, STATE_ERR, STATE_ERR, STATE_ERR, STATE_X3, STATE_X3, STATE_ERR, STATE_ERR, STATE_ERR, STATE_ERR, STATE_ERR,
     STATE_ERR, STATE_ERR, STATE_ERR, STATE_ERR, STATE_ERR, STATE_ERR, STATE_ERR, STATE_ERR, STATE_ERR, STATE_ERR, STATE_ERR,
     STATE_ERR]"
| "state_transition_table STATE_X3 = [
     STATE_OK, STATE_OK, STATE_OK, STATE_ERR, STATE_OE, STATE_ERR, STATE_AE, STATE_ERR, STATE_SP, STATE_ERR, STATE_ERR,
     STATE_ERR, STATE_ERR, STATE_ERR, STATE_ERR, STATE_X3, STATE_X3, STATE_ERR, STATE_ERR, STATE_ERR, STATE_ERR, STATE_ERR,
     STATE_ERR, STATE_ERR, STATE_ERR, STATE_ERR, STATE_ERR, STATE_ERR, STATE_ERR, STATE_ERR, STATE_ERR, STATE_ERR, STATE_ERR,
     STATE_ERR]"
| "state_transition_table STATE_T1 = [
     STATE_ERR, STATE_ERR, STATE_ERR, STATE_ERR, STATE_ERR, STATE_ERR, STATE_ERR, STATE_ERR, STATE_ERR, STATE_ERR, STATE_ERR,
     STATE_ERR, STATE_ERR, STATE_ERR, STATE_ERR, STATE_ERR, STATE_ERR, STATE_ERR, STATE_ERR, STATE_ERR, STATE_ERR, STATE_ERR,
     STATE_ERR, STATE_ERR, STATE_ERR, STATE_T2, STATE_ERR, STATE_ERR, STATE_ERR, STATE_ERR, STATE_ERR, STATE_ERR, STATE_ERR,
     STATE_ERR]"
| "state_transition_table STATE_T2 = [
     STATE_ERR, STATE_ERR, STATE_ERR, STATE_ERR, STATE_ERR, STATE_ERR, STATE_ERR, STATE_ERR, STATE_ERR, STATE_ERR, STATE_ERR,
     STATE_ERR, STATE_ERR, STATE_ERR, STATE_ERR, STATE_ERR, STATE_ERR, STATE_ERR, STATE_ERR, STATE_ERR, STATE_ERR, STATE_ERR,
     STATE_ERR, STATE_ERR, STATE_ERR, STATE_ERR, STATE_ERR, STATE_ERR, STATE_T3, STATE_ERR, STATE_ERR, STATE_ERR, STATE_ERR,
     STATE_ERR]"
| "state_transition_table STATE_T3 = [
     STATE_ERR, STATE_ERR, STATE_ERR, STATE_ERR, STATE_ERR, STATE_ERR, STATE_ERR, STATE_ERR, STATE_ERR, STATE_ERR, STATE_ERR,
     STATE_ERR, STATE_ERR, STATE_ERR, STATE_ERR, STATE_ERR, STATE_ERR, STATE_ERR, STATE_ERR, STATE_ERR, STATE_ERR, STATE_TR,
     STATE_ERR, STATE_ERR, STATE_ERR, STATE_ERR, STATE_ERR, STATE_ERR, STATE_ERR, STATE_ERR, STATE_ERR, STATE_ERR, STATE_ERR,
     STATE_ERR]"
| "state_transition_table STATE_F1 = [
     STATE_ERR, STATE_ERR, STATE_ERR, STATE_ERR, STATE_ERR, STATE_ERR, STATE_ERR, STATE_ERR, STATE_ERR, STATE_ERR, STATE_ERR,
     STATE_ERR, STATE_ERR, STATE_ERR, STATE_ERR, STATE_ERR, STATE_ERR, STATE_F2, STATE_ERR, STATE_ERR, STATE_ERR, STATE_ERR,
     STATE_ERR, STATE_ERR, STATE_ERR, STATE_ERR, STATE_ERR, STATE_ERR, STATE_ERR, STATE_ERR, STATE_ERR, STATE_ERR, STATE_ERR,
     STATE_ERR]"
| "state_transition_table STATE_F2 = [
     STATE_ERR, STATE_ERR, STATE_ERR, STATE_ERR, STATE_ERR, STATE_ERR, STATE_ERR, STATE_ERR, STATE_ERR, STATE_ERR, STATE_ERR,
     STATE_ERR, STATE_ERR, STATE_ERR, STATE_ERR, STATE_ERR, STATE_ERR, STATE_ERR, STATE_ERR, STATE_ERR, STATE_ERR, STATE_ERR,
     STATE_ERR, STATE_F3, STATE_ERR, STATE_ERR, STATE_ERR, STATE_ERR, STATE_ERR, STATE_ERR, STATE_ERR, STATE_ERR, STATE_ERR,
     STATE_ERR]"
| "state_transition_table STATE_F3 = [
     STATE_ERR, STATE_ERR, STATE_ERR, STATE_ERR, STATE_ERR, STATE_ERR, STATE_ERR, STATE_ERR, STATE_ERR, STATE_ERR, STATE_ERR,
     STATE_ERR, STATE_ERR, STATE_ERR, STATE_ERR, STATE_ERR, STATE_ERR, STATE_ERR, STATE_ERR, STATE_ERR, STATE_ERR, STATE_ERR,
     STATE_ERR, STATE_ERR, STATE_ERR, STATE_ERR, STATE_F4, STATE_ERR, STATE_ERR, STATE_ERR, STATE_ERR, STATE_ERR, STATE_ERR,
     STATE_ERR]"
| "state_transition_table STATE_F4 = [
     STATE_ERR, STATE_ERR, STATE_ERR, STATE_ERR, STATE_ERR, STATE_ERR, STATE_ERR, STATE_ERR, STATE_ERR, STATE_ERR, STATE_ERR,
     STATE_ERR, STATE_ERR, STATE_ERR, STATE_ERR, STATE_ERR, STATE_ERR, STATE_ERR, STATE_ERR, STATE_ERR, STATE_ERR, STATE_FA,
     STATE_ERR, STATE_ERR, STATE_ERR, STATE_ERR, STATE_ERR, STATE_ERR, STATE_ERR, STATE_ERR, STATE_ERR, STATE_ERR, STATE_ERR,
     STATE_ERR]"
| "state_transition_table STATE_N1 = [
     STATE_ERR, STATE_ERR, STATE_ERR, STATE_ERR, STATE_ERR, STATE_ERR, STATE_ERR, STATE_ERR, STATE_ERR, STATE_ERR, STATE_ERR,
     STATE_ERR, STATE_ERR, STATE_ERR, STATE_ERR, STATE_ERR, STATE_ERR, STATE_ERR, STATE_ERR, STATE_ERR, STATE_ERR, STATE_ERR,
     STATE_ERR, STATE_ERR, STATE_ERR, STATE_ERR, STATE_ERR, STATE_ERR, STATE_N2, STATE_ERR, STATE_ERR, STATE_ERR, STATE_ERR,
     STATE_ERR]"
| "state_transition_table STATE_N2 = [
     STATE_ERR, STATE_ERR, STATE_ERR, STATE_ERR, STATE_ERR, STATE_ERR, STATE_ERR, STATE_ERR, STATE_ERR, STATE_ERR, STATE_ERR,
     STATE_ERR, STATE_ERR, STATE_ERR, STATE_ERR, STATE_ERR, STATE_ERR, STATE_ERR, STATE_ERR, STATE_ERR, STATE_ERR, STATE_ERR,
     STATE_ERR, STATE_N3, STATE_ERR, STATE_ERR, STATE_ERR, STATE_ERR, STATE_ERR, STATE_ERR, STATE_ERR, STATE_ERR, STATE_ERR,
     STATE_ERR]"
| "state_transition_table STATE_N3 = [
     STATE_ERR, STATE_ERR, STATE_ERR, STATE_ERR, STATE_ERR, STATE_ERR, STATE_ERR, STATE_ERR, STATE_ERR, STATE_ERR, STATE_ERR,
     STATE_ERR, STATE_ERR, STATE_ERR, STATE_ERR, STATE_ERR, STATE_ERR, STATE_ERR, STATE_ERR, STATE_ERR, STATE_ERR, STATE_ERR,
     STATE_ERR, STATE_NU, STATE_ERR, STATE_ERR, STATE_ERR, STATE_ERR, STATE_ERR, STATE_ERR, STATE_ERR, STATE_ERR, STATE_ERR,
     STATE_ERR]"
| "state_transition_table STATE_C1 = [
     STATE_ERR, STATE_ERR, STATE_ERR, STATE_ERR, STATE_ERR, STATE_ERR, STATE_ERR, STATE_ERR, STATE_ERR, STATE_ERR, STATE_ERR,
     STATE_ERR, STATE_ERR, STATE_ERR, STATE_ERR, STATE_ERR, STATE_ERR, STATE_ERR, STATE_ERR, STATE_ERR, STATE_ERR, STATE_ERR,
     STATE_ERR, STATE_ERR, STATE_ERR, STATE_ERR, STATE_ERR, STATE_ERR, STATE_ERR, STATE_ERR, STATE_ERR, STATE_ERR, STATE_C2,
     STATE_ERR]"
| "state_transition_table STATE_C2 = [
     STATE_C2, STATE_C2, STATE_C2, STATE_C2, STATE_C2, STATE_C2, STATE_C2, STATE_C2, STATE_C2, STATE_C2, STATE_C2, STATE_C2,
     STATE_C2, STATE_C2, STATE_C2, STATE_C2, STATE_C2, STATE_C2, STATE_C2, STATE_C2, STATE_C2, STATE_C2, STATE_C2, STATE_C2,
     STATE_C2, STATE_C2, STATE_C2, STATE_C2, STATE_C2, STATE_C2, STATE_C2, STATE_C2, STATE_C3, STATE_C2]"
| "state_transition_table STATE_C3 = [
     STATE_C2, STATE_C2, STATE_C2, STATE_C2, STATE_C2, STATE_C2, STATE_C2, STATE_C2, STATE_C2, STATE_C2, STATE_C2, STATE_CE,
     STATE_C2, STATE_C2, STATE_C2, STATE_C2, STATE_C2, STATE_C2, STATE_C2, STATE_C2, STATE_C2, STATE_C2, STATE_C2, STATE_C2,
     STATE_C2, STATE_C2, STATE_C2, STATE_C2, STATE_C2, STATE_C2, STATE_C2, STATE_C2, STATE_C3, STATE_C2]"
| "state_transition_table STATE_Y1 = [
     STATE_Y1, STATE_CE, STATE_Y1, STATE_Y1, STATE_Y1, STATE_Y1, STATE_Y1, STATE_Y1, STATE_Y1, STATE_Y1, STATE_Y1, STATE_Y1,
     STATE_Y1, STATE_Y1, STATE_Y1, STATE_Y1, STATE_Y1, STATE_Y1, STATE_Y1, STATE_Y1, STATE_Y1, STATE_Y1, STATE_Y1, STATE_Y1,
     STATE_Y1, STATE_Y1, STATE_Y1, STATE_Y1, STATE_Y1, STATE_Y1, STATE_Y1, STATE_Y1, STATE_Y1, STATE_Y1]"
| "state_transition_table STATE_D1 = [
     STATE_ERR, STATE_ERR, STATE_ERR, STATE_ERR, STATE_ERR, STATE_ERR, STATE_ERR, STATE_ERR, STATE_ERR, STATE_ERR, STATE_D2,
     STATE_ERR, STATE_ERR, STATE_ERR, STATE_ERR, STATE_ERR, STATE_ERR, STATE_ERR, STATE_ERR, STATE_ERR, STATE_ERR, STATE_ERR,
     STATE_ERR, STATE_ERR, STATE_ERR, STATE_ERR, STATE_ERR, STATE_ERR, STATE_ERR, STATE_ERR, STATE_ERR, STATE_ERR, STATE_ERR,
     STATE_ERR]"
| "state_transition_table STATE_D2 = [
     STATE_ERR, STATE_ERR, STATE_ERR, STATE_ERR, STATE_ERR, STATE_ERR, STATE_ERR, STATE_ERR, STATE_ERR, STATE_ERR, STATE_ERR,
     STATE_ERR, STATE_ERR, STATE_ERR, STATE_ERR, STATE_ERR, STATE_ERR, STATE_ERR, STATE_ERR, STATE_ERR, STATE_ERR, STATE_ERR,
     STATE_ERR, STATE_ERR, STATE_ERR, STATE_ERR, STATE_ERR, STATE_ERR, STATE_U1, STATE_ERR, STATE_ERR, STATE_ERR, STATE_ERR,
     STATE_ERR]"
| "state_transition_table _ = []"

fun buffer_policy_table :: "states \<Rightarrow> nat list" where
  "buffer_policy_table STATE_GO = [0, 0, 0, 0, 0, 0, 0, 0, 0, 0, 0, 0, 0, 0, 0, 0, 0, 0, 0, 0, 0, 0, 0, 0, 0, 0, 0, 0, 0, 0, 0, 0, 0, 0]"
| "buffer_policy_table STATE_OK = [0, 0, 0, 0, 0, 0, 0, 0, 0, 0, 0, 0, 0, 0, 0, 0, 0, 0, 0, 0, 0, 0, 0, 0, 0, 0, 0, 0, 0, 0, 0, 0, 0, 0]"
| "buffer_policy_table STATE__O = [0, 0, 0, 0, 0, 0, 0, 0, 0, 0, 0, 0, 0, 0, 0, 0, 0, 0, 0, 0, 0, 0, 0, 0, 0, 0, 0, 0, 0, 0, 0, 0, 0, 0]"
| "buffer_policy_table STATE__K = [0, 0, 0, 0, 0, 0, 0, 0, 0, 0, 0, 0, 0, 0, 0, 0, 0, 0, 0, 0, 0, 0, 0, 0, 0, 0, 0, 0, 0, 0, 0, 0, 0, 0]"
| "buffer_policy_table STATE_CO = [0, 0, 0, 0, 0, 0, 0, 0, 0, 0, 0, 0, 0, 0, 0, 0, 0, 0, 0, 0, 0, 0, 0, 0, 0, 0, 0, 0, 0, 0, 0, 0, 0, 0]"
| "buffer_policy_table STATE__V = [0, 0, 0, 0, 0, 0, 0, 0, 0, 0, 0, 0, 0, 1, 0, 1, 1, 0, 0, 0, 0, 0, 0, 0, 0, 0, 0, 0, 0, 0, 0, 0, 0, 0]"
| "buffer_policy_table STATE__A = [0, 0, 0, 0, 0, 0, 0, 0, 0, 0, 0, 0, 0, 1, 0, 1, 1, 0, 0, 0, 0, 0, 0, 0, 0, 0, 0, 0, 0, 0, 0, 0, 0, 0]"
| "buffer_policy_table STATE__S = [1, 0, 0, 1, 1, 1, 1, 1, 1, 0, 0, 1, 1, 1, 1, 1, 1, 1, 1, 1, 1, 1, 1, 1, 1, 1, 1, 1, 1, 1, 1, 1, 1, 1]"
| "buffer_policy_table STATE_E0 = [0, 0, 0, 0, 0, 0, 0, 0, 0, 2, 2, 2, 0, 0, 0, 0, 0, 0, 2, 0, 0, 0, 2, 0, 2, 2, 0, 2, 0, 0, 0, 0, 0, 0]"
| "buffer_policy_table STATE_U1 = [0, 0, 0, 0, 0, 0, 0, 0, 0, 0, 0, 0, 0, 0, 0, 1, 1, 1, 1, 1, 1, 1, 1, 0, 0, 0, 0, 0, 0, 1, 1, 0, 0, 0]"
| "buffer_policy_table STATE_U2 = [0, 0, 0, 0, 0, 0, 0, 0, 0, 0, 0, 0, 0, 0, 0, 1, 1, 1, 1, 1, 1, 1, 1, 0, 0, 0, 0, 0, 0, 1, 1, 0, 0, 0]"
| "buffer_policy_table STATE_U3 = [0, 0, 0, 0, 0, 0, 0, 0, 0, 0, 0, 0, 0, 0, 0, 1, 1, 1, 1, 1, 1, 1, 1, 0, 0, 0, 0, 0, 0, 1, 1, 0, 0, 0]"
| "buffer_policy_table STATE_U4 = [0, 0, 0, 0, 0, 0, 0, 0, 0, 0, 0, 0, 0, 0, 0, 1, 1, 1, 1, 1, 1, 1, 1, 0, 0, 0, 0, 0, 0, 1, 1, 0, 0, 0]"
| "buffer_policy_table STATE_M0 = [0, 0, 0, 0, 0, 0, 0, 0, 0, 0, 0, 0, 0, 0, 0, 1, 1, 0, 0, 0, 0, 0, 0, 0, 0, 0, 0, 0, 0, 0, 0, 0, 0, 0]"
| "buffer_policy_table STATE_Z0 = [0, 0, 0, 0, 0, 0, 0, 0, 0, 0, 0, 0, 0, 0, 1, 0, 0, 0, 0, 0, 0, 0, 0, 0, 0, 0, 0, 0, 0, 0, 0, 0, 0, 0]"
| "buffer_policy_table STATE_I0 = [0, 0, 0, 0, 0, 0, 0, 0, 0, 0, 0, 0, 0, 0, 1, 1, 1, 0, 0, 0, 0, 1, 0, 0, 0, 0, 0, 0, 0, 0, 1, 0, 0, 0]"
| "buffer_policy_table STATE_R1 = [0, 0, 0, 0, 0, 0, 0, 0, 0, 0, 0, 0, 0, 0, 0, 1, 1, 0, 0, 0, 0, 0, 0, 0, 0, 0, 0, 0, 0, 0, 0, 0, 0, 0]"
| "buffer_policy_table STATE_R2 = [0, 0, 0, 0, 0, 0, 0, 0, 0, 0, 0, 0, 0, 0, 0, 1, 1, 0, 0, 0, 0, 1, 0, 0, 0, 0, 0, 0, 0, 0, 1, 0, 0, 0]"
| "buffer_policy_table STATE_X1 = [0, 0, 0, 0, 0, 0, 0, 0, 0, 0, 0, 0, 1, 1, 0, 1, 1, 0, 0, 0, 0, 0, 0, 0, 0, 0, 0, 0, 0, 0, 0, 0, 0, 0]"
| "buffer_policy_table STATE_X2 = [0, 0, 0, 0, 0, 0, 0, 0, 0, 0, 0, 0, 0, 0, 0, 1, 1, 0, 0, 0, 0, 0, 0, 0, 0, 0, 0, 0, 0, 0, 0, 0, 0, 0]"
| "buffer_policy_table STATE_X3 = [0, 0, 0, 0, 0, 0, 0, 0, 0, 0, 0, 0, 0, 0, 0, 1, 1, 0, 0, 0, 0, 0, 0, 0, 0, 0, 0, 0, 0, 0, 0, 0, 0, 0]"
| "buffer_policy_table STATE_T1 = [0, 0, 0, 0, 0, 0, 0, 0, 0, 0, 0, 0, 0, 0, 0, 0, 0, 0, 0, 0, 0, 0, 0, 0, 0, 0, 0, 0, 0, 0, 0, 0, 0, 0]"
| "buffer_policy_table STATE_T2 = [0, 0, 0, 0, 0, 0, 0, 0, 0, 0, 0, 0, 0, 0, 0, 0, 0, 0, 0, 0, 0, 0, 0, 0, 0, 0, 0, 0, 0, 0, 0, 0, 0, 0]"
| "buffer_policy_table STATE_T3 = [0, 0, 0, 0, 0, 0, 0, 0, 0, 0, 0, 0, 0, 0, 0, 0, 0, 0, 0, 0, 0, 0, 0, 0, 0, 0, 0, 0, 0, 0, 0, 0, 0, 0]"
| "buffer_policy_table STATE_F1 = [0, 0, 0, 0, 0, 0, 0, 0, 0, 0, 0, 0, 0, 0, 0, 0, 0, 0, 0, 0, 0, 0, 0, 0, 0, 0, 0, 0, 0, 0, 0, 0, 0, 0]"
| "buffer_policy_table STATE_F2 = [0, 0, 0, 0, 0, 0, 0, 0, 0, 0, 0, 0, 0, 0, 0, 0, 0, 0, 0, 0, 0, 0, 0, 0, 0, 0, 0, 0, 0, 0, 0, 0, 0, 0]"
| "buffer_policy_table STATE_F3 = [0, 0, 0, 0, 0, 0, 0, 0, 0, 0, 0, 0, 0, 0, 0, 0, 0, 0, 0, 0, 0, 0, 0, 0, 0, 0, 0, 0, 0, 0, 0, 0, 0, 0]"
| "buffer_policy_table STATE_F4 = [0, 0, 0, 0, 0, 0, 0, 0, 0, 0, 0, 0, 0, 0, 0, 0, 0, 0, 0, 0, 0, 0, 0, 0, 0, 0, 0, 0, 0, 0, 0, 0, 0, 0]"
| "buffer_policy_table STATE_N1 = [0, 0, 0, 0, 0, 0, 0, 0, 0, 0, 0, 0, 0, 0, 0, 0, 0, 0, 0, 0, 0, 0, 0, 0, 0, 0, 0, 0, 0, 0, 0, 0, 0, 0]"
| "buffer_policy_table STATE_N2 = [0, 0, 0, 0, 0, 0, 0, 0, 0, 0, 0, 0, 0, 0, 0, 0, 0, 0, 0, 0, 0, 0, 0, 0, 0, 0, 0, 0, 0, 0, 0, 0, 0, 0]"
| "buffer_policy_table STATE_N3 = [0, 0, 0, 0, 0, 0, 0, 0, 0, 0, 0, 0, 0, 0, 0, 0, 0, 0, 0, 0, 0, 0, 0, 0, 0, 0, 0, 0, 0, 0, 0, 0, 0, 0]"
| "buffer_policy_table STATE_C1 = [0, 0, 0, 0, 0, 0, 0, 0, 0, 0, 0, 0, 0, 0, 0, 0, 0, 0, 0, 0, 0, 0, 0, 0, 0, 0, 0, 0, 0, 0, 0, 0, 0, 0]"
| "buffer_policy_table STATE_C2 = [0, 0, 0, 0, 0, 0, 0, 0, 0, 0, 0, 0, 0, 0, 0, 0, 0, 0, 0, 0, 0, 0, 0, 0, 0, 0, 0, 0, 0, 0, 0, 0, 0, 0]"
| "buffer_policy_table STATE_C3 = [0, 0, 0, 0, 0, 0, 0, 0, 0, 0, 0, 0, 0, 0, 0, 0, 0, 0, 0, 0, 0, 0, 0, 0, 0, 0, 0, 0, 0, 0, 0, 0, 0, 0]"
| "buffer_policy_table STATE_Y1 = [0, 0, 0, 0, 0, 0, 0, 0, 0, 0, 0, 0, 0, 0, 0, 0, 0, 0, 0, 0, 0, 0, 0, 0, 0, 0, 0, 0, 0, 0, 0, 0, 0, 0]"
| "buffer_policy_table STATE_D1 = [0, 0, 0, 0, 0, 0, 0, 0, 0, 0, 0, 0, 0, 0, 0, 0, 0, 0, 0, 0, 0, 0, 0, 0, 0, 0, 0, 0, 0, 0, 0, 0, 0, 0]"
| "buffer_policy_table STATE_D2 = [0, 0, 0, 0, 0, 0, 0, 0, 0, 0, 0, 0, 0, 0, 0, 0, 0, 0, 0, 0, 0, 0, 0, 0, 0, 0, 0, 0, 0, 0, 0, 0, 0, 0]"
| "buffer_policy_table _ = []"

definition IS_STATE_ACTION :: "states \<Rightarrow> bool" where
  "IS_STATE_ACTION s \<longleftrightarrow> s \<in> set actions"

primrec class_index :: "classes \<Rightarrow> nat" where
  "class_index C_SPACE = 0"
| "class_index C_NL = 1"
| "class_index C_WHITE = 2"
| "class_index C_LCURB = 3"
| "class_index C_RCURB = 4"
| "class_index C_LSQRB = 5"
| "class_index C_RSQRB = 6"
| "class_index C_COLON = 7"
| "class_index C_COMMA = 8"
| "class_index C_QUOTE = 9"
| "class_index C_BACKS = 10"
| "class_index C_SLASH = 11"
| "class_index C_PLUS = 12"
| "class_index C_MINUS = 13"
| "class_index C_DOT = 14"
| "class_index C_ZERO = 15"
| "class_index C_DIGIT = 16"
| "class_index C_a = 17"
| "class_index C_b = 18"
| "class_index C_c = 19"
| "class_index C_d = 20"
| "class_index C_e = 21"
| "class_index C_f = 22"
| "class_index C_l = 23"
| "class_index C_n = 24"
| "class_index C_r = 25"
| "class_index C_s = 26"
| "class_index C_t = 27"
| "class_index C_u = 28"
| "class_index C_ABCDF = 29"
| "class_index C_E = 30"
| "class_index C_OTHER = 31"
| "class_index C_STAR = 32"
| "class_index C_HASH = 33"
| "class_index C_ERROR = 0xfe"

definition table_entry :: "'a list \<Rightarrow> classes \<Rightarrow> 'a result" where
  "table_entry row c = (if class_index c < length row then Inr (row ! class_index c) else Inl OutOfBounds)"

text \<open>The two tables for UTF-8, indexed by a byte.\<close>

definition utf8_header_table :: "nat \<Rightarrow> nat" where
  "utf8_header_table b =
     (if b < 0x80 then 0 else if b < 0xc0 then 0xff else if b < 0xe0 then 1 else if b < 0xf0 then 2
      else if b < 0xf8 then 3 else if b < 0xfc then 4 else if b < 0xfe then 5 else 0xff)"

definition utf8_continuation_table :: "nat \<Rightarrow> nat" where
  "utf8_continuation_table b = (if 0x80 \<le> b \<and> b < 0xc0 then 0 else 0xff)"

text \<open>The values of hexadecimal digits; the table has 128 entries.\<close>

definition hextable :: "nat \<Rightarrow> nat" where
  "hextable b =
     (if 48 \<le> b \<and> b \<le> 57 then b - 48 else if 65 \<le> b \<and> b \<le> 70 then b - 55 else if 97 \<le> b \<and> b \<le> 102 then b - 87 else 255)"

section \<open>The parser\<close>

datatype json_type =
    JSON_NONE | JSON_ARRAY_BEGIN | JSON_OBJECT_BEGIN | JSON_ARRAY_END | JSON_OBJECT_END | JSON_INT | JSON_FLOAT
  | JSON_STRING | JSON_KEY | JSON_TRUE | JSON_FALSE | JSON_NULL | JSON_BSTRING

abbreviation JSON_ERROR_NO_MEMORY :: int where "JSON_ERROR_NO_MEMORY \<equiv> 1"
abbreviation JSON_ERROR_BAD_CHAR :: int where "JSON_ERROR_BAD_CHAR \<equiv> 2"
abbreviation JSON_ERROR_POP_EMPTY :: int where "JSON_ERROR_POP_EMPTY \<equiv> 3"
abbreviation JSON_ERROR_POP_UNEXPECTED_MODE :: int where "JSON_ERROR_POP_UNEXPECTED_MODE \<equiv> 4"
abbreviation JSON_ERROR_NESTING_LIMIT :: int where "JSON_ERROR_NESTING_LIMIT \<equiv> 5"
abbreviation JSON_ERROR_DATA_LIMIT :: int where "JSON_ERROR_DATA_LIMIT \<equiv> 6"
abbreviation JSON_ERROR_COMMENT_NOT_ALLOWED :: int where "JSON_ERROR_COMMENT_NOT_ALLOWED \<equiv> 7"
abbreviation JSON_ERROR_UNEXPECTED_CHAR :: int where "JSON_ERROR_UNEXPECTED_CHAR \<equiv> 8"
abbreviation JSON_ERROR_UNICODE_MISSING_LOW_SURROGATE :: int where "JSON_ERROR_UNICODE_MISSING_LOW_SURROGATE \<equiv> 9"
abbreviation JSON_ERROR_UNICODE_UNEXPECTED_LOW_SURROGATE :: int where "JSON_ERROR_UNICODE_UNEXPECTED_LOW_SURROGATE \<equiv> 10"
abbreviation JSON_ERROR_COMMA_OUT_OF_STRUCTURE :: int where "JSON_ERROR_COMMA_OUT_OF_STRUCTURE \<equiv> 11"
abbreviation JSON_ERROR_CALLBACK :: int where "JSON_ERROR_CALLBACK \<equiv> 12"
abbreviation JSON_ERROR_UTF8 :: int where "JSON_ERROR_UTF8 \<equiv> 13"

abbreviation LIBJSON_DEFAULT_STACK_SIZE :: nat where "LIBJSON_DEFAULT_STACK_SIZE \<equiv> 256"
abbreviation LIBJSON_DEFAULT_BUFFER_SIZE :: nat where "LIBJSON_DEFAULT_BUFFER_SIZE \<equiv> 4096"

record json_config =
  jc_buffer_initial_size :: nat
  jc_max_nesting :: nat
  jc_max_data :: nat
  jc_allow_c_comments :: bool
  jc_allow_yaml_comments :: bool
  jc_mem :: "nat \<Rightarrow> bool"

datatype mode = MODE_ARRAY | MODE_OBJECT

text \<open>A callback gets the user data, the kind of the event and its text.\<close>

type_synonym 'u json_callback = "'u \<Rightarrow> json_type \<Rightarrow> string \<Rightarrow> (int \<times> 'u) result"

record 'u json_parser =
  jp_config :: json_config
  jp_callback :: "'u json_callback option"
  jp_userdata :: 'u
  jp_state :: states
  jp_save_state :: states
  jp_expecting_key :: bool
  jp_utf8_multibyte_left :: nat
  jp_unicode_multi :: nat
  jp_type :: json_type
  jp_stack :: "mode list"
  jp_stack_size :: nat
  jp_buffer :: string
  jp_buffer_size :: nat

type_synonym 'u jp_op = "'u json_parser \<Rightarrow> (int \<times> 'u json_parser) result"

text \<open>The macro \<open>CHK\<close>: return if the code is not \<open>0\<close>.\<close>

definition CHK :: "'u jp_op \<Rightarrow> 'u jp_op \<Rightarrow> 'u jp_op" where
  "CHK f k p = rbind (f p) (\<lambda>(ret, p). if ret \<noteq> 0 then Inr (ret, p) else k p)"

definition state_grow :: "'u jp_op" where
  "state_grow p =
     (let newsize = jp_stack_size p * 2 mod 2 ^ 32 in
      if jc_max_nesting (jp_config p) \<noteq> 0 then Inr (JSON_ERROR_NESTING_LIMIT, p)
      else if \<not> jc_mem (jp_config p) newsize then Inr (JSON_ERROR_NO_MEMORY, p)
      else Inr (0, p\<lparr>jp_stack_size := newsize\<rparr>))"

definition state_push :: "mode \<Rightarrow> 'u jp_op" where
  "state_push mode =
     CHK (\<lambda>p. if length (jp_stack p) \<ge> jp_stack_size p then state_grow p else Inr (0, p))
       (\<lambda>p. if length (jp_stack p) < jp_stack_size p then Inr (0, p\<lparr>jp_stack := jp_stack p @ [mode]\<rparr>) else Inl OutOfBounds)"

definition state_pop :: "mode \<Rightarrow> 'u jp_op" where
  "state_pop mode p =
     (if jp_stack p = [] then Inr (JSON_ERROR_POP_EMPTY, p)
      else if last (jp_stack p) \<noteq> mode then Inr (JSON_ERROR_POP_UNEXPECTED_MODE, p\<lparr>jp_stack := butlast (jp_stack p)\<rparr>)
      else Inr (0, p\<lparr>jp_stack := butlast (jp_stack p)\<rparr>))"

definition buffer_grow :: "'u jp_op" where
  "buffer_grow p =
     (let max = jc_max_data (jp_config p) in
      if max > 0 \<and> jp_buffer_size p = max then Inr (JSON_ERROR_DATA_LIMIT, p)
      else
        let newsize = jp_buffer_size p * 2 mod 2 ^ 32;
            newsize = (if max > 0 \<and> newsize > max then max else newsize)
        in if \<not> jc_mem (jp_config p) newsize then Inr (JSON_ERROR_NO_MEMORY, p)
           else Inr (0, p\<lparr>jp_buffer_size := newsize\<rparr>))"

text \<open>Bytes written at the offset of the buffer.\<close>

definition buffer_store :: "string \<Rightarrow> 'u jp_op" where
  "buffer_store s p =
     (if length (jp_buffer p) + length s \<le> jp_buffer_size p then Inr (0, p\<lparr>jp_buffer := jp_buffer p @ s\<rparr>)
      else Inl OutOfBounds)"

definition buffer_push :: "char \<Rightarrow> 'u jp_op" where
  "buffer_push c =
     CHK (\<lambda>p. if (length (jp_buffer p) + 1) mod 2 ^ 32 \<ge> jp_buffer_size p then buffer_grow p else Inr (0, p))
       (buffer_store [c])"

text \<open>The byte behind the contents is set to zero before the buffer is passed on.\<close>

definition do_callback_withbuf :: "json_type \<Rightarrow> 'u jp_op" where
  "do_callback_withbuf type p =
     (case jp_callback p of
        None \<Rightarrow> Inr (0, p)
      | Some callback \<Rightarrow>
          if length (jp_buffer p) < jp_buffer_size p
          then rbind (callback (jp_userdata p) type (jp_buffer p)) (\<lambda>(ret, u). Inr (ret, p\<lparr>jp_userdata := u\<rparr>))
          else Inl OutOfBounds)"

definition do_callback :: "json_type \<Rightarrow> 'u jp_op" where
  "do_callback type p =
     (case jp_callback p of
        None \<Rightarrow> Inr (0, p)
      | Some callback \<Rightarrow> rbind (callback (jp_userdata p) type []) (\<lambda>(ret, u). Inr (ret, p\<lparr>jp_userdata := u\<rparr>)))"

definition do_buffer :: "'u jp_op" where
  "do_buffer p =
     CHK (if jp_type p \<in> {JSON_KEY, JSON_STRING, JSON_FLOAT, JSON_INT, JSON_NULL, JSON_TRUE, JSON_FALSE}
          then do_callback_withbuf (jp_type p) else (\<lambda>p. Inr (0, p)))
       (\<lambda>p. Inr (0, p\<lparr>jp_buffer := []\<rparr>)) p"

definition IS_HIGH_SURROGATE :: "nat \<Rightarrow> bool" where
  "IS_HIGH_SURROGATE uc \<longleftrightarrow> and uc 0xfc00 = 0xd800"

definition IS_LOW_SURROGATE :: "nat \<Rightarrow> bool" where
  "IS_LOW_SURROGATE uc \<longleftrightarrow> and uc 0xfc00 = 0xdc00"

text \<open>The value of the last four characters of the buffer; \<open>hex\<close> reads outside its table for a byte above 127.\<close>

definition unicode_value :: "string \<Rightarrow> nat result" where
  "unicode_value b =
     (let bs = map of_char (drop (length b - 4) b) :: nat list in
      if length bs < 4 \<or> (\<exists>x \<in> set bs. x \<ge> 128) then Inl OutOfBounds
      else Inr (or (or (or (push_bit 12 (hextable (bs ! 0))) (push_bit 8 (hextable (bs ! 1)))) (push_bit 4 (hextable (bs ! 2))))
                 (hextable (bs ! 3))))"

definition decode_unicode_char :: "'u jp_op" where
  "decode_unicode_char p =
     rbind (unicode_value (jp_buffer p)) (\<lambda>uval.
       let p = p\<lparr>jp_buffer := take (length (jp_buffer p) - 4) (jp_buffer p)\<rparr>;
           multi = jp_unicode_multi p
       in if multi = 0 \<and> uval < 0x80 then buffer_store [char_of uval] p
          else if multi \<noteq> 0 then
            if \<not> IS_LOW_SURROGATE uval then Inr (JSON_ERROR_UNICODE_MISSING_LOW_SURROGATE, p)
            else
              let uval = 0x10000 + push_bit 10 (and multi 0x3ff) + and uval 0x3ff in
              CHK (buffer_store [char_of (or (drop_bit 18 uval) 0xf0), char_of (or (and (drop_bit 12 uval) 0x3f) 0x80),
                                 char_of (or (and (drop_bit 6 uval) 0x3f) 0x80), char_of (or (and uval 0x3f) 0x80)])
                (\<lambda>p. Inr (0, p\<lparr>jp_unicode_multi := 0\<rparr>)) p
          else if IS_LOW_SURROGATE uval then Inr (JSON_ERROR_UNICODE_UNEXPECTED_LOW_SURROGATE, p)
          else if IS_HIGH_SURROGATE uval then Inr (0, p\<lparr>jp_unicode_multi := uval\<rparr>)
          else if uval < 0x800 then
            buffer_store [char_of (or (drop_bit 6 uval) 0xc0), char_of (or (and uval 0x3f) 0x80)] p
          else
            buffer_store [char_of (or (drop_bit 12 uval) 0xe0), char_of (or (and (drop_bit 6 uval) 0x3f) 0x80),
                          char_of (or (and uval 0x3f) 0x80)] p)"

definition buffer_push_escape :: "char \<Rightarrow> 'u jp_op" where
  "buffer_push_escape next =
     buffer_push
       (if next = CHR ''b'' then CHR 0x08 else if next = CHR ''f'' then CHR 0x0C else if next = CHR ''n'' then CHR 0x0A
        else if next = CHR ''r'' then CHR 0x0D else if next = CHR ''t'' then CHR 0x09 else if next = CHR 0x22 then CHR 0x22
        else if next = CHR ''/'' then CHR ''/'' else if next = CHR 0x5C then CHR 0x5C else CHR 0x00)"

subsection \<open>Actions\<close>

definition act_uc :: "'u jp_op" where
  "act_uc = CHK decode_unicode_char
     (\<lambda>p. Inr (0, p\<lparr>jp_state := (if jp_unicode_multi p \<noteq> 0 then STATE_D1 else STATE__S)\<rparr>))"

definition act_yb :: "'u jp_op" where
  "act_yb p =
     (if \<not> jc_allow_yaml_comments (jp_config p) then Inr (JSON_ERROR_COMMENT_NOT_ALLOWED, p)
      else Inr (0, p\<lparr>jp_save_state := jp_state p\<rparr>))"

definition act_cb :: "'u jp_op" where
  "act_cb p =
     (if \<not> jc_allow_c_comments (jp_config p) then Inr (JSON_ERROR_COMMENT_NOT_ALLOWED, p)
      else Inr (0, p\<lparr>jp_save_state := jp_state p\<rparr>))"

text \<open>The states up to \<open>STATE__A\<close> in the order of the enumeration.\<close>

definition act_ce :: "'u jp_op" where
  "act_ce p =
     Inr (0, p\<lparr>jp_state :=
       (if jp_save_state p \<notin> {STATE_GO, STATE_OK, STATE__O, STATE__K, STATE_CO, STATE__V, STATE__A}
        then STATE_OK else jp_save_state p)\<rparr>)"

definition act_ob :: "'u jp_op" where
  "act_ob = CHK (do_callback JSON_OBJECT_BEGIN) (CHK (state_push MODE_OBJECT) (\<lambda>p. Inr (0, p\<lparr>jp_expecting_key := True\<rparr>)))"

definition act_oe :: "'u jp_op" where
  "act_oe = CHK (state_pop MODE_OBJECT) (CHK (do_callback JSON_OBJECT_END) (\<lambda>p. Inr (0, p\<lparr>jp_expecting_key := False\<rparr>)))"

definition act_ab :: "'u jp_op" where
  "act_ab = CHK (do_callback JSON_ARRAY_BEGIN) (CHK (state_push MODE_ARRAY) (\<lambda>p. Inr (0, p)))"

definition act_ae :: "'u jp_op" where
  "act_ae = CHK (state_pop MODE_ARRAY) (CHK (do_callback JSON_ARRAY_END) (\<lambda>p. Inr (0, p)))"

definition act_se :: "'u jp_op" where
  "act_se p =
     CHK (do_callback_withbuf (if jp_expecting_key p then JSON_KEY else JSON_STRING))
       (\<lambda>p. Inr (0, p\<lparr>jp_buffer := [], jp_state := (if jp_expecting_key p then STATE_CO else STATE_OK),
                      jp_expecting_key := False\<rparr>)) p"

definition act_sp :: "'u jp_op" where
  "act_sp p =
     (if jp_stack p = [] then Inr (JSON_ERROR_COMMA_OUT_OF_STRUCTURE, p)
      else if last (jp_stack p) = MODE_OBJECT then Inr (0, p\<lparr>jp_expecting_key := True, jp_state := STATE__K\<rparr>)
      else Inr (0, p\<lparr>jp_state := STATE__V\<rparr>))"

text \<open>The function to call, the type and the state to set (\<open>None\<close> if the function sets the state), and whether the
  buffer is flushed before the call.\<close>

record 'u action_descr =
  ad_call :: "'u jp_op option"
  ad_type :: json_type
  ad_state :: "states option"
  ad_dobuffer :: bool

definition action_descr :: "'u jp_op option \<Rightarrow> json_type \<Rightarrow> states option \<Rightarrow> bool \<Rightarrow> 'u action_descr" where
  "action_descr c t s b = \<lparr>ad_call = c, ad_type = t, ad_state = s, ad_dobuffer = b\<rparr>"

fun actions_map :: "states \<Rightarrow> 'u action_descr option" where
  "actions_map STATE_KS = Some (action_descr None JSON_NONE (Some STATE__V) False)"
| "actions_map STATE_SP = Some (action_descr (Some act_sp) JSON_NONE None True)"
| "actions_map STATE_AB = Some (action_descr (Some act_ab) JSON_NONE (Some STATE__A) False)"
| "actions_map STATE_AE = Some (action_descr (Some act_ae) JSON_NONE (Some STATE_OK) True)"
| "actions_map STATE_OB = Some (action_descr (Some act_ob) JSON_NONE (Some STATE__O) False)"
| "actions_map STATE_OE = Some (action_descr (Some act_oe) JSON_NONE (Some STATE_OK) True)"
| "actions_map STATE_CB = Some (action_descr (Some act_cb) JSON_NONE (Some STATE_C1) True)"
| "actions_map STATE_YB = Some (action_descr (Some act_yb) JSON_NONE (Some STATE_Y1) True)"
| "actions_map STATE_CE = Some (action_descr (Some act_ce) JSON_NONE None False)"
| "actions_map STATE_FA = Some (action_descr None JSON_FALSE (Some STATE_OK) False)"
| "actions_map STATE_TR = Some (action_descr None JSON_TRUE (Some STATE_OK) False)"
| "actions_map STATE_NU = Some (action_descr None JSON_NULL (Some STATE_OK) False)"
| "actions_map STATE_DE = Some (action_descr None JSON_FLOAT (Some STATE_X1) False)"
| "actions_map STATE_DF = Some (action_descr None JSON_FLOAT (Some STATE_R1) False)"
| "actions_map STATE_SE = Some (action_descr (Some act_se) JSON_NONE None False)"
| "actions_map STATE_MX = Some (action_descr None JSON_INT (Some STATE_M0) False)"
| "actions_map STATE_ZX = Some (action_descr None JSON_INT (Some STATE_Z0) False)"
| "actions_map STATE_IX = Some (action_descr None JSON_INT (Some STATE_I0) False)"
| "actions_map STATE_UC = Some (action_descr (Some act_uc) JSON_NONE None False)"
| "actions_map _ = None"

definition do_action :: "states \<Rightarrow> 'u jp_op" where
  "do_action next_state p =
     (case actions_map next_state of
        None \<Rightarrow> Inl OutOfBounds
      | Some descr \<Rightarrow>
          CHK (case ad_call descr of
                 None \<Rightarrow> (\<lambda>p. Inr (0, p))
               | Some call \<Rightarrow> CHK (if ad_dobuffer descr then do_buffer else (\<lambda>p. Inr (0, p))) call)
            (\<lambda>p. Inr (0, p\<lparr>jp_state := (case ad_state descr of Some s \<Rightarrow> s | None \<Rightarrow> jp_state p), jp_type := ad_type descr\<rparr>)) p)"

subsection \<open>Operations\<close>

definition json_parser_init :: "json_config \<Rightarrow> 'u json_callback option \<Rightarrow> 'u \<Rightarrow> (int \<times> 'u json_parser)" where
  "json_parser_init config callback userdata =
     (let stack_size = (if jc_max_nesting config > 0 then jc_max_nesting config else LIBJSON_DEFAULT_STACK_SIZE);
          buffer_size = (if jc_buffer_initial_size config > 0 then jc_buffer_initial_size config else LIBJSON_DEFAULT_BUFFER_SIZE);
          buffer_size = (if jc_max_data config > 0 \<and> buffer_size > jc_max_data config then jc_max_data config else buffer_size)
      in (if jc_mem config stack_size \<and> jc_mem config buffer_size then 0 else JSON_ERROR_NO_MEMORY,
          \<lparr>jp_config = config, jp_callback = callback, jp_userdata = userdata, jp_state = STATE_GO, jp_save_state = STATE_GO,
           jp_expecting_key = False, jp_utf8_multibyte_left = 0, jp_unicode_multi = 0, jp_type = JSON_NONE,
           jp_stack = [], jp_stack_size = stack_size, jp_buffer = [], jp_buffer_size = buffer_size\<rparr>))"

definition json_parser_is_done :: "'u json_parser \<Rightarrow> bool" where
  "json_parser_is_done p \<longleftrightarrow> jp_stack p = [] \<and> jp_state p \<noteq> STATE_GO"

text \<open>The class of a character, which updates the count of bytes that are missing from a multi-byte character.\<close>

definition next_class :: "char \<Rightarrow> 'u json_parser \<Rightarrow> int \<times> classes \<times> 'u json_parser" where
  "next_class ch p =
     (let b = of_char ch :: nat in
      if jp_utf8_multibyte_left p > 0 then
        if utf8_continuation_table b \<noteq> 0 then (JSON_ERROR_UTF8, C_ERROR, p)
        else (0, C_OTHER, p\<lparr>jp_utf8_multibyte_left := jp_utf8_multibyte_left p - 1\<rparr>)
      else
        let left = utf8_header_table b; p = p\<lparr>jp_utf8_multibyte_left := left\<rparr> in
        if left = 0xff then (JSON_ERROR_UTF8, C_ERROR, p)
        else
          let c = (if left > 0 then C_OTHER else character_class ! b)
          in (if c = C_ERROR then JSON_ERROR_BAD_CHAR else 0, c, p))"

text \<open>One iteration of the loop.\<close>

definition json_parser_step :: "char \<Rightarrow> 'u jp_op" where
  "json_parser_step ch p =
     (case next_class ch p of
        (ret, c, p) \<Rightarrow>
          if ret \<noteq> 0 then Inr (ret, p)
          else
            rbind (table_entry (state_transition_table (jp_state p)) c) (\<lambda>next_state.
            rbind (table_entry (buffer_policy_table (jp_state p)) c) (\<lambda>buffer_policy.
              if next_state = STATE_ERR then Inr (JSON_ERROR_UNEXPECTED_CHAR, p)
              else
                CHK (if buffer_policy \<noteq> 0 then if buffer_policy = 2 then buffer_push_escape ch else buffer_push ch
                     else (\<lambda>p. Inr (0, p)))
                  (if IS_STATE_ACTION next_state then do_action next_state else (\<lambda>p. Inr (0, p\<lparr>jp_state := next_state\<rparr>))) p)))"

fun parser_loop :: "nat \<Rightarrow> string \<Rightarrow> 'u json_parser \<Rightarrow> (int \<times> nat \<times> 'u json_parser) result" where
  "parser_loop i [] p = Inr (0, i, p)"
| "parser_loop i (ch # s) p =
     rbind (json_parser_step ch p) (\<lambda>(ret, p). if ret \<noteq> 0 then Inr (ret, i, p) else parser_loop (i + 1) s p)"

text \<open>The result contains the number of characters that were processed.\<close>

definition json_parser_string :: "string \<Rightarrow> 'u json_parser \<Rightarrow> (int \<times> nat \<times> 'u json_parser) result" where
  "json_parser_string s p = parser_loop 0 s p"

definition json_parser_char :: "char \<Rightarrow> 'u jp_op" where
  "json_parser_char ch p = rbind (json_parser_string [ch] p) (\<lambda>(ret, _, p). Inr (ret, p))"

section \<open>The printer\<close>

text \<open>The printer's callback gets pieces of text and its result is ignored: \<open>pr_out\<close> is all text it got so far.\<close>

record json_printer =
  pr_out :: string
  pr_indentstr :: string
  pr_indentlevel :: int
  pr_afterkey :: bool
  pr_enter_object :: bool
  pr_first :: bool

definition json_print_init :: json_printer where
  "json_print_init = \<lparr>pr_out = [], pr_indentstr = [CHR 0x09], pr_indentlevel = 0, pr_afterkey = False, pr_enter_object = True,
     pr_first = True\<rparr>"

definition pr_call :: "string \<Rightarrow> json_printer \<Rightarrow> json_printer" where
  "pr_call s pr = pr\<lparr>pr_out := pr_out pr @ s\<rparr>"

definition hexdigit :: "nat \<Rightarrow> char" where
  "hexdigit d = (if d < 10 then char_of (48 + d) else char_of (87 + d))"

text \<open>The entries of \<open>character_escape\<close>: a backslash and a letter, a Unicode escape, or the character.\<close>

definition character_escape :: "nat \<Rightarrow> string" where
  "character_escape c =
     (if c = 0x08 then [CHR 0x5C, CHR ''b''] else if c = 0x09 then [CHR 0x5C, CHR ''t''] else if c = 0x0A then [CHR 0x5C, CHR ''n'']
      else if c = 0x0C then [CHR 0x5C, CHR ''f''] else if c = 0x0D then [CHR 0x5C, CHR ''r'']
      else if c = 0x22 then [CHR 0x5C, CHR 0x22] else if c = 0x5C then [CHR 0x5C, CHR 0x5C]
      else if c < 0x20 \<or> 0x7F \<le> c then [CHR 0x5C, CHR ''u'', CHR ''0'', CHR ''0'', hexdigit (c div 16), hexdigit (c mod 16)]
      else [char_of c])"

definition escape_char :: "char \<Rightarrow> string" where
  "escape_char ch =
     (let c = of_char ch :: nat in
      if c < 36 then character_escape c else if ch = CHR 0x5C then [CHR 0x5C, CHR 0x5C] else [ch])"

definition print_string :: "string \<Rightarrow> json_printer \<Rightarrow> json_printer" where
  "print_string data pr = pr_call [CHR 0x22] (fold (\<lambda>ch. pr_call (escape_char ch)) data (pr_call [CHR 0x22] pr))"

definition print_binary_string :: "string \<Rightarrow> json_printer \<Rightarrow> json_printer" where
  "print_binary_string data pr = pr_call [CHR 0x22] (fold (\<lambda>ch. pr_call (character_escape (of_char ch))) data (pr_call [CHR 0x22] pr))"

definition print_indent :: "json_printer \<Rightarrow> json_printer" where
  "print_indent pr =
     (let pr = pr_call [CHR 0x0A] pr in fold (\<lambda>_. pr_call (pr_indentstr pr)) [0..<nat (pr_indentlevel pr)] pr)"

definition json_print_mode :: "bool \<Rightarrow> json_type \<Rightarrow> string \<Rightarrow> json_printer \<Rightarrow> json_printer" where
  "json_print_mode pretty type data pr =
     (let enterobj = pr_enter_object pr;
          pr = (if \<not> enterobj \<and> \<not> pr_afterkey pr \<and> type \<noteq> JSON_ARRAY_END \<and> type \<noteq> JSON_OBJECT_END
                then let pr = pr_call '','' pr in if pretty then print_indent pr else pr else pr);
          pr = (if pretty \<and> enterobj \<and> \<not> pr_first pr \<and> type \<noteq> JSON_ARRAY_END \<and> type \<noteq> JSON_OBJECT_END
                then print_indent pr else pr);
          pr = pr\<lparr>pr_first := False, pr_enter_object := False, pr_afterkey := False\<rparr>
      in case type of
           JSON_ARRAY_BEGIN \<Rightarrow> (pr_call ''['' pr)\<lparr>pr_indentlevel := pr_indentlevel pr + 1, pr_enter_object := True\<rparr>
         | JSON_OBJECT_BEGIN \<Rightarrow> (pr_call ''{'' pr)\<lparr>pr_indentlevel := pr_indentlevel pr + 1, pr_enter_object := True\<rparr>
         | JSON_ARRAY_END \<Rightarrow>
             let pr = pr\<lparr>pr_indentlevel := pr_indentlevel pr - 1\<rparr>
             in pr_call '']'' (if pretty \<and> \<not> enterobj then print_indent pr else pr)
         | JSON_OBJECT_END \<Rightarrow>
             let pr = pr\<lparr>pr_indentlevel := pr_indentlevel pr - 1\<rparr>
             in pr_call ''}'' (if pretty \<and> \<not> enterobj then print_indent pr else pr)
         | JSON_INT \<Rightarrow> pr_call data pr
         | JSON_FLOAT \<Rightarrow> pr_call data pr
         | JSON_NULL \<Rightarrow> pr_call ''null'' pr
         | JSON_TRUE \<Rightarrow> pr_call ''true'' pr
         | JSON_FALSE \<Rightarrow> pr_call ''false'' pr
         | JSON_KEY \<Rightarrow> (pr_call (if pretty then '': '' else '':'') (print_string data pr))\<lparr>pr_afterkey := True\<rparr>
         | JSON_STRING \<Rightarrow> print_string data pr
         | JSON_BSTRING \<Rightarrow> print_binary_string data pr
         | JSON_NONE \<Rightarrow> pr)"

definition json_print_pretty :: "json_type \<Rightarrow> string \<Rightarrow> json_printer \<Rightarrow> json_printer" where
  "json_print_pretty = json_print_mode True"

definition json_print_raw :: "json_type \<Rightarrow> string \<Rightarrow> json_printer \<Rightarrow> json_printer" where
  "json_print_raw = json_print_mode False"

text \<open>The variable arguments: a type and, for the types that take them, a text and its length (\<open>None\<close> for \<open>-1\<close>).\<close>

fun json_print_args ::
    "(json_type \<Rightarrow> string \<Rightarrow> json_printer \<Rightarrow> json_printer) \<Rightarrow> (json_type \<times> string \<times> nat option) list \<Rightarrow> json_printer \<Rightarrow> json_printer" where
  "json_print_args f [] pr = pr"
| "json_print_args f ((type, data, len) # args) pr =
     json_print_args f args
       (if type \<in> {JSON_ARRAY_BEGIN, JSON_ARRAY_END, JSON_OBJECT_BEGIN, JSON_OBJECT_END, JSON_NULL, JSON_TRUE, JSON_FALSE} then f type [] pr
        else if type \<in> {JSON_INT, JSON_FLOAT, JSON_KEY, JSON_STRING}
        then f type (case len of None \<Rightarrow> takeWhile (\<lambda>c. c \<noteq> CHR 0x00) data | Some n \<Rightarrow> take n data) pr
        else pr)"

section \<open>Building a tree\<close>

text \<open>The key of an element is a pointer: null, to a string, or to a string that was freed.\<close>

datatype dom_key = KeyNull | Key string | KeyFreed

record 'v stack_elem =
  se_val :: 'v
  se_key :: dom_key

text \<open>\<open>sizeof (struct stack_elem)\<close> with pointers of 64 bits.\<close>

abbreviation stack_elem_size :: nat where "stack_elem_size \<equiv> 24"

text \<open>\<open>append\<close> changes the parent and returns an error code; \<open>dom_block\<close> is the size of the allocated memory in bytes.\<close>

record 'v json_parser_dom =
  dom_stack :: "'v stack_elem list"
  dom_stack_size :: nat
  dom_block :: nat
  dom_mem :: "nat \<Rightarrow> bool"
  dom_root_structure :: "'v option"
  dom_create_structure :: "nat \<Rightarrow> bool \<Rightarrow> 'v option"
  dom_create_data :: "json_type \<Rightarrow> string \<Rightarrow> 'v option"
  dom_append :: "'v \<Rightarrow> string option \<Rightarrow> 'v \<Rightarrow> int \<times> 'v"

definition dom_push :: "'v \<Rightarrow> 'v json_parser_dom \<Rightarrow> (int \<times> 'v json_parser_dom) result" where
  "dom_push val ctx =
     (let newsize = dom_stack_size ctx * 2 mod 2 ^ 32;
          full = (length (dom_stack ctx) = dom_stack_size ctx)
      in if full \<and> \<not> dom_mem ctx newsize then Inr (JSON_ERROR_NO_MEMORY, ctx)
         else
           let ctx = (if full then ctx\<lparr>dom_block := newsize, dom_stack_size := newsize\<rparr> else ctx) in
           if stack_elem_size * (length (dom_stack ctx) + 1) \<le> dom_block ctx
           then Inr (0, ctx\<lparr>dom_stack := dom_stack ctx @ [\<lparr>se_val = val, se_key = KeyNull\<rparr>]\<rparr>)
           else Inl OutOfBounds)"

definition dom_pop :: "'v json_parser_dom \<Rightarrow> ('v \<times> 'v json_parser_dom) result" where
  "dom_pop ctx =
     (if dom_stack ctx = [] then Inl OutOfBounds
      else Inr (se_val (last (dom_stack ctx)), ctx\<lparr>dom_stack := butlast (dom_stack ctx)\<rparr>))"

text \<open>The call of \<open>append\<close> for the element on top of the stack, with its key.\<close>

definition dom_append_top :: "'v \<Rightarrow> 'v json_parser_dom \<Rightarrow> (int \<times> 'v json_parser_dom) result" where
  "dom_append_top v ctx =
     (if dom_stack ctx = [] then Inl OutOfBounds
      else
        let top = last (dom_stack ctx);
            put = (\<lambda>key. case dom_append ctx (se_val top) key v of
                     (ret, val) \<Rightarrow> Inr (ret, ctx\<lparr>dom_stack := butlast (dom_stack ctx) @ [top\<lparr>se_val := val\<rparr>]\<rparr>))
        in case se_key top of KeyFreed \<Rightarrow> Inl UseAfterFree | KeyNull \<Rightarrow> put None | Key k \<Rightarrow> put (Some k))"

definition set_key :: "dom_key \<Rightarrow> 'v json_parser_dom \<Rightarrow> 'v json_parser_dom" where
  "set_key k ctx = ctx\<lparr>dom_stack := butlast (dom_stack ctx) @ [(last (dom_stack ctx))\<lparr>se_key := k\<rparr>]\<rparr>"

text \<open>\<open>free (stack->key)\<close>, which does nothing for a null pointer.\<close>

definition free_key :: "'v json_parser_dom \<Rightarrow> 'v json_parser_dom result" where
  "free_key ctx =
     (case se_key (last (dom_stack ctx)) of
        KeyNull \<Rightarrow> Inr ctx | Key _ \<Rightarrow> Inr (set_key KeyFreed ctx) | KeyFreed \<Rightarrow> Inl UseAfterFree)"

definition json_parser_dom_init ::
    "(nat \<Rightarrow> bool) \<Rightarrow> (nat \<Rightarrow> bool \<Rightarrow> 'v option) \<Rightarrow> (json_type \<Rightarrow> string \<Rightarrow> 'v option) \<Rightarrow> ('v \<Rightarrow> string option \<Rightarrow> 'v \<Rightarrow> int \<times> 'v)
     \<Rightarrow> int \<times> 'v json_parser_dom" where
  "json_parser_dom_init mem create_structure create_data app =
     (if mem (1024 * stack_elem_size) then 0 else JSON_ERROR_NO_MEMORY,
      \<lparr>dom_stack = [], dom_stack_size = 1024, dom_block = (if mem (1024 * stack_elem_size) then 1024 * stack_elem_size else 0),
       dom_mem = mem, dom_root_structure = None, dom_create_structure = create_structure, dom_create_data = create_data,
       dom_append = app\<rparr>)"

text \<open>The callback for a parser whose user data is the tree under construction.\<close>

definition json_parser_dom_callback :: "'v json_parser_dom json_callback" where
  "json_parser_dom_callback ctx type data =
     (if type \<in> {JSON_ARRAY_BEGIN, JSON_OBJECT_BEGIN} then
        (case dom_create_structure ctx (length (dom_stack ctx)) (type = JSON_OBJECT_BEGIN) of
           None \<Rightarrow> Inr (JSON_ERROR_CALLBACK, ctx)
         | Some v \<Rightarrow> rbind (dom_push v ctx) (\<lambda>(_, ctx). Inr (0, ctx)))
      else if type \<in> {JSON_OBJECT_END, JSON_ARRAY_END} then
        rbind (dom_pop ctx) (\<lambda>(v, ctx).
          if dom_stack ctx \<noteq> [] then
            rbind (dom_append_top v ctx) (\<lambda>(_, ctx). rbind (free_key ctx) (\<lambda>ctx. Inr (0, ctx)))
          else Inr (0, ctx\<lparr>dom_root_structure := Some v\<rparr>))
      else if type = JSON_KEY then
        (if dom_stack ctx = [] then Inl OutOfBounds
         else if \<not> dom_mem ctx (length data + 1) then Inr (JSON_ERROR_NO_MEMORY, set_key KeyNull ctx)
         else Inr (0, set_key (Key data) ctx))
      else if type \<in> {JSON_STRING, JSON_INT, JSON_FLOAT, JSON_NULL, JSON_TRUE, JSON_FALSE} then
        (case dom_create_data ctx type data of
           None \<Rightarrow> Inr (JSON_ERROR_CALLBACK, ctx)
         | Some v \<Rightarrow>
             rbind (dom_append_top v ctx) (\<lambda>(ret, ctx).
               if ret \<noteq> 0 then Inr (JSON_ERROR_CALLBACK, ctx)
               else rbind (free_key ctx) (\<lambda>ctx. Inr (0, ctx))))
      else Inr (0, ctx))"

end
