(* ===== verification/Json_Document.thy ===== *)
theory Json_Document
  imports Json_Library
begin

text \<open>
  The document tree and the parser object of \<open>src/src/json/parser.cpp\<close>, on top of the bundled library.

  The constructor of the parser ignores the error codes of the library: when an allocation fails, the pointers stay
  null and the next operation dereferences them, which the model reports at once.
\<close>

section \<open>Class JsonVal\<close>

text \<open>The member \<open>_type\<close> selects which of the members \<open>_object\<close>, \<open>_array\<close> and \<open>_data\<close> is in use. An object is a
  \<open>std::map\<close>: its entries are sorted by key, and inserting a key that is there has no effect.\<close>

datatype JsonVal =
    JObject "(string \<times> JsonVal) list"
  | JArray "JsonVal list"
  | JFalse
  | JTrue
  | JNull
  | JInt string
  | JString string
  | JFloat string

fun string_less :: "string \<Rightarrow> string \<Rightarrow> bool" where
  "string_less xs [] \<longleftrightarrow> False"
| "string_less [] (y # ys) \<longleftrightarrow> True"
| "string_less (x # xs) (y # ys) \<longleftrightarrow> (of_char x :: nat) < of_char y \<or> x = y \<and> string_less xs ys"

fun map_insert :: "string \<Rightarrow> 'a \<Rightarrow> (string \<times> 'a) list \<Rightarrow> (string \<times> 'a) list" where
  "map_insert k v [] = [(k, v)]"
| "map_insert k v ((k', v') # m) =
     (if k = k' then (k', v') # m else if string_less k k' then (k, v) # (k', v') # m else (k', v') # map_insert k v m)"

definition tree_create_structure :: "nat \<Rightarrow> bool \<Rightarrow> JsonVal option" where
  "tree_create_structure nesting is_object = Some (if is_object then JObject [] else JArray [])"

text \<open>The callback that adds a value to an array, or under a key to an object. A value that is neither keeps its
  kind: nothing reads what the code adds to its unused members.\<close>

definition tree_append :: "JsonVal \<Rightarrow> string option \<Rightarrow> JsonVal \<Rightarrow> int \<times> JsonVal" where
  "tree_append structure key obj =
     (0, case (key, structure) of
           (Some k, JObject m) \<Rightarrow> JObject (map_insert k obj m)
         | (None, JArray vs) \<Rightarrow> JArray (vs @ [obj])
         | _ \<Rightarrow> structure)"

text \<open>The parser calls this only for the types below; other values of the type are never inspected.\<close>

definition tree_create_data :: "json_type \<Rightarrow> string \<Rightarrow> JsonVal option" where
  "tree_create_data type data =
     Some (case type of JSON_FALSE \<Rightarrow> JFalse | JSON_TRUE \<Rightarrow> JTrue | JSON_NULL \<Rightarrow> JNull
           | JSON_INT \<Rightarrow> JInt data | JSON_FLOAT \<Rightarrow> JFloat data | _ \<Rightarrow> JString data)"

fun getObject :: "string \<Rightarrow> JsonVal \<Rightarrow> JsonVal option"
  and getObject_entries :: "string \<Rightarrow> (string \<times> JsonVal) list \<Rightarrow> JsonVal option"
  and getObject_array :: "string \<Rightarrow> JsonVal list \<Rightarrow> JsonVal option" where
  "getObject key (JObject m) = getObject_entries key m"
| "getObject key (JArray vs) = getObject_array key vs"
| "getObject key _ = None"
| "getObject_entries key [] = None"
| "getObject_entries key ((k, v) # m) = (if k = key then Some v else getObject_entries key m)"
| "getObject_array key [] = None"
| "getObject_array key (v # vs) = (case getObject key v of Some r \<Rightarrow> Some r | None \<Rightarrow> getObject_array key vs)"

definition print_prefix :: "nat \<Rightarrow> string" where
  "print_prefix indent = concat (replicate indent ''  '')"

function json_print :: "nat \<Rightarrow> JsonVal \<Rightarrow> string" where
  "json_print indent (JObject m) =
     print_prefix indent @ ''Object Begin ('' @ show_nat (length m) @ '')'' @ endl @
     concat (map (\<lambda>kv. print_prefix indent @ ''  '' @ ''Key ('' @ fst kv @ '')'' @ endl @ json_print (indent + 1) (snd kv)) m) @
     print_prefix indent @ ''Object End'' @ endl"
| "json_print indent (JArray vs) =
     print_prefix indent @ ''Array Begin ('' @ show_nat (length vs) @ '')'' @ endl @
     concat (map (\<lambda>v. json_print (indent + 1) v) vs) @ print_prefix indent @ ''Array End'' @ endl"
| "json_print indent JFalse = print_prefix indent @ ''constant: false'' @ endl"
| "json_print indent JTrue = print_prefix indent @ ''constant: true'' @ endl"
| "json_print indent JNull = print_prefix indent @ ''constant: null'' @ endl"
| "json_print indent (JInt d) = print_prefix indent @ ''integer: '' @ d @ endl"
| "json_print indent (JString d) = print_prefix indent @ ''string: '' @ d @ endl"
| "json_print indent (JFloat d) = print_prefix indent @ ''float: '' @ d @ endl"
  by pat_completeness auto
termination
proof (relation "measure (\<lambda>(indent, v). size v)")
  fix m :: "(string \<times> JsonVal) list" and kv indent
  assume "kv \<in> set m"
  then show "((indent + 1, snd kv), indent, JObject m) \<in> measure (\<lambda>(indent, v). size v)"
    by (induction m) auto
next
  fix vs :: "JsonVal list" and v indent
  assume "v \<in> set vs"
  then show "((indent + 1, v), indent, JArray vs) \<in> measure (\<lambda>(indent, v). size v)"
    by (induction vs) auto
qed simp

section \<open>Class JsonParser\<close>

type_synonym JsonParser = "JsonVal json_parser_dom json_parser"

definition parser_config :: "(nat \<Rightarrow> bool) \<Rightarrow> json_config" where
  "parser_config mem =
     \<lparr>jc_buffer_initial_size = 0, jc_max_nesting = 0, jc_max_data = 0, jc_allow_c_comments = True,
      jc_allow_yaml_comments = False, jc_mem = mem\<rparr>"

definition JsonParser_new :: "(nat \<Rightarrow> bool) \<Rightarrow> JsonParser result" where
  "JsonParser_new mem =
     (case json_parser_dom_init mem tree_create_structure tree_create_data tree_append of
        (ret1, d) \<Rightarrow>
          (case json_parser_init (parser_config mem) (Some json_parser_dom_callback) d of
             (ret2, p) \<Rightarrow> if ret1 \<noteq> 0 \<or> ret2 \<noteq> 0 then Inl NullDeref else Inr p))"

text \<open>The message is written with \<open>snprintf\<close> into 256 bytes.\<close>

definition JsonParser_parse :: "nat \<Rightarrow> string \<Rightarrow> JsonParser \<Rightarrow> JsonParser result" where
  "JsonParser_parse line s p =
     rbind (json_parser_string s p) (\<lambda>(ret, col, p).
       if ret = 0 \<or> ret = 3 then Inr p
       else if ret = 7 then throw_error EINVAL ''yaml-style comment in json not allowed''
       else throw_error EINVAL (take 255 (''Error line ('' @ show_nat line @ '') caracter ('' @ show_nat col @
              '') line ('' @ takeWhile (\<lambda>c. c \<noteq> CHR 0x00) s @ '')'')))"

definition getDom :: "JsonParser \<Rightarrow> JsonVal option" where
  "getDom p = dom_root_structure (jp_userdata p)"

end
