(* ===== verification/Graph_Parser.thy ===== *)
theory Graph_Parser
  imports Dependency_Scan Graph_Cycle Json_Document
begin

text \<open>
  From the JSON file to the graph: \<open>src/src/graphparser.cpp\<close>.

  An exception of the library or of \<open>checkNode\<close> is rethrown with \<open>THROW_FORWARD_ERROR\<close>, which without \<open>DEBUG\<close>
  builds an equal exception. The graph that the parser builds is shown to be well formed, with the ready counters that the scan on startup
  expects.
\<close>

section \<open>Class GraphParser\<close>

text \<open>The file is read in pieces of 4095 bytes; the piece that is shorter is the last one.\<close>

function file_chunks :: "string \<Rightarrow> string list" where
  "file_chunks s = (if length s < 4095 then [s] else take 4095 s # file_chunks (drop 4095 s))"
  by pat_completeness auto
termination by (relation "measure length") auto

declare file_chunks.simps [simp del]

definition json_array :: "JsonVal \<Rightarrow> JsonVal list" where
  "json_array v = (case v of JArray vs \<Rightarrow> vs | _ \<Rightarrow> [])"

text \<open>One iteration of \<open>checkNode\<close>: the node of a path, which is created if it is new.\<close>

definition node_of :: "allocator \<Rightarrow> JsonVal \<Rightarrow> nid set \<times> graph \<Rightarrow> (nid set \<times> graph) result" where
  "node_of al v = (\<lambda>(nodeSet, g).
     case v of
       JString path \<Rightarrow>
         (case Graph_find g path of
            Some n \<Rightarrow> Inr (insert n nodeSet, g)
          | None \<Rightarrow>
              (case Node_new al path True g of
                 (n, g) \<Rightarrow>
                   Inr (insert n nodeSet,
                        g\<lparr>g_nodes := AList.update path n (g_nodes g), g_roots := insert n (g_roots g),
                          g_sources := insert n (g_sources g)\<rparr>)))
     | _ \<Rightarrow> throw_error EINVAL ''invalid JSON entry: expect a STRING'')"

definition checkNode :: "allocator \<Rightarrow> JsonVal option \<Rightarrow> graph \<Rightarrow> (nid list \<times> graph) result" where
  "checkNode al json g =
     (case json of
        None \<Rightarrow> Inl NullDeref
      | Some v \<Rightarrow> rbind (foldM (node_of al) (json_array v) ({}, g)) (\<lambda>(nodeSet, g). Inr (sorted_list_of_set nodeSet, g)))"

text \<open>A member of a rule that has to be a string, if it is there.\<close>

definition string_field :: "string \<Rightarrow> JsonVal option \<Rightarrow> (string \<Rightarrow> graph \<Rightarrow> graph) \<Rightarrow> graph \<Rightarrow> graph result" where
  "string_field what field set_it g =
     (case field of None \<Rightarrow> Inr g | Some (JString s) \<Rightarrow> Inr (set_it s g)
      | Some _ \<Rightarrow> throw_error EINVAL (''Expecting STRING value for '' @ what @ '' field''))"

definition link_input :: "rid \<Rightarrow> nid \<Rightarrow> graph \<Rightarrow> graph result" where
  "link_input r n g =
     rbind (Rule_markInputReady r (Node_addParentRule n r g)) (\<lambda>g. Inr (g\<lparr>g_roots := g_roots g - {n}\<rparr>))"

definition link_output :: "rid \<Rightarrow> nid \<Rightarrow> graph \<Rightarrow> graph result" where
  "link_output r n g = rbind (Node_setChild n r g) (\<lambda>g. Inr (g\<lparr>g_sources := g_sources g - {n}\<rparr>))"

definition process_rule :: "allocator \<Rightarrow> JsonVal \<Rightarrow> graph \<Rightarrow> graph result" where
  "process_rule al jsonRule g =
     (case jsonRule of
        JObject _ \<Rightarrow>
          (let ruleInputs = getObject ''inputs'' jsonRule; ruleOutputs = getObject ''outputs'' jsonRule;
               ruleCmd = getObject ''cmd'' jsonRule; ruleDepfile = getObject ''depfile'' jsonRule
           in if ruleInputs = None \<and> ruleOutputs = None then Inr g
              else
                rbind (checkNode al ruleInputs g) (\<lambda>(inputs, g).
                rbind (checkNode al ruleOutputs g) (\<lambda>(outputs, g).
                case Rule_new al inputs outputs g of
                  (r, g) \<Rightarrow>
                    rbind (string_field ''cmd'' ruleCmd (Rule_setCommand r) g) (\<lambda>g.
                    rbind (string_field ''depfile'' ruleDepfile (Rule_setDepfile r) g) (\<lambda>g.
                    let g = g\<lparr>g_rules := g_rules g @ [r]\<rparr> in
                    rbind (foldM (link_input r) inputs g) (foldM (link_output r) outputs))))))
      | _ \<Rightarrow> Inr g)"

definition generateMandatoryNodes :: "allocator \<Rightarrow> string \<Rightarrow> graph \<Rightarrow> graph" where
  "generateMandatoryNodes al graphFilePath g =
     (case Node_new al graphFilePath True g of
        (n, g) \<Rightarrow> g\<lparr>g_nodes := AList.update graphFilePath n (g_nodes g), g_roots := insert n (g_roots g),
                     g_sources := insert n (g_sources g)\<rparr>)"

definition processJson :: "allocator \<Rightarrow> string \<Rightarrow> JsonVal \<Rightarrow> graph \<Rightarrow> graph result" where
  "processJson al graphFilePath rules g =
     rbind (foldM (process_rule al) (json_array rules) g) (\<lambda>g. Inr (generateMandatoryNodes al graphFilePath g))"

definition parse_chunks :: "string list \<Rightarrow> nat \<times> JsonParser \<Rightarrow> (nat \<times> JsonParser) result" where
  "parse_chunks = foldM (\<lambda>chunk (lineCounter, p).
     rbind (JsonParser_parse lineCounter chunk p) (\<lambda>p. Inr (lineCounter + 1, p)))"

definition processFile :: "(nat \<Rightarrow> bool) \<Rightarrow> allocator \<Rightarrow> world \<Rightarrow> string \<Rightarrow> graph \<Rightarrow> graph result" where
  "processFile mem al w graphFilePath g =
     rbind (rbind (JsonParser_new mem) (\<lambda>p. parse_chunks (file_chunks (ifstream_read w graphFilePath)) (0, p)))
       (\<lambda>(_, p). case getDom p of
          None \<Rightarrow> throw_error EINVAL ''No dom for this json file''
        | Some tree \<Rightarrow>
            (case getObject ''rules'' tree of
               Some (JArray vs) \<Rightarrow> processJson al graphFilePath (JArray vs) g
             | _ \<Rightarrow> throw_error EINVAL ''No rules in the given JSon File''))"

section \<open>The graph that is built\<close>

text \<open>Two allocations never return the same address.\<close>

definition fresh_allocator :: "allocator \<Rightarrow> bool" where
  "fresh_allocator al \<longleftrightarrow> inj (a_node al) \<and> inj (a_rule al)"

text \<open>The invariant of the parser; \<open>fp\<close> is the path of the graph file, which gets its node at the end.\<close>

definition parsed :: "allocator \<Rightarrow> string \<Rightarrow> graph \<Rightarrow> bool" where
  "parsed al fp g \<longleftrightarrow> wf_graph g \<and> fp \<notin> fst ` set (g_nodes g) \<and>
     live g \<subseteq> a_node al ` {..<g_newNodes g} \<and> set (g_rules g) \<subseteq> a_rule al ` {..<g_newRules g} \<and>
     (\<forall>n. \<not> Node_isDirty g n \<and> n_hash (g_node g n) = [] \<and> n_hashDepfile (g_node g n) = []) \<and>
     (\<forall>r \<in> set (g_rules g). \<not> Rule_isDirty g r \<and> r_numReady (g_rule g r) = length (r_inputs (g_rule g r))) \<and>
     (\<forall>r. r \<notin> set (g_rules g) \<longrightarrow> r_depfile (g_rule g r) = [])"

lemma parsed_empty: "parsed al fp Graph_empty"
  by (simp add: parsed_def wf_graph_def live_def Graph_empty_def Node_isDirty_def Node_init_def Rule_init_def)

lemma fresh_address:
  "fresh_allocator al \<Longrightarrow> a_node al k \<notin> a_node al ` {..<k}" "fresh_allocator al \<Longrightarrow> a_rule al k \<notin> a_rule al ` {..<k}"
  unfolding fresh_allocator_def by (auto dest: injD)

text \<open>A new node.\<close>

abbreviation add_source :: "allocator \<Rightarrow> string \<Rightarrow> graph \<Rightarrow> graph" where
  "add_source \<equiv> generateMandatoryNodes"

lemma update_new: "k \<notin> fst ` set m \<Longrightarrow> AList.update k v m = m @ [(k, v)]"
  by (induction m) auto

lemma add_source_sel:
  assumes "path \<notin> fst ` set (g_nodes g)"
  shows "g_nodes (add_source al path g) = g_nodes g @ [(path, a_node al (g_newNodes g))]"
    "live (add_source al path g) = insert (a_node al (g_newNodes g)) (live g)"
    "g_rules (add_source al path g) = g_rules g" "g_rule (add_source al path g) = g_rule g"
    "g_node (add_source al path g) = (g_node g)(a_node al (g_newNodes g) := Node_init path True (a_junk al (g_newNodes g)))"
    "g_roots (add_source al path g) = insert (a_node al (g_newNodes g)) (g_roots g)"
    "g_sources (add_source al path g) = insert (a_node al (g_newNodes g)) (g_sources g)"
    "g_newNodes (add_source al path g) = Suc (g_newNodes g)" "g_newRules (add_source al path g) = g_newRules g"
  using update_new [OF assms] by (auto simp: generateMandatoryNodes_def Node_new_def Let_def live_def)

lemma add_source_wf:
  assumes g: "wf_graph g" and new: "path \<notin> fst ` set (g_nodes g)" "a_node al (g_newNodes g) \<notin> live g"
  shows "wf_graph (add_source al path g)"
proof -
  let ?n = "a_node al (g_newNodes g)" and ?g = "add_source al path g"
  note sel = add_source_sel [OF new(1), of al]
  have other: "g_node ?g m = g_node g m" if "m \<in> live g" for m using that new(2) sel(5) by auto
  have self: "n_parents (g_node ?g ?n) = []" "n_child (g_node ?g ?n) = None" "n_path (g_node ?g ?n) = path"
    by (simp_all add: sel Node_init_def)
  have "wf_node ?g m" if "m \<in> live ?g" for m
  proof (cases "m = ?n")
    case True
    then show ?thesis using self by (simp add: wf_node_def)
  next
    case False
    then have "m \<in> live g" using that sel(2) by simp
    then have "wf_node g m" using g by (simp add: wf_graph_def)
    then show ?thesis using other [OF \<open>m \<in> live g\<close>] by (simp add: wf_node_def sel cong: option.case_cong)
  qed
  moreover have "wf_rule ?g r" if "r \<in> set (g_rules ?g)" for r
  proof -
    have "wf_rule g r" using that g by (simp add: sel wf_graph_def)
    then show ?thesis using other by (auto simp: wf_rule_def sel)
  qed
  moreover have "\<forall>(p, m) \<in> set (g_nodes ?g). n_path (g_node ?g m) = p"
  proof -
    have "n_path (g_node ?g m) = p" if "(p, m) \<in> set (g_nodes g)" for p m
    proof -
      have "m \<in> live g" using that by (force simp: live_def)
      then show ?thesis using other [of m] g that by (auto simp: wf_graph_def)
    qed
    then show ?thesis using self(3) unfolding sel(1) by auto
  qed
  moreover have "distinct (map fst (g_nodes ?g))" "distinct (g_rules ?g)" using g new(1) by (simp_all add: sel wf_graph_def)
  moreover have "g_roots ?g = {m \<in> live ?g. n_parents (g_node ?g m) = []}" "g_sources ?g = {m \<in> live ?g. n_child (g_node ?g m) = None}"
    using g other self by (auto simp: sel(2,6,7) wf_graph_def)
  ultimately show ?thesis unfolding wf_graph_def by blast
qed

lemma add_source_parsed:
  assumes p: "parsed al fp g" and al: "fresh_allocator al" and path: "path \<notin> fst ` set (g_nodes g)" "path \<noteq> fp"
  shows "parsed al fp (add_source al path g)"
proof -
  note sel = add_source_sel [OF path(1), of al]
  have new: "a_node al (g_newNodes g) \<notin> live g" using p fresh_address(1) [OF al, of "g_newNodes g"] unfolding parsed_def by blast
  have "wf_graph (add_source al path g)" using add_source_wf [OF _ path(1) new] p by (simp add: parsed_def)
  then show ?thesis using p path(2)
    by (auto simp: parsed_def sel Node_isDirty_def Rule_isDirty_def Node_init_def lessThan_Suc)
qed

text \<open>What a step of the parser keeps when it only adds nodes.\<close>

definition extends :: "graph \<Rightarrow> graph \<Rightarrow> bool" where
  "extends g g' \<longleftrightarrow> g_rules g' = g_rules g \<and> g_rule g' = g_rule g \<and> g_newRules g' = g_newRules g \<and>
     live g \<subseteq> live g' \<and> (\<forall>n \<in> live g. g_node g' n = g_node g n)"

lemma extends_refl [simp]: "extends g g"
  by (simp add: extends_def)

lemma extends_trans: "extends g1 g2 \<Longrightarrow> extends g2 g3 \<Longrightarrow> extends g1 g3"
  unfolding extends_def by auto

text \<open>The strings of an array of the document.\<close>

definition is_string :: "JsonVal \<Rightarrow> bool" where
  "is_string v = (case v of JString _ \<Rightarrow> True | _ \<Rightarrow> False)"

definition string_of :: "JsonVal \<Rightarrow> string" where
  "string_of v = (case v of JString s \<Rightarrow> s | _ \<Rightarrow> [])"

definition json_paths :: "JsonVal option \<Rightarrow> string list" where
  "json_paths json = (case json of None \<Rightarrow> [] | Some v \<Rightarrow> map string_of (json_array v))"

definition paths :: "graph \<Rightarrow> string set" where
  "paths g = fst ` set (g_nodes g)"

lemma live_path: "wf_graph g \<Longrightarrow> n \<in> live g \<Longrightarrow> (n_path (g_node g n), n) \<in> set (g_nodes g)"
  by (auto simp: wf_graph_def live_def)

lemma live_path_inj: "wf_graph g \<Longrightarrow> inj_on (\<lambda>n. n_path (g_node g n)) (live g)"
proof (rule inj_onI)
  fix n m assume wf: "wf_graph g" and nm: "n \<in> live g" "m \<in> live g" "n_path (g_node g n) = n_path (g_node g m)"
  have "distinct (map fst (g_nodes g))" using wf by (simp add: wf_graph_def)
  then show "n = m" using live_path [OF wf nm(1)] live_path [OF wf nm(2)] nm(3) by (metis eq_key_imp_eq_value)
qed

lemma paths_live: "wf_graph g \<Longrightarrow> paths g = (\<lambda>n. n_path (g_node g n)) ` live g"
proof -
  assume "wf_graph g"
  then have "\<forall>(p, n) \<in> set (g_nodes g). n_path (g_node g n) = p" by (simp add: wf_graph_def)
  then show ?thesis unfolding paths_def live_def image_image by (intro image_cong) auto
qed

lemma node_of_total:
  assumes p: "parsed al fp g" and al: "fresh_allocator al" and v: "is_string v" "string_of v \<noteq> fp"
  shows "\<exists>n g'. node_of al v (ns, g) = Inr (insert n ns, g') \<and> parsed al fp g' \<and> extends g g' \<and> n \<in> live g' \<and>
    n_path (g_node g' n) = string_of v \<and> paths g' = insert (string_of v) (paths g)"
proof -
  obtain path where path: "v = JString path" using v(1) by (auto simp: is_string_def split: JsonVal.splits)
  then have fp: "path \<noteq> fp" using v(2) by (simp add: string_of_def)
  have wf: "wf_graph g" using p by (simp add: parsed_def)
  show ?thesis
  proof (cases "Graph_find g path")
    case (Some n)
    then have n: "(path, n) \<in> set (g_nodes g)" by (simp add: Graph_find_def map_of_SomeD)
    then have "n \<in> live g" "path \<in> paths g" by (force simp: live_def paths_def)+
    moreover have "\<forall>(p, n) \<in> set (g_nodes g). n_path (g_node g n) = p" using wf by (simp add: wf_graph_def)
    then have "n_path (g_node g n) = path" using n by auto
    ultimately show ?thesis using p Some path by (intro exI [of _ n] exI [of _ g]) (auto simp: node_of_def string_of_def)
  next
    case None
    then have new: "path \<notin> fst ` set (g_nodes g)" by (simp add: Graph_find_def map_of_eq_None_iff)
    let ?g = "add_source al path g" and ?n = "a_node al (g_newNodes g)"
    note sel = add_source_sel [OF new, of al]
    have "?n \<notin> live g" using p fresh_address(1) [OF al, of "g_newNodes g"] unfolding parsed_def by blast
    then have "extends g ?g" using sel by (auto simp: extends_def)
    moreover have "node_of al v (ns, g) = Inr (insert ?n ns, ?g)"
      using path None by (simp add: node_of_def generateMandatoryNodes_def Node_new_def Let_def)
    moreover have "parsed al fp ?g" by (rule add_source_parsed [OF p al new fp])
    moreover have "n_path (g_node ?g ?n) = path" "?n \<in> live ?g" by (simp_all add: sel Node_init_def)
    moreover have "paths ?g = insert path (paths g)" by (simp add: paths_def sel)
    ultimately show ?thesis using path by (auto simp: string_of_def)
  qed
qed

lemma checkNode_total:
  assumes p: "parsed al fp g" and al: "fresh_allocator al" and strings: "\<forall>v \<in> set (json_array json). is_string v"
    and fp: "fp \<notin> set (json_paths (Some json))"
  shows "\<exists>ns g'. checkNode al (Some json) g = Inr (ns, g') \<and> parsed al fp g' \<and> extends g g' \<and> distinct ns \<and> set ns \<subseteq> live g' \<and>
    (\<lambda>n. n_path (g_node g' n)) ` set ns = set (json_paths (Some json)) \<and> paths g' = paths g \<union> set (json_paths (Some json))"
proof -
  let ?P = "\<lambda>vs (ns, g'). parsed al fp g' \<and> extends g g' \<and> ns \<subseteq> live g' \<and>
    (\<lambda>n. n_path (g_node g' n)) ` ns = string_of ` set vs \<and> paths g' = paths g \<union> string_of ` set vs"
  have "\<exists>s. foldM (node_of al) (json_array json) ({}, g) = Inr s \<and> ?P (json_array json) s"
  proof (rule foldM_total)
    fix vs v rest s assume split: "json_array json = vs @ v # rest" and s: "?P vs s"
    obtain ns g1 where s1: "s = (ns, g1)" by (cases s)
    have v: "is_string v" "string_of v \<noteq> fp" using strings fp split by (auto simp: json_paths_def)
    have p1: "parsed al fp g1" using s s1 by simp
    obtain n g' where g': "node_of al v (ns, g1) = Inr (insert n ns, g')" "parsed al fp g'" "extends g1 g'" "n \<in> live g'"
      "n_path (g_node g' n) = string_of v" "paths g' = insert (string_of v) (paths g1)"
      using node_of_total [OF p1 al v, of ns] by blast
    have old: "ns \<subseteq> live g1" "extends g g1" using s s1 by auto
    then have same: "(\<lambda>n. n_path (g_node g' n)) ` ns = (\<lambda>n. n_path (g_node g1 n)) ` ns"
      using g'(3) by (intro image_cong) (auto simp: extends_def)
    have prev: "(\<lambda>n. n_path (g_node g1 n)) ` ns = string_of ` set vs" "paths g1 = paths g \<union> string_of ` set vs" using s s1 by auto
    have "live g1 \<subseteq> live g'" using g'(3) by (simp add: extends_def)
    then have "insert n ns \<subseteq> live g'" using old(1) g'(4) by blast
    moreover have "(\<lambda>n. n_path (g_node g' n)) ` insert n ns = string_of ` set (vs @ [v])"
      unfolding image_insert same prev(1) g'(5) by simp
    moreover have "paths g' = paths g \<union> string_of ` set (vs @ [v])" unfolding g'(6) prev(2) by simp
    ultimately have "?P (vs @ [v]) (insert n ns, g')" using g'(2) extends_trans [OF old(2) g'(3)] by simp
    then show "\<exists>s'. node_of al v s = Inr s' \<and> ?P (vs @ [v]) s'" using g'(1) s1 by blast
  qed (use p in simp)
  then obtain ns g' where res: "foldM (node_of al) (json_array json) ({}, g) = Inr (ns, g')" "?P (json_array json) (ns, g')" by force
  then have "finite ns" using finite_subset [OF _ finite_live] by auto
  then show ?thesis using res by (auto simp: checkNode_def json_paths_def)
qed

section \<open>Linking a rule\<close>

lemma link_inputs_eq:
  assumes "distinct ns" and "r_numReady (g_rule g r) + length ns \<le> length (r_inputs (g_rule g r))"
  shows "foldM (link_input r) ns g =
    Inr (g\<lparr>g_node := (\<lambda>n. if n \<in> set ns then (g_node g n)\<lparr>n_parents := n_parents (g_node g n) @ [r]\<rparr> else g_node g n),
           g_rule := (g_rule g)(r := (g_rule g r)\<lparr>r_numReady := r_numReady (g_rule g r) + length ns\<rparr>),
           g_roots := g_roots g - set ns\<rparr>)"
  using assms
proof (induction ns arbitrary: g)
  case (Cons n ns)
  let ?g = "(upd_rule r (\<lambda>rl. rl\<lparr>r_numReady := Suc (r_numReady rl)\<rparr>) (Node_addParentRule n r g))\<lparr>g_roots := g_roots g - {n}\<rparr>"
  have "link_input r n g = Inr ?g"
    using Cons.prems(2) by (simp add: link_input_def Rule_markInputReady_def Node_addParentRule_def Let_def)
  then show ?case using Cons.IH [of ?g] Cons.prems
    by (auto simp: Node_addParentRule_def upd_rule_def upd_node_def fun_eq_iff intro!: graph.equality)
qed (simp add: fun_eq_iff)

lemma link_outputs_eq:
  assumes "distinct ns" and "\<forall>n \<in> set ns. n_child (g_node g n) = None"
  shows "foldM (link_output r) ns g =
    Inr (g\<lparr>g_node := (\<lambda>n. if n \<in> set ns then (g_node g n)\<lparr>n_child := Some r\<rparr> else g_node g n), g_sources := g_sources g - set ns\<rparr>)"
  using assms
proof (induction ns arbitrary: g)
  case (Cons n ns)
  let ?g = "(upd_node n (\<lambda>nd. nd\<lparr>n_child := Some r\<rparr>) g)\<lparr>g_sources := g_sources g - {n}\<rparr>"
  have "link_output r n g = Inr ?g" using Cons.prems(2) by (simp add: link_output_def Node_setChild_def)
  moreover have "\<forall>m \<in> set ns. n_child (g_node ?g m) = None" using Cons.prems by auto
  ultimately show ?case using Cons.IH [of ?g] Cons.prems(1)
    by (auto simp: upd_node_def fun_eq_iff intro!: graph.equality)
qed (simp add: fun_eq_iff)

text \<open>The graph with one more rule \<open>rl\<close> at the address \<open>r\<close>.\<close>

definition linked :: "rid \<Rightarrow> rule \<Rightarrow> graph \<Rightarrow> graph" where
  "linked r rl g =
     g\<lparr>g_node := (\<lambda>n. (g_node g n)
         \<lparr>n_parents := (if n \<in> set (r_inputs rl) then n_parents (g_node g n) @ [r] else n_parents (g_node g n)),
          n_child := (if n \<in> set (r_outputs rl) then Some r else n_child (g_node g n))\<rparr>),
       g_rule := (g_rule g)(r := rl), g_rules := g_rules g @ [r], g_newRules := Suc (g_newRules g),
       g_roots := g_roots g - set (r_inputs rl), g_sources := g_sources g - set (r_outputs rl)\<rparr>"

lemma linked_live [simp]: "live (linked r rl g) = live g"
  by (simp add: live_def linked_def)

lemma linked_wf:
  assumes wf: "wf_graph g" and r: "r \<notin> set (g_rules g)"
    and rl: "distinct (r_inputs rl)" "distinct (r_outputs rl)" "r_outputs rl \<noteq> []" "r_numImplicit rl = 0"
      "set (r_inputs rl) \<subseteq> live g" "set (r_outputs rl) \<subseteq> live g" "\<forall>n \<in> set (r_outputs rl). n_child (g_node g n) = None"
  shows "wf_graph (linked r rl g)"
proof -
  let ?g = "linked r rl g"
  have old: "q \<noteq> r" if "q \<in> set (g_rules g)" for q using that r by auto
  have "wf_node ?g n" if "n \<in> live g" for n
  proof -
    have n: "wf_node g n" using wf that by (simp add: wf_graph_def)
    then have "r \<notin> set (n_parents (g_node g n))" using r by (auto simp: wf_node_def)
    moreover have "n_child (g_node g n) = Some q \<Longrightarrow> q \<in> set (g_rules g) \<and> n \<in> set (r_outputs (g_rule g q))" for q
      using n by (simp add: wf_node_def)
    ultimately show ?thesis using n old unfolding wf_node_def by (auto simp: linked_def split: option.split)
  qed
  moreover have "wf_rule ?g q" if "q \<in> set (g_rules ?g)" for q
  proof (cases "q = r")
    case True
    then show ?thesis using rl by (auto simp: wf_rule_def linked_def live_def)
  next
    case False
    then have "q \<in> set (g_rules g)" using that by (simp add: linked_def)
    then have q: "wf_rule g q" using wf by (simp add: wf_graph_def)
    then have "n \<notin> set (r_outputs rl)" if "n \<in> set (r_outputs (g_rule g q))" for n using rl(7) that by (auto simp: wf_rule_def)
    then show ?thesis using q False unfolding wf_rule_def linked_live by (auto simp: linked_def)
  qed
  moreover have "distinct (map fst (g_nodes ?g))" "\<forall>(p, n) \<in> set (g_nodes ?g). n_path (g_node ?g n) = p" "distinct (g_rules ?g)"
    using wf r by (auto simp: wf_graph_def linked_def)
  moreover have "g_roots ?g = {n \<in> live ?g. n_parents (g_node ?g n) = []}" "g_sources ?g = {n \<in> live ?g. n_child (g_node ?g n) = None}"
    using wf rl(5,6) unfolding linked_live by (auto simp: wf_graph_def linked_def)
  ultimately show ?thesis unfolding wf_graph_def linked_live by blast
qed

section \<open>The rules of the document\<close>

text \<open>The reference: which entries of the document are rules, when such an entry is valid, and what it stands for (the
  paths of inputs and outputs, the command and the depfile).\<close>

definition is_rule :: "JsonVal \<Rightarrow> bool" where
  "is_rule j = (case j of JObject _ \<Rightarrow> getObject ''inputs'' j \<noteq> None \<or> getObject ''outputs'' j \<noteq> None | _ \<Rightarrow> False)"

definition string_field_ok :: "JsonVal option \<Rightarrow> bool" where
  "string_field_ok f = (case f of None \<Rightarrow> True | Some v \<Rightarrow> is_string v)"

definition all_strings :: "JsonVal option \<Rightarrow> bool" where
  "all_strings json = (case json of None \<Rightarrow> False | Some v \<Rightarrow> list_all is_string (json_array v))"

definition valid_rule :: "string \<Rightarrow> JsonVal \<Rightarrow> bool" where
  "valid_rule fp j \<longleftrightarrow> all_strings (getObject ''inputs'' j) \<and> all_strings (getObject ''outputs'' j) \<and>
     json_paths (getObject ''outputs'' j) \<noteq> [] \<and>
     fp \<notin> set (json_paths (getObject ''inputs'' j)) \<and> fp \<notin> set (json_paths (getObject ''outputs'' j)) \<and>
     string_field_ok (getObject ''cmd'' j) \<and> string_field_ok (getObject ''depfile'' j)"

type_synonym rule_view = "string set \<times> string set \<times> string \<times> string"

definition field_value :: "JsonVal option \<Rightarrow> string" where
  "field_value f = (case f of None \<Rightarrow> [] | Some v \<Rightarrow> string_of v)"

definition rule_spec :: "JsonVal \<Rightarrow> rule_view" where
  "rule_spec j = (set (json_paths (getObject ''inputs'' j)), set (json_paths (getObject ''outputs'' j)),
     field_value (getObject ''cmd'' j), field_value (getObject ''depfile'' j))"

definition rule_view :: "graph \<Rightarrow> rid \<Rightarrow> rule_view" where
  "rule_view g r = ((\<lambda>n. n_path (g_node g n)) ` set (r_inputs (g_rule g r)), (\<lambda>n. n_path (g_node g n)) ` set (r_outputs (g_rule g r)),
     r_command (g_rule g r), r_depfile (g_rule g r))"

definition view_paths :: "rule_view \<Rightarrow> string set" where
  "view_paths v = fst v \<union> fst (snd v)"

lemma string_field_ok_eq:
  "string_field_ok f \<Longrightarrow> string_field what f (Rule_setCommand r) g =
     Inr (upd_rule r (\<lambda>rl. case f of None \<Rightarrow> rl | Some _ \<Rightarrow> rl\<lparr>r_command := field_value f\<rparr>) g)"
  "string_field_ok f \<Longrightarrow> string_field what f (Rule_setDepfile r) g =
     Inr (upd_rule r (\<lambda>rl. case f of None \<Rightarrow> rl | Some _ \<Rightarrow> rl\<lparr>r_depfile := field_value f\<rparr>) g)"
  by (auto simp: string_field_def string_field_ok_def field_value_def is_string_def string_of_def Rule_setCommand_def Rule_setDepfile_def
        upd_rule_def split: option.splits JsonVal.splits)

lemma link_rule_eq:
  assumes "string_field_ok cmd" "string_field_ok dep" "distinct I" "distinct out" "\<forall>n \<in> set out. n_child (g_node g n) = None"
    and r: "Rule_new al I out g = (r, g1)"
  shows "rbind (string_field ''cmd'' cmd (Rule_setCommand r) g1) (\<lambda>g.
          rbind (string_field ''depfile'' dep (Rule_setDepfile r) g) (\<lambda>g.
          let g = g\<lparr>g_rules := g_rules g @ [r]\<rparr> in
          rbind (foldM (link_input r) I g) (foldM (link_output r) out))) =
     Inr (linked r ((Rule_init I out)\<lparr>r_command := field_value cmd, r_depfile := field_value dep, r_numReady := length I\<rparr>) g)"
proof -
  let ?rl = "(Rule_init I out)\<lparr>r_command := field_value cmd, r_depfile := field_value dep\<rparr>"
  let ?g = "g\<lparr>g_rule := (g_rule g)(r := ?rl), g_newRules := Suc (g_newRules g), g_rules := g_rules g @ [r]\<rparr>"
  have g1: "g1 = g\<lparr>g_rule := (g_rule g)(r := Rule_init I out), g_newRules := Suc (g_newRules g)\<rparr>" using r by (auto simp: Rule_new_def Let_def)
  have "rbind (string_field ''cmd'' cmd (Rule_setCommand r) g1) (\<lambda>g.
          rbind (string_field ''depfile'' dep (Rule_setDepfile r) g) (\<lambda>g.
          let g = g\<lparr>g_rules := g_rules g @ [r]\<rparr> in
          rbind (foldM (link_input r) I g) (foldM (link_output r) out))) = rbind (foldM (link_input r) I ?g) (foldM (link_output r) out)"
    using g1 by (auto simp: string_field_ok_eq assms(1,2) Let_def upd_rule_def field_value_def Rule_init_def split: option.splits
        intro!: arg_cong [of _ _ "\<lambda>g. rbind (foldM (link_input r) I g) (foldM (link_output r) out)"])
  also have "\<dots> = Inr (linked r (?rl\<lparr>r_numReady := length I\<rparr>) g)"
  proof -
    let ?g1 = "?g\<lparr>g_node := (\<lambda>n. if n \<in> set I then (g_node ?g n)\<lparr>n_parents := n_parents (g_node ?g n) @ [r]\<rparr> else g_node ?g n),
           g_rule := (g_rule ?g)(r := (g_rule ?g r)\<lparr>r_numReady := r_numReady (g_rule ?g r) + length I\<rparr>),
           g_roots := g_roots ?g - set I\<rparr>"
    have 1: "foldM (link_input r) I ?g = Inr ?g1" by (rule link_inputs_eq [OF assms(3)]) (simp add: Rule_init_def)
    have "\<forall>n \<in> set out. n_child (g_node ?g1 n) = None" using assms(5) by simp
    from link_outputs_eq [OF assms(4) this, of r] show ?thesis unfolding 1
      by (auto simp: linked_def Rule_init_def fun_eq_iff intro!: graph.equality)
  qed
  finally show ?thesis by simp
qed

lemma rule_view_extends:
  assumes "extends g g'" and "wf_graph g" and "r \<in> set (g_rules g)"
  shows "rule_view g' r = rule_view g r"
proof -
  have "wf_rule g r" using assms(2,3) by (simp add: wf_graph_def)
  then have "set (r_inputs (g_rule g r)) \<subseteq> live g" "set (r_outputs (g_rule g r)) \<subseteq> live g" by (auto simp: wf_rule_def)
  then have "\<forall>n \<in> set (r_inputs (g_rule g r)) \<union> set (r_outputs (g_rule g r)). g_node g' n = g_node g n" using assms(1) by (auto simp: extends_def)
  then show ?thesis using assms(1) by (auto simp: rule_view_def extends_def intro!: image_cong)
qed

lemma linked_view: "r \<noteq> q \<Longrightarrow> rule_view (linked r rl g) q = rule_view g q"
  "rule_view (linked r rl g) r = ((\<lambda>n. n_path (g_node g n)) ` set (r_inputs rl), (\<lambda>n. n_path (g_node g n)) ` set (r_outputs rl), r_command rl, r_depfile rl)"
  by (auto simp: rule_view_def linked_def)

lemma linked_parsed:
  assumes p: "parsed al fp g" and r: "r = a_rule al (g_newRules g)" and wf: "wf_graph (linked r rl g)"
    and rl: "r_state rl = UP_TO_DATE" "r_numReady rl = length (r_inputs rl)" and al: "fresh_allocator al"
  shows "parsed al fp (linked r rl g)"
proof -
  have "r \<notin> set (g_rules g)" using p fresh_address(2) [OF al, of "g_newRules g"] unfolding parsed_def r by blast
  then show ?thesis using p wf rl unfolding parsed_def linked_live
    by (auto simp: linked_def Node_isDirty_def Rule_isDirty_def lessThan_Suc r)
qed

text \<open>What \<open>process_rule\<close> does once the nodes of the rule are there.\<close>

definition link_rule :: "JsonVal \<Rightarrow> nid list \<Rightarrow> nid list \<Rightarrow> rid \<times> graph \<Rightarrow> graph result" where
  "link_rule j I out = (\<lambda>(r, g).
     rbind (string_field ''cmd'' (getObject ''cmd'' j) (Rule_setCommand r) g) (\<lambda>g.
     rbind (string_field ''depfile'' (getObject ''depfile'' j) (Rule_setDepfile r) g) (\<lambda>g.
     let g = g\<lparr>g_rules := g_rules g @ [r]\<rparr> in
     rbind (foldM (link_input r) I g) (foldM (link_output r) out))))"

lemma process_rule_nodes:
  assumes p: "parsed al fp g" and al: "fresh_allocator al" and j: "is_rule j" "valid_rule fp j"
  shows "\<exists>I out g2. process_rule al j g = link_rule j I out (Rule_new al I out g2) \<and> parsed al fp g2 \<and> extends g g2 \<and>
    distinct I \<and> distinct out \<and> set I \<subseteq> live g2 \<and> set out \<subseteq> live g2 \<and> paths g2 = paths g \<union> view_paths (rule_spec j) \<and>
    (\<lambda>n. n_path (g_node g2 n)) ` set I = fst (rule_spec j) \<and> (\<lambda>n. n_path (g_node g2 n)) ` set out = fst (snd (rule_spec j))"
proof -
  obtain m where m: "j = JObject m" using j(1) by (auto simp: is_rule_def split: JsonVal.splits)
  obtain vi vo where v: "getObject ''inputs'' j = Some vi" "getObject ''outputs'' j = Some vo"
    "\<forall>v \<in> set (json_array vi). is_string v" "\<forall>v \<in> set (json_array vo). is_string v"
    using j(2) by (auto simp: valid_rule_def all_strings_def list_all_iff split: option.splits)
  have fp: "fp \<notin> set (json_paths (Some vi))" "fp \<notin> set (json_paths (Some vo))" using j(2) v by (simp_all add: valid_rule_def)
  obtain I g1 where g1: "checkNode al (Some vi) g = Inr (I, g1)" "parsed al fp g1" "extends g g1" "distinct I" "set I \<subseteq> live g1"
    "(\<lambda>n. n_path (g_node g1 n)) ` set I = set (json_paths (Some vi))" "paths g1 = paths g \<union> set (json_paths (Some vi))"
    using checkNode_total [OF p al v(3) fp(1)] by blast
  obtain out g2 where g2: "checkNode al (Some vo) g1 = Inr (out, g2)" "parsed al fp g2" "extends g1 g2" "distinct out" "set out \<subseteq> live g2"
    "(\<lambda>n. n_path (g_node g2 n)) ` set out = set (json_paths (Some vo))" "paths g2 = paths g1 \<union> set (json_paths (Some vo))"
    using checkNode_total [OF g1(2) al v(4) fp(2)] by blast
  have I: "set I \<subseteq> live g2" "(\<lambda>n. n_path (g_node g2 n)) ` set I = set (json_paths (Some vi))"
    using g1(5,6) g2(3) by (auto simp: extends_def subset_iff)
  have "process_rule al j g = link_rule j I out (Rule_new al I out g2)"
    unfolding process_rule_def m JsonVal.case Let_def link_rule_def using v(1,2)
    by (simp add: g1(1) g2(1) m Let_def split: prod.split)
  moreover have "paths g2 = paths g \<union> view_paths (rule_spec j)"
    using g2(7) g1(7) v(1,2) by (simp add: view_paths_def rule_spec_def Un_assoc)
  moreover have "(\<lambda>n. n_path (g_node g2 n)) ` set I = fst (rule_spec j)" "(\<lambda>n. n_path (g_node g2 n)) ` set out = fst (snd (rule_spec j))"
    unfolding rule_spec_def fst_conv snd_conv v(1,2) by (rule I(2), rule g2(6))
  ultimately show ?thesis using g2(2,4,5) extends_trans [OF g1(3) g2(3)] g1(4) I(1) by blast
qed

text \<open>The outputs that are generated already.\<close>

lemma generated_iff:
  assumes "wf_graph g" and "n \<in> live g"
  shows "n_child (g_node g n) \<noteq> None \<longleftrightarrow> (\<exists>r \<in> set (g_rules g). n_path (g_node g n) \<in> fst (snd (rule_view g r)))" (is "?l \<longleftrightarrow> ?r")
proof
  assume ?l
  then obtain q where q: "n_child (g_node g n) = Some q" by blast
  then have "q \<in> set (g_rules g) \<and> n \<in> set (r_outputs (g_rule g q))" using wf_child [OF assms] by simp
  then show ?r by (auto simp: rule_view_def)
next
  assume ?r
  then obtain r m where r: "r \<in> set (g_rules g)" "m \<in> set (r_outputs (g_rule g r))" "n_path (g_node g n) = n_path (g_node g m)"
    by (auto simp: rule_view_def)
  then have "m \<in> live g" "n_child (g_node g m) = Some r" using wf_output [OF assms(1)] by auto
  moreover have "n = m" using live_path_inj [OF assms(1)] assms(2) \<open>m \<in> live g\<close> r(3) by (auto dest: inj_onD)
  ultimately show ?l by simp
qed

lemma process_rule_total:
  assumes p: "parsed al fp g" and al: "fresh_allocator al" and j: "is_rule j" "valid_rule fp j"
    and new: "\<forall>r \<in> set (g_rules g). fst (snd (rule_view g r)) \<inter> fst (snd (rule_spec j)) = {}"
  shows "\<exists>g'. process_rule al j g = Inr g' \<and> parsed al fp g' \<and>
    map (rule_view g') (g_rules g') = map (rule_view g) (g_rules g) @ [rule_spec j] \<and> paths g' = paths g \<union> view_paths (rule_spec j)"
proof -
  obtain I out g2 where res: "process_rule al j g = link_rule j I out (Rule_new al I out g2)"
    and g2: "parsed al fp g2" "extends g g2" "distinct I" "distinct out" "set I \<subseteq> live g2" "set out \<subseteq> live g2"
      "paths g2 = paths g \<union> view_paths (rule_spec j)"
    and img: "(\<lambda>n. n_path (g_node g2 n)) ` set I = fst (rule_spec j)" "(\<lambda>n. n_path (g_node g2 n)) ` set out = fst (snd (rule_spec j))"
    using process_rule_nodes [OF p al j] by (elim exE conjE) (rule that; assumption)
  have wf: "wf_graph g" "wf_graph g2" using p g2(1) by (simp_all add: parsed_def)
  have rules: "g_rules g2 = g_rules g" using g2(2) by (simp add: extends_def)
  have view: "rule_view g2 q = rule_view g q" if "q \<in> set (g_rules g)" for q by (rule rule_view_extends [OF g2(2) wf(1) that])
  have free: "\<forall>n \<in> set out. n_child (g_node g2 n) = None"
    using generated_iff [OF wf(2)] g2(6) new img(2) view unfolding rules by fastforce
  define r where "r = a_rule al (g_newRules g2)"
  define rl where "rl = (Rule_init I out)\<lparr>r_command := field_value (getObject ''cmd'' j), r_depfile := field_value (getObject ''depfile'' j), r_numReady := length I\<rparr>"
  obtain g3 where g3: "Rule_new al I out g2 = (r, g3)" by (simp add: Rule_new_def Let_def r_def)
  have fields: "string_field_ok (getObject ''cmd'' j)" "string_field_ok (getObject ''depfile'' j)" using j(2) by (simp_all add: valid_rule_def)
  have res: "process_rule al j g = Inr (linked r rl g2)"
    unfolding res g3 link_rule_def prod.case rl_def by (rule link_rule_eq [OF fields g2(3,4) free g3])
  have r: "r \<notin> set (g_rules g2)" using g2(1) fresh_address(2) [OF al, of "g_newRules g2"] unfolding parsed_def r_def by blast
  have "out \<noteq> []" using j(2) img(2) by (auto simp: valid_rule_def rule_spec_def)
  then have wf': "wf_graph (linked r rl g2)"
    by (intro linked_wf [OF wf(2) r]) (use g2(3-6) free in \<open>auto simp: rl_def Rule_init_def\<close>)
  have parsed: "parsed al fp (linked r rl g2)"
    by (rule linked_parsed [OF g2(1) r_def wf' _ _ al]) (simp_all add: rl_def Rule_init_def)
  have "map (rule_view (linked r rl g2)) (g_rules g) = map (rule_view g) (g_rules g)"
    using r rules view linked_view(1) [of r _ rl g2] by (metis map_cong)
  moreover have "rule_view (linked r rl g2) r = rule_spec j"
    using img by (simp add: linked_view rule_spec_def rl_def Rule_init_def)
  moreover have "g_rules (linked r rl g2) = g_rules g @ [r]" "paths (linked r rl g2) = paths g2" using rules by (simp_all add: linked_def paths_def)
  ultimately show ?thesis using res parsed g2(7) by simp
qed

lemma link_outputs_fail:
  "\<exists>n \<in> set ns. n_child (g_node g n) \<noteq> None \<Longrightarrow> \<exists>msg. foldM (link_output r) ns g = throw_error EINVAL msg"
proof (induction ns arbitrary: g)
  case (Cons n ns)
  show ?case
  proof (cases "n_child (g_node g n)")
    case None
    let ?g = "(upd_node n (\<lambda>nd. nd\<lparr>n_child := Some r\<rparr>) g)\<lparr>g_sources := g_sources g - {n}\<rparr>"
    have "link_output r n g = Inr ?g" using None by (simp add: link_output_def Node_setChild_def)
    moreover have "\<exists>m \<in> set ns. n_child (g_node ?g m) \<noteq> None" using Cons.prems None by auto
    ultimately show ?thesis using Cons.IH [of ?g] by simp
  qed (auto simp: link_output_def Node_setChild_def throw_error_def)
qed simp

lemma process_rule_duplicate:
  assumes p: "parsed al fp g" and al: "fresh_allocator al" and j: "is_rule j" "valid_rule fp j"
    and dup: "\<exists>r \<in> set (g_rules g). fst (snd (rule_view g r)) \<inter> fst (snd (rule_spec j)) \<noteq> {}"
  shows "\<exists>msg. process_rule al j g = throw_error EINVAL msg"
proof -
  obtain I out g2 where res: "process_rule al j g = link_rule j I out (Rule_new al I out g2)"
    and g2: "parsed al fp g2" "extends g g2" "distinct I" "set out \<subseteq> live g2"
    and img: "(\<lambda>n. n_path (g_node g2 n)) ` set out = fst (snd (rule_spec j))"
    using process_rule_nodes [OF p al j] by (elim exE conjE) (rule that; assumption)
  have wf: "wf_graph g" "wf_graph g2" using p g2(1) by (simp_all add: parsed_def)
  obtain r n where r: "r \<in> set (g_rules g)" "n \<in> set out" "n_path (g_node g2 n) \<in> fst (snd (rule_view g r))"
    using dup unfolding img [symmetric] by auto
  have "r \<in> set (g_rules g2)" "n_path (g_node g2 n) \<in> fst (snd (rule_view g2 r))"
    using r rule_view_extends [OF g2(2) wf(1)] g2(2) by (auto simp: extends_def)
  then have child: "n_child (g_node g2 n) \<noteq> None" using generated_iff [OF wf(2), of n] r(2) g2(4) by auto
  have fields: "string_field_ok (getObject ''cmd'' j)" "string_field_ok (getObject ''depfile'' j)" using j(2) by (simp_all add: valid_rule_def)
  obtain q g3 where q: "Rule_new al I out g2 = (q, g3)" "g_node g3 = g_node g2" "r_inputs (g_rule g3 q) = I" "r_numReady (g_rule g3 q) = 0"
    by (simp add: Rule_new_def Let_def Rule_init_def)
  obtain g4 where g4: "link_rule j I out (q, g3) = rbind (foldM (link_input q) I g4) (foldM (link_output q) out)"
    "g_node g4 = g_node g2" "r_inputs (g_rule g4 q) = I" "r_numReady (g_rule g4 q) = 0"
    using q(2-4) by (auto simp: link_rule_def string_field_ok_eq fields Let_def split: option.splits)
  obtain g5 where "foldM (link_input q) I g4 = Inr g5" "\<And>m. n_child (g_node g5 m) = n_child (g_node g2 m)"
    using link_inputs_eq [OF g2(3), of g4 q] g4(2-4) by auto
  then show ?thesis using link_outputs_fail [of out g5 q] r(2) child res q(1) g4(1) by auto
qed

text \<open>Two rules of the document with a common output: the second one cannot be linked.\<close>

fun outputs_disjoint :: "rule_view list \<Rightarrow> bool" where
  "outputs_disjoint [] \<longleftrightarrow> True"
| "outputs_disjoint (v # vs) \<longleftrightarrow> (\<forall>u \<in> set vs. fst (snd v) \<inter> fst (snd u) = {}) \<and> outputs_disjoint vs"

lemma outputs_disjoint_snoc:
  "outputs_disjoint (vs @ [v]) \<longleftrightarrow> outputs_disjoint vs \<and> (\<forall>u \<in> set vs. fst (snd u) \<inter> fst (snd v) = {})"
  by (induction vs) auto

definition spec_of :: "JsonVal list \<Rightarrow> rule_view list" where
  "spec_of js = map rule_spec (filter is_rule js)"

lemma outputs_disjoint_prefix: "outputs_disjoint (vs @ us) \<Longrightarrow> outputs_disjoint vs"
  by (induction us rule: rev_induct) (auto simp: outputs_disjoint_snoc simp flip: append_assoc)

lemma process_rules_total:
  assumes al: "fresh_allocator al" and valid: "\<forall>j \<in> set js. is_rule j \<longrightarrow> valid_rule fp j" and disj: "outputs_disjoint (spec_of js)"
  shows "\<exists>g. foldM (process_rule al) js Graph_empty = Inr g \<and> parsed al fp g \<and> map (rule_view g) (g_rules g) = spec_of js \<and>
    paths g = (\<Union>v \<in> set (spec_of js). view_paths v)"
proof (rule foldM_total)
  show "parsed al fp Graph_empty \<and> map (rule_view Graph_empty) (g_rules Graph_empty) = spec_of [] \<and>
    paths Graph_empty = (\<Union>v \<in> set (spec_of []). view_paths v)" using parsed_empty by (simp add: spec_of_def paths_def Graph_empty_def)
next
  fix pre j rest g
  assume split: "js = pre @ j # rest" and g: "parsed al fp g \<and> map (rule_view g) (g_rules g) = spec_of pre \<and> paths g = (\<Union>v \<in> set (spec_of pre). view_paths v)"
  let ?Q = "\<lambda>g'. parsed al fp g' \<and> map (rule_view g') (g_rules g') = spec_of (pre @ [j]) \<and> paths g' = (\<Union>v \<in> set (spec_of (pre @ [j])). view_paths v)"
  show "\<exists>g'. process_rule al j g = Inr g' \<and> ?Q g'"
  proof (cases "is_rule j")
    case False
    then have "process_rule al j g = Inr g" by (auto simp: process_rule_def is_rule_def Let_def split: JsonVal.splits)
    then show ?thesis using g False by (simp add: spec_of_def)
  next
    case True
    have "spec_of js = (spec_of pre @ [rule_spec j]) @ spec_of rest" using split True by (simp add: spec_of_def)
    then have "outputs_disjoint (spec_of pre @ [rule_spec j])" using disj outputs_disjoint_prefix by metis
    then have "\<forall>v \<in> set (spec_of pre). fst (snd v) \<inter> fst (snd (rule_spec j)) = {}" by (simp add: outputs_disjoint_snoc)
    moreover have "set (spec_of pre) = rule_view g ` set (g_rules g)" using g by (metis set_map)
    ultimately have new: "\<forall>r \<in> set (g_rules g). fst (snd (rule_view g r)) \<inter> fst (snd (rule_spec j)) = {}" by simp
    obtain g' where "process_rule al j g = Inr g'" "parsed al fp g'" "map (rule_view g') (g_rules g') = map (rule_view g) (g_rules g) @ [rule_spec j]"
      "paths g' = paths g \<union> view_paths (rule_spec j)"
      using process_rule_total [OF _ al True _ new, of fp] g valid split True by auto
    then show ?thesis using g True by (auto simp: spec_of_def)
  qed
qed

lemma processJson_total:
  assumes al: "fresh_allocator al" and valid: "\<forall>j \<in> set js. is_rule j \<longrightarrow> valid_rule fp j" and disj: "outputs_disjoint (spec_of js)"
  shows "\<exists>g. processJson al fp (JArray js) Graph_empty = Inr g \<and> wf_graph g \<and> map (rule_view g) (g_rules g) = spec_of js \<and>
    paths g = insert fp (\<Union>v \<in> set (spec_of js). view_paths v) \<and>
    (\<forall>n. \<not> Node_isDirty g n \<and> n_hash (g_node g n) = [] \<and> n_hashDepfile (g_node g n) = []) \<and>
    (\<forall>r \<in> set (g_rules g). \<not> Rule_isDirty g r \<and> r_numReady (g_rule g r) = length (r_inputs (g_rule g r))) \<and>
    (\<forall>r. r \<notin> set (g_rules g) \<longrightarrow> r_depfile (g_rule g r) = [])"
proof -
  obtain g where g: "foldM (process_rule al) js Graph_empty = Inr g" "parsed al fp g" "map (rule_view g) (g_rules g) = spec_of js"
    "paths g = (\<Union>v \<in> set (spec_of js). view_paths v)" using process_rules_total [OF assms] by blast
  have new: "fp \<notin> fst ` set (g_nodes g)" "a_node al (g_newNodes g) \<notin> live g" and wf: "wf_graph g"
    using g(2) fresh_address(1) [OF al, of "g_newNodes g"] unfolding parsed_def by blast+
  note sel = add_source_sel [OF new(1), of al]
  let ?g = "add_source al fp g"
  have ext: "extends g ?g" using new(2) by (auto simp: extends_def sel)
  have "map (rule_view ?g) (g_rules ?g) = spec_of js"
    unfolding sel(3) g(3) [symmetric] by (intro map_cong refl rule_view_extends [OF ext wf])
  moreover have "wf_graph ?g" by (rule add_source_wf [OF wf new])
  moreover have "paths ?g = insert fp (paths g)" by (simp add: paths_def sel)
  moreover have "processJson al fp (JArray js) Graph_empty = Inr ?g" using g(1) by (simp add: processJson_def json_array_def)
  moreover have "\<forall>n. \<not> Node_isDirty ?g n \<and> n_hash (g_node ?g n) = [] \<and> n_hashDepfile (g_node ?g n) = []"
    using g(2) by (auto simp: parsed_def sel Node_isDirty_def Node_init_def)
  ultimately show ?thesis using g(2,4) by (auto simp: parsed_def sel Rule_isDirty_def)
qed

text \<open>The dependencies of the document: from a path to the paths that are built from it.\<close>

definition doc_edges :: "rule_view list \<Rightarrow> (string \<times> string) set" where
  "doc_edges vs = (\<Union>v \<in> set vs. fst v \<times> fst (snd v))"

lemma parsed_acyclic:
  assumes "map (rule_view g) (g_rules g) = vs" and "acyclic (doc_edges vs)"
  shows "acyclic_graph g"
proof -
  let ?p = "\<lambda>n. n_path (g_node g n)"
  have step: "(?p n, ?p m) \<in> doc_edges vs" if e: "(n, m) \<in> dep_edges g" for n m
  proof -
    obtain r where "r \<in> set (g_rules g)" "n \<in> set (r_inputs (g_rule g r))" "m \<in> set (r_outputs (g_rule g r))"
      using e unfolding dep_edges_def by blast
    moreover have "set vs = rule_view g ` set (g_rules g)" using assms(1) by (metis set_map)
    ultimately show ?thesis by (auto simp: doc_edges_def rule_view_def)
  qed
  have "(?p n, ?p m) \<in> (doc_edges vs)\<^sup>+" if "(n, m) \<in> (dep_edges g)\<^sup>+" for n m
    using that by (induction rule: trancl_induct) (auto intro: step trancl_into_trancl)
  then show ?thesis using assms(2) unfolding acyclic_graph_def acyclic_def by blast
qed

lemma parsed_unscanned:
  assumes al: "fresh_allocator al" and valid: "\<forall>j \<in> set js. is_rule j \<longrightarrow> valid_rule fp j" and disj: "outputs_disjoint (spec_of js)"
    and acyclic: "acyclic (doc_edges (spec_of js))" and nodep: "\<forall>v \<in> set (spec_of js). snd (snd (snd v)) = []"
  shows "\<exists>g. processJson al fp (JArray js) Graph_empty = Inr g \<and> unscanned g \<and> map (rule_view g) (g_rules g) = spec_of js"
proof -
  obtain g where g: "processJson al fp (JArray js) Graph_empty = Inr g" "wf_graph g" "map (rule_view g) (g_rules g) = spec_of js"
    "\<forall>n. \<not> Node_isDirty g n \<and> n_hash (g_node g n) = [] \<and> n_hashDepfile (g_node g n) = []"
    "\<forall>r \<in> set (g_rules g). \<not> Rule_isDirty g r \<and> r_numReady (g_rule g r) = length (r_inputs (g_rule g r))"
    "\<forall>r. r \<notin> set (g_rules g) \<longrightarrow> r_depfile (g_rule g r) = []"
    using processJson_total [OF al valid disj] by (elim exE conjE) (rule that; assumption)
  have "set (spec_of js) = rule_view g ` set (g_rules g)" using g(3) by (metis set_map)
  then have "\<forall>r. r_depfile (g_rule g r) = []" using nodep g(6) by (auto simp: rule_view_def)
  then show ?thesis using g parsed_acyclic [OF g(3) acyclic] by (auto simp: unscanned_def plain_graph_def)
qed

text \<open>C7. Parsing a valid document, whose rules have outputs, all different, and do not mention the graph file
  itself, succeeds. The graph is well formed, its rules are those of the document in order, with the same sets of
  input and output paths, the same command and depfile; its nodes are the paths of the document and the graph
  file; everything starts up to date with all inputs counted as ready.\<close>

theorem processJson_refines:
  assumes "fresh_allocator al" and "\<forall>j \<in> set js. is_rule j \<longrightarrow> valid_rule fp j" and "outputs_disjoint (spec_of js)"
  shows "\<exists>g. processJson al fp (JArray js) Graph_empty = Inr g \<and> wf_graph g \<and> counters_ok g \<and>
    map (rule_view g) (g_rules g) = map rule_spec (filter is_rule js) \<and>
    fst ` set (g_nodes g) = insert fp (\<Union>v \<in> set (spec_of js). view_paths v) \<and>
    (\<forall>n. \<not> Node_isDirty g n) \<and> (\<forall>r \<in> set (g_rules g). \<not> Rule_isDirty g r \<and> Rule_ready g r)"
proof -
  obtain g where g: "processJson al fp (JArray js) Graph_empty = Inr g" "wf_graph g" "map (rule_view g) (g_rules g) = spec_of js"
    "paths g = insert fp (\<Union>v \<in> set (spec_of js). view_paths v)"
    "\<forall>n. \<not> Node_isDirty g n \<and> n_hash (g_node g n) = [] \<and> n_hashDepfile (g_node g n) = []"
    "\<forall>r \<in> set (g_rules g). \<not> Rule_isDirty g r \<and> r_numReady (g_rule g r) = length (r_inputs (g_rule g r))"
    using processJson_total [OF assms] by (elim exE conjE) (rule that; assumption)
  have "counters_ok g" using g(5,6) by (simp add: counters_ok_def counter_ok_def input_ready_def)
  then show ?thesis using g by (auto simp: spec_of_def paths_def Rule_ready_def)
qed

definition example_doc :: "JsonVal list" where
  "example_doc =
     [JObject [(''cmd'', JString ''cc''), (''inputs'', JArray [JString ''a'', JString ''a'']), (''outputs'', JArray [JString ''b''])],
      JNull,
      JObject [(''inputs'', JArray [JString ''b'']), (''outputs'', JArray [JString ''c''])]]"

lemma example_doc_eval:
  "\<forall>j \<in> set example_doc. is_rule j \<longrightarrow> valid_rule ''g.json'' j" "outputs_disjoint (spec_of example_doc)"
  "spec_of example_doc = [({''a''}, {''b''}, ''cc'', []), ({''b''}, {''c''}, [], [])]"
  by (simp_all add: example_doc_def spec_of_def is_rule_def valid_rule_def all_strings_def json_paths_def json_array_def is_string_def
      string_of_def string_field_ok_def rule_spec_def field_value_def)

lemma some_allocator_fresh: "fresh_allocator some_allocator"
  by (simp add: fresh_allocator_def some_allocator_def)

theorem processJson_refines_witness:
  "\<exists>g. processJson some_allocator ''g.json'' (JArray example_doc) Graph_empty = Inr g \<and> wf_graph g \<and>
     map (rule_view g) (g_rules g) = [({''a''}, {''b''}, ''cc'', []), ({''b''}, {''c''}, [], [])]"
  using processJson_refines [OF some_allocator_fresh example_doc_eval(1,2)] example_doc_eval(3) by (auto simp: spec_of_def)

text \<open>Duplicate outputs: if two rules of an otherwise valid document have an output in common, the parser
  throws \<open>EINVAL\<close>.\<close>

lemma processJson_duplicate_output:
  assumes "fresh_allocator al" and "\<forall>j \<in> set js. is_rule j \<longrightarrow> valid_rule fp j" and "\<not> outputs_disjoint (spec_of js)"
  shows "\<exists>msg. processJson al fp (JArray js) Graph_empty = throw_error EINVAL msg"
proof -
  have "\<exists>pre j rest. js = pre @ j # rest \<and> is_rule j \<and> outputs_disjoint (spec_of pre) \<and> \<not> outputs_disjoint (spec_of pre @ [rule_spec j])"
    using assms(3)
  proof (induction js rule: rev_induct)
    case (snoc j js)
    then show ?case by (cases "outputs_disjoint (spec_of js)") (fastforce simp: spec_of_def split: if_splits)+
  qed (simp add: spec_of_def)
  then obtain pre j rest where js: "js = pre @ j # rest" "is_rule j" "outputs_disjoint (spec_of pre)"
    "\<not> outputs_disjoint (spec_of pre @ [rule_spec j])" by blast
  have valid: "\<forall>j \<in> set pre. is_rule j \<longrightarrow> valid_rule fp j" "valid_rule fp j" using assms(2) js(1,2) by auto
  obtain g where g: "foldM (process_rule al) pre Graph_empty = Inr g" "parsed al fp g" "map (rule_view g) (g_rules g) = spec_of pre"
    using process_rules_total [OF assms(1) valid(1) js(3)] by blast
  have "set (spec_of pre) = rule_view g ` set (g_rules g)" using g(3) by (metis set_map)
  then have "\<exists>r \<in> set (g_rules g). fst (snd (rule_view g r)) \<inter> fst (snd (rule_spec j)) \<noteq> {}"
    using js(3,4) by (auto simp: outputs_disjoint_snoc)
  from process_rule_duplicate [OF g(2) assms(1) js(2) valid(2) this] show ?thesis
    using g(1) js(1) by (auto simp: processJson_def json_array_def foldM_append throw_error_def)
qed

lemma processJson_duplicate_output_witness:
  "\<exists>msg. processJson some_allocator ''g.json'' (JArray (example_doc @ [hd example_doc])) Graph_empty = throw_error EINVAL msg"
proof (rule processJson_duplicate_output [OF some_allocator_fresh])
  show "\<forall>j \<in> set (example_doc @ [hd example_doc]). is_rule j \<longrightarrow> valid_rule ''g.json'' j"
    using example_doc_eval(1) by (simp add: example_doc_def)
  show "\<not> outputs_disjoint (spec_of (example_doc @ [hd example_doc]))"
    by (simp add: example_doc_def spec_of_def is_rule_def rule_spec_def json_paths_def json_array_def string_of_def)
qed

text \<open>A rule of the document that has inputs but no member \<open>outputs\<close>, or outputs but no member \<open>inputs\<close>, makes
  the parser dereference a null pointer.\<close>

theorem process_rule_null_dereference:
  "process_rule al (JObject [(''cmd'', c), (''inputs'', JArray [])]) g = Inl NullDeref \<and>
   process_rule al (JObject [(''cmd'', c), (''outputs'', vs)]) g = Inl NullDeref"
  by (simp add: process_rule_def checkNode_def json_array_def)

end
