(* ===== verification/Json_Roundtrip.thy ===== *)
theory Json_Roundtrip
  imports Graph_Parser
begin

text \<open>
  What the table driven parser of the bundled JSON library does with the text that the library's own printer writes:
  it builds the tree that was printed, however the text is cut into pieces.

  The sizes of the two growing buffers are abstracted away first: \<open>feeds p s q\<close> says that every parser that agrees with
  \<open>p\<close> up to these sizes, and has consistent ones, accepts \<open>s\<close> and then agrees with \<open>q\<close>.
\<close>

section \<open>Buffers that grow\<close>

text \<open>The sizes of the stack and of the buffer, which are powers of two, fit their contents.\<close>

definition room :: "'u json_parser \<Rightarrow> bool" where
  "room p \<longleftrightarrow> jc_max_data (jp_config p) = 0 \<and> jc_max_nesting (jp_config p) = 0 \<and> (\<forall>n > 0. jc_mem (jp_config p) n) \<and>
     length (jp_buffer p) < jp_buffer_size p \<and> jp_buffer_size p \<in> power 2 ` {..31} \<and>
     length (jp_stack p) \<le> jp_stack_size p \<and> jp_stack_size p \<in> power 2 ` {..31}"

definition view :: "'u json_parser \<Rightarrow> 'u json_parser" where
  "view p = p\<lparr>jp_stack_size := 0, jp_buffer_size := 0\<rparr>"

definition feeds :: "'u json_parser \<Rightarrow> string \<Rightarrow> 'u json_parser \<Rightarrow> bool" where
  "feeds p s q \<longleftrightarrow> (\<forall>i p0. room p0 \<and> view p0 = p \<longrightarrow>
     (\<exists>p1. parser_loop i s p0 = Inr (0, i + length s, p1) \<and> room p1 \<and> view p1 = q))"

text \<open>The same for a single operation.\<close>

definition does :: "'u jp_op \<Rightarrow> 'u json_parser \<Rightarrow> 'u json_parser \<Rightarrow> bool" where
  "does f p q \<longleftrightarrow> (\<forall>p0. room p0 \<and> view p0 = p \<longrightarrow> (\<exists>p1. f p0 = Inr (0, p1) \<and> room p1 \<and> view p1 = q))"

lemma feeds_Nil: "feeds p [] p"
  by (simp add: feeds_def)

lemma feedsD:
  "feeds p s q \<Longrightarrow> room p0 \<Longrightarrow> view p0 = p \<Longrightarrow> \<exists>p1. parser_loop i s p0 = Inr (0, i + length s, p1) \<and> room p1 \<and> view p1 = q"
  by (simp add: feeds_def)

lemma parser_loop_continue: "parser_loop i s p = Inr (0, j, q) \<Longrightarrow> parser_loop i (s @ t) p = parser_loop j t q"
  by (induction s arbitrary: i p) (auto simp: rbind_eq_Inr split: if_splits)

lemma feeds_append: "feeds p s q \<Longrightarrow> feeds q t r \<Longrightarrow> feeds p (s @ t) r"
proof -
  assume st: "feeds p s q" "feeds q t r"
  show ?thesis unfolding feeds_def
  proof (intro allI impI)
    fix i p0 assume "room p0 \<and> view p0 = p"
    with st(1) obtain p1 where p1: "parser_loop i s p0 = Inr (0, i + length s, p1)" "room p1 \<and> view p1 = q"
      unfolding feeds_def by blast
    with st(2) obtain p2 where "parser_loop (i + length s) t p1 = Inr (0, i + length s + length t, p2)" "room p2" "view p2 = r"
      unfolding feeds_def by blast
    then show "\<exists>p1. parser_loop i (s @ t) p0 = Inr (0, i + length (s @ t), p1) \<and> room p1 \<and> view p1 = r"
      using parser_loop_continue [OF p1(1)] by (simp add: add.assoc)
  qed
qed

lemma feeds_Cons: "feeds p [c] q \<Longrightarrow> feeds q s r \<Longrightarrow> feeds p (c # s) r"
  using feeds_append [of p "[c]" q s r] by simp

lemma feeds_one: "does (json_parser_step c) p q \<Longrightarrow> feeds p [c] q"
  by (fastforce simp: feeds_def does_def)

lemma does_CHK: "does f p q \<Longrightarrow> does k q r \<Longrightarrow> does (CHK f k) p r"
  by (fastforce simp: does_def CHK_def)

lemma does_skip: "does (\<lambda>p. Inr (0, p)) p p"
  by (simp add: does_def)

lemma does_cong: "does g p q \<Longrightarrow> (\<And>p0. view p0 = p \<Longrightarrow> f p0 = g p0) \<Longrightarrow> does f p q"
  by (auto simp: does_def)

text \<open>An operation that neither reads nor writes the sizes.\<close>

lemma view_sel [simp]:
  "jp_config (view p) = jp_config p" "jp_callback (view p) = jp_callback p" "jp_userdata (view p) = jp_userdata p"
  "jp_state (view p) = jp_state p" "jp_save_state (view p) = jp_save_state p" "jp_expecting_key (view p) = jp_expecting_key p"
  "jp_utf8_multibyte_left (view p) = jp_utf8_multibyte_left p" "jp_unicode_multi (view p) = jp_unicode_multi p"
  "jp_type (view p) = jp_type p" "jp_stack (view p) = jp_stack p" "jp_buffer (view p) = jp_buffer p"
  by (simp_all add: view_def)

lemma does_update:
  assumes "\<And>p0. room p0 \<Longrightarrow> view p0 = p \<Longrightarrow> f p0 = Inr (0, h p0)"
    and "\<And>p0. room p0 \<Longrightarrow> view p0 = p \<Longrightarrow> room (h p0)" and "\<And>p0. view p0 = p \<Longrightarrow> view (h p0) = q"
  shows "does f p q"
  using assms by (auto simp: does_def)

lemma grow_power:
  fixes n k :: nat
  assumes "n \<in> power 2 ` {..31}" "n \<le> k" "k < 2 ^ 31"
  shows "n * 2 mod 2 ^ 32 \<in> power 2 ` {..31}" "n * 2 mod 2 ^ 32 = n * 2" "0 < n"
proof -
  obtain j where j: "n = 2 ^ j" "j \<le> 31" using assms(1) by auto
  have "(2::nat) ^ j < 2 ^ 31" using assms(2,3) j(1) by linarith
  then have "j < 31" by (rule power_less_imp_less_exp [rotated]) simp
  then have "n * 2 = 2 ^ Suc j" "Suc j \<le> 31" using j by simp_all
  moreover have "(2::nat) ^ Suc j < 2 ^ 32" using \<open>j < 31\<close> by (intro power_strict_increasing) simp_all
  ultimately show eq: "n * 2 mod 2 ^ 32 = n * 2" by (simp only: mod_less)
  show "n * 2 mod 2 ^ 32 \<in> power 2 ` {..31}"
    unfolding eq using \<open>n * 2 = 2 ^ Suc j\<close> \<open>Suc j \<le> 31\<close> by (metis atMost_iff image_eqI)
  show "0 < n" using j by simp
qed

lemma buffer_push_does:
  assumes "length (jp_buffer p) + 1 < 2 ^ 31"
  shows "does (buffer_push c) p (p\<lparr>jp_buffer := jp_buffer p @ [c]\<rparr>)"
  unfolding does_def
proof (intro allI impI)
  fix p0 :: "'a json_parser" assume p0: "room p0 \<and> view p0 = p"
  let ?n = "length (jp_buffer p0)" and ?size = "jp_buffer_size p0"
  have n: "?n + 1 < 2 ^ 31" using assms p0 by auto
  then have small: "(?n + 1) mod 2 ^ 32 = ?n + 1" by simp
  have size: "?size \<in> power 2 ` {..31}" "?n < ?size" using p0 by (auto simp: room_def)
  show "\<exists>p1. buffer_push c p0 = Inr (0, p1) \<and> room p1 \<and> view p1 = p\<lparr>jp_buffer := jp_buffer p @ [c]\<rparr>"
  proof (cases "?n + 1 \<ge> ?size")
    case True
    note grow = grow_power [OF size(1) True n]
    have "buffer_push c p0 = Inr (0, p0\<lparr>jp_buffer_size := ?size * 2, jp_buffer := jp_buffer p0 @ [c]\<rparr>)"
      using True p0 size small grow unfolding buffer_push_def CHK_def buffer_grow_def buffer_store_def
      by (simp add: room_def Let_def del: One_nat_def)
    moreover have "room (p0\<lparr>jp_buffer_size := ?size * 2, jp_buffer := jp_buffer p0 @ [c]\<rparr>)"
      using p0 grow(1,2) size by (auto simp: room_def)
    ultimately show ?thesis using p0 by (auto simp: view_def)
  next
    case False
    then have "buffer_push c p0 = Inr (0, p0\<lparr>jp_buffer := jp_buffer p0 @ [c]\<rparr>)"
      using small unfolding buffer_push_def CHK_def buffer_store_def by simp
    moreover have "room (p0\<lparr>jp_buffer := jp_buffer p0 @ [c]\<rparr>)"
      using p0 False by (auto simp: room_def)
    ultimately show ?thesis using p0 by (auto simp: view_def)
  qed
qed

lemma state_push_does:
  assumes "length (jp_stack p) < 2 ^ 31"
  shows "does (state_push m) p (p\<lparr>jp_stack := jp_stack p @ [m]\<rparr>)"
  unfolding does_def
proof (intro allI impI)
  fix p0 :: "'a json_parser" assume p0: "room p0 \<and> view p0 = p"
  let ?n = "length (jp_stack p0)" and ?size = "jp_stack_size p0"
  have n: "?n < 2 ^ 31" using assms p0 by auto
  have size: "?size \<in> power 2 ` {..31}" "?n \<le> ?size" using p0 by (auto simp: room_def)
  show "\<exists>p1. state_push m p0 = Inr (0, p1) \<and> room p1 \<and> view p1 = p\<lparr>jp_stack := jp_stack p @ [m]\<rparr>"
  proof (cases "?n \<ge> ?size")
    case True
    note grow = grow_power [OF size(1) True n]
    have "state_push m p0 = Inr (0, p0\<lparr>jp_stack_size := ?size * 2, jp_stack := jp_stack p0 @ [m]\<rparr>)"
      using True p0 size grow unfolding state_push_def CHK_def state_grow_def
      by (simp add: room_def Let_def)
    moreover have "room (p0\<lparr>jp_stack_size := ?size * 2, jp_stack := jp_stack p0 @ [m]\<rparr>)"
      using p0 grow size True by (auto simp: room_def)
    ultimately show ?thesis using p0 by (auto simp: view_def)
  next
    case False
    then have "state_push m p0 = Inr (0, p0\<lparr>jp_stack := jp_stack p0 @ [m]\<rparr>)"
      unfolding state_push_def CHK_def by simp
    moreover have "room (p0\<lparr>jp_stack := jp_stack p0 @ [m]\<rparr>)"
      using p0 False by (auto simp: room_def)
    ultimately show ?thesis using p0 by (auto simp: view_def)
  qed
qed

section \<open>Configurations of the parser\<close>

text \<open>A parser between two characters, without sizes: the automaton, the type of a pending value and its text, the
  modes and elements of the two stacks, the tree that is complete, and the missing bytes of a character.\<close>

definition dom_conf :: "(nat \<Rightarrow> bool) \<Rightarrow> JsonVal stack_elem list \<Rightarrow> JsonVal option \<Rightarrow> JsonVal json_parser_dom" where
  "dom_conf mem es rt =
     \<lparr>dom_stack = es, dom_stack_size = 1024, dom_block = 1024 * stack_elem_size, dom_mem = mem, dom_root_structure = rt,
      dom_create_structure = tree_create_structure, dom_create_data = tree_create_data, dom_append = tree_append\<rparr>"

definition conf ::
    "(nat \<Rightarrow> bool) \<Rightarrow> states \<Rightarrow> bool \<Rightarrow> json_type \<Rightarrow> string \<Rightarrow> mode list \<Rightarrow> JsonVal stack_elem list \<Rightarrow> JsonVal option \<Rightarrow> nat \<Rightarrow> JsonParser" where
  "conf mem st ek ty buf ms es rt u =
     \<lparr>jp_config = parser_config mem, jp_callback = Some json_parser_dom_callback,
      jp_userdata = dom_conf mem es rt,
      jp_state = st, jp_save_state = STATE_GO, jp_expecting_key = ek, jp_utf8_multibyte_left = u, jp_unicode_multi = 0,
      jp_type = ty, jp_stack = ms, jp_stack_size = 0, jp_buffer = buf, jp_buffer_size = 0\<rparr>"

lemma conf_sel [simp]:
  "jp_config (conf mem st ek ty buf ms es rt u) = parser_config mem"
  "jp_callback (conf mem st ek ty buf ms es rt u) = Some json_parser_dom_callback"
  "jp_userdata (conf mem st ek ty buf ms es rt u) = dom_conf mem es rt"
  "jp_state (conf mem st ek ty buf ms es rt u) = st" "jp_expecting_key (conf mem st ek ty buf ms es rt u) = ek"
  "jp_utf8_multibyte_left (conf mem st ek ty buf ms es rt u) = u" "jp_unicode_multi (conf mem st ek ty buf ms es rt u) = 0"
  "jp_type (conf mem st ek ty buf ms es rt u) = ty" "jp_stack (conf mem st ek ty buf ms es rt u) = ms"
  "jp_buffer (conf mem st ek ty buf ms es rt u) = buf"
  by (simp_all add: conf_def)

lemma conf_upd [simp]:
  "(conf mem st ek ty buf ms es rt u)\<lparr>jp_state := st'\<rparr> = conf mem st' ek ty buf ms es rt u"
  "(conf mem st ek ty buf ms es rt u)\<lparr>jp_expecting_key := ek'\<rparr> = conf mem st ek' ty buf ms es rt u"
  "(conf mem st ek ty buf ms es rt u)\<lparr>jp_utf8_multibyte_left := u'\<rparr> = conf mem st ek ty buf ms es rt u'"
  "(conf mem st ek ty buf ms es rt u)\<lparr>jp_type := ty'\<rparr> = conf mem st ek ty' buf ms es rt u"
  "(conf mem st ek ty buf ms es rt u)\<lparr>jp_stack := ms'\<rparr> = conf mem st ek ty buf ms' es rt u"
  "(conf mem st ek ty buf ms es rt u)\<lparr>jp_userdata := dom_conf mem es' rt'\<rparr> = conf mem st ek ty buf ms es' rt' u"
  "(conf mem st ek ty buf ms es rt u)\<lparr>jp_buffer := buf'\<rparr> = conf mem st ek ty buf' ms es rt u"
  by (simp_all add: conf_def)

text \<open>Updates commute with the removal of the sizes.\<close>

lemma view_upd [simp]:
  "view (p\<lparr>jp_state := st\<rparr>) = (view p)\<lparr>jp_state := st\<rparr>" "view (p\<lparr>jp_expecting_key := ek\<rparr>) = (view p)\<lparr>jp_expecting_key := ek\<rparr>"
  "view (p\<lparr>jp_utf8_multibyte_left := u\<rparr>) = (view p)\<lparr>jp_utf8_multibyte_left := u\<rparr>" "view (p\<lparr>jp_type := ty\<rparr>) = (view p)\<lparr>jp_type := ty\<rparr>"
  "view (p\<lparr>jp_stack := ms\<rparr>) = (view p)\<lparr>jp_stack := ms\<rparr>" "view (p\<lparr>jp_buffer := buf\<rparr>) = (view p)\<lparr>jp_buffer := buf\<rparr>"
  "view (p\<lparr>jp_userdata := ud\<rparr>) = (view p)\<lparr>jp_userdata := ud\<rparr>"
  by (simp_all add: view_def)

lemma room_upd [simp]:
  "room (p\<lparr>jp_state := st\<rparr>) = room p" "room (p\<lparr>jp_expecting_key := ek\<rparr>) = room p" "room (p\<lparr>jp_utf8_multibyte_left := u\<rparr>) = room p"
  "room (p\<lparr>jp_type := ty\<rparr>) = room p" "room (p\<lparr>jp_userdata := ud\<rparr>) = room p"
  by (simp_all add: room_def)

lemma room_shrink:
  "room p \<Longrightarrow> room (p\<lparr>jp_buffer := []\<rparr>)" "room p \<Longrightarrow> length ms \<le> length (jp_stack p) \<Longrightarrow> room (p\<lparr>jp_stack := ms\<rparr>)"
  by (auto simp: room_def)

subsection \<open>Single characters\<close>

lemma view_conf:
  assumes "view p = conf mem st ek ty buf ms es rt u"
  shows "jp_config p = parser_config mem" "jp_callback p = Some json_parser_dom_callback" "jp_userdata p = dom_conf mem es rt" "jp_state p = st"
    "jp_expecting_key p = ek" "jp_utf8_multibyte_left p = u" "jp_unicode_multi p = 0" "jp_type p = ty" "jp_stack p = ms" "jp_buffer p = buf"
  using assms by (metis conf_sel view_sel)+

lemma does_conf_cong:
  assumes "does g (conf mem st ek ty buf ms es rt u) q"
    and "\<And>p0. jp_config p0 = parser_config mem \<Longrightarrow> jp_state p0 = st \<Longrightarrow> jp_expecting_key p0 = ek \<Longrightarrow> jp_type p0 = ty \<Longrightarrow>
           jp_stack p0 = ms \<Longrightarrow> jp_buffer p0 = buf \<Longrightarrow> f p0 = g p0"
  shows "does f (conf mem st ek ty buf ms es rt u) q"
  using assms(1) by (rule does_cong) (rule assms(2), (erule view_conf)+)

text \<open>The class of a character in a configuration.\<close>

lemma next_class_ascii:
  assumes "jp_utf8_multibyte_left p = 0" "(of_char ch :: nat) < 128" "character_class ! of_char ch \<noteq> C_ERROR"
  shows "next_class ch p = (0, character_class ! of_char ch, p)"
  using assms by (simp add: next_class_def utf8_header_table_def Let_def)

definition moves :: "states \<Rightarrow> classes \<Rightarrow> states \<Rightarrow> nat \<Rightarrow> bool" where
  "moves st c st' pol \<longleftrightarrow> table_entry (state_transition_table st) c = Inr st' \<and> table_entry (buffer_policy_table st) c = Inr pol \<and>
     st' \<noteq> STATE_ERR"

text \<open>What a step does after the class of the character is known.\<close>

definition act :: "char \<Rightarrow> states \<Rightarrow> nat \<Rightarrow> 'u jp_op" where
  "act ch st' pol =
     CHK (if pol \<noteq> 0 then if pol = 2 then buffer_push_escape ch else buffer_push ch else (\<lambda>p. Inr (0, p)))
       (if IS_STATE_ACTION st' then do_action st' else (\<lambda>p. Inr (0, p\<lparr>jp_state := st'\<rparr>)))"

lemma step_does:
  assumes "\<And>p0. view p0 = p \<Longrightarrow> next_class ch p0 = (0, c, p0\<lparr>jp_utf8_multibyte_left := u'\<rparr>)"
    and "moves (jp_state p) c st' pol" and "does (act ch st' pol) (p\<lparr>jp_utf8_multibyte_left := u'\<rparr>) q"
  shows "does (json_parser_step ch) p q"
  unfolding does_def
proof (intro allI impI)
  fix p0 assume p0: "room p0 \<and> view p0 = p"
  let ?p = "p0\<lparr>jp_utf8_multibyte_left := u'\<rparr>"
  have "jp_state ?p = jp_state p" using p0 by auto
  then have "json_parser_step ch p0 = act ch st' pol ?p"
    using assms(1) [of p0] assms(2) p0 by (simp add: json_parser_step_def act_def moves_def)
  moreover have "room ?p \<and> view ?p = p\<lparr>jp_utf8_multibyte_left := u'\<rparr>" using p0 by simp
  ultimately show "\<exists>p1. json_parser_step ch p0 = Inr (0, p1) \<and> room p1 \<and> view p1 = q"
    using assms(3) unfolding does_def by metis
qed

lemma step_ascii:
  assumes "jp_utf8_multibyte_left p = 0" "(of_char ch :: nat) < 128" "character_class ! of_char ch = c" "c \<noteq> C_ERROR"
    and "moves (jp_state p) c st' pol" and "does (act ch st' pol) p q"
  shows "does (json_parser_step ch) p q"
proof (rule step_does [where u' = 0])
  fix p0 assume "view p0 = p"
  then have "jp_utf8_multibyte_left p0 = 0" using assms(1) by auto
  then have "next_class ch p0 = (0, c, p0)" "p0 = p0\<lparr>jp_utf8_multibyte_left := 0\<rparr>"
    using next_class_ascii [of p0 ch] assms(2-4) by simp_all
  then show "next_class ch p0 = (0, c, p0\<lparr>jp_utf8_multibyte_left := 0\<rparr>)" by simp
next
  have "p = p\<lparr>jp_utf8_multibyte_left := 0\<rparr>" using assms(1) by simp
  then show "does (act ch st' pol) (p\<lparr>jp_utf8_multibyte_left := 0\<rparr>) q" using assms(6) by simp
qed (rule assms(5))

lemma does_set_state: "does (\<lambda>p. Inr (0, p\<lparr>jp_state := st\<rparr>)) p (p\<lparr>jp_state := st\<rparr>)"
  by (rule does_update [where h = "\<lambda>p. p\<lparr>jp_state := st\<rparr>"]) auto

text \<open>Moves without an action.\<close>

lemma goto_skip:
  assumes "\<not> IS_STATE_ACTION st'"
  shows "does (act ch st' 0) p (p\<lparr>jp_state := st'\<rparr>)"
  using assms by (simp add: act_def does_CHK [OF does_skip does_set_state])

lemma goto_push:
  assumes "\<not> IS_STATE_ACTION st'" "length (jp_buffer p) + 1 < 2 ^ 31"
  shows "does (act ch st' 1) p (p\<lparr>jp_buffer := jp_buffer p @ [ch], jp_state := st'\<rparr>)"
  using assms does_CHK [OF buffer_push_does [OF assms(2)] does_set_state] by (simp add: act_def)

text \<open>Moves with an action.\<close>

lemma act_action: "IS_STATE_ACTION a \<Longrightarrow> does (do_action a) p q \<Longrightarrow> does (act ch a 0) p q"
  by (simp add: act_def does_CHK [OF does_skip])

lemma act_action_push:
  assumes "IS_STATE_ACTION a" "length (jp_buffer p) + 1 < 2 ^ 31" "does (do_action a) (p\<lparr>jp_buffer := jp_buffer p @ [ch]\<rparr>) q"
  shows "does (act ch a 1) p q"
  using assms does_CHK [OF buffer_push_does [OF assms(2)] assms(3)] by (simp add: act_def)

lemma does_set: "does (\<lambda>p. Inr (0, p\<lparr>jp_state := (case st of Some s \<Rightarrow> s | None \<Rightarrow> jp_state p), jp_type := ty\<rparr>))
    (conf mem st0 ek ty0 buf ms es rt u) (conf mem (case st of Some s \<Rightarrow> s | None \<Rightarrow> st0) ek ty buf ms es rt u)"
  by (rule does_update [where h = "\<lambda>p. p\<lparr>jp_state := (case st of Some s \<Rightarrow> s | None \<Rightarrow> jp_state p), jp_type := ty\<rparr>"])
    (auto dest: view_conf)

lemma do_plain:
  assumes "actions_map a = Some (action_descr None ty (Some st) False :: JsonVal json_parser_dom action_descr)"
  shows "does (do_action a) (conf mem st0 ek ty0 buf ms es rt u) (conf mem st ek ty buf ms es rt u)"
  using does_CHK [OF does_skip does_set [where st = "Some st" and ty = ty and buf = buf]] assms
  by (simp add: do_action_def [abs_def] action_descr_def)

lemma do_call:
  assumes "actions_map a = Some (action_descr (Some f) ty st False :: JsonVal json_parser_dom action_descr)"
    and "does f p (conf mem st0 ek ty0 buf ms es rt u)"
  shows "does (do_action a) p (conf mem (case st of Some s \<Rightarrow> s | None \<Rightarrow> st0) ek ty buf ms es rt u)"
  using does_CHK [OF does_CHK [OF does_skip assms(2)] does_set [where st = st and ty = ty]] assms(1)
  by (simp add: do_action_def [abs_def] action_descr_def)

lemma do_call_buffer:
  assumes "actions_map a = Some (action_descr (Some f) ty st True :: JsonVal json_parser_dom action_descr)"
    and "does do_buffer p q" "does f q (conf mem st0 ek ty0 buf ms es rt u)"
  shows "does (do_action a) p (conf mem (case st of Some s \<Rightarrow> s | None \<Rightarrow> st0) ek ty buf ms es rt u)"
  using does_CHK [OF does_CHK [OF assms(2,3)] does_set [where st = st and ty = ty]] assms(1)
  by (simp add: do_action_def [abs_def] action_descr_def)

lemma callback_withbuf_does:
  assumes "json_parser_dom_callback (dom_conf mem es rt) type buf = Inr (0, dom_conf mem es' rt')"
  shows "does (do_callback_withbuf type) (conf mem st ek ty buf ms es rt u) (conf mem st ek ty buf ms es' rt' u)"
proof (rule does_update [where h = "\<lambda>p. p\<lparr>jp_userdata := dom_conf mem es' rt'\<rparr>"])
  fix p0 assume "room p0" and p0: "view p0 = conf mem st ek ty buf ms es rt u"
  then show "do_callback_withbuf type p0 = Inr (0, p0\<lparr>jp_userdata := dom_conf mem es' rt'\<rparr>)"
    using assms view_conf [OF p0] by (simp add: do_callback_withbuf_def room_def)
qed auto

lemma callback_does:
  assumes "json_parser_dom_callback (dom_conf mem es rt) type [] = Inr (0, dom_conf mem es' rt')"
  shows "does (do_callback type) (conf mem st ek ty buf ms es rt u) (conf mem st ek ty buf ms es' rt' u)"
proof (rule does_update [where h = "\<lambda>p. p\<lparr>jp_userdata := dom_conf mem es' rt'\<rparr>"])
  fix p0 assume "room p0" and p0: "view p0 = conf mem st ek ty buf ms es rt u"
  then show "do_callback type p0 = Inr (0, p0\<lparr>jp_userdata := dom_conf mem es' rt'\<rparr>)"
    using assms view_conf [OF p0] by (simp add: do_callback_def room_def)
qed auto

subsection \<open>The tree\<close>

text \<open>Appending a value to the element on top of the stack, under its key if it has one.\<close>

definition add_value :: "JsonVal stack_elem \<Rightarrow> JsonVal \<Rightarrow> JsonVal stack_elem" where
  "add_value e v =
     e\<lparr>se_val := snd (tree_append (se_val e) (case se_key e of Key k \<Rightarrow> Some k | _ \<Rightarrow> None) v),
       se_key := (case se_key e of KeyNull \<Rightarrow> KeyNull | _ \<Rightarrow> KeyFreed)\<rparr>"

definition data_types :: "json_type set" where
  "data_types = {JSON_STRING, JSON_INT, JSON_FLOAT, JSON_NULL, JSON_TRUE, JSON_FALSE}"

lemma dom_conf_sel [simp]:
  "dom_stack (dom_conf mem es rt) = es" "dom_mem (dom_conf mem es rt) = mem" "dom_stack_size (dom_conf mem es rt) = 1024"
  "dom_block (dom_conf mem es rt) = 1024 * stack_elem_size" "dom_create_data (dom_conf mem es rt) = tree_create_data"
  "dom_create_structure (dom_conf mem es rt) = tree_create_structure" "dom_append (dom_conf mem es rt) = tree_append"
  "(dom_conf mem es rt)\<lparr>dom_stack := es'\<rparr> = dom_conf mem es' rt" "(dom_conf mem es rt)\<lparr>dom_root_structure := rt'\<rparr> = dom_conf mem es rt'"
  "dom_root_structure (dom_conf mem es rt) = rt"
  by (simp_all add: dom_conf_def)

lemma append_free:
  assumes "se_key e \<noteq> KeyFreed"
  shows "\<exists>ctx. dom_append_top v (dom_conf mem (es @ [e]) rt) = Inr (0, ctx) \<and> free_key ctx = Inr (dom_conf mem (es @ [add_value e v]) rt)"
  using assms
  by (cases "se_key e") (auto simp: dom_append_top_def free_key_def add_value_def set_key_def tree_append_def Let_def)

lemma dom_data:
  assumes "ty \<in> data_types" "se_key e \<noteq> KeyFreed"
  shows "json_parser_dom_callback (dom_conf mem (es @ [e]) rt) ty buf =
    Inr (0, dom_conf mem (es @ [add_value e (the (tree_create_data ty buf))]) rt)"
  using append_free [OF assms(2), of "the (tree_create_data ty buf)" mem es rt] assms(1)
  by (auto simp: json_parser_dom_callback_def data_types_def tree_create_data_def)

lemma dom_key:
  assumes "mem (length buf + 1)"
  shows "json_parser_dom_callback (dom_conf mem (es @ [e]) rt) JSON_KEY buf = Inr (0, dom_conf mem (es @ [e\<lparr>se_key := Key buf\<rparr>]) rt)"
  using assms by (simp add: json_parser_dom_callback_def set_key_def)

lemma dom_begin:
  assumes "length es < 1024" "ty \<in> {JSON_ARRAY_BEGIN, JSON_OBJECT_BEGIN}"
  shows "json_parser_dom_callback (dom_conf mem es rt) ty [] =
    Inr (0, dom_conf mem (es @ [\<lparr>se_val = (if ty = JSON_OBJECT_BEGIN then JObject [] else JArray []), se_key = KeyNull\<rparr>]) rt)"
  using assms by (auto simp: json_parser_dom_callback_def tree_create_structure_def dom_push_def Let_def)

text \<open>The stack and the root after a structure is complete.\<close>

definition close_elems :: "JsonVal stack_elem list \<Rightarrow> JsonVal \<Rightarrow> JsonVal stack_elem list" where
  "close_elems es v = (if es = [] then [] else butlast es @ [add_value (last es) v])"

definition close_root :: "JsonVal stack_elem list \<Rightarrow> JsonVal \<Rightarrow> JsonVal option \<Rightarrow> JsonVal option" where
  "close_root es v rt = (if es = [] then Some v else rt)"

lemma dom_end:
  assumes "ty \<in> {JSON_ARRAY_END, JSON_OBJECT_END}" "es \<noteq> [] \<Longrightarrow> se_key (last es) \<noteq> KeyFreed"
  shows "json_parser_dom_callback (dom_conf mem (es @ [e]) rt) ty [] =
    Inr (0, dom_conf mem (close_elems es (se_val e)) (close_root es (se_val e) rt))"
proof (cases es rule: rev_cases)
  case Nil
  then show ?thesis using assms by (auto simp: json_parser_dom_callback_def dom_pop_def close_elems_def close_root_def)
next
  case (snoc es' e')
  then have "se_key e' \<noteq> KeyFreed" using assms(2) by simp
  from append_free [OF this, of "se_val e" mem es' rt] show ?thesis
    using assms(1) by (auto simp: json_parser_dom_callback_def dom_pop_def close_elems_def close_root_def snoc butlast_append)
qed

text \<open>Flushing the buffer appends a pending number or constant.\<close>

definition flushed :: "json_type \<Rightarrow> string \<Rightarrow> JsonVal stack_elem list \<Rightarrow> JsonVal stack_elem list" where
  "flushed ty buf es = (if ty = JSON_NONE then es else butlast es @ [add_value (last es) (the (tree_create_data ty buf))])"

definition pending :: "json_type \<Rightarrow> JsonVal stack_elem list \<Rightarrow> bool" where
  "pending ty es \<longleftrightarrow> ty = JSON_NONE \<or> ty \<in> data_types \<and> es \<noteq> [] \<and> se_key (last es) \<noteq> KeyFreed"

lemma clear_buffer: "does (\<lambda>p. Inr (0, p\<lparr>jp_buffer := []\<rparr>)) (conf mem st ek ty buf ms es rt u) (conf mem st ek ty [] ms es rt u)"
  by (rule does_update [where h = "\<lambda>p. p\<lparr>jp_buffer := []\<rparr>"]) (auto simp: room_shrink)

lemma do_buffer_does:
  assumes "pending ty es"
  shows "does do_buffer (conf mem st ek ty buf ms es rt u) (conf mem st ek ty [] ms (flushed ty buf es) rt u)"
proof -
  let ?f = "if ty \<in> {JSON_KEY, JSON_STRING, JSON_FLOAT, JSON_INT, JSON_NULL, JSON_TRUE, JSON_FALSE}
    then do_callback_withbuf ty else (\<lambda>p. Inr (0, p)) :: JsonVal json_parser_dom jp_op"
  have "does ?f (conf mem st ek ty buf ms es rt u) (conf mem st ek ty buf ms (flushed ty buf es) rt u)"
  proof (cases "ty = JSON_NONE")
    case True
    then show ?thesis by (simp add: flushed_def does_skip)
  next
    case False
    then have ty: "ty \<in> data_types" "es = butlast es @ [last es]" "se_key (last es) \<noteq> KeyFreed"
      using assms by (auto simp: pending_def)
    then show ?thesis
      using callback_withbuf_does [OF dom_data [OF ty(1,3), of mem "butlast es" rt buf], of st ek ty ms u] False
      by (auto simp: flushed_def data_types_def)
  qed
  from does_CHK [OF this clear_buffer] show ?thesis
    by (rule does_conf_cong) (simp add: do_buffer_def)
qed

subsection \<open>Delimiters\<close>

text \<open>The states in which a value is complete.\<close>

definition value_ends :: "states set" where
  "value_ends = {STATE_OK, STATE_Z0, STATE_I0, STATE_R2, STATE_X3}"

lemmas json_eval = moves_def table_entry_def character_class_def IS_STATE_ACTION_def actions_def

lemma does_set_key:
  "does (\<lambda>p. Inr (0, p\<lparr>jp_expecting_key := ek'\<rparr>)) (conf mem st ek ty buf ms es rt u) (conf mem st ek' ty buf ms es rt u)"
  by (rule does_update [where h = "\<lambda>p. p\<lparr>jp_expecting_key := ek'\<rparr>"]) auto

lemma does_set_key_state:
  "does (\<lambda>p. Inr (0, p\<lparr>jp_expecting_key := ek', jp_state := st'\<rparr>)) (conf mem st ek ty buf ms es rt u) (conf mem st' ek' ty buf ms es rt u)"
  by (rule does_update [where h = "\<lambda>p. p\<lparr>jp_expecting_key := ek', jp_state := st'\<rparr>"]) auto

lemma does_set_stack:
  "does (\<lambda>p. Inr (0, p\<lparr>jp_stack := ms\<rparr>)) (conf mem st ek ty buf (ms @ ms') es rt u) (conf mem st ek ty buf ms es rt u)"
proof (rule does_update [where h = "\<lambda>p. p\<lparr>jp_stack := ms\<rparr>"])
  fix p0 assume "room p0" and p0: "view p0 = conf mem st ek ty buf (ms @ ms') es rt u"
  then show "room (p0\<lparr>jp_stack := ms\<rparr>)" by (simp add: room_shrink(2) view_conf(9) [OF p0])
qed auto

lemma state_pop_does: "does (state_pop m) (conf mem st ek ty buf (ms @ [m]) es rt u) (conf mem st ek ty buf ms es rt u)"
  by (rule does_conf_cong [OF does_set_stack]) (simp add: state_pop_def)

lemma act_sp_does:
  "does act_sp (conf mem st False ty buf (ms @ [m]) es rt u)
     (conf mem (if m = MODE_OBJECT then STATE__K else STATE__V) (m = MODE_OBJECT) ty buf (ms @ [m]) es rt u)"
proof (cases m)
  case MODE_OBJECT
  have "does act_sp (conf mem st False ty buf (ms @ [m]) es rt u) (conf mem STATE__K True ty buf (ms @ [m]) es rt u)"
    by (rule does_conf_cong [OF does_set_key_state]) (simp add: act_sp_def MODE_OBJECT)
  then show ?thesis by (simp add: MODE_OBJECT)
next
  case MODE_ARRAY
  have "does act_sp (conf mem st False ty buf (ms @ [m]) es rt u) ((conf mem st False ty buf (ms @ [m]) es rt u)\<lparr>jp_state := STATE__V\<rparr>)"
    by (rule does_conf_cong [OF does_set_state]) (simp add: act_sp_def MODE_ARRAY)
  then show ?thesis by (simp add: MODE_ARRAY)
qed

lemma act_oe_does:
  assumes "es \<noteq> [] \<Longrightarrow> se_key (last es) \<noteq> KeyFreed"
  shows "does act_oe (conf mem st ek ty buf (ms @ [MODE_OBJECT]) (es @ [e]) rt u)
    (conf mem st False ty buf ms (close_elems es (se_val e)) (close_root es (se_val e) rt) u)"
  unfolding act_oe_def
  by (intro does_CHK [OF state_pop_does] does_CHK [OF callback_does [OF dom_end]] does_set_key) (use assms in auto)

lemma act_ae_does:
  assumes "es \<noteq> [] \<Longrightarrow> se_key (last es) \<noteq> KeyFreed"
  shows "does act_ae (conf mem st ek ty buf (ms @ [MODE_ARRAY]) (es @ [e]) rt u)
    (conf mem st ek ty buf ms (close_elems es (se_val e)) (close_root es (se_val e) rt) u)"
  unfolding act_ae_def
  by (intro does_CHK [OF state_pop_does] does_CHK [OF callback_does [OF dom_end]] does_skip) (use assms in auto)

text \<open>A comma, and the brackets that close a structure.\<close>

lemma feeds_comma:
  assumes "st \<in> value_ends" "pending ty es"
  shows "feeds (conf mem st False ty buf (ms @ [m]) es rt 0) '',''
    (conf mem (if m = MODE_OBJECT then STATE__K else STATE__V) (m = MODE_OBJECT) JSON_NONE [] (ms @ [m]) (flushed ty buf es) rt 0)"
proof (rule feeds_one, rule step_ascii [where c = C_COMMA and st' = STATE_SP and pol = 0])
  show "moves (jp_state (conf mem st False ty buf (ms @ [m]) es rt 0)) C_COMMA STATE_SP 0"
    using assms(1) by (auto simp: value_ends_def json_eval)
  have "does (do_action STATE_SP) (conf mem st False ty buf (ms @ [m]) es rt 0)
    (conf mem (case None of Some s \<Rightarrow> s | None \<Rightarrow> if m = MODE_OBJECT then STATE__K else STATE__V) (m = MODE_OBJECT) JSON_NONE []
       (ms @ [m]) (flushed ty buf es) rt 0)"
    by (rule do_call_buffer [OF _ do_buffer_does [OF assms(2)] act_sp_does]) simp
  then show "does (act (CHR '','') STATE_SP 0) (conf mem st False ty buf (ms @ [m]) es rt 0)
    (conf mem (if m = MODE_OBJECT then STATE__K else STATE__V) (m = MODE_OBJECT) JSON_NONE [] (ms @ [m]) (flushed ty buf es) rt 0)"
    by (intro act_action) (simp_all add: json_eval)
qed (simp_all add: character_class_def)

lemma feeds_close_array:
  assumes "st \<in> insert STATE__A value_ends" "pending ty es'" "flushed ty buf es' = es @ [e]"
    and "es \<noteq> [] \<Longrightarrow> se_key (last es) \<noteq> KeyFreed"
  shows "feeds (conf mem st ek ty buf (ms @ [MODE_ARRAY]) es' rt 0) '']''
    (conf mem STATE_OK ek JSON_NONE [] ms (close_elems es (se_val e)) (close_root es (se_val e) rt) 0)"
proof (rule feeds_one, rule step_ascii [where c = C_RSQRB and st' = STATE_AE and pol = 0])
  show "moves (jp_state (conf mem st ek ty buf (ms @ [MODE_ARRAY]) es' rt 0)) C_RSQRB STATE_AE 0"
    using assms(1) by (auto simp: value_ends_def json_eval)
  have "does (do_action STATE_AE) (conf mem st ek ty buf (ms @ [MODE_ARRAY]) es' rt 0)
    (conf mem (case Some STATE_OK of Some s \<Rightarrow> s | None \<Rightarrow> st) ek JSON_NONE [] ms (close_elems es (se_val e)) (close_root es (se_val e) rt) 0)"
    by (rule do_call_buffer [OF _ do_buffer_does [OF assms(2), of mem st ek buf, unfolded assms(3)] act_ae_does]) (use assms(4) in simp_all)
  then show "does (act (CHR '']'') STATE_AE 0) (conf mem st ek ty buf (ms @ [MODE_ARRAY]) es' rt 0)
    (conf mem STATE_OK ek JSON_NONE [] ms (close_elems es (se_val e)) (close_root es (se_val e) rt) 0)"
    by (intro act_action) (simp_all add: json_eval)
qed (simp_all add: character_class_def)

lemma feeds_close_object:
  assumes "st \<in> insert STATE__O value_ends" "pending ty es'" "flushed ty buf es' = es @ [e]"
    and "es \<noteq> [] \<Longrightarrow> se_key (last es) \<noteq> KeyFreed"
  shows "feeds (conf mem st ek ty buf (ms @ [MODE_OBJECT]) es' rt 0) ''}''
    (conf mem STATE_OK False JSON_NONE [] ms (close_elems es (se_val e)) (close_root es (se_val e) rt) 0)"
proof (rule feeds_one, rule step_ascii [where c = C_RCURB and st' = STATE_OE and pol = 0])
  show "moves (jp_state (conf mem st ek ty buf (ms @ [MODE_OBJECT]) es' rt 0)) C_RCURB STATE_OE 0"
    using assms(1) by (auto simp: value_ends_def json_eval)
  have "does (do_action STATE_OE) (conf mem st ek ty buf (ms @ [MODE_OBJECT]) es' rt 0)
    (conf mem (case Some STATE_OK of Some s \<Rightarrow> s | None \<Rightarrow> st) False JSON_NONE [] ms (close_elems es (se_val e)) (close_root es (se_val e) rt) 0)"
    by (rule do_call_buffer [OF _ do_buffer_does [OF assms(2), of mem st ek buf, unfolded assms(3)] act_oe_does]) (use assms(4) in simp_all)
  then show "does (act (CHR ''}'') STATE_OE 0) (conf mem st ek ty buf (ms @ [MODE_OBJECT]) es' rt 0)
    (conf mem STATE_OK False JSON_NONE [] ms (close_elems es (se_val e)) (close_root es (se_val e) rt) 0)"
    by (intro act_action) (simp_all add: json_eval)
qed (simp_all add: character_class_def)

subsection \<open>Openings and plain moves\<close>

lemma feeds_skip:
  assumes "character_class ! of_char ch = c" "(of_char ch :: nat) < 128" "c \<noteq> C_ERROR" "moves st c st' 0" "\<not> IS_STATE_ACTION st'"
  shows "feeds (conf mem st ek ty buf ms es rt 0) [ch] (conf mem st' ek ty buf ms es rt 0)"
  using goto_skip [OF assms(5), of ch "conf mem st ek ty buf ms es rt 0"] assms(4)
  by (intro feeds_one step_ascii [OF _ assms(2,1,3)]) simp_all

text \<open>White space between tokens; behind a number it ends the number.\<close>

definition blank :: "string \<Rightarrow> bool" where
  "blank w \<longleftrightarrow> set w \<subseteq> {CHR '' '', CHR 0x09, CHR 0x0A, CHR 0x0D}"

lemma blank_char:
  assumes "ch \<in> {CHR '' '', CHR 0x09, CHR 0x0A, CHR 0x0D}"
  shows "st \<in> {STATE_GO, STATE_OK, STATE__O, STATE__K, STATE_CO, STATE__V, STATE__A} \<Longrightarrow>
      feeds (conf mem st ek ty buf ms es rt 0) [ch] (conf mem st ek ty buf ms es rt 0)"
    and "st \<in> value_ends \<Longrightarrow> feeds (conf mem st ek ty buf ms es rt 0) [ch] (conf mem STATE_OK ek ty buf ms es rt 0)"
  by (rule feeds_skip [OF refl], use assms in \<open>auto simp: json_eval value_ends_def\<close>)+

lemma feeds_blank:
  assumes "blank w" "st \<in> {STATE_GO, STATE_OK, STATE__O, STATE__K, STATE_CO, STATE__V, STATE__A}"
  shows "feeds (conf mem st ek ty buf ms es rt 0) w (conf mem st ek ty buf ms es rt 0)"
  using assms(1)
proof (induction w)
  case (Cons c w)
  then show ?case using feeds_Cons [OF blank_char(1) [of c, OF _ assms(2)]] by (simp add: blank_def)
qed (simp add: feeds_Nil)

lemma feeds_blank_end:
  assumes "blank w" "st \<in> value_ends"
  shows "\<exists>st' \<in> value_ends. feeds (conf mem st ek ty buf ms es rt 0) w (conf mem st' ek ty buf ms es rt 0)"
proof (cases w)
  case Nil
  then show ?thesis using assms(2) feeds_Nil by blast
next
  case (Cons c w')
  then have c: "c \<in> {CHR '' '', CHR 0x09, CHR 0x0A, CHR 0x0D}" "blank w'" using assms(1) by (auto simp: blank_def)
  have "feeds (conf mem st ek ty buf ms es rt 0) w (conf mem STATE_OK ek ty buf ms es rt 0)"
    using feeds_Cons [OF blank_char(2) [OF c(1) assms(2)] feeds_blank [OF c(2), of STATE_OK]] Cons by simp
  then show ?thesis by (intro bexI [of _ STATE_OK]) (simp_all add: value_ends_def)
qed

lemma feeds_blank_close:
  assumes "blank w" "if first then st = st0 else st \<in> value_ends" "st0 \<in> {STATE__O, STATE__A}"
  shows "\<exists>st' \<in> insert st0 value_ends. feeds (conf mem st ek ty buf ms es rt 0) w (conf mem st' ek ty buf ms es rt 0)"
proof (cases first)
  case True
  then show ?thesis using feeds_blank [OF assms(1), of st0 mem ek ty buf ms es rt] assms(2,3) by (intro bexI [of _ st0]) auto
qed (use feeds_blank_end [OF assms(1), of st mem ek ty buf ms es rt] assms(2) in auto)

lemma feeds_push:
  assumes "character_class ! of_char ch = c" "(of_char ch :: nat) < 128" "c \<noteq> C_ERROR" "moves st c st' 1" "\<not> IS_STATE_ACTION st'"
    and "length buf + 1 < 2 ^ 31"
  shows "feeds (conf mem st ek ty buf ms es rt 0) [ch] (conf mem st' ek ty (buf @ [ch]) ms es rt 0)"
  using goto_push [OF assms(5), of "conf mem st ek ty buf ms es rt 0" ch] assms(4,6)
  by (intro feeds_one step_ascii [OF _ assms(2,1,3)]) simp_all

lemma feeds_action:
  assumes "character_class ! of_char ch = c" "(of_char ch :: nat) < 128" "c \<noteq> C_ERROR" "moves st c a 0" "IS_STATE_ACTION a"
    and "does (do_action a) (conf mem st ek ty buf ms es rt 0) q"
  shows "feeds (conf mem st ek ty buf ms es rt 0) [ch] q"
  using act_action [OF assms(5,6)] assms(4) by (intro feeds_one step_ascii [OF _ assms(2,1,3)]) simp_all

lemma feeds_action_push:
  assumes "character_class ! of_char ch = c" "(of_char ch :: nat) < 128" "c \<noteq> C_ERROR" "moves st c a 1" "IS_STATE_ACTION a"
    and "length buf + 1 < 2 ^ 31" "does (do_action a) (conf mem st ek ty (buf @ [ch]) ms es rt 0) q"
  shows "feeds (conf mem st ek ty buf ms es rt 0) [ch] q"
  using act_action_push [OF assms(5), of "conf mem st ek ty buf ms es rt 0" ch q] assms(4,6,7)
  by (intro feeds_one step_ascii [OF _ assms(2,1,3)]) simp_all

lemma state_push_conf:
  "length ms < 2 ^ 31 \<Longrightarrow> does (state_push m) (conf mem st ek ty buf ms es rt u) (conf mem st ek ty buf (ms @ [m]) es rt u)"
  using state_push_does [of "conf mem st ek ty buf ms es rt u" m] by simp

lemma act_ab_does:
  assumes "length es < 1024" "length ms < 2 ^ 31"
  shows "does act_ab (conf mem st ek ty buf ms es rt u)
    (conf mem st ek ty buf (ms @ [MODE_ARRAY]) (es @ [\<lparr>se_val = JArray [], se_key = KeyNull\<rparr>]) rt u)"
  unfolding act_ab_def using dom_begin [OF assms(1), of JSON_ARRAY_BEGIN mem rt]
  by (intro does_CHK [OF callback_does does_CHK [OF state_push_conf [OF assms(2)] does_skip]]) simp

lemma act_ob_does:
  assumes "length es < 1024" "length ms < 2 ^ 31"
  shows "does act_ob (conf mem st ek ty buf ms es rt u)
    (conf mem st True ty buf (ms @ [MODE_OBJECT]) (es @ [\<lparr>se_val = JObject [], se_key = KeyNull\<rparr>]) rt u)"
  unfolding act_ob_def using dom_begin [OF assms(1), of JSON_OBJECT_BEGIN mem rt]
  by (intro does_CHK [OF callback_does does_CHK [OF state_push_conf [OF assms(2)] does_set_key]]) simp

text \<open>The states in which a value may start.\<close>

lemma feeds_open_array:
  assumes "st \<in> {STATE_GO, STATE__V, STATE__A}" "length es < 1024" "length ms < 2 ^ 31"
  shows "feeds (conf mem st ek ty buf ms es rt 0) ''[''
    (conf mem STATE__A ek JSON_NONE buf (ms @ [MODE_ARRAY]) (es @ [\<lparr>se_val = JArray [], se_key = KeyNull\<rparr>]) rt 0)"
proof (rule feeds_action [where c = C_LSQRB and a = STATE_AB])
  show "moves st C_LSQRB STATE_AB 0" using assms(1) by (auto simp: json_eval)
  have "does (do_action STATE_AB) (conf mem st ek ty buf ms es rt 0) (conf mem (case Some STATE__A of Some s \<Rightarrow> s | None \<Rightarrow> st)
    ek JSON_NONE buf (ms @ [MODE_ARRAY]) (es @ [\<lparr>se_val = JArray [], se_key = KeyNull\<rparr>]) rt 0)"
    by (rule do_call [OF _ act_ab_does [OF assms(2,3)]]) simp
  then show "does (do_action STATE_AB) (conf mem st ek ty buf ms es rt 0)
    (conf mem STATE__A ek JSON_NONE buf (ms @ [MODE_ARRAY]) (es @ [\<lparr>se_val = JArray [], se_key = KeyNull\<rparr>]) rt 0)" by simp
qed (simp_all add: json_eval)

lemma feeds_open_object:
  assumes "st \<in> {STATE_GO, STATE__V, STATE__A}" "length es < 1024" "length ms < 2 ^ 31"
  shows "feeds (conf mem st ek ty buf ms es rt 0) ''{''
    (conf mem STATE__O True JSON_NONE buf (ms @ [MODE_OBJECT]) (es @ [\<lparr>se_val = JObject [], se_key = KeyNull\<rparr>]) rt 0)"
proof (rule feeds_action [where c = C_LCURB and a = STATE_OB])
  show "moves st C_LCURB STATE_OB 0" using assms(1) by (auto simp: json_eval)
  have "does (do_action STATE_OB) (conf mem st ek ty buf ms es rt 0) (conf mem (case Some STATE__O of Some s \<Rightarrow> s | None \<Rightarrow> st)
    True JSON_NONE buf (ms @ [MODE_OBJECT]) (es @ [\<lparr>se_val = JObject [], se_key = KeyNull\<rparr>]) rt 0)"
    by (rule do_call [OF _ act_ob_does [OF assms(2,3)]]) simp
  then show "does (do_action STATE_OB) (conf mem st ek ty buf ms es rt 0)
    (conf mem STATE__O True JSON_NONE buf (ms @ [MODE_OBJECT]) (es @ [\<lparr>se_val = JObject [], se_key = KeyNull\<rparr>]) rt 0)" by simp
qed (simp_all add: json_eval)

lemma feeds_colon:
  "feeds (conf mem STATE_CO ek ty buf ms es rt 0) '':'' (conf mem STATE__V ek JSON_NONE buf ms es rt 0)"
  by (rule feeds_action [where c = C_COLON and a = STATE_KS]) (simp_all add: json_eval do_plain)

subsection \<open>Constants and numbers\<close>

lemma feeds_constants:
  assumes "st \<in> {STATE__V, STATE__A}"
  shows "feeds (conf mem st ek ty buf ms es rt 0) ''true'' (conf mem STATE_OK ek JSON_TRUE buf ms es rt 0)"
    "feeds (conf mem st ek ty buf ms es rt 0) ''false'' (conf mem STATE_OK ek JSON_FALSE buf ms es rt 0)"
    "feeds (conf mem st ek ty buf ms es rt 0) ''null'' (conf mem STATE_OK ek JSON_NULL buf ms es rt 0)"
proof -
  note skip = feeds_skip [of _ _ _ _ mem ek ty buf ms es rt] and plain = feeds_action [OF _ _ _ _ _ do_plain]
  have start: "moves st C_t STATE_T1 0" "moves st C_f STATE_F1 0" "moves st C_n STATE_N1 0"
    using assms by (auto simp: json_eval)
  show "feeds (conf mem st ek ty buf ms es rt 0) ''true'' (conf mem STATE_OK ek JSON_TRUE buf ms es rt 0)"
    by (rule feeds_Cons [OF skip [OF refl _ _ _ _, of _ _ STATE_T1]], use start in \<open>simp_all add: json_eval\<close>,
      rule feeds_Cons [OF skip [OF refl _ _ _ _, of _ _ STATE_T2]], simp_all add: json_eval,
      rule feeds_Cons [OF skip [OF refl _ _ _ _, of _ _ STATE_T3]], simp_all add: json_eval,
      rule plain [OF refl, of _ _ STATE_TR], simp_all add: json_eval)
  show "feeds (conf mem st ek ty buf ms es rt 0) ''false'' (conf mem STATE_OK ek JSON_FALSE buf ms es rt 0)"
    by (rule feeds_Cons [OF skip [OF refl _ _ _ _, of _ _ STATE_F1]], use start in \<open>simp_all add: json_eval\<close>,
      rule feeds_Cons [OF skip [OF refl _ _ _ _, of _ _ STATE_F2]], simp_all add: json_eval,
      rule feeds_Cons [OF skip [OF refl _ _ _ _, of _ _ STATE_F3]], simp_all add: json_eval,
      rule feeds_Cons [OF skip [OF refl _ _ _ _, of _ _ STATE_F4]], simp_all add: json_eval,
      rule plain [OF refl, of _ _ STATE_FA], simp_all add: json_eval)
  show "feeds (conf mem st ek ty buf ms es rt 0) ''null'' (conf mem STATE_OK ek JSON_NULL buf ms es rt 0)"
    by (rule feeds_Cons [OF skip [OF refl _ _ _ _, of _ _ STATE_N1]], use start in \<open>simp_all add: json_eval\<close>,
      rule feeds_Cons [OF skip [OF refl _ _ _ _, of _ _ STATE_N2]], simp_all add: json_eval,
      rule feeds_Cons [OF skip [OF refl _ _ _ _, of _ _ STATE_N3]], simp_all add: json_eval,
      rule plain [OF refl, of _ _ STATE_NU], simp_all add: json_eval)
qed

definition digits :: "string \<Rightarrow> bool" where
  "digits s \<longleftrightarrow> s \<noteq> [] \<and> set s \<subseteq> set ''0123456789''"

definition is_int :: "string \<Rightarrow> bool" where
  "is_int s \<longleftrightarrow> (let t = (if take 1 s = ''-'' then tl s else s) in t = ''0'' \<or> digits t \<and> take 1 t \<noteq> ''0'')"

text \<open>The exponents: a letter, an optional sign and digits.\<close>

definition is_exponent :: "string \<Rightarrow> bool" where
  "is_exponent s \<longleftrightarrow> (\<exists>x sign ds. s = x # sign @ ds \<and> x \<in> {CHR ''e'', CHR ''E''} \<and> sign \<in> {[], ''+'', ''-''} \<and> digits ds)"

text \<open>The numbers that the automaton takes for floating point numbers; an exponent directly behind a zero is not allowed.\<close>

definition is_float :: "string \<Rightarrow> bool" where
  "is_float s \<longleftrightarrow> (\<exists>i f e. s = i @ f @ e \<and> is_int i \<and>
     (f = [] \<and> i \<notin> {''0'', ''-0''} \<or> (\<exists>ds. f = CHR ''.'' # ds \<and> digits ds)) \<and> (e = [] \<and> f \<noteq> [] \<or> is_exponent e))"

lemma digit_class:
  assumes "ch \<in> set ''0123456789''"
  shows "character_class ! of_char ch = (if ch = CHR ''0'' then C_ZERO else C_DIGIT)" "(of_char ch :: nat) < 128"
  using assms by (auto simp: character_class_def)

lemma feeds_digit:
  assumes "ch \<in> set ''0123456789''" "length buf + 1 < 2 ^ 31" "moves st C_ZERO st' 1" "moves st C_DIGIT st' 1" "\<not> IS_STATE_ACTION st'"
  shows "feeds (conf mem st ek ty buf ms es rt 0) [ch] (conf mem st' ek ty (buf @ [ch]) ms es rt 0)"
  by (rule feeds_push [OF digit_class(1) [OF assms(1)]]) (use digit_class [OF assms(1)] assms in auto)

lemma feeds_digits:
  assumes "set ds \<subseteq> set ''0123456789''" "length buf + length ds < 2 ^ 31" "st \<in> {STATE_I0, STATE_R2, STATE_X3}"
  shows "feeds (conf mem st ek ty buf ms es rt 0) ds (conf mem st ek ty (buf @ ds) ms es rt 0)"
  using assms
proof (induction ds arbitrary: buf)
  case (Cons d ds)
  have "feeds (conf mem st ek ty buf ms es rt 0) [d] (conf mem st ek ty (buf @ [d]) ms es rt 0)"
    by (rule feeds_digit) (use Cons.prems in \<open>auto simp: json_eval\<close>)
  moreover have "feeds (conf mem st ek ty (buf @ [d]) ms es rt 0) ds (conf mem st ek ty ((buf @ [d]) @ ds) ms es rt 0)"
    by (rule Cons.IH) (use Cons.prems in auto)
  ultimately show ?case using feeds_Cons by fastforce
qed (simp add: feeds_Nil)

text \<open>A run of digits that ends a fraction or an exponent.\<close>

lemma feeds_run:
  assumes "digits ds" "length buf + length ds < 2 ^ 31" "moves st C_ZERO st' 1" "moves st C_DIGIT st' 1" "st' \<in> {STATE_I0, STATE_R2, STATE_X3}"
  shows "feeds (conf mem st ek ty buf ms es rt 0) ds (conf mem st' ek ty (buf @ ds) ms es rt 0)"
proof -
  obtain d ds' where ds: "ds = d # ds'" using assms(1) by (cases ds) (auto simp: digits_def)
  have "feeds (conf mem st ek ty buf ms es rt 0) [d] (conf mem st' ek ty (buf @ [d]) ms es rt 0)"
    by (rule feeds_digit) (use assms in \<open>auto simp: ds digits_def IS_STATE_ACTION_def actions_def\<close>)
  moreover have "feeds (conf mem st' ek ty (buf @ [d]) ms es rt 0) ds' (conf mem st' ek ty ((buf @ [d]) @ ds') ms es rt 0)"
    by (rule feeds_digits) (use assms in \<open>auto simp: ds digits_def\<close>)
  ultimately show ?thesis unfolding ds using feeds_Cons by fastforce
qed

lemma feeds_int:
  assumes "is_int s" "length s < 2 ^ 31" "st \<in> {STATE__V, STATE__A}"
  shows "feeds (conf mem st ek ty [] ms es rt 0) s (conf mem (if s \<in> {''0'', ''-0''} then STATE_Z0 else STATE_I0) ek JSON_INT s ms es rt 0)"
proof -
  note push = feeds_action_push [OF _ _ _ _ _ _ do_plain]
  have minus: "feeds (conf mem st ek ty [] ms es rt 0) ''-'' (conf mem STATE_M0 ek JSON_INT ''-'' ms es rt 0)"
    by (rule push [OF refl, of _ _ STATE_MX, THEN back_subst [of "feeds _ _"]]) (use assms(3) in \<open>auto simp: json_eval\<close>)
  have zero: "feeds (conf mem st ek ty [] ms es rt 0) ''0'' (conf mem STATE_Z0 ek JSON_INT ''0'' ms es rt 0)"
    by (rule push [OF refl, of _ _ STATE_ZX, THEN back_subst [of "feeds _ _"]]) (use assms(3) in \<open>auto simp: json_eval\<close>)
  have first: "feeds (conf mem st ek ty [] ms es rt 0) [d] (conf mem STATE_I0 ek JSON_INT [d] ms es rt 0)"
    if "d \<in> set ''0123456789''" "d \<noteq> CHR ''0''" for d
    by (rule push [OF refl, of _ _ STATE_IX, THEN back_subst [of "feeds _ _"]]) (use that assms(3) in \<open>auto simp: digit_class json_eval\<close>)
  have m_zero: "feeds (conf mem STATE_M0 ek JSON_INT ''-'' ms es rt 0) ''0'' (conf mem STATE_Z0 ek JSON_INT ''-0'' ms es rt 0)"
    by (rule feeds_push [OF refl, of _ _ STATE_Z0, THEN back_subst [of "feeds _ _"]]) (auto simp: json_eval)
  have m_first: "feeds (conf mem STATE_M0 ek JSON_INT ''-'' ms es rt 0) [d] (conf mem STATE_I0 ek JSON_INT [CHR ''-'', d] ms es rt 0)"
    if "d \<in> set ''0123456789''" "d \<noteq> CHR ''0''" for d
    by (rule feeds_push [OF refl, of _ _ STATE_I0, THEN back_subst [of "feeds _ _"]]) (use that in \<open>auto simp: digit_class json_eval\<close>)
  define t where "t = (if take 1 s = ''-'' then tl s else s)"
  have t: "t = ''0'' \<or> digits t \<and> take 1 t \<noteq> ''0''" using assms(1) by (simp add: is_int_def t_def Let_def)
  show ?thesis
  proof (cases "take 1 s = ''-''")
    case True
    then have s: "s = CHR ''-'' # t" by (cases s) (auto simp: t_def)
    show ?thesis
    proof (cases "t = ''0''")
      case True
      then show ?thesis using feeds_Cons [OF minus m_zero] by (simp add: s)
    next
      case False
      then obtain d ds where ds: "t = d # ds" "d \<in> set ''0123456789''" "d \<noteq> CHR ''0''" "set ds \<subseteq> set ''0123456789''"
        using t by (cases t) (auto simp: digits_def)
      have "feeds (conf mem STATE_I0 ek JSON_INT [CHR ''-'', d] ms es rt 0) ds (conf mem STATE_I0 ek JSON_INT ([CHR ''-'', d] @ ds) ms es rt 0)"
        using assms(2) ds(4) by (intro feeds_digits) (simp_all add: s ds(1))
      from feeds_Cons [OF minus feeds_Cons [OF m_first [OF ds(2,3)] this]] show ?thesis using ds(1,3) by (simp add: s)
    qed
  next
    case no_minus: False
    then have s: "s = t" by (simp add: t_def)
    show ?thesis
    proof (cases "t = ''0''")
      case True
      then show ?thesis using zero by (simp add: s)
    next
      case False
      then obtain d ds where ds: "t = d # ds" "d \<in> set ''0123456789''" "d \<noteq> CHR ''0''" "set ds \<subseteq> set ''0123456789''"
        using t by (cases t) (auto simp: digits_def)
      have "feeds (conf mem STATE_I0 ek JSON_INT [d] ms es rt 0) ds (conf mem STATE_I0 ek JSON_INT ([d] @ ds) ms es rt 0)"
        using assms(2) ds(4) by (intro feeds_digits) (simp_all add: s ds(1))
      from feeds_Cons [OF first [OF ds(2,3)] this] show ?thesis using ds no_minus by (auto simp: s)
    qed
  qed
qed

lemma feeds_exponent:
  assumes "is_exponent s" "length buf + length s < 2 ^ 31" and "st = STATE_R2 \<and> ty = JSON_FLOAT \<or> st = STATE_I0"
  shows "feeds (conf mem st ek ty buf ms es rt 0) s (conf mem STATE_X3 ek JSON_FLOAT (buf @ s) ms es rt 0)"
proof -
  obtain x sign ds where s: "s = x # sign @ ds" "x \<in> {CHR ''e'', CHR ''E''}" "sign \<in> {[], ''+'', ''-''}" "digits ds"
    using assms(1) unfolding is_exponent_def by blast
  have "feeds (conf mem st ek ty buf ms es rt 0) [x] (conf mem STATE_X1 ek JSON_FLOAT (buf @ [x]) ms es rt 0)"
  proof (cases "st = STATE_I0")
    case True
    show ?thesis
      by (rule feeds_action_push [OF refl, where a = STATE_DE, OF _ _ _ _ _ do_plain]) (use True s assms(2) in \<open>auto simp: json_eval\<close>)
  next
    case False
    then have "st = STATE_R2" "ty = JSON_FLOAT" using assms(3) by auto
    then show ?thesis by (simp, intro feeds_push [OF refl]) (use s assms(2) in \<open>auto simp: json_eval\<close>)
  qed
  moreover have "feeds (conf mem STATE_X1 ek JSON_FLOAT (buf @ [x]) ms es rt 0) (sign @ ds)
    (conf mem STATE_X3 ek JSON_FLOAT ((buf @ [x]) @ sign @ ds) ms es rt 0)"
  proof (cases "sign = []")
    case True
    then show ?thesis using s(4) assms(2) s(1) by (simp, intro feeds_run [THEN back_subst [of "feeds _ _"]]) (auto simp: json_eval)
  next
    case False
    then obtain y where y: "sign = [y]" "y \<in> {CHR ''+'', CHR ''-''}" using s(3) by auto
    have "feeds (conf mem STATE_X1 ek JSON_FLOAT (buf @ [x]) ms es rt 0) [y] (conf mem STATE_X2 ek JSON_FLOAT ((buf @ [x]) @ [y]) ms es rt 0)"
      by (intro feeds_push [OF refl]) (use y s(1) assms(2) in \<open>auto simp: json_eval\<close>)
    moreover have "feeds (conf mem STATE_X2 ek JSON_FLOAT ((buf @ [x]) @ [y]) ms es rt 0) ds
      (conf mem STATE_X3 ek JSON_FLOAT (((buf @ [x]) @ [y]) @ ds) ms es rt 0)"
      by (rule feeds_run) (use s y assms(2) in \<open>auto simp: json_eval\<close>)
    ultimately show ?thesis using feeds_append by (fastforce simp: y(1))
  qed
  ultimately show ?thesis using feeds_append [of _ "[x]"] by (fastforce simp: s(1))
qed

lemma feeds_float:
  assumes "is_float s" "length s < 2 ^ 31" "st \<in> {STATE__V, STATE__A}"
  shows "\<exists>st' \<in> {STATE_R2, STATE_X3}. feeds (conf mem st ek ty [] ms es rt 0) s (conf mem st' ek JSON_FLOAT s ms es rt 0)"
proof -
  obtain i f e where s: "s = i @ f @ e" "is_int i" "f = [] \<and> i \<notin> {''0'', ''-0''} \<or> (\<exists>ds. f = CHR ''.'' # ds \<and> digits ds)"
    "e = [] \<and> f \<noteq> [] \<or> is_exponent e" using assms(1) unfolding is_float_def by blast
  let ?si = "if i \<in> {''0'', ''-0''} then STATE_Z0 else STATE_I0"
  have i: "feeds (conf mem st ek ty [] ms es rt 0) i (conf mem ?si ek JSON_INT i ms es rt 0)"
    using s(1) assms(2,3) by (intro feeds_int s(2)) simp_all
  show ?thesis
  proof (cases "f = []")
    case True
    then have e: "is_exponent e" "?si = STATE_I0" using s(3,4) by auto
    have "feeds (conf mem ?si ek JSON_INT i ms es rt 0) e (conf mem STATE_X3 ek JSON_FLOAT (i @ e) ms es rt 0)"
      using s(1) assms(2) e by (intro feeds_exponent) simp_all
    from feeds_append [OF i this] show ?thesis using s(1) True by auto
  next
    case False
    then obtain ds where ds: "f = CHR ''.'' # ds" "digits ds" using s(3) by auto
    have "feeds (conf mem ?si ek JSON_INT i ms es rt 0) ''.'' (conf mem STATE_R1 ek JSON_FLOAT (i @ ''.'') ms es rt 0)"
      by (rule feeds_action_push [OF refl, where a = STATE_DF, OF _ _ _ _ _ do_plain]) (use s(1) ds assms(2) in \<open>auto simp: json_eval\<close>)
    moreover have "feeds (conf mem STATE_R1 ek JSON_FLOAT (i @ ''.'') ms es rt 0) ds (conf mem STATE_R2 ek JSON_FLOAT ((i @ ''.'') @ ds) ms es rt 0)"
      by (rule feeds_run) (use s(1) ds assms(2) in \<open>auto simp: json_eval\<close>)
    ultimately have f: "feeds (conf mem ?si ek JSON_INT i ms es rt 0) f (conf mem STATE_R2 ek JSON_FLOAT (i @ f) ms es rt 0)"
      using feeds_append [of _ "''.''"] by (fastforce simp: ds(1))
    show ?thesis
    proof (cases "e = []")
      case True
      then show ?thesis using feeds_append [OF i f] s(1) by auto
    next
      case False
      then have "feeds (conf mem STATE_R2 ek JSON_FLOAT (i @ f) ms es rt 0) e (conf mem STATE_X3 ek JSON_FLOAT ((i @ f) @ e) ms es rt 0)"
        using s(1,4) assms(2) by (intro feeds_exponent) auto
      from feeds_append [OF feeds_append [OF i f] this] show ?thesis using s(1) by auto
    qed
  qed
qed

subsection \<open>Strings\<close>

text \<open>The byte sequences that the parser's two tables take for UTF-8.\<close>

fun utf8_valid :: "nat \<Rightarrow> string \<Rightarrow> bool" where
  "utf8_valid u [] \<longleftrightarrow> u = 0"
| "utf8_valid u (ch # s) \<longleftrightarrow>
     (if u > 0 then utf8_continuation_table (of_char ch) = 0 \<and> utf8_valid (u - 1) s
      else utf8_header_table (of_char ch) \<noteq> 0xff \<and> utf8_valid (utf8_header_table (of_char ch)) s)"

lemma string_class:
  assumes "32 \<le> b" "b < 128" "b \<noteq> 34" "b \<noteq> 92"
  shows "character_class ! b \<noteq> C_ERROR" "moves STATE__S (character_class ! b) STATE__S 1"
proof -
  have "\<forall>b \<in> set [32..<128]. b = 34 \<or> b = 92 \<or> character_class ! b \<noteq> C_ERROR \<and> moves STATE__S (character_class ! b) STATE__S 1"
    by (simp add: json_eval)
  moreover have "b \<in> set [32..<128]" unfolding set_upt atLeastLessThan_iff using assms(1,2) by (rule conjI)
  ultimately have "b = 34 \<or> b = 92 \<or> character_class ! b \<noteq> C_ERROR \<and> moves STATE__S (character_class ! b) STATE__S 1" by (rule bspec)
  then show "character_class ! b \<noteq> C_ERROR" "moves STATE__S (character_class ! b) STATE__S 1" using assms(3,4) by simp_all
qed

lemma char_of_literals:
  "char_of (8 :: nat) = CHR 0x08" "char_of (9 :: nat) = CHR 0x09" "char_of (10 :: nat) = CHR 0x0A" "char_of (12 :: nat) = CHR 0x0C"
  "char_of (13 :: nat) = CHR 0x0D" "char_of (34 :: nat) = CHR 0x22" "char_of (92 :: nat) = CHR 0x5C"
  by (simp_all add: char_of_eq_iff)

lemma feeds_plain_char:
  assumes "32 \<le> (of_char ch :: nat)" "(of_char ch :: nat) < 128" "ch \<noteq> CHR 0x22" "ch \<noteq> CHR 0x5C" "length buf + 1 < 2 ^ 31"
  shows "feeds (conf mem STATE__S ek ty buf ms es rt 0) [ch] (conf mem STATE__S ek ty (buf @ [ch]) ms es rt 0)"
proof -
  have "(of_char ch :: nat) \<noteq> 34" "(of_char ch :: nat) \<noteq> 92"
    using assms(3,4) by (auto simp: char_of_literals dest!: arg_cong [where f = "char_of :: nat \<Rightarrow> char"])
  from string_class [OF assms(1,2) this] assms(2,5) show ?thesis
    by (intro feeds_push [OF refl]) (simp_all add: IS_STATE_ACTION_def actions_def)
qed

lemma feeds_multibyte:
  assumes "if u > 0 then utf8_continuation_table (of_char ch) = 0 \<and> u' = u - 1 else utf8_header_table (of_char ch) = u' \<and> 0 < u' \<and> u' \<noteq> 0xff"
    and "length buf + 1 < 2 ^ 31"
  shows "feeds (conf mem STATE__S ek ty buf ms es rt u) [ch] (conf mem STATE__S ek ty (buf @ [ch]) ms es rt u')"
proof (rule feeds_one, rule step_does [where c = C_OTHER and st' = STATE__S and pol = 1])
  fix p0 assume "view p0 = conf mem STATE__S ek ty buf ms es rt u"
  from view_conf(6) [OF this] show "next_class ch p0 = (0, C_OTHER, p0\<lparr>jp_utf8_multibyte_left := u'\<rparr>)"
    using assms(1) by (auto simp: next_class_def Let_def split: if_splits)
next
  show "does (act ch STATE__S 1) ((conf mem STATE__S ek ty buf ms es rt u)\<lparr>jp_utf8_multibyte_left := u'\<rparr>)
    (conf mem STATE__S ek ty (buf @ [ch]) ms es rt u')"
    using goto_push [of STATE__S "conf mem STATE__S ek ty buf ms es rt u'" ch] assms(2) by (simp add: IS_STATE_ACTION_def actions_def)
qed (simp add: json_eval)

text \<open>Escapes.\<close>

lemma feeds_backslash: "feeds (conf mem STATE__S ek ty buf ms es rt 0) [CHR 0x5C] (conf mem STATE_E0 ek ty buf ms es rt 0)"
  by (rule feeds_skip [OF refl]) (simp_all add: json_eval)

lemma feeds_escape:
  assumes "character_class ! of_char ch = c" "(of_char ch :: nat) < 128" "c \<noteq> C_ERROR" "moves STATE_E0 c STATE__S 2"
    and "buffer_push_escape ch = (buffer_push d :: JsonVal json_parser_dom jp_op)" "length buf + 1 < 2 ^ 31"
  shows "feeds (conf mem STATE__S ek ty buf ms es rt 0) [CHR 0x5C, ch] (conf mem STATE__S ek ty (buf @ [d]) ms es rt 0)"
proof (rule feeds_Cons [OF feeds_backslash], rule feeds_one, rule step_ascii [OF _ assms(2,1,3)])
  show "moves (jp_state (conf mem STATE_E0 ek ty buf ms es rt 0)) c STATE__S 2" using assms(4) by simp
  show "does (act ch STATE__S 2) (conf mem STATE_E0 ek ty buf ms es rt 0) (conf mem STATE__S ek ty (buf @ [d]) ms es rt 0)"
    using does_CHK [OF buffer_push_does [of "conf mem STATE_E0 ek ty buf ms es rt 0" d] does_set_state [of STATE__S]] assms(5,6)
    by (simp add: act_def IS_STATE_ACTION_def actions_def)
qed simp

lemma unicode_value_append: "length four = 4 \<Longrightarrow> unicode_value (buf @ four) = unicode_value four"
  by (simp add: unicode_value_def)

lemma act_uc_does:
  assumes "length four = 4" "unicode_value four = Inr uval" "uval < 0x80"
  shows "does act_uc (conf mem st ek ty (buf @ four) ms es rt u) (conf mem STATE__S ek ty (buf @ [char_of uval]) ms es rt u)"
proof (rule does_update [where h = "\<lambda>p. p\<lparr>jp_buffer := buf @ [char_of uval], jp_state := STATE__S\<rparr>"])
  fix p0 assume "room p0" and p0: "view p0 = conf mem st ek ty (buf @ four) ms es rt u"
  then have "length (jp_buffer p0) < jp_buffer_size p0" by (simp add: room_def)
  then show "act_uc p0 = Inr (0, p0\<lparr>jp_buffer := buf @ [char_of uval], jp_state := STATE__S\<rparr>)"
    using assms unicode_value_append [OF assms(1), of buf] view_conf [OF p0]
    by (simp add: act_uc_def CHK_def decode_unicode_char_def buffer_store_def Let_def)
  show "room (p0\<lparr>jp_buffer := buf @ [char_of uval], jp_state := STATE__S\<rparr>)"
    using \<open>room p0\<close> assms(1) view_conf [OF p0] by (auto simp: room_def)
qed auto

lemma feeds_unicode:
  assumes "h1 \<in> set ''01234567''" "h2 \<in> set ''0123456789abcdefABCDEF''" "unicode_value [CHR ''0'', CHR ''0'', h1, h2] = Inr uval" "uval < 0x80"
    and "length buf + 4 < 2 ^ 31"
  shows "feeds (conf mem STATE__S ek JSON_NONE buf ms es rt 0) [CHR 0x5C, CHR ''u'', CHR ''0'', CHR ''0'', h1, h2]
    (conf mem STATE__S ek JSON_NONE (buf @ [char_of uval]) ms es rt 0)"
proof -
  note push = feeds_push [OF refl]
  have "feeds (conf mem STATE_E0 ek JSON_NONE buf ms es rt 0) ''u'' (conf mem STATE_U1 ek JSON_NONE buf ms es rt 0)"
    by (rule feeds_skip [OF refl]) (simp_all add: json_eval)
  moreover have "feeds (conf mem STATE_U1 ek JSON_NONE buf ms es rt 0) ''0'' (conf mem STATE_U2 ek JSON_NONE (buf @ ''0'') ms es rt 0)"
    by (rule push) (use assms(5) in \<open>simp_all add: json_eval\<close>)
  moreover have "feeds (conf mem STATE_U2 ek JSON_NONE (buf @ ''0'') ms es rt 0) ''0''
    (conf mem STATE_U3 ek JSON_NONE ((buf @ ''0'') @ ''0'') ms es rt 0)"
    by (rule push) (use assms(5) in \<open>simp_all add: json_eval\<close>)
  moreover have "feeds (conf mem STATE_U3 ek JSON_NONE ((buf @ ''0'') @ ''0'') ms es rt 0) [h1]
    (conf mem STATE_U4 ek JSON_NONE (((buf @ ''0'') @ ''0'') @ [h1]) ms es rt 0)"
    by (rule push) (use assms(1,5) in \<open>auto simp: json_eval\<close>)
  moreover have "feeds (conf mem STATE_U4 ek JSON_NONE (((buf @ ''0'') @ ''0'') @ [h1]) ms es rt 0) [h2]
    (conf mem STATE__S ek JSON_NONE (buf @ [char_of uval]) ms es rt 0)"
  proof (rule feeds_action_push [OF refl, where a = STATE_UC])
    have "does (do_action STATE_UC) (conf mem STATE_U4 ek JSON_NONE (buf @ [CHR ''0'', CHR ''0'', h1, h2]) ms es rt 0)
      (conf mem (case None of Some s \<Rightarrow> s | None \<Rightarrow> STATE__S) ek JSON_NONE (buf @ [char_of uval]) ms es rt 0)"
      by (rule do_call [OF _ act_uc_does]) (use assms in simp_all)
    then show "does (do_action STATE_UC) (conf mem STATE_U4 ek JSON_NONE ((((buf @ ''0'') @ ''0'') @ [h1]) @ [h2]) ms es rt 0)
      (conf mem STATE__S ek JSON_NONE (buf @ [char_of uval]) ms es rt 0)" by simp
  qed (use assms(2,5) in \<open>auto simp: json_eval\<close>)
  ultimately show ?thesis by (blast intro: feeds_Cons feeds_backslash)
qed

lemma hexdigit_in: "d < 16 \<Longrightarrow> hexdigit d \<in> set ''0123456789abcdefABCDEF''" "d < 2 \<Longrightarrow> hexdigit d \<in> set ''01234567''"
proof -
  have "\<forall>d \<in> {..<16}. hexdigit d \<in> set ''0123456789abcdefABCDEF''" "\<forall>d \<in> {..<2}. hexdigit d \<in> set ''01234567''"
    by (simp_all add: lessThan_nat_numeral lessThan_Suc hexdigit_def char_of_eq_iff)
  then show "d < 16 \<Longrightarrow> hexdigit d \<in> set ''0123456789abcdefABCDEF''" "d < 2 \<Longrightarrow> hexdigit d \<in> set ''01234567''" by blast+
qed

lemma unicode_value_hex: "b < 32 \<Longrightarrow> unicode_value [CHR ''0'', CHR ''0'', hexdigit (b div 16), hexdigit (b mod 16)] = Inr b"
proof -
  have "\<forall>b \<in> {..<32}. unicode_value [CHR ''0'', CHR ''0'', hexdigit (b div 16), hexdigit (b mod 16)] = Inr b"
    by (simp add: lessThan_nat_numeral lessThan_Suc hexdigit_def unicode_value_def hextable_def)
  then show "b < 32 \<Longrightarrow> unicode_value [CHR ''0'', CHR ''0'', hexdigit (b div 16), hexdigit (b mod 16)] = Inr b" by blast
qed

lemma feeds_escape_char:
  assumes "(of_char ch :: nat) < 128" "length buf + 4 < 2 ^ 31"
  shows "feeds (conf mem STATE__S ek JSON_NONE buf ms es rt 0) (escape_char ch) (conf mem STATE__S ek JSON_NONE (buf @ [ch]) ms es rt 0)"
proof -
  define b :: nat where "b = of_char ch"
  have ch: "ch = char_of b" by (simp add: b_def)
  have escape: "feeds (conf mem STATE__S ek JSON_NONE buf ms es rt 0) [CHR 0x5C, x] (conf mem STATE__S ek JSON_NONE (buf @ [y]) ms es rt 0)"
    if "(x, y) \<in> {(CHR ''b'', CHR 0x08), (CHR ''t'', CHR 0x09), (CHR ''n'', CHR 0x0A), (CHR ''f'', CHR 0x0C), (CHR ''r'', CHR 0x0D),
                   (CHR 0x22, CHR 0x22), (CHR 0x5C, CHR 0x5C)}" for x y
    by (rule feeds_escape [OF refl]) (use that assms(2) in \<open>auto simp: json_eval buffer_push_escape_def\<close>)
  have unicode: "feeds (conf mem STATE__S ek JSON_NONE buf ms es rt 0)
      [CHR 0x5C, CHR ''u'', CHR ''0'', CHR ''0'', hexdigit (b div 16), hexdigit (b mod 16)] (conf mem STATE__S ek JSON_NONE (buf @ [char_of b]) ms es rt 0)"
    if "b < 32"
    by (rule feeds_unicode [OF hexdigit_in(2,1) unicode_value_hex]) (use that assms(2) in simp_all)
  have plain: "feeds (conf mem STATE__S ek JSON_NONE buf ms es rt 0) [ch] (conf mem STATE__S ek JSON_NONE (buf @ [ch]) ms es rt 0)"
    if "32 \<le> b" "b \<noteq> 34" "b \<noteq> 92"
    by (rule feeds_plain_char) (use that assms in \<open>auto simp: b_def\<close>)
  consider "b \<in> {8, 9, 10, 12, 13, 34, 92}" | "b < 32" "b \<notin> {8, 9, 10, 12, 13}" | "32 \<le> b" "b \<noteq> 34" "b \<noteq> 92" by force
  then show ?thesis
  proof cases
    case 1
    then show ?thesis by (elim insertE emptyE; simp add: escape_char_def ch character_escape_def char_of_literals escape)
  next
    case 2
    then show ?thesis using unicode by (auto simp: escape_char_def ch character_escape_def)
  next
    case 3
    then have "ch \<noteq> CHR 0x5C" by (auto simp: b_def)
    then have "escape_char ch = [ch]" using 3 unfolding escape_char_def Let_def b_def [symmetric] by (simp add: character_escape_def ch)
    then show ?thesis using plain 3 by simp
  qed
qed

lemma escape_char_high: "(of_char ch :: nat) \<ge> 128 \<Longrightarrow> escape_char ch = [ch]"
  by (auto simp: escape_char_def)

lemma feeds_string:
  assumes "utf8_valid u s" "length buf + length s + 4 < 2 ^ 31"
  shows "feeds (conf mem STATE__S ek JSON_NONE buf ms es rt u) (concat (map escape_char s)) (conf mem STATE__S ek JSON_NONE (buf @ s) ms es rt 0)"
  using assms
proof (induction s arbitrary: u buf)
  case (Cons ch s)
  let ?b = "of_char ch :: nat"
  let ?u = "if u > 0 then u - 1 else utf8_header_table ?b"
  have "feeds (conf mem STATE__S ek JSON_NONE buf ms es rt u) (escape_char ch) (conf mem STATE__S ek JSON_NONE (buf @ [ch]) ms es rt ?u)"
  proof (cases "u = 0 \<and> ?b < 128")
    case True
    then show ?thesis using feeds_escape_char [of ch buf] Cons.prems(2) by (simp add: utf8_header_table_def)
  next
    case False
    then have "?b \<ge> 128" using Cons.prems(1) by (auto simp: utf8_continuation_table_def split: if_splits)
    then show ?thesis using False Cons.prems escape_char_high [of ch]
      by (auto intro!: feeds_multibyte simp: utf8_header_table_def split: if_splits)
  qed
  moreover have "feeds (conf mem STATE__S ek JSON_NONE (buf @ [ch]) ms es rt ?u) (concat (map escape_char s))
    (conf mem STATE__S ek JSON_NONE ((buf @ [ch]) @ s) ms es rt 0)"
    by (rule Cons.IH) (use Cons.prems in \<open>auto split: if_splits\<close>)
  ultimately show ?case using feeds_append by fastforce
qed (auto simp: feeds_Nil)

definition quote :: "string \<Rightarrow> string" where
  "quote s = [CHR 0x22] @ concat (map escape_char s) @ [CHR 0x22]"

text \<open>The strings for which the size of the buffer, at least the length and room for an escape, does not wrap around.\<close>

definition string_ok :: "string \<Rightarrow> bool" where
  "string_ok s \<longleftrightarrow> utf8_valid 0 s \<and> length s + 4 < 2 ^ 31"

text \<open>\<open>string_feeds t s\<close>: the text \<open>t\<close> between two quotes puts \<open>s\<close> into the buffer.\<close>

definition string_feeds :: "string \<Rightarrow> string \<Rightarrow> bool" where
  "string_feeds t s \<longleftrightarrow> (\<forall>mem ek ms es rt.
     feeds (conf mem STATE__S ek JSON_NONE [] ms es rt 0) t (conf mem STATE__S ek JSON_NONE s ms es rt 0))"

lemma string_ok_feeds: "string_ok s \<Longrightarrow> string_feeds (concat (map escape_char s)) s"
  using feeds_string [of 0 s "[]"] by (simp add: string_ok_def string_feeds_def)

lemma feeds_quoted:
  assumes "string_feeds t s" "st \<in> {STATE__V, STATE__A, STATE__O, STATE__K}"
    and "does (do_action STATE_SE) (conf mem STATE__S ek JSON_NONE s ms es rt 0) q"
  shows "feeds (conf mem st ek JSON_NONE [] ms es rt 0) ([CHR 0x22] @ t @ [CHR 0x22]) q"
proof -
  have "feeds (conf mem st ek JSON_NONE [] ms es rt 0) [CHR 0x22] (conf mem STATE__S ek JSON_NONE [] ms es rt 0)"
    by (rule feeds_skip [OF refl]) (use assms(2) in \<open>auto simp: json_eval\<close>)
  moreover have "feeds (conf mem STATE__S ek JSON_NONE [] ms es rt 0) t (conf mem STATE__S ek JSON_NONE s ms es rt 0)"
    using assms(1) by (simp add: string_feeds_def)
  moreover have "feeds (conf mem STATE__S ek JSON_NONE s ms es rt 0) [CHR 0x22] q"
    by (rule feeds_action [OF refl]) (use assms(3) in \<open>auto simp: json_eval\<close>)
  ultimately show ?thesis by (blast intro: feeds_append)
qed

lemma act_se_does:
  assumes "json_parser_dom_callback (dom_conf mem es rt) (if ek then JSON_KEY else JSON_STRING) buf = Inr (0, dom_conf mem es' rt')"
  shows "does act_se (conf mem st ek ty buf ms es rt u) (conf mem (if ek then STATE_CO else STATE_OK) False ty [] ms es' rt' u)"
proof -
  let ?h = "\<lambda>p. p\<lparr>jp_buffer := [], jp_state := (if jp_expecting_key p then STATE_CO else STATE_OK), jp_expecting_key := False\<rparr>"
  have "does (\<lambda>p. Inr (0, ?h p)) (conf mem st ek ty buf ms es' rt' u) (conf mem (if ek then STATE_CO else STATE_OK) False ty [] ms es' rt' u)"
  proof (rule does_update [where h = ?h])
    fix p0 assume p0: "view p0 = conf mem st ek ty buf ms es' rt' u"
    show "view (?h p0) = conf mem (if ek then STATE_CO else STATE_OK) False ty [] ms es' rt' u"
      using p0 view_conf(5) [OF p0] by simp
  qed (auto simp: room_shrink)
  from does_CHK [OF callback_withbuf_does [OF assms] this] show ?thesis
    by (rule does_conf_cong) (simp add: act_se_def)
qed

lemma feeds_key:
  assumes "string_feeds t k" "st \<in> {STATE__O, STATE__K}" "mem (length k + 1)" "blank w"
  shows "feeds (conf mem st True JSON_NONE [] ms (es @ [e]) rt 0) (([CHR 0x22] @ t @ [CHR 0x22]) @ w @ '':'')
    (conf mem STATE__V False JSON_NONE [] ms (es @ [e\<lparr>se_key := Key k\<rparr>]) rt 0)"
proof (rule feeds_append [OF feeds_quoted feeds_append [OF feeds_blank [OF assms(4)] feeds_colon]])
  have "does (do_action STATE_SE) (conf mem STATE__S True JSON_NONE k ms (es @ [e]) rt 0)
    (conf mem (case None of Some s \<Rightarrow> s | None \<Rightarrow> if True then STATE_CO else STATE_OK) False JSON_NONE [] ms (es @ [e\<lparr>se_key := Key k\<rparr>]) rt 0)"
    by (rule do_call [OF _ act_se_does]) (use dom_key [of mem k, OF assms(3)] in simp_all)
  then show "does (do_action STATE_SE) (conf mem STATE__S True JSON_NONE k ms (es @ [e]) rt 0)
    (conf mem STATE_CO False JSON_NONE [] ms (es @ [e\<lparr>se_key := Key k\<rparr>]) rt 0)" by simp
qed (use assms in auto)

lemma feeds_string_value:
  assumes "string_feeds t s" "st \<in> {STATE__V, STATE__A}" "se_key e \<noteq> KeyFreed"
  shows "feeds (conf mem st False JSON_NONE [] ms (es @ [e]) rt 0) ([CHR 0x22] @ t @ [CHR 0x22])
    (conf mem STATE_OK False JSON_NONE [] ms (es @ [add_value e (JString s)]) rt 0)"
proof (rule feeds_quoted)
  have "does (do_action STATE_SE) (conf mem STATE__S False JSON_NONE s ms (es @ [e]) rt 0)
    (conf mem (case None of Some s \<Rightarrow> s | None \<Rightarrow> if False then STATE_CO else STATE_OK) False JSON_NONE [] ms (es @ [add_value e (JString s)]) rt 0)"
    by (rule do_call [OF _ act_se_does])
      (use dom_data [OF _ assms(3), of JSON_STRING mem es rt s] in \<open>simp_all add: data_types_def tree_create_data_def\<close>)
  then show "does (do_action STATE_SE) (conf mem STATE__S False JSON_NONE s ms (es @ [e]) rt 0)
    (conf mem STATE_OK False JSON_NONE [] ms (es @ [add_value e (JString s)]) rt 0)" by simp
qed (use assms in auto)

section \<open>Trees\<close>

text \<open>The calls of the printer for a tree, and the text that it writes.\<close>

fun json_events :: "JsonVal \<Rightarrow> (json_type \<times> string) list"
  and array_events :: "JsonVal list \<Rightarrow> (json_type \<times> string) list"
  and object_events :: "(string \<times> JsonVal) list \<Rightarrow> (json_type \<times> string) list" where
  "json_events (JObject m) = (JSON_OBJECT_BEGIN, []) # object_events m"
| "json_events (JArray vs) = (JSON_ARRAY_BEGIN, []) # array_events vs"
| "json_events JFalse = [(JSON_FALSE, [])]"
| "json_events JTrue = [(JSON_TRUE, [])]"
| "json_events JNull = [(JSON_NULL, [])]"
| "json_events (JInt d) = [(JSON_INT, d)]"
| "json_events (JString d) = [(JSON_STRING, d)]"
| "json_events (JFloat d) = [(JSON_FLOAT, d)]"
| "array_events [] = [(JSON_ARRAY_END, [])]"
| "array_events (v # vs) = json_events v @ array_events vs"
| "object_events [] = [(JSON_OBJECT_END, [])]"
| "object_events ((k, v) # m) = (JSON_KEY, k) # json_events v @ object_events m"

definition print_raw :: "JsonVal \<Rightarrow> string" where
  "print_raw v = pr_out (fold (\<lambda>(type, data). json_print_raw type data) (json_events v) json_print_init)"

fun json_text :: "JsonVal \<Rightarrow> string"
  and array_text :: "bool \<Rightarrow> JsonVal list \<Rightarrow> string"
  and object_text :: "bool \<Rightarrow> (string \<times> JsonVal) list \<Rightarrow> string" where
  "json_text (JObject m) = ''{'' @ object_text True m"
| "json_text (JArray vs) = ''['' @ array_text True vs"
| "json_text JFalse = ''false''"
| "json_text JTrue = ''true''"
| "json_text JNull = ''null''"
| "json_text (JInt d) = d"
| "json_text (JString d) = quote d"
| "json_text (JFloat d) = d"
| "array_text first [] = '']''"
| "array_text first (v # vs) = (if first then [] else '','') @ json_text v @ array_text False vs"
| "object_text first [] = ''}''"
| "object_text first ((k, v) # m) = (if first then [] else '','') @ (quote k @ '':'') @ json_text v @ object_text False m"

text \<open>The trees that a text can denote: numbers and strings have the syntax of the automaton, and the keys of an object
  are sorted, as in the map that holds them.\<close>

fun wf_json :: "JsonVal \<Rightarrow> bool"
  and wf_array :: "JsonVal list \<Rightarrow> bool"
  and wf_object :: "(string \<times> JsonVal) list \<Rightarrow> bool" where
  "wf_json (JObject m) \<longleftrightarrow> sorted_wrt string_less (map fst m) \<and> wf_object m"
| "wf_json (JArray vs) \<longleftrightarrow> wf_array vs"
| "wf_json JFalse \<longleftrightarrow> True"
| "wf_json JTrue \<longleftrightarrow> True"
| "wf_json JNull \<longleftrightarrow> True"
| "wf_json (JInt d) \<longleftrightarrow> is_int d \<and> length d < 2 ^ 31"
| "wf_json (JString d) \<longleftrightarrow> string_ok d"
| "wf_json (JFloat d) \<longleftrightarrow> is_float d \<and> length d < 2 ^ 31"
| "wf_array [] \<longleftrightarrow> True"
| "wf_array (v # vs) \<longleftrightarrow> wf_json v \<and> wf_array vs"
| "wf_object [] \<longleftrightarrow> True"
| "wf_object ((k, v) # m) \<longleftrightarrow> string_ok k \<and> wf_json v \<and> wf_object m"

fun json_depth :: "JsonVal \<Rightarrow> nat"
  and array_depth :: "JsonVal list \<Rightarrow> nat"
  and object_depth :: "(string \<times> JsonVal) list \<Rightarrow> nat" where
  "json_depth (JObject m) = Suc (object_depth m)"
| "json_depth (JArray vs) = Suc (array_depth vs)"
| "json_depth JFalse = 0"
| "json_depth JTrue = 0"
| "json_depth JNull = 0"
| "json_depth (JInt d) = 0"
| "json_depth (JString d) = 0"
| "json_depth (JFloat d) = 0"
| "array_depth [] = 0"
| "array_depth (v # vs) = max (json_depth v) (array_depth vs)"
| "object_depth [] = 0"
| "object_depth ((k, v) # m) = max (json_depth v) (object_depth m)"

subsection \<open>The printer\<close>

definition prints :: "(json_type \<times> string) list \<Rightarrow> (bool \<Rightarrow> string) \<Rightarrow> bool" where
  "prints evs text \<longleftrightarrow> (\<forall>pr. let pr' = fold (\<lambda>(type, data). json_print_raw type data) evs pr in
     pr_out pr' = pr_out pr @ text (pr_enter_object pr \<or> pr_afterkey pr) \<and> \<not> pr_enter_object pr' \<and> \<not> pr_afterkey pr')"

lemma print_string_quote: "print_string s pr = pr\<lparr>pr_out := pr_out pr @ quote s\<rparr>"
proof -
  have "fold (\<lambda>ch. pr_call (escape_char ch)) s pr = pr\<lparr>pr_out := pr_out pr @ concat (map escape_char s)\<rparr>" for pr
    by (induction s arbitrary: pr) (simp_all add: pr_call_def)
  then show ?thesis by (simp add: print_string_def quote_def pr_call_def)
qed

lemmas print_eval = json_print_raw_def json_print_mode_def Let_def pr_call_def print_string_quote

lemma printed:
  "prints (json_events v) (\<lambda>first. (if first then [] else '','') @ json_text v)"
  "(\<forall>pr. \<not> pr_afterkey pr \<longrightarrow> (let pr' = fold (\<lambda>(type, data). json_print_raw type data) (array_events vs) pr in
     pr_out pr' = pr_out pr @ array_text (pr_enter_object pr) vs \<and> \<not> pr_enter_object pr' \<and> \<not> pr_afterkey pr'))"
  "(\<forall>pr. \<not> pr_afterkey pr \<longrightarrow> (let pr' = fold (\<lambda>(type, data). json_print_raw type data) (object_events m) pr in
     pr_out pr' = pr_out pr @ object_text (pr_enter_object pr) m \<and> \<not> pr_enter_object pr' \<and> \<not> pr_afterkey pr'))"
proof (induction v and vs and m rule: json_events_array_events_object_events.induct)
  case (10 v vs)
  show ?case
  proof (intro allI impI)
    fix pr :: json_printer assume "\<not> pr_afterkey pr"
    then show "let pr' = fold (\<lambda>(type, data). json_print_raw type data) (array_events (v # vs)) pr in
      pr_out pr' = pr_out pr @ array_text (pr_enter_object pr) (v # vs) \<and> \<not> pr_enter_object pr' \<and> \<not> pr_afterkey pr'"
      using 10(1) [unfolded prints_def, THEN spec, of pr]
        10(2) [THEN spec, of "fold (\<lambda>(type, data). json_print_raw type data) (json_events v) pr"]
      by (simp add: Let_def)
  qed
next
  case (12 k v m)
  show ?case
  proof (intro allI impI)
    fix pr :: json_printer assume pr: "\<not> pr_afterkey pr"
    let ?pr = "json_print_raw JSON_KEY k pr"
    have key: "pr_afterkey ?pr" "pr_out ?pr = pr_out pr @ (if pr_enter_object pr then [] else '','') @ quote k @ '':''"
      using pr by (simp_all add: print_eval)
    show "let pr' = fold (\<lambda>(type, data). json_print_raw type data) (object_events ((k, v) # m)) pr in
      pr_out pr' = pr_out pr @ object_text (pr_enter_object pr) ((k, v) # m) \<and> \<not> pr_enter_object pr' \<and> \<not> pr_afterkey pr'"
      using 12(1) [unfolded prints_def, THEN spec, of ?pr]
        12(2) [THEN spec, of "fold (\<lambda>(type, data). json_print_raw type data) (json_events v) ?pr"]
      by (simp add: Let_def key)
  qed
next
  case (1 m)
  show ?case unfolding prints_def
  proof
    fix pr :: json_printer
    let ?pr = "json_print_raw JSON_OBJECT_BEGIN [] pr"
    have "pr_enter_object ?pr" "\<not> pr_afterkey ?pr"
      "pr_out ?pr = pr_out pr @ (if pr_enter_object pr \<or> pr_afterkey pr then [] else '','') @ ''{''" by (auto simp: print_eval)
    then show "let pr' = fold (\<lambda>(type, data). json_print_raw type data) (json_events (JObject m)) pr in
      pr_out pr' = pr_out pr @ (if pr_enter_object pr \<or> pr_afterkey pr then [] else '','') @ json_text (JObject m) \<and>
      \<not> pr_enter_object pr' \<and> \<not> pr_afterkey pr'"
      using 1 [THEN spec, of ?pr] by (simp add: Let_def)
  qed
next
  case (2 vs)
  show ?case unfolding prints_def
  proof
    fix pr :: json_printer
    let ?pr = "json_print_raw JSON_ARRAY_BEGIN [] pr"
    have "pr_enter_object ?pr" "\<not> pr_afterkey ?pr"
      "pr_out ?pr = pr_out pr @ (if pr_enter_object pr \<or> pr_afterkey pr then [] else '','') @ ''[''" by (auto simp: print_eval)
    then show "let pr' = fold (\<lambda>(type, data). json_print_raw type data) (json_events (JArray vs)) pr in
      pr_out pr' = pr_out pr @ (if pr_enter_object pr \<or> pr_afterkey pr then [] else '','') @ json_text (JArray vs) \<and>
      \<not> pr_enter_object pr' \<and> \<not> pr_afterkey pr'"
      using 2 [THEN spec, of ?pr] by (simp add: Let_def)
  qed
qed (auto simp: prints_def print_eval)

lemma print_raw_text: "print_raw v = json_text v"
  using printed(1) [of v, unfolded prints_def, THEN spec, of json_print_init]
  by (simp add: print_raw_def json_print_init_def Let_def)

subsection \<open>The parser\<close>

lemma string_less_asym: "string_less x y \<Longrightarrow> \<not> string_less y x \<and> x \<noteq> y"
  by (induction x y rule: string_less.induct) auto

lemma map_insert_last: "\<forall>k' \<in> fst ` set m. string_less k' k \<Longrightarrow> map_insert k v m = m @ [(k, v)]"
  by (induction m) (auto dest: string_less_asym)

text \<open>
  \<open>value_ok mem n s v\<close>: in front of a value, the text \<open>s\<close> with at most \<open>n\<close> nested structures adds the value \<open>v\<close>.
  \<open>array_ok\<close> and \<open>object_ok\<close> are the same for the rest of an array or of an object: the elements so far are in the tree
  or, the last one, pending.
\<close>

definition value_ok :: "(nat \<Rightarrow> bool) \<Rightarrow> nat \<Rightarrow> string \<Rightarrow> JsonVal \<Rightarrow> bool" where
  "value_ok mem n s v \<longleftrightarrow> (\<forall>st ms es e rt. length es + 1 + n \<le> 1024 \<and> st \<in> {STATE__V, STATE__A} \<and>
     se_key e \<noteq> KeyFreed \<and> length ms = length es + 1 \<longrightarrow>
     (\<exists>st' \<in> value_ends. \<exists>ty buf es'. pending ty es' \<and> flushed ty buf es' = es @ [add_value e v] \<and>
        feeds (conf mem st False JSON_NONE [] ms (es @ [e]) rt 0) s (conf mem st' False ty buf ms es' rt 0)))"

definition array_ok :: "(nat \<Rightarrow> bool) \<Rightarrow> nat \<Rightarrow> bool \<Rightarrow> string \<Rightarrow> JsonVal list \<Rightarrow> bool" where
  "array_ok mem n first s vs \<longleftrightarrow> (\<forall>st ty buf ms es es' us rt. length es + 1 + n \<le> 1024 \<and> length ms = length es \<and>
     (es \<noteq> [] \<longrightarrow> se_key (last es) \<noteq> KeyFreed) \<and> pending ty es' \<and> flushed ty buf es' = es @ [\<lparr>se_val = JArray us, se_key = KeyNull\<rparr>] \<and>
     (if first then st = STATE__A \<and> ty = JSON_NONE \<and> buf = [] else st \<in> value_ends) \<longrightarrow>
     feeds (conf mem st False ty buf (ms @ [MODE_ARRAY]) es' rt 0) s
       (conf mem STATE_OK False JSON_NONE [] ms (close_elems es (JArray (us @ vs))) (close_root es (JArray (us @ vs)) rt) 0))"

definition insert_all :: "(string \<times> JsonVal) list \<Rightarrow> (string \<times> JsonVal) list \<Rightarrow> (string \<times> JsonVal) list" where
  "insert_all = fold (\<lambda>(k, v). map_insert k v)"

definition object_ok :: "(nat \<Rightarrow> bool) \<Rightarrow> nat \<Rightarrow> bool \<Rightarrow> string \<Rightarrow> (string \<times> JsonVal) list \<Rightarrow> bool" where
  "object_ok mem n first s m \<longleftrightarrow> (\<forall>st ty buf ms es es' us key rt.
     length es + 1 + n \<le> 1024 \<and> length ms = length es \<and> (es \<noteq> [] \<longrightarrow> se_key (last es) \<noteq> KeyFreed) \<and> pending ty es' \<and>
     flushed ty buf es' = es @ [\<lparr>se_val = JObject us, se_key = key\<rparr>] \<and>
     (if first then st = STATE__O \<and> ty = JSON_NONE \<and> buf = [] else st \<in> value_ends) \<longrightarrow>
     feeds (conf mem st first ty buf (ms @ [MODE_OBJECT]) es' rt 0) s
       (conf mem STATE_OK False JSON_NONE [] ms (close_elems es (JObject (insert_all m us))) (close_root es (JObject (insert_all m us)) rt) 0))"

text \<open>A value that stays in the buffer.\<close>

lemma value_ok_data:
  assumes "ty \<in> data_types" "the (tree_create_data ty buf) = v"
    and "\<And>st ms es rt. st \<in> {STATE__V, STATE__A} \<Longrightarrow>
      \<exists>st' \<in> value_ends. feeds (conf mem st False JSON_NONE [] ms es rt 0) s (conf mem st' False ty buf ms es rt 0)"
  shows "value_ok mem n s v"
  unfolding value_ok_def
proof (intro allI impI, elim conjE)
  fix st rt and ms :: "mode list" and es :: "JsonVal stack_elem list" and e :: "JsonVal stack_elem"
  assume v: "st \<in> {STATE__V, STATE__A}" "se_key e \<noteq> KeyFreed"
  from assms(3) [OF v(1), of ms "es @ [e]" rt] obtain st' where "st' \<in> value_ends"
    "feeds (conf mem st False JSON_NONE [] ms (es @ [e]) rt 0) s (conf mem st' False ty buf ms (es @ [e]) rt 0)" by blast
  moreover have "pending ty (es @ [e])" "flushed ty buf (es @ [e]) = es @ [add_value e v]"
    using assms(1,2) v(2) by (auto simp: pending_def flushed_def data_types_def)
  ultimately show "\<exists>st' \<in> value_ends. \<exists>ty buf es'. pending ty es' \<and> flushed ty buf es' = es @ [add_value e v] \<and>
    feeds (conf mem st False JSON_NONE [] ms (es @ [e]) rt 0) s (conf mem st' False ty buf ms es' rt 0)" by blast
qed

text \<open>A value that is in the tree when it ends.\<close>

lemma value_ok_done:
  assumes "\<And>st ms es e rt. length es + 1 + n \<le> 1024 \<Longrightarrow> length ms = length es + 1 \<Longrightarrow> st \<in> {STATE__V, STATE__A} \<Longrightarrow> se_key e \<noteq> KeyFreed \<Longrightarrow>
     feeds (conf mem st False JSON_NONE [] ms (es @ [e]) rt 0) s (conf mem STATE_OK False JSON_NONE [] ms (es @ [add_value e v]) rt 0)"
  shows "value_ok mem n s v"
  unfolding value_ok_def
proof (intro allI impI, elim conjE)
  fix st rt and ms :: "mode list" and es :: "JsonVal stack_elem list" and e :: "JsonVal stack_elem"
  assume "length es + 1 + n \<le> 1024" "st \<in> {STATE__V, STATE__A}" "se_key e \<noteq> KeyFreed" "length ms = length es + 1"
  from assms [OF this(1,4,2,3), of rt] show "\<exists>st' \<in> value_ends. \<exists>ty buf es'. pending ty es' \<and> flushed ty buf es' = es @ [add_value e v] \<and>
    feeds (conf mem st False JSON_NONE [] ms (es @ [e]) rt 0) s (conf mem st' False ty buf ms es' rt 0)"
    by (intro bexI [of _ STATE_OK] exI [of _ JSON_NONE] exI [of _ "[]"] exI [of _ "es @ [add_value e v]"])
      (simp_all add: pending_def flushed_def value_ends_def)
qed

text \<open>The separator in front of an element or a key: nothing or a comma, and white space around it.\<close>

definition separator :: "bool \<Rightarrow> string \<Rightarrow> string \<Rightarrow> string" where
  "separator first w w' = (if first then [] else w @ '','') @ w'"

lemma feeds_separator:
  assumes "blank w" "blank w'" "pending ty es'"
    and "if first then st = (if m = MODE_OBJECT then STATE__O else STATE__A) \<and> ty = JSON_NONE \<and> buf = [] else st \<in> value_ends"
  shows "feeds (conf mem st (first \<and> m = MODE_OBJECT) ty buf (ms @ [m]) es' rt 0) (separator first w w')
    (conf mem (if first then st else if m = MODE_OBJECT then STATE__K else STATE__V) (m = MODE_OBJECT) JSON_NONE [] (ms @ [m]) (flushed ty buf es') rt 0)"
proof (cases first)
  case True
  then show ?thesis using feeds_blank [OF assms(2), of st] assms(4) by (auto simp: separator_def flushed_def)
next
  case False
  let ?st = "if m = MODE_OBJECT then STATE__K else STATE__V"
  obtain st1 where "st1 \<in> value_ends" "feeds (conf mem st False ty buf (ms @ [m]) es' rt 0) w (conf mem st1 False ty buf (ms @ [m]) es' rt 0)"
    using feeds_blank_end [OF assms(1)] assms(4) False by (metis (full_types))
  moreover note feeds_comma [OF this(1) assms(3), of mem buf ms m rt]
  moreover have "feeds (conf mem ?st (m = MODE_OBJECT) JSON_NONE [] (ms @ [m]) (flushed ty buf es') rt 0) w'
    (conf mem ?st (m = MODE_OBJECT) JSON_NONE [] (ms @ [m]) (flushed ty buf es') rt 0)"
    by (rule feeds_blank [OF assms(2)]) simp
  ultimately have "feeds (conf mem st False ty buf (ms @ [m]) es' rt 0) (w @ '','' @ w')
    (conf mem ?st (m = MODE_OBJECT) JSON_NONE [] (ms @ [m]) (flushed ty buf es') rt 0)" by (intro feeds_append)
  then show ?thesis using False by (simp add: separator_def)
qed

lemma array_step:
  assumes "value_ok mem n s v" "array_ok mem n False t vs" "blank w" "blank w'"
  shows "array_ok mem n first (separator first w w' @ s @ t) (v # vs)"
  unfolding array_ok_def
proof (intro allI impI, elim conjE)
  fix st ty buf us rt and ms :: "mode list" and es es' :: "JsonVal stack_elem list"
  assume depth: "length es + 1 + n \<le> 1024" and ms: "length ms = length es"
    and live: "es \<noteq> [] \<longrightarrow> se_key (last es) \<noteq> KeyFreed"
    and pend: "pending ty es'" "flushed ty buf es' = es @ [\<lparr>se_val = JArray us, se_key = KeyNull\<rparr>]"
    and st: "if first then st = STATE__A \<and> ty = JSON_NONE \<and> buf = [] else st \<in> value_ends"
  let ?e = "\<lparr>se_val = JArray us, se_key = KeyNull\<rparr> :: JsonVal stack_elem" and ?st = "if first then STATE__A else STATE__V"
  have comma: "feeds (conf mem st False ty buf (ms @ [MODE_ARRAY]) es' rt 0) (separator first w w')
    (conf mem ?st False JSON_NONE [] (ms @ [MODE_ARRAY]) (es @ [?e]) rt 0)"
    using feeds_separator [OF assms(3,4) pend(1), of first st MODE_ARRAY buf mem ms rt] st pend(2) by (cases first) auto
  have "length (ms @ [MODE_ARRAY]) = length es + 1" "?st \<in> {STATE__V, STATE__A}" "se_key ?e \<noteq> KeyFreed" using ms by auto
  with assms(1) depth obtain st2 ty2 buf2 es2 where val: "st2 \<in> value_ends" "pending ty2 es2" "flushed ty2 buf2 es2 = es @ [add_value ?e v]"
    "feeds (conf mem ?st False JSON_NONE [] (ms @ [MODE_ARRAY]) (es @ [?e]) rt 0) s (conf mem st2 False ty2 buf2 (ms @ [MODE_ARRAY]) es2 rt 0)"
    unfolding value_ok_def by blast
  have "add_value ?e v = \<lparr>se_val = JArray (us @ [v]), se_key = KeyNull\<rparr>" by (simp add: add_value_def tree_append_def)
  then have "flushed ty2 buf2 es2 = es @ [\<lparr>se_val = JArray (us @ [v]), se_key = KeyNull\<rparr>]" using val(3) by simp
  then have "feeds (conf mem st2 False ty2 buf2 (ms @ [MODE_ARRAY]) es2 rt 0) t
    (conf mem STATE_OK False JSON_NONE [] ms (close_elems es (JArray ((us @ [v]) @ vs))) (close_root es (JArray ((us @ [v]) @ vs)) rt) 0)"
    using assms(2) [unfolded array_ok_def, rule_format, of es ms ty2 es2 buf2 "us @ [v]" st2 rt] depth ms live val(1,2) by simp
  from feeds_append [OF comma feeds_append [OF val(4) this]]
  show "feeds (conf mem st False ty buf (ms @ [MODE_ARRAY]) es' rt 0) (separator first w w' @ s @ t)
    (conf mem STATE_OK False JSON_NONE [] ms (close_elems es (JArray (us @ v # vs))) (close_root es (JArray (us @ v # vs)) rt) 0)"
    by simp
qed

lemma object_step:
  assumes "value_ok mem n s v" "object_ok mem n False t m" "\<forall>n > 0. mem n" "string_feeds r k" "blank w" "blank w'" "blank w1" "blank w2"
  shows "object_ok mem n first (separator first w w' @ (([CHR 0x22] @ r @ [CHR 0x22]) @ w1 @ '':'') @ w2 @ s @ t) ((k, v) # m)"
  unfolding object_ok_def
proof (intro allI impI, elim conjE)
  fix st ty buf us key rt and ms :: "mode list" and es es' :: "JsonVal stack_elem list"
  assume depth: "length es + 1 + n \<le> 1024" and ms: "length ms = length es"
    and live: "es \<noteq> [] \<longrightarrow> se_key (last es) \<noteq> KeyFreed"
    and pend: "pending ty es'" "flushed ty buf es' = es @ [\<lparr>se_val = JObject us, se_key = key\<rparr>]"
    and st: "if first then st = STATE__O \<and> ty = JSON_NONE \<and> buf = [] else st \<in> value_ends"
  let ?e = "\<lparr>se_val = JObject us, se_key = key\<rparr> :: JsonVal stack_elem" and ?st = "if first then STATE__O else STATE__K"
  let ?ek = "\<lparr>se_val = JObject us, se_key = Key k\<rparr> :: JsonVal stack_elem" and ?us = "map_insert k v us"
  have comma: "feeds (conf mem st first ty buf (ms @ [MODE_OBJECT]) es' rt 0) (separator first w w')
    (conf mem ?st True JSON_NONE [] (ms @ [MODE_OBJECT]) (es @ [?e]) rt 0)"
    using feeds_separator [OF assms(5,6) pend(1), of first st MODE_OBJECT buf mem ms rt] st pend(2) by (cases first) auto
  have "feeds (conf mem ?st True JSON_NONE [] (ms @ [MODE_OBJECT]) (es @ [?e]) rt 0) (([CHR 0x22] @ r @ [CHR 0x22]) @ w1 @ '':'')
    (conf mem STATE__V False JSON_NONE [] (ms @ [MODE_OBJECT]) (es @ [?e\<lparr>se_key := Key k\<rparr>]) rt 0)"
    by (rule feeds_key) (use assms in auto)
  then have key: "feeds (conf mem ?st True JSON_NONE [] (ms @ [MODE_OBJECT]) (es @ [?e]) rt 0) (([CHR 0x22] @ r @ [CHR 0x22]) @ w1 @ '':'')
    (conf mem STATE__V False JSON_NONE [] (ms @ [MODE_OBJECT]) (es @ [?ek]) rt 0)" by simp
  have white: "feeds (conf mem STATE__V False JSON_NONE [] (ms @ [MODE_OBJECT]) (es @ [?ek]) rt 0) w2
    (conf mem STATE__V False JSON_NONE [] (ms @ [MODE_OBJECT]) (es @ [?ek]) rt 0)" by (rule feeds_blank [OF assms(8)]) simp
  have "length (ms @ [MODE_OBJECT]) = length es + 1" "STATE__V \<in> {STATE__V, STATE__A}" "se_key ?ek \<noteq> KeyFreed" using ms by auto
  with assms(1) depth obtain st2 ty2 buf2 es2 where val: "st2 \<in> value_ends" "pending ty2 es2" "flushed ty2 buf2 es2 = es @ [add_value ?ek v]"
    "feeds (conf mem STATE__V False JSON_NONE [] (ms @ [MODE_OBJECT]) (es @ [?ek]) rt 0) s (conf mem st2 False ty2 buf2 (ms @ [MODE_OBJECT]) es2 rt 0)"
    unfolding value_ok_def by blast
  have "add_value ?ek v = \<lparr>se_val = JObject ?us, se_key = KeyFreed\<rparr>" by (simp add: add_value_def tree_append_def)
  then have "flushed ty2 buf2 es2 = es @ [\<lparr>se_val = JObject ?us, se_key = KeyFreed\<rparr>]" using val(3) by simp
  then have "feeds (conf mem st2 False ty2 buf2 (ms @ [MODE_OBJECT]) es2 rt 0) t
    (conf mem STATE_OK False JSON_NONE [] ms (close_elems es (JObject (insert_all m ?us))) (close_root es (JObject (insert_all m ?us)) rt) 0)"
    using assms(2) [unfolded object_ok_def, rule_format, of es ms ty2 es2 buf2 ?us KeyFreed st2 rt] depth ms live val(1,2) by simp
  from feeds_append [OF comma feeds_append [OF key feeds_append [OF white feeds_append [OF val(4) this]]]]
  show "feeds (conf mem st first ty buf (ms @ [MODE_OBJECT]) es' rt 0)
      (separator first w w' @ (([CHR 0x22] @ r @ [CHR 0x22]) @ w1 @ '':'') @ w2 @ s @ t)
    (conf mem STATE_OK False JSON_NONE [] ms (close_elems es (JObject (insert_all ((k, v) # m) us)))
      (close_root es (JObject (insert_all ((k, v) # m) us)) rt) 0)"
    by (simp add: insert_all_def)
qed

lemma value_ok_array:
  assumes "array_ok mem n True s vs"
  shows "value_ok mem (Suc n) (''['' @ s) (JArray vs)"
proof (rule value_ok_done)
  fix st rt and ms :: "mode list" and es :: "JsonVal stack_elem list" and e :: "JsonVal stack_elem"
  assume v: "length es + 1 + Suc n \<le> 1024" "length ms = length es + 1" "st \<in> {STATE__V, STATE__A}" "se_key e \<noteq> KeyFreed"
  let ?es = "(es @ [e]) @ [\<lparr>se_val = JArray [], se_key = KeyNull\<rparr>]"
  have "feeds (conf mem st False JSON_NONE [] ms (es @ [e]) rt 0) ''['' (conf mem STATE__A False JSON_NONE [] (ms @ [MODE_ARRAY]) ?es rt 0)"
    using v by (intro feeds_open_array) auto
  moreover have "feeds (conf mem STATE__A False JSON_NONE [] (ms @ [MODE_ARRAY]) ?es rt 0) s
    (conf mem STATE_OK False JSON_NONE [] ms (es @ [add_value e (JArray vs)]) rt 0)"
    using assms [unfolded array_ok_def, rule_format, of "es @ [e]" ms JSON_NONE ?es "[]" "[]" STATE__A rt] v
    by (simp add: pending_def flushed_def close_elems_def close_root_def)
  ultimately show "feeds (conf mem st False JSON_NONE [] ms (es @ [e]) rt 0) (''['' @ s)
    (conf mem STATE_OK False JSON_NONE [] ms (es @ [add_value e (JArray vs)]) rt 0)" by (rule feeds_append)
qed

lemma value_ok_object:
  assumes "object_ok mem n True s m"
  shows "value_ok mem (Suc n) (''{'' @ s) (JObject (insert_all m []))"
proof (rule value_ok_done)
  fix st rt and ms :: "mode list" and es :: "JsonVal stack_elem list" and e :: "JsonVal stack_elem"
  assume v: "length es + 1 + Suc n \<le> 1024" "length ms = length es + 1" "st \<in> {STATE__V, STATE__A}" "se_key e \<noteq> KeyFreed"
  let ?es = "(es @ [e]) @ [\<lparr>se_val = JObject [], se_key = KeyNull\<rparr>]" and ?v = "JObject (insert_all m [])"
  have "feeds (conf mem st False JSON_NONE [] ms (es @ [e]) rt 0) ''{'' (conf mem STATE__O True JSON_NONE [] (ms @ [MODE_OBJECT]) ?es rt 0)"
    using v by (intro feeds_open_object) auto
  moreover have "feeds (conf mem STATE__O True JSON_NONE [] (ms @ [MODE_OBJECT]) ?es rt 0) s
    (conf mem STATE_OK False JSON_NONE [] ms (es @ [add_value e ?v]) rt 0)"
    using assms [unfolded object_ok_def, rule_format, of "es @ [e]" ms JSON_NONE ?es "[]" "[]" KeyNull STATE__O rt] v
    by (simp add: pending_def flushed_def close_elems_def close_root_def)
  ultimately show "feeds (conf mem st False JSON_NONE [] ms (es @ [e]) rt 0) (''{'' @ s)
    (conf mem STATE_OK False JSON_NONE [] ms (es @ [add_value e ?v]) rt 0)" by (rule feeds_append)
qed

lemma array_ok_Nil:
  assumes "blank w"
  shows "array_ok mem n first (w @ '']'') []"
  unfolding array_ok_def
proof (intro allI impI, elim conjE)
  fix st ty buf us rt and ms :: "mode list" and es es' :: "JsonVal stack_elem list"
  assume es: "es \<noteq> [] \<longrightarrow> se_key (last es) \<noteq> KeyFreed" "pending ty es'" "flushed ty buf es' = es @ [\<lparr>se_val = JArray us, se_key = KeyNull\<rparr>]"
    and st: "if first then st = STATE__A \<and> ty = JSON_NONE \<and> buf = [] else st \<in> value_ends"
  obtain st1 where "st1 \<in> insert STATE__A value_ends"
    "feeds (conf mem st False ty buf (ms @ [MODE_ARRAY]) es' rt 0) w (conf mem st1 False ty buf (ms @ [MODE_ARRAY]) es' rt 0)"
    using feeds_blank_close [OF assms, of first st STATE__A] st by (metis (full_types) insert_iff)
  then show "feeds (conf mem st False ty buf (ms @ [MODE_ARRAY]) es' rt 0) (w @ '']'')
    (conf mem STATE_OK False JSON_NONE [] ms (close_elems es (JArray (us @ []))) (close_root es (JArray (us @ [])) rt) 0)"
    using feeds_append feeds_close_array [of st1 ty es' buf es "\<lparr>se_val = JArray us, se_key = KeyNull\<rparr>" mem False ms rt] es by simp
qed

lemma object_ok_Nil:
  assumes "blank w"
  shows "object_ok mem n first (w @ ''}'') []"
  unfolding object_ok_def
proof (intro allI impI, elim conjE)
  fix st ty buf us key rt and ms :: "mode list" and es es' :: "JsonVal stack_elem list"
  assume es: "es \<noteq> [] \<longrightarrow> se_key (last es) \<noteq> KeyFreed" "pending ty es'" "flushed ty buf es' = es @ [\<lparr>se_val = JObject us, se_key = key\<rparr>]"
    and st: "if first then st = STATE__O \<and> ty = JSON_NONE \<and> buf = [] else st \<in> value_ends"
  obtain st1 where "st1 \<in> insert STATE__O value_ends"
    "feeds (conf mem st first ty buf (ms @ [MODE_OBJECT]) es' rt 0) w (conf mem st1 first ty buf (ms @ [MODE_OBJECT]) es' rt 0)"
    using feeds_blank_close [OF assms, of first st STATE__O] st by (metis (full_types) insert_iff)
  then show "feeds (conf mem st first ty buf (ms @ [MODE_OBJECT]) es' rt 0) (w @ ''}'')
    (conf mem STATE_OK False JSON_NONE [] ms (close_elems es (JObject (insert_all [] us))) (close_root es (JObject (insert_all [] us)) rt) 0)"
    using feeds_append feeds_close_object [of st1 ty es' buf es "\<lparr>se_val = JObject us, se_key = key\<rparr>" mem first ms rt] es
    by (simp add: insert_all_def)
qed

text \<open>Constants and numbers.\<close>

lemma value_ok_constant:
  "value_ok mem n ''false'' JFalse" "value_ok mem n ''true'' JTrue" "value_ok mem n ''null'' JNull"
  by (rule value_ok_data [of JSON_FALSE "[]"] value_ok_data [of JSON_TRUE "[]"] value_ok_data [of JSON_NULL "[]"],
      use feeds_constants in \<open>auto simp: data_types_def tree_create_data_def value_ends_def\<close>)+

lemma value_ok_number:
  "is_int d \<Longrightarrow> length d < 2 ^ 31 \<Longrightarrow> value_ok mem n d (JInt d)" "is_float d \<Longrightarrow> length d < 2 ^ 31 \<Longrightarrow> value_ok mem n d (JFloat d)"
proof -
  assume d: "is_int d" "length d < 2 ^ 31"
  show "value_ok mem n d (JInt d)"
  proof (rule value_ok_data [of JSON_INT d])
    fix st ms es rt assume "st \<in> {STATE__V, STATE__A}"
    then show "\<exists>st' \<in> value_ends. feeds (conf mem st False JSON_NONE [] ms es rt 0) d (conf mem st' False JSON_INT d ms es rt 0)"
      using feeds_int [of d st mem False JSON_NONE ms es rt] d by (auto simp: value_ends_def split: if_splits)
  qed (simp_all add: data_types_def tree_create_data_def)
next
  assume d: "is_float d" "length d < 2 ^ 31"
  show "value_ok mem n d (JFloat d)"
  proof (rule value_ok_data [of JSON_FLOAT d])
    fix st ms es rt assume "st \<in> {STATE__V, STATE__A}"
    then show "\<exists>st' \<in> value_ends. feeds (conf mem st False JSON_NONE [] ms es rt 0) d (conf mem st' False JSON_FLOAT d ms es rt 0)"
      using feeds_float [of d st mem False JSON_NONE ms es rt] d by (auto simp: value_ends_def)
  qed (simp_all add: data_types_def tree_create_data_def)
qed

lemma value_ok_string: "string_feeds t s \<Longrightarrow> value_ok mem n ([CHR 0x22] @ t @ [CHR 0x22]) (JString s)"
  by (rule value_ok_done) (use feeds_string_value in blast)

lemma value_ok_mono:
  "n \<le> n' \<Longrightarrow> value_ok mem n s v \<Longrightarrow> value_ok mem n' s v" "n \<le> n' \<Longrightarrow> array_ok mem n first s vs \<Longrightarrow> array_ok mem n' first s vs"
  "n \<le> n' \<Longrightarrow> object_ok mem n first s m \<Longrightarrow> object_ok mem n' first s m"
proof -
  assume n: "n \<le> n'"
  have le: "length es + 1 + n \<le> 1024" if "length es + 1 + n' \<le> 1024" for es :: "JsonVal stack_elem list" using that n by linarith
  show "value_ok mem n s v \<Longrightarrow> value_ok mem n' s v" unfolding value_ok_def using le by blast
  show "array_ok mem n first s vs \<Longrightarrow> array_ok mem n' first s vs" unfolding array_ok_def using n by (intro allI impI, elim conjE) simp
  show "object_ok mem n first s m \<Longrightarrow> object_ok mem n' first s m" unfolding object_ok_def using n by (intro allI impI, elim conjE) simp
qed

text \<open>The text of the printer has no white space and sorted keys.\<close>

lemma insert_all_sorted: "sorted_wrt string_less (map fst (us @ m)) \<Longrightarrow> insert_all m us = us @ m"
proof (induction m arbitrary: us)
  case (Cons kv m)
  obtain k v where kv: "kv = (k, v)" by (cases kv)
  have "map_insert k v us = us @ [(k, v)]" using Cons.prems by (intro map_insert_last) (auto simp: sorted_wrt_append kv)
  then show ?case using Cons.IH [of "us @ [(k, v)]"] Cons.prems by (simp add: insert_all_def kv)
qed (simp add: insert_all_def)

lemma json_text_accepted:
  assumes "\<forall>n > 0. mem n"
  shows "wf_json v \<Longrightarrow> value_ok mem (json_depth v) (json_text v) v"
    "wf_array vs \<Longrightarrow> array_ok mem (array_depth vs) first (array_text first vs) vs"
    "wf_object m \<Longrightarrow> object_ok mem (object_depth m) first (object_text first m) m"
proof (induction v and first vs and first m rule: json_text_array_text_object_text.induct)
  case (1 m)
  then show ?case using value_ok_object [of mem "object_depth m" "object_text True m" m] insert_all_sorted [of "[]" m] by simp
next
  case 2 then show ?case using value_ok_array by simp
next
  case (7 d)
  then show ?case using value_ok_string [OF string_ok_feeds] by (simp add: quote_def)
next
  case (9 first) show ?case using array_ok_Nil [of "[]"] by (simp add: blank_def)
next
  case (10 first v vs)
  let ?n = "max (json_depth v) (array_depth vs)"
  have "value_ok mem ?n (json_text v) v" "array_ok mem ?n False (array_text False vs) vs"
    using 10 by (auto intro: value_ok_mono(1,2) [rotated])
  from array_step [OF this, of "[]" "[]" first] show ?case by (cases first) (simp_all add: separator_def blank_def)
next
  case (11 first) show ?case using object_ok_Nil [of "[]"] by (simp add: blank_def)
next
  case (12 first k v m)
  let ?n = "max (json_depth v) (object_depth m)"
  have "value_ok mem ?n (json_text v) v" "object_ok mem ?n False (object_text False m) m" "string_feeds (concat (map escape_char k)) k"
    using 12 string_ok_feeds by (auto intro: value_ok_mono(1,3) [rotated])
  from object_step [OF this(1,2) assms this(3), of "[]" "[]" "[]" "[]" first] show ?case
    by (cases first) (simp_all add: separator_def blank_def quote_def)
qed (simp_all add: value_ok_constant value_ok_number)

section \<open>Documents\<close>

definition is_structure :: "JsonVal \<Rightarrow> bool" where
  "is_structure v \<longleftrightarrow> (case v of JObject _ \<Rightarrow> True | JArray _ \<Rightarrow> True | _ \<Rightarrow> False)"

lemma feeds_document:
  assumes "\<forall>n > 0. mem n" "blank w" "blank w'"
  shows "array_ok mem n True s vs \<Longrightarrow> n < 1024 \<Longrightarrow>
      feeds (conf mem STATE_GO False JSON_NONE [] [] [] None 0) (w @ (''['' @ s) @ w') (conf mem STATE_OK False JSON_NONE [] [] [] (Some (JArray vs)) 0)"
    and "object_ok mem n True s m \<Longrightarrow> n < 1024 \<Longrightarrow>
      feeds (conf mem STATE_GO False JSON_NONE [] [] [] None 0) (w @ (''{'' @ s) @ w')
        (conf mem STATE_OK False JSON_NONE [] [] [] (Some (JObject (insert_all m []))) 0)"
proof -
  have start: "feeds (conf mem STATE_GO False JSON_NONE [] [] [] None 0) w (conf mem STATE_GO False JSON_NONE [] [] [] None 0)"
    by (rule feeds_blank [OF assms(2)]) simp
  have stop: "feeds (conf mem STATE_OK False JSON_NONE [] [] [] rt 0) w' (conf mem STATE_OK False JSON_NONE [] [] [] rt 0)" for rt
    by (rule feeds_blank [OF assms(3)]) simp
  { assume s: "array_ok mem n True s vs" "n < 1024"
    have "feeds (conf mem STATE_GO False JSON_NONE [] [] [] None 0) ''[''
      (conf mem STATE__A False JSON_NONE [] ([] @ [MODE_ARRAY]) ([] @ [\<lparr>se_val = JArray [], se_key = KeyNull\<rparr>]) None 0)"
      by (rule feeds_open_array) auto
    moreover have "feeds (conf mem STATE__A False JSON_NONE [] ([] @ [MODE_ARRAY]) ([] @ [\<lparr>se_val = JArray [], se_key = KeyNull\<rparr>]) None 0)
      s (conf mem STATE_OK False JSON_NONE [] [] [] (Some (JArray vs)) 0)"
      using s(1) [unfolded array_ok_def, rule_format, of "[]" "[]" JSON_NONE _ "[]" "[]" STATE__A None] s(2)
      by (simp add: pending_def flushed_def close_elems_def close_root_def)
    ultimately show "feeds (conf mem STATE_GO False JSON_NONE [] [] [] None 0) (w @ (''['' @ s) @ w')
      (conf mem STATE_OK False JSON_NONE [] [] [] (Some (JArray vs)) 0)"
      by (intro feeds_append [OF start feeds_append [OF feeds_append stop]]) }
  { assume s: "object_ok mem n True s m" "n < 1024"
    have "feeds (conf mem STATE_GO False JSON_NONE [] [] [] None 0) ''{''
      (conf mem STATE__O True JSON_NONE [] ([] @ [MODE_OBJECT]) ([] @ [\<lparr>se_val = JObject [], se_key = KeyNull\<rparr>]) None 0)"
      by (rule feeds_open_object) auto
    moreover have "feeds (conf mem STATE__O True JSON_NONE [] ([] @ [MODE_OBJECT]) ([] @ [\<lparr>se_val = JObject [], se_key = KeyNull\<rparr>]) None 0)
      s (conf mem STATE_OK False JSON_NONE [] [] [] (Some (JObject (insert_all m []))) 0)"
      using s(1) [unfolded object_ok_def, rule_format, of "[]" "[]" JSON_NONE _ "[]" "[]" KeyNull STATE__O None] s(2)
      by (simp add: pending_def flushed_def close_elems_def close_root_def)
    ultimately show "feeds (conf mem STATE_GO False JSON_NONE [] [] [] None 0) (w @ (''{'' @ s) @ w')
      (conf mem STATE_OK False JSON_NONE [] [] [] (Some (JObject (insert_all m []))) 0)"
      by (intro feeds_append [OF start feeds_append [OF feeds_append stop]]) }
qed

lemma feeds_printed:
  assumes "\<forall>n > 0. mem n" "wf_json v" "is_structure v" "json_depth v \<le> 1024"
  shows "feeds (conf mem STATE_GO False JSON_NONE [] [] [] None 0) (json_text v) (conf mem STATE_OK False JSON_NONE [] [] [] (Some v) 0)"
proof (cases v)
  case (JArray vs)
  then show ?thesis using feeds_document(1) [OF assms(1), of "[]" "[]" "array_depth vs"] json_text_accepted(2) [OF assms(1), of vs True] assms(2,4)
    by (simp add: blank_def)
next
  case (JObject m)
  have "object_ok mem (object_depth m) True (object_text True m) m" "insert_all m [] = m"
    using json_text_accepted(3) [OF assms(1), of m True] insert_all_sorted [of "[]" m] assms(2) JObject by simp_all
  from feeds_document(2) [OF assms(1) _ _ this(1), of "[]" "[]"] this(2) show ?thesis using JObject assms(4) by (simp add: blank_def)
qed (use assms(3) in \<open>simp_all add: is_structure_def\<close>)

lemma JsonParser_new_ok:
  assumes "\<forall>n > 0. mem n"
  shows "\<exists>p. JsonParser_new mem = Inr p \<and> room p \<and> view p = conf mem STATE_GO False JSON_NONE [] [] [] None 0"
proof -
  have "(256 :: nat) \<in> power 2 ` {..31}" "(4096 :: nat) \<in> power 2 ` {..31}"
    by (rule image_eqI [of _ _ 8], simp_all, rule image_eqI [of _ _ 12], simp_all)
  then show ?thesis using assms
    by (simp add: JsonParser_new_def json_parser_dom_init_def json_parser_init_def parser_config_def room_def view_def conf_def dom_conf_def)
qed

text \<open>Cutting the text into pieces makes no difference.\<close>

lemma parser_loop_shift: "parser_loop (i + k) s p = rbind (parser_loop i s p) (\<lambda>(ret, j, p). Inr (ret, j + k, p))"
proof (induction s arbitrary: i p)
  case (Cons c s)
  show ?case
  proof (cases "json_parser_step c p")
    case (Inr rp)
    then show ?thesis using Cons.IH [of "i + 1"] by (cases rp) simp
  qed simp
qed simp

lemma parser_loop_append:
  "parser_loop i (s @ t) p = Inr (0, j, q) \<Longrightarrow> \<exists>p'. parser_loop i s p = Inr (0, i + length s, p') \<and> parser_loop (i + length s) t p' = Inr (0, j, q)"
proof (induction s arbitrary: i p)
  case (Cons c s)
  then show ?case by (fastforce simp: rbind_eq_Inr split: if_splits)
qed simp

lemma parse_chunks_ok:
  "json_parser_string (concat chunks) p = Inr (0, j, q) \<Longrightarrow> parse_chunks chunks (n, p) = Inr (n + length chunks, q)"
proof (induction chunks arbitrary: n p j)
  case (Cons s chunks)
  then obtain p' where p': "parser_loop 0 s p = Inr (0, length s, p')" "parser_loop (length s) (concat chunks) p' = Inr (0, j, q)"
    using parser_loop_append [of 0 s "concat chunks" p j q] by (auto simp: json_parser_string_def)
  from p'(2) parser_loop_shift [of 0 "length s" "concat chunks" p'] obtain j' where "json_parser_string (concat chunks) p' = Inr (0, j', q)"
    by (cases "parser_loop 0 (concat chunks) p'") (auto simp: json_parser_string_def)
  from Cons.IH [OF this, of "n + 1"] show ?case
    using p'(1) by (simp add: parse_chunks_def JsonParser_parse_def json_parser_string_def)
qed (simp add: parse_chunks_def json_parser_string_def)

lemma parse_document:
  assumes "wf_json v" "is_structure v" "json_depth v \<le> 1024" "\<forall>n > 0. mem n"
  shows "\<exists>p q. JsonParser_new mem = Inr p \<and> json_parser_string (print_raw v) p = Inr (0, length (print_raw v), q) \<and> getDom q = Some v"
proof -
  obtain p where p: "JsonParser_new mem = Inr p" "room p" "view p = conf mem STATE_GO False JSON_NONE [] [] [] None 0"
    using JsonParser_new_ok [OF assms(4)] by blast
  from feedsD [OF feeds_printed [OF assms(4,1-3)] p(2,3), of 0] obtain q where
    q: "parser_loop 0 (json_text v) p = Inr (0, length (json_text v), q)" "view q = conf mem STATE_OK False JSON_NONE [] [] [] (Some v) 0"
    by auto
  have "getDom q = Some v" using view_conf(3) [OF q(2)] by (simp add: getDom_def)
  then show ?thesis using p(1) q(1) by (auto simp: json_parser_string_def print_raw_text)
qed

text \<open>C14. What the printer of the bundled library writes, its parser reads back: for every tree whose numbers and strings have
  the syntax that the automaton knows, with at most 1024 nested structures, and for every way to cut the printed text
  into pieces, the parser object accepts all pieces and its document is the tree, as long as memory can be allocated.\<close>

theorem json_roundtrip:
  assumes "wf_json v" "is_structure v" "json_depth v \<le> 1024" "\<forall>n > 0. mem n" "concat chunks = print_raw v"
  shows "\<exists>p q. JsonParser_new mem = Inr p \<and> parse_chunks chunks (0, p) = Inr (length chunks, q) \<and> getDom q = Some v"
  using parse_document [OF assms(1-4)] parse_chunks_ok [of chunks _ _ _ 0] assms(5) by fastforce

theorem json_roundtrip_witness:
  "\<exists>p q. JsonParser_new (\<lambda>_. True) = Inr p \<and>
     parse_chunks [''{'', [CHR 0x22] @ ''a'', [CHR 0x22] @ '':[1,true,-20]}''] (0, p) = Inr (3, q) \<and>
     getDom q = Some (JObject [(''a'', JArray [JInt ''1'', JTrue, JInt ''-20''])])"
proof -
  let ?v = "JObject [(''a'', JArray [JInt ''1'', JTrue, JInt ''-20''])]"
  have "wf_json ?v" by (simp add: string_ok_def utf8_header_table_def is_int_def digits_def Let_def)
  moreover have "print_raw ?v = concat [''{'', [CHR 0x22] @ ''a'', [CHR 0x22] @ '':[1,true,-20]}'']"
    by (simp add: print_raw_text quote_def escape_char_def Let_def)
  ultimately show ?thesis
    using json_roundtrip [of ?v "\<lambda>_. True" "[''{'', [CHR 0x22] @ ''a'', [CHR 0x22] @ '':[1,true,-20]}'']"] by (simp add: is_structure_def numeral_3_eq_3)
qed

text \<open>Reallocating the stack of the tree asks for its number of elements instead of its size in bytes.\<close>

lemma feeds_nested:
  assumes "n < 1024"
  shows "feeds (conf mem STATE_GO False JSON_NONE [] [] [] None 0) (replicate (Suc n) (CHR ''[''))
    (conf mem STATE__A False JSON_NONE [] (replicate (Suc n) MODE_ARRAY) (replicate (Suc n) \<lparr>se_val = JArray [], se_key = KeyNull\<rparr>) None 0)"
  using assms
proof (induction n)
  case 0
  show ?case using feeds_open_array [of STATE_GO "[]" "[]" mem] by simp
next
  case (Suc n)
  have "feeds (conf mem STATE__A False JSON_NONE [] (replicate (Suc n) MODE_ARRAY) (replicate (Suc n) \<lparr>se_val = JArray [], se_key = KeyNull\<rparr>) None 0) ''[''
    (conf mem STATE__A False JSON_NONE [] (replicate (Suc n) MODE_ARRAY @ [MODE_ARRAY])
       (replicate (Suc n) \<lparr>se_val = JArray [], se_key = KeyNull\<rparr> @ [\<lparr>se_val = JArray [], se_key = KeyNull\<rparr>]) None 0)"
    using Suc.prems by (intro feeds_open_array) simp_all
  with Suc show ?case
    using feeds_append [of "conf mem STATE_GO False JSON_NONE [] [] [] None 0" "replicate (Suc n) (CHR ''['')"]
    by (simp only: replicate_append_same [symmetric] replicate_Suc [of "Suc n"]) simp
qed

text \<open>C39. A document with 1025 nested arrays makes the parser write outside its memory: \<open>dom_push\<close> passes the number of elements
  to \<open>realloc\<close> where the number of bytes is expected, so the block shrinks from 24576 to 2048 bytes.\<close>

theorem json_nesting_overflow:
  assumes "\<forall>n > 0. mem n"
  shows "\<exists>p. JsonParser_new mem = Inr p \<and> JsonParser_parse line (replicate 1025 (CHR ''['')) p = Inl OutOfBounds"
proof -
  obtain p where p: "JsonParser_new mem = Inr p" "room p" "view p = conf mem STATE_GO False JSON_NONE [] [] [] None 0"
    using JsonParser_new_ok [OF assms] by blast
  let ?es = "replicate (Suc 1023) \<lparr>se_val = JArray [], se_key = KeyNull\<rparr> :: JsonVal stack_elem list"
  obtain q where q: "parser_loop 0 (replicate (Suc 1023) (CHR ''['')) p = Inr (0, 0 + length (replicate (Suc 1023) (CHR ''['')), q)"
    "view q = conf mem STATE__A False JSON_NONE [] (replicate (Suc 1023) MODE_ARRAY) ?es None 0"
    using feedsD [OF feeds_nested [of 1023 mem] p(2,3), of 0] by auto
  have "length ?es = 1024" by simp
  then have "dom_push v (dom_conf mem ?es None) = Inl OutOfBounds" for v
    using assms unfolding dom_push_def Let_def dom_conf_sel by (simp del: replicate_Suc)
  then have "json_parser_dom_callback (dom_conf mem ?es None) JSON_ARRAY_BEGIN [] = Inl OutOfBounds"
    unfolding json_parser_dom_callback_def dom_conf_sel tree_create_structure_def by (simp del: replicate_Suc)
  then have "json_parser_step (CHR ''['') q = Inl OutOfBounds"
    using view_conf [OF q(2)]
    by (simp add: json_parser_step_def next_class_ascii json_eval CHK_def do_action_def action_descr_def act_ab_def do_callback_def del: replicate_Suc)
  then have "json_parser_string (replicate (Suc 1023) (CHR ''['') @ ''['') p = Inl OutOfBounds"
    unfolding json_parser_string_def parser_loop_continue [OF q(1)] by simp
  moreover have "1025 = Suc (Suc 1023)" by simp
  then have "replicate (Suc 1023) (CHR ''['') @ ''['' = replicate 1025 (CHR ''['')" by (simp only: append_Cons replicate_append_same replicate_Suc)
  ultimately have "json_parser_string (replicate 1025 (CHR ''['')) p = Inl OutOfBounds" by (simp only:)
  then show ?thesis using p(1) by (intro exI [of _ p] conjI) (simp_all only: JsonParser_parse_def rbind_Inl)
qed

theorem json_nesting_overflow_witness:
  "\<exists>p. JsonParser_new (\<lambda>_. True) = Inr p \<and> JsonParser_parse 0 (replicate 1025 (CHR ''['')) p = Inl OutOfBounds"
  by (rule json_nesting_overflow) simp

end
