(* ===== verification/Json_Grammar.thy ===== *)
theory Json_Grammar
  imports Json_Roundtrip
begin

text \<open>
  The texts that the parser of the bundled library accepts, as a reference: concrete syntax trees with the white space
  between the tokens and the raw text of strings, numbers and constants. \<open>jt_text\<close> is the text of a syntax tree and
  \<open>jt_value\<close> the document that it denotes; of several entries of an object with the same key the first one counts.
  \<open>decode_string\<close> is the reference for the contents of strings: UTF-8, the escapes with one letter, and \<open>\u\<close> for the
  characters below 128. The other \<open>\u\<close> escapes, and comments, are not part of the reference.
\<close>

section \<open>Strings\<close>

definition escape_value :: "char \<Rightarrow> char option" where
  "escape_value = map_of [(CHR ''b'', CHR 0x08), (CHR ''t'', CHR 0x09), (CHR ''n'', CHR 0x0A), (CHR ''f'', CHR 0x0C), (CHR ''r'', CHR 0x0D),
     (CHR 0x22, CHR 0x22), (CHR 0x5C, CHR 0x5C), (CHR ''/'', CHR ''/'')]"

text \<open>The digits behind \<open>\u\<close> for a character below 128.\<close>

definition ascii_digits :: "string \<Rightarrow> bool" where
  "ascii_digits t \<longleftrightarrow> 4 \<le> length t \<and> take 2 t = ''00'' \<and> t ! 2 \<in> set ''01234567'' \<and> t ! 3 \<in> set ''0123456789abcdefABCDEF''"

definition hex_digit :: "char \<Rightarrow> nat" where
  "hex_digit c = (let b = of_char c in if b < 58 then b - 48 else if b < 71 then b - 55 else b - 87)"

function decode_string :: "nat \<Rightarrow> string \<Rightarrow> string option" where
  "decode_string u [] = (if u = 0 then Some [] else None)"
| "decode_string u (c # t) =
     (let b = of_char c :: nat in
      if 0 < u then if utf8_continuation_table b = 0 then map_option ((#) c) (decode_string (u - 1) t) else None
      else if 128 \<le> b then
        let l = utf8_header_table b in if 0 < l \<and> l \<noteq> 0xff then map_option ((#) c) (decode_string l t) else None
      else if b < 32 \<or> b = 34 then None
      else if b \<noteq> 92 then map_option ((#) c) (decode_string 0 t)
      else if t = [] then None
      else if hd t = CHR ''u'' then
        if ascii_digits (tl t)
        then map_option ((#) (char_of (16 * hex_digit (t ! 3) + hex_digit (t ! 4)))) (decode_string 0 (drop 5 t)) else None
      else case escape_value (hd t) of None \<Rightarrow> None | Some x \<Rightarrow> map_option ((#) x) (decode_string 0 (tl t)))"
  by pat_completeness auto
termination by (relation "measure (\<lambda>(u, t). length t)") (auto simp: less_Suc_eq_le)

lemma unicode_ascii:
  assumes "h1 \<in> set ''01234567''" "h2 \<in> set ''0123456789abcdefABCDEF''"
  shows "unicode_value [CHR ''0'', CHR ''0'', h1, h2] = Inr (16 * hex_digit h1 + hex_digit h2)" "16 * hex_digit h1 + hex_digit h2 < 128"
proof -
  have "\<forall>h1 \<in> set ''01234567''. \<forall>h2 \<in> set ''0123456789abcdefABCDEF''.
    unicode_value [CHR ''0'', CHR ''0'', h1, h2] = Inr (16 * hex_digit h1 + hex_digit h2) \<and> 16 * hex_digit h1 + hex_digit h2 < 128"
    by (simp add: unicode_value_def hextable_def hex_digit_def Let_def)
  then show "unicode_value [CHR ''0'', CHR ''0'', h1, h2] = Inr (16 * hex_digit h1 + hex_digit h2)" "16 * hex_digit h1 + hex_digit h2 < 128"
    using assms by blast+
qed

lemma feeds_letter_escape:
  assumes "escape_value x = Some y" "length buf + 1 < 2 ^ 31"
  shows "feeds (conf mem STATE__S ek JSON_NONE buf ms es rt 0) [CHR 0x5C, x] (conf mem STATE__S ek JSON_NONE (buf @ [y]) ms es rt 0)"
proof -
  have "(x, y) \<in> {(CHR ''b'', CHR 0x08), (CHR ''t'', CHR 0x09), (CHR ''n'', CHR 0x0A), (CHR ''f'', CHR 0x0C), (CHR ''r'', CHR 0x0D),
     (CHR 0x22, CHR 0x22), (CHR 0x5C, CHR 0x5C), (CHR ''/'', CHR ''/'')}"
    using map_of_SomeD [OF assms(1) [unfolded escape_value_def]] by simp
  then show ?thesis by (intro feeds_escape [OF refl]) (use assms(2) in \<open>auto simp: json_eval buffer_push_escape_def\<close>)
qed

text \<open>The parser decodes strings as the reference does.\<close>

lemma feeds_decode:
  assumes "decode_string u t = Some s" "length buf + length t + 4 < 2 ^ 31"
  shows "feeds (conf mem STATE__S ek JSON_NONE buf ms es rt u) t (conf mem STATE__S ek JSON_NONE (buf @ s) ms es rt 0)"
  using assms
proof (induction "length t" arbitrary: u t buf s rule: less_induct)
  case less
  let ?conf = "\<lambda>buf u. conf mem STATE__S ek JSON_NONE buf ms es rt u"
  show ?case
  proof (cases t)
    case Nil
    then show ?thesis using less.prems(1) by (simp add: feeds_Nil split: if_splits)
  next
    case (Cons c r)
    define b :: nat where "b = of_char c"
    have slash: "c = CHR 0x5C" if "b = 92"
    proof -
      have "c = char_of b" by (simp add: b_def)
      then show ?thesis using that by (simp add: char_of_literals)
    qed
    have rest: ?thesis if "t = t1 @ t2" "t1 \<noteq> []" "s = x # s'" "decode_string u' t2 = Some s'" "feeds (?conf buf u) t1 (?conf (buf @ [x]) u')"
      for t1 t2 x u' s'
    proof -
      have "length t2 < length t" "length (buf @ [x]) + length t2 + 4 < 2 ^ 31" using that(1,2) less.prems(2) by (cases t1; simp)+
      from feeds_append [OF that(5) less.hyps [OF this(1) that(4) this(2)]] show ?thesis using that(1,3) by simp
    qed
    have room: "length buf + 1 < 2 ^ 31" "length buf + 4 < 2 ^ 31" using less.prems(2) by simp_all
    have dec: "decode_string u (c # r) = Some s" using less.prems(1) Cons by simp
    consider (cont) s' where "0 < u" "utf8_continuation_table b = 0" "s = c # s'" "decode_string (u - 1) r = Some s'"
      | (head) s' where "u = 0" "0 < utf8_header_table b" "utf8_header_table b \<noteq> 0xff" "s = c # s'" "decode_string (utf8_header_table b) r = Some s'"
      | (plain) s' where "u = 0" "b < 128" "32 \<le> b" "b \<noteq> 34" "b \<noteq> 92" "s = c # s'" "decode_string 0 r = Some s'"
      | (unicode) s' where "u = 0" "b = 92" "r \<noteq> []" "hd r = CHR ''u''" "ascii_digits (tl r)"
          "s = char_of (16 * hex_digit (r ! 3) + hex_digit (r ! 4)) # s'" "decode_string 0 (drop 5 r) = Some s'"
      | (letter) x s' where "u = 0" "b = 92" "r \<noteq> []" "escape_value (hd r) = Some x" "s = x # s'" "decode_string 0 (tl r) = Some s'"
      using dec unfolding decode_string.simps(2) Let_def b_def [symmetric] by (auto split: if_splits option.splits)
    then show ?thesis
    proof cases
      case cont
      then show ?thesis using feeds_multibyte [of u c "u - 1" buf] room Cons by (intro rest [of "[c]" r c s' "u - 1"]) (auto simp: b_def)
    next
      case head
      then show ?thesis using feeds_multibyte [of 0 c "utf8_header_table b" buf] room Cons
        by (intro rest [of "[c]" r c s' "utf8_header_table b"]) (auto simp: b_def)
    next
      case plain
      have "c \<noteq> CHR 0x22" "c \<noteq> CHR 0x5C" using plain(4,5) by (auto simp: b_def)
      then show ?thesis using feeds_plain_char [of c buf] plain room Cons by (intro rest [of "[c]" r c s' 0]) (auto simp: b_def)
    next
      case unicode
      obtain h1 h2 r' where r: "r = CHR ''u'' # CHR ''0'' # CHR ''0'' # h1 # h2 # r'" and h: "h1 \<in> set ''01234567''" "h2 \<in> set ''0123456789abcdefABCDEF''"
      proof -
        obtain r1 where r1: "r = CHR ''u'' # r1" using unicode(3,4) by (cases r) auto
        have d: "4 \<le> length r1" "take 2 r1 = ''00''" "r1 ! 2 \<in> set ''01234567''" "r1 ! 3 \<in> set ''0123456789abcdefABCDEF''"
          using unicode(5) by (simp_all add: r1 ascii_digits_def)
        then obtain a0 a1 a2 a3 r' where "r1 = a0 # a1 # a2 # a3 # r'" by (auto simp: Suc_le_length_iff numeral_eq_Suc)
        then show thesis using that [of a2 a3 r'] d r1 by auto
      qed
      have "c = CHR 0x5C" by (rule slash [OF unicode(2)])
      then show ?thesis
        using feeds_unicode [OF h unicode_ascii(1) [OF h], of buf] unicode_ascii(2) [OF h] unicode room Cons r
        by (intro rest [of "[CHR 0x5C, CHR ''u'', CHR ''0'', CHR ''0'', h1, h2]" r' _ s' 0]) auto
    next
      case letter
      have "c = CHR 0x5C" by (rule slash [OF letter(2)])
      then show ?thesis using feeds_letter_escape [OF letter(4) room(1)] letter Cons
        by (intro rest [of "[CHR 0x5C, hd r]" "tl r" x s' 0]) auto
    qed
  qed
qed

lemma decode_feeds: "decode_string 0 t = Some s \<Longrightarrow> length t + 4 < 2 ^ 31 \<Longrightarrow> string_feeds t s"
  using feeds_decode [of 0 t s "[]"] by (simp add: string_feeds_def)

section \<open>Syntax trees\<close>

text \<open>
  An element of an array is the white space in front of the comma and behind it, and the value; for the first element
  there is no comma. A member of an object has moreover the raw text of its key and the white space around the colon.
  The last string is the white space in front of the closing bracket.
\<close>

datatype jtext =
    TObject "(string \<times> string \<times> string \<times> string \<times> string \<times> jtext) list" string
  | TArray "(string \<times> string \<times> jtext) list" string
  | TFalse
  | TTrue
  | TNull
  | TInt string
  | TString string
  | TFloat string

fun jt_text :: "jtext \<Rightarrow> string"
  and elems_text :: "bool \<Rightarrow> (string \<times> string \<times> jtext) list \<Rightarrow> string"
  and members_text :: "bool \<Rightarrow> (string \<times> string \<times> string \<times> string \<times> string \<times> jtext) list \<Rightarrow> string" where
  "jt_text (TObject ms w) = ''{'' @ members_text True ms @ w @ ''}''"
| "jt_text (TArray es w) = ''['' @ elems_text True es @ w @ '']''"
| "jt_text TFalse = ''false''"
| "jt_text TTrue = ''true''"
| "jt_text TNull = ''null''"
| "jt_text (TInt d) = d"
| "jt_text (TString t) = [CHR 0x22] @ t @ [CHR 0x22]"
| "jt_text (TFloat d) = d"
| "elems_text first [] = []"
| "elems_text first ((w, w', t) # es) = separator first w w' @ jt_text t @ elems_text False es"
| "members_text first [] = []"
| "members_text first ((w, w', k, w1, w2, t) # ms) =
     separator first w w' @ (([CHR 0x22] @ k @ [CHR 0x22]) @ w1 @ '':'') @ w2 @ jt_text t @ members_text False ms"

fun jt_value :: "jtext \<Rightarrow> JsonVal"
  and elems_value :: "(string \<times> string \<times> jtext) list \<Rightarrow> JsonVal list"
  and members_value :: "(string \<times> string \<times> string \<times> string \<times> string \<times> jtext) list \<Rightarrow> (string \<times> JsonVal) list" where
  "jt_value (TObject ms w) = JObject (insert_all (members_value ms) [])"
| "jt_value (TArray es w) = JArray (elems_value es)"
| "jt_value TFalse = JFalse"
| "jt_value TTrue = JTrue"
| "jt_value TNull = JNull"
| "jt_value (TInt d) = JInt d"
| "jt_value (TString t) = JString (the (decode_string 0 t))"
| "jt_value (TFloat d) = JFloat d"
| "elems_value [] = []"
| "elems_value ((w, w', t) # es) = jt_value t # elems_value es"
| "members_value [] = []"
| "members_value ((w, w', k, w1, w2, t) # ms) = (the (decode_string 0 k), jt_value t) # members_value ms"

text \<open>The syntax: the white space is white, strings can be decoded, numbers are numbers.\<close>

definition raw_ok :: "string \<Rightarrow> bool" where
  "raw_ok t \<longleftrightarrow> decode_string 0 t \<noteq> None \<and> length t + 4 < 2 ^ 31"

fun jt_ok :: "jtext \<Rightarrow> bool"
  and elems_ok :: "(string \<times> string \<times> jtext) list \<Rightarrow> bool"
  and members_ok :: "(string \<times> string \<times> string \<times> string \<times> string \<times> jtext) list \<Rightarrow> bool" where
  "jt_ok (TObject ms w) \<longleftrightarrow> members_ok ms \<and> blank w"
| "jt_ok (TArray es w) \<longleftrightarrow> elems_ok es \<and> blank w"
| "jt_ok TFalse \<longleftrightarrow> True"
| "jt_ok TTrue \<longleftrightarrow> True"
| "jt_ok TNull \<longleftrightarrow> True"
| "jt_ok (TInt d) \<longleftrightarrow> is_int d \<and> length d < 2 ^ 31"
| "jt_ok (TString t) \<longleftrightarrow> raw_ok t"
| "jt_ok (TFloat d) \<longleftrightarrow> is_float d \<and> length d < 2 ^ 31"
| "elems_ok [] \<longleftrightarrow> True"
| "elems_ok ((w, w', t) # es) \<longleftrightarrow> blank w \<and> blank w' \<and> jt_ok t \<and> elems_ok es"
| "members_ok [] \<longleftrightarrow> True"
| "members_ok ((w, w', k, w1, w2, t) # ms) \<longleftrightarrow> blank w \<and> blank w' \<and> raw_ok k \<and> blank w1 \<and> blank w2 \<and> jt_ok t \<and> members_ok ms"

fun jt_depth :: "jtext \<Rightarrow> nat"
  and elems_depth :: "(string \<times> string \<times> jtext) list \<Rightarrow> nat"
  and members_depth :: "(string \<times> string \<times> string \<times> string \<times> string \<times> jtext) list \<Rightarrow> nat" where
  "jt_depth (TObject ms w) = Suc (members_depth ms)"
| "jt_depth (TArray es w) = Suc (elems_depth es)"
| "jt_depth TFalse = 0"
| "jt_depth TTrue = 0"
| "jt_depth TNull = 0"
| "jt_depth (TInt d) = 0"
| "jt_depth (TString t) = 0"
| "jt_depth (TFloat d) = 0"
| "elems_depth [] = 0"
| "elems_depth ((w, w', t) # es) = max (jt_depth t) (elems_depth es)"
| "members_depth [] = 0"
| "members_depth ((w, w', k, w1, w2, t) # ms) = max (jt_depth t) (members_depth ms)"

lemma raw_ok_feeds: "raw_ok t \<Longrightarrow> string_feeds t (the (decode_string 0 t))"
  by (auto simp: raw_ok_def intro: decode_feeds)

lemma jt_accepted:
  assumes "\<forall>n > 0. mem n"
  shows "jt_ok t \<Longrightarrow> value_ok mem (jt_depth t) (jt_text t) (jt_value t)"
    "elems_ok es \<Longrightarrow> blank w \<Longrightarrow> array_ok mem (elems_depth es) first (elems_text first es @ w @ '']'') (elems_value es)"
    "members_ok ms \<Longrightarrow> blank w \<Longrightarrow> object_ok mem (members_depth ms) first (members_text first ms @ w @ ''}'') (members_value ms)"
proof (induction t and first es and first ms arbitrary: and w and w rule: jt_text_elems_text_members_text.induct)
  case (1 ms w)
  then have "members_ok ms" "blank w" by simp_all
  from value_ok_object [OF 1(1) [OF this]] show ?case by simp
next
  case (2 es w) then show ?case using value_ok_array by simp
next
  case (7 t) then show ?case using value_ok_string [OF raw_ok_feeds] by simp
next
  case (9 first) then show ?case using array_ok_Nil [of w] by simp
next
  case (10 first w0 w' t es)
  let ?n = "max (jt_depth t) (elems_depth es)"
  have "value_ok mem ?n (jt_text t) (jt_value t)" "array_ok mem ?n False (elems_text False es @ w @ '']'') (elems_value es)"
    using value_ok_mono(1) [OF _ 10(1)] value_ok_mono(2) [OF _ 10(2)] 10(3,4) by simp_all
  from array_step [OF this, of w0 w' first] show ?case using 10 by simp
next
  case (11 first) then show ?case using object_ok_Nil [of w] by simp
next
  case (12 first w0 w' k w1 w2 t ms)
  let ?n = "max (jt_depth t) (members_depth ms)"
  have "value_ok mem ?n (jt_text t) (jt_value t)" "object_ok mem ?n False (members_text False ms @ w @ ''}'') (members_value ms)"
    "string_feeds k (the (decode_string 0 k))"
    using value_ok_mono(1) [OF _ 12(1)] value_ok_mono(3) [OF _ 12(2)] 12(3,4) raw_ok_feeds by simp_all
  from object_step [OF this(1,2) assms this(3), of w0 w' w1 w2 first] show ?case using 12 by simp
qed (simp_all add: value_ok_constant value_ok_number)

section \<open>Documents\<close>

text \<open>A document: a structure between white space.\<close>

fun is_document :: "jtext \<Rightarrow> bool" where
  "is_document (TObject ms w) \<longleftrightarrow> True"
| "is_document (TArray es w) \<longleftrightarrow> True"
| "is_document _ \<longleftrightarrow> False"

lemma feeds_syntax:
  assumes "\<forall>n > 0. mem n" "blank w" "blank w'" "jt_ok t" "is_document t" "jt_depth t \<le> 1024"
  shows "feeds (conf mem STATE_GO False JSON_NONE [] [] [] None 0) (w @ jt_text t @ w') (conf mem STATE_OK False JSON_NONE [] [] [] (Some (jt_value t)) 0)"
proof (cases t)
  case (TObject ms x)
  then show ?thesis using feeds_document(2) [OF assms(1-3) jt_accepted(3) [OF assms(1), of ms x True]] assms(4,6) by simp
next
  case (TArray es x)
  then show ?thesis using feeds_document(1) [OF assms(1-3) jt_accepted(2) [OF assms(1), of es x True]] assms(4,6) by simp
qed (use assms(5) in simp_all)

lemma parse_syntax:
  assumes "\<forall>n > 0. mem n" "blank w" "blank w'" "jt_ok t" "is_document t" "jt_depth t \<le> 1024"
  shows "\<exists>p q. JsonParser_new mem = Inr p \<and> json_parser_string (w @ jt_text t @ w') p = Inr (0, length (w @ jt_text t @ w'), q) \<and> getDom q = Some (jt_value t)"
proof -
  obtain p where p: "JsonParser_new mem = Inr p" "room p" "view p = conf mem STATE_GO False JSON_NONE [] [] [] None 0"
    using JsonParser_new_ok [OF assms(1)] by blast
  from feedsD [OF feeds_syntax [OF assms] p(2,3), of 0] obtain q where
    q: "parser_loop 0 (w @ jt_text t @ w') p = Inr (0, length (w @ jt_text t @ w'), q)"
      "view q = conf mem STATE_OK False JSON_NONE [] [] [] (Some (jt_value t)) 0"
    by auto
  have "getDom q = Some (jt_value t)" using view_conf(3) [OF q(2)] by (simp add: getDom_def)
  then show ?thesis using p(1) q(1) by (auto simp: json_parser_string_def)
qed

text \<open>C15. The parser accepts JSON: for every syntax tree of an object or an array with correct numbers and strings, at most 1024
  nested structures and any white space between the tokens, and for every way to cut its text into pieces, the parser
  object accepts all pieces and its document is the one that the syntax tree denotes: strings are decoded as in the
  reference, keys may come in any order, and the first of several entries with the same key counts.\<close>

theorem json_accepts:
  assumes "jt_ok t" "is_document t" "jt_depth t \<le> 1024" "blank w" "blank w'" "\<forall>n > 0. mem n" "concat chunks = w @ jt_text t @ w'"
  shows "\<exists>p q. JsonParser_new mem = Inr p \<and> parse_chunks chunks (0, p) = Inr (length chunks, q) \<and> getDom q = Some (jt_value t)"
  using parse_syntax [OF assms(6,4,5,1-3)] parse_chunks_ok [of chunks _ _ _ 0] assms(7) by fastforce

definition example_syntax :: jtext where
  "example_syntax = TObject [([], '' '', ''b'', '' '', '' '', TArray [([], [], TInt ''1''), ('' '', '' '', TNull)] []),
     ([], [CHR 0x0A], [CHR 0x5C] @ ''u0061'', [], [], TTrue), ([], [], ''b'', [], [], TFalse)] '' ''"

theorem json_accepts_witness:
  "\<exists>p q. JsonParser_new (\<lambda>_. True) = Inr p \<and> parse_chunks [jt_text example_syntax] (0, p) = Inr (1, q) \<and>
     getDom q = Some (JObject [(''a'', JTrue), (''b'', JArray [JInt ''1'', JNull])])"
proof -
  have "jt_ok example_syntax"
    by (simp add: example_syntax_def raw_ok_def blank_def is_int_def digits_def ascii_digits_def)
  moreover have "jt_value example_syntax = JObject [(''a'', JTrue), (''b'', JArray [JInt ''1'', JNull])]" by code_simp
  ultimately show ?thesis using json_accepts [of example_syntax "[]" "[]" "\<lambda>_. True" "[jt_text example_syntax]"]
    by (simp add: example_syntax_def blank_def)
qed

end
