(* ===== verification/Build_Plan.thy ===== *)
theory Build_Plan
  imports Graph_Model
begin

text \<open>
  The scheduler of \<open>src/src/build_plan.h\<close> and \<open>src/src/build_plan.cpp\<close>. A plan keeps the
  rules to build (\<open>rules_\<close>), those of them whose inputs are all ready (\<open>readyRules_\<close>) and
  the number of rules handed out by \<open>findWork\<close>. \<open>std::set<Rule*>\<close> is a set of addresses,
  whose \<open>begin()\<close> is the least one.

  The constructor is shown to collect exactly the rules that the targets need
  (\<open>needed_rules\<close>), to hand over the ready ones, and to pass its assertion that a plan that is
  not empty has a starting point. \<open>plan_inv\<close> is the invariant of a plan while rules are running;
  it is kept by \<open>findWork\<close> and \<open>notifyRuleBuilt\<close>.
\<close>

section \<open>Class BuildPlan\<close>

record plan =
  p_rules :: "rid set"
  p_readyRules :: "rid set"
  p_numStarted :: nat

fun addTarget :: "nat \<Rightarrow> graph \<Rightarrow> nid \<Rightarrow> plan \<Rightarrow> plan result" where
  "addTarget 0 g target p = Inl NoFuel"
| "addTarget (Suc k) g target p =
     (if \<not> Node_isDirty g target then Inr p
      else case n_child (g_node g target) of
             None \<Rightarrow> Inr p
           | Some r \<Rightarrow>
               (if r \<in> p_rules p then Inr p
                else assert_that ''rule->isDirty()'' (Rule_isDirty g r)
                       (let p = p\<lparr>p_rules := insert r (p_rules p)\<rparr> in
                        if Rule_ready g r
                        then assert_that ''readyRules_.find(rule) == readyRules_.end()''
                               (r \<notin> p_readyRules p)
                               (Inr (p\<lparr>p_readyRules := insert r (p_readyRules p)\<rparr>))
                        else foldM (addTarget k g) (r_inputs (g_rule g r)) p)))"

definition plan_empty :: plan where
  "plan_empty = \<lparr>p_rules = {}, p_readyRules = {}, p_numStarted = 0\<rparr>"

definition BuildPlan :: "nat \<Rightarrow> graph \<Rightarrow> nid set \<Rightarrow> plan result" where
  "BuildPlan k g targets =
     rbind (foldM (addTarget k g) (sorted_list_of_set targets) plan_empty)
       (\<lambda>p. assert_that ''rules_.empty() || !readyRules_.empty()''
              (p_rules p = {} \<or> p_readyRules p \<noteq> {}) (Inr p))"

definition findWork :: "plan \<Rightarrow> rid option \<times> plan" where
  "findWork p =
     (if p_readyRules p = {} then (None, p)
      else let r = Min (p_readyRules p)
           in (Some r, p\<lparr>p_readyRules := p_readyRules p - {r}, p_numStarted := Suc (p_numStarted p)\<rparr>))"

definition hasWork :: "plan \<Rightarrow> bool" where
  "hasWork p \<longleftrightarrow> p_readyRules p \<noteq> {}"

definition plan_done :: "plan \<Rightarrow> bool" where
  "plan_done p \<longleftrightarrow> p_numStarted p = card (p_rules p)"

definition notifyRuleBuilt :: "graph \<Rightarrow> rid \<Rightarrow> plan \<Rightarrow> plan result" where
  "notifyRuleBuilt g r p =
     assert_that ''readyRules_.find(rule) == readyRules_.end()'' (r \<notin> p_readyRules p)
       (assert_that ''itRule != rules_.end()'' (r \<in> p_rules p)
          (Inr (fold (\<lambda>n. fold (\<lambda>parentRule p.
                    if Rule_ready g parentRule \<and> parentRule \<in> p_rules p
                    then p\<lparr>p_readyRules := insert parentRule (p_readyRules p)\<rparr> else p)
                  (n_parents (g_node g n)))
                (r_outputs (g_rule g r)) p)))"

section \<open>The rules a set of targets needs\<close>

text \<open>
  A dirty, generated node whose rule is not ready wants the inputs of that rule.
  \<open>needed_rules g T\<close> are the rules of the dirty nodes that the targets \<open>T\<close> want, directly or
  not: the abstract specification of the plan.
\<close>

definition wants :: "graph \<Rightarrow> (nid \<times> nid) set" where
  "wants g = {(n, i). Node_isDirty g n \<and>
     (\<exists>r. n_child (g_node g n) = Some r \<and> \<not> Rule_ready g r \<and> i \<in> set (r_inputs (g_rule g r)))}"

definition needed_rules :: "graph \<Rightarrow> nid set \<Rightarrow> rid set" where
  "needed_rules g T = {r. \<exists>t \<in> T. \<exists>n. (t, n) \<in> (wants g)\<^sup>* \<and> Node_isDirty g n \<and> n_child (g_node g n) = Some r}"

text \<open>\<open>planned g R n\<close>: if \<open>n\<close> has to be built, its rule is in \<open>R\<close>.\<close>

definition planned :: "graph \<Rightarrow> rid set \<Rightarrow> nid \<Rightarrow> bool" where
  "planned g R n \<longleftrightarrow> (\<forall>r. Node_isDirty g n \<and> n_child (g_node g n) = Some r \<longrightarrow> r \<in> R)"

definition closed_rules :: "graph \<Rightarrow> rid set \<Rightarrow> rid set \<Rightarrow> bool" where
  "closed_rules g R Q \<longleftrightarrow> (\<forall>r \<in> Q. \<not> Rule_ready g r \<longrightarrow> (\<forall>i \<in> set (r_inputs (g_rule g r)). planned g R i))"

lemma planned_mono: "planned g R n \<Longrightarrow> R \<subseteq> R' \<Longrightarrow> planned g R' n"
  by (auto simp: planned_def)

lemma closed_rules_mono: "closed_rules g R Q \<Longrightarrow> R \<subseteq> R' \<Longrightarrow> closed_rules g R' Q"
  by (auto simp: closed_rules_def intro: planned_mono)

lemma needed_rules_step:
  assumes "Node_isDirty g n" and "n_child (g_node g n) = Some r" and "\<not> Rule_ready g r"
    and "i \<in> set (r_inputs (g_rule g r))"
  shows "needed_rules g {i} \<subseteq> needed_rules g {n}"
proof -
  have "(n, i) \<in> wants g" using assms by (auto simp: wants_def)
  then show ?thesis by (auto simp: needed_rules_def intro: converse_rtrancl_into_rtrancl)
qed

lemma needed_rules_self:
  "Node_isDirty g n \<Longrightarrow> n_child (g_node g n) = Some r \<Longrightarrow> r \<in> needed_rules g {n}"
  by (auto simp: needed_rules_def)

lemma needed_rules_UN: "needed_rules g T = (\<Union>t \<in> T. needed_rules g {t})"
  by (auto simp: needed_rules_def)

lemma wants_planned:
  assumes "closed_rules g R R" and "planned g R n" and "(n, i) \<in> wants g"
  shows "planned g R i"
proof -
  from assms(3) obtain r where r: "Node_isDirty g n" "n_child (g_node g n) = Some r" "\<not> Rule_ready g r"
    "i \<in> set (r_inputs (g_rule g r))" by (auto simp: wants_def)
  then have "r \<in> R" using assms(2) by (simp add: planned_def)
  then show ?thesis using assms(1) r(3,4) by (simp add: closed_rules_def)
qed

lemma needed_rules_least:
  assumes "closed_rules g R R" and "\<forall>t \<in> T. planned g R t"
  shows "needed_rules g T \<subseteq> R"
proof
  fix r assume "r \<in> needed_rules g T"
  then obtain t n where t: "t \<in> T" "(t, n) \<in> (wants g)\<^sup>*" "Node_isDirty g n" "n_child (g_node g n) = Some r"
    by (auto simp: needed_rules_def)
  from t(2,1) assms have "planned g R n"
    by (induction rule: rtrancl_induct) (use wants_planned in blast)+
  then show "r \<in> R" using t(3,4) by (auto simp: planned_def)
qed

section \<open>Correctness of the constructor\<close>

text \<open>What a call of \<open>addTarget\<close> on the nodes \<open>T\<close> does to a plan.\<close>

definition plan_ext :: "graph \<Rightarrow> nid set \<Rightarrow> plan \<Rightarrow> plan \<Rightarrow> bool" where
  "plan_ext g T p p' \<longleftrightarrow>
     p_rules p \<subseteq> p_rules p' \<and> p_rules p' \<subseteq> p_rules p \<union> needed_rules g T \<and>
     p_readyRules p' = {r \<in> p_rules p'. Rule_ready g r} \<and> p_numStarted p' = p_numStarted p \<and>
     closed_rules g (p_rules p') (p_rules p' - p_rules p) \<and> (\<forall>t \<in> T. planned g (p_rules p') t)"

definition ready_inv :: "graph \<Rightarrow> plan \<Rightarrow> bool" where
  "ready_inv g p \<longleftrightarrow> p_readyRules p = {r \<in> p_rules p. Rule_ready g r}"

lemma plan_ext_trans:
  assumes "plan_ext g S p q" and "plan_ext g T q q'"
  shows "plan_ext g (S \<union> T) p q'"
proof -
  have "closed_rules g (p_rules q') (p_rules q - p_rules p)"
    using assms closed_rules_mono unfolding plan_ext_def by blast
  moreover have "closed_rules g (p_rules q') (p_rules q' - p_rules q)"
    using assms(2) by (simp add: plan_ext_def)
  ultimately have "closed_rules g (p_rules q') (p_rules q' - p_rules p)"
    unfolding closed_rules_def by (metis Diff_iff)
  moreover have "needed_rules g (S \<union> T) = needed_rules g S \<union> needed_rules g T"
    by (auto simp: needed_rules_def)
  moreover have "\<forall>t \<in> S \<union> T. planned g (p_rules q') t"
    using assms planned_mono unfolding plan_ext_def by (meson UnE)
  ultimately show ?thesis using assms unfolding plan_ext_def by auto
qed

lemma plan_ext_refl:
  "ready_inv g p \<Longrightarrow> \<forall>t \<in> T. planned g (p_rules p) t \<Longrightarrow> plan_ext g T p p"
  by (auto simp: plan_ext_def ready_inv_def closed_rules_def)

lemma foldM_addTarget:
  assumes "ready_inv g p"
    and "\<And>t q. t \<in> set ts \<Longrightarrow> p_rules p \<subseteq> p_rules q \<Longrightarrow> ready_inv g q \<Longrightarrow>
           \<exists>q'. addTarget k g t q = Inr q' \<and> plan_ext g {t} q q'"
  shows "\<exists>p'. foldM (addTarget k g) ts p = Inr p' \<and> plan_ext g (set ts) p p'"
proof (rule foldM_total)
  show "plan_ext g (set []) p p" by (rule plan_ext_refl [OF assms(1)]) simp
  fix xs x rest q
  assume "ts = xs @ x # rest" and q: "plan_ext g (set xs) p q"
  then obtain q' where "addTarget k g x q = Inr q'" "plan_ext g {x} q q'"
    using assms(2) [of x q] by (auto simp: plan_ext_def ready_inv_def)
  then show "\<exists>q'. addTarget k g x q = Inr q' \<and> plan_ext g (set (xs @ [x])) p q'"
    using plan_ext_trans [OF q, of "{x}" q'] by auto
qed

text \<open>The hypothesis on the states that the code asserts: a dirty node has a dirty rule.\<close>

definition dirty_rules :: "graph \<Rightarrow> bool" where
  "dirty_rules g \<longleftrightarrow>
     (\<forall>n \<in> live g. \<forall>r. n_child (g_node g n) = Some r \<and> Node_isDirty g n \<longrightarrow> Rule_isDirty g r)"

lemma state_ok_dirty_rules: "state_ok g \<Longrightarrow> dirty_rules g"
  by (simp add: state_ok_def dirty_rules_def)

lemma addTarget_correct:
  assumes g: "wf_graph g" "dirty_rules g"
  shows "t \<in> live g \<Longrightarrow> ready_inv g p \<Longrightarrow> card (set (g_rules g) - p_rules p) < k \<Longrightarrow>
           \<exists>p'. addTarget k g t p = Inr p' \<and> plan_ext g {t} p p'"
proof (induction k arbitrary: t p)
  case (Suc k)
  show ?case
  proof (cases "planned g (p_rules p) t")
    case True
    then have "addTarget (Suc k) g t p = Inr p" by (auto simp: planned_def split: option.split)
    then show ?thesis using plan_ext_refl [OF Suc.prems(2), of "{t}"] True by simp
  next
    case False
    then obtain r where r: "Node_isDirty g t" "n_child (g_node g t) = Some r" "r \<notin> p_rules p"
      by (auto simp: planned_def)
    let ?p = "p\<lparr>p_rules := insert r (p_rules p)\<rparr>"
    have dirty: "Rule_isDirty g r" using g(2) r Suc.prems(1) by (auto simp: dirty_rules_def)
    have need: "r \<in> needed_rules g {t}" by (rule needed_rules_self [OF r(1,2)])
    have notready: "r \<notin> p_readyRules p" using Suc.prems(2) r(3) by (simp add: ready_inv_def)
    have rr: "r \<in> set (g_rules g)" using wf_child [OF g(1) Suc.prems(1) r(2)] by blast
    show ?thesis
    proof (cases "Rule_ready g r")
      case True
      let ?q = "?p\<lparr>p_readyRules := insert r (p_readyRules p)\<rparr>"
      have "addTarget (Suc k) g t p = Inr ?q" using True r dirty notready by simp
      moreover have "plan_ext g {t} p ?q"
        using True r need Suc.prems(2) by (auto simp: plan_ext_def ready_inv_def closed_rules_def planned_def)
      ultimately show ?thesis by blast
    next
      case False
      have "card (set (g_rules g) - insert r (p_rules p)) < card (set (g_rules g) - p_rules p)"
        by (rule psubset_card_mono) (use rr r(3) in auto)
      then have card: "card (set (g_rules g) - insert r (p_rules p)) < k" using Suc.prems(3) by simp
      have inv: "ready_inv g ?p" using Suc.prems(2) False by (auto simp: ready_inv_def)
      have "\<exists>q. foldM (addTarget k g) (r_inputs (g_rule g r)) ?p = Inr q \<and>
          plan_ext g (set (r_inputs (g_rule g r))) ?p q"
      proof (rule foldM_addTarget [OF inv])
        fix i q assume i: "i \<in> set (r_inputs (g_rule g r))" and q: "p_rules ?p \<subseteq> p_rules q" "ready_inv g q"
        have "card (set (g_rules g) - p_rules q) \<le> card (set (g_rules g) - insert r (p_rules p))"
          by (rule card_mono) (use q(1) in auto)
        then show "\<exists>q'. addTarget k g i q = Inr q' \<and> plan_ext g {i} q q'"
          using Suc.IH [OF _ q(2)] wf_input [OF g(1) rr i] card by fastforce
      qed
      then obtain q where q: "foldM (addTarget k g) (r_inputs (g_rule g r)) ?p = Inr q"
        "plan_ext g (set (r_inputs (g_rule g r))) ?p q" by blast
      have "addTarget (Suc k) g t p = Inr q" using False r dirty q(1) by simp
      moreover have "plan_ext g {t} p q"
      proof -
        have "needed_rules g (set (r_inputs (g_rule g r))) \<subseteq> needed_rules g {t}"
          using needed_rules_step [OF r(1,2) False] needed_rules_UN by blast
        moreover have "r \<in> p_rules q" "closed_rules g (p_rules q) (p_rules q - p_rules p)"
          using q(2) False by (auto simp: plan_ext_def closed_rules_def)
        ultimately show ?thesis using q(2) r need by (auto simp: plan_ext_def planned_def)
      qed
      ultimately show ?thesis by blast
    qed
  qed
qed simp

lemma addTargets_correct:
  assumes "wf_graph g" and "dirty_rules g" and "T \<subseteq> live g" and "length (g_rules g) < k"
  shows "foldM (addTarget k g) (sorted_list_of_set T) plan_empty
           = Inr \<lparr>p_rules = needed_rules g T, p_readyRules = {r \<in> needed_rules g T. Rule_ready g r}, p_numStarted = 0\<rparr>"
proof -
  have T: "set (sorted_list_of_set T) = T" using assms(3) finite_subset by fastforce
  have inv: "ready_inv g plan_empty" by (simp add: ready_inv_def plan_empty_def)
  have "\<exists>p. foldM (addTarget k g) (sorted_list_of_set T) plan_empty = Inr p \<and>
      plan_ext g (set (sorted_list_of_set T)) plan_empty p"
  proof (rule foldM_addTarget [OF inv])
    fix t q assume "t \<in> set (sorted_list_of_set T)" and q: "ready_inv g q"
    then have "t \<in> live g" using T assms(3) by blast
    moreover have "card (set (g_rules g) - p_rules q) \<le> card (set (g_rules g))" by (rule card_mono) auto
    then have "card (set (g_rules g) - p_rules q) < k" using assms(4) card_length [of "g_rules g"] by linarith
    ultimately show "\<exists>q'. addTarget k g t q = Inr q' \<and> plan_ext g {t} q q'"
      using addTarget_correct [OF assms(1,2) _ q] by blast
  qed
  then obtain p where p: "foldM (addTarget k g) (sorted_list_of_set T) plan_empty = Inr p"
      "plan_ext g T plan_empty p" by (auto simp: T)
  then have "closed_rules g (p_rules p) (p_rules p)" "\<forall>t \<in> T. planned g (p_rules p) t"
    "p_rules p \<subseteq> needed_rules g T"
    by (simp_all add: plan_ext_def plan_empty_def)
  then have "p_rules p = needed_rules g T" using needed_rules_least [of g "p_rules p" T] by blast
  with p show ?thesis by (simp add: plan_ext_def plan_empty_def)
qed

section \<open>A plan has a starting point\<close>

lemma not_ready_input:
  assumes "counters_ok g" and "r \<in> set (g_rules g)" and "\<not> Rule_ready g r"
  shows "\<exists>i \<in> set (r_inputs (g_rule g r)). Node_isDirty g i \<and> n_child (g_node g i) \<noteq> None"
proof -
  have "length (filter (input_ready g) (r_inputs (g_rule g r))) \<noteq> length (r_inputs (g_rule g r))"
    using assms by (auto simp: counters_ok_def counter_ok_def Rule_ready_def)
  then have "\<exists>i \<in> set (r_inputs (g_rule g r)). \<not> input_ready g i"
    using length_filter_less [of _ "r_inputs (g_rule g r)" "input_ready g"] by (metis filter_True)
  then show ?thesis by (auto simp: input_ready_def Node_isSource_def)
qed

lemma ready_input:
  assumes "counters_ok g" and "r \<in> set (g_rules g)" and "Rule_ready g r"
    and "i \<in> set (r_inputs (g_rule g r))"
  shows "input_ready g i"
proof -
  have "length (filter (input_ready g) (r_inputs (g_rule g r))) = length (r_inputs (g_rule g r))"
    using assms(1-3) by (auto simp: counters_ok_def counter_ok_def Rule_ready_def)
  then show ?thesis using assms(4) by (metis length_filter_less less_irrefl)
qed

lemma ready_rule_exists:
  assumes g: "wf_graph g" "acyclic_graph g" "counters_ok g"
    and Q: "Q \<subseteq> set (g_rules g)" "Q \<noteq> {}" and closed: "closed_rules g Q Q"
  shows "\<exists>r \<in> Q. Rule_ready g r"
proof (rule ccontr)
  assume none: "\<not> (\<exists>r \<in> Q. Rule_ready g r)"
  let ?rank = "\<lambda>r. Max (height g ` set (r_outputs (g_rule g r)))"
  have "finite Q" using Q(1) finite_subset by blast
  then have "Max (?rank ` Q) \<in> ?rank ` Q" by (intro Max_in finite_imageI) (use Q(2) in simp)+
  then obtain r where r: "r \<in> Q" "Max (?rank ` Q) = ?rank r" by (rule imageE)
  have rr: "r \<in> set (g_rules g)" using r(1) Q(1) by blast
  obtain i r' where i: "i \<in> set (r_inputs (g_rule g r))" "Node_isDirty g i" "n_child (g_node g i) = Some r'"
    using not_ready_input [OF g(3) rr] none r(1) by blast
  have "planned g Q i" using closed r(1) none i(1) by (simp add: closed_rules_def)
  then have r': "r' \<in> Q" using i(2,3) by (simp add: planned_def)
  have "i \<in> live g" using wf_input [OF g(1) rr i(1)] by blast
  then have out: "i \<in> set (r_outputs (g_rule g r'))" using wf_child [OF g(1) _ i(3)] by blast
  have "height g t < height g i" if "t \<in> set (r_outputs (g_rule g r))" for t
    by (rule height_less [OF g(1,2)]) (use rr i(1) that in \<open>auto simp: dep_edges_def\<close>)
  moreover have "r_outputs (g_rule g r) \<noteq> []" using g(1) rr unfolding wf_graph_def wf_rule_def by blast
  ultimately have "?rank r < height g i" by (subst Max_less_iff) auto
  also have "height g i \<le> ?rank r'" by (rule Max_ge) (use out in auto)
  also have "?rank r' \<le> ?rank r" unfolding r(2) [symmetric] by (rule Max_ge) (use r' \<open>finite Q\<close> in auto)
  finally show False by simp
qed

lemma needed_rules_sub: "wf_graph g \<Longrightarrow> T \<subseteq> live g \<Longrightarrow> needed_rules g T \<subseteq> set (g_rules g)"
proof
  fix r assume g: "wf_graph g" "T \<subseteq> live g" and "r \<in> needed_rules g T"
  then obtain t n where n: "t \<in> T" "(t, n) \<in> (wants g)\<^sup>*" "n_child (g_node g n) = Some r"
    by (auto simp: needed_rules_def)
  from n(2,1) g have "n \<in> live g"
    by (induction rule: rtrancl_induct) (auto simp: wants_def dest: wf_child wf_input)
  then show "r \<in> set (g_rules g)" using wf_child [OF g(1) _ n(3)] by blast
qed

lemma needed_rules_closed: "closed_rules g (needed_rules g T) (needed_rules g T)"
  unfolding closed_rules_def
proof (intro ballI impI)
  fix r i assume "r \<in> needed_rules g T" "\<not> Rule_ready g r" "i \<in> set (r_inputs (g_rule g r))"
  then obtain t n where n: "t \<in> T" "(t, n) \<in> (wants g)\<^sup>*" "(n, i) \<in> wants g"
    by (auto simp: needed_rules_def wants_def)
  then have "(t, i) \<in> (wants g)\<^sup>*" by simp
  then show "planned g (needed_rules g T) i" using n(1) by (auto simp: planned_def needed_rules_def)
qed

lemma BuildPlan_correct:
  assumes "wf_graph g" and "acyclic_graph g" and "counters_ok g" and "dirty_rules g"
    and "T \<subseteq> live g" and "length (g_rules g) < k"
  shows "BuildPlan k g T
           = Inr \<lparr>p_rules = needed_rules g T, p_readyRules = {r \<in> needed_rules g T. Rule_ready g r}, p_numStarted = 0\<rparr>"
proof -
  have "needed_rules g T = {} \<or> (\<exists>r \<in> needed_rules g T. Rule_ready g r)"
    using ready_rule_exists [OF assms(1-3) needed_rules_sub [OF assms(1,5)] _ needed_rules_closed] by blast
  then show ?thesis
    unfolding BuildPlan_def addTargets_correct [OF assms(1,4-6)] by auto
qed

section \<open>The plan while rules are running\<close>

text \<open>
  \<open>plan_inv g p run\<close>: the invariant of a plan while the rules \<open>run\<close> are being built. A rule of
  the plan that is not dirty any more is finished.
\<close>

definition plan_inv :: "graph \<Rightarrow> plan \<Rightarrow> rid set \<Rightarrow> bool" where
  "plan_inv g p run \<longleftrightarrow>
     p_rules p \<subseteq> set (g_rules g) \<and> run \<subseteq> p_rules p \<and>
     (\<forall>r \<in> run. Rule_isDirty g r \<and> Rule_ready g r) \<and>
     p_readyRules p = {r \<in> p_rules p. Rule_isDirty g r \<and> Rule_ready g r} - run \<and>
     p_numStarted p = card {r \<in> p_rules p. \<not> Rule_isDirty g r} + card run \<and>
     closed_rules g (p_rules p) (p_rules p)"

lemma plan_inv_finite: "plan_inv g p run \<Longrightarrow> finite (p_rules p) \<and> finite run \<and> finite (p_readyRules p)"
  unfolding plan_inv_def by (metis (no_types, lifting) List.finite_set finite_subset finite_Diff finite_Collect_conjI mem_Collect_eq subsetI)

lemma needed_rules_dirty: "dirty_rules g \<Longrightarrow> wf_graph g \<Longrightarrow> T \<subseteq> live g \<Longrightarrow> r \<in> needed_rules g T \<Longrightarrow> Rule_isDirty g r"
proof -
  assume g: "dirty_rules g" "wf_graph g" "T \<subseteq> live g" and "r \<in> needed_rules g T"
  then obtain t n where n: "t \<in> T" "(t, n) \<in> (wants g)\<^sup>*" "Node_isDirty g n" "n_child (g_node g n) = Some r"
    by (auto simp: needed_rules_def)
  from n(2,1) g have "n \<in> live g"
    by (induction rule: rtrancl_induct) (auto simp: wants_def dest: wf_child wf_input)
  then show ?thesis using g(1) n(3,4) by (auto simp: dirty_rules_def)
qed

lemma plan_inv_initial:
  assumes "wf_graph g" and "dirty_rules g" and "T \<subseteq> live g"
  shows "plan_inv g \<lparr>p_rules = needed_rules g T, p_readyRules = {r \<in> needed_rules g T. Rule_ready g r}, p_numStarted = 0\<rparr> {}"
proof -
  have "card {r \<in> needed_rules g T. \<not> Rule_isDirty g r} = 0"
    using needed_rules_dirty [OF assms(2,1,3)] by (metis (mono_tags, lifting) card.empty empty_Collect_eq)
  then show ?thesis
    using needed_rules_sub [OF assms(1,3)] needed_rules_closed needed_rules_dirty [OF assms(2,1,3)]
    unfolding plan_inv_def by auto
qed

lemma findWork_inv:
  assumes "plan_inv g p run" and "hasWork p"
  obtains r p' where "findWork p = (Some r, p')" and "r \<in> p_readyRules p" and "r \<notin> run"
    and "p_rules p' = p_rules p" and "plan_inv g p' (insert r run)"
proof
  let ?r = "Min (p_readyRules p)"
  have fin: "finite (p_rules p)" "finite run" "finite (p_readyRules p)" using plan_inv_finite [OF assms(1)] by auto
  have r: "?r \<in> p_readyRules p" using assms(2) fin(3) by (simp add: hasWork_def)
  then show "?r \<in> p_readyRules p" .
  show nr: "?r \<notin> run" using r assms(1) unfolding plan_inv_def by blast
  let ?p = "p\<lparr>p_readyRules := p_readyRules p - {?r}, p_numStarted := Suc (p_numStarted p)\<rparr>"
  show "findWork p = (Some ?r, ?p)" using assms(2) by (simp add: findWork_def hasWork_def Let_def)
  show "p_rules ?p = p_rules p" by simp
  show "plan_inv g ?p (insert ?r run)"
    using assms(1) r nr fin(2) unfolding plan_inv_def by auto
qed

lemma findWork_none: "findWork p = (None, p') \<longleftrightarrow> \<not> hasWork p \<and> p' = p"
  by (auto simp: findWork_def hasWork_def Let_def)

text \<open>When nothing runs and the plan is not done, a rule is ready: the build cannot get stuck.\<close>

lemma plan_not_stuck:
  assumes "wf_graph g" and "acyclic_graph g" and "counters_ok g" and "dirty_rules g"
    and "plan_inv g p {}" and "\<not> plan_done p"
  shows "hasWork p"
proof -
  let ?Q = "{r \<in> p_rules p. Rule_isDirty g r}"
  have fin: "finite (p_rules p)" using plan_inv_finite [OF assms(5)] by blast
  have "?Q \<noteq> {}"
  proof
    assume "?Q = {}"
    then have "{r \<in> p_rules p. \<not> Rule_isDirty g r} = p_rules p" by blast
    then show False using assms(5,6) by (simp add: plan_inv_def plan_done_def)
  qed
  moreover have sub: "?Q \<subseteq> set (g_rules g)" using assms(5) unfolding plan_inv_def by blast
  moreover have "closed_rules g ?Q ?Q"
    unfolding closed_rules_def
  proof (intro ballI impI)
    fix r i assume r: "r \<in> ?Q" "\<not> Rule_ready g r" "i \<in> set (r_inputs (g_rule g r))"
    then have "planned g (p_rules p) i" using assms(5) unfolding plan_inv_def closed_rules_def by blast
    moreover have "i \<in> live g" using wf_input [OF assms(1) _ r(3)] r(1) sub by blast
    ultimately show "planned g ?Q i" using assms(4) by (simp add: planned_def dirty_rules_def)
  qed
  ultimately obtain r where "r \<in> ?Q" "Rule_ready g r" using ready_rule_exists [OF assms(1-3)] by blast
  then show ?thesis using assms(5) unfolding plan_inv_def hasWork_def by blast
qed

lemma notify_loop:
  "p_rules (fold (\<lambda>q p. if Rule_ready g q \<and> q \<in> p_rules p then p\<lparr>p_readyRules := insert q (p_readyRules p)\<rparr> else p) qs p) = p_rules p"
  "p_numStarted (fold (\<lambda>q p. if Rule_ready g q \<and> q \<in> p_rules p then p\<lparr>p_readyRules := insert q (p_readyRules p)\<rparr> else p) qs p) = p_numStarted p"
  "p_readyRules (fold (\<lambda>q p. if Rule_ready g q \<and> q \<in> p_rules p then p\<lparr>p_readyRules := insert q (p_readyRules p)\<rparr> else p) qs p)
     = p_readyRules p \<union> {q \<in> set qs. Rule_ready g q \<and> q \<in> p_rules p}"
  by (induction qs arbitrary: p) auto

text \<open>The effect of \<open>notifyRuleBuilt\<close>: the ready consumers of the rule that are in the plan.\<close>

lemma notifyRuleBuilt_eq:
  assumes "r \<in> p_rules p" and "r \<notin> p_readyRules p"
  shows "notifyRuleBuilt g r p = Inr (p\<lparr>p_readyRules := p_readyRules p \<union>
           {q \<in> p_rules p. Rule_ready g q \<and> (\<exists>n \<in> set (r_outputs (g_rule g r)). q \<in> set (n_parents (g_node g n)))}\<rparr>)"
proof -
  have "fold (\<lambda>n. fold (\<lambda>q p. if Rule_ready g q \<and> q \<in> p_rules p then p\<lparr>p_readyRules := insert q (p_readyRules p)\<rparr> else p)
            (n_parents (g_node g n))) ns p
      = p\<lparr>p_readyRules := p_readyRules p \<union>
           {q \<in> p_rules p. Rule_ready g q \<and> (\<exists>n \<in> set ns. q \<in> set (n_parents (g_node g n)))}\<rparr>" for ns
    by (induction ns arbitrary: p) (auto simp: notify_loop intro!: plan.equality)
  then show ?thesis using assms by (simp add: notifyRuleBuilt_def)
qed

section \<open>Properties\<close>

text \<open>The chain after its source has changed: everything is dirty, the first rule is ready.\<close>

definition dirty_chain :: graph where
  "dirty_chain = mark {1, 2, 3} {1, 2} {(2, 2)} chain_graph"

lemma dirty_chain_wf: "wf_graph dirty_chain" "acyclic_graph dirty_chain"
  by (simp_all add: dirty_chain_def chain_wf chain_acyclic)

lemma dirty_chain_ok:
  "counters_ok dirty_chain" "state_ok dirty_chain" "live dirty_chain = {1, 2, 3}" "length (g_rules dirty_chain) = 2"
  by (auto simp: dirty_chain_def counters_ok_def counter_ok_def input_ready_def state_ok_def Rule_isDirty_def
      chain_defs live_def Node_isSource_def Node_isDirty_def)

text \<open>C17. On a consistent graph without cycles the constructor of \<open>BuildPlan\<close> returns, passes
  its three assertions, and the plan holds exactly the rules that the targets need, of which the
  ready ones can be started at once. The number of rules bounds the recursion.\<close>

theorem BuildPlan_needed_rules:
  assumes "wf_graph g" and "acyclic_graph g" and "counters_ok g" and "state_ok g"
    and "T \<subseteq> live g" and "length (g_rules g) < k"
  shows "BuildPlan k g T
           = Inr \<lparr>p_rules = needed_rules g T, p_readyRules = {r \<in> needed_rules g T. Rule_ready g r}, p_numStarted = 0\<rparr>"
  by (rule BuildPlan_correct [OF assms(1-3) state_ok_dirty_rules [OF assms(4)] assms(5,6)])

theorem BuildPlan_needed_rules_witness:
  "BuildPlan 3 dirty_chain {3} = Inr \<lparr>p_rules = needed_rules dirty_chain {3},
     p_readyRules = {r \<in> needed_rules dirty_chain {3}. Rule_ready dirty_chain r}, p_numStarted = 0\<rparr>"
  by (rule BuildPlan_needed_rules [OF dirty_chain_wf dirty_chain_ok(1,2)]) (simp_all add: dirty_chain_ok)

lemma dirty_chain_facts:
  "Rule_isDirty dirty_chain 1" "Rule_isDirty dirty_chain 2" "Rule_ready dirty_chain 1" "\<not> Rule_ready dirty_chain 2"
  "r_inputs (g_rule dirty_chain 2) = [2]" "n_child (g_node dirty_chain 2) = Some 1" "g_rules dirty_chain = [1, 2]"
  by (auto simp: dirty_chain_def Rule_isDirty_def Rule_ready_def chain_defs mark_def)

lemma dirty_chain_plan: "plan_inv dirty_chain \<lparr>p_rules = {1, 2}, p_readyRules = {1}, p_numStarted = 0\<rparr> {}"
proof -
  have "{r \<in> {1, 2}. \<not> Rule_isDirty dirty_chain r} = {}"
    "{r \<in> {1, 2}. Rule_isDirty dirty_chain r \<and> Rule_ready dirty_chain r} = {1}"
    using dirty_chain_facts by auto
  then show ?thesis using dirty_chain_facts
    by (auto simp: plan_inv_def closed_rules_def planned_def)
qed

text \<open>As long as the plan is not done and nothing is running, \<open>findWork\<close> returns a rule of the
  plan that is dirty and whose inputs are all ready, so a build can always continue; the
  invariant of the plan is kept.\<close>

lemma findWork_progress:
  assumes "wf_graph g" and "acyclic_graph g" and "counters_ok g" and "state_ok g"
    and "plan_inv g p {}" and "\<not> plan_done p"
  shows "\<exists>r p'. findWork p = (Some r, p') \<and> r \<in> p_rules p \<and> Rule_isDirty g r \<and>
           (\<forall>i \<in> set (r_inputs (g_rule g r)). input_ready g i) \<and> plan_inv g p' {r}"
proof -
  have "hasWork p" by (rule plan_not_stuck [OF assms(1-3) state_ok_dirty_rules [OF assms(4)] assms(5,6)])
  from findWork_inv [OF assms(5) this] obtain r p' where r: "findWork p = (Some r, p')" "r \<in> p_readyRules p"
    "plan_inv g p' (insert r {})" by metis
  have "r \<in> p_rules p" "Rule_isDirty g r" "Rule_ready g r" "r \<in> set (g_rules g)"
    using assms(5) r(2) unfolding plan_inv_def by auto
  then show ?thesis using r ready_input [OF assms(3)] by auto
qed

lemma findWork_progress_example:
  "\<exists>r p'. findWork \<lparr>p_rules = {1, 2}, p_readyRules = {1}, p_numStarted = 0\<rparr> = (Some r, p') \<and> plan_inv dirty_chain p' {r}"
  using findWork_progress [OF dirty_chain_wf dirty_chain_ok(1,2) dirty_chain_plan] by (auto simp: plan_done_def)

end
