(* ===== verification/Process_Manager.thy ===== *)
theory Process_Manager
  imports Graph_Model "HOL-Library.Multiset"
begin

text \<open>
  Sub-processes: \<open>src/src/posix_subprocess.cpp\<close> and \<open>src/src/posix_subprocess_manager.cpp\<close>. The
  manager starts a process per command, polls the pipes of all running processes, and hands out the
  finished ones.

  What the operating system does is an argument: the descriptors that \<open>pipe\<close> returns or their errors,
  the descriptors that \<open>poll\<close> reports as ready with the outcome of reading them, and the status of
  \<open>waitpid\<close>. A process is identified by its command id instead of its address, and ids do not wrap around (the code's
  \<open>unsigned int\<close> does after \<open>2^32\<close> commands of one build, which the maps keyed by addresses do not notice). The child's side of
  \<open>fork\<close> works on its table of descriptors.

  The locale \<open>process_pool\<close> is the interface the builder relies on: commands go in, and every command
  comes out exactly once, with the rule it was started for.
\<close>

section \<open>Class PosixSubProcess\<close>

datatype SubProcessExitStatus = EXIT_UNKNOWN | EXIT_SUCCEEDED | EXIT_INTERRUPTED | EXIT_FAILED

record process =
  ps_id :: nat
  ps_command :: string
  ps_workingDirectory :: string
  ps_stdoutFd :: int
  ps_stderrFd :: int
  ps_pid :: int
  ps_status :: SubProcessExitStatus

definition PosixSubProcess :: "string \<Rightarrow> string \<Rightarrow> nat \<Rightarrow> process" where
  "PosixSubProcess command workingDirectory i =
     \<lparr>ps_id = i, ps_command = command, ps_workingDirectory = workingDirectory,
      ps_stdoutFd = -1, ps_stderrFd = -1, ps_pid = -1, ps_status = EXIT_UNKNOWN\<rparr>"

definition toString :: "SubProcessExitStatus \<Rightarrow> string" where
  "toString v = (case v of EXIT_UNKNOWN \<Rightarrow> ''UNKNOWN'' | EXIT_SUCCEEDED \<Rightarrow> ''SUCCEEDED''
     | EXIT_INTERRUPTED \<Rightarrow> ''INTERRUPTED'' | EXIT_FAILED \<Rightarrow> ''FAILED'')"

text \<open>What \<open>pipe\<close>, called twice, and \<open>fork\<close> return: an error, or the process id of the child and the
  ends of the two pipes that the parent reads.\<close>

datatype pipes = PipeFails int | ForkFails int | Forked int int int

definition start :: "pipes \<Rightarrow> process \<Rightarrow> process result" where
  "start os p =
     (case os of
        PipeFails errno \<Rightarrow> throw_error errno ''Failed to open pipe''
      | ForkFails errno \<Rightarrow> throw_error errno ''Failed to fork''
      | Forked pid stdout stderr \<Rightarrow>
          Inr (p\<lparr>ps_stdoutFd := stdout, ps_stderrFd := stderr, ps_pid := pid\<rparr>))"

text \<open>The process id to which \<open>SIGINT\<close> is sent.\<close>

definition interrupt_process :: "process \<Rightarrow> int result" where
  "interrupt_process p = assert_that ''pid_ >= 0'' (0 \<le> ps_pid p) (Inr (ps_pid p))"

definition completed :: "process \<Rightarrow> bool" where
  "completed p \<longleftrightarrow> ps_stdoutFd p = -1 \<and> ps_stderrFd p = -1"

text \<open>The outcome of \<open>read\<close> on a pipe, and of \<open>waitpid\<close>.\<close>

datatype read_event = Data string | is_ReadError: ReadError int | Eof

datatype wait_status = is_WaitError: WaitError int | Exited int | Signaled int | OtherStatus

definition onFdReady :: "read_event \<Rightarrow> bool \<Rightarrow> process \<Rightarrow> (bool \<times> process) result" where
  "onFdReady ev isStdout p =
     assert_that ''fd != -1'' ((if isStdout then ps_stdoutFd p else ps_stderrFd p) \<noteq> -1)
       (case ev of
          Data _ \<Rightarrow> Inr (False, p)
        | ReadError errno \<Rightarrow> throw_error errno ''Read error''
        | Eof \<Rightarrow> Inr (True, if isStdout then p\<lparr>ps_stdoutFd := -1\<rparr> else p\<lparr>ps_stderrFd := -1\<rparr>))"

text \<open>\<open>SIGINT\<close> is signal 2.\<close>

definition waitFinished :: "wait_status \<Rightarrow> process \<Rightarrow> process result" where
  "waitFinished st p =
     (case st of
        WaitError errno \<Rightarrow> throw_error errno ''waitpid failed''
      | Exited c \<Rightarrow> Inr (p\<lparr>ps_status := if c = 0 then EXIT_SUCCEEDED else EXIT_FAILED\<rparr>)
      | Signaled s \<Rightarrow> Inr (p\<lparr>ps_status := if s = 2 then EXIT_INTERRUPTED else EXIT_FAILED\<rparr>)
      | OtherStatus \<Rightarrow> Inr (p\<lparr>ps_status := EXIT_FAILED\<rparr>))"

section \<open>The child process\<close>

text \<open>
  The child works on its own table of descriptors, with which file each one refers to. \<open>open\<close> gives a new descriptor
  or fails, the three calls of \<open>dup2\<close> and \<open>execl\<close> may fail, and \<open>chdir\<close> fails with an \<open>errno\<close>. The child ends up
  executing the command in a directory, aborted by \<open>LOG(FATAL)\<close> (so that \<open>_exit\<close> is not reached), or throwing an exception, with which it goes on
  as a second daemon; that is when \<open>chdir\<close> fails and \<open>DLOG(FATAL)\<close> is compiled out by \<open>NDEBUG\<close>.
\<close>

record 'o child_os =
  co_open :: "(int \<times> 'o) option"
  co_dup2 :: "bool \<times> bool \<times> bool"
  co_chdir :: "int option"
  co_execl :: bool

datatype 'o child = Executes string string "int \<rightharpoonup> 'o" | ChildThrows int | ChildAborts

definition dup2 :: "bool \<Rightarrow> int \<Rightarrow> int \<Rightarrow> (int \<rightharpoonup> 'o) \<Rightarrow> (int \<rightharpoonup> 'o) option" where
  "dup2 ok oldfd newfd t = (if ok then map_option (\<lambda>f. t(newfd \<mapsto> f)) (t oldfd) else None)"

definition close_fd :: "int \<Rightarrow> (int \<rightharpoonup> 'o) \<Rightarrow> (int \<rightharpoonup> 'o)" where
  "close_fd fd t = t(fd := None)"

text \<open>The part of the loop body up to the change of the directory: the table, or \<open>None\<close> for a \<open>break\<close>.\<close>

definition redirect :: "'o child_os \<Rightarrow> int \<Rightarrow> int \<Rightarrow> (int \<rightharpoonup> 'o) \<Rightarrow> (int \<rightharpoonup> 'o) option" where
  "redirect os stdout stderr t =
     (case co_dup2 os of (ok0, ok1, ok2) \<Rightarrow>
        Option.bind (co_open os) (\<lambda>(devnull, f).
        Option.bind (dup2 ok0 devnull 0 (t(devnull \<mapsto> f))) (\<lambda>t.
        Option.bind (dup2 ok1 stdout 1 (close_fd devnull t)) (\<lambda>t.
        map_option (close_fd stderr) (dup2 ok2 stderr 2 (close_fd stdout t))))))"

definition childProcess :: "bool \<Rightarrow> 'o child_os \<Rightarrow> int \<Rightarrow> int \<Rightarrow> process \<Rightarrow> (int \<rightharpoonup> 'o) \<Rightarrow> 'o child" where
  "childProcess ndebug os stdout stderr p t =
     (case redirect os stdout stderr t of
        None \<Rightarrow> ChildAborts
      | Some t' \<Rightarrow>
          (case co_chdir os of
             Some errno \<Rightarrow> if ndebug then ChildThrows errno else ChildAborts
           | None \<Rightarrow> if co_execl os then Executes (ps_workingDirectory p) (ps_command p) t' else ChildAborts))"

text \<open>The branch of \<open>start\<close> in the child closes the ends of the pipes that the parent reads.\<close>

definition start_child :: "bool \<Rightarrow> 'o child_os \<Rightarrow> int \<times> int \<Rightarrow> int \<times> int \<Rightarrow> process \<Rightarrow> (int \<rightharpoonup> 'o) \<Rightarrow> 'o child" where
  "start_child ndebug os stdout_pipe stderr_pipe p t =
     childProcess ndebug os (snd stdout_pipe) (snd stderr_pipe) p (close_fd (fst stderr_pipe) (close_fd (fst stdout_pipe) t))"

section \<open>Class PosixSubProcessManager\<close>

text \<open>\<open>m_map\<close> maps a descriptor to the process and to whether it is its standard output; \<open>m_written\<close>
  is what the stream consumer was given, per command and stream.\<close>

record manager =
  m_id :: nat
  m_running :: "process list"
  m_finished :: "process list"
  m_pollfds :: "int list"
  m_map :: "(int \<times> nat \<times> bool) list"
  m_mapToRule :: "(nat \<times> rid) list"
  m_written :: "(nat \<times> bool \<times> string) list"

record built_rule =
  br_rule :: rid
  br_status :: SubProcessExitStatus
  br_cmdId :: nat

definition PosixSubProcessManager :: manager where
  "PosixSubProcessManager =
     \<lparr>m_id = 0, m_running = [], m_finished = [], m_pollfds = [], m_map = [], m_mapToRule = [], m_written = []\<rparr>"

definition nbRunning :: "manager \<Rightarrow> nat" where
  "nbRunning m = length (m_running m) + length (m_finished m)"

definition addProcess :: "pipes \<Rightarrow> rid \<Rightarrow> string \<Rightarrow> string \<Rightarrow> manager \<Rightarrow> (nat \<times> manager) result" where
  "addProcess os r command workingDirectory m =
     (let i = m_id m; m = m\<lparr>m_id := Suc i\<rparr> in
      assert_that ''!command.empty()'' (command \<noteq> [])
        (let m = m\<lparr>m_mapToRule := (i, r) # m_mapToRule m\<rparr>
         in rbind (start os (PosixSubProcess command workingDirectory i)) (\<lambda>proc.
              Inr (i, m\<lparr>m_running := proc # m_running m,
                       m_pollfds := ps_stderrFd proc # ps_stdoutFd proc # m_pollfds m,
                       m_map := AList.update (ps_stderrFd proc) (i, False)
                                  (AList.update (ps_stdoutFd proc) (i, True) (m_map m))\<rparr>))))"

text \<open>The element that an iterator into \<open>running_\<close> points to.\<close>

definition find_running :: "nat \<Rightarrow> manager \<Rightarrow> process option" where
  "find_running i m = find (\<lambda>p. ps_id p = i) (m_running m)"

definition readFd :: "int \<times> read_event \<Rightarrow> manager \<Rightarrow> manager result" where
  "readFd = (\<lambda>(fd, ev) m.
     case map_of (m_map m) fd of
       None \<Rightarrow> Inl (AssertFailed ''itMap != map_.end()'')
     | Some (i, isStdout) \<Rightarrow>
         (case find_running i m of
            None \<Rightarrow> Inl UseAfterFree
          | Some proc \<Rightarrow>
              rbind (onFdReady ev isStdout proc) (\<lambda>(fdDone, proc').
                let m = m\<lparr>m_running := map (\<lambda>p. if ps_id p = i then proc' else p) (m_running m),
                          m_written := (case ev of Data s \<Rightarrow> m_written m @ [(i, isStdout, s)] | _ \<Rightarrow> m_written m)\<rparr>
                in if fdDone
                   then (let m = m\<lparr>m_pollfds := remove1 fd (m_pollfds m), m_map := AList.delete fd (m_map m)\<rparr>
                         in if completed proc'
                            then Inr (m\<lparr>m_finished := m_finished m @ [proc'],
                                       m_running := filter (\<lambda>p. ps_id p \<noteq> i) (m_running m)\<rparr>)
                            else Inr m)
                   else Inr m)))"

text \<open>One call of \<open>poll\<close>: its error, or the descriptors that are ready with what reading them yields.\<close>

type_synonym poll_result = "int + (int \<times> read_event) list"

definition run :: "poll_result \<Rightarrow> manager \<Rightarrow> manager result" where
  "run res m =
     (case res of
        Inl errno \<Rightarrow> throw_error errno ''poll failed''
      | Inr ready \<Rightarrow> foldM readFd ready m)"

fun run_until_finished :: "poll_result list \<Rightarrow> manager \<Rightarrow> manager result" where
  "run_until_finished polls m =
     (if m_finished m \<noteq> [] then Inr m
      else case polls of [] \<Rightarrow> Inl NoFuel | res # polls \<Rightarrow> rbind (run res m) (run_until_finished polls))"

declare run_until_finished.simps [simp del]

definition waitForNext :: "poll_result list \<Rightarrow> wait_status \<Rightarrow> manager \<Rightarrow> (built_rule \<times> manager) result" where
  "waitForNext polls st m =
     assert_that ''!finished_.empty() || !running_.empty()'' (m_finished m \<noteq> [] \<or> m_running m \<noteq> [])
       (rbind (run_until_finished polls m) (\<lambda>m.
          case m_finished m of
            [] \<Rightarrow> Inl OutOfBounds
          | proc # rest \<Rightarrow>
              (let m = m\<lparr>m_finished := rest\<rparr>
               in rbind (waitFinished st proc) (\<lambda>proc.
                    case map_of (m_mapToRule m) (ps_id proc) of
                      None \<Rightarrow> Inl (AssertFailed ''it != mapToRule_.end()'')
                    | Some r \<Rightarrow>
                        Inr (\<lparr>br_rule = r, br_status = ps_status proc, br_cmdId = ps_id proc\<rparr>,
                             m\<lparr>m_mapToRule := AList.delete (ps_id proc) (m_mapToRule m)\<rparr>)))))"

text \<open>\<open>interrupt\<close> sends \<open>SIGINT\<close> to every running process; the result lists their process ids.\<close>

definition manager_interrupt :: "manager \<Rightarrow> int list result" where
  "manager_interrupt m = foldM (\<lambda>p pids. rbind (interrupt_process p) (\<lambda>pid. Inr (pids @ [pid]))) (m_running m) []"

section \<open>The invariant\<close>

definition fd_of :: "process \<Rightarrow> bool \<Rightarrow> int" where
  "fd_of p isStdout = (if isStdout then ps_stdoutFd p else ps_stderrFd p)"

text \<open>A command id is in use exactly if its process is running or finished, and new ids are larger.\<close>

definition ids_ok :: "manager \<Rightarrow> bool" where
  "ids_ok m \<longleftrightarrow>
     distinct (map ps_id (m_running m @ m_finished m)) \<and> distinct (map fst (m_mapToRule m)) \<and>
     set (map fst (m_mapToRule m)) = set (map ps_id (m_running m @ m_finished m)) \<and>
     (\<forall>i \<in> set (map fst (m_mapToRule m)). i < m_id m)"

text \<open>The descriptors that are polled are exactly the open ones of the running processes.\<close>

definition fds_ok :: "process list \<Rightarrow> (int \<times> nat \<times> bool) list \<Rightarrow> bool" where
  "fds_ok ps mp \<longleftrightarrow> (\<forall>fd i b. map_of mp fd = Some (i, b) \<longleftrightarrow> (\<exists>p \<in> set ps. ps_id p = i \<and> fd_of p b = fd \<and> fd \<noteq> -1))"

text \<open>A running process has a child process and an open stream.\<close>

definition alive :: "process \<Rightarrow> bool" where
  "alive p \<longleftrightarrow> \<not> completed p \<and> 0 \<le> ps_pid p"

definition manager_inv :: "manager \<Rightarrow> bool" where
  "manager_inv m \<longleftrightarrow> ids_ok m \<and> fds_ok (m_running m) (m_map m) \<and> (\<forall>p \<in> set (m_running m). alive p) \<and>
     distinct (m_pollfds m) \<and> set (m_pollfds m) = dom (map_of (m_map m))"

lemma fds_okD: "fds_ok ps mp \<Longrightarrow> map_of mp fd = Some (i, b) \<longleftrightarrow> (\<exists>p \<in> set ps. ps_id p = i \<and> fd_of p b = fd \<and> fd \<noteq> -1)"
  by (simp add: fds_ok_def)

lemma ids_ok_written [simp]: "ids_ok (m\<lparr>m_written := w\<rparr>) = ids_ok m"
  unfolding ids_ok_def by simp

text \<open>The commands that were started and not handed out yet.\<close>

definition active :: "manager \<Rightarrow> (nat \<times> rid) set" where
  "active m = set (m_mapToRule m)"

lemma manager_inv_new: "manager_inv PosixSubProcessManager" "active PosixSubProcessManager = {}"
  by (simp_all add: manager_inv_def ids_ok_def fds_ok_def PosixSubProcessManager_def active_def)

lemma manager_inv_card: "manager_inv m \<Longrightarrow> card (active m) = nbRunning m"
proof -
  assume "manager_inv m"
  then have ids: "ids_ok m" by (simp add: manager_inv_def)
  have "card (active m) = card (set (map fst (m_mapToRule m)))"
    using ids unfolding ids_ok_def active_def by (metis card_image distinct_map set_map)
  also have "\<dots> = length (map ps_id (m_running m @ m_finished m))"
    using ids unfolding ids_ok_def by (metis distinct_card)
  finally show ?thesis by (simp add: nbRunning_def)
qed

text \<open>The descriptors that the system returns are open and not in use.\<close>

definition fresh_pipes :: "pipes \<Rightarrow> manager \<Rightarrow> bool" where
  "fresh_pipes os m \<longleftrightarrow> (case os of
       Forked pid a b \<Rightarrow> 0 \<le> pid \<and> a \<noteq> b \<and> 0 \<le> a \<and> 0 \<le> b \<and> map_of (m_map m) a = None \<and> map_of (m_map m) b = None
     | _ \<Rightarrow> False)"

lemma addProcess_correct:
  assumes inv: "manager_inv m" and os: "fresh_pipes os m" and c: "c \<noteq> []"
  shows "\<exists>m'. addProcess os r c dir m = Inr (m_id m, m') \<and> manager_inv m' \<and> active m' = insert (m_id m, r) (active m) \<and>
     m_id m \<notin> fst ` active m"
proof -
  obtain pid a b where ab: "os = Forked pid a b" "a \<noteq> b" "0 \<le> a" "0 \<le> b" "map_of (m_map m) a = None" "map_of (m_map m) b = None"
    "0 \<le> pid"
    using os by (auto simp: fresh_pipes_def split: pipes.splits)
  let ?i = "m_id m"
  let ?p = "\<lparr>ps_id = ?i, ps_command = c, ps_workingDirectory = dir, ps_stdoutFd = a, ps_stderrFd = b, ps_pid = pid, ps_status = EXIT_UNKNOWN\<rparr>"
  let ?m = "m\<lparr>m_id := Suc ?i, m_mapToRule := (?i, r) # m_mapToRule m, m_running := ?p # m_running m,
      m_pollfds := b # a # m_pollfds m, m_map := AList.update b (?i, False) (AList.update a (?i, True) (m_map m))\<rparr>"
  have eq: "addProcess os r c dir m = Inr (?i, ?m)"
    using ab(1) c by (simp add: addProcess_def start_def PosixSubProcess_def Let_def)
  have fresh: "?i \<notin> set (map fst (m_mapToRule m))" using inv unfolding manager_inv_def ids_ok_def by blast
  have ids: "ids_ok m" and fds: "fds_ok (m_running m) (m_map m)" using inv by (simp_all add: manager_inv_def)
  have new: "?i \<notin> set (map ps_id (m_running m @ m_finished m))" using ids fresh unfolding ids_ok_def by simp
  have "ids_ok ?m" unfolding ids_ok_def
  proof (intro conjI)
    show "distinct (map ps_id (m_running ?m @ m_finished ?m))" "distinct (map fst (m_mapToRule ?m))"
      using ids fresh new by (auto simp: ids_ok_def)
    show "set (map fst (m_mapToRule ?m)) = set (map ps_id (m_running ?m @ m_finished ?m))"
      using ids by (simp add: ids_ok_def)
    have "\<forall>i \<in> set (map fst (m_mapToRule m)). i < m_id m" using ids unfolding ids_ok_def by blast
    then show "\<forall>i \<in> set (map fst (m_mapToRule ?m)). i < m_id ?m" by (auto intro: less_SucI)
  qed
  moreover have "fds_ok (m_running ?m) (m_map ?m)" unfolding fds_ok_def
  proof (intro allI)
    fix fd i d
    have new: "(ps_id ?p = i \<and> fd_of ?p d = fd \<and> fd \<noteq> -1) \<longleftrightarrow> i = ?i \<and> (d \<and> fd = a \<or> \<not> d \<and> fd = b)"
      using ab(3,4) by (auto simp: fd_of_def)
    show "map_of (m_map ?m) fd = Some (i, d) \<longleftrightarrow> (\<exists>p \<in> set (m_running ?m). ps_id p = i \<and> fd_of p d = fd \<and> fd \<noteq> -1)"
      using fds_okD [OF fds, of fd i d] new ab(2,5,6) by (auto simp: update_conv' fun_upd_apply)
  qed
  moreover have "set (m_pollfds ?m) = dom (map_of (m_map ?m))" "distinct (m_pollfds ?m)"
    using inv ab(2,5,6) unfolding manager_inv_def by (auto simp: update_conv' domIff)
  moreover have "alive ?p" using ab(3,7) by (simp add: alive_def completed_def)
  moreover have "\<forall>p \<in> set (m_running m). alive p" using inv by (simp add: manager_inv_def)
  ultimately have "manager_inv ?m" unfolding manager_inv_def by simp
  then show ?thesis using eq fresh by (auto simp: active_def)
qed

section \<open>Reading the pipes\<close>

lemma find_runningD:
  "find_running i m = Some p \<Longrightarrow> p \<in> set (m_running m) \<and> ps_id p = i"
  unfolding find_running_def by (metis (mono_tags, lifting) find_Some_iff nth_mem)

lemma manager_inv_process:
  assumes inv: "manager_inv m" and fd: "fd \<in> set (m_pollfds m)"
  obtains p b where "map_of (m_map m) fd = Some (ps_id p, b)" "p \<in> set (m_running m)" "fd_of p b = fd" "fd \<noteq> -1"
    "find_running (ps_id p) m = Some p"
proof -
  have ids: "ids_ok m" and fds: "fds_ok (m_running m) (m_map m)" and dom: "set (m_pollfds m) = dom (map_of (m_map m))"
    using inv by (simp_all add: manager_inv_def)
  obtain i b where ib: "map_of (m_map m) fd = Some (i, b)" using fd dom by fastforce
  then obtain p where p: "p \<in> set (m_running m)" "ps_id p = i" "fd_of p b = fd" "fd \<noteq> -1"
    using fds_okD [OF fds] by blast
  have "find_running i m \<noteq> None" using p(1,2) by (auto simp: find_running_def find_None_iff)
  then obtain q where q: "find_running i m = Some q" by blast
  have "inj_on ps_id (set (m_running m))" using ids by (simp add: ids_ok_def distinct_map)
  then have "q = p" using find_runningD [OF q] p(1,2) by (auto dest: inj_onD)
  then show thesis using that [of p b] ib p q by simp
qed

text \<open>A process of which one stream is closed replaces its old version.\<close>

lemma map_replace_id: "distinct (map ps_id ps) \<Longrightarrow> p \<in> set ps \<Longrightarrow> map (\<lambda>q. if ps_id q = ps_id p then p else q) ps = ps"
  by (rule map_idI) (auto simp: distinct_map dest: inj_onD)

lemma replaced_ids: "ps_id p' = i \<Longrightarrow> map ps_id (map (\<lambda>q. if ps_id q = i then p' else q) ps) = map ps_id ps"
  by simp

lemma filter_replaced:
  "ps_id p' = i \<Longrightarrow> filter (\<lambda>q. ps_id q \<noteq> i) (map (\<lambda>q. if ps_id q = i then p' else q) ps) = filter (\<lambda>q. ps_id q \<noteq> i) ps"
  by (induction ps) auto

lemma filter_ids: "map ps_id (filter (\<lambda>q. ps_id q \<noteq> i) ps) = removeAll i (map ps_id ps)"
  by (induction ps) auto

lemma fds_ok_close:
  assumes fds: "fds_ok ps mp" and inj: "inj_on ps_id (set ps)" and p: "p \<in> set ps" "fd_of p b = fd" "fd \<noteq> -1"
    and p': "ps_id p' = ps_id p" "fd_of p' b = -1" "fd_of p' (\<not> b) = fd_of p (\<not> b)"
    and qs: "set qs = {q \<in> set ps. ps_id q \<noteq> ps_id p} \<union> (if completed p' then {} else {p'})"
  shows "fds_ok qs (AList.delete fd mp)"
  unfolding fds_ok_def
proof (intro allI)
  fix x j c
  have old: "map_of mp fd = Some (ps_id p, b)" using fds_okD [OF fds] p by blast
  have same: "q = p" if "q \<in> set ps" "ps_id q = ps_id p" for q using that inj p(1) by (auto dest: inj_onD)
  have closed: "fd_of p' d = x \<and> x \<noteq> -1 \<longleftrightarrow> d = (\<not> b) \<and> fd_of p d = x \<and> x \<noteq> -1" for d x
    using p' by (cases "d = b") auto
  have gone: "\<not> completed p'" if "fd_of p' d = x" "x \<noteq> -1" for d x
    using that by (auto simp: completed_def fd_of_def split: if_splits)
  have "(\<exists>q \<in> set qs. ps_id q = j \<and> fd_of q c = x \<and> x \<noteq> -1) \<longleftrightarrow>
      (\<exists>q \<in> set ps. ps_id q = j \<and> fd_of q c = x \<and> x \<noteq> -1 \<and> \<not> (ps_id q = ps_id p \<and> c = b))"
    using qs same p(1) p'(1) closed [of c x] gone [of c x] by (auto split: if_splits)
  also have "\<dots> \<longleftrightarrow> map_of mp x = Some (j, c) \<and> \<not> (j = ps_id p \<and> c = b)" using fds_okD [OF fds, of x j c] by blast
  also have "\<dots> \<longleftrightarrow> map_of (AList.delete fd mp) x = Some (j, c)"
    using old fds_okD [OF fds, of x "ps_id p" b] same p(2) by (auto simp: delete_conv' fun_upd_apply)
  finally show "map_of (AList.delete fd mp) x = Some (j, c) \<longleftrightarrow> (\<exists>q \<in> set qs. ps_id q = j \<and> fd_of q c = x \<and> x \<noteq> -1)" by simp
qed

text \<open>What one read leaves unchanged, and what it does to the polled descriptors.\<close>

definition read_step :: "int \<Rightarrow> read_event \<Rightarrow> manager \<Rightarrow> manager \<Rightarrow> bool" where
  "read_step fd ev m m' \<longleftrightarrow> manager_inv m' \<and> m_mapToRule m' = m_mapToRule m \<and> m_id m' = m_id m \<and>
     m_pollfds m' = (if ev = Eof then remove1 fd (m_pollfds m) else m_pollfds m)"

lemma readFd_data:
  assumes inv: "manager_inv m" and fd: "fd \<in> set (m_pollfds m)"
  shows "\<exists>m'. readFd (fd, Data s) m = Inr m' \<and> read_step fd (Data s) m m'"
proof -
  obtain p b where p: "map_of (m_map m) fd = Some (ps_id p, b)" "p \<in> set (m_running m)" "fd_of p b = fd" "fd \<noteq> -1"
    "find_running (ps_id p) m = Some p"
    using manager_inv_process [OF inv fd] by blast
  have "distinct (map ps_id (m_running m))" using inv by (simp add: manager_inv_def ids_ok_def)
  then have "readFd (fd, Data s) m = Inr (m\<lparr>m_written := m_written m @ [(ps_id p, b, s)]\<rparr>)"
    using p map_replace_id [of "m_running m" p] by (simp add: readFd_def onFdReady_def fd_of_def Let_def)
  moreover have "read_step fd (Data s) m (m\<lparr>m_written := m_written m @ [(ps_id p, b, s)]\<rparr>)"
    using inv by (simp add: read_step_def manager_inv_def)
  ultimately show ?thesis by blast
qed

text \<open>The end of a stream: \<open>qs\<close> and \<open>fs\<close> are the lists of running and finished processes afterwards.\<close>

lemma manager_inv_close:
  assumes inv: "manager_inv m" and p: "p \<in> set (m_running m)" "fd_of p b = fd" "fd \<noteq> -1"
    and p': "ps_id p' = ps_id p" "fd_of p' b = -1" "fd_of p' (\<not> b) = fd_of p (\<not> b)" "ps_pid p' = ps_pid p"
    and qs: "set qs = {q \<in> set (m_running m). ps_id q \<noteq> ps_id p} \<union> (if completed p' then {} else {p'})"
    and ids: "distinct (map ps_id (qs @ fs))" "set (map ps_id (qs @ fs)) = set (map ps_id (m_running m @ m_finished m))"
    and m': "m_running m' = qs" "m_finished m' = fs" "m_map m' = AList.delete fd (m_map m)" "m_pollfds m' = remove1 fd (m_pollfds m)"
      "m_mapToRule m' = m_mapToRule m" "m_id m' = m_id m"
  shows "read_step fd Eof m m'"
proof -
  have old: "ids_ok m" "fds_ok (m_running m) (m_map m)" "set (m_pollfds m) = dom (map_of (m_map m))" "distinct (m_pollfds m)"
    "\<forall>p \<in> set (m_running m). alive p"
    using inv by (simp_all add: manager_inv_def)
  have inj: "inj_on ps_id (set (m_running m))" using old(1) by (simp add: ids_ok_def distinct_map)
  have "ids_ok m'" using old(1) ids m' unfolding ids_ok_def by metis
  moreover have "fds_ok qs (AList.delete fd (m_map m))" by (rule fds_ok_close [OF old(2) inj p p'(1-3) qs])
  moreover have "\<forall>p \<in> set qs. alive p" using old(5) qs p(1) p'(4) by (auto simp: alive_def)
  moreover have "set (m_pollfds m') = dom (map_of (m_map m'))" using old(3,4) m' by (auto simp: delete_conv' domIff)
  ultimately show ?thesis using old(4) m' by (simp add: read_step_def manager_inv_def)
qed

lemma readFd_eof:
  assumes inv: "manager_inv m" and fd: "fd \<in> set (m_pollfds m)"
  shows "\<exists>m'. readFd (fd, Eof) m = Inr m' \<and> read_step fd Eof m m'"
proof -
  obtain p b where p: "map_of (m_map m) fd = Some (ps_id p, b)" "p \<in> set (m_running m)" "fd_of p b = fd" "fd \<noteq> -1"
    "find_running (ps_id p) m = Some p"
    using manager_inv_process [OF inv fd] by blast
  let ?p = "if b then p\<lparr>ps_stdoutFd := -1\<rparr> else p\<lparr>ps_stderrFd := -1\<rparr>"
  let ?ps = "map (\<lambda>q. if ps_id q = ps_id p then ?p else q) (m_running m)"
  let ?m = "m\<lparr>m_running := ?ps, m_pollfds := remove1 fd (m_pollfds m), m_map := AList.delete fd (m_map m)\<rparr>"
  let ?m' = "if completed ?p then ?m\<lparr>m_finished := m_finished m @ [?p], m_running := filter (\<lambda>q. ps_id q \<noteq> ps_id p) ?ps\<rparr> else ?m"
  have eq: "readFd (fd, Eof) m = Inr ?m'"
    using p by (simp add: readFd_def onFdReady_def fd_of_def Let_def)
  have p': "ps_id ?p = ps_id p" "fd_of ?p b = -1" "fd_of ?p (\<not> b) = fd_of p (\<not> b)" "ps_pid ?p = ps_pid p"
    by (auto simp: fd_of_def)
  have dist: "distinct (map ps_id (m_running m @ m_finished m))" using inv by (simp add: manager_inv_def ids_ok_def)
  have filt: "filter (\<lambda>q. ps_id q \<noteq> ps_id p) ?ps = filter (\<lambda>q. ps_id q \<noteq> ps_id p) (m_running m)"
    by (rule filter_replaced [OF p'(1)])
  have "read_step fd Eof m ?m'"
  proof (cases "completed ?p")
    case True
    show ?thesis
    proof (rule manager_inv_close [OF inv p(2-4) p'])
      show "set (m_running ?m') = {q \<in> set (m_running m). ps_id q \<noteq> ps_id p} \<union> (if completed ?p then {} else {?p})"
        using True filt by auto
      show "distinct (map ps_id (m_running ?m' @ m_finished ?m'))"
        using True filt dist p(2) p'(1) by (simp add: filter_ids distinct_removeAll) blast
      have "ps_id p \<in> ps_id ` set (m_running m)" using p(2) by simp
      then show "set (map ps_id (m_running ?m' @ m_finished ?m')) = set (map ps_id (m_running m @ m_finished m))"
        using True filt p'(1) by (simp add: filter_ids del: set_map) auto
    qed (use True in simp_all)
  next
    case False
    show ?thesis
    proof (rule manager_inv_close [OF inv p(2-4) p'])
      show "set (m_running ?m') = {q \<in> set (m_running m). ps_id q \<noteq> ps_id p} \<union> (if completed ?p then {} else {?p})"
        using False p(2) by auto
      have "map ps_id (m_running ?m' @ m_finished ?m') = map ps_id (m_running m @ m_finished m)"
        using False replaced_ids [OF p'(1)] by simp
      then show "distinct (map ps_id (m_running ?m' @ m_finished ?m'))"
        "set (map ps_id (m_running ?m' @ m_finished ?m')) = set (map ps_id (m_running m @ m_finished m))"
        using dist by metis+
    qed (use False in simp_all)
  qed
  then show ?thesis using eq by blast
qed

text \<open>Without assumptions on the system: a read that succeeds is a read of a polled descriptor.\<close>

lemma readFd_step:
  assumes inv: "manager_inv m" and eq: "readFd (fd, ev) m = Inr m'"
  shows "read_step fd ev m m'"
proof -
  have fd: "fd \<in> set (m_pollfds m)"
    using eq inv by (auto simp: readFd_def manager_inv_def split: option.splits)
  show ?thesis
  proof (cases ev)
    case (ReadError e)
    then show ?thesis
      using eq by (auto simp: readFd_def onFdReady_def throw_error_def assert_that_def split: option.splits if_splits)
  next
    case (Data s)
    then show ?thesis using readFd_data [OF inv fd, of s] eq by auto
  qed (use readFd_eof [OF inv fd] eq in auto)
qed

lemma run_inv:
  assumes "manager_inv m" and "run res m = Inr m'"
  shows "manager_inv m' \<and> m_mapToRule m' = m_mapToRule m \<and> m_id m' = m_id m"
proof -
  obtain ready where ready: "foldM readFd ready m = Inr m'"
    using assms(2) by (auto simp: run_def throw_error_def split: sum.splits)
  show ?thesis
    by (rule foldM_inv [OF ready]) (use assms(1) readFd_step in \<open>auto simp: read_step_def\<close>)
qed

lemma run_until_finished_inv:
  assumes "manager_inv m" and "run_until_finished polls m = Inr m'"
  shows "manager_inv m' \<and> m_mapToRule m' = m_mapToRule m \<and> m_finished m' \<noteq> []"
  using assms
proof (induction polls m rule: run_until_finished.induct)
  case (1 polls m)
  show ?case
  proof (cases "m_finished m \<noteq> []")
    case True
    then show ?thesis using 1(2,3) by (subst (asm) run_until_finished.simps) simp
  next
    case False
    then obtain res rest m1 where polls: "polls = res # rest" and m1: "run res m = Inr m1" "run_until_finished rest m1 = Inr m'"
      using 1(3) by (subst (asm) run_until_finished.simps) (auto simp: rbind_eq_Inr split: list.splits)
    then show ?thesis using 1(1) [of res rest m1] False run_inv [OF 1(2) m1(1)] by auto
  qed
qed

lemma waitFinished_id: "waitFinished st p = Inr p' \<Longrightarrow> ps_id p' = ps_id p"
  by (auto simp: waitFinished_def throw_error_def split: wait_status.splits)

lemma waitFinished_total: "\<not> is_WaitError st \<Longrightarrow> \<exists>p'. waitFinished st p = Inr p' \<and> ps_id p' = ps_id p"
  by (auto simp: waitFinished_def split: wait_status.splits)

lemma waitForNext_inv:
  assumes inv: "manager_inv m" and eq: "waitForNext polls st m = Inr (b, m')"
  shows "manager_inv m' \<and> (br_cmdId b, br_rule b) \<in> active m \<and> active m' = active m - {(br_cmdId b, br_rule b)}"
proof -
  obtain m1 where m1: "run_until_finished polls m = Inr m1"
    using eq by (auto simp: waitForNext_def rbind_eq_Inr)
  note inv1 = run_until_finished_inv [OF inv m1]
  obtain p rest where fin: "m_finished m1 = p # rest" using inv1 by (cases "m_finished m1") auto
  obtain r where r: "map_of (m_mapToRule m1) (ps_id p) = Some r" and b: "br_cmdId b = ps_id p" "br_rule b = r"
    and m': "m' = m1\<lparr>m_finished := rest, m_mapToRule := AList.delete (ps_id p) (m_mapToRule m1)\<rparr>"
    using eq m1 fin by (auto simp: waitForNext_def Let_def rbind_eq_Inr dest!: waitFinished_id split: option.splits)
  have ids: "ids_ok m1" using inv1 by (simp add: manager_inv_def)
  then have dist: "distinct (map fst (m_mapToRule m1))" by (simp add: ids_ok_def)
  have keys: "set (map fst (AList.delete (ps_id p) (m_mapToRule m1))) = set (map fst (m_mapToRule m1)) - {ps_id p}"
    by (auto simp: AList.delete_eq)
  have "ids_ok m'" unfolding ids_ok_def
  proof (intro conjI)
    show "distinct (map ps_id (m_running m' @ m_finished m'))" using ids fin m' by (simp add: ids_ok_def)
    show "distinct (map fst (m_mapToRule m'))" using dist m' by (simp add: distinct_delete)
    have "set (map fst (m_mapToRule m1)) = set (map ps_id (m_running m1 @ m_finished m1))"
      and "distinct (map ps_id (m_running m1 @ m_finished m1))" and less: "\<forall>i \<in> set (map fst (m_mapToRule m1)). i < m_id m1"
      using ids unfolding ids_ok_def by blast+
    then show "set (map fst (m_mapToRule m')) = set (map ps_id (m_running m' @ m_finished m'))"
      using keys fin m' by auto
    show "\<forall>i \<in> set (map fst (m_mapToRule m')). i < m_id m'" using keys less m' by auto
  qed
  then have "manager_inv m'" using inv1 m' by (simp add: manager_inv_def)
  moreover have "(ps_id p, r) \<in> active m" using map_of_SomeD [OF r] inv1 by (simp add: active_def)
  moreover have "active m' = active m - {(ps_id p, r)}"
    using dist r inv1 m' by (auto simp: active_def AList.delete_eq dest: eq_key_imp_eq_value map_of_SomeD)
  ultimately show ?thesis using b by simp
qed

section \<open>Progress\<close>

text \<open>What \<open>poll\<close> guarantees: it reports descriptors of the array it is given, each once; and reading
  them does not fail. The reports after a process has finished are not looked at.\<close>

definition poll_ok :: "(int \<times> read_event) list \<Rightarrow> manager \<Rightarrow> bool" where
  "poll_ok ready m \<longleftrightarrow> distinct (map fst ready) \<and> (\<forall>(fd, ev) \<in> set ready. fd \<in> set (m_pollfds m) \<and> \<not> is_ReadError ev)"

fun polls_ok :: "poll_result list \<Rightarrow> manager \<Rightarrow> bool" where
  "polls_ok [] m \<longleftrightarrow> True"
| "polls_ok (res # polls) m \<longleftrightarrow> m_finished m \<noteq> [] \<or>
     (case res of Inl _ \<Rightarrow> False
      | Inr ready \<Rightarrow> poll_ok ready m \<and> (case run res m of Inl _ \<Rightarrow> True | Inr m' \<Rightarrow> polls_ok polls m'))"

text \<open>The number of streams that end.\<close>

definition eofs :: "(int \<times> read_event) list \<Rightarrow> nat" where
  "eofs ready = length (filter (\<lambda>(fd, ev). ev = Eof) ready)"

definition all_eofs :: "poll_result list \<Rightarrow> nat" where
  "all_eofs polls = sum_list (map (\<lambda>res. case res of Inl _ \<Rightarrow> 0 | Inr ready \<Rightarrow> eofs ready) polls)"

lemma readFd_total:
  assumes "manager_inv m" and "fd \<in> set (m_pollfds m)" and "\<not> is_ReadError ev"
  shows "\<exists>m'. readFd (fd, ev) m = Inr m' \<and> read_step fd ev m m'"
  using assms readFd_data readFd_eof by (cases ev) auto

lemma run_total:
  assumes inv: "manager_inv m" and ok: "poll_ok ready m"
  shows "\<exists>m'. run (Inr ready) m = Inr m' \<and> manager_inv m' \<and> m_mapToRule m' = m_mapToRule m \<and>
     length (m_pollfds m') + eofs ready = length (m_pollfds m)"
proof -
  have "\<exists>m'. foldM readFd ready m = Inr m' \<and> (manager_inv m' \<and> m_mapToRule m' = m_mapToRule m \<and>
      length (m_pollfds m') + eofs ready = length (m_pollfds m) \<and> set (m_pollfds m) - fst ` set ready \<subseteq> set (m_pollfds m'))"
  proof (rule foldM_total [where P = "\<lambda>done m'. manager_inv m' \<and> m_mapToRule m' = m_mapToRule m \<and>
      length (m_pollfds m') + eofs done = length (m_pollfds m) \<and> set (m_pollfds m) - fst ` set done \<subseteq> set (m_pollfds m')"])
    show "manager_inv m \<and> m_mapToRule m = m_mapToRule m \<and> length (m_pollfds m) + eofs [] = length (m_pollfds m) \<and>
      set (m_pollfds m) - fst ` set [] \<subseteq> set (m_pollfds m)"
      using inv by (simp add: eofs_def)
  next
    fix us x rest m1
    assume split: "ready = us @ x # rest" and m1: "manager_inv m1 \<and> m_mapToRule m1 = m_mapToRule m \<and>
      length (m_pollfds m1) + eofs us = length (m_pollfds m) \<and> set (m_pollfds m) - fst ` set us \<subseteq> set (m_pollfds m1)"
    obtain fd ev where x: "x = (fd, ev)" by (cases x)
    have fd: "fd \<in> set (m_pollfds m1)" "\<not> is_ReadError ev"
      using ok split x m1 by (auto simp: poll_ok_def)
    obtain m' where m': "readFd x m1 = Inr m'" "read_step fd ev m1 m'"
      using readFd_total [OF _ fd] m1 x by blast
    have "0 < length (m_pollfds m1)" using fd(1) by (cases "m_pollfds m1") auto
    then have "length (m_pollfds m') + eofs (us @ [x]) = length (m_pollfds m1) + eofs us"
      using m'(2) fd(1) x by (auto simp: read_step_def eofs_def length_remove1)
    moreover have "set (m_pollfds m1) - {fd} \<subseteq> set (m_pollfds m')"
      using m'(2) m1 by (auto simp: read_step_def manager_inv_def set_remove1_eq)
    ultimately show "\<exists>m'. readFd x m1 = Inr m' \<and> (manager_inv m' \<and> m_mapToRule m' = m_mapToRule m \<and>
      length (m_pollfds m') + eofs (us @ [x]) = length (m_pollfds m) \<and> set (m_pollfds m) - fst ` set (us @ [x]) \<subseteq> set (m_pollfds m'))"
      using m1 m' x by (auto simp: read_step_def)
  qed
  then show ?thesis by (auto simp: run_def)
qed

text \<open>While a command is active and none has finished there is a descriptor to poll.\<close>

lemma pollfds_nonempty:
  assumes inv: "manager_inv m" and "active m \<noteq> {}" and "m_finished m = []"
  shows "m_pollfds m \<noteq> []"
proof -
  have ids: "ids_ok m" and fds: "fds_ok (m_running m) (m_map m)" and dom: "set (m_pollfds m) = dom (map_of (m_map m))"
    using inv by (simp_all add: manager_inv_def)
  have "m_running m \<noteq> []" using ids assms(2,3) by (auto simp: ids_ok_def active_def)
  then obtain p where p: "p \<in> set (m_running m)" by (cases "m_running m") auto
  then have "\<not> completed p" using inv by (simp add: manager_inv_def alive_def)
  then obtain b where "fd_of p b \<noteq> -1" by (metis (full_types) completed_def fd_of_def)
  then have "fd_of p b \<in> set (m_pollfds m)" using fds_okD [OF fds, of "fd_of p b" "ps_id p" b] p dom by blast
  then show ?thesis by auto
qed

lemma run_until_finished_total:
  assumes "manager_inv m" and "active m \<noteq> {}" and "polls_ok polls m" and "length (m_pollfds m) \<le> all_eofs polls"
  shows "\<exists>m'. run_until_finished polls m = Inr m'"
  using assms
proof (induction polls arbitrary: m)
  case Nil
  then have "m_finished m \<noteq> []" using pollfds_nonempty [of m] by (auto simp: all_eofs_def)
  then show ?case by (subst run_until_finished.simps) simp
next
  case (Cons res polls)
  show ?case
  proof (cases "m_finished m \<noteq> []")
    case True
    then show ?thesis by (subst run_until_finished.simps) simp
  next
    case False
    then obtain ready where ready: "res = Inr ready" "poll_ok ready m" using Cons.prems(3) by (auto split: sum.splits)
    obtain m1 where m1: "run (Inr ready) m = Inr m1" "manager_inv m1" "m_mapToRule m1 = m_mapToRule m"
      "length (m_pollfds m1) + eofs ready = length (m_pollfds m)"
      using run_total [OF Cons.prems(1) ready(2)] by blast
    have "\<exists>m'. run_until_finished polls m1 = Inr m'"
      by (rule Cons.IH) (use Cons.prems False ready m1 in \<open>auto simp: active_def all_eofs_def\<close>)
    then show ?thesis using False m1(1) ready(1) by (subst run_until_finished.simps) simp
  qed
qed

lemma waitForNext_total:
  assumes inv: "manager_inv m" and act: "active m \<noteq> {}" and polls: "polls_ok polls m" "length (m_pollfds m) \<le> all_eofs polls"
    and st: "\<not> is_WaitError st"
  shows "\<exists>b m'. waitForNext polls st m = Inr (b, m')"
proof -
  obtain m1 where m1: "run_until_finished polls m = Inr m1" using run_until_finished_total [OF assms(1-4)] by blast
  note inv1 = run_until_finished_inv [OF inv m1]
  obtain p rest where fin: "m_finished m1 = p # rest" using inv1 by (cases "m_finished m1") auto
  have "ids_ok m1" using inv1 by (simp add: manager_inv_def)
  then have "ps_id p \<in> set (map fst (m_mapToRule m1))" using fin by (simp add: ids_ok_def)
  then obtain r where r: "map_of (m_mapToRule m1) (ps_id p) = Some r" by (auto dest: weak_map_of_SomeI)
  have "ids_ok m" using inv by (simp add: manager_inv_def)
  then have "m_finished m \<noteq> [] \<or> m_running m \<noteq> []" using act by (auto simp: ids_ok_def active_def)
  then show ?thesis using m1 fin r waitFinished_total [OF st, of p] by (auto simp: waitForNext_def Let_def)
qed

lemma manager_interrupt_total:
  assumes "manager_inv m"
  shows "manager_interrupt m = Inr (map ps_pid (m_running m))"
proof -
  have "foldM (\<lambda>p pids. rbind (interrupt_process p) (\<lambda>pid. Inr (pids @ [pid]))) ps pids = Inr (pids @ map ps_pid ps)"
    if "\<forall>p \<in> set ps. alive p" for ps pids
    using that by (induction ps arbitrary: pids) (auto simp: interrupt_process_def alive_def)
  then show ?thesis using assms by (simp add: manager_interrupt_def manager_inv_def)
qed

section \<open>The interface of the pool\<close>

datatype pool_op = Start pipes rid string string | Wait "poll_result list" wait_status

locale process_pool =
  fixes pool_inv :: "'m \<Rightarrow> bool"
    and pool_active :: "'m \<Rightarrow> (nat \<times> rid) set"
    and fresh :: "pipes \<Rightarrow> 'm \<Rightarrow> bool"
    and add :: "pipes \<Rightarrow> rid \<Rightarrow> string \<Rightarrow> string \<Rightarrow> 'm \<Rightarrow> (nat \<times> 'm) result"
    and wait :: "poll_result list \<Rightarrow> wait_status \<Rightarrow> 'm \<Rightarrow> (built_rule \<times> 'm) result"
  assumes finite_active: "pool_inv m \<Longrightarrow> finite (pool_active m)"
    and add_law: "pool_inv m \<Longrightarrow> fresh os m \<Longrightarrow> add os r c dir m = Inr (i, m') \<Longrightarrow>
       pool_inv m' \<and> pool_active m' = insert (i, r) (pool_active m) \<and> i \<notin> fst ` pool_active m"
    and wait_law: "pool_inv m \<Longrightarrow> wait polls st m = Inr (b, m') \<Longrightarrow>
       pool_inv m' \<and> (br_cmdId b, br_rule b) \<in> pool_active m \<and> pool_active m' = pool_active m - {(br_cmdId b, br_rule b)}"
begin

text \<open>A history of the pool, with the commands that it started and those that it handed out.\<close>

inductive pool_run :: "'m \<Rightarrow> (nat \<times> rid) list \<Rightarrow> (nat \<times> rid) list \<Rightarrow> 'm \<Rightarrow> bool" where
  nil: "pool_run m [] [] m"
| started: "pool_run m ins outs m1 \<Longrightarrow> fresh os m1 \<Longrightarrow> add os r c dir m1 = Inr (i, m2) \<Longrightarrow>
    pool_run m (ins @ [(i, r)]) outs m2"
| waited: "pool_run m ins outs m1 \<Longrightarrow> wait polls st m1 = Inr (b, m2) \<Longrightarrow>
    pool_run m ins (outs @ [(br_cmdId b, br_rule b)]) m2"

lemma pool_conserves:
  assumes "pool_run m ins outs m'" and "pool_inv m" and "pool_active m = {}"
  shows "pool_inv m' \<and> mset ins = mset outs + mset_set (pool_active m')"
  using assms
proof (induction rule: pool_run.induct)
  case (nil m)
  then show ?case by simp
next
  case (started m ins outs m1 os r c dir i m2)
  then have m1: "pool_inv m1" "mset ins = mset outs + mset_set (pool_active m1)" by blast+
  have m2: "pool_inv m2" "pool_active m2 = insert (i, r) (pool_active m1)" "(i, r) \<notin> pool_active m1"
    using add_law [OF m1(1) started.hyps(2,3)] by force+
  then show ?case using m1 finite_active [OF m1(1)] by simp
next
  case (waited m ins outs m1 polls st b m2)
  then have m1: "pool_inv m1" "mset ins = mset outs + mset_set (pool_active m1)" by blast+
  note law = wait_law [OF m1(1) waited.hyps(2)]
  then have "mset_set (pool_active m1) = add_mset (br_cmdId b, br_rule b) (mset_set (pool_active m2))"
    using finite_active [OF m1(1)] by (simp add: mset_set.remove)
  then show ?case using m1(2) law by simp
qed

end

interpretation posix: process_pool manager_inv active fresh_pipes addProcess waitForNext
proof (unfold_locales, goal_cases)
  case (1 m)
  show ?case by (simp add: active_def)
next
  case (2 m os r c dir i m')
  have "c \<noteq> []" using 2(3) by (auto simp: addProcess_def Let_def)
  then show ?case using addProcess_correct [OF 2(1,2), of c r dir] 2(3) by auto
next
  case (3 m polls st b m')
  then show ?case by (rule waitForNext_inv)
qed

section \<open>Properties\<close>

text \<open>An example: one command that writes a line and ends.\<close>

definition example_process :: process where
  "example_process = (PosixSubProcess ''cc'' ''/'' 0)\<lparr>ps_stdoutFd := 3, ps_stderrFd := 4, ps_pid := 99\<rparr>"

definition example_manager :: manager where
  "example_manager = \<lparr>m_id = 1, m_running = [example_process], m_finished = [], m_pollfds = [4, 3],
     m_map = [(3, 0, True), (4, 0, False)], m_mapToRule = [(0, 7)], m_written = []\<rparr>"

definition example_polls :: "poll_result list" where
  "example_polls = [Inr [(3, Data ''x''), (4, Eof)], Inr [(3, Eof)]]"

lemma example_added: "addProcess (Forked 99 3 4) 7 ''cc'' ''/'' PosixSubProcessManager = Inr (0, example_manager)"
  by (simp add: addProcess_def start_def PosixSubProcess_def PosixSubProcessManager_def example_manager_def example_process_def Let_def)

lemma example_fresh: "fresh_pipes (Forked 99 3 4) PosixSubProcessManager"
  by (simp add: fresh_pipes_def PosixSubProcessManager_def)

lemma example_manager_inv: "manager_inv example_manager" "active example_manager = {(0, 7)}"
  using addProcess_correct [OF manager_inv_new(1) example_fresh, of "''cc''" 7 "''/''"] example_added manager_inv_new(2)
  by (simp_all add: PosixSubProcessManager_def)

lemma example_polls_ok: "polls_ok example_polls example_manager" "length (m_pollfds example_manager) \<le> all_eofs example_polls"
  by (simp_all add: example_polls_def example_manager_def example_process_def PosixSubProcess_def poll_ok_def run_def readFd_def
    find_running_def onFdReady_def completed_def all_eofs_def eofs_def)

section \<open>Streams of the child\<close>

text \<open>When the descriptors of the pipes and of \<open>/dev/null\<close> are above the standard ones and all calls succeed, the command
  runs in its directory with \<open>/dev/null\<close> as its input and the two pipes as its outputs, no other descriptor of the pipes
  stays open, so that the parent sees the end of the streams when the command ends, and all others are inherited.\<close>

lemma start_child_streams:
  assumes fds: "distinct [0, 1, 2, rout, wout, rerr, werr]" "dn \<notin> {0, 1, 2, wout, werr}"
    and t: "t wout = Some fout" "t werr = Some ferr"
    and os: "co_open os = Some (dn, fnull)" "co_dup2 os = (True, True, True)" "co_chdir os = None" "co_execl os"
  shows "start_child nd os (rout, wout) (rerr, werr) p t =
    Executes (ps_workingDirectory p) (ps_command p)
      (\<lambda>fd. if fd = 0 then Some fnull else if fd = 1 then Some fout else if fd = 2 then Some ferr
        else if fd \<in> {dn, rout, wout, rerr, werr} then None else t fd)"
proof -
  let ?t = "t(rout := None, rerr := None, dn \<mapsto> fnull, 0 \<mapsto> fnull, dn := None, 1 \<mapsto> fout, wout := None, 2 \<mapsto> ferr, werr := None)"
  have ne: "wout \<noteq> dn" "werr \<noteq> dn" "wout \<noteq> 0" "werr \<noteq> 0" "werr \<noteq> 1" "wout \<noteq> rerr" "wout \<noteq> rout" "werr \<noteq> rerr" "werr \<noteq> rout" "werr \<noteq> wout"
    using fds by auto
  have "redirect os wout werr (close_fd rerr (close_fd rout t)) = Some ?t"
    by (simp add: redirect_def dup2_def close_fd_def t os ne)
  moreover have "?t fd = (if fd = 0 then Some fnull else if fd = 1 then Some fout else if fd = 2 then Some ferr
      else if fd \<in> {dn, rout, wout, rerr, werr} then None else t fd)" for fd
    using fds by (cases "fd = 0"; cases "fd = 1"; cases "fd = 2"; cases "fd = werr"; cases "fd = wout"; cases "fd = dn") simp_all
  ultimately show ?thesis
    by (simp only: start_child_def childProcess_def os fst_conv snd_conv option.case if_True child.inject simp_thms fun_eq_iff)
qed

text \<open>Descriptors below 3 are not handled: when the daemon runs without a standard input, \<open>open\<close> returns 0 and the child
  closes it again, so that the command runs without an input.\<close>

lemma childProcess_closed_stdin:
  assumes "co_open os = Some (0, fnull)" and "0 < stdout" "0 < stderr"
    and "childProcess nd os stdout stderr p t = Executes d c t'"
  shows "t' 0 = None"
  using assms by (auto simp: childProcess_def redirect_def dup2_def close_fd_def split: option.splits prod.splits if_splits bind_splits)

text \<open>A command is executed only in its directory, and an aborted child is a failed command for \<open>waitFinished\<close>.\<close>

lemma childProcess_executes:
  assumes "childProcess nd os stdout stderr p t = Executes d c t'"
  shows "d = ps_workingDirectory p" "c = ps_command p" "co_chdir os = None"
  using assms by (auto simp: childProcess_def split: option.splits if_splits)

lemma childProcess_throws:
  "redirect os stdout stderr t \<noteq> None \<Longrightarrow> co_chdir os = Some e \<Longrightarrow>
   childProcess nd os stdout stderr p t = (if nd then ChildThrows e else ChildAborts)"
  by (auto simp: childProcess_def)

text \<open>C30. Commands are conserved: over any sequence of \<open>addProcess\<close> and \<open>waitForNext\<close> calls, whatever the
  system reports, the pairs of command id and rule that were handed out by \<open>waitForNext\<close> together with those
  still active are exactly, with multiplicities, those that \<open>addProcess\<close> returned; so every command is
  reported at most once, with the rule it was started for, and \<open>nbRunning\<close> counts the ones outstanding.\<close>

theorem processes_conserved:
  assumes "posix.pool_run PosixSubProcessManager ins outs m"
  shows "mset ins = mset outs + mset_set (active m) \<and> nbRunning m = length ins - length outs"
proof -
  note cons = posix.pool_conserves [OF assms manager_inv_new]
  then have "length ins = length outs + card (active m)" by (metis size_mset size_mset_set size_union)
  then show ?thesis using cons manager_inv_card [of m] by simp
qed

theorem processes_conserved_witness:
  "posix.pool_run PosixSubProcessManager ([] @ [(0, 7)]) [] example_manager \<and>
   mset ([] @ [(0, 7)]) = mset [] + mset_set (active example_manager) \<and> nbRunning example_manager = length ([] @ [(0 :: nat, 7 :: rid)]) - length []"
proof -
  have "posix.pool_run PosixSubProcessManager ([] @ [(0, 7)]) [] example_manager"
    by (rule posix.pool_run.started [OF posix.pool_run.nil example_fresh example_added])
  then show ?thesis using processes_conserved [of "[] @ [(0, 7)]" "[]" example_manager] by simp
qed

text \<open>C31. \<open>waitForNext\<close> makes progress: when a command is active, \<open>poll\<close> reports only descriptors it was
  given, every stream ends and \<open>waitpid\<close> succeeds, the loop of \<open>waitForNext\<close> stops, no assertion fails, and it returns one of the
  active commands, which is then no longer active; the manager's invariant holds again.\<close>

theorem waitForNext_returns:
  assumes "manager_inv m" and "active m \<noteq> {}" and "polls_ok polls m" and "length (m_pollfds m) \<le> all_eofs polls"
    and "\<not> is_WaitError st"
  shows "\<exists>b m'. waitForNext polls st m = Inr (b, m') \<and> manager_inv m' \<and>
     (br_cmdId b, br_rule b) \<in> active m \<and> active m' = active m - {(br_cmdId b, br_rule b)}"
proof -
  obtain b m' where "waitForNext polls st m = Inr (b, m')" using waitForNext_total [OF assms] by blast
  then show ?thesis using waitForNext_inv [OF assms(1)] by blast
qed

theorem waitForNext_returns_witness:
  "\<exists>b m'. waitForNext example_polls (Exited 0) example_manager = Inr (b, m') \<and> manager_inv m' \<and>
     (br_cmdId b, br_rule b) \<in> active example_manager \<and> active m' = active example_manager - {(br_cmdId b, br_rule b)}"
  by (rule waitForNext_returns) (simp_all add: example_manager_inv example_polls_ok)

end
