(* ===== verification/Transition_System.thy ===== *)
theory Transition_System
  imports Falcon_Prelude
begin

text \<open>
  The interface between a component that runs as a state machine and what is shown about all its runs. A machine executes
  actions, some of which are enabled in a state; executing an action gives a new state or an error. The locales state what
  a component has to show for one action, and their lemmas say what follows for every run and every reachable state:

  \<^item> \<open>machine\<close>: an invariant is kept;
  \<^item> \<open>guarded_machine\<close>: moreover only expected errors happen;
  \<^item> \<open>total_machine\<close>: no error happens at all, which makes it a guarded machine that expects none;
  \<^item> \<open>terminating_machine\<close>: moreover a rank decreases with every action that counts, until a final state is reached.

  The builder, its files, its cache and the stream server are such machines.
\<close>

locale machine =
  fixes enabled :: "'a \<Rightarrow> 's \<Rightarrow> bool"
    and exec :: "'a \<Rightarrow> 's \<Rightarrow> 's result"
    and inv :: "'s \<Rightarrow> bool"
  assumes exec_inv: "inv s \<Longrightarrow> enabled a s \<Longrightarrow> exec a s = Inr s' \<Longrightarrow> inv s'"
begin

text \<open>A schedule whose actions are enabled when they are executed.\<close>

fun run_ok :: "'a list \<Rightarrow> 's \<Rightarrow> bool" where
  "run_ok [] s \<longleftrightarrow> True"
| "run_ok (a # as) s \<longleftrightarrow> enabled a s \<and> (case exec a s of Inl _ \<Rightarrow> True | Inr s' \<Rightarrow> run_ok as s')"

lemma run_keeps:
  assumes "inv s" "run_ok as s" "foldM exec as s = Inr s'"
  shows "inv s'"
  using assms
proof (induction as arbitrary: s)
  case (Cons a as)
  obtain s1 where s1: "exec a s = Inr s1" "foldM exec as s1 = Inr s'" using Cons.prems(3) by (auto simp: rbind_eq_Inr)
  then have "enabled a s" "run_ok as s1" using Cons.prems(2) by auto
  then show ?case using Cons.IH [OF exec_inv [OF Cons.prems(1) _ s1(1)] _ s1(2)] by blast
qed simp

lemma run_ok_append: "run_ok (as @ bs) s \<longleftrightarrow> run_ok as s \<and> (case foldM exec as s of Inl _ \<Rightarrow> True | Inr s' \<Rightarrow> run_ok bs s')"
  by (induction as arbitrary: s) (auto split: sum.splits)

inductive reachable :: "'s \<Rightarrow> 's \<Rightarrow> bool" for s0 where
  start: "reachable s0 s0"
| step: "reachable s0 s \<Longrightarrow> enabled a s \<Longrightarrow> exec a s = Inr s' \<Longrightarrow> reachable s0 s'"

inductive_cases reachableE: "reachable s0 s"

lemma reachable_inv: "reachable s0 s \<Longrightarrow> inv s0 \<Longrightarrow> inv s"
  by (induction rule: reachable.induct) (auto intro: exec_inv)

text \<open>The reachable states are those at the end of a run.\<close>

lemma reachable_run: "reachable s0 s \<longleftrightarrow> (\<exists>as. run_ok as s0 \<and> foldM exec as s0 = Inr s)"
proof
  show "\<exists>as. run_ok as s0 \<and> foldM exec as s0 = Inr s" if "reachable s0 s"
    using that
  proof induction
    case start
    show ?case by (rule exI [of _ "[]"]) simp
  next
    case (step s a s')
    then obtain as where "run_ok as s0" "foldM exec as s0 = Inr s" by blast
    then show ?case using step.hyps by (intro exI [of _ "as @ [a]"]) (simp add: run_ok_append foldM_append)
  qed
  have "reachable s0 s" if "run_ok as s1" "foldM exec as s1 = Inr s" "reachable s0 s1" for as s1
    using that
  proof (induction as arbitrary: s1)
    case (Cons a as)
    obtain s2 where s2: "exec a s1 = Inr s2" "foldM exec as s2 = Inr s" using Cons.prems(2) by (auto simp: rbind_eq_Inr)
    have "enabled a s1" "run_ok as s2" using Cons.prems(1) s2(1) by auto
    then show ?case using Cons.IH [OF _ s2(2)] reachable.step [OF Cons.prems(3) _ s2(1)] by blast
  qed simp
  then show "reachable s0 s" if "\<exists>as. run_ok as s0 \<and> foldM exec as s0 = Inr s" using that reachable.start by blast
qed

end

locale guarded_machine = machine +
  fixes expected :: "error \<Rightarrow> bool"
  assumes exec_error: "inv s \<Longrightarrow> enabled a s \<Longrightarrow> exec a s = Inl e \<Longrightarrow> expected e"
begin

lemma run_error:
  assumes "inv s" "run_ok as s" "foldM exec as s = Inl e"
  shows "expected e"
  using assms
proof (induction as arbitrary: s)
  case (Cons a as)
  then show ?case using exec_inv exec_error by (cases "exec a s") auto
qed simp

lemma reachable_error: "reachable s0 s \<Longrightarrow> inv s0 \<Longrightarrow> enabled a s \<Longrightarrow> exec a s = Inl e \<Longrightarrow> expected e"
  using reachable_inv exec_error by blast

end

locale total_machine = machine +
  assumes exec_total: "inv s \<Longrightarrow> enabled a s \<Longrightarrow> \<exists>s'. exec a s = Inr s'"

sublocale total_machine \<subseteq> safe: guarded_machine enabled exec inv "\<lambda>_. False"
  by unfold_locales (use exec_total in fastforce)

context total_machine begin

lemma run_succeeds:
  assumes "inv s" "run_ok as s"
  shows "\<exists>s'. foldM exec as s = Inr s' \<and> inv s'"
proof (cases "foldM exec as s")
  case (Inl e)
  then show ?thesis using safe.run_error [OF assms] by blast
qed (use run_keeps [OF assms] in simp)

end

locale terminating_machine = total_machine enabled exec inv
  for enabled :: "'a \<Rightarrow> 's \<Rightarrow> bool" and exec :: "'a \<Rightarrow> 's \<Rightarrow> 's result" and inv :: "'s \<Rightarrow> bool" +
  fixes rank :: "'s \<Rightarrow> nat"
    and final :: "'s \<Rightarrow> bool"
    and counts :: "'a \<Rightarrow> bool"
  assumes rank_less: "inv s \<Longrightarrow> enabled a s \<Longrightarrow> exec a s = Inr s' \<Longrightarrow> counts a \<Longrightarrow> \<not> final s \<Longrightarrow> rank s' < rank s"
    and rank_le: "inv s \<Longrightarrow> enabled a s \<Longrightarrow> exec a s = Inr s' \<Longrightarrow> \<not> counts a \<Longrightarrow> rank s' \<le> rank s"
    and final_stays: "final s \<Longrightarrow> exec a s = Inr s' \<Longrightarrow> final s'"
    and final_rank: "inv s \<Longrightarrow> rank s = 0 \<Longrightarrow> final s"
begin

lemma run_final: "final s \<Longrightarrow> foldM exec as s = Inr s' \<Longrightarrow> final s'"
  by (induction as arbitrary: s) (auto simp: rbind_eq_Inr dest: final_stays)

lemma run_rank:
  assumes "inv s" "run_ok as s" "foldM exec as s = Inr s'"
  shows "final s' \<or> rank s' + length (filter counts as) \<le> rank s"
  using assms
proof (induction as arbitrary: s)
  case (Cons a as)
  obtain s1 where s1: "exec a s = Inr s1" "foldM exec as s1 = Inr s'" using Cons.prems(3) by (auto simp: rbind_eq_Inr)
  have a: "enabled a s" "run_ok as s1" "inv s1" using Cons.prems s1(1) exec_inv by auto
  consider "final s'" | "rank s' + length (filter counts as) \<le> rank s1" "\<not> final s"
    using Cons.IH [OF a(3,2) s1(2)] final_stays [OF _ s1(1)] run_final [OF _ s1(2)] by blast
  then show ?case
    using rank_less [OF Cons.prems(1) a(1) s1(1)] rank_le [OF Cons.prems(1) a(1) s1(1)] by cases (cases "counts a", auto)
qed simp

text \<open>A run with enough actions that count ends.\<close>

lemma run_ends:
  assumes "inv s" "run_ok as s" "rank s \<le> length (filter counts as)"
  shows "\<exists>s'. foldM exec as s = Inr s' \<and> inv s' \<and> final s'"
proof -
  obtain s' where s': "foldM exec as s = Inr s'" "inv s'" using run_succeeds [OF assms(1,2)] by blast
  then show ?thesis using run_rank [OF assms(1,2) s'(1)] final_rank [OF s'(2)] assms(3) by auto
qed

end

end
