(* ===== verification/Parallel_Builder.thy ===== *)
theory Parallel_Builder
  imports Build_Plan Hash_Recompute Process_Manager Transition_System
begin

text \<open>
  The builder, \<open>src/src/graph_builder.cpp\<close> and \<open>src/src/graph_parallel_builder.cpp\<close>: it starts the
  ready rules of a plan, at most \<open>numThreads_\<close> at a time, waits for commands, and updates graph, plan and
  cache when a rule is finished.

  \<open>buildThread\<close> is a state machine: the control points are the heads of its three loops. Every step gets
  an \<open>os_event\<close>, which holds what the system does during the step: the new pipes, what \<open>poll\<close> and
  \<open>waitpid\<close> report, and what the running commands do to the disk. \<open>interrupt\<close> is called by another
  thread and may happen between any two steps. The calls of the output consumer are recorded as a trace.

  For graphs without depfiles the theory shows, for any cache, that a command runs only when all its inputs
  are ready, that graph and plan stay consistent, and that a build that ends with success has brought its
  targets up to date; and without a cache, that the build ends and passes every assertion.
\<close>

section \<open>Results\<close>

datatype BuildResult = UNKNOWN | SUCCEEDED | INTERRUPTED | FAILED

definition toString_BuildResult :: "BuildResult \<Rightarrow> string" where
  "toString_BuildResult v = (case v of UNKNOWN \<Rightarrow> ''UNKNOWN'' | SUCCEEDED \<Rightarrow> ''SUCCEEDED''
     | INTERRUPTED \<Rightarrow> ''INTERRUPTED'' | FAILED \<Rightarrow> ''FAILED'')"

datatype consumer_event = NewCommand nat string | EndCommand nat SubProcessExitStatus | CacheRetrieveAction string

section \<open>Class GraphParallelBuilder\<close>

text \<open>The control points: \<open>Loop\<close> and \<open>Spawn\<close> are the outer and the inner loop of the build, \<open>Flush\<close> the
  loop that waits for the remaining commands, \<open>Done\<close> the end of the thread.\<close>

datatype pc = Loop | Spawn | Flush | Done

record builder =
  b_graph :: graph
  b_plan :: plan
  b_cache :: "cache_manager option"
  b_world :: world
  b_manager :: manager
  b_result :: BuildResult
  b_interrupted :: bool
  b_events :: "consumer_event list"
  b_pc :: pc

text \<open>What does not change during a build: the hash function, the allocator, the watchman client, the
  recursion bound, the working directory and the number of threads.\<close>

record build_params =
  bp_sha :: "string \<Rightarrow> string"
  bp_al :: allocator
  bp_watchman :: watchman
  bp_fuel :: nat
  bp_workingDirectory :: string
  bp_numThreads :: nat

record os_event =
  e_pipes :: pipes
  e_polls :: "poll_result list"
  e_status :: wait_status
  e_disk :: "world \<Rightarrow> world"

definition GraphParallelBuilder :: "graph \<Rightarrow> plan \<Rightarrow> cache_manager option \<Rightarrow> world \<Rightarrow> builder" where
  "GraphParallelBuilder g p cache w =
     \<lparr>b_graph = g, b_plan = p, b_cache = cache, b_world = w, b_manager = PosixSubProcessManager,
      b_result = SUCCEEDED, b_interrupted = False, b_events = [], b_pc = Loop\<rparr>"

definition markOutputsUpToDate :: "rid \<Rightarrow> graph \<Rightarrow> graph result" where
  "markOutputsUpToDate r g =
     foldM (\<lambda>n g. let g = Node_setState n UP_TO_DATE g in foldM Rule_markInputReady (n_parents (g_node g n)) g)
       (r_outputs (g_rule g r)) g"

definition mark_sources :: "rid \<Rightarrow> graph \<Rightarrow> graph" where
  "mark_sources r g =
     fold (\<lambda>n g. if n_child (g_node g n) = None then Node_setState n UP_TO_DATE g else g) (r_inputs (g_rule g r)) g"

definition onRuleFinished :: "rid \<Rightarrow> builder \<Rightarrow> builder result" where
  "onRuleFinished r b =
     rbind (markOutputsUpToDate r (b_graph b)) (\<lambda>g.
       let g = Rule_setState r UP_TO_DATE (mark_sources r g)
       in rbind (notifyRuleBuilt g r (b_plan b)) (\<lambda>p. Inr (b\<lparr>b_graph := g, b_plan := p\<rparr>)))"

definition tryBuildRuleFromCache :: "rid \<Rightarrow> builder \<Rightarrow> (bool \<times> builder) result" where
  "tryBuildRuleFromCache r b =
     (case b_cache b of
        None \<Rightarrow> Inr (False, b)
      | Some cm \<Rightarrow>
          rbind (restoreRule (b_graph b) r (cm, b_world b)) (\<lambda>(restored, cm, w).
            let b = b\<lparr>b_cache := Some cm, b_world := w\<rparr> in
            if \<not> restored then Inr (False, b)
            else let g = b_graph b in
                 Inr (True, b\<lparr>b_events := b_events b @ map (\<lambda>n. CacheRetrieveAction (n_path (g_node g n))) (r_outputs (g_rule g r)),
                             b_graph := Rule_setTimestamp r (w_time w) g\<rparr>)))"

text \<open>The directories of the outputs and of the depfile; a failure is only logged.\<close>

definition createDirectories :: "graph \<Rightarrow> rid \<Rightarrow> world \<Rightarrow> world" where
  "createDirectories g r w =
     (let w = fold (\<lambda>n w. snd (createPath (n_path (g_node g n)) w)) (r_outputs (g_rule g r)) w
      in if Rule_hasDepfile g r then snd (createPath (r_depfile (g_rule g r)) w) else w)"

definition buildRule :: "build_params \<Rightarrow> os_event \<Rightarrow> rid \<Rightarrow> builder \<Rightarrow> builder result" where
  "buildRule P e r b =
     (if Rule_isPhony (b_graph b) r then onRuleFinished r b
      else rbind (tryBuildRuleFromCache r (b\<lparr>b_world := createDirectories (b_graph b) r (b_world b)\<rparr>)) (\<lambda>(restored, b).
             if restored then onRuleFinished r b
             else let command = r_command (g_rule (b_graph b) r) in
                  rbind (addProcess (e_pipes e) r command (bp_workingDirectory P) (b_manager b)) (\<lambda>(i, m).
                    Inr (b\<lparr>b_manager := m, b_events := b_events b @ [NewCommand i command]\<rparr>))))"

text \<open>The depfile of a rule that was built, and the hashes that depend on it; the flag tells whether the
  depfile could be loaded.\<close>

definition loadDepfile :: "build_params \<Rightarrow> rid \<Rightarrow> builder \<Rightarrow> (bool \<times> builder) result" where
  "loadDepfile P r b =
     (if Rule_hasDepfile (b_graph b) r
      then rbind (loadFromfile (bp_sha P) (bp_al P) (bp_watchman P) (b_world b)
                    (r_depfile (g_rule (b_graph b) r)) r (b_graph b)) (\<lambda>(res, g).
             if res \<noteq> SUCCESS then Inr (False, b\<lparr>b_graph := g\<rparr>)
             else rbind (recomputeRuleHash (bp_sha P) (bp_al P) (bp_watchman P) (bp_fuel P) r True False
                           (g, b_cache b, b_world b)) (\<lambda>(g, cache, w).
                    Inr (True, b\<lparr>b_graph := g, b_cache := cache, b_world := w\<rparr>)))
      else Inr (True, b))"

definition saveInCache :: "rid \<Rightarrow> builder \<Rightarrow> builder result" where
  "saveInCache r b =
     (case b_cache b of
        None \<Rightarrow> Inr b
      | Some cm \<Rightarrow> rbind (saveRule (b_graph b) r (cm, b_world b)) (\<lambda>(cm, w). Inr (b\<lparr>b_cache := Some cm, b_world := w\<rparr>)))"

definition builder_waitForNext :: "build_params \<Rightarrow> os_event \<Rightarrow> builder \<Rightarrow> (BuildResult \<times> builder) result" where
  "builder_waitForNext P e b =
     rbind (waitForNext (e_polls e) (e_status e) (b_manager b)) (\<lambda>(res, m).
       let r = br_rule res; w = e_disk e (b_world b);
           b = b\<lparr>b_manager := m, b_world := w, b_events := b_events b @ [EndCommand (br_cmdId res) (br_status res)],
                b_graph := Rule_setTimestamp r (w_time w) (b_graph b)\<rparr>
       in if br_status res \<noteq> EXIT_SUCCEEDED
          then Inr (if br_status res = EXIT_INTERRUPTED then INTERRUPTED else FAILED, b)
          else rbind (loadDepfile P r b) (\<lambda>(ok, b).
                 if \<not> ok then Inr (FAILED, b)
                 else rbind (saveInCache r b) (\<lambda>b.
                        rbind (onRuleFinished r b) (\<lambda>b. Inr (SUCCEEDED, b)))))"

definition build_step :: "build_params \<Rightarrow> os_event \<Rightarrow> builder \<Rightarrow> builder result" where
  "build_step P e b =
     (case b_pc b of
        Loop \<Rightarrow>
          Inr (b\<lparr>b_pc := if b_result b = SUCCEEDED \<and> \<not> plan_done (b_plan b) \<and> \<not> b_interrupted b
                         then Spawn else Flush\<rparr>)
      | Spawn \<Rightarrow>
          if hasWork (b_plan b) \<and> nbRunning (b_manager b) < bp_numThreads P
          then (case findWork (b_plan b) of
                  (None, p) \<Rightarrow> Inl (AssertFailed ''rule'')
                | (Some r, p) \<Rightarrow> buildRule P e r (b\<lparr>b_plan := p\<rparr>))
          else if nbRunning (b_manager b) > 0
          then rbind (builder_waitForNext P e b) (\<lambda>(result, b). Inr (b\<lparr>b_result := result, b_pc := Loop\<rparr>))
          else Inr (b\<lparr>b_pc := Loop\<rparr>)
      | Flush \<Rightarrow>
          if nbRunning (b_manager b) > 0
          then rbind (builder_waitForNext P e b) (\<lambda>(tmp, b).
                 Inr (if b_result b = SUCCEEDED then b\<lparr>b_result := tmp\<rparr> else b))
          else Inr (b\<lparr>b_pc := Done\<rparr>)
      | Done \<Rightarrow> Inr b)"

definition builder_interrupt :: "builder \<Rightarrow> builder result" where
  "builder_interrupt b = rbind (manager_interrupt (b_manager b)) (\<lambda>pids. Inr (b\<lparr>b_interrupted := True\<rparr>))"

text \<open>A schedule of the build thread and of the thread that interrupts it, and running it.\<close>

datatype sched = is_Step: Step os_event | Interrupt

definition sched_step :: "build_params \<Rightarrow> sched \<Rightarrow> builder \<Rightarrow> builder result" where
  "sched_step P s b = (case s of Step e \<Rightarrow> build_step P e b | Interrupt \<Rightarrow> builder_interrupt b)"

definition build_run :: "build_params \<Rightarrow> sched list \<Rightarrow> builder \<Rightarrow> builder result" where
  "build_run P ss b = foldM (sched_step P) ss b"

text \<open>The states that the thread can reach, with an interruption that may come at any time.\<close>

inductive build_reach :: "build_params \<Rightarrow> builder \<Rightarrow> builder \<Rightarrow> bool" for P where
  refl: "build_reach P b b"
| step: "build_reach P b b1 \<Longrightarrow> fresh_pipes (e_pipes e) (b_manager b1) \<Longrightarrow> build_step P e b1 = Inr b2 \<Longrightarrow> build_reach P b b2"
| interrupt: "build_reach P b b1 \<Longrightarrow> builder_interrupt b1 = Inr b2 \<Longrightarrow> build_reach P b b2"

section \<open>The effect of a finished rule on the graph\<close>

definition lift :: "nid set \<Rightarrow> rid set \<Rightarrow> (nid \<times> rid) set \<Rightarrow> graph \<Rightarrow> graph" where
  "lift N R E g =
     g\<lparr>g_node := (\<lambda>n. if n \<in> N then (g_node g n)\<lparr>n_state := UP_TO_DATE, n_lazy := False\<rparr> else g_node g n),
       g_rule := (\<lambda>r. (g_rule g r)
         \<lparr>r_state := (if r \<in> R then UP_TO_DATE else r_state (g_rule g r)),
          r_numReady := r_numReady (g_rule g r) + card {m. (m, r) \<in> E}\<rparr>)\<rparr>"

lemma lift_sel [simp]:
  "g_roots (lift N R E g) = g_roots g" "g_sources (lift N R E g) = g_sources g"
  "g_nodes (lift N R E g) = g_nodes g" "g_rules (lift N R E g) = g_rules g"
  "n_path (g_node (lift N R E g) n) = n_path (g_node g n)"
  "n_child (g_node (lift N R E g) n) = n_child (g_node g n)"
  "n_parents (g_node (lift N R E g) n) = n_parents (g_node g n)"
  "n_state (g_node (lift N R E g) n) = (if n \<in> N then UP_TO_DATE else n_state (g_node g n))"
  "r_inputs (g_rule (lift N R E g) r) = r_inputs (g_rule g r)"
  "r_outputs (g_rule (lift N R E g) r) = r_outputs (g_rule g r)"
  "r_command (g_rule (lift N R E g) r) = r_command (g_rule g r)"
  "r_depfile (g_rule (lift N R E g) r) = r_depfile (g_rule g r)"
  "r_numImplicit (g_rule (lift N R E g) r) = r_numImplicit (g_rule g r)"
  "r_state (g_rule (lift N R E g) r) = (if r \<in> R then UP_TO_DATE else r_state (g_rule g r))"
  "r_numReady (g_rule (lift N R E g) r) = r_numReady (g_rule g r) + card {m. (m, r) \<in> E}"
  by (auto simp: lift_def)

lemma lift_empty [simp]: "lift {} {} {} g = g"
  by (simp add: lift_def)

lemma lift_isSource [simp]: "Node_isSource (lift N R E g) n = Node_isSource g n"
  by (simp add: Node_isSource_def)

lemma lift_isDirty [simp]: "Node_isDirty (lift N R E g) n \<longleftrightarrow> Node_isDirty g n \<and> n \<notin> N"
  by (simp add: Node_isDirty_def)

lemma lift_rule_isDirty [simp]: "Rule_isDirty (lift N R E g) r \<longleftrightarrow> Rule_isDirty g r \<and> r \<notin> R"
  by (simp add: Rule_isDirty_def)

lemma lift_live [simp]: "live (lift N R E g) = live g"
  by (simp add: live_def)

lemma lift_wf_graph [simp]: "wf_graph (lift N R E g) = wf_graph g"
  by (simp add: wf_graph_def wf_node_def wf_rule_def cong: option.case_cong)

lemma lift_acyclic [simp]: "acyclic_graph (lift N R E g) = acyclic_graph g"
  by (simp add: acyclic_graph_def dep_edges_def)

lemma lift_setState: "Node_setState n UP_TO_DATE (lift N R E g) = lift (insert n N) R E g"
  by (auto simp: lift_def Node_setState_def upd_node_def fun_eq_iff)

lemma lift_rule_setState: "Rule_setState r UP_TO_DATE (lift N R E g) = lift N (insert r R) E g"
  by (auto simp: lift_def Rule_setState_def upd_rule_def fun_eq_iff)

lemma lift_markInputReady:
  assumes "finite {m. (m, q) \<in> E}" and "(n, q) \<notin> E"
    and "r_numReady (g_rule g q) + card {m. (m, q) \<in> E} < length (r_inputs (g_rule g q))"
  shows "Rule_markInputReady q (lift N R E g) = Inr (lift N R (insert (n, q) E) g)"
proof -
  have same: "{m. (m, q') \<in> insert (n, q) E} = {m. (m, q') \<in> E}" if "q' \<noteq> q" for q' using that by auto
  have "{m. (m, q) \<in> insert (n, q) E} = insert n {m. (m, q) \<in> E}" by auto
  then have "card {m. (m, q) \<in> insert (n, q) E} = Suc (card {m. (m, q) \<in> E})" using assms by simp
  with same assms show ?thesis
    by (auto simp: Rule_markInputReady_def lift_def upd_rule_def fun_eq_iff)
qed

text \<open>The graph after \<open>r\<close> is finished: its outputs and the source files among its inputs are up to date,
  and every rule has one more ready input per output it consumes.\<close>

definition deliveries :: "graph \<Rightarrow> nid set \<Rightarrow> (nid \<times> rid) set" where
  "deliveries g N = {(n, q). n \<in> N \<and> q \<in> set (n_parents (g_node g n))}"

definition finished :: "rid \<Rightarrow> graph \<Rightarrow> graph" where
  "finished r g = lift (set (r_outputs (g_rule g r)) \<union> {n \<in> set (r_inputs (g_rule g r)). n_child (g_node g n) = None}) {r}
     (deliveries g (set (r_outputs (g_rule g r)))) g"

text \<open>The invariant on the states during a build: a rule is dirty exactly if its outputs are (so no output was
  fetched lazily), and a rule is dirty if a generated input is. The condition of \<open>state_ok\<close> on source files is
  not needed, and the scan on startup does not establish it.\<close>

definition strict_states :: "graph \<Rightarrow> bool" where
  "strict_states g \<longleftrightarrow> dirty_rules g \<and>
     (\<forall>r \<in> set (g_rules g). Rule_isDirty g r \<longrightarrow> (\<forall>n \<in> set (r_outputs (g_rule g r)). Node_isDirty g n)) \<and>
     (\<forall>r \<in> set (g_rules g). \<forall>n \<in> set (r_inputs (g_rule g r)). Node_isDirty g n \<and> \<not> Node_isSource g n \<longrightarrow> Rule_isDirty g r)"

lemma state_ok_strict: "state_ok g \<Longrightarrow> \<forall>n \<in> live g. \<not> n_lazy (g_node g n) \<Longrightarrow> wf_graph g \<Longrightarrow> strict_states g"
  using wf_output [of g] state_ok_dirty_rules [of g] by (fastforce simp: strict_states_def state_ok_def)

lemma counters_ready_iff:
  assumes "counters_ok g" and "r \<in> set (g_rules g)"
  shows "Rule_ready g r \<longleftrightarrow> (\<forall>i \<in> set (r_inputs (g_rule g r)). input_ready g i)"
  using ready_input [OF assms] not_ready_input [OF assms] by (metis input_ready_def Node_isSource_def)

text \<open>The assertion of \<open>markInputReady\<close>: there is room for every delivery of a dirty node.\<close>

lemma delivery_room:
  assumes g: "wf_graph g" "counters_ok g" and N: "N \<subseteq> live g" "\<forall>n \<in> N. \<not> input_ready g n"
    and E: "E \<subseteq> deliveries g N" and n: "(n, q) \<in> deliveries g N" "(n, q) \<notin> E"
  shows "finite {m. (m, q) \<in> E}" and "r_numReady (g_rule g q) + card {m. (m, q) \<in> E} < length (r_inputs (g_rule g q))"
proof -
  have q: "q \<in> set (g_rules g)" using n(1) N(1) wf_parent [OF g(1)] by (auto simp: deliveries_def)
  let ?I = "r_inputs (g_rule g q)" and ?B = "insert n {m. (m, q) \<in> E}"
  have B: "?B \<subseteq> {i \<in> set ?I. \<not> input_ready g i}"
    using E n(1) N wf_parent [OF g(1)] by (fastforce simp: deliveries_def)
  then have fin: "finite ?B" by (rule finite_subset) simp
  then show "finite {m. (m, q) \<in> E}" by simp
  have "card ?B + r_numReady (g_rule g q) \<le> card {i \<in> set ?I. \<not> input_ready g i} + card {i \<in> set ?I. input_ready g i}"
    using g(2) q card_mono [OF _ B] by (simp add: counters_ok_def counter_ok_def card_set_filter_distinct wf_distinct(2) [OF g(1) q])
  also have "\<dots> = length ?I"
    using sum_length_filter_compl [of "input_ready g" ?I]
    by (simp add: card_set_filter_distinct wf_distinct(2) [OF g(1) q])
  finally show "r_numReady (g_rule g q) + card {m. (m, q) \<in> E} < length ?I" using fin n(2) by simp
qed

lemma deliver_loop:
  assumes g: "wf_graph g" "counters_ok g" and N: "N \<subseteq> live g" "\<forall>n \<in> N. \<not> input_ready g n"
    and n: "n \<in> N" "n \<notin> D" and D: "D \<subseteq> N"
  shows "foldM Rule_markInputReady (n_parents (g_node g n)) (lift (insert n D) {} (deliveries g D) g)
           = Inr (lift (insert n D) {} (deliveries g (insert n D)) g)"
proof -
  let ?P = "\<lambda>qs s. s = lift (insert n D) {} (deliveries g D \<union> {n} \<times> set qs) g"
  have "\<exists>s. foldM Rule_markInputReady (n_parents (g_node g n)) (lift (insert n D) {} (deliveries g D) g) = Inr s \<and>
      ?P (n_parents (g_node g n)) s"
  proof (rule foldM_total [where P = ?P])
    fix qs q rest s
    assume split: "n_parents (g_node g n) = qs @ q # rest" and s: "?P qs s"
    let ?E = "deliveries g D \<union> {n} \<times> set qs"
    have "q \<notin> set qs" using wf_distinct(1) [OF g(1), of n] n(1) N(1) split by auto
    then have new: "(n, q) \<notin> ?E" using n(2) by (auto simp: deliveries_def)
    have sub: "?E \<subseteq> deliveries g N" "(n, q) \<in> deliveries g N" using D n(1) split by (auto simp: deliveries_def)
    have "insert (n, q) ?E = deliveries g D \<union> {n} \<times> set (qs @ [q])" by auto
    then show "\<exists>s'. Rule_markInputReady q s = Inr s' \<and> ?P (qs @ [q]) s'"
      using lift_markInputReady [OF delivery_room(1) [OF g N sub new] new delivery_room(2) [OF g N sub new]] s by simp
  qed simp
  moreover have "deliveries g D \<union> {n} \<times> set (n_parents (g_node g n)) = deliveries g (insert n D)"
    by (auto simp: deliveries_def)
  ultimately show ?thesis by simp
qed

lemma markOutputsUpToDate_eq:
  assumes g: "wf_graph g" "counters_ok g" "strict_states g" and r: "r \<in> set (g_rules g)" "Rule_isDirty g r"
  shows "markOutputsUpToDate r g
           = Inr (lift (set (r_outputs (g_rule g r))) {} (deliveries g (set (r_outputs (g_rule g r)))) g)"
proof -
  let ?O = "r_outputs (g_rule g r)" and ?P = "\<lambda>ns s. s = lift (set ns) {} (deliveries g (set ns)) g"
  have N: "set ?O \<subseteq> live g" "\<forall>n \<in> set ?O. \<not> input_ready g n"
    using wf_output [OF g(1) r(1)] g(3) r by (auto simp: strict_states_def input_ready_def Node_isSource_def)
  have "\<exists>s. markOutputsUpToDate r g = Inr s \<and> ?P ?O s"
    unfolding markOutputsUpToDate_def
  proof (rule foldM_total [where P = ?P])
    fix ns n rest s
    assume split: "?O = ns @ n # rest" and s: "?P ns s"
    have "n \<notin> set ns" "n \<in> set ?O" "set ns \<subseteq> set ?O" using wf_distinct(3) [OF g(1) r(1)] split by auto
    then show "\<exists>s'. (let g = Node_setState n UP_TO_DATE s in foldM Rule_markInputReady (n_parents (g_node g n)) g) = Inr s' \<and>
        ?P (ns @ [n]) s'"
      using deliver_loop [OF g(1,2) N, of n "set ns"] s by (simp add: lift_setState Let_def)
  qed (simp add: deliveries_def)
  then show ?thesis by simp
qed

lemma mark_sources_eq:
  "mark_sources r (lift N R E g) = lift (N \<union> {n \<in> set (r_inputs (g_rule g r)). n_child (g_node g n) = None}) R E g"
proof -
  have "fold (\<lambda>n g. if n_child (g_node g n) = None then Node_setState n UP_TO_DATE g else g) ns (lift N R E g)
      = lift (N \<union> {n \<in> set ns. n_child (g_node g n) = None}) R E g" for ns
  proof (induction ns arbitrary: N)
    case (Cons n ns)
    have "N \<union> {m \<in> set (n # ns). n_child (g_node g m) = None}
        = (if n_child (g_node g n) = None then insert n N else N) \<union> {m \<in> set ns. n_child (g_node g m) = None}" by auto
    then show ?case using Cons [of N] Cons [of "insert n N"] by (simp add: lift_setState)
  qed simp
  then show ?thesis by (simp add: mark_sources_def)
qed

lemma finished_steps:
  assumes "wf_graph g" "counters_ok g" "strict_states g" "r \<in> set (g_rules g)" "Rule_isDirty g r"
  shows "\<exists>g1. markOutputsUpToDate r g = Inr g1 \<and> Rule_setState r UP_TO_DATE (mark_sources r g1) = finished r g"
  unfolding markOutputsUpToDate_eq [OF assms] by (simp add: mark_sources_eq lift_rule_setState finished_def)

section \<open>A finished rule keeps the invariants\<close>

text \<open>The invariant on the graph during a build of a graph without depfiles.\<close>

definition graph_inv :: "graph \<Rightarrow> bool" where
  "graph_inv g \<longleftrightarrow> wf_graph g \<and> acyclic_graph g \<and> counters_ok g \<and> strict_states g \<and> (\<forall>q. r_depfile (g_rule g q) = [])"

text \<open>Hashes do not matter for the invariant.\<close>

lemma shape_stateD:
  assumes "shape g' = shape g"
  shows "n_state (g_node g' n) = n_state (g_node g n)" "n_lazy (g_node g' n) = n_lazy (g_node g n)"
    "r_state (g_rule g' r) = r_state (g_rule g r)" "r_numReady (g_rule g' r) = r_numReady (g_rule g r)"
  using arg_cong [OF shape_node [OF assms, of n], of n_state] arg_cong [OF shape_node [OF assms, of n], of n_lazy]
    arg_cong [OF shape_rule [OF assms, of r], of r_state] arg_cong [OF shape_rule [OF assms, of r], of r_numReady] by simp_all

lemma shape_derived:
  assumes "shape g' = shape g"
  shows "Node_isDirty g' n = Node_isDirty g n" "Node_isSource g' n = Node_isSource g n" "Rule_isDirty g' r = Rule_isDirty g r"
    "upward g' n = upward g n" "consumers g' S = consumers g S" "input_ready g' = input_ready g"
  by (simp_all add: fun_eq_iff Node_isDirty_def Node_isSource_def Rule_isDirty_def upward_def edges_def consumers_def input_ready_def
      shapeD [OF assms] shape_stateD [OF assms])

lemma shape_graph_inv:
  assumes "shape g' = shape g"
  shows "graph_inv g' = graph_inv g"
  by (simp add: graph_inv_def shape_wf [OF assms] shape_acyclic [OF assms] counters_ok_def counter_ok_def strict_states_def dirty_rules_def
      shapeD [OF assms] shape_stateD [OF assms] shape_derived [OF assms] shape_live [OF assms])

lemma finished_sel [simp]:
  "g_rules (finished r g) = g_rules g" "r_inputs (g_rule (finished r g) q) = r_inputs (g_rule g q)"
  "r_outputs (g_rule (finished r g) q) = r_outputs (g_rule g q)" "n_parents (g_node (finished r g) n) = n_parents (g_node g n)"
  "n_child (g_node (finished r g) n) = n_child (g_node g n)" "live (finished r g) = live g"
  "r_depfile (g_rule (finished r g) q) = r_depfile (g_rule g q)" "wf_graph (finished r g) = wf_graph g"
  "acyclic_graph (finished r g) = acyclic_graph g" "Node_isSource (finished r g) n = Node_isSource g n"
  "Rule_isDirty (finished r g) q \<longleftrightarrow> Rule_isDirty g q \<and> q \<noteq> r" "g_nodes (finished r g) = g_nodes g"
  by (simp_all add: finished_def)

lemma finished_isDirty:
  "Node_isDirty (finished r g) n \<longleftrightarrow> Node_isDirty g n \<and> n \<notin> set (r_outputs (g_rule g r)) \<and>
     \<not> (n \<in> set (r_inputs (g_rule g r)) \<and> Node_isSource g n)"
  by (auto simp: finished_def Node_isSource_def)

lemma finished_input_ready:
  "input_ready (finished r g) n \<longleftrightarrow> input_ready g n \<or> n \<in> set (r_outputs (g_rule g r))"
  by (auto simp: input_ready_def finished_isDirty)

lemma finished_counters:
  assumes g: "wf_graph g" "counters_ok g" "strict_states g" and r: "r \<in> set (g_rules g)" "Rule_isDirty g r"
  shows "counters_ok (finished r g)"
  unfolding counters_ok_def counter_ok_def
proof
  fix q assume "q \<in> set (g_rules (finished r g))"
  then have q: "q \<in> set (g_rules g)" by simp
  let ?I = "r_inputs (g_rule g q)" and ?O = "set (r_outputs (g_rule g r))"
  have O: "\<forall>n \<in> ?O. n \<in> live g \<and> \<not> input_ready g n"
    using wf_output [OF g(1) r(1)] g(3) r by (auto simp: strict_states_def input_ready_def Node_isSource_def)
  have del: "{m. (m, q) \<in> deliveries g ?O} = {i \<in> set ?I. i \<in> ?O}"
    using O wf_parent [OF g(1)] wf_input [OF g(1) q] by (auto simp: deliveries_def)
  have "card {i \<in> set ?I. input_ready (finished r g) i} = card {i \<in> set ?I. input_ready g i} + card {i \<in> set ?I. i \<in> ?O}"
    unfolding finished_input_ready
    by (subst card_Un_disjoint [symmetric]) (use O in \<open>auto intro!: arg_cong [where f = card]\<close>)
  then have "card {i \<in> set ?I. input_ready (finished r g) i} = r_numReady (g_rule g q) + card {m. (m, q) \<in> deliveries g ?O}"
    using g(2) q by (simp add: del counters_ok_def counter_ok_def card_set_filter_distinct wf_distinct(2) [OF g(1) q])
  then show "r_numReady (g_rule (finished r g) q) = length (filter (input_ready (finished r g)) (r_inputs (g_rule (finished r g) q)))"
    by (simp add: card_set_filter_distinct wf_distinct(2) [OF g(1) q]) (simp add: finished_def)
qed

lemma finished_states:
  assumes g: "wf_graph g" "counters_ok g" "strict_states g" and r: "r \<in> set (g_rules g)" "Rule_isDirty g r" "Rule_ready g r"
  shows "strict_states (finished r g)"
proof -
  let ?g = "finished r g"
  have st: "dirty_rules g" using g(3) by (simp add: strict_states_def)
  have 1: "Rule_isDirty ?g q" if "n \<in> live g" "n_child (g_node g n) = Some q" "Node_isDirty ?g n" for n q
  proof -
    have "q \<noteq> r" using wf_child [OF g(1) that(1,2)] that(3) by (auto simp: finished_isDirty)
    then show ?thesis using st that by (auto simp: finished_isDirty dirty_rules_def)
  qed
  have 2: "Node_isDirty ?g n" if "q \<in> set (g_rules g)" "Rule_isDirty ?g q" "n \<in> set (r_outputs (g_rule g q))" for q n
  proof -
    have n: "n_child (g_node g n) = Some q" "Node_isDirty g n"
      using wf_output [OF g(1) that(1,3)] g(3) that by (auto simp: strict_states_def)
    then have "n \<notin> set (r_outputs (g_rule g r))" using wf_output [OF g(1) r(1)] that(2) by auto
    then show ?thesis using n by (simp add: finished_isDirty Node_isSource_def)
  qed
  have 3: "Rule_isDirty ?g q" if "q \<in> set (g_rules g)" "n \<in> set (r_inputs (g_rule g q))" "Node_isDirty ?g n" "\<not> Node_isSource g n" for q n
  proof -
    have "q \<noteq> r" using that(2,3) counters_ready_iff [OF g(2) r(1)] r(3) by (auto simp: finished_isDirty input_ready_def)
    then show ?thesis using g(3) that by (auto simp: finished_isDirty strict_states_def)
  qed
  show ?thesis unfolding strict_states_def dirty_rules_def finished_sel using 1 2 3 unfolding finished_sel by blast
qed

lemma strict_input:
  "strict_states g \<Longrightarrow> q \<in> set (g_rules g) \<Longrightarrow> n \<in> set (r_inputs (g_rule g q)) \<Longrightarrow> \<not> input_ready g n \<Longrightarrow> Rule_isDirty g q"
  unfolding strict_states_def input_ready_def by blast

lemma finished_graph_inv:
  assumes "graph_inv g" "r \<in> set (g_rules g)" "Rule_isDirty g r" "Rule_ready g r"
  shows "graph_inv (finished r g)"
  using assms finished_counters [of g r] finished_states [of g r] by (simp add: graph_inv_def)

lemma finished_ready:
  assumes g: "graph_inv g" and r: "r \<in> set (g_rules g)" "Rule_isDirty g r" "Rule_ready g r" and q: "q \<in> set (g_rules g)"
  shows "Rule_ready (finished r g) q \<longleftrightarrow>
     (\<forall>i \<in> set (r_inputs (g_rule g q)). input_ready g i \<or> i \<in> set (r_outputs (g_rule g r)))"
  using counters_ready_iff [of "finished r g" q] finished_graph_inv [OF g r] q
  by (simp add: finished_input_ready graph_inv_def)

text \<open>What the plan learns: the consumers of the outputs that are now ready.\<close>

lemma finished_new_ready:
  assumes g: "graph_inv g" and r: "r \<in> set (g_rules g)" "Rule_isDirty g r" "Rule_ready g r" and q: "q \<in> set (g_rules g)"
  shows "Rule_ready (finished r g) q \<and> (\<exists>n \<in> set (r_outputs (g_rule g r)). q \<in> set (n_parents (g_node g n))) \<longleftrightarrow>
    Rule_ready (finished r g) q \<and> \<not> Rule_ready g q"
    and "Rule_ready (finished r g) q \<Longrightarrow> \<not> Rule_ready g q \<Longrightarrow> Rule_isDirty g q \<and> q \<noteq> r"
    and "Rule_ready g q \<Longrightarrow> Rule_ready (finished r g) q"
proof -
  have inv: "wf_graph g" "counters_ok g" "strict_states g" using g by (auto simp: graph_inv_def)
  note old = counters_ready_iff [OF inv(2) q] and new = finished_ready [OF g r q]
  have out: "n \<in> live g \<and> Node_isDirty g n \<and> \<not> input_ready g n" if "n \<in> set (r_outputs (g_rule g r))" for n
    using wf_output [OF inv(1) r(1) that] inv(3) r that by (auto simp: strict_states_def input_ready_def Node_isSource_def)
  have par: "q \<in> set (n_parents (g_node g n)) \<longleftrightarrow> n \<in> set (r_inputs (g_rule g q))" if "n \<in> set (r_outputs (g_rule g r))" for n
    using out [OF that] wf_parent [OF inv(1)] wf_input [OF inv(1) q] by blast
  show "Rule_ready (finished r g) q \<and> (\<exists>n \<in> set (r_outputs (g_rule g r)). q \<in> set (n_parents (g_node g n))) \<longleftrightarrow>
    Rule_ready (finished r g) q \<and> \<not> Rule_ready g q"
    using old new out par by blast
  show "Rule_ready g q \<Longrightarrow> Rule_ready (finished r g) q" using old new by blast
  assume "Rule_ready (finished r g) q" "\<not> Rule_ready g q"
  then obtain i where "i \<in> set (r_inputs (g_rule g q))" "i \<in> set (r_outputs (g_rule g r))" using old new by blast
  then have "Rule_isDirty g q" using out strict_input [OF inv(3) q] by blast
  then show "Rule_isDirty g q \<and> q \<noteq> r" using \<open>\<not> Rule_ready g q\<close> r(3) by blast
qed

lemma finished_plan_inv:
  assumes g: "graph_inv g" and inv: "plan_inv g p R" and r: "r \<in> R"
  shows "\<exists>p'. notifyRuleBuilt (finished r g) r p = Inr p' \<and> plan_inv (finished r g) p' (R - {r}) \<and>
     p_rules p' = p_rules p \<and> p_numStarted p' = p_numStarted p"
proof -
  have sub: "p_rules p \<subseteq> set (g_rules g)" "R \<subseteq> p_rules p" and R: "\<And>q. q \<in> R \<Longrightarrow> Rule_isDirty g q \<and> Rule_ready g q"
    and ready: "p_readyRules p = {q \<in> p_rules p. Rule_isDirty g q \<and> Rule_ready g q} - R"
    and num: "p_numStarted p = card {q \<in> p_rules p. \<not> Rule_isDirty g q} + card R"
    and closed: "closed_rules g (p_rules p) (p_rules p)"
    using inv unfolding plan_inv_def by blast+
  have rr: "r \<in> set (g_rules g)" "Rule_isDirty g r" "Rule_ready g r" using r sub R [OF r] by auto
  note new = finished_new_ready [OF g rr]
  let ?g = "finished r g"
  let ?p = "p\<lparr>p_readyRules := p_readyRules p \<union>
      {q \<in> p_rules p. Rule_ready ?g q \<and> (\<exists>n \<in> set (r_outputs (g_rule ?g r)). q \<in> set (n_parents (g_node ?g n)))}\<rparr>"
  have eq: "notifyRuleBuilt ?g r p = Inr ?p" by (rule notifyRuleBuilt_eq) (use r sub ready in auto)
  have "{q \<in> p_rules p. Rule_ready ?g q \<and> (\<exists>n \<in> set (r_outputs (g_rule ?g r)). q \<in> set (n_parents (g_node ?g n)))}
      = {q \<in> p_rules p. Rule_ready ?g q \<and> \<not> Rule_ready g q}"
    using new(1) sub(1) by auto
  then have ready': "p_readyRules ?p = {q \<in> p_rules p. Rule_isDirty ?g q \<and> Rule_ready ?g q} - (R - {r})"
    using ready new(2,3) sub R r rr by auto
  have fin: "finite R" "finite (p_rules p)" using plan_inv_finite [OF inv] by auto
  have "card R = Suc (card (R - {r}))" by (rule card.remove [OF fin(1) r])
  moreover have "{q \<in> p_rules p. \<not> Rule_isDirty ?g q} = insert r {q \<in> p_rules p. \<not> Rule_isDirty g q}" using r sub by auto
  ultimately have num': "p_numStarted ?p = card {q \<in> p_rules p. \<not> Rule_isDirty ?g q} + card (R - {r})"
    using num rr(2) fin(2) by simp
  have closed': "closed_rules ?g (p_rules p) (p_rules p)"
    using closed new(3) sub(1) unfolding closed_rules_def planned_def finished_sel finished_isDirty by blast
  have "\<forall>q \<in> R - {r}. Rule_isDirty ?g q \<and> Rule_ready ?g q" using R new(3) sub by auto
  then have "plan_inv ?g ?p (R - {r})"
    using sub ready' num' closed' unfolding plan_inv_def by (simp del: finished_sel(11)) (auto simp: finished_sel(1))
  then show ?thesis using eq by simp
qed

lemma onRuleFinished_inv:
  assumes g: "graph_inv (b_graph b)" and inv: "plan_inv (b_graph b) (b_plan b) R" and r: "r \<in> R"
  shows "\<exists>p'. onRuleFinished r b = Inr (b\<lparr>b_graph := finished r (b_graph b), b_plan := p'\<rparr>) \<and>
     graph_inv (finished r (b_graph b)) \<and> plan_inv (finished r (b_graph b)) p' (R - {r}) \<and>
     p_rules p' = p_rules (b_plan b) \<and> p_numStarted p' = p_numStarted (b_plan b)"
proof -
  have rr: "r \<in> set (g_rules (b_graph b))" "Rule_isDirty (b_graph b) r" "Rule_ready (b_graph b) r"
    using inv r unfolding plan_inv_def by blast+
  obtain g1 where g1: "markOutputsUpToDate r (b_graph b) = Inr g1" "Rule_setState r UP_TO_DATE (mark_sources r g1) = finished r (b_graph b)"
    using finished_steps [of "b_graph b" r] g rr by (auto simp: graph_inv_def)
  obtain p' where p': "notifyRuleBuilt (finished r (b_graph b)) r (b_plan b) = Inr p'" "plan_inv (finished r (b_graph b)) p' (R - {r})"
    "p_rules p' = p_rules (b_plan b)" "p_numStarted p' = p_numStarted (b_plan b)"
    using finished_plan_inv [OF g inv r] by blast
  have "onRuleFinished r b = Inr (b\<lparr>b_graph := finished r (b_graph b), b_plan := p'\<rparr>)"
    using g1 p'(1) by (simp add: onRuleFinished_def Let_def)
  then show ?thesis using p' finished_graph_inv [OF g rr] by blast
qed

lemma setTimestamp_inv [simp]:
  "graph_inv (Rule_setTimestamp r t g) = graph_inv g" "plan_inv (Rule_setTimestamp r t g) p R = plan_inv g p R"
  "live (Rule_setTimestamp r t g) = live g" "planned (Rule_setTimestamp r t g) Q n = planned g Q n"
proof -
  let ?g = "Rule_setTimestamp r t g"
  have g: "g_node ?g = g_node g" "g_rules ?g = g_rules g" "g_nodes ?g = g_nodes g" "g_roots ?g = g_roots g" "g_sources ?g = g_sources g"
    by (simp_all add: Rule_setTimestamp_def)
  have q: "r_inputs (g_rule ?g q) = r_inputs (g_rule g q)" "r_outputs (g_rule ?g q) = r_outputs (g_rule g q)"
    "r_numImplicit (g_rule ?g q) = r_numImplicit (g_rule g q)" "r_numReady (g_rule ?g q) = r_numReady (g_rule g q)"
    "r_state (g_rule ?g q) = r_state (g_rule g q)" "r_depfile (g_rule ?g q) = r_depfile (g_rule g q)" for q
    by (simp_all add: Rule_setTimestamp_def)
  have n: "Node_isDirty ?g = Node_isDirty g" "Node_isSource ?g = Node_isSource g" "input_ready ?g = input_ready g"
    "Rule_isDirty ?g = Rule_isDirty g" "Rule_ready ?g = Rule_ready g"
    by (simp_all add: Node_isDirty_def Node_isSource_def input_ready_def Rule_isDirty_def Rule_ready_def fun_eq_iff g q)
  show live: "live ?g = live g" by (simp add: live_def g)
  show pl: "planned ?g Q n = planned g Q n" for Q n by (simp add: planned_def g n)
  show "plan_inv ?g p R = plan_inv g p R" by (simp add: plan_inv_def closed_rules_def pl g q n)
  show "graph_inv ?g = graph_inv g"
    by (simp add: graph_inv_def wf_graph_def wf_node_def wf_rule_def acyclic_graph_def dep_edges_def counters_ok_def
        counter_ok_def strict_states_def dirty_rules_def live g q n cong: option.case_cong)
qed

section \<open>The invariant of a build\<close>

abbreviation running :: "builder \<Rightarrow> rid set" where
  "running b \<equiv> snd ` active (b_manager b)"

text \<open>\<open>builder_core T F b\<close>: graph, plan and process manager are consistent; the rules \<open>F\<close> were started and
  have failed; the rules that the targets \<open>T\<close> need are in the plan.\<close>

definition builder_core :: "nid set \<Rightarrow> rid set \<Rightarrow> builder \<Rightarrow> bool" where
  "builder_core T F b \<longleftrightarrow> graph_inv (b_graph b) \<and> manager_inv (b_manager b) \<and> inj_on snd (active (b_manager b)) \<and>
     F \<inter> running b = {} \<and> plan_inv (b_graph b) (b_plan b) (running b \<union> F) \<and>
     T \<subseteq> live (b_graph b) \<and> (\<forall>t \<in> T. planned (b_graph b) (p_rules (b_plan b)) t)"

definition builder_inv :: "nid set \<Rightarrow> builder \<Rightarrow> bool" where
  "builder_inv T b \<longleftrightarrow> (\<exists>F. builder_core T F b \<and> (b_result b = SUCCEEDED \<longrightarrow> F = {})) \<and>
     (b_pc b = Spawn \<longrightarrow> b_result b = SUCCEEDED) \<and> (b_pc b = Done \<longrightarrow> running b = {}) \<and>
     (b_pc b = Flush \<or> b_pc b = Done \<longrightarrow> b_result b \<noteq> SUCCEEDED \<or> plan_done (b_plan b) \<or> b_interrupted b)"

lemma planned_finished: "planned g Q n \<Longrightarrow> planned (finished r g) Q n"
  by (auto simp: planned_def finished_isDirty)

text \<open>A rule that was taken from the plan and is not running is finished: the command is done, or nothing
  had to be run.\<close>

lemma core_onRuleFinished:
  assumes core: "builder_core T (insert r F) b" and r: "r \<notin> F"
  shows "\<exists>b'. onRuleFinished r b = Inr b' \<and> builder_core T F b' \<and> b_manager b' = b_manager b \<and> b_result b' = b_result b \<and>
     b_pc b' = b_pc b \<and> b_interrupted b' = b_interrupted b \<and> b_cache b' = b_cache b \<and>
     p_rules (b_plan b') = p_rules (b_plan b) \<and> p_numStarted (b_plan b') = p_numStarted (b_plan b)"
proof -
  have c: "graph_inv (b_graph b)" "plan_inv (b_graph b) (b_plan b) (running b \<union> insert r F)" "insert r F \<inter> running b = {}"
    using core by (auto simp: builder_core_def)
  have "r \<in> running b \<union> insert r F" by simp
  from onRuleFinished_inv [OF c(1,2) this] obtain p' where
    p': "onRuleFinished r b = Inr (b\<lparr>b_graph := finished r (b_graph b), b_plan := p'\<rparr>)"
      "graph_inv (finished r (b_graph b))" "plan_inv (finished r (b_graph b)) p' (running b \<union> insert r F - {r})"
      "p_rules p' = p_rules (b_plan b)" "p_numStarted p' = p_numStarted (b_plan b)" by blast
  have "running b \<union> insert r F - {r} = running b \<union> F" using c(3) r by auto
  then have "builder_core T F (b\<lparr>b_graph := finished r (b_graph b), b_plan := p'\<rparr>)"
    using core p' planned_finished by (auto simp: builder_core_def)
  then show ?thesis using p' by auto
qed

lemma core_findWork:
  assumes core: "builder_core T F b" and work: "hasWork (b_plan b)"
  obtains r p where "findWork (b_plan b) = (Some r, p)" and "builder_core T (insert r F) (b\<lparr>b_plan := p\<rparr>)"
    and "r \<notin> F" "p_rules p = p_rules (b_plan b)" "p_numStarted p = Suc (p_numStarted (b_plan b))"
proof -
  have inv: "plan_inv (b_graph b) (b_plan b) (running b \<union> F)" using core by (simp add: builder_core_def)
  obtain r p where r: "findWork (b_plan b) = (Some r, p)" "r \<notin> running b \<union> F" "p_rules p = p_rules (b_plan b)"
    "plan_inv (b_graph b) p (insert r (running b \<union> F))"
    using findWork_inv [OF inv work] by metis
  have "p_numStarted p = Suc (p_numStarted (b_plan b))" using r(1) by (auto simp: findWork_def Let_def split: if_splits)
  then show thesis using that [of r p] core r by (simp add: builder_core_def)
qed

text \<open>The parts of the builder that the cache, the disk and the events do not touch.\<close>

lemma core_cong:
  assumes "b_graph b' = b_graph b" "b_plan b' = b_plan b" "b_manager b' = b_manager b"
  shows "builder_core T F b' = builder_core T F b"
  using assms by (simp add: builder_core_def)

lemma core_upd [simp]:
  "builder_core T F (b\<lparr>b_world := w\<rparr>) = builder_core T F b" "builder_core T F (b\<lparr>b_cache := c\<rparr>) = builder_core T F b"
  "builder_core T F (b\<lparr>b_events := ev\<rparr>) = builder_core T F b" "builder_core T F (b\<lparr>b_result := res\<rparr>) = builder_core T F b"
  "builder_core T F (b\<lparr>b_pc := pc\<rparr>) = builder_core T F b" "builder_core T F (b\<lparr>b_interrupted := i\<rparr>) = builder_core T F b"
  by (simp_all add: builder_core_def)

lemma core_timestamp:
  assumes "b_graph b' = Rule_setTimestamp r t (b_graph b)" "b_plan b' = b_plan b" "b_manager b' = b_manager b"
  shows "builder_core T F b' = builder_core T F b"
  using assms by (simp add: builder_core_def)

text \<open>The command of a rule that was taken is started.\<close>

lemma core_addProcess:
  assumes core: "builder_core T (insert r F) b" and r: "r \<notin> F" and os: "fresh_pipes os (b_manager b)"
    and eq: "addProcess os r c dir (b_manager b) = Inr (i, m)"
    and b': "b_graph b' = b_graph b" "b_plan b' = b_plan b" "b_manager b' = m"
  shows "builder_core T F b' \<and> running b' = insert r (running b) \<and> nbRunning m = Suc (nbRunning (b_manager b))"
proof -
  have c: "manager_inv (b_manager b)" "inj_on snd (active (b_manager b))" "insert r F \<inter> running b = {}"
    "plan_inv (b_graph b) (b_plan b) (running b \<union> insert r F)"
    using core by (auto simp: builder_core_def)
  have law: "manager_inv m \<and> active m = insert (i, r) (active (b_manager b)) \<and> i \<notin> fst ` active (b_manager b)"
    by (rule posix.add_law [OF c(1) os eq])
  have new: "(i, r) \<notin> active (b_manager b)" using law by force
  have run: "running b' = insert r (running b)" using law b'(3) by simp
  have "inj_on snd (active m)" using law c(2,3) by auto
  moreover have "running b' \<union> F = running b \<union> insert r F" using run by auto
  ultimately have "builder_core T F b'" using core law c(3) b' run r by (auto simp: builder_core_def)
  moreover have "nbRunning m = Suc (nbRunning (b_manager b))"
    using law new c(1) manager_inv_card [of m] manager_inv_card [of "b_manager b"] posix.finite_active [OF c(1)] by simp
  ultimately show ?thesis using run by blast
qed

text \<open>A command that ends moves from the running rules to the rules that were taken.\<close>

lemma core_wait:
  assumes core: "builder_core T F b" and eq: "waitForNext polls st (b_manager b) = Inr (res, m)"
    and b': "b_graph b' = Rule_setTimestamp (br_rule res) t (b_graph b)" "b_plan b' = b_plan b" "b_manager b' = m"
  shows "builder_core T (insert (br_rule res) F) b' \<and> br_rule res \<notin> F \<and> Suc (nbRunning m) = nbRunning (b_manager b)"
proof -
  have c: "manager_inv (b_manager b)" "inj_on snd (active (b_manager b))" "F \<inter> running b = {}"
    using core by (auto simp: builder_core_def)
  let ?a = "(br_cmdId res, br_rule res)"
  have law: "manager_inv m \<and> ?a \<in> active (b_manager b) \<and> active m = active (b_manager b) - {?a}"
    by (rule posix.wait_law [OF c(1) eq])
  have run: "running b' = running b - {br_rule res}"
    using law c(2) b'(3) inj_on_image_set_diff [OF c(2), of "active (b_manager b)" "{?a}"] by simp
  have mem: "br_rule res \<in> running b" using law by force
  have "running b' \<union> insert (br_rule res) F = running b \<union> F" using run mem by auto
  moreover have "inj_on snd (active m)" using law c(2) by (simp add: inj_on_diff)
  ultimately have "builder_core T (insert (br_rule res) F) b'"
    using core law run c(3) b' by (auto simp: builder_core_def)
  moreover have "Suc (nbRunning m) = nbRunning (b_manager b)"
    using law manager_inv_card [of m] manager_inv_card [OF c(1)] posix.finite_active [OF c(1)]
    by (metis card_Suc_Diff1)
  ultimately show ?thesis using mem c(3) by blast
qed

section \<open>Every step keeps the invariant\<close>

text \<open>What starting or finishing a rule never changes.\<close>

definition same_control :: "builder \<Rightarrow> builder \<Rightarrow> bool" where
  "same_control b b' \<longleftrightarrow> b_result b' = b_result b \<and> b_pc b' = b_pc b \<and> b_interrupted b' = b_interrupted b \<and>
     (b_cache b = None \<longrightarrow> b_cache b' = None) \<and>
     p_rules (b_plan b') = p_rules (b_plan b) \<and> p_numStarted (b_plan b') = p_numStarted (b_plan b)"

lemma core_finish:
  assumes "builder_core T (insert r F) b" and "r \<notin> F" and "onRuleFinished r b = Inr b'"
  shows "builder_core T F b' \<and> same_control b b' \<and> b_manager b' = b_manager b"
  using core_onRuleFinished [OF assms(1,2)] assms(3) by (auto simp: same_control_def)

lemma core_tryCache:
  assumes core: "builder_core T F b" and eq: "tryBuildRuleFromCache r b = Inr (restored, b')"
  shows "builder_core T F b' \<and> same_control b b' \<and> b_manager b' = b_manager b"
proof (cases "b_cache b")
  case (Some cm)
  then consider (no) cm' w' where "b' = b\<lparr>b_cache := Some cm', b_world := w'\<rparr>"
    | (yes) cm' w' ev t where "b' = b\<lparr>b_cache := Some cm', b_world := w', b_events := ev, b_graph := Rule_setTimestamp r t (b_graph b)\<rparr>"
    using eq by (auto simp: tryBuildRuleFromCache_def rbind_eq_Inr Let_def split: if_splits)
  then show ?thesis
  proof cases
    case yes
    then have "builder_core T F b'" using core core_timestamp [of b' r t b] by simp
    then show ?thesis using Some yes by (simp add: same_control_def)
  qed (use core Some in \<open>simp_all add: same_control_def\<close>)
qed (use core eq in \<open>auto simp: tryBuildRuleFromCache_def same_control_def\<close>)

lemma core_buildRule:
  assumes core: "builder_core T (insert r F) b" and r: "r \<notin> F" and os: "fresh_pipes (e_pipes e) (b_manager b)"
    and eq: "buildRule P e r b = Inr b'"
  shows "builder_core T F b' \<and> same_control b b' \<and> nbRunning (b_manager b') \<le> Suc (nbRunning (b_manager b))"
proof (cases "Rule_isPhony (b_graph b) r")
  case True
  then show ?thesis using core_finish [OF core r, of b'] eq by (simp add: buildRule_def)
next
  case False
  let ?b = "b\<lparr>b_world := createDirectories (b_graph b) r (b_world b)\<rparr>"
  obtain restored b1 where b1: "tryBuildRuleFromCache r ?b = Inr (restored, b1)"
    using eq False by (auto simp: buildRule_def rbind_eq_Inr)
  have "builder_core T (insert r F) ?b" using core by (simp add: builder_core_def)
  from core_tryCache [OF this b1] have c1: "builder_core T (insert r F) b1" "same_control b b1" "b_manager b1 = b_manager b"
    by (auto simp: same_control_def)
  show ?thesis
  proof (cases restored)
    case True
    then have "onRuleFinished r b1 = Inr b'" using eq False b1 by (simp add: buildRule_def)
    then show ?thesis using core_finish [OF c1(1) r] c1(2,3) by (auto simp: same_control_def)
  next
    case nr: False
    obtain i m where m: "addProcess (e_pipes e) r (r_command (g_rule (b_graph b1) r)) (bp_workingDirectory P) (b_manager b1) = Inr (i, m)"
      and b': "b' = b1\<lparr>b_manager := m, b_events := b_events b1 @ [NewCommand i (r_command (g_rule (b_graph b1) r))]\<rparr>"
      using eq False nr b1 by (auto simp: buildRule_def rbind_eq_Inr Let_def)
    show ?thesis using core_addProcess [OF c1(1) r _ m, of b'] os c1(2,3) b' by (auto simp: same_control_def)
  qed
qed

lemma core_waitForNext:
  assumes core: "builder_core T F b" and eq: "builder_waitForNext P e b = Inr (res, b')"
  shows "\<exists>F'. builder_core T F' b' \<and> (res = SUCCEEDED \<longrightarrow> F' = F) \<and> same_control b b' \<and>
     Suc (nbRunning (b_manager b')) = nbRunning (b_manager b)"
proof -
  obtain br m where br: "waitForNext (e_polls e) (e_status e) (b_manager b) = Inr (br, m)"
    using eq by (auto simp: builder_waitForNext_def rbind_eq_Inr)
  let ?r = "br_rule br"
  define b1 where "b1 = b\<lparr>b_manager := m, b_world := e_disk e (b_world b), b_events := b_events b @ [EndCommand (br_cmdId br) (br_status br)],
      b_graph := Rule_setTimestamp ?r (w_time (e_disk e (b_world b))) (b_graph b)\<rparr>"
  have c1: "builder_core T (insert ?r F) b1" "?r \<notin> F" "Suc (nbRunning (b_manager b1)) = nbRunning (b_manager b)" "same_control b b1"
    using core_wait [OF core br, of b1] by (simp_all add: b1_def same_control_def)
  show ?thesis
  proof (cases "br_status br = EXIT_SUCCEEDED")
    case False
    then have "b' = b1" "res \<noteq> SUCCEEDED" using eq br by (auto simp: builder_waitForNext_def Let_def b1_def split: if_splits)
    then show ?thesis using c1 by blast
  next
    case True
    have "\<not> Rule_hasDepfile (b_graph b1) ?r" using c1(1) by (simp add: builder_core_def graph_inv_def Rule_hasDepfile_def)
    then have "loadDepfile P ?r b1 = Inr (True, b1)" by (simp add: loadDepfile_def)
    then have "rbind (saveInCache ?r b1) (\<lambda>b. rbind (onRuleFinished ?r b) (\<lambda>b. Inr (SUCCEEDED, b))) = Inr (res, b')"
      using eq br True by (simp add: builder_waitForNext_def Let_def b1_def)
    then obtain b2 where b2: "saveInCache ?r b1 = Inr b2" "onRuleFinished ?r b2 = Inr b'" and res: "res = SUCCEEDED"
      by (auto simp: rbind_eq_Inr)
    have c2: "builder_core T (insert ?r F) b2" "same_control b1 b2" "b_manager b2 = b_manager b1"
      using b2(1) c1(1) by (auto simp: saveInCache_def rbind_eq_Inr same_control_def split: option.splits)
    show ?thesis using core_finish [OF c2(1) c1(2) b2(2)] c1 c2 res by (auto simp: same_control_def)
  qed
qed

lemma build_step_inv:
  assumes inv: "builder_inv T b" and os: "fresh_pipes (e_pipes e) (b_manager b)" and eq: "build_step P e b = Inr b'"
  shows "builder_inv T b'"
proof -
  obtain F where core: "builder_core T F b" and F: "b_result b = SUCCEEDED \<longrightarrow> F = {}" using inv by (auto simp: builder_inv_def)
  have none: "running b = {}" if "nbRunning (b_manager b) = 0"
    using that core manager_inv_card [of "b_manager b"] posix.finite_active [of "b_manager b"] by (auto simp: builder_core_def)
  show ?thesis
  proof (cases "b_pc b")
    case Loop
    then have "b' = b\<lparr>b_pc := if b_result b = SUCCEEDED \<and> \<not> plan_done (b_plan b) \<and> \<not> b_interrupted b then Spawn else Flush\<rparr>"
      using eq by (simp add: build_step_def)
    then show ?thesis using core F by (auto simp: builder_inv_def)
  next
    case Spawn
    then have ok: "b_result b = SUCCEEDED" "F = {}" using inv F by (auto simp: builder_inv_def)
    consider (start) "hasWork (b_plan b)" "nbRunning (b_manager b) < bp_numThreads P"
      | (wait) "\<not> (hasWork (b_plan b) \<and> nbRunning (b_manager b) < bp_numThreads P)" "0 < nbRunning (b_manager b)"
      | (idle) "\<not> (hasWork (b_plan b) \<and> nbRunning (b_manager b) < bp_numThreads P)" "nbRunning (b_manager b) = 0" by blast
    then show ?thesis
    proof cases
      case start
      obtain r p where r: "findWork (b_plan b) = (Some r, p)" "builder_core T (insert r F) (b\<lparr>b_plan := p\<rparr>)" "r \<notin> F"
        using core_findWork [OF core start(1)] by metis
      have "buildRule P e r (b\<lparr>b_plan := p\<rparr>) = Inr b'" using eq Spawn start r(1) by (simp add: build_step_def)
      then show ?thesis using core_buildRule [OF r(2,3), of e P b'] os ok Spawn by (auto simp: builder_inv_def same_control_def)
    next
      case wait
      then obtain res b1 where b1: "builder_waitForNext P e b = Inr (res, b1)" "b' = b1\<lparr>b_result := res, b_pc := Loop\<rparr>"
        using eq Spawn by (auto simp: build_step_def rbind_eq_Inr)
      then show ?thesis using core_waitForNext [OF core b1(1)] ok by (auto simp: builder_inv_def)
    next
      case idle
      then have "b' = b\<lparr>b_pc := Loop\<rparr>" using eq Spawn by (auto simp: build_step_def)
      then show ?thesis using core ok by (auto simp: builder_inv_def)
    qed
  next
    case Flush
    show ?thesis
    proof (cases "nbRunning (b_manager b) > 0")
      case True
      then obtain tmp b1 where b1: "builder_waitForNext P e b = Inr (tmp, b1)"
        "b' = (if b_result b1 = SUCCEEDED then b1\<lparr>b_result := tmp\<rparr> else b1)"
        using eq Flush by (auto simp: build_step_def rbind_eq_Inr)
      obtain F' where F': "builder_core T F' b1" "tmp = SUCCEEDED \<longrightarrow> F' = F" "same_control b b1"
        using core_waitForNext [OF core b1(1)] by blast
      have "builder_core T F' b'" using F'(1) b1(2) by simp
      then show ?thesis using F' b1(2) Flush F inv by (auto simp: builder_inv_def same_control_def plan_done_def)
    next
      case False
      then have "b' = b\<lparr>b_pc := Done\<rparr>" using eq Flush by (simp add: build_step_def)
      then show ?thesis using Flush core F inv none False by (auto simp: builder_inv_def)
    qed
  next
    case Done
    then show ?thesis using eq inv by (simp add: build_step_def)
  qed
qed

lemma interrupt_inv:
  assumes "builder_inv T b" and "builder_interrupt b = Inr b'"
  shows "builder_inv T b'"
proof -
  have b': "b' = b\<lparr>b_interrupted := True\<rparr>" using assms(2) by (auto simp: builder_interrupt_def rbind_eq_Inr)
  obtain F where "builder_core T F b" "b_result b = SUCCEEDED \<longrightarrow> F = {}" using assms(1) by (auto simp: builder_inv_def)
  then have "builder_core T F b'" "b_result b' = SUCCEEDED \<longrightarrow> F = {}" using b' by simp_all
  then show ?thesis using assms(1) b' unfolding builder_inv_def by auto
qed

lemma build_reach_inv: "build_reach P b b' \<Longrightarrow> builder_inv T b \<Longrightarrow> builder_inv T b'"
  by (induction rule: build_reach.induct) (auto intro: build_step_inv interrupt_inv)

lemma builder_inv_start:
  assumes "graph_inv g" and "T \<subseteq> live g" and "BuildPlan k g T = Inr p" and "length (g_rules g) < k"
  shows "builder_inv T (GraphParallelBuilder g p cache w)"
proof -
  have g: "wf_graph g" "acyclic_graph g" "counters_ok g" "dirty_rules g"
    using assms(1) by (auto simp: graph_inv_def strict_states_def)
  have p: "p = \<lparr>p_rules = needed_rules g T, p_readyRules = {r \<in> needed_rules g T. Rule_ready g r}, p_numStarted = 0\<rparr>"
    using BuildPlan_correct [OF g assms(2,4)] assms(3) by simp
  have "\<forall>t \<in> T. planned g (p_rules p) t" using p by (auto simp: planned_def needed_rules_def)
  then have "builder_core T {} (GraphParallelBuilder g p cache w)"
    using assms(1,2) manager_inv_new plan_inv_initial [OF g(1,4) assms(2)] p by (simp add: builder_core_def GraphParallelBuilder_def)
  then show ?thesis by (simp add: builder_inv_def GraphParallelBuilder_def)
qed

section \<open>The number of commands\<close>

lemma build_step_bound:
  assumes inv: "builder_inv T b" and os: "fresh_pipes (e_pipes e) (b_manager b)" and eq: "build_step P e b = Inr b'"
    and bound: "nbRunning (b_manager b) \<le> bp_numThreads P"
  shows "nbRunning (b_manager b') \<le> bp_numThreads P"
proof -
  obtain F where core: "builder_core T F b" using inv by (auto simp: builder_inv_def)
  consider (start) "b_pc b = Spawn" "hasWork (b_plan b)" "nbRunning (b_manager b) < bp_numThreads P"
    | (wait) res b1 where "builder_waitForNext P e b = Inr (res, b1)" "b_manager b' = b_manager b1"
    | (other) "b_manager b' = b_manager b"
    using eq by (auto simp: build_step_def rbind_eq_Inr split: pc.splits if_splits)
  then show ?thesis
  proof cases
    case start
    obtain r p where r: "findWork (b_plan b) = (Some r, p)" "builder_core T (insert r F) (b\<lparr>b_plan := p\<rparr>)" "r \<notin> F"
      using core_findWork [OF core start(2)] by metis
    have "buildRule P e r (b\<lparr>b_plan := p\<rparr>) = Inr b'" using eq start r(1) by (simp add: build_step_def)
    then show ?thesis using core_buildRule [OF r(2,3), of e P b'] os start(3) by simp
  next
    case wait
    then show ?thesis using core_waitForNext [OF core wait(1)] bound by auto
  qed (use bound in simp)
qed

lemma build_reach_bound:
  "build_reach P b b' \<Longrightarrow> builder_inv T b \<Longrightarrow> nbRunning (b_manager b) \<le> bp_numThreads P \<Longrightarrow> nbRunning (b_manager b') \<le> bp_numThreads P"
proof (induction rule: build_reach.induct)
  case (step b b1 e b2)
  then show ?case using build_step_bound [OF build_reach_inv [OF step.hyps(1) step.prems(1)] step.hyps(2,3)] by simp
next
  case (interrupt b b1 b2)
  then show ?case by (auto simp: builder_interrupt_def rbind_eq_Inr)
qed simp

section \<open>Without a cache the build ends\<close>

text \<open>What the system guarantees during a step: new pipes are fresh, and the commands that run end.\<close>

definition event_ok :: "os_event \<Rightarrow> builder \<Rightarrow> bool" where
  "event_ok e b \<longleftrightarrow> fresh_pipes (e_pipes e) (b_manager b) \<and> \<not> is_WaitError (e_status e) \<and>
     polls_ok (e_polls e) (b_manager b) \<and> length (m_pollfds (b_manager b)) \<le> all_eofs (e_polls e)"

definition build_measure :: "builder \<Rightarrow> nat" where
  "build_measure b = 3 * (card (p_rules (b_plan b)) - p_numStarted (b_plan b)) + 2 * nbRunning (b_manager b) +
     (case b_pc b of Loop \<Rightarrow> if plan_done (b_plan b) then 2 else 4 | Spawn \<Rightarrow> 3 | Flush \<Rightarrow> 1 | Done \<Rightarrow> 0)"

lemma measure_interrupted [simp]: "build_measure (b\<lparr>b_interrupted := i\<rparr>) = build_measure b"
  by (simp add: build_measure_def cong: pc.case_cong)

lemma core_started:
  assumes core: "builder_core T F b"
  shows "p_numStarted (b_plan b) \<le> card (p_rules (b_plan b))"
proof -
  let ?R = "running b \<union> F" and ?p = "b_plan b"
  have inv: "plan_inv (b_graph b) ?p ?R" using core by (simp add: builder_core_def)
  have fin: "finite (p_rules ?p)" "finite ?R" using plan_inv_finite [OF inv] by auto
  have R: "?R \<subseteq> {r \<in> p_rules ?p. Rule_isDirty (b_graph b) r}" using inv by (auto simp: plan_inv_def)
  have "card {r \<in> p_rules ?p. \<not> Rule_isDirty (b_graph b) r} + card ?R = card ({r \<in> p_rules ?p. \<not> Rule_isDirty (b_graph b) r} \<union> ?R)"
    by (rule card_Un_disjoint [symmetric]) (use fin R in auto)
  also have "\<dots> \<le> card (p_rules ?p)" by (rule card_mono [OF fin(1)]) (use R in auto)
  finally show ?thesis using inv by (simp add: plan_inv_def)
qed

lemma buildRule_total:
  assumes core: "builder_core T (insert r F) b" and r: "r \<notin> F" and os: "fresh_pipes (e_pipes e) (b_manager b)" and cache: "b_cache b = None"
  shows "\<exists>b'. buildRule P e r b = Inr b'"
proof (cases "Rule_isPhony (b_graph b) r")
  case True
  then show ?thesis using core_onRuleFinished [OF core r] by (auto simp: buildRule_def)
next
  case False
  have "manager_inv (b_manager b)" using core by (simp add: builder_core_def)
  moreover have "r_command (g_rule (b_graph b) r) \<noteq> []" using False by (simp add: Rule_isPhony_def)
  ultimately show ?thesis using addProcess_correct [OF _ os, of "r_command (g_rule (b_graph b) r)" r "bp_workingDirectory P"] False cache
    by (auto simp: buildRule_def tryBuildRuleFromCache_def Let_def)
qed

lemma builder_waitForNext_total:
  assumes core: "builder_core T F b" and e: "event_ok e b" and run: "0 < nbRunning (b_manager b)" and cache: "b_cache b = None"
  shows "\<exists>res b'. builder_waitForNext P e b = Inr (res, b')"
proof -
  have m: "manager_inv (b_manager b)" using core by (simp add: builder_core_def)
  have "active (b_manager b) \<noteq> {}" using run manager_inv_card [OF m] by auto
  then obtain br m' where br: "waitForNext (e_polls e) (e_status e) (b_manager b) = Inr (br, m')"
    using waitForNext_total [OF m, of "e_polls e" "e_status e"] e by (auto simp: event_ok_def)
  let ?r = "br_rule br"
  define b1 where "b1 = b\<lparr>b_manager := m', b_world := e_disk e (b_world b), b_events := b_events b @ [EndCommand (br_cmdId br) (br_status br)],
      b_graph := Rule_setTimestamp ?r (w_time (e_disk e (b_world b))) (b_graph b)\<rparr>"
  have c1: "builder_core T (insert ?r F) b1" "?r \<notin> F" "b_cache b1 = None"
    using core_wait [OF core br, of b1] cache by (simp_all add: b1_def)
  have "\<not> Rule_hasDepfile (b_graph b1) ?r" using c1(1) by (simp add: builder_core_def graph_inv_def Rule_hasDepfile_def)
  then have "loadDepfile P ?r b1 = Inr (True, b1)" "saveInCache ?r b1 = Inr b1" using c1(3) by (simp_all add: loadDepfile_def saveInCache_def)
  moreover obtain b' where "onRuleFinished ?r b1 = Inr b'" using core_onRuleFinished [OF c1(1,2)] by blast
  ultimately show ?thesis using br
    by (cases "br_status br = EXIT_SUCCEEDED") (simp_all add: builder_waitForNext_def Let_def b1_def)
qed

text \<open>If the two operations of the build thread return, a step returns and gets closer to the end.\<close>

lemma build_step_progress:
  assumes inv: "builder_inv T b" and os: "fresh_pipes (e_pipes e) (b_manager b)" and thr: "0 < bp_numThreads P"
    and start: "\<And>F r p. builder_core T F b \<Longrightarrow> hasWork (b_plan b) \<Longrightarrow> findWork (b_plan b) = (Some r, p) \<Longrightarrow> builder_core T (insert r F) (b\<lparr>b_plan := p\<rparr>) \<Longrightarrow> r \<notin> F \<Longrightarrow>
      \<exists>b'. buildRule P e r (b\<lparr>b_plan := p\<rparr>) = Inr b'"
    and wait: "\<And>F. builder_core T F b \<Longrightarrow> 0 < nbRunning (b_manager b) \<Longrightarrow> \<exists>res b'. builder_waitForNext P e b = Inr (res, b')"
  shows "\<exists>b'. build_step P e b = Inr b' \<and> (b_cache b = None \<longrightarrow> b_cache b' = None) \<and> (b_pc b \<noteq> Done \<longrightarrow> build_measure b' < build_measure b)"
proof -
  obtain F where core: "builder_core T F b" and F: "b_result b = SUCCEEDED \<longrightarrow> F = {}" using inv by (auto simp: builder_inv_def)
  note started = core_started [OF core]
  show ?thesis
  proof (cases "b_pc b")
    case Loop
    then show ?thesis by (simp add: build_step_def build_measure_def)
  next
    case Spawn
    then have ok: "F = {}" using inv F by (auto simp: builder_inv_def)
    consider (spawn) "hasWork (b_plan b)" "nbRunning (b_manager b) < bp_numThreads P"
      | (full) "\<not> (hasWork (b_plan b) \<and> nbRunning (b_manager b) < bp_numThreads P)" "0 < nbRunning (b_manager b)"
      | (idle) "\<not> hasWork (b_plan b)" "nbRunning (b_manager b) = 0" using thr by linarith
    then show ?thesis
    proof cases
      case spawn
      obtain r p where r: "findWork (b_plan b) = (Some r, p)" "builder_core T (insert r F) (b\<lparr>b_plan := p\<rparr>)" "r \<notin> F"
        "p_rules p = p_rules (b_plan b)" "p_numStarted p = Suc (p_numStarted (b_plan b))"
        using core_findWork [OF core spawn(1)] by metis
      obtain b' where b': "buildRule P e r (b\<lparr>b_plan := p\<rparr>) = Inr b'"
        using start [OF core spawn(1) r(1-3)] by blast
      have c: "same_control (b\<lparr>b_plan := p\<rparr>) b'" "nbRunning (b_manager b') \<le> Suc (nbRunning (b_manager b))"
        using core_buildRule [OF r(2,3) _ b'] os by auto
      have "Suc (p_numStarted (b_plan b)) \<le> card (p_rules (b_plan b))" using core_started [OF r(2)] r(4,5) by simp
      then have "build_measure b' < build_measure b" using c r(4,5) Spawn by (simp add: build_measure_def same_control_def)
      then show ?thesis using b' r(1) spawn Spawn c(1) by (simp add: build_step_def same_control_def)
    next
      case full
      then obtain res b1 where b1: "builder_waitForNext P e b = Inr (res, b1)"
        using wait [OF core] by blast
      then have c: "same_control b b1" "Suc (nbRunning (b_manager b1)) = nbRunning (b_manager b)"
        using core_waitForNext [OF core b1] by auto
      then have "build_measure (b1\<lparr>b_result := res, b_pc := Loop\<rparr>) < build_measure b"
        using Spawn by (simp add: build_measure_def same_control_def)
      moreover have "build_step P e b = Inr (b1\<lparr>b_result := res, b_pc := Loop\<rparr>)" using Spawn full b1 by (auto simp: build_step_def)
      moreover have "b_cache b = None \<longrightarrow> b_cache (b1\<lparr>b_result := res, b_pc := Loop\<rparr>) = None" using c(1) by (simp add: same_control_def)
      ultimately show ?thesis by (intro exI [of _ "b1\<lparr>b_result := res, b_pc := Loop\<rparr>"]) simp
    next
      case idle
      have "running b = {}" using idle(2) core manager_inv_card [of "b_manager b"] by (auto simp: builder_core_def active_def)
      then have "plan_inv (b_graph b) (b_plan b) {}" using core ok by (simp add: builder_core_def)
      then have "plan_done (b_plan b)"
        using plan_not_stuck [of "b_graph b" "b_plan b"] core idle(1)
        by (auto simp: builder_core_def graph_inv_def strict_states_def)
      then show ?thesis using Spawn idle by (simp add: build_step_def build_measure_def)
    qed
  next
    case Flush
    show ?thesis
    proof (cases "0 < nbRunning (b_manager b)")
      case True
      then obtain res b1 where b1: "builder_waitForNext P e b = Inr (res, b1)"
        using wait [OF core] by blast
      then have c: "same_control b b1" "Suc (nbRunning (b_manager b1)) = nbRunning (b_manager b)"
        using core_waitForNext [OF core b1] by auto
      then show ?thesis using Flush True b1 by (simp add: build_step_def build_measure_def same_control_def)
    qed (use Flush in \<open>simp add: build_step_def build_measure_def\<close>)
  next
    case Done
    then show ?thesis by (simp add: build_step_def)
  qed
qed

lemma build_step_total:
  assumes inv: "builder_inv T b" and e: "event_ok e b" and cache: "b_cache b = None" and thr: "0 < bp_numThreads P"
  shows "\<exists>b'. build_step P e b = Inr b' \<and> b_cache b' = None \<and> (b_pc b \<noteq> Done \<longrightarrow> build_measure b' < build_measure b)"
proof -
  have os: "fresh_pipes (e_pipes e) (b_manager b)" using e by (simp add: event_ok_def)
  have start: "\<exists>b'. buildRule P e r (b\<lparr>b_plan := p\<rparr>) = Inr b'" if "builder_core T (insert r F) (b\<lparr>b_plan := p\<rparr>)" "r \<notin> F" for F r p
    using buildRule_total [OF that, of e P] os cache by simp
  from build_step_progress [OF inv os thr start builder_waitForNext_total [OF _ e _ cache]] cache show ?thesis by auto
qed

text \<open>A schedule in which the system keeps its promises at every step.\<close>

fun sched_ok :: "build_params \<Rightarrow> sched list \<Rightarrow> builder \<Rightarrow> bool" where
  "sched_ok P [] b \<longleftrightarrow> True"
| "sched_ok P (s # ss) b \<longleftrightarrow> (case s of Step e \<Rightarrow> event_ok e b | Interrupt \<Rightarrow> True) \<and>
     (case sched_step P s b of Inl _ \<Rightarrow> True | Inr b' \<Rightarrow> sched_ok P ss b')"

lemma interrupt_total:
  assumes "builder_inv T b"
  shows "builder_interrupt b = Inr (b\<lparr>b_interrupted := True\<rparr>)"
proof -
  have "manager_inv (b_manager b)" using assms by (auto simp: builder_inv_def builder_core_def)
  then show ?thesis using manager_interrupt_total [of "b_manager b"] by (simp add: builder_interrupt_def)
qed

lemma Done_stays: "b_pc b = Done \<Longrightarrow> build_step P e b = Inr b"
  by (simp add: build_step_def)

text \<open>The builder without a cache is a terminating machine: the build thread counts, interruptions do not.\<close>

definition sched_enabled :: "sched \<Rightarrow> builder \<Rightarrow> bool" where
  "sched_enabled s b \<longleftrightarrow> (case s of Step e \<Rightarrow> event_ok e b | Interrupt \<Rightarrow> True)"

definition plain_build :: "build_params \<Rightarrow> nid set \<Rightarrow> builder \<Rightarrow> bool" where
  "plain_build P T b \<longleftrightarrow> builder_inv T b \<and> b_cache b = None \<and> 0 < bp_numThreads P"

lemma plain_step:
  assumes b: "plain_build P T b" and s: "sched_enabled s b"
  shows "\<exists>b'. sched_step P s b = Inr b' \<and> plain_build P T b' \<and> build_measure b' \<le> build_measure b \<and>
     (is_Step s \<and> b_pc b \<noteq> Done \<longrightarrow> build_measure b' < build_measure b)"
proof (cases s)
  case (Step e)
  then have e: "event_ok e b" "fresh_pipes (e_pipes e) (b_manager b)" using s by (simp_all add: sched_enabled_def event_ok_def)
  have b: "builder_inv T b" "b_cache b = None" "0 < bp_numThreads P" using b by (simp_all add: plain_build_def)
  obtain b' where b': "build_step P e b = Inr b'" "b_cache b' = None" "b_pc b \<noteq> Done \<longrightarrow> build_measure b' < build_measure b"
    using build_step_total [OF b(1) e(1) b(2,3)] by blast
  moreover have "b' = b" if "b_pc b = Done" using b'(1) Done_stays [OF that] by simp
  ultimately show ?thesis using build_step_inv [OF b(1) e(2) b'(1)] b Step
    by (cases "b_pc b = Done") (auto simp: sched_step_def plain_build_def)
next
  case Interrupt
  have "builder_inv T b" using b by (simp add: plain_build_def)
  note eq = interrupt_total [OF this] and inv = interrupt_inv [OF this]
  show ?thesis using Interrupt eq inv [OF eq] b by (simp add: sched_step_def plain_build_def)
qed

interpretation plain: terminating_machine sched_enabled "sched_step P" "plain_build P T" build_measure "\<lambda>b. b_pc b = Done" is_Step
  for P T
proof (unfold_locales, goal_cases)
  case (1 s a s')
  then show ?case using plain_step [OF 1(1,2)] by auto
next
  case (2 s a)
  then show ?case using plain_step [OF 2] by blast
next
  case (3 s a s')
  then show ?case using plain_step [OF 3(1,2)] by auto
next
  case (4 s a s')
  then show ?case using plain_step [OF 4(1,2)] by auto
next
  case (5 s a s')
  then show ?case by (auto simp: sched_step_def Done_stays builder_interrupt_def rbind_eq_Inr split: sched.splits)
next
  case (6 s)
  then show ?case by (auto simp: build_measure_def split: pc.splits if_splits)
qed

lemma sched_ok_run: "sched_ok P ss b \<longleftrightarrow> plain.run_ok P ss b"
  by (induction ss arbitrary: b) (auto simp: sched_enabled_def split: sum.splits)

lemma build_run_ends:
  assumes "builder_inv T b" and "b_cache b = None" and "0 < bp_numThreads P" and "sched_ok P ss b"
    and "build_measure b \<le> length (filter is_Step ss)"
  shows "\<exists>b'. build_run P ss b = Inr b' \<and> builder_inv T b' \<and> b_pc b' = Done"
  using plain.run_ends [of P T b ss] assms by (auto simp: plain_build_def sched_ok_run build_run_def)

section \<open>Properties\<close>

text \<open>The end of a build: every rule of the plan that was not interrupted is up to date, and so are the
  generated targets.\<close>

lemma build_end:
  assumes inv: "builder_inv T b" and "b_pc b = Done" "b_result b = SUCCEEDED" "\<not> b_interrupted b"
  shows "\<forall>t \<in> T. input_ready (b_graph b) t" "\<forall>r \<in> p_rules (b_plan b). \<not> Rule_isDirty (b_graph b) r"
proof -
  let ?p = "b_plan b" and ?g = "b_graph b"
  have core: "builder_core T {} b" and "running b = {}" and dn: "plan_done ?p"
    using assms by (auto simp: builder_inv_def)
  then have p: "plan_inv ?g ?p {}" "\<forall>t \<in> T. planned ?g (p_rules ?p) t" "dirty_rules ?g" and T: "T \<subseteq> live ?g"
    by (auto simp: builder_core_def graph_inv_def strict_states_def)
  have "card {r \<in> p_rules ?p. \<not> Rule_isDirty ?g r} = card (p_rules ?p)" using p(1) dn by (simp add: plan_inv_def plan_done_def)
  then have "{r \<in> p_rules ?p. \<not> Rule_isDirty ?g r} = p_rules ?p"
    using plan_inv_finite [OF p(1)] by (intro card_subset_eq) auto
  then show clean: "\<forall>r \<in> p_rules ?p. \<not> Rule_isDirty ?g r" by blast
  show "\<forall>t \<in> T. input_ready ?g t"
  proof
    fix t assume t: "t \<in> T"
    have "\<not> Node_isDirty ?g t" if "n_child (g_node ?g t) = Some r" for r
      using p(2) t T clean that p(3) unfolding planned_def dirty_rules_def by blast
    then show "input_ready ?g t" by (auto simp: input_ready_def Node_isSource_def)
  qed
qed

text \<open>An example: the chain of two rules whose source has changed, one thread, and a schedule in which both
  commands succeed.\<close>

definition example_params :: build_params where
  "example_params = \<lparr>bp_sha = (\<lambda>s. s), bp_al = \<lparr>a_node = id, a_rule = id, a_junk = (\<lambda>_. False)\<rparr>, bp_watchman = None,
     bp_fuel = 10, bp_workingDirectory = ''/'', bp_numThreads = 1\<rparr>"

definition example_event :: os_event where
  "example_event = \<lparr>e_pipes = Forked 99 3 4, e_polls = [], e_status = Exited 0, e_disk = (\<lambda>w. w)\<rparr>"

definition example_end :: os_event where
  "example_end = example_event\<lparr>e_pipes := Forked 99 5 6, e_polls := [Inr [(3, Data ''x''), (4, Eof)], Inr [(3, Eof)]]\<rparr>"

definition example_sched :: "sched list" where
  "example_sched = map Step [example_event, example_event, example_end, example_event, example_event, example_end,
     example_event, example_event, example_event, example_event]"

definition example_plan :: plan where
  "example_plan = \<lparr>p_rules = {1, 2}, p_readyRules = {1}, p_numStarted = 0\<rparr>"

definition empty_world :: world where
  "empty_world = \<lparr>w_files = Map.empty, w_denied = {}, w_time = 0\<rparr>"

lemma dirty_chain_inv: "graph_inv dirty_chain"
proof -
  have "\<forall>q. r_depfile (g_rule dirty_chain q) = []" by (simp add: dirty_chain_def chain_defs mark_def)
  moreover have "strict_states dirty_chain"
    by (rule state_ok_strict [OF dirty_chain_ok(2) _ dirty_chain_wf(1)]) (auto simp: dirty_chain_def live_def chain_defs)
  ultimately show ?thesis using dirty_chain_wf dirty_chain_ok by (simp add: graph_inv_def)
qed

lemma dirty_chain_exec [code]:
  "dirty_chain = chain_graph\<lparr>
     g_node := (g_node chain_graph)(1 := (g_node chain_graph 1)\<lparr>n_state := OUT_OF_DATE, n_lazy := False\<rparr>,
        2 := (g_node chain_graph 2)\<lparr>n_state := OUT_OF_DATE, n_lazy := False\<rparr>,
        3 := (g_node chain_graph 3)\<lparr>n_state := OUT_OF_DATE, n_lazy := False\<rparr>),
     g_rule := (g_rule chain_graph)(1 := (g_rule chain_graph 1)\<lparr>r_state := OUT_OF_DATE\<rparr>,
        2 := (g_rule chain_graph 2)\<lparr>r_state := OUT_OF_DATE, r_numReady := 0\<rparr>)\<rparr>"
proof -
  have E: "{m. (m, r) \<in> {(2, 2)}} = (if r = 2 then {2} else {})" for r :: rid by auto
  have "g_node dirty_chain n = (if n \<in> {1, 2, 3} then (g_node chain_graph n)\<lparr>n_state := OUT_OF_DATE, n_lazy := False\<rparr> else g_node chain_graph n)" for n
    by (simp add: dirty_chain_def mark_def)
  moreover have "g_rule dirty_chain r = (if r = 1 then (g_rule chain_graph 1)\<lparr>r_state := OUT_OF_DATE\<rparr>
      else if r = 2 then (g_rule chain_graph 2)\<lparr>r_state := OUT_OF_DATE, r_numReady := 0\<rparr> else g_rule chain_graph r)" for r
    by (auto simp: dirty_chain_def mark_def E chain_defs)
  moreover have "g_newNodes dirty_chain = g_newNodes chain_graph" "g_newRules dirty_chain = g_newRules chain_graph"
    by (simp_all add: dirty_chain_def mark_def)
  ultimately show ?thesis by (intro graph.equality) (auto simp: fun_eq_iff dirty_chain_def)
qed

lemma example_plan_ok: "BuildPlan 3 dirty_chain {3} = Inr example_plan"
  by code_simp

lemma example_sched_ok: "sched_ok example_params example_sched (GraphParallelBuilder dirty_chain example_plan None empty_world)"
  by code_simp

text \<open>C6. Safety of a parallel build of a graph without depfiles, for any cache and any order in which
  commands end, fail or are interrupted: in every reachable state the structure of the graph, its ready
  counters and the states of nodes and rules are consistent; at most \<open>numThreads_\<close> commands run, never two for
  the same rule; and every command that runs belongs to a dirty rule of the plan all of whose inputs are
  source files or up to date.\<close>

theorem build_safe:
  assumes "graph_inv g" and "T \<subseteq> live g" and "BuildPlan k g T = Inr p" and "length (g_rules g) < k"
    and "build_reach P (GraphParallelBuilder g p cache w) b"
  shows "graph_inv (b_graph b) \<and> nbRunning (b_manager b) \<le> bp_numThreads P \<and> inj_on snd (active (b_manager b)) \<and>
     (\<forall>(i, r) \<in> active (b_manager b). r \<in> p_rules (b_plan b) \<and> Rule_isDirty (b_graph b) r \<and>
        (\<forall>n \<in> set (r_inputs (g_rule (b_graph b) r)). input_ready (b_graph b) n))"
proof -
  have start: "builder_inv T (GraphParallelBuilder g p cache w)" by (rule builder_inv_start [OF assms(1-4)])
  have bound: "nbRunning (b_manager b) \<le> bp_numThreads P"
    by (rule build_reach_bound [OF assms(5) start])
      (simp add: GraphParallelBuilder_def PosixSubProcessManager_def nbRunning_def)
  obtain F where core: "builder_core T F b" using build_reach_inv [OF assms(5) start] by (auto simp: builder_inv_def)
  then have c: "graph_inv (b_graph b)" "inj_on snd (active (b_manager b))" "counters_ok (b_graph b)"
    and plan: "plan_inv (b_graph b) (b_plan b) (running b \<union> F)"
    by (auto simp: builder_core_def graph_inv_def)
  have "r \<in> p_rules (b_plan b) \<and> Rule_isDirty (b_graph b) r \<and> (\<forall>n \<in> set (r_inputs (g_rule (b_graph b) r)). input_ready (b_graph b) n)"
    if "(i, r) \<in> active (b_manager b)" for i r
  proof -
    have "r \<in> running b \<union> F" using that by force
    then have "r \<in> p_rules (b_plan b)" "Rule_isDirty (b_graph b) r" "Rule_ready (b_graph b) r" "r \<in> set (g_rules (b_graph b))"
      using plan unfolding plan_inv_def by blast+
    then show ?thesis using counters_ready_iff [OF c(3)] by blast
  qed
  then show ?thesis using c(1,2) bound by blast
qed

theorem build_safe_witness:
  "\<exists>b. build_reach example_params (GraphParallelBuilder dirty_chain example_plan None empty_world) b \<and> b_pc b = Spawn \<and>
     graph_inv (b_graph b)"
proof -
  let ?b = "GraphParallelBuilder dirty_chain example_plan None empty_world"
  have "build_step example_params example_event ?b = Inr (?b\<lparr>b_pc := Spawn\<rparr>)"
    by (simp add: build_step_def GraphParallelBuilder_def example_plan_def plan_done_def)
  moreover have "fresh_pipes (e_pipes example_event) (b_manager ?b)"
    by (simp add: fresh_pipes_def example_event_def GraphParallelBuilder_def PosixSubProcessManager_def)
  ultimately have reach: "build_reach example_params ?b (?b\<lparr>b_pc := Spawn\<rparr>)"
    using build_reach.step [OF build_reach.refl] by blast
  have "graph_inv (b_graph (?b\<lparr>b_pc := Spawn\<rparr>))"
    using build_safe [OF dirty_chain_inv _ example_plan_ok _ reach] dirty_chain_ok by auto
  then show ?thesis using reach by (intro exI [of _ "?b\<lparr>b_pc := Spawn\<rparr>"]) simp
qed

lemma build_ends:
  assumes "graph_inv g" and "T \<subseteq> live g" and "BuildPlan k g T = Inr p" and "length (g_rules g) < k"
    and "0 < bp_numThreads P" and "sched_ok P ss (GraphParallelBuilder g p None w)"
    and "3 * card (p_rules p) + 4 \<le> length (filter is_Step ss)"
  shows "\<exists>b. build_run P ss (GraphParallelBuilder g p None w) = Inr b \<and> b_pc b = Done \<and> nbRunning (b_manager b) = 0 \<and>
     (b_result b = SUCCEEDED \<and> \<not> b_interrupted b \<longrightarrow>
        (\<forall>r \<in> p_rules (b_plan b). \<not> Rule_isDirty (b_graph b) r) \<and> (\<forall>t \<in> T. input_ready (b_graph b) t))"
proof -
  let ?b = "GraphParallelBuilder g p None w"
  have start: "builder_inv T ?b" by (rule builder_inv_start [OF assms(1-4)])
  have "b_cache ?b = None" "build_measure ?b \<le> length (filter is_Step ss)"
    using assms(7) by (auto simp: build_measure_def GraphParallelBuilder_def PosixSubProcessManager_def nbRunning_def)
  from build_run_ends [OF start this(1) assms(5,6) this(2)] obtain b where b: "build_run P ss ?b = Inr b" "builder_inv T b"
    and dn: "b_pc b = Done" by blast
  have "running b = {}" "manager_inv (b_manager b)" using b(2) dn by (auto simp: builder_inv_def builder_core_def)
  then have "nbRunning (b_manager b) = 0" using manager_inv_card [of "b_manager b"] by simp
  then show ?thesis using b(1) dn build_end [OF b(2)] by blast
qed

text \<open>C5. Liveness of a parallel build of a graph without depfiles and without a cache: when at least one
  thread is allowed, every command ends and the pipes the system returns are fresh, the build thread passes
  all its assertions and reaches its end after at most three steps per rule of the plan and four more,
  whatever interruptions come; no command is left running, and if the result is success and the build was not interrupted, all
  rules of the plan and all generated targets are up to date.\<close>

theorem build_terminates:
  assumes "graph_inv g" and "T \<subseteq> live g" and "BuildPlan k g T = Inr p" and "length (g_rules g) < k"
    and "0 < bp_numThreads P" and "sched_ok P ss (GraphParallelBuilder g p None w)"
    and "3 * card (p_rules p) + 4 \<le> length (filter is_Step ss)"
  shows "\<exists>b. build_run P ss (GraphParallelBuilder g p None w) = Inr b \<and> b_pc b = Done \<and> nbRunning (b_manager b) = 0 \<and>
     (b_result b = SUCCEEDED \<and> \<not> b_interrupted b \<longrightarrow>
        (\<forall>r \<in> p_rules (b_plan b). \<not> Rule_isDirty (b_graph b) r) \<and> (\<forall>t \<in> T. input_ready (b_graph b) t))"
  by (rule build_ends [OF assms])

theorem build_terminates_witness:
  "\<exists>b. build_run example_params example_sched (GraphParallelBuilder dirty_chain example_plan None empty_world) = Inr b \<and>
     b_pc b = Done \<and> nbRunning (b_manager b) = 0"
proof -
  have "3 * card (p_rules example_plan) + 4 \<le> length (filter is_Step example_sched)"
    by (simp add: example_plan_def example_sched_def)
  from build_terminates [OF dirty_chain_inv _ example_plan_ok _ _ example_sched_ok this]
  show ?thesis using dirty_chain_ok by (auto simp: example_params_def)
qed

end
