(* ===== verification/Incremental_Build.thy ===== *)
theory Incremental_Build
  imports Parallel_Builder
begin

text \<open>
  What a build is for: the files. This theory adds the contents of the files to the state machine of
  \<open>Parallel_Builder\<close> and shows that an incremental build gives the files of a build from scratch.

  What a command writes is a parameter: \<open>cmd c ins\<close> are the contents that the command \<open>c\<close> gives to its outputs when its
  inputs have the contents \<open>ins\<close>. \<open>disk_ok\<close> says that the system runs the commands this way: while the builder waits,
  only the outputs of the running rules change, in any order and any number of times, and the outputs of a command that
  ends with success are those that \<open>cmd\<close> gives. Nothing is said about the outputs of commands that fail or are interrupted.
\<close>

section \<open>Contents\<close>

type_synonym contents = "string \<rightharpoonup> string"
type_synonym commands = "string \<Rightarrow> contents \<Rightarrow> contents"

abbreviation path :: "graph \<Rightarrow> nid \<Rightarrow> string" where
  "path g n \<equiv> n_path (g_node g n)"

definition reads :: "graph \<Rightarrow> contents \<Rightarrow> rid \<Rightarrow> contents" where
  "reads g c r = c |` (path g ` set (r_inputs (g_rule g r)))"

text \<open>The outputs of a rule are what its command gives for its inputs.\<close>

definition built :: "commands \<Rightarrow> graph \<Rightarrow> contents \<Rightarrow> rid \<Rightarrow> bool" where
  "built cmd g c r \<longleftrightarrow> (\<forall>n \<in> set (r_outputs (g_rule g r)). c (path g n) = cmd (r_command (g_rule g r)) (reads g c r) (path g n))"

text \<open>Every rule that is up to date is built; phony rules have no command.\<close>

definition settled :: "commands \<Rightarrow> graph \<Rightarrow> contents \<Rightarrow> bool" where
  "settled cmd g c \<longleftrightarrow> (\<forall>r \<in> set (g_rules g). \<not> Rule_isDirty g r \<and> \<not> Rule_isPhony g r \<longrightarrow> built cmd g c r)"

text \<open>The contents after a build from scratch: sources and the names of phony rules are given, everything else is computed
  from them. The bound is on the depth of the graph.\<close>

fun clean_build :: "nat \<Rightarrow> commands \<Rightarrow> graph \<Rightarrow> contents \<Rightarrow> nid \<Rightarrow> string option" where
  "clean_build 0 cmd g src n = None"
| "clean_build (Suc k) cmd g src n =
     (case n_child (g_node g n) of
        None \<Rightarrow> src (path g n)
      | Some r \<Rightarrow>
          if Rule_isPhony g r then src (path g n)
          else cmd (r_command (g_rule g r))
                 (\<lambda>p. Option.bind (find (\<lambda>i. path g i = p) (r_inputs (g_rule g r))) (clean_build k cmd g src))
                 (path g n))"

text \<open>The paths that a rule writes.\<close>

definition writes :: "graph \<Rightarrow> rid set \<Rightarrow> string set" where
  "writes g R = {path g n | n r. r \<in> R \<and> n \<in> set (r_outputs (g_rule g r))}"

definition disk_ok :: "commands \<Rightarrow> os_event \<Rightarrow> builder \<Rightarrow> bool" where
  "disk_ok cmd e b \<longleftrightarrow>
     (\<forall>p. p \<notin> writes (b_graph b) (running b) \<longrightarrow> content (e_disk e (b_world b)) p = content (b_world b) p) \<and>
     (\<forall>res m. waitForNext (e_polls e) (e_status e) (b_manager b) = Inr (res, m) \<and> br_status res = EXIT_SUCCEEDED \<longrightarrow>
        built cmd (b_graph b) (content (e_disk e (b_world b))) (br_rule res))"

text \<open>A schedule whose system calls and commands behave at every step.\<close>

fun disk_sched_ok :: "build_params \<Rightarrow> commands \<Rightarrow> sched list \<Rightarrow> builder \<Rightarrow> bool" where
  "disk_sched_ok P cmd [] b \<longleftrightarrow> True"
| "disk_sched_ok P cmd (s # ss) b \<longleftrightarrow> (case s of Step e \<Rightarrow> disk_ok cmd e b | Interrupt \<Rightarrow> True) \<and>
     (case sched_step P s b of Inl _ \<Rightarrow> True | Inr b' \<Rightarrow> disk_sched_ok P cmd ss b')"

section \<open>The shape of the graph\<close>

text \<open>What a build does not change.\<close>

definition build_shape :: "graph \<Rightarrow> (string \<times> nid) list \<times> rid list \<times> (nid \<Rightarrow> string \<times> rid option) \<times> (rid \<Rightarrow> nid list \<times> nid list \<times> string)" where
  "build_shape g = (g_nodes g, g_rules g, \<lambda>n. (path g n, n_child (g_node g n)),
     \<lambda>r. (r_inputs (g_rule g r), r_outputs (g_rule g r), r_command (g_rule g r)))"

lemma build_shapeD:
  assumes "build_shape g' = build_shape g"
  shows "g_nodes g' = g_nodes g" "g_rules g' = g_rules g" "path g' n = path g n" "n_child (g_node g' n) = n_child (g_node g n)"
    "r_inputs (g_rule g' r) = r_inputs (g_rule g r)" "r_outputs (g_rule g' r) = r_outputs (g_rule g r)"
    "r_command (g_rule g' r) = r_command (g_rule g r)" "Rule_isPhony g' r = Rule_isPhony g r" "live g' = live g"
  using assms by (simp_all add: build_shape_def fun_eq_iff Rule_isPhony_def live_def)

lemma shape_finished [simp]: "build_shape (finished r g) = build_shape g"
  by (simp add: build_shape_def finished_def)

lemma shape_timestamp [simp]: "build_shape (Rule_setTimestamp r t g) = build_shape g"
  by (auto simp: build_shape_def Rule_setTimestamp_def upd_rule_def)

lemma shape_cong:
  assumes "build_shape g' = build_shape g"
  shows "reads g' c r = reads g c r" "built cmd g' c r = built cmd g c r" "writes g' R = writes g R"
proof -
  note eq = build_shapeD [OF assms]
  show rd: "reads g' c r = reads g c r" by (simp add: reads_def eq)
  show "built cmd g' c r = built cmd g c r" by (simp add: built_def rd eq)
  show "writes g' R = writes g R" by (simp add: writes_def eq)
qed

lemma shape_clean:
  assumes "build_shape g' = build_shape g"
  shows "clean_build k cmd g' src = clean_build k cmd g src"
proof (induction k)
  case (Suc k)
  show ?case by (rule ext) (simp add: build_shapeD [OF assms] Suc split: option.split)
qed (simp add: fun_eq_iff)

lemma node_path_inj:
  assumes wf: "wf_graph g" and "m \<in> live g" "n \<in> live g" "path g m = path g n"
  shows "m = n"
proof -
  have node: "(path g i, i) \<in> set (g_nodes g)" if i: "i \<in> live g" for i
  proof -
    obtain p where "(p, i) \<in> set (g_nodes g)" using i by (auto simp: live_def)
    moreover then have "path g i = p" using wf unfolding wf_graph_def by blast
    ultimately show ?thesis by simp
  qed
  have "distinct (map fst (g_nodes g))" using wf by (simp add: wf_graph_def)
  from eq_key_imp_eq_value [OF this node [OF assms(2)]] node [OF assms(3)] assms(4) show ?thesis by simp
qed

section \<open>Rules that are up to date stay built\<close>

text \<open>Writing the outputs of dirty rules does not touch a rule that is up to date: neither its outputs, which have one
  producer, nor its inputs, as a rule with a dirty input is dirty.\<close>

lemma dirty_writes:
  assumes g: "graph_inv g" and R: "\<forall>r \<in> R. r \<in> set (g_rules g) \<and> Rule_isDirty g r"
    and q: "q \<in> set (g_rules g)" "\<not> Rule_isDirty g q" and n: "n \<in> set (r_outputs (g_rule g q)) \<union> set (r_inputs (g_rule g q))"
  shows "path g n \<notin> writes g R"
proof
  assume "path g n \<in> writes g R"
  then obtain m r where m: "path g n = path g m" "r \<in> R" "m \<in> set (r_outputs (g_rule g r))" by (auto simp: writes_def)
  have wf: "wf_graph g" and st: "strict_states g" using g by (auto simp: graph_inv_def)
  have r: "r \<in> set (g_rules g)" "Rule_isDirty g r" using R m(2) by auto
  have live: "m \<in> live g" "n_child (g_node g m) = Some r" using wf_output [OF wf r(1) m(3)] by auto
  have "n \<in> live g" using n wf_output [OF wf q(1)] wf_input [OF wf q(1)] by blast
  then have nm: "n = m" using node_path_inj [OF wf _ live(1) m(1)] by blast
  have "\<not> input_ready g m" using st r m(3) live(2) by (auto simp: strict_states_def input_ready_def Node_isSource_def)
  then have "n \<notin> set (r_inputs (g_rule g q))" using strict_input [OF st q(1)] q(2) nm by blast
  moreover have "n \<notin> set (r_outputs (g_rule g q))" using wf_output [OF wf q(1), of n] live(2) nm q(2) r(2) by auto
  ultimately show False using n by blast
qed

lemma reads_cong: "(\<And>i. i \<in> set (r_inputs (g_rule g r)) \<Longrightarrow> c' (path g i) = c (path g i)) \<Longrightarrow> reads g c' r = reads g c r"
  by (auto simp: reads_def restrict_map_def fun_eq_iff)

lemma settled_frame:
  assumes g: "graph_inv g" and R: "\<forall>r \<in> R. r \<in> set (g_rules g) \<and> Rule_isDirty g r"
    and same: "\<And>p. p \<notin> writes g R \<Longrightarrow> c' p = c p" and c: "settled cmd g c"
  shows "settled cmd g c'"
  unfolding settled_def
proof (intro ballI impI)
  fix q assume q: "q \<in> set (g_rules g)" "\<not> Rule_isDirty g q \<and> \<not> Rule_isPhony g q"
  have eq: "c' (path g n) = c (path g n)" if "n \<in> set (r_outputs (g_rule g q)) \<union> set (r_inputs (g_rule g q))" for n
    using same dirty_writes [OF g R q(1) _ that] q(2) by blast
  have "reads g c' q = reads g c q" by (rule reads_cong) (use eq in blast)
  then show "built cmd g c' q" using c q eq by (auto simp: settled_def built_def)
qed

lemma settled_finished:
  assumes "settled cmd g c" and "Rule_isPhony g r \<or> built cmd g c r"
  shows "settled cmd (finished r g) c"
  using assms shape_cong(2) [OF shape_finished] build_shapeD(8) [OF shape_finished] by (auto simp: settled_def)

lemma settled_timestamp [simp]: "settled cmd (Rule_setTimestamp r t g) c = settled cmd g c"
proof -
  note eq = build_shapeD [OF shape_timestamp] shape_cong(2) [OF shape_timestamp]
  have "Rule_isDirty (Rule_setTimestamp r t g) q = Rule_isDirty g q" for q
    by (simp add: Rule_isDirty_def Rule_setTimestamp_def upd_rule_def)
  then show ?thesis by (simp add: settled_def eq)
qed

section \<open>What a step does to the files\<close>

lemma content_createPath: "content (snd (createPath p w)) = content w"
proof -
  obtain b w' where w': "createPath p w = (b, w')" by fastforce
  then have "w_files w' q = w_files w q \<or> w_files w q = None \<and> isDir w' q" for q
    using createPath_spec [OF w'] by (auto simp: only_dirs_def)
  then have "content w' q = content w q" for q by (cases "w_files w' q = w_files w q") (fastforce simp: content_def isDir_def)+
  then show ?thesis using w' by auto
qed

lemma content_createDirectories: "content (createDirectories g r w) = content w"
proof -
  have "content (fold (\<lambda>n w. snd (createPath (f n) w)) ns w) = content w" for f :: "nid \<Rightarrow> string" and ns
    by (induction ns arbitrary: w) (simp_all add: content_createPath)
  then show ?thesis by (simp add: createDirectories_def Let_def content_createPath)
qed

lemma finish_effect:
  assumes "builder_core T (insert r F) b" "onRuleFinished r b = Inr b'"
  shows "b_graph b' = finished r (b_graph b) \<and> b_world b' = b_world b \<and> b_manager b' = b_manager b"
proof -
  have "graph_inv (b_graph b)" "plan_inv (b_graph b) (b_plan b) (running b \<union> insert r F)" using assms(1) by (auto simp: builder_core_def)
  from onRuleFinished_inv [OF this, of r] assms(2) show ?thesis by auto
qed

lemma buildRule_effect:
  assumes core: "builder_core T (insert r F) b" and cache: "b_cache b = None" and os: "fresh_pipes (e_pipes e) (b_manager b)"
    and eq: "buildRule P e r b = Inr b'"
  shows "content (b_world b') = content (b_world b) \<and>
     (Rule_isPhony (b_graph b) r \<and> b_graph b' = finished r (b_graph b) \<and> running b' = running b \<or>
      \<not> Rule_isPhony (b_graph b) r \<and> b_graph b' = b_graph b \<and> running b' = insert r (running b))"
proof (cases "Rule_isPhony (b_graph b) r")
  case True
  then show ?thesis using finish_effect [OF core, of b'] eq by (simp add: buildRule_def)
next
  case False
  let ?c = "r_command (g_rule (b_graph b) r)"
  obtain i m where m: "addProcess (e_pipes e) r ?c (bp_workingDirectory P) (b_manager b) = Inr (i, m)"
    and b': "b' = b\<lparr>b_world := createDirectories (b_graph b) r (b_world b), b_manager := m, b_events := b_events b @ [NewCommand i ?c]\<rparr>"
    using False eq cache by (auto simp: buildRule_def tryBuildRuleFromCache_def rbind_eq_Inr Let_def)
  have "manager_inv (b_manager b)" using core by (simp add: builder_core_def)
  from posix.add_law [OF this os m] show ?thesis using False b' by (simp add: content_createDirectories)
qed

lemma waitForNext_effect:
  assumes core: "builder_core T F b" and cache: "b_cache b = None" and eq: "builder_waitForNext P e b = Inr (res, b')"
  obtains br m t where "waitForNext (e_polls e) (e_status e) (b_manager b) = Inr (br, m)" "running b' \<subseteq> running b"
    "b_world b' = e_disk e (b_world b)"
    "b_graph b' = Rule_setTimestamp (br_rule br) t (b_graph b) \<or>
     br_status br = EXIT_SUCCEEDED \<and> b_graph b' = finished (br_rule br) (Rule_setTimestamp (br_rule br) t (b_graph b))"
proof -
  obtain br m where br: "waitForNext (e_polls e) (e_status e) (b_manager b) = Inr (br, m)"
    using eq by (auto simp: builder_waitForNext_def rbind_eq_Inr)
  let ?r = "br_rule br" and ?t = "w_time (e_disk e (b_world b))"
  define b1 where "b1 = b\<lparr>b_manager := m, b_world := e_disk e (b_world b), b_events := b_events b @ [EndCommand (br_cmdId br) (br_status br)],
      b_graph := Rule_setTimestamp ?r ?t (b_graph b)\<rparr>"
  have c1: "builder_core T (insert ?r F) b1" using core_wait [OF core br, of b1] by (simp add: b1_def)
  have "manager_inv (b_manager b)" using core by (simp add: builder_core_def)
  then have run: "running b1 \<subseteq> running b" using posix.wait_law [OF _ br] by (auto simp: b1_def)
  show thesis
  proof (cases "br_status br = EXIT_SUCCEEDED")
    case True
    have "\<not> Rule_hasDepfile (b_graph b1) ?r" using c1 by (simp add: builder_core_def graph_inv_def Rule_hasDepfile_def)
    then have "loadDepfile P ?r b1 = Inr (True, b1)" "saveInCache ?r b1 = Inr b1" using cache by (simp_all add: loadDepfile_def saveInCache_def b1_def)
    then have "onRuleFinished ?r b1 = Inr b'" using eq br True by (auto simp: builder_waitForNext_def Let_def b1_def rbind_eq_Inr)
    from finish_effect [OF c1 this] show thesis using that [OF br, of ?t] run True by (simp add: b1_def)
  next
    case False
    then have "b' = b1" using eq br by (auto simp: builder_waitForNext_def Let_def b1_def split: if_splits)
    then show thesis using that [OF br, of ?t] run by (simp add: b1_def)
  qed
qed

section \<open>The invariant on the files\<close>

text \<open>The rules that are up to date are built, and only outputs of rules with a command have changed since the start.\<close>

definition files_inv :: "commands \<Rightarrow> graph \<Rightarrow> contents \<Rightarrow> builder \<Rightarrow> bool" where
  "files_inv cmd g src b \<longleftrightarrow> b_cache b = None \<and> build_shape (b_graph b) = build_shape g \<and> settled cmd (b_graph b) (content (b_world b)) \<and>
     (\<forall>p. p \<notin> writes g {r \<in> set (g_rules g). \<not> Rule_isPhony g r} \<longrightarrow> content (b_world b) p = src p) \<and>
     (\<forall>r \<in> running b. \<not> Rule_isPhony g r)"

lemma files_cong:
  "b_cache b' = b_cache b \<Longrightarrow> b_graph b' = b_graph b \<Longrightarrow> b_world b' = b_world b \<Longrightarrow> b_manager b' = b_manager b \<Longrightarrow>
   files_inv cmd g src b' = files_inv cmd g src b"
  by (simp add: files_inv_def)

lemma core_running:
  assumes "builder_core T F b"
  shows "\<forall>r \<in> running b \<union> F. r \<in> set (g_rules (b_graph b)) \<and> Rule_isDirty (b_graph b) r"
  using assms unfolding builder_core_def plan_inv_def by blast

lemma files_buildRule:
  assumes core: "builder_core T (insert r F) b" and os: "fresh_pipes (e_pipes e) (b_manager b)" and eq: "buildRule P e r b = Inr b'"
    and inv: "files_inv cmd g src b" and cache: "b_cache b' = None"
  shows "files_inv cmd g src b'"
proof -
  have f: "build_shape (b_graph b) = build_shape g" "settled cmd (b_graph b) (content (b_world b))" "\<forall>r \<in> running b. \<not> Rule_isPhony g r"
    using inv by (auto simp: files_inv_def)
  note ph = build_shapeD(8) [OF f(1)]
  have "b_cache b = None" using inv by (simp add: files_inv_def)
  note eff = buildRule_effect [OF core this os eq]
  then have c: "content (b_world b') = content (b_world b)"
    and "(Rule_isPhony (b_graph b) r \<and> b_graph b' = finished r (b_graph b) \<and> running b' = running b) \<or>
      (\<not> Rule_isPhony (b_graph b) r \<and> b_graph b' = b_graph b \<and> running b' = insert r (running b))" by blast+
  then have "settled cmd (b_graph b') (content (b_world b)) \<and> build_shape (b_graph b') = build_shape g \<and> (\<forall>r \<in> running b'. \<not> Rule_isPhony g r)"
  proof (elim disjE conjE)
    assume "Rule_isPhony (b_graph b) r" and eq: "b_graph b' = finished r (b_graph b)" "running b' = running b"
    then show ?thesis using settled_finished [OF f(2), of r] f unfolding eq by simp
  next
    assume "\<not> Rule_isPhony (b_graph b) r" and eq: "b_graph b' = b_graph b" "running b' = insert r (running b)"
    then show ?thesis using f ph unfolding eq by blast
  qed
  then show ?thesis using inv cache c unfolding files_inv_def by simp
qed

lemma files_wait:
  assumes core: "builder_core T F b" and disk: "disk_ok cmd e b" and eq: "builder_waitForNext P e b = Inr (res, b')"
    and inv: "files_inv cmd g src b" and cache: "b_cache b' = None"
  shows "files_inv cmd g src b'"
proof -
  let ?g = "b_graph b" and ?c = "content (b_world b)" and ?c' = "content (b_world b')"
  have f: "b_cache b = None" "build_shape ?g = build_shape g" "settled cmd ?g ?c" "\<forall>r \<in> running b. \<not> Rule_isPhony g r"
    using inv by (auto simp: files_inv_def)
  obtain br m t where br: "waitForNext (e_polls e) (e_status e) (b_manager b) = Inr (br, m)" "running b' \<subseteq> running b"
    "b_world b' = e_disk e (b_world b)"
    "b_graph b' = Rule_setTimestamp (br_rule br) t ?g \<or>
     br_status br = EXIT_SUCCEEDED \<and> b_graph b' = finished (br_rule br) (Rule_setTimestamp (br_rule br) t ?g)"
    using waitForNext_effect [OF core f(1) eq] by metis
  have same: "?c' p = ?c p" if "p \<notin> writes ?g (running b)" for p using disk that br(3) by (simp add: disk_ok_def)
  have "settled cmd ?g ?c'"
    by (rule settled_frame [OF _ _ same f(3)]) (use core core_running [OF core] in \<open>auto simp: builder_core_def\<close>)
  moreover have "built cmd ?g ?c' (br_rule br)" if "br_status br = EXIT_SUCCEEDED" using disk br that by (simp add: disk_ok_def)
  ultimately have "settled cmd (b_graph b') ?c'" 
    using br(4) settled_finished [of cmd "Rule_setTimestamp (br_rule br) t ?g" ?c' "br_rule br"] shape_cong(2) [OF shape_timestamp] by auto
  moreover have "writes ?g (running b) \<subseteq> writes g {r \<in> set (g_rules g). \<not> Rule_isPhony g r}"
    using core_running [OF core] f(4) build_shapeD [OF f(2)] by (auto simp: writes_def)
  then have "?c' p = src p" if "p \<notin> writes g {r \<in> set (g_rules g). \<not> Rule_isPhony g r}" for p
    using same [of p] inv that by (auto simp: files_inv_def)
  moreover have "build_shape (b_graph b') = build_shape g" using br(4) f(2) by auto
  moreover have "\<forall>r \<in> running b'. \<not> Rule_isPhony g r" using br(2) f(4) by blast
  ultimately show ?thesis using cache unfolding files_inv_def by blast
qed

lemma files_step:
  assumes inv: "builder_inv T b" and os: "fresh_pipes (e_pipes e) (b_manager b)" and disk: "disk_ok cmd e b"
    and eq: "build_step P e b = Inr b'" and files: "files_inv cmd g src b"
  shows "files_inv cmd g src b'"
proof -
  obtain F where core: "builder_core T F b" using inv by (auto simp: builder_inv_def)
  have cache: "b_cache b = None" using files by (simp add: files_inv_def)
  consider (start) "b_pc b = Spawn" "hasWork (b_plan b)" "nbRunning (b_manager b) < bp_numThreads P"
    | (wait) res b1 where "builder_waitForNext P e b = Inr (res, b1)" "b_cache b' = b_cache b1" "b_graph b' = b_graph b1"
        "b_world b' = b_world b1" "b_manager b' = b_manager b1"
    | (other) "b_cache b' = b_cache b" "b_graph b' = b_graph b" "b_world b' = b_world b" "b_manager b' = b_manager b"
    using eq by (auto simp: build_step_def rbind_eq_Inr split: pc.splits if_splits)
  then show ?thesis
  proof cases
    case start
    obtain r p where r: "findWork (b_plan b) = (Some r, p)" "builder_core T (insert r F) (b\<lparr>b_plan := p\<rparr>)" "r \<notin> F"
      using core_findWork [OF core start(2)] by metis
    have b: "buildRule P e r (b\<lparr>b_plan := p\<rparr>) = Inr b'" using eq start r(1) by (simp add: build_step_def)
    have "b_cache b' = None" using core_buildRule [OF r(2,3) _ b] os cache by (simp add: same_control_def)
    from files_buildRule [OF r(2) _ b _ this] show ?thesis using os files by (simp add: files_cong [of "b\<lparr>b_plan := p\<rparr>" b])
  next
    case wait
    have "b_cache b1 = None" using core_waitForNext [OF core wait(1)] cache by (auto simp: same_control_def)
    from files_wait [OF core disk wait(1) files this] show ?thesis using files_cong [OF wait(2-5)] by blast
  next
    case other
    then show ?thesis using files files_cong by blast
  qed
qed

section \<open>An incremental build\<close>

lemma files_interrupt: "builder_interrupt b = Inr b' \<Longrightarrow> files_inv cmd g src b' = files_inv cmd g src b"
  by (auto simp: builder_interrupt_def rbind_eq_Inr files_inv_def)

definition disk_enabled :: "commands \<Rightarrow> sched \<Rightarrow> builder \<Rightarrow> bool" where
  "disk_enabled cmd s b \<longleftrightarrow> sched_enabled s b \<and> (case s of Step e \<Rightarrow> disk_ok cmd e b | Interrupt \<Rightarrow> True)"

interpretation files: machine "disk_enabled cmd" "sched_step P" "\<lambda>b. builder_inv T b \<and> files_inv cmd g src b"
  for cmd P T g src
proof (unfold_locales, goal_cases)
  case (1 b s b')
  show ?case
  proof (cases s)
    case (Step e)
    then have e: "build_step P e b = Inr b'" "disk_ok cmd e b" "fresh_pipes (e_pipes e) (b_manager b)"
      using 1(2,3) by (auto simp: sched_step_def event_ok_def disk_enabled_def sched_enabled_def)
    then show ?thesis using build_step_inv [OF _ e(3,1)] files_step [OF _ e(3,2,1)] 1(1) by blast
  next
    case Interrupt
    then show ?thesis using 1 interrupt_inv files_interrupt by (auto simp: sched_step_def)
  qed
qed

lemma disk_sched_run: "sched_ok P ss b \<Longrightarrow> disk_sched_ok P cmd ss b \<Longrightarrow> files.run_ok cmd P ss b"
  by (induction ss arbitrary: b) (auto simp: disk_enabled_def sched_enabled_def split: sum.splits)

text \<open>A node that is ready has the content of a build from scratch: its rule is built, and so are the rules of its inputs.\<close>

definition depth :: "graph \<Rightarrow> nid \<Rightarrow> nat" where
  "depth g n = card {m. (m, n) \<in> (dep_edges g)\<^sup>+}"

lemma depth_live:
  assumes "wf_graph g"
  shows "{m. (m, n) \<in> (dep_edges g)\<^sup>+} \<subseteq> live g"
  using trancl_subset_Sigma [OF dep_edges_live [OF assms]] by blast

lemma depth_less:
  assumes "wf_graph g" "acyclic_graph g" "(m, n) \<in> dep_edges g"
  shows "depth g m < depth g n"
  unfolding depth_def
proof (rule psubset_card_mono)
  show "finite {m. (m, n) \<in> (dep_edges g)\<^sup>+}" by (rule finite_subset [OF depth_live [OF assms(1)]]) simp
  have "(m, m) \<notin> (dep_edges g)\<^sup>+" using assms(2) by (simp add: acyclic_graph_def acyclic_def)
  then show "{l. (l, m) \<in> (dep_edges g)\<^sup>+} \<subset> {l. (l, n) \<in> (dep_edges g)\<^sup>+}"
    using assms(3) by (auto intro: trancl_into_trancl)
qed

lemma reads_found:
  assumes "\<And>i. i \<in> set (r_inputs (g_rule g r)) \<Longrightarrow> c (path g i) = f i"
  shows "reads g c r = (\<lambda>p. Option.bind (find (\<lambda>i. path g i = p) (r_inputs (g_rule g r))) f)"
proof
  fix p
  show "reads g c r p = Option.bind (find (\<lambda>i. path g i = p) (r_inputs (g_rule g r))) f"
  proof (cases "find (\<lambda>i. path g i = p) (r_inputs (g_rule g r))")
    case None
    moreover from this have "p \<notin> path g ` set (r_inputs (g_rule g r))" by (auto simp: find_None_iff)
    ultimately show ?thesis by (simp add: reads_def)
  next
    case (Some i)
    then have "i \<in> set (r_inputs (g_rule g r))" "path g i = p" by (auto simp: find_Some_iff)
    then show ?thesis using Some assms by (auto simp: reads_def restrict_map_def)
  qed
qed

lemma ready_clean:
  assumes g: "graph_inv g" and c: "settled cmd g c"
    and frame: "\<And>p. p \<notin> writes g {r \<in> set (g_rules g). \<not> Rule_isPhony g r} \<Longrightarrow> c p = src p"
    and n: "n \<in> live g" "input_ready g n" "depth g n < k"
  shows "c (path g n) = clean_build k cmd g src n"
  using n
proof (induction k arbitrary: n)
  case (Suc k)
  have wf: "wf_graph g" "acyclic_graph g" and st: "strict_states g" using g by (auto simp: graph_inv_def)
  have kept: "c (path g n) = src (path g n)" if "\<And>r. n_child (g_node g n) = Some r \<Longrightarrow> Rule_isPhony g r"
  proof (rule frame, rule notI)
    assume "path g n \<in> writes g {r \<in> set (g_rules g). \<not> Rule_isPhony g r}"
    then obtain m r where m: "path g n = path g m" "r \<in> set (g_rules g)" "\<not> Rule_isPhony g r" "m \<in> set (r_outputs (g_rule g r))"
      by (auto simp: writes_def)
    then show False using wf_output [OF wf(1) m(2,4)] node_path_inj [OF wf(1) Suc.prems(1) _ m(1)] that by auto
  qed
  show ?case
  proof (cases "n_child (g_node g n)")
    case None
    then show ?thesis using kept by simp
  next
    case (Some r)
    have r: "r \<in> set (g_rules g)" "n \<in> set (r_outputs (g_rule g r))" using wf_child [OF wf(1) Suc.prems(1) Some] by auto
    have clean: "\<not> Rule_isDirty g r" using Suc.prems(2) Some r st by (auto simp: input_ready_def Node_isSource_def strict_states_def)
    show ?thesis
    proof (cases "Rule_isPhony g r")
      case True
      then show ?thesis using kept Some by simp
    next
      case False
      let ?I = "r_inputs (g_rule g r)"
      have input: "c (path g i) = clean_build k cmd g src i" if i: "i \<in> set ?I" for i
      proof (rule Suc.IH)
        show "i \<in> live g" using wf_input [OF wf(1) r(1) i] by blast
        show "input_ready g i" using strict_input [OF st r(1) i] clean by blast
        have "(i, n) \<in> dep_edges g" using i r by (auto simp: dep_edges_def)
        then show "depth g i < k" using depth_less [OF wf] Suc.prems(3) by fastforce
      qed
      have "reads g c r = (\<lambda>p. Option.bind (find (\<lambda>i. path g i = p) ?I) (clean_build k cmd g src))"
        by (rule reads_found) (use input in blast)
      moreover have "c (path g n) = cmd (r_command (g_rule g r)) (reads g c r) (path g n)"
        using c r clean False by (simp add: settled_def built_def)
      ultimately show ?thesis using Some False by simp
    qed
  qed
qed simp

lemma files_start:
  "settled cmd g (content w) \<Longrightarrow> files_inv cmd g (content w) (GraphParallelBuilder g p None w)"
  by (simp add: files_inv_def GraphParallelBuilder_def PosixSubProcessManager_def active_def)

text \<open>The end of a build: the graph is the one of the start but for its states, and a ready node is as a build from scratch
  leaves it.\<close>

lemma files_end:
  assumes inv: "builder_inv T b" and files: "files_inv cmd g src b" and t: "t \<in> live g" "input_ready (b_graph b) t"
  shows "content (b_world b) (path g t) = clean_build (Suc (length (g_nodes g))) cmd g src t"
proof -
  let ?g = "b_graph b"
  have g: "graph_inv ?g" using inv by (auto simp: builder_inv_def builder_core_def)
  have f: "build_shape ?g = build_shape g" "settled cmd ?g (content (b_world b))" using files by (simp_all add: files_inv_def)
  note eq = build_shapeD [OF f(1)]
  have frame: "content (b_world b) p = src p" if "p \<notin> writes ?g {r \<in> set (g_rules ?g). \<not> Rule_isPhony ?g r}" for p
    using files that unfolding files_inv_def shape_cong(3) [OF f(1)] eq by blast
  have wf: "wf_graph ?g" using g by (simp add: graph_inv_def)
  have "depth ?g t \<le> card (live ?g)" unfolding depth_def by (rule card_mono [OF _ depth_live [OF wf]]) simp
  then have "depth ?g t < Suc (length (g_nodes g))" using card_live_le [of ?g] eq(1) by simp
  from ready_clean [OF g f(2) frame _ t(2) this] show ?thesis using t(1) by (simp add: eq shape_clean [OF f(1)])
qed

section \<open>Properties\<close>

text \<open>An example: the chain of two rules, of which the first appends a digit to the source and the second one to the
  result. Both outputs are old.\<close>

definition write_files :: "(string \<times> string) list \<Rightarrow> world \<Rightarrow> world" where
  "write_files fs = fold (\<lambda>(p, c). upd_files (\<lambda>f. f(p \<mapsto> File c 0))) fs"

text \<open>A check of \<open>disk_ok\<close> for events that write some files.\<close>

definition disk_check :: "commands \<Rightarrow> (string \<times> string) list \<Rightarrow> os_event \<Rightarrow> builder \<Rightarrow> bool" where
  "disk_check cmd fs e b \<longleftrightarrow>
     (\<forall>(p, c) \<in> set fs. \<exists>(i, r) \<in> set (m_mapToRule (b_manager b)). \<exists>n \<in> set (r_outputs (g_rule (b_graph b) r)). p = path (b_graph b) n) \<and>
     (case waitForNext (e_polls e) (e_status e) (b_manager b) of
        Inl _ \<Rightarrow> True
      | Inr (res, m) \<Rightarrow> br_status res \<noteq> EXIT_SUCCEEDED \<or> built cmd (b_graph b) (content (e_disk e (b_world b))) (br_rule res))"

lemma write_files_content: "p \<notin> fst ` set fs \<Longrightarrow> content (write_files fs w) p = content w p"
  unfolding write_files_def by (induction fs arbitrary: w) (auto simp: content_def)

lemma disk_check: "disk_check cmd fs (e\<lparr>e_disk := write_files fs\<rparr>) b \<Longrightarrow> disk_ok cmd (e\<lparr>e_disk := write_files fs\<rparr>) b"
  unfolding disk_ok_def
proof (intro conjI allI impI)
  assume check: "disk_check cmd fs (e\<lparr>e_disk := write_files fs\<rparr>) b"
  fix p assume p: "p \<notin> writes (b_graph b) (running b)"
  have "p \<notin> fst ` set fs"
  proof
    assume "p \<in> fst ` set fs"
    then obtain i r n where "(i, r) \<in> active (b_manager b)" "n \<in> set (r_outputs (g_rule (b_graph b) r))" "p = path (b_graph b) n"
      using check by (fastforce simp: disk_check_def active_def)
    then show False using p by (force simp: writes_def)
  qed
  then show "content (e_disk (e\<lparr>e_disk := write_files fs\<rparr>) (b_world b)) p = content (b_world b) p" by (simp add: write_files_content)
qed (auto simp: disk_check_def)

fun check_sched :: "build_params \<Rightarrow> commands \<Rightarrow> (os_event \<times> (string \<times> string) list) list \<Rightarrow> builder \<Rightarrow> bool" where
  "check_sched P cmd [] b \<longleftrightarrow> True"
| "check_sched P cmd ((e, fs) # ss) b \<longleftrightarrow> (let e = e\<lparr>e_disk := write_files fs\<rparr> in event_ok e b \<and> disk_check cmd fs e b \<and>
     (case build_step P e b of Inl _ \<Rightarrow> True | Inr b' \<Rightarrow> check_sched P cmd ss b'))"

abbreviation disk_steps :: "(os_event \<times> (string \<times> string) list) list \<Rightarrow> sched list" where
  "disk_steps \<equiv> map (\<lambda>(e, fs). Step (e\<lparr>e_disk := write_files fs\<rparr>))"

lemma check_sched: "check_sched P cmd es b \<Longrightarrow> sched_ok P (disk_steps es) b \<and> disk_sched_ok P cmd (disk_steps es) b"
proof (induction es arbitrary: b)
  case (Cons x es)
  obtain e fs where x: "x = (e, fs)" by (cases x)
  show ?case using Cons disk_check [of cmd fs e b] by (auto simp: x Let_def sched_step_def split: sum.splits)
qed simp

definition example_cmd :: commands where
  "example_cmd c ins p = (if p = ''b'' then map_option (\<lambda>x. x @ ''1'') (ins ''a'') else if p = ''c'' then map_option (\<lambda>x. x @ ''2'') (ins ''b'') else None)"

definition old_world :: world where
  "old_world = \<lparr>w_files = [''a'' \<mapsto> File ''x'' 3, ''b'' \<mapsto> File ''old'' 1, ''c'' \<mapsto> File ''old'' 2], w_denied = {}, w_time = 4\<rparr>"

definition example_steps :: "(os_event \<times> (string \<times> string) list) list" where
  "example_steps = [(example_event, []), (example_event, []), (example_end, [(''b'', ''x1'')]), (example_event, []), (example_event, []),
     (example_end, [(''c'', ''x12'')]), (example_event, []), (example_event, []), (example_event, []), (example_event, [])]"

lemma example_check: "check_sched example_params example_cmd example_steps (GraphParallelBuilder dirty_chain example_plan None old_world)"
  by code_simp

text \<open>The end of a build and its files.\<close>

lemma build_files:
  assumes "graph_inv g" and "T \<subseteq> live g" and "BuildPlan k g T = Inr p" and "length (g_rules g) < k"
    and "0 < bp_numThreads P" and "sched_ok P ss (GraphParallelBuilder g p None w)"
    and "disk_sched_ok P cmd ss (GraphParallelBuilder g p None w)" and "settled cmd g (content w)"
    and "build_run P ss (GraphParallelBuilder g p None w) = Inr b"
  shows "settled cmd (b_graph b) (content (b_world b))"
    and "b_pc b = Done \<Longrightarrow> b_result b = SUCCEEDED \<Longrightarrow> \<not> b_interrupted b \<Longrightarrow> t \<in> T \<Longrightarrow>
      content (b_world b) (path g t) = clean_build (Suc (length (g_nodes g))) cmd g (content w) t"
proof -
  let ?b = "GraphParallelBuilder g p None w"
  have start: "builder_inv T ?b" by (rule builder_inv_start [OF assms(1-4)])
  have inv: "builder_inv T b" and files: "files_inv cmd g (content w) b"
    using files.run_keeps [OF _ disk_sched_run [OF assms(6,7)] assms(9) [unfolded build_run_def]] start files_start [OF assms(8)] by blast+
  then show "settled cmd (b_graph b) (content (b_world b))" by (simp add: files_inv_def)
  assume "b_pc b = Done" "b_result b = SUCCEEDED" "\<not> b_interrupted b" "t \<in> T"
  then show "content (b_world b) (path g t) = clean_build (Suc (length (g_nodes g))) cmd g (content w) t"
    using build_end [OF inv] files_end [OF inv files] assms(2) by blast
qed

text \<open>C4. An incremental build gives the files of a build from scratch. Let the rules that are up to date at the start be
  built, and let the commands write what \<open>cmd\<close> gives for their inputs. Then a build of a graph without depfiles and without
  a cache, under every schedule in which the commands end, reaches its end; even when commands fail or the build is
  interrupted, every rule that is marked up to date afterwards is built, so no wrong file is taken for a result; and when
  the build succeeds, every target has the content that a build from scratch computes from the sources.\<close>

theorem incremental_build_correct:
  assumes "graph_inv g" and "T \<subseteq> live g" and "BuildPlan k g T = Inr p" and "length (g_rules g) < k"
    and "0 < bp_numThreads P" and "sched_ok P ss (GraphParallelBuilder g p None w)"
    and "disk_sched_ok P cmd ss (GraphParallelBuilder g p None w)"
    and "3 * card (p_rules p) + 4 \<le> length (filter is_Step ss)"
    and "settled cmd g (content w)"
  shows "\<exists>b. build_run P ss (GraphParallelBuilder g p None w) = Inr b \<and> b_pc b = Done \<and>
     settled cmd (b_graph b) (content (b_world b)) \<and>
     (b_result b = SUCCEEDED \<and> \<not> b_interrupted b \<longrightarrow>
        (\<forall>t \<in> T. content (b_world b) (path g t) = clean_build (Suc (length (g_nodes g))) cmd g (content w) t))"
proof -
  obtain b where b: "build_run P ss (GraphParallelBuilder g p None w) = Inr b" "b_pc b = Done" using build_ends [OF assms(1-6,8)] by blast
  note files = build_files [OF assms(1-7,9) b(1)]
  show ?thesis using b files(1) files(2) [OF b(2)] by blast
qed

theorem incremental_build_correct_witness:
  "\<exists>b. build_run example_params (disk_steps example_steps) (GraphParallelBuilder dirty_chain example_plan None old_world) = Inr b \<and>
     b_result b = SUCCEEDED \<and> settled example_cmd (b_graph b) (content (b_world b)) \<and> content (b_world b) ''c'' = Some ''x12''"
proof -
  let ?run = "build_run example_params (disk_steps example_steps) (GraphParallelBuilder dirty_chain example_plan None old_world)"
  have "settled example_cmd dirty_chain (content old_world)" by code_simp
  moreover have "3 * card (p_rules example_plan) + 4 \<le> length (filter is_Step (disk_steps example_steps))"
    by (simp add: example_plan_def example_steps_def)
  moreover have "clean_build 4 example_cmd dirty_chain (content old_world) 3 = Some ''x12''" by code_simp
  moreover have "case ?run of Inl _ \<Rightarrow> False | Inr b \<Rightarrow> b_result b = SUCCEEDED \<and> \<not> b_interrupted b" by code_simp
  moreover have "Suc (length (g_nodes dirty_chain)) = 4" "path dirty_chain 3 = ''c''" "{3} \<subseteq> live dirty_chain" "length (g_rules dirty_chain) < 3"
    using dirty_chain_ok by (auto simp: dirty_chain_def mark_def chain_defs)
  moreover note check_sched [OF example_check]
  ultimately show ?thesis
    using incremental_build_correct [OF dirty_chain_inv _ example_plan_ok, of example_params "disk_steps example_steps" old_world example_cmd]
    by (auto simp: example_params_def)
qed

end
