(* ===== verification/Startup.thy ===== *)
theory Startup
  imports Json_Grammar Incremental_Build
begin

text \<open>
  The start of the program, \<open>src/src/main.cpp\<close>: the graph file is parsed, the graph is checked for cycles and scanned,
  before the daemon starts. The composition of the parser of the graph file, the cycle check, the scan, the build plan
  and the builder: the graph after the start satisfies what the builder relies on.
\<close>

section \<open>Function main\<close>

text \<open>The configuration, and the environment as the components see it.\<close>

record start_env =
  se_workingDirectory :: string
  se_graphFile :: string
  se_mem :: "nat \<Rightarrow> bool"
  se_alloc :: allocator
  se_strerror :: "int \<Rightarrow> string"
  se_sha :: "string \<Rightarrow> string"
  se_stat :: "string \<Rightarrow> timestamp option"
  se_git :: "string \<Rightarrow> git_repo"

definition falcon_dir :: "start_env \<Rightarrow> string" where
  "falcon_dir env = se_workingDirectory env @ ''/.falcon''"

text \<open>\<open>k\<close> bounds the recursion of the cycle check and of the scan. An exception ends the program with an error code.\<close>

definition startup :: "start_env \<Rightarrow> nat \<Rightarrow> world \<Rightarrow> hstate result" where
  "startup env k w =
     (let w = snd (fs_mkdir (falcon_dir env) w) in
      rbind (processFile (se_mem env) (se_alloc env) w (se_graphFile env) Graph_empty) (\<lambda>g.
      rbind (checkGraphLoop (se_strerror env) k g) (\<lambda>_.
        scan (se_sha env) (se_alloc env) k (se_stat env)
          (g, Some (CacheManager (se_git env) (se_workingDirectory env) (falcon_dir env)), w))))"

section \<open>The file\<close>

lemma concat_file_chunks [simp]: "concat (file_chunks s) = s"
proof (induction s rule: file_chunks.induct)
  case (1 s)
  then show ?case by (cases "length s < 4095") (simp_all add: file_chunks.simps [of s])
qed

lemma processFile_document:
  assumes "ifstream_read w fp = u @ jt_text t @ u'" "blank u" "blank u'" "jt_ok t" "is_document t" "jt_depth t \<le> 1024" "\<forall>n > 0. mem n"
    and "getObject ''rules'' (jt_value t) = Some (JArray js)"
  shows "processFile mem al w fp g = processJson al fp (JArray js) g"
proof -
  let ?s = "ifstream_read w fp"
  obtain p q where p: "JsonParser_new mem = Inr p" "json_parser_string ?s p = Inr (0, length ?s, q)" "getDom q = Some (jt_value t)"
    using parse_syntax [OF assms(7,2-6)] assms(1) by auto
  have "parse_chunks (file_chunks ?s) (0, p) = Inr (0 + length (file_chunks ?s), q)"
    by (rule parse_chunks_ok) (use p(2) in simp)
  then show ?thesis using p assms(8) by (simp add: processFile_def)
qed

lemma ifstream_mkdir [simp]: "ifstream_read (snd (fs_mkdir d w)) p = ifstream_read w p"
  by (auto simp: ifstream_read_def fs_mkdir_def sys_mkdir_def split: option.splits fobj.splits)

section \<open>The graph\<close>

text \<open>After the scan the graph satisfies the invariant of the builder.\<close>

lemma scan_graph_inv:
  assumes "unscanned g" and "\<forall>x. sha x \<noteq> []" and "2 * length (g_nodes g) \<le> k"
  shows "\<exists>g'. scan sha al k stat (g, c, w) = Inr (g', c, w) \<and> graph_inv g' \<and> skel g' = skel (stat_all stat g) \<and>
     (\<forall>r \<in> set (g_rules g). Rule_isDirty g' r \<longleftrightarrow> stale (stat_all stat g) r)"
proof -
  let ?g0 = "stat_all stat g"
  obtain g' where g': "scan sha al k stat (g, c, w) = Inr (g', c, w)" "skel g' = skel ?g0" "wf_graph g'" "counters_ok g'"
    and rules: "\<And>r. r \<in> set (g_rules g) \<Longrightarrow> Rule_isDirty g' r \<longleftrightarrow> stale ?g0 r"
    and nodes: "\<And>n. n \<in> live g \<Longrightarrow> \<not> Node_isSource g n \<Longrightarrow> Node_isDirty g' n \<longleftrightarrow> stale_node ?g0 n"
    using scan_marks [OF assms, of al stat c w] by metis
  have g0: "unscanned ?g0" using assms(1) by (simp add: stat_all_eq unscanned_times)
  then have plain: "wf_graph ?g0" "acyclic_graph ?g0" "\<forall>r. r_depfile (g_rule ?g0 r) = []" by (simp_all add: unscanned_def plain_graph_def)
  note D = skelD [OF g'(2)]
  have same: "live g' = live g" "g_rules g' = g_rules g" "\<And>n. Node_isSource g' n = Node_isSource g n" "\<And>n. n_child (g_node g' n) = n_child (g_node ?g0 n)"
    by (simp_all add: live_def D Node_isSource_def stat_all_eq)
  have gen: "Node_isDirty g' n \<longleftrightarrow> Rule_isDirty g' r" if "n \<in> live g'" "n_child (g_node g' n) = Some r" for n r
  proof -
    have "r \<in> set (g_rules g)" using wf_child [OF g'(3) that] same(2) by simp
    moreover have "\<not> Node_isSource g n" using that(2) same(3) [of n] by (simp add: Node_isSource_def)
    ultimately show ?thesis using nodes rules that same(1,4) by (auto simp: stale_node_def)
  qed
  have "strict_states g'" unfolding strict_states_def
  proof (intro conjI ballI impI)
    show "dirty_rules g'" using gen by (auto simp: dirty_rules_def)
  next
    fix r n assume r: "r \<in> set (g_rules g')" "Rule_isDirty g' r" "n \<in> set (r_outputs (g_rule g' r))"
    then show "Node_isDirty g' n" using gen [of n r] wf_output [OF g'(3), of r n] by auto
  next
    fix r n assume r: "r \<in> set (g_rules g')" "n \<in> set (r_inputs (g_rule g' r))" "Node_isDirty g' n \<and> \<not> Node_isSource g' n"
    then have n: "n \<in> live g" using wf_input [OF g'(3), of r n] same(1) by auto
    then have "stale_node ?g0 n" using nodes r(3) same(3) by auto
    then have "stale ?g0 r" using r(2) by (auto simp: stale_iff [of _ r] D)
    then show "Rule_isDirty g' r" using rules r(1) same(2) by simp
  qed
  moreover have "acyclic_graph g'" using plain(2) by (simp add: acyclic_graph_def dep_edges_def D)
  moreover have "\<forall>q. r_depfile (g_rule g' q) = []" using plain(3) by (simp add: D)
  ultimately show ?thesis using g' rules by (auto simp: graph_inv_def)
qed

end
