(* ===== verification/Cached_Build.thy ===== *)
theory Cached_Build
  imports Incremental_Build
begin

text \<open>
  A build with a cache, which is how the daemon runs it. To what \<open>Incremental_Build\<close> says of the commands this theory adds
  the cache directory: it may hold, for the hash of an output, the content that a build from scratch computes. Then a
  rule that is restored is built, a rule that is saved keeps the cache right, and a build with the cache ends and gives
  the files of a build from scratch.

  The contents are those of the files outside of the cache, \<open>free_content\<close>.
\<close>

section \<open>What the cache relies on\<close>

text \<open>The hashes can be used as file names, and no file of the graph lies in the cache directory.\<close>

definition fits :: "string \<Rightarrow> graph \<Rightarrow> bool" where
  "fits dir g \<longleftrightarrow>
     (\<forall>r \<in> set (g_rules g). \<not> Rule_isPhony g r \<longrightarrow> valid_hash (r_hashDepfile (g_rule g r)) \<and>
        (\<forall>n \<in> set (r_outputs (g_rule g r)). valid_hash (n_hash (g_node g n)))) \<and>
     (\<forall>n \<in> live g. free_path dir (path g n) \<and> (\<forall>h. valid_hash h \<longrightarrow> entry_path dir h \<notin> ancestors (path g n)))"

definition generated :: "graph \<Rightarrow> nid set" where
  "generated g = {n. \<exists>r \<in> set (g_rules g). \<not> Rule_isPhony g r \<and> n \<in> set (r_outputs (g_rule g r))}"

abbreviation clean :: "commands \<Rightarrow> graph \<Rightarrow> contents \<Rightarrow> nid \<Rightarrow> string option" where
  "clean cmd g src \<equiv> clean_build (Suc (length (g_nodes g))) cmd g src"

text \<open>A hash means a content: \<open>M h\<close> is the content of a file with the hash \<open>h\<close> after a build from scratch. The cache is right
  if it is a part of \<open>M\<close>. As the meaning of a hash is the same for all builds, so is the cache right for all of them.\<close>

definition hash_meaning :: "(string \<rightharpoonup> string) \<Rightarrow> commands \<Rightarrow> graph \<Rightarrow> contents \<Rightarrow> bool" where
  "hash_meaning M cmd g src \<longleftrightarrow> (\<forall>n \<in> generated g. M (n_hash (g_node g n)) = clean cmd g src n)"

text \<open>What the system promises at a step of a build with a cache: the outputs of a rule that may be started can be written,
  the commands keep the cache directory usable, and a command that succeeds creates its outputs.\<close>

definition cache_event_ok :: "os_event \<Rightarrow> builder \<Rightarrow> bool" where
  "cache_event_ok e b \<longleftrightarrow> (case b_cache b of None \<Rightarrow> True | Some cm \<Rightarrow>
     (\<forall>r \<in> p_readyRules (b_plan b). \<forall>n \<in> set (r_outputs (g_rule (b_graph b) r)).
        file_writable (createDirectories (b_graph b) r (b_world b)) (path (b_graph b) n)) \<and>
     store_ok (cm_cacheFs cm) (e_disk e (b_world b)) \<and>
     (\<forall>res m. waitForNext (e_polls e) (e_status e) (b_manager b) = Inr (res, m) \<and> br_status res = EXIT_SUCCEEDED \<longrightarrow>
        (\<forall>n \<in> set (r_outputs (g_rule (b_graph b) (br_rule res))). content (e_disk e (b_world b)) (path (b_graph b) n) \<noteq> None)))"

fun cached_sched_ok :: "build_params \<Rightarrow> commands \<Rightarrow> sched list \<Rightarrow> builder \<Rightarrow> bool" where
  "cached_sched_ok P cmd [] b \<longleftrightarrow> True"
| "cached_sched_ok P cmd (s # ss) b \<longleftrightarrow>
     (case s of Step e \<Rightarrow> event_ok e b \<and> disk_ok cmd e b \<and> cache_event_ok e b | Interrupt \<Rightarrow> True) \<and>
     (case sched_step P s b of Inl _ \<Rightarrow> True | Inr b' \<Rightarrow> cached_sched_ok P cmd ss b')"

section \<open>The graph with its hashes\<close>

definition hash_shape :: "graph \<Rightarrow> _" where
  "hash_shape g = (build_shape g, \<lambda>n. n_hash (g_node g n), \<lambda>r. r_hashDepfile (g_rule g r))"

lemma hash_shapeD:
  assumes "hash_shape g' = hash_shape g"
  shows "build_shape g' = build_shape g" "n_hash (g_node g' n) = n_hash (g_node g n)"
    "r_hashDepfile (g_rule g' r) = r_hashDepfile (g_rule g r)"
  using assms by (simp_all add: hash_shape_def fun_eq_iff)

lemma hash_shape_finished [simp]: "hash_shape (finished r g) = hash_shape g"
  by (simp add: hash_shape_def) (simp add: finished_def lift_def fun_eq_iff)

lemma hash_shape_timestamp [simp]: "hash_shape (Rule_setTimestamp r t g) = hash_shape g"
  by (simp add: hash_shape_def) (auto simp: Rule_setTimestamp_def upd_rule_def fun_eq_iff)

lemma build_shape_dep: "build_shape g' = build_shape g \<Longrightarrow> dep_edges g' = dep_edges g"
  using build_shapeD [of g' g] by (simp add: dep_edges_def)

lemma fits_cong: "hash_shape g' = hash_shape g \<Longrightarrow> fits dir g' = fits dir g"
  using hash_shapeD [of g' g] build_shapeD [of g' g] by (simp add: fits_def)

section \<open>Clean contents\<close>

text \<open>A graph during a build, with the contents of its files: \<open>g\<close> is the graph and \<open>src\<close> the contents at the start.\<close>

definition consistent :: "commands \<Rightarrow> graph \<Rightarrow> contents \<Rightarrow> graph \<Rightarrow> contents \<Rightarrow> bool" where
  "consistent cmd g src g' c \<longleftrightarrow> graph_inv g' \<and> hash_shape g' = hash_shape g \<and> settled cmd g' c \<and>
     (\<forall>p. p \<notin> writes g {r \<in> set (g_rules g). \<not> Rule_isPhony g r} \<longrightarrow> c p = src p)"

lemma consistentD:
  assumes "consistent cmd g src g' c"
  shows "graph_inv g'" "build_shape g' = build_shape g" "settled cmd g' c"
    "\<And>p. p \<notin> writes g {r \<in> set (g_rules g). \<not> Rule_isPhony g r} \<Longrightarrow> c p = src p" "hash_shape g' = hash_shape g"
  using assms by (simp_all add: consistent_def hash_shapeD(1) [of g' g])

lemma ready_content:
  assumes "consistent cmd g src g' c" "n \<in> live g" "input_ready g' n" "depth g n < k"
  shows "c (path g n) = clean_build k cmd g src n"
proof -
  note c = consistentD [OF assms(1)]
  note eq = build_shapeD [OF c(2)] shape_cong(3) [OF c(2)]
  have "c (path g' n) = clean_build k cmd g' src n"
    by (rule ready_clean [OF c(1,3)]) (use assms(2-4) c(4) in \<open>simp_all add: eq depth_def build_shape_dep [OF c(2)]\<close>)
  then show ?thesis by (simp add: eq shape_clean [OF c(2)])
qed

lemma depth_bound:
  assumes "wf_graph g"
  shows "depth g n \<le> length (g_nodes g)"
proof -
  have "depth g n \<le> card (live g)" unfolding depth_def by (rule card_mono [OF _ depth_live [OF assms]]) simp
  then show ?thesis using card_live_le [of g] by simp
qed

text \<open>A rule whose inputs are ready is built if and only if its outputs are those of a build from scratch.\<close>

lemma built_clean:
  assumes c: "consistent cmd g src g' c" and r: "r \<in> set (g_rules g)" "\<not> Rule_isPhony g r"
    and ready: "\<forall>i \<in> set (r_inputs (g_rule g r)). input_ready g' i"
    and same: "\<And>i. i \<in> set (r_inputs (g_rule g r)) \<Longrightarrow> c' (path g i) = c (path g i)"
  shows "built cmd g c' r \<longleftrightarrow> (\<forall>n \<in> set (r_outputs (g_rule g r)). c' (path g n) = clean cmd g src n)"
proof -
  note g' = consistentD(1,2) [OF c]
  note eq = build_shapeD [OF g'(2)]
  have wf': "wf_graph g'" "acyclic_graph g'" using g'(1) by (simp_all add: graph_inv_def)
  have "clean cmd g src n = cmd (r_command (g_rule g r)) (reads g c' r) (path g n)" if n: "n \<in> set (r_outputs (g_rule g r))" for n
  proof -
    have "n_child (g_node g n) = Some r" using wf_output [OF wf'(1), of r n] r n by (simp add: eq)
    moreover have "reads g c' r = (\<lambda>p. Option.bind (find (\<lambda>i. path g i = p) (r_inputs (g_rule g r))) (clean_build (length (g_nodes g)) cmd g src))"
    proof (rule reads_found)
      fix i assume i: "i \<in> set (r_inputs (g_rule g r))"
      have "(i, n) \<in> dep_edges g'" using i n r by (auto simp: dep_edges_def eq)
      then have "depth g i < depth g n" using depth_less [OF wf'] by (simp add: depth_def build_shape_dep [OF g'(2)])
      moreover have "depth g n \<le> length (g_nodes g)" using depth_bound [OF wf'(1), of n] by (simp add: depth_def build_shape_dep [OF g'(2)] eq)
      moreover have "i \<in> live g" using wf_input [OF wf'(1), of r i] r i by (simp add: eq)
      ultimately show "c' (path g i) = clean_build (length (g_nodes g)) cmd g src i"
        using ready_content [OF c _ ready [rule_format, OF i], of "length (g_nodes g)"] same [OF i] by simp
    qed
    ultimately show ?thesis using r(2) by simp
  qed
  then show ?thesis by (simp add: built_def)
qed

section \<open>The disk\<close>

text \<open>New directories that are not entries of the cache leave it as it is.\<close>

lemma only_dirs_store:
  assumes "only_dirs A w w'" "store_ok dir w" "\<And>h. valid_hash h \<Longrightarrow> entry_path dir h \<notin> A"
  shows "store_ok dir w'" "content w' = content w"
proof -
  have same: "w_files w' q = w_files w q \<or> q \<in> A \<and> w_files w q = None \<and> isDir w' q" for q using assms(1) by (simp add: only_dirs_def)
  have entry: "w_files w' (entry_path dir h) = w_files w (entry_path dir h)" if "valid_hash h" for h using same assms(3) [OF that] by blast
  have dirs: "isDir w q \<Longrightarrow> isDir w' q" for q using only_dirs_isDir [OF assms(1)] .
  have "isDir w' dir \<or> w_files w' dir = None \<and> creatable w' dir"
  proof (cases "isDir w' dir")
    case False
    then have "w_files w dir = None" "creatable w dir" "w_files w' dir = w_files w dir" using assms(2) dirs same by (auto simp: store_ok_def)
    then show ?thesis using dirs assms(1) by (auto simp: creatable_def only_dirs_def)
  qed simp
  moreover have "\<not> isDir w' dir \<Longrightarrow> \<not> isDir w dir" using dirs by blast
  ultimately show "store_ok dir w'"
    using assms(1,2) entry unfolding store_ok_def only_dirs_def isDir_def by metis
  have "content w' q = content w q" for q
    using same [of q] by (auto simp: content_def isDir_def)
  then show "content w' = content w" by blast
qed

lemma createDirectories_dirs:
  assumes "\<not> Rule_hasDepfile g r"
  shows "only_dirs (\<Union>n \<in> set (r_outputs (g_rule g r)). ancestors (path g n)) w (createDirectories g r w)"
proof -
  have "only_dirs (\<Union>n \<in> set ns. ancestors (path g n)) w (fold (\<lambda>n w. snd (createPath (path g n) w)) ns w)" for ns
  proof (induction ns arbitrary: w)
    case (Cons n ns)
    obtain b w1 where w1: "createPath (path g n) w = (b, w1)" by fastforce
    have "only_dirs (ancestors (path g n)) w w1" using createPath_spec [OF w1] by blast
    from only_dirs_trans [OF this Cons [of w1]] show ?case using w1 by simp
  qed simp
  then show ?thesis using assms by (simp add: createDirectories_def Let_def)
qed

lemma free_path_content: "fits dir g \<Longrightarrow> n \<in> live g \<Longrightarrow> content w (path g n) = free_content dir w (path g n)"
  by (simp add: fits_def free_content_def)

lemma built_free:
  assumes "wf_graph g" "fits dir g" "r \<in> set (g_rules g)"
  shows "built cmd g (content w) r \<longleftrightarrow> built cmd g (free_content dir w) r"
proof -
  have "reads g (content w) r = reads g (free_content dir w) r"
    by (rule reads_cong) (use free_path_content [OF assms(2)] wf_input [OF assms(1,3)] in blast)
  moreover have "content w (path g n) = free_content dir w (path g n)" if "n \<in> set (r_outputs (g_rule g r))" for n
    using free_path_content [OF assms(2)] wf_output [OF assms(1,3) that] by blast
  ultimately show ?thesis by (simp add: built_def)
qed

lemma store_frame:
  assumes "store_ok dir w" "\<And>h. valid_hash h \<Longrightarrow> content w' (entry_path dir h) = content w (entry_path dir h)"
  shows "store_entry dir w' = store_entry dir w"
  using assms(2) by (auto simp: store_entry_def)

lemma stores_meaning:
  assumes "store_entry dir w \<subseteq>\<^sub>m M" "hash_meaning M cmd g src" "stores g dir w ns w'" "set ns \<subseteq> generated g"
    and "\<And>n c. n \<in> set ns \<Longrightarrow> free_content dir w (path g n) = Some c \<Longrightarrow> clean cmd g src n = Some c"
  shows "store_entry dir w' \<subseteq>\<^sub>m M"
  unfolding map_le_def
proof (intro ballI)
  fix h assume "h \<in> dom (store_entry dir w')"
  then obtain c where c: "store_entry dir w' h = Some c" by blast
  from assms(3) c consider "store_entry dir w h = Some c"
    | n where "n \<in> set ns" "h = n_hash (g_node g n)" "free_content dir w (path g n) = Some c"
    unfolding stores_def by blast
  then show "store_entry dir w' h = M h"
  proof cases
    case 1
    then show ?thesis using assms(1) c unfolding map_le_def by (metis domI)
  next
    case 2
    then have "n \<in> generated g" "clean cmd g src n = Some c" using assms(4,5) by blast+
    then show ?thesis using assms(2) c 2(2) unfolding hash_meaning_def by metis
  qed
qed

section \<open>The invariant\<close>

definition cached_inv :: "(string \<rightharpoonup> string) \<Rightarrow> string \<Rightarrow> commands \<Rightarrow> graph \<Rightarrow> contents \<Rightarrow> builder \<Rightarrow> bool" where
  "cached_inv M dir cmd g src b \<longleftrightarrow>
     (\<exists>cm. b_cache b = Some cm \<and> cm_cacheFs cm = dir \<and> cm_inv (cm, b_world b) \<and> cm_usable cm) \<and>
     consistent cmd g src (b_graph b) (free_content dir (b_world b)) \<and> (\<forall>r \<in> running b. \<not> Rule_isPhony g r) \<and>
     store_entry dir (b_world b) \<subseteq>\<^sub>m M"

lemma cached_cong:
  "b_cache b' = b_cache b \<Longrightarrow> b_graph b' = b_graph b \<Longrightarrow> b_world b' = b_world b \<Longrightarrow> b_manager b' = b_manager b \<Longrightarrow>
   cached_inv M dir cmd g src b' = cached_inv M dir cmd g src b"
  by (simp add: cached_inv_def)

lemma cached_invD:
  assumes "cached_inv M dir cmd g src b"
  obtains cm where "b_cache b = Some cm" "cm_cacheFs cm = dir" "cm_inv (cm, b_world b)" "cm_usable cm" "store_ok dir (b_world b)"
    "consistent cmd g src (b_graph b) (free_content dir (b_world b))" "\<forall>r \<in> running b. \<not> Rule_isPhony g r" "store_entry dir (b_world b) \<subseteq>\<^sub>m M"
  using assms by (auto simp: cached_inv_def cm_inv_def)

lemma consistent_frame:
  assumes c: "consistent cmd g src g' c" and R: "\<forall>r \<in> R. r \<in> set (g_rules g') \<and> Rule_isDirty g' r \<and> \<not> Rule_isPhony g r"
    and same: "\<And>p. p \<notin> writes g R \<Longrightarrow> c' p = c p"
  shows "consistent cmd g src g' c'"
proof -
  note d = consistentD [OF c]
  have "settled cmd g' c'"
    by (rule settled_frame [OF d(1) _ _ d(3), of R]) (use R same in \<open>auto simp: shape_cong(3) [OF d(2)]\<close>)
  moreover have "writes g R \<subseteq> writes g {r \<in> set (g_rules g). \<not> Rule_isPhony g r}"
    using R build_shapeD(2) [OF d(2)] by (auto simp: writes_def)
  then have "c' p = src p" if "p \<notin> writes g {r \<in> set (g_rules g). \<not> Rule_isPhony g r}" for p
    using same [of p] d(4) [OF that] that by (metis subsetD)
  ultimately show ?thesis using d(1,5) by (simp add: consistent_def)
qed

lemma consistent_states:
  assumes "consistent cmd g src g' c" "hash_shape g'' = hash_shape g'" "graph_inv g''" "settled cmd g'' c"
  shows "consistent cmd g src g'' c"
  using assms by (simp add: consistent_def)

lemma core_rule:
  assumes "builder_core T (insert r F) b"
  shows "r \<in> set (g_rules (b_graph b))" "Rule_isDirty (b_graph b) r" "\<forall>i \<in> set (r_inputs (g_rule (b_graph b) r)). input_ready (b_graph b) i"
    "graph_inv (b_graph b)"
proof -
  have p: "plan_inv (b_graph b) (b_plan b) (running b \<union> insert r F)" and g: "graph_inv (b_graph b)" using assms by (simp_all add: builder_core_def)
  then show "r \<in> set (g_rules (b_graph b))" "Rule_isDirty (b_graph b) r" "graph_inv (b_graph b)" by (auto simp: plan_inv_def)
  moreover have "Rule_ready (b_graph b) r" using p by (auto simp: plan_inv_def)
  ultimately show "\<forall>i \<in> set (r_inputs (g_rule (b_graph b) r)). input_ready (b_graph b) i"
    using ready_input [of "b_graph b" r] g by (auto simp: graph_inv_def)
qed

section \<open>The operations of the builder\<close>

lemma cached_phony:
  assumes core: "builder_core T (insert r F) b" "r \<notin> F" and inv: "cached_inv M dir cmd g src b"
    and ok: "Rule_isPhony g r \<or> built cmd g (free_content dir (b_world b)) r"
  shows "\<exists>b'. onRuleFinished r b = Inr b' \<and> cached_inv M dir cmd g src b'"
proof -
  from inv obtain cm where i: "b_cache b = Some cm" "cm_cacheFs cm = dir" "cm_inv (cm, b_world b)" "cm_usable cm" "store_ok dir (b_world b)"
    "consistent cmd g src (b_graph b) (free_content dir (b_world b))" "\<forall>r \<in> running b. \<not> Rule_isPhony g r" "store_entry dir (b_world b) \<subseteq>\<^sub>m M"
    by (rule cached_invD)
  obtain b' where b': "onRuleFinished r b = Inr b'" "builder_core T F b'" "b_cache b' = b_cache b"
    using core_onRuleFinished [OF core] by blast
  have eff: "b_graph b' = finished r (b_graph b)" "b_world b' = b_world b" "b_manager b' = b_manager b" using finish_effect [OF core(1) b'(1)] by auto
  note d = consistentD [OF i(6)]
  have "settled cmd (finished r (b_graph b)) (free_content dir (b_world b))"
    by (rule settled_finished [OF d(3)]) (use ok in \<open>simp add: shape_cong(2) [OF d(2)] build_shapeD(8) [OF d(2)]\<close>)
  moreover have "graph_inv (finished r (b_graph b))" using b'(2) eff(1) by (simp add: builder_core_def)
  ultimately have "consistent cmd g src (finished r (b_graph b)) (free_content dir (b_world b))"
    by (intro consistent_states [OF i(6)]) simp_all
  then show ?thesis using b'(1,3) i eff by (auto simp: cached_inv_def)
qed

text \<open>Starting a rule: it is phony, or restored from the cache, or its command is started.\<close>

lemma cached_buildRule:
  assumes core: "builder_core T (insert r F) b" "r \<notin> F" and os: "fresh_pipes (e_pipes e) (b_manager b)"
    and inv: "cached_inv M dir cmd g src b" and fit: "fits dir g" and hash: "hash_meaning M cmd g src"
    and wr: "\<forall>n \<in> set (r_outputs (g_rule (b_graph b) r)). file_writable (createDirectories (b_graph b) r (b_world b)) (path (b_graph b) n)"
  shows "\<exists>b'. buildRule P e r b = Inr b' \<and> cached_inv M dir cmd g src b'"
proof -
  let ?g = "b_graph b"
  from inv obtain cm where i: "b_cache b = Some cm" "cm_cacheFs cm = dir" "cm_inv (cm, b_world b)" "cm_usable cm" "store_ok dir (b_world b)"
    "consistent cmd g src ?g (free_content dir (b_world b))" "\<forall>r \<in> running b. \<not> Rule_isPhony g r" "store_entry dir (b_world b) \<subseteq>\<^sub>m M"
    by (rule cached_invD)
  note d = consistentD [OF i(6)] and r = core_rule [OF core(1)]
  note eq = build_shapeD [OF d(2)] hash_shapeD [OF d(5)]
  show ?thesis
  proof (cases "Rule_isPhony g r")
    case True
    then show ?thesis using cached_phony [OF core inv] by (simp add: buildRule_def eq)
  next
    case False
    have wf: "wf_graph ?g" and nodep: "\<not> Rule_hasDepfile ?g r" using r(4) by (auto simp: graph_inv_def Rule_hasDepfile_def)
    have r': "r \<in> set (g_rules g)" and out: "\<And>n. n \<in> set (r_outputs (g_rule g r)) \<Longrightarrow> n \<in> live g \<and> n_child (g_node g n) = Some r"
      using r(1) wf_output [OF wf r(1)] by (auto simp: eq)
    let ?w = "createDirectories ?g r (b_world b)"
    have w: "store_ok dir ?w" "content ?w = content (b_world b)"
      using only_dirs_store [OF createDirectories_dirs [OF nodep] i(5)] fit out by (auto simp: fits_def eq)
    have same: "free_content dir ?w = free_content dir (b_world b)" "store_entry dir ?w = store_entry dir (b_world b)"
      using w(2) by (auto simp: free_content_def store_entry_def)
    have "outputs_ok ?g r dir ?w"
      unfolding outputs_ok_def distinct_map using wr fit out r' False wf_distinct(3) [OF wf r(1)] node_path_inj [OF wf]
      by (auto simp: eq fits_def inj_on_def)
    moreover have "cm_inv (cm, ?w)" using i(2,3) w(1) by (simp add: cm_inv_def)
    ultimately obtain bb cm' w' where res: "restoreRule ?g r (cm, ?w) = Inr (bb, cm', w')" "cm_step (cm, ?w) (cm', w')"
      "store_entry dir w' \<subseteq>\<^sub>m store_entry dir (b_world b)"
      "bb \<longrightarrow> (\<forall>n \<in> set (r_outputs (g_rule g r)). store_entry dir (b_world b) (n_hash (g_node g n)) \<noteq> None \<and>
          free_content dir w' (path g n) = store_entry dir (b_world b) (n_hash (g_node g n)))"
      "\<forall>p. \<not> bb \<or> p \<notin> path g ` set (r_outputs (g_rule g r)) \<longrightarrow> free_content dir w' p = free_content dir (b_world b) p"
      using restoreRule_correct [of cm ?w ?g r] i(2,4) False by (simp add: eq same) metis
    have cm': "cm_cacheFs cm' = dir" "cm_inv (cm', w')" "cm_usable cm'"
      using res(2) i(2,4) cm_step_usable [OF res(2)] by (auto simp: cm_step_def)
    have right: "store_entry dir w' \<subseteq>\<^sub>m M" by (rule map_le_trans [OF res(3) i(8)])
    show ?thesis
    proof (cases bb)
      case nb: False
      then have c': "free_content dir w' = free_content dir (b_world b)" using res(5) by (simp add: fun_eq_iff)
      have cmd: "r_command (g_rule ?g r) \<noteq> []" using False by (simp add: Rule_isPhony_def eq)
      have "manager_inv (b_manager b)" using core(1) by (simp add: builder_core_def)
      then obtain m where m: "addProcess (e_pipes e) r (r_command (g_rule ?g r)) (bp_workingDirectory P) (b_manager b) = Inr (m_id (b_manager b), m)"
        "active m = insert (m_id (b_manager b), r) (active (b_manager b))"
        using addProcess_correct [OF _ os cmd, of r "bp_workingDirectory P"] by blast
      then show ?thesis using res(1) nb False i(1,6,7) cm' c' right
        by (auto simp: buildRule_def tryBuildRuleFromCache_def eq Let_def cached_inv_def)
    next
      case bb: True
      have frame: "free_content dir w' p = free_content dir (b_world b) p" if "p \<notin> writes g {r}" for p
        using res(5) that by (auto simp: writes_def)
      have cons: "consistent cmd g src ?g (free_content dir w')"
        by (rule consistent_frame [OF i(6) _ frame, of "{r}"]) (use r(1,2) False in auto)
      have "free_content dir w' (path g n) = clean cmd g src n" if n: "n \<in> set (r_outputs (g_rule g r))" for n
      proof -
        have "n \<in> generated g" using n r' False by (auto simp: generated_def)
        then have "M (n_hash (g_node g n)) = clean cmd g src n" using hash by (simp only: hash_meaning_def)
        then show ?thesis using res(4) bb n i(8) unfolding map_le_def by (metis domIff)
      qed
      then have built: "built cmd g (free_content dir w') r"
        using built_clean [OF cons r' False] r(3) by (simp add: eq)
      define b1 where "b1 = b\<lparr>b_cache := Some cm', b_world := w', b_events := b_events b @ map (\<lambda>n. CacheRetrieveAction (path ?g n)) (r_outputs (g_rule ?g r)),
        b_graph := Rule_setTimestamp r (w_time w') ?g\<rparr>"
      have tried: "tryBuildRuleFromCache r (b\<lparr>b_world := ?w\<rparr>) = Inr (True, b1)"
        using res(1) bb i(1) by (simp add: tryBuildRuleFromCache_def b1_def Let_def)
      have "builder_core T (insert r F) (b\<lparr>b_world := ?w\<rparr>)" using core(1) by (simp add: builder_core_def)
      from core_tryCache [OF this tried] have core1: "builder_core T (insert r F) b1" by simp
      have "consistent cmd g src (b_graph b1) (free_content dir w')"
        by (rule consistent_states [OF cons]) (use core_rule(4) [OF core1] consistentD(3) [OF cons] in \<open>simp_all add: b1_def\<close>)
      then have "cached_inv M dir cmd g src b1" using cm' right i(7) by (simp add: cached_inv_def b1_def)
      from cached_phony [OF core1 core(2) this] built show ?thesis
        using tried False by (auto simp: buildRule_def eq b1_def)
    qed
  qed
qed

text \<open>What the commands do to the disk while the builder waits.\<close>

lemma disk_frame:
  assumes core: "builder_core T F b" and disk: "disk_ok cmd e b" and c: "consistent cmd g src (b_graph b) (free_content dir (b_world b))"
    and run: "\<forall>r \<in> running b. \<not> Rule_isPhony g r" and fit: "fits dir g" and st: "store_ok dir (b_world b)"
  shows "consistent cmd g src (b_graph b) (free_content dir (e_disk e (b_world b)))"
    and "store_entry dir (e_disk e (b_world b)) = store_entry dir (b_world b)"
proof -
  let ?w = "e_disk e (b_world b)"
  note d = consistentD [OF c]
  have kept: "content ?w p = content (b_world b) p" if "p \<notin> writes g (running b)" for p
    using disk that by (simp add: disk_ok_def shape_cong(3) [OF d(2)])
  show "consistent cmd g src (b_graph b) (free_content dir ?w)"
    by (rule consistent_frame [OF c, of "running b"]) (use core_running [OF core] run kept in \<open>auto simp: free_content_def\<close>)
  have wf: "wf_graph (b_graph b)" using d(1) by (simp add: graph_inv_def)
  have "entry_path dir h \<notin> writes g (running b)" if h: "valid_hash h" for h
  proof
    assume "entry_path dir h \<in> writes g (running b)"
    then obtain r n where n: "r \<in> running b" "n \<in> set (r_outputs (g_rule g r))" "entry_path dir h = path g n" by (auto simp: writes_def)
    have "n \<in> live g" using wf_output [OF wf, of r n] core_running [OF core] n(1,2) by (auto simp: build_shapeD [OF d(2)])
    then show False using fit n(3) entry_not_free [OF st h] by (simp add: fits_def)
  qed
  then show "store_entry dir ?w = store_entry dir (b_world b)" using kept by (intro store_frame [OF st]) blast
qed

lemma cached_save:
  assumes core: "builder_core T (insert r F) b" "r \<notin> F" and inv: "cached_inv M dir cmd g src b" and fit: "fits dir g" and hash: "hash_meaning M cmd g src"
    and r: "\<not> Rule_isPhony g r" and built: "built cmd g (free_content dir (b_world b)) r"
    and made: "\<forall>n \<in> set (r_outputs (g_rule g r)). content (b_world b) (path g n) \<noteq> None"
  shows "\<exists>b' b''. saveInCache r b = Inr b' \<and> onRuleFinished r b' = Inr b'' \<and> cached_inv M dir cmd g src b''"
proof -
  let ?g = "b_graph b"
  from inv obtain cm where i: "b_cache b = Some cm" "cm_cacheFs cm = dir" "cm_inv (cm, b_world b)" "cm_usable cm" "store_ok dir (b_world b)"
    "consistent cmd g src ?g (free_content dir (b_world b))" "\<forall>r \<in> running b. \<not> Rule_isPhony g r" "store_entry dir (b_world b) \<subseteq>\<^sub>m M"
    by (rule cached_invD)
  note d = consistentD [OF i(6)] and cr = core_rule [OF core(1)]
  note eq = build_shapeD [OF d(2)] hash_shapeD [OF d(5)]
  have wf: "wf_graph ?g" and nodep: "\<not> Rule_hasDepfile ?g r" using cr(4) by (auto simp: graph_inv_def Rule_hasDepfile_def)
  have r': "r \<in> set (g_rules g)" and out: "\<And>n. n \<in> set (r_outputs (g_rule g r)) \<Longrightarrow> n \<in> live g"
    using cr(1) wf_output [OF wf cr(1)] by (auto simp: eq)
  have "rule_savable ?g r dir (b_world b)"
    using fit r r' out made nodep by (auto simp: rule_savable_def savable_def fits_def free_content_def eq)
  then obtain cm' w' where save: "saveRule ?g r (cm, b_world b) = Inr (cm', w')" "cm_step (cm, b_world b) (cm', w')"
    "free_content dir w' = free_content dir (b_world b)" "stores ?g dir (b_world b) (r_outputs (g_rule g r)) w'"
    using saveRule_correct [of cm "b_world b" ?g r] i(2,3) r nodep by (auto simp: eq)
  have "stores g dir (b_world b) (r_outputs (g_rule g r)) w'" using save(4) by (simp add: stores_def eq)
  moreover have "set (r_outputs (g_rule g r)) \<subseteq> generated g" using r r' by (auto simp: generated_def)
  moreover have "clean cmd g src n = Some c" if "n \<in> set (r_outputs (g_rule g r))" "free_content dir (b_world b) (path g n) = Some c" for n c
    using built_clean [OF i(6) r' r, of "free_content dir (b_world b)"] cr(3) built that by (simp add: eq del: clean_build.simps)
  ultimately have right: "store_entry dir w' \<subseteq>\<^sub>m M" by (rule stores_meaning [OF i(8) hash])
  define b1 where "b1 = b\<lparr>b_cache := Some cm', b_world := w'\<rparr>"
  have "cached_inv M dir cmd g src b1"
    using save(2,3) i(2,4,6,7) right cm_step_usable [OF save(2)] by (auto simp: cached_inv_def b1_def cm_step_def)
  moreover have "builder_core T (insert r F) b1" using core(1) by (simp add: b1_def builder_core_def)
  moreover have "saveInCache r b = Inr b1" using save(1) i(1) by (simp add: saveInCache_def b1_def)
  ultimately show ?thesis using cached_phony [of T r F b1 M dir cmd g src] core(2) built save(3) by (auto simp: b1_def)
qed

lemma cached_wait:
  assumes core: "builder_core T F b" and e: "event_ok e b" "disk_ok cmd e b" "cache_event_ok e b" and run: "0 < nbRunning (b_manager b)"
    and inv: "cached_inv M dir cmd g src b" and fit: "fits dir g" and hash: "hash_meaning M cmd g src"
  shows "\<exists>res b'. builder_waitForNext P e b = Inr (res, b') \<and> cached_inv M dir cmd g src b'"
proof -
  let ?g = "b_graph b" and ?w = "e_disk e (b_world b)"
  from inv obtain cm where i: "b_cache b = Some cm" "cm_cacheFs cm = dir" "cm_inv (cm, b_world b)" "cm_usable cm" "store_ok dir (b_world b)"
    "consistent cmd g src ?g (free_content dir (b_world b))" "\<forall>r \<in> running b. \<not> Rule_isPhony g r" "store_entry dir (b_world b) \<subseteq>\<^sub>m M"
    by (rule cached_invD)
  note d = consistentD [OF i(6)]
  note eq = build_shapeD [OF d(2)]
  have m: "manager_inv (b_manager b)" using core by (simp add: builder_core_def)
  then have "active (b_manager b) \<noteq> {}" using run manager_inv_card [OF m] by auto
  then obtain br m' where br: "waitForNext (e_polls e) (e_status e) (b_manager b) = Inr (br, m')"
    using waitForNext_total [OF m, of "e_polls e" "e_status e"] e(1) by (auto simp: event_ok_def)
  let ?r = "br_rule br"
  define b1 where "b1 = b\<lparr>b_manager := m', b_world := ?w, b_events := b_events b @ [EndCommand (br_cmdId br) (br_status br)],
      b_graph := Rule_setTimestamp ?r (w_time ?w) ?g\<rparr>"
  have core1: "builder_core T (insert ?r F) b1" "?r \<notin> F" using core_wait [OF core br, of b1] by (simp_all add: b1_def)
  have active: "?r \<in> running b" "running b1 \<subseteq> running b" using posix.wait_law [OF m br] by (force, auto simp: b1_def)
  have r: "\<not> Rule_isPhony g ?r" "?r \<in> set (g_rules g)" using active(1) i(7) core_running [OF core] eq(2) by auto
  note frame = disk_frame [OF core e(2) i(6,7) fit i(5)]
  have "consistent cmd g src (b_graph b1) (free_content dir ?w)"
    by (rule consistent_states [OF frame(1)]) (use core_rule(4) [OF core1(1)] consistentD(3) [OF frame(1)] in \<open>simp_all add: b1_def\<close>)
  moreover have "cm_inv (cm, ?w)" using e(3) i(1,2,3) by (simp add: cache_event_ok_def cm_inv_def)
  moreover have "store_entry dir ?w \<subseteq>\<^sub>m M" using i(8) by (simp add: frame(2))
  moreover have "\<forall>r \<in> running b1. \<not> Rule_isPhony g r" using i(7) active(2) by blast
  ultimately have inv1: "cached_inv M dir cmd g src b1" using i(1,2,4) by (auto simp: cached_inv_def b1_def)
  show ?thesis
  proof (cases "br_status br = EXIT_SUCCEEDED")
    case True
    have wf: "wf_graph ?g" using d(1) by (simp add: graph_inv_def)
    have "built cmd ?g (content ?w) ?r" using e(2) br True by (simp add: disk_ok_def)
    then have "built cmd g (free_content dir ?w) ?r"
      using built_free [OF wf, of dir ?r cmd ?w] fit r(2) by (simp add: fits_cong [OF d(5)] eq shape_cong(2) [OF d(2)])
    moreover have "\<forall>n \<in> set (r_outputs (g_rule g ?r)). content ?w (path g n) \<noteq> None"
      using e(3) br True i(1) by (simp add: cache_event_ok_def eq)
    ultimately obtain b2 b3 where b: "saveInCache ?r b1 = Inr b2" "onRuleFinished ?r b2 = Inr b3" "cached_inv M dir cmd g src b3"
      using cached_save [OF core1 inv1 fit hash r(1)] by (auto simp: b1_def)
    have "\<not> Rule_hasDepfile (b_graph b1) ?r" using core_rule(4) [OF core1(1)] by (simp add: graph_inv_def Rule_hasDepfile_def)
    then have "loadDepfile P ?r b1 = Inr (True, b1)" by (simp add: loadDepfile_def)
    then show ?thesis using br True b by (simp add: builder_waitForNext_def Let_def b1_def)
  next
    case False
    then show ?thesis using br inv1 by (simp add: builder_waitForNext_def Let_def b1_def)
  qed
qed

section \<open>A step of a build\<close>

definition cached_enabled :: "commands \<Rightarrow> sched \<Rightarrow> builder \<Rightarrow> bool" where
  "cached_enabled cmd s b \<longleftrightarrow> (case s of Step e \<Rightarrow> event_ok e b \<and> disk_ok cmd e b \<and> cache_event_ok e b | Interrupt \<Rightarrow> True)"

definition cached_build :: "build_params \<Rightarrow> nid set \<Rightarrow> (string \<rightharpoonup> string) \<Rightarrow> string \<Rightarrow> commands \<Rightarrow> graph \<Rightarrow> contents \<Rightarrow> builder \<Rightarrow> bool" where
  "cached_build P T M dir cmd g src b \<longleftrightarrow>
     builder_inv T b \<and> cached_inv M dir cmd g src b \<and> 0 < bp_numThreads P \<and> fits dir g \<and> hash_meaning M cmd g src"

lemma cached_start:
  assumes b: "cached_build P T M dir cmd g src b" and e: "event_ok e b" "cache_event_ok e b"
    and r: "findWork (b_plan b) = (Some r, p)" "builder_core T (insert r F) (b\<lparr>b_plan := p\<rparr>)" "r \<notin> F" and core: "builder_core T F b"
  shows "\<exists>b'. buildRule P e r (b\<lparr>b_plan := p\<rparr>) = Inr b' \<and> cached_inv M dir cmd g src b'"
proof (rule cached_buildRule [OF r(2,3)])
  have c: "cached_inv M dir cmd g src b" using b by (simp add: cached_build_def)
  then show "cached_inv M dir cmd g src (b\<lparr>b_plan := p\<rparr>)" by (simp add: cached_cong [of "b\<lparr>b_plan := p\<rparr>" b])
  show "fresh_pipes (e_pipes e) (b_manager (b\<lparr>b_plan := p\<rparr>))" using e(1) by (simp add: event_ok_def)
  show "fits dir g" "hash_meaning M cmd g src" using b by (simp_all add: cached_build_def)
  have "p_readyRules (b_plan b) \<subseteq> set (g_rules (b_graph b))" using core by (auto simp: builder_core_def plan_inv_def)
  then have "finite (p_readyRules (b_plan b))" by (rule finite_subset) simp
  then have "r \<in> p_readyRules (b_plan b)" using r(1) Min_in by (auto simp: findWork_def Let_def split: if_splits)
  moreover obtain cm where "b_cache b = Some cm" using c by (auto simp: cached_inv_def)
  ultimately show "\<forall>n \<in> set (r_outputs (g_rule (b_graph (b\<lparr>b_plan := p\<rparr>)) r)).
      file_writable (createDirectories (b_graph (b\<lparr>b_plan := p\<rparr>)) r (b_world (b\<lparr>b_plan := p\<rparr>))) (path (b_graph (b\<lparr>b_plan := p\<rparr>)) n)"
    using e(2) by (auto simp: cache_event_ok_def)
qed

lemma cached_build_step:
  assumes b: "cached_build P T M dir cmd g src b" and e: "event_ok e b" "disk_ok cmd e b" "cache_event_ok e b"
  shows "\<exists>b'. build_step P e b = Inr b' \<and> cached_build P T M dir cmd g src b' \<and> (b_pc b \<noteq> Done \<longrightarrow> build_measure b' < build_measure b)"
proof -
  have i: "builder_inv T b" "cached_inv M dir cmd g src b" "0 < bp_numThreads P" "fits dir g" "hash_meaning M cmd g src"
    using b by (simp_all add: cached_build_def)
  have os: "fresh_pipes (e_pipes e) (b_manager b)" using e(1) by (simp add: event_ok_def)
  note start = cached_start [OF b e(1,3)] and wait = cached_wait [OF _ e _ i(2,4,5), where P = P]
  obtain b' where b': "build_step P e b = Inr b'" "b_pc b \<noteq> Done \<longrightarrow> build_measure b' < build_measure b"
    using build_step_progress [OF i(1) os i(3)] start wait by metis
  consider (start) "b_pc b = Spawn" "hasWork (b_plan b)" "nbRunning (b_manager b) < bp_numThreads P"
    | (wait) res b1 where "0 < nbRunning (b_manager b)" "builder_waitForNext P e b = Inr (res, b1)" "b_cache b' = b_cache b1" "b_graph b' = b_graph b1"
        "b_world b' = b_world b1" "b_manager b' = b_manager b1"
    | (other) "b_cache b' = b_cache b" "b_graph b' = b_graph b" "b_world b' = b_world b" "b_manager b' = b_manager b"
    using b'(1) by (auto simp: build_step_def rbind_eq_Inr split: pc.splits if_splits)
  then have "cached_inv M dir cmd g src b'"
  proof cases
    case st: start
    obtain F where core: "builder_core T F b" using i(1) by (auto simp: builder_inv_def)
    obtain r p where r: "findWork (b_plan b) = (Some r, p)" "builder_core T (insert r F) (b\<lparr>b_plan := p\<rparr>)" "r \<notin> F"
      using core_findWork [OF core st(2)] by metis
    then show ?thesis using start [OF r core] b'(1) st by (auto simp: build_step_def)
  next
    case w: wait
    obtain F where "builder_core T F b" using i(1) by (auto simp: builder_inv_def)
    from wait [OF this w(1)] w(2) cached_cong [OF w(3-6)] show ?thesis by auto
  next
    case other
    then show ?thesis using i(2) cached_cong by blast
  qed
  then show ?thesis using b' build_step_inv [OF i(1) os b'(1)] i by (auto simp: cached_build_def)
qed

lemma cached_step:
  assumes b: "cached_build P T M dir cmd g src b" and s: "cached_enabled cmd s b"
  shows "\<exists>b'. sched_step P s b = Inr b' \<and> cached_build P T M dir cmd g src b' \<and> build_measure b' \<le> build_measure b \<and>
     (is_Step s \<and> b_pc b \<noteq> Done \<longrightarrow> build_measure b' < build_measure b)"
proof (cases s)
  case (Step e)
  then obtain b' where b': "build_step P e b = Inr b'" "cached_build P T M dir cmd g src b'" "b_pc b \<noteq> Done \<longrightarrow> build_measure b' < build_measure b"
    using cached_build_step [OF b] s by (auto simp: cached_enabled_def)
  moreover have "b' = b" if "b_pc b = Done" using b'(1) Done_stays [OF that] by simp
  ultimately show ?thesis using Step by (cases "b_pc b = Done") (auto simp: sched_step_def)
next
  case Interrupt
  have "builder_inv T b" using b by (simp add: cached_build_def)
  note eq = interrupt_total [OF this] and inv = interrupt_inv [OF this]
  show ?thesis using Interrupt eq inv [OF eq] b cached_cong [of "b\<lparr>b_interrupted := True\<rparr>" b] by (simp add: sched_step_def cached_build_def)
qed

interpretation cached: terminating_machine "cached_enabled cmd" "sched_step P" "cached_build P T M dir cmd g src" build_measure "\<lambda>b. b_pc b = Done" is_Step
  for P T M dir cmd g src
proof (unfold_locales, goal_cases)
  case (1 s a s')
  then show ?case using cached_step [OF 1(1,2)] by auto
next
  case (2 s a)
  then show ?case using cached_step [OF 2] by blast
next
  case (3 s a s')
  then show ?case using cached_step [OF 3(1,2)] by auto
next
  case (4 s a s')
  then show ?case using cached_step [OF 4(1,2)] by auto
next
  case (5 s a s')
  then show ?case by (rule plain.final_stays)
next
  case (6 s)
  then show ?case by (auto simp: build_measure_def split: pc.splits if_splits)
qed

lemma cached_sched_run: "cached_sched_ok P cmd ss b \<longleftrightarrow> cached.run_ok cmd P ss b"
  by (induction ss arbitrary: b) (auto simp: cached_enabled_def split: sum.splits)

lemma cached_end:
  assumes inv: "cached_inv M dir cmd g src b" and fit: "fits dir g" and t: "t \<in> live g" "input_ready (b_graph b) t"
  shows "content (b_world b) (path g t) = clean cmd g src t"
proof -
  have c: "consistent cmd g src (b_graph b) (free_content dir (b_world b))" using inv by (simp add: cached_inv_def)
  note d = consistentD [OF c]
  have "wf_graph (b_graph b)" using d(1) by (simp add: graph_inv_def)
  from depth_bound [OF this, of t] have "depth g t < Suc (length (g_nodes g))"
    using build_shapeD(1) [OF d(2)] by (simp add: depth_def build_shape_dep [OF d(2)])
  from ready_content [OF c t this] show ?thesis by (simp only: free_path_content [OF fit t(1)])
qed

lemma cached_begin:
  assumes "graph_inv g" and "T \<subseteq> live g" and "BuildPlan k g T = Inr p" and "length (g_rules g) < k" and "0 < bp_numThreads P"
    and "cm_inv (cm, w)" and "cm_usable cm" and "fits (cm_cacheFs cm) g" and "settled cmd g (free_content (cm_cacheFs cm) w)"
    and "hash_meaning M cmd g (free_content (cm_cacheFs cm) w)"
    and "store_entry (cm_cacheFs cm) w \<subseteq>\<^sub>m M"
  shows "cached_build P T M (cm_cacheFs cm) cmd g (free_content (cm_cacheFs cm) w) (GraphParallelBuilder g p (Some cm) w)"
proof -
  have "builder_inv T (GraphParallelBuilder g p (Some cm) w)" by (rule builder_inv_start [OF assms(1-4)])
  then show ?thesis using assms(1,5-)
    by (simp add: cached_build_def cached_inv_def consistent_def GraphParallelBuilder_def PosixSubProcessManager_def active_def)
qed

lemma cached_run_ends:
  assumes "cached_build P T M dir cmd g src (GraphParallelBuilder g p (Some cm) w)"
    and "cached_sched_ok P cmd ss (GraphParallelBuilder g p (Some cm) w)" and "3 * card (p_rules p) + 4 \<le> length (filter is_Step ss)"
  shows "\<exists>b cm'. build_run P ss (GraphParallelBuilder g p (Some cm) w) = Inr b \<and> b_pc b = Done \<and>
     settled cmd (b_graph b) (free_content dir (b_world b)) \<and>
     b_cache b = Some cm' \<and> cm_cacheFs cm' = dir \<and> cm_inv (cm', b_world b) \<and> cm_usable cm' \<and> store_entry dir (b_world b) \<subseteq>\<^sub>m M \<and>
     (b_result b = SUCCEEDED \<and> \<not> b_interrupted b \<longrightarrow> (\<forall>t \<in> T. content (b_world b) (path g t) = clean cmd g src t))"
proof -
  let ?b = "GraphParallelBuilder g p (Some cm) w"
  have "build_measure ?b \<le> length (filter is_Step ss)"
    using assms(3) by (auto simp: build_measure_def GraphParallelBuilder_def PosixSubProcessManager_def nbRunning_def)
  from cached.run_ends [OF assms(1) assms(2) [unfolded cached_sched_run] this] obtain b
    where b: "build_run P ss ?b = Inr b" "b_pc b = Done" "builder_inv T b" "cached_inv M dir cmd g src b" "fits dir g"
    by (auto simp: cached_build_def build_run_def)
  then obtain cm' where "b_cache b = Some cm'" "cm_cacheFs cm' = dir" "cm_inv (cm', b_world b)" "cm_usable cm'"
    "store_entry dir (b_world b) \<subseteq>\<^sub>m M" "settled cmd (b_graph b) (free_content dir (b_world b))"
    by (auto simp: cached_inv_def consistent_def)
  moreover have "T \<subseteq> live g"
    using assms(1) by (auto simp: cached_build_def builder_inv_def builder_core_def GraphParallelBuilder_def)
  moreover then have "\<forall>t \<in> T. content (b_world b) (path g t) = clean cmd g src t" if "b_result b = SUCCEEDED" "\<not> b_interrupted b"
    using build_end(1) [OF b(3,2) that] cached_end [OF b(4,5)] by blast
  ultimately show ?thesis using b(1,2) by blast
qed

section \<open>Properties\<close>

text \<open>An example: the chain of two rules again, with hashes. The output of the first rule is in the cache, that of the
  second one is not.\<close>

definition cache_chain :: graph where
  "cache_chain = set_node_hashes 2 ''h2'' ''h2'' (set_node_hashes 3 ''h3'' ''h3''
     (set_rule_hashes 1 ''d1'' ''d1'' (set_rule_hashes 2 ''d2'' ''d2'' dirty_chain)))"

definition cache_world :: world where
  "cache_world = \<lparr>w_files = [''cache'' \<mapsto> Dir, ''cache/h2'' \<mapsto> File ''x1'' 0, ''a'' \<mapsto> File ''x'' 3, ''c'' \<mapsto> File ''old'' 1],
     w_denied = {}, w_time = 4\<rparr>"

lemma cache_chain_inv: "graph_inv cache_chain"
  by (subst shape_graph_inv [of _ dirty_chain]) (simp_all add: cache_chain_def dirty_chain_inv)

lemma cache_chain_plan: "BuildPlan 3 cache_chain {3} = Inr example_plan"
  by code_simp

lemma no_ancestors: "dirname p = [] \<Longrightarrow> ancestors p = {}"
  by (auto elim: ancestors.induct)

lemma cache_chain_fits: "fits ''cache'' cache_chain"
proof -
  have g: "g_rules cache_chain = [1, 2]" "live cache_chain = {1, 2, 3}" "path cache_chain 1 = ''a''" "path cache_chain 2 = ''b''"
    "path cache_chain 3 = ''c''" "r_hashDepfile (g_rule cache_chain 1) = ''d1''" "r_hashDepfile (g_rule cache_chain 2) = ''d2''"
    "r_outputs (g_rule cache_chain 1) = [2]" "r_outputs (g_rule cache_chain 2) = [3]"
    "n_hash (g_node cache_chain 2) = ''h2''" "n_hash (g_node cache_chain 3) = ''h3''" by code_simp+
  have "dirname ''a'' = []" "dirname ''b'' = []" "dirname ''c'' = []" by code_simp+
  then show ?thesis by (simp add: fits_def g valid_hash_def free_path_def no_ancestors del: One_nat_def)
qed

text \<open>A check of \<open>cached_sched_ok\<close> for events that write some files outside of the cache, and of the state at the end.\<close>

definition cache_check :: "(string \<times> string) list \<Rightarrow> os_event \<Rightarrow> builder \<Rightarrow> bool" where
  "cache_check fs e b \<longleftrightarrow> (case b_cache b of None \<Rightarrow> True | Some cm \<Rightarrow>
     isDir (b_world b) (cm_cacheFs cm) \<and> cm_cacheFs cm \<notin> fst ` set fs \<and>
     (\<forall>r \<in> p_readyRules (b_plan b). \<forall>n \<in> set (r_outputs (g_rule (b_graph b) r)).
        file_writable (createDirectories (b_graph b) r (b_world b)) (path (b_graph b) n)) \<and>
     (case waitForNext (e_polls e) (e_status e) (b_manager b) of
        Inl _ \<Rightarrow> True
      | Inr (res, m) \<Rightarrow> br_status res \<noteq> EXIT_SUCCEEDED \<or>
          (\<forall>n \<in> set (r_outputs (g_rule (b_graph b) (br_rule res))). content (e_disk e (b_world b)) (path (b_graph b) n) \<noteq> None)))"

fun check_cached :: "build_params \<Rightarrow> commands \<Rightarrow> (builder \<Rightarrow> bool) \<Rightarrow> (os_event \<times> (string \<times> string) list) list \<Rightarrow> builder \<Rightarrow> bool" where
  "check_cached P cmd Q [] b \<longleftrightarrow> Q b"
| "check_cached P cmd Q ((e, fs) # ss) b \<longleftrightarrow> (let e = e\<lparr>e_disk := write_files fs\<rparr> in event_ok e b \<and> disk_check cmd fs e b \<and> cache_check fs e b \<and>
     (case build_step P e b of Inl _ \<Rightarrow> False | Inr b' \<Rightarrow> check_cached P cmd Q ss b'))"

lemma write_files_store:
  assumes "store_ok dir w" "isDir w dir" "dir \<notin> fst ` set fs"
  shows "store_ok dir (write_files fs w)"
  using assms unfolding write_files_def
proof (induction fs arbitrary: w)
  case (Cons x fs)
  obtain p c where x: "x = (p, c)" by (cases x)
  let ?w = "upd_files (\<lambda>f. f(p \<mapsto> File c 0)) w"
  have "isDir ?w q \<longleftrightarrow> isDir w q \<and> q \<noteq> p" for q by (auto simp: isDir_def)
  then have "store_ok dir ?w" "isDir ?w dir" using Cons.prems by (auto simp: store_ok_def x)
  from Cons.IH [OF this] show ?case using Cons.prems(3) by (simp add: x fun_upd_def)
qed simp

lemma check_cached:
  assumes "cached_build P T M dir cmd g src b" "check_cached P cmd Q es b"
  shows "cached_sched_ok P cmd (disk_steps es) b \<and> (\<forall>b'. build_run P (disk_steps es) b = Inr b' \<longrightarrow> Q b')"
  using assms
proof (induction es arbitrary: b)
  case (Cons x es)
  obtain e fs where x: "x = (e, fs)" by (cases x)
  let ?e = "e\<lparr>e_disk := write_files fs\<rparr>"
  have c: "event_ok ?e b" "disk_check cmd fs ?e b" "cache_check fs ?e b" using Cons.prems(2) by (simp_all add: x Let_def)
  from Cons.prems(1) obtain cm where cm: "b_cache b = Some cm" "store_ok (cm_cacheFs cm) (b_world b)"
    by (auto simp: cached_build_def cached_inv_def cm_inv_def)
  then have "store_ok (cm_cacheFs cm) (write_files fs (b_world b))" using c(3) write_files_store by (auto simp: cache_check_def)
  then have ok: "cache_event_ok ?e b" using c(3) cm(1) by (simp add: cache_event_ok_def cache_check_def split: sum.splits) blast
  note e = c(1) disk_check [OF c(2)] ok
  from cached_build_step [OF Cons.prems(1) e] obtain b' where "build_step P ?e b = Inr b'" "cached_build P T M dir cmd g src b'" by blast
  then show ?case using e Cons.IH [of b'] Cons.prems(2) by (simp add: x Let_def sched_step_def build_run_def)
qed (simp add: build_run_def)

definition cached_steps :: "(os_event \<times> (string \<times> string) list) list" where
  "cached_steps = [(example_event, []), (example_event, []), (example_event, []), (example_end, [(''c'', ''x12'')]), (example_event, []),
     (example_event, []), (example_event, []), (example_event, []), (example_event, []), (example_event, [])]"

lemma cached_steps_ok:
  "check_cached example_params example_cmd (\<lambda>b. b_result b = SUCCEEDED \<and> \<not> b_interrupted b) cached_steps
     (GraphParallelBuilder cache_chain example_plan (Some example_plain) cache_world)"
  by code_simp

definition example_meaning :: "string \<rightharpoonup> string" where
  "example_meaning = [''h2'' \<mapsto> ''x1'', ''h3'' \<mapsto> ''x12'']"

lemma cache_chain_start:
  "cm_inv (example_plain, cache_world)" "cm_usable example_plain" "cm_cacheFs example_plain = ''cache''"
  "settled example_cmd cache_chain (free_content ''cache'' cache_world)"
  "hash_meaning example_meaning example_cmd cache_chain (free_content ''cache'' cache_world)"
  "store_entry ''cache'' cache_world \<subseteq>\<^sub>m example_meaning"
proof -
  have "store_ok ''cache'' cache_world" by (auto simp: store_ok_def cache_world_def isDir_def entry_path_def valid_hash_def)
  then show "cm_inv (example_plain, cache_world)"
    using git_history_inv [OF example_history(1)] by (simp add: cm_inv_def example_plain_def example_cm_def)
  show "cm_usable example_plain" "cm_cacheFs example_plain = ''cache''" by (simp_all add: cm_usable_def example_plain_def example_cm_def)
  show "settled example_cmd cache_chain (free_content ''cache'' cache_world)" by code_simp
  have g: "g_rules cache_chain = [1, 2]" "r_outputs (g_rule cache_chain 1) = [2]" "r_outputs (g_rule cache_chain 2) = [3]"
    "\<not> Rule_isPhony cache_chain 1" "\<not> Rule_isPhony cache_chain 2"
    "n_hash (g_node cache_chain 2) = ''h2''" "n_hash (g_node cache_chain 3) = ''h3''" by code_simp+
  then have gen: "generated cache_chain = {2, 3}" by (auto simp: generated_def simp del: One_nat_def)
  have "clean example_cmd cache_chain (free_content ''cache'' cache_world) 2 = Some ''x1''"
    "clean example_cmd cache_chain (free_content ''cache'' cache_world) 3 = Some ''x12''" by code_simp+
  then show "hash_meaning example_meaning example_cmd cache_chain (free_content ''cache'' cache_world)"
    unfolding hash_meaning_def gen using g(6,7) by (simp add: example_meaning_def del: clean_build.simps)
  show "store_entry ''cache'' cache_world \<subseteq>\<^sub>m example_meaning"
    by (auto simp: map_le_def store_entry_def content_def cache_world_def entry_path_def example_meaning_def split: if_splits)
qed

text \<open>C3. A build with a cache ends and gives the files of a build from scratch. Let the rules that are up to date at the
  start be built, let the hashes of the outputs mean their contents after a build from scratch, and let the cache hold
  what hashes mean. Let the commands create their outputs with what \<open>cmd\<close> gives for their inputs, and not write into the
  cache directory. Then a build of a graph without depfiles, under every schedule in which the commands end, reaches its
  end, and no assertion of the cache or of the builder fails. Whether rules are restored from the cache or executed,
  whether commands fail or the build is interrupted: every rule that is marked up to date afterwards is built, and the
  cache can be used for the next build: it still holds what hashes mean. When the build succeeds, every target has the
  content that a build from scratch computes from the sources.\<close>

theorem cached_build_correct:
  assumes "graph_inv g" and "T \<subseteq> live g" and "BuildPlan k g T = Inr p" and "length (g_rules g) < k" and "0 < bp_numThreads P"
    and "cm_inv (cm, w)" and "cm_usable cm" and "fits (cm_cacheFs cm) g"
    and "settled cmd g (free_content (cm_cacheFs cm) w)"
    and "hash_meaning M cmd g (free_content (cm_cacheFs cm) w)"
    and "store_entry (cm_cacheFs cm) w \<subseteq>\<^sub>m M"
    and "cached_sched_ok P cmd ss (GraphParallelBuilder g p (Some cm) w)"
    and "3 * card (p_rules p) + 4 \<le> length (filter is_Step ss)"
  shows "\<exists>b cm'. build_run P ss (GraphParallelBuilder g p (Some cm) w) = Inr b \<and> b_pc b = Done \<and>
     settled cmd (b_graph b) (free_content (cm_cacheFs cm) (b_world b)) \<and>
     b_cache b = Some cm' \<and> cm_cacheFs cm' = cm_cacheFs cm \<and> cm_inv (cm', b_world b) \<and> cm_usable cm' \<and>
     store_entry (cm_cacheFs cm) (b_world b) \<subseteq>\<^sub>m M \<and>
     (b_result b = SUCCEEDED \<and> \<not> b_interrupted b \<longrightarrow>
        (\<forall>t \<in> T. content (b_world b) (path g t) =
           clean_build (Suc (length (g_nodes g))) cmd g (free_content (cm_cacheFs cm) w) t))"
proof -
  let ?b = "GraphParallelBuilder g p (Some cm) w" and ?dir = "cm_cacheFs cm" and ?src = "free_content (cm_cacheFs cm) w"
  have start: "cached_build P T M ?dir cmd g ?src ?b" by (rule cached_begin [OF assms(1-11)])
  from cached_run_ends [OF start assms(12,13)] show ?thesis by blast
qed

theorem cached_build_correct_witness:
  "\<exists>b. build_run example_params (disk_steps cached_steps) (GraphParallelBuilder cache_chain example_plan (Some example_plain) cache_world) = Inr b \<and>
     b_result b = SUCCEEDED \<and> settled example_cmd (b_graph b) (free_content ''cache'' (b_world b)) \<and> content (b_world b) ''c'' = Some ''x12''"
proof -
  have g: "{3} \<subseteq> live cache_chain" "length (g_rules cache_chain) < 3" "path cache_chain 3 = ''c''" "0 < bp_numThreads example_params"
    "3 * card (p_rules example_plan) + 4 \<le> length (filter is_Step (disk_steps cached_steps))" by code_simp+
  have clean: "clean example_cmd cache_chain (free_content ''cache'' cache_world) 3 = Some ''x12''" by code_simp
  note s = cache_chain_start(1,2) and t = cache_chain_fits cache_chain_start(4-6)
  note st = cached_begin [OF cache_chain_inv g(1) cache_chain_plan g(2,4) s, unfolded cache_chain_start(3), OF t]
  note run = check_cached [OF st cached_steps_ok]
  from cached_build_correct [OF cache_chain_inv g(1) cache_chain_plan g(2,4) s, unfolded cache_chain_start(3), OF t, of "disk_steps cached_steps"]
  obtain b where "build_run example_params (disk_steps cached_steps) (GraphParallelBuilder cache_chain example_plan (Some example_plain) cache_world) = Inr b"
    "settled example_cmd (b_graph b) (free_content ''cache'' (b_world b))"
    "b_result b = SUCCEEDED \<and> \<not> b_interrupted b \<longrightarrow> content (b_world b) ''c'' = Some ''x12''"
    using run g(5) clean by (auto simp: g(3) simp del: clean_build.simps)
  then show ?thesis using run by blast
qed

end
