(* ===== verification/Hash_Meaning.thy ===== *)
theory Hash_Meaning
  imports Cached_Build
begin

text \<open>
  Why a hash may stand for a content. \<open>graph_hash.cpp\<close> hashes the path of a file together with its content or with the hash
  of its rule, and the hashes of the inputs of a rule together with its command. If the hash function has no collision on
  what is hashed for some versions of a project, then files with the same hash have the same content in all of them, and
  one cache serves all versions.
\<close>

section \<open>What is hashed\<close>

definition node_parts :: "contents \<Rightarrow> graph \<Rightarrow> nid \<Rightarrow> string \<times> (string option + string)" where
  "node_parts src g n = (path g n, case n_child (g_node g n) of None \<Rightarrow> Inl (src (path g n)) | Some r \<Rightarrow> Inr (r_hash (g_rule g r)))"

definition rule_parts :: "graph \<Rightarrow> rid \<Rightarrow> string list \<times> string" where
  "rule_parts g r = (map (\<lambda>i. n_hash (g_node g i)) (r_inputs (g_rule g r)), r_command (g_rule g r))"

fun node_text :: "string \<times> (string option + string) \<Rightarrow> string" where
  "node_text (p, Inl None) = p"
| "node_text (p, Inl (Some c)) = p @ c"
| "node_text (p, Inr h) = p @ h"

fun rule_text :: "string list \<times> string \<Rightarrow> string" where
  "rule_text (hs, c) = concat hs @ c"

lemma hashes_of_parts:
  assumes "hashes_ok sha w g" "fits dir g"
  shows "n \<in> live g \<Longrightarrow> n_hash (g_node g n) = sha (node_text (node_parts (free_content dir w) g n))"
    and "r \<in> set (g_rules g) \<Longrightarrow> r_hash (g_rule g r) = sha (rule_text (rule_parts g r))"
proof -
  show "n_hash (g_node g n) = sha (node_text (node_parts (free_content dir w) g n))" if n: "n \<in> live g"
  proof -
    have "node_text (p, Inl (content w p)) = p @ ifstream_read w p" for p
      by (simp add: content_def ifstream_read_def split: option.split fobj.split)
    then show ?thesis using assms(1) n
      by (auto simp: hashes_ok_def node_hash_ok_def node_hash_def node_parts_def free_path_content [OF assms(2) n, symmetric] split: option.split)
  qed
  show "r_hash (g_rule g r) = sha (rule_text (rule_parts g r))" if "r \<in> set (g_rules g)"
    using assms(1) that by (simp add: hashes_ok_def rule_hash_ok_def rule_hash_def rule_parts_def)
qed

section \<open>Versions of a project\<close>

text \<open>A graph whose hashes are right, with its files; names of phony rules are not files.\<close>

definition version :: "(string \<Rightarrow> string) \<Rightarrow> string \<Rightarrow> graph \<times> world \<Rightarrow> bool" where
  "version sha dir = (\<lambda>(g, w). wf_graph g \<and> acyclic_graph g \<and> hashes_ok sha w g \<and> fits dir g \<and>
     (\<forall>r \<in> set (g_rules g). Rule_isPhony g r \<longrightarrow> (\<forall>n \<in> set (r_outputs (g_rule g r)). content w (path g n) = None)))"

definition collision_free :: "(string \<Rightarrow> string) \<Rightarrow> string \<Rightarrow> (graph \<times> world) set \<Rightarrow> bool" where
  "collision_free sha dir V \<longleftrightarrow>
     inj_on (sha \<circ> node_text) (\<Union>(g, w) \<in> V. node_parts (free_content dir w) g ` live g) \<and>
     inj_on (sha \<circ> rule_text) (\<Union>(g, w) \<in> V. rule_parts g ` set (g_rules g))"

lemma collision_freeD:
  assumes V: "collision_free sha dir V" "(g, w) \<in> V" "(g', w') \<in> V" "version sha dir (g, w)" "version sha dir (g', w')"
  shows "n \<in> live g \<Longrightarrow> n' \<in> live g' \<Longrightarrow> n_hash (g_node g n) = n_hash (g_node g' n') \<Longrightarrow>
      node_parts (free_content dir w) g n = node_parts (free_content dir w') g' n'"
    and "r \<in> set (g_rules g) \<Longrightarrow> r' \<in> set (g_rules g') \<Longrightarrow> r_hash (g_rule g r) = r_hash (g_rule g' r') \<Longrightarrow> rule_parts g r = rule_parts g' r'"
proof -
  have h: "hashes_ok sha w g" "fits dir g" "hashes_ok sha w' g'" "fits dir g'" using V(4,5) by (auto simp: version_def)
  have inj: "inj_on (sha \<circ> node_text) (\<Union>(g, w) \<in> V. node_parts (free_content dir w) g ` live g)"
    "inj_on (sha \<circ> rule_text) (\<Union>(g, w) \<in> V. rule_parts g ` set (g_rules g))" using V(1) by (simp_all add: collision_free_def)
  show "node_parts (free_content dir w) g n = node_parts (free_content dir w') g' n'"
    if "n \<in> live g" "n' \<in> live g'" "n_hash (g_node g n) = n_hash (g_node g' n')"
    by (rule inj_onD [OF inj(1)])
      (use that V(2,3) hashes_of_parts(1) [OF h(1,2) that(1)] hashes_of_parts(1) [OF h(3,4) that(2)] in auto)
  show "rule_parts g r = rule_parts g' r'" if "r \<in> set (g_rules g)" "r' \<in> set (g_rules g')" "r_hash (g_rule g r) = r_hash (g_rule g' r')"
    by (rule inj_onD [OF inj(2)])
      (use that V(2,3) hashes_of_parts(2) [OF h(1,2) that(1)] hashes_of_parts(2) [OF h(3,4) that(2)] in auto)
qed

lemma map_eq_nth: "map f xs = map g ys \<Longrightarrow> i < length xs \<Longrightarrow> f (xs ! i) = g (ys ! i)"
  using nth_map [of i xs f] nth_map [of i ys g] map_eq_imp_length_eq [of f xs g ys] by simp

lemma find_same:
  assumes "list_all2 (\<lambda>i j. p i = q j \<and> f i = h j) is js"
  shows "Option.bind (find (\<lambda>i. p i = x) is) f = Option.bind (find (\<lambda>j. q j = x) js) h"
  using assms by induction auto

section \<open>The same hash, the same content\<close>

lemma same_hash_same_content:
  assumes V: "collision_free sha dir V" "(g, w) \<in> V" "(g', w') \<in> V" "version sha dir (g, w)" "version sha dir (g', w')"
    and "n \<in> live g" "n' \<in> live g'" "n_hash (g_node g n) = n_hash (g_node g' n')" "depth g n < k" "depth g' n' < k'"
  shows "clean_build k cmd g (free_content dir w) n = clean_build k' cmd g' (free_content dir w') n'"
  using assms(6-)
proof (induction k arbitrary: n n' k')
  case (Suc k)
  have wf: "wf_graph g" "acyclic_graph g" "wf_graph g'" "acyclic_graph g'" "fits dir g" "fits dir g'" using V(4,5) by (auto simp: version_def)
  note same = collision_freeD [OF V]
  have parts: "node_parts (free_content dir w) g n = node_parts (free_content dir w') g' n'" by (rule same(1) [OF Suc.prems(1-3)])
  then have p: "path g n = path g' n'" by (simp add: node_parts_def)
  obtain j where j: "k' = Suc j" using Suc.prems(5) by (cases k') auto
  show ?case
  proof (cases "n_child (g_node g n)")
    case None
    then show ?thesis using parts by (auto simp: node_parts_def j split: option.splits)
  next
    case (Some r)
    then obtain r' where r': "n_child (g_node g' n') = Some r'" "r_hash (g_rule g r) = r_hash (g_rule g' r')"
      using parts by (auto simp: node_parts_def split: option.splits)
    have r: "r \<in> set (g_rules g)" "n \<in> set (r_outputs (g_rule g r))" "r' \<in> set (g_rules g')" "n' \<in> set (r_outputs (g_rule g' r'))"
      using wf_child [OF wf(1) Suc.prems(1) Some] wf_child [OF wf(3) Suc.prems(2) r'(1)] by auto
    have rp: "rule_parts g r = rule_parts g' r'" by (rule same(2) [OF r(1,3) r'(2)])
    then have cmd: "r_command (g_rule g r) = r_command (g_rule g' r')" "Rule_isPhony g r = Rule_isPhony g' r'"
      by (simp_all add: rule_parts_def Rule_isPhony_def)
    show ?thesis
    proof (cases "Rule_isPhony g r")
      case True
      then have "content w (path g n) = None" "content w' (path g' n') = None" using V(4,5) r cmd(2) by (auto simp: version_def)
      then show ?thesis using True Some r'(1) cmd(2) by (simp add: j free_content_def)
    next
      case False
      have "list_all2 (\<lambda>i i'. n_hash (g_node g i) = n_hash (g_node g' i')) (r_inputs (g_rule g r)) (r_inputs (g_rule g' r'))"
        using rp by (auto simp: rule_parts_def list_all2_conv_all_nth dest: map_eq_imp_length_eq map_eq_nth)
      then have "list_all2 (\<lambda>i i'. path g i = path g' i' \<and>
          clean_build k cmd g (free_content dir w) i = clean_build j cmd g' (free_content dir w') i')
        (r_inputs (g_rule g r)) (r_inputs (g_rule g' r'))"
      proof (rule list.rel_mono_strong)
        fix i i' assume i: "i \<in> set (r_inputs (g_rule g r))" "i' \<in> set (r_inputs (g_rule g' r'))" "n_hash (g_node g i) = n_hash (g_node g' i')"
        have live: "i \<in> live g" "i' \<in> live g'" using wf_input [OF wf(1) r(1) i(1)] wf_input [OF wf(3) r(3) i(2)] by auto
        have "(i, n) \<in> dep_edges g" "(i', n') \<in> dep_edges g'" using i r by (auto simp: dep_edges_def)
        then have "depth g i < k" "depth g' i' < j"
          using depth_less [OF wf(1,2)] depth_less [OF wf(3,4)] Suc.prems(4,5) j by fastforce+
        then show "path g i = path g' i' \<and> clean_build k cmd g (free_content dir w) i = clean_build j cmd g' (free_content dir w') i'"
          using Suc.IH [OF live i(3)] same(1) [OF live i(3)] by (simp add: node_parts_def)
      qed
      from find_same [OF this] show ?thesis using False Some r'(1) cmd p by (simp add: j)
    qed
  qed
qed simp

text \<open>So there is one meaning of hashes for all versions.\<close>

lemma hashes_have_meaning:
  assumes V: "collision_free sha dir V" "\<forall>v \<in> V. version sha dir v"
  shows "\<exists>M. \<forall>(g, w) \<in> V. hash_meaning M cmd g (free_content dir w)"
proof -
  have same: "clean cmd g (free_content dir w) n = clean cmd g' (free_content dir w') n'"
    if v: "(g, w) \<in> V" "(g', w') \<in> V" and n: "n \<in> generated g" "n' \<in> generated g'" "n_hash (g_node g n) = n_hash (g_node g' n')" for g w n g' w' n'
  proof (rule same_hash_same_content [OF V(1) v])
    show ver: "version sha dir (g, w)" "version sha dir (g', w')" using V(2) v by auto
    then have wf: "wf_graph g" "wf_graph g'" by (auto simp: version_def)
    show "n \<in> live g" "n' \<in> live g'" using n wf_output [OF wf(1)] wf_output [OF wf(2)] by (auto simp: generated_def)
    show "depth g n < Suc (length (g_nodes g))" "depth g' n' < Suc (length (g_nodes g'))"
      using depth_bound [OF wf(1), of n] depth_bound [OF wf(2), of n'] by simp_all
  qed (rule n(3))
  have "\<exists>c. \<forall>(g, w) \<in> V. \<forall>n \<in> generated g. n_hash (g_node g n) = h \<longrightarrow> c = clean cmd g (free_content dir w) n" for h
  proof (cases "\<exists>g w n. (g, w) \<in> V \<and> n \<in> generated g \<and> n_hash (g_node g n) = h")
    case True
    then obtain g w n where n: "(g, w) \<in> V" "n \<in> generated g" "n_hash (g_node g n) = h" by blast
    show ?thesis by (rule exI [of _ "clean cmd g (free_content dir w) n"]) (use same [OF n(1) _ n(2)] n(3) in blast)
  qed blast
  from choice [OF allI [OF this]] obtain M
    where "\<forall>h. \<forall>(g, w) \<in> V. \<forall>n \<in> generated g. n_hash (g_node g n) = h \<longrightarrow> M h = clean cmd g (free_content dir w) n" by (rule exE)
  then show ?thesis unfolding hash_meaning_def by (intro exI [of _ M]) (simp add: case_prod_beta del: clean_build.simps)
qed

section \<open>Histories of a cache\<close>

text \<open>A build that may be started: the graph is a version of the project, what it marks as up to date is built, and the
  system keeps its promises.\<close>

definition startable :: "(graph \<times> world) set \<Rightarrow> commands \<Rightarrow> graph \<Rightarrow> nid set \<Rightarrow> plan \<Rightarrow> build_params \<Rightarrow> sched list \<Rightarrow> cstate \<Rightarrow> bool" where
  "startable V cmd g T p P ss = (\<lambda>(cm, w). (g, w) \<in> V \<and> graph_inv g \<and> T \<subseteq> live g \<and> BuildPlan (Suc (length (g_rules g))) g T = Inr p \<and>
     0 < bp_numThreads P \<and> settled cmd g (free_content (cm_cacheFs cm) w) \<and> cached_sched_ok P cmd ss (GraphParallelBuilder g p (Some cm) w))"

text \<open>A history starts with an empty cache. Then builds are made, which may also fail, be interrupted or break off, and
  between them files are edited in any way; cache entries may get lost but are not written.\<close>

inductive cache_history :: "(graph \<times> world) set \<Rightarrow> string \<Rightarrow> commands \<Rightarrow> cstate \<Rightarrow> bool" for V dir cmd where
  empty: "cm_inv (cm, w) \<Longrightarrow> cm_usable cm \<Longrightarrow> cm_cacheFs cm = dir \<Longrightarrow> store_entry dir w = Map.empty \<Longrightarrow> cache_history V dir cmd (cm, w)"
| edit: "cache_history V dir cmd (cm, w) \<Longrightarrow> store_ok dir w' \<Longrightarrow> store_entry dir w' \<subseteq>\<^sub>m store_entry dir w \<Longrightarrow> cache_history V dir cmd (cm, w')"
| build: "cache_history V dir cmd (cm, w) \<Longrightarrow> startable V cmd g T p P ss (cm, w) \<Longrightarrow>
    build_run P ss (GraphParallelBuilder g p (Some cm) w) = Inr b \<Longrightarrow> b_cache b = Some cm' \<Longrightarrow> cache_history V dir cmd (cm', b_world b)"

definition cache_good :: "(string \<rightharpoonup> string) \<Rightarrow> string \<Rightarrow> cstate \<Rightarrow> bool" where
  "cache_good M dir = (\<lambda>(cm, w). cm_inv (cm, w) \<and> cm_usable cm \<and> cm_cacheFs cm = dir \<and> store_entry dir w \<subseteq>\<^sub>m M)"

lemma startable_begin:
  assumes "startable V cmd g T p P ss (cm, w)" "cache_good M dir (cm, w)" "fits dir g" "hash_meaning M cmd g (free_content dir w)"
  shows "cached_build P T M dir cmd g (free_content dir w) (GraphParallelBuilder g p (Some cm) w)"
  using assms cached_begin [of g T "Suc (length (g_rules g))" p P cm w cmd M] by (auto simp: startable_def cache_good_def)

lemma history_good:
  assumes M: "\<forall>(g, w) \<in> V. hash_meaning M cmd g (free_content dir w)" "\<forall>(g, w) \<in> V. fits dir g" and "cache_history V dir cmd s"
  shows "cache_good M dir s"
  using assms(3)
proof induction
  case (edit cm w w')
  then show ?case by (auto simp: cache_good_def cm_inv_def intro: map_le_trans)
next
  case (build cm w g T p P ss b cm')
  have v: "fits dir g" "hash_meaning M cmd g (free_content dir w)" and ok: "cached_sched_ok P cmd ss (GraphParallelBuilder g p (Some cm) w)"
    using M build.hyps(2) by (auto simp: startable_def)
  from cached.run_keeps [OF startable_begin [OF build.hyps(2) build.IH v] ok [unfolded cached_sched_run] build.hyps(3) [unfolded build_run_def]]
  show ?case using build.hyps(4) by (auto simp: cached_build_def cached_inv_def cache_good_def)
qed (simp add: cache_good_def)

section \<open>Properties\<close>

text \<open>An example: two versions of the chain, which differ in the content of the source, with a hash function that only marks
  its argument.\<close>

definition tag_chain :: "string \<Rightarrow> graph" where
  "tag_chain c =
     (let h1 = tag (''a'' @ c); r1 = tag (h1 @ ''cc''); h2 = tag (''b'' @ r1); r2 = tag (h2 @ ''cc''); h3 = tag (''c'' @ r2) in
      set_node_hashes 1 h1 h1 (set_node_hashes 2 h2 h2 (set_node_hashes 3 h3 h3
        (set_rule_hashes 1 r1 r1 (set_rule_hashes 2 r2 r2 dirty_chain)))))"

definition source_world :: "string \<Rightarrow> world" where
  "source_world c = \<lparr>w_files = [''cache'' \<mapsto> Dir, ''a'' \<mapsto> File c 3], w_denied = {}, w_time = 4\<rparr>"

abbreviation tag_versions :: "(graph \<times> world) set" where
  "tag_versions \<equiv> {(tag_chain ''x'', source_world ''x''), (tag_chain ''y'', source_world ''y'')}"

definition first_plan :: plan where
  "first_plan = \<lparr>p_rules = {1}, p_readyRules = {1}, p_numStarted = 0\<rparr>"

definition first_steps :: "(os_event \<times> (string \<times> string) list) list" where
  "first_steps = [(example_event, []), (example_event, []), (example_end, [(''b'', ''x1'')]), (example_event, []), (example_event, []),
     (example_event, []), (example_event, [])]"

lemma first_steps_ok:
  "check_cached example_params example_cmd (\<lambda>b. b_result b = SUCCEEDED \<and> \<not> b_interrupted b) first_steps
     (GraphParallelBuilder (tag_chain ''x'') first_plan (Some example_plain) (source_world ''x''))"
  by code_simp

lemma tag_chain_inv: "graph_inv (tag_chain c)"
  by (subst shape_graph_inv [of _ dirty_chain]) (simp_all add: tag_chain_def Let_def dirty_chain_inv)

lemma tag_chain_graph:
  "g_rules (tag_chain c) = [1, 2]" "live (tag_chain c) = {1, 2, 3}" "path (tag_chain c) 1 = ''a''" "path (tag_chain c) 2 = ''b''"
  "path (tag_chain c) 3 = ''c''" "r_outputs (g_rule (tag_chain c) 1) = [2]" "r_outputs (g_rule (tag_chain c) 2) = [3]"
  "\<not> Rule_isPhony (tag_chain c) 1" "\<not> Rule_isPhony (tag_chain c) 2"
  by (simp_all add: tag_chain_def Let_def set_node_hashes_def set_rule_hashes_def upd_node_def upd_rule_def dirty_chain_def mark_def live_def
      Rule_isPhony_def chain_defs)

lemma tag_chain_hashes:
  "n_child (g_node (tag_chain c) 1) = None" "n_child (g_node (tag_chain c) 2) = Some 1" "n_child (g_node (tag_chain c) 3) = Some 2"
  "r_inputs (g_rule (tag_chain c) 1) = [1]" "r_inputs (g_rule (tag_chain c) 2) = [2]"
  "r_command (g_rule (tag_chain c) 1) = ''cc''" "r_command (g_rule (tag_chain c) 2) = ''cc''"
  "n_hash (g_node (tag_chain c) 1) = ''#a'' @ c" "n_hash (g_node (tag_chain c) 2) = ''#b##a'' @ c @ ''cc''"
  "n_hash (g_node (tag_chain c) 3) = ''#c##b##a'' @ c @ ''cccc''"
  "r_hash (g_rule (tag_chain c) 1) = ''##a'' @ c @ ''cc''" "r_hash (g_rule (tag_chain c) 2) = ''##b##a'' @ c @ ''cccc''"
  "r_hashDepfile (g_rule (tag_chain c) 1) = ''##a'' @ c @ ''cc''" "r_hashDepfile (g_rule (tag_chain c) 2) = ''##b##a'' @ c @ ''cccc''"
  by (simp_all add: tag_chain_def Let_def set_node_hashes_def set_rule_hashes_def upd_node_def upd_rule_def dirty_chain_def mark_def chain_defs tag_def)

lemma tag_chain_version:
  assumes "CHR ''/'' \<notin> set c"
  shows "version tag ''cache'' (tag_chain c, source_world c)"
proof -
  have "dirname ''a'' = []" "dirname ''b'' = []" "dirname ''c'' = []" by code_simp+
  then have "fits ''cache'' (tag_chain c)"
    using assms by (simp add: fits_def tag_chain_graph tag_chain_hashes valid_hash_def free_path_def no_ancestors del: One_nat_def)
  moreover have "hashes_ok tag (source_world c) (tag_chain c)"
    by (simp add: hashes_ok_def node_hash_ok_def rule_hash_ok_def node_hash_def node_hashDepfile_def rule_hash_def rule_hashDepfile_def
        tag_chain_def Let_def set_node_hashes_def set_rule_hashes_def upd_node_def upd_rule_def dirty_chain_def mark_def live_def chain_defs
        tag_def source_world_def ifstream_read_def explicit_inputs_def)
  ultimately show ?thesis using tag_chain_inv [of c] by (simp add: version_def graph_inv_def tag_chain_graph del: One_nat_def)
qed

lemma tag_collision_free: "collision_free tag ''cache'' tag_versions"
proof -
  have "dirname ''a'' = []" by code_simp
  then have "free_content ''cache'' (source_world c) ''a'' = Some c" for c
    by (simp add: free_content_def free_path_def content_def source_world_def)
  then have "node_parts (free_content ''cache'' (source_world c)) (tag_chain c) ` live (tag_chain c) =
      {(''a'', Inl (Some c)), (''b'', Inr (''##a'' @ c @ ''cc'')), (''c'', Inr (''##b##a'' @ c @ ''cccc''))}"
    "rule_parts (tag_chain c) ` set (g_rules (tag_chain c)) = {([''#a'' @ c], ''cc''), ([''#b##a'' @ c @ ''cc''], ''cc'')}" for c
    by (simp_all add: node_parts_def rule_parts_def tag_chain_graph tag_chain_hashes del: One_nat_def)
  then show ?thesis by (simp add: collision_free_def tag_def)
qed

lemma tag_history: "cache_history tag_versions ''cache'' example_cmd (example_plain, source_world ''x'')"
proof (rule cache_history.empty)
  have "store_ok ''cache'' (source_world ''x'')" by (auto simp: store_ok_def source_world_def isDir_def entry_path_def valid_hash_def)
  then show "cm_inv (example_plain, source_world ''x'')"
    using git_history_inv [OF example_history(1)] by (simp add: cm_inv_def example_plain_def example_cm_def)
  show "store_entry ''cache'' (source_world ''x'') = Map.empty"
    by (auto simp: store_entry_def content_def source_world_def entry_path_def)
qed (simp_all add: cm_usable_def example_plain_def example_cm_def)

text \<open>C2. Over any history of edits and builds the cache never gives a wrong file. Let the hash function have no collision on
  what is hashed for the versions of a project, and let a cache that started empty have been used by builds of these
  versions; between the builds files were changed in any way outside of the cache, entries of the cache may have been lost,
  and the builds may have failed, been interrupted or broken off. Then a build of any version with this cache ends without
  a failing assertion, and when it succeeds, every target has the content that a build from scratch computes from the
  sources of this version. The commands write what \<open>cmd\<close> gives; the graphs have no depfiles.\<close>

theorem cache_never_wrong:
  assumes "collision_free sha dir V" and "\<forall>v \<in> V. version sha dir v" and "cache_history V dir cmd (cm, w)"
    and "startable V cmd g T p P ss (cm, w)" and "3 * card (p_rules p) + 4 \<le> length (filter is_Step ss)"
  shows "\<exists>b cm'. build_run P ss (GraphParallelBuilder g p (Some cm) w) = Inr b \<and> b_pc b = Done \<and>
     b_cache b = Some cm' \<and> cache_history V dir cmd (cm', b_world b) \<and>
     (b_result b = SUCCEEDED \<and> \<not> b_interrupted b \<longrightarrow>
        (\<forall>t \<in> T. content (b_world b) (path g t) = clean_build (Suc (length (g_nodes g))) cmd g (free_content dir w) t))"
proof -
  obtain M where M: "\<forall>(g, w) \<in> V. hash_meaning M cmd g (free_content dir w)" using hashes_have_meaning [OF assms(1,2)] by blast
  have fit: "\<forall>(g, w) \<in> V. fits dir g" using assms(2) by (auto simp: version_def)
  have good: "cache_good M dir (cm, w)" by (rule history_good [OF M fit assms(3)])
  have v: "fits dir g" "hash_meaning M cmd g (free_content dir w)" using assms(4) M fit by (auto simp: startable_def)
  note begun = startable_begin [OF assms(4) good v]
  have "cached_sched_ok P cmd ss (GraphParallelBuilder g p (Some cm) w)" using assms(4) by (simp add: startable_def)
  from cached_run_ends [OF begun this assms(5)] obtain b cm' where
    b: "build_run P ss (GraphParallelBuilder g p (Some cm) w) = Inr b" "b_pc b = Done" "b_cache b = Some cm'" and
    "b_result b = SUCCEEDED \<and> \<not> b_interrupted b \<longrightarrow> (\<forall>t \<in> T. content (b_world b) (path g t) = clean cmd g (free_content dir w) t)"
    by blast
  then show ?thesis using cache_history.build [OF assms(3,4) b(1,3)] by blast
qed

theorem cache_never_wrong_witness:
  "\<exists>b cm'. build_run example_params (disk_steps first_steps)
       (GraphParallelBuilder (tag_chain ''x'') first_plan (Some example_plain) (source_world ''x'')) = Inr b \<and>
     cache_history tag_versions ''cache'' example_cmd (cm', b_world b) \<and> content (b_world b) ''b'' = Some ''x1''"
proof -
  let ?g = "tag_chain ''x''" and ?w = "source_world ''x''"
  have ver: "\<forall>v \<in> tag_versions. version tag ''cache'' v" using tag_chain_version by simp
  obtain M where M: "\<forall>(g, w) \<in> tag_versions. hash_meaning M example_cmd g (free_content ''cache'' w)"
    using hashes_have_meaning [OF tag_collision_free ver] by blast
  have "\<forall>(g, w) \<in> tag_versions. fits ''cache'' g" using ver by (simp add: version_def)
  note good = history_good [OF M this tag_history]
  have plan: "BuildPlan 3 ?g {2} = Inr first_plan" "settled example_cmd ?g (free_content ''cache'' ?w)"
    "clean example_cmd ?g (free_content ''cache'' ?w) 2 = Some ''x1''" "0 < bp_numThreads example_params"
    "3 * card (p_rules first_plan) + 4 \<le> length (filter is_Step (disk_steps first_steps))" by code_simp+
  have dir: "cm_cacheFs example_plain = ''cache''" by (simp add: example_plain_def example_cm_def)
  have three: "Suc (length (g_rules ?g)) = 3" by (simp add: tag_chain_graph(1))
  have start: "startable tag_versions example_cmd ?g {2} first_plan example_params [] (example_plain, ?w)"
    unfolding startable_def using plan(1,2,4) tag_chain_inv [of "''x''"] three by (simp add: tag_chain_graph(2) dir)
  have v: "fits ''cache'' ?g" "hash_meaning M example_cmd ?g (free_content ''cache'' ?w)" using ver M by (simp_all add: version_def)
  note run = check_cached [OF startable_begin [OF start good v] first_steps_ok]
  then have "startable tag_versions example_cmd ?g {2} first_plan example_params (disk_steps first_steps) (example_plain, ?w)"
    using start by (simp add: startable_def)
  from cache_never_wrong [OF tag_collision_free ver tag_history this plan(5)] obtain b cm' where
    b: "build_run example_params (disk_steps first_steps) (GraphParallelBuilder ?g first_plan (Some example_plain) ?w) = Inr b"
    "cache_history tag_versions ''cache'' example_cmd (cm', b_world b)" and
    files: "b_result b = SUCCEEDED \<and> \<not> b_interrupted b \<longrightarrow>
      (\<forall>t \<in> {2}. content (b_world b) (path ?g t) = clean example_cmd ?g (free_content ''cache'' ?w) t)" by blast
  have "b_result b = SUCCEEDED \<and> \<not> b_interrupted b" using run b(1) by blast
  with files have "content (b_world b) ''b'' = Some ''x1''" by (simp only: tag_chain_graph(4) plan(3) ball_simps singleton_iff simp_thms)
  then show ?thesis using b by blast
qed

end
