(* ===== verification/Json_Automaton.thy ===== *)
theory Json_Automaton
  imports Json_Library
begin

text \<open>
  The two tables of the bundled JSON library, \<open>src/src/json/json.c\<close>, are checked against a small type system: every state
  belongs to a situation (the start, a value, a key, a string after so many hexadecimal digits, and so on), and every
  entry of the tables moves between situations that fit.
\<close>

section \<open>Types for the states\<close>

datatype situation = Start | After | InObject | InKey | Colon | Value | Array | Str nat | Literal | Number | Comment | NoState

fun situation_of :: "states \<Rightarrow> situation" where
  "situation_of STATE_GO = Start"
| "situation_of STATE_OK = After"
| "situation_of STATE__O = InObject"
| "situation_of STATE__K = InKey"
| "situation_of STATE_CO = Colon"
| "situation_of STATE__V = Value"
| "situation_of STATE__A = Array"
| "situation_of STATE__S = Str 0"
| "situation_of STATE_E0 = Str 0"
| "situation_of STATE_U1 = Str 0"
| "situation_of STATE_U2 = Str 1"
| "situation_of STATE_U3 = Str 2"
| "situation_of STATE_U4 = Str 3"
| "situation_of STATE_D1 = Str 0"
| "situation_of STATE_D2 = Str 0"
| "situation_of STATE_M0 = Number"
| "situation_of STATE_Z0 = Number"
| "situation_of STATE_I0 = Number"
| "situation_of STATE_R1 = Number"
| "situation_of STATE_R2 = Number"
| "situation_of STATE_X1 = Number"
| "situation_of STATE_X2 = Number"
| "situation_of STATE_X3 = Number"
| "situation_of STATE_T1 = Literal"
| "situation_of STATE_T2 = Literal"
| "situation_of STATE_T3 = Literal"
| "situation_of STATE_F1 = Literal"
| "situation_of STATE_F2 = Literal"
| "situation_of STATE_F3 = Literal"
| "situation_of STATE_F4 = Literal"
| "situation_of STATE_N1 = Literal"
| "situation_of STATE_N2 = Literal"
| "situation_of STATE_N3 = Literal"
| "situation_of STATE_C1 = Comment"
| "situation_of STATE_C2 = Comment"
| "situation_of STATE_C3 = Comment"
| "situation_of STATE_Y1 = Comment"
| "situation_of _ = NoState"

definition hex_classes :: "classes set" where
  "hex_classes = {C_ZERO, C_DIGIT, C_a, C_b, C_c, C_d, C_e, C_f, C_ABCDF, C_E}"

text \<open>Moves without an action.\<close>

definition goto_ok :: "situation \<Rightarrow> situation \<Rightarrow> nat \<Rightarrow> classes \<Rightarrow> bool" where
  "goto_ok s t pol c \<longleftrightarrow>
     (case (s, t) of
        (Str k, Str j) \<Rightarrow> j = 0 \<or> j = Suc k \<and> pol = 1 \<and> c \<in> hex_classes
      | (Number, Number) \<Rightarrow> True
      | _ \<Rightarrow> pol = 0 \<and> (s = t \<and> s \<noteq> NoState \<or> (s, t) \<in> {(Number, After), (Value, Literal), (Array, Literal), (Value, Str 0), (Array, Str 0),
              (InObject, Str 0), (InKey, Str 0)}))"

text \<open>Moves with an action.\<close>

definition action_ok :: "situation \<Rightarrow> states \<Rightarrow> nat \<Rightarrow> classes \<Rightarrow> bool" where
  "action_ok s a pol c \<longleftrightarrow>
     (if a = STATE_KS then s = Colon \<and> pol = 0
      else if a = STATE_SP then s \<in> {After, Number} \<and> pol = 0
      else if a = STATE_AE then s \<in> {After, Number, Array} \<and> pol = 0
      else if a = STATE_OE then s \<in> {After, Number, InObject} \<and> pol = 0
      else if a = STATE_AB then s \<in> {Start, Value, Array} \<and> pol = 0 \<and> c = C_LSQRB
      else if a = STATE_OB then s \<in> {Start, Value, Array} \<and> pol = 0 \<and> c = C_LCURB
      else if a \<in> {STATE_CB, STATE_YB} then s \<in> {Start, After, InObject, InKey, Colon, Value, Array, Number} \<and> pol = 0
      else if a = STATE_CE then s = Comment \<and> pol = 0
      else if a \<in> {STATE_FA, STATE_TR, STATE_NU} then s = Literal \<and> pol = 0
      else if a \<in> {STATE_DE, STATE_DF} then s = Number \<and> pol = 1
      else if a = STATE_SE then s = Str 0 \<and> pol = 0
      else if a \<in> {STATE_MX, STATE_ZX, STATE_IX} then s \<in> {Value, Array} \<and> pol = 1
      else if a = STATE_UC then s = Str 3 \<and> pol = 1 \<and> c \<in> hex_classes
      else False)"

definition entry_ok :: "states \<Rightarrow> classes \<Rightarrow> bool" where
  "entry_ok s c \<longleftrightarrow> (\<exists>t pol. table_entry (state_transition_table s) c = Inr t \<and> table_entry (buffer_policy_table s) c = Inr pol \<and>
     (t = STATE_ERR \<or> (if IS_STATE_ACTION t then action_ok (situation_of s) t pol c else goto_ok (situation_of s) (situation_of t) pol c)))"

lemma entry_ok_eval:
  "entry_ok s c \<longleftrightarrow> (case table_entry (state_transition_table s) c of Inl e \<Rightarrow> False
     | Inr t \<Rightarrow> (case table_entry (buffer_policy_table s) c of Inl e \<Rightarrow> False
       | Inr pol \<Rightarrow> t = STATE_ERR \<or> (if IS_STATE_ACTION t then action_ok (situation_of s) t pol c else goto_ok (situation_of s) (situation_of t) pol c)))"
  by (auto simp: entry_ok_def split: sum.splits)

text \<open>Every entry of the tables has a type.\<close>

lemma tables_typed:
  assumes "situation_of s \<noteq> NoState" "c \<noteq> C_ERROR"
  shows "entry_ok s c"
proof -
  note eval = entry_ok_eval table_entry_def IS_STATE_ACTION_def actions_def action_ok_def goto_ok_def hex_classes_def
  show ?thesis using assms by (cases s; cases c; simp add: eval)
qed



end
