(* ===== verification/Json_Safety.thy ===== *)
theory Json_Safety
  imports Json_Automaton Json_Roundtrip
begin

text \<open>
  Memory safety of the bundled JSON parser, \<open>src/src/json/json.c\<close>, for arbitrary input. The situations of the states
  determine what the actions rely on: that the stacks are not empty, that the key on top of the stack was not freed, and
  that there are four digits to decode.
\<close>

section \<open>The invariant\<close>

text \<open>What matters of the tree under construction are the keys on its stack.\<close>

definition keys :: "JsonVal json_parser_dom \<Rightarrow> dom_key list" where
  "keys d = map se_key (dom_stack d)"

definition dom_ok :: "JsonVal json_parser_dom \<Rightarrow> bool" where
  "dom_ok d \<longleftrightarrow> dom_stack_size d = 1024 \<and> dom_block d = 1024 * stack_elem_size \<and> dom_create_structure d = tree_create_structure \<and>
     dom_create_data d = tree_create_data \<and> dom_append d = tree_append"

abbreviation kstack :: "JsonParser \<Rightarrow> dom_key list" where
  "kstack p \<equiv> keys (jp_userdata p)"

text \<open>The two stacks agree: an array has no key, and only the key of the innermost structure can have been freed.\<close>

definition stacks_ok :: "mode list \<Rightarrow> dom_key list \<Rightarrow> bool" where
  "stacks_ok ms ks \<longleftrightarrow> list_all2 (\<lambda>m k. m = MODE_ARRAY \<longrightarrow> k = KeyNull) ms ks \<and> (\<forall>k \<in> set (butlast ks). k \<noteq> KeyFreed)"

definition sizes_ok :: "nat \<Rightarrow> JsonParser \<Rightarrow> bool" where
  "sizes_ok N p \<longleftrightarrow> jc_max_data (jp_config p) = 0 \<and> jc_max_nesting (jp_config p) = 0 \<and> jp_callback p = Some json_parser_dom_callback \<and>
     length (jp_buffer p) < jp_buffer_size p \<and> jp_buffer_size p \<in> power 2 ` {..31} \<and> length (jp_buffer p) \<le> N \<and>
     length (jp_stack p) \<le> jp_stack_size p \<and> jp_stack_size p \<in> power 2 ` {..31} \<and> length (jp_stack p) \<le> 1024"

definition live_top :: "dom_key list \<Rightarrow> bool" where
  "live_top ks \<longleftrightarrow> ks \<noteq> [] \<and> last ks \<noteq> KeyFreed"

text \<open>The last characters of the buffer are digits of a Unicode escape, or at least in the table of the digits.\<close>

definition ascii_tail :: "nat \<Rightarrow> string \<Rightarrow> bool" where
  "ascii_tail k buf \<longleftrightarrow> k \<le> length buf \<and> (\<forall>c \<in> set (drop (length buf - k) buf). (of_char c :: nat) < 128)"

lemma ascii_tail_0 [simp]: "ascii_tail 0 buf"
  by (simp add: ascii_tail_def)

lemma ascii_tail_Suc: "ascii_tail k buf \<Longrightarrow> (of_char c :: nat) < 128 \<Longrightarrow> ascii_tail (Suc k) (buf @ [c])"
  by (auto simp: ascii_tail_def Suc_diff_le)

text \<open>What holds in a situation: whether a key is expected, the type of a pending value, and the keys.\<close>

fun holds :: "situation \<Rightarrow> bool \<Rightarrow> json_type \<Rightarrow> string \<Rightarrow> dom_key list \<Rightarrow> bool" where
  "holds Start ek ty buf ks \<longleftrightarrow> \<not> ek \<and> ty = JSON_NONE \<and> ks = []"
| "holds After ek ty buf ks \<longleftrightarrow> \<not> ek \<and> (ty = JSON_NONE \<or> ty \<in> data_types \<and> live_top ks)"
| "holds InObject ek ty buf ks \<longleftrightarrow> ek \<and> ty = JSON_NONE \<and> ks \<noteq> []"
| "holds InKey ek ty buf ks \<longleftrightarrow> ek \<and> ty = JSON_NONE \<and> ks \<noteq> []"
| "holds (Str k) ek ty buf ks \<longleftrightarrow> ty = JSON_NONE \<and> ks \<noteq> [] \<and> (\<not> ek \<longrightarrow> live_top ks) \<and> ascii_tail k buf"
| "holds Number ek ty buf ks \<longleftrightarrow> \<not> ek \<and> ty \<in> data_types \<and> live_top ks"
| "holds Comment ek ty buf ks \<longleftrightarrow> False"
| "holds NoState ek ty buf ks \<longleftrightarrow> False"
| "holds _ ek ty buf ks \<longleftrightarrow> \<not> ek \<and> ty = JSON_NONE \<and> live_top ks"

definition saved :: "states \<Rightarrow> situation" where
  "saved s = (if s \<in> {STATE_GO, STATE_OK, STATE__O, STATE__K, STATE_CO, STATE__V, STATE__A} then situation_of s else After)"

definition situated :: "JsonParser \<Rightarrow> bool" where
  "situated p \<longleftrightarrow>
     (if situation_of (jp_state p) = Comment
      then jp_type p = JSON_NONE \<and> holds (saved (jp_save_state p)) (jp_expecting_key p) JSON_NONE [] (kstack p)
      else holds (situation_of (jp_state p)) (jp_expecting_key p) (jp_type p) (jp_buffer p) (kstack p))"

text \<open>A key is expected only in an object.\<close>

definition in_object :: "JsonParser \<Rightarrow> bool" where
  "in_object p \<longleftrightarrow> (jp_expecting_key p \<longrightarrow> jp_stack p \<noteq> [] \<and> last (jp_stack p) = MODE_OBJECT)"

definition safe :: "nat \<Rightarrow> JsonParser \<Rightarrow> bool" where
  "safe N p \<longleftrightarrow> sizes_ok N p \<and> dom_ok (jp_userdata p) \<and> stacks_ok (jp_stack p) (kstack p) \<and> situated p \<and> in_object p"

text \<open>An operation that neither leaves its memory nor breaks the invariant, whatever error code it returns; \<open>R\<close> is what
  holds after the only error code that the caller ignores.\<close>

definition ok :: "(JsonParser \<Rightarrow> bool) \<Rightarrow> (JsonParser \<Rightarrow> bool) \<Rightarrow> (int \<times> JsonParser) result \<Rightarrow> bool" where
  "ok Q R r \<longleftrightarrow> (\<exists>ret p. r = Inr (ret, p) \<and> (ret = 0 \<longrightarrow> Q p) \<and> (ret = JSON_ERROR_POP_EMPTY \<longrightarrow> R p))"

lemma ok_CHK: "ok Q' R (f p) \<Longrightarrow> (\<And>p'. Q' p' \<Longrightarrow> ok Q R (k p')) \<Longrightarrow> ok Q R (CHK f k p)"
  by (auto simp: ok_def CHK_def)

lemma ok_Inr: "ok Q R (Inr (ret, p)) \<longleftrightarrow> (ret = 0 \<longrightarrow> Q p) \<and> (ret = JSON_ERROR_POP_EMPTY \<longrightarrow> R p)"
  by (simp add: ok_def)

lemma ok_return [simp]: "ok Q R (Inr (0, p)) \<longleftrightarrow> Q p"
  by (simp add: ok_def)

lemma ok_code: "ret \<noteq> 0 \<Longrightarrow> ret \<noteq> JSON_ERROR_POP_EMPTY \<Longrightarrow> ok Q R (Inr (ret, p))"
  by (simp add: ok_def)

lemma ok_mono: "ok Q R r \<Longrightarrow> (\<And>p. Q p \<Longrightarrow> Q' p) \<Longrightarrow> (\<And>p. R p \<Longrightarrow> R' p) \<Longrightarrow> ok Q' R' r"
  by (auto simp: ok_def)

section \<open>Buffers and stacks\<close>

lemma buffer_push_ok:
  assumes "sizes_ok N p" "N + 1 < 2 ^ 31"
  shows "ok (\<lambda>p'. \<exists>n. p' = p\<lparr>jp_buffer_size := n, jp_buffer := jp_buffer p @ [c]\<rparr> \<and> sizes_ok (N + 1) p') R (buffer_push c p)"
proof -
  let ?n = "length (jp_buffer p)" and ?size = "jp_buffer_size p"
  have n: "?n + 1 < 2 ^ 31" using assms by (simp add: sizes_ok_def)
  then have small: "(?n + 1) mod 2 ^ 32 = ?n + 1" by simp
  have size: "?size \<in> power 2 ` {..31}" "?n < ?size" "jc_max_data (jp_config p) = 0" using assms(1) by (simp_all add: sizes_ok_def)
  show ?thesis
  proof (cases "?n + 1 \<ge> ?size")
    case True
    note grow = grow_power [OF size(1) True n]
    show ?thesis
    proof (cases "jc_mem (jp_config p) (?size * 2)")
      case mem: True
      have "buffer_push c p = Inr (0, p\<lparr>jp_buffer_size := ?size * 2, jp_buffer := jp_buffer p @ [c]\<rparr>)"
        using True mem size small grow unfolding buffer_push_def CHK_def buffer_grow_def buffer_store_def by (simp add: Let_def del: One_nat_def)
      moreover have "sizes_ok (N + 1) (p\<lparr>jp_buffer_size := ?size * 2, jp_buffer := jp_buffer p @ [c]\<rparr>)"
        using assms(1) grow(1,2) size by (auto simp: sizes_ok_def)
      ultimately show ?thesis by auto
    next
      case False
      then have "buffer_push c p = Inr (JSON_ERROR_NO_MEMORY, p)"
        using True size small grow unfolding buffer_push_def CHK_def buffer_grow_def by (simp add: Let_def del: One_nat_def)
      then show ?thesis by (simp add: ok_code)
    qed
  next
    case False
    then have "buffer_push c p = Inr (0, p\<lparr>jp_buffer := jp_buffer p @ [c]\<rparr>)"
      using small unfolding buffer_push_def CHK_def buffer_store_def by simp
    moreover have "sizes_ok (N + 1) (p\<lparr>jp_buffer := jp_buffer p @ [c]\<rparr>)" using assms(1) False by (auto simp: sizes_ok_def)
    ultimately show ?thesis by (auto intro: exI [of _ ?size])
  qed
qed

lemma state_push_ok:
  assumes "sizes_ok N p" "length (jp_stack p) < 1024"
  shows "ok (\<lambda>p'. \<exists>n. p' = p\<lparr>jp_stack_size := n, jp_stack := jp_stack p @ [m]\<rparr> \<and> sizes_ok N p') R (state_push m p)"
proof -
  let ?n = "length (jp_stack p)" and ?size = "jp_stack_size p"
  have size: "?size \<in> power 2 ` {..31}" "?n \<le> ?size" "jc_max_nesting (jp_config p) = 0" using assms(1) by (simp_all add: sizes_ok_def)
  show ?thesis
  proof (cases "?n \<ge> ?size")
    case True
    have "?n < 2 ^ 31" using assms(2) by simp
    note grow = grow_power [OF size(1) True this]
    show ?thesis
    proof (cases "jc_mem (jp_config p) (?size * 2)")
      case mem: True
      have "state_push m p = Inr (0, p\<lparr>jp_stack_size := ?size * 2, jp_stack := jp_stack p @ [m]\<rparr>)"
        using True mem size grow unfolding state_push_def CHK_def state_grow_def by (simp add: Let_def)
      moreover have "sizes_ok N (p\<lparr>jp_stack_size := ?size * 2, jp_stack := jp_stack p @ [m]\<rparr>)"
        using assms grow size True by (auto simp: sizes_ok_def)
      ultimately show ?thesis by auto
    next
      case False
      then have "state_push m p = Inr (JSON_ERROR_NO_MEMORY, p)"
        using True size grow unfolding state_push_def CHK_def state_grow_def by (simp add: Let_def)
      then show ?thesis by (simp add: ok_code)
    qed
  next
    case False
    then have "state_push m p = Inr (0, p\<lparr>jp_stack := jp_stack p @ [m]\<rparr>)" unfolding state_push_def CHK_def by simp
    moreover have "sizes_ok N (p\<lparr>jp_stack := jp_stack p @ [m]\<rparr>)" using assms False by (auto simp: sizes_ok_def)
    ultimately show ?thesis by (auto intro: exI [of _ ?size])
  qed
qed

section \<open>Callbacks\<close>

text \<open>The keys after the innermost structure got a value.\<close>

definition used_top :: "dom_key list \<Rightarrow> dom_key list" where
  "used_top ks = (if ks = [] then [] else butlast ks @ [case last ks of KeyNull \<Rightarrow> KeyNull | _ \<Rightarrow> KeyFreed])"

lemma append_top_keys:
  assumes "dom_ok d" "live_top (keys d)"
  shows "\<exists>d1 d'. dom_append_top v d = Inr (0, d1) \<and> free_key d1 = Inr d' \<and> dom_ok d' \<and> keys d' = used_top (keys d)"
proof -
  obtain es e where es: "dom_stack d = es @ [e]" using assms(2) by (cases "dom_stack d" rule: rev_cases) (auto simp: live_top_def keys_def)
  then have "se_key e \<noteq> KeyFreed" using assms(2) by (simp add: live_top_def keys_def)
  then show ?thesis using assms(1)
    by (cases "se_key e") (auto simp: dom_append_top_def free_key_def set_key_def tree_append_def Let_def es dom_ok_def keys_def used_top_def)
qed

lemma cb_data:
  assumes "dom_ok d" "live_top (keys d)" "ty \<in> data_types"
  shows "\<exists>d'. json_parser_dom_callback d ty buf = Inr (0, d') \<and> dom_ok d' \<and> keys d' = used_top (keys d)"
proof -
  obtain v where v: "tree_create_data ty buf = Some v" by (simp add: tree_create_data_def)
  from append_top_keys [OF assms(1,2), of v] obtain d1 d' where d:
    "dom_append_top v d = Inr (0, d1)" "free_key d1 = Inr d'" "dom_ok d'" "keys d' = used_top (keys d)" by blast
  have "dom_create_data d = tree_create_data" using assms(1) by (simp add: dom_ok_def)
  then have "json_parser_dom_callback d ty buf = Inr (0, d')"
    using assms(3) v d(1,2) by (auto simp: json_parser_dom_callback_def data_types_def)
  with d show ?thesis by blast
qed

lemma cb_key:
  assumes "dom_ok d" "keys d \<noteq> []"
  shows "\<exists>ret d'. json_parser_dom_callback d JSON_KEY buf = Inr (ret, d') \<and> ret \<in> {0, JSON_ERROR_NO_MEMORY} \<and> dom_ok d' \<and>
    (ret = 0 \<longrightarrow> keys d' = butlast (keys d) @ [Key buf])"
  using assms by (auto simp: json_parser_dom_callback_def dom_ok_def keys_def set_key_def map_butlast)

lemma cb_begin:
  assumes "dom_ok d" "length (keys d) < 1024" "ty \<in> {JSON_ARRAY_BEGIN, JSON_OBJECT_BEGIN}"
  shows "\<exists>d'. json_parser_dom_callback d ty [] = Inr (0, d') \<and> dom_ok d' \<and> keys d' = keys d @ [KeyNull]"
  using assms by (auto simp: json_parser_dom_callback_def dom_ok_def tree_create_structure_def dom_push_def Let_def keys_def)

lemma cb_end:
  assumes "dom_ok d" "keys d = ks @ [k]" "ks \<noteq> [] \<longrightarrow> last ks \<noteq> KeyFreed" "ty \<in> {JSON_ARRAY_END, JSON_OBJECT_END}"
  shows "\<exists>d'. json_parser_dom_callback d ty [] = Inr (0, d') \<and> dom_ok d' \<and> keys d' = used_top ks"
proof -
  obtain es e where es: "dom_stack d = es @ [e]" "map se_key es = ks"
    using assms(2) by (cases "dom_stack d" rule: rev_cases) (auto simp: keys_def)
  let ?d = "d\<lparr>dom_stack := es\<rparr>"
  have pop: "dom_pop d = Inr (se_val e, ?d)" by (simp add: dom_pop_def es)
  have d: "dom_ok ?d" "keys ?d = ks" using assms(1) es by (simp_all add: dom_ok_def keys_def)
  show ?thesis
  proof (cases "ks = []")
    case True
    then have "es = []" using es by simp
    then show ?thesis using assms(1,4) pop True by (auto simp: json_parser_dom_callback_def dom_ok_def keys_def used_top_def)
  next
    case False
    then have "live_top (keys ?d)" "es \<noteq> []" using d(2) assms(3) es by (auto simp: live_top_def)
    with append_top_keys [OF d(1), of "se_val e"] show ?thesis using assms(4) pop d(2) by (fastforce simp: json_parser_dom_callback_def)
  qed
qed

section \<open>Flushing a value\<close>

lemma used_top_length [simp]: "length (used_top ks) = length ks"
  by (simp add: used_top_def)

lemma list_all2_snoc [simp]: "list_all2 P (xs @ [x]) (ys @ [y]) \<longleftrightarrow> list_all2 P xs ys \<and> P x y"
  by (cases "length xs = length ys") (auto simp: list_all2_append dest: list_all2_lengthD)

lemma stacks_ok_length: "stacks_ok ms ks \<Longrightarrow> length ms = length ks"
  by (auto simp: stacks_ok_def dest: list_all2_lengthD)

lemma stacks_ok_snoc:
  "stacks_ok (ms @ [m]) (ks @ [k]) \<longleftrightarrow> list_all2 (\<lambda>m k. m = MODE_ARRAY \<longrightarrow> k = KeyNull) ms ks \<and> (m = MODE_ARRAY \<longrightarrow> k = KeyNull) \<and> KeyFreed \<notin> set ks"
  by (auto simp: stacks_ok_def)

lemma used_top_snoc [simp]: "used_top (ks @ [k]) = ks @ [case k of KeyNull \<Rightarrow> KeyNull | _ \<Rightarrow> KeyFreed]"
  by (simp add: used_top_def)

lemma used_top_stacks [simp]: "stacks_ok ms ks \<Longrightarrow> stacks_ok ms (used_top ks)"
proof (cases ks rule: rev_cases)
  case (snoc ks' k)
  assume "stacks_ok ms ks"
  with snoc show ?thesis by (cases ms rule: rev_cases) (auto simp: stacks_ok_snoc split: dom_key.splits dest: stacks_ok_length)
qed (simp add: used_top_def)

definition core :: "nat \<Rightarrow> JsonParser \<Rightarrow> bool" where
  "core N p \<longleftrightarrow> sizes_ok N p \<and> dom_ok (jp_userdata p) \<and> stacks_ok (jp_stack p) (kstack p)"

lemma safe_core: "safe N p \<longleftrightarrow> core N p \<and> situated p \<and> in_object p"
  by (auto simp: safe_def core_def)

definition waiting :: "JsonParser \<Rightarrow> bool" where
  "waiting p \<longleftrightarrow> jp_type p = JSON_NONE \<or> jp_type p \<in> data_types \<and> live_top (kstack p)"

lemma do_buffer_ok:
  assumes "core N p" "waiting p"
  shows "\<exists>d. do_buffer p = Inr (0, p\<lparr>jp_userdata := d, jp_buffer := []\<rparr>) \<and> dom_ok d \<and>
     keys d = (if jp_type p = JSON_NONE then kstack p else used_top (kstack p)) \<and> core N (p\<lparr>jp_userdata := d, jp_buffer := []\<rparr>)"
proof (cases "jp_type p = JSON_NONE")
  case True
  then have "do_buffer p = Inr (0, p\<lparr>jp_userdata := jp_userdata p, jp_buffer := []\<rparr>)" by (simp add: do_buffer_def CHK_def)
  then show ?thesis using assms(1) True by (intro exI [of _ "jp_userdata p"]) (auto simp: core_def sizes_ok_def)
next
  case False
  then have ty: "jp_type p \<in> data_types" "live_top (kstack p)" using assms(2) by (auto simp: waiting_def)
  have "dom_ok (jp_userdata p)" using assms(1) by (simp add: core_def)
  from cb_data [OF this ty(2,1), of "jp_buffer p"] obtain d where
    d: "json_parser_dom_callback (jp_userdata p) (jp_type p) (jp_buffer p) = Inr (0, d)" "dom_ok d" "keys d = used_top (kstack p)" by blast
  have "do_buffer p = Inr (0, p\<lparr>jp_userdata := d, jp_buffer := []\<rparr>)"
    using d(1) ty assms(1) by (auto simp: do_buffer_def CHK_def do_callback_withbuf_def core_def sizes_ok_def data_types_def)
  then show ?thesis using d(2,3) False assms(1) by (intro exI [of _ d]) (auto simp: core_def sizes_ok_def)
qed

section \<open>Actions\<close>

text \<open>The result of a step: the invariant, with a stack that is not higher than before.\<close>

definition lower :: "nat \<Rightarrow> nat \<Rightarrow> JsonParser \<Rightarrow> bool" where
  "lower N D p \<longleftrightarrow> safe N p \<and> length (jp_stack p) \<le> D"

lemmas action_defs = do_action_def CHK_def action_descr_def

lemma sizes_ok_cong [simp]:
  "sizes_ok N (p\<lparr>jp_state := s\<rparr>) = sizes_ok N p" "sizes_ok N (p\<lparr>jp_type := ty\<rparr>) = sizes_ok N p"
  "sizes_ok N (p\<lparr>jp_expecting_key := b\<rparr>) = sizes_ok N p" "sizes_ok N (p\<lparr>jp_save_state := s\<rparr>) = sizes_ok N p"
  "sizes_ok N (p\<lparr>jp_userdata := d\<rparr>) = sizes_ok N p" "sizes_ok N (p\<lparr>jp_utf8_multibyte_left := k\<rparr>) = sizes_ok N p"
  "sizes_ok N (p\<lparr>jp_unicode_multi := k\<rparr>) = sizes_ok N p"
  by (simp_all add: sizes_ok_def)

lemma json_core_cong [simp]:
  "core N (p\<lparr>jp_state := s\<rparr>) = core N p" "core N (p\<lparr>jp_type := ty\<rparr>) = core N p" "core N (p\<lparr>jp_expecting_key := b\<rparr>) = core N p"
  "core N (p\<lparr>jp_save_state := s\<rparr>) = core N p" "core N (p\<lparr>jp_utf8_multibyte_left := k\<rparr>) = core N p"
  "core N (p\<lparr>jp_unicode_multi := k\<rparr>) = core N p"
  by (simp_all add: core_def)

lemma sizes_shrink: "sizes_ok N p \<Longrightarrow> sizes_ok N (p\<lparr>jp_stack := butlast (jp_stack p)\<rparr>)"
  by (auto simp: sizes_ok_def)

lemma array_top_live: "stacks_ok ms ks \<Longrightarrow> ms \<noteq> [] \<Longrightarrow> last ms \<noteq> MODE_OBJECT \<Longrightarrow> live_top ks"
  by (cases ms rule: rev_cases; cases ks rule: rev_cases) (auto simp: stacks_ok_snoc live_top_def dest: stacks_ok_length, (metis mode.exhaust)+)

lemma action_SP:
  assumes "core N p" "waiting p" "\<not> jp_expecting_key p"
  shows "ok (lower N (length (jp_stack p))) R (do_action STATE_SP p)"
proof -
  from do_buffer_ok [OF assms(1,2)] obtain d where d: "do_buffer p = Inr (0, p\<lparr>jp_userdata := d, jp_buffer := []\<rparr>)"
    "core N (p\<lparr>jp_userdata := d, jp_buffer := []\<rparr>)" by blast
  have "stacks_ok (jp_stack p) (keys d)" using d(2) by (simp add: core_def)
  note top = array_top_live [OF this] stacks_ok_length [OF this]
  show ?thesis using d assms(3) top
    by (auto simp: action_defs act_sp_def ok_code lower_def safe_core situated_def in_object_def)
qed

lemma action_end:
  assumes "safe N p" "situation_of (jp_state p) \<in> {After, Number, Array, InObject}"
    "(a, m, ty) \<in> {(STATE_AE, MODE_ARRAY, JSON_ARRAY_END), (STATE_OE, MODE_OBJECT, JSON_OBJECT_END)}" "m = MODE_ARRAY \<longrightarrow> situation_of (jp_state p) \<noteq> InObject"
  shows "ok (lower N (length (jp_stack p))) (lower N (length (jp_stack p))) (do_action a p)"
proof -
  let ?p = "\<lambda>d. p\<lparr>jp_userdata := d, jp_buffer := []\<rparr>"
  have p: "core N p" "waiting p" using assms(1,2) by (auto simp: safe_core situated_def in_object_def waiting_def)
  from do_buffer_ok [OF p] obtain d where d: "do_buffer p = Inr (0, ?p d)" "core N (?p d)" "dom_ok d"
    "keys d = (if jp_type p = JSON_NONE then kstack p else used_top (kstack p))" by blast
  have st: "stacks_ok (jp_stack p) (keys d)" "length (jp_stack p) = length (kstack p)"
    using d(2) p(1) by (simp_all add: core_def stacks_ok_length)
  show ?thesis
  proof (cases "jp_stack p" rule: rev_cases)
    case Nil
    then have ks: "kstack p = []" using st by simp
    then have "situation_of (jp_state p) = After" "jp_type p = JSON_NONE" "\<not> jp_expecting_key p"
      using assms(1,2) by (auto simp: safe_def situated_def in_object_def live_top_def)
    then have "situated (?p d)" using d(4) ks by (simp add: situated_def in_object_def)
    then have "lower N (length (jp_stack p)) (?p d)" using d(2) assms(1) by (simp add: lower_def safe_core in_object_def)
    then show ?thesis using d(1) Nil assms(3)
      by (auto simp: action_defs act_ae_def act_oe_def state_pop_def ok_def)
  next
    case (snoc ms m')
    then obtain ks k where ks: "keys d = ks @ [k]" using st by (cases "keys d" rule: rev_cases) (auto dest: stacks_ok_length)
    have free: "list_all2 (\<lambda>m k. m = MODE_ARRAY \<longrightarrow> k = KeyNull) ms ks" "KeyFreed \<notin> set ks"
      using st(1) by (simp_all add: snoc ks stacks_ok_snoc)
    then have below: "ks \<noteq> [] \<longrightarrow> last ks \<noteq> KeyFreed" using last_in_set by metis
    have "ty \<in> {JSON_ARRAY_END, JSON_OBJECT_END}" using assms(3) by auto
    from cb_end [OF d(3) ks below this] obtain d' where
      d': "json_parser_dom_callback d ty [] = Inr (0, d')" "dom_ok d'" "keys d' = used_top ks" by blast
    have sizes: "sizes_ok N (?p d)" "jp_callback p = Some json_parser_dom_callback" using d(2) by (auto simp: core_def sizes_ok_def)
    have stk: "stacks_ok ms (used_top ks)"
      using free by (intro used_top_stacks) (auto simp: stacks_ok_def dest: in_set_butlastD)
    have ek: "m = MODE_ARRAY \<Longrightarrow> \<not> jp_expecting_key p" using assms by (auto simp: safe_def situated_def in_object_def)
    show ?thesis using assms(3) sizes_shrink [OF sizes(1)] ek d'
      by (auto simp: action_defs d(1) act_ae_def act_oe_def state_pop_def snoc do_callback_def sizes(2) ok_code lower_def safe_def
          situated_def in_object_def stk sizes_ok_def)
  qed
qed

lemma action_begin:
  assumes "core N p" "jp_type p = JSON_NONE" "\<not> jp_expecting_key p" "kstack p = [] \<or> live_top (kstack p)" "length (jp_stack p) < 1024"
    "(a, ty, m) \<in> {(STATE_AB, JSON_ARRAY_BEGIN, MODE_ARRAY), (STATE_OB, JSON_OBJECT_BEGIN, MODE_OBJECT)}"
  shows "ok (lower N (Suc (length (jp_stack p)))) R (do_action a p)"
proof -
  have p: "dom_ok (jp_userdata p)" "sizes_ok N p" "stacks_ok (jp_stack p) (kstack p)" "jp_callback p = Some json_parser_dom_callback"
    "length (kstack p) < 1024" using assms(1,5) by (auto simp: core_def sizes_ok_def dest: stacks_ok_length)
  have "ty \<in> {JSON_ARRAY_BEGIN, JSON_OBJECT_BEGIN}" using assms(6) by auto
  from cb_begin [OF p(1,5) this] obtain d where
    d: "json_parser_dom_callback (jp_userdata p) ty [] = Inr (0, d)" "dom_ok d" "keys d = kstack p @ [KeyNull]" by blast
  let ?p = "p\<lparr>jp_userdata := d\<rparr>"
  have cb: "do_callback ty p = Inr (0, ?p)" using d(1) p(4) by (simp add: do_callback_def)
  have "KeyFreed \<notin> set (kstack p)"
    using p(3) assms(4) by (cases "kstack p" rule: rev_cases) (auto simp: stacks_ok_def live_top_def)
  then have st: "stacks_ok (jp_stack p @ [m]) (keys d)" using p(3) d(3) by (simp add: stacks_ok_snoc) (simp add: stacks_ok_def)
  have "ok (\<lambda>p'. \<exists>n. p' = ?p\<lparr>jp_stack_size := n, jp_stack := jp_stack ?p @ [m]\<rparr> \<and> sizes_ok N p') R (state_push m ?p)"
    by (rule state_push_ok) (use p(2) assms(5) in simp_all)
  then obtain ret q where q: "state_push m ?p = Inr (ret, q)" "ret = JSON_ERROR_POP_EMPTY \<longrightarrow> R q"
    "ret = 0 \<longrightarrow> (\<exists>n. q = ?p\<lparr>jp_stack_size := n, jp_stack := jp_stack ?p @ [m]\<rparr> \<and> sizes_ok N q)" by (auto simp: ok_def)
  show ?thesis using assms(2,3,6) q st d(2,3) cb
    by (cases "ret = 0") (auto simp: action_defs act_ab_def act_ob_def ok_Inr lower_def safe_def situated_def in_object_def live_top_def)
qed

text \<open>A comment starts: a value is flushed, and the state after the comment is the one before it, or \<open>STATE_OK\<close>.\<close>

lemma action_comment:
  assumes "safe N p" "situation_of (jp_state p) \<in> {Start, After, InObject, InKey, Colon, Value, Array, Number}" "a \<in> {STATE_CB, STATE_YB}"
  shows "ok (lower N (length (jp_stack p))) R (do_action a p)"
proof -
  let ?p = "\<lambda>d. p\<lparr>jp_userdata := d, jp_buffer := []\<rparr>"
  have p: "core N p" "waiting p" using assms(1,2) by (auto simp: safe_core situated_def in_object_def waiting_def)
  from do_buffer_ok [OF p] obtain d where d: "do_buffer p = Inr (0, ?p d)" "core N (?p d)"
    "keys d = (if jp_type p = JSON_NONE then kstack p else used_top (kstack p))" by blast
  have "holds (saved (jp_state p)) (jp_expecting_key p) JSON_NONE [] (keys d)"
    using assms(1,2) d(3) by (cases "jp_state p") (auto simp: safe_def situated_def in_object_def saved_def)
  moreover have "in_object p" using assms(1) by (simp add: safe_def)
  ultimately show ?thesis using d(1,2) assms(3)
    by (auto simp: action_defs act_cb_def act_yb_def ok_code lower_def safe_core situated_def in_object_def)
qed

lemma action_CE:
  assumes "safe N p" "situation_of (jp_state p) = Comment"
  shows "ok (lower N (length (jp_stack p))) R (do_action STATE_CE p)"
  using assms by (auto simp: action_defs act_ce_def lower_def safe_core situated_def in_object_def saved_def split: if_splits)

lemma action_value:
  assumes "core N p" "\<not> jp_expecting_key p" "live_top (kstack p)"
    "a \<in> {STATE_FA, STATE_TR, STATE_NU, STATE_DE, STATE_DF, STATE_MX, STATE_ZX, STATE_IX}"
  shows "ok (lower N (length (jp_stack p))) R (do_action a p)"
  using assms by (auto simp: action_defs lower_def safe_core situated_def in_object_def data_types_def)

lemma action_KS:
  assumes "core N p" "\<not> jp_expecting_key p" "live_top (kstack p)"
  shows "ok (lower N (length (jp_stack p))) R (do_action STATE_KS p)"
  using assms by (auto simp: action_defs lower_def safe_core situated_def in_object_def)

lemma action_SE:
  assumes "core N p" "kstack p \<noteq> []" "\<not> jp_expecting_key p \<longrightarrow> live_top (kstack p)" "in_object p"
  shows "ok (lower N (length (jp_stack p))) R (do_action STATE_SE p)"
proof -
  have p: "dom_ok (jp_userdata p)" "sizes_ok N p" "stacks_ok (jp_stack p) (kstack p)" "jp_callback p = Some json_parser_dom_callback"
    "length (jp_buffer p) < jp_buffer_size p" using assms(1) by (auto simp: core_def sizes_ok_def)
  show ?thesis
  proof (cases "jp_expecting_key p")
    case True
    from cb_key [OF p(1) assms(2), of "jp_buffer p"] obtain ret d where
      d: "json_parser_dom_callback (jp_userdata p) JSON_KEY (jp_buffer p) = Inr (ret, d)" "ret \<in> {0, JSON_ERROR_NO_MEMORY}" "dom_ok d"
      "ret = 0 \<longrightarrow> keys d = butlast (kstack p) @ [Key (jp_buffer p)]" by blast
    obtain ks k where ks: "kstack p = ks @ [k]" using assms(2) by (cases "kstack p" rule: rev_cases) auto
    then have "jp_stack p \<noteq> []" using stacks_ok_length [OF p(3)] by auto
    then have "stacks_ok (jp_stack p) (ks @ [Key (jp_buffer p)])"
      using p(3) ks assms(4) True by (cases "jp_stack p" rule: rev_cases) (auto simp: stacks_ok_snoc in_object_def)
    with d p True ks show ?thesis
      by (auto simp: action_defs act_se_def do_callback_withbuf_def ok_Inr lower_def safe_def situated_def in_object_def sizes_ok_def live_top_def)
  next
    case False
    then have "live_top (kstack p)" using assms(3) by simp
    from cb_data [OF p(1) this, of JSON_STRING "jp_buffer p"] obtain d where
      d: "json_parser_dom_callback (jp_userdata p) JSON_STRING (jp_buffer p) = Inr (0, d)" "dom_ok d" "keys d = used_top (kstack p)"
      by (auto simp: data_types_def)
    with p False show ?thesis
      by (auto simp: action_defs act_se_def do_callback_withbuf_def lower_def safe_def situated_def in_object_def sizes_ok_def)
  qed
qed

text \<open>A Unicode escape: what replaces the four digits is not longer.\<close>

definition decoded :: "nat \<Rightarrow> JsonParser \<Rightarrow> JsonParser \<Rightarrow> bool" where
  "decoded N p q \<longleftrightarrow> core N q \<and> jp_stack q = jp_stack p \<and> jp_expecting_key q = jp_expecting_key p \<and> jp_userdata q = jp_userdata p"

lemma store_ok:
  assumes "core N p" "ascii_tail 4 (jp_buffer p)" "length s \<le> 4"
  shows "ok (decoded N p) R (buffer_store s (p\<lparr>jp_buffer := take (length (jp_buffer p) - 4) (jp_buffer p)\<rparr>))"
  using assms by (auto simp: buffer_store_def core_def sizes_ok_def ascii_tail_def decoded_def)

lemma decode_ok:
  assumes "core N p" "ascii_tail 4 (jp_buffer p)"
  shows "ok (decoded N p) R (decode_unicode_char p)"
proof -
  have "\<exists>u. unicode_value (jp_buffer p) = Inr u"
    using assms(2) by (fastforce simp: unicode_value_def ascii_tail_def Let_def)
  then obtain uval where uval: "unicode_value (jp_buffer p) = Inr uval" by blast
  have multi: "ok (decoded N p) R (CHK (buffer_store s) (\<lambda>p. Inr (0, p\<lparr>jp_unicode_multi := u\<rparr>))
      (p\<lparr>jp_buffer := take (length (jp_buffer p) - 4) (jp_buffer p)\<rparr>))" if "length s \<le> 4" for s u
    by (rule ok_CHK, rule store_ok [OF assms that]) (simp add: decoded_def)
  have "core N (p\<lparr>jp_buffer := take (length (jp_buffer p) - 4) (jp_buffer p)\<rparr>)"
    using assms by (auto simp: core_def sizes_ok_def)
  then show ?thesis using store_ok [OF assms]
    by (auto simp: decode_unicode_char_def uval Let_def multi ok_code decoded_def)
qed

lemma action_UC:
  assumes "core N p" "ascii_tail 4 (jp_buffer p)" "kstack p \<noteq> []" "\<not> jp_expecting_key p \<longrightarrow> live_top (kstack p)" "in_object p"
  shows "ok (lower N (length (jp_stack p))) R (do_action STATE_UC p)"
proof -
  have "ok (\<lambda>q. decoded N p q \<and> situation_of (jp_state q) = Str 0) R (act_uc p)"
    unfolding act_uc_def by (rule ok_CHK, rule decode_ok [OF assms(1,2)]) (simp add: decoded_def)
  then obtain ret q where q: "act_uc p = Inr (ret, q)" "ret = 0 \<longrightarrow> decoded N p q \<and> situation_of (jp_state q) = Str 0"
    "ret = JSON_ERROR_POP_EMPTY \<longrightarrow> R q" by (auto simp: ok_def)
  then show ?thesis using assms(3-5)
    by (cases "ret = 0") (auto simp: ok_Inr action_defs decoded_def lower_def safe_core situated_def in_object_def)
qed

section \<open>Steps\<close>

lemma next_class_ok:
  assumes "next_class ch p = (0, c, q)"
  shows "c \<noteq> C_ERROR" "\<exists>k. q = p\<lparr>jp_utf8_multibyte_left := k\<rparr>" "c \<in> hex_classes \<Longrightarrow> (of_char ch :: nat) < 128"
    "c \<in> {C_LSQRB, C_LCURB} \<Longrightarrow> ch \<in> {CHR ''['', CHR ''{''}"
proof -
  let ?b = "of_char ch :: nat"
  have c: "c = C_OTHER \<or> c \<noteq> C_ERROR \<and> ?b < 128 \<and> c = character_class ! ?b"
    using assms by (auto simp: next_class_def Let_def utf8_header_table_def split: if_splits)
  then show "c \<noteq> C_ERROR" "c \<in> hex_classes \<Longrightarrow> ?b < 128" by (auto simp: hex_classes_def)
  show "\<exists>k. q = p\<lparr>jp_utf8_multibyte_left := k\<rparr>" using assms by (auto simp: next_class_def Let_def split: if_splits)
  have "list_all (\<lambda>(b, c). c \<in> {C_LSQRB, C_LCURB} \<longrightarrow> b = 91 \<or> b = 123) (enumerate 0 character_class)"
    by (simp add: character_class_def)
  moreover have "length character_class = 128" by (simp add: character_class_def)
  ultimately have brackets: "character_class ! b \<in> {C_LSQRB, C_LCURB} \<longrightarrow> b = 91 \<or> b = 123" if "b < 128" for b
    using that by (force simp: list_all_iff in_set_enumerate_eq)
  show "c \<in> {C_LSQRB, C_LCURB} \<Longrightarrow> ch \<in> {CHR ''['', CHR ''{''}"
  proof -
    assume "c \<in> {C_LSQRB, C_LCURB}"
    with c brackets have "?b = 91 \<or> ?b = 123" by auto
    then have "ch = char_of (91 :: nat) \<or> ch = char_of (123 :: nat)" by (metis char_of_char)
    then show "ch \<in> {CHR ''['', CHR ''{''}" by (auto simp: char_of_eq_iff)
  qed
qed

lemma lower_mono: "lower N D p \<Longrightarrow> N \<le> N' \<Longrightarrow> D \<le> D' \<Longrightarrow> lower N' D' p"
  by (auto simp: lower_def safe_def sizes_ok_def)

text \<open>How much the stack may grow for a class of characters.\<close>

definition opens :: "classes \<Rightarrow> nat" where
  "opens c = (if c \<in> {C_LSQRB, C_LCURB} then 1 else 0)"

abbreviation step_ok :: "nat \<Rightarrow> nat \<Rightarrow> (int \<times> JsonParser) result \<Rightarrow> bool" where
  "step_ok N D \<equiv> ok (lower N D) (lower N D)"

lemma step_ok_mono: "step_ok N D r \<Longrightarrow> N \<le> N' \<Longrightarrow> D \<le> D' \<Longrightarrow> step_ok N' D' r"
  by (erule ok_mono) (auto intro: lower_mono)

lemma action_no_push:
  assumes "safe N p" "action_ok (situation_of (jp_state p)) a 0 c" "length (jp_stack p) + opens c \<le> 1024"
  shows "step_ok N (length (jp_stack p) + opens c) (do_action a p)"
proof -
  let ?s = "situation_of (jp_state p)" and ?D = "length (jp_stack p)"
  have p: "core N p" "situated p" "in_object p" using assms(1) by (simp_all add: safe_core)
  note situation = assms(2) [unfolded action_ok_def] p(2) [unfolded situated_def]
  consider (KS) "a = STATE_KS" | (SP) "a = STATE_SP" | (AE) "a = STATE_AE" | (OE) "a = STATE_OE" | (AB) "a = STATE_AB" | (OB) "a = STATE_OB" |
    (remark) "a \<in> {STATE_CB, STATE_YB}" | (CE) "a = STATE_CE" | (lit) "a \<in> {STATE_FA, STATE_TR, STATE_NU}" | (SE) "a = STATE_SE"
    using assms(2) by (auto simp: action_ok_def split: if_splits)
  then have "if a \<in> {STATE_AB, STATE_OB} then opens c = 1 \<and> step_ok N (Suc ?D) (do_action a p) else step_ok N ?D (do_action a p)"
  proof cases
    case KS then show ?thesis using situation p(1) by (auto intro: action_KS)
  next
    case SP then show ?thesis using situation p(1) by (auto intro: action_SP simp: waiting_def)
  next
    case AE then show ?thesis using situation by (auto intro: action_end [OF assms(1), of STATE_AE MODE_ARRAY JSON_ARRAY_END])
  next
    case OE then show ?thesis using situation by (auto intro: action_end [OF assms(1), of STATE_OE MODE_OBJECT JSON_OBJECT_END])
  next
    case AB then show ?thesis using situation p(1) assms(3)
      by (auto simp: opens_def intro: action_begin [of N p STATE_AB JSON_ARRAY_BEGIN MODE_ARRAY])
  next
    case OB then show ?thesis using situation p(1) assms(3)
      by (auto simp: opens_def intro: action_begin [of N p STATE_OB JSON_OBJECT_BEGIN MODE_OBJECT])
  next
    case remark then show ?thesis using situation by (auto intro: action_comment [OF assms(1)])
  next
    case CE then show ?thesis using situation by (auto intro: action_CE [OF assms(1)])
  next
    case lit then show ?thesis using situation p(1) by (auto intro: action_value)
  next
    case SE then show ?thesis using situation p(1,3) by (auto intro: action_SE)
  qed
  then show ?thesis using step_ok_mono [of N ?D "do_action a p" N "?D + opens c"] by (auto split: if_splits)
qed

lemma action_push:
  assumes "safe N p" "action_ok (situation_of (jp_state p)) a 1 c" "c \<in> hex_classes \<longrightarrow> (of_char ch :: nat) < 128"
    "p' = p\<lparr>jp_buffer_size := n, jp_buffer := jp_buffer p @ [ch]\<rparr>" "sizes_ok (N + 1) p'"
  shows "step_ok (N + 1) (length (jp_stack p)) (do_action a p')"
proof -
  have p: "core (N + 1) p'" "situated p" "in_object p'" "kstack p' = kstack p" "jp_expecting_key p' = jp_expecting_key p"
    "jp_stack p' = jp_stack p" using assms(1,4,5) by (simp_all add: safe_core core_def in_object_def)
  consider (UC) "a = STATE_UC" | (number) "a \<in> {STATE_DE, STATE_DF, STATE_MX, STATE_ZX, STATE_IX}"
    using assms(2) by (auto simp: action_ok_def split: if_splits)
  then show ?thesis
  proof cases
    case UC
    then have "situation_of (jp_state p) = Str 3" "(of_char ch :: nat) < 128" using assms(2,3) by (auto simp: action_ok_def)
    then have "ascii_tail 4 (jp_buffer p')" "kstack p \<noteq> []" "\<not> jp_expecting_key p \<longrightarrow> live_top (kstack p)"
      using p(2) ascii_tail_Suc [of 3 "jp_buffer p" ch] assms(4) by (auto simp: situated_def)
    then show ?thesis using UC action_UC [of "N + 1" p'] p by simp
  next
    case number
    then have "\<not> jp_expecting_key p \<and> live_top (kstack p)" using assms(2) p(2) by (auto simp: action_ok_def situated_def)
    then show ?thesis using number action_value [of "N + 1" p' a] p by auto
  qed
qed

lemma move_no_push:
  assumes "safe N p" "goto_ok (situation_of (jp_state p)) (situation_of t) 0 c"
  shows "safe N (p\<lparr>jp_state := t\<rparr>)"
  using assms by (auto simp: safe_core situated_def in_object_def goto_ok_def live_top_def split: situation.splits)

lemma move_push:
  assumes "safe N p" "goto_ok (situation_of (jp_state p)) (situation_of t) pol c" "pol \<noteq> 0" "pol = 1 \<and> c \<in> hex_classes \<longrightarrow> (of_char ch :: nat) < 128"
    "p' = p\<lparr>jp_buffer_size := n, jp_buffer := jp_buffer p @ [ch]\<rparr>" "sizes_ok (N + 1) p'"
  shows "safe (N + 1) (p'\<lparr>jp_state := t\<rparr>)"
proof -
  have p: "core (N + 1) p'" "situated p" "in_object p" using assms(1,5,6) by (simp_all add: safe_core core_def)
  then show ?thesis using assms(2-5)
    by (auto simp: safe_core situated_def in_object_def goto_ok_def ascii_tail_Suc split: situation.splits)
qed

lemma push_part:
  assumes "pol \<noteq> (0 :: nat)"
  shows "\<exists>ch'. (if pol \<noteq> 0 then if pol = 2 then buffer_push_escape ch else buffer_push ch else (\<lambda>p. Inr (0, p))) = buffer_push ch' \<and>
    (pol = 1 \<longrightarrow> ch' = ch)"
  using assms by (cases "pol = 2") (auto simp: buffer_push_escape_def)

lemma action_policy: "action_ok s a pol c \<Longrightarrow> pol = 0 \<or> pol = 1"
  by (auto simp: action_ok_def split: if_splits)

lemma entry_push:
  assumes "safe N p" "N + 1 < 2 ^ 31" "pol \<noteq> 0" "c \<in> hex_classes \<longrightarrow> (of_char ch :: nat) < 128"
    "if IS_STATE_ACTION t then action_ok (situation_of (jp_state p)) t pol c else goto_ok (situation_of (jp_state p)) (situation_of t) pol c"
  shows "step_ok (N + 1) (length (jp_stack p)) (CHK (if pol \<noteq> 0 then if pol = 2 then buffer_push_escape ch else buffer_push ch else (\<lambda>p. Inr (0, p)))
    (if IS_STATE_ACTION t then do_action t else (\<lambda>p. Inr (0, p\<lparr>jp_state := t\<rparr>))) p)"
    (is "step_ok _ ?D (CHK ?push ?act p)")
proof -
  from push_part [OF assms(3), of ch] obtain ch' where ch': "?push = buffer_push ch'" "pol = 1 \<longrightarrow> ch' = ch" by blast
  have "sizes_ok N p" using assms(1) by (simp add: safe_def)
  have "step_ok (N + 1) ?D (CHK (buffer_push ch') ?act p)"
  proof (rule ok_CHK, rule buffer_push_ok [OF \<open>sizes_ok N p\<close> assms(2)])
    fix p' assume "\<exists>n. p' = p\<lparr>jp_buffer_size := n, jp_buffer := jp_buffer p @ [ch']\<rparr> \<and> sizes_ok (N + 1) p'"
    then obtain n where p': "p' = p\<lparr>jp_buffer_size := n, jp_buffer := jp_buffer p @ [ch']\<rparr>" "sizes_ok (N + 1) p'" by blast
    then have st: "jp_stack p' = jp_stack p" by simp
    show "step_ok (N + 1) ?D (?act p')"
    proof (cases "IS_STATE_ACTION t")
      case True
      then have "action_ok (situation_of (jp_state p)) t pol c" using assms(5) by simp
      with action_policy [OF this] have "action_ok (situation_of (jp_state p)) t 1 c" "ch' = ch" using assms(3) ch'(2) by auto
      then show ?thesis using action_push [OF assms(1) _ _ p'] assms(4) True by simp
    next
      case False
      then have goto: "goto_ok (situation_of (jp_state p)) (situation_of t) pol c" using assms(5) by simp
      have "pol = 1 \<and> c \<in> hex_classes \<longrightarrow> (of_char ch' :: nat) < 128" using assms(4) ch'(2) by blast
      from move_push [OF assms(1) goto assms(3) this p'] have "safe (N + 1) (p'\<lparr>jp_state := t\<rparr>)" .
      then show ?thesis using False st by (simp add: lower_def)
    qed
  qed
  then show ?thesis using ch'(1) by simp
qed

lemma json_parser_step_ok:
  assumes "safe N p" "N + 1 < 2 ^ 31" "length (jp_stack p) + (if ch \<in> {CHR ''['', CHR ''{''} then 1 else 0) \<le> 1024"
  shows "step_ok (N + 1) (length (jp_stack p) + (if ch \<in> {CHR ''['', CHR ''{''} then 1 else 0)) (json_parser_step ch p)"
proof -
  let ?D = "length (jp_stack p)" and ?o = "if ch \<in> {CHR ''['', CHR ''{''} then 1 else 0 :: nat"
  obtain ret c q where nc: "next_class ch p = (ret, c, q)" by (metis prod_cases3)
  show ?thesis
  proof (cases "ret = 0")
    case False
    then have "ret \<in> {JSON_ERROR_UTF8, JSON_ERROR_BAD_CHAR}" using nc by (auto simp: next_class_def Let_def split: if_splits)
    then show ?thesis using nc by (auto simp: json_parser_step_def ok_code)
  next
    case True
    note nc = nc [unfolded True] and c = next_class_ok [OF nc [unfolded True]]
    from c(2) have q: "safe N q" "jp_state q = jp_state p" "jp_stack q = jp_stack p"
      using assms(1) by (auto simp: safe_core situated_def in_object_def)
    have o: "opens c \<le> ?o" using c(4) by (simp add: opens_def)
    have "situation_of (jp_state p) \<noteq> NoState" using assms(1) by (auto simp: safe_def situated_def)
    from tables_typed [OF this c(1)] obtain t pol where t: "table_entry (state_transition_table (jp_state p)) c = Inr t"
      "table_entry (buffer_policy_table (jp_state p)) c = Inr pol" "t = STATE_ERR \<or>
       (if IS_STATE_ACTION t then action_ok (situation_of (jp_state p)) t pol c else goto_ok (situation_of (jp_state p)) (situation_of t) pol c)"
      by (auto simp: entry_ok_def)
    let ?push = "if pol \<noteq> 0 then if pol = 2 then buffer_push_escape ch else buffer_push ch else (\<lambda>p. Inr (0, p))"
    let ?act = "if IS_STATE_ACTION t then do_action t else (\<lambda>p. Inr (0, p\<lparr>jp_state := t\<rparr>))"
    have step: "json_parser_step ch p = (if t = STATE_ERR then Inr (JSON_ERROR_UNEXPECTED_CHAR, q) else CHK ?push ?act q)"
      using nc t(1,2) q(2) by (simp add: json_parser_step_def)
    have "step_ok (N + 1) (?D + ?o) (CHK ?push ?act q)" if "t \<noteq> STATE_ERR"
    proof (cases "pol = 0")
      case True
      have "step_ok N (?D + opens c) (?act q)"
        using t(3) that True q assms(3) o action_no_push [OF q(1), of t c] move_no_push [OF q(1), of t c]
        by (auto simp: lower_def split: if_splits)
      from step_ok_mono [OF this, of "N + 1" "?D + ?o"] show ?thesis using True o by (simp add: CHK_def)
    next
      case False
      have "step_ok (N + 1) ?D (CHK ?push ?act q)"
        using entry_push [OF q(1) assms(2) False, of c ch t] t(3) that c(3) q(2,3) by simp
      from step_ok_mono [OF this, of "N + 1" "?D + ?o"] show ?thesis by simp
    qed
    then show ?thesis by (simp add: step ok_code)
  qed
qed

definition brackets :: "string \<Rightarrow> nat" where
  "brackets s = length (filter (\<lambda>c. c \<in> {CHR ''['', CHR ''{''}) s)"

lemma brackets_simps [simp]:
  "brackets [] = 0" "brackets (c # s) = (if c \<in> {CHR ''['', CHR ''{''} then 1 else 0) + brackets s" "brackets (s @ s') = brackets s + brackets s'"
  by (simp_all add: brackets_def)

lemma parser_loop_ok:
  "safe N p \<Longrightarrow> N + length s < 2 ^ 31 \<Longrightarrow> length (jp_stack p) + brackets s \<le> 1024 \<Longrightarrow>
   \<exists>ret j q. parser_loop i s p = Inr (ret, j, q) \<and> (ret = 0 \<or> ret = 3 \<longrightarrow> lower (N + length s) (length (jp_stack p) + brackets s) q)"
proof (induction s arbitrary: N p i)
  case (Cons ch s)
  let ?o = "if ch \<in> {CHR ''['', CHR ''{''} then 1 else 0 :: nat"
  from Cons.prems(3) have D: "length (jp_stack p) + ?o + brackets s \<le> 1024" by simp
  then have "step_ok (N + 1) (length (jp_stack p) + ?o) (json_parser_step ch p)"
    using Cons.prems by (intro json_parser_step_ok) auto
  then obtain ret q where q: "json_parser_step ch p = Inr (ret, q)" "ret = 0 \<or> ret = 3 \<longrightarrow> lower (N + 1) (length (jp_stack p) + ?o) q"
    by (auto simp: ok_def)
  show ?case
  proof (cases "ret = 0")
    case True
    with q(2) have "lower (N + 1) (length (jp_stack p) + ?o) q" by blast
    then have q': "safe (N + 1) q" "length (jp_stack q) \<le> length (jp_stack p) + ?o" by (simp_all only: lower_def)
    have "length (jp_stack q) + brackets s \<le> 1024" using q'(2) D by linarith
    from Cons.IH [OF q'(1) _ this, of "i + 1"] Cons.prems(2) obtain ret' j r where
      r: "parser_loop (i + 1) s q = Inr (ret', j, r)" "ret' = 0 \<or> ret' = 3 \<longrightarrow> lower (N + 1 + length s) (length (jp_stack q) + brackets s) r" by auto
    have "lower (N + length (ch # s)) (length (jp_stack p) + brackets (ch # s)) r" if "ret' = 0 \<or> ret' = 3"
      by (rule lower_mono [OF mp [OF r(2) that]]) (use q'(2) in simp_all)
    then show ?thesis using q(1) True r(1) by auto
  next
    case False
    have "lower (N + length (ch # s)) (length (jp_stack p) + brackets (ch # s)) q" if "ret = 0 \<or> ret = 3"
      by (rule lower_mono [OF mp [OF q(2) that]]) simp_all
    then show ?thesis using q(1) False by auto
  qed
qed (simp add: lower_def)

lemma parse_ok:
  assumes "safe N p" "N + length s < 2 ^ 31" "length (jp_stack p) + brackets s \<le> 1024"
  shows "(\<exists>q. JsonParser_parse n s p = Inr q \<and> lower (N + length s) (length (jp_stack p) + brackets s) q) \<or>
    (\<exists>x. JsonParser_parse n s p = Inl (Thrown x))"
proof -
  from parser_loop_ok [OF assms, of 0] obtain ret j q where q: "parser_loop 0 s p = Inr (ret, j, q)"
    "ret = 0 \<or> ret = 3 \<longrightarrow> lower (N + length s) (length (jp_stack p) + brackets s) q" by blast
  then show ?thesis by (cases "ret = 0 \<or> ret = 3") (auto simp: JsonParser_parse_def json_parser_string_def throw_error_def)
qed

lemma parse_chunks_safe:
  "safe N p \<Longrightarrow> N + length (concat chunks) < 2 ^ 31 \<Longrightarrow> length (jp_stack p) + brackets (concat chunks) \<le> 1024 \<Longrightarrow>
   (\<exists>r. parse_chunks chunks (n, p) = Inr r) \<or> (\<exists>x. parse_chunks chunks (n, p) = Inl (Thrown x))"
proof (induction chunks arbitrary: N p n)
  case (Cons s chunks)
  from parse_ok [OF Cons.prems(1), of s n] Cons.prems(2,3) consider
    (thrown) x where "JsonParser_parse n s p = Inl (Thrown x)" |
    (more) q where "JsonParser_parse n s p = Inr q" "lower (N + length s) (length (jp_stack p) + brackets s) q" by auto
  then show ?case
  proof cases
    case more
    then show ?thesis using Cons.IH [of "N + length s" q "n + 1"] Cons.prems(2,3) by (simp add: parse_chunks_def lower_def)
  qed (simp add: parse_chunks_def)
qed (simp add: parse_chunks_def)

lemma JsonParser_new_safe:
  assumes "JsonParser_new mem = Inr p"
  shows "safe 0 p \<and> jp_stack p = []"
proof -
  have "(256 :: nat) \<in> power 2 ` {..31}" "(4096 :: nat) \<in> power 2 ` {..31}"
    by (rule image_eqI [of _ _ 8], simp_all, rule image_eqI [of _ _ 12], simp_all)
  then show ?thesis using assms
    by (auto simp: JsonParser_new_def json_parser_dom_init_def json_parser_init_def parser_config_def Let_def safe_def sizes_ok_def dom_ok_def
        stacks_ok_def situated_def in_object_def keys_def split: if_splits)
qed



end
