(* ===== verification/Graph_Reloader.thy ===== *)
theory Graph_Reloader
  imports Graph_Parser
begin

text \<open>
  Updating the graph in place when the graph file changed, \<open>src/src/graph_reloader.cpp\<close>: the new graph is traversed from
  its roots, and the nodes and rules of the old graph are kept, changed, created and deleted on the way.

  A deleted rule or node is marked as freed and a later access is an error. The service that watches files is a
  parameter: watching or not watching a path succeeds or throws; the requests are recorded. An exception leaves the
  state of the reloader undefined. The order of the list of nodes stands for the unspecified order of the map.
\<close>

section \<open>Class GraphReloader\<close>

datatype watch_request = Watch string | Unwatch string

record reloader =
  rd_graph :: graph
  rd_originalNodes :: "(string \<times> nid) list"
  rd_nodesSeen :: "nid set"
  rd_freedRules :: "rid set"
  rd_freedNodes :: "nid set"
  rd_requests :: "watch_request list"

record reload_env =
  re_new :: graph
  re_alloc :: allocator
  re_sha :: "string \<Rightarrow> string"
  re_stat :: "string \<Rightarrow> timestamp option"
  re_world :: world
  re_watch :: "string \<Rightarrow> exn option"
  re_unwatch :: "string \<Rightarrow> exn option"

type_synonym 'a rd = "reloader \<Rightarrow> ('a \<times> reloader) result"

definition GraphReloader :: "graph \<Rightarrow> reloader" where
  "GraphReloader original = \<lparr>rd_graph = original, rd_originalNodes = [], rd_nodesSeen = {}, rd_freedRules = {}, rd_freedNodes = {},
     rd_requests = []\<rparr>"

definition set_graph :: "graph \<Rightarrow> reloader \<Rightarrow> reloader" where
  "set_graph g st = st\<lparr>rd_graph := g\<rparr>"

text \<open>An operation of the graph.\<close>

definition on_graph :: "(graph \<Rightarrow> graph result) \<Rightarrow> reloader \<Rightarrow> reloader result" where
  "on_graph f st = rbind (f (rd_graph st)) (\<lambda>g. Inr (set_graph g st))"

text \<open>Access to a rule or a node through a pointer.\<close>

definition deref_rule :: "rid \<Rightarrow> reloader \<Rightarrow> 'a result \<Rightarrow> 'a result" where
  "deref_rule r st k = (if r \<in> rd_freedRules st then Inl UseAfterFree else k)"

definition deref_node :: "nid \<Rightarrow> reloader \<Rightarrow> 'a result \<Rightarrow> 'a result" where
  "deref_node n st k = (if n \<in> rd_freedNodes st then Inl UseAfterFree else k)"

definition forget_original :: "string \<Rightarrow> reloader \<Rightarrow> reloader" where
  "forget_original path st = st\<lparr>rd_originalNodes := AList.delete path (rd_originalNodes st)\<rparr>"

definition put_node :: "nid \<Rightarrow> graph \<Rightarrow> graph" where
  "put_node n g = g\<lparr>g_nodes := AList.update (n_path (g_node g n)) n (g_nodes g)\<rparr>"

definition getNodeFromAll :: "reload_env \<Rightarrow> nid \<Rightarrow> nid rd" where
  "getNodeFromAll env newNode st =
     (let path = n_path (g_node (re_new env) newNode) in
      case Graph_find (rd_graph st) path of
        None \<Rightarrow>
          (case Node_new (re_alloc env) path True (rd_graph st) of
             (n, g) \<Rightarrow>
               (case re_watch env path of
                  Some e \<Rightarrow> Inl (Thrown e)
                | None \<Rightarrow> Inr (n, (set_graph (put_node n g) st)\<lparr>rd_requests := rd_requests st @ [Watch path]\<rparr>)))
      | Some n \<Rightarrow> deref_node n st (Inr (n, forget_original (n_path (g_node (rd_graph st) n)) st)))"

text \<open>The node, whether it was found in the given array, and the array without it.\<close>

definition getNode :: "reload_env \<Rightarrow> nid list \<Rightarrow> nid \<Rightarrow> (nid \<times> bool \<times> nid list) rd" where
  "getNode env source newNode st =
     (let path = n_path (g_node (re_new env) newNode) in
      case find (\<lambda>n. n_path (g_node (rd_graph st) n) = path) source of
        Some n \<Rightarrow> Inr ((n, True, remove1 n source), forget_original path st)
      | None \<Rightarrow> rbind (getNodeFromAll env newNode st) (\<lambda>(n, st). Inr ((n, False, source), st)))"

definition remove_parent :: "rid \<Rightarrow> nid \<Rightarrow> reloader \<Rightarrow> reloader result" where
  "remove_parent r n st = deref_node n st (on_graph (Node_removeParentRule n r) st)"

text \<open>The end of \<open>deleteChildRule\<close>: a rule without outputs.\<close>

definition delete_rule :: "rid \<Rightarrow> reloader \<Rightarrow> reloader result" where
  "delete_rule r st =
     rbind (foldM (remove_parent r) (r_inputs (g_rule (rd_graph st) r)) st) (\<lambda>st.
       assert_that ''ruleIt != original_.rules_.end()'' (r \<in> set (g_rules (rd_graph st)))
         (Inr (st\<lparr>rd_graph := (rd_graph st)\<lparr>g_rules := remove1 r (g_rules (rd_graph st))\<rparr>, rd_freedRules := insert r (rd_freedRules st)\<rparr>)))"

definition deleteChildRule :: "nid \<Rightarrow> reloader \<Rightarrow> reloader result" where
  "deleteChildRule n st =
     (case n_child (g_node (rd_graph st) n) of
        None \<Rightarrow> Inl (AssertFailed ''!node->isSource()'')
      | Some r \<Rightarrow>
          deref_rule r st
            (let st = set_graph (upd_node n (\<lambda>nd. nd\<lparr>n_child := None\<rparr>) (rd_graph st)) st in
             assert_that ''nodeIt != rule->outputs_.end()'' (n \<in> set (r_outputs (g_rule (rd_graph st) r)))
               (let st = set_graph (upd_rule r (\<lambda>rl. rl\<lparr>r_outputs := remove1 n (r_outputs rl)\<rparr>) (rd_graph st)) st
                in if r_outputs (g_rule (rd_graph st) r) = [] then delete_rule r st else Inr st)))"

definition createNewRule :: "reload_env \<Rightarrow> nid \<Rightarrow> reloader \<Rightarrow> reloader result" where
  "createNewRule env output st =
     (case Rule_new (re_alloc env) [] [] (rd_graph st) of
        (r, g) \<Rightarrow>
          rbind (Node_setChild output r (upd_rule r (\<lambda>rl. rl\<lparr>r_outputs := r_outputs rl @ [output]\<rparr>) g)) (\<lambda>g.
            Inr (set_graph (g\<lparr>g_rules := g_rules g @ [r]\<rparr>) st)))"

text \<open>\<open>k\<close> bounds the depth of the recursion, here and below.\<close>

fun clearSubGraph :: "nat \<Rightarrow> nid \<Rightarrow> reloader \<Rightarrow> reloader result" where
  "clearSubGraph 0 n st = Inl NoFuel"
| "clearSubGraph (Suc k) n st =
     deref_node n st
       (case n_child (g_node (rd_graph st) n) of
          None \<Rightarrow> Inr st
        | Some r \<Rightarrow> deref_rule r st
            (rbind (foldM (clearSubGraph k) (r_inputs (g_rule (rd_graph st) r)) st) (deleteChildRule n)))"

text \<open>One iteration of the first loop of \<open>updateRuleOutputs\<close>.\<close>

definition update_output :: "reload_env \<Rightarrow> rid \<Rightarrow> nid \<Rightarrow> nid list \<times> bool \<times> reloader \<Rightarrow> (nid list \<times> bool \<times> reloader) result" where
  "update_output env r newNode = (\<lambda>(outputs, changed, st).
     rbind (getNode env outputs newNode st) (\<lambda>((n, found, outputs), st).
     rbind (if found then Inr (n, changed, st)
            else rbind (getNodeFromAll env newNode st) (\<lambda>(n, st).
                   Inr (n, True, set_graph (upd_node n (\<lambda>nd. nd\<lparr>n_child := Some r\<rparr>) (rd_graph st)) st))) (\<lambda>(n, changed, st).
       Inr (outputs, changed, set_graph (upd_rule r (\<lambda>rl. rl\<lparr>r_outputs := r_outputs rl @ [n]\<rparr>) (rd_graph st)) st))))"

definition updateRuleOutputs :: "reload_env \<Rightarrow> rid \<Rightarrow> rid \<Rightarrow> bool rd" where
  "updateRuleOutputs env r newRule st =
     (let outputs = r_outputs (g_rule (rd_graph st) r);
          st = set_graph (upd_rule r (\<lambda>rl. rl\<lparr>r_outputs := []\<rparr>) (rd_graph st)) st
      in rbind (foldM (update_output env r) (r_outputs (g_rule (re_new env) newRule)) (outputs, False, st)) (\<lambda>(outputs, changed, st).
         rbind (foldM deleteChildRule outputs st) (\<lambda>st. Inr (changed, st))))"

text \<open>An implicit dependency of a rule whose depfile stays the same.\<close>

definition keep_implicit :: "rid \<Rightarrow> nid \<Rightarrow> reloader \<Rightarrow> reloader result" where
  "keep_implicit r n st =
     deref_node n st
       (let g = put_node n (upd_rule r (\<lambda>rl. rl\<lparr>r_inputs := r_inputs rl @ [n]\<rparr>) (rd_graph st));
            st = set_graph (if Node_isSource g n then g\<lparr>g_sources := insert n (g_sources g)\<rparr> else g)
                   (forget_original (n_path (g_node g n)) st)
        in if input_ready (rd_graph st) n then on_graph (Rule_markInputReady r) st else Inr st)"

definition updateRuleDepfiles :: "reload_env \<Rightarrow> rid \<Rightarrow> nid list \<Rightarrow> rid \<Rightarrow> bool rd" where
  "updateRuleDepfiles env r implicitDepsBefore newRule st =
     (let depfile = r_depfile (g_rule (re_new env) newRule) in
      if r_depfile (g_rule (rd_graph st) r) \<noteq> depfile
      then rbind (foldM (remove_parent r) implicitDepsBefore st) (\<lambda>st.
             rbind (loadFromfile (re_sha env) (re_alloc env) (Some (re_watch env)) (re_world env) depfile r (Rule_setDepfile r depfile (rd_graph st)))
               (\<lambda>(_, g). Inr (True, set_graph g st)))
      else rbind (foldM (keep_implicit r) implicitDepsBefore st) (\<lambda>st.
             Inr (False, set_graph (upd_rule r (\<lambda>rl. rl\<lparr>r_numImplicit := length implicitDepsBefore\<rparr>) (rd_graph st)) st)))"

definition implicit_part :: "rule \<Rightarrow> nid list" where
  "implicit_part rl = drop (length (r_inputs rl) - r_numImplicit rl) (r_inputs rl)"

text \<open>An iteration of the first loop of \<open>updateRuleInputs\<close> after the recursive call.\<close>

definition add_input :: "reload_env \<Rightarrow> rid \<Rightarrow> nid \<Rightarrow> bool \<Rightarrow> reloader \<Rightarrow> reloader result" where
  "add_input env r n changed st =
     rbind (if changed then rbind (updateNodeHash (re_sha env) (re_world env) n True True (rd_graph st)) (\<lambda>(_, g). Inr (set_graph g st))
            else Inr st) (\<lambda>st.
     deref_rule r st
       (let st = set_graph (upd_rule r (\<lambda>rl. rl\<lparr>r_inputs := r_inputs rl @ [n]\<rparr>) (rd_graph st)) st
        in if input_ready (rd_graph st) n then on_graph (Rule_markInputReady r) st else Inr st))"

text \<open>One iteration of that loop; \<open>f\<close> is the recursive call.\<close>

definition update_input ::
    "reload_env \<Rightarrow> rid \<Rightarrow> (nid \<Rightarrow> nid \<Rightarrow> bool rd) \<Rightarrow> nid \<Rightarrow> nid list \<times> bool \<times> reloader \<Rightarrow> (nid list \<times> bool \<times> reloader) result" where
  "update_input env r f newNode = (\<lambda>(inputs, changed, st).
     rbind (getNode env inputs newNode st) (\<lambda>((n, found, inputs), st).
     let changed = (changed \<or> \<not> found);
         st = (if found then st else set_graph (Node_addParentRule n r (rd_graph st)) st)
     in rbind (f n newNode st) (\<lambda>(changed', st).
        let changed = (changed \<or> changed')
        in rbind (add_input env r n changed st) (\<lambda>st. Inr (inputs, changed, st)))))"

text \<open>What \<open>updateSubGraph\<close> of a rule does after its inputs were updated; \<open>changed\<close> is the result so far.\<close>

definition finish_update :: "reload_env \<Rightarrow> rid \<Rightarrow> nid list \<Rightarrow> rid \<Rightarrow> bool \<Rightarrow> bool rd" where
  "finish_update env r implicitDepsBefore newRule changed st =
     deref_rule r st
       (rbind (updateRuleOutputs env r newRule st) (\<lambda>(changed', st).
        let command = r_command (g_rule (re_new env) newRule);
            changed = (changed \<or> changed' \<or> r_command (g_rule (rd_graph st) r) \<noteq> command);
            st = set_graph (Rule_setCommand r command (rd_graph st)) st
        in rbind (updateRuleDepfiles env r implicitDepsBefore newRule st) (\<lambda>(changed', st).
           let changed = (changed \<or> changed')
           in Inr (changed, if changed then set_graph (Rule_setState r OUT_OF_DATE (rd_graph st)) st else st))))"

text \<open>The two functions named \<open>updateSubGraph\<close>, for a node and for a rule.\<close>

fun updateSubGraph_node :: "reload_env \<Rightarrow> nat \<Rightarrow> nid \<Rightarrow> nid \<Rightarrow> bool rd"
  and updateSubGraph_rule :: "reload_env \<Rightarrow> nat \<Rightarrow> rid \<Rightarrow> rid \<Rightarrow> bool rd" where
  "updateSubGraph_node env 0 n newNode st = Inl NoFuel"
| "updateSubGraph_node env (Suc k) n newNode st =
     (if n \<in> rd_nodesSeen st then Inr (False, st)
      else
        let st = st\<lparr>rd_nodesSeen := insert n (rd_nodesSeen st)\<rparr>;
            add_source = (\<lambda>st. set_graph ((rd_graph st)\<lparr>g_sources := insert n (g_sources (rd_graph st))\<rparr>) st)
        in rbind
             (case n_child (g_node (re_new env) newNode) of
                None \<Rightarrow>
                  if Node_isSource (rd_graph st) n then Inr (False, add_source st)
                  else rbind (deleteChildRule n st) (\<lambda>st. Inr (True, add_source (set_graph (statNode (re_stat env) n (rd_graph st)) st)))
              | Some newRule \<Rightarrow>
                  rbind (if Node_isSource (rd_graph st) n then createNewRule env n st else Inr st) (\<lambda>st.
                  case n_child (g_node (rd_graph st) n) of
                    None \<Rightarrow> Inl NullDeref
                  | Some r \<Rightarrow>
                      rbind (updateSubGraph_rule env k r newRule st) (\<lambda>(changed, st).
                        if changed
                        then (case n_child (g_node (rd_graph st) n) of
                                None \<Rightarrow> Inl NullDeref
                              | Some r \<Rightarrow> rbind (on_graph (updateRuleHash (re_sha env) r True True) st) (\<lambda>st. Inr (True, st)))
                        else Inr (False, st))))
             (\<lambda>(changed, st).
                let st = (if changed then set_graph (Node_setState n OUT_OF_DATE (rd_graph st)) st else st)
                in Inr (changed, set_graph (put_node n (rd_graph st)) st)))"
| "updateSubGraph_rule env 0 r newRule st = Inl NoFuel"
| "updateSubGraph_rule env (Suc k) r newRule st =
     deref_rule r st
       (let inputs = explicit_inputs (g_rule (rd_graph st) r); implicitDepsBefore = implicit_part (g_rule (rd_graph st) r);
            st = set_graph (upd_rule r (\<lambda>rl. rl\<lparr>r_inputs := [], r_numReady := 0, r_numImplicit := 0\<rparr>) (rd_graph st)) st
        in rbind
             (foldM (update_input env r (updateSubGraph_node env k)) (r_inputs (g_rule (re_new env) newRule)) (inputs, False, st))
             (\<lambda>(inputs, changed, st).
                rbind (foldM (\<lambda>n st. rbind (remove_parent r n st) (clearSubGraph k n)) inputs st)
                  (finish_update env r implicitDepsBefore newRule changed)))"

definition update_root :: "reload_env \<Rightarrow> nat \<Rightarrow> nid \<Rightarrow> reloader \<Rightarrow> reloader result" where
  "update_root env k newNode st =
     rbind (getNodeFromAll env newNode st) (\<lambda>(root, st).
     rbind (updateSubGraph_node env k root newNode st) (\<lambda>(changed, st).
     rbind (if changed then rbind (updateNodeHash (re_sha env) (re_world env) root True True (rd_graph st)) (\<lambda>(_, g). Inr (set_graph g st))
            else Inr st) (\<lambda>st.
       Inr (set_graph ((rd_graph st)\<lparr>g_roots := insert root (g_roots (rd_graph st))\<rparr>) st))))"

definition updateRoots :: "reload_env \<Rightarrow> nat \<Rightarrow> reloader \<Rightarrow> reloader result" where
  "updateRoots env k st =
     foldM (update_root env k) (sorted_list_of_set (g_roots (re_new env)))
       (st\<lparr>rd_originalNodes := g_nodes (rd_graph st), rd_graph := (rd_graph st)\<lparr>g_roots := {}, g_sources := {}\<rparr>\<rparr>)"

definition clean_node :: "reload_env \<Rightarrow> string \<times> nid \<Rightarrow> reloader \<Rightarrow> reloader result" where
  "clean_node env = (\<lambda>(path, n) st.
     assert_that ''it->second->parentRules_.empty()'' (n_parents (g_node (rd_graph st) n) = [])
       (let p = n_path (g_node (rd_graph st) n) in
        case re_unwatch env p of
          Some e \<Rightarrow> Inl (Thrown e)
        | None \<Rightarrow>
            rbind (if Node_isSource (rd_graph st) n then Inr st else deleteChildRule n st) (\<lambda>st.
              Inr (st\<lparr>rd_graph := (rd_graph st)\<lparr>g_nodes := AList.delete path (g_nodes (rd_graph st))\<rparr>,
                     rd_freedNodes := insert n (rd_freedNodes st), rd_requests := rd_requests st @ [Unwatch p]\<rparr>))))"

definition cleanStaleSubgraph :: "reload_env \<Rightarrow> reloader \<Rightarrow> reloader result" where
  "cleanStaleSubgraph env st = foldM (clean_node env) (rd_originalNodes st) st"

definition updateGraph :: "reload_env \<Rightarrow> nat \<Rightarrow> reloader \<Rightarrow> reloader result" where
  "updateGraph env k st = rbind (updateRoots env k st) (cleanStaleSubgraph env)"

section \<open>A graph file that did not change\<close>

text \<open>The new graph describes the same rules: paths stand for nodes, and the implicit dependencies of the old graph are not
  in the file.\<close>

definition same_rule :: "graph \<Rightarrow> graph \<Rightarrow> rid \<Rightarrow> rid \<Rightarrow> bool" where
  "same_rule g h r s \<longleftrightarrow>
     map (\<lambda>n. n_path (g_node g n)) (explicit_inputs (g_rule g r)) = map (\<lambda>m. n_path (g_node h m)) (r_inputs (g_rule h s)) \<and>
     map (\<lambda>n. n_path (g_node g n)) (r_outputs (g_rule g r)) = map (\<lambda>m. n_path (g_node h m)) (r_outputs (g_rule h s)) \<and>
     r_command (g_rule g r) = r_command (g_rule h s) \<and> r_depfile (g_rule g r) = r_depfile (g_rule h s)"

definition same_node :: "graph \<Rightarrow> graph \<Rightarrow> nid \<Rightarrow> nid \<Rightarrow> bool" where
  "same_node g h n m \<longleftrightarrow> n \<in> live g \<and> m \<in> live h \<and> n_path (g_node g n) = n_path (g_node h m) \<and>
     (case (n_child (g_node g n), n_child (g_node h m)) of
        (None, None) \<Rightarrow> True | (Some r, Some s) \<Rightarrow> same_rule g h r s | _ \<Rightarrow> False)"

definition same_document :: "graph \<Rightarrow> graph \<Rightarrow> bool" where
  "same_document g h \<longleftrightarrow>
     (\<forall>m \<in> live h. \<exists>n. Graph_find g (n_path (g_node h m)) = Some n \<and> same_node g h n m) \<and>
     g_roots g = {n \<in> live g. \<exists>m \<in> g_roots h. n_path (g_node g n) = n_path (g_node h m)} \<and>
     (\<forall>n \<in> live g. (\<exists>m \<in> live h. same_node g h n m) \<or>
        (\<exists>m \<in> live h. \<exists>n' r. same_node g h n' m \<and> n_child (g_node g n') = Some r \<and> n \<in> set (implicit_part (g_rule g r))))"

text \<open>The state while the graph is traversed: the rules \<open>R\<close> are being rebuilt, everything else is as in the old graph.\<close>

definition rebuilding :: "rid set \<Rightarrow> graph \<Rightarrow> graph \<Rightarrow> bool" where
  "rebuilding R g G \<longleftrightarrow> g_node G = g_node g \<and> g_nodes G = g_nodes g \<and> g_rules G = g_rules g \<and> (\<forall>r. r \<notin> R \<longrightarrow> g_rule G r = g_rule g r)"

definition visiting :: "graph \<Rightarrow> nid set \<Rightarrow> (string \<times> nid) list \<Rightarrow> nid set \<Rightarrow> reloader" where
  "visiting G S originals seen = \<lparr>rd_graph = G\<lparr>g_sources := S\<rparr>, rd_originalNodes = originals, rd_nodesSeen = seen, rd_freedRules = {},
     rd_freedNodes = {}, rd_requests = []\<rparr>"

lemma visiting_sel [simp]:
  "rd_graph (visiting G S X N) = G\<lparr>g_sources := S\<rparr>" "rd_originalNodes (visiting G S X N) = X" "rd_nodesSeen (visiting G S X N) = N"
  "rd_freedRules (visiting G S X N) = {}" "rd_freedNodes (visiting G S X N) = {}" "rd_requests (visiting G S X N) = []"
  by (simp_all add: visiting_def)

lemma visiting_upd [simp]:
  "(visiting G S X N)\<lparr>rd_nodesSeen := N'\<rparr> = visiting G S X N'" "(visiting G S X N)\<lparr>rd_originalNodes := X'\<rparr> = visiting G S X' N"
  "set_graph (G'\<lparr>g_sources := S'\<rparr>) (visiting G S X N) = visiting G' S' X N"
  "forget_original p (visiting G S X N) = visiting G S (AList.delete p X) N"
  "deref_rule r (visiting G S X N) k = k" "deref_node n (visiting G S X N) k = k"
  by (simp_all add: visiting_def set_graph_def forget_original_def deref_rule_def deref_node_def)

lemma upd_rule_sources [simp]: "upd_rule r f (G\<lparr>g_sources := S\<rparr>) = (upd_rule r f G)\<lparr>g_sources := S\<rparr>"
  by (simp add: upd_rule_def)

lemma visiting_upd_rule [simp]:
  "set_graph (upd_rule r f G\<lparr>g_sources := S'\<rparr>) (visiting G0 S X N) = visiting (upd_rule r f G) S' X N"
  by (simp add: visiting_def set_graph_def)

text \<open>What a traversal adds to the sources, removes from the nodes to delete, and marks as seen; every node that it has seen
  is dealt with.\<close>

definition dealt :: "graph \<Rightarrow> nid set \<Rightarrow> (string \<times> nid) list \<Rightarrow> nid set \<Rightarrow> nid \<Rightarrow> bool" where
  "dealt g S X N m \<longleftrightarrow>
     (case n_child (g_node g m) of
        None \<Rightarrow> m \<in> S
      | Some r \<Rightarrow> (\<forall>i \<in> set (explicit_inputs (g_rule g r)). i \<in> N) \<and>
          (\<forall>i \<in> set (r_inputs (g_rule g r)). n_path (g_node g i) \<notin> fst ` set X) \<and>
          (\<forall>i \<in> set (implicit_part (g_rule g r)). Node_isSource g i \<longrightarrow> i \<in> S))"

definition reloads :: "graph \<Rightarrow> nid set \<Rightarrow> (string \<times> nid) list \<Rightarrow> nid set \<Rightarrow> nid set \<Rightarrow> (string \<times> nid) list \<Rightarrow> nid set \<Rightarrow> bool" where
  "reloads g S X N S' X' N' \<longleftrightarrow> S \<subseteq> S' \<and> S' \<subseteq> S \<union> g_sources g \<and> set X' \<subseteq> set X \<and> N \<subseteq> N' \<and> (\<forall>m \<in> N' - N. dealt g S' X' N' m)"

lemma dealt_mono: "dealt g S X N m \<Longrightarrow> S \<subseteq> S' \<Longrightarrow> set X' \<subseteq> set X \<Longrightarrow> N \<subseteq> N' \<Longrightarrow> dealt g S' X' N' m"
  using image_mono [of "set X'" "set X" fst] unfolding dealt_def by (cases "n_child (g_node g m)") (simp_all, blast+)

lemma reloads_refl: "reloads g S X N S X N"
  by (simp add: reloads_def)

lemma reloads_trans: "reloads g S X N S' X' N' \<Longrightarrow> reloads g S' X' N' S'' X'' N'' \<Longrightarrow> reloads g S X N S'' X'' N''"
  unfolding reloads_def using dealt_mono [of g S' X' N' _ S'' X'' N''] by (blast intro: dealt_mono)

lemma reloads_forget: "reloads g S (AList.delete p X) N S' X' N' \<Longrightarrow> reloads g S X N S' X' N'"
  by (auto simp: reloads_def AList.delete_eq)

lemma upd_rule_twice [simp]: "upd_rule r f (upd_rule r f' G) = upd_rule r (\<lambda>rl. f (f' rl)) G"
  by (simp add: upd_rule_def)

lemma upd_rule_same: "f (g_rule G r) = g_rule G r \<Longrightarrow> upd_rule r f G = G"
  by (simp add: upd_rule_def)

lemma put_node_same:
  assumes "map_of (g_nodes G) (n_path (g_node G n)) = Some n" "distinct (map fst (g_nodes G))"
  shows "put_node n G = G"
proof -
  have "AList.update k v xs = xs" if "map_of xs k = Some v" for k v and xs :: "(string \<times> nid) list"
    using that by (induction xs) (auto split: if_splits)
  then show ?thesis using assms(1) by (simp add: put_node_def)
qed

lemma getNode_head:
  "n_path (g_node G n) = n_path (g_node (re_new env) m) \<Longrightarrow>
     getNode env (n # ns) m (visiting G S X N) = Inr ((n, True, ns), visiting G S (AList.delete (n_path (g_node G n)) X) N)"
  by (simp add: getNode_def)

lemma set_delete: "set (AList.delete p X) = {x \<in> set X. fst x \<noteq> p}"
  by (auto simp: AList.delete_eq)

lemma update_outputs_same:
  "map (\<lambda>n. n_path (g_node G n)) ns = map (\<lambda>m. n_path (g_node (re_new env) m)) ms \<Longrightarrow>
   \<exists>X'. foldM (update_output env r) ms (ns, c, visiting G S X N) =
     Inr ([], c, visiting (upd_rule r (\<lambda>rl. rl\<lparr>r_outputs := r_outputs rl @ ns\<rparr>) G) S X' N) \<and> set X' \<subseteq> set X"
proof (induction ns arbitrary: ms G X)
  case Nil
  then show ?case by (auto simp: upd_rule_same)
next
  case (Cons n ns)
  then obtain m ms' where ms: "ms = m # ms'" "n_path (g_node G n) = n_path (g_node (re_new env) m)" by (cases ms) auto
  have step: "update_output env r m (n # ns, c, visiting G S X N) =
    Inr (ns, c, visiting (upd_rule r (\<lambda>rl. rl\<lparr>r_outputs := r_outputs rl @ [n]\<rparr>) G) S (AList.delete (n_path (g_node G n)) X) N)"
    by (simp add: update_output_def getNode_head [OF ms(2)])
  from Cons.IH [of "upd_rule r (\<lambda>rl. rl\<lparr>r_outputs := r_outputs rl @ [n]\<rparr>) G" ms' "AList.delete (n_path (g_node G n)) X"] Cons.prems ms
  obtain X' where X': "foldM (update_output env r) ms' (ns, c, visiting (upd_rule r (\<lambda>rl. rl\<lparr>r_outputs := r_outputs rl @ [n]\<rparr>) G) S
      (AList.delete (n_path (g_node G n)) X) N) =
     Inr ([], c, visiting (upd_rule r (\<lambda>rl. rl\<lparr>r_outputs := r_outputs rl @ n # ns\<rparr>) G) S X' N)" "set X' \<subseteq> set X"
    by (auto simp: set_delete)
  then show ?case by (intro exI [of _ X']) (simp add: ms(1) step)
qed

lemma updateRuleOutputs_same:
  assumes "map (\<lambda>n. n_path (g_node G n)) (r_outputs (g_rule G r)) = map (\<lambda>m. n_path (g_node (re_new env) m)) (r_outputs (g_rule (re_new env) s))"
  shows "\<exists>X'. updateRuleOutputs env r s (visiting G S X N) = Inr (False, visiting G S X' N) \<and> set X' \<subseteq> set X"
proof -
  let ?G = "upd_rule r (\<lambda>rl. rl\<lparr>r_outputs := []\<rparr>) G"
  from update_outputs_same [of ?G "r_outputs (g_rule G r)" env "r_outputs (g_rule (re_new env) s)" r False S X N] assms
  obtain X' where "foldM (update_output env r) (r_outputs (g_rule (re_new env) s)) (r_outputs (g_rule G r), False, visiting ?G S X N) =
     Inr ([], False, visiting (upd_rule r (\<lambda>rl. rl\<lparr>r_outputs := r_outputs (g_rule G r)\<rparr>) G) S X' N)" "set X' \<subseteq> set X" by auto
  then show ?thesis by (intro exI [of _ X']) (simp add: updateRuleOutputs_def upd_rule_same)
qed

lemma markInputReady_step:
  assumes "r_numReady (g_rule G r) < length (r_inputs (g_rule G r))"
  shows "on_graph (Rule_markInputReady r) (visiting G S X N) = Inr (visiting (upd_rule r (\<lambda>rl. rl\<lparr>r_numReady := Suc (r_numReady rl)\<rparr>) G) S X N)"
  using assms by (simp add: on_graph_def Rule_markInputReady_def)

lemma input_ready_upd [simp]: "input_ready (upd_rule r f G) n = input_ready G n" "input_ready (G\<lparr>g_sources := S\<rparr>) n = input_ready G n"
  by (simp_all add: input_ready_def Node_isSource_def Node_isDirty_def)

text \<open>One more input at the end of a rule that is being rebuilt.\<close>

definition extended :: "graph \<Rightarrow> nid list \<Rightarrow> rule \<Rightarrow> rule" where
  "extended G ns rl = rl\<lparr>r_inputs := r_inputs rl @ ns, r_numReady := r_numReady rl + length (filter (input_ready G) ns)\<rparr>"

lemma extended_append: "extended G ns (extended G ns' rl) = extended G (ns' @ ns) rl"
  by (simp add: extended_def)

lemma extended_ready:
  "r_numReady (g_rule G r) \<le> length (r_inputs (g_rule G r)) \<Longrightarrow> r_numReady (extended G ns (g_rule G r)) \<le> length (r_inputs (extended G ns (g_rule G r)))"
  using length_filter_le [of "input_ready G" ns] by (simp add: extended_def del: length_filter_le)

lemma push_input:
  assumes "r_numReady (g_rule G r) \<le> length (r_inputs (g_rule G r))"
  shows "(let st = visiting (upd_rule r (\<lambda>rl. rl\<lparr>r_inputs := r_inputs rl @ [n]\<rparr>) G) S X N
      in if input_ready (rd_graph st) n then on_graph (Rule_markInputReady r) st else Inr st) =
    Inr (visiting (upd_rule r (extended G [n]) G) S X N)"
proof (cases "input_ready G n")
  case True
  then show ?thesis using assms by (simp add: markInputReady_step extended_def)
next
  case False
  then have "upd_rule r (extended G [n]) G = upd_rule r (\<lambda>rl. rl\<lparr>r_inputs := r_inputs rl @ [n]\<rparr>) G" by (simp add: extended_def)
  then show ?thesis using False by simp
qed

lemma keep_implicit_step:
  assumes "map_of (g_nodes G) (n_path (g_node G n)) = Some n" "distinct (map fst (g_nodes G))"
    and "r_numReady (g_rule G r) \<le> length (r_inputs (g_rule G r))"
  shows "keep_implicit r n (visiting G S X N) =
    Inr (visiting (upd_rule r (extended G [n]) G) (S \<union> {m \<in> {n}. Node_isSource G m}) (AList.delete (n_path (g_node G n)) X) N)"
proof -
  let ?G = "upd_rule r (\<lambda>rl. rl\<lparr>r_inputs := r_inputs rl @ [n]\<rparr>) G"
  have "put_node n (?G\<lparr>g_sources := S\<rparr>) = ?G\<lparr>g_sources := S\<rparr>" by (rule put_node_same) (use assms in simp_all)
  moreover have "Node_isSource (?G\<lparr>g_sources := S\<rparr>) n = Node_isSource G n" by (simp add: Node_isSource_def)
  moreover have "S \<union> {m \<in> {n}. Node_isSource G m} = (if Node_isSource G n then insert n S else S)" by auto
  ultimately show ?thesis
    using push_input [OF assms(3), of n "insert n S" "AList.delete (n_path (g_node G n)) X" N]
      push_input [OF assms(3), of n S "AList.delete (n_path (g_node G n)) X" N]
    by (cases "Node_isSource G n"; cases "input_ready G n") (simp_all add: keep_implicit_def Let_def)
qed

lemma keep_implicit_loop:
  "\<forall>n \<in> set ns. map_of (g_nodes G) (n_path (g_node G n)) = Some n \<Longrightarrow> distinct (map fst (g_nodes G)) \<Longrightarrow>
   r_numReady (g_rule G r) \<le> length (r_inputs (g_rule G r)) \<Longrightarrow>
   \<exists>X'. foldM (keep_implicit r) ns (visiting G S X N) =
     Inr (visiting (upd_rule r (extended G ns) G) (S \<union> {m \<in> set ns. Node_isSource G m}) X' N) \<and>
     set X' = {x \<in> set X. \<forall>n \<in> set ns. fst x \<noteq> n_path (g_node G n)}"
proof (induction ns arbitrary: G S X)
  case Nil
  then show ?case by (auto simp: upd_rule_same extended_def)
next
  case (Cons n ns)
  let ?G = "upd_rule r (extended G [n]) G" and ?X = "AList.delete (n_path (g_node G n)) X"
  let ?S = "S \<union> {m \<in> {n}. Node_isSource G m}"
  have step: "keep_implicit r n (visiting G S X N) = Inr (visiting ?G ?S ?X N)" by (rule keep_implicit_step) (use Cons.prems in auto)
  have ready: "input_ready ?G = input_ready G" by (simp add: fun_eq_iff)
  have sel: "extended ?G ns = extended G ns" "Node_isSource ?G = Node_isSource G"
    by (rule ext, simp only: extended_def [of ?G ns] extended_def [of G ns] ready) (simp add: fun_eq_iff Node_isSource_def)
  have "r_numReady (g_rule ?G r) \<le> length (r_inputs (g_rule ?G r))" using extended_ready [OF Cons.prems(3), of "[n]"] by simp
  from Cons.IH [OF _ _ this, of ?S ?X] Cons.prems(1,2) obtain X' where X':
    "foldM (keep_implicit r) ns (visiting ?G ?S ?X N) =
       Inr (visiting (upd_rule r (extended G ns) ?G) (?S \<union> {m \<in> set ns. Node_isSource G m}) X' N)"
    "set X' = {x \<in> set ?X. \<forall>n \<in> set ns. fst x \<noteq> n_path (g_node G n)}" unfolding sel by auto
  have "upd_rule r (extended G ns) ?G = upd_rule r (extended G (n # ns)) G" by (simp add: extended_append)
  moreover have "?S \<union> {m \<in> set ns. Node_isSource G m} = S \<union> {m \<in> set (n # ns). Node_isSource G m}" by auto
  ultimately show ?case using X' step by (intro exI [of _ X']) (auto simp: set_delete)
qed

lemma explicit_implicit: "explicit_inputs rl @ implicit_part rl = r_inputs rl"
  by (simp add: explicit_inputs_def implicit_part_def)

lemma length_implicit: "r_numImplicit rl \<le> length (r_inputs rl) \<Longrightarrow> length (implicit_part rl) = r_numImplicit rl"
  by (simp add: implicit_part_def)

text \<open>The rule after its explicit inputs were rebuilt.\<close>

definition started :: "graph \<Rightarrow> rule \<Rightarrow> nid list \<Rightarrow> rule" where
  "started G rl ns = extended G ns (rl\<lparr>r_inputs := [], r_numReady := 0, r_numImplicit := 0\<rparr>)"

lemma finish_update_same:
  assumes "same_rule g (re_new env) r s" "g_node G = g_node g" "g_rule G r = started g rl (explicit_inputs rl)" "rl = g_rule g r"
    and "\<forall>n \<in> set (r_inputs rl). map_of (g_nodes G) (n_path (g_node g n)) = Some n" "distinct (map fst (g_nodes G))"
    and "counter_ok g r" "r_numImplicit rl \<le> length (r_inputs rl)"
  shows "\<exists>X'. finish_update env r (implicit_part rl) s False (visiting G S X N) =
      Inr (False, visiting (upd_rule r (\<lambda>_. rl) G) (S \<union> {m \<in> set (implicit_part rl). Node_isSource g m}) X' N) \<and>
    set X' \<subseteq> {x \<in> set X. \<forall>n \<in> set (implicit_part rl). fst x \<noteq> n_path (g_node g n)}"
proof -
  note same = assms(1) [unfolded same_rule_def, folded assms(4)]
  have ready: "input_ready G = input_ready g" "Node_isSource G = Node_isSource g"
    by (simp_all add: fun_eq_iff input_ready_def Node_isSource_def Node_isDirty_def assms(2))
  have rec: "r_outputs (g_rule G r) = r_outputs rl" "r_command (g_rule G r) = r_command rl" "r_depfile (g_rule G r) = r_depfile rl"
    "r_numReady (g_rule G r) \<le> length (r_inputs (g_rule G r))" by (simp_all add: assms(3) started_def extended_def)
  have "map (\<lambda>n. n_path (g_node G n)) (r_outputs (g_rule G r)) = map (\<lambda>m. n_path (g_node (re_new env) m)) (r_outputs (g_rule (re_new env) s))"
    using same by (simp add: rec assms(2))
  from updateRuleOutputs_same [OF this, of S X N] obtain X1 where
    X1: "updateRuleOutputs env r s (visiting G S X N) = Inr (False, visiting G S X1 N)" "set X1 \<subseteq> set X" by blast
  have imp: "\<forall>n \<in> set (implicit_part rl). map_of (g_nodes G) (n_path (g_node G n)) = Some n"
    using assms(5) set_append [of "explicit_inputs rl" "implicit_part rl"] by (auto simp: assms(2) explicit_implicit)
  from keep_implicit_loop [OF imp assms(6) rec(4), of S X1 N] obtain X' where X':
    "foldM (keep_implicit r) (implicit_part rl) (visiting G S X1 N) =
       Inr (visiting (upd_rule r (extended G (implicit_part rl)) G) (S \<union> {m \<in> set (implicit_part rl). Node_isSource g m}) X' N)"
    "set X' = {x \<in> set X1. \<forall>n \<in> set (implicit_part rl). fst x \<noteq> n_path (g_node g n)}" unfolding ready assms(2) by blast
  have cmd: "set_graph (Rule_setCommand r (r_command rl) (G\<lparr>g_sources := S\<rparr>)) (visiting G S X1 N) = visiting G S X1 N"
    using upd_rule_same [of "\<lambda>rl'. rl'\<lparr>r_command := r_command rl\<rparr>" G r] rec(2) by (simp add: Rule_setCommand_def)
  have "(extended G (implicit_part rl) (g_rule G r))\<lparr>r_numImplicit := length (implicit_part rl)\<rparr> = rl"
    unfolding assms(3) started_def using assms(7) explicit_implicit [of rl] length_implicit [OF assms(8)]
    by (simp add: extended_def ready counter_ok_def assms(4) filter_append [symmetric] length_append [symmetric] del: filter_append length_append)
  then have all: "upd_rule r (\<lambda>rl'. (extended G (implicit_part rl) rl')\<lparr>r_numImplicit := length (implicit_part rl)\<rparr>) G = upd_rule r (\<lambda>_. rl) G"
    by (simp add: upd_rule_def)
  show ?thesis using X1 X' same cmd all
    by (intro exI [of _ X']) (auto simp: finish_update_def updateRuleDepfiles_def rec Let_def)
qed

subsection \<open>Traversal\<close>

definition unchanged :: "reload_env \<Rightarrow> graph \<Rightarrow> bool" where
  "unchanged env g \<longleftrightarrow> wf_graph g \<and> acyclic_graph g \<and> counters_ok g \<and> wf_graph (re_new env) \<and> acyclic_graph (re_new env) \<and>
     same_document g (re_new env)"

lemma Graph_find_live:
  assumes "wf_graph g" "n \<in> live g"
  shows "Graph_find g (n_path (g_node g n)) = Some n"
proof -
  obtain p where "(p, n) \<in> set (g_nodes g)" using assms(2) by (auto simp: live_def)
  with assms(1) show ?thesis by (auto simp: wf_graph_def Graph_find_def)
qed

lemma same_node_find:
  assumes "unchanged env g" "n \<in> live g" "m \<in> live (re_new env)" "n_path (g_node g n) = n_path (g_node (re_new env) m)"
  shows "same_node g (re_new env) n m"
proof -
  have "wf_graph g" using assms(1) by (simp add: unchanged_def)
  from Graph_find_live [OF this assms(2)] show ?thesis using assms(1,3,4) by (auto simp: unchanged_def same_document_def)
qed

lemma set_inputs_split: "set (r_inputs rl) = set (explicit_inputs rl) \<union> set (implicit_part rl)"
  by (simp add: set_append [symmetric] explicit_implicit del: set_append)

lemma same_inputs:
  assumes "unchanged env g" "r \<in> set (g_rules g)" "s \<in> set (g_rules (re_new env))" "same_rule g (re_new env) r s"
  shows "list_all2 (same_node g (re_new env)) (explicit_inputs (g_rule g r)) (r_inputs (g_rule (re_new env) s))"
proof -
  have wf: "wf_graph g" "wf_graph (re_new env)" using assms(1) by (simp_all add: unchanged_def)
  have "list_all2 (\<lambda>n m. n_path (g_node g n) = n_path (g_node (re_new env) m)) (explicit_inputs (g_rule g r)) (r_inputs (g_rule (re_new env) s))"
    using assms(4) by (simp only: same_rule_def list_all2_eq list_all2_map1 list_all2_map2)
  then show ?thesis
  proof (rule list.rel_mono_strong)
    fix n m assume "n \<in> set (explicit_inputs (g_rule g r))" "m \<in> set (r_inputs (g_rule (re_new env) s))"
      "n_path (g_node g n) = n_path (g_node (re_new env) m)"
    then show "same_node g (re_new env) n m"
      using wf_input [OF wf(1) assms(2)] wf_input [OF wf(2) assms(3)] same_node_find [OF assms(1)] by (simp add: set_inputs_split)
  qed
qed

text \<open>A call for a node that leaves the graph as it is.\<close>

definition keeps :: "reload_env \<Rightarrow> graph \<Rightarrow> rid set \<Rightarrow> nat \<Rightarrow> nid \<Rightarrow> nid \<Rightarrow> bool" where
  "keeps env g R k n m \<longleftrightarrow> (\<forall>G S X N. rebuilding R g G \<longrightarrow>
     (\<exists>S' X' N'. updateSubGraph_node env k n m (visiting G S X N) = Inr (False, visiting G S' X' N') \<and> reloads g S X N S' X' N' \<and> n \<in> N'))"

lemma rebuilding_upd: "rebuilding R g G \<Longrightarrow> r \<in> R \<Longrightarrow> rebuilding R g (upd_rule r f G)"
  by (auto simp: rebuilding_def)

lemma add_input_same:
  assumes "g_node G = g_node g" "r_numReady (g_rule G r) \<le> length (r_inputs (g_rule G r))"
  shows "add_input env r n False (visiting G S X N) = Inr (visiting (upd_rule r (extended g [n]) G) S X N)"
proof -
  have "extended g [n] = extended G [n]" using assms(1)
    by (simp add: fun_eq_iff extended_def input_ready_def Node_isSource_def Node_isDirty_def)
  then show ?thesis using push_input [OF assms(2), of n S X N] by (simp add: add_input_def)
qed

lemma inputs_loop_same:
  assumes "list_all2 (\<lambda>n m. n_path (g_node g n) = n_path (g_node (re_new env) m) \<and> keeps env g R k n m) ns ms"
    and "rebuilding R g G" "r \<in> R" "r_numReady (g_rule G r) \<le> length (r_inputs (g_rule G r))"
  shows "\<exists>S' X' N'. foldM (update_input env r (updateSubGraph_node env k))
                ms (ns, False, visiting G S X N) = Inr ([], False, visiting (upd_rule r (extended g ns) G) S' X' N') \<and>
      reloads g S X N S' X' N' \<and> set ns \<subseteq> N' \<and> (\<forall>n \<in> set ns. n_path (g_node g n) \<notin> fst ` set X')"
    (is "\<exists>S' X' N'. foldM ?body ms _ = _ \<and> _")
  using assms
proof (induction ns arbitrary: ms G S X N)
  case Nil
  then show ?case by (intro exI [of _ S] exI [of _ X] exI [of _ N]) (simp add: upd_rule_same extended_def reloads_refl)
next
  case (Cons n ns)
  then obtain m ms' where ms: "ms = m # ms'" "n_path (g_node g n) = n_path (g_node (re_new env) m)" "keeps env g R k n m"
    "list_all2 (\<lambda>n m. n_path (g_node g n) = n_path (g_node (re_new env) m) \<and> keeps env g R k n m) ns ms'" by (cases ms) auto
  let ?X = "AList.delete (n_path (g_node g n)) X" and ?G = "upd_rule r (extended g [n]) G"
  have nodes: "g_node G = g_node g" using Cons.prems(2) by (simp add: rebuilding_def)
  from ms(3) Cons.prems(2) obtain S1 X1 N1 where one: "updateSubGraph_node env k n m (visiting G S ?X N) = Inr (False, visiting G S1 X1 N1)"
    "reloads g S ?X N S1 X1 N1" "n \<in> N1" unfolding keeps_def by blast
  have step: "?body m (n # ns, False, visiting G S X N) = Inr (ns, False, visiting ?G S1 X1 N1)"
    using getNode_head [of G n env m ns S X N] ms(2) one(1) add_input_same [OF nodes Cons.prems(4), of env n S1 X1 N1]
    by (simp add: nodes update_input_def)
  have "r_numReady (g_rule ?G r) \<le> length (r_inputs (g_rule ?G r))" using Cons.prems(4) by (simp add: extended_def)
  from Cons.IH [OF ms(4) rebuilding_upd [OF Cons.prems(2,3)] Cons.prems(3) this, of S1 X1 N1] obtain S' X' N' where
    rest: "foldM ?body ms' (ns, False, visiting ?G S1 X1 N1) = Inr ([], False, visiting (upd_rule r (extended g ns) ?G) S' X' N')"
      "reloads g S1 X1 N1 S' X' N'" "set ns \<subseteq> N'" "\<forall>n \<in> set ns. n_path (g_node g n) \<notin> fst ` set X'" by blast
  have "upd_rule r (extended g ns) ?G = upd_rule r (extended g (n # ns)) G" by (simp add: extended_append)
  moreover have "reloads g S X N S' X' N'" using reloads_trans [OF reloads_forget [OF one(2)] rest(2)] .
  moreover have "n \<in> N'" "n_path (g_node g n) \<notin> fst ` set X'"
    using one(2,3) rest(2) by (auto simp: reloads_def set_delete)
  ultimately show ?case using step rest unfolding ms(1)
    by (intro exI [of _ S'] exI [of _ X'] exI [of _ N']) (simp del: split_paired_Ex)
qed

lemma rule_same:
  assumes "unchanged env g" "r \<in> set (g_rules g)" "s \<in> set (g_rules (re_new env))" "same_rule g (re_new env) r s"
    and "rebuilding R g G" "r \<notin> R" "\<forall>n \<in> set (explicit_inputs (g_rule g r)). \<forall>m. same_node g (re_new env) n m \<longrightarrow> keeps env g (insert r R) k n m"
  shows "\<exists>S' X' N'. updateSubGraph_rule env (Suc k) r s (visiting G S X N) = Inr (False, visiting G S' X' N') \<and> reloads g S X N S' X' N' \<and>
     set (explicit_inputs (g_rule g r)) \<subseteq> N' \<and> (\<forall>i \<in> set (r_inputs (g_rule g r)). n_path (g_node g i) \<notin> fst ` set X') \<and>
     (\<forall>i \<in> set (implicit_part (g_rule g r)). Node_isSource g i \<longrightarrow> i \<in> S')"
proof -
  let ?rl = "g_rule g r" and ?G = "upd_rule r (\<lambda>rl. rl\<lparr>r_inputs := [], r_numReady := 0, r_numImplicit := 0\<rparr>) G"
  have wf: "wf_graph g" using assms(1) by (simp add: unchanged_def)
  have G: "g_rule G r = ?rl" "g_node G = g_node g" "g_nodes G = g_nodes g" using assms(5,6) by (simp_all add: rebuilding_def)
  have "list_all2 (\<lambda>n m. n_path (g_node g n) = n_path (g_node (re_new env) m) \<and> keeps env g (insert r R) k n m)
      (explicit_inputs ?rl) (r_inputs (g_rule (re_new env) s))"
    using same_inputs [OF assms(1-4)] by (rule list.rel_mono_strong) (use assms(7) in \<open>auto simp: same_node_def\<close>)
  moreover have "rebuilding (insert r R) g ?G" using assms(5) by (auto simp: rebuilding_def)
  ultimately obtain S1 X1 N1 where loop: "foldM (update_input env r (updateSubGraph_node env k))
      (r_inputs (g_rule (re_new env) s)) (explicit_inputs ?rl, False, visiting ?G S X N) =
        Inr ([], False, visiting (upd_rule r (extended g (explicit_inputs ?rl)) ?G) S1 X1 N1)"
      "reloads g S X N S1 X1 N1" "set (explicit_inputs ?rl) \<subseteq> N1" "\<forall>n \<in> set (explicit_inputs ?rl). n_path (g_node g n) \<notin> fst ` set X1"
    using inputs_loop_same [of g env "insert r R" k "explicit_inputs ?rl" "r_inputs (g_rule (re_new env) s)" ?G r S X N] by auto
  let ?G1 = "upd_rule r (extended g (explicit_inputs ?rl)) ?G"
  have wfr: "wf_rule g r" "distinct (map fst (g_nodes g))" "counter_ok g r" using wf assms(1,2) by (auto simp: wf_graph_def unchanged_def counters_ok_def)
  have found: "\<forall>n \<in> set (r_inputs ?rl). map_of (g_nodes ?G1) (n_path (g_node g n)) = Some n"
    using wf_input [OF wf assms(2)] Graph_find_live [OF wf] by (auto simp: Graph_find_def G(3))
  have "\<exists>X'. finish_update env r (implicit_part ?rl) s False (visiting ?G1 S1 X1 N1) =
      Inr (False, visiting (upd_rule r (\<lambda>_. ?rl) ?G1) (S1 \<union> {m \<in> set (implicit_part ?rl). Node_isSource g m}) X' N1) \<and>
    set X' \<subseteq> {x \<in> set X1. \<forall>n \<in> set (implicit_part ?rl). fst x \<noteq> n_path (g_node g n)}"
    by (rule finish_update_same [OF assms(4)]) (use found wfr in \<open>simp_all add: started_def G wf_rule_def\<close>)
  then obtain X' where fin: "finish_update env r (implicit_part ?rl) s False (visiting ?G1 S1 X1 N1) =
      Inr (False, visiting G (S1 \<union> {m \<in> set (implicit_part ?rl). Node_isSource g m}) X' N1)"
    "set X' \<subseteq> {x \<in> set X1. \<forall>n \<in> set (implicit_part ?rl). fst x \<noteq> n_path (g_node g n)}" using G(1) by (auto simp: upd_rule_same)
  have imp: "{m \<in> set (implicit_part ?rl). Node_isSource g m} \<subseteq> g_sources g"
    using wf wf_input [OF wf assms(2)] by (auto simp: wf_graph_def set_inputs_split Node_isSource_def)
  have "reloads g S1 X1 N1 (S1 \<union> {m \<in> set (implicit_part ?rl). Node_isSource g m}) X' N1" using fin(2) imp by (auto simp: reloads_def)
  note more = reloads_trans [OF loop(2) this]
  have "updateSubGraph_rule env (Suc k) r s (visiting G S X N) =
      Inr (False, visiting G (S1 \<union> {m \<in> set (implicit_part ?rl). Node_isSource g m}) X' N1)"
    using loop(1) fin(1) by (simp add: G del: upd_rule_twice)
  moreover have "\<forall>i \<in> set (r_inputs ?rl). n_path (g_node g i) \<notin> fst ` set X'"
    unfolding set_inputs_split using loop(4) by (auto dest!: subsetD [OF fin(2)] intro: image_eqI [of _ fst])
  ultimately show ?thesis using more loop(3) by blast
qed

text \<open>The rules that are being rebuilt are above the node: it is, or leads to, one of their inputs.\<close>

definition above :: "graph \<Rightarrow> nid \<Rightarrow> rid set \<Rightarrow> bool" where
  "above g n R \<longleftrightarrow> (\<forall>r \<in> R. \<exists>i \<in> set (r_inputs (g_rule g r)). (n, i) \<in> (dep_edges g)\<^sup>*)"

lemma above_step:
  assumes "wf_graph g" "acyclic_graph g" "n \<in> live g" "n_child (g_node g n) = Some r" "above g n R"
  shows "r \<notin> R" "i \<in> set (r_inputs (g_rule g r)) \<Longrightarrow> above g i (insert r R)" "i \<in> set (r_inputs (g_rule g r)) \<Longrightarrow> height g n < height g i"
proof -
  have r: "r \<in> set (g_rules g)" "n \<in> set (r_outputs (g_rule g r))" using wf_child [OF assms(1,3,4)] by simp_all
  have edge: "(i, n) \<in> dep_edges g" if "i \<in> set (r_inputs (g_rule g r))" for i using that r by (auto simp: dep_edges_def)
  show "r \<notin> R"
  proof
    assume "r \<in> R"
    then obtain i where "i \<in> set (r_inputs (g_rule g r))" "(n, i) \<in> (dep_edges g)\<^sup>*" using assms(5) by (auto simp: above_def)
    then have "(n, n) \<in> (dep_edges g)\<^sup>+" using edge rtrancl_into_trancl1 by metis
    then show False using assms(2) by (simp add: acyclic_graph_def acyclic_def)
  qed
  show "above g i (insert r R)" if "i \<in> set (r_inputs (g_rule g r))"
    using assms(5) that converse_rtrancl_into_rtrancl [OF edge [OF that]] unfolding above_def by blast
  show "height g n < height g i" if "i \<in> set (r_inputs (g_rule g r))" using height_less [OF assms(1,2) edge [OF that]] .
qed

lemma node_seen: "n \<in> N \<Longrightarrow> \<exists>S' X' N'. updateSubGraph_node env (Suc k) n m (visiting G S X N) = Inr (False, visiting G S' X' N') \<and>
    reloads g S X N S' X' N' \<and> n \<in> N'"
  using reloads_refl by fastforce

lemma node_same:
  assumes "unchanged env g" "same_node g (re_new env) n m" "above g n R"
    and "\<And>i j r. n_child (g_node g n) = Some r \<Longrightarrow> i \<in> set (explicit_inputs (g_rule g r)) \<Longrightarrow> same_node g (re_new env) i j \<Longrightarrow>
           keeps env g (insert r R) k i j"
  shows "keeps env g R (Suc (Suc k)) n m"
  unfolding keeps_def
proof (intro allI impI)
  fix G S X N assume reb: "rebuilding R g G"
  have wf: "wf_graph g" "acyclic_graph g" "wf_graph (re_new env)" using assms(1) by (simp_all add: unchanged_def)
  have live: "n \<in> live g" "m \<in> live (re_new env)" using assms(2) by (simp_all add: same_node_def)
  have G: "g_node G = g_node g" "g_nodes G = g_nodes g" using reb by (simp_all add: rebuilding_def)
  have put: "put_node n (G\<lparr>g_sources := T\<rparr>) = G\<lparr>g_sources := T\<rparr>" for T
    by (rule put_node_same) (use Graph_find_live [OF wf(1) live(1)] wf(1) in \<open>simp_all add: G Graph_find_def wf_graph_def\<close>)
  show "\<exists>S' X' N'. updateSubGraph_node env (Suc (Suc k)) n m (visiting G S X N) = Inr (False, visiting G S' X' N') \<and>
      reloads g S X N S' X' N' \<and> n \<in> N'"
  proof (cases "n \<in> N")
    case False
    show ?thesis
    proof (cases "n_child (g_node g n)")
      case None
      then have "n \<in> g_sources g" "n_child (g_node (re_new env) m) = None"
        using wf(1) live(1) assms(2) by (auto simp: wf_graph_def same_node_def split: option.splits)
      then have "updateSubGraph_node env (Suc (Suc k)) n m (visiting G S X N) = Inr (False, visiting G (insert n S) X (insert n N))"
        using None False put by (simp add: Node_isSource_def G)
      moreover have "reloads g S X N (insert n S) X (insert n N)" using None \<open>n \<in> g_sources g\<close> by (auto simp: reloads_def dealt_def)
      ultimately show ?thesis by blast
    next
      case (Some r)
      then obtain s where s: "n_child (g_node (re_new env) m) = Some s" "same_rule g (re_new env) r s"
        using assms(2) by (auto simp: same_node_def split: option.splits)
      note a = above_step [OF wf(1,2) live(1) Some assms(3)]
      have "\<exists>S' X' N'. updateSubGraph_rule env (Suc k) r s (visiting G S X (insert n N)) = Inr (False, visiting G S' X' N') \<and>
          reloads g S X (insert n N) S' X' N' \<and>
          set (explicit_inputs (g_rule g r)) \<subseteq> N' \<and> (\<forall>i \<in> set (r_inputs (g_rule g r)). n_path (g_node g i) \<notin> fst ` set X') \<and>
          (\<forall>i \<in> set (implicit_part (g_rule g r)). Node_isSource g i \<longrightarrow> i \<in> S')"
        by (rule rule_same [OF assms(1) _ _ s(2) reb a(1)])
          (use wf_child [OF wf(1) live(1) Some] wf_child [OF wf(3) live(2) s(1)] assms(4) [OF Some] in auto)
      then obtain S' X' N' where r: "updateSubGraph_rule env (Suc k) r s (visiting G S X (insert n N)) = Inr (False, visiting G S' X' N')"
        "reloads g S X (insert n N) S' X' N'" "dealt g S' X' N' n" by (auto simp: dealt_def Some)
      have "updateSubGraph_node env (Suc (Suc k)) n m (visiting G S X N) = Inr (False, visiting G S' X' N')"
        unfolding updateSubGraph_node.simps(2) [of env "Suc k"] using Some False put r(1) by (simp add: Node_isSource_def G s(1) del: updateSubGraph_rule.simps)
      moreover have "reloads g S X N S' X' N'" "n \<in> N'" using r(2,3) by (auto simp: reloads_def)
      ultimately show ?thesis by blast
    qed
  qed (rule node_seen)
qed

lemma updateSubGraph_same:
  "unchanged env g \<Longrightarrow> same_node g (re_new env) n m \<Longrightarrow> above g n R \<Longrightarrow> 2 * (card (live g) - height g n) \<le> k \<Longrightarrow> keeps env g R k n m"
proof (induction k arbitrary: n m R rule: less_induct)
  case (less k)
  have wf: "wf_graph g" "acyclic_graph g" "n \<in> live g" using less.prems by (simp_all add: unchanged_def same_node_def)
  have h: "height g n < card (live g)" by (rule height_bound [OF wf])
  with less.prems(4) have "k \<noteq> 0" "k \<noteq> Suc 0" by auto
  then obtain k' where k: "k = Suc (Suc k')" by (metis not0_implies_Suc)
  show ?case unfolding k
  proof (rule node_same [OF less.prems(1-3)])
    fix i j r assume r: "n_child (g_node g n) = Some r" "i \<in> set (explicit_inputs (g_rule g r))" "same_node g (re_new env) i j"
    then have "i \<in> set (r_inputs (g_rule g r))" by (simp add: set_inputs_split)
    note a = above_step(2,3) [OF wf r(1) less.prems(3) this]
    show "keeps env g (insert r R) k' i j"
      by (rule less.IH [OF _ less.prems(1) r(3) a(1)]) (use a(2) less.prems(4) k h in auto)
  qed
qed

subsection \<open>The whole graph\<close>

text \<open>A node of the new graph that is no root is an explicit input of a rule of the old graph.\<close>

lemma consumer_match:
  assumes "unchanged env g" "m \<in> live (re_new env)" "same_node g (re_new env) n m" "m \<notin> g_roots (re_new env)"
  shows "\<exists>t p r. t \<in> live (re_new env) \<and> height (re_new env) t < height (re_new env) m \<and> same_node g (re_new env) p t \<and>
    n_child (g_node g p) = Some r \<and> n \<in> set (explicit_inputs (g_rule g r))"
proof -
  let ?h = "re_new env"
  have wf: "wf_graph g" "wf_graph ?h" "acyclic_graph ?h" using assms(1) by (simp_all add: unchanged_def)
  have "n_parents (g_node ?h m) \<noteq> []" using assms(2,4) wf(2) by (auto simp: wf_graph_def)
  then obtain s where s: "s \<in> set (g_rules ?h)" "m \<in> set (r_inputs (g_rule ?h s))"
    using wf_parent [OF wf(2) assms(2)] by (cases "n_parents (g_node ?h m)") auto
  then obtain t where t: "t \<in> set (r_outputs (g_rule ?h s))" using wf(2) by (cases "r_outputs (g_rule ?h s)") (auto simp: wf_graph_def wf_rule_def)
  have ch: "t \<in> live ?h" "n_child (g_node ?h t) = Some s" using wf_output [OF wf(2) s(1) t] by simp_all
  have less: "height ?h t < height ?h m" by (rule height_less [OF wf(2,3)]) (use s t in \<open>auto simp: dep_edges_def\<close>)
  obtain p where p: "same_node g ?h p t" using assms(1) ch(1) by (auto simp: unchanged_def same_document_def)
  obtain r where r: "n_child (g_node g p) = Some r" "same_rule g ?h r s" using p ch(2) by (auto simp: same_node_def split: option.splits)
  have "n_path (g_node ?h m) \<in> set (map (\<lambda>n. n_path (g_node g n)) (explicit_inputs (g_rule g r)))"
    using r(2) s(2) by (auto simp: same_rule_def)
  then obtain i where i: "i \<in> set (explicit_inputs (g_rule g r))" "n_path (g_node g i) = n_path (g_node g n)"
    using assms(3) by (auto simp: same_node_def)
  have "i \<in> live g" using wf_input [OF wf(1)] wf_child [OF wf(1) _ r(1)] p i(1) by (auto simp: same_node_def set_inputs_split)
  then have "i = n" using Graph_find_live [OF wf(1)] i(2) assms(3) by (metis option.inject same_node_def)
  with ch(1) less p r(1) i(1) show ?thesis by blast
qed

lemma all_seen:
  assumes "unchanged env g" "\<forall>n \<in> N. dealt g S X N n" "\<forall>m \<in> g_roots (re_new env). \<forall>n. same_node g (re_new env) n m \<longrightarrow> n \<in> N"
    and "m \<in> live (re_new env)" "same_node g (re_new env) n m"
  shows "n \<in> N"
  using assms(4,5)
proof (induction "height (re_new env) m" arbitrary: m n rule: less_induct)
  case less
  show ?case
  proof (cases "m \<in> g_roots (re_new env)")
    case False
    from consumer_match [OF assms(1) less.prems False] obtain t p r where "p \<in> N" "n_child (g_node g p) = Some r" "n \<in> set (explicit_inputs (g_rule g r))"
      using less.hyps by blast
    then show ?thesis using assms(2) by (auto simp: dealt_def)
  qed (use assms(3) less.prems(2) in blast)
qed

lemma set_graph_roots: "set_graph (G\<lparr>g_sources := S, g_roots := T\<rparr>) (visiting G' S' X N) = visiting (G\<lparr>g_roots := T\<rparr>) S X N"
  by (simp add: visiting_def set_graph_def)

lemma roots_same:
  assumes "unchanged env g" "2 * card (live g) \<le> k" "set ms \<subseteq> g_roots (re_new env)"
  shows "\<exists>S' X' N'. foldM (update_root env k) ms (visiting (g\<lparr>g_roots := T\<rparr>) S X N) =
      Inr (visiting (g\<lparr>g_roots := T \<union> {n \<in> live g. \<exists>m \<in> set ms. n_path (g_node g n) = n_path (g_node (re_new env) m)}\<rparr>) S' X' N') \<and>
    reloads g S X N S' X' N' \<and>
    (\<forall>m \<in> set ms. \<forall>n. same_node g (re_new env) n m \<longrightarrow> n \<in> N' \<and> n_path (g_node g n) \<notin> fst ` set X')"
  using assms(3)
proof (induction ms arbitrary: T S X N)
  case Nil
  then show ?case using reloads_refl by fastforce
next
  case (Cons m ms)
  let ?h = "re_new env" and ?G = "g\<lparr>g_roots := T\<rparr>"
  have wf: "wf_graph g" "wf_graph ?h" using assms(1) by (simp_all add: unchanged_def)
  have "m \<in> live ?h" using Cons.prems wf(2) by (auto simp: wf_graph_def)
  then obtain n where n: "Graph_find g (n_path (g_node ?h m)) = Some n" "same_node g ?h n m"
    using assms(1) by (auto simp: unchanged_def same_document_def)
  let ?X = "AList.delete (n_path (g_node g n)) X" and ?G' = "g\<lparr>g_roots := insert n T\<rparr>"
  have get: "getNodeFromAll env m (visiting ?G S X N) = Inr (n, visiting ?G S ?X N)"
    using n(1) by (simp add: getNodeFromAll_def Graph_find_def)
  have "keeps env g {} k n m" by (rule updateSubGraph_same [OF assms(1) n(2)]) (use assms(2) in \<open>simp_all add: above_def\<close>)
  moreover have "rebuilding {} g ?G" by (simp add: rebuilding_def)
  ultimately obtain S1 X1 N1 where one: "updateSubGraph_node env k n m (visiting ?G S ?X N) = Inr (False, visiting ?G S1 X1 N1)"
    "reloads g S ?X N S1 X1 N1" "n \<in> N1" unfolding keeps_def by blast
  have step: "update_root env k m (visiting ?G S X N) = Inr (visiting ?G' S1 X1 N1)"
    by (simp add: update_root_def get one(1) set_graph_roots)
  from Cons.IH [of "insert n T" S1 X1 N1] Cons.prems obtain S' X' N' where rest:
    "foldM (update_root env k) ms (visiting ?G' S1 X1 N1) =
      Inr (visiting (g\<lparr>g_roots := insert n T \<union> {n \<in> live g. \<exists>m \<in> set ms. n_path (g_node g n) = n_path (g_node ?h m)}\<rparr>) S' X' N')"
    "reloads g S1 X1 N1 S' X' N'" "\<forall>m \<in> set ms. \<forall>n. same_node g ?h n m \<longrightarrow> n \<in> N' \<and> n_path (g_node g n) \<notin> fst ` set X'" by auto
  have uniq: "n' = n" if "n' \<in> live g" "n_path (g_node g n') = n_path (g_node ?h m)" for n'
    using Graph_find_live [OF wf(1) that(1)] that(2) n(1) by simp
  have "insert n T \<union> {n \<in> live g. \<exists>m \<in> set ms. n_path (g_node g n) = n_path (g_node ?h m)} =
    T \<union> {n \<in> live g. \<exists>m' \<in> set (m # ms). n_path (g_node g n) = n_path (g_node ?h m')}"
    using uniq n(2) by (auto simp: same_node_def)
  moreover have "n \<in> N'" "n_path (g_node g n) \<notin> fst ` set X'" using one(2,3) rest(2) by (auto simp: reloads_def set_delete)
  moreover have "n' = n" if "same_node g ?h n' m" for n' using uniq that by (simp add: same_node_def)
  moreover have "reloads g S X N S' X' N'" using reloads_trans [OF reloads_forget [OF one(2)] rest(2)] .
  ultimately show ?case using step rest by (intro exI [of _ S'] exI [of _ X'] exI [of _ N']) auto
qed

lemma updateGraph_same:
  assumes "unchanged env g" "2 * card (live g) \<le> k"
  shows "\<exists>st. updateGraph env k (GraphReloader g) = Inr st \<and> rd_graph st = g \<and> rd_requests st = [] \<and> rd_freedRules st = {} \<and> rd_freedNodes st = {}"
proof -
  let ?h = "re_new env"
  have wf: "wf_graph g" "wf_graph ?h" and doc: "same_document g ?h" using assms(1) by (simp_all add: unchanged_def)
  have fin: "finite (g_roots ?h)" by (rule finite_subset [of _ "live ?h"]) (use wf(2) in \<open>auto simp: wf_graph_def\<close>)
  have init: "(GraphReloader g)\<lparr>rd_originalNodes := g_nodes g, rd_graph := g\<lparr>g_roots := {}, g_sources := {}\<rparr>\<rparr> = visiting (g\<lparr>g_roots := {}\<rparr>) {} (g_nodes g) {}"
    by (simp add: GraphReloader_def visiting_def)
  have roots: "{n \<in> live g. \<exists>m \<in> g_roots ?h. n_path (g_node g n) = n_path (g_node ?h m)} = g_roots g" using doc by (simp add: same_document_def)
  have orig: "rd_graph (GraphReloader g) = g" by (simp add: GraphReloader_def)
  from roots_same [OF assms, of "sorted_list_of_set (g_roots ?h)" "{}" "{}" "g_nodes g" "{}"] obtain S X N where run:
    "updateRoots env k (GraphReloader g) = Inr (visiting (g\<lparr>g_roots := g_roots g\<rparr>) S X N)" "reloads g {} (g_nodes g) {} S X N"
    "\<forall>m \<in> g_roots ?h. \<forall>n. same_node g ?h n m \<longrightarrow> n \<in> N \<and> n_path (g_node g n) \<notin> fst ` set X"
    unfolding updateRoots_def orig init by (auto simp: fin roots)
  have dealt: "\<forall>n \<in> N. dealt g S X N n" using run(2) by (simp add: reloads_def)
  have seen: "n \<in> N" if "m \<in> live ?h" "same_node g ?h n m" for n m using all_seen [OF assms(1) dealt _ that] run(3) by blast
  have rule: "dealt g S X N n'" if "m \<in> live ?h" "same_node g ?h n' m" for n' m using dealt seen [OF that] by blast
  have sources: "S = g_sources g"
  proof
    show "S \<subseteq> g_sources g" using run(2) by (simp add: reloads_def)
    show "g_sources g \<subseteq> S"
    proof
      fix n assume "n \<in> g_sources g"
      then have n: "n \<in> live g" "n_child (g_node g n) = None" using wf(1) by (simp_all add: wf_graph_def)
      then consider m where "m \<in> live ?h" "same_node g ?h n m" |
        m n' r where "m \<in> live ?h" "same_node g ?h n' m" "n_child (g_node g n') = Some r" "n \<in> set (implicit_part (g_rule g r))"
        using doc unfolding same_document_def by blast
      then show "n \<in> S"
      proof cases
        case (1 m)
        then show ?thesis using rule [OF 1] n(2) by (simp add: dealt_def)
      next
        case (2 m n' r)
        then show ?thesis using rule [OF 2(1,2)] n(2) by (simp add: dealt_def Node_isSource_def)
      qed
    qed
  qed
  have gone: "n_path (g_node g n) \<notin> fst ` set X" if live: "n \<in> live g" for n
  proof -
    have input: "n_path (g_node g n) \<notin> fst ` set X" if "m \<in> live ?h" "same_node g ?h n' m" "n_child (g_node g n') = Some r" "n \<in> set (r_inputs (g_rule g r))" for m n' r
      using rule [OF that(1,2)] that(3,4) by (auto simp: dealt_def)
    from live doc consider m where "m \<in> live ?h" "same_node g ?h n m" |
        m n' r where "m \<in> live ?h" "same_node g ?h n' m" "n_child (g_node g n') = Some r" "n \<in> set (implicit_part (g_rule g r))"
      unfolding same_document_def by blast
    then show ?thesis
    proof cases
      case (1 m)
      then show ?thesis
      proof (cases "m \<in> g_roots ?h")
        case False
        from consumer_match [OF assms(1) 1 False] input show ?thesis by (auto simp: set_inputs_split)
      qed (use run(3) 1 in blast)
    next
      case (2 m n' r)
      then show ?thesis using input by (simp add: set_inputs_split)
    qed
  qed
  have "set X \<subseteq> set (g_nodes g)" using run(2) by (simp add: reloads_def)
  moreover have "fst x \<notin> fst ` set X" if "x \<in> set (g_nodes g)" for x
  proof -
    have "n_path (g_node g (snd x)) = fst x" using that wf(1) unfolding wf_graph_def by (cases x) auto
    then show ?thesis using gone [of "snd x"] that by (simp add: live_def)
  qed
  ultimately have "X = []" by (cases X) auto
  then show ?thesis using run(1) sources by (simp add: updateGraph_def cleanStaleSubgraph_def)
qed

section \<open>Outputs that are removed\<close>

text \<open>The outputs of the new rule are the outputs of the old one that satisfy \<open>K\<close>.\<close>

lemma update_outputs_kept:
  "distinct (map (\<lambda>n. n_path (g_node G n)) (ds @ ns)) \<Longrightarrow>
   map (\<lambda>n. n_path (g_node G n)) (filter K ns) = map (\<lambda>m. n_path (g_node (re_new env) m)) ms \<Longrightarrow>
   \<exists>X'. foldM (update_output env r) ms (ds @ ns, c, visiting G S X N) =
     Inr (ds @ filter (\<lambda>n. \<not> K n) ns, c, visiting (upd_rule r (\<lambda>rl. rl\<lparr>r_outputs := r_outputs rl @ filter K ns\<rparr>) G) S X' N)"
proof (induction ns arbitrary: ds ms G X)
  case Nil
  then show ?case by (auto simp: upd_rule_same)
next
  case (Cons n ns)
  show ?case
  proof (cases "K n")
    case False
    then show ?thesis using Cons.IH [of G "ds @ [n]" ms X] Cons.prems by simp
  next
    case True
    then obtain m ms' where ms: "ms = m # ms'" "n_path (g_node G n) = n_path (g_node (re_new env) m)"
      "map (\<lambda>n. n_path (g_node G n)) (filter K ns) = map (\<lambda>m. n_path (g_node (re_new env) m)) ms'" using Cons.prems(2) by (cases ms) auto
    let ?G = "upd_rule r (\<lambda>rl. rl\<lparr>r_outputs := r_outputs rl @ [n]\<rparr>) G" and ?X = "AList.delete (n_path (g_node G n)) X"
    have "find (\<lambda>n'. n_path (g_node G n') = n_path (g_node G n)) (ds @ n # ns) = Some n"
      using Cons.prems(1) by (induction ds) auto
    moreover have "n \<notin> set ds" using Cons.prems(1) by auto
    ultimately have "getNode env (ds @ n # ns) m (visiting G S X N) = Inr ((n, True, ds @ ns), visiting G S ?X N)"
      by (simp add: getNode_def ms(2) [symmetric] remove1_append)
    then have step: "update_output env r m (ds @ n # ns, c, visiting G S X N) = Inr (ds @ ns, c, visiting ?G S ?X N)"
      by (simp add: update_output_def)
    show ?thesis using Cons.IH [of ?G ds ms' ?X] Cons.prems(1) ms(3) True by (simp add: ms(1) step)
  qed
qed

section \<open>Properties\<close>

text \<open>Example graphs: a source 1, a rule that builds 2 from it, and two rules that build 3 and 4 from 2.\<close>

definition ex_node :: "string \<Rightarrow> rid option \<Rightarrow> rid list \<Rightarrow> node" where
  "ex_node p c ps = (Node_init p True False)\<lparr>n_child := c, n_parents := ps, n_hash := p, n_hashDepfile := p\<rparr>"

definition ex_rule :: "string \<Rightarrow> nid list \<Rightarrow> nid list \<Rightarrow> rule" where
  "ex_rule c is os = (Rule_init is os)\<lparr>r_command := c, r_numReady := length is, r_hash := c, r_hashDepfile := c\<rparr>"

definition two_consumers :: "string \<Rightarrow> graph" where
  "two_consumers c = Graph_empty\<lparr>
     g_node := (\<lambda>n. if n = 1 then ex_node ''s'' None [1] else if n = 2 then ex_node ''x'' (Some 1) [2, 3]
        else if n = 3 then ex_node ''a'' (Some 2) [] else ex_node ''b'' (Some 3) []),
     g_rule := (\<lambda>r. if r = 1 then ex_rule c [1] [2] else if r = 2 then ex_rule ''ca'' [2] [3] else ex_rule ''cb'' [2] [4]),
     g_roots := {3, 4}, g_sources := {1}, g_nodes := [(''s'', 1), (''x'', 2), (''a'', 3), (''b'', 4)], g_rules := [1, 2, 3]\<rparr>"

definition example_reload :: "graph \<Rightarrow> reload_env" where
  "example_reload h = \<lparr>re_new = h, re_alloc = \<lparr>a_node = \<lambda>k. 100 + k, a_rule = \<lambda>k. 100 + k, a_junk = \<lambda>_. False\<rparr>, re_sha = (\<lambda>x. x),
     re_stat = (\<lambda>_. None), re_world = \<lparr>w_files = Map.empty, w_denied = {}, w_time = 0\<rparr>, re_watch = (\<lambda>_. None), re_unwatch = (\<lambda>_. None)\<rparr>"

lemmas ex_defs = two_consumers_def ex_node_def ex_rule_def example_reload_def Node_init_def Rule_init_def Graph_empty_def

lemma two_consumers_wf: "wf_graph (two_consumers c)" "counters_ok (two_consumers c)" "live (two_consumers c) = {1, 2, 3, 4}"
  by (auto simp: wf_graph_def wf_node_def wf_rule_def live_def counters_ok_def counter_ok_def input_ready_def Node_isSource_def
      Node_isDirty_def ex_defs)

lemma two_consumers_acyclic: "acyclic_graph (two_consumers c)"
  by (rule acyclic_graph_by_rank [where rank = "\<lambda>n. 5 - n"]) (auto simp: ex_defs)

lemma two_consumers_same: "same_document (two_consumers c) (two_consumers c)"
proof -
  have "explicit_inputs (g_rule (two_consumers c) r) = r_inputs (g_rule (two_consumers c) r)" for r by (simp add: explicit_inputs_def ex_defs)
  then have same: "same_node (two_consumers c) (two_consumers c) n n" if "n \<in> live (two_consumers c)" for n
    using that by (auto simp: same_node_def same_rule_def split: option.splits)
  show ?thesis unfolding same_document_def two_consumers_wf(3)
    using same Graph_find_live [OF two_consumers_wf(1)] two_consumers_wf(3) by (auto simp: ex_defs)
qed

text \<open>C25. Reloading a graph file that did not change does nothing: when the new graph has the same nodes and rules under the
  same paths, in the same order, and the old graph may have implicit dependencies on top, then the traversal ends, every
  rule is taken apart and put together again with the same inputs, outputs, command and counter, no node becomes out of
  date, nothing is deleted, and no request is sent to the service that watches files. Twice the number of nodes bounds
  the recursion.\<close>

theorem reload_unchanged:
  assumes "unchanged env g" "2 * card (live g) \<le> k"
  shows "\<exists>st. updateGraph env k (GraphReloader g) = Inr st \<and> rd_graph st = g \<and> rd_requests st = [] \<and> rd_freedRules st = {} \<and> rd_freedNodes st = {}"
  by (rule updateGraph_same [OF assms])

theorem reload_unchanged_witness:
  "\<exists>st. updateGraph (example_reload (two_consumers ''cc'')) 8 (GraphReloader (two_consumers ''cc'')) = Inr st \<and>
     rd_graph st = two_consumers ''cc'' \<and> rd_requests st = [] \<and> rd_freedRules st = {} \<and> rd_freedNodes st = {}"
proof (rule reload_unchanged)
  have "re_new (example_reload (two_consumers ''cc'')) = two_consumers ''cc''" by (simp add: example_reload_def)
  then show "unchanged (example_reload (two_consumers ''cc'')) (two_consumers ''cc'')"
    by (simp add: unchanged_def two_consumers_wf two_consumers_acyclic two_consumers_same)
qed (simp add: two_consumers_wf(3))

text \<open>Removing an output from a rule of the graph file aborts the reload, whatever the graph is: when the new rule keeps
  some of the outputs but not all, \<open>updateRuleOutputs\<close> has already emptied the list in which \<open>deleteChildRule\<close> looks for the
  removed one, so its assertion fails.\<close>

lemma removed_output_aborts:
  assumes "map (\<lambda>n. n_path (g_node G n)) (filter K (r_outputs (g_rule G r))) = map (\<lambda>m. n_path (g_node (re_new env) m)) (r_outputs (g_rule (re_new env) s))"
    and "distinct (map (\<lambda>n. n_path (g_node G n)) (r_outputs (g_rule G r)))" "\<forall>n \<in> set (r_outputs (g_rule G r)). n_child (g_node G n) = Some r"
    and "n \<in> set (r_outputs (g_rule G r))" "\<not> K n"
  shows "updateRuleOutputs env r s (visiting G S X N) = Inl (AssertFailed ''nodeIt != rule->outputs_.end()'')"
proof -
  let ?G = "upd_rule r (\<lambda>rl. rl\<lparr>r_outputs := []\<rparr>) G" and ?os = "r_outputs (g_rule G r)"
  from update_outputs_kept [of ?G "[]" ?os K env "r_outputs (g_rule (re_new env) s)" r False S X N] assms(1,2) obtain X' where
    loop: "foldM (update_output env r) (r_outputs (g_rule (re_new env) s)) (?os, False, visiting ?G S X N) =
      Inr (filter (\<lambda>n. \<not> K n) ?os, False, visiting (upd_rule r (\<lambda>rl. rl\<lparr>r_outputs := filter K ?os\<rparr>) G) S X' N)" by auto
  obtain d ds where d: "filter (\<lambda>n. \<not> K n) ?os = d # ds" using assms(4,5) by (cases "filter (\<lambda>n. \<not> K n) ?os") (auto simp: filter_empty_conv)
  then have "d \<in> set (filter (\<lambda>n. \<not> K n) ?os)" by simp
  then have "n_child (g_node G d) = Some r" "\<not> K d" using assms(3) by auto
  then have "deleteChildRule d (visiting (upd_rule r (\<lambda>rl. rl\<lparr>r_outputs := filter K ?os\<rparr>) G) S X' N) =
      Inl (AssertFailed ''nodeIt != rule->outputs_.end()'')" by (simp add: deleteChildRule_def Let_def set_graph_def)
  then show ?thesis by (simp add: updateRuleOutputs_def loop d)
qed

lemma removed_output_aborts_example:
  "updateRuleOutputs (example_reload (two_consumers ''cc'')) 1 1
     (visiting (upd_node 3 (\<lambda>nd. nd\<lparr>n_child := Some 1\<rparr>) (upd_rule 1 (\<lambda>rl. rl\<lparr>r_outputs := [2, 3]\<rparr>) (two_consumers ''cc''))) {} [] {}) =
   Inl (AssertFailed ''nodeIt != rule->outputs_.end()'')"
  by (rule removed_output_aborts [where K = "\<lambda>n. n = 2" and n = 3]) (auto simp: ex_defs)

lemmas reload_eval =
  updateGraph_def updateRoots_def update_root_def getNodeFromAll_def getNode_def GraphReloader_def set_graph_def
  on_graph_def deref_rule_def deref_node_def forget_original_def put_node_def update_input_def add_input_def
  finish_update_def updateRuleOutputs_def update_output_def updateRuleDepfiles_def implicit_part_def explicit_inputs_def
  cleanStaleSubgraph_def Let_def eval_nat_numeral upd_rule_def upd_node_def Node_isSource_def Node_isDirty_def
  Rule_isDirty_def input_ready_def Rule_markInputReady_def Graph_find_def Rule_setCommand_def Rule_setState_def
  updateNodeHash_def updateRuleHash_def Hasher_add_def Hasher_get_def Hasher_def Node_setHash_def Node_setHashDepfile_def
  Rule_setHash_def Rule_setHashDepfile_def Node_setState_def assert_that_def

text \<open>The reload does not mark everything that changed: when the command of a rule changes, only the first consumer of its
  output that the traversal reaches becomes out of date. The second one meets a node that was seen already, for which the
  call reports no change, so its rule and its outputs stay up to date with their old hashes, and the next build skips
  them.\<close>

lemma reload_misses_second_consumer:
  "\<exists>st. updateGraph (example_reload (two_consumers ''cd'')) 8 (GraphReloader (two_consumers ''cc'')) = Inr st \<and>
     Node_isDirty (rd_graph st) 2 \<and> Node_isDirty (rd_graph st) 3 \<and> \<not> Node_isDirty (rd_graph st) 4 \<and> \<not> Rule_isDirty (rd_graph st) 3"
proof -
  have "case updateGraph (example_reload (two_consumers ''cd'')) 8 (GraphReloader (two_consumers ''cc'')) of
      Inl e \<Rightarrow> False
    | Inr st \<Rightarrow> Node_isDirty (rd_graph st) 2 \<and> Node_isDirty (rd_graph st) 3 \<and> \<not> Node_isDirty (rd_graph st) 4 \<and> \<not> Rule_isDirty (rd_graph st) 3"
    by (simp add: reload_eval ex_defs)
  then show ?thesis by (auto split: sum.splits)
qed

text \<open>A rule is lost: 3 and 4 are both built from 2, and the new file removes the input 2 from the second rule. The traversal
  updates 2 when it visits 3, and clears everything below 2 when it visits 4. The second rule stays up to date although
  an input is gone.\<close>

definition second_without :: graph where
  "second_without = (two_consumers ''cc'')\<lparr>
     g_node := (\<lambda>n. if n = 2 then ex_node ''x'' (Some 1) [2] else if n = 1 then ex_node ''s'' None [1, 3] else g_node (two_consumers ''cc'') n),
     g_rule := (\<lambda>r. if r = 3 then ex_rule ''cb'' [1] [4] else g_rule (two_consumers ''cc'') r)\<rparr>"

lemma reload_loses_rule:
  "\<exists>st. updateGraph (example_reload second_without) 8 (GraphReloader (two_consumers ''cc'')) = Inr st \<and>
     n_child (g_node (re_new (example_reload second_without)) 2) = Some 1 \<and> n_child (g_node (rd_graph st) 2) = None \<and> g_rules (rd_graph st) = [2, 3] \<and>
     2 \<notin> g_sources (rd_graph st)"
proof -
  have "case updateGraph (example_reload second_without) 8 (GraphReloader (two_consumers ''cc'')) of
      Inl e \<Rightarrow> False
    | Inr st \<Rightarrow> n_child (g_node (rd_graph st) 2) = None \<and> g_rules (rd_graph st) = [2, 3] \<and> 2 \<notin> g_sources (rd_graph st)"
    by (simp add: reload_eval ex_defs second_without_def remove_parent_def deleteChildRule_def delete_rule_def Node_removeParentRule_def Node_addParentRule_def)
  then show ?thesis by (auto split: sum.splits simp: second_without_def example_reload_def ex_node_def)
qed

text \<open>Removing everything from the file: the outcome depends on the order in which the map of the nodes is visited.\<close>

definition one_rule :: "(string \<times> nid) list \<Rightarrow> graph" where
  "one_rule nodes = Graph_empty\<lparr>g_node := (\<lambda>n. if n = 1 then ex_node ''s'' None [1] else ex_node ''x'' (Some 1) []),
     g_rule := (\<lambda>r. ex_rule ''cc'' [1] [2]), g_roots := {2}, g_sources := {1}, g_nodes := nodes, g_rules := [1]\<rparr>"

lemma reload_stale_order:
  "updateGraph (example_reload Graph_empty) 8 (GraphReloader (one_rule [(''s'', 1), (''x'', 2)])) = Inl (AssertFailed ''it->second->parentRules_.empty()'')"
  "\<exists>st. updateGraph (example_reload Graph_empty) 8 (GraphReloader (one_rule [(''x'', 2), (''s'', 1)])) = Inr st \<and> g_nodes (rd_graph st) = []"
  by (simp_all add: reload_eval ex_defs one_rule_def clean_node_def deleteChildRule_def delete_rule_def remove_parent_def Node_removeParentRule_def)

end
