(* ===== verification/Graph_Printers.thy ===== *)
theory Graph_Printers
  imports Graph_Model
begin

text \<open>
  The graph as text, \<open>src/src/graph_printers.cpp\<close>: as a Makefile and as input for Graphviz. The stream that is written to
  is the text; each function returns what it appends.
\<close>

section \<open>Makefile printer\<close>

definition printRuleMakefile :: "graph \<Rightarrow> rid \<Rightarrow> string" where
  "printRuleMakefile g r =
     concat (map (\<lambda>n. n_path (g_node g n) @ '' '') (r_outputs (g_rule g r))) @ '': '' @
     concat (map (\<lambda>n. n_path (g_node g n) @ '' '') (r_inputs (g_rule g r))) @ endl @
     [CHR 0x09] @ r_command (g_rule g r) @ endl"

definition printGraphMakefile :: "graph \<Rightarrow> string" where
  "printGraphMakefile g = concat (map (printRuleMakefile g) (g_rules g))"

section \<open>Graphviz printer\<close>

definition dquote :: "string \<Rightarrow> string" where
  "dquote s = [CHR 0x22] @ s @ [CHR 0x22]"

definition state_color :: "state \<Rightarrow> string" where
  "state_color s = (if s = OUT_OF_DATE then ''red'' else ''black'')"

definition printNodeGraphviz :: "graph \<Rightarrow> nid \<Rightarrow> string" where
  "printNodeGraphviz g n =
     (let nd = g_node g n; color = state_color (n_state nd); fillColor = ''white'' in
      ''node [fontsize=10, shape=box, height=0.25, style=filled]'' @ endl @
      dquote (n_hash nd) @ '' [label='' @ dquote (n_path nd) @ ''  color='' @ dquote color @
      ''  fillcolor='' @ dquote fillColor @ '' ]'' @ endl)"

definition print_input_edge :: "graph \<Rightarrow> rid \<Rightarrow> nat \<Rightarrow> string" where
  "print_input_edge g r i =
     (let rl = g_rule g r; n = g_node g (r_inputs rl ! i);
          shape = (if i < length (r_inputs rl) - r_numImplicit rl then ''solid'' else ''dashed'');
          c = state_color (n_state n)
      in dquote (n_hash n) @ '' ->'' @ dquote (r_hash rl) @ '' [ color='' @ dquote c @ '', style='' @ shape @ '' ]'' @ endl)"

definition printRuleGraphviz :: "graph \<Rightarrow> rid \<Rightarrow> string" where
  "printRuleGraphviz g r =
     (let rl = g_rule g r; color = state_color (r_state rl); fillColor = ''white'' in
      (if Rule_isPhony g r
       then ''node [fontsize=10, shape=circle, height=0.25, style='' @ dquote ''filled, dashed'' @ '']'' @ endl
       else ''node [fontsize=10, shape=circle, height=0.25, style=filled]'' @ endl) @
      dquote (r_hash rl) @ '' [label='' @ dquote (take 5 (r_hash rl)) @ ''  color='' @ dquote color @
      ''  fillcolor='' @ dquote fillColor @ '' ]'' @ endl @
      concat (map (print_input_edge g r) [0..<length (r_inputs rl)]) @
      concat (map (\<lambda>n. ''edge [fontsize=10, arrowhead=vee]'' @ endl @
          dquote (r_hash rl) @ '' ->'' @ dquote (n_hash (g_node g n)) @ '' [ color='' @ dquote color @ '', style=solid]'' @ endl)
        (r_outputs rl)))"

definition printGraphGraphviz :: "graph \<Rightarrow> string" where
  "printGraphGraphviz g =
     ''digraph Falcon {'' @ endl @ ''rankdir='' @ dquote ''LR'' @ endl @ ''edge [fontsize=10, arrowhead=vee]'' @ endl @
     concat (map (\<lambda>(p, n). printNodeGraphviz g n) (g_nodes g)) @ concat (map (printRuleGraphviz g) (g_rules g)) @ ''}'' @ endl"

section \<open>Reading the Makefile\<close>

text \<open>A reader for the lines of a Makefile with one command per rule: a line of words, with a colon between the outputs
  and the inputs, then a tabulator and the command.\<close>

fun split_at :: "char \<Rightarrow> string \<Rightarrow> string list" where
  "split_at c [] = [[]]"
| "split_at c (x # xs) = (if x = c then [] # split_at c xs else (case split_at c xs of w # ws \<Rightarrow> (x # w) # ws | [] \<Rightarrow> [[x]]))"

definition text_words :: "string \<Rightarrow> string list" where
  "text_words s = filter (\<lambda>w. w \<noteq> []) (split_at (CHR '' '') s)"

definition read_header :: "string \<Rightarrow> string list \<times> string list" where
  "read_header s = (takeWhile (\<lambda>w. w \<noteq> '':'') (text_words s), tl (dropWhile (\<lambda>w. w \<noteq> '':'') (text_words s)))"

fun read_rules :: "string list \<Rightarrow> (string list \<times> string list \<times> string) list" where
  "read_rules (h # c # ls) = (fst (read_header h), snd (read_header h), tl c) # read_rules ls"
| "read_rules _ = []"

definition read_makefile :: "string \<Rightarrow> (string list \<times> string list \<times> string) list" where
  "read_makefile s = read_rules (split_at (CHR 0x0A) s)"

text \<open>A path that is a word of a Makefile.\<close>

definition make_word :: "string \<Rightarrow> bool" where
  "make_word s \<longleftrightarrow> s \<noteq> [] \<and> s \<noteq> '':'' \<and> CHR '' '' \<notin> set s \<and> CHR 0x0A \<notin> set s"

definition rule_paths :: "graph \<Rightarrow> rid \<Rightarrow> string list \<times> string list \<times> string" where
  "rule_paths g r = (map (\<lambda>n. n_path (g_node g n)) (r_outputs (g_rule g r)), map (\<lambda>n. n_path (g_node g n)) (r_inputs (g_rule g r)),
     r_command (g_rule g r))"

definition make_rule :: "graph \<Rightarrow> rid \<Rightarrow> bool" where
  "make_rule g r \<longleftrightarrow> (\<forall>n \<in> set (r_outputs (g_rule g r)) \<union> set (r_inputs (g_rule g r)). make_word (n_path (g_node g n))) \<and>
     CHR 0x0A \<notin> set (r_command (g_rule g r))"

lemma split_at_nonempty: "split_at c s \<noteq> []"
  by (induction s) (auto split: list.splits)

lemma split_at_append: "c \<notin> set s \<Longrightarrow> split_at c (s @ c # t) = s # split_at c t"
  by (induction s) (auto split: list.splits)

lemma text_words_word: "make_word s \<Longrightarrow> text_words (s @ '' '' @ t) = s # text_words t"
  by (simp add: text_words_def make_word_def split_at_append)

lemma text_words_paths:
  "\<forall>p \<in> set ps. make_word p \<Longrightarrow> text_words (concat (map (\<lambda>p. p @ '' '') ps) @ t) = ps @ text_words t"
proof (induction ps)
  case (Cons p ps)
  then show ?case using text_words_word [of p "concat (map (\<lambda>p. p @ '' '') ps) @ t"] by simp
qed simp

lemma text_words_colon: "text_words ('': '' @ t) = '':'' # text_words t"
  using split_at_append [of "CHR '' ''" "'':''" t] by (simp add: text_words_def)

lemma read_header_paths:
  assumes "\<forall>p \<in> set os. make_word p" "\<forall>p \<in> set is. make_word p"
  shows "read_header (concat (map (\<lambda>p. p @ '' '') os) @ '': '' @ concat (map (\<lambda>p. p @ '' '') is)) = (os, is)"
proof -
  have "text_words (concat (map (\<lambda>p. p @ '' '') is)) = is"
    using text_words_paths [OF assms(2), of "[]"] by (simp add: text_words_def)
  then have words: "text_words (concat (map (\<lambda>p. p @ '' '') os) @ '': '' @ concat (map (\<lambda>p. p @ '' '') is)) = os @ '':'' # is"
    using text_words_paths [OF assms(1), of "'': '' @ concat (map (\<lambda>p. p @ '' '') is)"] text_words_colon by simp
  have "\<forall>p \<in> set os. p \<noteq> '':''" using assms(1) by (auto simp: make_word_def)
  then show ?thesis unfolding read_header_def words by (simp add: takeWhile_append2 dropWhile_append2)
qed

lemma read_rules_print:
  assumes "make_rule g r"
  shows "read_rules (split_at (CHR 0x0A) (printRuleMakefile g r @ t)) = rule_paths g r # read_rules (split_at (CHR 0x0A) t)"
proof -
  let ?os = "map (\<lambda>n. n_path (g_node g n)) (r_outputs (g_rule g r))" and ?is = "map (\<lambda>n. n_path (g_node g n)) (r_inputs (g_rule g r))"
  let ?h = "concat (map (\<lambda>p. p @ '' '') ?os) @ '': '' @ concat (map (\<lambda>p. p @ '' '') ?is)" and ?c = "CHR 0x09 # r_command (g_rule g r)"
  have ok: "\<forall>p \<in> set ?os. make_word p" "\<forall>p \<in> set ?is. make_word p" using assms by (auto simp: make_rule_def)
  then have nl: "CHR 0x0A \<notin> set ?h" "CHR 0x0A \<notin> set ?c" using assms by (auto simp: make_word_def make_rule_def)
  have "printRuleMakefile g r @ t = ?h @ CHR 0x0A # ?c @ CHR 0x0A # t"
    by (simp add: printRuleMakefile_def endl_def comp_def)
  then have "split_at (CHR 0x0A) (printRuleMakefile g r @ t) = ?h # ?c # split_at (CHR 0x0A) t"
    using split_at_append [OF nl(1), of "?c @ CHR 0x0A # t"] split_at_append [OF nl(2), of t] by (simp only:)
  then show ?thesis using read_header_paths [OF ok] by (simp add: rule_paths_def)
qed

text \<open>C37. The Makefile determines the rules of the graph: when paths are words and commands have no line break, reading the
  printed text gives the outputs, the inputs and the command of every rule back, in the order of the graph.\<close>

theorem printGraphMakefile_roundtrip:
  assumes "\<forall>r \<in> set (g_rules g). make_rule g r"
  shows "read_makefile (printGraphMakefile g) = map (rule_paths g) (g_rules g)"
proof -
  have "read_rules (split_at (CHR 0x0A) (concat (map (printRuleMakefile g) rs))) = map (rule_paths g) rs" if "\<forall>r \<in> set rs. make_rule g r" for rs
    using that by (induction rs) (simp_all add: read_rules_print)
  then show ?thesis using assms by (simp add: read_makefile_def printGraphMakefile_def)
qed

theorem printGraphMakefile_roundtrip_witness:
  "read_makefile (printGraphMakefile chain_graph) = [([''b''], [''a''], ''cc''), ([''c''], [''b''], ''cc'')]"
proof -
  have "\<forall>r \<in> set (g_rules chain_graph). make_rule chain_graph r" by (simp add: chain_defs make_rule_def make_word_def)
  from printGraphMakefile_roundtrip [OF this] show ?thesis by (simp add: rule_paths_def chain_defs)
qed

end
