(* ===== verification/Consistency_Checker.thy ===== *)
theory Consistency_Checker
  imports Dependency_Scan
begin

text \<open>
  The run-time check of the graph's invariants, \<open>src/src/graph_consistency_checker.cpp\<close>.

  A failed \<open>FCHECK\<close> is logged and clears the member \<open>isConsistent_\<close>; the arguments of the log message are evaluated
  in any case, among them \<open>getOutputs()[0]\<close>. On a well formed acyclic graph the checker is shown to accept exactly the
  graphs with right counters, states and hashes.
\<close>

section \<open>Class GraphConsistencyChecker\<close>

record checker =
  ck_nodes :: "nid set"
  ck_rules :: "rid set"
  ck_nbRoots :: nat
  ck_nbSources :: nat
  ck_ok :: bool

definition GraphConsistencyChecker :: checker where
  "GraphConsistencyChecker = \<lparr>ck_nodes = {}, ck_rules = {}, ck_nbRoots = 0, ck_nbSources = 0, ck_ok = True\<rparr>"

definition fcheck :: "bool \<Rightarrow> checker \<Rightarrow> checker" where
  "fcheck cond c = c\<lparr>ck_ok := ck_ok c \<and> cond\<rparr>"

definition check_parents :: "graph \<Rightarrow> nid \<Rightarrow> checker \<Rightarrow> checker result" where
  "check_parents g n c =
     rbind (foldM (\<lambda>r (parents, c).
              if r_outputs (g_rule g r) = [] then Inl OutOfBounds else Inr (insert r parents, fcheck (r \<notin> parents) c))
              (n_parents (g_node g n)) ({}, c))
       (\<lambda>(_, c). Inr c)"

text \<open>The checks of a node and of a rule that do not follow pointers.\<close>

definition node_checks :: "graph \<Rightarrow> nid \<Rightarrow> checker \<Rightarrow> checker" where
  "node_checks g n c =
     (let c = fcheck (n_hash (g_node g n) \<noteq> []) c;
          c = fcheck (n_hashDepfile (g_node g n) \<noteq> []) c;
          c = fcheck (Graph_find g (n_path (g_node g n)) \<noteq> None) c
      in if n_parents (g_node g n) = [] then (fcheck (n \<in> g_roots g) c)\<lparr>ck_nbRoots := Suc (ck_nbRoots c)\<rparr> else c)"

definition rule_checks :: "graph \<Rightarrow> rid \<Rightarrow> checker \<Rightarrow> checker" where
  "rule_checks g r c =
     (let outputs = r_outputs (g_rule g r);
          c = fcheck (r_hash (g_rule g r) \<noteq> []) c;
          c = fcheck (r_hashDepfile (g_rule g r) \<noteq> []) c;
          c = fcheck (outputs \<noteq> []) c;
          c = fcheck (Rule_isPhony g r = (r_command (g_rule g r) = [])) c;
          c = (if Rule_isPhony g r then fcheck (length outputs = 1) c else c)
      in if Rule_isDirty g r then fold (\<lambda>n. fcheck (n_lazy (g_node g n) \<or> Node_isDirty g n)) outputs c else c)"

text \<open>One iteration of the loop over the inputs of a rule.\<close>

definition check_input ::
    "(nid \<Rightarrow> checker \<Rightarrow> checker result) \<Rightarrow> graph \<Rightarrow> rid \<Rightarrow> nid \<Rightarrow> nid set \<times> nat \<times> checker \<Rightarrow> (nid set \<times> nat \<times> checker) result" where
  "check_input check_node g r n = (\<lambda>(seen, nbReady, c).
     if r_outputs (g_rule g r) = [] then Inl OutOfBounds
     else
       let c = fcheck (n \<notin> seen) c;
           c = (if Node_isDirty g n then fcheck (Rule_isDirty g r) c else c);
           nbReady = (if n_child (g_node g n) = None \<or> \<not> Node_isDirty g n then Suc nbReady else nbReady)
       in rbind (check_node n c) (\<lambda>c. Inr (insert n seen, nbReady, c)))"

fun checkNode :: "nat \<Rightarrow> graph \<Rightarrow> nid \<Rightarrow> checker \<Rightarrow> checker result"
  and checkRule :: "nat \<Rightarrow> graph \<Rightarrow> rid \<Rightarrow> checker \<Rightarrow> checker result" where
  "checkNode 0 g n c = Inl NoFuel"
| "checkNode (Suc k) g n c =
     (if n \<in> ck_nodes c then Inr c
      else
        let c = node_checks g n (c\<lparr>ck_nodes := insert n (ck_nodes c)\<rparr>) in
        rbind
          (case n_child (g_node g n) of
             None \<Rightarrow> Inr ((fcheck (n \<in> g_sources g) c)\<lparr>ck_nbSources := Suc (ck_nbSources c)\<rparr>)
           | Some r \<Rightarrow> checkRule k g r (if Node_isDirty g n then fcheck (Rule_isDirty g r) c else c))
          (check_parents g n))"
| "checkRule 0 g r c = Inl NoFuel"
| "checkRule (Suc k) g r c =
     (if r \<in> ck_rules c then Inr c
      else
        let c = rule_checks g r (c\<lparr>ck_rules := insert r (ck_rules c)\<rparr>) in
        rbind
          (foldM (check_input (checkNode k g) g r)
             (r_inputs (g_rule g r)) ({}, 0, c))
          (\<lambda>(_, nbReady, c). Inr (fcheck (nbReady = r_numReady (g_rule g r)) c)))"

declare checkNode.simps [simp del] checkRule.simps [simp del]

definition check :: "nat \<Rightarrow> graph \<Rightarrow> checker result" where
  "check k g =
     rbind (foldM (checkNode k g) (sorted_list_of_set (g_roots g)) GraphConsistencyChecker) (\<lambda>c.
       let c = fcheck (card (ck_nodes c) = length (g_nodes g)) c;
           c = fcheck (ck_nbRoots c = card (g_roots g)) c;
           c = fcheck (ck_nbSources c = card (g_sources g)) c
       in Inr (fcheck (card (ck_rules c) = length (g_rules g)) c))"

section \<open>What is checked\<close>

definition node_cond :: "graph \<Rightarrow> nid \<Rightarrow> bool" where
  "node_cond g n \<longleftrightarrow> n_hash (g_node g n) \<noteq> [] \<and> n_hashDepfile (g_node g n) \<noteq> [] \<and>
     (\<forall>r. n_child (g_node g n) = Some r \<and> Node_isDirty g n \<longrightarrow> Rule_isDirty g r)"

definition rule_cond :: "graph \<Rightarrow> rid \<Rightarrow> bool" where
  "rule_cond g r \<longleftrightarrow> r_hash (g_rule g r) \<noteq> [] \<and> r_hashDepfile (g_rule g r) \<noteq> [] \<and>
     (Rule_isPhony g r \<longrightarrow> length (r_outputs (g_rule g r)) = 1) \<and>
     (Rule_isDirty g r \<longrightarrow> (\<forall>n \<in> set (r_outputs (g_rule g r)). n_lazy (g_node g n) \<or> Node_isDirty g n)) \<and>
     (\<forall>n \<in> set (r_inputs (g_rule g r)). Node_isDirty g n \<longrightarrow> Rule_isDirty g r) \<and> counter_ok g r"

text \<open>The part of the graph that is visited between two states of the checker, closed under pointers, with the
  counts of roots and sources, and the conditions on what is new.\<close>

definition visited :: "graph \<Rightarrow> checker \<Rightarrow> checker \<Rightarrow> bool" where
  "visited g c c' \<longleftrightarrow> ck_nodes c \<subseteq> ck_nodes c' \<and> ck_nodes c' \<subseteq> ck_nodes c \<union> live g \<and> ck_rules c \<subseteq> ck_rules c' \<and>
     ck_rules c' \<subseteq> ck_rules c \<union> set (g_rules g) \<and>
     (\<forall>n \<in> ck_nodes c' - ck_nodes c. \<forall>r. n_child (g_node g n) = Some r \<longrightarrow> r \<in> ck_rules c') \<and>
     (\<forall>r \<in> ck_rules c' - ck_rules c. set (r_inputs (g_rule g r)) \<subseteq> ck_nodes c') \<and>
     ck_nbRoots c' = ck_nbRoots c + card {n \<in> ck_nodes c' - ck_nodes c. n_parents (g_node g n) = []} \<and>
     ck_nbSources c' = ck_nbSources c + card {n \<in> ck_nodes c' - ck_nodes c. n_child (g_node g n) = None}"

definition new_ok :: "graph \<Rightarrow> checker \<Rightarrow> checker \<Rightarrow> bool" where
  "new_ok g c c' \<longleftrightarrow> (\<forall>n \<in> ck_nodes c' - ck_nodes c. node_cond g n) \<and> (\<forall>r \<in> ck_rules c' - ck_rules c. rule_cond g r)"

lemma fcheck_sel [simp]:
  "ck_nodes (fcheck b c) = ck_nodes c" "ck_rules (fcheck b c) = ck_rules c" "ck_nbRoots (fcheck b c) = ck_nbRoots c"
  "ck_nbSources (fcheck b c) = ck_nbSources c" "ck_ok (fcheck b c) \<longleftrightarrow> ck_ok c \<and> b"
  by (simp_all add: fcheck_def)

lemma fcheck_True [simp]: "fcheck True c = c"
  by (simp add: fcheck_def)

lemma visited_fcheck [simp]:
  "visited g (fcheck b c) c' = visited g c c'" "visited g c (fcheck b c') = visited g c c'"
  "new_ok g (fcheck b c) c' = new_ok g c c'" "new_ok g c (fcheck b c') = new_ok g c c'"
  by (simp_all add: visited_def new_ok_def)

lemma visited_refl [simp]: "visited g c c" "new_ok g c c"
  by (simp_all add: visited_def new_ok_def)

lemma card_split:
  assumes "A \<subseteq> B" "B \<subseteq> C" "finite {x \<in> C - A. P x}"
  shows "card {x \<in> C - A. P x} = card {x \<in> B - A. P x} + card {x \<in> C - B. P x}"
proof -
  have "{x \<in> C - A. P x} = {x \<in> B - A. P x} \<union> {x \<in> C - B. P x}" using assms(1,2) by auto
  moreover have "finite {x \<in> B - A. P x}" "finite {x \<in> C - B. P x}"
    by (rule finite_subset [OF _ assms(3)], use assms(1,2) in auto)+
  moreover have "{x \<in> B - A. P x} \<inter> {x \<in> C - B. P x} = {}" by auto
  ultimately show ?thesis by (metis card_Un_disjoint)
qed

lemma visited_trans:
  assumes "visited g c1 c2" "visited g c2 c3"
  shows "visited g c1 c3" "new_ok g c1 c3 \<longleftrightarrow> new_ok g c1 c2 \<and> new_ok g c2 c3"
proof -
  have sub: "ck_nodes c1 \<subseteq> ck_nodes c2" "ck_nodes c2 \<subseteq> ck_nodes c3" "ck_rules c1 \<subseteq> ck_rules c2" "ck_rules c2 \<subseteq> ck_rules c3"
    and up: "ck_nodes c3 \<subseteq> ck_nodes c1 \<union> live g" "ck_rules c3 \<subseteq> ck_rules c1 \<union> set (g_rules g)"
    using assms by (auto simp: visited_def)
  have fin: "finite {n \<in> ck_nodes c3 - ck_nodes c1. P n}" for P by (rule finite_subset [OF _ finite_live [of g]]) (use up(1) in auto)
  have "ck_nbRoots c3 = ck_nbRoots c1 + card {n \<in> ck_nodes c3 - ck_nodes c1. n_parents (g_node g n) = []}"
    "ck_nbSources c3 = ck_nbSources c1 + card {n \<in> ck_nodes c3 - ck_nodes c1. n_child (g_node g n) = None}"
    using card_split [OF sub(1,2) fin] assms by (simp_all add: visited_def)
  moreover have "\<forall>n \<in> ck_nodes c3 - ck_nodes c1. \<forall>r. n_child (g_node g n) = Some r \<longrightarrow> r \<in> ck_rules c3"
    using assms sub(4) unfolding visited_def by (meson DiffD1 DiffD2 DiffI subsetD)
  moreover have "\<forall>r \<in> ck_rules c3 - ck_rules c1. set (r_inputs (g_rule g r)) \<subseteq> ck_nodes c3"
    using assms sub(2) unfolding visited_def by (meson DiffD1 DiffD2 DiffI subset_trans)
  ultimately show "visited g c1 c3" using sub up unfolding visited_def by (auto simp: subset_iff)
  show "new_ok g c1 c3 \<longleftrightarrow> new_ok g c1 c2 \<and> new_ok g c2 c3" using sub unfolding new_ok_def by blast
qed

lemma card_filter_insert:
  "finite A \<Longrightarrow> n \<notin> A \<Longrightarrow> card {m \<in> insert n A. P m} = (if P n then 1 else 0) + card {m \<in> A. P m}"
proof -
  assume A: "finite A" "n \<notin> A"
  have "{m \<in> insert n A. P m} = (if P n then insert n {m \<in> A. P m} else {m \<in> A. P m})" by auto
  then show ?thesis using A by simp
qed

text \<open>Visiting a new node, and a new rule.\<close>

lemma visited_node:
  assumes n: "n \<notin> ck_nodes c" "n \<in> live g"
    and c1: "ck_nodes c1 = insert n (ck_nodes c)" "ck_rules c1 = ck_rules c"
      "ck_nbRoots c1 = ck_nbRoots c + (if n_parents (g_node g n) = [] then 1 else 0)"
      "ck_nbSources c1 = ck_nbSources c + (if n_child (g_node g n) = None then 1 else 0)"
    and c2: "visited g c1 c2" "\<And>r. n_child (g_node g n) = Some r \<Longrightarrow> r \<in> ck_rules c2"
  shows "visited g c c2" "new_ok g c c2 \<longleftrightarrow> node_cond g n \<and> new_ok g c1 c2"
proof -
  have new: "ck_nodes c2 - ck_nodes c = insert n (ck_nodes c2 - ck_nodes c1)" "n \<notin> ck_nodes c2 - ck_nodes c1"
    using n c1(1) c2(1) by (auto simp: visited_def)
  have fin: "finite (ck_nodes c2 - ck_nodes c1)" by (rule finite_subset [OF _ finite_live [of g]]) (use c2(1) in \<open>auto simp: visited_def\<close>)
  note card = card_filter_insert [OF fin new(2)]
  show "visited g c c2" using c2 n c1 unfolding visited_def new(1) card by auto
  show "new_ok g c c2 \<longleftrightarrow> node_cond g n \<and> new_ok g c1 c2" unfolding new_ok_def new(1) c1(2) by blast
qed

lemma visited_rule:
  assumes r: "r \<notin> ck_rules c" "r \<in> set (g_rules g)"
    and c1: "ck_nodes c1 = ck_nodes c" "ck_rules c1 = insert r (ck_rules c)" "ck_nbRoots c1 = ck_nbRoots c" "ck_nbSources c1 = ck_nbSources c"
    and c2: "visited g c1 c2" "set (r_inputs (g_rule g r)) \<subseteq> ck_nodes c2"
  shows "visited g c c2" "new_ok g c c2 \<longleftrightarrow> rule_cond g r \<and> new_ok g c1 c2"
proof -
  have new: "ck_rules c2 - ck_rules c = insert r (ck_rules c2 - ck_rules c1)" using r c1(2) c2(1) by (auto simp: visited_def)
  show "visited g c c2" using c2 r c1 unfolding visited_def new by auto
  show "new_ok g c c2 \<longleftrightarrow> rule_cond g r \<and> new_ok g c1 c2" unfolding new_ok_def new c1(1) by blast
qed

lemma node_checks_sel [simp]:
  "ck_nodes (node_checks g n c) = ck_nodes c" "ck_rules (node_checks g n c) = ck_rules c"
  "ck_nbRoots (node_checks g n c) = ck_nbRoots c + (if n_parents (g_node g n) = [] then 1 else 0)"
  "ck_nbSources (node_checks g n c) = ck_nbSources c"
  by (simp_all add: node_checks_def Let_def)

lemma node_checks_ok:
  assumes "wf_graph g" "n \<in> live g"
  shows "ck_ok (node_checks g n c) \<longleftrightarrow> ck_ok c \<and> n_hash (g_node g n) \<noteq> [] \<and> n_hashDepfile (g_node g n) \<noteq> []"
proof -
  have "(n_path (g_node g n), n) \<in> set (g_nodes g)" using assms by (auto simp: wf_graph_def live_def)
  then have "n_path (g_node g n) \<in> fst ` set (g_nodes g)" by (rule rev_image_eqI) simp
  then have "Graph_find g (n_path (g_node g n)) \<noteq> None" by (simp add: Graph_find_def map_of_eq_None_iff)
  moreover have "n_parents (g_node g n) = [] \<Longrightarrow> n \<in> g_roots g" using assms by (simp add: wf_graph_def)
  ultimately show ?thesis by (auto simp: node_checks_def Let_def)
qed

lemma fold_fcheck: "fold (\<lambda>n. fcheck (P n)) ns c = fcheck (\<forall>n \<in> set ns. P n) c"
  by (induction ns arbitrary: c) (auto simp: fcheck_def)

lemma rule_checks_eq:
  "wf_graph g \<Longrightarrow> r \<in> set (g_rules g) \<Longrightarrow> rule_checks g r c =
     fcheck (r_hash (g_rule g r) \<noteq> [] \<and> r_hashDepfile (g_rule g r) \<noteq> [] \<and> (Rule_isPhony g r \<longrightarrow> length (r_outputs (g_rule g r)) = 1) \<and>
       (Rule_isDirty g r \<longrightarrow> (\<forall>n \<in> set (r_outputs (g_rule g r)). n_lazy (g_node g n) \<or> Node_isDirty g n))) c"
  by (auto simp: rule_checks_def Let_def fold_fcheck fcheck_def Rule_isPhony_def wf_graph_def wf_rule_def)

lemma check_parents_ok:
  assumes "wf_graph g" "n \<in> live g"
  shows "check_parents g n c = Inr c"
proof -
  have dist: "distinct (n_parents (g_node g n))" by (rule wf_distinct(1) [OF assms])
  have "r_outputs (g_rule g r) \<noteq> []" if "r \<in> set (n_parents (g_node g n))" for r
    using wf_parent [OF assms that] assms(1) by (auto simp: wf_graph_def wf_rule_def)
  then have "foldM (\<lambda>r (parents, c). if r_outputs (g_rule g r) = [] then Inl OutOfBounds else Inr (insert r parents, fcheck (r \<notin> parents) c)) rs (R, c) =
      Inr (set rs \<union> R, c)" if "set rs \<subseteq> set (n_parents (g_node g n))" "distinct rs" "R \<inter> set rs = {}" for rs R
    using that by (induction rs arbitrary: R) auto
  from this [of "n_parents (g_node g n)" "{}"] dist show ?thesis by (simp add: check_parents_def)
qed

text \<open>The loop of \<open>checkRule\<close> over the inputs.\<close>

definition step_ok :: "nat \<Rightarrow> graph \<Rightarrow> nid \<Rightarrow> checker \<Rightarrow> bool" where
  "step_ok k g n c \<longleftrightarrow> (\<exists>c'. checkNode k g n c = Inr c' \<and> visited g c c' \<and> n \<in> ck_nodes c' \<and> ck_ok c' = (ck_ok c \<and> new_ok g c c'))"

lemma inputs_loop:
  assumes r: "r_outputs (g_rule g r) \<noteq> []" and ns: "distinct ns" "seen \<inter> set ns = {}"
    and step: "\<And>n c'. n \<in> set ns \<Longrightarrow> ck_nodes c \<subseteq> ck_nodes c' \<Longrightarrow> step_ok k g n c'"
  shows "\<exists>c'. foldM (check_input (checkNode k g) g r) ns (seen, nb, c) =
      Inr (set ns \<union> seen, nb + length (filter (input_ready g) ns), c') \<and>
    visited g c c' \<and> set ns \<subseteq> ck_nodes c' \<and>
    ck_ok c' = (ck_ok c \<and> new_ok g c c' \<and> (\<forall>n \<in> set ns. Node_isDirty g n \<longrightarrow> Rule_isDirty g r))"
  using ns step
proof (induction ns arbitrary: seen nb c)
  case (Cons n ns)
  let ?c = "fcheck (Node_isDirty g n \<longrightarrow> Rule_isDirty g r) c"
  have c: "(if Node_isDirty g n then fcheck (Rule_isDirty g r) (fcheck (n \<notin> seen) c) else fcheck (n \<notin> seen) c) = ?c"
    using Cons.prems(2) by (auto simp: fcheck_def)
  have "step_ok k g n ?c" by (rule Cons.prems(3)) simp_all
  then obtain c1 where c1: "checkNode k g n ?c = Inr c1" "visited g c c1" "n \<in> ck_nodes c1"
    "ck_ok c1 = (ck_ok c \<and> (Node_isDirty g n \<longrightarrow> Rule_isDirty g r) \<and> new_ok g c c1)" by (auto simp: step_ok_def)
  have sub: "ck_nodes c \<subseteq> ck_nodes c1" using c1(2) by (simp add: visited_def)
  let ?nb = "if input_ready g n then Suc nb else nb"
  have "\<exists>c'. foldM (check_input (checkNode k g) g r) ns (insert n seen, ?nb, c1) =
      Inr (set ns \<union> insert n seen, ?nb + length (filter (input_ready g) ns), c') \<and>
    visited g c1 c' \<and> set ns \<subseteq> ck_nodes c' \<and>
    ck_ok c' = (ck_ok c1 \<and> new_ok g c1 c' \<and> (\<forall>n \<in> set ns. Node_isDirty g n \<longrightarrow> Rule_isDirty g r))"
    by (rule Cons.IH) (use Cons.prems sub in auto)
  then obtain c' where c': "foldM (check_input (checkNode k g) g r) ns (insert n seen, ?nb, c1) =
      Inr (set ns \<union> insert n seen, ?nb + length (filter (input_ready g) ns), c')" "visited g c1 c'" "set ns \<subseteq> ck_nodes c'"
    "ck_ok c' = (ck_ok c1 \<and> new_ok g c1 c' \<and> (\<forall>n \<in> set ns. Node_isDirty g n \<longrightarrow> Rule_isDirty g r))" by blast
  have ready: "(n_child (g_node g n) = None \<or> \<not> Node_isDirty g n) = input_ready g n" by (simp add: input_ready_def Node_isSource_def)
  have sub': "ck_nodes c1 \<subseteq> ck_nodes c'" using c'(2) by (simp add: visited_def)
  have "check_input (checkNode k g) g r n (seen, nb, c) = Inr (insert n seen, ?nb, c1)"
    unfolding check_input_def prod.case Let_def c ready c1(1) using r by simp
  then have run: "foldM (check_input (checkNode k g) g r) (n # ns) (seen, nb, c) =
      Inr (set (n # ns) \<union> seen, nb + length (filter (input_ready g) (n # ns)), c')" using c'(1) by simp
  note t = visited_trans [OF c1(2) c'(2)]
  have "ck_ok c' = (ck_ok c \<and> new_ok g c c' \<and> (\<forall>m \<in> set (n # ns). Node_isDirty g m \<longrightarrow> Rule_isDirty g r))"
    unfolding c'(4) c1(4) t(2) by auto
  then show ?case using run t(1) sub' c1(3) c'(3) by (intro exI [of _ c'] conjI) auto
qed simp

section \<open>The traversal\<close>

lemma checkRule_step:
  assumes g: "wf_graph g" and r: "r \<in> set (g_rules g)"
    and step: "\<And>n c'. n \<in> live g \<Longrightarrow> ck_nodes c \<subseteq> ck_nodes c' \<Longrightarrow> step_ok k g n c'"
  shows "\<exists>c'. checkRule (Suc k) g r c = Inr c' \<and> visited g c c' \<and> r \<in> ck_rules c' \<and> ck_ok c' = (ck_ok c \<and> new_ok g c c')"
proof (cases "r \<in> ck_rules c")
  case False
  let ?I = "r_inputs (g_rule g r)" and ?c1 = "rule_checks g r (c\<lparr>ck_rules := insert r (ck_rules c)\<rparr>)"
  have out: "r_outputs (g_rule g r) \<noteq> []" using g r by (auto simp: wf_graph_def wf_rule_def)
  have dist: "distinct ?I" by (rule wf_distinct(2) [OF g r])
  have sel: "ck_nodes ?c1 = ck_nodes c" "ck_rules ?c1 = insert r (ck_rules c)" "ck_nbRoots ?c1 = ck_nbRoots c" "ck_nbSources ?c1 = ck_nbSources c"
    by (simp_all add: rule_checks_eq [OF g r])
  have "\<exists>c'. foldM (check_input (checkNode k g) g r) ?I ({}, 0, ?c1) = Inr (set ?I \<union> {}, 0 + length (filter (input_ready g) ?I), c') \<and>
    visited g ?c1 c' \<and> set ?I \<subseteq> ck_nodes c' \<and> ck_ok c' = (ck_ok ?c1 \<and> new_ok g ?c1 c' \<and> (\<forall>n \<in> set ?I. Node_isDirty g n \<longrightarrow> Rule_isDirty g r))"
    by (rule inputs_loop [OF out dist]) (use step wf_input [OF g r] sel(1) in auto)
  then obtain c2 where c2: "foldM (check_input (checkNode k g) g r) ?I ({}, 0, ?c1) = Inr (set ?I, length (filter (input_ready g) ?I), c2)"
    "visited g ?c1 c2" "set ?I \<subseteq> ck_nodes c2" "ck_ok c2 = (ck_ok ?c1 \<and> new_ok g ?c1 c2 \<and> (\<forall>n \<in> set ?I. Node_isDirty g n \<longrightarrow> Rule_isDirty g r))"
    by auto
  let ?c3 = "fcheck (length (filter (input_ready g) ?I) = r_numReady (g_rule g r)) c2"
  have "checkRule (Suc k) g r c = Inr ?c3" using False by (simp add: checkRule.simps c2(1) Let_def)
  moreover have "visited g c ?c3" "new_ok g c ?c3 \<longleftrightarrow> rule_cond g r \<and> new_ok g ?c1 ?c3"
    using visited_rule [OF False r sel, of ?c3] c2(2,3) by simp_all
  moreover have "ck_ok ?c3 = (ck_ok c \<and> new_ok g c ?c3)"
  proof -
    have ok1: "ck_ok ?c1 \<longleftrightarrow> ck_ok c \<and> r_hash (g_rule g r) \<noteq> [] \<and> r_hashDepfile (g_rule g r) \<noteq> [] \<and>
      (Rule_isPhony g r \<longrightarrow> length (r_outputs (g_rule g r)) = 1) \<and>
      (Rule_isDirty g r \<longrightarrow> (\<forall>n \<in> set (r_outputs (g_rule g r)). n_lazy (g_node g n) \<or> Node_isDirty g n))"
      by (simp add: rule_checks_eq [OF g r])
    have nk: "new_ok g c c2 \<longleftrightarrow> rule_cond g r \<and> new_ok g ?c1 c2" using calculation(3) by simp
    show ?thesis unfolding fcheck_sel c2(4) ok1 visited_fcheck nk rule_cond_def counter_ok_def by metis
  qed
  moreover have "r \<in> ck_rules ?c3" using c2(2) sel(2) by (auto simp: visited_def)
  ultimately show ?thesis by blast
qed (auto simp: checkRule.simps)

lemma checkNode_step:
  assumes g: "wf_graph g" and n: "n \<in> live g" "n \<notin> ck_nodes c"
    and step: "\<And>r c'. r \<in> set (g_rules g) \<Longrightarrow> ck_nodes c' = insert n (ck_nodes c) \<Longrightarrow>
      \<exists>c2. checkRule k g r c' = Inr c2 \<and> visited g c' c2 \<and> r \<in> ck_rules c2 \<and> ck_ok c2 = (ck_ok c' \<and> new_ok g c' c2)"
  shows "step_ok (Suc k) g n c"
proof -
  let ?c1 = "node_checks g n (c\<lparr>ck_nodes := insert n (ck_nodes c)\<rparr>)"
  have ok1: "ck_ok ?c1 \<longleftrightarrow> ck_ok c \<and> n_hash (g_node g n) \<noteq> [] \<and> n_hashDepfile (g_node g n) \<noteq> []" using node_checks_ok [OF g n(1)] by simp
  show ?thesis
  proof (cases "n_child (g_node g n)")
    case None
    then have src: "n \<in> g_sources g" using g n(1) by (simp add: wf_graph_def)
    let ?c2 = "(fcheck (n \<in> g_sources g) ?c1)\<lparr>ck_nbSources := Suc (ck_nbSources ?c1)\<rparr>"
    have run: "checkNode (Suc k) g n c = Inr ?c2" using n(2) None by (simp add: checkNode.simps Let_def check_parents_ok [OF g n(1)])
    have "visited g c ?c2" "new_ok g c ?c2 \<longleftrightarrow> node_cond g n \<and> new_ok g ?c2 ?c2"
      using visited_node [OF n(2,1), of ?c2 ?c2] None by simp_all
    moreover have "ck_ok ?c2 = ck_ok ?c1" using src by simp
    ultimately show ?thesis unfolding step_ok_def using run ok1 None by (intro exI [of _ ?c2]) (auto simp: node_cond_def)
  next
    case (Some r)
    then have r: "r \<in> set (g_rules g)" using wf_child [OF g n(1)] by simp
    let ?c2 = "fcheck (Node_isDirty g n \<longrightarrow> Rule_isDirty g r) ?c1"
    have c: "(if Node_isDirty g n then fcheck (Rule_isDirty g r) ?c1 else ?c1) = ?c2" by (auto simp: fcheck_def)
    obtain c3 where c3: "checkRule k g r ?c2 = Inr c3" "visited g ?c2 c3" "r \<in> ck_rules c3" "ck_ok c3 = (ck_ok ?c2 \<and> new_ok g ?c2 c3)"
      using step [OF r, of ?c2] by auto
    have run: "checkNode (Suc k) g n c = Inr c3" using n(2) Some c3(1)
      unfolding checkNode.simps Let_def Some option.case c by (simp add: check_parents_ok [OF g n(1)])
    have "visited g c c3" "new_ok g c c3 \<longleftrightarrow> node_cond g n \<and> new_ok g ?c2 c3"
      using visited_node [OF n(2,1), of ?c2 c3] c3(2,3) Some by simp_all
    moreover have "n \<in> ck_nodes c3" using c3(2) by (auto simp: visited_def)
    moreover have "ck_ok c3 = (ck_ok c \<and> new_ok g c c3)" using calculation(2) c3(4) ok1 Some by (auto simp: node_cond_def)
    ultimately show ?thesis unfolding step_ok_def using run by blast
  qed
qed

text \<open>Every visit of a node makes the set of unseen nodes smaller, so the recursion ends, even on cyclic graphs.\<close>

lemma check_traversal:
  assumes g: "wf_graph g"
  shows "n \<in> live g \<Longrightarrow> 2 * card (live g - ck_nodes c) < k \<Longrightarrow> step_ok k g n c"
    and "r \<in> set (g_rules g) \<Longrightarrow> 2 * card (live g - ck_nodes c) + 1 < k \<Longrightarrow>
      \<exists>c'. checkRule k g r c = Inr c' \<and> visited g c c' \<and> r \<in> ck_rules c' \<and> ck_ok c' = (ck_ok c \<and> new_ok g c c')"
proof (induction k arbitrary: n r c)
  case (Suc k)
  {
    case 1
    show ?case
    proof (cases "n \<in> ck_nodes c")
      case True
      then show ?thesis by (auto simp: step_ok_def checkNode.simps)
    next
      case False
      have "card (live g - insert n (ck_nodes c)) < card (live g - ck_nodes c)"
        by (rule psubset_card_mono) (use False 1(1) in auto)
      then show ?thesis using checkNode_step [OF g 1(1) False, of k] Suc.IH(2) 1(2) by auto
    qed
  next
    case 2
    have "step_ok k g n c'" if "n \<in> live g" "ck_nodes c \<subseteq> ck_nodes c'" for n c'
    proof (rule Suc.IH(1) [OF that(1)])
      have "card (live g - ck_nodes c') \<le> card (live g - ck_nodes c)" by (rule card_mono) (use that(2) in auto)
      then show "2 * card (live g - ck_nodes c') < k" using 2(2) by simp
    qed
    then show ?case by (rule checkRule_step [OF g 2(1)])
  }
qed simp_all

lemma check_roots:
  assumes g: "wf_graph g" and k: "2 * card (live g) < k"
  shows "\<exists>c. foldM (checkNode k g) (sorted_list_of_set (g_roots g)) GraphConsistencyChecker = Inr c \<and>
    visited g GraphConsistencyChecker c \<and> g_roots g \<subseteq> ck_nodes c \<and> ck_ok c = new_ok g GraphConsistencyChecker c"
proof -
  let ?P = "\<lambda>ns c. visited g GraphConsistencyChecker c \<and> set ns \<subseteq> ck_nodes c \<and> ck_ok c = new_ok g GraphConsistencyChecker c"
  have fin: "finite (g_roots g)" and live: "g_roots g \<subseteq> live g" using g finite_subset [OF _ finite_live] by (auto simp: wf_graph_def)
  have "\<exists>c. foldM (checkNode k g) (sorted_list_of_set (g_roots g)) GraphConsistencyChecker = Inr c \<and> ?P (sorted_list_of_set (g_roots g)) c"
  proof (rule foldM_total)
    fix pre n rest c assume split: "sorted_list_of_set (g_roots g) = pre @ n # rest" and c: "?P pre c"
    have "n \<in> g_roots g" using split fin by (metis in_set_conv_decomp set_sorted_list_of_set)
    moreover have "card (live g - ck_nodes c) \<le> card (live g)" by (rule card_mono) auto
    ultimately have "step_ok k g n c" using check_traversal(1) [OF g, of n c k] live k by auto
    then obtain c' where c': "checkNode k g n c = Inr c'" "visited g c c'" "n \<in> ck_nodes c'" "ck_ok c' = (ck_ok c \<and> new_ok g c c')"
      by (auto simp: step_ok_def)
    have "set pre \<subseteq> ck_nodes c'" using c c'(2) by (auto simp: visited_def)
    moreover have v: "visited g GraphConsistencyChecker c" using c by blast
    moreover have "ck_ok c' = new_ok g GraphConsistencyChecker c'" using c unfolding c'(4) visited_trans(2) [OF v c'(2)] by blast
    ultimately show "\<exists>c'. checkNode k g n c = Inr c' \<and> ?P (pre @ [n]) c'"
      using c'(1,3) visited_trans(1) [OF v c'(2)] by (intro exI [of _ c']) simp
  qed (simp add: GraphConsistencyChecker_def new_ok_def)
  then show ?thesis using fin by auto
qed

text \<open>What an accepted graph satisfies.\<close>

definition hashed :: "graph \<Rightarrow> bool" where
  "hashed g \<longleftrightarrow> (\<forall>n \<in> live g. n_hash (g_node g n) \<noteq> [] \<and> n_hashDepfile (g_node g n) \<noteq> []) \<and>
     (\<forall>r \<in> set (g_rules g). r_hash (g_rule g r) \<noteq> [] \<and> r_hashDepfile (g_rule g r) \<noteq> [])"

definition phony_single :: "graph \<Rightarrow> bool" where
  "phony_single g \<longleftrightarrow> (\<forall>r \<in> set (g_rules g). Rule_isPhony g r \<longrightarrow> length (r_outputs (g_rule g r)) = 1)"

lemma conds_iff:
  "(\<forall>n \<in> live g. node_cond g n) \<and> (\<forall>r \<in> set (g_rules g). rule_cond g r) \<longleftrightarrow> hashed g \<and> phony_single g \<and> state_ok g \<and> counters_ok g"
  unfolding node_cond_def rule_cond_def hashed_def phony_single_def state_ok_def counters_ok_def by blast

lemma card_live: "wf_graph g \<Longrightarrow> card (live g) = length (g_nodes g)"
proof -
  assume wf: "wf_graph g"
  then have path: "\<And>p n. (p, n) \<in> set (g_nodes g) \<Longrightarrow> n_path (g_node g n) = p" and dist: "distinct (map fst (g_nodes g))" by (auto simp: wf_graph_def)
  have "inj_on snd (set (g_nodes g))" by (rule inj_onI) (metis path prod.collapse)
  then have "card (live g) = card (set (g_nodes g))" unfolding live_def by (rule card_image)
  also have "\<dots> = length (g_nodes g)" using dist by (metis distinct_card distinct_map)
  finally show ?thesis .
qed

lemma check_result:
  assumes g: "wf_graph g" "acyclic_graph g" and k: "2 * card (live g) < k"
  shows "\<exists>c. check k g = Inr c \<and> ck_nodes c = live g \<and> ck_rules c = set (g_rules g) \<and>
    (ck_ok c \<longleftrightarrow> hashed g \<and> phony_single g \<and> state_ok g \<and> counters_ok g)"
proof -
  let ?c0 = GraphConsistencyChecker
  obtain c where c: "foldM (checkNode k g) (sorted_list_of_set (g_roots g)) ?c0 = Inr c" "visited g ?c0 c"
    "g_roots g \<subseteq> ck_nodes c" "ck_ok c = new_ok g ?c0 c" using check_roots [OF g(1) k] by blast
  have c0: "ck_nodes ?c0 = {}" "ck_rules ?c0 = {}" "ck_nbRoots ?c0 = 0" "ck_nbSources ?c0 = 0" by (simp_all add: GraphConsistencyChecker_def)
  have "\<forall>n \<in> ck_nodes c. \<forall>r. n_child (g_node g n) = Some r \<longrightarrow> r \<in> ck_rules c" "\<forall>r \<in> ck_rules c. set (r_inputs (g_rule g r)) \<subseteq> ck_nodes c"
    using c(2) by (auto simp: visited_def c0)
  from closed_from_roots [OF g c(3) this] have sets: "ck_nodes c = live g" "ck_rules c = set (g_rules g)"
    using c(2) by (auto simp: visited_def c0)
  have counts: "ck_nbRoots c = card (g_roots g)" "ck_nbSources c = card (g_sources g)"
    using c(2) g(1) by (simp_all add: visited_def c0 sets wf_graph_def)
  have "card (set (g_rules g)) = length (g_rules g)" using g(1) by (simp add: wf_graph_def distinct_card)
  then have "check k g = Inr c" by (simp add: check_def c(1) Let_def sets counts card_live [OF g(1)])
  moreover have "ck_ok c \<longleftrightarrow> (\<forall>n \<in> live g. node_cond g n) \<and> (\<forall>r \<in> set (g_rules g). rule_cond g r)"
    by (simp add: c(4) new_ok_def c0 sets)
  ultimately show ?thesis using conds_iff sets by blast
qed

text \<open>C28. On a well formed acyclic graph the checker returns (the depth of its recursion is at most twice the number
  of nodes), visits all nodes and rules, and reports consistency exactly if all hashes are computed, phony rules have
  one output, the states of nodes and rules agree along the edges and all counters of ready inputs are right.\<close>

theorem checker_decides:
  assumes "wf_graph g" and "acyclic_graph g" and "2 * length (g_nodes g) < k"
  shows "\<exists>c. check k g = Inr c \<and> ck_nodes c = live g \<and> ck_rules c = set (g_rules g) \<and>
    (ck_ok c \<longleftrightarrow> hashed g \<and> phony_single g \<and> state_ok g \<and> counters_ok g)"
  using check_result [OF assms(1,2)] assms(3) card_live [OF assms(1)] by simp

theorem checker_decides_witness: "\<exists>c. check 7 chain_graph = Inr c \<and> ck_nodes c = {1, 2, 3} \<and> \<not> ck_ok c"
proof -
  have "2 * length (g_nodes chain_graph) < 7" by (simp add: chain_graph_def)
  from checker_decides [OF chain_wf chain_acyclic this] obtain c where c: "check 7 chain_graph = Inr c" "ck_nodes c = live chain_graph"
    "ck_ok c \<longleftrightarrow> hashed chain_graph \<and> phony_single chain_graph \<and> state_ok chain_graph \<and> counters_ok chain_graph" by blast
  moreover have "\<not> hashed chain_graph" by (auto simp: hashed_def chain_ok live_def chain_graph_def chain_node_def Node_init_def)
  ultimately show ?thesis using chain_ok(3) by auto
qed

text \<open>The checker rejects graphs that the startup scan of the same program produces: after the scan of a source
  file that is newer than one of two outputs built from it, all nodes and rules have their hashes and right counters,
  and the checker still reports an inconsistent graph.\<close>

lemma checker_rejects_scan:
  "\<exists>g' c. scan tag some_allocator 6 fork_stat (fork_graph, None, file_world ''x'') = Inr (g', None, file_world ''x'') \<and>
     counters_ok g' \<and> hashes_ok tag (file_world ''x'') g' \<and> check 7 g' = Inr c \<and> \<not> ck_ok c"
proof -
  obtain g' where g': "scan tag some_allocator 6 fork_stat (fork_graph, None, file_world ''x'') = Inr (g', None, file_world ''x'')"
    "skel g' = skel (stat_all fork_stat fork_graph)" "counters_ok g'" "hashes_ok tag (file_world ''x'') g'" "Node_isDirty g' 1"
    "1 \<in> set (r_inputs (g_rule fork_graph 2))" "\<not> Rule_isDirty g' 2" using scan_inconsistent_states by blast
  have "unscanned (stat_all fork_stat fork_graph)" using fork_unscanned by (simp add: stat_all_eq unscanned_times)
  then have plain: "wf_graph (stat_all fork_stat fork_graph)" "acyclic_graph (stat_all fork_stat fork_graph)" by (simp_all add: unscanned_def plain_graph_def)
  have wf: "wf_graph g'" "acyclic_graph g'"
    using plain skel_wf [OF g'(2)] by (simp_all add: acyclic_graph_def dep_edges_def skelD [OF g'(2)])
  have same: "g_rules g' = [1, 2]" "r_inputs (g_rule g' 2) = [1]" "g_nodes g' = g_nodes fork_graph"
    using skelD [OF g'(2)] by (simp_all add: stat_all_eq fork_graph_def chain_rule_def Rule_init_def)
  have "2 * card (live g') < 7" using card_live [OF wf(1)] by (simp add: same fork_graph_def)
  from check_result [OF wf this] obtain c where c: "check 7 g' = Inr c" "ck_ok c \<Longrightarrow> state_ok g'" by blast
  have "\<not> state_ok g'" using g'(5,7) same(1,2) by (auto simp: state_ok_def)
  then show ?thesis using g'(1,3,4) c by blast
qed

end
