(* ===== verification/Lazy_Cache.thy ===== *)
theory Lazy_Cache
  imports Parallel_Builder
begin

text \<open>
  Lazy fetching of targets from the cache before a build, \<open>src/src/lazy_cache.cpp\<close>.

  A dirty target whose content is in the cache is restored and marked up to date, and nothing below it is visited.
  The traversal keeps the invariants of the graph; the builder's bookkeeping however does not expect an output that
  was fetched (last section).
\<close>

section \<open>Class LazyCache\<close>

text \<open>The graph, the cache with the disk, and what was reported to the consumer.\<close>

type_synonym lazy_state = "graph \<times> cstate \<times> consumer_event list"

text \<open>What happens to a node that was restored; \<open>now\<close> is the result of \<open>time\<close>.\<close>

definition mark_fetched :: "timestamp \<Rightarrow> nid \<Rightarrow> graph \<Rightarrow> graph result" where
  "mark_fetched now n g =
     (let g = Node_setState n UP_TO_DATE g;
          g = Node_setLazyFetched n True g;
          g = Node_setTimestamp n now g
      in foldM Rule_markInputReady (n_parents (g_node g n)) g)"

fun traverseNode :: "nat \<Rightarrow> nid \<Rightarrow> lazy_state \<Rightarrow> lazy_state result"
  and traverseRule :: "nat \<Rightarrow> rid \<Rightarrow> lazy_state \<Rightarrow> lazy_state result" where
  "traverseNode 0 n s = Inl NoFuel"
| "traverseNode (Suc k) n (g, c, events) =
     (if \<not> Node_isDirty g n then Inr (g, c, events)
      else case n_child (g_node g n) of
             None \<Rightarrow> Inr (g, c, events)
           | Some r \<Rightarrow>
               if Rule_isPhony g r then traverseRule k r (g, c, events)
               else rbind (restoreNode g n c) (\<lambda>(restored, c).
                      if restored
                      then rbind (mark_fetched (w_time (snd c)) n g) (\<lambda>g.
                             Inr (g, c, events @ [CacheRetrieveAction (n_path (g_node g n))]))
                      else traverseRule k r (g, c, events)))"
| "traverseRule 0 r s = Inl NoFuel"
| "traverseRule (Suc k) r (g, c, events) = foldM (traverseNode k) (r_inputs (g_rule g r)) (g, c, events)"

declare traverseNode.simps [simp del] traverseRule.simps [simp del]

definition fetch :: "nat \<Rightarrow> nid set \<Rightarrow> lazy_state \<Rightarrow> lazy_state result" where
  "fetch k targets s = foldM (traverseNode k) (sorted_list_of_set targets) s"

section \<open>Marking a node\<close>

lemma markInputReady_loop:
  assumes "distinct qs" and "\<forall>q \<in> set qs. r_numReady (g_rule g q) < length (r_inputs (g_rule g q))"
  shows "foldM Rule_markInputReady qs g =
    Inr (g\<lparr>g_rule := (\<lambda>q. if q \<in> set qs then (g_rule g q)\<lparr>r_numReady := Suc (r_numReady (g_rule g q))\<rparr> else g_rule g q)\<rparr>)"
  using assms
proof (induction qs arbitrary: g)
  case (Cons q qs)
  let ?g = "upd_rule q (\<lambda>rl. rl\<lparr>r_numReady := Suc (r_numReady rl)\<rparr>) g"
  have "Rule_markInputReady q g = Inr ?g" using Cons.prems by (simp add: Rule_markInputReady_def Let_def Suc_le_eq)
  moreover have "\<forall>p \<in> set qs. r_numReady (g_rule ?g p) < length (r_inputs (g_rule ?g p))" using Cons.prems by auto
  ultimately show ?case using Cons.IH [of ?g] Cons.prems(1)
    by (auto simp: upd_rule_def fun_eq_iff intro!: graph.equality)
qed (simp add: fun_eq_iff)

lemma filter_insert_one:
  assumes "distinct xs" and "\<not> P n" and "\<And>m. P' m = (P m \<or> m = n)"
  shows "length (filter P' xs) = (if n \<in> set xs then Suc (length (filter P xs)) else length (filter P xs))"
  using assms(1) by (induction xs) (auto simp: assms(2,3))

text \<open>The invariant of the graph, and what the traversal may change.\<close>

definition lazy_inv :: "graph \<Rightarrow> bool" where
  "lazy_inv g \<longleftrightarrow> wf_graph g \<and> acyclic_graph g \<and> counters_ok g \<and> state_ok g"

definition rule_rel :: "graph \<Rightarrow> graph \<Rightarrow> rid \<Rightarrow> bool" where
  "rule_rel g g' r \<longleftrightarrow> r_inputs (g_rule g' r) = r_inputs (g_rule g r) \<and> r_outputs (g_rule g' r) = r_outputs (g_rule g r) \<and>
     r_command (g_rule g' r) = r_command (g_rule g r) \<and> Rule_isDirty g' r = Rule_isDirty g r"

definition node_rel :: "consumer_event set \<Rightarrow> graph \<Rightarrow> graph \<Rightarrow> nid \<Rightarrow> bool" where
  "node_rel E g g' n \<longleftrightarrow> n_path (g_node g' n) = n_path (g_node g n) \<and> n_child (g_node g' n) = n_child (g_node g n) \<and>
     n_hash (g_node g' n) = n_hash (g_node g n) \<and> (Node_isDirty g' n \<longrightarrow> Node_isDirty g n) \<and>
     (Node_isDirty g n \<and> \<not> Node_isDirty g' n \<longrightarrow>
        n_child (g_node g n) \<noteq> None \<and> n_lazy (g_node g' n) \<and> CacheRetrieveAction (n_path (g_node g n)) \<in> E) \<and>
     (n_lazy (g_node g n) \<and> \<not> Node_isDirty g n \<longrightarrow> n_lazy (g_node g' n))"

definition lazily :: "graph \<times> consumer_event list \<Rightarrow> graph \<times> consumer_event list \<Rightarrow> bool" where
  "lazily s s' \<longleftrightarrow> lazy_inv (fst s') \<and> g_nodes (fst s') = g_nodes (fst s) \<and> g_rules (fst s') = g_rules (fst s) \<and>
     (\<forall>r. rule_rel (fst s) (fst s') r) \<and> (\<forall>n. node_rel (set (snd s')) (fst s) (fst s') n) \<and> set (snd s) \<subseteq> set (snd s')"

lemma lazily_refl: "lazy_inv g \<Longrightarrow> lazily (g, ev) (g, ev)"
  by (simp add: lazily_def rule_rel_def node_rel_def)

lemma node_rel_trans: "node_rel E g1 g2 n \<Longrightarrow> node_rel E' g2 g3 n \<Longrightarrow> E \<subseteq> E' \<Longrightarrow> node_rel E' g1 g3 n"
  unfolding node_rel_def by (cases "Node_isDirty g1 n"; cases "Node_isDirty g2 n"; cases "Node_isDirty g3 n") auto

lemma lazily_trans: "lazily s1 s2 \<Longrightarrow> lazily s2 s3 \<Longrightarrow> lazily s1 s3"
proof -
  assume 1: "lazily s1 s2" and 2: "lazily s2 s3"
  have "node_rel (set (snd s3)) (fst s1) (fst s3) n" for n
    using node_rel_trans [of "set (snd s2)" "fst s1" "fst s2" n "set (snd s3)" "fst s3"] 1 2 by (simp add: lazily_def)
  moreover have "rule_rel (fst s1) (fst s3) r" for r using 1 2 by (simp add: lazily_def rule_rel_def)
  ultimately show ?thesis using 1 2 by (auto simp: lazily_def)
qed

lemma mark_fetched_ok:
  assumes g: "lazy_inv g" and n: "n \<in> live g" "Node_isDirty g n" "\<not> Node_isSource g n"
  shows "\<exists>g'. mark_fetched now n g = Inr g' \<and> lazily (g, ev) (g', ev @ [CacheRetrieveAction (n_path (g_node g' n))])"
proof -
  have wf: "wf_graph g" "acyclic_graph g" "counters_ok g" "state_ok g" using g by (simp_all add: lazy_inv_def)
  let ?qs = "n_parents (g_node g n)"
  let ?g1 = "Node_setTimestamp n now (Node_setLazyFetched n True (Node_setState n UP_TO_DATE g))"
  let ?g2 = "?g1\<lparr>g_rule := (\<lambda>q. if q \<in> set ?qs then (g_rule g q)\<lparr>r_numReady := Suc (r_numReady (g_rule g q))\<rparr> else g_rule g q)\<rparr>"
  have not_ready: "\<not> input_ready g n" using n by (simp add: input_ready_def)
  have parents: "q \<in> set ?qs \<longleftrightarrow> n \<in> set (r_inputs (g_rule g q))" if "q \<in> set (g_rules g)" for q
    using wf_input [OF wf(1) that] wf_parent [OF wf(1) n(1)] by blast
  have room: "r_numReady (g_rule g q) < length (r_inputs (g_rule g q))" if "q \<in> set ?qs" for q
  proof -
    have q: "q \<in> set (g_rules g)" "n \<in> set (r_inputs (g_rule g q))" using wf_parent [OF wf(1) n(1) that] by auto
    then have "length (filter (input_ready g) (r_inputs (g_rule g q))) < length (r_inputs (g_rule g q))"
      using not_ready by (metis length_filter_less)
    then show ?thesis using wf(3) q(1) by (simp add: counters_ok_def counter_ok_def)
  qed
  have sel: "n_parents (g_node ?g1 n) = ?qs" "g_rule ?g1 = g_rule g" by (simp_all add: node_defs)
  have run: "mark_fetched now n g = Inr ?g2"
    unfolding mark_fetched_def Let_def sel(1) using markInputReady_loop [of ?qs ?g1, unfolded sel(2)] wf_distinct(1) [OF wf(1) n(1)] room by blast
  have node: "g_node ?g2 m = (if m = n then (g_node g n)\<lparr>n_state := UP_TO_DATE, n_lazy := True, n_timestamp := now\<rparr> else g_node g m)" for m
    by (simp add: node_defs)
  have same: "g_nodes ?g2 = g_nodes g" "g_rules ?g2 = g_rules g" "g_roots ?g2 = g_roots g" "g_sources ?g2 = g_sources g" "live ?g2 = live g"
    by (simp_all add: node_defs live_def)
  have rsame: "r_inputs (g_rule ?g2 q) = r_inputs (g_rule g q)" "r_outputs (g_rule ?g2 q) = r_outputs (g_rule g q)"
    "r_numImplicit (g_rule ?g2 q) = r_numImplicit (g_rule g q)" "r_command (g_rule ?g2 q) = r_command (g_rule g q)" "Rule_isDirty ?g2 q = Rule_isDirty g q" for q
    by (simp_all add: Rule_isDirty_def)
  have nsame: "n_parents (g_node ?g2 m) = n_parents (g_node g m)" "n_child (g_node ?g2 m) = n_child (g_node g m)" "n_path (g_node ?g2 m) = n_path (g_node g m)"
    "n_hash (g_node ?g2 m) = n_hash (g_node g m)" for m unfolding node by simp_all
  have "wf_graph ?g2 = wf_graph g" unfolding wf_graph_def wf_node_def wf_rule_def same rsame nsame by simp
  moreover have "acyclic_graph ?g2 = acyclic_graph g" unfolding acyclic_graph_def dep_edges_def same rsame by simp
  ultimately have wf': "wf_graph ?g2" "acyclic_graph ?g2" using wf(1,2) by blast+
  have ready: "input_ready ?g2 m = (input_ready g m \<or> m = n)" for m
    unfolding input_ready_def Node_isSource_def Node_isDirty_def node by auto
  have "counter_ok ?g2 q" if q: "q \<in> set (g_rules g)" for q
    using filter_insert_one [OF wf_distinct(2) [OF wf(1) q] not_ready ready] wf(3) q parents [OF q]
    by (simp add: counters_ok_def counter_ok_def)
  then have cnt: "counters_ok ?g2" by (simp add: counters_ok_def same)
  have dirty: "Node_isDirty ?g2 m \<longleftrightarrow> m \<noteq> n \<and> Node_isDirty g m" and lazy: "n_lazy (g_node ?g2 m) \<longleftrightarrow> m = n \<or> n_lazy (g_node g m)" for m
    unfolding Node_isDirty_def node by simp_all
  have st: "state_ok ?g2" using wf(4) unfolding state_ok_def same rsame nsame dirty lazy by blast
  show ?thesis
  proof (intro exI conjI)
    have "rule_rel g ?g2 q" for q unfolding rule_rel_def rsame by simp
    moreover have "node_rel (set (ev @ [CacheRetrieveAction (n_path (g_node ?g2 n))])) g ?g2 m" for m
      using n(3) unfolding node_rel_def nsame dirty lazy by (auto simp: Node_isSource_def)
    ultimately show "lazily (g, ev) (?g2, ev @ [CacheRetrieveAction (n_path (g_node ?g2 n))])"
      using wf' cnt st unfolding lazily_def fst_conv snd_conv lazy_inv_def same by auto
  qed (rule run)
qed

section \<open>The traversal\<close>

text \<open>A visit succeeds with a lazy change, or fails with an error of the cache.\<close>

definition visit_ok :: "graph \<times> consumer_event list \<Rightarrow> lazy_state result \<Rightarrow> bool" where
  "visit_ok s r = (case r of Inl e \<Rightarrow> \<exists>g n c. restoreNode g n c = Inl e | Inr (g', c', ev') \<Rightarrow> lazily s (g', ev'))"

lemma loop_ok:
  assumes "\<And>n g' c' ev'. n \<in> set ns \<Longrightarrow> lazily (g, ev) (g', ev') \<Longrightarrow> visit_ok (g', ev') (f n (g', c', ev'))" and "lazily (g, ev) (g1, ev1)"
  shows "visit_ok (g, ev) (foldM f ns (g1, c1, ev1))"
  using assms
proof (induction ns arbitrary: g1 c1 ev1)
  case (Cons n ns)
  have v: "visit_ok (g1, ev1) (f n (g1, c1, ev1))" by (rule Cons.prems(1) [OF _ Cons.prems(2)]) simp
  show ?case
  proof (cases "f n (g1, c1, ev1)")
    case (Inl e)
    then show ?thesis using v by (simp add: visit_ok_def)
  next
    case (Inr s)
    obtain g2 c2 ev2 where s: "s = (g2, c2, ev2)" by (cases s)
    then have "lazily (g, ev) (g2, ev2)" using v Inr lazily_trans [OF Cons.prems(2)] by (simp add: visit_ok_def)
    then have "visit_ok (g, ev) (foldM f ns (g2, c2, ev2))" using Cons.IH [of g2 ev2 c2] Cons.prems(1) by simp
    then show ?thesis using Inr s by simp
  qed
qed (simp add: visit_ok_def)

lemma lazily_same:
  assumes "lazily (g, ev) (g', ev')"
  shows "live g' = live g" "height g' n = height g n" "lazy_inv g'" "g_rules g' = g_rules g" "r_inputs (g_rule g' r) = r_inputs (g_rule g r)"
proof -
  have "dep_edges g' = dep_edges g" using assms by (simp add: lazily_def rule_rel_def dep_edges_def)
  then show "height g' n = height g n" by (simp add: height_def)
qed (use assms in \<open>auto simp: lazily_def rule_rel_def live_def\<close>)

text \<open>The recursion goes down the graph, away from the roots.\<close>

lemma traverse_ok:
  "lazy_inv g \<Longrightarrow> n \<in> live g \<Longrightarrow> 2 * (card (live g) - height g n) \<le> k \<Longrightarrow> visit_ok (g, ev) (traverseNode k n (g, c, ev))"
  "lazy_inv g \<Longrightarrow> r \<in> set (g_rules g) \<Longrightarrow> (\<forall>m \<in> set (r_inputs (g_rule g r)). 2 * (card (live g) - height g m) < k) \<Longrightarrow> 0 < k \<Longrightarrow>
     visit_ok (g, ev) (traverseRule k r (g, c, ev))"
proof (induction k arbitrary: n r g c ev)
  case 0
  {
    case 1
    then show ?case using height_bound [of g n] by (auto simp: lazy_inv_def)
  next
    case 2
    then show ?case by simp
  }
next
  case (Suc k)
  {
    case 1
    note g = 1(1) [unfolded lazy_inv_def]
    have h: "height g n < card (live g)" using height_bound [of g n] g 1(2) by blast
    show ?case
    proof (cases "Node_isDirty g n \<and> n_child (g_node g n) \<noteq> None")
      case False
      then show ?thesis using lazily_refl [OF 1(1)] by (auto simp: traverseNode.simps visit_ok_def split: option.splits)
    next
      case True
      then obtain r where r: "n_child (g_node g n) = Some r" "Node_isDirty g n" by blast
      have rr: "r \<in> set (g_rules g)" "n \<in> set (r_outputs (g_rule g r))" using wf_child [of g n r] g 1(2) r(1) by auto
      have down: "visit_ok (g, ev) (traverseRule k r (g, c', ev))" for c'
      proof (rule Suc.IH(2) [OF 1(1) rr(1)])
        have "height g n < height g m" if "m \<in> set (r_inputs (g_rule g r))" for m
          using height_less [of g m n] g rr that by (auto simp: dep_edges_def)
        then have "card (live g) - height g m < card (live g) - height g n" if "m \<in> set (r_inputs (g_rule g r))" for m
          using that h by (meson diff_less_mono2)
        then show "\<forall>m \<in> set (r_inputs (g_rule g r)). 2 * (card (live g) - height g m) < k" using 1(3) by fastforce
        show "0 < k" using 1(3) h by linarith
      qed
      show ?thesis
      proof (cases "Rule_isPhony g r")
        case True
        then show ?thesis using down r by (simp add: traverseNode.simps)
      next
        case False
        show ?thesis
        proof (cases "restoreNode g n c")
          case (Inl e)
          then have "\<exists>g n c. restoreNode g n c = Inl e" by blast
          then show ?thesis using r False Inl by (simp add: traverseNode.simps visit_ok_def)
        next
          case (Inr res)
          obtain restored c' where res: "res = (restored, c')" by (cases res)
          have "\<not> Node_isSource g n" using r(1) by (simp add: Node_isSource_def)
          from mark_fetched_ok [OF 1(1,2) r(2) this, of "w_time (snd c')" ev] show ?thesis
            using r False Inr res down [of c'] by (auto simp: traverseNode.simps visit_ok_def)
        qed
      qed
    qed
  next
    case 2
    have "visit_ok (g, ev) (foldM (traverseNode k) (r_inputs (g_rule g n)) (g, c, ev))"
    proof (rule loop_ok)
      fix m g' c' ev' assume m: "m \<in> set (r_inputs (g_rule g n))" and g': "lazily (g, ev) (g', ev')"
      have "m \<in> live g" using wf_input [of g n m] 2(1,2) m by (auto simp: lazy_inv_def)
      then show "visit_ok (g', ev') (traverseNode k m (g', c', ev'))"
        using Suc.IH(1) [of g' m ev' c'] lazily_same [OF g'] 2(3) m by (simp add: less_Suc_eq_le)
    qed (rule lazily_refl [OF 2(1)])
    then show ?case by (simp add: traverseRule.simps)
  }
qed

section \<open>Properties\<close>



text \<open>One rule with the outputs \<open>b\<close> and \<open>c\<close>; another rule consumes \<open>b\<close>. Everything that is generated is dirty.\<close>

definition twin_graph :: graph where
  "twin_graph = Graph_empty\<lparr>
     g_node := (g_node Graph_empty)(1 := chain_node ''a'' None [1], 2 := (chain_node ''b'' (Some 1) [2])\<lparr>n_state := OUT_OF_DATE\<rparr>,
       3 := (chain_node ''c'' (Some 1) [])\<lparr>n_state := OUT_OF_DATE\<rparr>, 4 := (chain_node ''d'' (Some 2) [])\<lparr>n_state := OUT_OF_DATE\<rparr>),
     g_rule := (g_rule Graph_empty)(1 := (chain_rule [1] [2, 3])\<lparr>r_state := OUT_OF_DATE\<rparr>,
       2 := (chain_rule [2] [4])\<lparr>r_state := OUT_OF_DATE, r_numReady := 0\<rparr>),
     g_roots := {3, 4}, g_sources := {1}, g_nodes := [(''a'', 1), (''b'', 2), (''c'', 3), (''d'', 4)], g_rules := [1, 2]\<rparr>"

text \<open>An output that was fetched lazily breaks the next build of its rule: the builder marks all outputs of a
  finished rule up to date and counts each of them as a newly ready input of its consumers, also the one that was
  counted when it was fetched, and the assertion in \<open>markInputReady\<close> stops the daemon.\<close>

lemma fetched_output_aborts_build:
  "\<exists>g. mark_fetched now 2 twin_graph = Inr g \<and> state_ok g \<and> counters_ok g \<and>
     markOutputsUpToDate 1 g = Inl (AssertFailed ''numInputsReady_ <= inputs_.size()'')"
proof -
  have "wf_graph twin_graph" by (auto simp: wf_graph_def wf_node_def wf_rule_def live_def twin_graph_def chain_defs)
  moreover have "acyclic_graph twin_graph" by (rule acyclic_graph_by_rank [where rank = "\<lambda>n. 4 - n"]) (auto simp: twin_graph_def chain_defs)
  moreover have "counters_ok twin_graph" "state_ok twin_graph"
    by (auto simp: counters_ok_def counter_ok_def input_ready_def state_ok_def live_def Node_isDirty_def Node_isSource_def Rule_isDirty_def twin_graph_def chain_defs)
  ultimately have inv: "lazy_inv twin_graph" by (simp add: lazy_inv_def)
  have n: "2 \<in> live twin_graph" "Node_isDirty twin_graph 2" "\<not> Node_isSource twin_graph 2"
    by (auto simp: live_def Node_isDirty_def Node_isSource_def twin_graph_def chain_defs)
  obtain g where g: "mark_fetched now 2 twin_graph = Inr g" "lazy_inv g"
    using mark_fetched_ok [OF inv n, of now "[]"] by (auto simp: lazily_def)
  have "rbind (mark_fetched now 2 twin_graph) (markOutputsUpToDate 1) = Inl (AssertFailed ''numInputsReady_ <= inputs_.size()'')"
    by (simp add: mark_fetched_def markOutputsUpToDate_def Let_def Rule_markInputReady_def twin_graph_def node_defs chain_defs)
  then show ?thesis using g by (auto simp: lazy_inv_def)
qed

end
