(* ===== verification/Event_Notifier.thy ===== *)
theory Event_Notifier
  imports Falcon_Prelude
begin

text \<open>
  The event object of \<open>src/src/util/event.cpp\<close>, a pipe with which a thread wakes up another one that polls.

  The state of the pipe in the kernel is part of the model: the number of bytes that were written and not read
  yet, and the flags of the two descriptors. \<open>fcntl\<close> with \<open>F_SETFD\<close> changes the descriptor flags, of which
  \<open>FD_CLOEXEC\<close> is the only one; the flag \<open>O_NONBLOCK\<close> belongs to the status flags, which only \<open>F_SETFL\<close> changes.
\<close>

section \<open>Class EventNotifier\<close>

record descriptor =
  fd_number :: int
  fd_cloexec :: bool
  fd_nonblock :: bool

record event_notifier =
  en_rfd :: descriptor
  en_wfd :: descriptor
  en_pending :: nat

definition set_flags :: "descriptor \<Rightarrow> descriptor" where
  "set_flags fd = fd\<lparr>fd_cloexec := True\<rparr>"

text \<open>What \<open>pipe\<close> returns: the two new descriptors, or an error code.\<close>

definition EventNotifier :: "int + int \<times> int \<Rightarrow> event_notifier result" where
  "EventNotifier fds =
     (case fds of
        Inl e \<Rightarrow> throw_error e ''Failed to create EventNotifier''
      | Inr (r, w) \<Rightarrow>
          Inr \<lparr>en_rfd = set_flags \<lparr>fd_number = r, fd_cloexec = False, fd_nonblock = False\<rparr>,
               en_wfd = set_flags \<lparr>fd_number = w, fd_cloexec = False, fd_nonblock = False\<rparr>, en_pending = 0\<rparr>)"

text \<open>The outcomes of successive calls of \<open>write\<close>; a call that has no outcome never returns.\<close>

datatype write_result = Written | WriteError int

fun raise :: "write_result list \<Rightarrow> event_notifier \<Rightarrow> (int \<times> event_notifier) result" where
  "raise [] en = Inl Blocks"
| "raise (Written # ws) en = Inr (0, en\<lparr>en_pending := en_pending en + 8\<rparr>)"
| "raise (WriteError e # ws) en =
     (if e = EINTR then raise ws en else if e \<noteq> EAGAIN then Inr (-1, en) else Inr (0, en))"

text \<open>\<open>read\<close> on the pipe takes up to 512 bytes. On an empty pipe it fails with \<open>EAGAIN\<close>, which ends the loop, if the
  descriptor is non-blocking, and does not return otherwise. A call that is interrupted is repeated in the same
  state.\<close>

function flush :: "event_notifier \<Rightarrow> event_notifier result" where
  "flush en =
     (if en_pending en = 0 then (if fd_nonblock (en_rfd en) then Inr en else Inl Blocks)
      else if en_pending en < 512 then Inr (en\<lparr>en_pending := 0\<rparr>)
      else flush (en\<lparr>en_pending := en_pending en - 512\<rparr>))"
  by pat_completeness auto
termination by (relation "measure en_pending") auto

declare flush.simps [simp del]

section \<open>When flush returns\<close>

lemma flush_cases:
  "flush en = (if en_pending en mod 512 = 0 \<and> \<not> fd_nonblock (en_rfd en) then Inl Blocks else Inr (en\<lparr>en_pending := 0\<rparr>))"
proof (induction en rule: flush.induct)
  case (1 en)
  have "en_pending en < 512 \<Longrightarrow> en_pending en \<noteq> 0 \<Longrightarrow> en_pending en mod 512 \<noteq> 0" by simp
  then show ?case using 1 by (subst flush.simps) (auto simp: le_mod_geq)
qed

lemma raises_pending:
  "foldM (\<lambda>_ en. rbind (raise [Written] en) (\<lambda>(_, en). Inr en)) xs en = Inr (en\<lparr>en_pending := en_pending en + 8 * length xs\<rparr>)"
  by (induction xs arbitrary: en) auto

text \<open>C38. The descriptors of a new event object are not non-blocking. If exactly 64 events (or a multiple of 64) are
  raised before the reader wakes up, its call of \<open>flush\<close> never returns; for every other positive number of events
  it returns and resets the event.\<close>

theorem flush_blocks:
  assumes "EventNotifier (Inr fds) = Inr en" and "0 < n"
  shows "rbind (foldM (\<lambda>_ en. rbind (raise [Written] en) (\<lambda>(_, en). Inr en)) [0..<n] en) flush =
    (if n mod 64 = 0 then Inl Blocks else Inr en)"
proof -
  have en: "\<not> fd_nonblock (en_rfd en)" "en_pending en = 0" using assms(1) by (auto simp: EventNotifier_def set_flags_def split: prod.splits)
  have "8 * n mod 512 = 8 * (n mod 64)" using mult_mod_right [of 8 n 64] by simp
  then show ?thesis using en unfolding raises_pending by (simp add: flush_cases)
qed

theorem flush_blocks_witness:
  "\<exists>en. EventNotifier (Inr (3, 4)) = Inr en \<and>
     rbind (foldM (\<lambda>_ en. rbind (raise [Written] en) (\<lambda>(_, en). Inr en)) [0..<64] en) flush = Inl Blocks"
proof -
  obtain en where en: "EventNotifier (Inr (3, 4)) = Inr en" by (simp add: EventNotifier_def)
  have "(0::nat) < 64" by simp
  from flush_blocks [OF en this] en show ?thesis by auto
qed

end
