(* ===== verification/Stream_Server.thy ===== *)
theory Stream_Server
  imports Parallel_Builder Event_Notifier Transition_System "HOL-Library.Word"
begin

text \<open>
  The server that streams the output of the builds to its clients, \<open>src/src/stream_server.cpp\<close>.

  An iterator into the list of builds is the address of its list node, \<open>None\<close> for \<open>builds_.end()\<close>; an iterator
  into one of the two lists of descriptors is the descriptor, which occurs at most once in a list, with the list
  that it points into. The reference counter has 32 bits. The results of the system calls are parameters:
  \<open>write\<close> on the event pipe, \<open>accept\<close>, \<open>send\<close> and \<open>poll\<close>. What \<open>send\<close> accepted for a descriptor is recorded in
  \<open>ss_sent\<close>, which is not a member of the class but the view of the client. Opening the port is not modelled.

  Every operation takes the mutex, so operations of the two threads are interleaved as a whole; the theory
  shows for all interleavings that no assertion fails, that reference counters count, and what clients receive.
\<close>

section \<open>Data\<close>

record build_info =
  bi_id :: nat
  bi_buf :: string
  bi_refcount :: "32 word"
  bi_completed :: bool
  bi_firstChunk :: bool

definition BuildInfo :: "nat \<Rightarrow> build_info" where
  "BuildInfo i = \<lparr>bi_id = i, bi_buf = [], bi_refcount = 0, bi_completed = False, bi_firstChunk = True\<rparr>"

datatype fd_iterator = In_fds int | In_waiting int

record client_info =
  ci_build :: "nat option"
  ci_bufPtr :: nat
  ci_itFd :: fd_iterator
  ci_isWaiting :: bool

record stream_server =
  ss_builds :: "(nat \<times> build_info) list"
  ss_newBuilds :: nat
  ss_serverSocket :: int
  ss_event :: event_notifier
  ss_fds :: "int list"
  ss_waiting :: "int list"
  ss_map :: "(int \<times> client_info) list"
  ss_stopped :: bool
  ss_sent :: "int \<Rightarrow> string"

definition StreamServer :: "int \<Rightarrow> event_notifier \<Rightarrow> stream_server" where
  "StreamServer serverSocket eventFd =
     \<lparr>ss_builds = [], ss_newBuilds = 0, ss_serverSocket = serverSocket, ss_event = eventFd, ss_fds = [], ss_waiting = [],
      ss_map = [], ss_stopped = False, ss_sent = (\<lambda>_. [])\<rparr>"

text \<open>\<open>builds_.begin()\<close>, the build an iterator points to, and a change of it.\<close>

definition builds_begin :: "stream_server \<Rightarrow> nat option" where
  "builds_begin s = (case ss_builds s of [] \<Rightarrow> None | (h, _) # _ \<Rightarrow> Some h)"

definition build_at :: "stream_server \<Rightarrow> nat \<Rightarrow> build_info option" where
  "build_at s h = map_of (ss_builds s) h"

definition upd_build :: "nat \<Rightarrow> (build_info \<Rightarrow> build_info) \<Rightarrow> stream_server \<Rightarrow> stream_server" where
  "upd_build h f s = s\<lparr>ss_builds := map (\<lambda>(k, b). (k, if k = h then f b else b)) (ss_builds s)\<rparr>"

definition upd_front :: "(build_info \<Rightarrow> build_info) \<Rightarrow> stream_server \<Rightarrow> stream_server result" where
  "upd_front f s =
     (case ss_builds s of
        [] \<Rightarrow> Inl (AssertFailed ''!builds_.empty()'')
      | (h, b) # bs \<Rightarrow> Inr (s\<lparr>ss_builds := (h, f b) # bs\<rparr>))"

definition set_client :: "int \<Rightarrow> client_info \<Rightarrow> stream_server \<Rightarrow> stream_server" where
  "set_client fd c s = s\<lparr>ss_map := AList.update fd c (ss_map s)\<rparr>"

definition find_client :: "int \<Rightarrow> stream_server \<Rightarrow> (client_info \<Rightarrow> 'a result) \<Rightarrow> 'a result" where
  "find_client fd s k = (case map_of (ss_map s) fd of None \<Rightarrow> Inl (AssertFailed ''itMap != map_.end()'') | Some c \<Rightarrow> k c)"

section \<open>Writing\<close>

definition writeBuf :: "string \<Rightarrow> stream_server \<Rightarrow> stream_server result" where
  "writeBuf str = upd_front (\<lambda>b. b\<lparr>bi_buf := bi_buf b @ str\<rparr>)"

fun escapeJson :: "string \<Rightarrow> string" where
  "escapeJson [] = []"
| "escapeJson (c # cs) =
     (if c = CHR 0x22 \<or> c = CHR 0x5C then CHR 0x5C # c # escapeJson cs
      else if c = CHR 0x0A then CHR 0x5C # CHR ''n'' # escapeJson cs
      else c # escapeJson cs)"

definition writeBufEscapeJson :: "string \<Rightarrow> stream_server \<Rightarrow> stream_server result" where
  "writeBufEscapeJson str = upd_front (\<lambda>b. b\<lparr>bi_buf := bi_buf b @ escapeJson str\<rparr>)"

definition notifyPoll :: "write_result list \<Rightarrow> stream_server \<Rightarrow> stream_server result" where
  "notifyPoll ws s =
     rbind (raise ws (ss_event s)) (\<lambda>(ret, en).
       if ret \<noteq> 0 then throw_error (case last ws of WriteError e \<Rightarrow> e | Written \<Rightarrow> 0) ''raise event failed''
       else Inr (s\<lparr>ss_event := en\<rparr>))"

text \<open>One iteration of \<open>flushWaiting\<close>.\<close>

definition flush_client :: "int \<Rightarrow> stream_server \<Rightarrow> stream_server result" where
  "flush_client fd s =
     (let s = s\<lparr>ss_fds := fd # ss_fds s\<rparr> in
      find_client fd s (\<lambda>c.
        let c = c\<lparr>ci_itFd := In_fds fd, ci_isWaiting := False\<rparr> in
        case ci_build c of
          None \<Rightarrow>
            (case builds_begin s of
               None \<Rightarrow> Inl InvalidIterator
             | Some h \<Rightarrow>
                 Inr (upd_build h (\<lambda>b. b\<lparr>bi_refcount := bi_refcount b + 1\<rparr>) (set_client fd (c\<lparr>ci_build := Some h\<rparr>) s)))
        | Some h \<Rightarrow> assert_that ''itMap->second.itBuild == builds_.begin()'' (builds_begin s = Some h) (Inr (set_client fd c s))))"

definition flushWaiting :: "write_result list \<Rightarrow> stream_server \<Rightarrow> stream_server result" where
  "flushWaiting ws s =
     assert_that ''!builds_.empty() && !builds_.front().buildCompleted && !builds_.front().buf.empty()''
       (case ss_builds s of [] \<Rightarrow> False | (_, b) # _ \<Rightarrow> \<not> bi_completed b \<and> bi_buf b \<noteq> [])
       (rbind (foldM flush_client (ss_waiting s) s) (\<lambda>s. notifyPoll ws (s\<lparr>ss_waiting := []\<rparr>)))"

text \<open>The chunks of the stream; \<open>quot\<close> is the double quote.\<close>

definition quot :: string where
  "quot = [CHR 0x22]"

definition removeBuild :: "nat \<Rightarrow> stream_server \<Rightarrow> stream_server result" where
  "removeBuild h s =
     (case build_at s h of
        None \<Rightarrow> Inl UseAfterFree
      | Some b \<Rightarrow>
          assert_that ''it->refcount == 0'' (bi_refcount b = 0)
            (assert_that ''it->buildCompleted'' (bi_completed b)
               (Inr (s\<lparr>ss_builds := filter (\<lambda>kb. fst kb \<noteq> h) (ss_builds s)\<rparr>))))"

definition newBuild :: "nat \<Rightarrow> write_result list \<Rightarrow> stream_server \<Rightarrow> stream_server result" where
  "newBuild buildId ws s =
     rbind (case ss_builds s of
              [] \<Rightarrow> Inr s
            | (h, b) # _ \<Rightarrow>
                assert_that ''builds_.front().buildCompleted'' (bi_completed b)
                  (if bi_refcount b = 0 then removeBuild h s else Inr s))
       (\<lambda>s. let s = s\<lparr>ss_builds := (ss_newBuilds s, BuildInfo buildId) # ss_builds s, ss_newBuilds := Suc (ss_newBuilds s)\<rparr> in
          rbind (writeBuf (''{'' @ endl @ ''  '' @ quot @ ''id'' @ quot @ '': '') s) (\<lambda>s.
          rbind (writeBuf (show_nat buildId) s) (\<lambda>s.
          rbind (writeBuf ('','' @ endl @ ''  '' @ quot @ ''cmds'' @ quot @ '': ['' @ endl) s) (\<lambda>s.
          flushWaiting ws s))))"

definition endBuild :: "BuildResult \<Rightarrow> write_result list \<Rightarrow> stream_server \<Rightarrow> stream_server result" where
  "endBuild r ws s =
     assert_that ''!builds_.empty() && !builds_.front().buildCompleted''
       (case ss_builds s of [] \<Rightarrow> False | (_, b) # _ \<Rightarrow> \<not> bi_completed b)
       (rbind (writeBuf (endl @ ''  ],'' @ endl @ ''  '' @ quot @ ''result'' @ quot @ '': '' @ quot) s) (\<lambda>s.
        rbind (writeBuf (toString_BuildResult r) s) (\<lambda>s.
        rbind (writeBuf (quot @ endl @ ''}'' @ endl) s) (\<lambda>s.
        rbind (flushWaiting ws s) (upd_front (\<lambda>b. b\<lparr>bi_completed := True\<rparr>))))))"

text \<open>The comma between chunks.\<close>

definition separate :: "stream_server \<Rightarrow> stream_server result" where
  "separate s =
     (case ss_builds s of
        [] \<Rightarrow> Inl (AssertFailed ''!builds_.empty()'')
      | (_, b) # _ \<Rightarrow> if bi_firstChunk b then upd_front (\<lambda>b. b\<lparr>bi_firstChunk := False\<rparr>) s else writeBuf ('','' @ endl) s)"

definition writeCmdOutput :: "nat \<Rightarrow> string \<Rightarrow> bool \<Rightarrow> write_result list \<Rightarrow> stream_server \<Rightarrow> stream_server result" where
  "writeCmdOutput cmdId buf isStdout ws s =
     assert_that ''!builds_.empty()'' (ss_builds s \<noteq> [])
     (assert_that ''!builds_.front().firstChunk'' (\<not> bi_firstChunk (snd (hd (ss_builds s))))
     (rbind (writeBuf ('','' @ endl) s) (\<lambda>s.
      rbind (writeBuf (''    { '' @ quot @ ''id'' @ quot @ '': '') s) (\<lambda>s.
      rbind (writeBuf (show_nat cmdId) s) (\<lambda>s.
      rbind (writeBuf (if isStdout then '', '' @ quot @ ''stdout'' @ quot @ '': '' @ quot
                       else '', '' @ quot @ ''stderr'' @ quot @ '': '' @ quot) s) (\<lambda>s.
      rbind (writeBufEscapeJson buf s) (\<lambda>s.
      rbind (writeBuf (quot @ '' }'') s) (flushWaiting ws))))))))"

definition writeStdout :: "nat \<Rightarrow> string \<Rightarrow> write_result list \<Rightarrow> stream_server \<Rightarrow> stream_server result" where
  "writeStdout cmdId buf = writeCmdOutput cmdId buf True"

definition writeStderr :: "nat \<Rightarrow> string \<Rightarrow> write_result list \<Rightarrow> stream_server \<Rightarrow> stream_server result" where
  "writeStderr cmdId buf = writeCmdOutput cmdId buf False"

definition newCommand :: "nat \<Rightarrow> string \<Rightarrow> write_result list \<Rightarrow> stream_server \<Rightarrow> stream_server result" where
  "newCommand cmdId cmd ws s =
     rbind (separate s) (\<lambda>s.
     rbind (writeBuf (''    { '' @ quot @ ''id'' @ quot @ '': '') s) (\<lambda>s.
     rbind (writeBuf (show_nat cmdId) s) (\<lambda>s.
     rbind (writeBuf ('', '' @ quot @ ''cmd'' @ quot @ '': '' @ quot) s) (\<lambda>s.
     rbind (writeBufEscapeJson cmd s) (\<lambda>s.
     rbind (writeBuf (quot @ '' }'') s) (flushWaiting ws))))))"

definition endCommand :: "nat \<Rightarrow> SubProcessExitStatus \<Rightarrow> write_result list \<Rightarrow> stream_server \<Rightarrow> stream_server result" where
  "endCommand cmdId status ws s =
     rbind (writeBuf ('','' @ endl) s) (\<lambda>s.
     rbind (writeBuf (''    { '' @ quot @ ''id'' @ quot @ '': '') s) (\<lambda>s.
     rbind (writeBuf (show_nat cmdId) s) (\<lambda>s.
     rbind (writeBuf ('', '' @ quot @ ''status'' @ quot @ '': '' @ quot) s) (\<lambda>s.
     rbind (writeBuf (toString status) s) (\<lambda>s.
     rbind (writeBuf (quot @ '' }'') s) (flushWaiting ws))))))"

definition cacheRetrieveAction :: "string \<Rightarrow> write_result list \<Rightarrow> stream_server \<Rightarrow> stream_server result" where
  "cacheRetrieveAction path ws s =
     rbind (separate s) (\<lambda>s.
     rbind (writeBuf (''    { '' @ quot @ ''cache'' @ quot @ '': '' @ quot) s) (\<lambda>s.
     rbind (writeBuf path s) (\<lambda>s.
     rbind (writeBuf (quot @ '' }'') s) (flushWaiting ws))))"

section \<open>Clients\<close>

definition createClient :: "int \<Rightarrow> stream_server \<Rightarrow> stream_server" where
  "createClient fd s =
     (let isWaiting = (case ss_builds s of [] \<Rightarrow> True | (_, b) # _ \<Rightarrow> bi_buf b = []);
          s = (if isWaiting then s\<lparr>ss_waiting := fd # ss_waiting s\<rparr> else s\<lparr>ss_fds := fd # ss_fds s\<rparr>);
          s = (case builds_begin s of None \<Rightarrow> s | Some h \<Rightarrow> upd_build h (\<lambda>b. b\<lparr>bi_refcount := bi_refcount b + 1\<rparr>) s)
      in (set_client fd \<lparr>ci_build = builds_begin s, ci_bufPtr = 0, ci_itFd = (if isWaiting then In_waiting fd else In_fds fd),
            ci_isWaiting = isWaiting\<rparr> s)\<lparr>ss_sent := (ss_sent s)(fd := [])\<rparr>)"

datatype accept_result = Accepted int | AcceptError int

fun acceptClients :: "accept_result list \<Rightarrow> stream_server \<Rightarrow> stream_server result" where
  "acceptClients [] s = Inl Blocks"
| "acceptClients (AcceptError e # rest) s = (if e = EAGAIN then Inr s else throw_error e ''accept'')"
| "acceptClients (Accepted fd # rest) s = acceptClients rest (createClient fd s)"

text \<open>\<open>fds_.erase(it)\<close>.\<close>

definition fds_erase :: "fd_iterator \<Rightarrow> stream_server \<Rightarrow> stream_server result" where
  "fds_erase it s = (case it of In_fds fd \<Rightarrow> Inr (s\<lparr>ss_fds := remove1 fd (ss_fds s)\<rparr>) | In_waiting _ \<Rightarrow> Inl InvalidIterator)"

definition closeClient :: "int \<Rightarrow> stream_server \<Rightarrow> stream_server result" where
  "closeClient fd s =
     find_client fd s (\<lambda>c.
       case ci_build c of
         None \<Rightarrow> Inl (AssertFailed ''itBuild != builds_.end()'')
       | Some h \<Rightarrow>
           (case build_at s h of
              None \<Rightarrow> Inl UseAfterFree
            | Some b \<Rightarrow>
                (let refcount = bi_refcount b - 1; s = upd_build h (\<lambda>b. b\<lparr>bi_refcount := refcount\<rparr>) s in
                 rbind (if refcount = 0 \<and> bi_completed b \<and> builds_begin s \<noteq> Some h then removeBuild h s else Inr s) (\<lambda>s.
                 rbind (fds_erase (ci_itFd c) s) (\<lambda>s. Inr (s\<lparr>ss_map := AList.delete fd (ss_map s)\<rparr>))))))"

text \<open>The loop around \<open>send\<close>. The pointer \<open>bufPtr\<close> that is passed to \<open>send\<close> is computed once, before the loop, from the
  position \<open>first\<close> of the client at that time; the loop advances the position \<open>pos\<close> and shortens the size only.
  The result is the new position, what was sent, and the error that ended the loop.\<close>

datatype send_result = Sent nat | SendError int

fun send_loop :: "send_result list \<Rightarrow> string \<Rightarrow> nat \<Rightarrow> nat \<Rightarrow> (nat \<times> string \<times> int option) result" where
  "send_loop [] buf first pos = Inl Blocks"
| "send_loop (SendError e # rs) buf first pos = Inr (pos, [], Some e)"
| "send_loop (Sent r # rs) buf first pos =
     (let data = take r (drop first buf) in
      if pos + r < length buf
      then rbind (send_loop rs buf first (pos + r)) (\<lambda>(pos, more, e). Inr (pos, data @ more, e))
      else Inr (pos + r, data, None))"

definition processClient :: "send_result list \<Rightarrow> int \<Rightarrow> stream_server \<Rightarrow> stream_server result" where
  "processClient rs fd s =
     find_client fd s (\<lambda>c.
       case ci_build c of
         None \<Rightarrow> Inl (AssertFailed ''itBuild != builds_.end()'')
       | Some h \<Rightarrow>
           (case build_at s h of
              None \<Rightarrow> Inl UseAfterFree
            | Some b \<Rightarrow>
                assert_that ''info.bufPtr < itBuild->buf.size()'' (ci_bufPtr c < length (bi_buf b))
                (rbind (send_loop rs (bi_buf b) (ci_bufPtr c) (ci_bufPtr c)) (\<lambda>(pos, data, err).
                 let c = c\<lparr>ci_bufPtr := pos\<rparr>;
                     s = (set_client fd c s)\<lparr>ss_sent := (ss_sent s)(fd := ss_sent s fd @ data)\<rparr> in
                 case err of
                   Some e \<Rightarrow> if e \<noteq> EAGAIN then closeClient fd s else Inr s
                 | None \<Rightarrow>
                     if bi_completed b then closeClient fd s
                     else rbind (fds_erase (ci_itFd c) s) (\<lambda>s.
                            Inr (set_client fd (c\<lparr>ci_isWaiting := True, ci_itFd := In_waiting fd\<rparr>)
                                   (s\<lparr>ss_waiting := fd # ss_waiting s\<rparr>)))))))"

section \<open>The threads\<close>

text \<open>The descriptors that \<open>processEvents\<close> polls, and the events it asks for and gets.\<close>

record revents =
  rv_in :: bool
  rv_out :: bool
  rv_other :: bool

datatype poll_result = PollError int | Polled "revents list"

definition poll_fds :: "stream_server \<Rightarrow> int list" where
  "poll_fds s = ss_fds s @ [ss_serverSocket s, fd_number (en_rfd (ss_event s))]"

definition flushEventFd :: "stream_server \<Rightarrow> stream_server result" where
  "flushEventFd s = rbind (flush (ss_event s)) (\<lambda>en. Inr (s\<lparr>ss_event := en\<rparr>))"

definition dispatch ::
    "(int \<Rightarrow> send_result list) \<Rightarrow> accept_result list \<Rightarrow> int \<times> revents \<Rightarrow> stream_server \<Rightarrow> stream_server result" where
  "dispatch sends accepts = (\<lambda>(fd, rv) s.
     if \<not> rv_in rv \<and> \<not> rv_out rv \<and> \<not> rv_other rv then Inr s
     else if fd = ss_serverSocket s then (if rv_in rv then acceptClients accepts s else Inr s)
     else if fd \<noteq> fd_number (en_rfd (ss_event s)) then (if rv_out rv then processClient (sends fd) fd s else Inr s)
     else flushEventFd s)"

definition processEvents ::
    "poll_result \<Rightarrow> (int \<Rightarrow> send_result list) \<Rightarrow> accept_result list \<Rightarrow> stream_server \<Rightarrow> stream_server result" where
  "processEvents polled sends accepts s =
     (case polled of
        PollError e \<Rightarrow> if e = EINTR then Inr s else throw_error e ''poll failed''
      | Polled rvs \<Rightarrow> foldM (dispatch sends accepts) (zip (poll_fds s) rvs) s)"

text \<open>The loop of the server thread, on the outcomes of successive calls of \<open>poll\<close>.\<close>

fun server_run ::
    "(poll_result \<times> (int \<Rightarrow> send_result list) \<times> accept_result list) list \<Rightarrow> stream_server \<Rightarrow> stream_server result" where
  "server_run [] s = (if ss_stopped s then Inr s else Inl Blocks)"
| "server_run ((polled, sends, accepts) # rest) s =
     (if ss_stopped s then Inr s else rbind (processEvents polled sends accepts s) (server_run rest))"

definition stop :: "write_result list \<Rightarrow> stream_server \<Rightarrow> stream_server result" where
  "stop ws s = notifyPoll ws (s\<lparr>ss_stopped := True\<rparr>)"

text \<open>
  The results of the system calls of \<open>openPort\<close>: the new socket or \<open>errno\<close>, and for each of the other calls
  the \<open>errno\<close> of a failure as it is read after the socket was closed. The port is cut to 16 bits by \<open>htons\<close>.
  The result comes with the descriptors that were closed; an exception leaves the number in \<open>serverSocket_\<close>.
\<close>

record socket_os =
  so_socket :: "int + int"
  so_setsockopt :: "int option"
  so_ioctl :: "int option"
  so_bind :: "16 word \<Rightarrow> int option"
  so_listen :: "int option"

definition openPort :: "socket_os \<Rightarrow> 32 word \<Rightarrow> stream_server \<Rightarrow> unit result \<times> int list \<times> stream_server" where
  "openPort os port s =
     (case so_socket os of
        Inl errno \<Rightarrow> (throw_error errno ''Failed to open socket'', [], s\<lparr>ss_serverSocket := -1\<rparr>)
      | Inr fd \<Rightarrow>
          let s' = s\<lparr>ss_serverSocket := fd\<rparr>
          in case so_setsockopt os of
               Some errno \<Rightarrow> (throw_error errno ''setsockopt'', [fd], s')
             | None \<Rightarrow> (case so_ioctl os of
                 Some errno \<Rightarrow> (throw_error errno ''ioctl'', [fd], s')
               | None \<Rightarrow> (case so_bind os (ucast port) of
                   Some errno \<Rightarrow> (throw_error errno ''bind'', [fd], s')
                 | None \<Rightarrow> (case so_listen os of
                     Some errno \<Rightarrow> (throw_error errno ''listen'', [fd], s')
                   | None \<Rightarrow> (Inr (), [], s')))))"

text \<open>The destructor closes the clients in the order of the map.\<close>

definition StreamServer_destroy :: "stream_server \<Rightarrow> stream_server result" where
  "StreamServer_destroy s =
     foldM (\<lambda>(fd, c). closeClient (case ci_itFd c of In_fds f \<Rightarrow> f | In_waiting f \<Rightarrow> f)) (ss_map s) s"

section \<open>Invariant\<close>

text \<open>The number of clients that read a build.\<close>

definition refs :: "(int \<rightharpoonup> client_info) \<Rightarrow> nat \<Rightarrow> nat" where
  "refs M h = card {fd. \<exists>c. M fd = Some c \<and> ci_build c = Some h}"

definition builds_ok :: "(nat \<times> build_info) list \<Rightarrow> nat \<Rightarrow> (int \<rightharpoonup> client_info) \<Rightarrow> bool" where
  "builds_ok B N M \<longleftrightarrow> distinct (map fst B) \<and> (\<forall>(h, b) \<in> set B. h < N \<and> bi_buf b \<noteq> [] \<and> unat (bi_refcount b) = refs M h) \<and>
     (\<forall>(h, b) \<in> set (tl B). bi_completed b \<and> bi_refcount b \<noteq> 0)"

text \<open>
  A client whose descriptor is in \<open>fds_\<close> has a build with data that was not sent yet. A client in \<open>waiting_\<close> has
  received all data of the build in progress, or waits for the first build. While new data is announced, the
  waiting clients are \<open>due\<close>. If \<open>T\<close> holds, what the client received (\<open>S\<close>) is the part of the buffer before its position.
\<close>

definition bufs :: "(nat \<times> build_info) list \<Rightarrow> (nat \<times> string) set" where
  "bufs B = (\<lambda>(h, b). (h, bi_buf b)) ` set B"

definition reading :: "bool \<Rightarrow> (int \<Rightarrow> string) \<Rightarrow> (nat \<times> build_info) list \<Rightarrow> int \<Rightarrow> client_info \<Rightarrow> bool" where
  "reading T S B fd c \<longleftrightarrow> \<not> ci_isWaiting c \<and> ci_itFd c = In_fds fd \<and>
     (\<exists>h buf. ci_build c = Some h \<and> (h, buf) \<in> bufs B \<and> ci_bufPtr c < length buf \<and> (T \<longrightarrow> S fd = take (ci_bufPtr c) buf))"

definition waits :: "bool \<Rightarrow> (int \<Rightarrow> string) \<Rightarrow> (nat \<times> build_info) list \<Rightarrow> int \<Rightarrow> client_info \<Rightarrow> bool" where
  "waits T S B fd c \<longleftrightarrow>
     (case B of [] \<Rightarrow> ci_build c = None \<and> ci_bufPtr c = 0 \<and> (T \<longrightarrow> S fd = [])
      | (h, b) # _ \<Rightarrow> ci_build c = Some h \<and> \<not> bi_completed b \<and> ci_bufPtr c = length (bi_buf b) \<and> (T \<longrightarrow> S fd = bi_buf b))"

definition due :: "bool \<Rightarrow> (int \<Rightarrow> string) \<Rightarrow> nat \<Rightarrow> string \<Rightarrow> int \<Rightarrow> client_info \<Rightarrow> bool" where
  "due T S h buf fd c \<longleftrightarrow> (ci_build c = None \<or> ci_build c = Some h) \<and> ci_bufPtr c < length buf \<and> (T \<longrightarrow> S fd = take (ci_bufPtr c) buf)"

definition clients_ok ::
    "(int \<Rightarrow> client_info \<Rightarrow> bool) \<Rightarrow> (int \<Rightarrow> client_info \<Rightarrow> bool) \<Rightarrow> int list \<Rightarrow> int list \<Rightarrow> (int \<rightharpoonup> client_info) \<Rightarrow> bool" where
  "clients_ok R Q fds W M \<longleftrightarrow> distinct (fds @ W) \<and> dom M = set fds \<union> set W \<and> card (dom M) < 2 ^ 32 \<and>
     (\<forall>fd c. M fd = Some c \<longrightarrow> (if fd \<in> set W then ci_isWaiting c \<and> ci_itFd c = In_waiting fd \<and> Q fd c else R fd c))"

definition server_inv :: "bool \<Rightarrow> stream_server \<Rightarrow> bool" where
  "server_inv T s \<longleftrightarrow> builds_ok (ss_builds s) (ss_newBuilds s) (map_of (ss_map s)) \<and>
     clients_ok (reading T (ss_sent s) (ss_builds s)) (waits T (ss_sent s) (ss_builds s)) (ss_fds s) (ss_waiting s) (map_of (ss_map s))"

section \<open>Reference counting\<close>

lemma refs_same: "M fd = Some c0 \<Longrightarrow> ci_build c0 = ci_build c \<Longrightarrow> refs (M(fd \<mapsto> c)) h = refs M h"
  unfolding refs_def by (rule arg_cong [of _ _ card]) auto

lemma refs_none: "ci_build c = None \<Longrightarrow> M fd = None \<Longrightarrow> refs (M(fd \<mapsto> c)) h = refs M h"
  unfolding refs_def by (rule arg_cong [of _ _ card]) auto

lemma refs_add:
  assumes "finite (dom M)" and "case M fd of None \<Rightarrow> True | Some c0 \<Rightarrow> ci_build c0 = None" and "ci_build c = Some h"
  shows "refs (M(fd \<mapsto> c)) k = (if k = h then Suc (refs M k) else refs M k)"
proof -
  let ?A = "\<lambda>M k. {fd. \<exists>c. M fd = Some c \<and> ci_build c = Some k}"
  have fin: "finite (?A M k)" by (rule finite_subset [OF _ assms(1)]) auto
  have eq: "?A (M(fd \<mapsto> c)) k = (if k = h then insert fd (?A M k) else ?A M k)" using assms(2,3) by (auto split: option.splits)
  have "fd \<notin> ?A M k" using assms(2) by (auto split: option.splits)
  from card_insert_disjoint [OF fin this] show ?thesis unfolding refs_def eq by (cases "k = h") simp_all
qed

lemma refs_del:
  assumes "finite (dom M)" and "M fd = Some c" and "ci_build c = Some h"
  shows "refs (M(fd := None)) k = (if k = h then refs M k - 1 else refs M k)" "0 < refs M h"
proof -
  let ?A = "\<lambda>M k. {fd. \<exists>c. M fd = Some c \<and> ci_build c = Some k}"
  have fin: "finite (?A M k)" for k by (rule finite_subset [OF _ assms(1)]) auto
  have mem: "fd \<in> ?A M h" using assms(2,3) by auto
  have "?A (M(fd := None)) k = (if k = h then ?A M k - {fd} else ?A M k)" using assms(2,3) by auto
  then show "refs (M(fd := None)) k = (if k = h then refs M k - 1 else refs M k)"
    unfolding refs_def using mem by (simp add: card_Diff_singleton)
  show "0 < refs M h" unfolding refs_def using mem fin card_gt_0_iff by blast
qed

lemma refs_le: "finite (dom M) \<Longrightarrow> refs M h \<le> card (dom M)"
  unfolding refs_def by (intro card_mono) auto

text \<open>The counter does not wrap around.\<close>

lemma unat_inc: "unat x = n \<Longrightarrow> Suc n < 2 ^ 32 \<Longrightarrow> unat (x + 1 :: 32 word) = Suc n"
  by (simp add: unat_word_ariths)

lemma unat_dec: "unat x = n \<Longrightarrow> 0 < n \<Longrightarrow> unat (x - 1 :: 32 word) = n - 1"
  by (metis unat_0 unat_minus_one less_numeral_extra(3))

lemma map_of_upd_build:
  "map_of (map (\<lambda>(k, b). (k, if k = h then f b else b)) B) k = map_option (\<lambda>b. if k = h then f b else b) (map_of B k)"
  by (induction B) auto

lemma upd_build_front:
  "ss_builds s = (h, b) # bs \<Longrightarrow> h \<notin> fst ` set bs \<Longrightarrow> upd_build h f s = s\<lparr>ss_builds := (h, f b) # bs\<rparr>"
proof -
  assume s: "ss_builds s = (h, b) # bs" and h: "h \<notin> fst ` set bs"
  have "map (\<lambda>(k, b). (k, if k = h then f b else b)) bs = bs" using h by (induction bs) auto
  then show ?thesis using s by (simp add: upd_build_def)
qed

section \<open>Announcing new data\<close>

lemma flush_client_step:
  assumes b: "ss_builds s = (h, b) # bs" "builds_ok (ss_builds s) N (map_of (ss_map s))" "\<not> bi_completed b"
    and c: "clients_ok (reading T S (ss_builds s)) (due T S h (bi_buf b)) (ss_fds s) (fd # W) (map_of (ss_map s))"
  shows "\<exists>rc m. let s' = s\<lparr>ss_builds := (h, b\<lparr>bi_refcount := rc\<rparr>) # bs, ss_fds := fd # ss_fds s, ss_map := m\<rparr> in
    flush_client fd s = Inr s' \<and> builds_ok (ss_builds s') N (map_of m) \<and>
    clients_ok (reading T S (ss_builds s')) (due T S h (bi_buf b)) (ss_fds s') W (map_of m)"
proof -
  let ?M = "map_of (ss_map s)"
  have dom: "dom ?M = set (ss_fds s) \<union> set (fd # W)" and dist: "distinct (ss_fds s @ fd # W)" and small: "card (dom ?M) < 2 ^ 32"
    and cl: "\<And>f c. ?M f = Some c \<Longrightarrow> if f \<in> set (fd # W) then ci_isWaiting c \<and> ci_itFd c = In_waiting f \<and> due T S h (bi_buf b) f c else reading T S (ss_builds s) f c"
    using c unfolding clients_ok_def by blast+
  have h: "h \<notin> fst ` set bs" using b(1,2) by (auto simp: builds_ok_def)
  obtain c where c: "?M fd = Some c" using dom by (metis domD UnCI list.set_intros(1))
  then have d: "due T S h (bi_buf b) fd c" using cl [OF c] by simp
  define c' where "c' = c\<lparr>ci_itFd := In_fds fd, ci_isWaiting := False, ci_build := Some h\<rparr>"
  define rc where "rc = (if ci_build c = None then bi_refcount b + 1 else bi_refcount b)"
  let ?m = "AList.update fd c' (ss_map s)" and ?b = "b\<lparr>bi_refcount := rc\<rparr>"
  let ?s = "s\<lparr>ss_builds := (h, ?b) # bs, ss_fds := fd # ss_fds s, ss_map := ?m\<rparr>"
  have M': "map_of ?m = ?M(fd \<mapsto> c')" by (simp add: update_conv')
  have run: "flush_client fd s = Inr ?s"
  proof (cases "ci_build c")
    case None
    then show ?thesis using b(1) c h
      by (simp add: flush_client_def find_client_def builds_begin_def set_client_def upd_build_front [of _ h b bs] c'_def rc_def)
  next
    case (Some k)
    then have "c\<lparr>ci_itFd := In_fds fd, ci_isWaiting := False\<rparr> = c'" "k = h" using d by (simp_all add: c'_def due_def)
    then show ?thesis using b(1) c Some
      by (simp add: flush_client_def find_client_def builds_begin_def set_client_def rc_def Let_def)
  qed
  have fin: "finite (dom ?M)" by (rule finite_dom_map_of)
  have refs: "refs (?M(fd \<mapsto> c')) k = (if ci_build c = None \<and> k = h then Suc (refs ?M k) else refs ?M k)" for k
  proof (cases "ci_build c")
    case None
    then show ?thesis using refs_add [of ?M fd c' h k] fin c by (simp add: c'_def)
  next
    case (Some k')
    then show ?thesis using refs_same [of ?M fd c c' k] c d by (simp add: c'_def due_def)
  qed
  have "refs (?M(fd \<mapsto> c')) h \<le> card (dom (?M(fd \<mapsto> c')))" by (rule refs_le) (simp add: fin)
  moreover have "dom (?M(fd \<mapsto> c')) = dom ?M" using c by auto
  ultimately have "unat rc = refs (?M(fd \<mapsto> c')) h" using small refs [of h] b unat_inc [of "bi_refcount b" "refs ?M h"]
    by (auto simp: builds_ok_def rc_def)
  then have B': "builds_ok ((h, ?b) # bs) N (?M(fd \<mapsto> c'))" using b(1,2) refs h by (force simp: builds_ok_def)
  have rd: "reading T S ((h, ?b) # bs) f = reading T S (ss_builds s) f" for f using b(1) by (simp add: reading_def bufs_def fun_eq_iff)
  have "clients_ok (reading T S ((h, ?b) # bs)) (due T S h (bi_buf b)) (fd # ss_fds s) W (?M(fd \<mapsto> c'))"
    unfolding clients_ok_def rd
  proof (intro conjI allI impI)
    fix f c1 assume f: "(?M(fd \<mapsto> c')) f = Some c1"
    show "if f \<in> set W then ci_isWaiting c1 \<and> ci_itFd c1 = In_waiting f \<and> due T S h (bi_buf b) f c1 else reading T S (ss_builds s) f c1"
    proof (cases "f = fd")
      case True
      then show ?thesis using f d dist b(1) by (auto simp: c'_def reading_def due_def bufs_def)
    next
      case False
      then show ?thesis using f cl [of f c1] by simp
    qed
  qed (use dist dom small c in \<open>auto simp: insert_absorb\<close>)
  then show ?thesis using run B' unfolding Let_def M' [symmetric] by (intro exI [of _ rc] exI [of _ ?m]) simp
qed

lemma flush_loop:
  assumes "ss_builds s = (h, b) # bs" "builds_ok (ss_builds s) N (map_of (ss_map s))" "\<not> bi_completed b"
    and "clients_ok (reading T S (ss_builds s)) (due T S h (bi_buf b)) (ss_fds s) W (map_of (ss_map s))"
  shows "\<exists>rc m fds. let s' = s\<lparr>ss_builds := (h, b\<lparr>bi_refcount := rc\<rparr>) # bs, ss_fds := fds, ss_map := m\<rparr> in
    foldM flush_client W s = Inr s' \<and> builds_ok (ss_builds s') N (map_of m) \<and> set (ss_fds s) \<subseteq> set fds \<and>
    clients_ok (reading T S (ss_builds s')) (due T S h (bi_buf b)) fds [] (map_of m)"
  using assms
proof (induction W arbitrary: s b)
  case Nil
  then show ?case by (intro exI [of _ "bi_refcount b"] exI [of _ "ss_map s"] exI [of _ "ss_fds s"]) (simp add: Let_def)
next
  case (Cons fd W)
  from flush_client_step [OF Cons.prems] obtain rc m where
    s1: "flush_client fd s = Inr (s\<lparr>ss_builds := (h, b\<lparr>bi_refcount := rc\<rparr>) # bs, ss_fds := fd # ss_fds s, ss_map := m\<rparr>)" (is "_ = Inr ?s")
      "builds_ok ((h, b\<lparr>bi_refcount := rc\<rparr>) # bs) N (map_of m)"
      "clients_ok (reading T S ((h, b\<lparr>bi_refcount := rc\<rparr>) # bs)) (due T S h (bi_buf b)) (fd # ss_fds s) W (map_of m)"
    unfolding Let_def by auto
  from Cons.IH [of ?s "b\<lparr>bi_refcount := rc\<rparr>"] s1 Cons.prems(3) obtain rc' m' fds where
    "foldM flush_client W ?s = Inr (?s\<lparr>ss_builds := (h, b\<lparr>bi_refcount := rc'\<rparr>) # bs, ss_fds := fds, ss_map := m'\<rparr>)"
    "builds_ok ((h, b\<lparr>bi_refcount := rc'\<rparr>) # bs) N (map_of m')" "set (fd # ss_fds s) \<subseteq> set fds"
    "clients_ok (reading T S ((h, b\<lparr>bi_refcount := rc'\<rparr>) # bs)) (due T S h (bi_buf b)) fds [] (map_of m')"
    unfolding Let_def by auto
  then show ?case using s1(1) by (intro exI [of _ rc'] exI [of _ m'] exI [of _ fds]) (simp add: Let_def)
qed

text \<open>What the operations of the builder have in common: the front build gets more data, then the waiting clients
  are announced.\<close>

definition grows :: "(build_info \<Rightarrow> build_info) \<Rightarrow> bool" where
  "grows f \<longleftrightarrow> (\<forall>b. \<exists>t fc. f b = b\<lparr>bi_buf := bi_buf b @ t, bi_firstChunk := fc\<rparr>)"

definition emit :: "(build_info \<Rightarrow> build_info) \<Rightarrow> write_result list \<Rightarrow> stream_server \<Rightarrow> stream_server result" where
  "emit f ws s = rbind (upd_front f s) (flushWaiting ws)"

lemma upd_front_append [simp]:
  "grows (\<lambda>b. b\<lparr>bi_buf := bi_buf b @ t\<rparr>)" "grows (\<lambda>b. b\<lparr>bi_firstChunk := fc\<rparr>)"
proof -
  have "b\<lparr>bi_buf := bi_buf b @ t\<rparr> = b\<lparr>bi_buf := bi_buf b @ t, bi_firstChunk := bi_firstChunk b\<rparr>"
    "b\<lparr>bi_firstChunk := fc\<rparr> = b\<lparr>bi_buf := bi_buf b @ [], bi_firstChunk := fc\<rparr>" for b by simp_all
  then show "grows (\<lambda>b. b\<lparr>bi_buf := bi_buf b @ t\<rparr>)" "grows (\<lambda>b. b\<lparr>bi_firstChunk := fc\<rparr>)" unfolding grows_def by blast+
qed

lemma grows_comp: "grows f \<Longrightarrow> grows g \<Longrightarrow> grows (\<lambda>b. g (f b))"
proof -
  assume f: "grows f" and g: "grows g"
  show ?thesis unfolding grows_def
  proof
    fix b
    obtain t fc where t: "f b = b\<lparr>bi_buf := bi_buf b @ t, bi_firstChunk := fc\<rparr>" using f unfolding grows_def by blast
    obtain u fd where "g (f b) = (f b)\<lparr>bi_buf := bi_buf (f b) @ u, bi_firstChunk := fd\<rparr>" using g unfolding grows_def by blast
    then have "g (f b) = b\<lparr>bi_buf := bi_buf b @ (t @ u), bi_firstChunk := fd\<rparr>" by (simp add: t)
    then show "\<exists>t fc. g (f b) = b\<lparr>bi_buf := bi_buf b @ t, bi_firstChunk := fc\<rparr>" by blast
  qed
qed

lemma emit_rbind: "ss_builds s \<noteq> [] \<Longrightarrow> rbind (upd_front f s) (emit g ws) = emit (\<lambda>b. g (f b)) ws s"
  by (auto simp: emit_def upd_front_def split: list.splits)

text \<open>The only errors of an operation: the write to the event pipe fails or does not return.\<close>

definition event_error :: "error \<Rightarrow> bool" where
  "event_error e \<longleftrightarrow> e = Blocks \<or> (\<exists>code. e = Thrown (Exception code ''raise event failed''))"

lemma raise_errors: "raise ws en = Inl e \<Longrightarrow> e = Blocks"
  by (induction ws en rule: raise.induct) (auto split: if_splits)

lemma raise_pending: "raise ws en = Inr (ret, en') \<Longrightarrow> en_rfd en' = en_rfd en"
  by (induction ws en rule: raise.induct) (auto split: if_splits)

lemma notifyPoll_cases:
  "(\<exists>en. notifyPoll ws s = Inr (s\<lparr>ss_event := en\<rparr>)) \<or> (\<exists>e. notifyPoll ws s = Inl e \<and> event_error e)"
proof (cases "raise ws (ss_event s)")
  case (Inl e)
  then show ?thesis using raise_errors [OF Inl] by (simp add: notifyPoll_def event_error_def)
next
  case (Inr r)
  then show ?thesis by (cases r) (auto simp: notifyPoll_def event_error_def throw_error_def)
qed

lemma clients_ok_mono:
  assumes "clients_ok R Q fds W M" and "\<And>fd c. fd \<in> set fds \<Longrightarrow> R fd c \<Longrightarrow> R' fd c" and "\<And>fd c. fd \<in> set W \<Longrightarrow> Q fd c \<Longrightarrow> Q' fd c"
  shows "clients_ok R' Q' fds W M"
proof -
  have "fd \<in> set fds" if "M fd = Some c" "fd \<notin> set W" for fd c using that assms(1) by (auto simp: clients_ok_def)
  then show ?thesis using assms unfolding clients_ok_def by (auto split: if_splits)
qed

text \<open>Announcing a front build in which every waiting client is due.\<close>

lemma flushWaiting_ok:
  assumes s: "ss_builds s = (h, b) # bs" "builds_ok (ss_builds s) (ss_newBuilds s) (map_of (ss_map s))" "\<not> bi_completed b"
    and c: "clients_ok (reading T (ss_sent s) (ss_builds s)) (due T (ss_sent s) h (bi_buf b)) (ss_fds s) (ss_waiting s) (map_of (ss_map s))"
  shows "(\<exists>s' rc. flushWaiting ws s = Inr s' \<and> server_inv T s' \<and> ss_builds s' = (h, b\<lparr>bi_refcount := rc\<rparr>) # bs \<and>
      ss_waiting s' = [] \<and> set (ss_fds s) \<subseteq> set (ss_fds s')) \<or> (\<exists>e. flushWaiting ws s = Inl e \<and> event_error e)"
proof -
  have "bi_buf b \<noteq> []" using s(1,2) by (auto simp: builds_ok_def)
  then have guard: "flushWaiting ws s = rbind (foldM flush_client (ss_waiting s) s) (\<lambda>s. notifyPoll ws (s\<lparr>ss_waiting := []\<rparr>))"
    using s(1,3) by (simp add: flushWaiting_def)
  from flush_loop [OF s(1-3) c] obtain rc m fds where
    s': "foldM flush_client (ss_waiting s) s = Inr (s\<lparr>ss_builds := (h, b\<lparr>bi_refcount := rc\<rparr>) # bs, ss_fds := fds, ss_map := m\<rparr>)" (is "_ = Inr ?s")
      "builds_ok ((h, b\<lparr>bi_refcount := rc\<rparr>) # bs) (ss_newBuilds s) (map_of m)" "set (ss_fds s) \<subseteq> set fds"
      "clients_ok (reading T (ss_sent s) ((h, b\<lparr>bi_refcount := rc\<rparr>) # bs)) (due T (ss_sent s) h (bi_buf b)) fds [] (map_of m)"
    unfolding Let_def by auto
  have "clients_ok (reading T (ss_sent s) ((h, b\<lparr>bi_refcount := rc\<rparr>) # bs)) (waits T (ss_sent s) ((h, b\<lparr>bi_refcount := rc\<rparr>) # bs)) fds [] (map_of m)"
    by (rule clients_ok_mono [OF s'(4)]) auto
  then have "server_inv T (?s\<lparr>ss_waiting := [], ss_event := en\<rparr>)" for en using s'(2) by (simp add: server_inv_def)
  then show ?thesis using notifyPoll_cases [of ws "?s\<lparr>ss_waiting := []\<rparr>"] s'(1,3) guard by auto
qed

text \<open>Clients that read are not affected by data that is appended.\<close>

lemma reading_append:
  assumes "reading T S ((h, b) # bs) fd c" and "bi_buf b' = bi_buf b @ t"
  shows "reading T S ((h, b') # bs) fd c"
proof -
  obtain k buf where k: "ci_build c = Some k" "(k, buf) \<in> bufs ((h, b) # bs)" "ci_bufPtr c < length buf" "T \<longrightarrow> S fd = take (ci_bufPtr c) buf"
    using assms(1) unfolding reading_def by blast
  have "\<exists>buf'. (k, buf') \<in> bufs ((h, b') # bs) \<and> (buf' = buf \<or> buf' = buf @ t)" using k(2) assms(2) by (auto simp: bufs_def)
  then obtain buf' where "(k, buf') \<in> bufs ((h, b') # bs)" "buf' = buf \<or> buf' = buf @ t" by blast
  then show ?thesis using assms(1) k unfolding reading_def
    by (intro conjI exI [of _ k] exI [of _ buf']) auto
qed

lemma emit_ok:
  assumes inv: "server_inv T s" and b: "ss_builds s = (h, b) # bs" "\<not> bi_completed b" and f: "grows f" "bi_buf (f b) \<noteq> bi_buf b"
  shows "(\<exists>s' rc. emit f ws s = Inr s' \<and> server_inv T s' \<and> ss_builds s' = (h, (f b)\<lparr>bi_refcount := rc\<rparr>) # bs \<and>
      ss_waiting s' = [] \<and> set (ss_fds s) \<subseteq> set (ss_fds s')) \<or> (\<exists>e. emit f ws s = Inl e \<and> event_error e)"
proof -
  obtain t fc where t: "f b = b\<lparr>bi_buf := bi_buf b @ t, bi_firstChunk := fc\<rparr>" using f(1) unfolding grows_def by blast
  then have "t \<noteq> []" using f(2) by auto
  let ?s = "s\<lparr>ss_builds := (h, f b) # bs\<rparr>"
  have "clients_ok (reading T (ss_sent s) ((h, b) # bs)) (waits T (ss_sent s) ((h, b) # bs)) (ss_fds s) (ss_waiting s) (map_of (ss_map s))"
    using inv b(1) by (simp add: server_inv_def)
  then have "clients_ok (reading T (ss_sent s) ((h, f b) # bs)) (due T (ss_sent s) h (bi_buf (f b))) (ss_fds s) (ss_waiting s) (map_of (ss_map s))"
  proof (rule clients_ok_mono)
    fix fd c assume "waits T (ss_sent s) ((h, b) # bs) fd c"
    then show "due T (ss_sent s) h (bi_buf (f b)) fd c" using \<open>t \<noteq> []\<close> by (auto simp: waits_def due_def t)
  qed (rule reading_append, auto simp: t)
  moreover have "builds_ok ((h, f b) # bs) (ss_newBuilds s) (map_of (ss_map s))" using inv b(1) by (auto simp: server_inv_def builds_ok_def t)
  moreover have "emit f ws s = flushWaiting ws ?s" using b(1) by (simp add: emit_def upd_front_def)
  ultimately show ?thesis using flushWaiting_ok [of ?s h "f b" bs T ws] b(2) by (simp add: t)
qed

section \<open>The operations of the builder\<close>

lemma buf_nonempty [simp]: "quot \<noteq> []" "endl \<noteq> []" "show_nat n \<noteq> []"
  by (simp_all add: quot_def endl_def show_nat.simps [of n])

lemma upd_front_rbind: "rbind (upd_front f s) (upd_front g) = upd_front (\<lambda>b. g (f b)) s"
  by (auto simp: upd_front_def split: list.splits)

lemma append_rbind:
  "rbind (upd_front f s) (\<lambda>s. rbind (upd_front g s) k) = rbind (upd_front (\<lambda>b. g (f b)) s) k"
  by (auto simp: upd_front_def split: list.splits)

lemmas write_defs = writeBuf_def writeBufEscapeJson_def append_rbind

text \<open>All operations append to the front build and announce it.\<close>

lemma ops_emit:
  assumes "ss_builds s = (h, b) # bs"
  shows "\<exists>f. newCommand cmdId cmd ws s = emit f ws s \<and> grows f \<and> bi_buf (f b) \<noteq> bi_buf b \<and> \<not> bi_firstChunk (f b)"
    "\<exists>f. endCommand cmdId status ws s = emit f ws s \<and> grows f \<and> bi_buf (f b) \<noteq> bi_buf b \<and> bi_firstChunk (f b) = bi_firstChunk b"
    "\<exists>f. cacheRetrieveAction path ws s = emit f ws s \<and> grows f \<and> bi_buf (f b) \<noteq> bi_buf b \<and> \<not> bi_firstChunk (f b)"
    "\<not> bi_firstChunk b \<Longrightarrow> \<exists>f. writeCmdOutput cmdId buf out ws s = emit f ws s \<and> grows f \<and> bi_buf (f b) \<noteq> bi_buf b \<and> \<not> bi_firstChunk (f b)"
proof -
  have sep: "separate s = upd_front (if bi_firstChunk b then (\<lambda>b. b\<lparr>bi_firstChunk := False\<rparr>) else (\<lambda>b. b\<lparr>bi_buf := bi_buf b @ '','' @ endl\<rparr>)) s"
    using assms by (simp add: separate_def writeBuf_def)
  have sepg: "grows (if bi_firstChunk b then (\<lambda>b. b\<lparr>bi_firstChunk := False\<rparr>) else (\<lambda>b. b\<lparr>bi_buf := bi_buf b @ '','' @ endl\<rparr>))"
    by (cases "bi_firstChunk b") (simp_all only: if_True if_False upd_front_append)
  note g = grows_comp [OF _ upd_front_append(1)]
  show "\<exists>f. newCommand cmdId cmd ws s = emit f ws s \<and> grows f \<and> bi_buf (f b) \<noteq> bi_buf b \<and> \<not> bi_firstChunk (f b)"
    unfolding newCommand_def write_defs sep
    by (rule exI, rule conjI, rule emit_def [symmetric], rule conjI, (intro g sepg)) simp
  show "\<exists>f. endCommand cmdId status ws s = emit f ws s \<and> grows f \<and> bi_buf (f b) \<noteq> bi_buf b \<and> bi_firstChunk (f b) = bi_firstChunk b"
    unfolding endCommand_def write_defs
    by (rule exI, rule conjI, rule emit_def [symmetric], rule conjI, (intro g upd_front_append)) simp
  show "\<exists>f. cacheRetrieveAction path ws s = emit f ws s \<and> grows f \<and> bi_buf (f b) \<noteq> bi_buf b \<and> \<not> bi_firstChunk (f b)"
    unfolding cacheRetrieveAction_def write_defs sep
    by (rule exI, rule conjI, rule emit_def [symmetric], rule conjI, (intro g sepg)) simp
  assume first: "\<not> bi_firstChunk b"
  then have "writeCmdOutput cmdId buf out ws s =
     rbind (writeBuf ('','' @ endl) s) (\<lambda>s.
      rbind (writeBuf (''    { '' @ quot @ ''id'' @ quot @ '': '') s) (\<lambda>s.
      rbind (writeBuf (show_nat cmdId) s) (\<lambda>s.
      rbind (writeBuf (if out then '', '' @ quot @ ''stdout'' @ quot @ '': '' @ quot
                       else '', '' @ quot @ ''stderr'' @ quot @ '': '' @ quot) s) (\<lambda>s.
      rbind (writeBufEscapeJson buf s) (\<lambda>s.
      rbind (writeBuf (quot @ '' }'') s) (flushWaiting ws))))))"
    using assms by (simp add: writeCmdOutput_def)
  then show "\<exists>f. writeCmdOutput cmdId buf out ws s = emit f ws s \<and> grows f \<and> bi_buf (f b) \<noteq> bi_buf b \<and> \<not> bi_firstChunk (f b)"
    unfolding write_defs using first
    by (elim ssubst) (rule exI, rule conjI, rule emit_def [symmetric], rule conjI, (intro g upd_front_append), simp)
qed

lemma endBuild_ok:
  assumes inv: "server_inv T s" and b: "ss_builds s = (h, b) # bs" "\<not> bi_completed b"
  shows "(\<exists>s'. endBuild r ws s = Inr s' \<and> server_inv T s' \<and> set (ss_fds s) \<subseteq> set (ss_fds s')) \<or> (\<exists>e. endBuild r ws s = Inl e \<and> event_error e)"
proof -
  define f :: "build_info \<Rightarrow> build_info" where "f = (\<lambda>b. b\<lparr>bi_buf := bi_buf b @ endl @ ''  ],'' @ endl @ ''  '' @ quot @ ''result'' @ quot @ '': '' @ quot @
    toString_BuildResult r @ quot @ endl @ ''}'' @ endl\<rparr>)"
  have "endBuild r ws s = rbind (emit f ws s) (upd_front (\<lambda>b. b\<lparr>bi_completed := True\<rparr>))"
    using b by (simp add: endBuild_def writeBuf_def append_rbind emit_def f_def upd_front_def)
  moreover have "grows f" "bi_buf (f b) \<noteq> bi_buf b" unfolding f_def by (rule upd_front_append(1)) simp
  moreover have "server_inv T (s'\<lparr>ss_builds := (h, c\<lparr>bi_completed := True\<rparr>) # bs\<rparr>)"
    if s': "server_inv T s'" "ss_builds s' = (h, c) # bs" "ss_waiting s' = []" for s' c
  proof -
    have "clients_ok (reading T (ss_sent s') (ss_builds s')) (waits T (ss_sent s') (ss_builds s')) (ss_fds s') [] (map_of (ss_map s'))"
      "builds_ok (ss_builds s') (ss_newBuilds s') (map_of (ss_map s'))" using s' by (simp_all add: server_inv_def)
    moreover have "reading T (ss_sent s') ((h, c\<lparr>bi_completed := True\<rparr>) # bs) = reading T (ss_sent s') (ss_builds s')"
      using s'(2) by (simp add: reading_def bufs_def fun_eq_iff)
    ultimately show ?thesis using s'(2,3) by (auto simp: server_inv_def builds_ok_def clients_ok_def)
  qed
  ultimately show ?thesis using emit_ok [OF inv b, of f ws] by (auto simp: upd_front_def)
qed

text \<open>The builds of the clients are in the list.\<close>

lemma client_build:
  assumes "server_inv T s" and "map_of (ss_map s) fd = Some c" and "ci_build c = Some h"
  shows "h \<in> fst ` set (ss_builds s)"
proof (cases "fd \<in> set (ss_waiting s)")
  case True
  then have "waits T (ss_sent s) (ss_builds s) fd c" using assms(1,2) by (auto simp: server_inv_def clients_ok_def)
  then show ?thesis using assms(3) by (auto simp: waits_def split: list.splits)
next
  case False
  then have "reading T (ss_sent s) (ss_builds s) fd c" using assms(1,2) by (auto simp: server_inv_def clients_ok_def split: if_splits)
  then show ?thesis using assms(3) by (force simp: reading_def bufs_def)
qed

lemma refs_absent: "server_inv T s \<Longrightarrow> h \<notin> fst ` set (ss_builds s) \<Longrightarrow> refs (map_of (ss_map s)) h = 0"
proof -
  assume inv: "server_inv T s" and h: "h \<notin> fst ` set (ss_builds s)"
  have "{fd. \<exists>c. map_of (ss_map s) fd = Some c \<and> ci_build c = Some h} = {}" using client_build [OF inv] h by blast
  then show ?thesis unfolding refs_def by (metis card.empty)
qed

text \<open>\<open>newBuild\<close>: a completed front build without readers is dropped.\<close>

definition keep_builds :: "(nat \<times> build_info) list \<Rightarrow> (nat \<times> build_info) list" where
  "keep_builds B = (case B of [] \<Rightarrow> [] | (h, b) # bs \<Rightarrow> if bi_refcount b = 0 then bs else B)"

lemma newBuild_emit:
  assumes "builds_ok (ss_builds s) N M" and "case ss_builds s of [] \<Rightarrow> True | (h, b) # _ \<Rightarrow> bi_completed b"
  shows "newBuild buildId ws s = flushWaiting ws (s\<lparr>ss_newBuilds := Suc (ss_newBuilds s), ss_builds := (ss_newBuilds s, (BuildInfo buildId)
     \<lparr>bi_buf := ''{'' @ endl @ ''  '' @ quot @ ''id'' @ quot @ '': '' @ show_nat buildId @ '','' @ endl @ ''  '' @ quot @ ''cmds'' @ quot @ '': ['' @ endl\<rparr>)
       # keep_builds (ss_builds s)\<rparr>)"
proof (cases "ss_builds s")
  case Nil
  then show ?thesis by (simp add: newBuild_def writeBuf_def upd_front_def keep_builds_def BuildInfo_def)
next
  case (Cons x bs)
  obtain h b where x: "x = (h, b)" by (cases x)
  have "h \<notin> fst ` set bs" using assms(1) Cons x by (simp add: builds_ok_def)
  then have "filter (\<lambda>kb. fst kb \<noteq> h) bs = bs" by (induction bs) auto
  then show ?thesis using Cons x assms(2)
    by (simp add: newBuild_def writeBuf_def upd_front_def keep_builds_def BuildInfo_def removeBuild_def build_at_def)
qed

lemma newBuild_ok:
  assumes inv: "server_inv T s" and completed: "case ss_builds s of [] \<Rightarrow> True | (h, b) # _ \<Rightarrow> bi_completed b"
  shows "(\<exists>s'. newBuild buildId ws s = Inr s' \<and> server_inv T s' \<and> set (ss_fds s) \<subseteq> set (ss_fds s')) \<or> (\<exists>e. newBuild buildId ws s = Inl e \<and> event_error e)"
proof -
  let ?B = "ss_builds s" and ?N = "ss_newBuilds s" and ?M = "map_of (ss_map s)" and ?S = "ss_sent s"
  have bo: "builds_ok ?B ?N ?M" and co: "clients_ok (reading T ?S ?B) (waits T ?S ?B) (ss_fds s) (ss_waiting s) ?M" using inv by (simp_all add: server_inv_def)
  define b where "b = (BuildInfo buildId)\<lparr>bi_buf := ''{'' @ endl @ ''  '' @ quot @ ''id'' @ quot @ '': '' @ show_nat buildId @ '','' @ endl @ ''  '' @ quot @ ''cmds'' @ quot @ '': ['' @ endl\<rparr>"
  let ?s = "s\<lparr>ss_newBuilds := Suc ?N, ss_builds := (?N, b) # keep_builds ?B\<rparr>"
  have b: "bi_buf b \<noteq> []" "bi_refcount b = 0" "\<not> bi_completed b" by (simp_all add: b_def BuildInfo_def)
  have N: "?N \<notin> fst ` set ?B" using bo by (force simp: builds_ok_def)
  have sub: "set (keep_builds ?B) \<subseteq> set ?B" by (cases ?B) (auto simp: keep_builds_def split: if_splits)
  have kept: "bi_completed b' \<and> bi_refcount b' \<noteq> 0" if "(k, b') \<in> set (keep_builds ?B)" for k b'
    using that completed bo by (cases ?B) (auto simp: keep_builds_def builds_ok_def split: if_splits)
  have "distinct (map fst (keep_builds ?B))" using bo by (cases ?B) (auto simp: builds_ok_def keep_builds_def)
  then have bo': "builds_ok ((?N, b) # keep_builds ?B) (Suc ?N) ?M"
    using bo sub kept refs_absent [OF inv N] N b by (fastforce simp: builds_ok_def)
  have gone: "refs ?M k = 0" if "(k, b') \<in> set ?B" "(k, b') \<notin> set (keep_builds ?B)" for k b'
    using that bo by (cases ?B) (auto simp: keep_builds_def builds_ok_def split: if_splits)
  have co': "clients_ok (reading T ?S ((?N, b) # keep_builds ?B)) (due T ?S ?N (bi_buf b)) (ss_fds s) (ss_waiting s) ?M"
    unfolding clients_ok_def
  proof (intro conjI allI impI)
    fix fd c assume c: "?M fd = Some c"
    have fin: "finite (dom ?M)" by (rule finite_dom_map_of)
    show "if fd \<in> set (ss_waiting s) then ci_isWaiting c \<and> ci_itFd c = In_waiting fd \<and> due T ?S ?N (bi_buf b) fd c else reading T ?S ((?N, b) # keep_builds ?B) fd c"
    proof (cases "fd \<in> set (ss_waiting s)")
      case True
      then have "ci_isWaiting c" "ci_itFd c = In_waiting fd" "waits T ?S ?B fd c" using co c by (auto simp: clients_ok_def)
      moreover from this(3) have "due T ?S ?N (bi_buf b) fd c" using completed b(1) by (auto simp: waits_def due_def split: list.splits)
      ultimately show ?thesis using True by simp
    next
      case False
      then have r: "reading T ?S ?B fd c" using co c by (auto simp: clients_ok_def split: if_splits)
      then obtain h buf where h: "ci_build c = Some h" "(h, buf) \<in> bufs ?B" "ci_bufPtr c < length buf" "T \<longrightarrow> ?S fd = take (ci_bufPtr c) buf"
        unfolding reading_def by blast
      have "0 < refs ?M h" by (rule refs_del(2) [OF fin c h(1)])
      then have "(h, buf) \<in> bufs ((?N, b) # keep_builds ?B)" using h(2) gone by (force simp: bufs_def)
      then show ?thesis using False r h unfolding reading_def by auto
    qed
  qed (use co in \<open>auto simp: clients_ok_def\<close>)
  have "newBuild buildId ws s = flushWaiting ws ?s" unfolding b_def by (rule newBuild_emit [OF bo completed])
  then show ?thesis using flushWaiting_ok [of ?s ?N b "keep_builds ?B" T ws] bo' co' b(3) by auto
qed

section \<open>The operations on clients\<close>

lemma createClient_ok:
  assumes inv: "server_inv T s" and fd: "map_of (ss_map s) fd = None" and small: "Suc (card (dom (map_of (ss_map s)))) < 2 ^ 32"
  shows "server_inv T (createClient fd s)" "set (ss_fds s) \<subseteq> set (ss_fds (createClient fd s))"
proof -
  let ?B = "ss_builds s" and ?N = "ss_newBuilds s" and ?M = "map_of (ss_map s)" and ?S = "(ss_sent s)(fd := [])"
  have bo: "builds_ok ?B ?N ?M" and co: "clients_ok (reading T (ss_sent s) ?B) (waits T (ss_sent s) ?B) (ss_fds s) (ss_waiting s) ?M"
    using inv by (simp_all add: server_inv_def)
  have fin: "finite (dom ?M)" by (rule finite_dom_map_of)
  have notin: "fd \<notin> set (ss_fds s)" "fd \<notin> set (ss_waiting s)" "fd \<notin> dom ?M" using co fd by (auto simp: clients_ok_def domIff)
  have card: "card (insert fd (dom ?M)) < 2 ^ 32" using small notin(3) fin by simp
  have other: "reading T ?S B' f c = reading T (ss_sent s) B' f c" "waits T ?S B' f c = waits T (ss_sent s) B' f c" if "f \<noteq> fd" for B' f c
    using that by (auto simp: reading_def waits_def split: list.splits)
  show "server_inv T (createClient fd s)"
  proof (cases ?B)
    case Nil
    let ?c = "\<lparr>ci_build = None, ci_bufPtr = 0, ci_itFd = In_waiting fd, ci_isWaiting = True\<rparr>"
    have s': "createClient fd s = s\<lparr>ss_waiting := fd # ss_waiting s, ss_map := AList.update fd ?c (ss_map s), ss_sent := ?S\<rparr>"
      using Nil by (simp add: createClient_def builds_begin_def set_client_def)
    have "clients_ok (reading T ?S ?B) (waits T ?S ?B) (ss_fds s) (fd # ss_waiting s) (?M(fd \<mapsto> ?c))"
      using co notin card Nil unfolding clients_ok_def by (auto simp: other waits_def split: if_splits)
    then show ?thesis using bo Nil by (simp add: server_inv_def s' update_conv' builds_ok_def)
  next
    case (Cons x bs)
    obtain h b where x: "x = (h, b)" by (cases x)
    have h: "h \<notin> fst ` set bs" "bi_buf b \<noteq> []" using bo Cons x by (auto simp: builds_ok_def)
    let ?c = "\<lparr>ci_build = Some h, ci_bufPtr = 0, ci_itFd = In_fds fd, ci_isWaiting = False\<rparr>" and ?b = "b\<lparr>bi_refcount := bi_refcount b + 1\<rparr>"
    have s': "createClient fd s = s\<lparr>ss_builds := (h, ?b) # bs, ss_fds := fd # ss_fds s, ss_map := AList.update fd ?c (ss_map s), ss_sent := ?S\<rparr>"
      using Cons x h by (simp add: createClient_def builds_begin_def set_client_def upd_build_front [of _ h b bs] Let_def)
    have refs: "refs (?M(fd \<mapsto> ?c)) k = (if k = h then Suc (refs ?M k) else refs ?M k)" for k
      by (rule refs_add [OF fin]) (simp_all add: fd)
    have "refs ?M h \<le> card (dom ?M)" by (rule refs_le [OF fin])
    then have "unat (bi_refcount ?b) = Suc (refs ?M h)" using unat_inc [of "bi_refcount b" "refs ?M h"] bo Cons x small by (auto simp: builds_ok_def)
    then have bo': "builds_ok ((h, ?b) # bs) ?N (?M(fd \<mapsto> ?c))" using bo Cons x refs h(1) by (force simp: builds_ok_def)
    have "reading T (ss_sent s) ((h, ?b) # bs) = reading T (ss_sent s) ?B" "waits T (ss_sent s) ((h, ?b) # bs) = waits T (ss_sent s) ?B"
      using Cons x by (simp_all add: reading_def waits_def bufs_def fun_eq_iff)
    note other' = other [of _ "(h, ?b) # bs", unfolded this]
    have "reading T ?S ((h, ?b) # bs) fd ?c" using h(2) by (auto simp: reading_def bufs_def)
    then have "clients_ok (reading T ?S ((h, ?b) # bs)) (waits T ?S ((h, ?b) # bs)) (fd # ss_fds s) (ss_waiting s) (?M(fd \<mapsto> ?c))"
      using co notin card unfolding clients_ok_def by (auto simp: other' split: if_splits)
    then show ?thesis using bo' by (simp add: server_inv_def s' update_conv')
  qed
  show "set (ss_fds s) \<subseteq> set (ss_fds (createClient fd s))"
    by (auto simp: createClient_def Let_def set_client_def upd_build_def split: option.splits list.splits)
qed

text \<open>The builds after a client of the build \<open>h\<close> is gone.\<close>

definition dec_ref :: "nat \<Rightarrow> (nat \<times> build_info) list \<Rightarrow> (nat \<times> build_info) list" where
  "dec_ref h B = map (\<lambda>(k, b). (k, if k = h then b\<lparr>bi_refcount := bi_refcount b - 1\<rparr> else b)) B"

definition release :: "nat \<Rightarrow> (nat \<times> build_info) list \<Rightarrow> (nat \<times> build_info) list" where
  "release h B =
     (let B' = dec_ref h B
      in hd B' # filter (\<lambda>(k, b). k \<noteq> h \<or> bi_refcount b \<noteq> 0 \<or> \<not> bi_completed b) (tl B'))"

lemma dec_ref_simps [simp]:
  "dec_ref h [] = []" "dec_ref h (x # xs) = (fst x, if fst x = h then (snd x)\<lparr>bi_refcount := bi_refcount (snd x) - 1\<rparr> else snd x) # dec_ref h xs"
  "map fst (dec_ref h B) = map fst B" "fst ` set (dec_ref h B) = fst ` set B"
  "filter (\<lambda>kb. fst kb \<noteq> h) (dec_ref h B) = filter (\<lambda>kb. fst kb \<noteq> h) B" "bufs (dec_ref h B) = bufs B"
proof -
  show "dec_ref h [] = []" "dec_ref h (x # xs) = (fst x, if fst x = h then (snd x)\<lparr>bi_refcount := bi_refcount (snd x) - 1\<rparr> else snd x) # dec_ref h xs"
    by (simp_all add: dec_ref_def split: prod.split)
  show keys: "map fst (dec_ref h B) = map fst B" unfolding dec_ref_def by (induction B) auto
  then show "fst ` set (dec_ref h B) = fst ` set B" by (metis set_map)
  show "filter (\<lambda>kb. fst kb \<noteq> h) (dec_ref h B) = filter (\<lambda>kb. fst kb \<noteq> h) B" unfolding dec_ref_def by (induction B) auto
  show "bufs (dec_ref h B) = bufs B" unfolding dec_ref_def bufs_def by (force simp: image_image split: if_splits)
qed

lemma dec_ref_iff:
  "(k, b') \<in> set (dec_ref h B) \<longleftrightarrow> (\<exists>b. (k, b) \<in> set B \<and> b' = (if k = h then b\<lparr>bi_refcount := bi_refcount b - 1\<rparr> else b))"
  by (induction B) auto

lemma dec_ref_absent: "h \<notin> fst ` set B \<Longrightarrow> dec_ref h B = B"
  by (induction B) auto

lemma release_eq:
  assumes dist: "distinct (map fst B)" and b: "(h, b) \<in> set B" and x: "B = x # xs"
  shows "release h B = (if bi_refcount b - 1 = 0 \<and> bi_completed b \<and> fst x \<noteq> h then filter (\<lambda>kb. fst kb \<noteq> h) B else dec_ref h B)"
proof -
  have uniq: "b' = b" if "(h, b') \<in> set B" for b' using that b dist by (metis eq_key_imp_eq_value)
  have keep: "filter (\<lambda>(k, b). k \<noteq> h \<or> bi_refcount b \<noteq> 0 \<or> \<not> bi_completed b) (dec_ref h ys) =
     (if bi_refcount b - 1 = 0 \<and> bi_completed b then filter (\<lambda>kb. fst kb \<noteq> h) ys else dec_ref h ys)" if "set ys \<subseteq> set B" for ys
    using that uniq by (induction ys) (auto split: if_splits)
  have sub: "set xs \<subseteq> set B" using x by auto
  show ?thesis
  proof (cases "fst x = h")
    case True
    then have "h \<notin> fst ` set xs" using dist x by auto
    then have "filter (\<lambda>kb. fst kb \<noteq> h) xs = xs" "dec_ref h xs = xs" by (induction xs) auto
    then show ?thesis using keep [OF sub] True x by (auto simp: release_def Let_def)
  next
    case False
    then show ?thesis using x keep [OF sub] by (cases x) (auto simp: release_def Let_def)
  qed
qed

lemma bufs_release: "B \<noteq> [] \<Longrightarrow> (k, buf) \<in> bufs B \<Longrightarrow> k \<noteq> h \<Longrightarrow> (k, buf) \<in> bufs (release h B)"
proof (cases B)
  case (Cons x xs)
  assume k: "(k, buf) \<in> bufs B" "k \<noteq> h"
  then obtain b where "(k, b) \<in> set B" "buf = bi_buf b" by (auto simp: bufs_def)
  then have "(k, b) \<in> set (release h B)" using Cons k(2) by (auto simp: release_def Let_def dec_ref_iff)
  then show ?thesis using \<open>buf = bi_buf b\<close> by (force simp: bufs_def)
qed simp

lemma waits_release: "B \<noteq> [] \<Longrightarrow> waits T S (release h B) = waits T S B"
  by (cases B) (auto simp: release_def waits_def fun_eq_iff Let_def)

lemma release_builds_ok:
  assumes bo: "builds_ok B N M" and fin: "finite (dom M)" and c: "M fd = Some c" "ci_build c = Some h" and b: "(h, b) \<in> set B"
  shows "builds_ok (release h B) N (M(fd := None))"
proof -
  obtain x xs where x: "B = x # xs" using b by (cases B) auto
  have pos: "0 < refs M h" and refs: "refs (M(fd := None)) k = (if k = h then refs M k - 1 else refs M k)" for k
    using refs_del [OF fin c] by auto
  have dec: "unat (b'  - 1) = unat b' - 1" if "unat b' = refs M h" for b' :: "32 word" using unat_dec [OF that pos] that by simp
  have dist: "distinct (map fst B)" using bo by (simp add: builds_ok_def)
  show ?thesis
  proof (cases "bi_refcount b - 1 = 0 \<and> bi_completed b \<and> fst x \<noteq> h")
    case True
    then have "release h B = filter (\<lambda>kb. fst kb \<noteq> h) B" using release_eq [OF dist b x] by simp
    moreover have "distinct (map fst (filter (\<lambda>kb. fst kb \<noteq> h) B))" using dist by (simp add: distinct_map_filter)
    ultimately show ?thesis using bo refs True x by (auto simp: builds_ok_def)
  next
    case False
    have uniq: "b' = b" if "(h, b') \<in> set B" for b' using that b dist by (metis eq_key_imp_eq_value)
    have rel: "release h B = dec_ref h B" using False release_eq [OF dist b x] by auto
    have "bi_completed b' \<and> bi_refcount b' \<noteq> 0" if b': "(k, b') \<in> set (dec_ref h xs)" for k b'
    proof -
      obtain b0 where b0: "(k, b0) \<in> set xs" "b' = (if k = h then b0\<lparr>bi_refcount := bi_refcount b0 - 1\<rparr> else b0)" using b' by (auto simp: dec_ref_iff)
      then have tl: "bi_completed b0" "bi_refcount b0 \<noteq> 0" using bo x by (auto simp: builds_ok_def)
      show ?thesis
      proof (cases "k = h")
        case True
        then have "b0 = b" using uniq [of b0] b0(1) x by simp
        moreover have "h \<in> fst ` set xs" using b0(1) True by force
        then have "fst x \<noteq> h" using dist x by auto
        ultimately have "b0 = b" "fst x \<noteq> h" by blast+
        then show ?thesis using False tl b0(2) True by auto
      qed (use b0(2) tl in simp)
    qed
    moreover have "k < N \<and> bi_buf b' \<noteq> [] \<and> unat (bi_refcount b') = refs (M(fd := None)) k" if "(k, b') \<in> set (dec_ref h B)" for k b'
      using that bo refs [of k] dec by (auto simp: builds_ok_def dec_ref_iff)
    ultimately have "\<forall>(k, b') \<in> set (dec_ref h B). k < N \<and> bi_buf b' \<noteq> [] \<and> unat (bi_refcount b') = refs (M(fd := None)) k"
      "\<forall>(k, b') \<in> set (tl (dec_ref h B)). bi_completed b' \<and> bi_refcount b' \<noteq> 0" by (blast, simp add: x, blast)
    then show ?thesis using dist unfolding builds_ok_def rel by simp
  qed
qed

lemma closeClient_eq:
  assumes dist: "distinct (map fst (ss_builds s))" and c: "map_of (ss_map s) fd = Some c" "ci_build c = Some h" "ci_itFd c = In_fds fd"
    and b: "(h, b) \<in> set (ss_builds s)"
  shows "closeClient fd s = Inr (s\<lparr>ss_builds := release h (ss_builds s), ss_fds := remove1 fd (ss_fds s), ss_map := AList.delete fd (ss_map s)\<rparr>)"
proof -
  let ?B = "ss_builds s"
  obtain x xs where x: "?B = x # xs" using b by (cases ?B) auto
  have at: "build_at s h = Some b" using b dist by (simp add: build_at_def)
  have uniq: "b' = b" if "(h, b') \<in> set ?B" for b' using that b dist by (metis eq_key_imp_eq_value)
  have upd: "upd_build h (\<lambda>b'. b'\<lparr>bi_refcount := bi_refcount b - 1\<rparr>) s = s\<lparr>ss_builds := dec_ref h ?B\<rparr>"
    unfolding upd_build_def dec_ref_def using uniq by (auto intro!: arg_cong [of _ _ "\<lambda>B. s\<lparr>ss_builds := B\<rparr>"])
  have begin_: "builds_begin (s\<lparr>ss_builds := dec_ref h ?B\<rparr>) = Some (fst x)" by (simp add: builds_begin_def x)
  have "build_at (s\<lparr>ss_builds := dec_ref h ?B\<rparr>) h = Some (b\<lparr>bi_refcount := bi_refcount b - 1\<rparr>)"
    using b dist by (auto simp: build_at_def map_of_eq_Some_iff dec_ref_iff)
  then have rm: "removeBuild h (s\<lparr>ss_builds := dec_ref h ?B\<rparr>) = Inr (s\<lparr>ss_builds := filter (\<lambda>kb. fst kb \<noteq> h) ?B\<rparr>)"
    if "bi_refcount b - 1 = 0" "bi_completed b" using that by (simp add: removeBuild_def)
  have "closeClient fd s =
     rbind (if bi_refcount b - 1 = 0 \<and> bi_completed b \<and> fst x \<noteq> h then removeBuild h (s\<lparr>ss_builds := dec_ref h ?B\<rparr>)
            else Inr (s\<lparr>ss_builds := dec_ref h ?B\<rparr>))
       (\<lambda>s. rbind (fds_erase (In_fds fd) s) (\<lambda>s. Inr (s\<lparr>ss_map := AList.delete fd (ss_map s)\<rparr>)))"
    by (simp only: closeClient_def find_client_def c at option.case Let_def upd begin_ option.inject)
  then show ?thesis using rm unfolding release_eq [OF dist b x] by (auto simp: fds_erase_def)
qed

lemma closeClient_ok:
  assumes bo: "builds_ok (ss_builds s) (ss_newBuilds s) (map_of (ss_map s))"
    and co: "clients_ok (\<lambda>f c. f = fd \<or> reading T (ss_sent s) (ss_builds s) f c) (waits T (ss_sent s) (ss_builds s)) (ss_fds s) (ss_waiting s) (map_of (ss_map s))"
    and c: "map_of (ss_map s) fd = Some c" "ci_build c = Some h" "ci_itFd c = In_fds fd" "fd \<in> set (ss_fds s)" and b: "(h, b) \<in> set (ss_builds s)"
  shows "\<exists>s'. closeClient fd s = Inr s' \<and> server_inv T s' \<and> set (ss_fds s') = set (ss_fds s) - {fd}"
proof -
  let ?B = "ss_builds s" and ?M = "map_of (ss_map s)"
  obtain x xs where x: "?B = x # xs" using b by (cases ?B) auto
  have dist: "distinct (map fst ?B)" using bo by (simp add: builds_ok_def)
  let ?s = "s\<lparr>ss_builds := release h ?B, ss_fds := remove1 fd (ss_fds s), ss_map := AList.delete fd (ss_map s)\<rparr>"
  have run: "closeClient fd s = Inr ?s" by (rule closeClient_eq [OF dist c(1-3) b])
  have fin: "finite (dom ?M)" by (rule finite_dom_map_of)
  have M': "map_of (AList.delete fd (ss_map s)) = ?M(fd := None)" by (simp add: delete_conv')
  have bo': "builds_ok (release h ?B) (ss_newBuilds s) (?M(fd := None))" by (rule release_builds_ok [OF bo fin c(1,2) b])
  have dist': "distinct (ss_fds s)" "set (ss_fds s) \<inter> set (ss_waiting s) = {}" using co by (auto simp: clients_ok_def)
  have rm: "set (remove1 fd (ss_fds s)) = set (ss_fds s) - {fd}" using dist'(1) by (rule set_remove1_eq)
  have rd: "reading T (ss_sent s) (release h ?B) f c'" if f: "f \<noteq> fd" "?M f = Some c'" "reading T (ss_sent s) ?B f c'" for f c'
  proof -
    obtain k buf where k: "ci_build c' = Some k" "(k, buf) \<in> bufs ?B" "ci_bufPtr c' < length buf" "T \<longrightarrow> ss_sent s f = take (ci_bufPtr c') buf"
      using f(3) unfolding reading_def by blast
    have "(k, buf) \<in> bufs (release h ?B)"
    proof (cases "k = h")
      case True
      have "0 < refs (?M(fd := None)) h" by (rule refs_del(2) [of _ f c']) (use fin f k True in auto)
      then have "refs ?M h \<noteq> 1" using refs_del(1) [OF fin c(1,2), of h] by simp
      moreover have "unat (bi_refcount b) = refs ?M h" using bo b by (auto simp: builds_ok_def)
      ultimately have "bi_refcount b - 1 \<noteq> 0" by auto
      then have "release h ?B = dec_ref h ?B" using release_eq [OF dist b x] by auto
      then show ?thesis using k(2) by simp
    next
      case False
      then show ?thesis using bufs_release [of ?B k buf h] k(2) x by simp
    qed
    then show ?thesis using f(3) k unfolding reading_def by auto
  qed
  have "clients_ok (reading T (ss_sent s) (release h ?B)) (waits T (ss_sent s) ?B) (remove1 fd (ss_fds s)) (ss_waiting s) (?M(fd := None))"
    unfolding clients_ok_def
  proof (intro conjI allI impI)
    fix f c' assume f: "(?M(fd := None)) f = Some c'"
    then have "f \<noteq> fd" "?M f = Some c'" by (auto split: if_splits)
    then show "if f \<in> set (ss_waiting s) then ci_isWaiting c' \<and> ci_itFd c' = In_waiting f \<and> waits T (ss_sent s) ?B f c' else reading T (ss_sent s) (release h ?B) f c'"
      using co rd [of f c'] unfolding clients_ok_def by (auto split: if_splits)
  next
    have "card (dom (?M(fd := None))) \<le> card (dom ?M)" by (rule card_mono [OF fin]) auto
    moreover have "card (dom ?M) < 2 ^ 32" using co unfolding clients_ok_def by blast
    ultimately show "card (dom (?M(fd := None))) < 2 ^ 32" by (rule le_less_trans)
    show "dom (?M(fd := None)) = set (remove1 fd (ss_fds s)) \<union> set (ss_waiting s)" using co c(4) dist' unfolding rm clients_ok_def by auto
    show "distinct (remove1 fd (ss_fds s) @ ss_waiting s)" using co rm by (auto simp: clients_ok_def)
  qed
  then have "server_inv T ?s" using bo' waits_release [of ?B T "ss_sent s" h] x by (simp add: server_inv_def M')
  then show ?thesis using run rm by simp
qed

text \<open>\<open>send\<close> accepts at most what it is given. The stream of a client is intact as long as no call of
  \<open>processClient\<close> gets a second piece accepted after a first one that was accepted only in part.\<close>

fun sends_ok :: "send_result list \<Rightarrow> nat \<Rightarrow> bool" where
  "sends_ok (Sent r # rs) n \<longleftrightarrow> r \<le> n \<and> sends_ok rs (n - r)"
| "sends_ok _ n \<longleftrightarrow> True"

definition no_resend :: "send_result list \<Rightarrow> nat \<Rightarrow> bool" where
  "no_resend rs n \<longleftrightarrow> (case rs of Sent r # Sent _ # _ \<Rightarrow> n \<le> r | _ \<Rightarrow> True)"

lemma send_loop_errors: "send_loop rs buf first pos = Inl e \<Longrightarrow> e = Blocks"
  by (induction rs buf first pos rule: send_loop.induct) (auto simp: Let_def rbind_eq_Inl split: if_splits)

lemma send_loop_pos:
  "send_loop rs buf first pos = Inr (p, data, err) \<Longrightarrow> sends_ok rs (length buf - pos) \<Longrightarrow> pos < length buf \<Longrightarrow>
     p \<le> length buf \<and> pos \<le> p \<and> (err = None \<longleftrightarrow> p = length buf)"
proof (induction rs arbitrary: pos p data err)
  case (Cons r rs)
  then show ?case
  proof (cases r)
    case (Sent k)
    show ?thesis
    proof (cases "pos + k < length buf")
      case True
      then obtain more where m: "send_loop rs buf first (pos + k) = Inr (p, more, err)" using Cons.prems(1) Sent by (auto simp: rbind_eq_Inr Let_def)
      have "sends_ok rs (length buf - (pos + k))" using Cons.prems(2) Sent by simp
      from Cons.IH [OF m this True] show ?thesis by linarith
    next
      case False
      then show ?thesis using Cons.prems Sent by (auto simp: Let_def)
    qed
  qed auto
qed simp

lemma send_loop_data:
  assumes run: "send_loop rs buf pos pos = Inr (p, data, err)" and ok: "sends_ok rs (length buf - pos)" "no_resend rs (length buf - pos)" "pos < length buf"
  shows "take pos buf @ data = take p buf"
proof -
  have one: "take pos buf @ take k (drop pos buf) = take (pos + k) buf" for k by (simp add: take_add)
  show ?thesis
  proof (cases rs)
    case (Cons r rs')
    show ?thesis
    proof (cases r)
      case (Sent k)
      show ?thesis
      proof (cases "pos + k < length buf")
        case True
        then obtain e where "rs' = [] \<or> (\<exists>rs''. rs' = SendError e # rs'')"
          using ok(2) Cons Sent by (auto simp: no_resend_def split: list.splits send_result.splits)
        then show ?thesis using run Cons Sent True one by (auto simp: Let_def)
      next
        case False
        then show ?thesis using run Cons Sent one by (auto simp: Let_def)
      qed
    qed (use run Cons in auto)
  qed (use run in auto)
qed

text \<open>What the client of a descriptor has not received yet.\<close>

definition unsent :: "stream_server \<Rightarrow> int \<Rightarrow> nat" where
  "unsent s fd =
     (case map_of (ss_map s) fd of None \<Rightarrow> 0
      | Some c \<Rightarrow> (case ci_build c of None \<Rightarrow> 0
                  | Some h \<Rightarrow> (case build_at s h of None \<Rightarrow> 0 | Some b \<Rightarrow> length (bi_buf b) - ci_bufPtr c)))"

lemma processClient_ok:
  assumes inv: "server_inv T s" and fd: "fd \<in> set (ss_fds s)"
    and sends: "sends_ok rs (unsent s fd)" "T \<Longrightarrow> no_resend rs (unsent s fd)"
  shows "(\<exists>s'. processClient rs fd s = Inr s' \<and> server_inv T s' \<and> set (ss_fds s) - {fd} \<subseteq> set (ss_fds s')) \<or> processClient rs fd s = Inl Blocks"
proof -
  let ?B = "ss_builds s" and ?M = "map_of (ss_map s)" and ?S = "ss_sent s" and ?W = "ss_waiting s"
  have bo: "builds_ok ?B (ss_newBuilds s) ?M" and co: "clients_ok (reading T ?S ?B) (waits T ?S ?B) (ss_fds s) ?W ?M" using inv by (simp_all add: server_inv_def)
  have dist: "distinct (map fst ?B)" "distinct (ss_fds s @ ?W)" using bo co by (simp_all add: builds_ok_def clients_ok_def)
  have "fd \<in> dom ?M" using co fd by (simp add: clients_ok_def)
  then obtain c where c: "?M fd = Some c" by blast
  have "fd \<notin> set ?W" using dist(2) fd by auto
  then have rd: "reading T ?S ?B fd c" using co c by (auto simp: clients_ok_def split: if_splits)
  then obtain h b where h: "ci_build c = Some h" "(h, b) \<in> set ?B" "ci_bufPtr c < length (bi_buf b)" "T \<longrightarrow> ?S fd = take (ci_bufPtr c) (bi_buf b)"
    and it: "ci_itFd c = In_fds fd" "\<not> ci_isWaiting c" by (auto simp: reading_def bufs_def)
  have at: "build_at s h = Some b" using h(2) dist(1) by (simp add: build_at_def)
  have ok: "sends_ok rs (length (bi_buf b) - ci_bufPtr c)" "T \<Longrightarrow> no_resend rs (length (bi_buf b) - ci_bufPtr c)" using sends c h(1) at by (simp_all add: unsent_def)
  show ?thesis
  proof (cases "send_loop rs (bi_buf b) (ci_bufPtr c) (ci_bufPtr c)")
    case (Inl e)
    then have "processClient rs fd s = Inl e" using c h(1,3) at by (simp add: processClient_def find_client_def)
    then show ?thesis using send_loop_errors [OF Inl] by simp
  next
    case (Inr r)
    obtain p data err where r: "r = (p, data, err)" by (cases r)
    have pos: "p \<le> length (bi_buf b)" "err = None \<longleftrightarrow> p = length (bi_buf b)" using send_loop_pos [OF Inr [unfolded r] ok(1) h(3)] by auto
    have sent: "T \<longrightarrow> ?S fd @ data = take p (bi_buf b)" using send_loop_data [OF Inr [unfolded r] ok(1) _ h(3)] ok(2) h(4) by auto
    let ?c = "c\<lparr>ci_bufPtr := p\<rparr>" and ?S' = "?S(fd := ?S fd @ data)"
    let ?s = "(set_client fd ?c s)\<lparr>ss_sent := ?S'\<rparr>"
    have M': "map_of (ss_map ?s) = ?M(fd \<mapsto> ?c)" by (simp add: set_client_def update_conv')
    have s': "ss_builds ?s = ?B" "ss_newBuilds ?s = ss_newBuilds s" "ss_fds ?s = ss_fds s" "ss_waiting ?s = ?W" "ss_sent ?s = ?S'" by (simp_all add: set_client_def)
    have run: "processClient rs fd s = (case err of Some e \<Rightarrow> if e \<noteq> EAGAIN then closeClient fd ?s else Inr ?s
       | None \<Rightarrow> if bi_completed b then closeClient fd ?s
                 else rbind (fds_erase (In_fds fd) ?s) (\<lambda>s. Inr (set_client fd (?c\<lparr>ci_isWaiting := True, ci_itFd := In_waiting fd\<rparr>) (s\<lparr>ss_waiting := fd # ss_waiting s\<rparr>))))"
      using c h(1,3) at Inr r it(1) by (cases err) (simp_all add: processClient_def find_client_def Let_def)
    have bo': "builds_ok ?B (ss_newBuilds s) (?M(fd \<mapsto> c'))" if "ci_build c' = ci_build c" for c'
      using bo refs_same [of ?M fd c c'] c that by (simp add: builds_ok_def)
    have other: "reading T ?S' B' f c' = reading T ?S B' f c'" "waits T ?S' B' f c' = waits T ?S B' f c'" if "f \<noteq> fd" for B' f c'
      using that by (auto simp: reading_def waits_def split: list.splits)
    have dom: "dom (?M(fd \<mapsto> c')) = dom ?M" for c' using c by auto
    have close: "\<exists>s'. closeClient fd ?s = Inr s' \<and> server_inv T s' \<and> set (ss_fds s) - {fd} \<subseteq> set (ss_fds s')"
    proof -
      have "clients_ok (\<lambda>f c. f = fd \<or> reading T ?S' ?B f c) (waits T ?S' ?B) (ss_fds s) ?W (?M(fd \<mapsto> ?c))"
        using co \<open>fd \<notin> set ?W\<close> unfolding clients_ok_def dom by (auto simp: other)
      then show ?thesis using closeClient_ok [of ?s fd T ?c h b] bo' [of ?c] h(1,2) it(1) fd unfolding M' s' by auto
    qed
    show ?thesis
    proof (cases err)
      case (Some e)
      have "reading T ?S' ?B fd ?c" using it h pos sent Some by (auto simp: reading_def bufs_def)
      then have "clients_ok (reading T ?S' ?B) (waits T ?S' ?B) (ss_fds s) ?W (?M(fd \<mapsto> ?c))"
        using co \<open>fd \<notin> set ?W\<close> unfolding clients_ok_def dom by (auto simp: other)
      then have "server_inv T ?s" using bo' [of ?c] unfolding server_inv_def M' s' by simp
      then show ?thesis using run Some close s' by auto
    next
      case None
      show ?thesis
      proof (cases "bi_completed b")
        case True
        then show ?thesis using run None close by simp
      next
        case False
        let ?c2 = "?c\<lparr>ci_isWaiting := True, ci_itFd := In_waiting fd\<rparr>"
        let ?s2 = "set_client fd ?c2 (?s\<lparr>ss_fds := remove1 fd (ss_fds s), ss_waiting := fd # ?W\<rparr>)"
        have front: "hd ?B = (h, b)" using h(2) False bo by (cases ?B) (auto simp: builds_ok_def)
        have "waits T ?S' ?B fd ?c2" using front h(1,2) False None pos sent by (cases ?B) (auto simp: waits_def)
        moreover have "set (remove1 fd (ss_fds s)) = set (ss_fds s) - {fd}" using dist(2) by (simp add: set_remove1_eq)
        ultimately have "clients_ok (reading T ?S' ?B) (waits T ?S' ?B) (remove1 fd (ss_fds s)) (fd # ?W) (?M(fd \<mapsto> ?c2))"
          using co \<open>fd \<notin> set ?W\<close> fd unfolding clients_ok_def dom by (auto simp: other)
        moreover have M2: "map_of (ss_map ?s2) = ?M(fd \<mapsto> ?c2)" using M' by (simp add: set_client_def update_conv')
        moreover have "ss_builds ?s2 = ?B" "ss_newBuilds ?s2 = ss_newBuilds s" "ss_fds ?s2 = remove1 fd (ss_fds s)" "ss_waiting ?s2 = fd # ?W" "ss_sent ?s2 = ?S'"
          by (simp_all add: set_client_def)
        ultimately have "server_inv T ?s2" using bo' [of ?c2] unfolding server_inv_def by simp
        then show ?thesis using run None False dist(2) by (auto simp: fds_erase_def set_client_def)
      qed
    qed
  qed
qed

section \<open>All interleavings\<close>

text \<open>The operations that the build thread calls, and the protocol of its calls: a build is started when the
  previous one is complete, everything else happens during a build, and output follows the first command.\<close>

datatype builder_op =
    OpNewBuild nat
  | OpEndBuild BuildResult
  | OpNewCommand nat string
  | OpEndCommand nat SubProcessExitStatus
  | OpOutput nat string bool
  | OpCacheRetrieve string

fun perform :: "builder_op \<Rightarrow> write_result list \<Rightarrow> stream_server \<Rightarrow> stream_server result" where
  "perform (OpNewBuild i) ws s = newBuild i ws s"
| "perform (OpEndBuild r) ws s = endBuild r ws s"
| "perform (OpNewCommand i c) ws s = newCommand i c ws s"
| "perform (OpEndCommand i st) ws s = endCommand i st ws s"
| "perform (OpOutput i buf out) ws s = writeCmdOutput i buf out ws s"
| "perform (OpCacheRetrieve p) ws s = cacheRetrieveAction p ws s"

definition ongoing :: "stream_server \<Rightarrow> bool" where
  "ongoing s = (case ss_builds s of [] \<Rightarrow> False | (_, b) # _ \<Rightarrow> \<not> bi_completed b)"

fun permitted :: "builder_op \<Rightarrow> stream_server \<Rightarrow> bool" where
  "permitted (OpNewBuild i) s \<longleftrightarrow> \<not> ongoing s"
| "permitted (OpOutput i buf out) s \<longleftrightarrow> ongoing s \<and> \<not> bi_firstChunk (snd (hd (ss_builds s)))"
| "permitted _ s \<longleftrightarrow> ongoing s"

text \<open>
  The steps of the system. The server thread polls the descriptors in \<open>fds_\<close> (\<open>Poll\<close>), then visits them in order;
  a descriptor without event is skipped. Then it accepts connections. Between any two of its steps the build
  thread can run an operation. The second component of the state is what is left to visit.
\<close>

datatype action = Builder builder_op "write_result list" | Poll | Skip | Serve "send_result list" | Accept int

type_synonym system = "stream_server \<times> int list"

fun act :: "action \<Rightarrow> system \<Rightarrow> system result" where
  "act (Builder x ws) (s, todo) = rbind (perform x ws s) (\<lambda>s. Inr (s, todo))"
| "act Poll (s, todo) = Inr (s, ss_fds s)"
| "act Skip (s, todo) = Inr (s, tl todo)"
| "act (Serve rs) (s, todo) = rbind (processClient rs (hd todo) s) (\<lambda>s. Inr (s, tl todo))"
| "act (Accept fd) (s, todo) = Inr (createClient fd s, todo)"

text \<open>When a step can happen: \<open>accept\<close> returns a descriptor that is not open, \<open>send\<close> accepts at most what it is
  given. With \<open>T\<close>, no data is sent again.\<close>

fun allowed :: "bool \<Rightarrow> action \<Rightarrow> system \<Rightarrow> bool" where
  "allowed T (Builder x ws) (s, todo) \<longleftrightarrow> permitted x s"
| "allowed T Poll (s, todo) \<longleftrightarrow> todo = []"
| "allowed T Skip (s, todo) \<longleftrightarrow> todo \<noteq> []"
| "allowed T (Serve rs) (s, todo) \<longleftrightarrow> todo \<noteq> [] \<and> sends_ok rs (unsent s (hd todo)) \<and> (T \<longrightarrow> no_resend rs (unsent s (hd todo)))"
| "allowed T (Accept fd) (s, todo) \<longleftrightarrow> todo = [] \<and> map_of (ss_map s) fd = None \<and> Suc (card (dom (map_of (ss_map s)))) < 2 ^ 32"

inductive reach :: "bool \<Rightarrow> system \<Rightarrow> bool" for T where
  init: "reach T (StreamServer sock en, [])"
| step: "reach T st \<Longrightarrow> allowed T a st \<Longrightarrow> act a st = Inr st' \<Longrightarrow> reach T st'"

definition system_inv :: "bool \<Rightarrow> system \<Rightarrow> bool" where
  "system_inv T st \<longleftrightarrow> server_inv T (fst st) \<and> distinct (snd st) \<and> set (snd st) \<subseteq> set (ss_fds (fst st))"

lemma perform_ok:
  assumes inv: "server_inv T s" and ok: "permitted x s"
  shows "(\<exists>s'. perform x ws s = Inr s' \<and> server_inv T s' \<and> set (ss_fds s) \<subseteq> set (ss_fds s')) \<or> (\<exists>e. perform x ws s = Inl e \<and> event_error e)"
proof (cases "ongoing s")
  case True
  then obtain h b bs where b: "ss_builds s = (h, b) # bs" "\<not> bi_completed b" by (auto simp: ongoing_def split: list.splits)
  have emits: ?thesis if "perform x ws s = emit f ws s" "grows f" "bi_buf (f b) \<noteq> bi_buf b" for f
    using emit_ok [OF inv b that(2,3), of ws] that(1) by auto
  show ?thesis
  proof (cases x)
    case (OpNewBuild i)
    then show ?thesis using ok True by simp
  next
    case (OpEndBuild r)
    then show ?thesis using endBuild_ok [OF inv b, of r ws] by simp
  next
    case (OpNewCommand i c)
    then show ?thesis using ops_emit(1) [OF b(1), of i c ws] by (elim exE conjE) (rule emits, simp_all)
  next
    case (OpEndCommand i st)
    then show ?thesis using ops_emit(2) [OF b(1), of i st ws] by (elim exE conjE) (rule emits, simp_all)
  next
    case (OpOutput i buf out)
    have "\<not> bi_firstChunk b" using ok OpOutput b(1) by simp
    from ops_emit(4) [OF b(1) this, of i buf out ws] OpOutput show ?thesis by (elim exE conjE) (rule emits, simp_all)
  next
    case (OpCacheRetrieve path)
    then show ?thesis using ops_emit(3) [OF b(1), of path ws] by (elim exE conjE) (rule emits, simp_all)
  qed
next
  case False
  then obtain i where "x = OpNewBuild i" using ok by (cases x) auto
  moreover have "case ss_builds s of [] \<Rightarrow> True | (h, b) # _ \<Rightarrow> bi_completed b" using False by (auto simp: ongoing_def split: list.splits)
  ultimately show ?thesis using newBuild_ok [OF inv, of i ws] by simp
qed

lemma act_ok:
  assumes inv: "system_inv T st" and ok: "allowed T a st"
  shows "(\<exists>st'. act a st = Inr st' \<and> system_inv T st') \<or> (\<exists>e. act a st = Inl e \<and> event_error e)"
proof -
  obtain s todo where st: "st = (s, todo)" by (cases st)
  have s: "server_inv T s" "distinct todo" "set todo \<subseteq> set (ss_fds s)" using inv st by (auto simp: system_inv_def)
  show ?thesis
  proof (cases a)
    case (Builder x ws)
    then show ?thesis using perform_ok [OF s(1), of x ws] s ok st by (auto simp: system_inv_def)
  next
    case Poll
    have "distinct (ss_fds s)" using s(1) by (auto simp: server_inv_def clients_ok_def)
    then show ?thesis using Poll s st by (auto simp: system_inv_def)
  next
    case Skip
    then show ?thesis using s ok st by (cases todo) (auto simp: system_inv_def)
  next
    case (Serve rs)
    then obtain fd rest where todo: "todo = fd # rest" using ok st by (cases todo) auto
    have "fd \<in> set (ss_fds s)" using s(3) todo by simp
    moreover have "set rest \<subseteq> set (ss_fds s) - {fd}" using s(2,3) todo by auto
    ultimately show ?thesis using processClient_ok [OF s(1), of fd rs] ok Serve s(2) st todo
      by (auto simp: system_inv_def event_error_def dest: subset_trans)
  next
    case (Accept fd)
    then show ?thesis using createClient_ok [OF s(1), of fd] s ok st by (auto simp: system_inv_def)
  qed
qed

text \<open>The server with its two threads is a guarded machine: only the event pipe and \<open>send\<close> can fail.\<close>

interpretation server: guarded_machine "allowed T" act "system_inv T" event_error
  for T
proof (unfold_locales, goal_cases)
  case (1 st a st')
  then show ?case using act_ok [OF 1(1,2)] by auto
next
  case (2 st a e)
  then show ?case using act_ok [OF 2(1,2)] by auto
qed

lemma server_start: "system_inv T (StreamServer sock en, [])"
  by (simp add: system_inv_def server_inv_def builds_ok_def clients_ok_def StreamServer_def)

lemma reach_reachable: "reach T st \<longleftrightarrow> (\<exists>sock en. server.reachable T (StreamServer sock en, []) st)"
proof
  show "\<exists>sock en. server.reachable T (StreamServer sock en, []) st" if "reach T st"
    using that by induction (blast intro: server.reachable.intros)+
  have "reach T st" if "server.reachable T (StreamServer sock en, []) st" for sock en
    using that by induction (blast intro: reach.intros)+
  then show "reach T st" if "\<exists>sock en. server.reachable T (StreamServer sock en, []) st" using that by blast
qed

lemma reach_inv: "reach T st \<Longrightarrow> system_inv T st"
  unfolding reach_reachable by (elim exE) (rule server.reachable_inv [OF _ server_start])

section \<open>Properties\<close>

text \<open>C18. In every interleaving of the server thread and the build thread no assertion of the stream server fails, no
  iterator is used with the wrong list and no freed build is used: when the builder follows its protocol, every
  operation returns, unless writing to the event pipe fails or \<open>send\<close> does not return.\<close>

theorem stream_server_safe:
  assumes "reach T st" and "allowed T a st" and "act a st = Inl e"
  shows "e = Blocks \<or> (\<exists>code. e = Thrown (Exception code ''raise event failed''))"
  using server.reachable_error [OF _ server_start assms(2,3)] assms(1) by (auto simp: reach_reachable event_error_def)

definition example_event :: event_notifier where
  "example_event = \<lparr>en_rfd = \<lparr>fd_number = 3, fd_cloexec = True, fd_nonblock = False\<rparr>,
     en_wfd = \<lparr>fd_number = 4, fd_cloexec = True, fd_nonblock = False\<rparr>, en_pending = 0\<rparr>"

definition example_server :: stream_server where
  "example_server = StreamServer 5 example_event"

lemma example_accept: "reach T (createClient 7 example_server, [])"
proof (rule reach.step [OF reach.init [of T 5 example_event]])
  show "allowed T (Accept 7) (StreamServer 5 example_event, [])" by (simp add: StreamServer_def)
qed (simp add: example_server_def)

theorem stream_server_safe_witness:
  "act (Builder (OpNewBuild 0) []) (createClient 7 example_server, []) = Inl Blocks \<and> (Blocks = Blocks \<or> (\<exists>code. Blocks = Thrown (Exception code ''raise event failed'')))"
proof -
  have run: "act (Builder (OpNewBuild 0) []) (createClient 7 example_server, []) = Inl Blocks"
    by (simp add: newBuild_def writeBuf_def upd_front_def BuildInfo_def flushWaiting_def flush_client_def find_client_def builds_begin_def notifyPoll_def
        createClient_def set_client_def example_server_def StreamServer_def upd_build_def)
  have "allowed True (Builder (OpNewBuild 0) []) (createClient 7 example_server, [])"
    by (simp add: ongoing_def createClient_def builds_begin_def set_client_def example_server_def StreamServer_def)
  from stream_server_safe [OF example_accept this run] run show ?thesis by blast
qed

text \<open>C19. Reference counting does not wrap around: in every reachable state the 32-bit counter of a build is the
  number of clients that are assigned to it, every client is assigned to a build that exists or waits for the first
  one, a build other than the last one is kept only while it is read, and positions stay inside the buffers.\<close>

theorem refcount_exact:
  assumes "reach T (s, todo)"
  shows "(\<forall>(h, b) \<in> set (ss_builds s). unat (bi_refcount b) = card {fd. \<exists>c. map_of (ss_map s) fd = Some c \<and> ci_build c = Some h}) \<and>
     (\<forall>(h, b) \<in> set (tl (ss_builds s)). bi_completed b \<and> 0 < bi_refcount b) \<and>
     (\<forall>fd c. map_of (ss_map s) fd = Some c \<longrightarrow>
        (case ci_build c of None \<Rightarrow> ss_builds s = [] \<and> fd \<in> set (ss_waiting s)
         | Some h \<Rightarrow> \<exists>b. build_at s h = Some b \<and> ci_bufPtr c \<le> length (bi_buf b)))"
proof -
  have inv: "server_inv T s" using reach_inv [OF assms] by (simp add: system_inv_def)
  then have bo: "builds_ok (ss_builds s) (ss_newBuilds s) (map_of (ss_map s))" by (simp add: server_inv_def)
  have "case ci_build c of None \<Rightarrow> ss_builds s = [] \<and> fd \<in> set (ss_waiting s) | Some h \<Rightarrow> \<exists>b. build_at s h = Some b \<and> ci_bufPtr c \<le> length (bi_buf b)"
    if c: "map_of (ss_map s) fd = Some c" for fd c
  proof (cases "fd \<in> set (ss_waiting s)")
    case True
    then have "waits T (ss_sent s) (ss_builds s) fd c" using inv c by (auto simp: server_inv_def clients_ok_def)
    then show ?thesis using True by (auto simp: waits_def build_at_def split: list.splits)
  next
    case False
    then have "reading T (ss_sent s) (ss_builds s) fd c" using inv c by (auto simp: server_inv_def clients_ok_def split: if_splits)
    then show ?thesis using bo by (force simp: reading_def bufs_def build_at_def builds_ok_def)
  qed
  then show ?thesis using bo by (auto simp: builds_ok_def refs_def word_greater_zero_iff)
qed

text \<open>C20. What a client receives: as long as no call of \<open>processClient\<close> sends a second piece after a first one that
  was accepted in part, every client has received exactly the part of the output of its build before its position,
  in all interleavings; a client that waits during a build has received everything written so far.\<close>

theorem client_stream_intact:
  assumes "reach True (s, todo)" and "map_of (ss_map s) fd = Some c" and "ci_build c = Some h" and "build_at s h = Some b"
  shows "ss_sent s fd = take (ci_bufPtr c) (bi_buf b) \<and> (ci_isWaiting c \<longrightarrow> ss_sent s fd = bi_buf b)"
proof -
  have inv: "server_inv True s" using reach_inv [OF assms(1)] by (simp add: system_inv_def)
  have uniq: "b' = b" if "(h, b') \<in> set (ss_builds s)" for b'
    using that assms(4) inv by (simp add: server_inv_def builds_ok_def build_at_def)
  show ?thesis
  proof (cases "fd \<in> set (ss_waiting s)")
    case True
    then have w: "waits True (ss_sent s) (ss_builds s) fd c" using inv assms(2) by (auto simp: server_inv_def clients_ok_def)
    then obtain b' bs where "ss_builds s = (h, b') # bs" "ci_bufPtr c = length (bi_buf b')" "ss_sent s fd = bi_buf b'"
      using assms(3) by (auto simp: waits_def split: list.splits)
    then show ?thesis using uniq [of b'] by simp
  next
    case False
    then have r: "reading True (ss_sent s) (ss_builds s) fd c" using inv assms(2) by (auto simp: server_inv_def clients_ok_def split: if_splits)
    then obtain b' where "(h, b') \<in> set (ss_builds s)" "ss_sent s fd = take (ci_bufPtr c) (bi_buf b')" using assms(3) by (auto simp: reading_def bufs_def)
    then show ?thesis using uniq [of b'] r by (simp add: reading_def)
  qed
qed

definition example_clients :: stream_server where
  "example_clients = createClient 7 (projr (newBuild 0 [Written] example_server))"

definition example_served :: stream_server where
  "example_served = projr (processClient [Sent 5, SendError 11] 7 example_clients)"

lemma example_build: "newBuild 0 [Written] example_server = Inr (projr (newBuild 0 [Written] example_server))"
  "ss_builds (projr (newBuild 0 [Written] example_server)) = [(0, (BuildInfo 0)\<lparr>bi_buf := ''{'' @ endl @ ''  '' @ quot @ ''id'' @ quot @ '': 0,'' @ endl @ ''  '' @ quot @ ''cmds'' @ quot @ '': ['' @ endl\<rparr>)]"
  "ss_map (projr (newBuild 0 [Written] example_server)) = []" "ss_fds (projr (newBuild 0 [Written] example_server)) = []"
  by (simp_all add: newBuild_def writeBuf_def upd_front_def BuildInfo_def flushWaiting_def notifyPoll_def example_server_def StreamServer_def
      show_nat.simps [of 0] char_of_def bit_iff_odd)

definition example_buf :: string where
  "example_buf = ''{'' @ endl @ ''  '' @ quot @ ''id'' @ quot @ '': 0,'' @ endl @ ''  '' @ quot @ ''cmds'' @ quot @ '': ['' @ endl"

lemma example_clients_sel:
  "ss_builds example_clients = [(0, \<lparr>bi_id = 0, bi_buf = example_buf,
     bi_refcount = 1, bi_completed = False, bi_firstChunk = True\<rparr>)]"
  "ss_map example_clients = [(7, \<lparr>ci_build = Some 0, ci_bufPtr = 0, ci_itFd = In_fds 7, ci_isWaiting = False\<rparr>)]" "ss_fds example_clients = [7]"
  by (simp_all add: example_clients_def createClient_def example_build(2-4) builds_begin_def set_client_def upd_build_def BuildInfo_def Let_def
      example_buf_def)

lemma example_buf_length: "length example_buf = 25" "example_buf \<noteq> []"
  by (simp_all add: example_buf_def endl_def quot_def)

lemma example_serve: "processClient [Sent 5, SendError 11] 7 example_clients = Inr example_served"
  "map_of (ss_map example_served) 7 = Some \<lparr>ci_build = Some 0, ci_bufPtr = 5, ci_itFd = In_fds 7, ci_isWaiting = False\<rparr>"
  "ss_builds example_served = ss_builds example_clients"
proof -
  have "send_loop [Sent 5, SendError 11] example_buf 0 0 = Inr (5, take 5 example_buf, Some 11)" by (simp add: example_buf_length Let_def)
  then have run: "processClient [Sent 5, SendError 11] 7 example_clients =
    Inr ((set_client 7 \<lparr>ci_build = Some 0, ci_bufPtr = 5, ci_itFd = In_fds 7, ci_isWaiting = False\<rparr> example_clients)
      \<lparr>ss_sent := (ss_sent example_clients)(7 := ss_sent example_clients 7 @ take 5 example_buf)\<rparr>)"
    by (simp only: processClient_def find_client_def example_clients_sel build_at_def) (simp add: EAGAIN_def Let_def example_buf_length)
  show "processClient [Sent 5, SendError 11] 7 example_clients = Inr example_served"
    "map_of (ss_map example_served) 7 = Some \<lparr>ci_build = Some 0, ci_bufPtr = 5, ci_itFd = In_fds 7, ci_isWaiting = False\<rparr>"
    "ss_builds example_served = ss_builds example_clients"
    unfolding example_served_def run by (simp_all add: set_client_def example_clients_sel)
qed

lemma example_served_reach: "reach True (example_served, [])"
proof -
  have "reach True (projr (newBuild 0 [Written] example_server), [])"
  proof (rule reach.step [OF reach.init [of True 5 example_event]])
    show "allowed True (Builder (OpNewBuild 0) [Written]) (StreamServer 5 example_event, [])" by (simp add: ongoing_def StreamServer_def)
    show "act (Builder (OpNewBuild 0) [Written]) (StreamServer 5 example_event, []) = Inr (projr (newBuild 0 [Written] example_server), [])"
      using example_build(1) unfolding example_server_def by (cases "newBuild 0 [Written] (StreamServer 5 example_event)") simp_all
  qed
  then have "reach True (example_clients, [])"
    by (rule reach.step [where a = "Accept 7"]) (simp_all add: example_build(2-4) example_clients_def)
  then have "reach True (example_clients, [7])"
    by (rule reach.step [where a = Poll]) (simp_all add: example_clients_sel)
  then show ?thesis
    by (rule reach.step [where a = "Serve [Sent 5, SendError 11]"])
      (simp_all add: example_serve no_resend_def unsent_def build_at_def example_clients_sel example_buf_length)
qed

theorem refcount_exact_witness:
  "\<exists>b. build_at example_served 0 = Some b \<and>
     unat (bi_refcount b) = card {fd. \<exists>c. map_of (ss_map example_served) fd = Some c \<and> ci_build c = Some 0}"
proof -
  obtain b where b: "build_at example_served 0 = Some b" by (simp add: build_at_def example_serve example_clients_sel)
  then have "(0, b) \<in> set (ss_builds example_served)" by (simp add: build_at_def map_of_SomeD)
  with refcount_exact [OF example_served_reach] b show ?thesis by blast
qed

theorem client_stream_intact_witness:
  "\<exists>b. build_at example_served 0 = Some b \<and> ss_sent example_served 7 = take 5 (bi_buf b)"
proof -
  obtain b where b: "build_at example_served 0 = Some b" by (simp add: build_at_def example_serve example_clients_sel)
  from client_stream_intact [OF example_served_reach example_serve(2) _ b] b show ?thesis by simp
qed

text \<open>A partial send corrupts the stream. The buffer is \<open>abc\<close> and \<open>send\<close> accepts one byte, then the other two: the
  second call gets the pointer of the first one, so the client receives \<open>aab\<close>, and the server considers the client
  served.\<close>

lemma partial_send_corrupts:
  "send_loop [Sent 1, Sent 2] ''abc'' 0 0 = Inr (3, ''aab'', None)"
  by (simp add: Let_def)

text \<open>Destroying the server while a client is connected that waits for the first build fails the assertion
  \<open>itBuild != builds_.end()\<close>: connecting a client and shutting the daemon down before any build aborts it.\<close>

text \<open>After any failure but that of \<open>socket\<close> the descriptor is closed and \<open>serverSocket_\<close> still holds its number,
  which the destructor closes a second time; when \<open>openPort\<close> succeeds nothing was closed.\<close>

lemma openPort_cases:
  assumes "openPort os port s = (res, closed, s')"
  shows "res = Inr () \<and> closed = [] \<and> so_socket os = Inr (ss_serverSocket s') \<and> so_bind os (ucast port) = None
    \<or> (\<exists>e. res = Inl e) \<and> (closed = [] \<and> ss_serverSocket s' = -1 \<or> closed = [ss_serverSocket s'])"
  using assms by (auto simp: openPort_def throw_error_def Let_def split: sum.splits option.splits)

lemma openPort_port_wraps: "openPort os (port + 65536) s = openPort os port s"
proof -
  have "(ucast (port + 65536) :: 16 word) = ucast port"
    by transfer (simp add: take_bit_eq_mod mod_add_eq mod_mod_cancel)
  then show ?thesis unfolding openPort_def by (simp only:)
qed

text \<open>A new server whose port was opened is the server of the initial state.\<close>

lemma openPort_new:
  assumes "openPort os port (StreamServer (-1) en) = (Inr (), closed, s)"
  shows "\<exists>fd. so_socket os = Inr fd \<and> s = StreamServer fd en"
  using assms by (auto simp: openPort_def throw_error_def Let_def StreamServer_def split: sum.splits option.splits)

theorem destroy_waiting_aborts:
  "StreamServer_destroy (createClient fd (StreamServer sock en)) = Inl (AssertFailed ''itBuild != builds_.end()'')"
  by (simp add: StreamServer_destroy_def createClient_def StreamServer_def builds_begin_def set_client_def closeClient_def find_client_def)

text \<open>Reading a JSON string up to its closing quote.\<close>

fun read_string :: "string \<Rightarrow> (string \<times> string) option" where
  "read_string [] = None"
| "read_string (c # cs) =
     (if c = CHR 0x22 then Some ([], cs)
      else if c = CHR 0x5C
      then (case cs of [] \<Rightarrow> None
            | d # ds \<Rightarrow> map_option (\<lambda>(s, rest). ((if d = CHR ''n'' then CHR 0x0A else d) # s, rest)) (read_string ds))
      else map_option (\<lambda>(s, rest). (c # s, rest)) (read_string cs))"


end
