(* ===== verification/Watchman_Client.thy ===== *)
theory Watchman_Client
  imports Json_Roundtrip Process_Manager "HOL-Library.Word"
begin

text \<open>
  The client of the file watching service, \<open>src/src/watchman.cpp\<close>, and \<open>src/src/stream_consumer.cpp\<close>, which collects
  the output of the service when it is started.

  The service is not part of the repository: what the system calls \<open>socket\<close>, \<open>connect\<close>, \<open>write\<close> and \<open>read\<close> return and
  how the process that starts the service ends are parameters, in the order of the calls. An operation of the client
  can throw after it changed the client, and the caller may catch the exception, so an operation returns the new
  client next to its result.
\<close>

section \<open>Class BufferStreamConsumer\<close>

record stream_buffer =
  sb_out :: string
  sb_err :: string

definition buffer_writeStdout :: "string \<Rightarrow> stream_buffer \<Rightarrow> stream_buffer" where
  "buffer_writeStdout buf b = b\<lparr>sb_out := sb_out b @ buf\<rparr>"

definition buffer_writeStderr :: "string \<Rightarrow> stream_buffer \<Rightarrow> stream_buffer" where
  "buffer_writeStderr buf b = b\<lparr>sb_err := sb_err b @ buf\<rparr>"

definition getStdout :: "stream_buffer \<Rightarrow> string" where
  "getStdout b = sb_out b"

definition getStderr :: "stream_buffer \<Rightarrow> string" where
  "getStderr b = sb_err b"

section \<open>Class WatchmanClient\<close>

record watchman_client =
  wc_workingDirectory :: string
  wc_isConnected :: bool
  wc_socket :: int
  wc_socketPath :: string
  wc_logPath :: string
  wc_statePath :: string

definition UNIX_PATH_MAX :: nat where
  "UNIX_PATH_MAX = 108"

definition WatchmanClient :: "string \<Rightarrow> watchman_client result" where
  "WatchmanClient dir =
     (let c = \<lparr>wc_workingDirectory = dir, wc_isConnected = False, wc_socket = -1, wc_socketPath = dir @ ''/.watchman.socket'',
               wc_logPath = dir @ ''/.watchman.log'', wc_statePath = dir @ ''/.watchman.state''\<rparr>
      in assert_that ''socketPath_.size() < UNIX_PATH_MAX'' (length (wc_socketPath c) < UNIX_PATH_MAX) (Inr c))"

type_synonym 'a wm = "watchman_client \<Rightarrow> watchman_client \<times> 'a result"

definition wm_return :: "'a \<Rightarrow> 'a wm" where
  "wm_return x c = (c, Inr x)"

definition wm_fail :: "error \<Rightarrow> 'a wm" where
  "wm_fail e c = (c, Inl e)"

definition wm_bind :: "'a wm \<Rightarrow> ('a \<Rightarrow> 'b wm) \<Rightarrow> 'b wm" where
  "wm_bind m f c = (case m c of (c, Inl e) \<Rightarrow> (c, Inl e) | (c, Inr x) \<Rightarrow> f x c)"

text \<open>\<open>try\<close> and \<open>catch (Exception& e)\<close>: a failed assertion is not an exception.\<close>

definition wm_try :: "'a wm \<Rightarrow> 'a wm \<Rightarrow> 'a wm" where
  "wm_try m handler c = (case m c of (c, Inl (Thrown e)) \<Rightarrow> handler c | r \<Rightarrow> r)"

text \<open>What the calls of \<open>socket\<close> and \<open>connect\<close> return.\<close>

datatype open_result = SocketError int | ConnectError int int | Opened int

definition openWatchmanSocket :: "open_result \<Rightarrow> unit wm" where
  "openWatchmanSocket res c =
     (if wc_isConnected c then (c, Inl (AssertFailed ''!isConnected_''))
      else case res of
             SocketError e \<Rightarrow> (c\<lparr>wc_socket := -1\<rparr>, throw_error e ''unable to open the watchman's socket'')
           | ConnectError fd e \<Rightarrow> (c\<lparr>wc_socket := fd\<rparr>, throw_error e ''unable to connect to the watchman's socket'')
           | Opened fd \<Rightarrow> (c\<lparr>wc_socket := fd, wc_isConnected := True\<rparr>, Inr ()))"

text \<open>Running \<open>watchman get-pid\<close>: the exit status and the output of the process are parameters.\<close>

definition watchman_command :: "watchman_client \<Rightarrow> string" where
  "watchman_command c = ''watchman --no-save-state --sockname='' @ [CHR 0x22] @ wc_socketPath c @ [CHR 0x22] @
     '' --logfile='' @ [CHR 0x22] @ wc_logPath c @ [CHR 0x22] @ '' get-pid''"

definition startWatchmanInstance :: "(string \<Rightarrow> SubProcessExitStatus \<times> stream_buffer) \<Rightarrow> unit wm" where
  "startWatchmanInstance exec c =
     (case exec (watchman_command c) of
        (status, consumer) \<Rightarrow>
          if status \<noteq> EXIT_SUCCEEDED then (c, throw_error EINVAL (getStderr consumer @ ''Could not start watchman.'')) else (c, Inr ()))"

record wm_env =
  we_open1 :: open_result
  we_run :: "string \<Rightarrow> SubProcessExitStatus \<times> stream_buffer"
  we_open2 :: open_result
  we_mem :: "nat \<Rightarrow> bool"
  we_time :: int

definition connectToWatchman :: "wm_env \<Rightarrow> unit wm" where
  "connectToWatchman env c =
     (if wc_isConnected c then (c, Inl (AssertFailed ''!isConnected_''))
      else wm_bind (wm_try (openWatchmanSocket (we_open1 env))
                      (wm_bind (startWatchmanInstance (we_run env)) (\<lambda>_. openWatchmanSocket (we_open2 env))))
             (\<lambda>_ c. if wc_isConnected c then (c, Inr ()) else (c, Inl (AssertFailed ''isConnected_''))) c)"

text \<open>The results of \<open>write\<close>: the number of bytes, or an error. The result is what is still to be written.\<close>

datatype io_result = Wrote nat | IoError int

fun writeCommand :: "io_result list \<Rightarrow> string \<Rightarrow> unit wm" where
  "writeCommand rs [] c = (c, Inr ())"
| "writeCommand [] cmd c = (c, Inl Blocks)"
| "writeCommand (Wrote r # rs) cmd c = writeCommand rs (drop r cmd) c"
| "writeCommand (IoError e # rs) cmd c =
     (if e = EAGAIN then writeCommand rs cmd c
      else (c\<lparr>wc_isConnected := False\<rparr>, throw_error e ''unable to write command to watchman''))"

text \<open>The results of \<open>read\<close>: up to 255 bytes, or an error. The variable \<open>dom\<close> has no value before the first piece was
  parsed; \<open>junk\<close> tells whether the memory it occupies happens to be non-null then.\<close>

datatype read_result = Got string | ReadError int

fun read_loop :: "bool \<Rightarrow> read_result list \<Rightarrow> nat \<Rightarrow> JsonParser \<Rightarrow> JsonVal option option \<Rightarrow> JsonVal wm" where
  "read_loop junk [] loop p d c = (c, Inl Blocks)"
| "read_loop junk (ReadError e # rs) loop p d c =
     (if e \<noteq> EAGAIN then (c\<lparr>wc_isConnected := False\<rparr>, throw_error e ''unable to read watchman command response'')
      else case d of
             None \<Rightarrow> if junk then (c, Inl UseAfterFree)
                     else if loop + 2 < 4 then read_loop junk rs (loop + 2) p d c
                     else (c, throw_error EINVAL ''Error parsing watchman command response'')
           | Some (Some v) \<Rightarrow> (c, Inr v)
           | Some None \<Rightarrow> if loop + 2 < 4 then read_loop junk rs (loop + 2) p d c
                         else (c, throw_error EINVAL ''Error parsing watchman command response''))"
| "read_loop junk (Got buf # rs) loop p d c =
     (case JsonParser_parse 0 buf p of
        Inl e \<Rightarrow> (c, Inl e)
      | Inr p \<Rightarrow>
          (case getDom p of
             Some v \<Rightarrow> (c, Inr v)
           | None \<Rightarrow> if loop + 1 < 4 then read_loop junk rs (loop + 1) p (Some None) c
                     else (c, throw_error EINVAL ''Error parsing watchman command response'')))"

text \<open>The member \<open>_data\<close> of a value, passed on as a C string.\<close>

definition json_data :: "JsonVal \<Rightarrow> string" where
  "json_data v = takeWhile (\<lambda>c. c \<noteq> CHR 0x00) (case v of JInt d \<Rightarrow> d | JString d \<Rightarrow> d | JFloat d \<Rightarrow> d | _ \<Rightarrow> [])"

definition readAnswer :: "(nat \<Rightarrow> bool) \<Rightarrow> bool \<Rightarrow> read_result list \<Rightarrow> unit wm" where
  "readAnswer mem junk rs =
     wm_bind (\<lambda>c. case JsonParser_new mem of Inl e \<Rightarrow> (c, Inl e) | Inr p \<Rightarrow> read_loop junk rs 0 p None c) (\<lambda>d c.
       case getObject ''error'' d of
         Some err \<Rightarrow> (c, throw_error EINVAL (json_data err))
       | None \<Rightarrow> (c, Inr ()))"

text \<open>\<open>find_last_of\<close> returns \<open>std::string::npos\<close>, that is \<open>2 ^ 64 - 1\<close>, when there is no slash; \<open>updateTargetPath\<close> keeps the
  result in a variable of type \<open>unsigned\<close>. \<open>resize\<close> fills up with zero bytes.\<close>

definition find_last_of_slash :: "string \<Rightarrow> nat" where
  "find_last_of_slash s =
     (if CHR ''/'' \<in> set s then length s - 1 - length (takeWhile (\<lambda>c. c \<noteq> CHR ''/'') (rev s)) else 2 ^ 64 - 1)"

definition resize :: "nat \<Rightarrow> string \<Rightarrow> string" where
  "resize n s = take n s @ replicate (n - length s) (CHR 0x00)"

definition parent_directory :: "string \<Rightarrow> string" where
  "parent_directory dir = (let pos = word_of_nat (find_last_of_slash dir) :: 32 word in resize (unat pos) (take (unat pos) dir))"

function strip_parents :: "string \<Rightarrow> string \<Rightarrow> string \<times> string" where
  "strip_parents dir pat =
     (if take 3 pat = ''../'' then strip_parents (parent_directory dir) (drop 3 pat) else (dir, pat))"
  by pat_completeness auto
termination
proof (relation "measure (\<lambda>(dir, pat). length pat)")
  fix dir pat :: string assume "take 3 pat = ''../''"
  then have "pat \<noteq> []" by auto
  then show "((parent_directory dir, drop 3 pat), dir, pat) \<in> measure (\<lambda>(dir, pat). length pat)" by simp
qed simp

declare strip_parents.simps [simp del]

definition updateTargetPath :: "string \<Rightarrow> string \<Rightarrow> string \<times> string" where
  "updateTargetPath dir pat =
     (if take 1 pat = ''/''
      then (let pos = word_of_nat (find_last_of_slash pat) :: 32 word; size = word_of_nat (length pat) :: 32 word
            in (resize (unat pos) (take (unat pos) pat), resize (unat (size - pos - 1)) (drop (unat (pos + 1)) pat)))
      else strip_parents dir pat)"

definition show_int :: "int \<Rightarrow> string" where
  "show_int i = (if i < 0 then CHR ''-'' # show_nat (nat (- i)) else show_nat (nat i))"

definition quoted :: "string \<Rightarrow> string" where
  "quoted s = CHR 0x22 # s @ [CHR 0x22]"

definition watch_command :: "int \<Rightarrow> string \<Rightarrow> string \<Rightarrow> string" where
  "watch_command now dir path =
     (case updateTargetPath dir path of
        (targetDirectory, targetPattern) \<Rightarrow>
          ''[ '' @ quoted ''trigger'' @ '', '' @ quoted targetDirectory @ '', { '' @ quoted ''name'' @ '': '' @ quoted path @ '', '' @
          quoted ''expression'' @ '': '' @ ''   ['' @ quoted ''allof'' @ '', '' @ ''       ['' @ quoted ''name'' @ '', '' @
          quoted targetPattern @ '', '' @ quoted ''wholename'' @ ''], '' @ ''       ['' @ quoted ''anyof'' @ '', '' @
          ''           ['' @ quoted ''not'' @ '', '' @ quoted ''exists'' @ ''],'' @ ''           ['' @ quoted ''since'' @ '', '' @
          show_int (now - 1) @ '', '' @ quoted ''mtime'' @ '']]], '' @ quoted ''command'' @ '': ['' @ ''    '' @ quoted ''falcon'' @ '', '' @
          quoted ''--set-dirty'' @ '', '' @ quoted path @ '']}]'' @ endl)"

definition unwatch_command :: "string \<Rightarrow> string \<Rightarrow> string" where
  "unwatch_command dir path =
     (case updateTargetPath dir path of
        (targetDirectory, targetPattern) \<Rightarrow>
          ''[ '' @ quoted ''trigger-del'' @ '', '' @ quoted targetDirectory @ '', '' @ quoted path @ '' '' @ '']'' @ endl)"

text \<open>Sending a command: the results of \<open>write\<close> and \<open>read\<close> for the two attempts.\<close>

record attempts =
  at_write1 :: "io_result list"
  at_read1 :: "read_result list"
  at_write2 :: "io_result list"
  at_read2 :: "read_result list"
  at_junk :: bool

definition send_command :: "wm_env \<Rightarrow> attempts \<Rightarrow> string \<Rightarrow> unit wm" where
  "send_command env at cmd =
     wm_try (wm_bind (writeCommand (at_write1 at) cmd) (\<lambda>_. readAnswer (we_mem env) (at_junk at) (at_read1 at)))
       (wm_bind (connectToWatchman env) (\<lambda>_.
        wm_bind (writeCommand (at_write2 at) cmd) (\<lambda>_. readAnswer (we_mem env) (at_junk at) (at_read2 at))))"

definition ensure_connected :: "wm_env \<Rightarrow> unit wm" where
  "ensure_connected env c = (if \<not> wc_isConnected c then connectToWatchman env c else (c, Inr ()))"

definition watchNode :: "wm_env \<Rightarrow> attempts \<Rightarrow> string \<Rightarrow> unit wm" where
  "watchNode env at path =
     wm_bind (ensure_connected env) (\<lambda>_ c. send_command env at (watch_command (we_time env) (wc_workingDirectory c) path) c)"

definition unwatchNode :: "wm_env \<Rightarrow> attempts \<Rightarrow> string \<Rightarrow> unit wm" where
  "unwatchNode env at path =
     wm_bind (ensure_connected env) (\<lambda>_ c. send_command env at (unwatch_command (wc_workingDirectory c) path) c)"

fun watch_all :: "(wm_env \<Rightarrow> attempts \<Rightarrow> string \<Rightarrow> unit wm) \<Rightarrow> (string \<Rightarrow> wm_env \<times> attempts) \<Rightarrow> string list \<Rightarrow> unit wm" where
  "watch_all f envs [] c = (c, Inr ())"
| "watch_all f envs (p # ps) c = wm_bind (case envs p of (env, at) \<Rightarrow> f env at p) (\<lambda>_. watch_all f envs ps) c"

definition watchGraph :: "wm_env \<Rightarrow> (string \<Rightarrow> wm_env \<times> attempts) \<Rightarrow> graph \<Rightarrow> unit wm" where
  "watchGraph env envs g =
     wm_bind (ensure_connected env) (\<lambda>_. watch_all watchNode envs (map (\<lambda>(p, n). n_path (g_node g n)) (g_nodes g)))"

definition unwatchGraph :: "wm_env \<Rightarrow> (string \<Rightarrow> wm_env \<times> attempts) \<Rightarrow> graph \<Rightarrow> unit wm" where
  "unwatchGraph env envs g =
     wm_bind (ensure_connected env) (\<lambda>_. watch_all unwatchNode envs (map (\<lambda>(p, n). n_path (g_node g n)) (g_nodes g)))"

text \<open>The destructor asks the service to stop, with the zero byte that ends the literal, and closes the socket; the number
  of bytes is checked against the size of the array only to log a warning.\<close>

datatype socket_call = SocketWrite int string | SocketDrain int | SocketClose int

definition destroy_WatchmanClient :: "watchman_client \<Rightarrow> socket_call list" where
  "destroy_WatchmanClient c =
     (if wc_socket c \<ge> 0
      then [SocketWrite (wc_socket c) (''[ '' @ quoted ''shutdown-server'' @ '' ]'' @ endl @ [CHR 0x00]),
            SocketDrain (wc_socket c), SocketClose (wc_socket c)]
      else [])"

section \<open>Target paths\<close>

definition under :: "string \<Rightarrow> string list \<Rightarrow> string" where
  "under base es = base @ concat (map (\<lambda>e. CHR ''/'' # e) es)"

definition ups :: "nat \<Rightarrow> string" where
  "ups k = concat (replicate k ''../'')"

lemma find_last_of_slash_append [simp]:
  assumes "CHR ''/'' \<notin> set e"
  shows "find_last_of_slash (base @ CHR ''/'' # e) = length base"
proof -
  have "takeWhile (\<lambda>c. c \<noteq> CHR ''/'') (rev e @ CHR ''/'' # rev base) = rev e"
    using assms by (subst takeWhile_append2) auto
  then show ?thesis by (simp add: find_last_of_slash_def)
qed

lemma resize_same [simp]: "resize (length s) s = s"
  by (simp add: resize_def)

lemma resize_take [simp]: "resize n (take n s) = take n s @ replicate (n - length s) (CHR 0x00)"
  by (simp add: resize_def min_def)

lemma length_resize [simp]: "length (resize n s) = n"
  by (simp add: resize_def)

lemma parent_directory_append [simp]:
  assumes "CHR ''/'' \<notin> set e" "length base < 2 ^ 32"
  shows "parent_directory (base @ CHR ''/'' # e) = base"
  using assms by (simp add: parent_directory_def unat_of_nat)

lemma parent_directory_none:
  assumes "CHR ''/'' \<notin> set dir"
  shows "length (parent_directory dir) = 2 ^ 32 - 1" "CHR ''/'' \<notin> set (parent_directory dir)"
proof -
  have "unat (word_of_nat (find_last_of_slash dir) :: 32 word) = 2 ^ 32 - 1"
    using assms by (simp add: find_last_of_slash_def unat_of_nat)
  then have eq: "parent_directory dir = resize (2 ^ 32 - 1) (take (2 ^ 32 - 1) dir)"
    unfolding parent_directory_def Let_def by (simp only:)
  show "length (parent_directory dir) = 2 ^ 32 - 1"
    unfolding eq by (rule length_resize)
  show "CHR ''/'' \<notin> set (parent_directory dir)"
    unfolding eq resize_def using assms
    by (simp only: set_append set_replicate_conv_if) (auto dest: in_set_takeD)
qed

lemma under_snoc: "under base (es @ [e]) = under base es @ CHR ''/'' # e"
  by (simp add: under_def)

lemma length_under_le: "length (under base es) \<le> length (under base (es @ [e]))"
  by (simp add: under_def)

lemma ups_Suc: "ups (Suc k) = ''../'' @ ups k"
  by (simp add: ups_def)

lemma strip_parents_step: "strip_parents dir (''../'' @ p) = strip_parents (parent_directory dir) p"
  by (subst strip_parents.simps) (simp add: numeral_3_eq_3)

lemma strip_parents_done: "take 3 p \<noteq> ''../'' \<Longrightarrow> strip_parents dir p = (dir, p)"
  by (subst strip_parents.simps) simp

lemma strip_parents_under:
  assumes "\<forall>e \<in> set es. CHR ''/'' \<notin> set e" "length (under base es) < 2 ^ 32"
  shows "strip_parents (under base es) (ups (length es) @ p) = strip_parents base p"
  using assms
proof (induction es rule: rev_induct)
  case Nil
  show ?case by (simp add: ups_def under_def)
next
  case (snoc e es)
  have len: "length (under base es) < 2 ^ 32"
    using snoc.prems(2) length_under_le [of base es e] by linarith
  then have "parent_directory (under base (es @ [e])) = under base es"
    using snoc.prems(1) by (simp add: under_snoc)
  then show ?case
    using snoc.IH snoc.prems(1) len
    by (simp only: length_append_singleton ups_Suc append_assoc strip_parents_step) simp
qed

lemma updateTargetPath_relative: "take 1 pat \<noteq> ''/'' \<Longrightarrow> updateTargetPath dir pat = strip_parents dir pat"
  by (simp add: updateTargetPath_def)

text \<open>C33. The directory and the name sent to the file watcher denote the file of the node: every leading \<open>../\<close> of a
  relative path takes one component off the working directory, and an absolute path is split at its last slash.\<close>

theorem updateTargetPath_resolves:
  assumes "\<forall>e \<in> set es. CHR ''/'' \<notin> set e" "take 3 p \<noteq> ''../''" "take 1 p \<noteq> ''/''"
    and "CHR ''/'' \<notin> set name" "length (under base es) < 2 ^ 32" "length base + length name + 1 < 2 ^ 32"
  shows "updateTargetPath (under base es) (ups (length es) @ p) = (base, p)
    \<and> (take 1 (base @ ''/'') = ''/'' \<longrightarrow> updateTargetPath dir (base @ ''/'' @ name) = (base, name))"
proof (intro conjI impI)
  have "take 1 (ups (length es) @ p) \<noteq> ''/''"
    using assms(3) by (cases es) (auto simp: ups_Suc ups_def)
  then show "updateTargetPath (under base es) (ups (length es) @ p) = (base, p)"
    using assms by (simp add: updateTargetPath_relative strip_parents_under strip_parents_done)
next
  assume "take 1 (base @ ''/'') = ''/''"
  then have start: "take 1 (base @ CHR ''/'' # name) = ''/''"
    by (cases base) auto
  define pos :: "32 word" where "pos = word_of_nat (length base)"
  have pos: "unat pos = length base" "unat (pos + 1) = length base + 1"
    using assms(6) by (simp_all add: pos_def unat_of_nat unat_word_ariths mod_Suc)
  have size: "unat (word_of_nat (length (base @ CHR ''/'' # name)) - pos - 1 :: 32 word) = length name"
    using assms(6) by (simp add: pos_def unat_of_nat)
  show "updateTargetPath dir (base @ ''/'' @ name) = (base, name)"
    using start pos size assms(4)
    by (simp add: updateTargetPath_def Let_def find_last_of_slash_append resize_def flip: pos_def)
qed

theorem updateTargetPath_resolves_witness:
  "updateTargetPath (under ''/home/falcon'' [''build'', ''v1'']) (ups 2 @ ''src/main.cpp'') = (''/home/falcon'', ''src/main.cpp'')
   \<and> updateTargetPath ''/tmp'' (''/home/falcon'' @ ''/'' @ ''a.o'') = (''/home/falcon'', ''a.o'')"
  using updateTargetPath_resolves [of "[''build'', ''v1'']" "''src/main.cpp''" "''a.o''" "''/home/falcon''" "''/tmp''"]
  by (simp add: under_def flip: numeral_2_eq_2)

text \<open>A relative path with more leading \<open>../\<close> than the working directory has components makes the directory
  \<open>2 ^ 32 - 1\<close> bytes long, because \<open>npos\<close> is cut to 32 bits before it is passed to \<open>resize\<close>.\<close>

lemma updateTargetPath_overflow:
  assumes "\<forall>e \<in> set es. CHR ''/'' \<notin> set e" "take 3 p \<noteq> ''../''" "length (under [] es) < 2 ^ 32" "length es < k"
    and "take 1 p \<noteq> ''/''"
  shows "length (fst (updateTargetPath (under [] es) (ups k @ p))) = 2 ^ 32 - 1"
proof -
  have none: "length (fst (strip_parents dir (ups (Suc j) @ p))) = 2 ^ 32 - 1" if "CHR ''/'' \<notin> set dir" for dir j
    using that
  proof (induction j arbitrary: dir)
    case 0
    have "strip_parents dir (ups (Suc 0) @ p) = (parent_directory dir, p)"
      using assms(2) by (simp only: ups_Suc append_assoc strip_parents_step) (simp add: ups_def strip_parents_done)
    then show ?case using parent_directory_none(1) [OF 0] by simp
  next
    case (Suc j)
    have "strip_parents dir (ups (Suc (Suc j)) @ p) = strip_parents (parent_directory dir) (ups (Suc j) @ p)"
      by (simp only: ups_Suc [of "Suc j"] append_assoc strip_parents_step)
    then show ?case using Suc.IH [OF parent_directory_none(2) [OF Suc.prems]] by simp
  qed
  obtain j where k: "k = length es + Suc j"
    using assms(4) less_iff_Suc_add by auto
  then have ups: "ups k = ups (length es) @ ups (Suc j)"
    by (simp only: ups_def replicate_add concat_append)
  have "take 1 (ups k @ p) \<noteq> ''/''"
    using assms(4) by (cases k) (auto simp: ups_Suc)
  then have "updateTargetPath (under [] es) (ups k @ p) = strip_parents [] (ups (Suc j) @ p)"
    using assms(1,3) by (simp only: updateTargetPath_relative ups append_assoc strip_parents_under not_False_eq_True)
  then show ?thesis using none [of "[]" j] by simp
qed

lemma updateTargetPath_overflow_witness:
  "length (fst (updateTargetPath (under [] [''home'']) (ups 2 @ ''a.c''))) = 2 ^ 32 - 1"
  by (rule updateTargetPath_overflow) (simp_all add: under_def)

section \<open>Answers\<close>

text \<open>An answer that arrives in one piece.\<close>

lemma readAnswer_document:
  assumes "wf_json v" "is_structure v" "json_depth v \<le> 1024" "\<forall>n > 0. mem n"
  shows "readAnswer mem junk [Got (print_raw v)] c =
    (c, case getObject ''error'' v of Some err \<Rightarrow> throw_error EINVAL (json_data err) | None \<Rightarrow> Inr ())"
proof -
  obtain p q where p: "JsonParser_new mem = Inr p" "json_parser_string (print_raw v) p = Inr (0, length (print_raw v), q)" "getDom q = Some v"
    using parse_document [OF assms] by blast
  then show ?thesis by (auto simp: readAnswer_def wm_bind_def JsonParser_parse_def split: option.splits)
qed

lemma watch_command_nonempty [simp]: "watch_command now dir path \<noteq> []"
  by (simp add: watch_command_def split: prod.split)

lemma writeCommand_lost:
  "cmd \<noteq> [] \<Longrightarrow> e \<noteq> EAGAIN \<Longrightarrow>
   writeCommand (IoError e # rs) cmd c = (c\<lparr>wc_isConnected := False\<rparr>, throw_error e ''unable to write command to watchman'')"
  by (cases cmd) simp_all

text \<open>A lost connection is repaired: when writing the command of \<open>watchNode\<close> fails, the client connects again, sends the
  command a second time and returns normally if the service accepts it.\<close>

lemma watchNode_reconnects:
  assumes "wc_isConnected c" "at_write1 at = IoError e # rs" "e \<noteq> EAGAIN" "we_open1 env = Opened fd"
    and "writeCommand (at_write2 at) (watch_command (we_time env) (wc_workingDirectory c) path) (c\<lparr>wc_socket := fd\<rparr>) = (c\<lparr>wc_socket := fd\<rparr>, Inr ())"
    and "at_read2 at = [Got (print_raw v)]" "wf_json v" "is_structure v" "json_depth v \<le> 1024" "\<forall>n > 0. we_mem env n"
    and "getObject ''error'' v = None"
  shows "watchNode env at path c = (c\<lparr>wc_socket := fd\<rparr>, Inr ())"
proof -
  have same: "c\<lparr>wc_socket := fd, wc_isConnected := True\<rparr> = c\<lparr>wc_socket := fd\<rparr>" using assms(1) by (cases c) simp
  show ?thesis
    using assms readAnswer_document [OF assms(7-10), of "at_junk at" "c\<lparr>wc_socket := fd\<rparr>"]
    by (simp add: watchNode_def send_command_def ensure_connected_def wm_bind_def wm_try_def writeCommand_lost throw_error_def
        connectToWatchman_def openWatchmanSocket_def same)
qed

text \<open>A command that the service refuses stops the daemon: the answer with a member \<open>error\<close> makes \<open>readAnswer\<close> throw while
  the connection is still open, the handler of \<open>watchNode\<close> takes every exception for a lost connection, and
  \<open>connectToWatchman\<close> fails its assertion.\<close>

lemma watchNode_error_answer_aborts:
  assumes "wc_isConnected c"
    and "writeCommand (at_write1 at) (watch_command (we_time env) (wc_workingDirectory c) path) c = (c, Inr ())"
    and "at_read1 at = [Got (print_raw v)]" "wf_json v" "is_structure v" "json_depth v \<le> 1024" "\<forall>n > 0. we_mem env n"
    and "getObject ''error'' v = Some err"
  shows "watchNode env at path c = (c, Inl (AssertFailed ''!isConnected_''))"
  using assms readAnswer_document [OF assms(4-7), of "at_junk at" c]
  by (simp add: watchNode_def send_command_def ensure_connected_def wm_bind_def wm_try_def throw_error_def connectToWatchman_def)

definition example_client :: watchman_client where
  "example_client = \<lparr>wc_workingDirectory = ''/w'', wc_isConnected = True, wc_socket = 3, wc_socketPath = ''/w/.watchman.socket'',
     wc_logPath = ''/w/.watchman.log'', wc_statePath = ''/w/.watchman.state''\<rparr>"

definition example_env :: wm_env where
  "example_env = \<lparr>we_open1 = Opened 4, we_run = (\<lambda>_. (EXIT_SUCCEEDED, \<lparr>sb_out = [], sb_err = []\<rparr>)), we_open2 = Opened 5,
     we_mem = (\<lambda>_. True), we_time = 1\<rparr>"

lemma writeCommand_all: "length cmd \<le> n \<Longrightarrow> writeCommand [Wrote n] cmd c = (c, Inr ())"
  by (cases cmd) simp_all

lemma watchNode_reconnects_example:
  "\<exists>at. watchNode example_env at ''a.c'' example_client = (example_client\<lparr>wc_socket := 4\<rparr>, Inr ())"
proof -
  let ?cmd = "watch_command (we_time example_env) (wc_workingDirectory example_client) ''a.c''"
  let ?at = "\<lparr>at_write1 = [IoError 32], at_read1 = [], at_write2 = [Wrote (length ?cmd)], at_read2 = [Got (print_raw (JObject []))], at_junk = False\<rparr>"
  have "watchNode example_env ?at ''a.c'' example_client = (example_client\<lparr>wc_socket := 4\<rparr>, Inr ())"
    by (rule watchNode_reconnects [where v = "JObject []" and rs = "[]" and e = 32])
      (simp_all add: writeCommand_all, simp_all add: example_env_def example_client_def EAGAIN_def is_structure_def)
  then show ?thesis by blast
qed

lemma watchNode_error_answer_aborts_witness:
  "\<exists>at. watchNode example_env at ''a.c'' example_client = (example_client, Inl (AssertFailed ''!isConnected_''))"
proof -
  let ?cmd = "watch_command (we_time example_env) (wc_workingDirectory example_client) ''a.c''"
  let ?v = "JObject [(''error'', JString ''no'')]"
  let ?at = "\<lparr>at_write1 = [Wrote (length ?cmd)], at_read1 = [Got (print_raw ?v)], at_write2 = [], at_read2 = [], at_junk = False\<rparr>"
  have "wf_json ?v" by (simp add: string_ok_def utf8_header_table_def)
  then have "watchNode example_env ?at ''a.c'' example_client = (example_client, Inl (AssertFailed ''!isConnected_''))"
    by (intro watchNode_error_answer_aborts [where v = ?v and err = "JString ''no''"])
      (simp_all add: writeCommand_all, simp_all add: example_env_def example_client_def is_structure_def)
  then show ?thesis by blast
qed

end
