(* ===== verification/Daemon.thy ===== *)
theory Daemon
  imports Graph_Reloader Graph_Printers Consistency_Checker Lazy_Cache Stream_Server Watchman_Client
    "HOL-Library.List_Lexorder" "HOL-Library.Char_ord"
begin

text \<open>
  The daemon, \<open>src/src/daemon_instance.cpp\<close>, and the service through which clients call it,
  \<open>src/src/command_server.cpp\<close>.

  The daemon owns the graph, the cache, the stream server, the plan and the builder. The builder holds references to the
  graph, the cache and the stream server: a step of the build thread works on the fields of the daemon. The plan is the
  field of the builder; \<open>d_threadRuns\<close> tells whether its thread has been started and has not returned. A call of a client
  returns a new state together with a value or an exception, because what is left in the daemon after an exception
  matters. An exception thrown from inside another component leaves graph, cache and disk in a state that the model of
  that component does not describe; it is the arbitrary \<open>de_left\<close> of the environment.

  \<open>FALCON_CHECK_GRAPH_CONSISTENCY\<close> is empty without \<open>DEBUG\<close> and is left out, and so is what is only logged.
\<close>

section \<open>Class CommandServer\<close>

text \<open>The server of the Thrift library on a port. What the library does is not modelled: the object is the list of the calls
  that the program made on it. \<open>serve\<close> calls the handler for every request, each client in a thread of its own, and
  returns after \<open>stop\<close> was called; so the rest of \<open>DaemonInstance::start\<close> runs only after that.\<close>

datatype thrift_call = Serve | Stop

record command_server =
  cs_port :: int
  cs_calls :: "thrift_call list"

text \<open>The daemon passes \<open>this\<close>, so the assertion of the handler that its pointer is not null holds.\<close>

definition CommandServer :: "int \<Rightarrow> command_server" where
  "CommandServer port = \<lparr>cs_port = port, cs_calls = []\<rparr>"

definition CommandServer_start :: "command_server \<Rightarrow> command_server" where
  "CommandServer_start cs = cs\<lparr>cs_calls := cs_calls cs @ [Serve]\<rparr>"

definition CommandServer_stop :: "command_server \<Rightarrow> command_server" where
  "CommandServer_stop cs = cs\<lparr>cs_calls := cs_calls cs @ [Stop]\<rparr>"

section \<open>Class DaemonInstance\<close>

datatype StartBuildResult = OK | ERROR | BUSY

datatype FalconStatus = BUILDING | IDLE

datatype service_exn = InvalidBuildError string | TargetNotFound | Failed error

record daemon =
  d_buildId :: "32 word"
  d_graph :: "graph option"
  d_builder :: "builder option"
  d_numThreads :: nat
  d_threadRuns :: bool
  d_watchman :: watchman_client
  d_isBuilding :: bool
  d_server :: stream_server
  d_commandServer :: "command_server option"
  d_cache :: cache_manager
  d_sourcesMissing :: "nid set"
  d_world :: world

type_synonym 'a call = "daemon \<Rightarrow> daemon \<times> (service_exn + 'a)"

text \<open>The configuration, and what the system and the libraries answer during a call; \<open>de_fuel\<close> bounds recursions.\<close>

record daemon_env =
  de_workingDirectory :: string
  de_graphFile :: string
  de_apiPort :: int
  de_streamPort :: "32 word"
  de_socket :: socket_os
  de_sha :: "string \<Rightarrow> string"
  de_alloc :: allocator
  de_mem :: "nat \<Rightarrow> bool"
  de_strerror :: "int \<Rightarrow> string"
  de_git :: "string \<Rightarrow> git_repo"
  de_stat :: "string \<Rightarrow> timestamp option"
  de_watch :: "string \<Rightarrow> exn option"
  de_unwatch :: "string \<Rightarrow> exn option"
  de_wm :: wm_env
  de_wms :: "string \<Rightarrow> wm_env \<times> attempts"
  de_fuel :: nat
  de_left :: "graph \<times> cache_manager \<times> world"
  de_writes :: "write_result list"

definition DaemonInstance :: "string \<Rightarrow> event_notifier \<Rightarrow> cache_manager \<Rightarrow> world \<Rightarrow> daemon result" where
  "DaemonInstance workingDirectory eventFd cache w =
     rbind (WatchmanClient workingDirectory) (\<lambda>wc. Inr
       \<lparr>d_buildId = 0, d_graph = None, d_builder = None, d_numThreads = 0, d_threadRuns = False, d_watchman = wc, d_isBuilding = False,
        d_server = StreamServer (-1) eventFd, d_commandServer = None, d_cache = cache, d_sourcesMissing = {}, d_world = w\<rparr>)"

definition loadConf :: "graph \<Rightarrow> daemon \<Rightarrow> daemon" where
  "loadConf gp d = d\<lparr>d_graph := Some gp\<rparr>"

definition ret :: "'a \<Rightarrow> 'a call" where
  "ret x d = (d, Inr x)"

definition raise_exn :: "service_exn \<Rightarrow> 'a call" where
  "raise_exn e d = (d, Inl e)"

definition bind_call :: "'a call \<Rightarrow> ('a \<Rightarrow> 'b call) \<Rightarrow> 'b call" where
  "bind_call m f d = (case m d of (d, Inl e) \<Rightarrow> (d, Inl e) | (d, Inr x) \<Rightarrow> f x d)"

text \<open>Access to the graph through the pointer, which the constructor leaves null.\<close>

definition with_graph :: "(graph \<Rightarrow> 'a call) \<Rightarrow> 'a call" where
  "with_graph f d = (case d_graph d of None \<Rightarrow> (d, Inl (Failed NullDeref)) | Some g \<Rightarrow> f g d)"

text \<open>An operation of another component on graph, cache and disk.\<close>

definition on_shared :: "daemon_env \<Rightarrow> (hstate \<Rightarrow> ('a \<times> hstate) result) \<Rightarrow> 'a call" where
  "on_shared env f = with_graph (\<lambda>g d.
     case f (g, Some (d_cache d), d_world d) of
       Inl e \<Rightarrow> (case de_left env of (g, cm, w) \<Rightarrow> (d\<lparr>d_graph := Some g, d_cache := cm, d_world := w\<rparr>, Inl (Failed e)))
     | Inr (x, g, cache, w) \<Rightarrow>
         (d\<lparr>d_graph := Some g, d_cache := (case cache of None \<Rightarrow> d_cache d | Some cm \<Rightarrow> cm), d_world := w\<rparr>, Inr x))"

text \<open>An operation of the stream server.\<close>

definition on_server :: "(stream_server \<Rightarrow> stream_server result) \<Rightarrow> unit call" where
  "on_server f d = (case f (d_server d) of Inl e \<Rightarrow> (d, Inl (Failed e)) | Inr s \<Rightarrow> (d\<lparr>d_server := s\<rparr>, Inr ()))"

definition comma_separated :: "string list \<Rightarrow> string" where
  "comma_separated xs = (case xs of [] \<Rightarrow> [] | x # xs \<Rightarrow> x @ concat (map (\<lambda>y. '', '' @ y) xs))"

definition checkSourcesMissing :: "unit call" where
  "checkSourcesMissing = with_graph (\<lambda>g d.
     if d_sourcesMissing d \<noteq> {}
     then raise_exn (InvalidBuildError (''Error, cannot build without: '' @
            comma_separated (map (\<lambda>n. n_path (g_node g n)) (sorted_list_of_set (d_sourcesMissing d))))) d
     else ret () d)"

text \<open>The first statements of \<open>startBuild\<close>, up to the test that no build is running.\<close>

definition startBuild_busy :: "bool call" where
  "startBuild_busy d = (if d_graph d = None then (d, Inl (Failed (AssertFailed ''graph_''))) else (d, Inr (d_isBuilding d)))"

text \<open>A set of strings is visited in lexicographic order.\<close>

definition find_targets :: "string set \<Rightarrow> nid set call" where
  "find_targets targets = with_graph (\<lambda>g.
     if targets = {} then ret (g_roots g)
     else case find (\<lambda>t. Graph_find g t = None) (sorted_list_of_set targets) of
            Some t \<Rightarrow> raise_exn (InvalidBuildError (''Unknown target '' @ t))
          | None \<Rightarrow> ret ((\<lambda>t. the (Graph_find g t)) ` targets))"

text \<open>What the fetched nodes report to the stream server.\<close>

fun event_op :: "consumer_event \<Rightarrow> builder_op" where
  "event_op (NewCommand i c) = OpNewCommand i c"
| "event_op (EndCommand i st) = OpEndCommand i st"
| "event_op (CacheRetrieveAction p) = OpCacheRetrieve p"

definition report :: "daemon_env \<Rightarrow> builder_op list \<Rightarrow> unit call" where
  "report env ops = on_server (foldM (\<lambda>x. perform x (de_writes env)) ops)"

definition lazy_fetch :: "daemon_env \<Rightarrow> nid set \<Rightarrow> unit call" where
  "lazy_fetch env targets =
     bind_call (on_shared env (\<lambda>(g, cache, w).
         case cache of
           None \<Rightarrow> Inl NullDeref
         | Some cm \<Rightarrow> rbind (fetch (de_fuel env) targets (g, (cm, w), [])) (\<lambda>(g, (cm, w), events). Inr (events, g, Some cm, w))))
       (\<lambda>events. report env (map event_op events))"

definition create_builder :: "daemon_env \<Rightarrow> nid set \<Rightarrow> 32 word \<Rightarrow> unit call" where
  "create_builder env targets numThreads = with_graph (\<lambda>g d.
     case BuildPlan (de_fuel env) g targets of
       Inl e \<Rightarrow> (d, Inl (Failed e))
     | Inr p \<Rightarrow> (d\<lparr>d_builder := Some (GraphParallelBuilder g p (Some (d_cache d)) (d_world d)),
                  d_numThreads := unat (scast numThreads :: 64 word), d_threadRuns := True\<rparr>, Inr ()))"

text \<open>The rest of \<open>startBuild\<close>, after the test.\<close>

definition startBuild_rest :: "daemon_env \<Rightarrow> string set \<Rightarrow> 32 word \<Rightarrow> bool \<Rightarrow> StartBuildResult call" where
  "startBuild_rest env targets numThreads lazyFetch =
     bind_call (\<lambda>d. ret () (if cm_policy (d_cache d) = CACHE_GIT_REFS then d\<lparr>d_cache := gitUpdateRef (de_git env) (d_cache d)\<rparr> else d)) (\<lambda>_.
     bind_call checkSourcesMissing (\<lambda>_.
     bind_call (find_targets targets) (\<lambda>targetsToBuild.
     bind_call (\<lambda>d. ret () (d\<lparr>d_isBuilding := True\<rparr>)) (\<lambda>_.
     bind_call (\<lambda>d. report env [OpNewBuild (unat (d_buildId d))] d) (\<lambda>_.
     bind_call (if lazyFetch then lazy_fetch env targetsToBuild else ret ()) (\<lambda>_.
     bind_call (create_builder env targetsToBuild numThreads) (\<lambda>_. ret OK)))))))"

definition startBuild :: "daemon_env \<Rightarrow> string set \<Rightarrow> 32 word \<Rightarrow> bool \<Rightarrow> StartBuildResult call" where
  "startBuild env targets numThreads lazyFetch =
     bind_call startBuild_busy (\<lambda>busy. if busy then ret BUSY else startBuild_rest env targets numThreads lazyFetch)"

definition onBuildCompleted :: "daemon_env \<Rightarrow> BuildResult \<Rightarrow> unit call" where
  "onBuildCompleted env res d =
     (if \<not> d_isBuilding d then (d, Inl (Failed (AssertFailed ''isBuilding_'')))
      else bind_call (report env [OpEndBuild res]) (\<lambda>_ d. ret () (d\<lparr>d_buildId := d_buildId d + 1, d_isBuilding := False\<rparr>)) d)"

definition getStatus :: "FalconStatus call" where
  "getStatus d = ret (if d_isBuilding d then BUILDING else IDLE) d"

definition interruptBuild :: "unit call" where
  "interruptBuild d =
     (case d_builder d of
        None \<Rightarrow> ret () d
      | Some b \<Rightarrow> (case builder_interrupt b of Inl e \<Rightarrow> (d, Inl (Failed e)) | Inr b \<Rightarrow> (d\<lparr>d_builder := Some b\<rparr>, Inr ())))"

definition getDirtySources :: "string set call" where
  "getDirtySources = with_graph (\<lambda>g. ret ((\<lambda>n. n_path (g_node g n)) ` {n \<in> g_sources g. n_state (g_node g n) = OUT_OF_DATE}))"

definition getDirtyTargets :: "string set call" where
  "getDirtyTargets = with_graph (\<lambda>g. ret (set (map (\<lambda>(p, n). n_path (g_node g n)) (filter (\<lambda>(p, n). n_state (g_node g n) = OUT_OF_DATE) (g_nodes g)))))"

definition find_target :: "string \<Rightarrow> (graph \<Rightarrow> nid \<Rightarrow> 'a call) \<Rightarrow> 'a call" where
  "find_target target f = with_graph (\<lambda>g. case Graph_find g target of None \<Rightarrow> raise_exn TargetNotFound | Some n \<Rightarrow> f g n)"

definition getInputsOf :: "string \<Rightarrow> string set call" where
  "getInputsOf target = find_target target (\<lambda>g n.
     ret (case n_child (g_node g n) of None \<Rightarrow> {} | Some r \<Rightarrow> set (map (\<lambda>i. n_path (g_node g i)) (r_inputs (g_rule g r)))))"

definition getOutputsOf :: "string \<Rightarrow> string set call" where
  "getOutputsOf target = find_target target (\<lambda>g n.
     ret (set (concat (map (\<lambda>r. map (\<lambda>m. n_path (g_node g m)) (r_outputs (g_rule g r))) (n_parents (g_node g n))))))"

definition getHashOf :: "string \<Rightarrow> string call" where
  "getHashOf target = find_target target (\<lambda>g n. ret (n_hash (g_node g n)))"

definition getGraphviz :: "string call" where
  "getGraphviz d =
     (case d_graph d of None \<Rightarrow> (d, Inl (Failed (AssertFailed ''graph_''))) | Some g \<Rightarrow> (d, Inr (printGraphGraphviz g)))"

text \<open>Exceptions of the parser and of the cycle check are caught and logged; other failures are not exceptions.\<close>

definition reload_env_of :: "daemon_env \<Rightarrow> graph \<Rightarrow> world \<Rightarrow> reload_env" where
  "reload_env_of env new w =
     \<lparr>re_new = new, re_alloc = de_alloc env, re_sha = de_sha env, re_stat = de_stat env, re_world = w,
      re_watch = de_watch env, re_unwatch = de_unwatch env\<rparr>"

definition reloadGraph :: "daemon_env \<Rightarrow> unit call" where
  "reloadGraph env d =
     (case rbind (processFile (de_mem env) (de_alloc env) (d_world d) (de_graphFile env) Graph_empty)
             (\<lambda>new. rbind (checkGraphLoop (de_strerror env) (de_fuel env) new) (\<lambda>_. Inr new)) of
        Inl (Thrown e) \<Rightarrow> ret () d
      | Inl e \<Rightarrow> raise_exn (Failed e) d
      | Inr new \<Rightarrow>
          on_shared env (\<lambda>(g, cache, w).
            rbind (updateGraph (reload_env_of env new w) (de_fuel env) (GraphReloader g)) (\<lambda>st. Inr ((), rd_graph st, cache, w)))
            (d\<lparr>d_sourcesMissing := {}\<rparr>))"

text \<open>The end of \<open>setDirty\<close>: a source is marked only when its hash changes.\<close>

definition mark_changed :: "daemon_env \<Rightarrow> nid \<Rightarrow> unit call" where
  "mark_changed env n = on_shared env (\<lambda>(g, cache, w).
     case n_child (g_node g n) of
       None \<Rightarrow>
         rbind (recomputeNodeHash (de_sha env) (de_alloc env) (Some (de_watch env)) (de_fuel env) n True True (g, cache, w)) (\<lambda>(changed, g, cache, w).
           if changed then rbind (Node_markDirty (de_fuel env) n g) (\<lambda>g. Inr ((), g, cache, w)) else Inr ((), g, cache, w))
     | Some r \<Rightarrow> rbind (Node_markDirty (de_fuel env) n g) (\<lambda>g. Inr ((), Rule_setState r OUT_OF_DATE g, cache, w)))"

definition setDirty_node :: "daemon_env \<Rightarrow> graph \<Rightarrow> nid \<Rightarrow> unit call" where
  "setDirty_node env g n =
     (case n_child (g_node g n) of
        None \<Rightarrow>
          bind_call (\<lambda>d. ret () (d\<lparr>d_sourcesMissing :=
              (case de_stat env (n_path (g_node g n)) of
                 None \<Rightarrow> if n_explicit (g_node g n) then insert n (d_sourcesMissing d) else d_sourcesMissing d
               | Some t \<Rightarrow> d_sourcesMissing d - {n})\<rparr>))
            (\<lambda>_. mark_changed env n)
      | Some r \<Rightarrow>
          if Rule_isPhony g r
          then on_shared env (\<lambda>(g, cache, w). rbind (Node_markDirty (de_fuel env) n g) (\<lambda>g. Inr ((), g, cache, w)))
          else (case de_stat env (n_path (g_node g n)) of
                  None \<Rightarrow> mark_changed env n
                | Some t \<Rightarrow>
                    if r_timestamp (g_rule g r) \<ge> t \<or> n_lazy (g_node g n) \<and> n_timestamp (g_node g n) \<ge> t then ret ()
                    else mark_changed env n))"

definition setDirty :: "daemon_env \<Rightarrow> string \<Rightarrow> unit call" where
  "setDirty env target =
     (if target = de_graphFile env
      then bind_call (reloadGraph env) (\<lambda>_. with_graph (\<lambda>g d.
             case check (de_fuel env) g of Inl e \<Rightarrow> (d, Inl (Failed e)) | Inr _ \<Rightarrow> ret () d))
      else find_target target (setDirty_node env))"

definition shutdown :: "daemon_env \<Rightarrow> unit call" where
  "shutdown env = with_graph (\<lambda>g d.
     case unwatchGraph (de_wm env) (de_wms env) g (d_watchman d) of
       (wc, Inl e) \<Rightarrow> (d\<lparr>d_watchman := wc\<rparr>, Inl (Failed e))
     | (wc, Inr _) \<Rightarrow>
         bind_call interruptBuild (\<lambda>_ d.
           case d_commandServer d of
             None \<Rightarrow> (d, Inl (Failed (AssertFailed ''commandServer_'')))
           | Some cs \<Rightarrow> (d\<lparr>d_commandServer := Some (CommandServer_stop cs)\<rparr>, Inr ())) (d\<lparr>d_watchman := wc\<rparr>))"

text \<open>The end of \<open>start\<close> up to the call of \<open>serve\<close>: the socket of the stream server is opened, both servers run.\<close>

definition open_servers :: "daemon_env \<Rightarrow> unit call" where
  "open_servers env d =
     (case openPort (de_socket env) (de_streamPort env) (d_server d) of
        (Inl e, closed, s) \<Rightarrow> (d\<lparr>d_server := s\<rparr>, Inl (Failed e))
      | (Inr _, closed, s) \<Rightarrow> (d\<lparr>d_server := s, d_commandServer := Some (CommandServer_start (CommandServer (de_apiPort env)))\<rparr>, Inr ()))"

text \<open>The start of the daemon: exceptions while the files are registered are caught.\<close>

definition daemon_start :: "daemon_env \<Rightarrow> unit call" where
  "daemon_start env d =
     (if d_commandServer d \<noteq> None then (d, Inl (Failed (AssertFailed ''!commandServer_'')))
      else case d_graph d of
        None \<Rightarrow> (d, Inl (Failed (AssertFailed ''graph_'')))
      | Some g \<Rightarrow>
          (case watchGraph (de_wm env) (de_wms env) g (d_watchman d) of
             (wc, Inl (Thrown e)) \<Rightarrow> open_servers env (d\<lparr>d_watchman := wc\<rparr>)
           | (wc, Inl e) \<Rightarrow> (d\<lparr>d_watchman := wc\<rparr>, Inl (Failed e))
           | (wc, Inr _) \<Rightarrow> open_servers env (d\<lparr>d_watchman := wc\<rparr>)))"

text \<open>The rest of \<open>start\<close>, after the command server was stopped: it waits for the build thread, then stops the stream server.\<close>

definition daemon_finish :: "daemon_env \<Rightarrow> unit call" where
  "daemon_finish env d =
     (if d_builder d \<noteq> None \<and> d_threadRuns d then (d, Inl (Failed Blocks)) else on_server (stop (de_writes env)) d)"

section \<open>Class FalconServiceHandler\<close>

text \<open>The calls of the service and what they return.\<close>

datatype service_call =
    GetPid
  | StartBuild "string set" "32 word" bool
  | GetStatus
  | InterruptBuild
  | GetDirtySources
  | GetDirtyTargets
  | GetInputsOf string
  | GetOutputsOf string
  | GetHashOf string
  | SetDirty string
  | Shutdown
  | GetGraphviz

datatype reply = Void | Pid int | Started StartBuildResult | Status FalconStatus | Strings "string set" | Text string

definition reply_with :: "('a \<Rightarrow> reply) \<Rightarrow> 'a call \<Rightarrow> reply call" where
  "reply_with f m = bind_call m (\<lambda>x. ret (f x))"

fun handle_call :: "daemon_env \<Rightarrow> int \<Rightarrow> service_call \<Rightarrow> reply call" where
  "handle_call env pid GetPid = ret (Pid pid)"
| "handle_call env pid (StartBuild targets numThreads lazyFetch) = reply_with Started (startBuild env targets numThreads lazyFetch)"
| "handle_call env pid GetStatus = reply_with Status getStatus"
| "handle_call env pid InterruptBuild = reply_with (\<lambda>_. Void) interruptBuild"
| "handle_call env pid GetDirtySources = reply_with Strings getDirtySources"
| "handle_call env pid GetDirtyTargets = reply_with Strings getDirtyTargets"
| "handle_call env pid (GetInputsOf target) = reply_with Strings (getInputsOf target)"
| "handle_call env pid (GetOutputsOf target) = reply_with Strings (getOutputsOf target)"
| "handle_call env pid (GetHashOf target) = reply_with Text (getHashOf target)"
| "handle_call env pid (SetDirty target) = reply_with (\<lambda>_. Void) (setDirty env target)"
| "handle_call env pid Shutdown = reply_with (\<lambda>_. Void) (shutdown env)"
| "handle_call env pid GetGraphviz = reply_with Text getGraphviz"

section \<open>The build thread\<close>

text \<open>What the consumer of the builder was told during a step: first the output of commands, then the events.\<close>

definition step_ops :: "builder \<Rightarrow> builder \<Rightarrow> builder_op list" where
  "step_ops b b' =
     map (\<lambda>(i, out, buf). OpOutput i buf out) (drop (length (m_written (b_manager b))) (m_written (b_manager b'))) @
     map event_op (drop (length (b_events b)) (b_events b'))"

definition params_of :: "daemon_env \<Rightarrow> daemon \<Rightarrow> build_params" where
  "params_of env d =
     \<lparr>bp_sha = de_sha env, bp_al = de_alloc env, bp_watchman = Some (de_watch env), bp_fuel = de_fuel env,
      bp_workingDirectory = de_workingDirectory env, bp_numThreads = d_numThreads d\<rparr>"

text \<open>A step of the thread, on the graph, the cache and the disk of the daemon.\<close>

definition thread_step :: "daemon_env \<Rightarrow> os_event \<Rightarrow> unit call" where
  "thread_step env e = with_graph (\<lambda>g d.
     case d_builder d of
       None \<Rightarrow> (d, Inl (Failed NullDeref))
     | Some b \<Rightarrow>
         (let b = b\<lparr>b_graph := g, b_cache := Some (d_cache d), b_world := d_world d\<rparr>
          in case build_step (params_of env d) e b of
               Inl x \<Rightarrow> (d, Inl (Failed x))
             | Inr b' \<Rightarrow>
                 report env (step_ops b b')
                   (d\<lparr>d_builder := Some b', d_graph := Some (b_graph b'), d_world := b_world b',
                     d_cache := (case b_cache b' of None \<Rightarrow> d_cache d | Some cm \<Rightarrow> cm)\<rparr>)))"

text \<open>The end of the thread calls \<open>onBuildCompleted\<close>.\<close>

definition thread_end :: "daemon_env \<Rightarrow> unit call" where
  "thread_end env d =
     (case d_builder d of
        None \<Rightarrow> (d, Inl (Failed NullDeref))
      | Some b \<Rightarrow> bind_call (onBuildCompleted env (b_result b)) (\<lambda>_ d. ret () (d\<lparr>d_threadRuns := False\<rparr>)) d)"

section \<open>A source file changed\<close>

lemmas call_defs = ret_def raise_exn_def bind_call_def with_graph_def

text \<open>Marking a source keeps what a build relies on.\<close>

lemma mark_source_strict:
  assumes g: "wf_graph g" "acyclic_graph g" "n \<in> live g" and src: "Node_isSource g n" and st: "strict_states g"
  shows "strict_states (mark_nodes (upward g n) g)"
proof -
  let ?S = "upward g n"
  have 1: "Rule_isDirty g r \<or> r \<in> consumers g ?S"
    if "m \<in> live g" "n_child (g_node g m) = Some r" "m \<in> ?S \<or> Node_isDirty g m" for m r
  proof (cases "m \<in> ?S")
    case True
    moreover have "m \<noteq> n" using that(2) src by (auto simp: Node_isSource_def)
    ultimately show ?thesis using upward_output [OF g] that(2) by fastforce
  qed (use that st in \<open>auto simp: strict_states_def dirty_rules_def\<close>)
  have 2: "m \<in> ?S \<or> Node_isDirty g m"
    if "r \<in> set (g_rules g)" "m \<in> set (r_outputs (g_rule g r))" "Rule_isDirty g r \<or> r \<in> consumers g ?S" for r m
    using that st upward_outputs by (fastforce simp: strict_states_def)
  have 3: "Rule_isDirty g r \<or> r \<in> consumers g ?S"
    if "r \<in> set (g_rules g)" "m \<in> set (r_inputs (g_rule g r))" "m \<in> ?S \<or> Node_isDirty g m" "\<not> Node_isSource g m" for r m
    using that st wf_input [OF g(1)] by (fastforce simp: strict_states_def consumers_def)
  have rd: "Rule_isDirty (mark_nodes ?S g) r \<longleftrightarrow> Rule_isDirty g r \<or> r \<in> consumers g ?S" for r
    by (simp add: mark_nodes_def Rule_isDirty_def)
  show ?thesis using 1 2 3 unfolding strict_states_def dirty_rules_def rd by (simp add: mark_nodes_def)
qed

lemma mark_source_inv:
  assumes "graph_inv g" "n \<in> live g" "Node_isSource g n"
  shows "graph_inv (mark_nodes (upward g n) g)"
proof -
  have g: "wf_graph g" "acyclic_graph g" "counters_ok g" "strict_states g" "\<forall>q. r_depfile (g_rule g q) = []"
    using assms(1) by (simp_all add: graph_inv_def)
  show ?thesis unfolding graph_inv_def
    using g mark_nodes_counters [OF g(1,3) upward_live [OF g(1,2) assms(2)]] mark_source_strict [OF g(1,2) assms(2,3) g(4)]
    by (simp add: mark_nodes_def) (simp add: mark_def)
qed

lemma mark_hashes: "hashes_ok sha w (mark S R E g) = hashes_ok sha w g"
  by (simp add: hashes_ok_def node_hash_ok_def rule_hash_ok_def node_hash_def node_hashDepfile_def rule_hash_def rule_hashDepfile_def
      explicit_inputs_def cong: option.case_cong)

text \<open>The result of \<open>recomputeNodeHash\<close> for a source tells whether its hash changed.\<close>

lemma recompute_flag:
  assumes "recomputeNodeHash sha al wm k n True True (g, c, w) = Inr (b, g', c', w')" and "n_child (g_node g n) = None"
  shows "b \<longleftrightarrow> n_hash (g_node g n) \<noteq> node_hash sha w g n"
  using assms by (cases k) (auto simp: updateNodeHash_def node_hash_def Let_def Hasher_get_def Hasher_add_def Hasher_def Node_setHash_def
      upd_node_def rbind_def assert_that_def split: if_splits sum.splits)

lemma mark_changed_source:
  assumes g: "d_graph d = Some g" "graph_inv g" "hashes_ok (de_sha env) w g" "\<forall>x. de_sha env x \<noteq> []"
    and n: "n \<in> live g" "n_child (g_node g n) = None"
    and same: "\<forall>m \<in> live g. n_child (g_node g m) = None \<and> m \<noteq> n \<longrightarrow>
      ifstream_read (d_world d) (n_path (g_node g m)) = ifstream_read w (n_path (g_node g m))"
    and k: "2 * length (g_nodes g) \<le> de_fuel env"
  shows "\<exists>g'. mark_changed env n d = (d\<lparr>d_graph := Some g'\<rparr>, Inr ()) \<and> graph_inv g' \<and> hashes_ok (de_sha env) (d_world d) g' \<and>
     (\<forall>m. Node_isDirty g' m \<longleftrightarrow> Node_isDirty g m \<or> n_hash (g_node g' n) \<noteq> n_hash (g_node g n) \<and> m \<in> upward g n) \<and>
     (\<forall>r. Rule_isDirty g' r \<longleftrightarrow> Rule_isDirty g r \<or> n_hash (g_node g' n) \<noteq> n_hash (g_node g n) \<and> r \<in> consumers g (upward g n))"
proof -
  have inv: "wf_graph g" "acyclic_graph g" "\<forall>q. r_depfile (g_rule g q) = []" using g(2) by (simp_all add: graph_inv_def)
  let ?rec = "recomputeNodeHash (de_sha env) (de_alloc env) (Some (de_watch env)) (de_fuel env) n True True (g, Some (d_cache d), d_world d)"
  obtain b g1 where rec: "?rec = Inr (b, g1, Some (d_cache d), d_world d)" "shape g1 = shape g" "hashes_ok (de_sha env) (d_world d) g1"
    using recompute_repairs [OF inv g(4) g(3) n(1) same k, of "de_alloc env" "Some (de_watch env)" "Some (d_cache d)"] by auto
  have "n_hash (g_node g1 n) = node_hash (de_sha env) (d_world d) g1 n"
    using rec(3) n(1) shape_live [OF rec(2)] by (auto simp: hashes_ok_def node_hash_ok_def)
  then have b: "b \<longleftrightarrow> n_hash (g_node g1 n) \<noteq> n_hash (g_node g n)"
    using recompute_flag [OF rec(1) n(2)] n(2) by (auto simp: node_hash_def shapeD [OF rec(2)])
  have g1: "graph_inv g1" "n \<in> live g1" "Node_isSource g1 n" "2 * length (g_nodes g1) \<le> de_fuel env"
    using g(2) n k by (simp_all add: shape_graph_inv [OF rec(2)] shape_live [OF rec(2)] Node_isSource_def shapeD [OF rec(2)])
  show ?thesis
  proof (cases b)
    case False
    then have "mark_changed env n d = (d\<lparr>d_graph := Some g1\<rparr>, Inr ())" using g(1) n(2) rec(1) by (simp add: mark_changed_def on_shared_def call_defs)
    then show ?thesis using False b g1(1) rec(3) shape_derived [OF rec(2)] by (intro exI [of _ g1]) simp
  next
    case True
    let ?g = "mark_nodes (upward g1 n) g1"
    have "Node_markDirty (de_fuel env) n g1 = Inr ?g"
      using markDirty_eq [OF _ _ _ g1(2,4)] g1(1) by (simp add: graph_inv_def)
    then have "mark_changed env n d = (d\<lparr>d_graph := Some ?g\<rparr>, Inr ())" using True g(1) n(2) rec(1) by (simp add: mark_changed_def on_shared_def call_defs)
    moreover have "n_hash (g_node ?g n) = n_hash (g_node g1 n)" by (simp add: mark_nodes_def)
    moreover have "Node_isDirty ?g m \<longleftrightarrow> Node_isDirty g m \<or> m \<in> upward g n" for m
      by (simp add: mark_nodes_def shape_derived [OF rec(2)]) blast
    moreover have "Rule_isDirty ?g r \<longleftrightarrow> Rule_isDirty g r \<or> r \<in> consumers g (upward g n)" for r
      by (auto simp: mark_nodes_def Rule_isDirty_def shape_derived [OF rec(2)] shape_stateD [OF rec(2)])
    ultimately show ?thesis using True b mark_source_inv [OF g1(1-3)] rec(3) by (intro exI [of _ ?g]) (simp add: mark_hashes mark_nodes_def)
  qed
qed

lemma Graph_find_in_live: "Graph_find g p = Some n \<Longrightarrow> n \<in> live g"
  by (drule map_of_SomeD [of "g_nodes g", folded Graph_find_def]) (force simp: live_def)

definition missing_after :: "daemon_env \<Rightarrow> graph \<Rightarrow> nid \<Rightarrow> nid set \<Rightarrow> nid set" where
  "missing_after env g n S =
     (if de_stat env (n_path (g_node g n)) \<noteq> None then S - {n} else if n_explicit (g_node g n) then insert n S else S)"

lemma setDirty_source_lemma:
  assumes "d_graph d = Some g" "graph_inv g" "hashes_ok (de_sha env) w g" "\<forall>x. de_sha env x \<noteq> []"
    and "target \<noteq> de_graphFile env" "Graph_find g target = Some n" "n_child (g_node g n) = None"
    and "\<forall>m \<in> live g. n_child (g_node g m) = None \<and> m \<noteq> n \<longrightarrow>
      ifstream_read (d_world d) (n_path (g_node g m)) = ifstream_read w (n_path (g_node g m))"
    and "2 * length (g_nodes g) \<le> de_fuel env"
  shows "\<exists>g'. setDirty env target d = (d\<lparr>d_sourcesMissing := missing_after env g n (d_sourcesMissing d), d_graph := Some g'\<rparr>, Inr ()) \<and>
     graph_inv g' \<and> hashes_ok (de_sha env) (d_world d) g' \<and>
     (\<forall>m. Node_isDirty g' m \<longleftrightarrow> Node_isDirty g m \<or> n_hash (g_node g' n) \<noteq> n_hash (g_node g n) \<and> m \<in> upward g n) \<and>
     (\<forall>r. Rule_isDirty g' r \<longleftrightarrow> Rule_isDirty g r \<or> n_hash (g_node g' n) \<noteq> n_hash (g_node g n) \<and> r \<in> consumers g (upward g n))"
proof -
  let ?d = "d\<lparr>d_sourcesMissing := missing_after env g n (d_sourcesMissing d)\<rparr>"
  have "setDirty env target d = mark_changed env n ?d"
    using assms(1,5-7) by (simp add: setDirty_def find_target_def setDirty_node_def call_defs missing_after_def split: option.split)
  moreover have "d_graph ?d = Some g" "d_world ?d = d_world d" using assms(1) by simp_all
  ultimately show ?thesis
    using mark_changed_source [of ?d g env w n] assms Graph_find_in_live [OF assms(6)] by auto
qed

section \<open>Starting a build\<close>

definition refreshed :: "daemon_env \<Rightarrow> daemon \<Rightarrow> daemon" where
  "refreshed env d = (if cm_policy (d_cache d) = CACHE_GIT_REFS then d\<lparr>d_cache := gitUpdateRef (de_git env) (d_cache d)\<rparr> else d)"

lemma refreshed_sel [simp]:
  "d_graph (refreshed env d) = d_graph d" "d_isBuilding (refreshed env d) = d_isBuilding d" "d_server (refreshed env d) = d_server d"
  "d_buildId (refreshed env d) = d_buildId d" "d_sourcesMissing (refreshed env d) = d_sourcesMissing d" "d_world (refreshed env d) = d_world d"
  "d_builder (refreshed env d) = d_builder d" "d_threadRuns (refreshed env d) = d_threadRuns d" "d_numThreads (refreshed env d) = d_numThreads d"
  by (simp_all add: refreshed_def)

definition chosen_targets :: "graph \<Rightarrow> string set \<Rightarrow> nid set" where
  "chosen_targets g targets = (if targets = {} then g_roots g else {n. \<exists>t \<in> targets. Graph_find g t = Some n})"

lemma find_sorted:
  assumes "finite (A :: string set)"
  shows "find P (sorted_list_of_set A) = (if \<exists>t \<in> A. P t then Some (Min {t \<in> A. P t}) else None)"
proof -
  have "find P xs = (if \<exists>t \<in> set xs. P t then Some (Min {t \<in> set xs. P t}) else None)" if "sorted xs" for xs :: "string list"
    using that
  proof (induction xs)
    case (Cons x xs)
    show ?case
    proof (cases "P x")
      case True
      have "Min {t \<in> set (x # xs). P t} = x" by (rule Min_eqI) (use Cons.prems True in auto)
      then show ?thesis using True by auto
    next
      case False
      then have "{t \<in> set (x # xs). P t} = {t \<in> set xs. P t}" by auto
      then show ?thesis using Cons False by auto
    qed
  qed simp
  from this [of "sorted_list_of_set A"] show ?thesis using assms by simp
qed

lemma find_targets_eq:
  assumes "d_graph d = Some g" "finite targets"
  shows "find_targets targets d =
    (if \<exists>t \<in> targets. Graph_find g t = None then (d, Inl (InvalidBuildError (''Unknown target '' @ Min {t \<in> targets. Graph_find g t = None})))
     else (d, Inr (chosen_targets g targets)))"
proof -
  have "(\<lambda>t. the (Graph_find g t)) ` targets = {n. \<exists>t \<in> targets. Graph_find g t = Some n}" if "\<forall>t \<in> targets. Graph_find g t \<noteq> None"
    using that by force
  then show ?thesis using assms by (auto simp: find_targets_def call_defs find_sorted chosen_targets_def)
qed

lemma create_builder_eq:
  assumes "d_graph d = Some g" "graph_inv g" "T \<subseteq> live g" "length (g_rules g) < de_fuel env"
  shows "create_builder env T numThreads d =
    (d\<lparr>d_builder := Some (GraphParallelBuilder g \<lparr>p_rules = needed_rules g T, p_readyRules = {r \<in> needed_rules g T. Rule_ready g r}, p_numStarted = 0\<rparr>
         (Some (d_cache d)) (d_world d)), d_numThreads := unat (scast numThreads :: 64 word), d_threadRuns := True\<rparr>, Inr ())"
proof -
  have "wf_graph g" "acyclic_graph g" "counters_ok g" "dirty_rules g" using assms(2) by (simp_all add: graph_inv_def strict_states_def)
  from BuildPlan_correct [OF this assms(3,4)] show ?thesis using assms(1) by (simp add: create_builder_def call_defs)
qed

lemma chosen_live:
  assumes "wf_graph g"
  shows "chosen_targets g targets \<subseteq> live g"
  using assms Graph_find_in_live by (auto simp: chosen_targets_def wf_graph_def)

lemma startBuild_eq:
  assumes g: "d_graph d = Some g" "graph_inv g" "finite targets" "length (g_rules g) < de_fuel env"
  shows "startBuild env targets numThreads False d =
    (if d_isBuilding d then (d, Inr BUSY)
     else if d_sourcesMissing d \<noteq> {}
     then (refreshed env d, Inl (InvalidBuildError (''Error, cannot build without: '' @
             comma_separated (map (\<lambda>n. n_path (g_node g n)) (sorted_list_of_set (d_sourcesMissing d))))))
     else if \<exists>t \<in> targets. Graph_find g t = None
     then (refreshed env d, Inl (InvalidBuildError (''Unknown target '' @ Min {t \<in> targets. Graph_find g t = None})))
     else case newBuild (unat (d_buildId d)) (de_writes env) (d_server d) of
            Inl e \<Rightarrow> ((refreshed env d)\<lparr>d_isBuilding := True\<rparr>, Inl (Failed e))
          | Inr s \<Rightarrow>
              (let R = needed_rules g (chosen_targets g targets) in
               ((refreshed env d)\<lparr>d_isBuilding := True, d_server := s, d_numThreads := unat (scast numThreads :: 64 word), d_threadRuns := True,
                  d_builder := Some (GraphParallelBuilder g \<lparr>p_rules = R, p_readyRules = {r \<in> R. Rule_ready g r}, p_numStarted = 0\<rparr>
                    (Some (d_cache (refreshed env d))) (d_world d))\<rparr>, Inr OK)))"
proof -
  have wf: "wf_graph g" using g(2) by (simp add: graph_inv_def)
  let ?b = "\<lambda>d. create_builder env (chosen_targets g targets) numThreads d"
  have b: "?b d' = (d'\<lparr>d_builder := Some (GraphParallelBuilder g \<lparr>p_rules = needed_rules g (chosen_targets g targets),
         p_readyRules = {r \<in> needed_rules g (chosen_targets g targets). Rule_ready g r}, p_numStarted = 0\<rparr>
         (Some (d_cache d')) (d_world d')), d_numThreads := unat (scast numThreads :: 64 word), d_threadRuns := True\<rparr>, Inr ())" if "d_graph d' = Some g" for d'
    by (rule create_builder_eq [OF that g(2) chosen_live [OF wf] g(4)])
  have refr: "(if cm_policy (d_cache d) = CACHE_GIT_REFS then d\<lparr>d_cache := gitUpdateRef (de_git env) (d_cache d)\<rparr> else d) = refreshed env d"
    by (simp add: refreshed_def)
  show ?thesis
    using g(1) find_targets_eq [OF _ g(3), of "refreshed env d" g] b
    by (simp add: startBuild_def startBuild_busy_def startBuild_rest_def bind_call_def ret_def refr checkSourcesMissing_def with_graph_def raise_exn_def
        report_def on_server_def Let_def split: sum.split) auto
qed

section \<open>Properties\<close>

text \<open>A system without watchman: the connection fails, and the service cannot be started.\<close>

definition no_watchman :: wm_env where
  "no_watchman = \<lparr>we_open1 = SocketError 2, we_run = (\<lambda>_. (EXIT_FAILED, \<lparr>sb_out = [], sb_err = []\<rparr>)), we_open2 = SocketError 2,
     we_mem = (\<lambda>_. True), we_time = 1\<rparr>"

definition sample_env :: daemon_env where
  "sample_env = \<lparr>de_workingDirectory = ''/'', de_graphFile = ''g.json'', de_apiPort = 4242, de_streamPort = 4343,
     de_socket = \<lparr>so_socket = Inr 5, so_setsockopt = None, so_ioctl = None, so_bind = (\<lambda>_. None), so_listen = None\<rparr>,
     de_sha = tag, de_alloc = some_allocator, de_mem = (\<lambda>_. True),
     de_strerror = (\<lambda>_. []), de_git = example_git, de_stat = (\<lambda>_. None), de_watch = (\<lambda>_. None), de_unwatch = (\<lambda>_. None),
     de_wm = no_watchman,
     de_wms = (\<lambda>_. (no_watchman, \<lparr>at_write1 = [], at_read1 = [], at_write2 = [], at_read2 = [], at_junk = False\<rparr>)), de_fuel = 6, de_left = (Graph_empty, example_plain, empty_world), de_writes = [Written]\<rparr>"

definition example_daemon :: "graph \<Rightarrow> world \<Rightarrow> daemon" where
  "example_daemon g w =
     \<lparr>d_buildId = 0, d_graph = Some g, d_builder = None, d_numThreads = 0, d_threadRuns = False,
      d_watchman = \<lparr>wc_workingDirectory = ''/'', wc_isConnected = False, wc_socket = -1, wc_socketPath = ''//.watchman.socket'',
        wc_logPath = ''//.watchman.log'', wc_statePath = ''//.watchman.state''\<rparr>, d_isBuilding = False,
      d_server = StreamServer 5 example_event, d_commandServer = Some \<lparr>cs_port = 4242, cs_calls = [Serve]\<rparr>, d_cache = example_plain,
      d_sourcesMissing = {}, d_world = w\<rparr>"

lemma example_daemon_started:
  "\<exists>d. DaemonInstance ''/'' example_event example_plain w = Inr d \<and> daemon_start sample_env (loadConf g d) = (example_daemon g w, Inr ())"
  by (simp add: DaemonInstance_def WatchmanClient_def UNIX_PATH_MAX_def assert_that_def loadConf_def daemon_start_def watchGraph_def wm_bind_def
      wm_try_def ensure_connected_def connectToWatchman_def openWatchmanSocket_def startWatchmanInstance_def sample_env_def no_watchman_def throw_error_def
      open_servers_def openPort_def StreamServer_def CommandServer_def CommandServer_start_def example_daemon_def Let_def)

lemma example_daemon_sel [simp]:
  "d_graph (example_daemon g w) = Some g" "d_world (example_daemon g w) = w" "\<not> d_isBuilding (example_daemon g w)"
  "d_sourcesMissing (example_daemon g w) = {}" "d_buildId (example_daemon g w) = 0" "d_server (example_daemon g w) = example_server"
  "d_cache (example_daemon g w) = example_plain" "refreshed env (example_daemon g w) = example_daemon g w"
  by (simp_all add: example_daemon_def example_server_def refreshed_def example_plain_def)

lemma chain_inv: "graph_inv chain_graph" "graph_inv hashed_chain"
proof -
  have "\<forall>n \<in> live chain_graph. \<not> n_lazy (g_node chain_graph n)" by (simp add: chain_ok(3)) (simp add: chain_defs)
  moreover have "\<forall>q. r_depfile (g_rule chain_graph q) = []" by (simp add: chain_defs)
  ultimately show "graph_inv chain_graph"
    using state_ok_strict [OF chain_ok(2) _ chain_wf] chain_wf chain_acyclic chain_ok(1) by (simp add: graph_inv_def)
  then show "graph_inv hashed_chain" by (simp add: shape_graph_inv [OF hashed_chain_shape])
qed

text \<open>C10. When a client reports that a source file changed, the daemon marks exactly what has to be built again. Let the graph
  satisfy what a build relies on, let all hashes be right for the old disk, and let no other source file have changed.
  Then \<open>setDirty\<close> returns; all hashes are right for the new disk; if the hash of the file changed, the nodes and rules
  built from it become out of date, directly or not, and nothing else does; if it did not change, nothing becomes out of
  date; what a build relies on still holds. The file is remembered as missing exactly if it cannot be examined and is an
  explicit dependency; no other part of the daemon changes.\<close>

theorem setDirty_source:
  assumes "d_graph d = Some g" "graph_inv g" "hashes_ok (de_sha env) w g" "\<forall>x. de_sha env x \<noteq> []"
    and "target \<noteq> de_graphFile env" "Graph_find g target = Some n" "n_child (g_node g n) = None"
    and "\<forall>m \<in> live g. n_child (g_node g m) = None \<and> m \<noteq> n \<longrightarrow>
      ifstream_read (d_world d) (n_path (g_node g m)) = ifstream_read w (n_path (g_node g m))"
    and "2 * length (g_nodes g) \<le> de_fuel env"
  shows "\<exists>g'. setDirty env target d = (d\<lparr>d_sourcesMissing := missing_after env g n (d_sourcesMissing d), d_graph := Some g'\<rparr>, Inr ()) \<and>
     graph_inv g' \<and> hashes_ok (de_sha env) (d_world d) g' \<and>
     (\<forall>m. Node_isDirty g' m \<longleftrightarrow> Node_isDirty g m \<or> n_hash (g_node g' n) \<noteq> n_hash (g_node g n) \<and> m \<in> upward g n) \<and>
     (\<forall>r. Rule_isDirty g' r \<longleftrightarrow> Rule_isDirty g r \<or> n_hash (g_node g' n) \<noteq> n_hash (g_node g n) \<and> r \<in> consumers g (upward g n))"
  by (rule setDirty_source_lemma [OF assms])

theorem setDirty_source_witness:
  "\<exists>g'. setDirty sample_env ''a'' (example_daemon hashed_chain (file_world ''y'')) =
     ((example_daemon hashed_chain (file_world ''y''))\<lparr>d_sourcesMissing := missing_after sample_env hashed_chain 1 {}, d_graph := Some g'\<rparr>, Inr ()) \<and>
     graph_inv g' \<and> hashes_ok tag (file_world ''y'') g'"
proof -
  have n: "Graph_find hashed_chain ''a'' = Some 1" "n_child (g_node hashed_chain 1) = None" "length (g_nodes hashed_chain) = 3"
    by (simp_all add: Graph_find_def shapeD [OF hashed_chain_shape]) (simp_all add: chain_defs)
  have "m = 1" if "m \<in> live hashed_chain" "n_child (g_node hashed_chain m) = None" for m
    using that by (auto simp: shapeD [OF hashed_chain_shape] shape_live [OF hashed_chain_shape] chain_ok(3)) (simp_all add: chain_defs)
  then have same: "\<forall>m \<in> live hashed_chain. n_child (g_node hashed_chain m) = None \<and> m \<noteq> 1 \<longrightarrow>
      ifstream_read (d_world (example_daemon hashed_chain (file_world ''y''))) (n_path (g_node hashed_chain m)) =
      ifstream_read (file_world ''x'') (n_path (g_node hashed_chain m))" by blast
  show ?thesis
    using setDirty_source [of "example_daemon hashed_chain (file_world ''y'')" hashed_chain sample_env "file_world ''x''" "''a''" 1, OF _ chain_inv(2) _ _ _ n(1,2) same]
      hashed_chain_ok n(3) by (simp add: sample_env_def tag_def) blast
qed

text \<open>C11. What \<open>startBuild\<close> does, in every case (without lazy fetching). While a build runs the client is told so and nothing
  changes. If a source file is missing, or a target is not in the graph, an error names the missing files, or the first
  unknown target in lexicographic order, and no build is started. Otherwise the build is announced to the clients of the
  stream server under its number, and a builder is created whose plan holds exactly the rules that the targets need, with
  the ready ones; no targets means all roots. If the announcement fails, the daemon stays busy for ever: nothing resets
  the flag.\<close>

theorem startBuild_behaviour:
  assumes "d_graph d = Some g" "graph_inv g" "finite targets" "length (g_rules g) < de_fuel env"
  shows "startBuild env targets numThreads False d =
    (if d_isBuilding d then (d, Inr BUSY)
     else if d_sourcesMissing d \<noteq> {}
     then (refreshed env d, Inl (InvalidBuildError (''Error, cannot build without: '' @
             comma_separated (map (\<lambda>n. n_path (g_node g n)) (sorted_list_of_set (d_sourcesMissing d))))))
     else if \<exists>t \<in> targets. Graph_find g t = None
     then (refreshed env d, Inl (InvalidBuildError (''Unknown target '' @ Min {t \<in> targets. Graph_find g t = None})))
     else case newBuild (unat (d_buildId d)) (de_writes env) (d_server d) of
            Inl e \<Rightarrow> ((refreshed env d)\<lparr>d_isBuilding := True\<rparr>, Inl (Failed e))
          | Inr s \<Rightarrow>
              (let R = needed_rules g (chosen_targets g targets) in
               ((refreshed env d)\<lparr>d_isBuilding := True, d_server := s, d_numThreads := unat (scast numThreads :: 64 word), d_threadRuns := True,
                  d_builder := Some (GraphParallelBuilder g \<lparr>p_rules = R, p_readyRules = {r \<in> R. Rule_ready g r}, p_numStarted = 0\<rparr>
                    (Some (d_cache (refreshed env d))) (d_world d))\<rparr>, Inr OK)))"
  by (rule startBuild_eq [OF assms])

theorem startBuild_behaviour_witness:
  "startBuild sample_env {''z''} 1 False (example_daemon chain_graph empty_world) =
     (example_daemon chain_graph empty_world, Inl (InvalidBuildError ''Unknown target z'')) \<and>
   snd (startBuild sample_env {} 1 False (example_daemon chain_graph empty_world)) = Inr OK"
proof -
  have z: "{t \<in> {''z''}. Graph_find chain_graph t = None} = {''z''}" and l: "length (g_rules chain_graph) < de_fuel sample_env"
    by (auto simp: Graph_find_def chain_defs sample_env_def)
  have "\<exists>t \<in> {''z''}. Graph_find chain_graph t = None" using z by blast
  then have "startBuild sample_env {''z''} 1 False (example_daemon chain_graph empty_world) =
     (example_daemon chain_graph empty_world, Inl (InvalidBuildError ''Unknown target z''))"
    by (subst startBuild_behaviour [OF example_daemon_sel(1) chain_inv(1) _ l]) (simp_all only: example_daemon_sel z, simp_all)
  moreover obtain s where "newBuild 0 [Written] example_server = Inr s" using example_build(1) by blast
  then have "snd (startBuild sample_env {} 1 False (example_daemon chain_graph empty_world)) = Inr OK"
    by (subst startBuild_behaviour [OF example_daemon_sel(1) chain_inv(1) _ l]) (simp_all add: sample_env_def Let_def)
  ultimately show ?thesis by simp
qed

end
