(* ===== verification/Daemon_Protocol.thy ===== *)
theory Daemon_Protocol
  imports Daemon
begin

text \<open>
  All interleavings of clients, the build thread and the thread of the stream server, and what they keep.
\<close>

section \<open>The front of the list of builds\<close>

definition front :: "stream_server \<Rightarrow> (nat \<times> bool \<times> bool) option" where
  "front s = (case ss_builds s of [] \<Rightarrow> None | (h, b) # _ \<Rightarrow> Some (bi_id b, bi_completed b, bi_firstChunk b))"

definition same_front :: "stream_server \<Rightarrow> stream_server \<Rightarrow> bool" where
  "same_front s s' \<longleftrightarrow> front s' = front s \<and> ss_newBuilds s' = ss_newBuilds s"

lemma same_front_simps [simp]:
  "same_front s s" "same_front s (s'\<lparr>ss_fds := x\<rparr>) = same_front s s'" "same_front s (s'\<lparr>ss_waiting := x\<rparr>) = same_front s s'"
  "same_front s (s'\<lparr>ss_map := y\<rparr>) = same_front s s'" "same_front s (s'\<lparr>ss_event := en\<rparr>) = same_front s s'"
  "same_front s (s'\<lparr>ss_sent := z\<rparr>) = same_front s s'" "same_front s (set_client fd c s') = same_front s s'"
  by (simp_all add: same_front_def front_def set_client_def)

lemma same_front_left [simp]:
  "same_front (s\<lparr>ss_fds := x\<rparr>) s' = same_front s s'" "same_front (s\<lparr>ss_waiting := x\<rparr>) s' = same_front s s'"
  "same_front (s\<lparr>ss_sent := z\<rparr>) s' = same_front s s'" "same_front (set_client fd c s) s' = same_front s s'"
  by (simp_all add: same_front_def front_def set_client_def)

lemma same_front_refcount [simp]:
  "same_front s (upd_build h (\<lambda>b. b\<lparr>bi_refcount := f b\<rparr>) s') = same_front s s'"
  "same_front (upd_build h (\<lambda>b. b\<lparr>bi_refcount := f b\<rparr>) s) s' = same_front s s'"
  by (auto simp: same_front_def front_def upd_build_def split: list.splits)

lemma same_front_trans: "same_front s1 s2 \<Longrightarrow> same_front s2 s3 \<Longrightarrow> same_front s1 s3"
  by (simp add: same_front_def)

lemma ongoing_front: "ongoing s \<longleftrightarrow> (\<exists>i fc. front s = Some (i, False, fc))"
  by (auto simp: ongoing_def front_def split: list.splits)

lemma flush_client_front: "flush_client fd s = Inr s' \<Longrightarrow> same_front s s'"
  by (auto simp: flush_client_def find_client_def Let_def assert_that_def split: option.splits if_splits)

lemma notifyPoll_front: "notifyPoll ws s = Inr s' \<Longrightarrow> same_front s s'"
  using notifyPoll_cases [of ws s] by auto

lemma flushWaiting_front:
  assumes "flushWaiting ws s = Inr s'"
  shows "same_front s s'"
proof -
  obtain s1 where s1: "foldM flush_client (ss_waiting s) s = Inr s1" "notifyPoll ws (s1\<lparr>ss_waiting := []\<rparr>) = Inr s'"
    using assms by (auto simp: flushWaiting_def assert_that_def rbind_eq_Inr split: if_splits)
  have "same_front s s1" using foldM_inv [OF s1(1), of "same_front s"] flush_client_front same_front_trans by auto
  then show ?thesis using same_front_trans notifyPoll_front [OF s1(2)] by simp
qed

lemma removeBuild_front:
  assumes "removeBuild h s = Inr s'" "builds_begin s \<noteq> Some h"
  shows "same_front s s'"
  using assms by (auto simp: removeBuild_def assert_that_def same_front_def front_def builds_begin_def split: option.splits if_splits list.splits)

lemma fds_erase_front: "fds_erase it s = Inr s' \<Longrightarrow> same_front s s'"
  by (auto simp: fds_erase_def split: fd_iterator.splits)

lemma closeClient_front:
  assumes "closeClient fd s = Inr s'"
  shows "same_front s s'"
proof -
  obtain c h b where c: "map_of (ss_map s) fd = Some c" "ci_build c = Some h" "build_at s h = Some b"
    using assms by (auto simp: closeClient_def find_client_def split: option.splits)
  let ?s = "upd_build h (\<lambda>b'. b'\<lparr>bi_refcount := bi_refcount b - 1\<rparr>) s"
  obtain s1 s2 where "(if bi_refcount b - 1 = 0 \<and> bi_completed b \<and> builds_begin ?s \<noteq> Some h then removeBuild h ?s else Inr ?s) = Inr s1"
    "fds_erase (ci_itFd c) s1 = Inr s2" "s' = s2\<lparr>ss_map := AList.delete fd (ss_map s2)\<rparr>"
    using assms c by (auto simp: closeClient_def find_client_def Let_def rbind_eq_Inr)
  moreover have "same_front s s1" using calculation(1) removeBuild_front [of h ?s s1] by (simp split: if_splits) auto
  ultimately show ?thesis using fds_erase_front [of "ci_itFd c" s1 s2] same_front_trans by auto
qed

lemma processClient_front:
  assumes "processClient rs fd s = Inr s'"
  shows "same_front s s'"
proof -
  obtain c h b where c: "map_of (ss_map s) fd = Some c" "ci_build c = Some h" "build_at s h = Some b"
    using assms by (auto simp: processClient_def find_client_def split: option.splits)
  obtain pos dt err where sl: "send_loop rs (bi_buf b) (ci_bufPtr c) (ci_bufPtr c) = Inr (pos, dt, err)"
    using assms c by (auto simp: processClient_def find_client_def assert_that_def rbind_eq_Inr split: if_splits)
  show ?thesis using assms c sl
    by (auto simp: processClient_def find_client_def Let_def assert_that_def rbind_eq_Inr split: option.splits if_splits
        dest!: closeClient_front fds_erase_front)
qed

lemma createClient_front: "same_front s (createClient fd s)"
  by (simp add: createClient_def Let_def split: option.split)

text \<open>The thread of the stream server does not change the front.\<close>

lemma act_front: "Stream_Server.act a (s, todo) = Inr (s', todo') \<Longrightarrow> \<not> (\<exists>x ws. a = Builder x ws) \<Longrightarrow> same_front s s'"
  by (cases a) (auto simp: rbind_eq_Inr processClient_front createClient_front)

lemma emit_front:
  assumes "emit f ws s = Inr s'" "ss_builds s = (h, b) # bs" "grows f"
  shows "front s' = Some (bi_id b, bi_completed b, bi_firstChunk (f b))" "ss_newBuilds s' = ss_newBuilds s"
proof -
  obtain t fc where t: "f b = b\<lparr>bi_buf := bi_buf b @ t, bi_firstChunk := fc\<rparr>" using assms(3) unfolding grows_def by blast
  have "same_front (s\<lparr>ss_builds := (h, f b) # bs\<rparr>) s'"
    using assms(1,2) by (auto simp: emit_def upd_front_def dest: flushWaiting_front)
  then show "front s' = Some (bi_id b, bi_completed b, bi_firstChunk (f b))" "ss_newBuilds s' = ss_newBuilds s"
    using t by (simp_all add: same_front_def front_def)
qed

text \<open>What the operations of the builder do to it.\<close>

fun front_after :: "builder_op \<Rightarrow> nat \<times> bool \<times> bool \<Rightarrow> nat \<times> bool \<times> bool" where
  "front_after (OpNewBuild i) _ = (i, False, True)"
| "front_after (OpEndBuild r) (i, c, fc) = (i, True, fc)"
| "front_after (OpNewCommand j cmd) (i, c, fc) = (i, c, False)"
| "front_after (OpCacheRetrieve p) (i, c, fc) = (i, c, False)"
| "front_after x f = f"

lemma perform_front:
  assumes "perform x ws s = Inr s'" "front s = Some f" "permitted x s" "\<not> (\<exists>i. x = OpNewBuild i)"
  shows "front s' = Some (front_after x f) \<and> ss_newBuilds s' = ss_newBuilds s"
proof -
  obtain h b bs where b: "ss_builds s = (h, b) # bs" "f = (bi_id b, bi_completed b, bi_firstChunk b)"
    using assms(2) by (auto simp: front_def split: list.splits)
  have emits: "front s' = Some (bi_id b, bi_completed b, bi_firstChunk (g b)) \<and> ss_newBuilds s' = ss_newBuilds s"
    if "perform x ws s = emit g ws s" "grows g" for g
    using emit_front [OF _ b(1) that(2)] assms(1) that(1) by simp
  show ?thesis
  proof (cases x)
    case (OpEndBuild r)
    define g :: "build_info \<Rightarrow> build_info" where "g = (\<lambda>b. b\<lparr>bi_buf := bi_buf b @ endl @ ''  ],'' @ endl @ ''  '' @ quot @ ''result'' @ quot @ '': '' @ quot @
      toString_BuildResult r @ quot @ endl @ ''}'' @ endl\<rparr>)"
    have "rbind (emit g ws s) (upd_front (\<lambda>b. b\<lparr>bi_completed := True\<rparr>)) = Inr s'"
      using assms(1,3) OpEndBuild b(1) by (simp add: endBuild_def writeBuf_def append_rbind emit_def g_def upd_front_def ongoing_def)
    then obtain s1 where s1: "emit g ws s = Inr s1" "upd_front (\<lambda>b. b\<lparr>bi_completed := True\<rparr>) s1 = Inr s'" by (auto simp: rbind_eq_Inr)
    have "grows g" unfolding g_def by (rule upd_front_append)
    from emit_front [OF s1(1) b(1) this] show ?thesis using s1(2) b(2) OpEndBuild
      by (auto simp: upd_front_def front_def g_def split: list.splits)
  next
    case (OpNewCommand i c)
    then show ?thesis using ops_emit(1) [OF b(1), of i c ws] emits b(2) by fastforce
  next
    case (OpEndCommand i st)
    then show ?thesis using ops_emit(2) [OF b(1), of i st ws] emits b(2) by fastforce
  next
    case (OpOutput i buf out)
    then have "\<not> bi_firstChunk b" using assms(3) b(1) by simp
    then show ?thesis using ops_emit(4) [OF b(1), of i buf out ws] emits b(2) OpOutput by fastforce
  next
    case (OpCacheRetrieve path)
    then show ?thesis using ops_emit(3) [OF b(1), of path ws] emits b(2) by fastforce
  qed (use assms(4) in simp)
qed

lemma newBuild_front:
  assumes "server_inv T s" "\<not> ongoing s" "newBuild i ws s = Inr s'"
  shows "front s' = Some (i, False, True)" "ss_newBuilds s' = Suc (ss_newBuilds s)"
proof -
  have "builds_ok (ss_builds s) (ss_newBuilds s) (map_of (ss_map s))" using assms(1) by (simp add: server_inv_def)
  from newBuild_emit [OF this] assms(2,3) have "flushWaiting ws (s\<lparr>ss_newBuilds := Suc (ss_newBuilds s), ss_builds := (ss_newBuilds s, (BuildInfo i)
     \<lparr>bi_buf := ''{'' @ endl @ ''  '' @ quot @ ''id'' @ quot @ '': '' @ show_nat i @ '','' @ endl @ ''  '' @ quot @ ''cmds'' @ quot @ '': ['' @ endl\<rparr>)
       # keep_builds (ss_builds s)\<rparr>) = Inr s'" by (auto simp: ongoing_def split: list.splits)
  from flushWaiting_front [OF this] show "front s' = Some (i, False, True)" "ss_newBuilds s' = Suc (ss_newBuilds s)"
    by (simp_all add: same_front_def front_def BuildInfo_def)
qed

section \<open>What a step of the builder reports\<close>

lemma readFd_written: "readFd x m = Inr m' \<Longrightarrow> \<exists>outs. m_written m' = m_written m @ outs"
  by (cases x) (auto simp: readFd_def Let_def rbind_eq_Inr split: option.splits if_splits read_event.splits)

lemma foldM_readFd_written: "foldM readFd xs m = Inr m' \<Longrightarrow> \<exists>outs. m_written m' = m_written m @ outs"
  by (erule foldM_inv [where P = "\<lambda>m'. \<exists>outs. m_written m' = m_written m @ outs"]) (fastforce dest: readFd_written)+

lemma run_until_written: "run_until_finished polls m = Inr m' \<Longrightarrow> \<exists>outs. m_written m' = m_written m @ outs"
proof (induction polls arbitrary: m)
  case Nil
  then show ?case by (auto simp: run_until_finished.simps [of "[]"] split: if_splits)
next
  case (Cons res polls)
  show ?case
  proof (cases "m_finished m = []")
    case True
    then obtain m1 where m1: "run res m = Inr m1" "run_until_finished polls m1 = Inr m'"
      using Cons.prems by (auto simp: run_until_finished.simps [of "res # polls"] rbind_eq_Inr)
    have "\<exists>outs. m_written m1 = m_written m @ outs"
      using m1(1) by (auto simp: run_def throw_error_def split: sum.splits dest: foldM_readFd_written)
    then show ?thesis using Cons.IH [OF m1(2)] by auto
  qed (use Cons.prems in \<open>auto simp: run_until_finished.simps [of "res # polls"]\<close>)
qed

lemma waitForNext_written:
  assumes "waitForNext polls st m = Inr (res, m')"
  shows "\<exists>outs. m_written m' = m_written m @ outs"
proof -
  obtain m1 where m1: "run_until_finished polls m = Inr m1"
    using assms by (auto simp: waitForNext_def assert_that_def rbind_eq_Inr split: if_splits)
  have "m_written m' = m_written m1"
    using assms m1 by (cases "m_finished m1") (auto simp: waitForNext_def assert_that_def rbind_eq_Inr Let_def split: if_splits option.splits)
  then show ?thesis using run_until_written [OF m1] by simp
qed

definition same_io :: "builder \<Rightarrow> builder \<Rightarrow> bool" where
  "same_io b b' \<longleftrightarrow> b_manager b' = b_manager b \<and> b_events b' = b_events b"

lemma finish_io:
  "onRuleFinished r b = Inr b' \<Longrightarrow> same_io b b'"
  "loadDepfile P r b = Inr (ok, b') \<Longrightarrow> same_io b b'"
  "saveInCache r b = Inr b' \<Longrightarrow> same_io b b'"
  by (auto simp: onRuleFinished_def loadDepfile_def saveInCache_def same_io_def rbind_eq_Inr Let_def split: if_splits option.splits)

lemma wait_reports:
  assumes "builder_waitForNext P e b = Inr (result, b')"
  shows "\<exists>outs i st. m_written (b_manager b') = m_written (b_manager b) @ outs \<and> b_events b' = b_events b @ [EndCommand i st]"
proof -
  obtain res m where m: "waitForNext (e_polls e) (e_status e) (b_manager b) = Inr (res, m)"
    using assms by (auto simp: builder_waitForNext_def rbind_eq_Inr)
  let ?w = "e_disk e (b_world b)"
  let ?b = "b\<lparr>b_manager := m, b_world := ?w, b_events := b_events b @ [EndCommand (br_cmdId res) (br_status res)],
      b_graph := Rule_setTimestamp (br_rule res) (w_time ?w) (b_graph b)\<rparr>"
  have "same_io ?b b'"
    using assms m by (auto simp: builder_waitForNext_def Let_def rbind_eq_Inr same_io_def split: if_splits dest!: finish_io)
  then show ?thesis using waitForNext_written [OF m] by (auto simp: same_io_def)
qed

lemma buildRule_reports:
  assumes "buildRule P e r b = Inr b'"
  shows "\<exists>es. b_events b' = b_events b @ es \<and> m_written (b_manager b') = m_written (b_manager b) \<and>
     (\<forall>i st. EndCommand i st \<notin> set es) \<and> (es = [] \<longrightarrow> b_manager b' = b_manager b)"
proof (cases "Rule_isPhony (b_graph b) r")
  case True
  then show ?thesis using assms finish_io(1) [of r b b'] by (auto simp: buildRule_def same_io_def)
next
  case False
  let ?b = "b\<lparr>b_world := createDirectories (b_graph b) r (b_world b)\<rparr>"
  obtain restored b1 where b1: "tryBuildRuleFromCache r ?b = Inr (restored, b1)"
    using assms False by (auto simp: buildRule_def rbind_eq_Inr)
  let ?ps = "map (\<lambda>n. n_path (g_node (b_graph b) n)) (r_outputs (g_rule (b_graph b) r))"
  have ev: "b_events b1 = b_events b @ (if restored then map CacheRetrieveAction ?ps else [])" "b_manager b1 = b_manager b"
    using b1 by (auto simp: tryBuildRuleFromCache_def rbind_eq_Inr Let_def split: option.splits if_splits)
  show ?thesis
  proof (cases restored)
    case True
    then have "onRuleFinished r b1 = Inr b'" using assms False b1 by (simp add: buildRule_def)
    then show ?thesis using ev finish_io(1) [of r b1 b'] by (auto simp: same_io_def)
  next
    case no: False
    obtain i m where "addProcess (e_pipes e) r (r_command (g_rule (b_graph b1) r)) (bp_workingDirectory P) (b_manager b1) = Inr (i, m)"
      "b' = b1\<lparr>b_manager := m, b_events := b_events b1 @ [NewCommand i (r_command (g_rule (b_graph b1) r))]\<rparr>"
      using assms False b1 no by (auto simp: buildRule_def rbind_eq_Inr Let_def)
    moreover have "m_written m = m_written (b_manager b1)" using calculation(1) by (auto simp: addProcess_def Let_def assert_that_def rbind_eq_Inr split: if_splits)
    ultimately show ?thesis using ev no by auto
  qed
qed

text \<open>Either a command ended, and its output and its end are reported, or commands are started or outputs restored.\<close>

definition starting :: "builder_op \<Rightarrow> bool" where
  "starting x \<longleftrightarrow> (\<exists>i c. x = OpNewCommand i c) \<or> (\<exists>p. x = OpCacheRetrieve p)"

lemma event_op_starting: "(\<forall>i st. x \<noteq> EndCommand i st) \<Longrightarrow> starting (event_op x)"
  by (cases x) (auto simp: starting_def)

lemma build_step_reports:
  assumes "build_step P e b = Inr b'"
  shows "(0 < nbRunning (b_manager b) \<and> (\<exists>outs i st. step_ops b b' = map (\<lambda>(i, out, buf). OpOutput i buf out) outs @ [OpEndCommand i st])) \<or>
     (\<forall>x \<in> set (step_ops b b'). starting x) \<and> (step_ops b b' = [] \<longrightarrow> b_manager b' = b_manager b)"
proof -
  have wait: ?thesis if "builder_waitForNext P e b = Inr (result, b1)" "same_io b1 b'" "0 < nbRunning (b_manager b)" for result b1
    using wait_reports [OF that(1)] that(2,3) by (auto simp: step_ops_def same_io_def)
  have same: ?thesis if "same_io b b'" using that by (simp add: step_ops_def same_io_def)
  have build: ?thesis if rule: "buildRule P e r (b\<lparr>b_plan := p\<rparr>) = Inr b'" for r p
  proof -
    obtain es where es: "b_events b' = b_events b @ es" "m_written (b_manager b') = m_written (b_manager b)"
      "\<forall>i st. EndCommand i st \<notin> set es" "es = [] \<longrightarrow> b_manager b' = b_manager b"
      using buildRule_reports [OF rule] by auto
    then have "step_ops b b' = map event_op es" by (simp add: step_ops_def)
    moreover have "\<forall>x \<in> set es. starting (event_op x)" using es(3) event_op_starting by metis
    ultimately show ?thesis using es(4) by simp
  qed
  show ?thesis
    using assms wait same build
    by (auto simp: build_step_def rbind_eq_Inr same_io_def split: pc.splits if_splits option.splits prod.splits)
qed

section \<open>Sequences of reports during a build\<close>

lemma reach_server: "Stream_Server.reach T (s, todo) \<Longrightarrow> server_inv T s"
  using reach_inv by (fastforce simp: system_inv_def)

text \<open>Everything but the start and the end of a build; output only after the first chunk.\<close>

definition during :: "bool \<Rightarrow> builder_op \<Rightarrow> bool" where
  "during fc x \<longleftrightarrow> (\<forall>i. x \<noteq> OpNewBuild i) \<and> (\<forall>r. x \<noteq> OpEndBuild r) \<and> (fc \<longrightarrow> (\<forall>i buf out. x \<noteq> OpOutput i buf out))"

lemma during_mono: "during fc x \<Longrightarrow> (fc' \<longrightarrow> fc) \<Longrightarrow> during fc' x"
  by (auto simp: during_def)

text \<open>
  The interface between the daemon and what receives the reports of a build: \<open>phase\<close> is the number of the current build,
  whether it is complete and whether no chunk was reported yet. A report during a build keeps the build and the number of
  builds; one that starts something ends the first phase.
\<close>

locale build_consumer =
  fixes ok :: "'s \<Rightarrow> bool"
    and phase :: "'s \<Rightarrow> (nat \<times> bool \<times> bool) option"
    and count :: "'s \<Rightarrow> nat"
    and tell :: "builder_op \<Rightarrow> 's \<Rightarrow> 's result"
  assumes tell: "ok s \<Longrightarrow> phase s = Some (i, False, fc) \<Longrightarrow> during fc x \<Longrightarrow> tell x s = Inr s' \<Longrightarrow>
    ok s' \<and> count s' = count s \<and> (\<exists>fc'. phase s' = Some (i, False, fc') \<and> (fc' \<longrightarrow> fc \<and> \<not> starting x))"
    and started: "ok s \<Longrightarrow> (\<forall>i fc. phase s \<noteq> Some (i, False, fc)) \<Longrightarrow> tell (OpNewBuild i) s = Inr s' \<Longrightarrow>
      ok s' \<and> count s' = Suc (count s) \<and> phase s' = Some (i, False, True)"
    and ended: "ok s \<Longrightarrow> phase s = Some (i, False, fc) \<Longrightarrow> tell (OpEndBuild r) s = Inr s' \<Longrightarrow>
      ok s' \<and> count s' = count s \<and> phase s' = Some (i, True, fc)"
begin

lemma tell_all:
  assumes "ok s" "phase s = Some (i, False, fc)" "\<forall>x \<in> set ops. during fc x" "foldM tell ops s = Inr s'"
  shows "ok s' \<and> count s' = count s \<and> (\<exists>fc'. phase s' = Some (i, False, fc') \<and> (fc' \<longrightarrow> fc \<and> (\<forall>x \<in> set ops. \<not> starting x)))"
  using assms
proof (induction ops arbitrary: s fc)
  case (Cons x ops)
  obtain s1 where s1: "tell x s = Inr s1" "foldM tell ops s1 = Inr s'" using Cons.prems(4) by (auto simp: rbind_eq_Inr)
  have x: "during fc x" using Cons.prems(3) by simp
  obtain fc1 where f1: "ok s1" "count s1 = count s" "phase s1 = Some (i, False, fc1)" "fc1 \<longrightarrow> fc \<and> \<not> starting x"
    using tell [OF Cons.prems(1,2) x s1(1)] by blast
  have "\<forall>x \<in> set ops. during fc1 x" using Cons.prems(3) f1(4) during_mono by auto
  from Cons.IH [OF f1(1,3) this s1(2)] show ?case using f1 by auto
qed auto

text \<open>A whole build: it is announced, reported on and ended under one number.\<close>

lemma whole_build:
  assumes "ok s" "\<forall>i fc. phase s \<noteq> Some (i, False, fc)" "\<forall>x \<in> set ops. during True x"
    and "foldM tell (OpNewBuild i # ops @ [OpEndBuild r]) s = Inr s'"
  shows "ok s' \<and> count s' = Suc (count s) \<and> (\<exists>fc. phase s' = Some (i, True, fc))"
proof -
  obtain s1 s2 where s: "tell (OpNewBuild i) s = Inr s1" "foldM tell ops s1 = Inr s2" "tell (OpEndBuild r) s2 = Inr s'"
    using assms(4) by (auto simp: foldM_append rbind_eq_Inr)
  have s1: "ok s1" "count s1 = Suc (count s)" "phase s1 = Some (i, False, True)" using started [OF assms(1,2) s(1)] by auto
  obtain fc where s2: "ok s2" "count s2 = count s1" "phase s2 = Some (i, False, fc)" using tell_all [OF s1(1,3) assms(3) s(2)] by blast
  show ?thesis using ended [OF s2(1,3) s(3)] s1(2) s2(2) by auto
qed

end

text \<open>The stream server, in the states that its protocol allows.\<close>

lemma perform_reach:
  assumes "Stream_Server.reach T (s, todo)" "permitted x s" "perform x ws s = Inr s'"
  shows "Stream_Server.reach T (s', todo)"
  using reach.step [OF assms(1), of "Builder x ws" "(s', todo)"] assms(2,3) by simp

interpretation stream: build_consumer "\<lambda>s. Stream_Server.reach T (s, todo)" front ss_newBuilds "\<lambda>x. perform x ws"
proof unfold_locales
  fix s i fc x s'
  assume s: "Stream_Server.reach T (s, todo)" "front s = Some (i, False, fc)" and x: "during fc x" "perform x ws s = Inr s'"
  have perm: "permitted x s" using x(1) s(2) by (cases x) (auto simp: during_def ongoing_front front_def split: list.splits)
  show "Stream_Server.reach T (s', todo) \<and> ss_newBuilds s' = ss_newBuilds s \<and> (\<exists>fc'. front s' = Some (i, False, fc') \<and> (fc' \<longrightarrow> fc \<and> \<not> starting x))"
    using perform_reach [OF s(1) perm x(2)] perform_front [OF x(2) s(2) perm] x(1) by (cases x) (auto simp: during_def starting_def)
next
  fix s i s'
  assume s: "Stream_Server.reach T (s, todo)" "\<forall>i fc. front s \<noteq> Some (i, False, fc)" and x: "perform (OpNewBuild i) ws s = Inr s'"
  have perm: "permitted (OpNewBuild i) s" using s(2) by (simp add: ongoing_front)
  then show "Stream_Server.reach T (s', todo) \<and> ss_newBuilds s' = Suc (ss_newBuilds s) \<and> front s' = Some (i, False, True)"
    using perform_reach [OF s(1) perm x] newBuild_front [OF reach_server [OF s(1)], of i ws s'] x by simp
next
  fix s i fc r s'
  assume s: "Stream_Server.reach T (s, todo)" "front s = Some (i, False, fc)" and x: "perform (OpEndBuild r) ws s = Inr s'"
  have perm: "permitted (OpEndBuild r) s" using s(2) by (simp add: ongoing_front)
  then show "Stream_Server.reach T (s', todo) \<and> ss_newBuilds s' = ss_newBuilds s \<and> front s' = Some (i, True, fc)"
    using perform_reach [OF s(1) perm x] perform_front [OF x s(2) perm] by simp
qed

lemma event_op_during: "during fc (event_op x)"
  by (cases x) (simp_all add: during_def)

section \<open>All interleavings\<close>

text \<open>
  The daemon was made and started. A client calls the service; the build thread runs while it has not returned, and ends with \<open>onBuildCompleted\<close>; the
  thread of the stream server runs in between. A call is one step: clients are assumed not to start builds at the same
  time (below). A call that fails inside of another component ends the run.
\<close>

inductive daemon_reach :: "bool \<Rightarrow> daemon \<times> int list \<Rightarrow> bool" for T where
  init: "DaemonInstance dir en cache w = Inr d \<Longrightarrow> daemon_start env (loadConf g d) = (d', Inr ()) \<Longrightarrow> daemon_reach T (d', [])"
| call: "daemon_reach T (d, todo) \<Longrightarrow> handle_call env pid c d = (d', r) \<Longrightarrow> \<forall>e. r \<noteq> Inl (Failed e) \<Longrightarrow> daemon_reach T (d', todo)"
| thread: "daemon_reach T (d, todo) \<Longrightarrow> d_threadRuns d \<Longrightarrow> thread_step env e d = (d', Inr ()) \<Longrightarrow> daemon_reach T (d', todo)"
| finish: "daemon_reach T (d, todo) \<Longrightarrow> d_threadRuns d \<Longrightarrow> d_builder d = Some b \<Longrightarrow> b_pc b = Done \<Longrightarrow>
    thread_end env d = (d', Inr ()) \<Longrightarrow> daemon_reach T (d', todo)"
| serve: "daemon_reach T (d, todo) \<Longrightarrow> \<not> (\<exists>x ws. a = Builder x ws) \<Longrightarrow> allowed T a (d_server d, todo) \<Longrightarrow>
    Stream_Server.act a (d_server d, todo) = Inr (s, todo') \<Longrightarrow> daemon_reach T (d\<lparr>d_server := s\<rparr>, todo')"

text \<open>The invariant: the stream server is in a state of its own protocol, and the daemon knows whether a build is running.\<close>

definition running_ok :: "daemon \<Rightarrow> bool" where
  "running_ok d \<longleftrightarrow> (\<exists>b fc. d_builder d = Some b \<and> front (d_server d) = Some (unat (d_buildId d), False, fc) \<and>
     (0 < nbRunning (b_manager b) \<longrightarrow> \<not> fc) \<and> ss_newBuilds (d_server d) \<noteq> 0)"

definition protocol_inv :: "bool \<Rightarrow> daemon \<times> int list \<Rightarrow> bool" where
  "protocol_inv T = (\<lambda>(d, todo). Stream_Server.reach T (d_server d, todo) \<and> d_graph d \<noteq> None \<and> d_isBuilding d = ongoing (d_server d) \<and>
     d_threadRuns d = d_isBuilding d \<and> (d_isBuilding d \<longrightarrow> running_ok d) \<and>
     d_buildId d = word_of_nat (ss_newBuilds (d_server d) - (if d_isBuilding d then 1 else 0)))"

text \<open>What the protocol depends on.\<close>

definition same_protocol :: "daemon \<Rightarrow> daemon \<Rightarrow> bool" where
  "same_protocol d d' \<longleftrightarrow> d_server d' = d_server d \<and> d_isBuilding d' = d_isBuilding d \<and> d_threadRuns d' = d_threadRuns d \<and>
     d_buildId d' = d_buildId d \<and> map_option b_manager (d_builder d') = map_option b_manager (d_builder d) \<and> (d_graph d \<noteq> None \<longrightarrow> d_graph d' \<noteq> None)"

lemma same_protocol_inv: "same_protocol d d' \<Longrightarrow> protocol_inv T (d, todo) \<Longrightarrow> protocol_inv T (d', todo)"
  by (auto simp: same_protocol_def protocol_inv_def running_ok_def) blast

lemma same_protocol_refl [simp]: "same_protocol d d"
  by (simp add: same_protocol_def)

lemma same_protocol_trans: "same_protocol d d1 \<Longrightarrow> same_protocol d1 d2 \<Longrightarrow> same_protocol d d2"
  by (simp add: same_protocol_def)

definition quiet :: "'a call \<Rightarrow> bool" where
  "quiet m \<longleftrightarrow> (\<forall>d. same_protocol d (fst (m d)))"

lemma quietD: "quiet m \<Longrightarrow> m d = (d', r) \<Longrightarrow> same_protocol d d'"
  unfolding quiet_def by (metis fst_conv)

lemma quiet_bind [intro]: "quiet m \<Longrightarrow> (\<And>x. quiet (f x)) \<Longrightarrow> quiet (bind_call m f)"
  unfolding quiet_def bind_call_def
proof
  fix d
  assume m: "\<forall>d. same_protocol d (fst (m d))" and f: "\<And>x. \<forall>d. same_protocol d (fst (f x d))"
  show "same_protocol d (fst (case m d of (d, Inl e) \<Rightarrow> (d, Inl e) | (d, Inr x) \<Rightarrow> f x d))"
    using m [rule_format, of d] f same_protocol_trans by (auto split: prod.split sum.split)
qed

lemma quiet_basic [intro, simp]: "quiet (ret x)" "quiet (raise_exn e)"
  by (simp_all add: quiet_def ret_def raise_exn_def)

lemma quiet_with_graph [intro]: "(\<And>g. quiet (f g)) \<Longrightarrow> quiet (with_graph f)"
  by (auto simp: quiet_def with_graph_def split: option.split)

lemma quiet_on_shared [intro, simp]: "quiet (on_shared env f)"
  by (auto simp: quiet_def on_shared_def with_graph_def same_protocol_def split: option.split sum.split prod.split)

lemma quiet_reply [intro]: "quiet m \<Longrightarrow> quiet (reply_with f m)"
  unfolding reply_with_def by (rule quiet_bind) auto

lemma quiet_find_target [intro]: "(\<And>g n. quiet (f g n)) \<Longrightarrow> quiet (find_target p f)"
  unfolding find_target_def by (rule quiet_with_graph) (simp split: option.split)

lemma quiet_missing: "quiet (\<lambda>d. ret () (d\<lparr>d_sourcesMissing := f d\<rparr>))"
  by (simp add: quiet_def ret_def same_protocol_def)

lemma quiet_queries:
  "quiet getStatus" "quiet getDirtySources" "quiet getDirtyTargets" "quiet (getInputsOf p)" "quiet (getOutputsOf p)" "quiet (getHashOf p)"
  "quiet getGraphviz" "quiet checkSourcesMissing" "quiet (find_targets targets)"
  by (auto simp: quiet_def getStatus_def getDirtySources_def getDirtyTargets_def getInputsOf_def getOutputsOf_def getHashOf_def
      getGraphviz_def checkSourcesMissing_def find_targets_def find_target_def call_defs split: option.split if_split)

lemma quiet_interrupt: "quiet interruptBuild"
  by (auto simp: quiet_def interruptBuild_def builder_interrupt_def ret_def same_protocol_def rbind_eq_Inr split: option.split sum.split)

lemma quiet_reload: "quiet (reloadGraph env)"
proof -
  have "same_protocol d (fst (on_shared env f (d\<lparr>d_sourcesMissing := {}\<rparr>)))" for d f
  proof -
    have "same_protocol d (d\<lparr>d_sourcesMissing := {}\<rparr>)" by (simp add: same_protocol_def)
    then show ?thesis using quiet_on_shared same_protocol_trans unfolding quiet_def by blast
  qed
  then show ?thesis by (auto simp: quiet_def reloadGraph_def ret_def raise_exn_def split: sum.split error.split)
qed

lemma quiet_setDirty: "quiet (setDirty env target)"
proof -
  have check: "quiet (with_graph (\<lambda>g d. case check (de_fuel env) g of Inl e \<Rightarrow> (d, Inl (Failed e)) | Inr _ \<Rightarrow> ret () d))"
    by (rule quiet_with_graph) (auto simp: quiet_def ret_def split: sum.split)
  have mark: "quiet (mark_changed env n)" for n by (simp add: mark_changed_def)
  have "quiet (setDirty_node env g n)" for g n
    unfolding setDirty_node_def using mark by (auto simp: quiet_missing split: option.split)
  then show ?thesis unfolding setDirty_def using check quiet_reload by auto
qed

lemma quiet_shutdown: "quiet (shutdown env)"
proof -
  let ?stop = "bind_call interruptBuild (\<lambda>_ d. case d_commandServer d of None \<Rightarrow> (d, Inl (Failed (AssertFailed ''commandServer_'')))
      | Some cs \<Rightarrow> (d\<lparr>d_commandServer := Some (CommandServer_stop cs)\<rparr>, Inr ()))"
  have "quiet ?stop" by (rule quiet_bind [OF quiet_interrupt]) (simp add: quiet_def same_protocol_def split: option.split)
  then have stop: "same_protocol d (fst (?stop (d\<lparr>d_watchman := wc\<rparr>)))" for d wc
    using same_protocol_trans [of d "d\<lparr>d_watchman := wc\<rparr>"] by (simp add: quiet_def) (simp add: same_protocol_def)
  show ?thesis unfolding shutdown_def
  proof (rule quiet_with_graph)
    fix g
    show "quiet (\<lambda>d. case unwatchGraph (de_wm env) (de_wms env) g (d_watchman d) of
        (wc, Inl e) \<Rightarrow> (d\<lparr>d_watchman := wc\<rparr>, Inl (Failed e)) | (wc, Inr _) \<Rightarrow> ?stop (d\<lparr>d_watchman := wc\<rparr>))"
      using stop by (simp add: quiet_def same_protocol_def split: sum.split prod.split)
  qed
qed

lemmas quiet_calls = quiet_queries quiet_interrupt quiet_setDirty quiet_shutdown

section \<open>Every step keeps the invariant\<close>

lemma bind_callE:
  assumes "bind_call m f d = (d', r)"
  obtains e where "m d = (d', Inl e)" "r = Inl e" | x d1 where "m d = (d1, Inr x)" "f x d1 = (d', r)"
  using assms by (auto simp: bind_call_def split: prod.splits sum.splits)

lemma bind_update: "bind_call (\<lambda>d. ret () (h d)) f d = f () (h d)"
  by (simp add: bind_call_def ret_def)

text \<open>While a build is being prepared: it is announced, but there is no thread yet.\<close>

definition preparing :: "bool \<Rightarrow> int list \<Rightarrow> daemon \<Rightarrow> bool" where
  "preparing T todo d \<longleftrightarrow> Stream_Server.reach T (d_server d, todo) \<and> d_graph d \<noteq> None \<and> d_isBuilding d \<and> \<not> d_threadRuns d \<and>
     (\<exists>fc. front (d_server d) = Some (unat (d_buildId d), False, fc)) \<and>
     ss_newBuilds (d_server d) \<noteq> 0 \<and> d_buildId d = word_of_nat (ss_newBuilds (d_server d) - 1)"

lemma announce_prepares:
  assumes inv: "protocol_inv T (d, todo)" "\<not> d_isBuilding d"
    and step: "report env [OpNewBuild (unat (d_buildId d))] (d\<lparr>d_isBuilding := True\<rparr>) = (d', Inr ())"
  shows "preparing T todo d'"
proof -
  have r: "Stream_Server.reach T (d_server d, todo)" "\<not> ongoing (d_server d)" using inv by (simp_all add: protocol_inv_def)
  obtain s where s: "newBuild (unat (d_buildId d)) (de_writes env) (d_server d) = Inr s" "d' = d\<lparr>d_isBuilding := True, d_server := s\<rparr>"
    using step by (auto simp: report_def on_server_def rbind_eq_Inr split: sum.splits)
  then show ?thesis using stream.started [OF r(1), of "unat (d_buildId d)" "de_writes env" s] r(2) inv
    by (auto simp: preparing_def protocol_inv_def ongoing_front)
qed

lemma fetch_prepares:
  assumes "preparing T todo d" "(if lazyFetch then lazy_fetch env targets else ret ()) d = (d', r)" "\<forall>e. r \<noteq> Inl (Failed e)"
  shows "preparing T todo d' \<and> (\<exists>x. r = Inr x)"
proof (cases lazyFetch)
  case True
  let ?f = "\<lambda>(g, cache, w). case cache of None \<Rightarrow> Inl NullDeref
      | Some cm \<Rightarrow> rbind (fetch (de_fuel env) targets (g, (cm, w), [])) (\<lambda>(g, (cm, w), events). Inr (events, g, Some cm, w))"
  from assms(2) True have "bind_call (on_shared env ?f) (\<lambda>events. report env (map event_op events)) d = (d', r)" by (simp add: lazy_fetch_def)
  then show ?thesis
  proof (cases rule: bind_callE)
    case (1 e)
    then show ?thesis using assms(3) by (auto simp: on_shared_def with_graph_def split: option.splits sum.splits prod.splits)
  next
    case (2 events d1)
    have same: "same_protocol d d1" by (rule quietD [OF quiet_on_shared 2(1)])
    obtain s where s: "foldM (\<lambda>x. perform x (de_writes env)) (map event_op events) (d_server d1) = Inr s" "d' = d1\<lparr>d_server := s\<rparr>" "r = Inr ()"
      using 2(2) assms(3) by (auto simp: report_def on_server_def split: sum.splits)
    obtain fc where fc: "front (d_server d) = Some (unat (d_buildId d), False, fc)" using assms(1) by (auto simp: preparing_def)
    have "\<forall>x \<in> set (map event_op events). during fc x" by (auto simp: event_op_during)
    from stream.tell_all [OF _ _ this s(1), of T todo] fc same assms(1) show ?thesis using s by (auto simp: preparing_def same_protocol_def)
  qed
qed (use assms(1,2) in \<open>auto simp: ret_def\<close>)

lemma create_runs:
  assumes "preparing T todo d" "create_builder env targets k d = (d', r)" "\<forall>e. r \<noteq> Inl (Failed e)"
  shows "protocol_inv T (d', todo)"
proof -
  obtain g p where "d_graph d = Some g" "BuildPlan (de_fuel env) g targets = Inr p"
    "d' = d\<lparr>d_builder := Some (GraphParallelBuilder g p (Some (d_cache d)) (d_world d)), d_numThreads := unat (scast k :: 64 word), d_threadRuns := True\<rparr>"
    using assms by (auto simp: create_builder_def with_graph_def preparing_def split: option.splits sum.splits)
  then show ?thesis using assms(1) by (auto simp: preparing_def protocol_inv_def running_ok_def ongoing_front GraphParallelBuilder_def
        PosixSubProcessManager_def nbRunning_def)
qed

lemma quiet_bind_keeps:
  assumes step: "bind_call m f d = (d', r)" and m: "quiet m" and inv: "protocol_inv T (d, todo)" "\<not> d_isBuilding d"
    and f: "\<And>x d1. protocol_inv T (d1, todo) \<Longrightarrow> \<not> d_isBuilding d1 \<Longrightarrow> f x d1 = (d', r) \<Longrightarrow> protocol_inv T (d', todo)"
  shows "protocol_inv T (d', todo)"
proof -
  have keep: "protocol_inv T (d1, todo)" "\<not> d_isBuilding d1" if "m d = (d1, x)" for d1 x
    using quietD [OF m that] inv same_protocol_inv by (auto simp: same_protocol_def)
  from step show ?thesis by (rule bind_callE) (use keep f in auto)
qed

lemma startBuild_keeps:
  assumes inv: "protocol_inv T (d, todo)" and step: "startBuild env targets k lazyFetch d = (d', r)" and r: "\<forall>e. r \<noteq> Inl (Failed e)"
  shows "protocol_inv T (d', todo)"
proof -
  obtain g where g: "d_graph d = Some g" using inv by (auto simp: protocol_inv_def)
  show ?thesis
  proof (cases "d_isBuilding d")
    case True
    then show ?thesis using step inv g by (simp add: startBuild_def startBuild_busy_def call_defs)
  next
    case False
    then have rest: "startBuild_rest env targets k lazyFetch d = (d', r)" using step g by (simp add: startBuild_def startBuild_busy_def bind_call_def)
    have q: "quiet (\<lambda>d. ret () (if cm_policy (d_cache d) = CACHE_GIT_REFS then d\<lparr>d_cache := gitUpdateRef (de_git env) (d_cache d)\<rparr> else d))"
      by (simp add: quiet_def ret_def same_protocol_def)
    from rest show ?thesis unfolding startBuild_rest_def
    proof (rule quiet_bind_keeps [OF _ q inv False])
      fix d1 assume d1: "protocol_inv T (d1, todo)" "\<not> d_isBuilding d1"
      let ?B = "\<lambda>T. bind_call (create_builder env T k) (\<lambda>_. ret OK)"
      let ?F = "\<lambda>T. bind_call (if lazyFetch then lazy_fetch env T else ret ()) (\<lambda>_. ?B T)"
      let ?N = "\<lambda>T. bind_call (\<lambda>d. report env [OpNewBuild (unat (d_buildId d))] d) (\<lambda>_. ?F T)"
      assume "bind_call checkSourcesMissing (\<lambda>_. bind_call (find_targets targets) (\<lambda>T. bind_call (\<lambda>d. ret () (d\<lparr>d_isBuilding := True\<rparr>)) (\<lambda>_. ?N T))) d1 = (d', r)"
      then show "protocol_inv T (d', todo)"
      proof (rule quiet_bind_keeps [OF _ quiet_queries(8) d1])
        fix d2 assume d2: "protocol_inv T (d2, todo)" "\<not> d_isBuilding d2"
        assume "bind_call (find_targets targets) (\<lambda>T. bind_call (\<lambda>d. ret () (d\<lparr>d_isBuilding := True\<rparr>)) (\<lambda>_. ?N T)) d2 = (d', r)"
        then show "protocol_inv T (d', todo)"
        proof (rule quiet_bind_keeps [OF _ quiet_queries(9) d2])
          fix T0 d3 assume d3: "protocol_inv T (d3, todo)" "\<not> d_isBuilding d3"
            and N: "bind_call (\<lambda>d. ret () (d\<lparr>d_isBuilding := True\<rparr>)) (\<lambda>_. ?N T0) d3 = (d', r)"
          have "?N T0 (d3\<lparr>d_isBuilding := True\<rparr>) = (d', r)" using N by (simp only: bind_update)
          then obtain d4 where d4: "report env [OpNewBuild (unat (d_buildId d3))] (d3\<lparr>d_isBuilding := True\<rparr>) = (d4, Inr ())" "?F T0 d4 = (d', r)"
            by (rule bind_callE) (use r in \<open>auto simp: report_def on_server_def split: sum.splits\<close>)
          have p4: "preparing T todo d4" by (rule announce_prepares [OF d3 d4(1)])
          from d4(2) obtain d5 where d5: "preparing T todo d5" "?B T0 d5 = (d', r)"
          proof (rule bind_callE)
            fix e assume "(if lazyFetch then lazy_fetch env T0 else ret ()) d4 = (d', Inl e)" "r = Inl e"
            from fetch_prepares [OF p4 this(1)] this(2) r show thesis by auto
          next
            fix x d5 assume "(if lazyFetch then lazy_fetch env T0 else ret ()) d4 = (d5, Inr x)" "?B T0 d5 = (d', r)"
            from fetch_prepares [OF p4 this(1)] this(2) that show thesis by simp
          qed
          from d5(2) show "protocol_inv T (d', todo)"
          proof (cases rule: bind_callE)
            case (1 e)
            then show ?thesis using create_runs [OF d5(1) 1(1)] r by simp
          next
            case (2 x d6)
            then show ?thesis using create_runs [OF d5(1) 2(1)] by (simp add: ret_def)
          qed
        qed
      qed
    qed
  qed
qed

lemma thread_keeps:
  assumes inv: "protocol_inv T (d, todo)" and alive: "d_threadRuns d" and step: "thread_step env e d = (d', Inr ())"
  shows "protocol_inv T (d', todo)"
proof -
  obtain b fc where b: "d_builder d = Some b" "front (d_server d) = Some (unat (d_buildId d), False, fc)" "0 < nbRunning (b_manager b) \<longrightarrow> \<not> fc"
    using inv alive by (auto simp: protocol_inv_def running_ok_def)
  obtain g where g: "d_graph d = Some g" using inv by (auto simp: protocol_inv_def)
  let ?b = "b\<lparr>b_graph := g, b_cache := Some (d_cache d), b_world := d_world d\<rparr>"
  obtain b' where b': "build_step (params_of env d) e ?b = Inr b'"
    using step g b(1) by (auto simp: thread_step_def with_graph_def Let_def split: sum.splits)
  let ?d = "d\<lparr>d_builder := Some b', d_graph := Some (b_graph b'), d_world := b_world b', d_cache := (case b_cache b' of None \<Rightarrow> d_cache d | Some cm \<Rightarrow> cm)\<rparr>"
  obtain s where s: "foldM (\<lambda>x. perform x (de_writes env)) (step_ops ?b b') (d_server d) = Inr s" "d' = ?d\<lparr>d_server := s\<rparr>"
    using step g b(1) b' by (auto simp: thread_step_def with_graph_def Let_def report_def on_server_def split: sum.splits)
  have ops: "\<forall>x \<in> set (step_ops ?b b'). during fc x"
    using build_step_reports [OF b'] b(3) by (auto simp: during_def starting_def)
  have mgr: "(\<exists>x \<in> set (step_ops ?b b'). starting x) \<or> \<not> fc \<or> b_manager b' = b_manager b"
    using build_step_reports [OF b'] b(3) by (cases "step_ops ?b b'") auto
  from stream.tell_all [OF _ b(2) ops s(1), of T todo] inv
  obtain fc' where "Stream_Server.reach T (s, todo)" "ss_newBuilds s = ss_newBuilds (d_server d)" "front s = Some (unat (d_buildId d), False, fc')"
    "fc' \<longrightarrow> fc \<and> (\<forall>x \<in> set (step_ops ?b b'). \<not> starting x)" by (auto simp: protocol_inv_def)
  then show ?thesis using inv s(2) alive mgr b(3) by (auto simp: protocol_inv_def running_ok_def ongoing_front)
qed

lemma report_one: "report env [x] d = (d', Inr ()) \<longleftrightarrow> (\<exists>s. perform x (de_writes env) (d_server d) = Inr s \<and> d' = d\<lparr>d_server := s\<rparr>)"
  by (auto simp: report_def on_server_def rbind_eq_Inr split: sum.splits)

lemma finish_keeps:
  assumes inv: "protocol_inv T (d, todo)" and alive: "d_threadRuns d" and b: "d_builder d = Some b" and step: "thread_end env d = (d', Inr ())"
  shows "protocol_inv T (d', todo)"
proof -
  obtain fc where f: "front (d_server d) = Some (unat (d_buildId d), False, fc)" "ss_newBuilds (d_server d) \<noteq> 0"
    "d_buildId d = word_of_nat (ss_newBuilds (d_server d) - 1)" and r: "Stream_Server.reach T (d_server d, todo)" "ongoing (d_server d)" "d_isBuilding d"
    using inv alive by (auto simp: protocol_inv_def running_ok_def)
  let ?x = "OpEndBuild (b_result b)"
  obtain s where s: "perform ?x (de_writes env) (d_server d) = Inr s"
    "d' = d\<lparr>d_server := s, d_buildId := d_buildId d + 1, d_isBuilding := False, d_threadRuns := False\<rparr>"
    using step b r(3) by (auto simp: thread_end_def onBuildCompleted_def bind_call_def ret_def report_one split: prod.splits sum.splits)
  have "Stream_Server.reach T (s, todo)" "front s = Some (unat (d_buildId d), True, fc)" "ss_newBuilds s = ss_newBuilds (d_server d)"
    using stream.ended [OF r(1) f(1) s(1)] by simp_all
  moreover have "d_buildId d + 1 = word_of_nat (ss_newBuilds (d_server d))"
    using f(2,3) by (cases "ss_newBuilds (d_server d)") (simp_all add: add.commute)
  ultimately show ?thesis using s(2) inv by (auto simp: protocol_inv_def ongoing_front)
qed

text \<open>A daemon that was started has an open port and a command server that serves.\<close>

lemma started:
  assumes "DaemonInstance dir en cache w = Inr d" "daemon_start env (loadConf g d) = (d', Inr ())"
  shows "\<exists>wc sock. d' = (loadConf g d)\<lparr>d_watchman := wc, d_server := StreamServer sock en,
     d_commandServer := Some \<lparr>cs_port = de_apiPort env, cs_calls = [Serve]\<rparr>\<rparr> \<and> d_graph d' = Some g \<and> \<not> d_isBuilding d' \<and> \<not> d_threadRuns d' \<and> d_buildId d' = 0"
proof -
  have d: "d_server d = StreamServer (-1) en" "d_commandServer d = None" "\<not> d_isBuilding d" "\<not> d_threadRuns d" "d_buildId d = 0"
    using assms(1) by (auto simp: DaemonInstance_def rbind_eq_Inr)
  obtain wc where "open_servers env ((loadConf g d)\<lparr>d_watchman := wc\<rparr>) = (d', Inr ())"
    using assms(2) d(2) by (auto simp: daemon_start_def loadConf_def split: prod.splits sum.splits error.splits)
  then show ?thesis using d openPort_new [of "de_socket env" "de_streamPort env" en]
    by (auto simp: open_servers_def loadConf_def CommandServer_def CommandServer_start_def split: prod.splits sum.splits)
qed

lemma call_keeps:
  assumes inv: "protocol_inv T (d, todo)" and step: "handle_call env pid c d = (d', r)" and r: "\<forall>e. r \<noteq> Inl (Failed e)"
  shows "protocol_inv T (d', todo)"
proof (cases "\<exists>targets k lazyFetch. c = StartBuild targets k lazyFetch")
  case True
  then obtain targets k lazyFetch where "bind_call (startBuild env targets k lazyFetch) (\<lambda>x. ret (Started x)) d = (d', r)"
    using step by (auto simp: reply_with_def)
  then show ?thesis by (rule bind_callE) (use startBuild_keeps [OF inv] r in \<open>auto simp: ret_def\<close>)
next
  case False
  then have "quiet (handle_call env pid c)" using quiet_calls by (cases c) auto
  from quietD [OF this step] show ?thesis by (rule same_protocol_inv [OF _ inv])
qed

lemma daemon_reach_inv: "daemon_reach T st \<Longrightarrow> protocol_inv T st"
proof (induction rule: daemon_reach.induct)
  case (init dir en cache w d env g d')
  from started [OF this] reach.init [of T _ en] show ?case
    by (auto simp: protocol_inv_def ongoing_def StreamServer_def)
next
  case (serve d todo a s todo')
  have "same_front (d_server d) s" by (rule act_front [OF serve(4,2)])
  moreover have "Stream_Server.reach T (s, todo')"
    by (rule reach.step [OF _ serve(3,4)]) (use serve.IH in \<open>simp add: protocol_inv_def\<close>)
  ultimately show ?case using serve.IH by (auto simp: protocol_inv_def same_front_def ongoing_front running_ok_def)
qed (auto intro: call_keeps thread_keeps finish_keeps)

section \<open>The command server\<close>

text \<open>Nothing but \<open>shutdown\<close> touches the command server.\<close>

definition keeps_server :: "'a call \<Rightarrow> bool" where
  "keeps_server m \<longleftrightarrow> (\<forall>d. d_commandServer (fst (m d)) = d_commandServer d)"

lemma keeps_serverD: "keeps_server m \<Longrightarrow> m d = (d', r) \<Longrightarrow> d_commandServer d' = d_commandServer d"
  by (metis keeps_server_def fst_conv)

lemma keeps_server_bind [intro]:
  assumes "keeps_server m" "\<And>x. keeps_server (f x)"
  shows "keeps_server (bind_call m f)"
  unfolding keeps_server_def
proof
  fix d
  obtain d1 r where m: "m d = (d1, r)" by force
  then show "d_commandServer (fst (bind_call m f d)) = d_commandServer d"
    using keeps_serverD [OF assms(1) m] assms(2) by (cases r) (simp_all add: bind_call_def keeps_server_def)
qed

lemma keeps_server_basic [intro, simp]:
  "keeps_server (ret x)" "keeps_server (raise_exn e)" "keeps_server (on_server f)" "keeps_server (report env ops)"
  by (simp_all add: keeps_server_def ret_def raise_exn_def on_server_def report_def split: sum.split)

lemma keeps_server_with_graph [intro]: "(\<And>g. keeps_server (f g)) \<Longrightarrow> keeps_server (with_graph f)"
  by (simp add: keeps_server_def with_graph_def split: option.split)

lemma keeps_server_on_shared [intro, simp]: "keeps_server (on_shared env f)"
  by (simp add: keeps_server_def on_shared_def with_graph_def split: option.split sum.split prod.split)

lemma keeps_server_find_target [intro]: "(\<And>g n. keeps_server (f g n)) \<Longrightarrow> keeps_server (find_target p f)"
  unfolding find_target_def by (auto split: option.split)

lemma keeps_server_update: "(\<And>d. d_commandServer (h d) = d_commandServer d) \<Longrightarrow> keeps_server (\<lambda>d. ret x (h d))"
  by (simp add: keeps_server_def ret_def)

lemma keeps_server_start: "keeps_server (startBuild env targets k lazyFetch)"
proof -
  have "keeps_server (create_builder env ts k)" for ts
    unfolding create_builder_def by (rule keeps_server_with_graph) (simp add: keeps_server_def split: sum.split)
  moreover have "keeps_server (\<lambda>d. report env (ops d) d)" for ops :: "daemon \<Rightarrow> builder_op list"
    by (simp add: keeps_server_def report_def on_server_def split: sum.split)
  moreover have "keeps_server startBuild_busy" by (simp add: keeps_server_def startBuild_busy_def)
  moreover have "keeps_server checkSourcesMissing" "keeps_server (find_targets targets)"
    unfolding checkSourcesMissing_def find_targets_def by (auto simp: keeps_server_def ret_def raise_exn_def with_graph_def split: option.split)
  moreover have "keeps_server (lazy_fetch env ts)" for ts unfolding lazy_fetch_def by auto
  ultimately show ?thesis unfolding startBuild_def startBuild_rest_def by (auto intro!: keeps_server_bind keeps_server_update)
qed

text \<open>What \<open>shutdown\<close> does: if the files cannot be taken from watchman it fails, and nothing else happens; if they can, it
  interrupts the build and tells the command server to stop.\<close>

lemma shutdown_cases:
  assumes "shutdown env d = (d', r)" "d_graph d = Some g" "d_commandServer d = Some cs"
  obtains (kept) wc e where "d' = d\<lparr>d_watchman := wc\<rparr>" "r = Inl (Failed e)"
    "snd (unwatchGraph (de_wm env) (de_wms env) g (d_watchman d)) = Inl e \<or> (\<exists>b. d_builder d = Some b \<and> builder_interrupt b = Inl e)"
  | (stopped) wc bo where "d' = d\<lparr>d_watchman := wc, d_builder := bo, d_commandServer := Some (CommandServer_stop cs)\<rparr>" "r = Inr ()"
    "\<forall>b. d_builder d = Some b \<longrightarrow> (\<exists>b'. builder_interrupt b = Inr b' \<and> bo = Some b')"
proof (cases "unwatchGraph (de_wm env) (de_wms env) g (d_watchman d)")
  case (Pair wc u)
  show thesis
  proof (cases u)
    case (Inl e)
    then show thesis using assms Pair by (intro kept [of wc e]) (auto simp: shutdown_def with_graph_def)
  next
    case (Inr x)
    consider (none) "d_builder d = None" | (err) b e where "d_builder d = Some b" "builder_interrupt b = Inl e"
      | (ok) b b' where "d_builder d = Some b" "builder_interrupt b = Inr b'"
      by (metis old.sum.exhaust not_None_eq)
    then show thesis
    proof cases
      case none
      then show thesis using assms Pair Inr
        by (intro stopped [where wc = wc and bo = None]) (auto simp: shutdown_def with_graph_def bind_call_def interruptBuild_def ret_def)
    next
      case err
      then show thesis using assms Pair Inr
        by (intro kept [of wc e]) (auto simp: shutdown_def with_graph_def bind_call_def interruptBuild_def)
    next
      case ok
      then show thesis using assms Pair Inr
        by (intro stopped [where wc = wc and bo = "Some b'"]) (auto simp: shutdown_def with_graph_def bind_call_def interruptBuild_def)
    qed
  qed
qed

lemma keeps_server_call:
  assumes "c \<noteq> Shutdown"
  shows "keeps_server (handle_call env pid c)"
proof -
  have get: "keeps_server (\<lambda>d. case d_graph d of None \<Rightarrow> (d, Inl x) | Some g \<Rightarrow> (d, Inr (f g)))" for x f
    by (simp add: keeps_server_def split: option.split)
  have upd: "keeps_server (\<lambda>d. ret () (d\<lparr>d_sourcesMissing := f d\<rparr>))" for f by (rule keeps_server_update) simp
  have mark: "keeps_server (mark_changed env n)" for n by (simp add: mark_changed_def)
  have node: "keeps_server (setDirty_node env g n)" for g n
    unfolding setDirty_node_def using mark upd by (auto split: option.split)
  have check: "keeps_server (\<lambda>d. case check k g of Inl e \<Rightarrow> (d, Inl (Failed e)) | Inr _ \<Rightarrow> ret () d)" for k g
    by (simp add: keeps_server_def ret_def split: sum.split)
  have reload: "keeps_server (reloadGraph env)"
    by (auto simp: keeps_server_def reloadGraph_def ret_def raise_exn_def keeps_server_on_shared [unfolded keeps_server_def, rule_format]
        split: sum.split error.split)
  have "keeps_server (setDirty env p)" for p
    unfolding setDirty_def using node by (auto intro!: keeps_server_bind [OF reload] keeps_server_with_graph check)
  moreover have "keeps_server interruptBuild" by (simp add: keeps_server_def interruptBuild_def ret_def split: option.split sum.split)
  moreover have "keeps_server getStatus" by (simp add: keeps_server_def getStatus_def ret_def)
  moreover have "keeps_server getGraphviz" unfolding getGraphviz_def by (rule get)
  ultimately show ?thesis using assms keeps_server_start
    by (cases c) (auto simp: reply_with_def getDirtySources_def getDirtyTargets_def getInputsOf_def getOutputsOf_def getHashOf_def)
qed

lemma keeps_server_thread: "keeps_server (thread_step env e)" "keeps_server (thread_end env)"
proof -
  show "keeps_server (thread_step env e)" unfolding thread_step_def
    by (rule keeps_server_with_graph)
      (auto simp: keeps_server_def report_def on_server_def Let_def split: option.split sum.split)
  show "keeps_server (thread_end env)"
    by (auto simp: keeps_server_def thread_end_def onBuildCompleted_def bind_call_def ret_def report_def on_server_def
        split: option.splits sum.splits prod.splits if_splits)
qed

lemma command_server_serves: "daemon_reach T st \<Longrightarrow> \<exists>cs. d_commandServer (fst st) = Some cs \<and> Serve \<in> set (cs_calls cs)"
proof (induction rule: daemon_reach.induct)
  case (init dir en cache w d env g d')
  from started [OF this] show ?case by auto
next
  case (call d todo env pid c d' r)
  then obtain cs where cs: "d_commandServer d = Some cs" "Serve \<in> set (cs_calls cs)" by auto
  show ?case
  proof (cases "c = Shutdown")
    case True
    obtain g where g: "d_graph d = Some g" using daemon_reach_inv [OF call(1)] by (auto simp: protocol_inv_def)
    obtain r' where "shutdown env d = (d', r')" using call(2) True by (auto simp: reply_with_def bind_call_def ret_def split: prod.splits sum.splits)
    then show ?thesis by (rule shutdown_cases [OF _ g cs(1)]) (auto simp: cs CommandServer_stop_def)
  next
    case False
    then show ?thesis using keeps_serverD [OF keeps_server_call call(2)] cs by simp
  qed
next
  case (thread d todo env e d')
  then show ?case using keeps_serverD [OF keeps_server_thread(1)] by fastforce
next
  case (finish d todo b env d')
  then show ?case using keeps_serverD [OF keeps_server_thread(2)] by fastforce
qed simp

text \<open>Without watchman the daemon starts, but it cannot be shut down: \<open>start\<close> catches the exception, \<open>shutdown\<close> does not.\<close>

lemma shutdown_needs_watchman:
  assumes "d_graph d = Some g" "\<not> wc_isConnected (d_watchman d)" "we_open1 (de_wm env) = SocketError err"
    and "\<forall>cmd. fst (we_run (de_wm env) cmd) \<noteq> EXIT_SUCCEEDED"
  shows "\<exists>e. shutdown env d = (d\<lparr>d_watchman := (d_watchman d)\<lparr>wc_socket := -1\<rparr>\<rparr>, Inl (Failed (Thrown e)))"
proof -
  let ?c = "(d_watchman d)\<lparr>wc_socket := -1\<rparr>"
  obtain st out where "we_run (de_wm env) (watchman_command ?c) = (st, out)" by force
  moreover have "st \<noteq> EXIT_SUCCEEDED" using assms(4) calculation by (metis fst_conv)
  ultimately show ?thesis using assms(1-3)
    by (auto simp: shutdown_def with_graph_def unwatchGraph_def wm_bind_def wm_try_def ensure_connected_def connectToWatchman_def
        openWatchmanSocket_def startWatchmanInstance_def throw_error_def split: prod.split)
qed

section \<open>Two clients at the same time\<close>

lemma newBuild_ongoing: "ongoing s \<Longrightarrow> newBuild i ws s = Inl (AssertFailed ''builds_.front().buildCompleted'')"
  by (auto simp: newBuild_def ongoing_def split: list.splits)

lemma startBuild_rest_ok:
  assumes "startBuild_rest env targets k lazyFetch d = (d1, Inr OK)" "d_graph d \<noteq> None"
  shows "d_sourcesMissing d1 = {}"
  using assms
  by (auto simp: startBuild_rest_def bind_call_def ret_def checkSourcesMissing_def with_graph_def raise_exn_def find_targets_def
      report_def on_server_def lazy_fetch_def on_shared_def create_builder_def split: option.splits sum.splits prod.splits if_splits)

lemma second_start_fails:
  assumes "d_graph d = Some g" "d_sourcesMissing d = {}" "ongoing (d_server d)"
  shows "\<exists>d2. startBuild_rest env {} k lazyFetch d = (d2, Inl (Failed (AssertFailed ''builds_.front().buildCompleted'')))"
proof -
  have refr: "(if cm_policy (d_cache d) = CACHE_GIT_REFS then d\<lparr>d_cache := gitUpdateRef (de_git env) (d_cache d)\<rparr> else d) = refreshed env d"
    by (simp add: refreshed_def)
  show ?thesis using assms
    by (simp add: startBuild_rest_def bind_call_def ret_def refr checkSourcesMissing_def with_graph_def find_targets_def report_def on_server_def newBuild_ongoing)
qed

section \<open>Properties\<close>


lemma example_reach: "daemon_reach T (example_daemon g w, [])"
  using example_daemon_started [of w g] by (blast intro: daemon_reach.init)

lemma sample_start:
  "\<exists>d. startBuild sample_env {} 1 False (example_daemon chain_graph empty_world) = (d, Inr OK) \<and> d_isBuilding d \<and>
     startBuild_rest sample_env {} 1 False (example_daemon chain_graph empty_world) = (d, Inr OK)"
proof -
  have l: "length (g_rules chain_graph) < de_fuel sample_env" by (simp add: chain_defs sample_env_def)
  obtain s where "newBuild 0 [Written] example_server = Inr s" using example_build(1) by blast
  then obtain d where d: "startBuild sample_env {} 1 False (example_daemon chain_graph empty_world) = (d, Inr OK)" "d_isBuilding d"
    by (subst (asm) startBuild_eq [OF example_daemon_sel(1) chain_inv(1) _ l]) (simp_all add: sample_env_def Let_def)
  have "startBuild_rest sample_env {} 1 False (example_daemon chain_graph empty_world) = (d, Inr OK)"
    using d(1) by (simp add: startBuild_def startBuild_busy_def bind_call_def)
  then show ?thesis using d by blast
qed


text \<open>C40. The test of \<open>isBuilding_\<close> and the later store are two steps, and the service runs every client in its own thread: when
  two clients start a build at the same time, both can find that no build runs. The first one starts its build; the
  second one then announces another build while the first is not complete, which fails the assertion in \<open>newBuild\<close> and
  aborts the daemon.\<close>

theorem concurrent_startBuild_aborts:
  assumes "daemon_reach T (d, todo)" and "\<not> d_isBuilding d" and "startBuild_rest env targets k lazyFetch d = (d1, Inr OK)"
  shows "startBuild_busy d = (d, Inr False) \<and>
     (\<exists>d2. startBuild_rest env' {} k' lazyFetch' d1 = (d2, Inl (Failed (AssertFailed ''builds_.front().buildCompleted''))))"
proof -
  have inv: "protocol_inv T (d, todo)" by (rule daemon_reach_inv [OF assms(1)])
  then have g: "d_graph d \<noteq> None" by (simp add: protocol_inv_def)
  have "startBuild env targets k lazyFetch d = (d1, Inr OK)" using assms(2,3) g by (simp add: startBuild_def startBuild_busy_def bind_call_def)
  from startBuild_keeps [OF inv this] have inv1: "protocol_inv T (d1, todo)" by simp
  have "d_isBuilding d1" using assms(3) g
    by (auto simp: startBuild_rest_def bind_call_def ret_def checkSourcesMissing_def with_graph_def raise_exn_def find_targets_def
        report_def on_server_def lazy_fetch_def on_shared_def create_builder_def split: option.splits sum.splits prod.splits if_splits)
  then have "ongoing (d_server d1)" "d_graph d1 \<noteq> None" using inv1 by (simp_all add: protocol_inv_def)
  then show ?thesis using second_start_fails [of d1] startBuild_rest_ok [OF assms(3) g] g assms(2) by (auto simp: startBuild_busy_def)
qed

theorem concurrent_startBuild_aborts_witness:
  "\<exists>d1 d2. startBuild_rest sample_env {} 1 False (example_daemon chain_graph empty_world) = (d1, Inr OK) \<and>
     startBuild_rest sample_env {} 1 False d1 = (d2, Inl (Failed (AssertFailed ''builds_.front().buildCompleted'')))"
proof -
  obtain d where d: "startBuild_rest sample_env {} 1 False (example_daemon chain_graph empty_world) = (d, Inr OK)" using sample_start by blast
  have "daemon_reach True (example_daemon chain_graph empty_world, [])" by (rule example_reach)
  from concurrent_startBuild_aborts [OF this _ d, of sample_env 1 False] show ?thesis using d by auto
qed

end
