(* ===== verification/Program.thy ===== *)
theory Program
  imports Startup Daemon
begin

text \<open>
  The program: options, \<open>src/src/options.cpp\<close>, the set-up of the log, \<open>src/src/logging.cpp\<close>, and \<open>main\<close>,
  \<open>src/src/main.cpp\<close>. The library \<open>boost::program_options\<close> is a parameter; what is relied on is the documented behaviour
  of \<open>store\<close>: a value that is there and is not a default is kept.
\<close>

section \<open>Class Options\<close>

datatype po_kind = KString | KInt | KSeverity

datatype po_value = PString string | PInt int | PSeverity int | PFlag

record option_descr =
  od_name :: string
  od_kind :: "po_kind option"
  od_default :: "po_value option"

text \<open>A variable has a value and a flag that tells that the value is a default.\<close>

type_synonym variables_map = "string \<Rightarrow> (po_value \<times> bool) option"

record options =
  o_cliDesc :: "option_descr list"
  o_cFileDesc :: "option_descr list"
  o_desc :: "option_descr list"
  o_vm :: variables_map
  o_programName :: string
  o_logDirectory :: string

text \<open>The functions of the library: a value, or the text of the exception.\<close>

record po_library =
  parse_command_line :: "option_descr list \<Rightarrow> string list \<Rightarrow> string + (string \<times> po_value) list"
  parse_config_file :: "option_descr list \<Rightarrow> string \<Rightarrow> string + (string \<times> po_value) list"
  po_store :: "option_descr list \<Rightarrow> (string \<times> po_value) list \<Rightarrow> variables_map \<Rightarrow> string + variables_map"
  po_notify :: "variables_map \<Rightarrow> string option"
  po_bad_cast :: string

definition addCLIOption :: "string \<Rightarrow> po_kind option \<Rightarrow> po_value option \<Rightarrow> options \<Rightarrow> options" where
  "addCLIOption name kind def opt = opt\<lparr>o_cliDesc := o_cliDesc opt @ [\<lparr>od_name = name, od_kind = kind, od_default = def\<rparr>]\<rparr>"

definition addCFileOption :: "string \<Rightarrow> po_kind option \<Rightarrow> po_value option \<Rightarrow> options \<Rightarrow> options" where
  "addCFileOption name kind def opt = opt\<lparr>o_cFileDesc := o_cFileDesc opt @ [\<lparr>od_name = name, od_kind = kind, od_default = def\<rparr>]\<rparr>"

text \<open>Only the long names are modelled; the library replaces the short ones.\<close>

definition Options :: options where
  "Options = addCLIOption ''help'' None None
     \<lparr>o_cliDesc = [], o_cFileDesc = [], o_desc = [], o_vm = Map.empty, o_programName = [], o_logDirectory = []\<rparr>"

definition isOptionSetted :: "string \<Rightarrow> options \<Rightarrow> bool" where
  "isOptionSetted name opt \<longleftrightarrow> o_vm opt name \<noteq> None"

text \<open>The flags of the log library.\<close>

record glog =
  FLAGS_logtostderr :: bool
  FLAGS_stderrthreshold :: int
  FLAGS_log_dir :: string
  FLAGS_minloglevel :: int
  FLAGS_v :: int
  log_name :: "string option"

definition defaultlogging :: "string \<Rightarrow> int \<Rightarrow> string \<Rightarrow> glog \<Rightarrow> glog" where
  "defaultlogging programName lvl logDir lg =
     (if logDir = [] then lg\<lparr>FLAGS_logtostderr := True\<rparr> else lg\<lparr>FLAGS_stderrthreshold := 3, FLAGS_log_dir := logDir\<rparr>)
       \<lparr>FLAGS_minloglevel := lvl, FLAGS_v := -1, log_name := Some programName\<rparr>"

definition testlogging :: "string \<Rightarrow> glog \<Rightarrow> glog" where
  "testlogging programName lg = lg\<lparr>FLAGS_logtostderr := True, FLAGS_v := -1, FLAGS_minloglevel := 1, log_name := Some programName\<rparr>"

text \<open>What ends the program: an exception of the program, or an exception that nobody catches.\<close>

datatype failure = Caught exn | BadAnyCast | Uncaught error | ServiceError service_exn

definition as_string :: "string \<Rightarrow> options \<Rightarrow> failure + string" where
  "as_string name opt = (case o_vm opt name of Some (PString s, _) \<Rightarrow> Inr s | _ \<Rightarrow> Inl BadAnyCast)"

definition as_int :: "string \<Rightarrow> options \<Rightarrow> failure + int" where
  "as_int name opt = (case o_vm opt name of Some (PInt i, _) \<Rightarrow> Inr i | _ \<Rightarrow> Inl BadAnyCast)"

definition as_severity :: "string \<Rightarrow> options \<Rightarrow> failure + int" where
  "as_severity name opt = (case o_vm opt name of Some (PSeverity i, _) \<Rightarrow> Inr i | _ \<Rightarrow> Inl BadAnyCast)"

definition bindF :: "'e + 'a \<Rightarrow> ('a \<Rightarrow> 'e + 'b) \<Rightarrow> 'e + 'b" where
  "bindF m f = (case m of Inl e \<Rightarrow> Inl e | Inr x \<Rightarrow> f x)"

lemma bindF_simps [simp]: "bindF (Inl e) f = Inl e" "bindF (Inr x) f = f x"
  by (simp_all add: bindF_def)

text \<open>A block whose exceptions become an error \<open>EINVAL\<close>.\<close>

definition einval :: "string + 'a \<Rightarrow> failure + 'a" where
  "einval m = (case m of Inl what \<Rightarrow> Inl (Caught (Exception EINVAL what)) | Inr x \<Rightarrow> Inr x)"

lemma einval_simps [simp]: "einval (Inr x) = Inr x" "einval (Inl s) = Inl (Caught (Exception EINVAL s))"
  by (simp_all add: einval_def)

definition store_notify :: "po_library \<Rightarrow> option_descr list \<Rightarrow> (string \<times> po_value) list \<Rightarrow> variables_map \<Rightarrow> string + variables_map" where
  "store_notify lib desc opts vm =
     bindF (po_store lib desc opts vm) (\<lambda>vm. case po_notify lib vm of Some what \<Rightarrow> Inl what | None \<Rightarrow> Inr vm)"

text \<open>The configuration file, if there is one, and then the command line again.\<close>

definition parse_config :: "po_library \<Rightarrow> string list \<Rightarrow> options \<Rightarrow> failure + options" where
  "parse_config lib argv opt =
     (if \<not> isOptionSetted ''config'' opt then Inr opt
      else case o_vm opt ''config'' of
             Some (PString f, _) \<Rightarrow>
               einval (bindF (parse_config_file lib (o_cFileDesc opt) f) (\<lambda>opts.
                       bindF (po_store lib (o_cFileDesc opt) opts (o_vm opt)) (\<lambda>vm.
                       bindF (parse_command_line lib (o_desc opt) argv) (\<lambda>opts.
                       bindF (store_notify lib (o_desc opt) opts vm) (\<lambda>vm. Inr (opt\<lparr>o_vm := vm\<rparr>))))))
           | _ \<Rightarrow> Inl (Caught (Exception EINVAL (po_bad_cast lib))))"

text \<open>\<open>argv\<close> has the program as its first element.\<close>

definition parseOptions :: "po_library \<Rightarrow> (int \<Rightarrow> string) \<Rightarrow> string list \<Rightarrow> options \<Rightarrow> glog \<Rightarrow> failure + (options \<times> glog)" where
  "parseOptions lib strerror argv opt lg =
     (let opt = opt\<lparr>o_desc := o_desc opt @ o_cliDesc opt @ o_cFileDesc opt\<rparr> in
      bindF (einval (bindF (parse_command_line lib (o_desc opt) argv) (\<lambda>opts. store_notify lib (o_desc opt) opts (o_vm opt)))) (\<lambda>vm.
      bindF (parse_config lib argv (opt\<lparr>o_vm := vm\<rparr>)) (\<lambda>opt.
        if isOptionSetted ''help'' opt then Inl (Caught (Exception_code strerror 0))
        else
          let opt = opt\<lparr>o_programName := hd argv\<rparr> in
          bindF (if isOptionSetted ''log-dir'' opt then bindF (as_string ''log-dir'' opt) (\<lambda>d. Inr (opt\<lparr>o_logDirectory := d\<rparr>)) else Inr opt) (\<lambda>opt.
          bindF (as_severity ''log-level'' opt) (\<lambda>lvl. Inr (opt, defaultlogging (o_programName opt) lvl (o_logDirectory opt) lg))))))"

section \<open>Class GlobalConfig\<close>

record global_config =
  gc_jsonGraphFile :: string
  gc_networkAPIPort :: int
  gc_networkStreamPort :: int
  gc_workingDirectoryPath :: string
  gc_falconDir :: string
  gc_programName :: string
  gc_logDirectory :: string
  gc_runDaemonBuilder :: bool

definition setWorkingDirectoryPath :: "string \<Rightarrow> global_config \<Rightarrow> global_config" where
  "setWorkingDirectoryPath s c = c\<lparr>gc_workingDirectoryPath := s, gc_falconDir := s @ ''/.falcon''\<rparr>"

definition GlobalConfig :: "options \<Rightarrow> failure + global_config" where
  "GlobalConfig opt =
     bindF (as_string ''graph'' opt) (\<lambda>graph.
     bindF (as_int ''api-port'' opt) (\<lambda>api.
     bindF (as_int ''stream-port'' opt) (\<lambda>stream.
     bindF (as_string ''working-directory'' opt) (\<lambda>dir.
       Inr (setWorkingDirectoryPath dir
         \<lparr>gc_jsonGraphFile = graph, gc_networkAPIPort = api, gc_networkStreamPort = stream, gc_workingDirectoryPath = [], gc_falconDir = [],
          gc_programName = o_programName opt, gc_logDirectory = o_logDirectory opt, gc_runDaemonBuilder = isOptionSetted ''daemon'' opt\<rparr>)))))"

section \<open>Function main\<close>

text \<open>\<open>pwd\<close> is the result of \<open>getenv\<close>.\<close>

definition setOptions :: "string option \<Rightarrow> options \<Rightarrow> options" where
  "setOptions pwd opt =
     (case pwd of
        None \<Rightarrow> opt
      | Some pwdString \<Rightarrow>
          addCFileOption ''log-dir'' (Some KString) None
         (addCFileOption ''log-level'' (Some KSeverity) (Some (PSeverity 1))
         (addCFileOption ''stream-port'' (Some KInt) (Some (PInt 4343))
         (addCFileOption ''api-port'' (Some KInt) (Some (PInt 4242))
         (addCFileOption ''graph'' (Some KString) (Some (PString ''makefile.json''))
         (addCFileOption ''working-directory'' (Some KString) (Some (PString pwdString))
         (addCLIOption ''config'' (Some KString) None
         (addCLIOption ''module'' (Some KString) None
         (addCLIOption ''daemon'' None None opt)))))))))"

text \<open>The exit code and what is written to the standard output.\<close>

definition loadModule :: "graph \<Rightarrow> string \<Rightarrow> int \<times> string" where
  "loadModule g s =
     (if s = ''dot'' then (0, printGraphGraphviz g)
      else if s = ''make'' then (0, printGraphMakefile g)
      else if s = ''help''
      then (0, ''list of available modules: '' @ endl @ ''  dot    show the graph in DOT format'' @ endl @
               ''  make   show the graph in Makefile format'' @ endl)
      else (1, []))"

datatype outcome = Exit int string | Terminated failure | Serves daemon

text \<open>What \<open>main\<close> needs from the system: the arguments, the environment variable, the results of the two calls of \<open>fork\<close>, the
  event object that the constructor of the stream server makes, and the environment of the calls.\<close>

record main_env =
  me_argv :: "string list"
  me_pwd :: "string option"
  me_lib :: po_library
  me_fork1 :: int
  me_fork2 :: int
  me_eventFd :: event_notifier
  me_denv :: daemon_env

definition config_env :: "main_env \<Rightarrow> global_config \<Rightarrow> daemon_env" where
  "config_env env config = (me_denv env)\<lparr>de_workingDirectory := gc_workingDirectoryPath config, de_graphFile := gc_jsonGraphFile config,
     de_apiPort := gc_networkAPIPort config, de_streamPort := word_of_int (gc_networkStreamPort config)\<rparr>"

text \<open>The parent processes return; the last child runs the daemon, until the command server is started.\<close>

definition daemonize :: "main_env \<Rightarrow> global_config \<Rightarrow> graph \<Rightarrow> cache_manager \<Rightarrow> world \<Rightarrow> outcome" where
  "daemonize env config g cache w =
     (if me_fork1 env \<noteq> 0 \<or> me_fork2 env \<noteq> 0 then Exit 0 []
      else
        case DaemonInstance (gc_workingDirectoryPath config) (me_eventFd env) cache w of
          Inl e \<Rightarrow> Terminated (Uncaught e)
        | Inr d \<Rightarrow>
            (case daemon_start (config_env env config) (loadConf g d) of
               (d, Inr _) \<Rightarrow> Serves d
             | (d, Inl e) \<Rightarrow> Terminated (ServiceError e)))"

definition exit_on :: "'a result \<Rightarrow> ('a \<Rightarrow> outcome) \<Rightarrow> outcome" where
  "exit_on m f = (case m of Inl (Thrown e) \<Rightarrow> Exit (e_code e) [] | Inl e \<Rightarrow> Terminated (Uncaught e) | Inr x \<Rightarrow> f x)"

text \<open>\<open>main\<close> after the options; an exception of the scan is not caught.\<close>

definition main_with :: "main_env \<Rightarrow> options \<Rightarrow> global_config \<Rightarrow> world \<Rightarrow> outcome" where
  "main_with env opt config w =
     (let de = me_denv env; w = snd (fs_mkdir (gc_falconDir config) w) in
      exit_on (processFile (de_mem de) (de_alloc de) w (gc_jsonGraphFile config) Graph_empty) (\<lambda>g.
      exit_on (checkGraphLoop (de_strerror de) (de_fuel de) g) (\<lambda>_.
        let cache = CacheManager (de_git de) (gc_workingDirectoryPath config) (gc_falconDir config) in
        case scan (de_sha de) (de_alloc de) (de_fuel de) (de_stat de) (g, Some cache, w) of
          Inl e \<Rightarrow> Terminated (Uncaught e)
        | Inr (g, cache', w) \<Rightarrow>
            if isOptionSetted ''module'' opt
            then (case as_string ''module'' opt of
                    Inl e \<Rightarrow> Terminated e
                  | Inr s \<Rightarrow> (case loadModule g s of (code, out) \<Rightarrow> Exit code out))
            else daemonize env config g (case cache' of None \<Rightarrow> cache | Some cm \<Rightarrow> cm) w)))"

text \<open>The text of the help is written by the library and left out.\<close>

definition main_program :: "main_env \<Rightarrow> glog \<Rightarrow> world \<Rightarrow> outcome" where
  "main_program env lg w =
     (case parseOptions (me_lib env) (de_strerror (me_denv env)) (me_argv env) (setOptions (me_pwd env) Options) lg of
        Inl (Caught e) \<Rightarrow> Exit (e_code e) []
      | Inl e \<Rightarrow> Terminated e
      | Inr (opt, lg) \<Rightarrow>
          (case GlobalConfig opt of
             Inl e \<Rightarrow> Terminated e
           | Inr config \<Rightarrow> main_with env opt config w))"

text \<open>When the start of the program succeeds, \<open>main\<close> runs a module or the daemon on the graph that the start returns.\<close>

definition start_env_of :: "main_env \<Rightarrow> global_config \<Rightarrow> start_env" where
  "start_env_of env config =
     (let de = me_denv env in
      \<lparr>se_workingDirectory = gc_workingDirectoryPath config, se_graphFile = gc_jsonGraphFile config, se_mem = de_mem de, se_alloc = de_alloc de,
       se_strerror = de_strerror de, se_sha = de_sha de, se_stat = de_stat de, se_git = de_git de\<rparr>)"

lemma main_with_startup:
  assumes "startup (start_env_of env config) (de_fuel (me_denv env)) w = Inr (g, Some cm, w')"
    and "gc_falconDir config = gc_workingDirectoryPath config @ ''/.falcon''" "\<not> isOptionSetted ''module'' opt"
  shows "main_with env opt config w = daemonize env config g cm w'"
  using assms by (auto simp: startup_def main_with_def start_env_of_def falcon_dir_def exit_on_def Let_def rbind_eq_Inr)

section \<open>Which value an option gets\<close>

definition default_of :: "option_descr list \<Rightarrow> string \<Rightarrow> po_value option" where
  "default_of desc name = (case find (\<lambda>d. od_name d = name) desc of None \<Rightarrow> None | Some d \<Rightarrow> od_default d)"

text \<open>The documented behaviour of \<open>store\<close>: a value that is there is kept unless it is a default; then the parsed options are
  used, then the defaults of the description.\<close>

definition merged :: "option_descr list \<Rightarrow> (string \<times> po_value) list \<Rightarrow> variables_map \<Rightarrow> variables_map" where
  "merged desc opts vm name =
     (case vm name of
        Some (v, False) \<Rightarrow> Some (v, False)
      | old \<Rightarrow>
          (case map_of opts name of
             Some v \<Rightarrow> Some (v, False)
           | None \<Rightarrow> (case old of Some x \<Rightarrow> Some x | None \<Rightarrow> map_option (\<lambda>v. (v, True)) (default_of desc name))))"

definition documented :: "po_library \<Rightarrow> bool" where
  "documented lib \<longleftrightarrow> (\<forall>desc opts vm. po_store lib desc opts vm = Inr (merged desc opts vm)) \<and> (\<forall>vm. po_notify lib vm = None)"

definition file_desc :: "string \<Rightarrow> option_descr list" where
  "file_desc pwd = o_cFileDesc (setOptions (Some pwd) Options)"

definition all_desc :: "string \<Rightarrow> option_descr list" where
  "all_desc pwd = o_cliDesc (setOptions (Some pwd) Options) @ file_desc pwd"

text \<open>The parsers return options of the description, with a value of the declared kind.\<close>

definition kind_ok :: "po_kind option \<Rightarrow> po_value \<Rightarrow> bool" where
  "kind_ok k v \<longleftrightarrow> (case k of None \<Rightarrow> v = PFlag | Some KString \<Rightarrow> (\<exists>s. v = PString s) | Some KInt \<Rightarrow> (\<exists>i. v = PInt i) | Some KSeverity \<Rightarrow> (\<exists>i. v = PSeverity i))"

definition described :: "option_descr list \<Rightarrow> (string \<times> po_value) list \<Rightarrow> bool" where
  "described desc opts \<longleftrightarrow> (\<forall>(name, v) \<in> set opts. \<exists>d \<in> set desc. od_name d = name \<and> kind_ok (od_kind d) v)"

definition chosen :: "string \<Rightarrow> (string \<times> po_value) list \<Rightarrow> (string \<times> po_value) list \<Rightarrow> string \<Rightarrow> po_value option" where
  "chosen pwd cli cfile name =
     (case map_of cli name of Some v \<Rightarrow> Some v | None \<Rightarrow> (case map_of cfile name of Some v \<Rightarrow> Some v | None \<Rightarrow> default_of (all_desc pwd) name))"

lemmas desc_defs = all_desc_def file_desc_def setOptions_def Options_def addCLIOption_def addCFileOption_def

lemma merged_twice:
  "map_option fst (merged (all_desc pwd) cli (merged (file_desc pwd) cfile (merged (all_desc pwd) cli Map.empty)) name) = chosen pwd cli cfile name"
proof -
  have "default_of (all_desc pwd) name = None \<Longrightarrow> default_of (file_desc pwd) name = None" by (auto simp: default_of_def desc_defs split: if_splits)
  then show ?thesis
    by (cases "map_of cli name"; cases "map_of cfile name"; cases "default_of (all_desc pwd) name")
      (simp_all add: merged_def chosen_def)
qed

lemma map_of_described:
  assumes "map_of opts name = Some v" "described desc opts"
  shows "\<exists>d \<in> set desc. od_name d = name \<and> kind_ok (od_kind d) v"
  using map_of_SomeD [OF assms(1)] assms(2) by (auto simp: described_def)

lemma chosen_kinds:
  assumes "described (all_desc pwd) cli" "described (file_desc pwd) cfile"
  shows "\<exists>s. chosen pwd cli cfile ''graph'' = Some (PString s)" "\<exists>s. chosen pwd cli cfile ''working-directory'' = Some (PString s)"
    "\<exists>i. chosen pwd cli cfile ''api-port'' = Some (PInt i)" "\<exists>i. chosen pwd cli cfile ''stream-port'' = Some (PInt i)"
    "\<exists>i. chosen pwd cli cfile ''log-level'' = Some (PSeverity i)" "chosen pwd cli cfile ''log-dir'' = None \<or> (\<exists>s. chosen pwd cli cfile ''log-dir'' = Some (PString s))"
proof -
  have k: "map_of cli name = Some v \<Longrightarrow> \<exists>d \<in> set (all_desc pwd). od_name d = name \<and> kind_ok (od_kind d) v"
    "map_of cfile name = Some v \<Longrightarrow> \<exists>d \<in> set (file_desc pwd). od_name d = name \<and> kind_ok (od_kind d) v" for name v
    using map_of_described assms by blast+
  have d: "default_of (all_desc pwd) ''graph'' = Some (PString ''makefile.json'')" "default_of (all_desc pwd) ''working-directory'' = Some (PString pwd)"
    "default_of (all_desc pwd) ''api-port'' = Some (PInt 4242)" "default_of (all_desc pwd) ''stream-port'' = Some (PInt 4343)"
    "default_of (all_desc pwd) ''log-level'' = Some (PSeverity 1)" "default_of (all_desc pwd) ''log-dir'' = None"
    by (simp_all add: default_of_def desc_defs)
  show "\<exists>s. chosen pwd cli cfile ''graph'' = Some (PString s)"
    using k [of "''graph''"] d(1) by (auto simp: chosen_def kind_ok_def desc_defs split: option.split)
  show "\<exists>s. chosen pwd cli cfile ''working-directory'' = Some (PString s)"
    using k [of "''working-directory''"] d(2) by (auto simp: chosen_def kind_ok_def desc_defs split: option.split)
  show "\<exists>i. chosen pwd cli cfile ''api-port'' = Some (PInt i)"
    using k [of "''api-port''"] d(3) by (auto simp: chosen_def kind_ok_def desc_defs split: option.split)
  show "\<exists>i. chosen pwd cli cfile ''stream-port'' = Some (PInt i)"
    using k [of "''stream-port''"] d(4) by (auto simp: chosen_def kind_ok_def desc_defs split: option.split)
  show "\<exists>i. chosen pwd cli cfile ''log-level'' = Some (PSeverity i)"
    using k [of "''log-level''"] d(5) by (auto simp: chosen_def kind_ok_def desc_defs split: option.split)
  show "chosen pwd cli cfile ''log-dir'' = None \<or> (\<exists>s. chosen pwd cli cfile ''log-dir'' = Some (PString s))"
    using k [of "''log-dir''"] d(6) by (auto simp: chosen_def kind_ok_def desc_defs split: option.split)
qed

lemma parseOptions_vm:
  assumes lib: "documented lib"
    and cli: "parse_command_line lib (all_desc pwd) argv = Inr cli" "map_of cli ''config'' = Some (PString f)"
    and cf: "parse_config_file lib (file_desc pwd) f = Inr cfile"
  shows "parse_config lib argv ((setOptions (Some pwd) Options)\<lparr>o_desc := all_desc pwd, o_vm := merged (all_desc pwd) cli Map.empty\<rparr>) =
    Inr ((setOptions (Some pwd) Options)\<lparr>o_desc := all_desc pwd,
      o_vm := merged (all_desc pwd) cli (merged (file_desc pwd) cfile (merged (all_desc pwd) cli Map.empty))\<rparr>)"
proof -
  have "merged (all_desc pwd) cli Map.empty ''config'' = Some (PString f, False)" using cli(2) by (simp add: merged_def)
  moreover have "o_cFileDesc (setOptions (Some pwd) Options) = file_desc pwd" by (simp add: file_desc_def)
  ultimately show ?thesis using lib cli(1) cf by (simp add: parse_config_def isOptionSetted_def documented_def store_notify_def)
qed


definition sample_library :: po_library where
  "sample_library = \<lparr>parse_command_line = (\<lambda>desc argv. Inr [(''config'', PString ''f''), (''graph'', PString ''g'')]),
     parse_config_file = (\<lambda>desc f. Inr [(''graph'', PString ''h''), (''api-port'', PInt 80)]),
     po_store = (\<lambda>desc opts vm. Inr (merged desc opts vm)), po_notify = (\<lambda>_. None), po_bad_cast = []\<rparr>"


text \<open>Without the environment variable no option is registered, and reading the log level ends the program with an exception
  that nobody catches.\<close>

lemma no_pwd_terminates:
  assumes "documented lib" "parse_command_line lib [\<lparr>od_name = ''help'', od_kind = None, od_default = None\<rparr>] (me_argv env) = Inr []"
    and "me_lib env = lib" "me_pwd env = None"
  shows "main_program env lg w = Terminated BadAnyCast"
proof -
  have "merged desc [] Map.empty name = None" if "\<forall>d \<in> set desc. od_default d = None" for desc name
    using that by (auto simp: merged_def default_of_def find_Some_iff split: option.split)
  then show ?thesis using assms
    by (simp add: main_program_def parseOptions_def setOptions_def Options_def addCLIOption_def documented_def store_notify_def parse_config_def
        isOptionSetted_def as_severity_def Let_def)
qed

end
