(* ===== verification/Test_Suite.thy ===== *)
theory Test_Suite
  imports Falcon_Prelude "HOL-Library.Word"
begin

text \<open>
  The unit test helper, \<open>src/src/test.cpp\<close> and \<open>src/src/test.h\<close>: a collection of tests that are run once, and two printers
  for the result. What the virtual functions of a test do is a parameter.
\<close>

section \<open>Class Test\<close>

record test =
  t_success :: bool
  t_commentMessage :: string
  t_errorMessage :: string

definition Test :: "string \<Rightarrow> string \<Rightarrow> test" where
  "Test msg error = \<lparr>t_success = False, t_commentMessage = msg, t_errorMessage = error\<rparr>"

text \<open>The three virtual functions.\<close>

record test_functions =
  prepareTest :: "test \<Rightarrow> test"
  runTest :: "test \<Rightarrow> test"
  closeTest :: "test \<Rightarrow> test"

section \<open>Class TestSuite\<close>

record test_suite =
  ts_title :: string
  ts_tests :: "(test_functions \<times> test) list"
  ts_passed :: "32 word"
  ts_failed :: "32 word"
  ts_errors :: "test list"

definition TestSuite :: "string \<Rightarrow> test_suite" where
  "TestSuite title = \<lparr>ts_title = title, ts_tests = [], ts_passed = 0, ts_failed = 0, ts_errors = []\<rparr>"

definition suite_add :: "(test_functions \<times> test) option \<Rightarrow> test_suite \<Rightarrow> test_suite result" where
  "suite_add t s = (case t of None \<Rightarrow> Inl (AssertFailed ''t != nullptr'') | Some t \<Rightarrow> Inr (s\<lparr>ts_tests := ts_tests s @ [t]\<rparr>))"

definition run_one :: "test_functions \<times> test \<Rightarrow> test" where
  "run_one = (\<lambda>(f, t). closeTest f (runTest f (prepareTest f t)))"

definition run_step :: "test_functions \<times> test \<Rightarrow> test_suite \<Rightarrow> test_suite" where
  "run_step ft s =
     (let t = run_one ft in
      if t_success t then s\<lparr>ts_passed := ts_passed s + 1\<rparr> else s\<lparr>ts_errors := ts_errors s @ [t], ts_failed := ts_failed s + 1\<rparr>)"

definition suite_run :: "test_suite \<Rightarrow> test_suite result" where
  "suite_run s =
     assert_that ''(passed_ == 0) && (failed_ == 0)'' (ts_passed s = 0 \<and> ts_failed s = 0)
       (assert_that ''errors_.empty()'' (ts_errors s = []) (Inr (fold run_step (ts_tests s) s)))"

definition fails :: "test_suite \<Rightarrow> 32 word" where
  "fails s = ts_failed s"

fun escape :: "string \<Rightarrow> string" where
  "escape [] = []"
| "escape (c # cs) = (if c = CHR 0x22 then [CHR 0x5C] else []) @ [c] @ escape cs"

definition in_quotes :: "string \<Rightarrow> string" where
  "in_quotes s = [CHR 0x22] @ s @ [CHR 0x22]"

text \<open>The entry of a failed test, and the separator between entries.\<close>

definition print_info :: "test \<Rightarrow> string" where
  "print_info t = ''    { '' @ in_quotes ''input'' @ '' : '' @ in_quotes (escape (t_commentMessage t)) @ '','' @ endl @
     ''      '' @ in_quotes ''error'' @ '' : '' @ in_quotes (escape (t_errorMessage t)) @ ''}''"

fun print_infos :: "test list \<Rightarrow> string" where
  "print_infos [] = []"
| "print_infos [t] = print_info t @ endl"
| "print_infos (t # ts) = print_info t @ '','' @ endl @ print_infos ts"

definition printJsonOutput :: "test_suite \<Rightarrow> string" where
  "printJsonOutput s =
     ''{'' @ endl @ ''  '' @ in_quotes ''title'' @ '' : '' @ in_quotes (escape (ts_title s)) @ '','' @ endl @
     ''  '' @ in_quotes ''success'' @ '': '' @ (if ts_failed s \<noteq> 0 then ''false'' else ''true'') @ '','' @ endl @
     ''  '' @ in_quotes ''passed'' @ '' : '' @ show_nat (unat (ts_passed s)) @
     (if ts_failed s \<noteq> 0
      then '','' @ endl @ ''  '' @ in_quotes ''failed'' @ '' : '' @ show_nat (unat (ts_failed s)) @ '','' @ endl @
           ''  '' @ in_quotes ''infos'' @ ''  : ['' @ endl @ print_infos (ts_errors s) @ ''  ]'' @ endl
      else endl) @ ''}'' @ endl"

definition printStandardOutput :: "test_suite \<Rightarrow> string" where
  "printStandardOutput s =
     '' ['' @ ts_title s @ '']'' @ endl @
     ''   Tests:     '' @ show_nat (unat (ts_passed s + ts_failed s)) @ endl @
     ''   Succeeded: '' @ show_nat (unat (ts_passed s)) @ endl @
     ''   Failed:    '' @ show_nat (unat (ts_failed s)) @ endl @
     concat (map (\<lambda>t. ''   [TEST]'' @ endl @ ''     comment: '' @ t_commentMessage t @ endl @ ''     error:   '' @ t_errorMessage t @ endl) (ts_errors s)) @
     endl"

section \<open>What a run counts\<close>

lemma run_steps:
  "fold run_step fts s =
     s\<lparr>ts_passed := ts_passed s + of_nat (length (filter (\<lambda>ft. t_success (run_one ft)) fts)),
       ts_failed := ts_failed s + of_nat (length (filter (\<lambda>ft. \<not> t_success (run_one ft)) fts)),
       ts_errors := ts_errors s @ filter (\<lambda>t. \<not> t_success t) (map run_one fts)\<rparr>"
  by (induction fts arbitrary: s) (simp_all add: run_step_def Let_def)

text \<open>Every test is run once and counted on one side; the failed ones are kept in order. Running the suite again fails an
  assertion when there is a test.\<close>

lemma suite_run_counts:
  assumes "ts_tests s = fts" "ts_passed s = 0" "ts_failed s = 0" "ts_errors s = []" "length fts < 2 ^ 32"
  shows "\<exists>s'. suite_run s = Inr s' \<and> unat (ts_passed s') + unat (ts_failed s') = length fts \<and>
     ts_errors s' = filter (\<lambda>t. \<not> t_success t) (map run_one fts) \<and> (fails s' = 0 \<longleftrightarrow> (\<forall>ft \<in> set fts. t_success (run_one ft))) \<and>
     (fts \<noteq> [] \<longrightarrow> (\<exists>e. suite_run s' = Inl (AssertFailed e)))"
proof -
  let ?p = "length (filter (\<lambda>ft. t_success (run_one ft)) fts)" and ?f = "length (filter (\<lambda>ft. \<not> t_success (run_one ft)) fts)"
  let ?s = "s\<lparr>ts_passed := of_nat ?p, ts_failed := of_nat ?f, ts_errors := filter (\<lambda>t. \<not> t_success t) (map run_one fts)\<rparr>"
  have sum: "?p + ?f = length fts" by (rule sum_length_filter_compl)
  then have less: "?p < 2 ^ 32" "?f < 2 ^ 32" using assms(5) by linarith+
  have u: "unat (of_nat ?p :: 32 word) = ?p" "unat (of_nat ?f :: 32 word) = ?f" using less by (simp_all add: unat_of_nat take_bit_nat_eq_self)
  have zero: "(of_nat ?f :: 32 word) = 0 \<longleftrightarrow> ?f = 0" "(of_nat ?p :: 32 word) = 0 \<longleftrightarrow> ?p = 0" by (simp_all only: unat_eq_zero [symmetric] u)
  have "suite_run s = Inr ?s" using assms by (simp add: suite_run_def run_steps)
  moreover have "\<exists>e. suite_run ?s = Inl (AssertFailed e)" if "fts \<noteq> []"
  proof -
    have "?p \<noteq> 0 \<or> ?f \<noteq> 0" using that sum by (cases fts) auto
    then show ?thesis using zero by (auto simp: suite_run_def)
  qed
  moreover have "fails ?s = 0 \<longleftrightarrow> (\<forall>ft \<in> set fts. t_success (run_one ft))" using zero(1) by (simp add: fails_def filter_empty_conv)
  ultimately show ?thesis using u sum by (intro exI [of _ ?s]) simp
qed

text \<open>A backslash is not escaped: after a text that ends with one, the closing quote is read as part of the text.\<close>

lemma escape_backslash: "in_quotes (escape [CHR 0x5C]) = [CHR 0x22] @ escape [CHR 0x22]"
  by (simp add: in_quotes_def)

end
