(* ===== verification/Spec2Isabelle.thy ===== *)
theory Spec2Isabelle
  imports Startup Hash_Meaning Json_Safety Daemon_Protocol Program Test_Suite
begin

text \<open>
  Falcon is a build daemon. It reads a graph of files (nodes) and commands (rules) from a JSON file, keeps it in memory,
  learns from a file watching service what changed, and builds targets for clients. This development models its C++ code
  under \<open>src/src\<close> as functions of HOL and proves what the parts promise and that they fit together.

  \<^bold>\<open>Conventions.\<close> (\<open>Falcon_Prelude\<close>, \<open>Falcon_Exceptions\<close>) An operation returns a value of type \<open>'a result\<close>: \<open>Inr\<close>, or \<open>Inl\<close>
  of an error, which is an exception, a failed assertion, undefined behaviour (null pointer, use after free, index out of
  bounds, wrong iterator), a call that does not return (\<open>Blocks\<close>), or the end of a recursion bound (\<open>NoFuel\<close>). Loops are
  \<open>foldM\<close>. Objects that C++ code shares through pointers are heaps inside of the record that owns them: \<open>g_node\<close> and
  \<open>g_rule\<close> of a graph map addresses to nodes and rules. A \<open>std::set\<close> of pointers is a set that is visited in the order of
  the addresses; the order of an \<open>unordered_map\<close> is that of an association list and so is arbitrary. Numbers of 32 and 64
  bits are words where the code can wrap around.

  \<^bold>\<open>Parts and theories.\<close>
  \<^item> The graph, \<open>graph.h\<close>, \<open>graph.cpp\<close>: \<open>Graph_Model\<close>, with the invariants \<open>wf_graph\<close> (pointers agree), \<open>acyclic_graph\<close>,
    \<open>counters_ok\<close> (every rule counts its ready inputs) and \<open>state_ok\<close>; dirty marking equals a reference definition.
    \<open>Graph_Cycle\<close> (\<open>graph_cycle.cpp\<close>): the cycle check decides whether a root depends on a cycle. \<open>Graph_Printers\<close>
    (\<open>graph_printers.cpp\<close>): the Makefile that is printed can be read back.
  \<^item> From the file to the graph: \<open>Json_Library\<close> (\<open>json/json.c\<close>: the tables, the push parser, the printer and the tree
    builder), \<open>Json_Document\<close> (\<open>json/parser.cpp\<close>), \<open>Graph_Parser\<close> (\<open>graphparser.cpp\<close>). \<open>Json_Roundtrip\<close>: printed text is
    parsed back, in pieces of any size. \<open>Json_Grammar\<close>: every text of a grammar of JSON, with white space, escapes and
    numbers as its author likes, is parsed to the document that it denotes. \<open>Json_Automaton\<close> and \<open>Json_Safety\<close>: the tables have a type, and no input of any
    bytes makes the parser leave its memory, except by nesting too deep. \<open>Graph_Parser\<close> refines a list of rules.
  \<^item> Hashes: \<open>Graph_Hash\<close> and \<open>Hash_Recompute\<close> (\<open>graph_hash.cpp\<close>), \<open>Depfile_Parser\<close> (\<open>depfile_parser.cpp\<close>, an automaton with
    a reference definition) and \<open>Depfile\<close> (\<open>depfile.cpp\<close>). \<open>Dependency_Scan\<close> (\<open>graph_dependency_scan.cpp\<close>): the scan on
    start marks exactly what is stale relative to the time stamps. \<open>Consistency_Checker\<close> (\<open>graph_consistency_checker.cpp\<close>).
  \<^item> The cache: \<open>File_System\<close> (\<open>fs.cpp\<close> and the part of the system that is used), \<open>Cache_FS\<close> (\<open>cache_fs.cpp\<close>; the locale
    \<open>content_store\<close> is its interface), \<open>Cache_Git\<close> (\<open>cache_git_directory.cpp\<close>, refines a map), \<open>Cache_Manager\<close>
    (\<open>cache_manager.cpp\<close>: what was saved is restored, all outputs or none), \<open>Lazy_Cache\<close> (\<open>lazy_cache.cpp\<close>).
  \<^item> The build: \<open>Build_Plan\<close> (\<open>build_plan.cpp\<close>: the plan holds exactly the needed rules), \<open>Process_Manager\<close>
    (\<open>posix_subprocess.cpp\<close>, \<open>posix_subprocess_manager.cpp\<close>; the locale \<open>process_pool\<close>), \<open>Parallel_Builder\<close>
    (\<open>graph_builder.cpp\<close>, \<open>graph_parallel_builder.cpp\<close>: the build thread as a machine whose steps get the answers of the
    system; safety with any cache, and termination). \<open>Incremental_Build\<close> adds the contents of the files: an incremental
    build gives the files of a build from scratch. \<open>Cached_Build\<close> shows the same, and termination, for a build with a
    cache whose entries are right, and that they stay right. \<open>Hash_Meaning\<close> gives the reason why entries are right: if the
    hash function has no collision, a hash means the same content in all versions of a project, and so a cache is never
    wrong, whatever edits and builds came before.
  \<^item> \<open>Transition_System\<close> holds the locales \<open>machine\<close>, \<open>guarded_machine\<close>, \<open>total_machine\<close> and \<open>terminating_machine\<close>, with what
    follows for all runs from what is shown of one step. They are interpreted by the builder, by the builder with files,
    by the builder with a cache, and by the stream server.
  \<^item> The services: \<open>Event_Notifier\<close> (\<open>util/event.cpp\<close>), \<open>Stream_Server\<close> (\<open>stream_server.cpp\<close>: all interleavings with a build
    thread that keeps a protocol), \<open>Watchman_Client\<close> (\<open>watchman.cpp\<close>, \<open>stream_consumer.cpp\<close>), \<open>Graph_Reloader\<close>
    (\<open>graph_reloader.cpp\<close>).
  \<^item> The daemon: \<open>Daemon\<close> (\<open>daemon_instance.cpp\<close>, \<open>command_server.cpp\<close>) with its start, which opens the ports and starts the
    threads, and the effect of the calls, and \<open>Daemon_Protocol\<close>
    with all interleavings of clients, build thread and stream server. The locale \<open>build_consumer\<close> is the interface
    through which builds are reported; the protocol that \<open>Stream_Server\<close> assumes of the build thread is shown there for
    the real one. \<open>Startup\<close> and \<open>Program\<close> (\<open>main.cpp\<close>, \<open>options.cpp\<close>, \<open>logging.cpp\<close>) hold the program around it,
    \<open>Test_Suite\<close> the helper for unit tests (\<open>test.cpp\<close>).
  \<^item> This theory composes parser, cycle check, scan, plan and builder: from the text of the graph file to a finished build.

  \<^bold>\<open>Bounds.\<close> Recursion over the graph has a bound \<open>k\<close> in the model, because in C++ it would not end on a cycle. The theorems
  state which bound is enough: twice the number of nodes for traversals that visit nodes and rules in turn, more than the
  number of rules for the plan. Functions that only loop because the system is slow (\<open>poll\<close>, \<open>read\<close>, \<open>send\<close>, \<open>accept\<close>) get
  the list of the answers of the system; they block when the list ends.

  \<^bold>\<open>Parameters.\<close> The hash function, the allocator (which address a new object gets, what uninitialised memory holds),
  \<open>strerror\<close>, git, the watchman process, \<open>boost::program_options\<close>, and what system calls return. Hypotheses about them are
  named in the theorems: the allocator returns fresh addresses, a hash is not empty, the option library stores values as
  documented.

  \<^bold>\<open>Limits.\<close> The theorems on builds, hashes and the scan are for graphs without depfiles; loading a depfile is modelled, and
  findings tell where it breaks invariants. What a command writes is a parameter of the theorems on the contents of files.
  That there is no collision of hashes is assumed of pairs (of path and content, of inputs and command), which is more
  than the hash function alone can give, because the code hashes them without a separator. An exception inside of a component
  leaves the state of that component undefined in the model. Calls of a client are one step in \<open>Daemon_Protocol\<close>; what
  happens when two clients start a build at once is shown separately.

  \<^bold>\<open>Not modelled.\<close> What the Thrift library does inside (the calls on its server object are recorded in the order in which
  \<open>CommandServer\<close> makes them), the text of log messages and of the help, destructors where they only release memory, the
  debug variants of macros, the iterators and operators of helper classes that the program does not use, and the clients
  and tests of the repository.
\<close>

section \<open>From the graph file to a finished build\<close>

lemma stale_skel:
  assumes "skel g' = skel g"
  shows "stale g' r \<longleftrightarrow> stale g r"
proof
  show "stale g r" if "stale g' r"
    using that by induction (auto simp: skel_newer [OF assms] skelD [OF assms] intro: stale.intros)
  show "stale g' r" if "stale g r"
    using that by induction (auto simp: skel_newer [OF assms, symmetric] skelD [OF assms, symmetric] intro: stale.intros)
qed

text \<open>The time stamps tell the truth: the outputs of a rule that is not stale are what its command gives.\<close>

definition truthful :: "commands \<Rightarrow> graph \<Rightarrow> contents \<Rightarrow> bool" where
  "truthful cmd g c \<longleftrightarrow> (\<forall>r \<in> set (g_rules g). \<not> stale g r \<and> \<not> Rule_isPhony g r \<longrightarrow> built cmd g c r)"

lemma build_after_scan:
  assumes "graph_inv g" "length (g_rules g) < k" "\<forall>r \<in> set (g_rules g). Rule_isDirty g r \<longleftrightarrow> stale g r"
  shows "\<forall>T \<subseteq> live g. \<exists>p. BuildPlan k g T = Inr p \<and>
        (\<forall>P ss. 0 < bp_numThreads P \<and> sched_ok P ss (GraphParallelBuilder g p None w) \<and>
             3 * card (p_rules p) + 4 \<le> length (filter is_Step ss) \<longrightarrow>
           (\<exists>b. build_run P ss (GraphParallelBuilder g p None w) = Inr b \<and> b_pc b = Done \<and> nbRunning (b_manager b) = 0 \<and>
              (b_result b = SUCCEEDED \<and> \<not> b_interrupted b \<longrightarrow>
                 (\<forall>t \<in> T. input_ready (b_graph b) t) \<and>
                 (\<forall>cmd. truthful cmd g (content w) \<and> disk_sched_ok P cmd ss (GraphParallelBuilder g p None w) \<longrightarrow>
                    (\<forall>t \<in> T. content (b_world b) (path g t) = clean_build (Suc (length (g_nodes g))) cmd g (content w) t)))))"
proof (intro allI impI)
  fix T assume T: "T \<subseteq> live g"
  obtain p where p: "BuildPlan k g T = Inr p"
    using BuildPlan_correct [of g T k] assms(1,2) T by (auto simp: graph_inv_def strict_states_def)
  have settled: "settled cmd g (content w)" if "truthful cmd g (content w)" for cmd
    using that assms(3) by (simp add: truthful_def settled_def)
  note ends = build_ends [OF assms(1) T p assms(2)] and files = build_files(2) [OF assms(1) T p assms(2) _ _ _ settled]
  show "\<exists>p. BuildPlan k g T = Inr p \<and>
        (\<forall>P ss. 0 < bp_numThreads P \<and> sched_ok P ss (GraphParallelBuilder g p None w) \<and>
             3 * card (p_rules p) + 4 \<le> length (filter is_Step ss) \<longrightarrow>
           (\<exists>b. build_run P ss (GraphParallelBuilder g p None w) = Inr b \<and> b_pc b = Done \<and> nbRunning (b_manager b) = 0 \<and>
              (b_result b = SUCCEEDED \<and> \<not> b_interrupted b \<longrightarrow>
                 (\<forall>t \<in> T. input_ready (b_graph b) t) \<and>
                 (\<forall>cmd. truthful cmd g (content w) \<and> disk_sched_ok P cmd ss (GraphParallelBuilder g p None w) \<longrightarrow>
                    (\<forall>t \<in> T. content (b_world b) (path g t) = clean_build (Suc (length (g_nodes g))) cmd g (content w) t)))))"
  proof (intro exI [of _ p] conjI p allI impI, elim conjE)
    fix P ss assume P: "0 < bp_numThreads P" "sched_ok P ss (GraphParallelBuilder g p None w)" "3 * card (p_rules p) + 4 \<le> length (filter is_Step ss)"
    from ends [OF this] obtain b where b: "build_run P ss (GraphParallelBuilder g p None w) = Inr b" "b_pc b = Done" "nbRunning (b_manager b) = 0"
      "b_result b = SUCCEEDED \<and> \<not> b_interrupted b \<longrightarrow> (\<forall>t \<in> T. input_ready (b_graph b) t)" by blast
    then show "\<exists>b. build_run P ss (GraphParallelBuilder g p None w) = Inr b \<and> b_pc b = Done \<and> nbRunning (b_manager b) = 0 \<and>
              (b_result b = SUCCEEDED \<and> \<not> b_interrupted b \<longrightarrow>
                 (\<forall>t \<in> T. input_ready (b_graph b) t) \<and>
                 (\<forall>cmd. truthful cmd g (content w) \<and> disk_sched_ok P cmd ss (GraphParallelBuilder g p None w) \<longrightarrow>
                    (\<forall>t \<in> T. content (b_world b) (path g t) = clean_build (Suc (length (g_nodes g))) cmd g (content w) t)))"
      using files [OF P(1,2) _ _ b(1,2)] by blast
  qed
qed

text \<open>C1. The parts fit together. Let the graph file hold any JSON text whose document has a list of valid rules: outputs, all
  different, no cycle, no depfile. Then the program starts (all recursion bounds above some number do): the file is read
  in pieces and parsed, the cycle check passes, and after the scan the rules of the graph are those of the document,
  exactly the stale ones are dirty, and the invariant of the builder holds. For every set of targets the build plan is
  made without an error, and a builder without a cache that is allowed at least one thread ends under every schedule
  in which the commands end; when it succeeds without an interruption, all targets are up to date. If moreover the time
  stamps tell the truth, which means that the outputs of the rules that are not stale are what their commands give, and
  the commands write what \<open>cmd\<close> gives, then the targets have the contents that a build from scratch computes from the
  sources.\<close>

theorem startup_then_build:
  assumes "ifstream_read w (se_graphFile env) = u @ jt_text t @ u'" "blank u" "blank u'" "jt_ok t" "is_document t" "jt_depth t \<le> 1024"
    and "\<forall>n > 0. se_mem env n" "getObject ''rules'' (jt_value t) = Some (JArray js)" "fresh_allocator (se_alloc env)"
    and "\<forall>j \<in> set js. is_rule j \<longrightarrow> valid_rule (se_graphFile env) j" "outputs_disjoint (spec_of js)"
    and "acyclic (doc_edges (spec_of js))" "\<forall>v \<in> set (spec_of js). snd (snd (snd v)) = []" "\<forall>x. se_sha env x \<noteq> []"
  shows "\<exists>K. \<forall>k \<ge> K. \<exists>g cm w'. startup env k w = Inr (g, Some cm, w') \<and> graph_inv g \<and>
     map (rule_view g) (g_rules g) = map rule_spec (filter is_rule js) \<and> (\<forall>r \<in> set (g_rules g). Rule_isDirty g r \<longleftrightarrow> stale g r) \<and>
     (\<forall>T \<subseteq> live g. \<exists>p. BuildPlan k g T = Inr p \<and>
        (\<forall>P ss. 0 < bp_numThreads P \<and> sched_ok P ss (GraphParallelBuilder g p None w') \<and>
             3 * card (p_rules p) + 4 \<le> length (filter is_Step ss) \<longrightarrow>
           (\<exists>b. build_run P ss (GraphParallelBuilder g p None w') = Inr b \<and> b_pc b = Done \<and> nbRunning (b_manager b) = 0 \<and>
              (b_result b = SUCCEEDED \<and> \<not> b_interrupted b \<longrightarrow>
                 (\<forall>t \<in> T. input_ready (b_graph b) t) \<and>
                 (\<forall>cmd. truthful cmd g (content w') \<and> disk_sched_ok P cmd ss (GraphParallelBuilder g p None w') \<longrightarrow>
                    (\<forall>t \<in> T. content (b_world b) (path g t) = clean_build (Suc (length (g_nodes g))) cmd g (content w') t))))))"
proof -
  obtain g0 where g0: "processJson (se_alloc env) (se_graphFile env) (JArray js) Graph_empty = Inr g0" "unscanned g0"
    "map (rule_view g0) (g_rules g0) = spec_of js"
    using parsed_unscanned [OF assms(9-13)] by blast
  have wf: "wf_graph g0" "acyclic_graph g0" using g0(2) by (simp_all add: unscanned_def plain_graph_def)
  let ?w = "snd (fs_mkdir (falcon_dir env) w)" and ?cm = "CacheManager (se_git env) (se_workingDirectory env) (falcon_dir env)"
  show ?thesis
  proof (intro exI [of _ "2 * length (g_nodes g0) + length (g_rules g0) + 1"] allI impI, goal_cases)
    case k: (1 k)
    then obtain g where g: "scan (se_sha env) (se_alloc env) k (se_stat env) (g0, Some ?cm, ?w) = Inr (g, Some ?cm, ?w)" "graph_inv g"
      "skel g = skel (stat_all (se_stat env) g0)" "\<forall>r \<in> set (g_rules g0). Rule_isDirty g r \<longleftrightarrow> stale (stat_all (se_stat env) g0) r"
      using scan_graph_inv [OF g0(2) assms(14), of k "se_alloc env" "se_stat env" "Some ?cm" ?w] by auto
    have "processFile (se_mem env) (se_alloc env) ?w (se_graphFile env) Graph_empty = Inr g0"
      using processFile_document [of ?w, OF _ assms(2-8)] assms(1) g0(1) by simp
    then have run: "startup env k w = Inr (g, Some ?cm, ?w)"
      using checkGraphLoop_correct [OF wf(1), of k "se_strerror env"] acyclic_not_bad [OF wf] k g(1) by (simp add: startup_def Let_def)
    have same: "g_rules g = g_rules g0" "rule_view g = rule_view g0"
      by (simp_all add: skelD [OF g(3)] stat_all_eq rule_view_def fun_eq_iff)
    have dirty: "\<forall>r \<in> set (g_rules g). Rule_isDirty g r \<longleftrightarrow> stale g r" using g(4) by (simp add: stale_skel [OF g(3)] same)
    have len: "length (g_rules g) < k" using k same(1) by simp
    have specs: "map (rule_view g) (g_rules g) = map rule_spec (filter is_rule js)" using g0(3) same by (simp add: spec_of_def)
    show ?case
      by (intro exI [of _ g] exI [of _ ?cm] exI [of _ ?w] conjI run g(2) dirty specs build_after_scan [OF g(2) len dirty])
  qed
qed

definition example_start :: start_env where
  "example_start = \<lparr>se_workingDirectory = ''/w'', se_graphFile = ''g.json'', se_mem = (\<lambda>_. True), se_alloc = some_allocator,
     se_strerror = (\<lambda>_. ''Invalid argument''), se_sha = tag, se_stat = (\<lambda>_. None), se_git = (\<lambda>_. undefined)\<rparr>"

text \<open>The graph file of the example, laid out by hand: the members of a rule come in another order than they are stored.\<close>

definition example_file :: jtext where
  "example_file =
     (let sp = '' ''; nl = [CHR 0x0A] in
      TObject [([], nl, ''rules'', sp, sp, TArray
        [([], nl, TObject [([], [], ''outputs'', [], sp, TArray [([], [], TString ''b'')] []), ([], sp, ''cmd'', [], [], TString ''cc''),
             ([], sp, ''inputs'', [], sp, TArray [([], [], TString ''a''), (sp, [], TString ''a'')] [])] sp),
         ([], sp, TNull),
         (sp, nl, TObject [([], [], ''inputs'', [], [], TArray [([], [], TString ''b'')] sp),
             ([], sp, ''outputs'', [], sp, TArray [([], [], TString ''c'')] [])] [])] nl)] nl)"

lemma example_file_ok:
  "jt_ok example_file" "is_document example_file" "jt_depth example_file \<le> 1024" "jt_value example_file = JObject [(''rules'', JArray example_doc)]"
proof -
  show "jt_ok example_file" "is_document example_file" "jt_depth example_file \<le> 1024"
    by (simp_all add: example_file_def Let_def raw_ok_def blank_def)
  show "jt_value example_file = JObject [(''rules'', JArray example_doc)]" by code_simp
qed

lemma for_some:
  assumes "\<exists>K. \<forall>k \<ge> K :: nat. \<exists>x y z. P k x y z \<and> Q k x y z \<and> R k x y z \<and> S k x y z"
  shows "\<exists>k x y z. P k x y z \<and> Q k x y z \<and> R k x y z"
  using assms order_refl by blast

theorem startup_then_build_witness:
  "\<exists>k g cm w'. startup example_start k \<lparr>w_files = [''g.json'' \<mapsto> File (jt_text example_file) 0], w_denied = {}, w_time = 0\<rparr>
     = Inr (g, Some cm, w') \<and> graph_inv g \<and> map (rule_view g) (g_rules g) = [({''a''}, {''b''}, ''cc'', []), ({''b''}, {''c''}, [], [])]"
proof -
  let ?w = "\<lparr>w_files = [''g.json'' \<mapsto> File (jt_text example_file) 0], w_denied = {}, w_time = 0\<rparr> :: world"
  note doc = example_doc_eval
  have edges: "doc_edges (spec_of example_doc) = {(''a'', ''b''), (''b'', ''c'')}" by (auto simp: doc_edges_def doc(3))
  have acyclic: "acyclic (doc_edges (spec_of example_doc))" unfolding edges
    by (rule acyclic_subset [OF wf_acyclic [OF wf_measure [of "\<lambda>s. of_char (hd s) :: nat"]]]) simp
  have read: "ifstream_read ?w (se_graphFile example_start) = [] @ jt_text example_file @ []" "blank []"
    by (simp_all add: ifstream_read_def example_start_def blank_def)
  have env: "\<forall>n > 0. se_mem example_start n" "getObject ''rules'' (jt_value example_file) = Some (JArray example_doc)"
    "fresh_allocator (se_alloc example_start)" "\<forall>j \<in> set example_doc. is_rule j \<longrightarrow> valid_rule (se_graphFile example_start) j"
    "\<forall>v \<in> set (spec_of example_doc). snd (snd (snd v)) = []" "\<forall>x. se_sha example_start x \<noteq> []"
    using doc(1,3) some_allocator_fresh by (simp_all add: example_start_def tag_def example_file_ok(4))
  have spec: "[({''a''}, {''b''}, ''cc'', []), ({''b''}, {''c''}, [], [])] = map rule_spec (filter is_rule example_doc)"
    using doc(3) by (simp add: spec_of_def)
  show ?thesis unfolding spec
    by (rule for_some [OF startup_then_build [OF read(1,2,2) example_file_ok(1-3) env(1-4) doc(2) acyclic env(5,6)]])
qed

end
